(* ===== verification/Vdb_Prelude.thy ===== *)
theory Vdb_Prelude
  imports Main "HOL-Library.Word" "HOL-Library.Multiset"
begin

text \<open>
  What the components share: the exception hierarchy of \<^verbatim>\<open>include/vectordb/core/error.hpp\<close> as a
  datatype, computations that may throw as sums (\<open>Inl\<close> the exception in flight), the fixed-width
  integer types of \<^verbatim>\<open>include/vectordb/core/types.hpp\<close>, and generic lemmas on lists.
  Exception messages are left out; the numbers an exception object carries as fields are kept.
\<close>

named_theorems result_simps \<open>inversion of computations that may throw\<close>

section \<open>Exceptions\<close>

text \<open>
  One constructor per class of the hierarchy. \<open>StdException\<close> stands for an exception of the C++
  library itself (\<^verbatim>\<open>std::invalid_argument\<close> and friends), which is outside the hierarchy.
\<close>

datatype error =
    InvalidArgumentError
  | DimensionMismatchError nat nat \<comment> \<open>expected, actual\<close>
  | InvalidVectorError
  | NotFoundError
  | DuplicateIdError "64 word"
  | IoError
  | CorruptionError
  | UnsupportedVersionError nat nat \<comment> \<open>found, supported\<close>
  | MetadataError
  | NotImplementedError
  | StdException

type_synonym 'a result = "error + 'a"

text \<open>What a \<^verbatim>\<open>catch\<close> clause for each base class accepts: the subclass relation.\<close>

fun is_invalid_argument :: "error \<Rightarrow> bool" where
  "is_invalid_argument InvalidArgumentError = True"
| "is_invalid_argument (DimensionMismatchError _ _) = True"
| "is_invalid_argument InvalidVectorError = True"
| "is_invalid_argument _ = False"

fun is_corruption :: "error \<Rightarrow> bool" where
  "is_corruption CorruptionError = True"
| "is_corruption (UnsupportedVersionError _ _) = True"
| "is_corruption _ = False"

fun is_io_error :: "error \<Rightarrow> bool" where
  "is_io_error IoError = True"
| "is_io_error _ = False"

fun is_vdb_error :: "error \<Rightarrow> bool" where
  "is_vdb_error StdException = False"
| "is_vdb_error _ = True"

section \<open>Sequencing\<close>

definition rbind :: "'a result \<Rightarrow> ('a \<Rightarrow> 'b result) \<Rightarrow> 'b result" where
  "rbind r f = (case r of Inl e \<Rightarrow> Inl e | Inr x \<Rightarrow> f x)"

text \<open>\<open>guard_throw c e\<close> is the statement \<^verbatim>\<open>if (c) throw e;\<close>.\<close>

definition guard_throw :: "bool \<Rightarrow> error \<Rightarrow> unit result" where
  "guard_throw c e = (if c then Inl e else Inr ())"

lemma rbind_simps [simp]: "rbind (Inl e) f = Inl e" "rbind (Inr x) f = f x"
  by (simp_all add: rbind_def)

lemma guard_throw_simps [simp]: "guard_throw True e = Inl e" "guard_throw False e = Inr ()"
  by (simp_all add: guard_throw_def)

lemma rbind_Inr_iff [result_simps]: "rbind r f = Inr y \<longleftrightarrow> (\<exists>x. r = Inr x \<and> f x = Inr y)"
  by (cases r) auto

lemma rbind_Inl_iff [result_simps]:
  "rbind r f = Inl e \<longleftrightarrow> r = Inl e \<or> (\<exists>x. r = Inr x \<and> f x = Inl e)"
  by (cases r) auto

lemma rbind_unit_iff: "rbind r f = Inr y \<longleftrightarrow> r = Inr () \<and> f () = Inr y"
  by (cases r) auto

lemma guard_throw_Inr_iff [result_simps]: "guard_throw c e = Inr u \<longleftrightarrow> \<not> c"
  by (simp add: guard_throw_def)

lemma guard_throw_Inl_iff [result_simps]: "guard_throw c e = Inl e' \<longleftrightarrow> c \<and> e' = e"
  by (auto simp: guard_throw_def)

lemma rbind_cong [fundef_cong]:
  "r = r' \<Longrightarrow> (\<And>x. r' = Inr x \<Longrightarrow> f x = f' x) \<Longrightarrow> rbind r f = rbind r' f'"
  by (cases r') auto

section \<open>Integer types\<close>

type_synonym u8 = "8 word"
type_synonym u32 = "32 word"
type_synonym u64 = "64 word"
type_synonym vector_id = u64
type_synonym local_id = nat
type_synonym byte = "8 word"

text \<open>
  \<open>LocalId\<close> and \<open>Dimension\<close> are 32-bit unsigned. They index arrays, so they are naturals here; the
  casts that narrow to them are written out as \<open>cast_u32\<close>.
\<close>

definition cast_u32 :: "nat \<Rightarrow> nat" where
  "cast_u32 n = n mod 2 ^ 32"

definition kInvalidLocalId :: local_id where
  "kInvalidLocalId = 2 ^ 32 - 1"

definition kInvalidVectorId :: vector_id where
  "kInvalidVectorId = - 1"

definition kMaxDimension :: nat where
  "kMaxDimension = 65536"

definition kMaxVectorCount :: nat where
  "kMaxVectorCount = 2 ^ 32 - 1 - 1"

lemma cast_u32_id: "n < 2 ^ 32 \<Longrightarrow> cast_u32 n = n"
  by (simp add: cast_u32_def)

lemma cast_u32_slot: "n < kMaxVectorCount \<Longrightarrow> cast_u32 n = n"
  by (simp add: cast_u32_def kMaxVectorCount_def)

section \<open>Lists\<close>

lemma filter_length_conv_card:
  "length (filter P xs) = card {i. i < length xs \<and> P (xs ! i)}"
  by (simp add: length_filter_conv_card)

lemma nth_append_single [simp]: "(xs @ [x]) ! length xs = x"
  by simp

text \<open>Overwriting a run of cells, as a loop \<^verbatim>\<open>destination[i] = source[i]\<close> does.\<close>

definition overwrite :: "'a list \<Rightarrow> nat \<Rightarrow> 'a list \<Rightarrow> 'a list" where
  "overwrite xs off ys = take off xs @ ys @ drop (off + length ys) xs"

lemma length_overwrite [simp]: "off + length ys \<le> length xs \<Longrightarrow> length (overwrite xs off ys) = length xs"
  by (simp add: overwrite_def)

lemma nth_overwrite:
  "off + length ys \<le> length xs \<Longrightarrow> i < length xs \<Longrightarrow>
   overwrite xs off ys ! i = (if off \<le> i \<and> i < off + length ys then ys ! (i - off) else xs ! i)"
  by (auto simp: overwrite_def nth_append min_def)

text \<open>The \<open>i\<close>-th run of \<open>d\<close> cells of a flat array.\<close>

definition block :: "nat \<Rightarrow> nat \<Rightarrow> 'a list \<Rightarrow> 'a list" where
  "block d i xs = take d (drop (i * d) xs)"

lemma length_block [simp]: "i < n \<Longrightarrow> length xs = n * d \<Longrightarrow> length (block d i xs) = d"
proof -
  assume "i < n" "length xs = n * d"
  then have "Suc i * d \<le> length xs"
    by (metis Suc_leI mult_le_mono1)
  then show ?thesis
    by (simp add: block_def)
qed

lemma block_append1: "i < n \<Longrightarrow> length xs = n * d \<Longrightarrow> block d i (xs @ ys) = block d i xs"
proof -
  assume "i < n" "length xs = n * d"
  then have "Suc i * d \<le> length xs"
    by (metis Suc_leI mult_le_mono1)
  then show ?thesis
    by (simp add: block_def)
qed

lemma block_append2: "length xs = n * d \<Longrightarrow> length v = d \<Longrightarrow> block d n (xs @ v) = v"
  by (simp add: block_def)

lemma block_overwrite:
  assumes "length xs = n * d" "i < n" "j < n" "length v = d"
  shows "block d i (overwrite xs (j * d) v) = (if i = j then v else block d i xs)"
proof -
  have j: "j * d + d \<le> length xs"
    using assms(1,3) by (metis Suc_leI add.commute mult_Suc mult_le_mono1)
  have i: "i * d + d \<le> length xs"
    using assms(1,2) by (metis Suc_leI add.commute mult_Suc mult_le_mono1)
  show ?thesis
  proof (rule nth_equalityI)
    show "length (block d i (overwrite xs (j * d) v)) = length (if i = j then v else block d i xs)"
      using assms i j by (simp add: block_def)
  next
    fix k assume "k < length (block d i (overwrite xs (j * d) v))"
    then have k: "k < d" using i j assms by (simp add: block_def)
    have "block d i (overwrite xs (j * d) v) ! k = overwrite xs (j * d) v ! (i * d + k)"
      using i j k assms by (simp add: block_def)
    also have "\<dots> = (if j * d \<le> i * d + k \<and> i * d + k < j * d + d then v ! (i * d + k - j * d)
                     else xs ! (i * d + k))"
      using i j k assms by (simp add: nth_overwrite)
    also have "\<dots> = (if i = j then v else block d i xs) ! k"
    proof (cases "i = j")
      case True
      then show ?thesis using k by simp
    next
      case False
      have "\<not> (j * d \<le> i * d + k \<and> i * d + k < j * d + d)"
      proof
        assume a: "j * d \<le> i * d + k \<and> i * d + k < j * d + d"
        from a k have "j * d < Suc i * d" "i * d < Suc j * d" by auto
        then have "j < Suc i" "i < Suc j" using mult_less_cancel2 by blast+
        with False show False by simp
      qed
      then have "(if j * d \<le> i * d + k \<and> i * d + k < j * d + d then v ! (i * d + k - j * d)
                  else xs ! (i * d + k)) = xs ! (i * d + k)" by (rule if_not_P)
      then show ?thesis using False i k by (simp add: block_def)
    qed
    finally show "block d i (overwrite xs (j * d) v) ! k = (if i = j then v else block d i xs) ! k" .
  qed
qed

section \<open>Decimal text\<close>

text \<open>\<^verbatim>\<open>std::to_string\<close> of an unsigned integer.\<close>

definition digit_char :: "nat \<Rightarrow> char" where
  "digit_char d = char_of (48 + d)"

fun show_nat :: "nat \<Rightarrow> string" where
  "show_nat n = (if n < 10 then [digit_char n] else show_nat (n div 10) @ [digit_char (n mod 10)])"

declare show_nat.simps [simp del]

section \<open>Ordered maps\<close>

text \<open>Assignment to a key of a \<^verbatim>\<open>std::map\<close>, kept as the list of its entries in order.\<close>

fun list_put :: "('k \<Rightarrow> 'k \<Rightarrow> bool) \<Rightarrow> 'k \<Rightarrow> 'v \<Rightarrow> ('k \<times> 'v) list \<Rightarrow> ('k \<times> 'v) list" where
  "list_put lt k v [] = [(k, v)]"
| "list_put lt k v ((k', v') # l) =
     (if k = k' then (k, v) # l else if lt k k' then (k, v) # (k', v') # l else (k', v') # list_put lt k v l)"

lemma map_of_list_put [simp]: "map_of (list_put lt k v l) = (map_of l)(k \<mapsto> v)"
  by (induction l) (auto simp: fun_eq_iff)

end
