(* ===== verification/Vdb_Heap.thy ===== *)
theory Vdb_Heap
  imports Vdb_Prelude
begin

text \<open>
  The heap algorithms of the C++ library that the sources call (\<^verbatim>\<open>std::push_heap\<close>,
  \<^verbatim>\<open>std::pop_heap\<close>, \<^verbatim>\<open>std::sort_heap\<close>, and \<^verbatim>\<open>std::sort\<close>) on a vector, as a binary heap on a list. The
  locale \<open>std_heap\<close> states what the C++ standard promises of them for a comparison that is a strict
  weak ordering on the elements; the clients' lemmas rest on those promises only, so they hold for
  every conforming library, and the interpretation at the end shows the promises can be kept. Where keys
  are NaN the comparison is no strict weak ordering and C++ leaves the behaviour of these algorithms
  undefined; the model is total, one behaviour among those a library could show.
\<close>

section \<open>Strict weak orderings\<close>

definition swo_on :: "'a set \<Rightarrow> ('a \<Rightarrow> 'a \<Rightarrow> bool) \<Rightarrow> bool" where
  "swo_on A lt \<longleftrightarrow>
     (\<forall>x\<in>A. \<not> lt x x) \<and>
     (\<forall>x\<in>A. \<forall>y\<in>A. \<forall>z\<in>A. lt x y \<longrightarrow> lt y z \<longrightarrow> lt x z) \<and>
     (\<forall>x\<in>A. \<forall>y\<in>A. \<forall>z\<in>A. \<not> lt x y \<longrightarrow> \<not> lt y z \<longrightarrow> \<not> lt x z)"

lemma swo_irrefl: "swo_on A lt \<Longrightarrow> x \<in> A \<Longrightarrow> \<not> lt x x"
  unfolding swo_on_def by blast

lemma swo_trans: "swo_on A lt \<Longrightarrow> lt x y \<Longrightarrow> lt y z \<Longrightarrow> x \<in> A \<Longrightarrow> y \<in> A \<Longrightarrow> z \<in> A \<Longrightarrow> lt x z"
  unfolding swo_on_def by blast

lemma swo_ntrans:
  "swo_on A lt \<Longrightarrow> \<not> lt x y \<Longrightarrow> \<not> lt y z \<Longrightarrow> x \<in> A \<Longrightarrow> y \<in> A \<Longrightarrow> z \<in> A \<Longrightarrow> \<not> lt x z"
  unfolding swo_on_def by blast

lemma swo_asym: "swo_on A lt \<Longrightarrow> lt x y \<Longrightarrow> x \<in> A \<Longrightarrow> y \<in> A \<Longrightarrow> \<not> lt y x"
  by (meson swo_irrefl swo_trans)

lemma swo_subset: "swo_on A lt \<Longrightarrow> B \<subseteq> A \<Longrightarrow> swo_on B lt"
  unfolding swo_on_def by blast

lemma swo_converse: "swo_on A lt \<Longrightarrow> swo_on A (\<lambda>x y. lt y x)"
  unfolding swo_on_def by blast

text \<open>Ascending order with respect to \<open>lt\<close>: nothing later is strictly smaller.\<close>

definition asc :: "('a \<Rightarrow> 'a \<Rightarrow> bool) \<Rightarrow> 'a list \<Rightarrow> bool" where
  "asc lt = sorted_wrt (\<lambda>a b. \<not> lt b a)"

lemma asc_simps [simp]:
  "asc lt []"
  "asc lt (x # xs) \<longleftrightarrow> (\<forall>y\<in>set xs. \<not> lt y x) \<and> asc lt xs"
  by (simp_all add: asc_def)

lemma asc_append:
  "asc lt (xs @ ys) \<longleftrightarrow> asc lt xs \<and> asc lt ys \<and> (\<forall>x\<in>set xs. \<forall>y\<in>set ys. \<not> lt y x)"
  by (simp add: asc_def sorted_wrt_append)

text \<open>Two ascending arrangements of the same elements agree when no two elements tie.\<close>

lemma asc_unique:
  assumes "swo_on A lt" "set xs \<subseteq> A" "mset xs = mset ys" "asc lt xs" "asc lt ys"
    and tot: "\<And>x y. x \<in> set xs \<Longrightarrow> y \<in> set xs \<Longrightarrow> x \<noteq> y \<Longrightarrow> lt x y \<or> lt y x"
  shows "xs = ys"
  using assms(2-6)
proof (induction xs arbitrary: ys)
  case Nil
  then show ?case by simp
next
  case (Cons x xs)
  from Cons.prems(2) obtain y ys' where ys: "ys = y # ys'" by (cases ys) auto
  have y: "y \<in> set (x # xs)" using Cons.prems(2) ys by (metis list.set_intros(1) set_mset_mset)
  have x: "x \<in> set ys" using Cons.prems(2) by (metis list.set_intros(1) set_mset_mset)
  have "x = y"
  proof (rule ccontr)
    assume "x \<noteq> y"
    then have "lt x y \<or> lt y x" using Cons.prems(5) y by simp
    moreover have "\<not> lt y x" using y \<open>x \<noteq> y\<close> Cons.prems(3) by simp
    moreover have "\<not> lt x y" using x ys \<open>x \<noteq> y\<close> Cons.prems(4) by simp
    ultimately show False by blast
  qed
  moreover have "xs = ys'"
    using Cons.prems ys \<open>x = y\<close> by (intro Cons.IH) auto
  ultimately show ?case using ys by simp
qed

section \<open>The binary heap\<close>

definition parent :: "nat \<Rightarrow> nat" where
  "parent i = (i - 1) div 2"

definition is_heap :: "('a \<Rightarrow> 'a \<Rightarrow> bool) \<Rightarrow> 'a list \<Rightarrow> bool" where
  "is_heap lt xs \<longleftrightarrow> (\<forall>i. 0 < i \<and> i < length xs \<longrightarrow> \<not> lt (xs ! parent i) (xs ! i))"

definition swap_at :: "'a list \<Rightarrow> nat \<Rightarrow> nat \<Rightarrow> 'a list" where
  "swap_at xs i j = xs[i := xs ! j, j := xs ! i]"

fun sift_up :: "('a \<Rightarrow> 'a \<Rightarrow> bool) \<Rightarrow> 'a list \<Rightarrow> nat \<Rightarrow> 'a list" where
  "sift_up lt xs i =
     (if 0 < i \<and> lt (xs ! ((i - 1) div 2)) (xs ! i)
      then sift_up lt (swap_at xs i ((i - 1) div 2)) ((i - 1) div 2) else xs)"

declare sift_up.simps [simp del]

function sift_down :: "('a \<Rightarrow> 'a \<Rightarrow> bool) \<Rightarrow> 'a list \<Rightarrow> nat \<Rightarrow> 'a list" where
  "sift_down lt xs i =
     (let l = 2 * i + 1; r = 2 * i + 2 in
      if length xs \<le> l then xs
      else let c = (if r < length xs \<and> lt (xs ! l) (xs ! r) then r else l) in
        if lt (xs ! i) (xs ! c) then sift_down lt (swap_at xs i c) c else xs)"
  by pat_completeness auto
termination
  by (relation "measure (\<lambda>(lt, xs, i). length xs - i)") (auto simp: swap_at_def)

declare sift_down.simps [simp del]

text \<open>\<^verbatim>\<open>push_heap\<close>: the last element joins the heap formed by the others.\<close>

definition push_heap :: "('a \<Rightarrow> 'a \<Rightarrow> bool) \<Rightarrow> 'a list \<Rightarrow> 'a list" where
  "push_heap lt xs = sift_up lt xs (length xs - 1)"

text \<open>\<^verbatim>\<open>pop_heap\<close>: the root goes to the back, the others form a heap.\<close>

definition pop_heap :: "('a \<Rightarrow> 'a \<Rightarrow> bool) \<Rightarrow> 'a list \<Rightarrow> 'a list" where
  "pop_heap lt xs = (case xs of [] \<Rightarrow> []
     | x # _ \<Rightarrow> sift_down lt ((butlast xs)[0 := last xs]) 0 @ [x])"

fun sort_heap_n :: "('a \<Rightarrow> 'a \<Rightarrow> bool) \<Rightarrow> nat \<Rightarrow> 'a list \<Rightarrow> 'a list" where
  "sort_heap_n lt 0 xs = []"
| "sort_heap_n lt (Suc n) xs =
     (let ys = pop_heap lt xs in sort_heap_n lt n (butlast ys) @ [last ys])"

definition sort_heap :: "('a \<Rightarrow> 'a \<Rightarrow> bool) \<Rightarrow> 'a list \<Rightarrow> 'a list" where
  "sort_heap lt xs = sort_heap_n lt (length xs) xs"

lemma heap_single [simp]: "push_heap lt [x] = [x]" "sort_heap lt [x] = [x]"
  by (simp_all add: push_heap_def sift_up.simps sort_heap_def pop_heap_def sift_down.simps)

text \<open>\<^verbatim>\<open>std::sort\<close>.\<close>

fun insert_by :: "('a \<Rightarrow> 'a \<Rightarrow> bool) \<Rightarrow> 'a \<Rightarrow> 'a list \<Rightarrow> 'a list" where
  "insert_by lt x [] = [x]"
| "insert_by lt x (y # ys) = (if lt y x then y # insert_by lt x ys else x # y # ys)"

fun sort_by :: "('a \<Rightarrow> 'a \<Rightarrow> bool) \<Rightarrow> 'a list \<Rightarrow> 'a list" where
  "sort_by lt [] = []"
| "sort_by lt (x # xs) = insert_by lt x (sort_by lt xs)"

section \<open>Sorting\<close>

lemma mset_insert_by [simp]: "mset (insert_by lt x xs) = add_mset x (mset xs)"
  by (induction xs) auto

lemma set_insert_by [simp]: "set (insert_by lt x xs) = insert x (set xs)"
  by (metis mset_insert_by set_mset_add_mset_insert set_mset_mset)

lemma mset_sort_by [simp]: "mset (sort_by lt xs) = mset xs"
  by (induction xs) auto

lemma set_sort_by [simp]: "set (sort_by lt xs) = set xs"
  by (metis mset_sort_by set_mset_mset)

lemma length_sort_by [simp]: "length (sort_by lt xs) = length xs"
  by (metis mset_sort_by size_mset)

lemma asc_insert_by:
  "swo_on A lt \<Longrightarrow> x \<in> A \<Longrightarrow> set xs \<subseteq> A \<Longrightarrow> asc lt xs \<Longrightarrow> asc lt (insert_by lt x xs)"
proof (induction xs)
  case (Cons y ys)
  show ?case
  proof (cases "lt y x")
    case True
    then show ?thesis using Cons swo_asym [OF Cons.prems(1) True] by auto
  next
    case False
    then have "\<forall>z\<in>set ys. \<not> lt z x"
      using Cons.prems swo_ntrans [OF Cons.prems(1) _ False] by auto
    then show ?thesis using Cons False by auto
  qed
qed simp

lemma asc_sort_by: "swo_on A lt \<Longrightarrow> set xs \<subseteq> A \<Longrightarrow> asc lt (sort_by lt xs)"
  by (induction xs) (auto intro!: asc_insert_by)

section \<open>Heap repair\<close>

lemma length_swap_at [simp]: "length (swap_at xs i j) = length xs"
  by (simp add: swap_at_def)

lemma nth_swap_at:
  "i < length xs \<Longrightarrow> j < length xs \<Longrightarrow>
   swap_at xs i j ! k = (if k = j then xs ! i else if k = i then xs ! j else xs ! k)"
  by (cases "k < length xs") (auto simp: swap_at_def nth_list_update)

lemma mset_swap_at [simp]:
  "i < length xs \<Longrightarrow> j < length xs \<Longrightarrow> mset (swap_at xs i j) = mset xs"
  unfolding swap_at_def by (subst mset_swap) auto

lemma set_swap_at [simp]: "i < length xs \<Longrightarrow> j < length xs \<Longrightarrow> set (swap_at xs i j) = set xs"
  by (metis mset_swap_at set_mset_mset)

text \<open>The repairs only permute, whatever the comparison.\<close>

lemma mset_sift_up: "i < length xs \<Longrightarrow> mset (sift_up lt xs i) = mset xs"
proof (induction lt xs i rule: sift_up.induct)
  case (1 lt xs i)
  show ?case
  proof (cases "0 < i \<and> lt (xs ! ((i - 1) div 2)) (xs ! i)")
    case True
    then have "mset (sift_up lt (swap_at xs i ((i - 1) div 2)) ((i - 1) div 2)) =
        mset (swap_at xs i ((i - 1) div 2))" using 1 by simp
    moreover have "(i - 1) div 2 < length xs" using "1.prems" by simp
    ultimately show ?thesis using True "1.prems" by (subst sift_up.simps) simp
  next
    case False
    then show ?thesis by (subst sift_up.simps) auto
  qed
qed

lemma mset_sift_down: "mset (sift_down lt xs i) = mset xs"
proof (induction lt xs i rule: sift_down.induct)
  case (1 lt xs i)
  show ?case
  proof (cases "length xs \<le> 2 * i + 1")
    case True
    then show ?thesis by (subst sift_down.simps) simp
  next
    case False
    define c where "c = (if 2 * i + 2 < length xs \<and> lt (xs ! (2 * i + 1)) (xs ! (2 * i + 2)) then 2 * i + 2 else 2 * i + 1)"
    have eq: "sift_down lt xs i = (if lt (xs ! i) (xs ! c) then sift_down lt (swap_at xs i c) c else xs)"
      using False by (subst sift_down.simps) (simp add: Let_def c_def)
    have "c < length xs" using False by (simp add: c_def)
    then have sw: "mset (swap_at xs i c) = mset xs" using False by (intro mset_swap_at) auto
    have "lt (xs ! i) (xs ! c) \<Longrightarrow> mset (sift_down lt (swap_at xs i c) c) = mset (swap_at xs i c)"
      using 1 [OF refl refl False c_def] .
    then show ?thesis unfolding eq using sw by simp
  qed
qed

lemma mset_push_heap [simp]: "mset (push_heap lt xs) = mset xs"
proof (cases "xs = []")
  case True
  then show ?thesis by (simp add: push_heap_def, subst sift_up.simps, simp)
next
  case False
  then show ?thesis by (simp add: push_heap_def mset_sift_up)
qed

lemma mset_snoc_split: "xs \<noteq> [] \<Longrightarrow> mset xs = add_mset (last xs) (mset (butlast xs))"
  by (induction xs) auto

lemma mset_pop_heap: "mset (pop_heap lt xs) = mset xs"
proof (cases xs)
  case (Cons x ys)
  have "add_mset x (mset ((butlast xs)[0 := last xs])) = mset xs"
  proof (cases ys)
    case Nil
    then show ?thesis using Cons by simp
  next
    case (Cons y zs)
    then have "(butlast xs)[0 := last xs] = last ys # butlast ys" using \<open>xs = x # ys\<close> by simp
    moreover have "ys \<noteq> []" using Cons by simp
    ultimately show ?thesis using \<open>xs = x # ys\<close> mset_snoc_split [of ys] by simp
  qed
  then show ?thesis using Cons by (simp add: pop_heap_def mset_sift_down)
qed (simp add: pop_heap_def)

lemma set_push_heap [simp]: "set (push_heap lt xs) = set xs"
  by (metis mset_push_heap set_mset_mset)

lemma length_push_heap [simp]: "length (push_heap lt xs) = length xs"
  by (metis mset_push_heap size_mset)

lemma length_pop_heap: "length (pop_heap lt xs) = length xs"
  by (metis mset_pop_heap size_mset)

lemma last_pop_heap: "xs \<noteq> [] \<Longrightarrow> last (pop_heap lt xs) = hd xs"
  by (cases xs) (simp_all add: pop_heap_def)

lemma mset_pop_split: "xs \<noteq> [] \<Longrightarrow> mset xs = add_mset (hd xs) (mset (butlast (pop_heap lt xs)))"
proof -
  assume ne: "xs \<noteq> []"
  then have "pop_heap lt xs \<noteq> []" by (cases xs) (simp_all add: pop_heap_def)
  from mset_snoc_split [OF this] show ?thesis using last_pop_heap [OF ne, of lt] by (simp add: mset_pop_heap)
qed


lemma parent_less: "0 < i \<Longrightarrow> parent i < i"
  by (simp add: parent_def)

lemma parent_child [simp]: "parent (2 * i + 1) = i" "parent (2 * i + 2) = i"
  by (simp_all add: parent_def)

lemma parent_cases: "0 < k \<Longrightarrow> parent k = i \<Longrightarrow> k = 2 * i + 1 \<or> k = 2 * i + 2"
  by (auto simp: parent_def)

text \<open>The heap property everywhere but at one position, whose children respect its parent.\<close>

definition heap_but_up :: "('a \<Rightarrow> 'a \<Rightarrow> bool) \<Rightarrow> 'a list \<Rightarrow> nat \<Rightarrow> bool" where
  "heap_but_up lt xs i \<longleftrightarrow>
     (\<forall>k. 0 < k \<and> k < length xs \<and> k \<noteq> i \<longrightarrow> \<not> lt (xs ! parent k) (xs ! k)) \<and>
     (\<forall>k. 0 < k \<and> k < length xs \<and> parent k = i \<and> 0 < i \<longrightarrow> \<not> lt (xs ! parent i) (xs ! k))"

definition heap_but_down :: "('a \<Rightarrow> 'a \<Rightarrow> bool) \<Rightarrow> 'a list \<Rightarrow> nat \<Rightarrow> bool" where
  "heap_but_down lt xs i \<longleftrightarrow>
     (\<forall>k. 0 < k \<and> k < length xs \<and> parent k \<noteq> i \<longrightarrow> \<not> lt (xs ! parent k) (xs ! k)) \<and>
     (\<forall>k. 0 < k \<and> k < length xs \<and> parent k = i \<and> 0 < i \<longrightarrow> \<not> lt (xs ! parent i) (xs ! k))"

lemma heap_but_up_step:
  assumes swo: "swo_on (set xs) lt" and i: "0 < i" "i < length xs"
    and h: "heap_but_up lt xs i" and bad: "lt (xs ! parent i) (xs ! i)"
  shows "heap_but_up lt (swap_at xs i (parent i)) (parent i)"
proof -
  let ?p = "parent i" and ?ys = "swap_at xs i (parent i)"
  have p: "?p < i" "?p < length xs" using parent_less [OF i(1)] i(2) by auto
  have ys: "?ys ! k = (if k = ?p then xs ! i else if k = i then xs ! ?p else xs ! k)" for k
    using nth_swap_at [of i xs ?p k] i p by simp
  have A: "\<And>k. k < length xs \<Longrightarrow> xs ! k \<in> set xs" by simp
  have h1: "\<And>k. 0 < k \<Longrightarrow> k < length xs \<Longrightarrow> k \<noteq> i \<Longrightarrow> \<not> lt (xs ! parent k) (xs ! k)"
    and h2: "\<And>k. 0 < k \<Longrightarrow> k < length xs \<Longrightarrow> parent k = i \<Longrightarrow> \<not> lt (xs ! ?p) (xs ! k)"
    using h i by (auto simp: heap_but_up_def)
  have "\<not> lt (?ys ! parent k) (?ys ! k)" if k: "0 < k" "k < length xs" "k \<noteq> ?p" for k
  proof -
    have pk: "parent k < k" "parent k < length xs" using parent_less [OF k(1)] k(2) by auto
    consider "k = i" | "k \<noteq> i" "parent k = i" | "k \<noteq> i" "parent k = ?p" | "k \<noteq> i" "parent k \<noteq> i" "parent k \<noteq> ?p"
      by blast
    then show ?thesis
    proof cases
      case 1
      then show ?thesis using ys p swo_asym [OF swo bad] A i by simp
    next
      case 2
      then show ?thesis using ys p k h2 by simp
    next
      case 3
      have "\<not> lt (xs ! ?p) (xs ! k)" using h1 k 3 by metis
      then have "\<not> lt (xs ! i) (xs ! k)"
        using swo_trans [OF swo bad _ A A A] p i k by blast
      then show ?thesis using 3 ys k by simp
    next
      case 4
      then show ?thesis using ys k h1 by simp
    qed
  qed
  moreover have "\<not> lt (?ys ! parent ?p) (?ys ! k)"
    if k: "0 < k" "k < length xs" "parent k = ?p" "0 < ?p" for k
  proof -
    have pp: "parent ?p < ?p" using parent_less k by blast
    have top: "\<not> lt (xs ! parent ?p) (xs ! ?p)" using h1 [of ?p] k p by simp
    have kp: "k \<noteq> ?p" using k parent_less [of k] by auto
    show ?thesis
    proof (cases "k = i")
      case True
      then show ?thesis using ys top pp p by simp
    next
      case False
      have "\<not> lt (xs ! ?p) (xs ! k)" using h1 [of k] k False by simp
      then have "\<not> lt (xs ! parent ?p) (xs ! k)"
        using swo_ntrans [OF swo top _ A A A] pp p k by simp
      then show ?thesis using ys pp p False kp by simp
    qed
  qed
  ultimately show ?thesis using p by (simp add: heap_but_up_def)
qed

lemma sift_up_heap:
  "swo_on (set xs) lt \<Longrightarrow> i < length xs \<Longrightarrow> heap_but_up lt xs i \<Longrightarrow>
   is_heap lt (sift_up lt xs i) \<and> mset (sift_up lt xs i) = mset xs"
proof (induction lt xs i rule: sift_up.induct)
  case (1 lt xs i)
  show ?case
  proof (cases "0 < i \<and> lt (xs ! parent i) (xs ! i)")
    case True
    then have p: "parent i < length xs" using parent_less [of i] 1 by simp
    have "heap_but_up lt (swap_at xs i (parent i)) (parent i)"
      using heap_but_up_step 1 True by blast
    then show ?thesis
      using 1 True p by (subst (1 2) sift_up.simps) (simp add: parent_def)
  next
    case False
    then have "is_heap lt xs" using 1 by (auto simp: is_heap_def heap_but_up_def)
    then show ?thesis using False by (subst (1 2) sift_up.simps) (auto simp: parent_def)
  qed
qed

lemma heap_but_down_step:
  assumes swo: "swo_on (set xs) lt" and c: "c < length xs" "0 < c" "parent c = i"
    and best: "\<And>k. 0 < k \<Longrightarrow> k < length xs \<Longrightarrow> parent k = i \<Longrightarrow> \<not> lt (xs ! c) (xs ! k)"
    and h: "heap_but_down lt xs i" and bad: "lt (xs ! i) (xs ! c)"
  shows "heap_but_down lt (swap_at xs i c) c"
proof -
  let ?ys = "swap_at xs i c"
  have i: "i < c" "i < length xs" using parent_less [of c] c by auto
  have ys: "?ys ! k = (if k = c then xs ! i else if k = i then xs ! c else xs ! k)" for k
    using nth_swap_at [of i xs c k] i c by simp
  have h1: "\<And>k. 0 < k \<Longrightarrow> k < length xs \<Longrightarrow> parent k \<noteq> i \<Longrightarrow> \<not> lt (xs ! parent k) (xs ! k)"
    and h2: "\<And>k. 0 < k \<Longrightarrow> k < length xs \<Longrightarrow> parent k = i \<Longrightarrow> 0 < i \<Longrightarrow> \<not> lt (xs ! parent i) (xs ! k)"
    using h by (auto simp: heap_but_down_def)
  have "\<not> lt (?ys ! parent k) (?ys ! k)" if k: "0 < k" "k < length xs" "parent k \<noteq> c" for k
  proof -
    have pk: "parent k < k" using k parent_less by auto
    consider "k = c" | "k \<noteq> c" "parent k = i" | "k = i" | "k \<noteq> c" "k \<noteq> i" "parent k \<noteq> i" by blast
    then show ?thesis
    proof cases
      case 1
      then show ?thesis using ys c i swo_asym [OF swo bad] by simp
    next
      case 2
      then show ?thesis using ys k best pk by auto
    next
      case 3
      then show ?thesis using ys k c h2 pk i by auto
    next
      case 4
      then show ?thesis using ys k h1 by simp
    qed
  qed
  moreover have "\<not> lt (?ys ! parent c) (?ys ! k)" if k: "0 < k" "k < length xs" "parent k = c" for k
  proof -
    have "c < k" using parent_less k by auto
    then show ?thesis using ys k c i h1 [of k] by simp
  qed
  ultimately show ?thesis using c by (simp add: heap_but_down_def)
qed

definition bigger_child :: "('a \<Rightarrow> 'a \<Rightarrow> bool) \<Rightarrow> 'a list \<Rightarrow> nat \<Rightarrow> nat" where
  "bigger_child lt xs i =
     (if 2 * i + 2 < length xs \<and> lt (xs ! (2 * i + 1)) (xs ! (2 * i + 2)) then 2 * i + 2 else 2 * i + 1)"

lemma sift_down_eq:
  "sift_down lt xs i =
     (if length xs \<le> 2 * i + 1 then xs
      else if lt (xs ! i) (xs ! bigger_child lt xs i)
        then sift_down lt (swap_at xs i (bigger_child lt xs i)) (bigger_child lt xs i) else xs)"
  by (subst sift_down.simps) (simp only: Let_def bigger_child_def)

lemma sift_down_unfold:
  "length xs \<le> 2 * i + 1 \<Longrightarrow> sift_down lt xs i = xs"
  "\<not> length xs \<le> 2 * i + 1 \<Longrightarrow> lt (xs ! i) (xs ! bigger_child lt xs i) \<Longrightarrow>
   sift_down lt xs i = sift_down lt (swap_at xs i (bigger_child lt xs i)) (bigger_child lt xs i)"
  "\<not> length xs \<le> 2 * i + 1 \<Longrightarrow> \<not> lt (xs ! i) (xs ! bigger_child lt xs i) \<Longrightarrow> sift_down lt xs i = xs"
  by (simp_all only: sift_down_eq [of lt xs i] if_True if_False)

lemma bigger_child:
  assumes "\<not> length xs \<le> 2 * i + 1"
  shows "bigger_child lt xs i < length xs" "0 < bigger_child lt xs i" "parent (bigger_child lt xs i) = i"
  using assms by (auto simp: bigger_child_def parent_def)

lemma bigger_child_best:
  assumes swo: "swo_on (set xs) lt" and "\<not> length xs \<le> 2 * i + 1"
    and k: "0 < k" "k < length xs" "parent k = i"
  shows "\<not> lt (xs ! bigger_child lt xs i) (xs ! k)"
proof -
  let ?l = "2 * i + 1" and ?r = "2 * i + 2"
  have l: "xs ! ?l \<in> set xs" using assms(2) by (intro nth_mem) simp
  consider "k = ?l" | "k = ?r" using parent_cases k by blast
  then show ?thesis
  proof cases
    case 1
    then show ?thesis
      using swo_irrefl [OF swo l] swo_asym [OF swo _ l nth_mem, of ?r]
      by (simp add: bigger_child_def)
  next
    case 2
    then have r: "?r < length xs" using k(2) by simp
    show ?thesis
    proof (cases "lt (xs ! ?l) (xs ! ?r)")
      case True
      then have "bigger_child lt xs i = ?r" using r by (simp add: bigger_child_def)
      then show ?thesis using 2 swo_irrefl [OF swo nth_mem [OF r]] by simp
    next
      case False
      then have "bigger_child lt xs i = ?l" by (simp add: bigger_child_def)
      then show ?thesis using 2 False by simp
    qed
  qed
qed

lemma sift_down_heap:
  "swo_on (set xs) lt \<Longrightarrow> i < length xs \<or> xs = [] \<Longrightarrow> heap_but_down lt xs i \<Longrightarrow>
   is_heap lt (sift_down lt xs i) \<and> mset (sift_down lt xs i) = mset xs"
proof (induction "length xs - i" arbitrary: xs i rule: less_induct)
  case less
  let ?c = "bigger_child lt xs i"
  have heap: "is_heap lt xs"
    if "\<And>k. 0 < k \<Longrightarrow> k < length xs \<Longrightarrow> parent k = i \<Longrightarrow> \<not> lt (xs ! i) (xs ! k)"
    unfolding is_heap_def
  proof (intro allI impI, elim conjE)
    fix k assume k: "0 < k" "k < length xs"
    show "\<not> lt (xs ! parent k) (xs ! k)"
      using that [OF k] less.prems(3) k by (cases "parent k = i") (simp_all add: heap_but_down_def)
  qed
  show ?case
  proof (cases "length xs \<le> 2 * i + 1")
    case True
    have "is_heap lt xs"
    proof (rule heap)
      fix k assume "0 < k" "k < length xs" "parent k = i"
      then have False using True parent_cases [of k i] by auto
      then show "\<not> lt (xs ! i) (xs ! k)" ..
    qed
    then show ?thesis using sift_down_unfold(1) [OF True, of lt] by simp
  next
    case False
    note c = bigger_child [OF False, of lt]
    note best = bigger_child_best [OF less.prems(1) False]
    have i: "i < length xs" "i < ?c" using False parent_less [OF c(2)] c(3) by auto
    show ?thesis
    proof (cases "lt (xs ! i) (xs ! ?c)")
      case True
      have h: "heap_but_down lt (swap_at xs i ?c) ?c"
        by (rule heap_but_down_step [OF less.prems(1) c best less.prems(3) True])
      have m: "mset (swap_at xs i ?c) = mset xs" and st: "set (swap_at xs i ?c) = set xs"
        using i c by simp_all
      have "is_heap lt (sift_down lt (swap_at xs i ?c) ?c) \<and>
          mset (sift_down lt (swap_at xs i ?c) ?c) = mset (swap_at xs i ?c)"
      proof (rule less.hyps)
        show "length (swap_at xs i ?c) - ?c < length xs - i" using i c(1) by simp
        show "swo_on (set (swap_at xs i ?c)) lt" unfolding st by (rule less.prems(1))
        show "?c < length (swap_at xs i ?c) \<or> swap_at xs i ?c = []" using c(1) by simp
        show "heap_but_down lt (swap_at xs i ?c) ?c" by (rule h)
      qed
      then show ?thesis using sift_down_unfold(2) [where lt = lt, OF False True] m by simp
    next
      case nb: False
      have "is_heap lt xs"
      proof (rule heap)
        fix k assume k: "0 < k" "k < length xs" "parent k = i"
        show "\<not> lt (xs ! i) (xs ! k)"
          by (rule swo_ntrans [OF less.prems(1) nb best [OF k] nth_mem nth_mem nth_mem]) (rule i c k)+
      qed
      then show ?thesis using sift_down_unfold(3) [where lt = lt, OF False nb] by simp
    qed
  qed
qed

section \<open>The contract\<close>

lemma heap_front: "swo_on (set xs) lt \<Longrightarrow> is_heap lt xs \<Longrightarrow> i < length xs \<Longrightarrow> \<not> lt (xs ! 0) (xs ! i)"
proof (induction i rule: less_induct)
  case (less i)
  show ?case
  proof (cases "i = 0")
    case True
    then show ?thesis using less swo_irrefl by fastforce
  next
    case False
    have p: "parent i < i" using False parent_less by simp
    have "\<not> lt (xs ! 0) (xs ! parent i)" using less p by simp
    moreover have "\<not> lt (xs ! parent i) (xs ! i)" using less False by (simp add: is_heap_def)
    ultimately show ?thesis
      by (rule swo_ntrans [OF less.prems(1)]) (use less.prems p in \<open>auto intro!: nth_mem\<close>)
  qed
qed

lemma push_heap_heap:
  assumes "swo_on (set (xs @ [x])) lt" "is_heap lt xs"
  shows "is_heap lt (push_heap lt (xs @ [x])) \<and> mset (push_heap lt (xs @ [x])) = mset (xs @ [x])"
proof -
  have "heap_but_up lt (xs @ [x]) (length xs)"
    unfolding heap_but_up_def
  proof (intro conjI allI impI; elim conjE)
    fix k assume k: "0 < k" "k < length (xs @ [x])" "k \<noteq> length xs"
    then have "parent k < length xs" using parent_less [of k] by simp
    then show "\<not> lt ((xs @ [x]) ! parent k) ((xs @ [x]) ! k)"
      using k assms(2) by (simp add: is_heap_def nth_append)
  next
    fix k assume "0 < k" "k < length (xs @ [x])" "parent k = length xs" "0 < length xs"
    then show "\<not> lt ((xs @ [x]) ! parent (length xs)) ((xs @ [x]) ! k)"
      using parent_less [of k] by simp
  qed
  then show ?thesis using sift_up_heap [OF assms(1)] by (simp add: push_heap_def)
qed

lemma pop_heap_heap:
  assumes swo: "swo_on (set xs) lt" and h: "is_heap lt xs" and ne: "xs \<noteq> []"
  shows "is_heap lt (butlast (pop_heap lt xs)) \<and> last (pop_heap lt xs) = hd xs \<and>
    mset (pop_heap lt xs) = mset xs"
proof (cases "butlast xs")
  case Nil
  then obtain x where "xs = [x]" using ne by (cases xs) (auto split: if_splits)
  then show ?thesis
    by (simp add: pop_heap_def sift_down_unfold(1) is_heap_def)
next
  case (Cons x ws)
  obtain y where xs: "xs = x # ws @ [y]"
    using Cons ne append_butlast_last_id [of xs] by (metis append_Cons)
  let ?zs = "(x # ws)[0 := y]"
  have p: "pop_heap lt xs = sift_down lt ?zs 0 @ [x]" by (simp add: xs pop_heap_def butlast_append)
  have zs: "?zs ! j = xs ! j" if "0 < j" "j < length ?zs" for j
    using that by (cases j) (auto simp: xs nth_append)
  have "heap_but_down lt ?zs 0"
    unfolding heap_but_down_def
  proof (intro conjI allI impI; elim conjE)
    fix k assume k: "0 < k" "k < length ?zs" "parent k \<noteq> 0"
    then have "k < length xs" "parent k < length ?zs"
      using parent_less [of k] by (simp_all add: xs)
    moreover from this(1) have "\<not> lt (xs ! parent k) (xs ! k)"
      using h k by (simp add: is_heap_def)
    ultimately show "\<not> lt (?zs ! parent k) (?zs ! k)"
      using k zs [of k] zs [of "parent k"] by simp
  qed simp
  moreover have "swo_on (set ?zs) lt" by (rule swo_subset [OF swo]) (auto simp: xs)
  ultimately have "is_heap lt (sift_down lt ?zs 0) \<and> mset (sift_down lt ?zs 0) = mset ?zs"
    by (intro sift_down_heap) simp_all
  then show ?thesis unfolding p by (simp add: xs)
qed

lemma sort_heap_n_asc:
  "length xs = n \<Longrightarrow> swo_on (set xs) lt \<Longrightarrow> is_heap lt xs \<Longrightarrow>
   mset (sort_heap_n lt n xs) = mset xs \<and> asc lt (sort_heap_n lt n xs)"
proof (induction n arbitrary: xs)
  case 0
  then show ?case by simp
next
  case (Suc n)
  let ?p = "pop_heap lt xs"
  have ne: "xs \<noteq> []" using Suc.prems(1) by auto
  note P = pop_heap_heap [OF Suc.prems(2,3) ne]
  have pne: "?p \<noteq> []" using P ne by auto
  have m: "mset xs = add_mset (hd xs) (mset (butlast ?p))"
    using P pne by (metis append_butlast_last_id mset.simps(2) mset_append add_mset_add_single mset.simps(1))
  then have sub: "set (butlast ?p) \<subseteq> set xs" by (metis set_mset_add_mset_insert set_mset_mset subset_insertI)
  have "length ?p = Suc n" using P Suc.prems(1) by (metis size_mset)
  then have IH: "mset (sort_heap_n lt n (butlast ?p)) = mset (butlast ?p) \<and>
      asc lt (sort_heap_n lt n (butlast ?p))"
    using P sub by (intro Suc.IH) (auto intro: swo_subset [OF Suc.prems(2)])
  have "\<not> lt (hd xs) z" if "z \<in> set (sort_heap_n lt n (butlast ?p))" for z
  proof -
    have "z \<in> set xs" using that IH sub by (metis set_mset_mset subsetD)
    then obtain i where "i < length xs" "z = xs ! i" by (metis in_set_conv_nth)
    then show ?thesis using heap_front [OF Suc.prems(2,3)] ne by (simp add: hd_conv_nth)
  qed
  then show ?case using IH P m by (simp add: Let_def asc_append)
qed

lemma sort_heap_asc:
  "swo_on (set xs) lt \<Longrightarrow> is_heap lt xs \<Longrightarrow> mset (sort_heap lt xs) = mset xs \<and> asc lt (sort_heap lt xs)"
  by (simp add: sort_heap_def sort_heap_n_asc)

section \<open>Bounded selections\<close>

text \<open>
  \<open>keeps_best lt k S K\<close>: of the candidates \<open>S\<close> seen so far, \<open>K\<close> are \<open>k\<close> best ones (all of them when
  there are at most \<open>k\<close>): nothing left out is better than anything kept.
\<close>

definition keeps_best :: "('a \<Rightarrow> 'a \<Rightarrow> bool) \<Rightarrow> nat \<Rightarrow> 'a multiset \<Rightarrow> 'a multiset \<Rightarrow> bool" where
  "keeps_best lt k S K \<longleftrightarrow> K \<subseteq># S \<and> size K = min k (size S) \<and> (\<forall>x\<in>#S - K. \<forall>y\<in>#K. \<not> lt x y)"

lemma keeps_best_empty [simp]: "keeps_best lt k {#} {#}"
  by (simp add: keeps_best_def)

lemma keeps_best_partial:
  "keeps_best lt k S K \<Longrightarrow> size K < k \<Longrightarrow> S = K"
  using mset_subset_size [of K S]
  by (auto simp: keeps_best_def min_def subset_mset.le_less split: if_splits)

lemma keeps_best_add: "keeps_best lt k S K \<Longrightarrow> size K < k \<Longrightarrow> keeps_best lt k (add_mset c S) (add_mset c K)"
  using keeps_best_partial [of lt k S K] by (auto simp: keeps_best_def)

lemma keeps_best_reject:
  assumes "swo_on A lt" "set_mset S \<subseteq> A" "c \<in> A" "keeps_best lt k S K" "k \<le> size K"
    and w: "w \<in># K" "\<forall>y\<in>#K. \<not> lt w y" "\<not> lt c w"
  shows "keeps_best lt k (add_mset c S) K"
proof -
  have sub: "K \<subseteq># S" and sz: "size K = min k (size S)"
    and out: "\<forall>x\<in>#S - K. \<forall>y\<in>#K. \<not> lt x y"
    using assms(4) unfolding keeps_best_def by blast+
  have "K \<subseteq># add_mset c S"
    using sub subset_mset.add_increasing2 [of "{#c#}" K S] by simp
  moreover have rest: "add_mset c S - K = add_mset c (S - K)"
    using subset_mset.diff_add_assoc2 [OF sub, of "{#c#}"] by simp
  moreover have "\<forall>x\<in>#add_mset c S - K. \<forall>y\<in>#K. \<not> lt x y"
  proof (intro ballI)
    fix x y assume x: "x \<in># add_mset c S - K" and y: "y \<in># K"
    have yA: "y \<in> A" "w \<in> A" using y w(1) assms(2) sub by (auto dest: mset_subset_eqD)
    show "\<not> lt x y"
    proof (cases "x = c")
      case True
      then show ?thesis using swo_ntrans [OF assms(1) w(3) _ assms(3) yA(2) yA(1)] w(2) y by blast
    next
      case False
      then show ?thesis using x y out unfolding rest by simp
    qed
  qed
  moreover have "size K = min k (size (add_mset c S))" using sz assms(5) by simp
  ultimately show ?thesis unfolding keeps_best_def by blast
qed

lemma keeps_best_replace:
  assumes swo: "swo_on A lt" "set_mset S \<subseteq> A" "c \<in> A" and K: "keeps_best lt k S K" "k \<le> size K"
    and w: "w \<in># K" "\<forall>y\<in>#K. \<not> lt w y" "lt c w"
  shows "keeps_best lt k (add_mset c S) (add_mset c (K - {#w#}))"
proof -
  obtain K' where K': "K = add_mset w K'" using w(1) by (metis insert_DiffM)
  have sub: "K \<subseteq># S" and sz: "size K = min k (size S)"
    and out: "\<And>x y. x \<in># S - K \<Longrightarrow> y \<in># K \<Longrightarrow> \<not> lt x y"
    using K by (auto simp: keeps_best_def)
  obtain R where R: "S = K + R" using sub by (metis subset_mset.add_diff_inverse)
  have rest: "add_mset c S - add_mset c K' = add_mset w R" by (simp add: R K')
  have inA: "w \<in> A" "\<And>y. y \<in># K' \<Longrightarrow> y \<in> A" "\<And>x. x \<in># R \<Longrightarrow> x \<in> A" using swo(2) by (auto simp: R K')
  have "\<not> lt x y" if x: "x \<in># add_mset w R" and y: "y \<in># add_mset c K'" for x y
  proof (cases "y = c")
    case True
    then have "\<not> lt w c" using swo_asym [OF swo(1) w(3)] swo(3) inA by simp
    moreover have "\<not> lt x c" if "x \<in># R"
    proof
      assume "lt x c"
      then have "lt x w" using swo_trans [OF swo(1) _ w(3)] swo(3) inA that by blast
      then show False using out [of x w] that w(1) by (simp add: R)
    qed
    ultimately show ?thesis using x True by auto
  next
    case False
    then show ?thesis using x y w(2) out [of x y] by (auto simp: R K')
  qed
  then show ?thesis using K sz by (auto simp: keeps_best_def rest K' R)
qed

text \<open>Without ties the selection is determined: sort and take the first \<open>k\<close>.\<close>

lemma keeps_best_unique:
  assumes swo: "swo_on A lt" "set xs \<subseteq> A"
    and tot: "\<And>x y. x \<in> set xs \<Longrightarrow> y \<in> set xs \<Longrightarrow> x \<noteq> y \<Longrightarrow> lt x y \<or> lt y x"
    and L: "keeps_best lt k (mset xs) (mset L)" "asc lt L"
  shows "L = take k (sort_by lt xs)"
proof -
  obtain rs where rs: "mset rs = mset xs - mset L" by (metis ex_mset)
  have sub: "mset L \<subseteq># mset xs" and len: "length L = min k (length xs)"
    and out: "\<And>x y. x \<in> set rs \<Longrightarrow> y \<in> set L \<Longrightarrow> \<not> lt x y"
    using L(1) rs by (auto simp: keeps_best_def simp flip: set_mset_mset)
  let ?R = "sort_by lt rs"
  have m: "mset (L @ ?R) = mset xs" using sub rs by simp
  then have st: "set (L @ ?R) = set xs" by (metis set_mset_mset)
  have "asc lt (L @ ?R)"
    using L(2) out asc_sort_by [OF swo(1), of rs] st swo(2) by (auto simp: asc_append)
  moreover have "asc lt (sort_by lt xs)" by (rule asc_sort_by [OF swo])
  ultimately have "L @ ?R = sort_by lt xs"
    using m st swo tot by (intro asc_unique [of A lt]) auto
  then have "take k (sort_by lt xs) = take k (L @ ?R)" by simp
  also have "\<dots> = L"
  proof (cases "k \<le> length xs")
    case True
    then show ?thesis using len by simp
  next
    case False
    then have "length ?R = 0" using len m by (metis add_diff_cancel_left' diff_self_eq_0 length_append
        min.absorb2 nat_le_linear size_mset)
    then show ?thesis using len by simp
  qed
  finally show ?thesis by simp
qed

section \<open>What the library promises\<close>

locale std_heap =
  fixes hp :: "('a \<Rightarrow> 'a \<Rightarrow> bool) \<Rightarrow> 'a list \<Rightarrow> bool"
    and push pop srt :: "('a \<Rightarrow> 'a \<Rightarrow> bool) \<Rightarrow> 'a list \<Rightarrow> 'a list"
  assumes hp_Nil: "hp lt []"
    and push: "swo_on (set (xs @ [x])) lt \<Longrightarrow> hp lt xs \<Longrightarrow>
      hp lt (push lt (xs @ [x])) \<and> mset (push lt (xs @ [x])) = mset (xs @ [x])"
    and pop: "swo_on (set xs) lt \<Longrightarrow> hp lt xs \<Longrightarrow> xs \<noteq> [] \<Longrightarrow>
      hp lt (butlast (pop lt xs)) \<and> last (pop lt xs) = hd xs \<and> mset (pop lt xs) = mset xs"
    and front: "swo_on (set xs) lt \<Longrightarrow> hp lt xs \<Longrightarrow> x \<in> set xs \<Longrightarrow> \<not> lt (hd xs) x"
    and srt: "swo_on (set xs) lt \<Longrightarrow> hp lt xs \<Longrightarrow> mset (srt lt xs) = mset xs \<and> asc lt (srt lt xs)"
begin

lemma pop_butlast:
  assumes "swo_on (set xs) lt" "hp lt xs" "xs \<noteq> []"
  shows "hp lt (butlast (pop lt xs))" and "mset (butlast (pop lt xs)) = mset xs - {#hd xs#}"
    and "set (butlast (pop lt xs)) \<subseteq> set xs"
proof -
  note P = pop [OF assms]
  then have "pop lt xs \<noteq> []" using assms(3) by auto
  then have "mset xs = add_mset (hd xs) (mset (butlast (pop lt xs)))"
    using P by (metis append_butlast_last_id mset_append mset.simps add_mset_add_single)
  then show "mset (butlast (pop lt xs)) = mset xs - {#hd xs#}" by simp
  then show "set (butlast (pop lt xs)) \<subseteq> set xs" by (metis in_diffD set_mset_mset subsetI)
  show "hp lt (butlast (pop lt xs))" using P by simp
qed

lemma grow:
  assumes "swo_on A lt" "set xs \<subseteq> A" "c \<in> A" "hp lt xs"
  shows "hp lt (push lt (xs @ [c]))" and "mset (push lt (xs @ [c])) = add_mset c (mset xs)"
proof -
  have "swo_on (set (xs @ [c])) lt" using assms by (intro swo_subset [OF assms(1)]) auto
  from push [OF this assms(4)]
  show "hp lt (push lt (xs @ [c]))" and "mset (push lt (xs @ [c])) = add_mset c (mset xs)" by auto
qed

lemma replace_root:
  assumes "swo_on A lt" "set xs \<subseteq> A" "c \<in> A" "hp lt xs" "xs \<noteq> []"
  shows "hp lt (push lt (butlast (pop lt xs) @ [c]))"
    and "mset (push lt (butlast (pop lt xs) @ [c])) = add_mset c (mset xs - {#hd xs#})"
proof -
  have swo: "swo_on (set xs) lt" using swo_subset [OF assms(1,2)] .
  note P = pop_butlast [OF swo assms(4,5)]
  have sub: "set (butlast (pop lt xs)) \<subseteq> A" using P(3) assms(2) by blast
  show "hp lt (push lt (butlast (pop lt xs) @ [c]))"
    by (rule grow(1) [OF assms(1) sub assms(3) P(1)])
  show "mset (push lt (butlast (pop lt xs) @ [c])) = add_mset c (mset xs - {#hd xs#})"
    using grow(2) [OF assms(1) sub assms(3) P(1)] P(2) by simp
qed

lemma front_worst:
  assumes "swo_on A lt" "set xs \<subseteq> A" "hp lt xs" "xs \<noteq> []"
  shows "hd xs \<in># mset xs" "\<forall>y\<in>#mset xs. \<not> lt (hd xs) y"
  using front [OF swo_subset [OF assms(1,2)] assms(3)] assms(4) by auto

text \<open>One candidate offered to a bounded collector of the \<open>k\<close> best.\<close>

lemma offer_best:
  assumes swo: "swo_on A lt" "set_mset S \<subseteq> A" "c \<in> A" and h: "hp lt xs"
    and best: "keeps_best lt k S (mset xs)" and k: "0 < k"
  shows "length xs < k \<Longrightarrow> keeps_best lt k (add_mset c S) (mset (push lt (xs @ [c])))"
    and "k \<le> length xs \<Longrightarrow> \<not> lt c (hd xs) \<Longrightarrow> keeps_best lt k (add_mset c S) (mset xs)"
    and "k \<le> length xs \<Longrightarrow> lt c (hd xs) \<Longrightarrow>
      keeps_best lt k (add_mset c S) (mset (push lt (butlast (pop lt xs) @ [c])))"
proof -
  have sub: "set xs \<subseteq> A" using best swo(2) by (auto simp: keeps_best_def dest: mset_subset_eqD)
  have ne: "k \<le> length xs \<Longrightarrow> xs \<noteq> []" using k by auto
  show "length xs < k \<Longrightarrow> keeps_best lt k (add_mset c S) (mset (push lt (xs @ [c])))"
    using grow(2) [OF swo(1) sub swo(3) h] keeps_best_add [OF best] by simp
  show "k \<le> length xs \<Longrightarrow> \<not> lt c (hd xs) \<Longrightarrow> keeps_best lt k (add_mset c S) (mset xs)"
    using front_worst [OF swo(1) sub h ne] by (intro keeps_best_reject [OF swo best]) auto
  show "k \<le> length xs \<Longrightarrow> lt c (hd xs) \<Longrightarrow>
      keeps_best lt k (add_mset c S) (mset (push lt (butlast (pop lt xs) @ [c])))"
    using front_worst [OF swo(1) sub h ne] replace_root(2) [OF swo(1) sub swo(3) h ne]
      keeps_best_replace [OF swo best] by auto
qed

end

interpretation heap: std_heap is_heap push_heap pop_heap sort_heap
proof unfold_locales
  show "is_heap lt []" for lt :: "'a \<Rightarrow> 'a \<Rightarrow> bool" by (simp add: is_heap_def)
  show "\<not> lt (hd xs) x" if "swo_on (set xs) lt" "is_heap lt xs" "x \<in> set xs" for lt and xs and x :: 'a
  proof -
    obtain i where "i < length xs" "x = xs ! i" using \<open>x \<in> set xs\<close> by (metis in_set_conv_nth)
    then show ?thesis using heap_front [OF that(1,2)] by (cases xs) auto
  qed
qed (simp_all add: push_heap_heap pop_heap_heap sort_heap_asc)

end
