(* ===== verification/Vdb_Float.thy ===== *)
theory Vdb_Float
  imports Vdb_Prelude "HOL-Library.Log_Nat"
begin

text \<open>
  The \<^verbatim>\<open>float\<close> and \<^verbatim>\<open>double\<close> of the sources: IEEE-754 binary32 and binary64 with
  round-to-nearest-even. A stored float is its bit pattern (a word, as \<^verbatim>\<open>std::bit_cast\<close> sees it);
  arithmetic decodes it, computes the exact result and rounds once. The magnitude of a finite value
  is a natural number of units of the smallest subnormal, so every operation is executable integer
  arithmetic. A NaN result has the default quiet pattern, since the payload of a computed NaN is not
  specified. The expressions of the sources are evaluated one rounding per operator (no contraction
  into fused operations, except where an intrinsic asks for one).
\<close>

unbundle bit_operations_syntax

section \<open>Formats and values\<close>

record fmt =
  prec :: nat
  ebits :: nat

definition binary32 :: fmt where
  "binary32 = \<lparr>prec = 24, ebits = 8\<rparr>"

definition binary64 :: fmt where
  "binary64 = \<lparr>prec = 53, ebits = 11\<rparr>"

text \<open>\<open>2 ^ funit\<close> units make 1.0; finite magnitudes are below \<open>2 ^ ftop\<close> units.\<close>

definition funit :: "fmt \<Rightarrow> nat" where
  "funit F = 2 ^ (ebits F - 1) - 3 + prec F"

definition ftop :: "fmt \<Rightarrow> nat" where
  "ftop F = prec F + 2 ^ ebits F - 3"

definition fmt_ok :: "fmt \<Rightarrow> bool" where
  "fmt_ok F \<longleftrightarrow> 2 \<le> prec F \<and> 2 \<le> ebits F"

lemma fmt_ok_std [simp]: "fmt_ok binary32" "fmt_ok binary64"
  by (simp_all add: fmt_ok_def binary32_def binary64_def)

lemma prec_std [simp]: "prec binary32 = 24" "prec binary64 = 53"
  by (simp_all add: binary32_def binary64_def)

lemma ebits_std [simp]: "ebits binary32 = 8" "ebits binary64 = 11"
  by (simp_all add: binary32_def binary64_def)

lemma funit_std [simp]: "funit binary32 = 149" "funit binary64 = 1074"
  by (simp_all add: funit_def binary32_def binary64_def)

lemma ftop_std [simp]: "ftop binary32 = 277" "ftop binary64 = 2098"
  by (simp_all add: ftop_def binary32_def binary64_def)

text \<open>The flag is the sign bit (\<open>True\<close> for negative).\<close>

datatype fval = FNaN | FInf bool | FFin bool nat

fun fval_ok :: "fmt \<Rightarrow> fval \<Rightarrow> bool" where
  "fval_ok F FNaN = True"
| "fval_ok F (FInf s) = True"
| "fval_ok F (FFin s n) = (n < 2 ^ ftop F \<and> 2 ^ (floorlog 2 n - prec F) dvd n)"

fun is_nanv :: "fval \<Rightarrow> bool" where
  "is_nanv FNaN = True"
| "is_nanv _ = False"

fun is_finv :: "fval \<Rightarrow> bool" where
  "is_finv (FFin s n) = True"
| "is_finv _ = False"

text \<open>Non-negative values, +infinity included; no NaN.\<close>

fun is_nonnegv :: "fval \<Rightarrow> bool" where
  "is_nonnegv FNaN = False"
| "is_nonnegv (FInf s) = (\<not> s)"
| "is_nonnegv (FFin s n) = (\<not> s \<or> n = 0)"

section \<open>Rounding\<close>

text \<open>\<open>rne p q\<close> is \<open>p / q\<close> rounded to the nearest natural number, ties to even.\<close>

definition rne :: "nat \<Rightarrow> nat \<Rightarrow> nat" where
  "rne p q = (let m = p div q; r = p mod q in
     if q < 2 * r \<or> (2 * r = q \<and> odd m) then Suc m else m)"

definition round_mag :: "fmt \<Rightarrow> nat \<Rightarrow> nat \<Rightarrow> nat" where
  "round_mag F p q = (let e = floorlog 2 (p div q) - prec F in rne p (q * 2 ^ e) * 2 ^ e)"

definition fround :: "fmt \<Rightarrow> bool \<Rightarrow> nat \<Rightarrow> nat \<Rightarrow> fval" where
  "fround F s p q = (let n = round_mag F p q in if 2 ^ ftop F \<le> n then FInf s else FFin s n)"

section \<open>Operations\<close>

fun fneg :: "fval \<Rightarrow> fval" where
  "fneg FNaN = FNaN"
| "fneg (FInf s) = FInf (\<not> s)"
| "fneg (FFin s n) = FFin (\<not> s) n"

fun fadd :: "fmt \<Rightarrow> fval \<Rightarrow> fval \<Rightarrow> fval" where
  "fadd F FNaN y = FNaN"
| "fadd F x FNaN = FNaN"
| "fadd F (FInf s) (FInf t) = (if s = t then FInf s else FNaN)"
| "fadd F (FInf s) (FFin t m) = FInf s"
| "fadd F (FFin s n) (FInf t) = FInf t"
| "fadd F (FFin s n) (FFin t m) =
     (if s = t then fround F s (n + m) 1
      else if n = m then FFin False 0
      else if m < n then fround F s (n - m) 1
      else fround F t (m - n) 1)"

definition fsub :: "fmt \<Rightarrow> fval \<Rightarrow> fval \<Rightarrow> fval" where
  "fsub F x y = fadd F x (fneg y)"

fun fmul :: "fmt \<Rightarrow> fval \<Rightarrow> fval \<Rightarrow> fval" where
  "fmul F FNaN y = FNaN"
| "fmul F x FNaN = FNaN"
| "fmul F (FInf s) (FInf t) = FInf (s \<noteq> t)"
| "fmul F (FInf s) (FFin t m) = (if m = 0 then FNaN else FInf (s \<noteq> t))"
| "fmul F (FFin s n) (FInf t) = (if n = 0 then FNaN else FInf (s \<noteq> t))"
| "fmul F (FFin s n) (FFin t m) = fround F (s \<noteq> t) (n * m) (2 ^ funit F)"

fun fdiv :: "fmt \<Rightarrow> fval \<Rightarrow> fval \<Rightarrow> fval" where
  "fdiv F FNaN y = FNaN"
| "fdiv F x FNaN = FNaN"
| "fdiv F (FInf s) (FInf t) = FNaN"
| "fdiv F (FInf s) (FFin t m) = FInf (s \<noteq> t)"
| "fdiv F (FFin s n) (FInf t) = FFin (s \<noteq> t) 0"
| "fdiv F (FFin s n) (FFin t m) =
     (if m = 0 then (if n = 0 then FNaN else FInf (s \<noteq> t))
      else fround F (s \<noteq> t) (n * 2 ^ funit F) m)"

text \<open>\<open>isqrt n\<close> is the integer part of the square root, two bits at a time.\<close>

fun isqrt :: "nat \<Rightarrow> nat" where
  "isqrt n = (if n = 0 then 0 else
     let r = 2 * isqrt (n div 4) in if (r + 1) * (r + 1) \<le> n then r + 1 else r)"

declare isqrt.simps [simp del]

text \<open>
  The square root of \<open>n\<close> units is \<open>sqrt (n * 2 ^ funit)\<close> units, at least \<open>2 ^ (funit / 2)\<close> of them:
  the half unit that records whether the integer root is exact lies far below the last kept bit.
\<close>

fun fsqrt :: "fmt \<Rightarrow> fval \<Rightarrow> fval" where
  "fsqrt F FNaN = FNaN"
| "fsqrt F (FInf s) = (if s then FNaN else FInf False)"
| "fsqrt F (FFin s n) =
     (if n = 0 then FFin s 0 else if s then FNaN
      else let x = n * 2 ^ funit F; r = isqrt x in
        fround F False (2 * r + (if r * r = x then 0 else 1)) 2)"

text \<open>The fused \<open>a * b + c\<close>: one rounding of the exact value.\<close>

fun ffma_exact :: "fmt \<Rightarrow> bool \<Rightarrow> nat \<Rightarrow> fval \<Rightarrow> fval" where
  "ffma_exact F s p FNaN = FNaN"
| "ffma_exact F s p (FInf t) = FInf t"
| "ffma_exact F s p (FFin t m) =
     (let q = m * 2 ^ funit F; u = 2 ^ funit F in
      if s = t then fround F s (p + q) u
      else if p = q then FFin False 0
      else if q < p then fround F s (p - q) u
      else fround F t (q - p) u)"

fun ffma :: "fmt \<Rightarrow> fval \<Rightarrow> fval \<Rightarrow> fval \<Rightarrow> fval" where
  "ffma F (FFin s n) (FFin t m) z = ffma_exact F (s \<noteq> t) (n * m) z"
| "ffma F x y z = fadd F (fmul F x y) z"

section \<open>Comparison\<close>

text \<open>Position on the extended real line: class first, then the signed number of units.\<close>

fun ford :: "fval \<Rightarrow> int \<times> int" where
  "ford FNaN = (0, 0)"
| "ford (FInf s) = (if s then - 1 else 1, 0)"
| "ford (FFin s n) = (0, if s then - int n else int n)"

definition flt :: "fval \<Rightarrow> fval \<Rightarrow> bool" where
  "flt x y \<longleftrightarrow> \<not> is_nanv x \<and> \<not> is_nanv y \<and>
     (fst (ford x) < fst (ford y) \<or> fst (ford x) = fst (ford y) \<and> snd (ford x) < snd (ford y))"

definition feq :: "fval \<Rightarrow> fval \<Rightarrow> bool" where
  "feq x y \<longleftrightarrow> \<not> is_nanv x \<and> \<not> is_nanv y \<and> ford x = ford y"

definition fle :: "fval \<Rightarrow> fval \<Rightarrow> bool" where
  "fle x y \<longleftrightarrow> flt x y \<or> feq x y"

text \<open>The comparisons by cases, for evaluation.\<close>

fun flt_cases :: "fval \<Rightarrow> fval \<Rightarrow> bool" where
  "flt_cases (FInf s) (FInf t) = (s \<and> \<not> t)"
| "flt_cases (FInf s) (FFin t m) = s"
| "flt_cases (FFin s n) (FInf t) = (\<not> t)"
| "flt_cases (FFin s n) (FFin t m) =
     (if s then (if t then m < n else n \<noteq> 0 \<or> m \<noteq> 0) else \<not> t \<and> n < m)"
| "flt_cases _ _ = False"

fun feq_cases :: "fval \<Rightarrow> fval \<Rightarrow> bool" where
  "feq_cases (FInf s) (FInf t) = (s = t)"
| "feq_cases (FFin s n) (FFin t m) = (n = m \<and> (s = t \<or> n = 0))"
| "feq_cases _ _ = False"

lemma flt_code: "flt x y = flt_cases x y"
  by (cases x; cases y) (auto simp: flt_def)

lemma feq_code: "feq x y = feq_cases x y"
  by (cases x; cases y) (auto simp: feq_def)

section \<open>Bit patterns\<close>

definition fdec :: "fmt \<Rightarrow> nat \<Rightarrow> fval" where
  "fdec F w = (let s = (w div 2 ^ (prec F - 1 + ebits F)) mod 2 = 1;
                   e = (w div 2 ^ (prec F - 1)) mod 2 ^ ebits F;
                   f = w mod 2 ^ (prec F - 1) in
     if e = 2 ^ ebits F - 1 then (if f = 0 then FInf s else FNaN)
     else if e = 0 then FFin s f
     else FFin s ((2 ^ (prec F - 1) + f) * 2 ^ (e - 1)))"

fun fenc_mag :: "fmt \<Rightarrow> nat \<Rightarrow> nat" where
  "fenc_mag F n = (if n < 2 ^ (prec F - 1) then n
     else let e = floorlog 2 n - prec F in
       (e + 1) * 2 ^ (prec F - 1) + (n div 2 ^ e - 2 ^ (prec F - 1)))"

fun fenc :: "fmt \<Rightarrow> fval \<Rightarrow> nat" where
  "fenc F FNaN = (2 ^ ebits F - 1) * 2 ^ (prec F - 1) + 2 ^ (prec F - 2)"
| "fenc F (FInf s) = (if s then 2 ^ (prec F - 1 + ebits F) else 0) + (2 ^ ebits F - 1) * 2 ^ (prec F - 1)"
| "fenc F (FFin s n) = (if s then 2 ^ (prec F - 1 + ebits F) else 0) + fenc_mag F n"

declare fenc_mag.simps [simp del]

type_synonym f32 = "32 word"
type_synonym f64 = "64 word"

definition f32_val :: "f32 \<Rightarrow> fval" where
  "f32_val w = fdec binary32 (unat w)"

definition f32_of :: "fval \<Rightarrow> f32" where
  "f32_of v = word_of_nat (fenc binary32 v)"

definition f64_val :: "f64 \<Rightarrow> fval" where
  "f64_val w = fdec binary64 (unat w)"

definition f64_of :: "fval \<Rightarrow> f64" where
  "f64_of v = word_of_nat (fenc binary64 v)"

definition f32_neg :: "f32 \<Rightarrow> f32" where
  "f32_neg x = x XOR 0x80000000"

definition f32_add :: "f32 \<Rightarrow> f32 \<Rightarrow> f32" where
  "f32_add x y = f32_of (fadd binary32 (f32_val x) (f32_val y))"

definition f32_sub :: "f32 \<Rightarrow> f32 \<Rightarrow> f32" where
  "f32_sub x y = f32_of (fsub binary32 (f32_val x) (f32_val y))"

definition f32_mul :: "f32 \<Rightarrow> f32 \<Rightarrow> f32" where
  "f32_mul x y = f32_of (fmul binary32 (f32_val x) (f32_val y))"

definition f32_div :: "f32 \<Rightarrow> f32 \<Rightarrow> f32" where
  "f32_div x y = f32_of (fdiv binary32 (f32_val x) (f32_val y))"

definition f32_sqrt :: "f32 \<Rightarrow> f32" where
  "f32_sqrt x = f32_of (fsqrt binary32 (f32_val x))"

definition f32_fma :: "f32 \<Rightarrow> f32 \<Rightarrow> f32 \<Rightarrow> f32" where
  "f32_fma x y z = f32_of (ffma binary32 (f32_val x) (f32_val y) (f32_val z))"

definition f32_lt :: "f32 \<Rightarrow> f32 \<Rightarrow> bool" where
  "f32_lt x y = flt (f32_val x) (f32_val y)"

definition f32_le :: "f32 \<Rightarrow> f32 \<Rightarrow> bool" where
  "f32_le x y = fle (f32_val x) (f32_val y)"

definition f32_eq :: "f32 \<Rightarrow> f32 \<Rightarrow> bool" where
  "f32_eq x y = feq (f32_val x) (f32_val y)"

definition f32_isnan :: "f32 \<Rightarrow> bool" where
  "f32_isnan x = is_nanv (f32_val x)"

definition f32_isfinite :: "f32 \<Rightarrow> bool" where
  "f32_isfinite x = is_finv (f32_val x)"

definition f64_add :: "f64 \<Rightarrow> f64 \<Rightarrow> f64" where
  "f64_add x y = f64_of (fadd binary64 (f64_val x) (f64_val y))"

definition f64_mul :: "f64 \<Rightarrow> f64 \<Rightarrow> f64" where
  "f64_mul x y = f64_of (fmul binary64 (f64_val x) (f64_val y))"

definition f64_div :: "f64 \<Rightarrow> f64 \<Rightarrow> f64" where
  "f64_div x y = f64_of (fdiv binary64 (f64_val x) (f64_val y))"

definition f64_neg :: "f64 \<Rightarrow> f64" where
  "f64_neg x = x XOR 0x8000000000000000"

definition f64_lt :: "f64 \<Rightarrow> f64 \<Rightarrow> bool" where
  "f64_lt x y = flt (f64_val x) (f64_val y)"

text \<open>Conversions: widening is exact, narrowing rounds.\<close>

fun fwiden :: "fval \<Rightarrow> fval" where
  "fwiden (FFin s n) = FFin s (n * 2 ^ (funit binary64 - funit binary32))"
| "fwiden v = v"

fun fnarrow :: "fval \<Rightarrow> fval" where
  "fnarrow (FFin s n) = fround binary32 s n (2 ^ (funit binary64 - funit binary32))"
| "fnarrow v = v"

definition f64_of_f32 :: "f32 \<Rightarrow> f64" where
  "f64_of_f32 x = f64_of (fwiden (f32_val x))"

definition f32_of_f64 :: "f64 \<Rightarrow> f32" where
  "f32_of_f64 x = f32_of (fnarrow (f64_val x))"

definition f64_of_int :: "int \<Rightarrow> f64" where
  "f64_of_int i = f64_of (fround binary64 (i < 0) (nat \<bar>i\<bar> * 2 ^ funit binary64) 1)"

section \<open>Rounding lands on a representable value\<close>

lemma rne_le: "0 < q \<Longrightarrow> p \<le> k * q \<Longrightarrow> rne p q \<le> k"
proof -
  assume q: "0 < q" and p: "p \<le> k * q"
  have split: "p = p div q * q + p mod q" and r: "p mod q < q"
    using q by simp_all
  have m: "p div q \<le> k"
    using p q by (metis div_le_mono nonzero_mult_div_cancel_right less_numeral_extra(3))
  show ?thesis
  proof (cases "p div q = k")
    case True
    then have "p mod q = 0" using split p by (metis add_le_same_cancel1 le_zero_eq)
    then show ?thesis using True q by (simp add: rne_def)
  next
    case False
    then show ?thesis using m by (simp add: rne_def Let_def)
  qed
qed

lemma rne_ge: "0 < q \<Longrightarrow> k * q \<le> p \<Longrightarrow> k \<le> rne p q"
proof -
  assume "0 < q" "k * q \<le> p"
  then have "k \<le> p div q"
    by (metis div_le_mono nonzero_mult_div_cancel_right less_numeral_extra(3))
  then show ?thesis by (simp add: rne_def Let_def)
qed

lemma less_power_floorlog: "n < 2 ^ floorlog 2 n"
  by (cases "n = 0") (use floorlog_bounds [of n 2] in auto)

lemma floorlog_le_power: "n < 2 ^ k \<Longrightarrow> floorlog 2 n \<le> k"
proof (cases "n = 0")
  case True
  then show ?thesis by (simp add: floorlog_def)
next
  case False
  assume n: "n < 2 ^ k"
  have "2 ^ (floorlog 2 n - 1) \<le> n"
    using False floorlog_bounds [of n 2] by simp
  then have "(2::nat) ^ (floorlog 2 n - 1) < 2 ^ k" using n by (rule order.strict_trans1)
  then have "floorlog 2 n - 1 < k" by simp
  then show ?thesis by simp
qed

lemma floorlog_eq_power: "2 ^ k \<le> n \<Longrightarrow> n < 2 ^ Suc k \<Longrightarrow> floorlog 2 n = Suc k"
proof -
  assume lo: "2 ^ k \<le> n" and hi: "n < 2 ^ Suc k"
  have "(2::nat) ^ k < 2 ^ floorlog 2 n"
    using lo less_power_floorlog [of n] by (rule order.strict_trans1)
  then have "k < floorlog 2 n" by simp
  with floorlog_le_power [OF hi] show ?thesis by simp
qed

lemma scaled_dvd: "n = m * 2 ^ e \<Longrightarrow> m \<le> 2 ^ P \<Longrightarrow> 0 < P \<Longrightarrow> 2 ^ (floorlog 2 n - P) dvd (n::nat)"
proof -
  assume n: "n = m * 2 ^ e" and m: "m \<le> 2 ^ P" and P: "0 < P"
  show ?thesis
  proof (cases "m = 2 ^ P")
    case True
    then have n2: "n = 2 ^ (P + e)" using n by (simp add: power_add)
    have "floorlog 2 n = Suc (P + e)" by (rule floorlog_eq_power) (simp_all add: n2)
    then have "floorlog 2 n - P \<le> P + e" using P by simp
    then show ?thesis unfolding n2 [symmetric] using n2 by (simp add: le_imp_power_dvd)
  next
    case False
    then have "n < 2 ^ P * 2 ^ e" using n m by simp
    then have "n < 2 ^ (P + e)" by (simp add: power_add)
    then have "floorlog 2 n - P \<le> e" using floorlog_le_power by fastforce
    then show ?thesis using n by (simp add: le_imp_power_dvd dvd_mult)
  qed
qed

lemma round_mag_le_prec:
  assumes "0 < q"
  shows "rne p (q * 2 ^ (floorlog 2 (p div q) - P)) \<le> 2 ^ P"
proof (rule rne_le)
  let ?b = "floorlog 2 (p div q)"
  show "0 < q * 2 ^ (?b - P)" using assms by simp
  have "p div q < 2 ^ ?b" by (rule less_power_floorlog)
  then have "p < 2 ^ ?b * q" using assms by (simp add: div_less_iff_less_mult)
  also have "\<dots> \<le> 2 ^ (P + (?b - P)) * q"
    by (intro mult_right_mono power_increasing) auto
  also have "\<dots> = 2 ^ P * (q * 2 ^ (?b - P))" by (simp add: power_add)
  finally show "p \<le> 2 ^ P * (q * 2 ^ (?b - P))" by simp
qed

lemma fround_ok: "fmt_ok F \<Longrightarrow> 0 < q \<Longrightarrow> fval_ok F (fround F s p q)"
  using scaled_dvd [OF refl round_mag_le_prec] unfolding fround_def round_mag_def Let_def fmt_ok_def
  by auto

text \<open>A value below a power of two rounds to at most that power.\<close>

lemma round_mag_le_power: "0 < q \<Longrightarrow> p \<le> 2 ^ j * q \<Longrightarrow> 0 < prec F \<Longrightarrow> round_mag F p q \<le> 2 ^ j"
proof -
  assume q: "0 < q" and p: "p \<le> 2 ^ j * q" and P: "0 < prec F"
  let ?e = "floorlog 2 (p div q) - prec F"
  have "p div q \<le> 2 ^ j"
    using p q by (metis div_le_mono nonzero_mult_div_cancel_right less_numeral_extra(3))
  then have "floorlog 2 (p div q) \<le> Suc j"
    by (intro floorlog_le_power) (simp add: order.strict_trans1)
  then have e: "?e \<le> j" using P by simp
  have "p \<le> 2 ^ (j - ?e) * (q * 2 ^ ?e)"
    using p e by (metis (no_types, lifting) le_add_diff_inverse2 mult.assoc mult.commute power_add)
  then have "rne p (q * 2 ^ ?e) \<le> 2 ^ (j - ?e)" using q by (intro rne_le) auto
  then have "rne p (q * 2 ^ ?e) * 2 ^ ?e \<le> 2 ^ (j - ?e) * 2 ^ ?e" by simp
  then show ?thesis using e by (simp add: round_mag_def Let_def flip: power_add)
qed

lemma fround_le_power:
  "fmt_ok F \<Longrightarrow> 0 < q \<Longrightarrow> p \<le> 2 ^ j * q \<Longrightarrow> j < ftop F \<Longrightarrow>
   \<exists>n. fround F s p q = FFin s n \<and> n \<le> 2 ^ j"
proof -
  assume a: "fmt_ok F" "0 < q" "p \<le> 2 ^ j * q" "j < ftop F"
  then have r: "round_mag F p q \<le> 2 ^ j" by (intro round_mag_le_power) (auto simp: fmt_ok_def)
  also have "(2::nat) ^ j < 2 ^ ftop F" using a by simp
  finally show ?thesis using r by (simp add: fround_def Let_def)
qed

lemma fround_not_nan [simp]: "\<not> is_nanv (fround F s p q)" "fround F s p q \<noteq> FNaN"
  by (simp_all add: fround_def Let_def)

lemma fround_zero [simp]: "fround F s 0 q = FFin s 0"
  by (simp add: fround_def round_mag_def rne_def)

lemma fround_neg: "fround F (\<not> s) p q = fneg (fround F s p q)"
  by (simp add: fround_def Let_def)

lemma fround_nonneg [simp]: "is_nonnegv (fround F False p q)"
  by (simp add: fround_def Let_def)

lemma fneg_ok [simp]: "fval_ok F (fneg x) = fval_ok F x"
  by (cases x) auto

lemma fneg_neg [simp]: "fneg (fneg x) = x"
  by (cases x) auto

lemma fneg_nan [simp]: "is_nanv (fneg x) = is_nanv x"
  by (cases x) auto

lemma fadd_ok: "fmt_ok F \<Longrightarrow> fval_ok F x \<Longrightarrow> fval_ok F y \<Longrightarrow> fval_ok F (fadd F x y)"
  by (cases x; cases y) (auto intro: fround_ok)

lemma fsub_ok: "fmt_ok F \<Longrightarrow> fval_ok F x \<Longrightarrow> fval_ok F y \<Longrightarrow> fval_ok F (fsub F x y)"
  by (simp add: fsub_def fadd_ok)

lemma fmul_ok: "fmt_ok F \<Longrightarrow> fval_ok F (fmul F x y)"
  by (cases x; cases y) (auto intro: fround_ok)

lemma fdiv_ok: "fmt_ok F \<Longrightarrow> fval_ok F (fdiv F x y)"
  by (cases x; cases y) (auto intro: fround_ok simp: floorlog_def)

lemma fsqrt_ok: "fmt_ok F \<Longrightarrow> fval_ok F (fsqrt F x)"
  by (cases x) (auto intro: fround_ok simp: Let_def floorlog_def)

lemma ffma_exact_ok: "fmt_ok F \<Longrightarrow> fval_ok F (ffma_exact F s p x)"
  by (cases x) (auto intro!: fround_ok simp: Let_def floorlog_def)

lemma ffma_ok: "fmt_ok F \<Longrightarrow> fval_ok F z \<Longrightarrow> fval_ok F (ffma F x y z)"
  by (cases x; cases y) (auto intro: fadd_ok fmul_ok ffma_exact_ok simp del: fadd.simps fmul.simps)

lemmas fops_ok = fadd_ok fsub_ok fmul_ok fdiv_ok fsqrt_ok ffma_ok

section \<open>Encoding and decoding\<close>

lemma fdec_ok: "fmt_ok F \<Longrightarrow> fval_ok F (fdec F w)"
proof -
  assume F: "fmt_ok F"
  let ?P = "prec F - 1" and ?E = "2 ^ ebits F :: nat"
  let ?e = "(w div 2 ^ ?P) mod ?E" and ?f = "w mod 2 ^ ?P"
  have P: "prec F = Suc ?P" and E: "4 \<le> ?E"
    using F power_increasing [of 2 "ebits F" "2::nat"] by (auto simp: fmt_ok_def)
  have f: "?f < 2 ^ ?P" by simp
  have sub: "fval_ok F (FFin s ?f)" for s
  proof -
    have "(2::nat) ^ ?P \<le> 2 ^ ftop F"
      using E P by (intro power_increasing) (auto simp: ftop_def)
    then have "?f < 2 ^ ftop F" by (rule order.strict_trans2 [OF f])
    moreover have "floorlog 2 ?f - prec F = 0" using floorlog_le_power [OF f] by simp
    ultimately show ?thesis by simp
  qed
  have norm: "fval_ok F (FFin s ((2 ^ ?P + ?f) * 2 ^ (?e - 1)))"
    if e: "?e \<noteq> ?E - 1" "?e \<noteq> 0" for s
  proof -
    let ?m = "2 ^ ?P + ?f"
    have e2: "?e \<le> ?E - 2"
    proof -
      have "?e < ?E" by simp
      then show ?thesis using e(1) by linarith
    qed
    have m: "?m < 2 ^ prec F" using f P by (metis add_less_cancel_left mult_2 power_Suc)
    have "?m * 2 ^ (?e - 1) < 2 ^ prec F * 2 ^ (?e - 1)" using m by simp
    also have "\<dots> = 2 ^ (prec F + (?e - 1))" by (simp add: power_add)
    also have "\<dots> \<le> 2 ^ ftop F"
      using e e2 E by (intro power_increasing) (auto simp: ftop_def)
    finally have "?m * 2 ^ (?e - 1) < 2 ^ ftop F" .
    moreover have "2 ^ (floorlog 2 (?m * 2 ^ (?e - 1)) - prec F) dvd ?m * 2 ^ (?e - 1)"
      using m P by (intro scaled_dvd [OF refl]) auto
    ultimately show ?thesis by simp
  qed
  show ?thesis
    unfolding fdec_def Let_def using sub norm by (simp del: fval_ok.simps(3))
qed

lemma fenc_mag_parts:
  assumes F: "fmt_ok F" and v: "fval_ok F (FFin s n)"
  shows "fenc_mag F n < (2 ^ ebits F - 1) * 2 ^ (prec F - 1)"
    and "fdec F ((if t then 2 ^ (prec F - 1 + ebits F) else 0) + fenc_mag F n) = FFin t n"
proof -
  let ?P = "prec F - 1" and ?E = "2 ^ ebits F :: nat"
  let ?m = "fenc_mag F n"
  have P: "prec F = Suc ?P" and E: "4 \<le> ?E"
    using F power_increasing [of 2 "ebits F" "2::nat"] by (auto simp: fmt_ok_def)
  have ex: "\<exists>e f. ?m = e * 2 ^ ?P + f \<and> f < 2 ^ ?P \<and> e < ?E - 1 \<and>
     n = (if e = 0 then f else (2 ^ ?P + f) * 2 ^ (e - 1))"
  proof (cases "n < 2 ^ ?P")
    case True
    then show ?thesis using E by (intro exI [of _ 0] exI [of _ n]) (simp add: fenc_mag.simps)
  next
    case False
    define e where "e = floorlog 2 n - prec F"
    define m where "m = n div 2 ^ e"
    have nm: "n = m * 2 ^ e" using v by (simp add: m_def e_def)
    have lo: "prec F \<le> floorlog 2 n"
    proof -
      have "(2::nat) ^ ?P < 2 ^ floorlog 2 n"
        using False less_power_floorlog [of n] by (meson not_le order.strict_trans1)
      then show ?thesis using P by simp
    qed
    have b: "floorlog 2 n = prec F + e" using lo by (simp add: e_def)
    have "n < 2 ^ (prec F + e)" using less_power_floorlog [of n] b by simp
    then have m_hi: "m < 2 ^ prec F" by (simp add: m_def power_add div_less_iff_less_mult)
    have "2 ^ (floorlog 2 n - 1) \<le> n" using False floorlog_bounds [of n 2] by (cases "n = 0") auto
    then have "2 ^ (?P + e) \<le> n" using b P by simp
    then have m_lo: "2 ^ ?P \<le> m" by (simp add: nm power_add)
    have "floorlog 2 n \<le> ftop F" using v by (intro floorlog_le_power) simp
    then have e_hi: "e + 1 < ?E - 1" using b E P by (simp add: ftop_def)
    have f: "m - 2 ^ ?P < 2 ^ ?P" using m_hi m_lo P
      by (metis add_diff_inverse_nat less_diff_conv2 mult_2 not_le power_Suc)
    have "?m = (e + 1) * 2 ^ ?P + (m - 2 ^ ?P)"
      using False by (simp add: fenc_mag.simps Let_def e_def m_def)
    moreover have "n = (2 ^ ?P + (m - 2 ^ ?P)) * 2 ^ (e + 1 - 1)" using nm m_lo by simp
    ultimately show ?thesis using f e_hi by (intro exI [of _ "e + 1"] exI [of _ "m - 2 ^ ?P"]) simp
  qed
  then obtain e f where mf: "?m = e * 2 ^ ?P + f" "f < 2 ^ ?P" "e < ?E - 1"
    and n: "n = (if e = 0 then f else (2 ^ ?P + f) * 2 ^ (e - 1))" by blast
  have "?m < Suc e * 2 ^ ?P" using mf by simp
  also have "\<dots> \<le> (?E - 1) * 2 ^ ?P" using mf(3) by (intro mult_right_mono) auto
  finally show lt: "?m < (?E - 1) * 2 ^ ?P" .
  let ?w = "(if t then 2 ^ (?P + ebits F) else 0) + ?m"
  have w: "?w = ((if t then ?E else 0) + e) * 2 ^ ?P + f"
    by (simp add: mf(1) power_add algebra_simps)
  have d: "?w div 2 ^ ?P = (if t then ?E else 0) + e" "?w mod 2 ^ ?P = f"
    unfolding w using mf(2) by simp_all
  have s: "?w div 2 ^ (?P + ebits F) = (if t then 1 else 0)"
  proof -
    have "?w div 2 ^ (?P + ebits F) = ?w div 2 ^ ?P div ?E"
      by (simp add: power_add div_mult2_eq)
    then show ?thesis using d mf(3) by simp
  qed
  have e: "?w div 2 ^ ?P mod ?E = e" using d mf(3) by simp
  show "fdec F ?w = FFin t n"
    unfolding fdec_def Let_def e d(2) s using n mf(3) by simp
qed

lemma fdec_fenc: "fmt_ok F \<Longrightarrow> fval_ok F v \<Longrightarrow> fdec F (fenc F v) = v"
proof (cases v)
  case FNaN
  assume F: "fmt_ok F"
  let ?P = "prec F - 1" and ?E = "2 ^ ebits F :: nat"
  have P: "?P = Suc (prec F - 2)" using F by (auto simp: fmt_ok_def)
  then have h: "(2::nat) ^ (prec F - 2) < 2 ^ ?P" by simp
  have "(?E - 1 + 0) * 2 ^ ?P + 2 ^ (prec F - 2) = fenc F v" using FNaN by simp
  then have d: "fenc F v div 2 ^ ?P = ?E - 1" "fenc F v mod 2 ^ ?P = 2 ^ (prec F - 2)"
    using h by (metis add.right_neutral div_mult_self3 div_less add_0 power_not_zero zero_neq_numeral,
       metis add.right_neutral mod_mult_self3 mod_less)
  show ?thesis unfolding fdec_def Let_def d using FNaN by simp
next
  case (FInf s)
  assume F: "fmt_ok F"
  let ?P = "prec F - 1" and ?E = "2 ^ ebits F :: nat"
  have w: "fenc F v = ((if s then ?E else 0) + (?E - 1)) * 2 ^ ?P"
    using FInf by (simp add: power_add algebra_simps)
  have d: "fenc F v div 2 ^ ?P = (if s then ?E else 0) + (?E - 1)" "fenc F v mod 2 ^ ?P = 0"
    unfolding w by simp_all
  have e: "((if s then ?E else 0) + (?E - 1)) mod ?E = ?E - 1"
    using mod_add_self1 [of ?E "?E - 1"] mod_less [of "?E - 1" ?E] by (cases s) simp_all
  have "fenc F v div 2 ^ (?P + ebits F) = fenc F v div 2 ^ ?P div ?E"
    by (simp add: power_add div_mult2_eq)
  then have "fenc F v div 2 ^ (?P + ebits F) = (if s then 1 else 0)"
    unfolding d using div_add_self1 [of ?E "?E - 1"] div_less [of "?E - 1" ?E] by (cases s) simp_all
  then show ?thesis unfolding fdec_def Let_def d e using FInf by simp
next
  case (FFin s n)
  assume "fmt_ok F" "fval_ok F v"
  then show ?thesis using fenc_mag_parts(2) [of F s n s] FFin by simp
qed

lemma fenc_less: "fmt_ok F \<Longrightarrow> fval_ok F v \<Longrightarrow> fenc F v < 2 ^ (prec F + ebits F)"
proof -
  assume F: "fmt_ok F" and v: "fval_ok F v"
  let ?P = "prec F - 1" and ?E = "2 ^ ebits F :: nat"
  have P: "prec F = Suc ?P" "?P = Suc (prec F - 2)" using F by (auto simp: fmt_ok_def)
  have q: "(2::nat) ^ (prec F - 2) < 2 ^ ?P" using P(2) by simp
  have "fenc F v < 2 ^ (?P + ebits F) + ?E * 2 ^ ?P"
  proof -
    define a where "a = (?E - 1) * 2 ^ ?P"
    have E: "a + 2 ^ ?P = ?E * 2 ^ ?P"
      unfolding a_def by (metis Suc_pred' add.commute mult_Suc pos2 zero_less_power)
    have pos: "(0::nat) < 2 ^ ?P" by simp
    show ?thesis
    proof (cases v)
      case FNaN
      then have "fenc F v = a + 2 ^ (prec F - 2)" by (simp add: a_def)
      then show ?thesis using E q by linarith
    next
      case (FInf s)
      then have "fenc F v \<le> 2 ^ (?P + ebits F) + a" by (simp add: a_def)
      then show ?thesis using E pos by linarith
    next
      case (FFin s n)
      then have "fenc_mag F n < a" using fenc_mag_parts(1) [OF F] v unfolding a_def by blast
      moreover have "fenc F v \<le> 2 ^ (?P + ebits F) + fenc_mag F n" using FFin by simp
      ultimately show ?thesis using E by linarith
    qed
  qed
  also have "\<dots> = 2 ^ Suc ?P * ?E" by (simp add: power_add)
  also have "\<dots> = 2 ^ (prec F + ebits F)" by (simp only: P(1) [symmetric] power_add)
  finally show ?thesis .
qed

lemma f32_val_ok [simp]: "fval_ok binary32 (f32_val w)"
  by (simp add: f32_val_def fdec_ok)

lemma f64_val_ok [simp]: "fval_ok binary64 (f64_val w)"
  by (simp add: f64_val_def fdec_ok)

lemma f32_val_of: "fval_ok binary32 v \<Longrightarrow> f32_val (f32_of v) = v"
  using fenc_less [of binary32 v]
  by (simp add: f32_val_def f32_of_def fdec_fenc unat_of_nat)

lemma f64_val_of: "fval_ok binary64 v \<Longrightarrow> f64_val (f64_of v) = v"
  using fenc_less [of binary64 v]
  by (simp add: f64_val_def f64_of_def fdec_fenc unat_of_nat)

lemma f32_val_add [simp]: "f32_val (f32_add x y) = fadd binary32 (f32_val x) (f32_val y)"
  by (simp add: f32_add_def f32_val_of fops_ok)

lemma f32_val_sub [simp]: "f32_val (f32_sub x y) = fsub binary32 (f32_val x) (f32_val y)"
  by (simp add: f32_sub_def f32_val_of fops_ok)

lemma f32_val_mul [simp]: "f32_val (f32_mul x y) = fmul binary32 (f32_val x) (f32_val y)"
  by (simp add: f32_mul_def f32_val_of fops_ok)

lemma f32_val_div [simp]: "f32_val (f32_div x y) = fdiv binary32 (f32_val x) (f32_val y)"
  by (simp add: f32_div_def f32_val_of fops_ok)

lemma f32_val_sqrt [simp]: "f32_val (f32_sqrt x) = fsqrt binary32 (f32_val x)"
  by (simp add: f32_sqrt_def f32_val_of fops_ok)

lemma f32_val_fma [simp]:
  "f32_val (f32_fma x y z) = ffma binary32 (f32_val x) (f32_val y) (f32_val z)"
  by (simp add: f32_fma_def f32_val_of fops_ok)

lemma f64_val_add [simp]: "f64_val (f64_add x y) = fadd binary64 (f64_val x) (f64_val y)"
  by (simp add: f64_add_def f64_val_of fops_ok)

lemma f64_val_mul [simp]: "f64_val (f64_mul x y) = fmul binary64 (f64_val x) (f64_val y)"
  by (simp add: f64_mul_def f64_val_of fops_ok)

section \<open>Order\<close>

lemma flt_irrefl [simp]: "\<not> flt x x"
  by (simp add: flt_def)

lemma flt_trans: "flt x y \<Longrightarrow> flt y z \<Longrightarrow> flt x z"
  by (auto simp: flt_def)

lemma flt_asym: "flt x y \<Longrightarrow> \<not> flt y x"
  by (auto simp: flt_def)

lemma flt_total: "\<not> is_nanv x \<Longrightarrow> \<not> is_nanv y \<Longrightarrow> flt x y \<or> feq x y \<or> flt y x"
  by (auto simp: flt_def feq_def prod_eq_iff)

lemma flt_nan [simp]: "flt FNaN x = False" "flt x FNaN = False"
  by (simp_all add: flt_def)

lemma feq_nan [simp]: "feq FNaN x = False" "feq x FNaN = False"
  by (simp_all add: feq_def)

lemma feq_not_flt: "feq x y \<Longrightarrow> \<not> flt x y \<and> \<not> flt y x"
  by (auto simp: flt_def feq_def)

lemma feq_refl: "feq x x \<longleftrightarrow> \<not> is_nanv x"
  by (simp add: feq_def)

lemma feq_sym: "feq x y \<Longrightarrow> feq y x"
  by (simp add: feq_def)

lemma feq_trans: "feq x y \<Longrightarrow> feq y z \<Longrightarrow> feq x z"
  by (simp add: feq_def)

lemma flt_feq_trans: "flt x y \<Longrightarrow> feq y z \<Longrightarrow> flt x z" "feq x y \<Longrightarrow> flt y z \<Longrightarrow> flt x z"
  by (auto simp: flt_def feq_def)

lemma f32_lt_irrefl [simp]: "\<not> f32_lt x x"
  by (simp add: f32_lt_def)

lemma f32_lt_trans: "f32_lt x y \<Longrightarrow> f32_lt y z \<Longrightarrow> f32_lt x z"
  unfolding f32_lt_def by (rule flt_trans)

lemma f32_lt_asym: "f32_lt x y \<Longrightarrow> \<not> f32_lt y x"
  unfolding f32_lt_def by (rule flt_asym)

text \<open>There are finitely many floats, so a chain of strictly decreasing keys ends.\<close>

definition f32_rank :: "f32 \<Rightarrow> nat" where
  "f32_rank x = card {y. f32_lt y x}"

lemma f32_rank_less:
  assumes xy: "f32_lt x y"
  shows "f32_rank x < f32_rank y"
  unfolding f32_rank_def
proof (rule psubset_card_mono)
  show "finite {z. f32_lt z y}" by (rule finite)
  show "{z. f32_lt z x} \<subset> {z. f32_lt z y}"
  proof (rule psubsetI)
    show "{z. f32_lt z x} \<subseteq> {z. f32_lt z y}"
      by (rule Collect_mono) (rule impI, rule f32_lt_trans [OF _ xy])
    have x: "x \<in> {z. f32_lt z y}" using xy by (rule CollectI)
    show "{z. f32_lt z x} \<noteq> {z. f32_lt z y}"
    proof
      assume "{z. f32_lt z x} = {z. f32_lt z y}"
      with x have "x \<in> {z. f32_lt z x}" by (rule back_subst [OF _ sym])
      then show False by (rule CollectE) (erule notE [OF f32_lt_irrefl])
    qed
  qed
qed

section \<open>Algebraic facts that hold bit for bit\<close>

lemma fadd_comm: "fadd F x y = fadd F y x"
  by (cases x; cases y) (auto simp: add.commute)

lemma fmul_comm: "fmul F x y = fmul F y x"
proof -
  have sign: "(s = (\<not> t)) = (t = (\<not> s))" for s t by auto
  show ?thesis by (cases x; cases y) (auto simp: mult.commute sign)
qed

lemma f32_add_comm: "f32_add x y = f32_add y x"
  by (simp add: f32_add_def fadd_comm)

lemma f32_mul_comm: "f32_mul x y = f32_mul y x"
  by (simp add: f32_mul_def fmul_comm)

lemma fmul_neg_neg: "fmul F (fneg x) (fneg y) = fmul F x y"
  by (cases x; cases y) auto

lemma fsub_swap: "fsub F y x = fneg (fsub F x y) \<or> fsub F y x = fsub F x y"
  by (cases x; cases y) (auto simp: fsub_def add.commute fround_neg [symmetric])

lemma f32_sub_square: "f32_mul (f32_sub x y) (f32_sub x y) = f32_mul (f32_sub y x) (f32_sub y x)"
proof -
  have "fmul binary32 (fsub binary32 (f32_val x) (f32_val y)) (fsub binary32 (f32_val x) (f32_val y)) =
        fmul binary32 (fsub binary32 (f32_val y) (f32_val x)) (fsub binary32 (f32_val y) (f32_val x))"
    using fsub_swap [of binary32 "f32_val y" "f32_val x"] fmul_neg_neg by metis
  then show ?thesis unfolding f32_mul_def by simp
qed

lemma fsub_self: "is_finv x \<Longrightarrow> fsub F x x = FFin False 0"
  by (cases x) (auto simp: fsub_def)

lemma fadd_nonneg: "is_nonnegv x \<Longrightarrow> is_nonnegv y \<Longrightarrow> is_nonnegv (fadd F x y)"
  by (cases x; cases y) auto

lemma fmul_self_nonneg: "\<not> is_nanv x \<Longrightarrow> is_nonnegv (fmul F x x)"
  by (cases x) auto

lemma fsub_fin_not_nan: "is_finv x \<Longrightarrow> is_finv y \<Longrightarrow> \<not> is_nanv (fsub F x y)"
  by (cases x; cases y) (auto simp: fsub_def)

lemma nonneg_not_nan: "is_nonnegv x \<Longrightarrow> \<not> is_nanv x"
  by (cases x) auto

lemma fsqrt_nonneg: "is_nonnegv x \<Longrightarrow> is_nonnegv (fsqrt F x)"
  by (cases x) (auto simp: Let_def)

lemma is_finv_nan: "is_finv x \<Longrightarrow> \<not> is_nanv x"
  by (cases x) auto

section \<open>Evaluation\<close>

text \<open>
  The equations that evaluate a floating-point expression on literals by the simplifier. They are
  used with \<open>cong: let_weak_cong\<close>, so that a bound value is computed before it is used.
\<close>

lemmas feval =
  f32_add_def f32_sub_def f32_mul_def f32_div_def f32_sqrt_def f32_fma_def f32_neg_def
  f32_lt_def f32_le_def f32_eq_def f32_isnan_def f32_isfinite_def f32_val_def f32_of_def
  f64_add_def f64_mul_def f64_div_def f64_neg_def f64_lt_def f64_val_def f64_of_def
  f64_of_f32_def f32_of_f64_def f64_of_int_def
  fdec_def fsub_def fle_def flt_code feq_code fround_def round_mag_def rne_def Let_def
  compute_floorlog fenc_mag.simps isqrt.simps

end
