(* ===== verification/Vdb_TopK.thy ===== *)
theory Vdb_TopK
  imports Vdb_Heap Vdb_Float
begin

text \<open>
  \<^verbatim>\<open>Candidate\<close> and \<^verbatim>\<open>CandidateBetter\<close> (\<^verbatim>\<open>core/search_result.hpp\<close>) and \<^verbatim>\<open>TopKCollector\<close> with
  \<^verbatim>\<open>merge_top_k\<close> (\<^verbatim>\<open>core/top_k.hpp\<close>, \<^verbatim>\<open>src/core/top_k.cpp\<close>). The lemmas show that the comparison is
  a strict weak ordering exactly as long as no key is NaN, that the collector keeps the \<open>k\<close> best of
  what it is offered, and that the early exit of the merge loses nothing.
\<close>

section \<open>Candidates\<close>

record candidate =
  local_id :: local_id
  key :: f32

definition candidate_better :: "candidate \<Rightarrow> candidate \<Rightarrow> bool" where
  "candidate_better a b =
     (if \<not> f32_eq (key a) (key b) then f32_lt (key a) (key b) else local_id a < local_id b)"

section \<open>The collector\<close>

record top_k =
  tk_k :: nat
  tk_heap :: "candidate list"

definition top_k_new :: "nat \<Rightarrow> top_k result" where
  "top_k_new k = (if k = 0 then Inl InvalidArgumentError else Inr \<lparr>tk_k = k, tk_heap = []\<rparr>)"

definition kUnbounded :: f32 where
  "kUnbounded = f32_of (FInf False)"

definition would_accept :: "top_k \<Rightarrow> f32 \<Rightarrow> bool" where
  "would_accept t x =
     (if length (tk_heap t) < tk_k t then True else f32_le x (key (hd (tk_heap t))))"

definition offer :: "top_k \<Rightarrow> local_id \<Rightarrow> f32 \<Rightarrow> top_k" where
  "offer t i x =
     (if length (tk_heap t) < tk_k t
      then t\<lparr>tk_heap := push_heap candidate_better (tk_heap t @ [\<lparr>local_id = i, key = x\<rparr>])\<rparr>
      else let c = \<lparr>local_id = i, key = x\<rparr> in
        if \<not> candidate_better c (hd (tk_heap t)) then t
        else let popped = pop_heap candidate_better (tk_heap t) in
          t\<lparr>tk_heap := push_heap candidate_better (butlast popped @ [c])\<rparr>)"

definition worst :: "top_k \<Rightarrow> f32" where
  "worst t = (if length (tk_heap t) < tk_k t then kUnbounded else key (hd (tk_heap t)))"

definition take_sorted :: "top_k \<Rightarrow> candidate list \<times> top_k" where
  "take_sorted t = (sort_heap candidate_better (tk_heap t), t\<lparr>tk_heap := []\<rparr>)"

definition top_k_reset :: "top_k \<Rightarrow> nat \<Rightarrow> top_k result" where
  "top_k_reset t k =
     (if k = 0 then Inl InvalidArgumentError else Inr (t\<lparr>tk_heap := [], tk_k := k\<rparr>))"

text \<open>The inner loop of the merge leaves a list at the first key the collector would refuse.\<close>

fun merge_list :: "top_k \<Rightarrow> candidate list \<Rightarrow> top_k" where
  "merge_list t [] = t"
| "merge_list t (c # cs) =
     (if \<not> would_accept t (key c) then t else merge_list (offer t (local_id c) (key c)) cs)"

definition merge_top_k :: "candidate list list \<Rightarrow> nat \<Rightarrow> candidate list result" where
  "merge_top_k lss k =
     (if k = 0 then Inl InvalidArgumentError
      else let total = sum_list (map length lss) in
        if total = 0 then Inr []
        else rbind (top_k_new (min k total)) (\<lambda>t. Inr (fst (take_sorted (foldl merge_list t lss)))))"

section \<open>The order on candidates\<close>

definition ordered_key :: "candidate \<Rightarrow> bool" where
  "ordered_key c \<longleftrightarrow> \<not> f32_isnan (key c)"

definition ordered :: "candidate set" where
  "ordered = {c. ordered_key c}"

lemma in_ordered [simp]: "c \<in> ordered \<longleftrightarrow> \<not> is_nanv (f32_val (key c))"
  by (simp add: ordered_def ordered_key_def f32_isnan_def)

lemma better_alt:
  "\<not> is_nanv (f32_val (key a)) \<Longrightarrow> \<not> is_nanv (f32_val (key b)) \<Longrightarrow>
   candidate_better a b \<longleftrightarrow> f32_lt (key a) (key b) \<or> f32_eq (key a) (key b) \<and> local_id a < local_id b"
  using feq_not_flt by (auto simp: candidate_better_def f32_eq_def f32_lt_def)

lemma swo_better: "swo_on ordered candidate_better"
  unfolding swo_on_def
proof (intro conjI ballI impI)
  fix a assume "a \<in> ordered"
  then show "\<not> candidate_better a a" by (simp add: candidate_better_def)
next
  fix a b c assume o: "a \<in> ordered" "b \<in> ordered" "c \<in> ordered"
    and ab: "candidate_better a b" and bc: "candidate_better b c"
  then show "candidate_better a c"
    by (auto simp: better_alt f32_eq_def f32_lt_def intro: flt_trans flt_feq_trans feq_trans)
next
  fix a b c assume o: "a \<in> ordered" "b \<in> ordered" "c \<in> ordered"
    and ab: "\<not> candidate_better a b" and bc: "\<not> candidate_better b c"
  have "flt (f32_val (key b)) (f32_val (key a)) \<or>
      feq (f32_val (key b)) (f32_val (key a)) \<and> local_id b \<le> local_id a"
    using o ab flt_total [of "f32_val (key a)" "f32_val (key b)"] feq_sym
    by (auto simp: better_alt f32_eq_def f32_lt_def not_less)
  moreover have "flt (f32_val (key c)) (f32_val (key b)) \<or>
      feq (f32_val (key c)) (f32_val (key b)) \<and> local_id c \<le> local_id b"
    using o bc flt_total [of "f32_val (key b)" "f32_val (key c)"] feq_sym
    by (auto simp: better_alt f32_eq_def f32_lt_def not_less)
  ultimately have "flt (f32_val (key c)) (f32_val (key a)) \<or>
      feq (f32_val (key c)) (f32_val (key a)) \<and> local_id c \<le> local_id a"
    by (auto intro: flt_trans flt_feq_trans feq_trans)
  then show "\<not> candidate_better a c"
    using o feq_not_flt flt_asym by (auto simp: better_alt f32_eq_def f32_lt_def feq_def)
qed

lemma better_total:
  "a \<in> ordered \<Longrightarrow> b \<in> ordered \<Longrightarrow> local_id a \<noteq> local_id b \<Longrightarrow>
   candidate_better a b \<or> candidate_better b a"
  using flt_total [of "f32_val (key a)" "f32_val (key b)"] feq_sym
  by (auto simp: better_alt f32_eq_def f32_lt_def)

section \<open>What the collector holds\<close>

text \<open>The specification: the candidates sorted best first, cut after \<open>k\<close>.\<close>

definition best_k :: "nat \<Rightarrow> candidate list \<Rightarrow> candidate list" where
  "best_k k cs = take k (sort_by candidate_better cs)"

definition offers :: "top_k \<Rightarrow> candidate list \<Rightarrow> top_k" where
  "offers t cs = foldl (\<lambda>t c. offer t (local_id c) (key c)) t cs"

definition top_inv :: "candidate multiset \<Rightarrow> top_k \<Rightarrow> bool" where
  "top_inv S t \<longleftrightarrow> 0 < tk_k t \<and> set_mset S \<subseteq> ordered \<and> is_heap candidate_better (tk_heap t) \<and>
     keeps_best candidate_better (tk_k t) S (mset (tk_heap t))"

lemma tk_k_offer [simp]: "tk_k (offer t i x) = tk_k t"
  by (simp add: offer_def Let_def)

lemma tk_k_merge_list [simp]: "tk_k (merge_list t cs) = tk_k t"
  by (induction t cs rule: merge_list.induct) auto

lemma top_inv_new: "top_k_new k = Inr t \<Longrightarrow> top_inv {#} t"
  by (auto simp: top_k_new_def top_inv_def is_heap_def split: if_splits)

lemma top_inv_sub: "top_inv S t \<Longrightarrow> set (tk_heap t) \<subseteq> ordered"
  by (auto simp: top_inv_def keeps_best_def simp del: in_ordered dest: mset_subset_eqD)

lemma top_inv_size: "top_inv S t \<Longrightarrow> length (tk_heap t) = min (tk_k t) (size S)"
  by (simp add: top_inv_def keeps_best_def)

lemma top_inv_offer:
  assumes inv: "top_inv S t" and c: "c \<in> ordered"
  shows "top_inv (add_mset c S) (offer t (local_id c) (key c))"
proof -
  have k: "0 < tk_k t" and S: "set_mset S \<subseteq> ordered" and h: "is_heap candidate_better (tk_heap t)"
    and best: "keeps_best candidate_better (tk_k t) S (mset (tk_heap t))"
    using inv by (simp_all add: top_inv_def)
  note sub = top_inv_sub [OF inv]
  note off = heap.offer_best [OF swo_better S c h best k]
  have c_eq: "\<lparr>local_id = local_id c, key = key c\<rparr> = c" by simp
  show ?thesis
  proof (cases "length (tk_heap t) < tk_k t")
    case True
    then show ?thesis
      using off(1) heap.grow(1) [OF swo_better sub c h] k S c
      by (simp add: offer_def top_inv_def c_eq del: in_ordered)
  next
    case False
    then have ne: "tk_heap t \<noteq> []" and full: "tk_k t \<le> length (tk_heap t)" using k by auto
    show ?thesis
      using False off(2,3) [OF full] heap.replace_root(1) [OF swo_better sub c h ne] k S c h
      by (cases "candidate_better c (hd (tk_heap t))")
        (simp_all add: offer_def top_inv_def c_eq Let_def del: in_ordered)
  qed
qed

lemma top_inv_offers:
  "top_inv S t \<Longrightarrow> set cs \<subseteq> ordered \<Longrightarrow> top_inv (S + mset cs) (offers t cs)"
proof (induction cs arbitrary: S t)
  case Nil
  then show ?case by (simp add: offers_def)
next
  case (Cons c cs)
  have "top_inv (add_mset c S + mset cs) (offers (offer t (local_id c) (key c)) cs)"
    using Cons.prems by (intro Cons.IH top_inv_offer) auto
  then show ?case by (simp add: offers_def)
qed

lemma take_sorted_best:
  assumes inv: "top_inv (mset cs) t" and ids: "distinct (map local_id cs)"
  shows "fst (take_sorted t) = best_k (tk_k t) cs"
proof -
  have S: "set cs \<subseteq> ordered" and h: "is_heap candidate_better (tk_heap t)"
    and best: "keeps_best candidate_better (tk_k t) (mset cs) (mset (tk_heap t))"
    using inv by (simp_all add: top_inv_def del: in_ordered)
  note srt = heap.srt [OF swo_subset [OF swo_better top_inv_sub [OF inv]] h]
  have tot: "candidate_better a b \<or> candidate_better b a"
    if "a \<in> set cs" "b \<in> set cs" "a \<noteq> b" for a b
    using ids that S by (intro better_total) (auto simp: distinct_map simp del: in_ordered dest: inj_onD)
  show ?thesis
    unfolding take_sorted_def best_k_def fst_conv
  proof (rule keeps_best_unique [OF swo_better S tot])
    show "keeps_best candidate_better (tk_k t) (mset cs) (mset (sort_heap candidate_better (tk_heap t)))"
      using best srt by simp
    show "asc candidate_better (sort_heap candidate_better (tk_heap t))" using srt by simp
  qed
qed

text \<open>Once a key is refused, so is every later candidate of a list sorted best first.\<close>

lemma refused:
  assumes inv: "top_inv S t" and no: "\<not> would_accept t x" and ord: "\<not> is_nanv (f32_val x)"
  shows "tk_k t \<le> length (tk_heap t)" and "tk_heap t \<noteq> []" and "f32_lt (key (hd (tk_heap t))) x"
proof -
  show full: "tk_k t \<le> length (tk_heap t)" using no by (auto simp: would_accept_def split: if_splits)
  then show ne: "tk_heap t \<noteq> []" using inv by (auto simp: top_inv_def)
  then have "hd (tk_heap t) \<in> ordered" using top_inv_sub [OF inv] by (meson hd_in_set subsetD)
  then show "f32_lt (key (hd (tk_heap t))) x"
    using no full ord flt_total [of "f32_val x" "f32_val (key (hd (tk_heap t)))"]
    by (auto simp: would_accept_def f32_le_def f32_lt_def fle_def)
qed

lemma top_inv_skip:
  assumes inv: "top_inv S t" and full: "tk_k t \<le> length (tk_heap t)" and c: "c \<in> ordered"
    and lt: "f32_lt (key (hd (tk_heap t))) (key c)"
  shows "top_inv (add_mset c S) t"
proof -
  have k: "0 < tk_k t" and S: "set_mset S \<subseteq> ordered" and h: "is_heap candidate_better (tk_heap t)"
    and best: "keeps_best candidate_better (tk_k t) S (mset (tk_heap t))"
    using inv by (simp_all add: top_inv_def)
  have "\<not> candidate_better c (hd (tk_heap t))"
    using lt flt_asym feq_not_flt by (auto simp: candidate_better_def f32_lt_def f32_eq_def)
  then show ?thesis
    using heap.offer_best(2) [OF swo_better S c h best k full] k S c h
    by (simp add: top_inv_def del: in_ordered)
qed

lemma top_inv_skip_all:
  "top_inv S t \<Longrightarrow> tk_k t \<le> length (tk_heap t) \<Longrightarrow> set cs \<subseteq> ordered \<Longrightarrow>
   \<forall>c\<in>set cs. f32_lt (key (hd (tk_heap t))) (key c) \<Longrightarrow> top_inv (S + mset cs) t"
proof (induction cs arbitrary: S)
  case (Cons c cs)
  then have "top_inv (add_mset c S) t" by (intro top_inv_skip) auto
  then show ?case using Cons.IH [of "add_mset c S"] Cons.prems by simp
qed simp

lemma asc_better_key:
  assumes "asc candidate_better (c # cs)" "set (c # cs) \<subseteq> ordered" "d \<in> set cs"
  shows "\<not> f32_lt (key d) (key c)"
proof -
  have "\<not> is_nanv (f32_val (key d))" "\<not> is_nanv (f32_val (key c))" "\<not> candidate_better d c"
    using assms by auto
  then show ?thesis using better_alt [of d c] by blast
qed

lemma top_inv_merge_list:
  "top_inv S t \<Longrightarrow> set cs \<subseteq> ordered \<Longrightarrow> asc candidate_better cs \<Longrightarrow>
   top_inv (S + mset cs) (merge_list t cs)"
proof (induction t cs arbitrary: S rule: merge_list.induct)
  case (1 t)
  then show ?case by simp
next
  case (2 t c cs)
  show ?case
  proof (cases "would_accept t (key c)")
    case True
    have "top_inv (add_mset c S) (offer t (local_id c) (key c))"
      using 2 by (intro top_inv_offer) auto
    from "2.IH" [OF _ this] have "top_inv (add_mset c S + mset cs) (merge_list (offer t (local_id c) (key c)) cs)"
      using "2.prems" True by simp
    then show ?thesis using True by simp
  next
    case False
    have c: "\<not> is_nanv (f32_val (key c))" using 2 by simp
    note r = refused [OF "2.prems"(1) False c]
    have "f32_lt (key (hd (tk_heap t))) (key d)" if d: "d \<in> set (c # cs)" for d
    proof (cases "d = c")
      case True
      then show ?thesis using r by simp
    next
      case nc: False
      then have "\<not> f32_lt (key d) (key c)" using d "2.prems" asc_better_key [of c cs d] by simp
      moreover have "\<not> is_nanv (f32_val (key d))" using d "2.prems" by auto
      ultimately show ?thesis
        using r(3) c flt_total [of "f32_val (key c)" "f32_val (key d)"] unfolding f32_lt_def
        by (auto intro: flt_trans flt_feq_trans)
    qed
    then have "top_inv (S + mset (c # cs)) t"
      using "2.prems" r by (intro top_inv_skip_all) auto
    then show ?thesis using False by simp
  qed
qed

lemma top_inv_merge:
  "top_inv S t \<Longrightarrow> \<forall>cs\<in>set lss. set cs \<subseteq> ordered \<and> asc candidate_better cs \<Longrightarrow>
   top_inv (S + mset (concat lss)) (foldl merge_list t lss)"
proof (induction lss arbitrary: S t)
  case (Cons cs lss)
  then have "top_inv (S + mset cs) (merge_list t cs)" by (intro top_inv_merge_list) auto
  then show ?case using Cons.IH [of "S + mset cs"] Cons.prems by (simp add: add.assoc)
qed simp

lemma tk_k_foldl_merge [simp]: "tk_k (foldl merge_list t lss) = tk_k t"
  by (induction lss arbitrary: t) auto

lemma tk_k_offers [simp]: "tk_k (offers t cs) = tk_k t"
  by (induction cs arbitrary: t) (auto simp: offers_def)

lemmas cand_eval = best_k_def candidate_better_def ordered_key_def would_accept_def feval

section \<open>Properties\<close>

text \<open>C33: a fresh collector of size \<open>k\<close> that is offered any candidates with distinct slots and no NaN
  key hands back exactly the \<open>k\<close> best of them, best first, ties broken by slot; the binary heap never
  loses or reorders a result.\<close>

theorem top_k_collects_best:
  assumes "top_k_new k = Inr t" and "distinct (map local_id cs)" and "\<forall>c\<in>set cs. ordered_key c"
  shows "fst (take_sorted (offers t cs)) = best_k k cs"
proof -
  have k: "tk_k t = k" using assms(1) by (auto simp: top_k_new_def split: if_splits)
  have "top_inv (mset cs) (offers t cs)"
    using top_inv_offers [OF top_inv_new [OF assms(1)], of cs] assms(3) by (auto simp: ordered_def)
  from take_sorted_best [OF this assms(2)] show ?thesis by (simp add: k)
qed

theorem top_k_collects_best_witness:
  "fst (take_sorted (offers \<lparr>tk_k = 2, tk_heap = []\<rparr>
      [\<lparr>local_id = 0, key = 0x40400000\<rparr>, \<lparr>local_id = 1, key = 0x3f800000\<rparr>,
       \<lparr>local_id = 2, key = 0x3f800000\<rparr>])) =
   [\<lparr>local_id = 1, key = 0x3f800000\<rparr>, \<lparr>local_id = 2, key = 0x3f800000\<rparr>]"
proof -
  let ?cs = "[\<lparr>local_id = 0, key = 0x40400000\<rparr>, \<lparr>local_id = 1, key = 0x3f800000\<rparr>,
       \<lparr>local_id = 2, key = 0x3f800000\<rparr>]"
  have n: "top_k_new 2 = Inr \<lparr>tk_k = 2, tk_heap = []\<rparr>" by (simp add: top_k_new_def)
  have d: "distinct (map local_id ?cs)" by simp
  have o: "\<forall>c\<in>set ?cs. ordered_key c" by (simp add: cand_eval cong: let_weak_cong)
  have b: "best_k 2 ?cs = [\<lparr>local_id = 1, key = 0x3f800000\<rparr>, \<lparr>local_id = 2, key = 0x3f800000\<rparr>]"
    by (simp add: cand_eval cong: let_weak_cong)
  show ?thesis using top_k_collects_best [OF n d o] b by simp
qed

text \<open>Further: merging per-thread lists, each sorted best first, with an early exit per list gives the \<open>k\<close>
  best of all their candidates together.\<close>

theorem merge_top_k_best:
  assumes "0 < k" and "\<forall>cs\<in>set lss. asc candidate_better cs"
    and "\<forall>c\<in>set (concat lss). ordered_key c" and "distinct (map local_id (concat lss))"
  shows "merge_top_k lss k = Inr (best_k k (concat lss))"
proof (cases "sum_list (map length lss) = 0")
  case True
  then have "length (concat lss) = 0" by (simp add: length_concat)
  then have e: "concat lss = []" by (simp only: length_0_conv)
  show ?thesis unfolding e using assms(1) True by (simp add: merge_top_k_def best_k_def)
next
  case False
  define n where "n = sum_list (map length lss)"
  have n_eq: "n = length (concat lss)" by (simp add: n_def length_concat)
  have n0: "n \<noteq> 0" using False unfolding n_def .
  obtain t where t: "top_k_new (min k n) = Inr t" using assms(1) n0 by (auto simp: top_k_new_def)
  then have k: "tk_k t = min k n" by (auto simp: top_k_new_def split: if_splits)
  have "\<forall>cs\<in>set lss. set cs \<subseteq> ordered \<and> asc candidate_better cs"
    using assms(2,3) by (auto simp: ordered_def)
  from top_inv_merge [OF top_inv_new [OF t] this]
  have "top_inv (mset (concat lss)) (foldl merge_list t lss)" by simp
  from take_sorted_best [OF this assms(4)]
  have "fst (take_sorted (foldl merge_list t lss)) = best_k (min k n) (concat lss)" by (simp add: k)
  also have "\<dots> = best_k k (concat lss)"
    by (cases "k \<le> n") (simp_all add: best_k_def n_eq min_def)
  finally show ?thesis using assms(1) n0 t unfolding merge_top_k_def n_def [symmetric] Let_def by simp
qed

theorem merge_top_k_best_witness:
  "merge_top_k [[\<lparr>local_id = 0, key = 0x3f800000\<rparr>, \<lparr>local_id = 3, key = 0x40400000\<rparr>],
      [\<lparr>local_id = 1, key = 0x40000000\<rparr>]] 2 =
   Inr [\<lparr>local_id = 0, key = 0x3f800000\<rparr>, \<lparr>local_id = 1, key = 0x40000000\<rparr>]"
proof -
  let ?lss = "[[\<lparr>local_id = 0, key = 0x3f800000\<rparr>, \<lparr>local_id = 3, key = 0x40400000\<rparr>],
      [\<lparr>local_id = 1, key = 0x40000000\<rparr>]]"
  have s: "\<forall>cs\<in>set ?lss. asc candidate_better cs" by (simp add: asc_def cand_eval cong: let_weak_cong)
  have o: "\<forall>c\<in>set (concat ?lss). ordered_key c" by (simp add: cand_eval cong: let_weak_cong)
  have d: "distinct (map local_id (concat ?lss))" by simp
  have b: "best_k 2 (concat ?lss) =
      [\<lparr>local_id = 0, key = 0x3f800000\<rparr>, \<lparr>local_id = 1, key = 0x40000000\<rparr>]" by (simp add: cand_eval cong: let_weak_cong)
  show ?thesis using merge_top_k_best [OF _ s o d, of 2] b by simp
qed

text \<open>Further: the pre-filter is conservative for every key, NaN included: when it says no, offering the key
  under any slot changes nothing.\<close>

theorem would_accept_conservative:
  assumes "\<not> would_accept t x"
  shows "offer t i x = t"
proof -
  have "\<not> length (tk_heap t) < tk_k t" and "\<not> f32_le x (key (hd (tk_heap t)))"
    using assms by (auto simp: would_accept_def split: if_splits)
  then show ?thesis
    by (simp add: offer_def candidate_better_def f32_le_def f32_lt_def f32_eq_def fle_def)
qed

theorem would_accept_conservative_witness:
  "offer \<lparr>tk_k = 1, tk_heap = [\<lparr>local_id = 7, key = 0x3f800000\<rparr>]\<rparr> 3 0x40000000 =
   \<lparr>tk_k = 1, tk_heap = [\<lparr>local_id = 7, key = 0x3f800000\<rparr>]\<rparr>"
proof (rule would_accept_conservative)
  show "\<not> would_accept \<lparr>tk_k = 1, tk_heap = [\<lparr>local_id = 7, key = 0x3f800000\<rparr>]\<rparr> 0x40000000"
    by (simp add: cand_eval cong: let_weak_cong)
qed

text \<open>Further: the comparison the heaps and sorts are given is a strict weak ordering on candidates without
  NaN keys, as the library requires, and stops being one as soon as one NaN key is present.\<close>

theorem better_order_iff_no_nan:
  "swo_on {c. ordered_key c} candidate_better \<and>
   (\<exists>a b c. ordered_key a \<and> ordered_key c \<and> f32_isnan (key b) \<and>
      \<not> swo_on {a, b, c} candidate_better)"
proof
  show "swo_on {c. ordered_key c} candidate_better" using swo_better by (simp add: ordered_def)
  let ?a = "\<lparr>local_id = 0, key = 0x40000000\<rparr>" and ?b = "\<lparr>local_id = 1, key = 0x7fc00000\<rparr>"
    and ?c = "\<lparr>local_id = 2, key = 0x3f800000\<rparr>"
  have "\<not> candidate_better ?c ?b" "\<not> candidate_better ?b ?a" "candidate_better ?c ?a"
    by (simp_all add: cand_eval cong: let_weak_cong)
  then have "\<not> swo_on {?a, ?b, ?c} candidate_better" unfolding swo_on_def by blast
  moreover have "ordered_key ?a" "ordered_key ?c" "f32_isnan (key ?b)" by (simp_all add: cand_eval cong: let_weak_cong)
  ultimately show "\<exists>a b c. ordered_key a \<and> ordered_key c \<and> f32_isnan (key b) \<and>
      \<not> swo_on {a, b, c} candidate_better" by blast
qed

end
