(* ===== verification/Vdb_Vector.thy ===== *)
theory Vdb_Vector
  imports Vdb_Float
begin

text \<open>
  Single vectors (\<^verbatim>\<open>src/core/vector.cpp\<close>) and the flat array of vectors of one dimension
  (\<^verbatim>\<open>src/core/vector_array.cpp\<close>). A \<^verbatim>\<open>VectorView\<close> is the list of the components it spans. The
  lemmas show that validation accepts exactly the finite vectors of the right dimension, that
  normalising never manufactures a NaN, and that the flat array with its offset arithmetic is a list
  of rows.
\<close>

section \<open>One vector\<close>

type_synonym vec = "f32 list"

text \<open>The loop of \<^verbatim>\<open>find_non_finite\<close>: the index of the first bad component, or the size.\<close>

fun find_non_finite :: "vec \<Rightarrow> nat" where
  "find_non_finite [] = 0"
| "find_non_finite (x # xs) = (if \<not> f32_isfinite x then 0 else Suc (find_non_finite xs))"

definition is_finite_vec :: "vec \<Rightarrow> bool" where
  "is_finite_vec v = (find_non_finite v = length v)"

definition validate_vector :: "vec \<Rightarrow> nat \<Rightarrow> unit result" where
  "validate_vector v expected =
     (if length v \<noteq> expected
      then Inl (DimensionMismatchError expected
             (if length v > kMaxDimension then kMaxDimension else cast_u32 (length v)))
      else if find_non_finite v \<noteq> length v then Inl InvalidVectorError
      else Inr ())"

definition sum_squares :: "vec \<Rightarrow> f64" where
  "sum_squares v = foldl (\<lambda>sum x. f64_add sum (f64_mul (f64_of_f32 x) (f64_of_f32 x))) 0 v"

definition l2_norm_squared :: "vec \<Rightarrow> f32" where
  "l2_norm_squared v = f32_of_f64 (sum_squares v)"

definition l2_norm :: "vec \<Rightarrow> f32" where
  "l2_norm v = f32_sqrt (l2_norm_squared v)"

definition f32_one :: f32 where
  "f32_one = 0x3f800000"

text \<open>The functions that write through a span return the norm and what the span then holds.\<close>

definition normalize_in_place :: "vec \<Rightarrow> f32 \<times> vec" where
  "normalize_in_place v =
     (let norm = l2_norm v in
      if f32_eq norm 0 then (0, v)
      else let inverse = f32_div f32_one norm in (norm, map (\<lambda>x. f32_mul x inverse) v))"

definition normalize_into :: "vec \<Rightarrow> vec \<Rightarrow> (f32 \<times> vec) result" where
  "normalize_into source destination =
     (if length source \<noteq> length destination
      then Inl (DimensionMismatchError (cast_u32 (length source)) (cast_u32 (length destination)))
      else let norm = l2_norm source in
        if f32_eq norm 0 then Inr (0, overwrite destination 0 source)
        else let inverse = f32_div f32_one norm in
          Inr (norm, overwrite destination 0 (map (\<lambda>x. f32_mul x inverse) source)))"

lemma find_non_finite_le: "find_non_finite v \<le> length v"
  by (induction v) auto

lemma is_finite_vec_iff: "is_finite_vec v \<longleftrightarrow> (\<forall>x\<in>set v. f32_isfinite x)"
  unfolding is_finite_vec_def by (induction v) auto

lemma find_non_finite_first:
  "find_non_finite v < length v \<Longrightarrow>
   \<not> f32_isfinite (v ! find_non_finite v) \<and> (\<forall>j<find_non_finite v. f32_isfinite (v ! j))"
proof (induction v)
  case (Cons x xs)
  then show ?case by (auto simp: less_Suc_eq_0_disj)
qed simp

lemma validate_ok_iff:
  "validate_vector v d = Inr u \<longleftrightarrow> length v = d \<and> (\<forall>x\<in>set v. f32_isfinite x)"
  by (auto simp: validate_vector_def is_finite_vec_iff [symmetric] is_finite_vec_def)

lemma normalize_into_same:
  "length source = length destination \<Longrightarrow> normalize_into source destination = Inr (normalize_in_place source)"
  by (simp add: normalize_into_def normalize_in_place_def overwrite_def Let_def)

section \<open>Norms are never NaN\<close>

lemma fwiden_ok: "fval_ok binary32 x \<Longrightarrow> fval_ok binary64 (fwiden x)"
proof (cases x)
  case (FFin s n)
  assume v: "fval_ok binary32 x"
  have "2 ^ (floorlog 2 n - 24) dvd n" using v FFin by simp
  then obtain m where m: "n = m * 2 ^ (floorlog 2 n - 24)" by (metis dvd_def mult.commute)
  have "n < 2 ^ floorlog 2 n" by (rule less_power_floorlog)
  then have "m * 2 ^ (floorlog 2 n - 24) < 2 ^ floorlog 2 n" using m by simp
  also have "\<dots> \<le> 2 ^ (24 + (floorlog 2 n - 24))" by (rule power_increasing) simp_all
  also have "\<dots> = 2 ^ 24 * 2 ^ (floorlog 2 n - 24)" by (rule power_add)
  finally have "m < 2 ^ 24" by simp
  then have "m \<le> 2 ^ 53" by simp
  moreover have "n * 2 ^ 925 = m * 2 ^ (floorlog 2 n - 24 + 925)"
    using m by (metis power_add mult.assoc)
  ultimately have "2 ^ (floorlog 2 (n * 2 ^ 925) - 53) dvd n * 2 ^ 925"
    using scaled_dvd [of "n * 2 ^ 925" m "floorlog 2 n - 24 + 925" 53] by (simp only:)
  moreover have "n * 2 ^ 925 < 2 ^ 2098"
  proof -
    have "n < 2 ^ 277" using v FFin by simp
    then have "n * 2 ^ 925 < 2 ^ 277 * 2 ^ 925" by (simp only: mult_less_cancel2) simp
    also have "\<dots> \<le> (2::nat) ^ 2098" by (simp only: power_add [symmetric]) simp
    finally show ?thesis .
  qed
  ultimately show ?thesis using FFin by simp
qed auto

lemma fnarrow_ok: "fval_ok binary32 (fnarrow x)"
  by (cases x) (auto intro: fround_ok)

lemma f64_val_of_f32 [simp]: "f64_val (f64_of_f32 x) = fwiden (f32_val x)"
  by (simp add: f64_of_f32_def f64_val_of fwiden_ok)

lemma f32_val_of_f64 [simp]: "f32_val (f32_of_f64 x) = fnarrow (f64_val x)"
  by (simp add: f32_of_f64_def f32_val_of fnarrow_ok)

lemma fwiden_nonneg: "is_nonnegv x \<Longrightarrow> is_nonnegv (fwiden x)"
  by (cases x) auto

lemma fnarrow_nonneg: "is_nonnegv x \<Longrightarrow> is_nonnegv (fnarrow x)"
  by (cases x) auto

lemma fwiden_nan [simp]: "is_nanv (fwiden x) = is_nanv x"
  by (cases x) auto

lemma sum_squares_from:
  "is_nonnegv (f64_val a) \<Longrightarrow> \<forall>x\<in>set v. \<not> f32_isnan x \<Longrightarrow>
   is_nonnegv (f64_val (foldl (\<lambda>sum x. f64_add sum (f64_mul (f64_of_f32 x) (f64_of_f32 x))) a v))"
proof (induction v arbitrary: a)
  case (Cons x v)
  have "is_nonnegv (f64_val (f64_add a (f64_mul (f64_of_f32 x) (f64_of_f32 x))))"
    using Cons.prems by (simp add: fadd_nonneg fmul_self_nonneg f32_isnan_def)
  then show ?case using Cons by simp
qed simp

lemma f64_val_zero [simp]: "f64_val 0 = FFin False 0"
  by (simp add: f64_val_def fdec_def)

lemma f32_val_zero [simp]: "f32_val 0 = FFin False 0"
  by (simp add: f32_val_def fdec_def)

lemma f32_val_one [simp]: "f32_val f32_one = FFin False (2 ^ 149)"
  by (simp add: f32_val_def fdec_def f32_one_def)

lemma l2_norm_nonneg: "\<forall>x\<in>set v. \<not> f32_isnan x \<Longrightarrow> is_nonnegv (f32_val (l2_norm v))"
  using sum_squares_from [of 0 v]
  by (simp add: l2_norm_def l2_norm_squared_def sum_squares_def fsqrt_nonneg fnarrow_nonneg)

section \<open>The reciprocal of a norm is finite\<close>

lemma isqrt_bounds: "isqrt n * isqrt n \<le> n \<and> n < Suc (isqrt n) * Suc (isqrt n)"
proof (induction n rule: isqrt.induct)
  case (1 n)
  show ?case
  proof (cases "n = 0")
    case True
    then show ?thesis by (simp add: isqrt.simps)
  next
    case False
    define s where "s = isqrt (n div 4)"
    have lo: "s * s \<le> n div 4" and hi: "n div 4 < Suc s * Suc s"
      using 1 [OF False] by (simp_all add: s_def)
    have i: "isqrt n = (if (2 * s + 1) * (2 * s + 1) \<le> n then 2 * s + 1 else 2 * s)"
      using False by (subst isqrt.simps) (simp add: s_def Let_def)
    have "4 * (s * s) \<le> n" using lo by linarith
    moreover have "n < 4 * (Suc s * Suc s)" using hi by linarith
    ultimately show ?thesis unfolding i by (simp add: algebra_simps)
  qed
qed

lemma isqrt_ge: "k * k \<le> n \<Longrightarrow> k \<le> isqrt n"
proof (rule ccontr)
  assume k: "k * k \<le> n" and "\<not> k \<le> isqrt n"
  then have "Suc (isqrt n) * Suc (isqrt n) \<le> k * k" by (intro mult_le_mono) simp_all
  then show False using k isqrt_bounds [of n] by linarith
qed

lemma round_mag_ge_power:
  assumes F: "fmt_ok F" and q: "0 < q" and p: "2 ^ j * q \<le> p"
  shows "2 ^ j \<le> round_mag F p q"
proof -
  define L where "L = floorlog 2 (p div q)"
  define e where "e = L - prec F"
  have pq: "2 ^ j \<le> p div q"
    using p q by (metis div_le_mono nonzero_mult_div_cancel_right less_numeral_extra(3))
  then have L: "2 ^ (L - 1) \<le> p div q"
    using floorlog_bounds [of "p div q" 2] by (cases "p div q = 0") (auto simp: L_def)
  have "(2::nat) ^ j < 2 ^ L" using pq less_power_floorlog [of "p div q"]
    unfolding L_def by (rule order.strict_trans1)
  then have j: "j \<le> L - 1" "0 < L" by auto
  have e: "e \<le> L - 1" using F j(2) by (auto simp: e_def fmt_ok_def)
  then have split: "(2::nat) ^ (L - 1) = 2 ^ (L - 1 - e) * 2 ^ e" by (simp flip: power_add)
  have "2 ^ (L - 1) * q \<le> p div q * q" using L by (rule mult_right_mono) simp
  also have "\<dots> \<le> p" by simp
  finally have "2 ^ (L - 1 - e) * (q * 2 ^ e) \<le> p"
    unfolding split by (simp only: mult.commute mult.left_commute)
  then have "2 ^ (L - 1 - e) \<le> rne p (q * 2 ^ e)" using q by (intro rne_ge) simp_all
  then have "2 ^ (L - 1 - e) * 2 ^ e \<le> rne p (q * 2 ^ e) * 2 ^ e" by (rule mult_right_mono) simp
  also have "\<dots> = round_mag F p q" by (simp add: round_mag_def Let_def e_def L_def)
  finally have "2 ^ (L - 1) \<le> round_mag F p q" unfolding split .
  moreover have "(2::nat) ^ j \<le> 2 ^ (L - 1)" using j(1) by (rule power_increasing) simp
  ultimately show ?thesis by linarith
qed

text \<open>A square root that is not zero is at least \<open>2 ^ 74\<close> units, so dividing 1 by it stays finite.\<close>

lemma fsqrt_large:
  assumes "fsqrt binary32 (FFin False m) = FFin s n" and "0 < m"
  shows "2 ^ 74 \<le> n" and "\<not> s"
proof -
  let ?x = "m * 2 ^ 149"
  have e: "fsqrt binary32 (FFin False m) =
      fround binary32 False (2 * isqrt ?x + (if isqrt ?x * isqrt ?x = ?x then 0 else 1)) 2"
    using assms(2) by (simp add: Let_def)
  have "(2::nat) ^ 74 * 2 ^ 74 \<le> m * 2 ^ 149"
    using assms(2) by (simp only: power_add [symmetric]) simp
  then have "2 ^ 74 \<le> isqrt ?x" by (rule isqrt_ge)
  then have "2 ^ 74 * 2 \<le> 2 * isqrt ?x + (if isqrt ?x * isqrt ?x = ?x then 0 else 1)" by linarith
  from round_mag_ge_power [OF _ _ this, of binary32] show "2 ^ 74 \<le> n" "\<not> s"
    using assms(1) unfolding e fround_def Let_def by (auto split: if_splits)
qed

lemma reciprocal_finite:
  assumes "is_nonnegv x" and "\<not> feq (fsqrt binary32 x) (FFin False 0)"
  shows "is_finv (fdiv binary32 (FFin False (2 ^ 149)) (fsqrt binary32 x))"
proof (cases x)
  case FNaN
  then show ?thesis using assms(1) by simp
next
  case (FInf s)
  then show ?thesis using assms(1) by simp
next
  case (FFin s m)
  have m: "0 < m" using assms(2) FFin by (cases "m = 0") (auto simp: feq_code)
  then have s: "\<not> s" using assms(1) FFin by simp
  show ?thesis
  proof (cases "fsqrt binary32 (FFin False m)")
    case FNaN
    then show ?thesis using m by (simp add: Let_def)
  next
    case (FInf t)
    then show ?thesis using s FFin by simp
  next
    case r: (FFin t n)
    note large = fsqrt_large(1) [OF r m]
    then have n: "0 < n" by (cases n) auto
    have "(2::nat) ^ 149 * 2 ^ 149 = 2 ^ 224 * 2 ^ 74" by (simp only: power_add [symmetric]) simp
    also have "\<dots> \<le> 2 ^ 224 * n" using large by (rule mult_left_mono) simp
    finally have "\<exists>k. fround binary32 t (2 ^ 149 * 2 ^ 149) n = FFin t k \<and> k \<le> 2 ^ 224"
      using n by (intro fround_le_power) simp_all
    then obtain k where "fround binary32 t (2 ^ 149 * 2 ^ 149) n = FFin t k" by blast
    moreover have "fdiv binary32 (FFin False (2 ^ 149)) (FFin t n) =
        fround binary32 t (2 ^ 149 * 2 ^ 149) n"
      using n by (simp only: fdiv.simps funit_std) simp
    ultimately show ?thesis using s r FFin by simp
  qed
qed

lemma fmul_fin_not_nan: "is_finv x \<Longrightarrow> is_finv y \<Longrightarrow> \<not> is_nanv (fmul F x y)"
  by (cases x; cases y) auto

lemma normalize_not_nan:
  assumes "\<forall>x\<in>set v. f32_isfinite x"
  shows "\<forall>y\<in>set (snd (normalize_in_place v)). \<not> f32_isnan y"
proof (cases "f32_eq (l2_norm v) 0")
  case True
  then show ?thesis using assms
    by (auto simp: normalize_in_place_def f32_isnan_def f32_isfinite_def is_finv_nan Let_def)
next
  case False
  have nn: "is_nonnegv (f32_val (l2_norm_squared v))"
    using assms sum_squares_from [of 0 v] is_finv_nan unfolding f32_isfinite_def f32_isnan_def
    by (simp add: l2_norm_squared_def sum_squares_def fnarrow_nonneg)
  have "is_finv (f32_val (f32_div f32_one (l2_norm v)))"
    using reciprocal_finite [OF nn] False by (simp add: l2_norm_def f32_eq_def)
  then show ?thesis
    using assms False
    by (auto simp: normalize_in_place_def f32_isnan_def f32_isfinite_def Let_def fmul_fin_not_nan)
qed

section \<open>The flat array\<close>

record vector_array =
  va_dimension :: nat
  va_count :: nat
  va_storage :: "f32 list"

definition va_new :: "nat \<Rightarrow> vector_array result" where
  "va_new d =
     (if d = 0 then Inl InvalidArgumentError
      else if d > kMaxDimension then Inl InvalidArgumentError
      else Inr \<lparr>va_dimension = d, va_count = 0, va_storage = []\<rparr>)"

definition va_offset_of :: "vector_array \<Rightarrow> local_id \<Rightarrow> nat" where
  "va_offset_of a i = i * va_dimension a"

definition va_push_back :: "vector_array \<Rightarrow> vec \<Rightarrow> (local_id \<times> vector_array) result" where
  "va_push_back a v =
     (if length v \<noteq> va_dimension a
      then Inl (DimensionMismatchError (va_dimension a) (cast_u32 (length v)))
      else if va_count a \<ge> kMaxVectorCount then Inl InvalidArgumentError
      else Inr (cast_u32 (va_count a),
             a\<lparr>va_storage := va_storage a @ v, va_count := va_count a + 1\<rparr>))"

text \<open>
  \<^verbatim>\<open>count_ + count\<close> is a sum of 64-bit sizes. A new size beyond what a \<^verbatim>\<open>std::vector<float>\<close> can hold
  is a \<^verbatim>\<open>std::length_error\<close>; new cells are zero.
\<close>

definition va_max_size :: nat where
  "va_max_size = 2 ^ 61 - 1"

definition resize_zero :: "nat \<Rightarrow> f32 list \<Rightarrow> f32 list" where
  "resize_zero n xs = take n xs @ replicate (n - length xs) 0"

definition va_append_uninitialized :: "vector_array \<Rightarrow> nat \<Rightarrow> (local_id \<times> vector_array) result" where
  "va_append_uninitialized a n =
     (if (va_count a + n) mod 2 ^ 64 > kMaxVectorCount then Inl InvalidArgumentError
      else let first = cast_u32 (va_count a);
               size = (length (va_storage a) + n * va_dimension a) mod 2 ^ 64 in
        if size > va_max_size then Inl StdException
        else Inr (first, a\<lparr>va_storage := resize_zero size (va_storage a),
                           va_count := (va_count a + n) mod 2 ^ 64\<rparr>))"

definition va_assign :: "vector_array \<Rightarrow> local_id \<Rightarrow> vec \<Rightarrow> vector_array result" where
  "va_assign a i v =
     (if i \<ge> va_count a then Inl InvalidArgumentError
      else if length v \<noteq> va_dimension a
      then Inl (DimensionMismatchError (va_dimension a) (cast_u32 (length v)))
      else Inr (a\<lparr>va_storage := overwrite (va_storage a) (va_offset_of a i) v\<rparr>))"

text \<open>The unchecked subscript: the span of \<open>dimension\<close> cells at the offset of the slot.\<close>

definition va_view :: "vector_array \<Rightarrow> local_id \<Rightarrow> vec" where
  "va_view a i = take (va_dimension a) (drop (va_offset_of a i) (va_storage a))"

definition va_at :: "vector_array \<Rightarrow> local_id \<Rightarrow> vec result" where
  "va_at a i = (if i \<ge> va_count a then Inl InvalidArgumentError else Inr (va_view a i))"

definition va_payload_bytes :: "vector_array \<Rightarrow> nat" where
  "va_payload_bytes a = va_count a * va_dimension a * 4"

definition va_clear :: "vector_array \<Rightarrow> vector_array" where
  "va_clear a = a\<lparr>va_storage := [], va_count := 0\<rparr>"

subsection \<open>A list of rows\<close>

definition va_inv :: "vector_array \<Rightarrow> bool" where
  "va_inv a \<longleftrightarrow> 0 < va_dimension a \<and> va_dimension a \<le> kMaxDimension \<and>
     va_count a \<le> kMaxVectorCount \<and> length (va_storage a) = va_count a * va_dimension a"

definition va_rows :: "vector_array \<Rightarrow> vec list" where
  "va_rows a = map (va_view a) [0..<va_count a]"

lemma va_view_block: "va_view a i = block (va_dimension a) i (va_storage a)"
  by (simp add: va_view_def block_def va_offset_of_def)

lemma length_va_rows [simp]: "length (va_rows a) = va_count a"
  by (simp add: va_rows_def)

lemma nth_va_rows [simp]: "i < va_count a \<Longrightarrow> va_rows a ! i = va_view a i"
  by (simp add: va_rows_def)

lemma length_va_view [simp]: "va_inv a \<Longrightarrow> i < va_count a \<Longrightarrow> length (va_view a i) = va_dimension a"
  unfolding va_view_block by (rule length_block) (auto simp: va_inv_def)

lemma va_new_inv: "va_new d = Inr a \<Longrightarrow> va_inv a \<and> va_rows a = [] \<and> va_dimension a = d"
  by (auto simp: va_new_def va_inv_def va_rows_def split: if_splits)

lemma va_clear_inv: "va_inv a \<Longrightarrow> va_inv (va_clear a) \<and> va_rows (va_clear a) = []"
  by (simp add: va_inv_def va_clear_def va_rows_def)

lemma va_push_back_ok:
  assumes inv: "va_inv a" and r: "va_push_back a v = Inr (i, a')"
  shows "va_inv a'" and "va_rows a' = va_rows a @ [v]" and "i = va_count a"
    and "va_dimension a' = va_dimension a" and "length v = va_dimension a" and "i < kMaxVectorCount"
proof -
  have v: "length v = va_dimension a" and full: "va_count a < kMaxVectorCount"
    and i: "i = cast_u32 (va_count a)"
    and a': "a' = a\<lparr>va_storage := va_storage a @ v, va_count := va_count a + 1\<rparr>"
    using r by (auto simp: va_push_back_def split: if_splits)
  show "length v = va_dimension a" by (rule v)
  show ii: "i = va_count a" using i full by (simp add: cast_u32_slot)
  show "i < kMaxVectorCount" using ii full by simp
  show "va_inv a'" "va_dimension a' = va_dimension a" using inv v full by (simp_all add: a' va_inv_def)
  have st: "length (va_storage a) = va_count a * va_dimension a" using inv by (simp add: va_inv_def)
  show "va_rows a' = va_rows a @ [v]"
    using v by (simp add: va_rows_def a' va_view_block block_append2 [OF st] block_append1 [OF _ st])
qed

lemma va_assign_ok:
  assumes inv: "va_inv a" and r: "va_assign a i v = Inr a'"
  shows "va_inv a'" and "va_rows a' = (va_rows a)[i := v]" and "i < va_count a"
    and "va_dimension a' = va_dimension a" and "va_count a' = va_count a"
proof -
  have i: "i < va_count a" and v: "length v = va_dimension a"
    and a': "a' = a\<lparr>va_storage := overwrite (va_storage a) (i * va_dimension a) v\<rparr>"
    using r by (auto simp: va_assign_def va_offset_of_def split: if_splits)
  have st: "length (va_storage a) = va_count a * va_dimension a" using inv by (simp add: va_inv_def)
  have "Suc i * va_dimension a \<le> va_count a * va_dimension a" using i by (intro mult_right_mono) auto
  then have "i * va_dimension a + length v \<le> length (va_storage a)" using v st by simp
  then show "va_inv a'" "va_dimension a' = va_dimension a" "va_count a' = va_count a" "i < va_count a"
    using inv i by (simp_all add: a' va_inv_def)
  show "va_rows a' = (va_rows a)[i := v]"
  proof (rule nth_equalityI)
    fix j assume "j < length (va_rows a')"
    then have j: "j < va_count a" by (simp add: a')
    then show "va_rows a' ! j = (va_rows a)[i := v] ! j"
      using i block_overwrite [OF st j i v] by (simp add: a' va_view_block nth_list_update)
  qed (simp add: a')
qed

lemma va_append_uninitialized_ok:
  assumes inv: "va_inv a" and n: "n \<le> kMaxVectorCount"
    and r: "va_append_uninitialized a n = Inr (i, a')"
  shows "va_inv a'" and "va_rows a' = va_rows a @ replicate n (replicate (va_dimension a) 0)"
    and "i = va_count a" and "va_dimension a' = va_dimension a"
proof -
  have c: "va_count a \<le> kMaxVectorCount" "va_dimension a \<le> kMaxDimension"
    and st: "length (va_storage a) = va_count a * va_dimension a"
    using inv by (auto simp: va_inv_def)
  have m: "(va_count a + n) mod 2 ^ 64 = va_count a + n" "cast_u32 (va_count a) = va_count a"
    using c n by (simp_all add: kMaxVectorCount_def cast_u32_def)
  have "(va_count a + n) * va_dimension a \<le> (2 * kMaxVectorCount) * kMaxDimension"
    using c n by (intro mult_le_mono) simp_all
  also have "\<dots> < 2 ^ 64" by (simp add: kMaxVectorCount_def kMaxDimension_def)
  finally have "(length (va_storage a) + n * va_dimension a) mod 2 ^ 64 =
      length (va_storage a) + n * va_dimension a"
    using st by (simp add: algebra_simps)
  then have i: "i = va_count a" and full: "va_count a + n \<le> kMaxVectorCount"
    and a': "a' = a\<lparr>va_storage := va_storage a @ replicate (n * va_dimension a) 0,
                    va_count := va_count a + n\<rparr>"
    using r unfolding va_append_uninitialized_def m Let_def
    by (auto simp: resize_zero_def split: if_splits)
  show "i = va_count a" "va_dimension a' = va_dimension a" by (simp_all add: i a')
  show "va_inv a'" using inv full by (simp add: a' va_inv_def add_mult_distrib)
  show "va_rows a' = va_rows a @ replicate n (replicate (va_dimension a) 0)"
  proof (rule nth_equalityI)
    fix j assume "j < length (va_rows a')"
    then have j: "j < va_count a + n" by (simp add: a')
    show "va_rows a' ! j = (va_rows a @ replicate n (replicate (va_dimension a) 0)) ! j"
    proof (cases "j < va_count a")
      case True
      then show ?thesis using j st by (simp add: nth_append a' va_view_block block_append1)
    next
      case False
      have "Suc j * va_dimension a \<le> (va_count a + n) * va_dimension a"
        using j by (intro mult_right_mono) auto
      then have "va_dimension a \<le> n * va_dimension a - (j * va_dimension a - length (va_storage a))"
        using False st by (simp add: algebra_simps)
      then show ?thesis using False j st
        by (simp add: nth_append a' va_view_block block_def)
    qed
  qed (simp add: a')
qed

subsection \<open>The contract its users rely on\<close>

text \<open>
  \<^verbatim>\<open>VectorStore\<close> uses the array only as a growing list of rows of one width that can be replaced in
  place. \<open>grow_all\<close> is the shape of a bulk load.
\<close>

locale row_array =
  fixes inv :: "'a \<Rightarrow> bool" and width :: "'a \<Rightarrow> nat" and rows :: "'a \<Rightarrow> vec list"
    and push :: "'a \<Rightarrow> vec \<Rightarrow> (nat \<times> 'a) result" and put :: "'a \<Rightarrow> nat \<Rightarrow> vec \<Rightarrow> 'a result"
  assumes push_law: "inv a \<Longrightarrow> push a v = Inr (i, a') \<Longrightarrow>
      inv a' \<and> rows a' = rows a @ [v] \<and> i = length (rows a) \<and> width a' = width a \<and>
      length v = width a \<and> i < kMaxVectorCount"
    and push_total: "inv a \<Longrightarrow> length v = width a \<Longrightarrow> length (rows a) < kMaxVectorCount \<Longrightarrow>
      \<exists>r. push a v = Inr r"
    and put_law: "inv a \<Longrightarrow> put a i v = Inr a' \<Longrightarrow>
      inv a' \<and> rows a' = (rows a)[i := v] \<and> i < length (rows a) \<and> width a' = width a"
    and put_total: "inv a \<Longrightarrow> length v = width a \<Longrightarrow> i < length (rows a) \<Longrightarrow> \<exists>a'. put a i v = Inr a'"
begin

lemma read_after_put:
  "inv a \<Longrightarrow> put a i v = Inr a' \<Longrightarrow> rows a' ! j = (if j = i then v else rows a ! j)"
  using put_law [of a i v a'] by (auto simp: nth_list_update)

lemma read_after_push:
  "inv a \<Longrightarrow> push a v = Inr (i, a') \<Longrightarrow> j \<le> i \<Longrightarrow> rows a' ! j = (if j = i then v else rows a ! j)"
  using push_law [of a v i a'] by (auto simp: nth_append)

fun push_all :: "'a \<Rightarrow> vec list \<Rightarrow> 'a result" where
  "push_all a [] = Inr a"
| "push_all a (v # vs) = rbind (push a v) (\<lambda>(_, a'). push_all a' vs)"

lemma push_all_rows:
  "inv a \<Longrightarrow> push_all a vs = Inr a' \<Longrightarrow> inv a' \<and> rows a' = rows a @ vs \<and> width a' = width a"
proof (induction vs arbitrary: a)
  case (Cons v vs)
  then obtain i b where p: "push a v = Inr (i, b)" and r: "push_all b vs = Inr a'"
    by (auto simp: result_simps)
  note law = push_law [OF Cons.prems(1) p]
  then show ?case using Cons.IH [OF _ r] by simp
qed simp

lemma push_all_total:
  "inv a \<Longrightarrow> \<forall>v\<in>set vs. length v = width a \<Longrightarrow> length (rows a) + length vs \<le> kMaxVectorCount \<Longrightarrow>
   \<exists>a'. push_all a vs = Inr a'"
proof (induction vs arbitrary: a)
  case (Cons v vs)
  then obtain i b where p: "push a v = Inr (i, b)" using push_total [of a v] by fastforce
  from push_law [OF Cons.prems(1) this] show ?case using Cons.IH [of b] Cons.prems p by simp
qed simp

end

interpretation rows: row_array va_inv va_dimension va_rows va_push_back va_assign
proof unfold_locales
  fix a i a' and v :: vec assume "va_inv a" "va_push_back a v = Inr (i, a')"
  from va_push_back_ok [OF this] show "va_inv a' \<and> va_rows a' = va_rows a @ [v] \<and>
      i = length (va_rows a) \<and> va_dimension a' = va_dimension a \<and> length v = va_dimension a \<and>
      i < kMaxVectorCount" by simp
next
  fix a and v :: vec assume "va_inv a" "length v = va_dimension a" "length (va_rows a) < kMaxVectorCount"
  then show "\<exists>r. va_push_back a v = Inr r" by (simp add: va_push_back_def)
next
  fix a i a' and v :: vec assume "va_inv a" "va_assign a i v = Inr a'"
  from va_assign_ok [OF this] show "va_inv a' \<and> va_rows a' = (va_rows a)[i := v] \<and>
      i < length (va_rows a) \<and> va_dimension a' = va_dimension a" by simp
next
  fix a i and v :: vec assume "va_inv a" "length v = va_dimension a" "i < length (va_rows a)"
  then show "\<exists>a'. va_assign a i v = Inr a'" by (simp add: va_assign_def)
qed

section \<open>Properties\<close>

text \<open>Further: normalising a vector of finite components never writes a NaN, whatever the magnitude of the
  vector; a vector whose norm comes out zero is left untouched.\<close>

theorem normalize_never_makes_nan:
  assumes "is_finite_vec v"
  shows "(\<forall>y\<in>set (snd (normalize_in_place v)). \<not> f32_isnan y) \<and>
    (f32_eq (l2_norm v) 0 \<longrightarrow> normalize_in_place v = (0, v)) \<and> \<not> f32_isnan (fst (normalize_in_place v))"
proof -
  have fin: "\<forall>x\<in>set v. f32_isfinite x" using assms by (simp add: is_finite_vec_iff)
  then have "\<forall>x\<in>set v. \<not> f32_isnan x" using is_finv_nan by (auto simp: f32_isfinite_def f32_isnan_def)
  from l2_norm_nonneg [OF this] have "\<not> f32_isnan (l2_norm v)"
    by (simp add: f32_isnan_def nonneg_not_nan)
  then show ?thesis
    using normalize_not_nan [OF fin] by (simp add: normalize_in_place_def Let_def f32_isnan_def)
qed

theorem normalize_never_makes_nan_witness:
  "\<not> f32_isnan (fst (normalize_in_place [0x7f7fffff, 0x00000001]))"
proof -
  have "is_finite_vec [0x7f7fffff, 0x00000001]"
    by (simp add: is_finite_vec_iff feval cong: let_weak_cong)
  from normalize_never_makes_nan [OF this] show ?thesis by blast
qed

text \<open>Further: the flat array with its offset arithmetic is a list of rows: appending adds the row at the
  end under the slot it returns, assigning replaces one row and no other, and a checked read gives the
  row of the slot or throws.\<close>

theorem array_is_list_of_rows:
  assumes "va_inv a"
  shows "(\<forall>i a'. va_push_back a v = Inr (i, a') \<longrightarrow>
      va_inv a' \<and> va_rows a' = va_rows a @ [v] \<and> i = length (va_rows a)) \<and>
    (\<forall>a'. va_assign a j v = Inr a' \<longrightarrow> va_inv a' \<and> va_rows a' = (va_rows a)[j := v]) \<and>
    va_at a j = (if j < length (va_rows a) then Inr (va_rows a ! j) else Inl InvalidArgumentError)"
  using rows.push_law [OF assms] rows.put_law [OF assms] by (auto simp: va_at_def)

theorem array_is_list_of_rows_witness:
  "va_rows \<lparr>va_dimension = 2, va_count = 2, va_storage = [1, 2, 7, 8]\<rparr> = [[1, 2], [7, 8]]"
proof -
  let ?a = "\<lparr>va_dimension = 2, va_count = 2, va_storage = [1, 2, 3, 4]\<rparr>"
  have "va_inv ?a" by (simp add: va_inv_def kMaxDimension_def kMaxVectorCount_def)
  moreover have "va_assign ?a 1 [7, 8] = Inr \<lparr>va_dimension = 2, va_count = 2, va_storage = [1, 2, 7, 8]\<rparr>"
    by (simp add: va_assign_def va_offset_of_def overwrite_def)
  ultimately have "va_rows \<lparr>va_dimension = 2, va_count = 2, va_storage = [1, 2, 7, 8]\<rparr> =
      (va_rows ?a)[1 := [7, 8]]"
    using array_is_list_of_rows [of ?a "[7, 8]" 1] by blast
  then show ?thesis by (simp add: va_rows_def va_view_def va_offset_of_def upt_rec)
qed

end
