(* ===== verification/Vdb_Types.thy ===== *)
theory Vdb_Types
  imports Vdb_Prelude
begin

text \<open>
  The enumerations of \<^verbatim>\<open>include/vectordb/core/types.hpp\<close> with the name tables, parsers and
  printers of \<^verbatim>\<open>src/core/types.cpp\<close>. A parser that writes an out-parameter and returns a flag is an
  option: \<open>None\<close> is \<open>false\<close>, and the caller's variable keeps its value.
\<close>

datatype metric = L2Squared | Cosine | InnerProduct

datatype index_type = BruteForce | Hnsw

definition kMetricNames :: "(string \<times> metric) list" where
  "kMetricNames = [(''l2'', L2Squared), (''l2_squared'', L2Squared), (''euclidean'', L2Squared),
     (''cosine'', Cosine), (''dot'', InnerProduct)]"

definition kIndexNames :: "(string \<times> index_type) list" where
  "kIndexNames = [(''brute_force'', BruteForce), (''bruteforce'', BruteForce),
     (''flat'', BruteForce), (''hnsw'', Hnsw)]"

fun metric_name :: "metric \<Rightarrow> string" where
  "metric_name L2Squared = ''l2''"
| "metric_name Cosine = ''cosine''"
| "metric_name InnerProduct = ''dot''"

definition parse_metric :: "string \<Rightarrow> metric option" where
  "parse_metric name = map_of kMetricNames name"

fun index_type_name :: "index_type \<Rightarrow> string" where
  "index_type_name BruteForce = ''brute_force''"
| "index_type_name Hnsw = ''hnsw''"

definition parse_index_type :: "string \<Rightarrow> index_type option" where
  "parse_index_type name = map_of kIndexNames name"

text \<open>The underlying values of the enumerators, as stored in files.\<close>

fun metric_code :: "metric \<Rightarrow> nat" where
  "metric_code L2Squared = 0"
| "metric_code Cosine = 1"
| "metric_code InnerProduct = 2"

fun metric_of_code :: "nat \<Rightarrow> metric" where
  "metric_of_code n = (if n = 0 then L2Squared else if n = 1 then Cosine else InnerProduct)"

lemma metric_of_code_code [simp]: "metric_of_code (metric_code m) = m"
  by (cases m) simp_all

lemma metric_code_le: "metric_code m \<le> 2"
  by (cases m) simp_all

lemma parse_metric_name [simp]: "parse_metric (metric_name m) = Some m"
  by (cases m) (simp_all add: parse_metric_def kMetricNames_def)

lemma parse_index_type_name [simp]: "parse_index_type (index_type_name t) = Some t"
  by (cases t) (simp_all add: parse_index_type_def kIndexNames_def)

section \<open>Properties\<close>

text \<open>Further: every name the printers produce parses back to the enumerator it was printed for.\<close>

theorem names_round_trip:
  "parse_metric (metric_name m) = Some m \<and> parse_index_type (index_type_name t) = Some t"
  by simp

end
