(* ===== verification/Vdb_Distance.thy ===== *)
theory Vdb_Distance
  imports Vdb_Vector Vdb_Types
begin

text \<open>
  The distance layer (\<^verbatim>\<open>src/distance/\<close>): the scalar, NEON and AVX2 kernels lane by lane and rounding
  by rounding, the CPU detection and the kernel registry, and \<^verbatim>\<open>DistanceFunction\<close> with its rank keys.
  The laws every kernel obeys are the locale \<open>kernel_laws\<close>, interpreted on the three kernels; the
  properties of the distance function are proved once from the laws.
\<close>

section \<open>Counting loops\<close>

text \<open>\<^verbatim>\<open>for (; i < limit; i += k)\<close> and \<^verbatim>\<open>for (; i + k <= count; i += k)\<close>; the second returns the final
  index for the loop that follows it.\<close>

function for_below :: "nat \<Rightarrow> nat \<Rightarrow> nat \<Rightarrow> (nat \<Rightarrow> 's \<Rightarrow> 's) \<Rightarrow> 's \<Rightarrow> nat \<times> 's" where
  "for_below i limit k body s =
     (if i < limit \<and> 0 < k then for_below (i + k) limit k body (body i s) else (i, s))"
  by pat_completeness auto
termination by (relation "measure (\<lambda>(i, limit, k, body, s). limit - i)") auto

function for_blocks :: "nat \<Rightarrow> nat \<Rightarrow> nat \<Rightarrow> (nat \<Rightarrow> 's \<Rightarrow> 's) \<Rightarrow> 's \<Rightarrow> nat \<times> 's" where
  "for_blocks i k cnt body s =
     (if i + k \<le> cnt \<and> 0 < k then for_blocks (i + k) k cnt body (body i s) else (i, s))"
  by pat_completeness auto
termination by (relation "measure (\<lambda>(i, k, cnt, body, s). cnt - i)") auto

declare for_below.simps [simp del] for_blocks.simps [simp del]

lemma for_below_inv:
  "P s \<Longrightarrow> (\<And>i s. i < limit \<Longrightarrow> k dvd i \<Longrightarrow> P s \<Longrightarrow> P (body i s)) \<Longrightarrow> k dvd i \<Longrightarrow>
   P (snd (for_below i limit k body s)) \<and> k dvd fst (for_below i limit k body s)"
proof (induction i limit k body s rule: for_below.induct)
  case (1 i limit k body s)
  show ?case
  proof (cases "i < limit \<and> 0 < k")
    case True
    then show ?thesis using 1 by (subst (1 2) for_below.simps) simp
  next
    case False
    then have "for_below i limit k body s = (i, s)" by (subst for_below.simps) auto
    then show ?thesis using 1(2,4) by simp
  qed
qed

lemma for_blocks_inv:
  "P s \<Longrightarrow> (\<And>i s. i + k \<le> cnt \<Longrightarrow> P s \<Longrightarrow> P (body i s)) \<Longrightarrow>
   P (snd (for_blocks i k cnt body s))"
proof (induction i k cnt body s rule: for_blocks.induct)
  case (1 i k cnt body s)
  then show ?case by (subst for_blocks.simps) simp
qed

section \<open>The scalar kernel\<close>

definition scalar_l2_step :: "vec \<Rightarrow> vec \<Rightarrow> nat \<Rightarrow> f32 \<times> f32 \<times> f32 \<times> f32 \<Rightarrow> f32 \<times> f32 \<times> f32 \<times> f32" where
  "scalar_l2_step a b i s = (case s of (sum0, sum1, sum2, sum3) \<Rightarrow>
     let d0 = f32_sub (a ! (i + 0)) (b ! (i + 0));
         d1 = f32_sub (a ! (i + 1)) (b ! (i + 1));
         d2 = f32_sub (a ! (i + 2)) (b ! (i + 2));
         d3 = f32_sub (a ! (i + 3)) (b ! (i + 3)) in
     (f32_add sum0 (f32_mul d0 d0), f32_add sum1 (f32_mul d1 d1),
      f32_add sum2 (f32_mul d2 d2), f32_add sum3 (f32_mul d3 d3)))"

text \<open>The remainder loop \<open>d = a[i] - b[i]; tail += d * d\<close>, the same in all three kernels.\<close>

definition l2_tail_step :: "vec \<Rightarrow> vec \<Rightarrow> nat \<Rightarrow> f32 \<Rightarrow> f32" where
  "l2_tail_step a b i tail = (let d = f32_sub (a ! i) (b ! i) in f32_add tail (f32_mul d d))"

definition dot_tail_step :: "vec \<Rightarrow> vec \<Rightarrow> nat \<Rightarrow> f32 \<Rightarrow> f32" where
  "dot_tail_step a b i tail = f32_add tail (f32_mul (a ! i) (b ! i))"

definition combine4 :: "f32 \<times> f32 \<times> f32 \<times> f32 \<Rightarrow> f32" where
  "combine4 s = (case s of (sum0, sum1, sum2, sum3) \<Rightarrow>
     f32_add (f32_add sum0 sum1) (f32_add sum2 sum3))"

definition scalar_l2_squared :: "vec \<Rightarrow> vec \<Rightarrow> nat \<Rightarrow> f32" where
  "scalar_l2_squared a b cnt =
     (let limit = cnt - cnt mod 4;
          (i, acc) = for_below 0 limit 4 (scalar_l2_step a b) (0, 0, 0, 0);
          (_, tail) = for_below i cnt 1 (l2_tail_step a b) 0 in
      f32_add (combine4 acc) tail)"

definition scalar_dot_step :: "vec \<Rightarrow> vec \<Rightarrow> nat \<Rightarrow> f32 \<times> f32 \<times> f32 \<times> f32 \<Rightarrow> f32 \<times> f32 \<times> f32 \<times> f32" where
  "scalar_dot_step a b i s = (case s of (sum0, sum1, sum2, sum3) \<Rightarrow>
     (f32_add sum0 (f32_mul (a ! (i + 0)) (b ! (i + 0))),
      f32_add sum1 (f32_mul (a ! (i + 1)) (b ! (i + 1))),
      f32_add sum2 (f32_mul (a ! (i + 2)) (b ! (i + 2))),
      f32_add sum3 (f32_mul (a ! (i + 3)) (b ! (i + 3)))))"

definition scalar_dot :: "vec \<Rightarrow> vec \<Rightarrow> nat \<Rightarrow> f32" where
  "scalar_dot a b cnt =
     (let limit = cnt - cnt mod 4;
          (i, acc) = for_below 0 limit 4 (scalar_dot_step a b) (0, 0, 0, 0);
          (_, tail) = for_below i cnt 1 (dot_tail_step a b) 0 in
      f32_add (combine4 acc) tail)"

definition scalar_norm_squared :: "vec \<Rightarrow> nat \<Rightarrow> f32" where
  "scalar_norm_squared v cnt = scalar_dot v v cnt"

section \<open>Vector registers\<close>

text \<open>A register is the list of its lanes. A load reads as many consecutive floats as it has lanes.\<close>

definition vload :: "nat \<Rightarrow> vec \<Rightarrow> nat \<Rightarrow> f32 list" where
  "vload w a i = take w (drop i a)"

definition vadd :: "f32 list \<Rightarrow> f32 list \<Rightarrow> f32 list" where
  "vadd x y = map (\<lambda>(p, q). f32_add p q) (zip x y)"

definition vsub :: "f32 list \<Rightarrow> f32 list \<Rightarrow> f32 list" where
  "vsub x y = map (\<lambda>(p, q). f32_sub p q) (zip x y)"

text \<open>\<open>vfma x y s\<close> is \<open>x * y + s\<close> lane by lane with a single rounding.\<close>

definition vfma :: "f32 list \<Rightarrow> f32 list \<Rightarrow> f32 list \<Rightarrow> f32 list" where
  "vfma x y s = map (\<lambda>(p, q, r). f32_fma p q r) (zip x (zip y s))"

type_synonym accs = "f32 list \<times> f32 list \<times> f32 list \<times> f32 list"

text \<open>One round of the four-accumulator main loop, and of the loop over single registers, on
  registers of \<open>w\<close> lanes.\<close>

definition simd_l2_block :: "nat \<Rightarrow> vec \<Rightarrow> vec \<Rightarrow> nat \<Rightarrow> accs \<Rightarrow> accs" where
  "simd_l2_block w a b i s = (case s of (sum0, sum1, sum2, sum3) \<Rightarrow>
     let d0 = vsub (vload w a (i + 0)) (vload w b (i + 0));
         d1 = vsub (vload w a (i + w)) (vload w b (i + w));
         d2 = vsub (vload w a (i + 2 * w)) (vload w b (i + 2 * w));
         d3 = vsub (vload w a (i + 3 * w)) (vload w b (i + 3 * w)) in
     (vfma d0 d0 sum0, vfma d1 d1 sum1, vfma d2 d2 sum2, vfma d3 d3 sum3))"

definition simd_l2_single :: "nat \<Rightarrow> vec \<Rightarrow> vec \<Rightarrow> nat \<Rightarrow> accs \<Rightarrow> accs" where
  "simd_l2_single w a b i s = (case s of (sum0, sum1, sum2, sum3) \<Rightarrow>
     let d = vsub (vload w a i) (vload w b i) in (vfma d d sum0, sum1, sum2, sum3))"

definition simd_dot_block :: "nat \<Rightarrow> vec \<Rightarrow> vec \<Rightarrow> nat \<Rightarrow> accs \<Rightarrow> accs" where
  "simd_dot_block w a b i s = (case s of (sum0, sum1, sum2, sum3) \<Rightarrow>
     (vfma (vload w a (i + 0)) (vload w b (i + 0)) sum0,
      vfma (vload w a (i + w)) (vload w b (i + w)) sum1,
      vfma (vload w a (i + 2 * w)) (vload w b (i + 2 * w)) sum2,
      vfma (vload w a (i + 3 * w)) (vload w b (i + 3 * w)) sum3))"

definition simd_dot_single :: "nat \<Rightarrow> vec \<Rightarrow> vec \<Rightarrow> nat \<Rightarrow> accs \<Rightarrow> accs" where
  "simd_dot_single w a b i s = (case s of (sum0, sum1, sum2, sum3) \<Rightarrow>
     (vfma (vload w a i) (vload w b i) sum0, sum1, sum2, sum3))"

definition zero_accs :: "nat \<Rightarrow> accs" where
  "zero_accs w = (replicate w 0, replicate w 0, replicate w 0, replicate w 0)"

definition combine_accs :: "accs \<Rightarrow> f32 list" where
  "combine_accs s = (case s of (sum0, sum1, sum2, sum3) \<Rightarrow> vadd (vadd sum0 sum1) (vadd sum2 sum3))"

section \<open>The NEON kernel\<close>

text \<open>\<^verbatim>\<open>vaddvq_f32\<close> adds neighbouring lanes pairwise, twice.\<close>

definition neon_horizontal_sum :: "f32 list \<Rightarrow> f32" where
  "neon_horizontal_sum v = f32_add (f32_add (v ! 0) (v ! 1)) (f32_add (v ! 2) (v ! 3))"

definition neon_l2_squared :: "vec \<Rightarrow> vec \<Rightarrow> nat \<Rightarrow> f32" where
  "neon_l2_squared a b cnt =
     (let (i, s) = for_blocks 0 16 cnt (simd_l2_block 4 a b) (zero_accs 4);
          (i, s) = for_blocks i 4 cnt (simd_l2_single 4 a b) s;
          total = neon_horizontal_sum (combine_accs s) in
      snd (for_below i cnt 1 (l2_tail_step a b) total))"

definition neon_dot :: "vec \<Rightarrow> vec \<Rightarrow> nat \<Rightarrow> f32" where
  "neon_dot a b cnt =
     (let (i, s) = for_blocks 0 16 cnt (simd_dot_block 4 a b) (zero_accs 4);
          (i, s) = for_blocks i 4 cnt (simd_dot_single 4 a b) s;
          total = neon_horizontal_sum (combine_accs s) in
      snd (for_below i cnt 1 (dot_tail_step a b) total))"

definition neon_norm_squared :: "vec \<Rightarrow> nat \<Rightarrow> f32" where
  "neon_norm_squared v cnt = neon_dot v v cnt"

section \<open>The AVX2 kernel\<close>

text \<open>The low and high halves are added, then the high pair onto the low pair, then lane 1 onto 0.\<close>

definition avx2_horizontal_sum :: "f32 list \<Rightarrow> f32" where
  "avx2_horizontal_sum v =
     (let low = take 4 v; high = take 4 (drop 4 v);
          s = vadd low high;
          s = vadd s [s ! 2, s ! 3, s ! 2, s ! 3] in
      f32_add (s ! 0) (s ! 1))"

definition avx2_l2_squared :: "vec \<Rightarrow> vec \<Rightarrow> nat \<Rightarrow> f32" where
  "avx2_l2_squared a b cnt =
     (let (i, s) = for_blocks 0 32 cnt (simd_l2_block 8 a b) (zero_accs 8);
          (i, s) = for_blocks i 8 cnt (simd_l2_single 8 a b) s;
          total = avx2_horizontal_sum (combine_accs s) in
      snd (for_below i cnt 1 (l2_tail_step a b) total))"

definition avx2_dot :: "vec \<Rightarrow> vec \<Rightarrow> nat \<Rightarrow> f32" where
  "avx2_dot a b cnt =
     (let (i, s) = for_blocks 0 32 cnt (simd_dot_block 8 a b) (zero_accs 8);
          (i, s) = for_blocks i 8 cnt (simd_dot_single 8 a b) s;
          total = avx2_horizontal_sum (combine_accs s) in
      snd (for_below i cnt 1 (dot_tail_step a b) total))"

definition avx2_norm_squared :: "vec \<Rightarrow> nat \<Rightarrow> f32" where
  "avx2_norm_squared v cnt = avx2_dot v v cnt"

section \<open>Kernels and their registry\<close>

record distance_kernel =
  kn_l2_squared :: "vec \<Rightarrow> vec \<Rightarrow> nat \<Rightarrow> f32"
  kn_dot :: "vec \<Rightarrow> vec \<Rightarrow> nat \<Rightarrow> f32"
  kn_norm_squared :: "vec \<Rightarrow> nat \<Rightarrow> f32"
  kn_name :: string

definition scalar_kernel :: distance_kernel where
  "scalar_kernel = \<lparr>kn_l2_squared = scalar_l2_squared, kn_dot = scalar_dot,
     kn_norm_squared = scalar_norm_squared, kn_name = ''scalar''\<rparr>"

definition neon_kernel :: distance_kernel where
  "neon_kernel = \<lparr>kn_l2_squared = neon_l2_squared, kn_dot = neon_dot,
     kn_norm_squared = neon_norm_squared, kn_name = ''neon''\<rparr>"

definition avx2_kernel :: distance_kernel where
  "avx2_kernel = \<lparr>kn_l2_squared = avx2_l2_squared, kn_dot = avx2_dot,
     kn_norm_squared = avx2_norm_squared, kn_name = ''avx2''\<rparr>"

text \<open>The target the code is compiled for, and what its CPU answers to \<^verbatim>\<open>cpuid\<close> and \<^verbatim>\<open>xgetbv\<close>.\<close>

datatype arch = ARM64 | X86_64 | OtherArch bool \<comment> \<open>with the NEON macro defined or not\<close>

record cpuid_result =
  eax :: u32
  ebx :: u32
  ecx :: u32
  edx :: u32

record target =
  tg_arch :: arch
  tg_simd :: bool
  tg_cpuid :: "u32 \<Rightarrow> u32 \<Rightarrow> cpuid_result"
  tg_xcr0 :: u64

definition detect_avx2 :: "target \<Rightarrow> bool" where
  "detect_avx2 t =
     (if eax (tg_cpuid t 0 0) < 7 then False
      else let leaf1 = tg_cpuid t 1 0;
               os_xsave = bit (ecx leaf1) 27; avx = bit (ecx leaf1) 28; fma = bit (ecx leaf1) 12 in
        if \<not> os_xsave \<or> \<not> avx \<or> \<not> fma then False
        else if \<not> (bit (tg_xcr0 t) 1 \<and> bit (tg_xcr0 t) 2) then False
        else bit (ebx (tg_cpuid t 7 0)) 5)"

definition cpu_supports_avx2 :: "target \<Rightarrow> bool" where
  "cpu_supports_avx2 t = (case tg_arch t of X86_64 \<Rightarrow> detect_avx2 t | _ \<Rightarrow> False)"

definition cpu_supports_neon :: "target \<Rightarrow> bool" where
  "cpu_supports_neon t = (case tg_arch t of ARM64 \<Rightarrow> True | OtherArch neon \<Rightarrow> neon | X86_64 \<Rightarrow> False)"

definition detect_kernels :: "target \<Rightarrow> distance_kernel list" where
  "detect_kernels t = [scalar_kernel] @
     (if tg_simd t then
        (if tg_arch t = ARM64 \<and> cpu_supports_neon t then [neon_kernel] else []) @
        (if tg_arch t = X86_64 \<and> cpu_supports_avx2 t then [avx2_kernel] else [])
      else [])"

definition active_kernel :: "target \<Rightarrow> distance_kernel" where
  "active_kernel t = last (detect_kernels t)"

fun find_kernel :: "distance_kernel list \<Rightarrow> string \<Rightarrow> distance_kernel option" where
  "find_kernel [] n = None"
| "find_kernel (k # ks) n = (if kn_name k = n then Some k else find_kernel ks n)"

definition kernel_by_name :: "target \<Rightarrow> string \<Rightarrow> distance_kernel option" where
  "kernel_by_name t n = find_kernel (detect_kernels t) n"

section \<open>Rank keys\<close>

definition f32_two :: f32 where
  "f32_two = 0x40000000"

definition f32_minus_one :: f32 where
  "f32_minus_one = 0xbf800000"

definition cosine_rank_key :: "f32 \<Rightarrow> f32 \<Rightarrow> f32 \<Rightarrow> f32" where
  "cosine_rank_key dot norm_a norm_b =
     (let denominator = f32_mul norm_a norm_b in
      if f32_le denominator 0 then f32_one
      else let similarity = f32_div dot denominator in
        if f32_lt f32_one similarity then 0
        else if f32_lt similarity f32_minus_one then f32_two
        else f32_sub f32_one similarity)"

fun score_from_rank_key :: "metric \<Rightarrow> f32 \<Rightarrow> f32" where
  "score_from_rank_key L2Squared k = k"
| "score_from_rank_key Cosine k = f32_sub f32_one k"
| "score_from_rank_key InnerProduct k = f32_neg k"

fun rank_key_from_score :: "metric \<Rightarrow> f32 \<Rightarrow> f32" where
  "rank_key_from_score L2Squared s = s"
| "rank_key_from_score Cosine s = f32_sub f32_one s"
| "rank_key_from_score InnerProduct s = f32_neg s"

fun higher_score_is_better :: "metric \<Rightarrow> bool" where
  "higher_score_is_better L2Squared = False"
| "higher_score_is_better Cosine = True"
| "higher_score_is_better InnerProduct = True"

text \<open>\<^verbatim>\<open>DistanceFunction::operator()\<close> and \<^verbatim>\<open>with_norms\<close>; both takes the count from the first span.\<close>

definition distance :: "distance_kernel \<Rightarrow> metric \<Rightarrow> vec \<Rightarrow> vec \<Rightarrow> f32" where
  "distance kn m a b =
     (let cnt = length a in
      case m of
        L2Squared \<Rightarrow> kn_l2_squared kn a b cnt
      | InnerProduct \<Rightarrow> f32_neg (kn_dot kn a b cnt)
      | Cosine \<Rightarrow> cosine_rank_key (kn_dot kn a b cnt)
          (f32_sqrt (kn_norm_squared kn a cnt)) (f32_sqrt (kn_norm_squared kn b cnt)))"

definition with_norms :: "distance_kernel \<Rightarrow> metric \<Rightarrow> vec \<Rightarrow> f32 \<Rightarrow> vec \<Rightarrow> f32 \<Rightarrow> f32" where
  "with_norms kn m a norm_a b norm_b =
     (case m of
        L2Squared \<Rightarrow> kn_l2_squared kn a b (length a)
      | InnerProduct \<Rightarrow> f32_neg (kn_dot kn a b (length a))
      | Cosine \<Rightarrow> cosine_rank_key (kn_dot kn a b (length a)) norm_a norm_b)"

definition compute_rank_key :: "target \<Rightarrow> metric \<Rightarrow> vec \<Rightarrow> vec \<Rightarrow> f32" where
  "compute_rank_key t m a b = distance (active_kernel t) m a b"

section \<open>The laws of a kernel\<close>

text \<open>
  What a caller may rely on: both reductions are symmetric in their arguments bit for bit; the norm is
  the dot product with itself; and a result is built from zero by sums and by (fused) additions of
  products of corresponding components, so any set of floats closed under those contains it.
\<close>

definition sum_closed :: "(f32 \<Rightarrow> bool) \<Rightarrow> bool" where
  "sum_closed P \<longleftrightarrow> P 0 \<and> (\<forall>x y. P x \<longrightarrow> P y \<longrightarrow> P (f32_add x y))"

definition term_closed :: "(f32 \<Rightarrow> bool) \<Rightarrow> f32 \<Rightarrow> f32 \<Rightarrow> bool" where
  "term_closed P x y \<longleftrightarrow> P (f32_mul x y) \<and> (\<forall>s. P s \<longrightarrow> P (f32_fma x y s))"

locale kernel_laws =
  fixes kn :: distance_kernel
  assumes l2_sym: "kn_l2_squared kn a b n = kn_l2_squared kn b a n"
    and dot_sym: "kn_dot kn a b n = kn_dot kn b a n"
    and norm_dot: "kn_norm_squared kn a n = kn_dot kn a a n"
    and l2_ind: "n \<le> length a \<Longrightarrow> n \<le> length b \<Longrightarrow> sum_closed P \<Longrightarrow>
      (\<And>i. i < n \<Longrightarrow> term_closed P (f32_sub (a ! i) (b ! i)) (f32_sub (a ! i) (b ! i))) \<Longrightarrow>
      P (kn_l2_squared kn a b n)"
    and dot_ind: "n \<le> length a \<Longrightarrow> n \<le> length b \<Longrightarrow> sum_closed P \<Longrightarrow>
      (\<And>i. i < n \<Longrightarrow> term_closed P (a ! i) (b ! i)) \<Longrightarrow> P (kn_dot kn a b n)"

subsection \<open>Fused terms\<close>

lemma ffma_comm: "ffma F x y z = ffma F y x z"
proof -
  have sign: "(s = (\<not> t)) = (t = (\<not> s))" for s t by auto
  show ?thesis by (cases x; cases y) (auto simp: mult.commute sign)
qed

lemma f32_fma_comm: "f32_fma x y z = f32_fma y x z"
  by (simp add: f32_fma_def ffma_comm)

lemma ffma_neg_neg: "ffma F (fneg x) (fneg y) z = ffma F x y z"
  by (cases x; cases y) auto

lemma f32_fma_square: "f32_fma (f32_sub x y) (f32_sub x y) s = f32_fma (f32_sub y x) (f32_sub y x) s"
proof -
  have "ffma binary32 (fsub binary32 (f32_val x) (f32_val y)) (fsub binary32 (f32_val x) (f32_val y)) z =
        ffma binary32 (fsub binary32 (f32_val y) (f32_val x)) (fsub binary32 (f32_val y) (f32_val x)) z" for z
    using fsub_swap [of binary32 "f32_val y" "f32_val x"] ffma_neg_neg by metis
  then show ?thesis unfolding f32_fma_def by simp
qed

lemma ffma_square_nonneg: "\<not> is_nanv x \<Longrightarrow> is_nonnegv z \<Longrightarrow> is_nonnegv (ffma F x x z)"
  by (cases x; cases z) (auto simp: Let_def)

lemma sum_closed_nonneg: "sum_closed (\<lambda>x. is_nonnegv (f32_val x))"
  by (simp add: sum_closed_def fadd_nonneg)

lemma term_closed_nonneg: "\<not> f32_isnan x \<Longrightarrow> term_closed (\<lambda>x. is_nonnegv (f32_val x)) x x"
  by (simp add: term_closed_def f32_isnan_def fmul_self_nonneg ffma_square_nonneg)

lemma f32_sub_self: "f32_isfinite x \<Longrightarrow> f32_sub x x = 0"
  by (simp add: f32_sub_def f32_isfinite_def fsub_self f32_of_def fenc_mag.simps)

lemma f32_zero_ops: "f32_add 0 0 = 0" "f32_mul 0 0 = 0" "f32_fma 0 0 0 = 0" "f32_sqrt 0 = 0"
  by (simp_all add: f32_add_def f32_mul_def f32_fma_def f32_sqrt_def f32_of_def fenc_mag.simps Let_def)

lemma sum_closed_zero: "sum_closed (\<lambda>x. x = 0)" and term_closed_zero: "term_closed (\<lambda>x. x = 0) 0 0"
  by (simp_all add: sum_closed_def term_closed_def f32_zero_ops)

subsection \<open>Consequences\<close>

context kernel_laws
begin

lemma finite_nth: "is_finite_vec a \<Longrightarrow> i < length a \<Longrightarrow> f32_isfinite (a ! i)"
  by (simp add: is_finite_vec_iff)

lemma sub_finite_not_nan: "f32_isfinite x \<Longrightarrow> f32_isfinite y \<Longrightarrow> \<not> f32_isnan (f32_sub x y)"
  by (simp add: f32_isfinite_def f32_isnan_def fsub_fin_not_nan)

lemma l2_nonneg:
  "n \<le> length a \<Longrightarrow> n \<le> length b \<Longrightarrow> is_finite_vec a \<Longrightarrow> is_finite_vec b \<Longrightarrow>
   is_nonnegv (f32_val (kn_l2_squared kn a b n))"
  by (rule l2_ind [where P = "\<lambda>x. is_nonnegv (f32_val x)"])
    (simp_all add: sum_closed_nonneg term_closed_nonneg sub_finite_not_nan finite_nth)

lemma l2_self: "n \<le> length a \<Longrightarrow> is_finite_vec a \<Longrightarrow> kn_l2_squared kn a a n = 0"
  by (rule l2_ind [where P = "\<lambda>x. x = 0"])
    (auto simp: sum_closed_zero is_finite_vec_iff f32_sub_self term_closed_zero)

lemma norm_nonneg:
  "n \<le> length a \<Longrightarrow> is_finite_vec a \<Longrightarrow> is_nonnegv (f32_val (kn_norm_squared kn a n))"
  unfolding norm_dot
  by (rule dot_ind [where P = "\<lambda>x. is_nonnegv (f32_val x)"])
    (auto simp: sum_closed_nonneg is_finite_vec_iff f32_isfinite_def f32_isnan_def is_finv_nan
      intro!: term_closed_nonneg)

end

subsection \<open>The scalar kernel obeys them\<close>

lemma scalar_step_sym: "scalar_l2_step a b = scalar_l2_step b a" "scalar_dot_step a b = scalar_dot_step b a"
    "l2_tail_step a b = l2_tail_step b a" "dot_tail_step a b = dot_tail_step b a"
proof -
  have sq: "f32_mul (f32_sub x y) (f32_sub x y) = f32_mul (f32_sub y x) (f32_sub y x)" for x y
    by (rule f32_sub_square)
  show "scalar_l2_step a b = scalar_l2_step b a" "l2_tail_step a b = l2_tail_step b a"
    by (intro ext; simp only: scalar_l2_step_def l2_tail_step_def Let_def,
        simp add: f32_sub_square [of "a ! _" "b ! _"])+
  show "scalar_dot_step a b = scalar_dot_step b a" "dot_tail_step a b = dot_tail_step b a"
    by (intro ext, simp add: scalar_dot_step_def dot_tail_step_def f32_mul_comm)+
qed

lemma scalar_l2_ind:
  assumes n: "n \<le> length a" "n \<le> length b" and P: "sum_closed P"
    and t: "\<And>i. i < n \<Longrightarrow> term_closed P (f32_sub (a ! i) (b ! i)) (f32_sub (a ! i) (b ! i))"
  shows "P (scalar_l2_squared a b n)"
proof -
  let ?Q = "\<lambda>(s0, s1, s2, s3). P s0 \<and> P s1 \<and> P s2 \<and> P s3"
  have z: "P 0" and add: "\<And>x y. P x \<Longrightarrow> P y \<Longrightarrow> P (f32_add x y)" using P by (auto simp: sum_closed_def)
  have main: "?Q (snd (for_below 0 (n - n mod 4) 4 (scalar_l2_step a b) (0, 0, 0, 0)))"
  proof (rule conjunct1 [OF for_below_inv])
    fix i s assume i: "i < n - n mod 4" "4 dvd i" and s: "?Q s"
    then have "i + 3 < n" by presburger
    then show "?Q (scalar_l2_step a b i s)"
      using s t by (auto simp: scalar_l2_step_def Let_def term_closed_def split: prod.splits intro!: add)
  qed (simp_all add: z)
  have tail: "P (snd (for_below i n 1 (l2_tail_step a b) s))" if "P s" for i s
    using that by (rule conjunct1 [OF for_below_inv])
      (auto simp: l2_tail_step_def Let_def intro!: add conjunct1 [OF t [unfolded term_closed_def]])
  obtain i s0 s1 s2 s3 where e: "for_below 0 (n - n mod 4) 4 (scalar_l2_step a b) (0, 0, 0, 0) = (i, s0, s1, s2, s3)"
    by (metis prod.exhaust)
  obtain j t where f: "for_below i n 1 (l2_tail_step a b) 0 = (j, t)" by (metis prod.exhaust)
  show ?thesis
    using main tail [OF z, of i] by (simp add: scalar_l2_squared_def combine4_def e f [simplified] add)
qed

lemma scalar_dot_ind:
  assumes n: "n \<le> length a" "n \<le> length b" and P: "sum_closed P"
    and t: "\<And>i. i < n \<Longrightarrow> term_closed P (a ! i) (b ! i)"
  shows "P (scalar_dot a b n)"
proof -
  let ?Q = "\<lambda>(s0, s1, s2, s3). P s0 \<and> P s1 \<and> P s2 \<and> P s3"
  have z: "P 0" and add: "\<And>x y. P x \<Longrightarrow> P y \<Longrightarrow> P (f32_add x y)" using P by (auto simp: sum_closed_def)
  have main: "?Q (snd (for_below 0 (n - n mod 4) 4 (scalar_dot_step a b) (0, 0, 0, 0)))"
  proof (rule conjunct1 [OF for_below_inv])
    fix i s assume i: "i < n - n mod 4" "4 dvd i" and s: "?Q s"
    then have "i + 3 < n" by presburger
    then show "?Q (scalar_dot_step a b i s)"
      using s t by (auto simp: scalar_dot_step_def term_closed_def split: prod.splits intro!: add)
  qed (simp_all add: z)
  have tail: "P (snd (for_below i n 1 (dot_tail_step a b) s))" if "P s" for i s
    using that by (rule conjunct1 [OF for_below_inv])
      (auto simp: dot_tail_step_def intro!: add conjunct1 [OF t [unfolded term_closed_def]])
  obtain i s0 s1 s2 s3 where e: "for_below 0 (n - n mod 4) 4 (scalar_dot_step a b) (0, 0, 0, 0) = (i, s0, s1, s2, s3)"
    by (metis prod.exhaust)
  obtain j t where f: "for_below i n 1 (dot_tail_step a b) 0 = (j, t)" by (metis prod.exhaust)
  show ?thesis
    using main tail [OF z, of i] by (simp add: scalar_dot_def combine4_def e f [simplified] add)
qed

interpretation scalar: kernel_laws scalar_kernel
proof unfold_locales
  show "kn_l2_squared scalar_kernel a b n = kn_l2_squared scalar_kernel b a n" for a b n
    by (simp add: scalar_kernel_def scalar_l2_squared_def scalar_step_sym(1,3) [of a b])
  show "kn_dot scalar_kernel a b n = kn_dot scalar_kernel b a n" for a b n
    by (simp add: scalar_kernel_def scalar_dot_def scalar_step_sym(2,4) [of a b])
qed (simp_all add: scalar_kernel_def scalar_norm_squared_def scalar_l2_ind scalar_dot_ind)

subsection \<open>The vector kernels obey them\<close>

definition lanes_ok :: "nat \<Rightarrow> (f32 \<Rightarrow> bool) \<Rightarrow> f32 list \<Rightarrow> bool" where
  "lanes_ok w P x \<longleftrightarrow> length x = w \<and> (\<forall>y\<in>set x. P y)"

fun accs_ok :: "nat \<Rightarrow> (f32 \<Rightarrow> bool) \<Rightarrow> accs \<Rightarrow> bool" where
  "accs_ok w P (s0, s1, s2, s3) = (lanes_ok w P s0 \<and> lanes_ok w P s1 \<and> lanes_ok w P s2 \<and> lanes_ok w P s3)"

lemma lanes_nth: "lanes_ok w P x \<longleftrightarrow> length x = w \<and> (\<forall>j<w. P (x ! j))"
  by (auto simp: lanes_ok_def all_set_conv_all_nth)

lemma vfma_lanes:
  assumes s: "lanes_ok w P s" and l: "length x = w" "length y = w"
    and t: "\<And>j. j < w \<Longrightarrow> term_closed P (x ! j) (y ! j)"
  shows "lanes_ok w P (vfma x y s)"
  using assms by (auto simp: lanes_nth vfma_def term_closed_def)

lemma vadd_lanes: "sum_closed P \<Longrightarrow> lanes_ok w P x \<Longrightarrow> lanes_ok w P y \<Longrightarrow> lanes_ok w P (vadd x y)"
  by (auto simp: lanes_nth vadd_def sum_closed_def)

lemma vload_nth [simp]: "i + w \<le> length a \<Longrightarrow> j < w \<Longrightarrow> vload w a i ! j = a ! (i + j)"
  by (simp add: vload_def)

lemma vload_length [simp]: "i + w \<le> length a \<Longrightarrow> length (vload w a i) = w"
  by (simp add: vload_def)

lemma vfma_l2_lanes:
  assumes n: "n \<le> length a" "n \<le> length b" "i + w \<le> n" and s: "lanes_ok w P s"
    and t: "\<And>i. i < n \<Longrightarrow> term_closed P (f32_sub (a ! i) (b ! i)) (f32_sub (a ! i) (b ! i))"
  shows "lanes_ok w P (vfma (vsub (vload w a i) (vload w b i)) (vsub (vload w a i) (vload w b i)) s)"
  using n t by (intro vfma_lanes [OF s]) (simp_all add: vsub_def)

lemma vfma_dot_lanes:
  assumes n: "n \<le> length a" "n \<le> length b" "i + w \<le> n" and s: "lanes_ok w P s"
    and t: "\<And>i. i < n \<Longrightarrow> term_closed P (a ! i) (b ! i)"
  shows "lanes_ok w P (vfma (vload w a i) (vload w b i) s)"
  using n t by (intro vfma_lanes [OF s]) simp_all

lemma vfma_square_sym: "vfma (vsub x y) (vsub x y) s = vfma (vsub y x) (vsub y x) s"
  by (rule nth_equalityI) (simp_all add: vfma_def vsub_def f32_fma_square min.commute)

lemma vfma_sym: "vfma x y s = vfma y x s"
  by (rule nth_equalityI) (simp_all add: vfma_def f32_fma_comm min.left_commute)

lemma simd_step_sym:
  "simd_l2_block w a b = simd_l2_block w b a" "simd_l2_single w a b = simd_l2_single w b a"
  "simd_dot_block w a b = simd_dot_block w b a" "simd_dot_single w a b = simd_dot_single w b a"
  by (intro ext; simp add: simd_l2_block_def simd_l2_single_def simd_dot_block_def
      simd_dot_single_def vfma_square_sym vfma_sym Let_def)+

lemma accs_ok_zero: "sum_closed P \<Longrightarrow> accs_ok w P (zero_accs w)"
  by (simp add: zero_accs_def lanes_ok_def sum_closed_def)

lemma simd_l2_ok:
  assumes n: "n \<le> length a" "n \<le> length b"
    and t: "\<And>i. i < n \<Longrightarrow> term_closed P (f32_sub (a ! i) (b ! i)) (f32_sub (a ! i) (b ! i))"
    and s: "accs_ok w P s"
  shows "accs_ok w P (snd (for_blocks i (4 * w) n (simd_l2_block w a b) s))"
    and "accs_ok w P (snd (for_blocks i w n (simd_l2_single w a b) s))"
proof -
  show "accs_ok w P (snd (for_blocks i (4 * w) n (simd_l2_block w a b) s))"
  proof (rule for_blocks_inv [where P = "accs_ok w P", OF s])
    fix i s assume "i + 4 * w \<le> n" "accs_ok w P s"
    then show "accs_ok w P (simd_l2_block w a b i s)"
      by (cases s) (simp add: simd_l2_block_def Let_def vfma_l2_lanes [OF n _ _ t])
  qed
  show "accs_ok w P (snd (for_blocks i w n (simd_l2_single w a b) s))"
  proof (rule for_blocks_inv [where P = "accs_ok w P", OF s])
    fix i s assume "i + w \<le> n" "accs_ok w P s"
    then show "accs_ok w P (simd_l2_single w a b i s)"
      by (cases s) (simp add: simd_l2_single_def Let_def vfma_l2_lanes [OF n _ _ t])
  qed
qed

lemma simd_dot_ok:
  assumes n: "n \<le> length a" "n \<le> length b"
    and t: "\<And>i. i < n \<Longrightarrow> term_closed P (a ! i) (b ! i)" and s: "accs_ok w P s"
  shows "accs_ok w P (snd (for_blocks i (4 * w) n (simd_dot_block w a b) s))"
    and "accs_ok w P (snd (for_blocks i w n (simd_dot_single w a b) s))"
proof -
  show "accs_ok w P (snd (for_blocks i (4 * w) n (simd_dot_block w a b) s))"
  proof (rule for_blocks_inv [where P = "accs_ok w P", OF s])
    fix i s assume "i + 4 * w \<le> n" "accs_ok w P s"
    then show "accs_ok w P (simd_dot_block w a b i s)"
      by (cases s) (simp add: simd_dot_block_def vfma_dot_lanes [OF n _ _ t])
  qed
  show "accs_ok w P (snd (for_blocks i w n (simd_dot_single w a b) s))"
  proof (rule for_blocks_inv [where P = "accs_ok w P", OF s])
    fix i s assume "i + w \<le> n" "accs_ok w P s"
    then show "accs_ok w P (simd_dot_single w a b i s)"
      by (cases s) (simp add: simd_dot_single_def vfma_dot_lanes [OF n _ _ t])
  qed
qed

lemma horizontal_sums:
  assumes P: "sum_closed P"
  shows "accs_ok 4 P s \<Longrightarrow> P (neon_horizontal_sum (combine_accs s))"
    and "accs_ok 8 P s \<Longrightarrow> P (avx2_horizontal_sum (combine_accs s))"
proof -
  have add: "\<And>x y. P x \<Longrightarrow> P y \<Longrightarrow> P (f32_add x y)" using P by (auto simp: sum_closed_def)
  have c: "lanes_ok w P (combine_accs s)" if "accs_ok w P s" for w
    using that by (cases s) (simp add: combine_accs_def vadd_lanes [OF P])
  show "P (neon_horizontal_sum (combine_accs s))" if "accs_ok 4 P s"
    using c [OF that] by (simp add: neon_horizontal_sum_def lanes_nth add)
  show "P (avx2_horizontal_sum (combine_accs s))" if "accs_ok 8 P s"
  proof -
    let ?v = "combine_accs s"
    let ?h = "vadd (take 4 ?v) (take 4 (drop 4 ?v))"
    have "lanes_ok 4 P (take 4 ?v)" "lanes_ok 4 P (take 4 (drop 4 ?v))"
      using c [OF that] unfolding lanes_ok_def by (auto dest: in_set_takeD in_set_dropD)
    then have h: "lanes_ok 4 P ?h" by (rule vadd_lanes [OF P])
    then have "lanes_ok 4 P [?h ! 2, ?h ! 3, ?h ! 2, ?h ! 3]" by (simp add: lanes_ok_def)
    then have "lanes_ok 4 P (vadd ?h [?h ! 2, ?h ! 3, ?h ! 2, ?h ! 3])" by (rule vadd_lanes [OF P h])
    then show ?thesis unfolding avx2_horizontal_sum_def Let_def lanes_ok_def by (intro add) simp_all
  qed
qed

lemma tail_loops:
  assumes P: "sum_closed P" and s: "P s"
  shows "(\<And>i. i < n \<Longrightarrow> term_closed P (f32_sub (a ! i) (b ! i)) (f32_sub (a ! i) (b ! i))) \<Longrightarrow>
      P (snd (for_below i n 1 (l2_tail_step a b) s))"
    and "(\<And>i. i < n \<Longrightarrow> term_closed P (a ! i) (b ! i)) \<Longrightarrow>
      P (snd (for_below i n 1 (dot_tail_step a b) s))"
proof -
  have add: "\<And>x y. P x \<Longrightarrow> P y \<Longrightarrow> P (f32_add x y)" using P by (auto simp: sum_closed_def)
  show "P (snd (for_below i n 1 (l2_tail_step a b) s))"
    if "\<And>i. i < n \<Longrightarrow> term_closed P (f32_sub (a ! i) (b ! i)) (f32_sub (a ! i) (b ! i))"
    using s by (rule conjunct1 [OF for_below_inv])
      (simp_all add: l2_tail_step_def Let_def add that [unfolded term_closed_def])
  show "P (snd (for_below i n 1 (dot_tail_step a b) s))"
    if "\<And>i. i < n \<Longrightarrow> term_closed P (a ! i) (b ! i)"
    using s by (rule conjunct1 [OF for_below_inv])
      (simp_all add: dot_tail_step_def add that [unfolded term_closed_def])
qed

lemma simd_l2_ind:
  assumes n: "n \<le> length a" "n \<le> length b" and P: "sum_closed P"
    and t: "\<And>i. i < n \<Longrightarrow> term_closed P (f32_sub (a ! i) (b ! i)) (f32_sub (a ! i) (b ! i))"
  shows "P (neon_l2_squared a b n)" and "P (avx2_l2_squared a b n)"
proof -
  have *: "accs_ok w P (snd (for_blocks j w n (simd_l2_single w a b)
      (snd (for_blocks i (4 * w) n (simd_l2_block w a b) (zero_accs w)))))" for w i j
    by (intro simd_l2_ok n t accs_ok_zero P)
  show "P (neon_l2_squared a b n)"
    using tail_loops(1) [OF P horizontal_sums(1) [OF P * [of 4]] t]
    by (simp add: neon_l2_squared_def Let_def case_prod_unfold)
  show "P (avx2_l2_squared a b n)"
    using tail_loops(1) [OF P horizontal_sums(2) [OF P * [of 8]] t]
    by (simp add: avx2_l2_squared_def Let_def case_prod_unfold)
qed

lemma simd_dot_ind:
  assumes n: "n \<le> length a" "n \<le> length b" and P: "sum_closed P"
    and t: "\<And>i. i < n \<Longrightarrow> term_closed P (a ! i) (b ! i)"
  shows "P (neon_dot a b n)" and "P (avx2_dot a b n)"
proof -
  have *: "accs_ok w P (snd (for_blocks j w n (simd_dot_single w a b)
      (snd (for_blocks i (4 * w) n (simd_dot_block w a b) (zero_accs w)))))" for w i j
    by (intro simd_dot_ok n t accs_ok_zero P)
  show "P (neon_dot a b n)"
    using tail_loops(2) [OF P horizontal_sums(1) [OF P * [of 4]] t]
    by (simp add: neon_dot_def Let_def case_prod_unfold)
  show "P (avx2_dot a b n)"
    using tail_loops(2) [OF P horizontal_sums(2) [OF P * [of 8]] t]
    by (simp add: avx2_dot_def Let_def case_prod_unfold)
qed

interpretation neon: kernel_laws neon_kernel
proof unfold_locales
  show "kn_l2_squared neon_kernel a b n = kn_l2_squared neon_kernel b a n" for a b n
    by (simp add: neon_kernel_def neon_l2_squared_def simd_step_sym(1,2) [of 4 a b] scalar_step_sym(3) [of a b])
  show "kn_dot neon_kernel a b n = kn_dot neon_kernel b a n" for a b n
    by (simp add: neon_kernel_def neon_dot_def simd_step_sym(3,4) [of 4 a b] scalar_step_sym(4) [of a b])
qed (simp_all add: neon_kernel_def neon_norm_squared_def simd_l2_ind simd_dot_ind)

interpretation avx2: kernel_laws avx2_kernel
proof unfold_locales
  show "kn_l2_squared avx2_kernel a b n = kn_l2_squared avx2_kernel b a n" for a b n
    by (simp add: avx2_kernel_def avx2_l2_squared_def simd_step_sym(1,2) [of 8 a b] scalar_step_sym(3) [of a b])
  show "kn_dot avx2_kernel a b n = kn_dot avx2_kernel b a n" for a b n
    by (simp add: avx2_kernel_def avx2_dot_def simd_step_sym(3,4) [of 8 a b] scalar_step_sym(4) [of a b])
qed (simp_all add: avx2_kernel_def avx2_norm_squared_def simd_l2_ind simd_dot_ind)

section \<open>The distance function\<close>

context kernel_laws
begin

lemma distance_sym: "length a = length b \<Longrightarrow> distance kn m a b = distance kn m b a"
  by (cases m)
    (simp_all add: distance_def Let_def l2_sym [of a b] dot_sym [of a b] cosine_rank_key_def f32_mul_comm)

lemma distance_with_norms:
  "length a = length b \<Longrightarrow>
   with_norms kn m a (f32_sqrt (kn_norm_squared kn a (length a))) b
     (f32_sqrt (kn_norm_squared kn b (length b))) = distance kn m a b"
  by (cases m) (simp_all add: distance_def with_norms_def Let_def)

lemma distance_l2_nonneg:
  "length a = length b \<Longrightarrow> is_finite_vec a \<Longrightarrow> is_finite_vec b \<Longrightarrow>
   is_nonnegv (f32_val (distance kn L2Squared a b))"
  by (simp add: distance_def l2_nonneg)

lemma distance_l2_self: "is_finite_vec a \<Longrightarrow> distance kn L2Squared a a = 0"
  by (simp add: distance_def l2_self)

lemma norms_nonneg: "is_finite_vec a \<Longrightarrow> is_nonnegv (f32_val (f32_sqrt (kn_norm_squared kn a (length a))))"
  by (simp add: fsqrt_nonneg norm_nonneg)

end

lemma registry_laws: "kn \<in> set (detect_kernels t) \<Longrightarrow> kernel_laws kn"
  by (auto simp: detect_kernels_def intro: scalar.kernel_laws_axioms neon.kernel_laws_axioms
      avx2.kernel_laws_axioms split: if_splits)

lemma active_kernel_mem: "active_kernel t \<in> set (detect_kernels t)"
  unfolding active_kernel_def by (rule last_in_set) (simp add: detect_kernels_def)

lemma kernel_names [simp]: "kn_name scalar_kernel = ''scalar''" "kn_name neon_kernel = ''neon''"
    "kn_name avx2_kernel = ''avx2''"
  by (simp_all add: scalar_kernel_def neon_kernel_def avx2_kernel_def)

lemma distinct_names: "distinct (map kn_name (detect_kernels t))"
  unfolding detect_kernels_def
  by (cases "tg_simd t"; cases "tg_arch t"; cases "cpu_supports_neon t"; cases "cpu_supports_avx2 t") simp_all

lemma find_kernel_iff:
  "distinct (map kn_name ks) \<Longrightarrow> find_kernel ks n = Some kn \<longleftrightarrow> kn \<in> set ks \<and> kn_name kn = n"
  by (induction ks) force+

text \<open>The cosine key of a finite dot product and a finite product of norms lies in \<open>[0, 2]\<close>.\<close>

lemma f32_val_consts [simp]: "f32_val f32_two = FFin False (2 ^ 150)"
    "f32_val f32_minus_one = FFin True (2 ^ 149)"
  by (simp_all add: f32_val_def fdec_def f32_two_def f32_minus_one_def)

lemma one_minus_unit:
  assumes "\<not> is_nanv x" and "\<not> flt (FFin False (2 ^ 149)) x" and "\<not> flt x (FFin True (2 ^ 149))"
  shows "\<exists>n. fsub binary32 (FFin False (2 ^ 149)) x = FFin False n \<and> n \<le> 2 ^ 150"
proof (cases x)
  case (FFin s n)
  have n: "n \<le> 2 ^ 149" using assms(2,3) FFin by (cases s) (auto simp: flt_code split: if_splits)
  show ?thesis
  proof (cases s)
    case True
    have "2 ^ 149 + n \<le> 2 ^ 150 * 1" using n by simp
    from fround_le_power [OF fmt_ok_std(1) _ this, of False] show ?thesis using FFin True by (simp add: fsub_def)
  next
    case False
    have "2 ^ 149 - n \<le> 2 ^ 150 * 1" by simp
    from fround_le_power [OF fmt_ok_std(1) _ this, of False] show ?thesis using FFin False n by (auto simp: fsub_def)
  qed
qed (use assms in \<open>auto simp: flt_code split: if_splits\<close>)

lemma fdiv_not_nan: "is_finv x \<Longrightarrow> is_finv y \<Longrightarrow> \<not> feq y (FFin False 0) \<Longrightarrow> \<not> is_nanv (fdiv F x y)"
  by (cases x; cases y) (auto simp: feq_code)

lemma cosine_rank_key_value:
  assumes "\<not> is_nanv (fdiv binary32 (f32_val dot) (fmul binary32 (f32_val na) (f32_val nb))) \<or>
    f32_le (f32_mul na nb) 0"
  shows "\<exists>n. f32_val (cosine_rank_key dot na nb) = FFin False n \<and> n \<le> 2 ^ 150"
  using assms one_minus_unit by (auto simp: cosine_rank_key_def Let_def f32_lt_def)

lemma in_unit_range:
  "f32_val k = FFin False n \<Longrightarrow> n \<le> 2 ^ 150 \<Longrightarrow> f32_le 0 k \<and> f32_le k f32_two"
  by (auto simp: f32_le_def fle_def flt_code feq_code)

section \<open>Properties\<close>

text \<open>Further: whichever kernel the CPU selects, on finite vectors of one length every rank key is symmetric
  bit for bit, agrees with the key computed from precomputed norms, and the squared L2 distance is
  never NaN, never negative, and zero from a vector to itself.\<close>

theorem distance_laws:
  assumes "kn \<in> set (detect_kernels t)" and "length a = length b"
    and "is_finite_vec a" and "is_finite_vec b"
  shows "distance kn m a b = distance kn m b a \<and>
    with_norms kn m a (f32_sqrt (kn_norm_squared kn a (length a))) b
      (f32_sqrt (kn_norm_squared kn b (length b))) = distance kn m a b \<and>
    \<not> f32_isnan (distance kn L2Squared a b) \<and> \<not> f32_lt (distance kn L2Squared a b) 0 \<and>
    distance kn L2Squared a a = 0"
proof (intro conjI)
  note laws = registry_laws [OF assms(1)]
  show "distance kn m a b = distance kn m b a"
    by (rule kernel_laws.distance_sym [OF laws assms(2)])
  show "with_norms kn m a (f32_sqrt (kn_norm_squared kn a (length a))) b
      (f32_sqrt (kn_norm_squared kn b (length b))) = distance kn m a b"
    by (rule kernel_laws.distance_with_norms [OF laws assms(2)])
  have "is_nonnegv (f32_val (distance kn L2Squared a b))"
    by (rule kernel_laws.distance_l2_nonneg [OF laws assms(2-4)])
  then show "\<not> f32_isnan (distance kn L2Squared a b)" "\<not> f32_lt (distance kn L2Squared a b) 0"
    by (cases "f32_val (distance kn L2Squared a b)"; simp add: f32_isnan_def f32_lt_def flt_code)+
  show "distance kn L2Squared a a = 0" by (rule kernel_laws.distance_l2_self [OF laws assms(3)])
qed

theorem distance_laws_witness:
  "distance neon_kernel L2Squared [0x3f800000, 0x7f7fffff] [0xff7fffff, 0x00000001] =
   distance neon_kernel L2Squared [0xff7fffff, 0x00000001] [0x3f800000, 0x7f7fffff]"
proof (rule distance_laws [THEN conjunct1])
  let ?t = "\<lparr>tg_arch = ARM64, tg_simd = True, tg_cpuid = \<lambda>_ _. \<lparr>eax = 0, ebx = 0, ecx = 0, edx = 0\<rparr>,
    tg_xcr0 = 0\<rparr>"
  show "neon_kernel \<in> set (detect_kernels ?t)" by (simp add: detect_kernels_def cpu_supports_neon_def)
qed (simp_all add: is_finite_vec_iff feval cong: let_weak_cong)

text \<open>Further: a cosine rank key is in \<open>[0, 2]\<close> whenever the dot product and the product of the norms are
  finite, a zero vector included, whatever rounding did to the quotient.\<close>

theorem cosine_key_range:
  assumes "f32_isfinite dot" and "f32_isfinite (f32_mul norm_a norm_b)"
  shows "f32_le 0 (cosine_rank_key dot norm_a norm_b) \<and> f32_le (cosine_rank_key dot norm_a norm_b) f32_two"
proof (cases "f32_le (f32_mul norm_a norm_b) 0")
  case True
  then show ?thesis using cosine_rank_key_value in_unit_range by blast
next
  case False
  then have "\<not> feq (fmul binary32 (f32_val norm_a) (f32_val norm_b)) (FFin False 0)"
    by (simp add: f32_le_def fle_def)
  then have "\<not> is_nanv (fdiv binary32 (f32_val dot) (fmul binary32 (f32_val norm_a) (f32_val norm_b)))"
    using assms by (intro fdiv_not_nan) (simp_all add: f32_isfinite_def)
  then show ?thesis using cosine_rank_key_value in_unit_range by blast
qed

theorem cosine_key_range_witness:
  "f32_le (cosine_rank_key 0x40400000 0x3f800000 0x40000000) f32_two"
  by (rule conjunct2 [OF cosine_key_range]) (simp_all add: feval cong: let_weak_cong)

text \<open>Further: finiteness of the stored components is not enough to keep NaN out of the keys: there are
  finite vectors whose inner-product key and whose cosine key are NaN, since a product overflows.\<close>

theorem finite_vectors_nan_key:
  "\<exists>a b. length a = length b \<and> is_finite_vec a \<and> is_finite_vec b \<and>
     f32_isnan (distance scalar_kernel InnerProduct a b) \<and> f32_isnan (distance scalar_kernel Cosine a b)"
proof (intro exI conjI)
  let ?a = "[0x7f7fffff, 0x7f7fffff] :: f32 list" and ?b = "[0x7f7fffff, 0xff7fffff] :: f32 list"
  show "length ?a = length ?b" by simp
  show "is_finite_vec ?a" "is_finite_vec ?b" by (simp_all add: is_finite_vec_iff feval cong: let_weak_cong)
  have m: "f32_mul 0x7f7fffff 0x7f7fffff = 0x7f800000" "f32_mul 0x7f7fffff 0xff7fffff = 0xff800000"
      "f32_add 0 0x7f800000 = 0x7f800000" "f32_add 0x7f800000 0xff800000 = 0x7fc00000"
      "f32_add 0 0 = 0" "f32_add 0 0x7fc00000 = 0x7fc00000" "f32_mul 0xff7fffff 0xff7fffff = 0x7f800000"
      "f32_add 0x7f800000 0x7f800000 = 0x7f800000" "f32_sqrt 0x7f800000 = 0x7f800000"
      "f32_mul 0x7f800000 0x7f800000 = 0x7f800000" "f32_le 0x7f800000 0 = False"
      "f32_isnan (f32_neg 0x7fc00000)" "f32_val 0x7fc00000 = FNaN"
    by (simp_all add: feval cong: let_weak_cong)
  have d: "scalar_dot ?a ?b (Suc (Suc 0)) = 0x7fc00000" "scalar_dot ?a ?a (Suc (Suc 0)) = 0x7f800000"
      "scalar_dot ?b ?b (Suc (Suc 0)) = 0x7f800000"
    by (simp_all add: scalar_dot_def for_below.simps dot_tail_step_def combine4_def m)
  show "f32_isnan (distance scalar_kernel InnerProduct ?a ?b)"
    by (simp add: distance_def scalar_kernel_def d m)
  show "f32_isnan (distance scalar_kernel Cosine ?a ?b)"
    by (simp add: distance_def scalar_kernel_def scalar_norm_squared_def d m cosine_rank_key_def
        f32_isnan_def f32_lt_def fsub_def)
qed

text \<open>Further: the registry always holds the scalar kernel, first; the active kernel is one of the listed
  ones; looking a listed kernel up by its name finds that kernel; and a name that is found is listed.\<close>

theorem registry_lookup:
  "hd (detect_kernels t) = scalar_kernel \<and> active_kernel t \<in> set (detect_kernels t) \<and>
   (kernel_by_name t n = Some kn) = (kn \<in> set (detect_kernels t) \<and> kn_name kn = n)"
proof (intro conjI)
  show "hd (detect_kernels t) = scalar_kernel" by (simp add: detect_kernels_def)
  show "active_kernel t \<in> set (detect_kernels t)" by (rule active_kernel_mem)
  show "(kernel_by_name t n = Some kn) = (kn \<in> set (detect_kernels t) \<and> kn_name kn = n)"
    unfolding kernel_by_name_def by (rule find_kernel_iff [OF distinct_names])
qed

end
