(* ===== verification/Vdb_Store.thy ===== *)
theory Vdb_Store
  imports Vdb_Vector
begin

text \<open>
  \<^verbatim>\<open>VectorStore\<close> (\<^verbatim>\<open>src/storage/vector_store.cpp\<close>): parallel arrays indexed by slot, a hash map from
  ids to live slots, tombstones for removed slots. The invariant ties them together; every operation
  keeps it and acts on the abstraction, a finite map from ids to stored vectors, as its name says. The
  interface its users rely on is the locale \<open>id_map\<close>.
\<close>

section \<open>State\<close>

record vector_store =
  vs_vectors :: vector_array
  vs_norms :: "f32 list"
  vs_live :: "u8 list"
  vs_local_to_id :: "vector_id list"
  vs_id_to_local :: "vector_id \<rightharpoonup> local_id"
  vs_live_count :: nat
  vs_normalize :: bool

definition vs_new :: "nat \<Rightarrow> bool \<Rightarrow> vector_store result" where
  "vs_new d nrm = rbind (va_new d) (\<lambda>vectors.
     Inr \<lparr>vs_vectors = vectors, vs_norms = [], vs_live = [], vs_local_to_id = [],
          vs_id_to_local = Map.empty, vs_live_count = 0, vs_normalize = nrm\<rparr>)"

definition vs_dimension :: "vector_store \<Rightarrow> nat" where
  "vs_dimension s = va_dimension (vs_vectors s)"

definition vs_slot_count :: "vector_store \<Rightarrow> nat" where
  "vs_slot_count s = va_count (vs_vectors s)"

section \<open>Operations\<close>

definition ensure_capacity_for_one :: "vector_store \<Rightarrow> unit result" where
  "ensure_capacity_for_one s = guard_throw (va_count (vs_vectors s) \<ge> kMaxVectorCount) InvalidArgumentError"

text \<open>Writing a row through the span of \<^verbatim>\<open>mutable_at\<close>.\<close>

definition va_put :: "vector_array \<Rightarrow> local_id \<Rightarrow> vec \<Rightarrow> vector_array" where
  "va_put a i v = a\<lparr>va_storage := overwrite (va_storage a) (va_offset_of a i) v\<rparr>"

text \<open>
  What \<^verbatim>\<open>insert\<close> and \<^verbatim>\<open>upsert\<close> do to a freshly written slot: normalise the row in place and record
  a nm of 0 or 1, or leave it and record its norm.
\<close>

definition vs_finish_row :: "bool \<Rightarrow> vector_array \<Rightarrow> local_id \<Rightarrow> (f32 \<times> vector_array) result" where
  "vs_finish_row nrm vectors i =
     (if nrm then
        rbind (va_at vectors i) (\<lambda>row.
          let (nm, row') = normalize_in_place row in
          Inr (if f32_eq nm 0 then 0 else f32_one, va_put vectors i row'))
      else Inr (l2_norm (va_view vectors i), vectors))"

definition vs_insert :: "vector_store \<Rightarrow> vector_id \<Rightarrow> vec \<Rightarrow> (local_id \<times> vector_store) result" where
  "vs_insert s vid v =
     (if vs_id_to_local s vid \<noteq> None then Inl (DuplicateIdError vid)
      else rbind (ensure_capacity_for_one s) (\<lambda>_.
        rbind (validate_vector v (vs_dimension s)) (\<lambda>_.
        rbind (va_push_back (vs_vectors s) v) (\<lambda>(i, vectors).
        rbind (vs_finish_row (vs_normalize s) vectors i) (\<lambda>(nm, vectors).
        Inr (i, s\<lparr>vs_vectors := vectors, vs_norms := vs_norms s @ [nm], vs_live := vs_live s @ [1],
                  vs_local_to_id := vs_local_to_id s @ [vid],
                  vs_id_to_local := (vs_id_to_local s)(vid \<mapsto> i),
                  vs_live_count := vs_live_count s + 1\<rparr>))))))"

definition vs_upsert :: "vector_store \<Rightarrow> vector_id \<Rightarrow> vec \<Rightarrow> (local_id \<times> vector_store) result" where
  "vs_upsert s vid v =
     (case vs_id_to_local s vid of
        None \<Rightarrow> vs_insert s vid v
      | Some i \<Rightarrow>
          rbind (validate_vector v (vs_dimension s)) (\<lambda>_.
          rbind (va_assign (vs_vectors s) i v) (\<lambda>vectors.
          rbind (vs_finish_row (vs_normalize s) vectors i) (\<lambda>(nm, vectors).
          Inr (i, s\<lparr>vs_vectors := vectors, vs_norms := (vs_norms s)[i := nm]\<rparr>)))))"

definition vs_remove :: "vector_store \<Rightarrow> vector_id \<Rightarrow> bool \<times> vector_store" where
  "vs_remove s vid =
     (case vs_id_to_local s vid of
        None \<Rightarrow> (False, s)
      | Some i \<Rightarrow>
          (True, s\<lparr>vs_live := (vs_live s)[i := 0],
                   vs_id_to_local := (vs_id_to_local s)(vid := None),
                   vs_live_count := vs_live_count s - 1\<rparr>))"

definition vs_find :: "vector_store \<Rightarrow> vector_id \<Rightarrow> local_id option" where
  "vs_find s vid = vs_id_to_local s vid"

definition vs_contains :: "vector_store \<Rightarrow> vector_id \<Rightarrow> bool" where
  "vs_contains s vid = (vs_find s vid \<noteq> None)"

definition vs_vector_id :: "vector_store \<Rightarrow> local_id \<Rightarrow> vector_id result" where
  "vs_vector_id s i =
     (if i \<ge> length (vs_local_to_id s) then Inl InvalidArgumentError else Inr (vs_local_to_id s ! i))"

definition vs_get :: "vector_store \<Rightarrow> vector_id \<Rightarrow> vec result" where
  "vs_get s vid = (case vs_find s vid of None \<Rightarrow> Inl NotFoundError | Some i \<Rightarrow> Inr (va_view (vs_vectors s) i))"

definition vs_is_live :: "vector_store \<Rightarrow> local_id \<Rightarrow> bool" where
  "vs_is_live s i = (vs_live s ! i \<noteq> 0)"

definition vs_tombstone_count :: "vector_store \<Rightarrow> nat" where
  "vs_tombstone_count s = vs_slot_count s - vs_live_count s"

definition vs_tombstone_ratio :: "vector_store \<Rightarrow> f64" where
  "vs_tombstone_ratio s =
     (if va_count (vs_vectors s) = 0 then 0
      else f64_div (f64_of_int (int (vs_tombstone_count s))) (f64_of_int (int (vs_slot_count s))))"

definition vs_clear :: "vector_store \<Rightarrow> vector_store" where
  "vs_clear s = s\<lparr>vs_vectors := va_clear (vs_vectors s), vs_norms := [], vs_live := [],
     vs_local_to_id := [], vs_id_to_local := Map.empty, vs_live_count := 0\<rparr>"

text \<open>\<^verbatim>\<open>emplace\<close> leaves an entry that is already there as it is.\<close>

definition vs_append_trusted ::
    "vector_store \<Rightarrow> vector_id \<Rightarrow> vec \<Rightarrow> f32 \<Rightarrow> bool \<Rightarrow> (local_id \<times> vector_store) result" where
  "vs_append_trusted s vid v nm live =
     rbind (ensure_capacity_for_one s) (\<lambda>_.
     rbind (va_push_back (vs_vectors s) v) (\<lambda>(i, vectors).
       let s = s\<lparr>vs_vectors := vectors, vs_norms := vs_norms s @ [nm],
                 vs_live := vs_live s @ [if live then 1 else 0],
                 vs_local_to_id := vs_local_to_id s @ [vid]\<rparr> in
       Inr (i, if live then
                 s\<lparr>vs_id_to_local := (case vs_id_to_local s vid of
                       None \<Rightarrow> (vs_id_to_local s)(vid \<mapsto> i) | Some _ \<Rightarrow> vs_id_to_local s),
                   vs_live_count := vs_live_count s + 1\<rparr>
               else s)))"

text \<open>\<^verbatim>\<open>VectorAccessor\<close>: the read-only view an index is given.\<close>

record accessor =
  ac_vectors :: vector_array
  ac_norms :: "f32 list"
  ac_live :: "u8 list"

definition vs_accessor :: "vector_store \<Rightarrow> accessor" where
  "vs_accessor s = \<lparr>ac_vectors = vs_vectors s, ac_norms = vs_norms s, ac_live = vs_live s\<rparr>"

definition ac_vector :: "accessor \<Rightarrow> local_id \<Rightarrow> vec" where
  "ac_vector ac i = va_view (ac_vectors ac) i"

definition ac_norm :: "accessor \<Rightarrow> local_id \<Rightarrow> f32" where
  "ac_norm ac i = ac_norms ac ! i"

definition ac_is_live :: "accessor \<Rightarrow> local_id \<Rightarrow> bool" where
  "ac_is_live ac i = (ac_live ac ! i \<noteq> 0)"

definition ac_size :: "accessor \<Rightarrow> nat" where
  "ac_size ac = va_count (ac_vectors ac)"

definition ac_dimension :: "accessor \<Rightarrow> nat" where
  "ac_dimension ac = va_dimension (ac_vectors ac)"

section \<open>The invariant\<close>

definition live_slots :: "vector_store \<Rightarrow> nat set" where
  "live_slots s = {i. i < vs_slot_count s \<and> vs_is_live s i}"

definition vs_inv :: "vector_store \<Rightarrow> bool" where
  "vs_inv s \<longleftrightarrow> va_inv (vs_vectors s) \<and>
     length (vs_norms s) = vs_slot_count s \<and> length (vs_live s) = vs_slot_count s \<and>
     length (vs_local_to_id s) = vs_slot_count s \<and> set (vs_live s) \<subseteq> {0, 1} \<and>
     (\<forall>vid i. vs_id_to_local s vid = Some i \<longleftrightarrow> i \<in> live_slots s \<and> vs_local_to_id s ! i = vid) \<and>
     vs_live_count s = card (live_slots s)"

text \<open>The abstraction: what is stored under an id.\<close>

definition vs_abs :: "vector_store \<Rightarrow> vector_id \<rightharpoonup> vec \<times> f32" where
  "vs_abs s vid = map_option (\<lambda>i. (va_view (vs_vectors s) i, vs_norms s ! i)) (vs_id_to_local s vid)"

text \<open>What an accepted vector is stored as.\<close>

definition stored_row :: "bool \<Rightarrow> vec \<Rightarrow> vec \<times> f32" where
  "stored_row nrm v =
     (if nrm then (snd (normalize_in_place v), if f32_eq (fst (normalize_in_place v)) 0 then 0 else f32_one)
      else (v, l2_norm v))"

section \<open>Every operation keeps the invariant and refines the map\<close>

lemma length_normalized [simp]: "length (snd (normalize_in_place v)) = length v"
  by (simp add: normalize_in_place_def Let_def)

lemma length_stored_row [simp]: "length (fst (stored_row nrm v)) = length v"
  by (simp add: stored_row_def)

lemma va_put_assign:
  "i < va_count a \<Longrightarrow> length v = va_dimension a \<Longrightarrow> va_assign a i v = Inr (va_put a i v)"
  by (simp add: va_assign_def va_put_def)

lemma vs_finish_row_ok:
  assumes inv: "va_inv a" and i: "i < va_count a"
  shows "\<exists>a'. vs_finish_row nrm a i = Inr (snd (stored_row nrm (va_rows a ! i)), a') \<and> va_inv a' \<and>
    va_dimension a' = va_dimension a \<and> va_rows a' = (va_rows a)[i := fst (stored_row nrm (va_rows a ! i))]"
proof (cases nrm)
  case True
  have "va_assign a i (snd (normalize_in_place (va_view a i))) =
      Inr (va_put a i (snd (normalize_in_place (va_view a i))))"
    using inv i by (intro va_put_assign) simp_all
  from va_assign_ok [OF inv this] show ?thesis
    using True i by (simp add: vs_finish_row_def va_at_def case_prod_unfold stored_row_def Let_def)
next
  case False
  have "(va_rows a)[i := va_view a i] = va_rows a" using i by (metis list_update_id nth_va_rows)
  then show ?thesis using False inv i by (simp add: vs_finish_row_def stored_row_def)
qed

lemma vs_abs_rows:
  "vs_inv s \<Longrightarrow> vs_abs s vid =
     map_option (\<lambda>i. (va_rows (vs_vectors s) ! i, vs_norms s ! i)) (vs_id_to_local s vid)"
proof -
  assume "vs_inv s"
  then have "i < va_count (vs_vectors s)" if "vs_id_to_local s vid = Some i" for i
    using that by (auto simp: vs_inv_def live_slots_def vs_slot_count_def)
  then show ?thesis by (cases "vs_id_to_local s vid") (auto simp: vs_abs_def)
qed

lemma va_count_rows: "va_rows a = xs \<Longrightarrow> va_count a = length xs"
  by (metis length_va_rows)

text \<open>A new slot at the end.\<close>

lemma vs_new_slot:
  assumes inv: "vs_inv s" and a: "va_inv a" and rows: "va_rows a = va_rows (vs_vectors s) @ [r]"
    and fresh: "live \<Longrightarrow> vs_id_to_local s vid = None"
    and s': "s' = s\<lparr>vs_vectors := a, vs_norms := vs_norms s @ [nm],
      vs_live := vs_live s @ [if live then 1 else 0], vs_local_to_id := vs_local_to_id s @ [vid],
      vs_id_to_local := (if live then (vs_id_to_local s)(vid \<mapsto> vs_slot_count s) else vs_id_to_local s),
      vs_live_count := vs_live_count s + (if live then 1 else 0)\<rparr>"
  shows "vs_inv s'" and "vs_abs s' = (if live then (vs_abs s)(vid \<mapsto> (r, nm)) else vs_abs s)"
    and "live_slots s' = (if live then insert (vs_slot_count s) (live_slots s) else live_slots s)"
    and "vs_slot_count s' = Suc (vs_slot_count s)"
proof -
  let ?n = "vs_slot_count s"
  have len: "length (vs_norms s) = ?n" "length (vs_live s) = ?n" "length (vs_local_to_id s) = ?n"
    and map: "\<And>vid i. vs_id_to_local s vid = Some i \<longleftrightarrow> i \<in> live_slots s \<and> vs_local_to_id s ! i = vid"
    and lc: "vs_live_count s = card (live_slots s)" and bits: "set (vs_live s) \<subseteq> {0, 1}"
    using inv by (auto simp: vs_inv_def)
  have cnt: "va_count a = Suc ?n" using va_count_rows [OF rows] by (simp add: vs_slot_count_def)
  show n': "vs_slot_count s' = Suc ?n" using cnt by (simp add: s' vs_slot_count_def)
  show live': "live_slots s' = (if live then insert ?n (live_slots s) else live_slots s)"
    unfolding live_slots_def n' using len
    by (auto simp: s' vs_is_live_def nth_append less_Suc_eq split: if_splits)
  have lt: "i < ?n" if "i \<in> live_slots s" for i using that by (simp add: live_slots_def)
  have fin: "finite (live_slots s)" unfolding live_slots_def by simp
  have "vs_id_to_local s' vid' = Some i \<longleftrightarrow> i \<in> live_slots s' \<and> vs_local_to_id s' ! i = vid'" for vid' i
  proof (cases "live \<and> i = ?n")
    case True
    then have "vs_id_to_local s vid' \<noteq> Some ?n" using lt map by blast
    moreover have "(vs_local_to_id s @ [vid]) ! ?n = vid" using len by (simp add: nth_append)
    ultimately show ?thesis using True len live' by (auto simp: s')
  next
    case False
    have "vs_id_to_local s' vid' = Some i \<longleftrightarrow> vs_id_to_local s vid' = Some i"
      using False fresh by (auto simp: s')
    also have "\<dots> \<longleftrightarrow> i \<in> live_slots s \<and> vs_local_to_id s ! i = vid'" by (rule map)
    also have "\<dots> \<longleftrightarrow> i \<in> live_slots s' \<and> vs_local_to_id s' ! i = vid'"
      using False lt len live' by (auto simp: s' nth_append)
    finally show ?thesis .
  qed
  moreover have "?n \<notin> live_slots s" using lt by blast
  then have "vs_live_count s' = card (live_slots s')"
    using lc fin unfolding live' by (simp add: s')
  ultimately show "vs_inv s'"
    using a len n' bits by (simp add: vs_inv_def s')
  then have abs': "vs_abs s' vid' = map_option (\<lambda>i. (va_rows (vs_vectors s') ! i, vs_norms s' ! i))
      (vs_id_to_local s' vid')" for vid' by (rule vs_abs_rows)
  show "vs_abs s' = (if live then (vs_abs s)(vid \<mapsto> (r, nm)) else vs_abs s)"
  proof
    fix vid'
    have old: "map_option (\<lambda>i. (va_rows a ! i, (vs_norms s @ [nm]) ! i)) (vs_id_to_local s vid') = vs_abs s vid'"
      unfolding vs_abs_rows [OF inv]
    proof (rule option.map_cong [OF refl])
      fix i assume "i \<in> set_option (vs_id_to_local s vid')"
      then have "i < ?n" using map lt by simp
      then show "(va_rows a ! i, (vs_norms s @ [nm]) ! i) = (va_rows (vs_vectors s) ! i, vs_norms s ! i)"
        using len rows by (simp add: nth_append vs_slot_count_def)
    qed
    have new: "va_rows a ! ?n = r" "(vs_norms s @ [nm]) ! ?n = nm"
      using rows len by (simp_all add: vs_slot_count_def nth_append)
    show "vs_abs s' vid' = (if live then (vs_abs s)(vid \<mapsto> (r, nm)) else vs_abs s) vid'"
      using abs' [of vid'] old new by (auto simp: s')
  qed
qed

text \<open>A live slot rewritten in place.\<close>

lemma vs_rewrite_slot:
  assumes inv: "vs_inv s" and a: "va_inv a" and rows: "va_rows a = (va_rows (vs_vectors s))[i := r]"
    and i: "vs_id_to_local s vid = Some i"
    and s': "s' = s\<lparr>vs_vectors := a, vs_norms := (vs_norms s)[i := nm]\<rparr>"
  shows "vs_inv s'" and "vs_abs s' = (vs_abs s)(vid \<mapsto> (r, nm))"
    and "live_slots s' = live_slots s" and "vs_slot_count s' = vs_slot_count s"
proof -
  have cnt: "va_count a = vs_slot_count s" using va_count_rows [OF rows] by (simp add: vs_slot_count_def)
  show n': "vs_slot_count s' = vs_slot_count s" using cnt by (simp add: s' vs_slot_count_def)
  show live': "live_slots s' = live_slots s"
    unfolding live_slots_def n' by (simp add: s' vs_is_live_def)
  show inv': "vs_inv s'" using inv a unfolding vs_inv_def live' n' by (simp add: s')
  have lt: "i < vs_slot_count s" using inv i by (auto simp: vs_inv_def live_slots_def)
  have len: "length (vs_norms s) = vs_slot_count s" using inv by (simp add: vs_inv_def)
  have uniq: "vid' = vid" if "vs_id_to_local s vid' = Some i" for vid'
  proof -
    have m: "\<forall>vid i. vs_id_to_local s vid = Some i \<longleftrightarrow> i \<in> live_slots s \<and> vs_local_to_id s ! i = vid"
      using inv by (simp add: vs_inv_def)
    have "vs_local_to_id s ! i = vid" using m i by blast
    moreover have "vs_local_to_id s ! i = vid'" using m that by blast
    ultimately show ?thesis by simp
  qed
  show "vs_abs s' = (vs_abs s)(vid \<mapsto> (r, nm))"
  proof
    fix vid'
    show "vs_abs s' vid' = ((vs_abs s)(vid \<mapsto> (r, nm))) vid'"
    proof (cases "vid' = vid")
      case True
      then show ?thesis unfolding vs_abs_rows [OF inv'] using i lt len rows
        by (simp add: s' vs_slot_count_def)
    next
      case False
      then have "vs_id_to_local s vid' \<noteq> Some i" using uniq by blast
      then show ?thesis using False rows unfolding vs_abs_rows [OF inv'] fun_upd_other [OF False] vs_abs_rows [OF inv]
        by (cases "vs_id_to_local s vid'") (simp_all add: s')
    qed
  qed
qed

lemma vs_insert_ok:
  assumes inv: "vs_inv s" and r: "vs_insert s vid v = Inr (i, s')"
  shows "vs_inv s'" and "vs_abs s' = (vs_abs s)(vid \<mapsto> stored_row (vs_normalize s) v)"
    and "vs_abs s vid = None" and "i = vs_slot_count s" and "i < kMaxVectorCount"
    and "live_slots s' = insert i (live_slots s)" and "vs_slot_count s' = Suc i"
    and "vs_normalize s' = vs_normalize s" and "vs_dimension s' = vs_dimension s"
    and "validate_vector v (vs_dimension s) = Inr ()"
proof -
  have va: "va_inv (vs_vectors s)" using inv by (simp add: vs_inv_def)
  obtain a where fresh: "vs_id_to_local s vid = None"
    and ok: "validate_vector v (vs_dimension s) = Inr ()"
    and push: "va_push_back (vs_vectors s) v = Inr (i, a)"
    using r by (auto simp: vs_insert_def result_simps split: if_splits)
  note p = va_push_back_ok [OF va push]
  have row: "va_rows a ! i = v" and ilt: "i < va_count a" and n: "i = vs_slot_count s"
    using p va_count_rows [OF p(2)] by (simp_all add: nth_append vs_slot_count_def)
  obtain b where fin: "vs_finish_row (vs_normalize s) a i = Inr (snd (stored_row (vs_normalize s) v), b)"
    and b: "va_inv b" "va_dimension b = va_dimension a"
      "va_rows b = (va_rows a)[i := fst (stored_row (vs_normalize s) v)]"
    using vs_finish_row_ok [OF p(1) ilt, of "vs_normalize s"] unfolding row by blast
  have rows: "va_rows b = va_rows (vs_vectors s) @ [fst (stored_row (vs_normalize s) v)]"
    using b(3) p(2,3) by (simp add: list_update_append)
  have s': "s' = s\<lparr>vs_vectors := b, vs_norms := vs_norms s @ [snd (stored_row (vs_normalize s) v)],
      vs_live := vs_live s @ [if True then 1 else 0], vs_local_to_id := vs_local_to_id s @ [vid],
      vs_id_to_local := (if True then (vs_id_to_local s)(vid \<mapsto> vs_slot_count s) else vs_id_to_local s),
      vs_live_count := vs_live_count s + (if True then 1 else 0)\<rparr>"
    using r fresh push fin n by (auto simp: vs_insert_def result_simps)
  note new = vs_new_slot [OF inv b(1) rows fresh s']
  show "vs_inv s'" "i = vs_slot_count s" "i < kMaxVectorCount" by (fact new n p(6))+
  show "vs_abs s' = (vs_abs s)(vid \<mapsto> stored_row (vs_normalize s) v)"
    "live_slots s' = insert i (live_slots s)" "vs_slot_count s' = Suc i"
    using new n by simp_all
  show "vs_abs s vid = None" using fresh by (simp add: vs_abs_def)
  show "validate_vector v (vs_dimension s) = Inr ()" by (rule ok)
  show "vs_normalize s' = vs_normalize s" "vs_dimension s' = vs_dimension s"
    using p b by (simp_all add: s' vs_dimension_def)
qed

lemma vs_insert_total:
  assumes inv: "vs_inv s" and "vs_id_to_local s vid = None" and "vs_slot_count s < kMaxVectorCount"
    and "validate_vector v (vs_dimension s) = Inr ()"
  shows "\<exists>r. vs_insert s vid v = Inr r"
proof -
  have va: "va_inv (vs_vectors s)" using inv by (simp add: vs_inv_def)
  obtain i a where push: "va_push_back (vs_vectors s) v = Inr (i, a)"
    using assms(3,4) by (auto simp: va_push_back_def validate_ok_iff vs_dimension_def vs_slot_count_def)
  note p = va_push_back_ok [OF va push]
  have "i < va_count a" using p va_count_rows [OF p(2)] by simp
  from vs_finish_row_ok [OF p(1) this, of "vs_normalize s"] show ?thesis
    using assms push by (auto simp: vs_insert_def ensure_capacity_for_one_def vs_slot_count_def guard_throw_def)
qed

lemma vs_upsert_existing:
  assumes inv: "vs_inv s" and i: "vs_id_to_local s vid = Some i" and r: "vs_upsert s vid v = Inr (j, s')"
  shows "vs_inv s'" and "vs_abs s' = (vs_abs s)(vid \<mapsto> stored_row (vs_normalize s) v)"
    and "j = i" and "live_slots s' = live_slots s" and "vs_slot_count s' = vs_slot_count s"
    and "vs_normalize s' = vs_normalize s" and "vs_dimension s' = vs_dimension s"
    and "validate_vector v (vs_dimension s) = Inr ()"
proof -
  have va: "va_inv (vs_vectors s)" using inv by (simp add: vs_inv_def)
  obtain a where put: "va_assign (vs_vectors s) i v = Inr a"
    and ok: "validate_vector v (vs_dimension s) = Inr ()"
    using r i by (auto simp: vs_upsert_def result_simps)
  note p = va_assign_ok [OF va put]
  have row: "va_rows a ! i = v" and ilt: "i < va_count a" using p by simp_all
  obtain b where fin: "vs_finish_row (vs_normalize s) a i = Inr (snd (stored_row (vs_normalize s) v), b)"
    and b: "va_inv b" "va_dimension b = va_dimension a"
      "va_rows b = (va_rows a)[i := fst (stored_row (vs_normalize s) v)]"
    using vs_finish_row_ok [OF p(1) ilt, of "vs_normalize s"] unfolding row by blast
  have rows: "va_rows b = (va_rows (vs_vectors s))[i := fst (stored_row (vs_normalize s) v)]"
    using b(3) p(2) by simp
  have s': "s' = s\<lparr>vs_vectors := b, vs_norms := (vs_norms s)[i := snd (stored_row (vs_normalize s) v)]\<rparr>"
    and j: "j = i"
    using r i put fin by (auto simp: vs_upsert_def result_simps)
  note new = vs_rewrite_slot [OF inv b(1) rows i s']
  show "vs_inv s'" "j = i" "live_slots s' = live_slots s" "vs_slot_count s' = vs_slot_count s"
    by (fact new j)+
  show "vs_abs s' = (vs_abs s)(vid \<mapsto> stored_row (vs_normalize s) v)" using new(2) by simp
  show "validate_vector v (vs_dimension s) = Inr ()" by (rule ok)
  show "vs_normalize s' = vs_normalize s" "vs_dimension s' = vs_dimension s"
    using p b by (simp_all add: s' vs_dimension_def)
qed

lemma vs_upsert_ok:
  assumes inv: "vs_inv s" and r: "vs_upsert s vid v = Inr (i, s')"
  shows "vs_inv s'" and "vs_abs s' = (vs_abs s)(vid \<mapsto> stored_row (vs_normalize s) v)"
    and "vs_normalize s' = vs_normalize s" and "vs_dimension s' = vs_dimension s"
    and "vs_id_to_local s' vid = Some i"
proof -
  have "vs_inv s' \<and> vs_abs s' = (vs_abs s)(vid \<mapsto> stored_row (vs_normalize s) v) \<and>
    vs_normalize s' = vs_normalize s \<and> vs_dimension s' = vs_dimension s \<and> vs_id_to_local s' vid = Some i"
  proof (cases "vs_id_to_local s vid")
    case None
    then have ins: "vs_insert s vid v = Inr (i, s')" using r by (simp add: vs_upsert_def)
    moreover have "vs_id_to_local s' vid = Some i"
      using ins by (auto simp: vs_insert_def result_simps split: if_splits)
    ultimately show ?thesis using vs_insert_ok [OF inv ins] by simp
  next
    case (Some j)
    moreover have "vs_id_to_local s' vid = Some j"
      using r Some by (auto simp: vs_upsert_def result_simps)
    ultimately show ?thesis using vs_upsert_existing [OF inv Some r] by simp
  qed
  then show "vs_inv s'" "vs_abs s' = (vs_abs s)(vid \<mapsto> stored_row (vs_normalize s) v)"
    "vs_normalize s' = vs_normalize s" "vs_dimension s' = vs_dimension s" "vs_id_to_local s' vid = Some i"
    by simp_all
qed

lemma vs_remove_ok:
  assumes inv: "vs_inv s" and r: "vs_remove s vid = (b, s')"
  shows "vs_inv s'" and "vs_abs s' = (vs_abs s)(vid := None)" and "b = (vs_abs s vid \<noteq> None)"
    and "vs_normalize s' = vs_normalize s" and "vs_dimension s' = vs_dimension s"
    and "vs_slot_count s' = vs_slot_count s"
proof -
  have map: "\<And>vid i. vs_id_to_local s vid = Some i \<longleftrightarrow> i \<in> live_slots s \<and> vs_local_to_id s ! i = vid"
    and lc: "vs_live_count s = card (live_slots s)" and len: "length (vs_live s) = vs_slot_count s"
    using inv by (auto simp: vs_inv_def)
  have "vs_inv s' \<and> vs_abs s' = (vs_abs s)(vid := None) \<and> b = (vs_abs s vid \<noteq> None) \<and>
    vs_normalize s' = vs_normalize s \<and> vs_dimension s' = vs_dimension s \<and> vs_slot_count s' = vs_slot_count s"
  proof (cases "vs_id_to_local s vid")
    case None
    then have "vs_abs s vid = None" by (simp add: vs_abs_def)
    then have "(vs_abs s)(vid := None) = vs_abs s" by (rule fun_upd_idem)
    then show ?thesis using r None inv \<open>vs_abs s vid = None\<close> by (simp add: vs_remove_def)
  next
    case (Some i)
    have s': "s' = s\<lparr>vs_live := (vs_live s)[i := 0], vs_id_to_local := (vs_id_to_local s)(vid := None),
        vs_live_count := vs_live_count s - 1\<rparr>" and b: "b"
      using r Some by (simp_all add: vs_remove_def)
    have i: "i \<in> live_slots s" "vs_local_to_id s ! i = vid" using map Some by auto
    have live': "live_slots s' = live_slots s - {i}"
      using len i(1) by (auto simp: live_slots_def s' vs_slot_count_def vs_is_live_def nth_list_update split: if_splits)
    have "vs_id_to_local s' w = Some j \<longleftrightarrow> j \<in> live_slots s' \<and> vs_local_to_id s' ! j = w" for w j
      using map [of w j] map [of vid j] i Some unfolding live' by (auto simp: s')
    moreover have "finite (live_slots s)" unfolding live_slots_def by simp
    then have "vs_live_count s' = card (live_slots s')" using i lc unfolding live' by (simp add: s')
    moreover have "set ((vs_live s)[i := 0]) \<subseteq> {0, 1}"
      using inv set_update_subset_insert [of "vs_live s" i 0] by (auto simp: vs_inv_def)
    ultimately have "vs_inv s'" using inv by (simp add: vs_inv_def s' vs_slot_count_def)
    moreover have "vs_abs s' = (vs_abs s)(vid := None)" by (auto simp: vs_abs_def s')
    ultimately show ?thesis using b Some by (simp add: s' vs_abs_def vs_dimension_def vs_slot_count_def)
  qed
  then show "vs_inv s'" "vs_abs s' = (vs_abs s)(vid := None)" "b = (vs_abs s vid \<noteq> None)"
    "vs_normalize s' = vs_normalize s" "vs_dimension s' = vs_dimension s"
    "vs_slot_count s' = vs_slot_count s" by simp_all
qed

lemma vs_append_trusted_ok:
  assumes inv: "vs_inv s" and r: "vs_append_trusted s vid v nm live = Inr (i, s')"
    and fresh: "live \<Longrightarrow> vs_abs s vid = None"
  shows "vs_inv s'" and "vs_abs s' = (if live then (vs_abs s)(vid \<mapsto> (v, nm)) else vs_abs s)"
    and "i = vs_slot_count s" and "vs_normalize s' = vs_normalize s" and "vs_dimension s' = vs_dimension s"
    and "vs_slot_count s' = Suc i"
proof -
  have va: "va_inv (vs_vectors s)" using inv by (simp add: vs_inv_def)
  obtain a where push: "va_push_back (vs_vectors s) v = Inr (i, a)"
    using r by (auto simp: vs_append_trusted_def result_simps Let_def split: prod.splits)
  note p = va_push_back_ok [OF va push]
  have f: "live \<Longrightarrow> vs_id_to_local s vid = None" using fresh by (simp add: vs_abs_def)
  have n: "i = vs_slot_count s" using p by (simp add: vs_slot_count_def)
  have s': "s' = s\<lparr>vs_vectors := a, vs_norms := vs_norms s @ [nm],
      vs_live := vs_live s @ [if live then 1 else 0], vs_local_to_id := vs_local_to_id s @ [vid],
      vs_id_to_local := (if live then (vs_id_to_local s)(vid \<mapsto> vs_slot_count s) else vs_id_to_local s),
      vs_live_count := vs_live_count s + (if live then 1 else 0)\<rparr>"
    using r push f n by (auto simp: vs_append_trusted_def result_simps Let_def split: if_splits)
  note new = vs_new_slot [OF inv p(1,2) f s']
  show "vs_inv s'" "vs_abs s' = (if live then (vs_abs s)(vid \<mapsto> (v, nm)) else vs_abs s)"
    "i = vs_slot_count s" "vs_slot_count s' = Suc i" using new n by simp_all
  show "vs_normalize s' = vs_normalize s" "vs_dimension s' = vs_dimension s"
    using p by (simp_all add: s' vs_dimension_def)
qed

lemma vs_new_ok:
  assumes "vs_new d nrm = Inr s"
  shows "vs_inv s \<and> vs_abs s = Map.empty \<and> vs_dimension s = d \<and> vs_normalize s = nrm"
proof -
  obtain a where a: "va_new d = Inr a"
    and s: "s = \<lparr>vs_vectors = a, vs_norms = [], vs_live = [], vs_local_to_id = [],
          vs_id_to_local = Map.empty, vs_live_count = 0, vs_normalize = nrm\<rparr>"
    using assms by (auto simp: vs_new_def result_simps)
  have "va_count a = 0" using a by (auto simp: va_new_def split: if_splits)
  then show ?thesis using va_new_inv [OF a]
    by (simp add: s vs_inv_def vs_abs_def live_slots_def vs_slot_count_def vs_dimension_def fun_eq_iff)
qed

lemma vs_clear_ok: "vs_inv s \<Longrightarrow> vs_inv (vs_clear s) \<and> vs_abs (vs_clear s) = Map.empty"
  using va_clear_inv [of "vs_vectors s"]
  by (auto simp: vs_clear_def vs_inv_def vs_abs_def live_slots_def vs_slot_count_def va_clear_def)

lemma vs_upsert_total:
  assumes inv: "vs_inv s" and i: "vs_id_to_local s vid = Some i"
    and v: "validate_vector v (vs_dimension s) = Inr ()"
  shows "\<exists>r. vs_upsert s vid v = Inr r"
proof -
  have va: "va_inv (vs_vectors s)" and lt: "i < vs_slot_count s"
    using inv i by (auto simp: vs_inv_def live_slots_def)
  obtain a where put: "va_assign (vs_vectors s) i v = Inr a"
    using lt v by (auto simp: va_assign_def validate_ok_iff vs_dimension_def vs_slot_count_def)
  note p = va_assign_ok [OF va put]
  have "i < va_count a" using p by simp
  from vs_finish_row_ok [OF p(1) this, of "vs_normalize s"] show ?thesis
    using v i put by (auto simp: vs_upsert_def)
qed

section \<open>The interface of an id-to-vector store\<close>

locale id_map =
  fixes inv :: "'s \<Rightarrow> bool" and abs :: "'s \<Rightarrow> vector_id \<Rightarrow> 'v option" and room :: "'s \<Rightarrow> nat"
    and valid :: "'s \<Rightarrow> vec \<Rightarrow> bool" and stored :: "'s \<Rightarrow> vec \<Rightarrow> 'v"
    and ins :: "'s \<Rightarrow> vector_id \<Rightarrow> vec \<Rightarrow> (local_id \<times> 's) result"
    and ups :: "'s \<Rightarrow> vector_id \<Rightarrow> vec \<Rightarrow> (local_id \<times> 's) result"
    and rem :: "'s \<Rightarrow> vector_id \<Rightarrow> bool \<times> 's"
  assumes ins_law: "inv s \<Longrightarrow> ins s k v = Inr (i, s') \<Longrightarrow>
      inv s' \<and> abs s k = None \<and> valid s v \<and> abs s' = (abs s)(k \<mapsto> stored s v) \<and> stored s' = stored s \<and>
      valid s' = valid s \<and> room s \<le> Suc (room s')"
    and ins_total: "inv s \<Longrightarrow> abs s k = None \<Longrightarrow> valid s v \<Longrightarrow> 0 < room s \<Longrightarrow> \<exists>r. ins s k v = Inr r"
    and ups_law: "inv s \<Longrightarrow> ups s k v = Inr (i, s') \<Longrightarrow>
      inv s' \<and> valid s v \<and> abs s' = (abs s)(k \<mapsto> stored s v) \<and> stored s' = stored s \<and>
      valid s' = valid s \<and> room s \<le> Suc (room s')"
    and ups_total: "inv s \<Longrightarrow> valid s v \<Longrightarrow> 0 < room s \<Longrightarrow> \<exists>r. ups s k v = Inr r"
    and rem_law: "inv s \<Longrightarrow> rem s k = (b, s') \<Longrightarrow>
      inv s' \<and> b = (abs s k \<noteq> None) \<and> abs s' = (abs s)(k := None) \<and> stored s' = stored s \<and>
      valid s' = valid s \<and> room s' = room s"
begin

lemma ins_iff:
  assumes "inv s" "0 < room s"
  shows "(\<exists>r. ins s k v = Inr r) \<longleftrightarrow> abs s k = None \<and> valid s v"
proof
  assume "\<exists>r. ins s k v = Inr r"
  then obtain i s' where "ins s k v = Inr (i, s')" by force
  from ins_law [OF assms(1) this] show "abs s k = None \<and> valid s v" by simp
qed (use ins_total [OF assms(1)] assms(2) in blast)

lemma ups_iff:
  assumes "inv s" "0 < room s"
  shows "(\<exists>r. ups s k v = Inr r) \<longleftrightarrow> valid s v"
proof
  assume "\<exists>r. ups s k v = Inr r"
  then obtain i s' where "ups s k v = Inr (i, s')" by force
  from ups_law [OF assms(1) this] show "valid s v" by simp
qed (use ups_total [OF assms(1)] assms(2) in blast)

lemma read_own_write: "inv s \<Longrightarrow> ups s k v = Inr (i, s') \<Longrightarrow> abs s' k = Some (stored s v)"
  using ups_law by simp

lemma frame: "inv s \<Longrightarrow> ups s k v = Inr (i, s') \<Longrightarrow> k' \<noteq> k \<Longrightarrow> abs s' k' = abs s k'"
  using ups_law by simp

text \<open>A removed id can be inserted again.\<close>

lemma reinsert:
  "inv s \<Longrightarrow> rem s k = (b, s') \<Longrightarrow> valid s v \<Longrightarrow> 0 < room s \<Longrightarrow> \<exists>r. ins s' k v = Inr r"
  using rem_law [of s k b s'] ins_total [of s' k v] by simp

lemma remove_twice: "inv s \<Longrightarrow> rem s k = (b, s') \<Longrightarrow> rem s' k = (b', s'') \<Longrightarrow> \<not> b'"
  using rem_law [of s k b s'] rem_law [of s' k b' s''] by simp

end

definition vs_valid :: "vector_store \<Rightarrow> vec \<Rightarrow> bool" where
  "vs_valid s v \<longleftrightarrow> validate_vector v (vs_dimension s) = Inr ()"

definition vs_room :: "vector_store \<Rightarrow> nat" where
  "vs_room s = kMaxVectorCount - vs_slot_count s"

lemma vs_abs_None [simp]: "vs_abs s k = None \<longleftrightarrow> vs_id_to_local s k = None"
  by (simp add: vs_abs_def)

interpretation store: id_map vs_inv vs_abs vs_room vs_valid "\<lambda>s. stored_row (vs_normalize s)"
  vs_insert vs_upsert vs_remove
proof unfold_locales
  fix s k i s' and v :: vec assume a: "vs_inv s" "vs_insert s k v = Inr (i, s')"
  note o = vs_insert_ok [OF a]
  then have "valid s = valid s'" if "valid = vs_valid" for valid by (simp add: that vs_valid_def fun_eq_iff)
  with o show "vs_inv s' \<and> vs_abs s k = None \<and> vs_valid s v \<and>
      vs_abs s' = (vs_abs s)(k \<mapsto> stored_row (vs_normalize s) v) \<and>
      stored_row (vs_normalize s') = stored_row (vs_normalize s) \<and> vs_valid s' = vs_valid s \<and>
      vs_room s \<le> Suc (vs_room s')"
    by (auto simp: vs_valid_def vs_room_def)
next
  fix s k and v :: vec assume "vs_inv s" "vs_abs s k = None" "vs_valid s v" "0 < vs_room s"
  then show "\<exists>r. vs_insert s k v = Inr r" by (intro vs_insert_total) (auto simp: vs_valid_def vs_room_def)
next
  fix s k i s' and v :: vec assume a: "vs_inv s" "vs_upsert s k v = Inr (i, s')"
  note o = vs_upsert_ok [OF a]
  have "vs_valid s v \<and> vs_room s \<le> Suc (vs_room s')"
  proof (cases "vs_id_to_local s k")
    case None
    then have "vs_insert s k v = Inr (i, s')" using a by (simp add: vs_upsert_def)
    from vs_insert_ok [OF a(1) this] show ?thesis by (simp add: vs_valid_def vs_room_def)
  next
    case (Some j)
    from vs_upsert_existing [OF a(1) Some a(2)] show ?thesis by (simp add: vs_valid_def vs_room_def)
  qed
  with o show "vs_inv s' \<and> vs_valid s v \<and>
      vs_abs s' = (vs_abs s)(k \<mapsto> stored_row (vs_normalize s) v) \<and>
      stored_row (vs_normalize s') = stored_row (vs_normalize s) \<and> vs_valid s' = vs_valid s \<and>
      vs_room s \<le> Suc (vs_room s')"
    by (simp add: vs_valid_def fun_eq_iff)
next
  fix s k and v :: vec assume a: "vs_inv s" "vs_valid s v" "0 < vs_room s"
  show "\<exists>r. vs_upsert s k v = Inr r"
  proof (cases "vs_id_to_local s k")
    case None
    then show ?thesis using a vs_insert_total [of s k v]
      by (simp add: vs_upsert_def vs_valid_def vs_room_def)
  next
    case (Some i)
    then show ?thesis using a by (intro vs_upsert_total) (auto simp: vs_valid_def)
  qed
next
  fix s k b s' assume "vs_inv s" "vs_remove s k = (b, s')"
  from vs_remove_ok [OF this] show "vs_inv s' \<and> b = (vs_abs s k \<noteq> None) \<and>
      vs_abs s' = (vs_abs s)(k := None) \<and> stored_row (vs_normalize s') = stored_row (vs_normalize s) \<and>
      vs_valid s' = vs_valid s \<and> vs_room s' = vs_room s"
    by (simp add: vs_valid_def vs_room_def fun_eq_iff)
qed

section \<open>Properties\<close>

text \<open>A history of calls; a call that throws leaves the store as it was.\<close>

datatype store_op = Insert vector_id vec | Upsert vector_id vec | Remove vector_id

fun vs_step :: "vector_store \<Rightarrow> store_op \<Rightarrow> vector_store" where
  "vs_step s (Insert k v) = (case vs_insert s k v of Inl _ \<Rightarrow> s | Inr (_, s') \<Rightarrow> s')"
| "vs_step s (Upsert k v) = (case vs_upsert s k v of Inl _ \<Rightarrow> s | Inr (_, s') \<Rightarrow> s')"
| "vs_step s (Remove k) = snd (vs_remove s k)"

text \<open>The specification: the same history on a finite map.\<close>

fun map_step :: "bool \<Rightarrow> nat \<Rightarrow> (vector_id \<rightharpoonup> vec \<times> f32) \<Rightarrow> store_op \<Rightarrow> (vector_id \<rightharpoonup> vec \<times> f32)" where
  "map_step nrm d m (Insert k v) =
     (if m k = None \<and> length v = d \<and> is_finite_vec v then m(k \<mapsto> stored_row nrm v) else m)"
| "map_step nrm d m (Upsert k v) =
     (if length v = d \<and> is_finite_vec v then m(k \<mapsto> stored_row nrm v) else m)"
| "map_step nrm d m (Remove k) = m(k := None)"

lemma vs_valid_iff: "vs_valid s v \<longleftrightarrow> length v = vs_dimension s \<and> is_finite_vec v"
  by (simp add: vs_valid_def validate_ok_iff is_finite_vec_iff)

lemma vs_remove_config [simp]: "vs_normalize (snd (vs_remove s k)) = vs_normalize s"
    "vs_dimension (snd (vs_remove s k)) = vs_dimension s"
  by (simp_all add: vs_remove_def vs_dimension_def split: option.split)

lemma vs_step_config:
  "vs_inv s \<Longrightarrow> vs_normalize (vs_step s op) = vs_normalize s \<and> vs_dimension (vs_step s op) = vs_dimension s"
  using vs_insert_ok(8,9) vs_upsert_ok(3,4)
  by (cases op) (auto split: sum.splits prod.splits)

lemma vs_step_refines:
  assumes inv: "vs_inv s" and room: "0 < vs_room s"
  shows "vs_inv (vs_step s op) \<and>
    vs_abs (vs_step s op) = map_step (vs_normalize s) (vs_dimension s) (vs_abs s) op \<and>
    vs_room s \<le> Suc (vs_room (vs_step s op))"
proof (cases op)
  case (Insert k v)
  show ?thesis
  proof (cases "vs_insert s k v")
    case (Inl e)
    then have "\<not> (vs_abs s k = None \<and> vs_valid s v)" using store.ins_iff [OF inv room, of k v] by auto
    then show ?thesis using Inl Insert inv by (auto simp: vs_valid_iff)
  next
    case (Inr r)
    obtain i s' where "r = (i, s')" by (cases r)
    with Inr have r: "vs_insert s k v = Inr (i, s')" by simp
    from store.ins_law [OF inv r] r show ?thesis using Insert by (auto simp: vs_valid_iff)
  qed
next
  case (Upsert k v)
  show ?thesis
  proof (cases "vs_upsert s k v")
    case (Inl e)
    then have "\<not> vs_valid s v" using store.ups_iff [OF inv room, of k v] by auto
    then show ?thesis using Inl Upsert inv by (auto simp: vs_valid_iff)
  next
    case (Inr r)
    obtain i s' where "r = (i, s')" by (cases r)
    with Inr have r: "vs_upsert s k v = Inr (i, s')" by simp
    from store.ups_law [OF inv r] r show ?thesis using Upsert by (auto simp: vs_valid_iff)
  qed
next
  case (Remove k)
  from store.rem_law [OF inv prod.collapse [symmetric], of k] show ?thesis using Remove by simp
qed

text \<open>C24: any history of inserts, upserts and removes leaves the store holding exactly what the same
  history leaves in a finite map (rejected vectors and duplicate inserts changing nothing), with the
  invariant intact and the live count the number of ids, as long as the slots suffice.\<close>

theorem store_refines_map:
  assumes "vs_inv s" and "length ops \<le> vs_room s"
  shows "vs_inv (foldl vs_step s ops) \<and>
    vs_abs (foldl vs_step s ops) = foldl (map_step (vs_normalize s) (vs_dimension s)) (vs_abs s) ops"
  using assms
proof (induction ops arbitrary: s)
  case (Cons op ops)
  then have room: "0 < vs_room s" by simp
  note step = vs_step_refines [OF Cons.prems(1) room, of op]
  then show ?case
    using Cons.IH [of "vs_step s op"] Cons.prems vs_step_config [OF Cons.prems(1), of op] by simp
qed simp

theorem store_refines_map_witness:
  "vs_abs (foldl vs_step
     \<lparr>vs_vectors = \<lparr>va_dimension = 1, va_count = 0, va_storage = []\<rparr>, vs_norms = [], vs_live = [],
      vs_local_to_id = [], vs_id_to_local = Map.empty, vs_live_count = 0, vs_normalize = False\<rparr>
     [Insert 7 [0], Insert 7 [0x3f800000], Remove 7, Upsert 9 [0]]) = [9 \<mapsto> ([0], 0)]"
proof -
  let ?s = "\<lparr>vs_vectors = \<lparr>va_dimension = 1, va_count = 0, va_storage = []\<rparr>, vs_norms = [], vs_live = [],
      vs_local_to_id = [], vs_id_to_local = Map.empty, vs_live_count = 0, vs_normalize = False\<rparr>"
  have "vs_new 1 False = Inr ?s" by (simp add: vs_new_def va_new_def kMaxDimension_def)
  then have inv: "vs_inv ?s" using vs_new_ok by blast
  have room: "4 \<le> vs_room ?s" by (simp add: vs_room_def kMaxVectorCount_def vs_slot_count_def)
  have "sum_squares [0] = f64_add 0 (f64_mul (f64_of_f32 0) (f64_of_f32 0))" by (simp add: sum_squares_def)
  also have "\<dots> = 0" by (simp add: feval cong: let_weak_cong)
  finally have "sum_squares [0] = 0" .
  then have z: "l2_norm [0] = 0" "is_finite_vec [0]" "is_finite_vec [0x3f800000]"
    by (simp_all add: l2_norm_def l2_norm_squared_def is_finite_vec_iff feval cong: let_weak_cong)
  have e: "vs_abs ?s = Map.empty" by (simp add: vs_abs_def fun_eq_iff)
  let ?ops = "[Insert 7 [0], Insert 7 [0x3f800000], Remove 7, Upsert 9 [0]]"
  have "length ?ops = 4" by simp
  then have len: "length ?ops \<le> vs_room ?s" using room by (rule ord_eq_le_trans)
  have spec: "foldl (map_step False 1) Map.empty ?ops = [9 \<mapsto> ([0], 0)]"
    using z by (simp add: stored_row_def fun_eq_iff)
  have c: "vs_normalize ?s = False" "vs_dimension ?s = 1" by (simp_all add: vs_dimension_def)
  show ?thesis using conjunct2 [OF store_refines_map [OF inv len]] unfolding c e spec .
qed

text \<open>Further: the number of live vectors is the number of ids, never more than the slots; an id is found
  in the slot that carries it; and removing one never moves another's slot.\<close>

theorem store_counts:
  assumes "vs_inv s"
  shows "vs_live_count s = card (dom (vs_abs s)) \<and> vs_live_count s \<le> vs_slot_count s \<and>
    (\<forall>k i. vs_find s k = Some i \<longrightarrow> vs_vector_id s i = Inr k \<and> vs_is_live s i) \<and>
    (\<forall>k k'. k' \<noteq> k \<longrightarrow> vs_find (snd (vs_remove s k)) k' = vs_find s k')"
proof (intro conjI)
  have map: "\<And>vid i. vs_id_to_local s vid = Some i \<longleftrightarrow> i \<in> live_slots s \<and> vs_local_to_id s ! i = vid"
    and lc: "vs_live_count s = card (live_slots s)" and len: "length (vs_local_to_id s) = vs_slot_count s"
    using assms by (auto simp: vs_inv_def)
  have "bij_betw (\<lambda>i. vs_local_to_id s ! i) (live_slots s) (dom (vs_abs s))"
  proof (rule bij_betw_imageI)
    show "inj_on (\<lambda>i. vs_local_to_id s ! i) (live_slots s)"
      using map by (intro inj_onI) (metis option.inject)
    show "(\<lambda>i. vs_local_to_id s ! i) ` live_slots s = dom (vs_abs s)"
      using map by (force simp: dom_def vs_abs_def)
  qed
  then show "vs_live_count s = card (dom (vs_abs s))" unfolding lc by (rule bij_betw_same_card)
  have "card (live_slots s) \<le> card {i. i < vs_slot_count s}"
    by (rule card_mono) (auto simp: live_slots_def)
  then show "vs_live_count s \<le> vs_slot_count s" by (simp add: lc)
  show "\<forall>k i. vs_find s k = Some i \<longrightarrow> vs_vector_id s i = Inr k \<and> vs_is_live s i"
    using map len by (auto simp: vs_find_def vs_vector_id_def live_slots_def)
  show "\<forall>k k'. k' \<noteq> k \<longrightarrow> vs_find (snd (vs_remove s k)) k' = vs_find s k'"
    by (auto simp: vs_find_def vs_remove_def split: option.splits)
qed

theorem store_counts_witness:
  "vs_live_count \<lparr>vs_vectors = \<lparr>va_dimension = 1, va_count = 0, va_storage = []\<rparr>, vs_norms = [], vs_live = [],
      vs_local_to_id = [], vs_id_to_local = Map.empty, vs_live_count = 0, vs_normalize = False\<rparr> =
   card (dom (vs_abs \<lparr>vs_vectors = \<lparr>va_dimension = 1, va_count = 0, va_storage = []\<rparr>, vs_norms = [],
      vs_live = [], vs_local_to_id = [], vs_id_to_local = Map.empty, vs_live_count = 0, vs_normalize = False\<rparr>))"
proof (rule store_counts [THEN conjunct1])
  let ?s = "\<lparr>vs_vectors = \<lparr>va_dimension = 1, va_count = 0, va_storage = []\<rparr>, vs_norms = [], vs_live = [],
      vs_local_to_id = [], vs_id_to_local = Map.empty, vs_live_count = 0, vs_normalize = False\<rparr>"
  have "vs_new 1 False = Inr ?s" by (simp add: vs_new_def va_new_def kMaxDimension_def)
  then show "vs_inv ?s" using vs_new_ok by blast
qed

end
