(* ===== verification/Vdb_Brute.thy ===== *)
theory Vdb_Brute
  imports Vdb_TopK Vdb_Distance Vdb_Store
begin

text \<open>
  The exact index (\<^verbatim>\<open>src/index/brute_force/brute_force_index.cpp\<close>) over the accessor of a store, and
  the search parameters of \<^verbatim>\<open>index/vector_index.hpp\<close>. The lemmas show that a search returns the \<open>k\<close>
  best of the live slots, in order, and nothing else.
\<close>

record search_params =
  sp_k :: nat
  sp_ef_search :: nat

record brute_force_index =
  bf_accessor :: accessor
  bf_metric :: metric
  bf_kernel :: distance_kernel

definition bf_key :: "brute_force_index \<Rightarrow> vec \<Rightarrow> f32 \<Rightarrow> local_id \<Rightarrow> f32" where
  "bf_key ix query query_norm i =
     with_norms (bf_kernel ix) (bf_metric ix) query query_norm
       (ac_vector (bf_accessor ix) i) (ac_norm (bf_accessor ix) i)"

function bf_scan :: "brute_force_index \<Rightarrow> vec \<Rightarrow> f32 \<Rightarrow> local_id \<Rightarrow> local_id \<Rightarrow> top_k \<Rightarrow> top_k" where
  "bf_scan ix query query_norm i lst collector =
     (if i < lst then
        (if \<not> ac_is_live (bf_accessor ix) i then bf_scan ix query query_norm (i + 1) lst collector
         else bf_scan ix query query_norm (i + 1) lst
                (offer collector i (bf_key ix query query_norm i)))
      else collector)"
  by pat_completeness auto
termination by (relation "measure (\<lambda>(ix, query, query_norm, i, lst, collector). lst - i)") auto

declare bf_scan.simps [simp del]

definition bf_search_range :: "brute_force_index \<Rightarrow> vec \<Rightarrow> local_id \<Rightarrow> local_id \<Rightarrow> top_k \<Rightarrow> top_k" where
  "bf_search_range ix query first lst collector =
     (let query_norm = (if bf_metric ix = Cosine then l2_norm query else 0) in
      bf_scan ix query query_norm first lst collector)"

definition bf_search :: "brute_force_index \<Rightarrow> vec \<Rightarrow> search_params \<Rightarrow> candidate list result" where
  "bf_search ix query params =
     (if sp_k params = 0 then Inl InvalidArgumentError
      else if length query \<noteq> ac_dimension (bf_accessor ix)
      then Inl (DimensionMismatchError (ac_dimension (bf_accessor ix)) (cast_u32 (length query)))
      else rbind (top_k_new (sp_k params)) (\<lambda>collector.
        Inr (fst (take_sorted (bf_search_range ix query 0 (cast_u32 (ac_size (bf_accessor ix))) collector)))))"

text \<open>\<^verbatim>\<open>add\<close> and \<^verbatim>\<open>remove\<close> have nothing to do: the scan reads the store itself.\<close>

definition bf_add :: "brute_force_index \<Rightarrow> local_id \<Rightarrow> brute_force_index" where
  "bf_add ix i = ix"

definition bf_remove :: "brute_force_index \<Rightarrow> local_id \<Rightarrow> brute_force_index" where
  "bf_remove ix i = ix"

fun bf_count :: "brute_force_index \<Rightarrow> nat \<Rightarrow> nat" where
  "bf_count ix 0 = 0"
| "bf_count ix (Suc i) = bf_count ix i + (if ac_is_live (bf_accessor ix) i then 1 else 0)"

definition bf_size :: "brute_force_index \<Rightarrow> nat" where
  "bf_size ix = bf_count ix (cast_u32 (ac_size (bf_accessor ix)))"

definition bf_describe :: "brute_force_index \<Rightarrow> string" where
  "bf_describe ix = ''brute_force(metric='' @ metric_name (bf_metric ix) @ '', kernel='' @
     kn_name (bf_kernel ix) @ '')''"

definition bf_set_accessor :: "brute_force_index \<Rightarrow> accessor \<Rightarrow> brute_force_index" where
  "bf_set_accessor ix ac = ix\<lparr>bf_accessor := ac\<rparr>"

section \<open>Best-\<open>k\<close> lists\<close>

text \<open>What is promised of a result list, without reference to a sorting routine.\<close>

definition exact_top_k :: "nat \<Rightarrow> candidate set \<Rightarrow> candidate list \<Rightarrow> bool" where
  "exact_top_k k C rs \<longleftrightarrow> set rs \<subseteq> C \<and> distinct rs \<and> length rs = min k (card C) \<and>
     sorted_wrt candidate_better rs \<and> (\<forall>c\<in>C - set rs. \<forall>r\<in>set rs. candidate_better r c)"

lemma asc_strict:
  assumes o: "set cs \<subseteq> ordered" and d: "distinct (map local_id cs)" and a: "asc candidate_better cs"
  shows "sorted_wrt candidate_better cs"
  using assms
proof (induction cs)
  case (Cons c cs)
  have "candidate_better c x" if "x \<in> set cs" for x
    using better_total [of c x] Cons.prems that by (auto simp del: in_ordered)
  then show ?case using Cons by auto
qed simp

lemma best_k_exact:
  assumes o: "\<forall>c\<in>set cs. ordered_key c" and d: "distinct (map local_id cs)"
  shows "exact_top_k k (set cs) (best_k k cs)"
proof -
  let ?s = "sort_by candidate_better cs"
  have sub: "set ?s \<subseteq> ordered" using o by (auto simp: ordered_def)
  have "mset (map local_id ?s) = mset (map local_id cs)" by simp
  then have ds: "distinct (map local_id ?s)" using d by (metis mset_eq_imp_distinct_iff)
  have strict: "sorted_wrt candidate_better ?s"
    by (rule asc_strict [OF sub ds]) (rule asc_sort_by [OF swo_better], use sub in simp)
  have dd: "distinct ?s" using ds by (simp add: distinct_map)
  have split: "?s = take k ?s @ drop k ?s" by simp
  have "sorted_wrt candidate_better (take k ?s @ drop k ?s)" using strict by simp
  then have better: "\<forall>r\<in>set (take k ?s). \<forall>c\<in>set (drop k ?s). candidate_better r c"
    unfolding sorted_wrt_append by blast
  have rest: "set cs - set (take k ?s) \<subseteq> set (drop k ?s)"
    by (metis Diff_subset_conv append_take_drop_id order_refl set_append set_sort_by)
  have "card (set cs) = length cs" using d by (simp add: distinct_map distinct_card)
  moreover have "set (take k ?s) \<subseteq> set cs" by (metis set_sort_by set_take_subset)
  ultimately show ?thesis
    unfolding exact_top_k_def best_k_def
    using dd strict better rest by (auto simp: min.commute sorted_wrt_take)
qed

section \<open>The scan\<close>

definition bf_candidates :: "brute_force_index \<Rightarrow> vec \<Rightarrow> f32 \<Rightarrow> nat \<Rightarrow> nat \<Rightarrow> candidate list" where
  "bf_candidates ix query query_norm i n =
     map (\<lambda>j. \<lparr>local_id = j, key = bf_key ix query query_norm j\<rparr>)
       (filter (ac_is_live (bf_accessor ix)) [i..<n])"

lemma bf_scan_offers:
  "bf_scan ix query qn i n t = offers t (bf_candidates ix query qn i n)"
proof (induction ix query qn i n t rule: bf_scan.induct)
  case (1 ix query qn i n t)
  show ?case
  proof (cases "i < n")
    case True
    then show ?thesis using 1 by (subst bf_scan.simps) (simp add: bf_candidates_def upt_conv_Cons offers_def)
  next
    case False
    then show ?thesis by (subst bf_scan.simps) (simp add: bf_candidates_def offers_def)
  qed
qed

lemma bf_candidates_ids: "map local_id (bf_candidates ix query qn i n) = filter (ac_is_live (bf_accessor ix)) [i..<n]"
  by (simp add: bf_candidates_def comp_def)

definition bf_query_norm :: "brute_force_index \<Rightarrow> vec \<Rightarrow> f32" where
  "bf_query_norm ix query = (if bf_metric ix = Cosine then l2_norm query else 0)"

text \<open>The answer the scan should give: every live slot with its key.\<close>

definition bf_live_candidates :: "brute_force_index \<Rightarrow> vec \<Rightarrow> candidate set" where
  "bf_live_candidates ix query =
     {c. local_id c < ac_size (bf_accessor ix) \<and> ac_is_live (bf_accessor ix) (local_id c) \<and>
         key c = bf_key ix query (bf_query_norm ix query) (local_id c)}"

lemma bf_candidates_set:
  "set (bf_candidates ix query (bf_query_norm ix query) 0 (ac_size (bf_accessor ix))) =
   bf_live_candidates ix query"
  by (force simp: bf_candidates_def bf_live_candidates_def)

lemma bf_search_best:
  assumes k: "0 < sp_k params" and q: "length query = ac_dimension (bf_accessor ix)"
    and size: "ac_size (bf_accessor ix) < 2 ^ 32"
    and nan: "\<forall>c\<in>bf_live_candidates ix query. ordered_key c"
  shows "bf_search ix query params = Inr (best_k (sp_k params)
    (bf_candidates ix query (bf_query_norm ix query) 0 (ac_size (bf_accessor ix))))"
proof -
  let ?cs = "bf_candidates ix query (bf_query_norm ix query) 0 (ac_size (bf_accessor ix))"
  obtain t where t: "top_k_new (sp_k params) = Inr t" using k by (simp add: top_k_new_def)
  then have kt: "tk_k t = sp_k params" using k by (auto simp: top_k_new_def)
  have "set ?cs \<subseteq> ordered" unfolding bf_candidates_set using nan by (auto simp: ordered_def)
  from top_inv_offers [OF top_inv_new [OF t] this]
  have inv: "top_inv (mset ?cs) (offers t ?cs)" by simp
  have "distinct (map local_id ?cs)" by (simp add: bf_candidates_ids)
  from take_sorted_best [OF inv this] have "fst (take_sorted (offers t ?cs)) = best_k (sp_k params) ?cs"
    by (simp add: kt)
  then show ?thesis using k q t size
    by (simp add: bf_search_def bf_search_range_def bf_scan_offers cast_u32_id bf_query_norm_def)
qed

lemma bf_search_errors:
  "sp_k params = 0 \<Longrightarrow> bf_search ix query params = Inl InvalidArgumentError"
  "sp_k params \<noteq> 0 \<Longrightarrow> length query \<noteq> ac_dimension (bf_accessor ix) \<Longrightarrow>
   bf_search ix query params = Inl (DimensionMismatchError (ac_dimension (bf_accessor ix)) (cast_u32 (length query)))"
  by (simp_all add: bf_search_def)

lemma bf_search_exact:
  assumes "0 < sp_k params" and "length query = ac_dimension (bf_accessor ix)"
    and "ac_size (bf_accessor ix) < 2 ^ 32" and "\<forall>c\<in>bf_live_candidates ix query. ordered_key c"
  shows "\<exists>rs. bf_search ix query params = Inr rs \<and>
    exact_top_k (sp_k params) (bf_live_candidates ix query) rs"
  using bf_search_best [OF assms]
    best_k_exact [of "bf_candidates ix query (bf_query_norm ix query) 0 (ac_size (bf_accessor ix))" "sp_k params"]
    assms(4)
  by (simp add: bf_candidates_set bf_candidates_ids)

text \<open>On finite vectors the squared L2 key is a number.\<close>

lemma l2_keys_ordered:
  assumes kn: "kn \<in> set (detect_kernels t)" and inv: "vs_inv s"
    and fin: "\<forall>r\<in>set (va_rows (vs_vectors s)). is_finite_vec r" "is_finite_vec query"
    and q: "length query = vs_dimension s"
    and ix: "ix = \<lparr>bf_accessor = vs_accessor s, bf_metric = L2Squared, bf_kernel = kn\<rparr>"
    and c: "c \<in> bf_live_candidates ix query"
  shows "ordered_key c"
proof -
  have i: "local_id c < va_count (vs_vectors s)"
    using c by (simp add: bf_live_candidates_def ix vs_accessor_def ac_size_def)
  let ?r = "va_rows (vs_vectors s) ! local_id c"
  have "?r \<in> set (va_rows (vs_vectors s))" using i by (intro nth_mem) simp
  then have r: "is_finite_vec ?r" using fin by blast
  have "length ?r = length query" using i q inv by (simp add: vs_inv_def vs_dimension_def)
  then have "is_nonnegv (f32_val (distance kn L2Squared query ?r))"
    using kernel_laws.distance_l2_nonneg [OF registry_laws [OF kn]] fin(2) r by simp
  moreover have "key c = distance kn L2Squared query ?r"
    using c i by (simp add: bf_live_candidates_def bf_key_def ix with_norms_def distance_def
        vs_accessor_def ac_vector_def)
  ultimately show ?thesis by (simp add: ordered_key_def f32_isnan_def nonneg_not_nan)
qed

section \<open>Properties\<close>

text \<open>C32: an exact search returns precisely the \<open>k\<close> nearest live slots (all of them if there are fewer),
  each with its own key, strictly best first with ties broken by slot, and every live slot left out is
  worse than every one returned, provided no live key is NaN.\<close>

theorem brute_force_exact:
  assumes "0 < sp_k params" and "length query = ac_dimension (bf_accessor ix)"
    and "ac_size (bf_accessor ix) < 2 ^ 32" and "\<forall>c\<in>bf_live_candidates ix query. ordered_key c"
  shows "\<exists>rs. bf_search ix query params = Inr rs \<and>
    exact_top_k (sp_k params) (bf_live_candidates ix query) rs"
  by (rule bf_search_exact [OF assms])

theorem brute_force_exact_witness:
  "exact_top_k 1 {c. local_id c = 0 \<and> key c = 0x3f800000}
     [\<lparr>local_id = 0, key = 0x3f800000\<rparr>]"
proof -
  let ?kn = "\<lparr>kn_l2_squared = \<lambda>a b n. a ! 0, kn_dot = \<lambda>a b n. 0, kn_norm_squared = \<lambda>v n. 0, kn_name = ''first''\<rparr>"
  let ?ix = "\<lparr>bf_accessor = \<lparr>ac_vectors = \<lparr>va_dimension = 1, va_count = 2, va_storage = [0, 0]\<rparr>,
      ac_norms = [0, 0], ac_live = [1, 0]\<rparr>, bf_metric = L2Squared, bf_kernel = ?kn\<rparr>"
  let ?p = "\<lparr>sp_k = 1, sp_ef_search = 0\<rparr>"
  have c: "bf_live_candidates ?ix [0x3f800000] = {c. local_id c = 0 \<and> key c = 0x3f800000}"
    by (auto simp: bf_live_candidates_def bf_key_def with_norms_def ac_is_live_def ac_size_def less_2_cases_iff)
  have "\<exists>rs. bf_search ?ix [0x3f800000] ?p = Inr rs \<and>
      exact_top_k (sp_k ?p) (bf_live_candidates ?ix [0x3f800000]) rs"
  proof (rule brute_force_exact)
    show "\<forall>c\<in>bf_live_candidates ?ix [0x3f800000]. ordered_key c"
      unfolding c by (simp add: ordered_key_def feval cong: let_weak_cong)
  qed (simp_all add: ac_dimension_def ac_size_def)
  moreover have "bf_search ?ix [0x3f800000] ?p = Inr [\<lparr>local_id = 0, key = 0x3f800000\<rparr>]"
    by (simp add: bf_search_def ac_dimension_def ac_size_def top_k_new_def bf_search_range_def
        bf_scan.simps ac_is_live_def cast_u32_def bf_key_def with_norms_def offer_def take_sorted_def)
  ultimately show ?thesis using c by simp
qed

text \<open>Further: an exact L2 search over a store of finite vectors never meets a NaN key, so with any kernel of
  the registry it always succeeds and is exact.\<close>

theorem brute_force_l2_total:
  assumes "kn \<in> set (detect_kernels t)" and "vs_inv s" and "\<forall>r\<in>set (va_rows (vs_vectors s)). is_finite_vec r"
    and "is_finite_vec query" and "length query = vs_dimension s" and "0 < sp_k params"
    and "ix = \<lparr>bf_accessor = vs_accessor s, bf_metric = L2Squared, bf_kernel = kn\<rparr>"
  shows "\<exists>rs. bf_search ix query params = Inr rs \<and>
    exact_top_k (sp_k params) (bf_live_candidates ix query) rs"
proof (rule bf_search_exact)
  show "length query = ac_dimension (bf_accessor ix)"
    using assms(5,7) by (simp add: ac_dimension_def vs_accessor_def vs_dimension_def)
  have "va_count (vs_vectors s) \<le> kMaxVectorCount" using assms(2) by (simp add: vs_inv_def va_inv_def)
  then show "ac_size (bf_accessor ix) < 2 ^ 32"
    using assms(7) by (simp add: ac_size_def vs_accessor_def kMaxVectorCount_def)
  show "\<forall>c\<in>bf_live_candidates ix query. ordered_key c"
    using l2_keys_ordered [OF assms(1-5,7)] by blast
qed (rule assms(6))

theorem brute_force_l2_total_witness:
  "\<exists>rs. bf_search \<lparr>bf_accessor = \<lparr>ac_vectors = \<lparr>va_dimension = 1, va_count = 1, va_storage = [0]\<rparr>,
      ac_norms = [0], ac_live = [1]\<rparr>, bf_metric = L2Squared, bf_kernel = scalar_kernel\<rparr> [0x7f7fffff]
      \<lparr>sp_k = 3, sp_ef_search = 0\<rparr> = Inr rs"
proof -
  let ?t = "\<lparr>tg_arch = OtherArch False, tg_simd = False,
    tg_cpuid = \<lambda>_ _. \<lparr>eax = 0, ebx = 0, ecx = 0, edx = 0\<rparr>, tg_xcr0 = 0\<rparr>"
  let ?s = "\<lparr>vs_vectors = \<lparr>va_dimension = 1, va_count = 1, va_storage = [0]\<rparr>, vs_norms = [0], vs_live = [1],
      vs_local_to_id = [5], vs_id_to_local = [5 \<mapsto> 0], vs_live_count = 1, vs_normalize = False\<rparr>"
  let ?ix = "\<lparr>bf_accessor = vs_accessor ?s, bf_metric = L2Squared, bf_kernel = scalar_kernel\<rparr>"
  have k: "scalar_kernel \<in> set (detect_kernels ?t)" by (simp add: detect_kernels_def)
  have live: "live_slots ?s = {0}" by (auto simp: live_slots_def vs_slot_count_def vs_is_live_def)
  have inv: "vs_inv ?s" unfolding vs_inv_def live
    by (auto simp: va_inv_def vs_slot_count_def kMaxDimension_def kMaxVectorCount_def)
  have fin: "\<forall>r\<in>set (va_rows (vs_vectors ?s)). is_finite_vec r" "is_finite_vec [0x7f7fffff]"
    by (simp_all add: va_rows_def va_view_def va_offset_of_def is_finite_vec_iff feval cong: let_weak_cong)
  have "\<exists>rs. bf_search ?ix [0x7f7fffff] \<lparr>sp_k = 3, sp_ef_search = 0\<rparr> = Inr rs \<and>
      exact_top_k (sp_k \<lparr>sp_k = 3, sp_ef_search = 0\<rparr>) (bf_live_candidates ?ix [0x7f7fffff]) rs"
    by (rule brute_force_l2_total [OF k inv fin]) (simp_all add: vs_dimension_def)
  then show ?thesis by (auto simp: vs_accessor_def)
qed

end
