(* ===== verification/Vdb_Rng.thy ===== *)
theory Vdb_Rng
  imports Vdb_Vector
begin

text \<open>
  \<^verbatim>\<open>DeterministicRng\<close> and the synthetic data sets (\<^verbatim>\<open>src/util/dataset.cpp\<close>). The C mathematical
  functions \<^verbatim>\<open>logf\<close> and \<^verbatim>\<open>cosf\<close> are parameters, since their last bit is up to the platform. The
  lemmas show that a uniform draw lies in the half-open unit interval and that a generated data set
  has the shape its specification asks for.
\<close>

unbundle bit_operations_syntax

section \<open>The generator\<close>

definition splitmix64 :: "u64 \<Rightarrow> u64 \<times> u64" where
  "splitmix64 state =
     (let state = state + 0x9E3779B97F4A7C15;
          z = state;
          z = (z XOR drop_bit 30 z) * 0xBF58476D1CE4E5B9;
          z = (z XOR drop_bit 27 z) * 0x94D049BB133111EB in
      (z XOR drop_bit 31 z, state))"

record rng =
  rng_state :: u64

definition rng_new :: "u64 \<Rightarrow> rng" where
  "rng_new seed = \<lparr>rng_state = seed\<rparr>"

definition rng_next :: "rng \<Rightarrow> u64 \<times> rng" where
  "rng_next g = (case splitmix64 (rng_state g) of (z, s) \<Rightarrow> (z, g\<lparr>rng_state := s\<rparr>))"

definition f32_of_nat :: "nat \<Rightarrow> f32" where
  "f32_of_nat n = f32_of (fround binary32 False (n * 2 ^ funit binary32) 1)"

text \<open>\<open>2 ^ - 24\<close>\<close>

definition kScale :: f32 where
  "kScale = 0x33800000"

definition rng_uniform :: "rng \<Rightarrow> f32 \<times> rng" where
  "rng_uniform g = (case rng_next g of (z, g) \<Rightarrow> (f32_mul (f32_of_nat (unat (drop_bit 40 z))) kScale, g))"

definition rng_uniform_between :: "f32 \<Rightarrow> f32 \<Rightarrow> rng \<Rightarrow> f32 \<times> rng" where
  "rng_uniform_between low high g =
     (case rng_uniform g of (u, g) \<Rightarrow> (f32_add low (f32_mul (f32_sub high low) u), g))"

text \<open>\<^verbatim>\<open>std::numeric_limits<float>::min()\<close>, -2 and \<open>2 \<pi>\<close>.\<close>

definition f32_min_normal :: f32 where
  "f32_min_normal = 0x00800000"

definition f32_minus_two :: f32 where
  "f32_minus_two = 0xC0000000"

definition f32_two_pi :: f32 where
  "f32_two_pi = 0x40C90FDB"

record math_functions =
  mf_logf :: "f32 \<Rightarrow> f32"
  mf_cosf :: "f32 \<Rightarrow> f32"

definition rng_normal :: "math_functions \<Rightarrow> rng \<Rightarrow> f32 \<times> rng" where
  "rng_normal mf g =
     (let (u1, g) = rng_uniform g;
          u1 = (if f32_le u1 0 then f32_min_normal else u1);
          (u2, g) = rng_uniform g;
          radius = f32_sqrt (f32_mul f32_minus_two (mf_logf mf u1));
          angle = f32_mul f32_two_pi u2 in
      (f32_mul radius (mf_cosf mf angle), g))"

section \<open>Data sets\<close>

datatype dataset_kind = Uniform | Gaussian | Clustered

record dataset_spec =
  ds_dimension :: nat
  ds_count :: nat
  ds_seed :: u64
  ds_sample_seed :: u64
  ds_kind :: dataset_kind
  ds_cluster_count :: nat
  ds_cluster_stddev :: f32

definition f64_sqrt :: "f64 \<Rightarrow> f64" where
  "f64_sqrt x = f64_of (fsqrt binary64 (f64_val x))"

text \<open>The cast of a non-negative double to an integer drops the fraction.\<close>

fun ftrunc :: "fmt \<Rightarrow> fval \<Rightarrow> nat" where
  "ftrunc F (FFin s n) = (if s then 0 else n div 2 ^ funit F)"
| "ftrunc F _ = 0"

definition f64_trunc :: "f64 \<Rightarrow> nat" where
  "f64_trunc x = ftrunc binary64 (f64_val x)"

definition default_cluster_count :: "nat \<Rightarrow> nat" where
  "default_cluster_count n =
     (let root = f64_trunc (f64_sqrt (f64_of_int (int n))) in if root < 2 then 2 else root)"

text \<open>Filling the scratch vector component by component.\<close>

fun fill_scratch :: "(nat \<Rightarrow> rng \<Rightarrow> f32 \<times> rng) \<Rightarrow> nat \<Rightarrow> nat \<Rightarrow> rng \<Rightarrow> vec \<times> rng" where
  "fill_scratch draw d 0 g = ([], g)"
| "fill_scratch draw d (Suc n) g =
     (let (x, g) = draw d g; (xs, g) = fill_scratch draw (Suc d) n g in (x # xs, g))"

fun push_rows ::
    "(nat \<Rightarrow> nat \<Rightarrow> rng \<Rightarrow> f32 \<times> rng) \<Rightarrow> nat \<Rightarrow> nat \<Rightarrow> nat \<Rightarrow> rng \<Rightarrow> vector_array \<Rightarrow>
     (rng \<times> vector_array) result" where
  "push_rows draw dm i 0 g a = Inr (g, a)"
| "push_rows draw dm i (Suc n) g a =
     (let (scratch, g) = fill_scratch (draw i) 0 dm g in
      rbind (va_push_back a scratch) (\<lambda>(_, a). push_rows draw dm (Suc i) n g a))"

definition generate_dataset :: "math_functions \<Rightarrow> dataset_spec \<Rightarrow> vector_array result" where
  "generate_dataset mf spec =
     (if ds_count spec = 0 then Inl InvalidArgumentError
      else rbind (va_new (ds_dimension spec)) (\<lambda>vectors.
        let dm = ds_dimension spec; structure_rng = rng_new (ds_seed spec);
            rng = rng_new (ds_sample_seed spec) in
        case ds_kind spec of
          Uniform \<Rightarrow> rbind (push_rows (\<lambda>i d. rng_uniform_between 0xBF800000 f32_one) dm 0
              (ds_count spec) rng vectors) (\<lambda>(_, vectors). Inr vectors)
        | Gaussian \<Rightarrow> rbind (push_rows (\<lambda>i d. rng_normal mf) dm 0 (ds_count spec) rng vectors)
              (\<lambda>(_, vectors). Inr vectors)
        | Clustered \<Rightarrow>
            let clusters = (if ds_cluster_count spec > 0 then ds_cluster_count spec
                            else default_cluster_count (ds_count spec)) in
            rbind (va_new dm) (\<lambda>centroids.
            rbind (push_rows (\<lambda>i d. rng_normal mf) dm 0 clusters structure_rng centroids) (\<lambda>(_, centroids).
            rbind (push_rows (\<lambda>i d g. let (x, g) = rng_normal mf g in
                     (f32_add (va_view centroids (cast_u32 (i mod clusters)) ! d)
                              (f32_mul (ds_cluster_stddev spec) x), g))
                   dm 0 (ds_count spec) rng vectors) (\<lambda>(_, vectors). Inr vectors)))))"

definition generate_queries :: "math_functions \<Rightarrow> dataset_spec \<Rightarrow> nat \<Rightarrow> vector_array result" where
  "generate_queries mf spec n =
     generate_dataset mf (spec\<lparr>ds_count := n, ds_sample_seed := fst (splitmix64 (ds_sample_seed spec))\<rparr>)"

section \<open>Exact rounding\<close>

lemma fround_exact:
  assumes v: "fval_ok F (FFin s n)" and q: "0 < q"
  shows "fround F s (n * q) q = FFin s n"
proof -
  define e where "e = floorlog 2 n - prec F"
  have "2 ^ e dvd n" using v by (simp add: e_def)
  then obtain m where m: "n = m * 2 ^ e" by (metis dvd_def mult.commute)
  have d: "n * q div q = n" using q by simp
  have "n * q = m * (q * 2 ^ e)" by (simp add: m)
  then have "rne (n * q) (q * 2 ^ e) = m" using q by (simp add: rne_def Let_def)
  then have "round_mag F (n * q) q = n" unfolding round_mag_def Let_def d e_def [symmetric] by (simp add: m)
  then show ?thesis using v by (simp add: fround_def)
qed

lemma int24_ok: "m < 2 ^ 24 \<Longrightarrow> e \<le> 250 \<Longrightarrow> fval_ok binary32 (FFin s (m * 2 ^ e))"
proof -
  assume m: "m < 2 ^ 24" and e: "e \<le> 250"
  have "m * 2 ^ e < 2 ^ 24 * 2 ^ e" using m by (rule mult_strict_right_mono) simp
  also have "\<dots> = (2::nat) ^ (24 + e)" by (rule power_add [symmetric])
  also have "\<dots> \<le> 2 ^ 277" using e by (intro power_increasing) simp_all
  finally have "m * 2 ^ e < 2 ^ 277" .
  moreover have "2 ^ (floorlog 2 (m * 2 ^ e) - 24) dvd m * 2 ^ e"
    using m by (intro scaled_dvd [OF refl]) simp_all
  ultimately show ?thesis by simp
qed

lemma f32_val_of_nat: "m < 2 ^ 24 \<Longrightarrow> f32_val (f32_of_nat m) = FFin False (m * 2 ^ 149)"
proof -
  assume m: "m < 2 ^ 24"
  have ok: "fval_ok binary32 (FFin False (m * 2 ^ 149))" by (rule int24_ok [OF m]) simp
  from fround_exact [OF this, of 1] show ?thesis
    unfolding f32_of_nat_def using ok by (simp add: f32_val_of)
qed

lemma f32_val_kScale [simp]: "f32_val kScale = FFin False (2 ^ 125)"
  by (simp add: f32_val_def fdec_def kScale_def)

lemma uniform_value:
  assumes "m < 2 ^ 24"
  shows "f32_val (f32_mul (f32_of_nat m) kScale) = FFin False (m * 2 ^ 125)"
proof -
  have "fval_ok binary32 (FFin False (m * 2 ^ 125))" by (rule int24_ok [OF assms]) simp
  from fround_exact [OF this, of "2 ^ 149"]
  have "fround binary32 False (m * 2 ^ 125 * 2 ^ 149) (2 ^ 149) = FFin False (m * 2 ^ 125)" by simp
  moreover have "m * 2 ^ 149 * 2 ^ 125 = m * 2 ^ 125 * (2::nat) ^ 149" by (simp only: ac_simps)
  ultimately show ?thesis by (simp only: f32_val_mul f32_val_of_nat [OF assms] f32_val_kScale fmul.simps funit_std) simp
qed

lemma drop_40_less: "unat (drop_bit 40 (z :: u64)) < 2 ^ 24"
proof -
  have "unat z < 2 ^ 24 * 2 ^ 40" using unsigned_less [of z] by simp
  then have "unat z div 2 ^ 40 < 2 ^ 24" by (rule less_mult_imp_div_less)
  then have "drop_bit 40 (unat z) < 2 ^ 24" by (simp only: drop_bit_eq_div)
  then show ?thesis by (simp only: unat_drop_bit_eq)
qed

section \<open>Shape of a data set\<close>

lemma length_fill_scratch [simp]: "length (fst (fill_scratch draw d n g)) = n"
  by (induction draw d n g rule: fill_scratch.induct) (auto simp: Let_def split: prod.splits)

lemma va_count_rows_Suc: "va_rows a' = va_rows a @ [v] \<Longrightarrow> va_count a' = va_count a + 1"
  by (metis length_append_singleton length_va_rows Suc_eq_plus1)

lemma push_rows_shape:
  "va_inv a \<Longrightarrow> va_dimension a = dm \<Longrightarrow> push_rows draw dm i n g a = Inr (g', a') \<Longrightarrow>
   va_inv a' \<and> va_dimension a' = dm \<and> va_count a' = va_count a + n"
proof (induction n arbitrary: i g a)
  case (Suc n)
  obtain sc g1 where f: "fill_scratch (draw i) 0 dm g = (sc, g1)" by force
  have "rbind (va_push_back a sc) (\<lambda>(_, a). push_rows draw dm (Suc i) n g1 a) = Inr (g', a')"
    using Suc.prems(3) f by simp
  then obtain j b where p: "va_push_back a sc = Inr (j, b)"
    and r: "push_rows draw dm (Suc i) n g1 b = Inr (g', a')"
    by (auto simp only: rbind_Inr_iff split: prod.splits)
  note ok = va_push_back_ok [OF Suc.prems(1) p]
  have "va_count b = va_count a + 1" using va_count_rows_Suc [OF ok(2)] .
  moreover have "va_dimension b = dm" using ok(4) Suc.prems(2) by simp
  ultimately show ?case using Suc.IH [OF ok(1) _ r] by simp
qed simp

section \<open>Properties\<close>

text \<open>Further: a uniform draw is a float in \<open>[0, 1)\<close>, an exact multiple of \<open>2 ^ - 24\<close>, for every state of
  the generator.\<close>

theorem uniform_in_unit_interval:
  "\<exists>m < 2 ^ 24. f32_val (fst (rng_uniform g)) = FFin False (m * 2 ^ 125) \<and>
     f32_le 0 (fst (rng_uniform g)) \<and> f32_lt (fst (rng_uniform g)) f32_one"
proof -
  let ?m = "unat (drop_bit 40 (fst (rng_next g)))"
  have m: "?m < 2 ^ 24" by (rule drop_40_less)
  have v: "f32_val (fst (rng_uniform g)) = FFin False (?m * 2 ^ 125)"
    using uniform_value [OF m] by (simp add: rng_uniform_def case_prod_unfold)
  have "?m * 2 ^ 125 < 2 ^ 24 * 2 ^ 125" using m by (rule mult_strict_right_mono) simp
  then have lt: "?m * 2 ^ 125 < 2 ^ 149" by (simp flip: power_add)
  have "f32_lt (fst (rng_uniform g)) f32_one" unfolding f32_lt_def v f32_val_one using lt by (simp add: flt_code)
  moreover have "f32_le 0 (fst (rng_uniform g))"
    unfolding f32_le_def v f32_val_zero by (auto simp: fle_def flt_code feq_code)
  ultimately show ?thesis using m v by blast
qed

text \<open>Further: a data set that is generated has exactly the asked number of vectors of the asked dimension;
  a zero count and a dimension out of range are errors.\<close>

theorem generated_shape:
  "(\<forall>a. generate_dataset mf spec = Inr a \<longrightarrow>
      va_inv a \<and> va_count a = ds_count spec \<and> va_dimension a = ds_dimension spec) \<and>
   (ds_count spec = 0 \<or> ds_dimension spec = 0 \<or> kMaxDimension < ds_dimension spec \<longrightarrow>
      generate_dataset mf spec = Inl InvalidArgumentError)"
proof (intro conjI allI impI)
  fix a assume r: "generate_dataset mf spec = Inr a"
  then obtain v where v: "va_new (ds_dimension spec) = Inr v"
    by (auto simp: generate_dataset_def result_simps split: if_splits)
  have init: "va_inv v" "va_dimension v = ds_dimension spec" "va_count v = 0"
    using va_new_inv [OF v] v by (auto simp: va_new_def split: if_splits)
  obtain draw g g' where "push_rows draw (ds_dimension spec) 0 (ds_count spec) g v = Inr (g', a)"
    using r v by (cases "ds_kind spec") (auto simp: generate_dataset_def result_simps Let_def split: if_splits)
  from push_rows_shape [OF init(1,2) this] init
  show "va_inv a" "va_count a = ds_count spec" "va_dimension a = ds_dimension spec" by simp_all
next
  assume "ds_count spec = 0 \<or> ds_dimension spec = 0 \<or> kMaxDimension < ds_dimension spec"
  then show "generate_dataset mf spec = Inl InvalidArgumentError"
    by (auto simp: generate_dataset_def va_new_def)
qed

theorem generated_shape_witness:
  "generate_dataset \<lparr>mf_logf = \<lambda>x. x, mf_cosf = \<lambda>x. x\<rparr>
     \<lparr>ds_dimension = 70000, ds_count = 3, ds_seed = 42, ds_sample_seed = 42, ds_kind = Uniform,
      ds_cluster_count = 0, ds_cluster_stddev = 0\<rparr> = Inl InvalidArgumentError"
  by (rule conjunct2 [OF generated_shape, rule_format]) (simp add: kMaxDimension_def)

end
