(* ===== verification/Vdb_HnswGraph.thy ===== *)
theory Vdb_HnswGraph
  imports Vdb_Brute Vdb_Rng
begin

text \<open>
  The state of the HNSW index (\<^verbatim>\<open>src/index/hnsw/hnsw_index.cpp\<close>, \<^verbatim>\<open>hnsw_config.cpp\<close>): the
  configuration, the flat link arrays with their strides and offsets, the visited set with its
  generation stamps, and the random level. The lemmas show that the flat arrays behave as one
  neighbour list per node and layer, and that the visited set is a set, even when its generation
  counter wraps.
\<close>

section \<open>Configuration\<close>

record hnsw_config =
  hc_m :: nat
  hc_ef_construction :: nat
  hc_ef_search :: nat
  hc_seed :: u64

definition hc_default :: hnsw_config where
  "hc_default = \<lparr>hc_m = 16, hc_ef_construction = 200, hc_ef_search = 64, hc_seed = 42\<rparr>"

definition max_m0 :: "hnsw_config \<Rightarrow> nat" where
  "max_m0 c = hc_m c * 2"

definition max_neighbours :: "hnsw_config \<Rightarrow> nat \<Rightarrow> nat" where
  "max_neighbours c layer = (if layer = 0 then max_m0 c else hc_m c)"

definition f64_one :: f64 where
  "f64_one = 0x3FF0000000000000"

text \<open>\<^verbatim>\<open>std::log\<close> is the parameter \<open>logd\<close> throughout.\<close>

definition level_multiplier :: "(f64 \<Rightarrow> f64) \<Rightarrow> hnsw_config \<Rightarrow> f64" where
  "level_multiplier logd c = f64_div f64_one (logd (f64_of_int (int (hc_m c))))"

definition hc_validate :: "hnsw_config \<Rightarrow> unit result" where
  "hc_validate c =
     rbind (guard_throw (hc_m c < 2) InvalidArgumentError) (\<lambda>_.
     rbind (guard_throw (hc_m c > 512) InvalidArgumentError) (\<lambda>_.
     rbind (guard_throw (hc_ef_construction c < 1) InvalidArgumentError) (\<lambda>_.
     rbind (guard_throw (hc_ef_search c < 1) InvalidArgumentError) (\<lambda>_.
     guard_throw (hc_ef_construction c < hc_m c) InvalidArgumentError))))"

definition hc_describe :: "hnsw_config \<Rightarrow> string" where
  "hc_describe c = ''M='' @ show_nat (hc_m c) @ '', efConstruction='' @ show_nat (hc_ef_construction c) @
     '', efSearch='' @ show_nat (hc_ef_search c) @ '', seed='' @ show_nat (unat (hc_seed c))"

section \<open>The index\<close>

record hnsw_index =
  hn_accessor :: accessor
  hn_metric :: metric
  hn_config :: hnsw_config
  hn_kernel :: distance_kernel
  hn_node_level :: "nat list"
  hn_layer0_links :: "local_id list"
  hn_upper_links :: "local_id list"
  hn_upper_offsets :: "nat list"
  hn_entry_point :: local_id
  hn_max_level :: nat
  hn_live_count :: nat
  hn_rng :: rng

definition hn_new :: "accessor \<Rightarrow> metric \<Rightarrow> hnsw_config \<Rightarrow> distance_kernel \<Rightarrow> hnsw_index result" where
  "hn_new ac m c kn = rbind (hc_validate c) (\<lambda>_.
     Inr \<lparr>hn_accessor = ac, hn_metric = m, hn_config = c, hn_kernel = kn, hn_node_level = [],
       hn_layer0_links = [], hn_upper_links = [], hn_upper_offsets = [],
       hn_entry_point = kInvalidLocalId, hn_max_level = 0, hn_live_count = 0, hn_rng = rng_new (hc_seed c)\<rparr>)"

definition kNoUpperLinks :: nat where
  "kNoUpperLinks = 2 ^ 32 - 1"

definition layer0_stride :: "hnsw_index \<Rightarrow> nat" where
  "layer0_stride ix = max_m0 (hn_config ix) + 1"

definition upper_stride :: "hnsw_index \<Rightarrow> nat" where
  "upper_stride ix = hc_m (hn_config ix) + 1"

section \<open>Link blocks\<close>

text \<open>
  A block is a count followed by that many ids. \<open>link_addr\<close> is the pointer \<^verbatim>\<open>links(node, layer)\<close>
  as an index into the array of the layer; a read or write through it is \<open>hn_peek\<close> or \<open>hn_poke\<close>.
\<close>

definition link_addr :: "hnsw_index \<Rightarrow> local_id \<Rightarrow> nat \<Rightarrow> nat" where
  "link_addr ix node layer =
     (if layer = 0 then node * layer0_stride ix
      else hn_upper_offsets ix ! node + (layer - 1) * upper_stride ix)"

definition hn_peek :: "hnsw_index \<Rightarrow> local_id \<Rightarrow> nat \<Rightarrow> nat \<Rightarrow> local_id" where
  "hn_peek ix node layer k =
     (if layer = 0 then hn_layer0_links ix ! (link_addr ix node layer + k)
      else hn_upper_links ix ! (link_addr ix node layer + k))"

definition hn_poke :: "hnsw_index \<Rightarrow> local_id \<Rightarrow> nat \<Rightarrow> nat \<Rightarrow> local_id \<Rightarrow> hnsw_index" where
  "hn_poke ix node layer k v =
     (if layer = 0 then ix\<lparr>hn_layer0_links := (hn_layer0_links ix)[link_addr ix node layer + k := v]\<rparr>
      else ix\<lparr>hn_upper_links := (hn_upper_links ix)[link_addr ix node layer + k := v]\<rparr>)"

definition neighbours :: "hnsw_index \<Rightarrow> local_id \<Rightarrow> nat \<Rightarrow> local_id list" where
  "neighbours ix node layer =
     (if node \<ge> length (hn_node_level ix) then []
      else if layer > hn_node_level ix ! node then []
      else map (\<lambda>i. hn_peek ix node layer (i + 1)) [0..<hn_peek ix node layer 0])"

fun poke_from :: "hnsw_index \<Rightarrow> local_id \<Rightarrow> nat \<Rightarrow> nat \<Rightarrow> local_id list \<Rightarrow> hnsw_index" where
  "poke_from ix node layer i [] = ix"
| "poke_from ix node layer i (v # vs) = poke_from (hn_poke ix node layer (i + 1) v) node layer (i + 1) vs"

definition set_neighbours :: "hnsw_index \<Rightarrow> local_id \<Rightarrow> nat \<Rightarrow> local_id list \<Rightarrow> hnsw_index" where
  "set_neighbours ix node layer ids =
     poke_from (hn_poke ix node layer 0 (cast_u32 (length ids))) node layer 0 ids"

section \<open>The visited set\<close>

record visited_set =
  vst_stamps :: "u32 list"
  vst_generation :: u32

definition vst_empty :: visited_set where
  "vst_empty = \<lparr>vst_stamps = [], vst_generation = 0\<rparr>"

definition vst_resize :: "visited_set \<Rightarrow> nat \<Rightarrow> visited_set" where
  "vst_resize v n =
     (if length (vst_stamps v) < n
      then v\<lparr>vst_stamps := vst_stamps v @ replicate (n - length (vst_stamps v)) 0\<rparr> else v)"

definition vst_begin_search :: "visited_set \<Rightarrow> visited_set" where
  "vst_begin_search v =
     (let g = vst_generation v + 1 in
      if g = 0 then v\<lparr>vst_stamps := replicate (length (vst_stamps v)) 0, vst_generation := 1\<rparr>
      else v\<lparr>vst_generation := g\<rparr>)"

text \<open>
  The stamps cover every node, so the subscript is in range for ids the graph holds; an id beyond them
  (out of bounds in the source) counts as seen here.
\<close>

definition vst_visit :: "visited_set \<Rightarrow> local_id \<Rightarrow> bool \<times> visited_set" where
  "vst_visit v i =
     (if length (vst_stamps v) \<le> i \<or> vst_stamps v ! i = vst_generation v then (False, v)
      else (True, v\<lparr>vst_stamps := (vst_stamps v)[i := vst_generation v]\<rparr>))"

section \<open>Random levels\<close>

definition f64_254 :: f64 where
  "f64_254 = 0x406FC00000000000"

definition random_level :: "(f64 \<Rightarrow> f64) \<Rightarrow> hnsw_index \<Rightarrow> nat \<times> hnsw_index" where
  "random_level logd ix =
     (let (u, g) = rng_uniform (hn_rng ix);
          u = (if f32_le u 0 then f32_min_normal else u);
          level = f64_mul (f64_neg (logd (f64_of_f32 u))) (level_multiplier logd (hn_config ix)) in
      (f64_trunc (if f64_lt f64_254 level then f64_254 else level), ix\<lparr>hn_rng := g\<rparr>))"

text \<open>\<^verbatim>\<open>HnswIndex::rng_state\<close> draws from a copy.\<close>

definition hn_rng_state :: "hnsw_index \<Rightarrow> u64" where
  "hn_rng_state ix = fst (rng_next (hn_rng ix))"

definition hn_restore ::
    "hnsw_index \<Rightarrow> nat list \<Rightarrow> local_id list \<Rightarrow> local_id list \<Rightarrow> nat list \<Rightarrow> local_id \<Rightarrow> nat \<Rightarrow> nat \<Rightarrow> u64 \<Rightarrow>
     hnsw_index" where
  "hn_restore ix levels layer0 upper offsets entry max_level live state =
     ix\<lparr>hn_node_level := levels, hn_layer0_links := layer0, hn_upper_links := upper,
        hn_upper_offsets := offsets, hn_entry_point := entry, hn_max_level := max_level,
        hn_live_count := live, hn_rng := rng_new state\<rparr>"

definition hn_set_accessor :: "hnsw_index \<Rightarrow> accessor \<Rightarrow> hnsw_index" where
  "hn_set_accessor ix ac = ix\<lparr>hn_accessor := ac\<rparr>"

definition hn_remove :: "hnsw_index \<Rightarrow> local_id \<Rightarrow> hnsw_index" where
  "hn_remove ix i =
     (if i \<ge> length (hn_node_level ix) then ix
      else if hn_live_count ix > 0 then ix\<lparr>hn_live_count := hn_live_count ix - 1\<rparr> else ix)"

definition hn_describe :: "hnsw_index \<Rightarrow> string" where
  "hn_describe ix = ''hnsw('' @ hc_describe (hn_config ix) @ '', metric='' @ metric_name (hn_metric ix) @
     '', kernel='' @ kn_name (hn_kernel ix) @ '', layers='' @ show_nat (hn_max_level ix + 1) @ '')''"

section \<open>The arrays are neighbour lists\<close>

definition hn_stride :: "hnsw_index \<Rightarrow> nat \<Rightarrow> nat" where
  "hn_stride ix layer = max_neighbours (hn_config ix) layer + 1"

definition hn_size :: "hnsw_index \<Rightarrow> nat" where
  "hn_size ix = length (hn_node_level ix)"

text \<open>Upper blocks of the nodes before \<open>i\<close>.\<close>

definition upper_before :: "hnsw_index \<Rightarrow> nat \<Rightarrow> nat" where
  "upper_before ix i = sum_list (take i (hn_node_level ix))"

definition hn_shape :: "hnsw_index \<Rightarrow> bool" where
  "hn_shape ix \<longleftrightarrow>
     length (hn_upper_offsets ix) = hn_size ix \<and>
     length (hn_layer0_links ix) = hn_size ix * layer0_stride ix \<and>
     length (hn_upper_links ix) = upper_before ix (hn_size ix) * upper_stride ix \<and>
     (\<forall>i<hn_size ix. hn_upper_offsets ix ! i =
        (if 0 < hn_node_level ix ! i then upper_before ix i * upper_stride ix else kNoUpperLinks))"

definition hn_node :: "hnsw_index \<Rightarrow> local_id \<Rightarrow> nat \<Rightarrow> bool" where
  "hn_node ix i layer \<longleftrightarrow> i < hn_size ix \<and> layer \<le> hn_node_level ix ! i"

text \<open>Every stored count fits its block.\<close>

definition hn_counts :: "hnsw_index \<Rightarrow> bool" where
  "hn_counts ix \<longleftrightarrow> (\<forall>i layer. hn_node ix i layer \<longrightarrow> hn_peek ix i layer 0 \<le> max_neighbours (hn_config ix) layer)"

lemma block_addr_inject: "a * s + k = b * s + j \<Longrightarrow> k < s \<Longrightarrow> j < s \<Longrightarrow> a = b \<and> k = (j::nat)"
proof -
  assume e: "a * s + k = b * s + j" and k: "k < s" "j < s"
  have "(a * s + k) div s = a" "(b * s + j) div s = b" "(a * s + k) mod s = k" "(b * s + j) mod s = j"
    using k by simp_all
  then show ?thesis using e by metis
qed

lemma upper_before_Suc: "i < hn_size ix \<Longrightarrow> upper_before ix (Suc i) = upper_before ix i + hn_node_level ix ! i"
  by (simp add: upper_before_def hn_size_def take_Suc_conv_app_nth)

lemma upper_before_mono: "i \<le> j \<Longrightarrow> upper_before ix i \<le> upper_before ix j"
proof -
  assume "i \<le> j"
  then have "take j (hn_node_level ix) = take i (hn_node_level ix) @ take (j - i) (drop i (hn_node_level ix))"
    by (metis le_add_diff_inverse take_add)
  then show ?thesis by (simp add: upper_before_def)
qed

lemma upper_slot_inject:
  assumes "i < hn_size ix" "j < hn_size ix" "a < hn_node_level ix ! i" "b < hn_node_level ix ! j"
    and "upper_before ix i + a = upper_before ix j + b"
  shows "i = j \<and> a = b"
proof -
  have *: "\<not> i' < j'" if "i' < hn_size ix" "a' < hn_node_level ix ! i'"
    "upper_before ix i' + a' = upper_before ix j' + b'" for i' j' a' b'
  proof
    assume "i' < j'"
    then have "upper_before ix (Suc i') \<le> upper_before ix j'" by (intro upper_before_mono) simp
    then show False using that upper_before_Suc [of i' ix] by simp
  qed
  have "i = j" using * [OF assms(1,3,5)] * [OF assms(2,4) assms(5) [symmetric]] by simp
  then show ?thesis using assms(5) by simp
qed

lemma link_addr_upper:
  assumes "hn_shape ix" "hn_node ix i layer" "0 < layer"
  shows "link_addr ix i layer = (upper_before ix i + (layer - 1)) * upper_stride ix"
proof -
  have "0 < hn_node_level ix ! i" using assms by (auto simp: hn_node_def)
  then have "hn_upper_offsets ix ! i = upper_before ix i * upper_stride ix"
    using assms(1,2) by (simp add: hn_shape_def hn_node_def)
  moreover have "link_addr ix i layer = hn_upper_offsets ix ! i + (layer - 1) * upper_stride ix"
    using assms(3) by (simp add: link_addr_def)
  ultimately show ?thesis by (simp only: add_mult_distrib)
qed

lemma strides: "hn_stride ix 0 = layer0_stride ix" "0 < layer \<Longrightarrow> hn_stride ix layer = upper_stride ix"
  by (simp_all add: hn_stride_def layer0_stride_def upper_stride_def max_neighbours_def)

lemma block_end: "Suc a * s \<le> N \<Longrightarrow> k < s \<Longrightarrow> a * s + k < (N::nat)"
  by simp

lemma link_addr_bound:
  assumes shape: "hn_shape ix" and node: "hn_node ix i layer" and k: "k < hn_stride ix layer"
  shows "layer = 0 \<Longrightarrow> link_addr ix i layer + k < length (hn_layer0_links ix)"
    and "0 < layer \<Longrightarrow> link_addr ix i layer + k < length (hn_upper_links ix)"
proof -
  have i: "i < hn_size ix" using node by (simp add: hn_node_def)
  { assume l: "layer = 0"
    have "Suc i * layer0_stride ix \<le> hn_size ix * layer0_stride ix" using i by (intro mult_right_mono) auto
    then show "link_addr ix i layer + k < length (hn_layer0_links ix)"
      using l k shape strides(1) by (simp add: link_addr_def hn_shape_def) }
  { assume l: "0 < layer"
    have "layer - 1 < hn_node_level ix ! i" using l node by (auto simp: hn_node_def)
    then have "Suc (upper_before ix i + (layer - 1)) \<le> upper_before ix (Suc i)"
      using upper_before_Suc [OF i] by simp
    also have "\<dots> \<le> upper_before ix (hn_size ix)" using i by (intro upper_before_mono) simp
    finally have "Suc (upper_before ix i + (layer - 1)) * upper_stride ix \<le> upper_before ix (hn_size ix) * upper_stride ix"
      by (rule mult_right_mono) simp
    moreover have "k < upper_stride ix" using k strides(2) [OF l] by simp
    ultimately have "(upper_before ix i + (layer - 1)) * upper_stride ix + k <
        upper_before ix (hn_size ix) * upper_stride ix" by (rule block_end)
    then show "link_addr ix i layer + k < length (hn_upper_links ix)"
      using shape link_addr_upper [OF shape node l] by (simp only: hn_shape_def) }
qed

lemma poke_fields [simp]:
  "hn_node_level (hn_poke ix i l k v) = hn_node_level ix" "hn_config (hn_poke ix i l k v) = hn_config ix"
  "hn_upper_offsets (hn_poke ix i l k v) = hn_upper_offsets ix" "hn_accessor (hn_poke ix i l k v) = hn_accessor ix"
  "hn_metric (hn_poke ix i l k v) = hn_metric ix" "hn_kernel (hn_poke ix i l k v) = hn_kernel ix"
  "hn_entry_point (hn_poke ix i l k v) = hn_entry_point ix" "hn_max_level (hn_poke ix i l k v) = hn_max_level ix"
  "hn_live_count (hn_poke ix i l k v) = hn_live_count ix" "hn_rng (hn_poke ix i l k v) = hn_rng ix"
  "length (hn_layer0_links (hn_poke ix i l k v)) = length (hn_layer0_links ix)"
  "length (hn_upper_links (hn_poke ix i l k v)) = length (hn_upper_links ix)"
  by (simp_all add: hn_poke_def)

lemma poke_derived [simp]:
  "hn_size (hn_poke ix i l k v) = hn_size ix" "upper_before (hn_poke ix i l k v) j = upper_before ix j"
  "layer0_stride (hn_poke ix i l k v) = layer0_stride ix" "upper_stride (hn_poke ix i l k v) = upper_stride ix"
  "hn_stride (hn_poke ix i l k v) m = hn_stride ix m" "hn_node (hn_poke ix i l k v) j m = hn_node ix j m"
  "link_addr (hn_poke ix i l k v) j m = link_addr ix j m" "hn_shape (hn_poke ix i l k v) = hn_shape ix"
  by (simp_all add: hn_size_def upper_before_def layer0_stride_def upper_stride_def hn_stride_def hn_node_def
      link_addr_def hn_shape_def)

text \<open>Distinct cells of distinct blocks never share an address.\<close>

lemma peek_poke:
  assumes shape: "hn_shape ix" and c: "hn_node ix i l" "k < hn_stride ix l"
    and c': "hn_node ix j m" "k' < hn_stride ix m"
  shows "hn_peek (hn_poke ix i l k v) j m k' = (if i = j \<and> l = m \<and> k = k' then v else hn_peek ix j m k')"
proof (cases "(l = 0) = (m = 0)")
  case False
  then have "l \<noteq> m" by auto
  then show ?thesis using False by (auto simp: hn_peek_def hn_poke_def link_addr_def layer0_stride_def upper_stride_def)
next
  case True
  have inj: "i = j \<and> l = m \<and> k = k'" if e: "link_addr ix i l + k = link_addr ix j m + k'"
  proof (cases "l = 0")
    case l0: True
    then have m0: "m = 0" using True by simp
    have "i * layer0_stride ix + k = j * layer0_stride ix + k'" using e l0 m0 by (simp add: link_addr_def)
    then show ?thesis using block_addr_inject [of i _ k j k'] c(2) c'(2) l0 m0 by (simp add: strides)
  next
    case lp: False
    then have mp: "0 < m" "0 < l" using True by simp_all
    have "upper_before ix i + (l - 1) = upper_before ix j + (m - 1) \<and> k = k'"
      using e c(2) c'(2) mp link_addr_upper [OF shape c(1) mp(2)] link_addr_upper [OF shape c'(1) mp(1)]
      by (intro block_addr_inject) (simp_all add: strides)
    moreover have "l - 1 < hn_node_level ix ! i" "m - 1 < hn_node_level ix ! j"
      using c(1) c'(1) mp by (auto simp: hn_node_def)
    ultimately have "i = j \<and> l - 1 = m - 1" "k = k'"
      using upper_slot_inject [of i ix j "l - 1" "m - 1"] c(1) c'(1) by (auto simp: hn_node_def)
    then show ?thesis using mp by auto
  qed
  have eq: "(link_addr ix i l + k = link_addr ix j m + k') = (i = j \<and> l = m \<and> k = k')"
    using inj by auto
  show ?thesis
  proof (cases "l = 0")
    case l0: True
    then show ?thesis
      using True link_addr_bound(1) [OF shape c] eq by (simp add: hn_peek_def hn_poke_def nth_list_update)
        (auto simp: link_addr_def layer0_stride_def)
  next
    case lp: False
    then show ?thesis
      using True link_addr_bound(2) [OF shape c] eq by (simp add: hn_peek_def hn_poke_def nth_list_update)
        (auto simp: link_addr_def upper_stride_def)
  qed
qed

lemma neighbours_node:
  "hn_node ix i l \<Longrightarrow> neighbours ix i l = map (\<lambda>k. hn_peek ix i l (k + 1)) [0..<hn_peek ix i l 0]"
  by (simp add: neighbours_def hn_node_def hn_size_def)

lemma neighbours_not_node: "\<not> hn_node ix i l \<Longrightarrow> neighbours ix i l = []"
  by (auto simp: neighbours_def hn_node_def hn_size_def)

lemma poke_from_fields [simp]:
  "hn_node_level (poke_from ix i l k vs) = hn_node_level ix" "hn_config (poke_from ix i l k vs) = hn_config ix"
  "hn_upper_offsets (poke_from ix i l k vs) = hn_upper_offsets ix" "hn_accessor (poke_from ix i l k vs) = hn_accessor ix"
  "hn_metric (poke_from ix i l k vs) = hn_metric ix" "hn_kernel (poke_from ix i l k vs) = hn_kernel ix"
  "hn_entry_point (poke_from ix i l k vs) = hn_entry_point ix" "hn_max_level (poke_from ix i l k vs) = hn_max_level ix"
  "hn_live_count (poke_from ix i l k vs) = hn_live_count ix" "hn_rng (poke_from ix i l k vs) = hn_rng ix"
  "hn_size (poke_from ix i l k vs) = hn_size ix" "hn_node (poke_from ix i l k vs) = hn_node ix"
  "hn_stride (poke_from ix i l k vs) = hn_stride ix" "hn_shape (poke_from ix i l k vs) = hn_shape ix"
  "length (hn_layer0_links (poke_from ix i l k vs)) = length (hn_layer0_links ix)"
  "length (hn_upper_links (poke_from ix i l k vs)) = length (hn_upper_links ix)"
  by (induction vs arbitrary: ix k) (simp_all add: fun_eq_iff)

lemma peek_poke_from:
  assumes shape: "hn_shape ix" and c: "hn_node ix i l" "k + length vs < hn_stride ix l"
    and c': "hn_node ix j m" "k' < hn_stride ix m"
  shows "hn_peek (poke_from ix i l k vs) j m k' =
    (if i = j \<and> l = m \<and> k < k' \<and> k' \<le> k + length vs then vs ! (k' - k - 1) else hn_peek ix j m k')"
  using assms
proof (induction vs arbitrary: ix k)
  case (Cons v vs)
  let ?ix = "hn_poke ix i l (k + 1) v"
  have "hn_peek (poke_from ?ix i l (k + 1) vs) j m k' =
      (if i = j \<and> l = m \<and> k + 1 < k' \<and> k' \<le> k + 1 + length vs then vs ! (k' - (k + 1) - 1) else hn_peek ?ix j m k')"
    using Cons.prems by (intro Cons.IH) simp_all
  moreover have "hn_peek ?ix j m k' = (if i = j \<and> l = m \<and> k + 1 = k' then v else hn_peek ix j m k')"
    using Cons.prems by (intro peek_poke) simp_all
  ultimately show ?case by (auto simp: nth_Cons' numeral_eq_Suc)
qed simp

lemma set_neighbours_fields [simp]:
  "hn_node_level (set_neighbours ix i l vs) = hn_node_level ix" "hn_config (set_neighbours ix i l vs) = hn_config ix"
  "hn_upper_offsets (set_neighbours ix i l vs) = hn_upper_offsets ix" "hn_accessor (set_neighbours ix i l vs) = hn_accessor ix"
  "hn_metric (set_neighbours ix i l vs) = hn_metric ix" "hn_kernel (set_neighbours ix i l vs) = hn_kernel ix"
  "hn_entry_point (set_neighbours ix i l vs) = hn_entry_point ix" "hn_max_level (set_neighbours ix i l vs) = hn_max_level ix"
  "hn_live_count (set_neighbours ix i l vs) = hn_live_count ix" "hn_rng (set_neighbours ix i l vs) = hn_rng ix"
  "hn_size (set_neighbours ix i l vs) = hn_size ix" "hn_node (set_neighbours ix i l vs) = hn_node ix"
  "hn_stride (set_neighbours ix i l vs) = hn_stride ix" "hn_shape (set_neighbours ix i l vs) = hn_shape ix"
  by (simp_all add: set_neighbours_def fun_eq_iff)

lemma peek_set_neighbours:
  assumes shape: "hn_shape ix" and c: "hn_node ix i l" "length vs < hn_stride ix l" "length vs < 2 ^ 32"
    and c': "hn_node ix j m" "k < hn_stride ix m"
  shows "hn_peek (set_neighbours ix i l vs) j m k =
    (if i = j \<and> l = m \<and> k \<le> length vs then (if k = 0 then length vs else vs ! (k - 1)) else hn_peek ix j m k)"
proof -
  let ?ix = "hn_poke ix i l 0 (cast_u32 (length vs))"
  have "hn_peek (poke_from ?ix i l 0 vs) j m k =
      (if i = j \<and> l = m \<and> 0 < k \<and> k \<le> 0 + length vs then vs ! (k - 0 - 1) else hn_peek ?ix j m k)"
    using assms by (intro peek_poke_from) simp_all
  moreover have "hn_peek ?ix j m k = (if i = j \<and> l = m \<and> 0 = k then cast_u32 (length vs) else hn_peek ix j m k)"
    using c c' shape by (intro peek_poke) (simp_all add: hn_stride_def)
  ultimately show ?thesis unfolding set_neighbours_def using cast_u32_id [OF c(3)] by auto
qed

text \<open>Writing a block changes that list and no other.\<close>

lemma neighbours_set_neighbours:
  assumes shape: "hn_shape ix" and counts: "hn_counts ix"
    and c: "hn_node ix i l" "length vs \<le> max_neighbours (hn_config ix) l" "length vs < 2 ^ 32"
  shows "neighbours (set_neighbours ix i l vs) j m = (if i = j \<and> l = m then vs else neighbours ix j m)"
    and "hn_counts (set_neighbours ix i l vs)"
proof -
  have len: "length vs < hn_stride ix l" using c(2) by (simp add: hn_stride_def)
  note peek = peek_set_neighbours [OF shape c(1) len c(3)]
  have z: "hn_peek (set_neighbours ix i l vs) j m 0 = (if i = j \<and> l = m then length vs else hn_peek ix j m 0)"
    if "hn_node ix j m" for j m
    using peek [OF that, of 0] by (simp add: hn_stride_def)
  show "hn_counts (set_neighbours ix i l vs)"
    using counts c(2) z by (simp add: hn_counts_def)
  show "neighbours (set_neighbours ix i l vs) j m = (if i = j \<and> l = m then vs else neighbours ix j m)"
  proof (cases "hn_node ix j m")
    case True
    have cnt: "hn_peek ix j m 0 \<le> max_neighbours (hn_config ix) m" using counts True by (simp add: hn_counts_def)
    show ?thesis
    proof (cases "i = j \<and> l = m")
      case same: True
      have "map (\<lambda>k. hn_peek (set_neighbours ix i l vs) j m (k + 1)) [0..<length vs] = vs"
        using peek [OF True] same len by (intro nth_equalityI) simp_all
      then show ?thesis using same True z [OF True] by (simp add: neighbours_node)
    next
      case False
      have "map (\<lambda>k. hn_peek (set_neighbours ix i l vs) j m (k + 1)) [0..<hn_peek ix j m 0] =
          map (\<lambda>k. hn_peek ix j m (k + 1)) [0..<hn_peek ix j m 0]"
        using peek [OF True] False cnt by (auto simp: hn_stride_def)
      moreover have "hn_peek (set_neighbours ix i l vs) j m 0 = hn_peek ix j m 0"
        using z [OF True] False by auto
      ultimately show ?thesis unfolding if_not_P [OF False] using True by (simp add: neighbours_node)
    qed
  next
    case False
    then show ?thesis using c(1) by (auto simp: neighbours_not_node)
  qed
qed

lemma length_neighbours:
  "hn_counts ix \<Longrightarrow> hn_node ix i l \<Longrightarrow> length (neighbours ix i l) \<le> max_neighbours (hn_config ix) l"
  by (simp add: neighbours_node hn_counts_def)

end
