(* ===== verification/Vdb_HnswSearch.thy ===== *)
theory Vdb_HnswSearch
  imports Vdb_HnswGraph
begin

text \<open>
  Searching the HNSW graph (\<^verbatim>\<open>src/index/hnsw/hnsw_index.cpp\<close>): the greedy descent through the upper
  layers and the best-first search of one layer with its two heaps and its visited set, which is
  taken and returned as the scratch of the calling thread. The lemmas give the visited set as a set,
  the descent as a walk to a local minimum, and the layer search by counting: it returns exactly
  \<open>min ef r\<close> nodes, where \<open>r\<close> is the number of nodes reachable from its entry points.
\<close>

section \<open>Greedy descent\<close>

definition hn_dist :: "hnsw_index \<Rightarrow> vec \<Rightarrow> f32 \<Rightarrow> local_id \<Rightarrow> f32" where
  "hn_dist ix query query_norm i =
     with_norms (hn_kernel ix) (hn_metric ix) query query_norm
       (ac_vector (hn_accessor ix) i) (ac_norm (hn_accessor ix) i)"

text \<open>One pass over a neighbour list: the current node, its distance, whether it changed.\<close>

fun greedy_pass :: "(local_id \<Rightarrow> f32) \<Rightarrow> local_id list \<Rightarrow> local_id \<times> f32 \<times> bool \<Rightarrow> local_id \<times> f32 \<times> bool" where
  "greedy_pass dst [] s = s"
| "greedy_pass dst (n # ns) (current, current_distance, improved) =
     (let d = dst n in
      if f32_lt d current_distance then greedy_pass dst ns (n, d, True)
      else greedy_pass dst ns (current, current_distance, improved))"

lemma greedy_pass_rank:
  "greedy_pass dst ns (c, cd, imp) = (c', cd', imp') \<Longrightarrow>
   (c', cd') = (c, cd) \<and> imp' = imp \<or> f32_lt cd' cd \<and> imp'"
proof (induction ns arbitrary: c cd imp)
  case (Cons n ns)
  show ?case
  proof (cases "f32_lt (dst n) cd")
    case True
    then have "(c', cd') = (n, dst n) \<and> imp' = True \<or> f32_lt cd' (dst n) \<and> imp'"
      using Cons.prems by (intro Cons.IH) (simp add: Let_def)
    then show ?thesis using True f32_lt_trans [OF _ True] by auto
  next
    case False
    then show ?thesis using Cons.prems by (intro Cons.IH) (simp add: Let_def)
  qed
qed simp

function greedy_loop :: "(local_id \<Rightarrow> f32) \<Rightarrow> (local_id \<Rightarrow> local_id list) \<Rightarrow> local_id \<Rightarrow> f32 \<Rightarrow> local_id" where
  "greedy_loop dst nb current current_distance =
     (case greedy_pass dst (nb current) (current, current_distance, False) of
        (c, d, improved) \<Rightarrow> if improved then greedy_loop dst nb c d else c)"
  by pat_completeness auto
termination
proof (relation "measure (\<lambda>(dst, nb, current, current_distance). f32_rank current_distance)", goal_cases)
  case (2 dst nb c cd c' r' cd' imp')
  then have "f32_lt cd' cd" using greedy_pass_rank [of dst "nb c" c cd False c' cd' imp'] by auto
  then show ?case using f32_rank_less by simp
qed simp

declare greedy_loop.simps [simp del]

definition greedy_descend :: "hnsw_index \<Rightarrow> vec \<Rightarrow> f32 \<Rightarrow> local_id \<Rightarrow> nat \<Rightarrow> local_id" where
  "greedy_descend ix query query_norm entry layer =
     greedy_loop (hn_dist ix query query_norm) (\<lambda>i. neighbours ix i layer) entry
       (hn_dist ix query query_norm entry)"

text \<open>The descent of \<^verbatim>\<open>search\<close> and \<^verbatim>\<open>add\<close> from layer \<open>layer\<close> down to, but excluding, \<open>level\<close>.\<close>

fun descend_to :: "hnsw_index \<Rightarrow> vec \<Rightarrow> f32 \<Rightarrow> nat \<Rightarrow> nat \<Rightarrow> local_id \<Rightarrow> local_id" where
  "descend_to ix query query_norm level 0 entry = entry"
| "descend_to ix query query_norm level (Suc layer) entry =
     (if Suc layer > level
      then descend_to ix query query_norm level layer (greedy_descend ix query query_norm entry (Suc layer))
      else entry)"

section \<open>Layer search\<close>

definition candidate_worse :: "candidate \<Rightarrow> candidate \<Rightarrow> bool" where
  "candidate_worse a b = candidate_better b a"

record search_state =
  ss_visited :: visited_set
  ss_frontier :: "candidate list"
  ss_best :: "candidate list"

definition push_frontier :: "candidate \<Rightarrow> candidate list \<Rightarrow> candidate list" where
  "push_frontier c xs = push_heap candidate_worse (xs @ [c])"

definition push_best :: "candidate \<Rightarrow> candidate list \<Rightarrow> candidate list" where
  "push_best c xs = push_heap candidate_better (xs @ [c])"

definition pop_best :: "candidate list \<Rightarrow> candidate list" where
  "pop_best xs = butlast (pop_heap candidate_better xs)"

fun seed_entries :: "(local_id \<Rightarrow> f32) \<Rightarrow> local_id list \<Rightarrow> search_state \<Rightarrow> search_state" where
  "seed_entries dst [] s = s"
| "seed_entries dst (entry # es) s =
     (let (fresh, v) = vst_visit (ss_visited s) entry in
      if \<not> fresh then seed_entries dst es (s\<lparr>ss_visited := v\<rparr>)
      else let c = \<lparr>local_id = entry, key = dst entry\<rparr> in
        seed_entries dst es \<lparr>ss_visited = v, ss_frontier = push_frontier c (ss_frontier s),
          ss_best = push_best c (ss_best s)\<rparr>)"

text \<open>The body of the loop over the neighbours of the expanded node.\<close>

fun expand :: "(local_id \<Rightarrow> f32) \<Rightarrow> nat \<Rightarrow> local_id list \<Rightarrow> search_state \<Rightarrow> search_state" where
  "expand dst ef [] s = s"
| "expand dst ef (n # ns) s =
     (let (fresh, v) = vst_visit (ss_visited s) n in
      if \<not> fresh then expand dst ef ns (s\<lparr>ss_visited := v\<rparr>)
      else let d = dst n; c = \<lparr>local_id = n, key = d\<rparr> in
        if length (ss_best s) < ef \<or> f32_lt d (key (hd (ss_best s))) then
          let b = push_best c (ss_best s) in
          expand dst ef ns \<lparr>ss_visited = v, ss_frontier = push_frontier c (ss_frontier s),
            ss_best = (if length b > ef then pop_best b else b)\<rparr>
        else expand dst ef ns (s\<lparr>ss_visited := v\<rparr>))"

text \<open>Nodes the current search has not seen.\<close>

definition vst_members :: "visited_set \<Rightarrow> nat set" where
  "vst_members v = {i. i < length (vst_stamps v) \<and> vst_stamps v ! i = vst_generation v}"

definition vst_unseen :: "visited_set \<Rightarrow> nat" where
  "vst_unseen v = card ({..<length (vst_stamps v)} - vst_members v)"

lemma vst_visit_fresh [simp]: "fst (vst_visit v i) \<longleftrightarrow> i < length (vst_stamps v) \<and> i \<notin> vst_members v"
  by (auto simp: vst_visit_def vst_members_def)

lemma vst_visit_members [simp]:
  "vst_members (snd (vst_visit v i)) = (if i < length (vst_stamps v) then insert i (vst_members v) else vst_members v)"
  by (auto simp: vst_visit_def vst_members_def nth_list_update)

lemma vst_visit_fields [simp]:
  "length (vst_stamps (snd (vst_visit v i))) = length (vst_stamps v)"
  "vst_generation (snd (vst_visit v i)) = vst_generation v"
  by (simp_all add: vst_visit_def)

lemma vst_visit_cases:
  obtains "vst_visit v i = (False, v)" "length (vst_stamps v) \<le> i \<or> i \<in> vst_members v"
  | v' where "vst_visit v i = (True, v')" "i < length (vst_stamps v)" "i \<notin> vst_members v"
      "vst_members v' = insert i (vst_members v)" "length (vst_stamps v') = length (vst_stamps v)"
proof (cases "fst (vst_visit v i)")
  case True
  then have *: "vst_visit v i = (True, snd (vst_visit v i))" by (simp only: prod_eq_iff) simp
  have i: "i < length (vst_stamps v)" "i \<notin> vst_members v" using True by simp_all
  show thesis by (rule that(2) [OF * i]) (use i in simp_all)
next
  case False
  then have "vst_visit v i = (False, v)" by (auto simp: vst_visit_def split: if_splits)
  moreover have "length (vst_stamps v) \<le> i \<or> i \<in> vst_members v" using False by (simp add: not_less)
  ultimately show thesis by (rule that(1))
qed

lemma vst_members_bound: "vst_members v \<subseteq> {..<length (vst_stamps v)}"
  by (auto simp: vst_members_def)

lemma vst_members_finite [simp]: "finite (vst_members v)"
  by (rule finite_subset [OF vst_members_bound]) simp

lemma vst_unseen_insert:
  assumes "vst_members v' = insert i (vst_members v)" "length (vst_stamps v') = length (vst_stamps v)"
    and "i < length (vst_stamps v)" "i \<notin> vst_members v"
  shows "vst_unseen v = Suc (vst_unseen v')"
proof -
  have "{..<length (vst_stamps v)} - vst_members v = insert i ({..<length (vst_stamps v)} - vst_members v')"
    using assms by auto
  moreover have "card (insert i ({..<length (vst_stamps v)} - vst_members v')) =
      Suc (card ({..<length (vst_stamps v)} - vst_members v'))"
    by (rule card_insert_disjoint) (simp_all add: assms(1))
  ultimately show ?thesis unfolding vst_unseen_def assms(2) by (rule trans [OF arg_cong])
qed

lemma length_push [simp]: "length (push_frontier c xs) = Suc (length xs)" "length (push_best c xs) = Suc (length xs)"
  by (simp_all add: push_frontier_def push_best_def)

lemma expand_measure:
  "vst_unseen (ss_visited (expand dst ef ns s)) + length (ss_frontier (expand dst ef ns s)) \<le>
   vst_unseen (ss_visited s) + length (ss_frontier s)"
proof (induction ns arbitrary: s)
  case (Cons n ns)
  show ?case
  proof (cases rule: vst_visit_cases [of "ss_visited s" n])
    case 1
    then show ?thesis using Cons.IH [of "s\<lparr>ss_visited := ss_visited s\<rparr>"] by simp
  next
    case (2 v')
    note u = vst_unseen_insert [OF 2(4,5,2,3)]
    let ?c = "\<lparr>local_id = n, key = dst n\<rparr>" let ?b = "push_best ?c (ss_best s)"
    note IH1 = Cons.IH [of "\<lparr>ss_visited = v', ss_frontier = push_frontier ?c (ss_frontier s),
        ss_best = (if length ?b > ef then pop_best ?b else ?b)\<rparr>"]
    note IH2 = Cons.IH [of "s\<lparr>ss_visited := v'\<rparr>"]
    show ?thesis
    proof (cases "length (ss_best s) < ef \<or> f32_lt (dst n) (key (hd (ss_best s)))")
      case True
      then show ?thesis using IH1 2(1) u by (simp add: Let_def)
    next
      case False
      then show ?thesis using IH2 2(1) u by (simp add: Let_def)
    qed
  qed
qed simp

function search_loop :: "(local_id \<Rightarrow> f32) \<Rightarrow> (local_id \<Rightarrow> local_id list) \<Rightarrow> nat \<Rightarrow> search_state \<Rightarrow> search_state" where
  "search_loop dst nb ef s =
     (if ss_frontier s = [] then s
      else let f = pop_heap candidate_worse (ss_frontier s); current = last f;
             s' = s\<lparr>ss_frontier := butlast f\<rparr> in
        if length (ss_best s') \<ge> ef \<and> candidate_better (hd (ss_best s')) current then s'
        else search_loop dst nb ef (expand dst ef (nb (local_id current)) s'))"
  by pat_completeness auto
termination
proof (relation "measure (\<lambda>(dst, nb, ef, s). vst_unseen (ss_visited s) + length (ss_frontier s))", goal_cases)
  case (2 dst nb ef s f current s')
  then show ?case
    using expand_measure [of dst ef "nb (local_id current)" s'] by (cases "ss_frontier s") (auto simp: length_pop_heap)
qed simp

declare search_loop.simps [simp del]

definition search_layer ::
    "hnsw_index \<Rightarrow> vec \<Rightarrow> f32 \<Rightarrow> local_id list \<Rightarrow> nat \<Rightarrow> nat \<Rightarrow> visited_set \<Rightarrow> candidate list \<times> visited_set" where
  "search_layer ix query query_norm entry_points ef layer scratch =
     (let dst = hn_dist ix query query_norm;
          v = vst_begin_search (vst_resize scratch (length (hn_node_level ix)));
          s = seed_entries dst entry_points \<lparr>ss_visited = v, ss_frontier = [], ss_best = []\<rparr>;
          s = search_loop dst (\<lambda>i. neighbours ix i layer) ef s in
      (sort_by candidate_better (ss_best s), ss_visited s))"

definition hn_query_norm :: "hnsw_index \<Rightarrow> vec \<Rightarrow> f32" where
  "hn_query_norm ix query = (if hn_metric ix = Cosine then l2_norm query else 0)"

definition hn_ef :: "hnsw_index \<Rightarrow> search_params \<Rightarrow> nat" where
  "hn_ef ix params = max (sp_k params) (if sp_ef_search params > 0 then sp_ef_search params
     else hc_ef_search (hn_config ix))"

definition hn_search ::
    "hnsw_index \<Rightarrow> vec \<Rightarrow> search_params \<Rightarrow> visited_set \<Rightarrow> (candidate list \<times> visited_set) result" where
  "hn_search ix query params scratch =
     (if sp_k params = 0 then Inl InvalidArgumentError
      else if length query \<noteq> ac_dimension (hn_accessor ix)
      then Inl (DimensionMismatchError (ac_dimension (hn_accessor ix)) (cast_u32 (length query)))
      else if hn_entry_point ix = kInvalidLocalId then Inr ([], scratch)
      else let query_norm = hn_query_norm ix query;
               entry = descend_to ix query query_norm 0 (hn_max_level ix) (hn_entry_point ix);
               (found, scratch) = search_layer ix query query_norm [entry] (hn_ef ix params) 0 scratch in
        Inr (take (sp_k params) (filter (\<lambda>c. ac_is_live (hn_accessor ix) (local_id c)) found), scratch))"

section \<open>The visited set is a set\<close>

text \<open>No stamp is ahead of the generation, so a new generation starts empty; when the counter wraps to
  zero the stamps are cleared.\<close>

definition vst_inv :: "visited_set \<Rightarrow> bool" where
  "vst_inv v \<longleftrightarrow> (\<forall>x\<in>set (vst_stamps v). x \<le> vst_generation v)"

lemma vst_inv_empty [simp]: "vst_inv vst_empty"
  by (simp add: vst_inv_def vst_empty_def)

lemma vst_inv_resize: "vst_inv v \<Longrightarrow> vst_inv (vst_resize v n)"
  by (auto simp: vst_inv_def vst_resize_def)

lemma vst_resize_length: "n \<le> length (vst_stamps (vst_resize v n))"
  by (simp add: vst_resize_def)

lemma vst_inv_visit: "vst_inv v \<Longrightarrow> vst_inv (snd (vst_visit v i))"
  by (auto simp: vst_inv_def vst_visit_def dest: subsetD [OF set_update_subset_insert])

lemma vst_begin:
  assumes "vst_inv v"
  shows "vst_inv (vst_begin_search v)" and "vst_members (vst_begin_search v) = {}"
    and "length (vst_stamps (vst_begin_search v)) = length (vst_stamps v)"
proof -
  let ?g = "vst_generation v + 1"
  have old: "x < ?g" if "?g \<noteq> 0" "x \<in> set (vst_stamps v)" for x
  proof -
    have "x \<le> vst_generation v" using assms that(2) by (simp add: vst_inv_def)
    also have "\<dots> < ?g" using unatSuc [of "vst_generation v"] that(1) by (simp add: word_less_nat_alt add.commute)
    finally show ?thesis .
  qed
  show "length (vst_stamps (vst_begin_search v)) = length (vst_stamps v)"
    by (simp add: vst_begin_search_def Let_def)
  show "vst_inv (vst_begin_search v)"
    using old by (auto simp: vst_inv_def vst_begin_search_def Let_def less_imp_le)
  show "vst_members (vst_begin_search v) = {}"
  proof (cases "?g = 0")
    case True
    then show ?thesis by (auto simp: vst_members_def vst_begin_search_def Let_def)
  next
    case False
    have "vst_stamps v ! i \<noteq> ?g" if "i < length (vst_stamps v)" for i
      using old [OF False nth_mem [OF that]] by auto
    then show ?thesis using False by (auto simp: vst_members_def vst_begin_search_def Let_def)
  qed
qed

text \<open>What the search needs of its scratch.\<close>

locale visit_marks =
  fixes ok :: "'v \<Rightarrow> bool" and room :: "'v \<Rightarrow> nat" and seen :: "'v \<Rightarrow> nat set"
    and start :: "'v \<Rightarrow> nat \<Rightarrow> 'v" and mark :: "'v \<Rightarrow> nat \<Rightarrow> bool \<times> 'v"
  assumes start: "ok v \<Longrightarrow> ok (start v n) \<and> seen (start v n) = {} \<and> n \<le> room (start v n)"
    and mark: "ok v \<Longrightarrow> ok (snd (mark v i)) \<and> room (snd (mark v i)) = room v"
    and mark_seen: "ok v \<Longrightarrow> i < room v \<Longrightarrow> fst (mark v i) = (i \<notin> seen v) \<and> seen (snd (mark v i)) = insert i (seen v)"
begin

text \<open>Marking a list of ids answers, for each, whether it occurs for the first time.\<close>

lemma marks:
  assumes "ok v" "set is \<subseteq> {..<room v}"
  shows "ok (foldl (\<lambda>v i. snd (mark v i)) v is) \<and> room (foldl (\<lambda>v i. snd (mark v i)) v is) = room v \<and>
    seen (foldl (\<lambda>v i. snd (mark v i)) v is) = seen v \<union> set is"
  using assms
proof (induction "is" arbitrary: v)
  case (Cons i "is")
  then show ?case using mark [of v i] mark_seen [of v i] by auto
qed simp

lemma mark_after:
  assumes "ok v" "set is \<subseteq> {..<n}" "i < n"
  shows "fst (mark (foldl (\<lambda>v i. snd (mark v i)) (start v n) is) i) \<longleftrightarrow> i \<notin> set is"
proof -
  have S: "ok (start v n)" "seen (start v n) = {}" "n \<le> room (start v n)" using start [OF assms(1)] by simp_all
  have sub: "set is \<subseteq> {..<room (start v n)}" using assms(2) S(3) by (auto dest: subsetD [OF assms(2)])
  show ?thesis using marks [OF S(1) sub] mark_seen assms(3) S(2,3) by simp
qed

end

interpretation visited: visit_marks vst_inv "\<lambda>v. length (vst_stamps v)" vst_members
  "\<lambda>v n. vst_begin_search (vst_resize v n)" vst_visit
  by unfold_locales (simp_all add: vst_begin vst_inv_resize vst_resize_length vst_inv_visit)

section \<open>The descent finds a local minimum\<close>

inductive reaches :: "('a \<Rightarrow> 'a list) \<Rightarrow> 'a \<Rightarrow> 'a \<Rightarrow> bool" for nb where
  here: "reaches nb i i"
| there: "reaches nb i j \<Longrightarrow> k \<in> set (nb j) \<Longrightarrow> reaches nb i k"

lemma reaches_trans: "reaches nb j k \<Longrightarrow> reaches nb i j \<Longrightarrow> reaches nb i k"
  by (induction rule: reaches.induct) (auto intro: reaches.there)

lemma reaches_closed: "reaches nb i j \<Longrightarrow> i \<in> S \<Longrightarrow> (\<And>x. x \<in> S \<Longrightarrow> set (nb x) \<subseteq> S) \<Longrightarrow> j \<in> S"
  by (induction rule: reaches.induct) auto

lemma greedy_pass_result:
  "greedy_pass dst ns (c, dst c, imp) = (c', cd', imp') \<Longrightarrow>
   cd' = dst c' \<and> (c' = c \<or> c' \<in> set ns) \<and> (\<forall>n\<in>set ns. \<not> f32_lt (dst n) cd')"
proof (induction ns arbitrary: c imp)
  case (Cons n ns)
  show ?case
  proof (cases "f32_lt (dst n) (dst c)")
    case True
    then have g: "greedy_pass dst ns (n, dst n, True) = (c', cd', imp')" using Cons.prems by (simp add: Let_def)
    note IH = Cons.IH [OF g]
    have "\<not> f32_lt (dst n) cd'"
      using greedy_pass_rank [OF g] f32_lt_irrefl [of cd'] f32_lt_irrefl [of "dst n"] f32_lt_trans [of cd' "dst n" cd'] by auto
    then show ?thesis using IH by auto
  next
    case False
    then have g: "greedy_pass dst ns (c, dst c, imp) = (c', cd', imp')" using Cons.prems by (simp add: Let_def)
    note IH = Cons.IH [OF g]
    have "\<not> f32_lt (dst n) cd'"
      using greedy_pass_rank [OF g] False f32_lt_trans by auto
    then show ?thesis using IH by auto
  qed
qed simp

lemma greedy_loop_result:
  "(\<forall>n\<in>set (nb (greedy_loop dst nb c (dst c))). \<not> f32_lt (dst n) (dst (greedy_loop dst nb c (dst c)))) \<and>
   (greedy_loop dst nb c (dst c) = c \<or> f32_lt (dst (greedy_loop dst nb c (dst c))) (dst c)) \<and>
   reaches nb c (greedy_loop dst nb c (dst c))"
proof (induction dst nb c "dst c" rule: greedy_loop.induct)
  case (1 dst nb c)
  obtain c' cd' imp' where g: "greedy_pass dst (nb c) (c, dst c, False) = (c', cd', imp')"
    by (cases "greedy_pass dst (nb c) (c, dst c, False)") auto
  note R = greedy_pass_result [OF g] and K = greedy_pass_rank [OF g]
  show ?case
  proof (cases imp')
    case True
    then have lt: "f32_lt (dst c') (dst c)" using R K by auto
    then have "c' \<in> set (nb c)" using R f32_lt_irrefl by auto
    then have step: "reaches nb c c'" by (intro reaches.there [OF reaches.here])
    have cd: "cd' = dst c'" using R by simp
    have e: "greedy_loop dst nb c (dst c) = greedy_loop dst nb c' (dst c')"
      using True g cd by (subst greedy_loop.simps) simp
    note g' = g [unfolded cd]
    note IH = "1.hyps" [OF g' [symmetric] refl True]
    show ?thesis unfolding e using IH lt f32_lt_trans [OF _ lt] reaches_trans [OF _ step] by auto
  next
    case False
    then have "greedy_loop dst nb c (dst c) = c" "c' = c" using g K by (auto simp: greedy_loop.simps [of dst nb c])
    then show ?thesis using R by (auto intro: reaches.here)
  qed
qed

text \<open>A graph whose links stay inside it.\<close>

definition hn_links_ok :: "hnsw_index \<Rightarrow> bool" where
  "hn_links_ok ix \<longleftrightarrow> (\<forall>i layer. \<forall>j\<in>set (neighbours ix i layer). hn_node ix j layer)"

definition hn_entry_ok :: "hnsw_index \<Rightarrow> bool" where
  "hn_entry_ok ix \<longleftrightarrow> hn_size ix \<le> kMaxVectorCount \<and>
     (if hn_size ix = 0 then hn_entry_point ix = kInvalidLocalId
      else hn_node ix (hn_entry_point ix) (hn_max_level ix))"

definition hn_graph :: "hnsw_index \<Rightarrow> bool" where
  "hn_graph ix \<longleftrightarrow> hn_links_ok ix \<and> hn_entry_ok ix"

lemma hn_node_mono: "hn_node ix i l \<Longrightarrow> m \<le> l \<Longrightarrow> hn_node ix i m"
  by (simp add: hn_node_def)

lemma greedy_descend_node:
  assumes "hn_links_ok ix" "hn_node ix entry layer"
  shows "hn_node ix (greedy_descend ix q qn entry layer) layer"
proof -
  have "reaches (\<lambda>i. neighbours ix i layer) entry (greedy_descend ix q qn entry layer)"
    unfolding greedy_descend_def using greedy_loop_result by blast
  then have "greedy_descend ix q qn entry layer \<in> {i. hn_node ix i layer}"
    by (rule reaches_closed) (use assms in \<open>auto simp: hn_links_ok_def\<close>)
  then show ?thesis by simp
qed

lemma descend_to_node:
  assumes "hn_links_ok ix" "hn_node ix entry layer"
  shows "hn_node ix (descend_to ix q qn level layer entry) (min level layer)"
  using assms(2)
proof (induction layer arbitrary: entry)
  case (Suc layer)
  show ?case
  proof (cases "Suc layer > level")
    case True
    have "hn_node ix (greedy_descend ix q qn entry (Suc layer)) layer"
      by (rule hn_node_mono [OF greedy_descend_node [OF assms(1) Suc.prems]]) simp
    from Suc.IH [OF this] show ?thesis using True by simp
  next
    case False
    then show ?thesis using Suc.prems by (simp add: min_def)
  qed
qed simp

section \<open>What a layer search keeps\<close>

text \<open>
  \<open>R\<close> is the set the search may see. Both heaps hold seen nodes with their own distances, \<open>best\<close> holds
  no node twice and as many as it may, and as long as it is not full every seen node outside \<open>E\<close> is
  still to be expanded or has all its neighbours seen.
\<close>

definition held :: "(local_id \<Rightarrow> f32) \<Rightarrow> visited_set \<Rightarrow> candidate list \<Rightarrow> bool" where
  "held dst v cs \<longleftrightarrow> (\<forall>c\<in>set cs. local_id c \<in> vst_members v \<and> key c = dst (local_id c))"

definition layer_inv ::
    "(local_id \<Rightarrow> f32) \<Rightarrow> (local_id \<Rightarrow> local_id list) \<Rightarrow> nat \<Rightarrow> nat set \<Rightarrow> nat set \<Rightarrow> search_state \<Rightarrow> bool" where
  "layer_inv dst nb ef R E s \<longleftrightarrow>
     vst_inv (ss_visited s) \<and> R \<subseteq> {..<length (vst_stamps (ss_visited s))} \<and>
     vst_members (ss_visited s) \<subseteq> R \<and>
     held dst (ss_visited s) (ss_frontier s) \<and> held dst (ss_visited s) (ss_best s) \<and>
     distinct (map local_id (ss_best s)) \<and>
     length (ss_best s) = min ef (card (vst_members (ss_visited s))) \<and>
     (length (ss_best s) < ef \<longrightarrow> (\<forall>m\<in>vst_members (ss_visited s) - E.
        m \<in> local_id ` set (ss_frontier s) \<or> set (nb m) \<subseteq> vst_members (ss_visited s)))"

lemma set_push [simp]: "set (push_frontier c xs) = insert c (set xs)" "set (push_best c xs) = insert c (set xs)"
  by (simp_all add: push_frontier_def push_best_def)

lemma mset_push_best [simp]: "mset (push_best c xs) = add_mset c (mset xs)"
  by (simp add: push_best_def)

lemma mset_pop_best: "xs \<noteq> [] \<Longrightarrow> mset xs = add_mset (hd xs) (mset (pop_best xs))"
  unfolding pop_best_def by (rule mset_pop_split)

lemma pop_best_facts:
  assumes "xs \<noteq> []"
  shows "length (pop_best xs) = length xs - 1" and "set (pop_best xs) \<subseteq> set xs"
    and "distinct (map local_id xs) \<Longrightarrow> distinct (map local_id (pop_best xs))"
proof -
  have *: "mset (hd xs # pop_best xs) = mset xs" using mset_pop_best [OF assms] by simp
  show "length (pop_best xs) = length xs - 1" using arg_cong [OF *, of size] by simp
  show "set (pop_best xs) \<subseteq> set xs" using mset_eq_setD [OF *] by auto
  assume d: "distinct (map local_id xs)"
  have "mset (map local_id (hd xs # pop_best xs)) = mset (map local_id xs)"
    by (simp only: mset_map *)
  then have "distinct (map local_id (hd xs # pop_best xs))" using d by (metis mset_eq_imp_distinct_iff)
  then show "distinct (map local_id (pop_best xs))" by simp
qed

lemma distinct_push_best:
  assumes "distinct (map local_id xs)" "local_id c \<notin> local_id ` set xs"
  shows "distinct (map local_id (push_best c xs))"
proof -
  have "mset (map local_id (push_best c xs)) = mset (map local_id (c # xs))" by (simp add: mset_map)
  moreover have "distinct (map local_id (c # xs))" using assms by simp
  ultimately show ?thesis by (metis mset_eq_imp_distinct_iff)
qed

lemma held_fresh: "held dst v cs \<Longrightarrow> i \<notin> vst_members v \<Longrightarrow> i \<notin> local_id ` set cs"
  by (auto simp: held_def)

lemma held_insert:
  "held dst v cs \<Longrightarrow> vst_members v' = insert i (vst_members v) \<Longrightarrow> set cs' \<subseteq> insert \<lparr>local_id = i, key = dst i\<rparr> (set cs) \<Longrightarrow>
   held dst v' cs'"
  by (auto simp: held_def)

text \<open>A fresh node that is kept.\<close>

lemma layer_inv_keep:
  assumes inv: "layer_inv dst nb ef R E s" and i: "i \<in> R" "i \<notin> vst_members (ss_visited s)" and ef: "0 < ef"
    and v: "v = snd (vst_visit (ss_visited s) i)"
    and c: "c = \<lparr>local_id = i, key = dst i\<rparr>" and b: "b = push_best c (ss_best s)"
  shows "layer_inv dst nb ef R E \<lparr>ss_visited = v, ss_frontier = push_frontier c (ss_frontier s),
    ss_best = (if length b > ef then pop_best b else b)\<rparr>"
proof -
  let ?M = "vst_members (ss_visited s)" and ?b = "if length b > ef then pop_best b else b"
  from inv have I: "vst_inv (ss_visited s)" "R \<subseteq> {..<length (vst_stamps (ss_visited s))}" "?M \<subseteq> R"
    "held dst (ss_visited s) (ss_frontier s)" "held dst (ss_visited s) (ss_best s)"
    "distinct (map local_id (ss_best s))" "length (ss_best s) = min ef (card ?M)"
    and cl: "length (ss_best s) < ef \<Longrightarrow> m \<in> ?M - E \<Longrightarrow> m \<in> local_id ` set (ss_frontier s) \<or> set (nb m) \<subseteq> ?M" for m
    by (auto simp: layer_inv_def)
  have range: "i < length (vst_stamps (ss_visited s))" using i(1) I(2) by auto
  have M: "vst_members v = insert i ?M" "length (vst_stamps v) = length (vst_stamps (ss_visited s))"
    using v range by simp_all
  have card: "card (vst_members v) = Suc (card ?M)" using M(1) i(2) by (simp add: card_insert_disjoint)
  have ne: "b \<noteq> []" using b by (metis length_0_conv length_push(2) nat.distinct(1))
  have db: "distinct (map local_id b)" unfolding b
    by (rule distinct_push_best [OF I(6)]) (use held_fresh [OF I(5) i(2)] c in simp)
  have "held dst v (push_frontier c (ss_frontier s))" by (rule held_insert [OF I(4) M(1)]) (simp add: c)
  moreover have hb: "set ?b \<subseteq> insert \<lparr>local_id = i, key = dst i\<rparr> (set (ss_best s))"
    using pop_best_facts(2) [OF ne] b c by auto
  then have "held dst v ?b" by (rule held_insert [OF I(5) M(1)])
  moreover have "distinct (map local_id ?b)" using db pop_best_facts(3) [OF ne] by simp
  moreover have lb: "length ?b = min ef (card (vst_members v))"
    using I(7) card pop_best_facts(1) [OF ne] b ef by simp
  moreover have "m \<in> local_id ` set (push_frontier c (ss_frontier s)) \<or> set (nb m) \<subseteq> vst_members v"
    if full: "length ?b < ef" and m: "m \<in> vst_members v - E" for m
  proof (cases "m = i")
    case True
    then show ?thesis by (simp add: c)
  next
    case False
    have "length (ss_best s) < ef" using full lb card I(7) by simp
    then show ?thesis using cl [of m] m M(1) False by auto
  qed
  ultimately show ?thesis
    unfolding layer_inv_def search_state.simps
    using I(1-3) M i(1) vst_inv_visit [OF I(1), of i] v by (intro conjI) auto
qed

text \<open>A fresh node that is only marked, \<open>best\<close> being full.\<close>

lemma layer_inv_skip:
  assumes inv: "layer_inv dst nb ef R E s" and i: "i \<in> R" and full: "\<not> length (ss_best s) < ef"
  shows "layer_inv dst nb ef R E (s\<lparr>ss_visited := snd (vst_visit (ss_visited s) i)\<rparr>)"
proof -
  let ?v = "snd (vst_visit (ss_visited s) i)"
  have range: "i < length (vst_stamps (ss_visited s))" using i inv by (auto simp: layer_inv_def)
  have "card (vst_members (ss_visited s)) \<le> card (vst_members ?v)" by (rule card_mono) auto
  then have "length (ss_best s) = min ef (card (vst_members ?v))"
    using inv full by (simp add: layer_inv_def)
  moreover have "held dst ?v (ss_frontier s)" "held dst ?v (ss_best s)"
    using inv range by (auto simp: layer_inv_def held_def)
  ultimately show ?thesis
    using inv full i range vst_inv_visit [of "ss_visited s" i] by (simp add: layer_inv_def)
qed

lemma layer_inv_expand:
  assumes "layer_inv dst nb ef R E s" "set ns \<subseteq> R" "0 < ef"
  shows "layer_inv dst nb ef R E (expand dst ef ns s) \<and>
    vst_members (ss_visited s) \<union> set ns \<subseteq> vst_members (ss_visited (expand dst ef ns s))"
  using assms(1,2)
proof (induction ns arbitrary: s)
  case (Cons n ns)
  have n: "n \<in> R" and ns: "set ns \<subseteq> R" using Cons.prems(2) by simp_all
  have range: "n < length (vst_stamps (ss_visited s))" using n Cons.prems(1) by (auto simp: layer_inv_def)
  show ?case
  proof (cases rule: vst_visit_cases [of "ss_visited s" n])
    case 1
    then have "n \<in> vst_members (ss_visited s)" using range by simp
    then show ?thesis using Cons.IH [OF Cons.prems(1) ns] 1 by auto
  next
    case (2 v')
    let ?c = "\<lparr>local_id = n, key = dst n\<rparr>" let ?b = "push_best ?c (ss_best s)"
    let ?s = "\<lparr>ss_visited = v', ss_frontier = push_frontier ?c (ss_frontier s),
        ss_best = (if length ?b > ef then pop_best ?b else ?b)\<rparr>"
    have v': "v' = snd (vst_visit (ss_visited s) n)" using 2(1) by simp
    show ?thesis
    proof (cases "length (ss_best s) < ef \<or> f32_lt (dst n) (key (hd (ss_best s)))")
      case True
      have "layer_inv dst nb ef R E ?s"
        by (rule layer_inv_keep [OF Cons.prems(1) n 2(3) assms(3) v' refl refl])
      from Cons.IH [OF this ns] show ?thesis using True 2(1,4) by (simp add: Let_def)
    next
      case False
      have "layer_inv dst nb ef R E (s\<lparr>ss_visited := v'\<rparr>)"
        unfolding v' by (rule layer_inv_skip [OF Cons.prems(1) n]) (use False in simp)
      from Cons.IH [OF this ns] show ?thesis using False 2(1,4) by (simp add: Let_def)
    qed
  qed
qed simp

lemma layer_inv_pop:
  assumes inv: "layer_inv dst nb ef R {} s" and ne: "ss_frontier s \<noteq> []"
    and f: "f = pop_heap candidate_worse (ss_frontier s)"
  shows "layer_inv dst nb ef R {local_id (last f)} (s\<lparr>ss_frontier := butlast f\<rparr>)"
    and "local_id (last f) \<in> vst_members (ss_visited s)"
proof -
  have e: "set (ss_frontier s) = insert (last f) (set (butlast f))"
  proof -
    have "mset (ss_frontier s) = add_mset (last f) (mset (butlast f))"
      using mset_pop_split [OF ne] last_pop_heap [OF ne] f by simp
    from arg_cong [OF this, of set_mset] show ?thesis by simp
  qed
  show "layer_inv dst nb ef R {local_id (last f)} (s\<lparr>ss_frontier := butlast f\<rparr>)"
    using inv e by (auto simp: layer_inv_def held_def)
  show "local_id (last f) \<in> vst_members (ss_visited s)"
    using inv e by (simp add: layer_inv_def held_def)
qed

lemma search_loop_result:
  assumes "layer_inv dst nb ef R {} s" "\<forall>i\<in>R. set (nb i) \<subseteq> R" "0 < ef"
  shows "\<exists>E. layer_inv dst nb ef R E (search_loop dst nb ef s) \<and>
    (length (ss_best (search_loop dst nb ef s)) < ef \<longrightarrow>
      (\<forall>m\<in>vst_members (ss_visited (search_loop dst nb ef s)). set (nb m) \<subseteq> vst_members (ss_visited (search_loop dst nb ef s)))) \<and>
    vst_members (ss_visited s) \<subseteq> vst_members (ss_visited (search_loop dst nb ef s))"
  using assms
proof (induction dst nb ef s rule: search_loop.induct)
  case (1 dst nb ef s)
  show ?case
  proof (cases "ss_frontier s = []")
    case True
    then have e: "search_loop dst nb ef s = s" by (simp add: search_loop.simps)
    have "length (ss_best s) < ef \<longrightarrow> (\<forall>m\<in>vst_members (ss_visited s). set (nb m) \<subseteq> vst_members (ss_visited s))"
      using "1.prems"(1) True by (simp add: layer_inv_def)
    then show ?thesis unfolding e using "1.prems"(1) by blast
  next
    case False
    define f where "f = pop_heap candidate_worse (ss_frontier s)"
    let ?s = "s\<lparr>ss_frontier := butlast f\<rparr>"
    note pop = layer_inv_pop [OF "1.prems"(1) False f_def]
    show ?thesis
    proof (cases "length (ss_best ?s) \<ge> ef \<and> candidate_better (hd (ss_best ?s)) (last f)")
      case True
      then have e: "search_loop dst nb ef s = ?s" using False by (simp add: search_loop.simps Let_def f_def)
      have "\<not> length (ss_best ?s) < ef" using True by simp
      then show ?thesis unfolding e using pop(1) by auto
    next
      case go: False
      let ?t = "expand dst ef (nb (local_id (last f))) ?s"
      have e: "search_loop dst nb ef s = search_loop dst nb ef ?t"
        using False go by (subst search_loop.simps) (auto simp: Let_def f_def)
      have cur: "local_id (last f) \<in> R" using pop(2) "1.prems"(1) by (auto simp: layer_inv_def)
      then have nbR: "set (nb (local_id (last f))) \<subseteq> R" using "1.prems"(2) by blast
      note ex = layer_inv_expand [OF pop(1) nbR "1.prems"(3)]
      have t: "layer_inv dst nb ef R {} ?t"
        using ex by (auto simp: layer_inv_def)
      have sub: "vst_members (ss_visited s) \<subseteq> vst_members (ss_visited ?t)" using ex by simp
      show ?thesis unfolding e
        using "1.IH" [OF False f_def refl refl go t "1.prems"(2,3)] sub by blast
    qed
  qed
qed

lemma seed_entries_inv:
  assumes "layer_inv dst nb ef R {} s" "set es \<subseteq> R" "length (ss_best s) + length es \<le> ef" "0 < ef"
  shows "layer_inv dst nb ef R {} (seed_entries dst es s) \<and>
    vst_members (ss_visited s) \<union> set es \<subseteq> vst_members (ss_visited (seed_entries dst es s))"
  using assms(1-3)
proof (induction es arbitrary: s)
  case (Cons n ns)
  have n: "n \<in> R" and ns: "set ns \<subseteq> R" using Cons.prems(2) by simp_all
  have range: "n < length (vst_stamps (ss_visited s))" using n Cons.prems(1) by (auto simp: layer_inv_def)
  show ?case
  proof (cases rule: vst_visit_cases [of "ss_visited s" n])
    case 1
    then have "n \<in> vst_members (ss_visited s)" using range by simp
    then show ?thesis using Cons.IH [OF Cons.prems(1) ns] Cons.prems(3) 1 by auto
  next
    case (2 v')
    let ?c = "\<lparr>local_id = n, key = dst n\<rparr>" let ?b = "push_best ?c (ss_best s)"
    let ?s = "\<lparr>ss_visited = v', ss_frontier = push_frontier ?c (ss_frontier s), ss_best = ?b\<rparr>"
    have v': "v' = snd (vst_visit (ss_visited s) n)" using 2(1) by simp
    have "(if length ?b > ef then pop_best ?b else ?b) = ?b" using Cons.prems(3) by simp
    then have "layer_inv dst nb ef R {} ?s"
      using layer_inv_keep [OF Cons.prems(1) n 2(3) assms(4) v' refl refl] by simp
    from Cons.IH [OF this ns] show ?thesis using Cons.prems(3) 2(1,4) by (simp add: Let_def)
  qed
qed simp

text \<open>The layer search, by counting.\<close>

lemma search_layer_result:
  assumes links: "hn_links_ok ix" and es: "\<forall>e\<in>set es. hn_node ix e layer" "length es \<le> ef" "0 < ef"
    and v: "vst_inv v" and res: "search_layer ix q qn es ef layer v = (found, v')"
    and R: "R = {i. \<exists>e\<in>set es. reaches (\<lambda>i. neighbours ix i layer) e i}"
  shows "vst_inv v' \<and> distinct (map local_id found) \<and> local_id ` set found \<subseteq> R \<and>
    (\<forall>c\<in>set found. key c = hn_dist ix q qn (local_id c) \<and> hn_node ix (local_id c) layer) \<and>
    length found = min ef (card R) \<and> finite R"
proof -
  let ?nb = "\<lambda>i. neighbours ix i layer" and ?d = "hn_dist ix q qn"
  let ?v0 = "vst_begin_search (vst_resize v (length (hn_node_level ix)))"
  let ?s0 = "\<lparr>ss_visited = ?v0, ss_frontier = [], ss_best = []\<rparr>"
  let ?s1 = "seed_entries ?d es ?s0" let ?s2 = "search_loop ?d ?nb ef ?s1" let ?M = "vst_members (ss_visited ?s2)"
  have V: "vst_inv ?v0" "vst_members ?v0 = {}" "hn_size ix \<le> length (vst_stamps ?v0)"
    using visited.start [OF v] by (simp_all add: hn_size_def)
  have node: "hn_node ix i layer" if i: "i \<in> R" for i
  proof -
    obtain e where e: "e \<in> set es" "reaches ?nb e i" using i R by auto
    have "i \<in> {i. hn_node ix i layer}"
      by (rule reaches_closed [OF e(2)]) (use e(1) es(1) links in \<open>auto simp: hn_links_ok_def\<close>)
    then show ?thesis by simp
  qed
  have range: "R \<subseteq> {..<hn_size ix}" using node by (auto simp: hn_node_def)
  then have fin: "finite R" by (rule finite_subset) simp
  have clR: "\<forall>i\<in>R. set (?nb i) \<subseteq> R" using R by (auto intro: reaches.there)
  have esR: "set es \<subseteq> R" using R by (auto intro: reaches.here)
  have s0: "layer_inv ?d ?nb ef R {} ?s0"
    using V range by (auto simp: layer_inv_def held_def)
  have "length (ss_best ?s0) + length es \<le> ef" using es(2) by simp
  note s1 = seed_entries_inv [OF s0 esR this es(3)]
  obtain E where s2: "layer_inv ?d ?nb ef R E ?s2" and closed: "length (ss_best ?s2) < ef \<Longrightarrow> \<forall>m\<in>?M. set (?nb m) \<subseteq> ?M"
    and sub: "vst_members (ss_visited ?s1) \<subseteq> ?M"
    using search_loop_result [OF conjunct1 [OF s1] clR es(3)] by blast
  have found: "found = sort_by candidate_better (ss_best ?s2)" "v' = ss_visited ?s2"
    using res by (simp_all add: search_layer_def Let_def)
  have MR: "?M \<subseteq> R" using s2 by (simp add: layer_inv_def)
  have len: "length (ss_best ?s2) = min ef (card R)"
  proof (cases "length (ss_best ?s2) < ef")
    case True
    have "i \<in> ?M" if i: "i \<in> R" for i
    proof -
      obtain e where e: "e \<in> set es" "reaches ?nb e i" using i R by auto
      show ?thesis by (rule reaches_closed [OF e(2)]) (use e(1) s1 sub closed [OF True] in auto)
    qed
    then have "?M = R" using MR by blast
    then show ?thesis using s2 by (simp add: layer_inv_def)
  next
    case False
    have "card ?M \<le> card R" by (rule card_mono [OF fin MR])
    then show ?thesis using False s2 by (simp add: layer_inv_def)
  qed
  have "mset (map local_id found) = mset (map local_id (ss_best ?s2))" unfolding found by (simp add: mset_map)
  moreover have "distinct (map local_id (ss_best ?s2))" using s2 by (simp add: layer_inv_def)
  ultimately have dist: "distinct (map local_id found)" by (metis mset_eq_imp_distinct_iff)
  have h: "local_id c \<in> R \<and> key c = ?d (local_id c)" if "c \<in> set found" for c
    using s2 that MR found by (auto simp: layer_inv_def held_def)
  show ?thesis using s2 dist h node len fin found by (auto simp: layer_inv_def)
qed

section \<open>The scratch does not show\<close>

text \<open>Two search states that differ only in their stamps.\<close>

definition same_search :: "nat \<Rightarrow> search_state \<Rightarrow> search_state \<Rightarrow> bool" where
  "same_search n s t \<longleftrightarrow> ss_frontier s = ss_frontier t \<and> ss_best s = ss_best t \<and>
     vst_members (ss_visited s) = vst_members (ss_visited t) \<and>
     n \<le> length (vst_stamps (ss_visited s)) \<and> n \<le> length (vst_stamps (ss_visited t))"

lemma same_visit:
  assumes "same_search n s t" "i < n"
  obtains f v w where "vst_visit (ss_visited s) i = (f, v)" "vst_visit (ss_visited t) i = (f, w)"
    "vst_members v = vst_members w" "n \<le> length (vst_stamps v)" "n \<le> length (vst_stamps w)"
proof
  let ?v = "vst_visit (ss_visited s) i" and ?w = "vst_visit (ss_visited t) i"
  have f: "fst ?v = fst ?w" using assms by (simp add: same_search_def)
  show "?v = (fst ?v, snd ?v)" by (rule prod.collapse [symmetric])
  show "?w = (fst ?v, snd ?w)" unfolding f by (rule prod.collapse [symmetric])
  show "vst_members (snd ?v) = vst_members (snd ?w)" using assms by (simp add: same_search_def)
  show "n \<le> length (vst_stamps (snd ?v))" "n \<le> length (vst_stamps (snd ?w))"
    using assms by (simp_all add: same_search_def)
qed

lemma same_expand: "same_search n s t \<Longrightarrow> set is \<subseteq> {..<n} \<Longrightarrow> same_search n (expand dst ef is s) (expand dst ef is t)"
proof (induction "is" arbitrary: s t)
  case (Cons i "is")
  have i: "i < n" "set is \<subseteq> {..<n}" using Cons.prems(2) by simp_all
  obtain f v w where V: "vst_visit (ss_visited s) i = (f, v)" "vst_visit (ss_visited t) i = (f, w)"
    "vst_members v = vst_members w" "n \<le> length (vst_stamps v)" "n \<le> length (vst_stamps w)"
    using same_visit [OF Cons.prems(1) i(1)] .
  have e: "ss_frontier t = ss_frontier s" "ss_best t = ss_best s" using Cons.prems(1) by (simp_all add: same_search_def)
  have same: "same_search n \<lparr>ss_visited = v, ss_frontier = x, ss_best = y\<rparr> \<lparr>ss_visited = w, ss_frontier = x, ss_best = y\<rparr>"
    "same_search n (s\<lparr>ss_visited := v\<rparr>) (t\<lparr>ss_visited := w\<rparr>)" for x y
    using V(3-5) e by (simp_all add: same_search_def)
  show ?case using Cons.IH [OF same(1) i(2)] Cons.IH [OF same(2) i(2)] V(1,2) e by (simp add: Let_def)
qed simp

lemma same_seed: "same_search n s t \<Longrightarrow> set is \<subseteq> {..<n} \<Longrightarrow> same_search n (seed_entries dst is s) (seed_entries dst is t)"
proof (induction "is" arbitrary: s t)
  case (Cons i "is")
  have i: "i < n" "set is \<subseteq> {..<n}" using Cons.prems(2) by simp_all
  obtain f v w where V: "vst_visit (ss_visited s) i = (f, v)" "vst_visit (ss_visited t) i = (f, w)"
    "vst_members v = vst_members w" "n \<le> length (vst_stamps v)" "n \<le> length (vst_stamps w)"
    using same_visit [OF Cons.prems(1) i(1)] .
  have e: "ss_frontier t = ss_frontier s" "ss_best t = ss_best s" using Cons.prems(1) by (simp_all add: same_search_def)
  have same: "same_search n \<lparr>ss_visited = v, ss_frontier = x, ss_best = y\<rparr> \<lparr>ss_visited = w, ss_frontier = x, ss_best = y\<rparr>"
    "same_search n (s\<lparr>ss_visited := v\<rparr>) (t\<lparr>ss_visited := w\<rparr>)" for x y
    using V(3-5) e by (simp_all add: same_search_def)
  show ?case using Cons.IH [OF same(1) i(2)] Cons.IH [OF same(2) i(2)] V(1,2) e by (simp add: Let_def)
qed simp

lemma same_loop:
  "same_search n s t \<Longrightarrow> \<forall>i. set (nb i) \<subseteq> {..<n} \<Longrightarrow>
   same_search n (search_loop dst nb ef s) (search_loop dst nb ef t)"
proof (induction dst nb ef s arbitrary: t rule: search_loop.induct)
  case (1 dst nb ef s)
  have e: "ss_frontier t = ss_frontier s" "ss_best t = ss_best s" using "1.prems"(1) by (simp_all add: same_search_def)
  show ?case
  proof (cases "ss_frontier s = []")
    case True
    then show ?thesis using "1.prems"(1) e by (simp add: search_loop.simps)
  next
    case False
    define f where "f = pop_heap candidate_worse (ss_frontier s)"
    let ?s = "s\<lparr>ss_frontier := butlast f\<rparr>" and ?t = "t\<lparr>ss_frontier := butlast f\<rparr>"
    have st: "same_search n ?s ?t" using "1.prems"(1) by (simp add: same_search_def)
    show ?thesis
    proof (cases "length (ss_best ?s) \<ge> ef \<and> candidate_better (hd (ss_best ?s)) (last f)")
      case True
      then show ?thesis using False e st by (simp add: search_loop.simps Let_def f_def)
    next
      case go: False
      have "same_search n (expand dst ef (nb (local_id (last f))) ?s) (expand dst ef (nb (local_id (last f))) ?t)"
        by (rule same_expand [OF st]) (use "1.prems"(2) in blast)
      from "1.IH" [OF False f_def refl refl go this "1.prems"(2)]
      have "same_search n (search_loop dst nb ef (expand dst ef (nb (local_id (last f))) ?s))
        (search_loop dst nb ef (expand dst ef (nb (local_id (last f))) ?t))" .
      moreover have "search_loop dst nb ef s = search_loop dst nb ef (expand dst ef (nb (local_id (last f))) ?s)"
        using False go by (subst search_loop.simps) (auto simp: Let_def f_def)
      moreover have "search_loop dst nb ef t = search_loop dst nb ef (expand dst ef (nb (local_id (last f))) ?t)"
        using False go e by (subst search_loop.simps) (auto simp: Let_def f_def)
      ultimately show ?thesis by simp
    qed
  qed
qed

lemma links_range: "hn_links_ok ix \<Longrightarrow> set (neighbours ix i l) \<subseteq> {..<hn_size ix}"
  by (auto simp: hn_links_ok_def hn_node_def)

lemma search_layer_scratch:
  assumes "hn_links_ok ix" "set es \<subseteq> {..<hn_size ix}" "vst_inv v" "vst_inv w"
  shows "fst (search_layer ix q qn es ef layer v) = fst (search_layer ix q qn es ef layer w)"
proof -
  let ?v = "vst_begin_search (vst_resize v (hn_size ix))" and ?w = "vst_begin_search (vst_resize w (hn_size ix))"
  have "same_search (hn_size ix) \<lparr>ss_visited = ?v, ss_frontier = [], ss_best = []\<rparr> \<lparr>ss_visited = ?w, ss_frontier = [], ss_best = []\<rparr>"
    using visited.start assms(3,4) by (simp add: same_search_def)
  note same_loop [OF same_seed [OF this assms(2)], of "\<lambda>i. neighbours ix i layer" "hn_dist ix q qn" ef "hn_dist ix q qn"]
  then show ?thesis
    using links_range [OF assms(1)] by (simp add: search_layer_def Let_def same_search_def hn_size_def)
qed

section \<open>The whole search\<close>

definition hn_base_entry :: "hnsw_index \<Rightarrow> vec \<Rightarrow> local_id" where
  "hn_base_entry ix query = descend_to ix query (hn_query_norm ix query) 0 (hn_max_level ix) (hn_entry_point ix)"

text \<open>What layer 0 leads to from there, and the live candidates among it.\<close>

definition hn_reachable :: "hnsw_index \<Rightarrow> vec \<Rightarrow> local_id set" where
  "hn_reachable ix query = {i. reaches (\<lambda>i. neighbours ix i 0) (hn_base_entry ix query) i}"

definition hn_candidates :: "hnsw_index \<Rightarrow> vec \<Rightarrow> candidate set" where
  "hn_candidates ix query = {c. local_id c \<in> hn_reachable ix query \<and> ac_is_live (hn_accessor ix) (local_id c) \<and>
     key c = hn_dist ix query (hn_query_norm ix query) (local_id c)}"

lemma hn_entry_node: "hn_graph ix \<Longrightarrow> hn_entry_point ix \<noteq> kInvalidLocalId \<Longrightarrow> hn_node ix (hn_base_entry ix q) 0"
  using descend_to_node [of ix "hn_entry_point ix" "hn_max_level ix" q "hn_query_norm ix q" 0]
  by (auto simp: hn_graph_def hn_entry_ok_def hn_base_entry_def split: if_splits)

lemma hn_reachable_range:
  assumes g: "hn_graph ix" and ne: "hn_entry_point ix \<noteq> kInvalidLocalId"
  shows "hn_reachable ix q \<subseteq> {..<hn_size ix}"
proof
  fix i assume "i \<in> hn_reachable ix q"
  then have r: "reaches (\<lambda>i. neighbours ix i 0) (hn_base_entry ix q) i" by (simp add: hn_reachable_def)
  have links: "hn_links_ok ix" using g by (simp add: hn_graph_def)
  show "i \<in> {..<hn_size ix}"
    by (rule reaches_closed [OF r _ links_range [OF links]])
      (use hn_entry_node [OF g ne] in \<open>simp add: hn_node_def\<close>)
qed

lemma hn_search_found:
  assumes g: "hn_graph ix" and v: "vst_inv v" and p: "0 < sp_k params" "length q = ac_dimension (hn_accessor ix)"
    and ne: "hn_entry_point ix \<noteq> kInvalidLocalId"
  obtains found v' where
    "hn_search ix q params v =
       Inr (take (sp_k params) (filter (\<lambda>c. ac_is_live (hn_accessor ix) (local_id c)) found), v')"
    "vst_inv v'" "distinct (map local_id found)" "local_id ` set found \<subseteq> hn_reachable ix q"
    "\<forall>c\<in>set found. key c = hn_dist ix q (hn_query_norm ix q) (local_id c) \<and> local_id c < hn_size ix"
    "length found = min (hn_ef ix params) (card (hn_reachable ix q))" "finite (hn_reachable ix q)"
    "\<exists>xs. found = sort_by candidate_better xs"
proof -
  obtain found v' where s: "search_layer ix q (hn_query_norm ix q) [hn_base_entry ix q] (hn_ef ix params) 0 v = (found, v')"
    by (cases "search_layer ix q (hn_query_norm ix q) [hn_base_entry ix q] (hn_ef ix params) 0 v") auto
  have ef: "0 < hn_ef ix params" "length [hn_base_entry ix q] \<le> hn_ef ix params" using p(1) by (auto simp: hn_ef_def)
  have R: "hn_reachable ix q = {i. \<exists>e\<in>set [hn_base_entry ix q]. reaches (\<lambda>i. neighbours ix i 0) e i}"
    by (simp add: hn_reachable_def)
  have es: "\<forall>e\<in>set [hn_base_entry ix q]. hn_node ix e 0" using hn_entry_node [OF g ne] by simp
  have links: "hn_links_ok ix" using g by (simp add: hn_graph_def)
  note F = search_layer_result [OF links es ef(2,1) v s R]
  have "hn_search ix q params v =
      Inr (take (sp_k params) (filter (\<lambda>c. ac_is_live (hn_accessor ix) (local_id c)) found), v')"
    using p ne s by (simp add: hn_search_def hn_base_entry_def Let_def)
  moreover have "\<exists>xs. found = sort_by candidate_better xs" using s by (auto simp: search_layer_def Let_def)
  ultimately show thesis using that F by (auto simp: hn_node_def)
qed

lemma asc_filter: "asc lt xs \<Longrightarrow> asc lt (filter P xs)"
  by (simp add: asc_def sorted_wrt_filter)

lemma asc_take: "asc lt xs \<Longrightarrow> asc lt (take k xs)"
  by (simp add: asc_def sorted_wrt_take)

text \<open>Sorting depends only on the set when ids are distinct and keys are numbers.\<close>

lemma sort_better_unique:
  assumes "set xs = set ys" "distinct (map local_id xs)" "distinct (map local_id ys)" "\<forall>c\<in>set xs. ordered_key c"
    and "asc candidate_better xs"
  shows "xs = sort_by candidate_better ys"
proof (rule asc_unique [OF swo_better])
  show o: "set xs \<subseteq> ordered" using assms(4) by (auto simp: ordered_def)
  have "distinct xs" "distinct ys" using assms(2,3) by (simp_all add: distinct_map)
  then show "mset xs = mset (sort_by candidate_better ys)" using assms(1) by (simp add: set_eq_iff_mset_eq_distinct)
  show "asc candidate_better (sort_by candidate_better ys)"
    by (rule asc_sort_by [OF swo_better]) (use o assms(1) in simp)
  show "candidate_better x y \<or> candidate_better y x" if "x \<in> set xs" "y \<in> set xs" "x \<noteq> y" for x y
  proof (rule better_total)
    show "x \<in> ordered" "y \<in> ordered" using o that by auto
    show "local_id x \<noteq> local_id y" using that assms(2) by (auto simp: distinct_map dest: inj_onD)
  qed
qed (rule assms(5))

lemma hn_search_best:
  assumes g: "hn_graph ix" and v: "vst_inv v" and p: "0 < sp_k params" "length q = ac_dimension (hn_accessor ix)"
    and ne: "hn_entry_point ix \<noteq> kInvalidLocalId" and ef: "hn_size ix \<le> hn_ef ix params"
    and nan: "\<forall>i\<in>hn_reachable ix q. \<not> f32_isnan (hn_dist ix q (hn_query_norm ix q) i)"
  obtains cs v' where "hn_search ix q params v = Inr (best_k (sp_k params) cs, v')"
    "set cs = hn_candidates ix q" "distinct (map local_id cs)" "\<forall>c\<in>set cs. ordered_key c"
proof -
  let ?d = "hn_dist ix q (hn_query_norm ix q)" and ?live = "\<lambda>c. ac_is_live (hn_accessor ix) (local_id c)"
  obtain found v' where F: "hn_search ix q params v = Inr (take (sp_k params) (filter ?live found), v')"
    "distinct (map local_id found)" "local_id ` set found \<subseteq> hn_reachable ix q"
    "\<forall>c\<in>set found. key c = ?d (local_id c) \<and> local_id c < hn_size ix"
    "length found = min (hn_ef ix params) (card (hn_reachable ix q))" "finite (hn_reachable ix q)"
    and xs: "\<exists>xs. found = sort_by candidate_better xs"
    by (rule hn_search_found [OF g v p ne])
  note range = hn_reachable_range [OF g ne, of q]
  have "card (hn_reachable ix q) \<le> card {..<hn_size ix}" by (rule card_mono [OF _ range]) simp
  then have "card (hn_reachable ix q) \<le> hn_size ix" by simp
  then have "card (set (map local_id found)) = card (hn_reachable ix q)"
    using F(2,5) ef distinct_card [OF F(2)] by simp
  then have ids: "local_id ` set found = hn_reachable ix q"
    using F(3) card_subset_eq [OF F(6) F(3)] by simp
  have ord: "\<forall>c\<in>set found. ordered_key c"
    using F(3,4) nan by (auto simp: ordered_key_def)
  let ?cs = "filter ?live found"
  have set: "set ?cs = hn_candidates ix q"
  proof
    show "set ?cs \<subseteq> hn_candidates ix q" using F(3,4) by (auto simp: hn_candidates_def)
    show "hn_candidates ix q \<subseteq> set ?cs"
    proof
      fix c assume c: "c \<in> hn_candidates ix q"
      then have "local_id c \<in> local_id ` set found" unfolding ids by (simp add: hn_candidates_def)
      then obtain b where b: "b \<in> set found" "local_id b = local_id c" by auto
      then have "b = c" using F(4) c by (simp add: hn_candidates_def)
      then show "c \<in> set ?cs" using b c by (simp add: hn_candidates_def)
    qed
  qed
  have dist: "distinct (map local_id ?cs)" using F(2) by (rule distinct_map_filter)
  obtain ys where ys: "found = sort_by candidate_better ys" using xs by blast
  have "asc candidate_better found" unfolding ys
    by (rule asc_sort_by [OF swo_better]) (use ord ys in \<open>auto simp: ordered_def\<close>)
  then have "?cs = sort_by candidate_better ?cs"
    using ord by (intro sort_better_unique [OF refl dist dist _ asc_filter]) simp_all
  then have "take (sp_k params) ?cs = best_k (sp_k params) ?cs" by (simp add: best_k_def)
  then have "hn_search ix q params v = Inr (best_k (sp_k params) ?cs, v')" using F(1) by simp
  moreover have "\<forall>c\<in>set ?cs. ordered_key c" using ord by simp
  ultimately show thesis by (rule that [OF _ set dist])
qed

section \<open>A small graph\<close>

text \<open>Two nodes on layer 0, each the other's neighbour, with keys 2 and 1, for the examples.\<close>

definition small_kernel :: distance_kernel where
  "small_kernel = \<lparr>kn_l2_squared = \<lambda>a b n. b ! 0, kn_dot = \<lambda>a b n. 0, kn_norm_squared = \<lambda>v n. 0, kn_name = ''first''\<rparr>"

definition small_accessor :: accessor where
  "small_accessor = \<lparr>ac_vectors = \<lparr>va_dimension = 1, va_count = 2, va_storage = [0x40000000, 0x3f800000]\<rparr>,
     ac_norms = [0, 0], ac_live = [1, 1]\<rparr>"

definition small_index :: hnsw_index where
  "small_index = \<lparr>hn_accessor = small_accessor, hn_metric = L2Squared,
     hn_config = \<lparr>hc_m = 2, hc_ef_construction = 2, hc_ef_search = 2, hc_seed = 1\<rparr>, hn_kernel = small_kernel,
     hn_node_level = [0, 0], hn_layer0_links = [1, 1, kInvalidLocalId, kInvalidLocalId, kInvalidLocalId,
       1, 0, kInvalidLocalId, kInvalidLocalId, kInvalidLocalId],
     hn_upper_links = [], hn_upper_offsets = [kNoUpperLinks, kNoUpperLinks],
     hn_entry_point = 0, hn_max_level = 0, hn_live_count = 2, hn_rng = rng_new 1\<rparr>"

lemma small_fields [simp]:
  "hn_size small_index = 2" "hn_accessor small_index = small_accessor" "hn_metric small_index = L2Squared"
  "hn_entry_point small_index = 0" "hn_max_level small_index = 0" "hn_node small_index i l \<longleftrightarrow> i < 2 \<and> l = 0"
  "ac_dimension small_accessor = 1" "ac_size small_accessor = 2" "hn_kernel small_index = small_kernel"
  by (auto simp: small_index_def hn_size_def hn_node_def small_accessor_def ac_dimension_def ac_size_def less_Suc_eq)

lemma small_neighbours: "neighbours small_index i l = (if l = 0 \<and> i = 0 then [1] else if l = 0 \<and> i = 1 then [0] else [])"
  by (auto simp: neighbours_def small_index_def hn_peek_def link_addr_def layer0_stride_def max_m0_def nth_Cons' less_2_cases_iff)

lemma small_dist: "i < 2 \<Longrightarrow> hn_dist small_index q qn i = (if i = 0 then 0x40000000 else 0x3f800000)"
  by (auto simp: hn_dist_def with_norms_def small_kernel_def small_accessor_def ac_vector_def va_view_def va_offset_of_def
      less_2_cases_iff)

lemma small_live: "i < 2 \<Longrightarrow> ac_is_live small_accessor i"
  by (auto simp: small_accessor_def ac_is_live_def less_2_cases_iff)

lemma small_blocks: "hn_shape small_index" "hn_counts small_index"
proof -
  show "hn_shape small_index"
    by (auto simp: hn_shape_def upper_before_def small_index_def hn_size_def layer0_stride_def upper_stride_def max_m0_def
        less_Suc_eq)
  show "hn_counts small_index"
    by (auto simp: hn_counts_def small_index_def hn_peek_def link_addr_def layer0_stride_def max_m0_def max_neighbours_def
        less_Suc_eq hn_node_def hn_size_def)
qed

lemma small_graph [simp]: "hn_graph small_index"
proof -
  have "hn_links_ok small_index" by (auto simp: hn_links_ok_def small_neighbours split: if_splits)
  moreover have "hn_entry_ok small_index" by (simp add: hn_entry_ok_def kMaxVectorCount_def)
  ultimately show ?thesis by (simp add: hn_graph_def)
qed

lemma small_reachable: "hn_reachable small_index q = {0, 1}"
proof -
  have b: "hn_base_entry small_index q = 0" by (simp add: hn_base_entry_def)
  have "reaches (\<lambda>i. neighbours small_index i 0) 0 1"
    by (rule reaches.there [OF reaches.here]) (simp add: small_neighbours)
  moreover have "i \<in> {0, 1}" if "reaches (\<lambda>i. neighbours small_index i 0) 0 i" for i
    by (rule reaches_closed [OF that]) (auto simp: small_neighbours split: if_splits)
  ultimately show ?thesis unfolding hn_reachable_def b by (auto intro: reaches.here)
qed

section \<open>Properties\<close>

text \<open>Further: after a search has begun, visiting a node answers true exactly the first time, for every node of
  the graph and whatever the scratch was used for before, the wrap of the generation counter included.\<close>

theorem visited_set_is_set:
  assumes "vst_inv v" and "set is \<subseteq> {..<n}" and "i < n"
  shows "fst (vst_visit (foldl (\<lambda>v i. snd (vst_visit v i)) (vst_begin_search (vst_resize v n)) is) i) \<longleftrightarrow> i \<notin> set is"
  by (rule visited.mark_after [OF assms])

theorem visited_set_is_set_witness:
  "fst (vst_visit (foldl (\<lambda>v i. snd (vst_visit v i))
     (vst_begin_search (vst_resize \<lparr>vst_stamps = [1, 0xFFFFFFFF], vst_generation = 0xFFFFFFFF\<rparr> 3)) [0, 2]) 1)"
  by (subst visited_set_is_set) (auto simp: vst_inv_def)

text \<open>Further: the greedy descent ends, in a node none of whose neighbours on the layer is closer to the query;
  it is the entry or strictly closer than the entry, and is reached from it along links.\<close>

theorem greedy_descend_local_minimum:
  "(\<forall>n\<in>set (neighbours ix (greedy_descend ix q qn entry layer) layer).
      \<not> f32_lt (hn_dist ix q qn n) (hn_dist ix q qn (greedy_descend ix q qn entry layer))) \<and>
   (greedy_descend ix q qn entry layer = entry \<or>
    f32_lt (hn_dist ix q qn (greedy_descend ix q qn entry layer)) (hn_dist ix q qn entry)) \<and>
   reaches (\<lambda>i. neighbours ix i layer) entry (greedy_descend ix q qn entry layer)"
  unfolding greedy_descend_def by (rule greedy_loop_result)

theorem greedy_descend_local_minimum_witness:
  "\<not> f32_lt (hn_dist small_index [0] 0 0) (hn_dist small_index [0] 0 (greedy_descend small_index [0] 0 0 0)) \<and>
   greedy_descend small_index [0] 0 0 0 = 1"
proof -
  have lt: "f32_lt 0x3f800000 0x40000000" "\<not> f32_lt 0x40000000 0x3f800000" by (simp_all add: feval cong: let_weak_cong)
  have "greedy_descend small_index [0] 0 0 0 = 1"
    by (simp add: greedy_descend_def greedy_loop.simps small_neighbours small_dist lt)
  then show ?thesis
    using greedy_descend_local_minimum [of small_index "[0]" 0 0 0] by (simp add: small_neighbours)
qed

lemma hn_search_sound:
  assumes "hn_graph ix" and "vst_inv v" and "vst_inv w" and "0 < sp_k params"
    and "length q = ac_dimension (hn_accessor ix)"
  shows "\<exists>rs v' w'. hn_search ix q params v = Inr (rs, v') \<and> hn_search ix q params w = Inr (rs, w') \<and> vst_inv v' \<and>
    length rs \<le> sp_k params \<and> distinct (map local_id rs) \<and>
    (\<forall>c\<in>set rs. ac_is_live (hn_accessor ix) (local_id c) \<and> local_id c < hn_size ix \<and>
       local_id c \<in> hn_reachable ix q \<and> key c = hn_dist ix q (hn_query_norm ix q) (local_id c)) \<and>
    ((\<forall>i<hn_size ix. \<not> f32_isnan (hn_dist ix q (hn_query_norm ix q) i)) \<longrightarrow> asc candidate_better rs)"
proof (cases "hn_entry_point ix = kInvalidLocalId")
  case True
  then show ?thesis using assms by (simp add: hn_search_def)
next
  case False
  let ?f = "filter (\<lambda>c. ac_is_live (hn_accessor ix) (local_id c))"
  obtain xs v' where F: "hn_search ix q params v = Inr (take (sp_k params) (?f xs), v')" "vst_inv v'"
    "distinct (map local_id xs)" "local_id ` set xs \<subseteq> hn_reachable ix q"
    "\<forall>c\<in>set xs. key c = hn_dist ix q (hn_query_norm ix q) (local_id c) \<and> local_id c < hn_size ix"
    and ys: "\<exists>ys. xs = sort_by candidate_better ys"
    by (rule hn_search_found [OF assms(1,2,4,5) False])
  have links: "hn_links_ok ix" using assms(1) by (simp add: hn_graph_def)
  have es: "set [hn_base_entry ix q] \<subseteq> {..<hn_size ix}" using hn_entry_node [OF assms(1) False] by (simp add: hn_node_def)
  let ?L = "search_layer ix q (hn_query_norm ix q) [hn_base_entry ix q] (hn_ef ix params) 0"
  have eq: "hn_search ix q params u = Inr (take (sp_k params) (?f (fst (?L u))), snd (?L u))" for u
    using assms(4,5) False by (simp add: hn_search_def hn_base_entry_def Let_def split_beta)
  have w: "hn_search ix q params w = Inr (take (sp_k params) (?f xs), snd (?L w))"
    using eq [of v] eq [of w] F(1) search_layer_scratch [OF links es assms(3,2)] by simp
  have sub: "set (take (sp_k params) (?f xs)) \<subseteq> set (?f xs)" by (rule set_take_subset)
  have d: "distinct (map local_id (take (sp_k params) (?f xs)))"
    unfolding take_map [symmetric] by (rule distinct_take) (rule distinct_map_filter [OF F(3)])
  have s: "asc candidate_better (take (sp_k params) (?f xs))"
    if "\<forall>i<hn_size ix. \<not> f32_isnan (hn_dist ix q (hn_query_norm ix q) i)"
  proof -
    have "set xs \<subseteq> ordered" using F(5) that by (auto simp: ordered_def ordered_key_def)
    then have "asc candidate_better xs" using ys by (auto intro: asc_sort_by [OF swo_better] simp del: in_ordered)
    then show ?thesis by (intro asc_take asc_filter)
  qed
  show ?thesis
  proof (intro exI conjI)
    show "\<forall>c\<in>set (take (sp_k params) (?f xs)). ac_is_live (hn_accessor ix) (local_id c) \<and> local_id c < hn_size ix \<and>
       local_id c \<in> hn_reachable ix q \<and> key c = hn_dist ix q (hn_query_norm ix q) (local_id c)"
      using sub F(4,5) by auto
    show "(\<forall>i<hn_size ix. \<not> f32_isnan (hn_dist ix q (hn_query_norm ix q) i)) \<longrightarrow>
        asc candidate_better (take (sp_k params) (?f xs))" using s by (rule impI)
  qed (rule F(1), rule w, rule F(2), simp, rule d)
qed

text \<open>C20: a search of a well-formed graph returns at most \<open>k\<close> results, no slot twice, each live, a node of
  the graph, reachable on the base layer, and carrying its own key; they come best first unless a key
  is NaN; and the answer does not depend on what the thread's scratch held before. (With NaN keys the heap algorithms
  are the ones of the model; C++ leaves their behaviour undefined there.)\<close>

theorem hnsw_search_sound:
  assumes "hn_graph ix" and "vst_inv v" and "vst_inv w" and "0 < sp_k params"
    and "length q = ac_dimension (hn_accessor ix)"
  shows "\<exists>rs v' w'. hn_search ix q params v = Inr (rs, v') \<and> hn_search ix q params w = Inr (rs, w') \<and> vst_inv v' \<and>
    length rs \<le> sp_k params \<and> distinct (map local_id rs) \<and>
    (\<forall>c\<in>set rs. ac_is_live (hn_accessor ix) (local_id c) \<and> local_id c < hn_size ix \<and>
       local_id c \<in> hn_reachable ix q \<and> key c = hn_dist ix q (hn_query_norm ix q) (local_id c)) \<and>
    ((\<forall>i<hn_size ix. \<not> f32_isnan (hn_dist ix q (hn_query_norm ix q) i)) \<longrightarrow> asc candidate_better rs)"
  by (rule hn_search_sound [OF assms])

theorem hnsw_search_sound_witness:
  "\<exists>rs v'. hn_search small_index [0] \<lparr>sp_k = 1, sp_ef_search = 0\<rparr> vst_empty = Inr (rs, v') \<and> length rs \<le> 1"
  using hnsw_search_sound [of small_index vst_empty vst_empty "\<lparr>sp_k = 1, sp_ef_search = 0\<rparr>" "[0]"] by auto

text \<open>C40: with \<open>ef\<close> at least the number of nodes, the graph search is exact over what the base layer leads
  to: it returns the \<open>k\<close> nearest live reachable nodes, best first, provided no reachable key is NaN.\<close>

theorem hnsw_exhaustive_exact:
  assumes "hn_graph ix" and "vst_inv v" and "0 < sp_k params" and "length q = ac_dimension (hn_accessor ix)"
    and "hn_entry_point ix \<noteq> kInvalidLocalId" and "hn_size ix \<le> hn_ef ix params"
    and "\<forall>i\<in>hn_reachable ix q. \<not> f32_isnan (hn_dist ix q (hn_query_norm ix q) i)"
  shows "\<exists>rs v'. hn_search ix q params v = Inr (rs, v') \<and> exact_top_k (sp_k params) (hn_candidates ix q) rs"
  using hn_search_best [OF assms] best_k_exact by metis

theorem hnsw_exhaustive_exact_witness:
  "\<exists>rs v'. hn_search small_index [0] \<lparr>sp_k = 1, sp_ef_search = 2\<rparr> vst_empty = Inr (rs, v') \<and>
     exact_top_k 1 (hn_candidates small_index [0]) rs"
proof -
  have "\<not> f32_isnan 0x3f800000" "\<not> f32_isnan 0x40000000" by (simp_all add: feval cong: let_weak_cong)
  then have "\<exists>rs v'. hn_search small_index [0] \<lparr>sp_k = 1, sp_ef_search = 2\<rparr> vst_empty = Inr (rs, v') \<and>
     exact_top_k (sp_k \<lparr>sp_k = 1, sp_ef_search = 2\<rparr>) (hn_candidates small_index [0]) rs"
    by (intro hnsw_exhaustive_exact) (auto simp: kInvalidLocalId_def hn_ef_def small_reachable small_dist)
  then show ?thesis by simp
qed

text \<open>C21: when every live slot is reachable, the exhaustive graph search and the exact scan of the same
  vectors give the same results in the same order, provided no reachable key is NaN.\<close>

theorem hnsw_agrees_with_brute_force:
  assumes "hn_graph ix" and "vst_inv v" and "0 < sp_k params" and "length q = ac_dimension (hn_accessor ix)"
    and "hn_entry_point ix \<noteq> kInvalidLocalId" and "hn_size ix \<le> hn_ef ix params"
    and "\<forall>i\<in>hn_reachable ix q. \<not> f32_isnan (hn_dist ix q (hn_query_norm ix q) i)"
    and "{i. i < ac_size (hn_accessor ix) \<and> ac_is_live (hn_accessor ix) i} \<subseteq> hn_reachable ix q"
    and "hn_size ix = ac_size (hn_accessor ix)"
    and "bf = \<lparr>bf_accessor = hn_accessor ix, bf_metric = hn_metric ix, bf_kernel = hn_kernel ix\<rparr>"
  shows "\<exists>rs v'. hn_search ix q params v = Inr (rs, v') \<and> bf_search bf q params = Inr rs"
proof -
  obtain cs v' where C: "hn_search ix q params v = Inr (best_k (sp_k params) cs, v')"
    "set cs = hn_candidates ix q" "distinct (map local_id cs)" "\<forall>c\<in>set cs. ordered_key c"
    by (rule hn_search_best [OF assms(1-7)])
  note range = hn_reachable_range [OF assms(1,5)]
  have key: "bf_key bf q (bf_query_norm bf q) i = hn_dist ix q (hn_query_norm ix q) i" for i
    by (simp add: bf_key_def hn_dist_def bf_query_norm_def hn_query_norm_def assms(10))
  have set: "set cs = bf_live_candidates bf q"
    unfolding C(2) using assms(8,9) range
    by (auto simp: hn_candidates_def bf_live_candidates_def key) (auto simp: assms(10))
  let ?bs = "bf_candidates bf q (bf_query_norm bf q) 0 (ac_size (bf_accessor bf))"
  have "bf_search bf q params = Inr (best_k (sp_k params) ?bs)"
  proof (rule bf_search_best)
    show "ac_size (bf_accessor bf) < 2 ^ 32"
      using assms(1,9,10) by (auto simp: hn_graph_def hn_entry_ok_def kMaxVectorCount_def split: if_splits)
    show "\<forall>c\<in>bf_live_candidates bf q. ordered_key c" using C(4) set by simp
  qed (use assms(3,4,10) in simp_all)
  moreover have "sort_by candidate_better cs = sort_by candidate_better ?bs"
  proof (rule sort_better_unique)
    show "distinct (map local_id ?bs)" by (simp add: bf_candidates_ids)
    have "mset (map local_id (sort_by candidate_better cs)) = mset (map local_id cs)" by (simp add: mset_map)
    then show "distinct (map local_id (sort_by candidate_better cs))" using C(3) by (metis mset_eq_imp_distinct_iff)
    show "asc candidate_better (sort_by candidate_better cs)"
      by (rule asc_sort_by [OF swo_better]) (use C(4) in \<open>auto simp: ordered_def\<close>)
  qed (use C(4) set bf_candidates_set [of bf q] in simp_all)
  ultimately show ?thesis using C(1) by (simp add: best_k_def)
qed

theorem hnsw_agrees_with_brute_force_witness:
  "\<exists>rs v'. hn_search small_index [0] \<lparr>sp_k = 1, sp_ef_search = 2\<rparr> vst_empty = Inr (rs, v') \<and>
     bf_search \<lparr>bf_accessor = small_accessor, bf_metric = L2Squared, bf_kernel = small_kernel\<rparr> [0]
       \<lparr>sp_k = 1, sp_ef_search = 2\<rparr> = Inr rs"
proof -
  have "\<not> f32_isnan 0x3f800000" "\<not> f32_isnan 0x40000000" by (simp_all add: feval cong: let_weak_cong)
  then show ?thesis
    by (intro hnsw_agrees_with_brute_force)
      (auto simp: kInvalidLocalId_def hn_ef_def small_reachable small_dist less_2_cases_iff)
qed

end
