(* ===== verification/Vdb_HnswBuild.thy ===== *)
theory Vdb_HnswBuild
  imports Vdb_HnswSearch
begin

text \<open>
  Building the HNSW graph (\<^verbatim>\<open>src/index/hnsw/hnsw_index.cpp\<close>): the neighbour selection with its
  diversity rule and its backfill, the reverse links with their re-selection, and \<^verbatim>\<open>add\<close>. The lemmas
  show that every step keeps the graph well formed: blocks disjoint, counts within their limits, every
  link to a node that exists on the layer, no node linked twice or to itself.
\<close>

section \<open>Neighbour selection\<close>

fun select_diverse :: "hnsw_index \<Rightarrow> nat \<Rightarrow> candidate list \<Rightarrow> local_id list \<Rightarrow> local_id list" where
  "select_diverse ix limit [] out = out"
| "select_diverse ix limit (c # cs) out =
     (if length out \<ge> limit then out
      else let v = ac_vector (hn_accessor ix) (local_id c); n = ac_norm (hn_accessor ix) (local_id c);
               dominated = list_ex (\<lambda>chosen. f32_lt (hn_dist ix v n chosen) (key c)) out in
        if \<not> dominated then select_diverse ix limit cs (out @ [local_id c])
        else select_diverse ix limit cs out)"

fun backfill :: "nat \<Rightarrow> candidate list \<Rightarrow> local_id list \<Rightarrow> local_id list" where
  "backfill limit [] out = out"
| "backfill limit (c # cs) out =
     (if length out \<ge> limit then out
      else if local_id c \<notin> set out then backfill limit cs (out @ [local_id c])
      else backfill limit cs out)"

text \<open>Returns the candidates too, which it sorts in place.\<close>

definition select_neighbours :: "hnsw_index \<Rightarrow> candidate list \<Rightarrow> nat \<Rightarrow> candidate list \<times> local_id list" where
  "select_neighbours ix candidates limit =
     (if length candidates \<le> limit then (candidates, map local_id candidates)
      else let sorted = sort_by candidate_better candidates;
               out = select_diverse ix limit sorted [] in
        (sorted, if length out < limit then backfill limit sorted out else out))"

section \<open>Linking\<close>

definition hn_link :: "hnsw_index \<Rightarrow> local_id \<Rightarrow> local_id \<Rightarrow> nat \<Rightarrow> hnsw_index" where
  "hn_link ix from to layer =
     (let limit = max_neighbours (hn_config ix) layer; n = hn_peek ix from layer 0 in
      if n < limit then hn_poke (hn_poke ix from layer (n + 1) to) from layer 0 (cast_u32 (n + 1))
      else let v = ac_vector (hn_accessor ix) from; vnorm = ac_norm (hn_accessor ix) from;
               cand = (\<lambda>i. \<lparr>local_id = i, key = hn_dist ix v vnorm i\<rparr>);
               candidates = map (\<lambda>i. cand (hn_peek ix from layer (i + 1))) [0..<n] @ [cand to] in
        set_neighbours ix from layer (snd (select_neighbours ix candidates limit)))"

fun link_all :: "hnsw_index \<Rightarrow> local_id list \<Rightarrow> local_id \<Rightarrow> nat \<Rightarrow> hnsw_index" where
  "link_all ix [] i layer = ix"
| "link_all ix (n # ns) i layer = link_all (hn_link ix n i layer) ns i layer"

section \<open>Adding a node\<close>

text \<open>The arrays grown by the blocks of the new node, every count zero.\<close>

definition hn_append_node :: "hnsw_index \<Rightarrow> local_id \<Rightarrow> nat \<Rightarrow> hnsw_index" where
  "hn_append_node ix i level =
     (let ix = ix\<lparr>hn_node_level := hn_node_level ix @ [level mod 256],
                  hn_layer0_links := hn_layer0_links ix @ replicate (layer0_stride ix) kInvalidLocalId\<rparr>;
          ix = hn_poke ix i 0 0 0 in
      if level > 0 then
        let ix = ix\<lparr>hn_upper_offsets := hn_upper_offsets ix @ [cast_u32 (length (hn_upper_links ix))],
                    hn_upper_links := hn_upper_links ix @ replicate (level * upper_stride ix) kInvalidLocalId\<rparr> in
        foldl (\<lambda>ix layer. hn_poke ix i layer 0 0) ix [1..<level + 1]
      else ix\<lparr>hn_upper_offsets := hn_upper_offsets ix @ [kNoUpperLinks]\<rparr>)"

text \<open>The loop over the layers \<open>n - 1\<close> down to \<open>0\<close>.\<close>

fun connect_layers ::
    "hnsw_index \<Rightarrow> local_id \<Rightarrow> vec \<Rightarrow> f32 \<Rightarrow> nat \<Rightarrow> local_id list \<Rightarrow> visited_set \<Rightarrow> hnsw_index \<times> visited_set" where
  "connect_layers ix i v vnorm 0 entry_points scratch = (ix, scratch)"
| "connect_layers ix i v vnorm (Suc layer) entry_points scratch =
     (let (found, scratch) = search_layer ix v vnorm entry_points (hc_ef_construction (hn_config ix)) layer scratch;
          (found, chosen) = select_neighbours ix found (max_neighbours (hn_config ix) layer);
          ix = link_all (set_neighbours ix i layer chosen) chosen i layer in
      connect_layers ix i v vnorm layer (map local_id found) scratch)"

definition hn_add ::
    "(f64 \<Rightarrow> f64) \<Rightarrow> hnsw_index \<Rightarrow> local_id \<Rightarrow> visited_set \<Rightarrow> (hnsw_index \<times> visited_set) result" where
  "hn_add logd ix i scratch =
     (if i \<noteq> length (hn_node_level ix) then Inl InvalidArgumentError
      else if i \<ge> ac_size (hn_accessor ix) then Inl InvalidArgumentError
      else let (level, ix) = random_level logd ix;
               ix = hn_append_node ix i level;
               ix = ix\<lparr>hn_live_count := hn_live_count ix + 1\<rparr> in
        if hn_entry_point ix = kInvalidLocalId
        then Inr (ix\<lparr>hn_entry_point := i, hn_max_level := level\<rparr>, scratch)
        else let v = ac_vector (hn_accessor ix) i; vnorm = ac_norm (hn_accessor ix) i;
                 entry = descend_to ix v vnorm level (hn_max_level ix) (hn_entry_point ix);
                 start = min level (hn_max_level ix);
                 (ix, scratch) = connect_layers ix i v vnorm (start + 1) [entry] scratch in
          Inr (if level > hn_max_level ix then ix\<lparr>hn_max_level := level, hn_entry_point := i\<rparr> else ix, scratch))"

section \<open>What selection returns\<close>

lemma select_diverse_facts:
  "length out \<le> limit \<Longrightarrow> distinct (out @ map local_id cs) \<Longrightarrow>
   length (select_diverse ix limit cs out) \<le> limit \<and> distinct (select_diverse ix limit cs out) \<and>
   set out \<subseteq> set (select_diverse ix limit cs out) \<and>
   set (select_diverse ix limit cs out) \<subseteq> set out \<union> local_id ` set cs"
proof (induction cs arbitrary: out)
  case (Cons c cs)
  have "distinct ((out @ [local_id c]) @ map local_id cs)" "distinct (out @ map local_id cs)" using Cons.prems(2) by auto
  then show ?case using Cons.IH [of "out @ [local_id c]"] Cons.IH [of out] Cons.prems(1) by (auto simp: Let_def)
qed simp

text \<open>Backfilling reaches the limit or takes everything.\<close>

lemma backfill_facts:
  "length out \<le> limit \<Longrightarrow> distinct out \<Longrightarrow>
   distinct (backfill limit cs out) \<and> set out \<subseteq> set (backfill limit cs out) \<and>
   set (backfill limit cs out) \<subseteq> set out \<union> local_id ` set cs \<and>
   length (backfill limit cs out) = min limit (card (set out \<union> local_id ` set cs))"
proof (induction cs arbitrary: out)
  case Nil
  then show ?case by (simp add: distinct_card)
next
  case (Cons c cs)
  show ?case
  proof (cases "length out \<ge> limit")
    case True
    have "card (set out) \<le> card (set out \<union> local_id ` set (c # cs))" by (rule card_mono) auto
    then show ?thesis using True Cons.prems by (auto simp: distinct_card)
  next
    case False
    have "set (out @ [local_id c]) \<union> local_id ` set cs = set out \<union> local_id ` set (c # cs)" by auto
    then show ?thesis
      using False Cons.prems Cons.IH [of "out @ [local_id c]"] Cons.IH [of out] by (auto simp: insert_absorb)
  qed
qed

lemma select_neighbours_result:
  assumes d: "distinct (map local_id cs)"
  shows "distinct (snd (select_neighbours ix cs limit))" (is ?D)
    and "set (snd (select_neighbours ix cs limit)) \<subseteq> local_id ` set cs" (is ?S)
    and "length (snd (select_neighbours ix cs limit)) = min limit (length cs)" (is ?L)
    and "mset (fst (select_neighbours ix cs limit)) = mset cs"
proof -
  let ?s = "sort_by candidate_better cs"
  have "mset (map local_id ?s) = mset (map local_id cs)" by (simp add: mset_map)
  then have ds: "distinct (map local_id ?s)" using d by (metis mset_eq_imp_distinct_iff)
  have ids: "card (local_id ` set cs) = length cs" using distinct_card [OF d] by simp
  let ?o = "select_diverse ix limit ?s []"
  have o: "length ?o \<le> limit" "distinct ?o" "set ?o \<subseteq> local_id ` set cs"
    using select_diverse_facts [of "[]" limit ?s ix] ds by simp_all
  have u: "set ?o \<union> local_id ` set ?s = local_id ` set cs" using o(3) by auto
  note b = backfill_facts [OF o(1,2), of ?s, unfolded u]
  have b': "distinct (backfill limit ?s ?o)" "set (backfill limit ?s ?o) \<subseteq> local_id ` set cs"
    "length (backfill limit ?s ?o) = min limit (length cs)"
    using b ids by auto
  show "mset (fst (select_neighbours ix cs limit)) = mset cs" by (simp add: select_neighbours_def Let_def)
  show ?D using d o b' by (simp add: select_neighbours_def Let_def)
  show ?S using o b' by (simp add: select_neighbours_def Let_def)
  show ?L using o b' by (simp add: select_neighbours_def Let_def)
qed

section \<open>Link values fit 32 bits\<close>

definition hn_words :: "hnsw_index \<Rightarrow> bool" where
  "hn_words ix \<longleftrightarrow> hn_size ix \<le> 2 ^ 32 \<and> (\<forall>x\<in>set (hn_layer0_links ix) \<union> set (hn_upper_links ix). x < 2 ^ 32)"

lemma words_poke: "hn_words ix \<Longrightarrow> v < 2 ^ 32 \<Longrightarrow> hn_words (hn_poke ix i l k v)"
  by (auto simp: hn_words_def hn_poke_def hn_size_def dest: subsetD [OF set_update_subset_insert])

lemma words_poke_from: "hn_words ix \<Longrightarrow> \<forall>v\<in>set vs. v < 2 ^ 32 \<Longrightarrow> hn_words (poke_from ix i l k vs)"
  by (induction vs arbitrary: ix k) (simp_all add: words_poke)

lemma words_set: "hn_words ix \<Longrightarrow> \<forall>v\<in>set vs. v < 2 ^ 32 \<Longrightarrow> hn_words (set_neighbours ix i l vs)"
  unfolding set_neighbours_def by (intro words_poke_from words_poke) (simp_all add: cast_u32_def)

lemma words_node: "hn_words ix \<Longrightarrow> hn_node ix i l \<Longrightarrow> i < 2 ^ 32"
  by (simp add: hn_words_def hn_node_def)

section \<open>Growing the arrays\<close>

definition hn_grown :: "hnsw_index \<Rightarrow> nat \<Rightarrow> hnsw_index" where
  "hn_grown ix level = ix\<lparr>hn_node_level := hn_node_level ix @ [level mod 256],
     hn_layer0_links := hn_layer0_links ix @ replicate (layer0_stride ix) kInvalidLocalId,
     hn_upper_offsets := hn_upper_offsets ix @ [if level > 0 then cast_u32 (length (hn_upper_links ix)) else kNoUpperLinks],
     hn_upper_links := hn_upper_links ix @ replicate (level * upper_stride ix) kInvalidLocalId\<rparr>"

lemma append_node_grown:
  "hn_append_node ix i level = foldl (\<lambda>ix l. hn_poke ix i l 0 0) (hn_grown ix level) [0..<level + 1]"
proof -
  have "[0..<level + 1] = 0 # [1..<level + 1]" by (simp add: upt_conv_Cons)
  moreover have "hn_poke (hn_grown ix level) i 0 0 0 =
      (let jx = ix\<lparr>hn_node_level := hn_node_level ix @ [level mod 256],
                  hn_layer0_links := hn_layer0_links ix @ replicate (layer0_stride ix) kInvalidLocalId\<rparr>;
          jx = hn_poke jx i 0 0 0 in
        jx\<lparr>hn_upper_offsets := hn_upper_offsets ix @ [if level > 0 then cast_u32 (length (hn_upper_links ix)) else kNoUpperLinks],
           hn_upper_links := hn_upper_links ix @ replicate (level * upper_stride ix) kInvalidLocalId\<rparr>)"
    by (simp add: hn_grown_def hn_poke_def Let_def link_addr_def layer0_stride_def)
  ultimately show ?thesis
    by (cases "level = 0") (simp_all add: hn_append_node_def Let_def hn_poke_def upper_stride_def)
qed

lemma grown_fields [simp]:
  "hn_config (hn_grown ix l) = hn_config ix" "hn_accessor (hn_grown ix l) = hn_accessor ix"
  "hn_metric (hn_grown ix l) = hn_metric ix" "hn_kernel (hn_grown ix l) = hn_kernel ix"
  "hn_entry_point (hn_grown ix l) = hn_entry_point ix" "hn_max_level (hn_grown ix l) = hn_max_level ix"
  "hn_live_count (hn_grown ix l) = hn_live_count ix" "hn_rng (hn_grown ix l) = hn_rng ix"
  "hn_size (hn_grown ix l) = Suc (hn_size ix)" "layer0_stride (hn_grown ix l) = layer0_stride ix"
  "upper_stride (hn_grown ix l) = upper_stride ix" "hn_stride (hn_grown ix l) = hn_stride ix"
  by (simp_all add: hn_grown_def hn_size_def layer0_stride_def upper_stride_def hn_stride_def fun_eq_iff)

lemma grown_node:
  "level < 256 \<Longrightarrow> hn_node (hn_grown ix level) j l \<longleftrightarrow> hn_node ix j l \<or> j = hn_size ix \<and> l \<le> level"
  by (auto simp: hn_node_def hn_grown_def hn_size_def nth_append less_Suc_eq)

lemma grown_before: "j \<le> hn_size ix \<Longrightarrow> upper_before (hn_grown ix level) j = upper_before ix j"
  by (simp add: upper_before_def hn_grown_def hn_size_def)

lemma grown_shape:
  assumes shape: "hn_shape ix" and l: "level < 256" and u: "length (hn_upper_links ix) < 2 ^ 32"
  shows "hn_shape (hn_grown ix level)"
proof -
  have b: "upper_before (hn_grown ix level) (Suc (hn_size ix)) = upper_before ix (hn_size ix) + level"
    using l by (simp add: upper_before_def hn_grown_def hn_size_def)
  have len: "length (hn_upper_links ix) = upper_before ix (hn_size ix) * upper_stride ix"
    "length (hn_upper_offsets ix) = hn_size ix" "length (hn_layer0_links ix) = hn_size ix * layer0_stride ix"
    and offs: "\<And>j. j < hn_size ix \<Longrightarrow> hn_upper_offsets ix ! j =
        (if 0 < hn_node_level ix ! j then upper_before ix j * upper_stride ix else kNoUpperLinks)"
    using shape by (simp_all add: hn_shape_def)
  have "hn_upper_offsets (hn_grown ix level) ! j = (if 0 < hn_node_level (hn_grown ix level) ! j
      then upper_before (hn_grown ix level) j * upper_stride ix else kNoUpperLinks)"
    if j: "j < Suc (hn_size ix)" for j
  proof (cases "j = hn_size ix")
    case True
    have "hn_node_level (hn_grown ix level) ! j = level" using True l by (simp add: hn_grown_def hn_size_def)
    moreover have "hn_upper_offsets (hn_grown ix level) ! j = (if 0 < level then length (hn_upper_links ix) else kNoUpperLinks)"
      using True len(2) u by (simp add: hn_grown_def nth_append cast_u32_id)
    ultimately show ?thesis using True len(1) grown_before [of j ix level] by simp
  next
    case False
    then have j': "j < hn_size ix" using j(1) by simp
    then have "hn_node_level (hn_grown ix level) ! j = hn_node_level ix ! j" by (simp add: hn_grown_def hn_size_def nth_append)
    moreover have "hn_upper_offsets (hn_grown ix level) ! j = hn_upper_offsets ix ! j"
      using j' len(2) by (simp add: hn_grown_def nth_append)
    ultimately show ?thesis using offs [OF j'] j' grown_before [of j ix level] by simp
  qed
  moreover have "length (hn_upper_links (hn_grown ix level)) = (upper_before ix (hn_size ix) + level) * upper_stride ix"
    by (simp add: hn_grown_def len(1) add_mult_distrib)
  moreover have "length (hn_upper_offsets (hn_grown ix level)) = Suc (hn_size ix)"
    "length (hn_layer0_links (hn_grown ix level)) = Suc (hn_size ix) * layer0_stride ix"
    by (simp_all add: hn_grown_def len)
  ultimately show ?thesis unfolding hn_shape_def by (simp only: grown_fields b) simp
qed

lemma grown_peek:
  assumes shape: "hn_shape ix" and n: "hn_node ix j l" "k < hn_stride ix l"
  shows "hn_peek (hn_grown ix level) j l k = hn_peek ix j l k"
proof -
  have j: "j < length (hn_upper_offsets ix)" using n(1) shape by (simp add: hn_node_def hn_shape_def)
  have "link_addr (hn_grown ix level) j l = link_addr ix j l"
    using j by (simp add: link_addr_def) (simp add: hn_grown_def nth_append)
  then show ?thesis
    using link_addr_bound [OF shape n] by (cases "l = 0") (simp_all add: hn_peek_def hn_grown_def nth_append)
qed

lemma zero_counts:
  assumes "hn_shape ix" "\<forall>l\<in>set ls. hn_node ix i l" "hn_node ix j m" "k < hn_stride ix m"
  shows "hn_peek (foldl (\<lambda>ix l. hn_poke ix i l 0 0) ix ls) j m k = (if j = i \<and> m \<in> set ls \<and> k = 0 then 0 else hn_peek ix j m k)"
  using assms
proof (induction ls arbitrary: ix)
  case (Cons l ls)
  have p: "hn_peek (hn_poke ix i l 0 0) j m k = (if i = j \<and> l = m \<and> 0 = k then 0 else hn_peek ix j m k)"
    using Cons.prems by (intro peek_poke) (simp_all add: hn_stride_def)
  then show ?case using Cons.IH [of "hn_poke ix i l 0 0"] Cons.prems by auto
qed simp

lemma zero_fields [simp]:
  "hn_node_level (foldl (\<lambda>ix l. hn_poke ix i l 0 0) ix ls) = hn_node_level ix"
  "hn_config (foldl (\<lambda>ix l. hn_poke ix i l 0 0) ix ls) = hn_config ix"
  "hn_accessor (foldl (\<lambda>ix l. hn_poke ix i l 0 0) ix ls) = hn_accessor ix"
  "hn_metric (foldl (\<lambda>ix l. hn_poke ix i l 0 0) ix ls) = hn_metric ix"
  "hn_kernel (foldl (\<lambda>ix l. hn_poke ix i l 0 0) ix ls) = hn_kernel ix"
  "hn_entry_point (foldl (\<lambda>ix l. hn_poke ix i l 0 0) ix ls) = hn_entry_point ix"
  "hn_max_level (foldl (\<lambda>ix l. hn_poke ix i l 0 0) ix ls) = hn_max_level ix"
  "hn_live_count (foldl (\<lambda>ix l. hn_poke ix i l 0 0) ix ls) = hn_live_count ix"
  "hn_rng (foldl (\<lambda>ix l. hn_poke ix i l 0 0) ix ls) = hn_rng ix"
  "hn_shape (foldl (\<lambda>ix l. hn_poke ix i l 0 0) ix ls) = hn_shape ix"
  by (induction ls arbitrary: ix) simp_all

lemma append_node:
  assumes shape: "hn_shape ix" and counts: "hn_counts ix" and l: "level < 256"
    and u: "length (hn_upper_links ix) < 2 ^ 32" and ix': "ix' = hn_append_node ix (hn_size ix) level"
  shows "hn_shape ix'" and "hn_counts ix'"
    and "\<And>j m. hn_node ix' j m \<longleftrightarrow> hn_node ix j m \<or> j = hn_size ix \<and> m \<le> level"
    and "\<And>j m. neighbours ix' j m = neighbours ix j m" and "hn_size ix' = Suc (hn_size ix)"
proof -
  let ?i = "hn_size ix" and ?g = "hn_grown ix level"
  have gs: "hn_shape ?g" by (rule grown_shape [OF shape l u])
  have e: "ix' = foldl (\<lambda>ix l. hn_poke ix ?i l 0 0) ?g [0..<level + 1]" unfolding ix' by (rule append_node_grown)
  show s: "hn_size ix' = Suc (hn_size ix)" using grown_fields(9) [of ix level] by (simp add: e hn_size_def)
  show nd: "hn_node ix' j m \<longleftrightarrow> hn_node ix j m \<or> j = ?i \<and> m \<le> level" for j m
    using grown_node [OF l, of ix j m] by (simp add: e hn_node_def hn_size_def)
  show "hn_shape ix'" using gs by (simp add: e)
  have pk: "hn_peek ix' j m k = (if j = ?i \<and> k = 0 then 0 else hn_peek ?g j m k)"
    if "hn_node ix' j m" "k < hn_stride ix m" for j m k
  proof -
    have "hn_peek ix' j m k = (if j = ?i \<and> m \<in> set [0..<level + 1] \<and> k = 0 then 0 else hn_peek ?g j m k)"
      unfolding e using that nd grown_node [OF l, of ix] gs by (intro zero_counts) auto
    then show ?thesis using that nd by (auto simp: hn_node_def)
  qed
  have old: "hn_peek ix' j m k = hn_peek ix j m k" if "hn_node ix j m" "k < hn_stride ix m" for j m k
  proof -
    have "j \<noteq> ?i" using that by (simp add: hn_node_def)
    then show ?thesis using pk nd that grown_peek [OF shape that] by simp
  qed
  have cfg: "hn_config ix' = hn_config ix" by (simp add: e)
  have z: "hn_peek ix' ?i m 0 = 0" if "m \<le> level" for m using pk [of ?i m 0] nd that by (simp add: hn_stride_def)
  show "hn_counts ix'"
    unfolding hn_counts_def cfg using counts old [of _ _ 0] z by (auto simp: nd hn_counts_def hn_stride_def)
  show "neighbours ix' j m = neighbours ix j m" for j m
  proof (cases "hn_node ix j m")
    case True
    have c: "hn_peek ix j m 0 \<le> max_neighbours (hn_config ix) m" using counts True by (simp add: hn_counts_def)
    have "hn_peek ix' j m 0 = hn_peek ix j m 0" using old [OF True] by (simp add: hn_stride_def)
    moreover have "map (\<lambda>k. hn_peek ix' j m (k + 1)) [0..<hn_peek ix j m 0] = map (\<lambda>k. hn_peek ix j m (k + 1)) [0..<hn_peek ix j m 0]"
      using old [OF True] c by (auto simp: hn_stride_def)
    ultimately show ?thesis using True nd by (simp add: neighbours_node)
  next
    case False
    then show ?thesis using nd z [of m] by (cases "hn_node ix' j m") (auto simp: neighbours_node neighbours_not_node)
  qed
qed

lemma append_node_words:
  assumes "hn_words ix" "hn_size ix < 2 ^ 32"
  shows "hn_words (hn_append_node ix i level)"
proof -
  have "hn_words (hn_grown ix level)"
    using assms grown_fields(9) [of ix level] by (auto simp: hn_words_def hn_grown_def kInvalidLocalId_def)
  then have "hn_words (foldl (\<lambda>ix l. hn_poke ix i l 0 0) (hn_grown ix level) ls)" for ls
  proof (induction ls rule: rev_induct)
    case (snoc l ls)
    then show ?case by (simp add: words_poke)
  qed simp
  then show ?thesis unfolding append_node_grown by this
qed

lemma append_node_fields [simp]:
  "hn_config (hn_append_node ix i level) = hn_config ix" "hn_accessor (hn_append_node ix i level) = hn_accessor ix"
  "hn_metric (hn_append_node ix i level) = hn_metric ix" "hn_kernel (hn_append_node ix i level) = hn_kernel ix"
  "hn_entry_point (hn_append_node ix i level) = hn_entry_point ix" "hn_max_level (hn_append_node ix i level) = hn_max_level ix"
  "hn_live_count (hn_append_node ix i level) = hn_live_count ix" "hn_rng (hn_append_node ix i level) = hn_rng ix"
  by (simp_all add: append_node_grown)

section \<open>Links stay well formed\<close>

definition hn_lists :: "hnsw_index \<Rightarrow> bool" where
  "hn_lists ix \<longleftrightarrow> (\<forall>j m. distinct (neighbours ix j m) \<and> j \<notin> set (neighbours ix j m))"

text \<open>Everything about the links, and a configuration the constructor accepts.\<close>

definition hn_ok :: "hnsw_index \<Rightarrow> bool" where
  "hn_ok ix \<longleftrightarrow> hn_shape ix \<and> hn_counts ix \<and> hn_links_ok ix \<and> hn_lists ix \<and> hn_words ix \<and>
     hc_validate (hn_config ix) = Inr ()"

lemma config_bounds:
  assumes "hc_validate c = Inr ()"
  shows "0 < max_neighbours c l" "max_neighbours c l < 2 ^ 32" "0 < hc_ef_construction c"
  using assms by (auto simp: hc_validate_def max_neighbours_def max_m0_def guard_throw_def rbind_def split: if_splits)

lemma neighbours_set:
  assumes "hn_ok ix" "hn_node ix i l" "length vs \<le> max_neighbours (hn_config ix) l"
  shows "neighbours (set_neighbours ix i l vs) j m = (if j = i \<and> m = l then vs else neighbours ix j m)"
    and "hn_counts (set_neighbours ix i l vs)"
proof -
  have "max_neighbours (hn_config ix) l < 2 ^ 32" using assms(1) by (intro config_bounds(2)) (simp add: hn_ok_def)
  then have "length vs < 2 ^ 32" by (rule le_less_trans [OF assms(3)])
  then show "neighbours (set_neighbours ix i l vs) j m = (if j = i \<and> m = l then vs else neighbours ix j m)"
    and "hn_counts (set_neighbours ix i l vs)"
    using neighbours_set_neighbours [of ix i l vs] assms by (auto simp: hn_ok_def)
qed

lemma ok_set_neighbours:
  assumes "hn_ok ix" "hn_node ix i l" "length vs \<le> max_neighbours (hn_config ix) l"
    and "distinct vs" "i \<notin> set vs" "\<forall>v\<in>set vs. hn_node ix v l"
  shows "hn_ok (set_neighbours ix i l vs)"
  using assms neighbours_set [OF assms(1-3)] words_set [of ix vs i l] words_node [of ix _ l]
  by (auto simp: hn_ok_def hn_links_ok_def hn_lists_def split: if_splits)

text \<open>A link appended in place is the block rewritten with one more entry.\<close>

lemma link_append:
  assumes ok: "hn_ok ix" and f: "hn_node ix f l" and c: "hn_peek ix f l 0 < max_neighbours (hn_config ix) l"
  shows "neighbours (hn_link ix f t l) j m = (if j = f \<and> m = l then neighbours ix f l @ [t] else neighbours ix j m)"
    and "hn_counts (hn_link ix f t l)"
proof -
  let ?n = "hn_peek ix f l 0" and ?p = "hn_poke ix f l (hn_peek ix f l 0 + 1) t"
  have shape: "hn_shape ix" and counts: "hn_counts ix" using ok by (simp_all add: hn_ok_def)
  have n32: "cast_u32 (?n + 1) = ?n + 1"
    using c config_bounds(2) [of "hn_config ix" l] ok by (intro cast_u32_id) (simp add: hn_ok_def)
  have e: "hn_link ix f t l = hn_poke ?p f l 0 (?n + 1)" using c n32 by (simp add: hn_link_def Let_def)
  have pk: "hn_peek (hn_link ix f t l) j m k = (if j = f \<and> m = l \<and> k = 0 then ?n + 1
      else if j = f \<and> m = l \<and> k = ?n + 1 then t else hn_peek ix j m k)"
    if "hn_node ix j m" "k < hn_stride ix m" for j m k
  proof -
    have "hn_peek (hn_poke ?p f l 0 (?n + 1)) j m k = (if f = j \<and> l = m \<and> 0 = k then ?n + 1 else hn_peek ?p j m k)"
      using shape f that by (intro peek_poke) (simp_all add: hn_stride_def)
    moreover have "hn_peek ?p j m k = (if f = j \<and> l = m \<and> ?n + 1 = k then t else hn_peek ix j m k)"
      using shape f that c by (intro peek_poke) (simp_all add: hn_stride_def)
    ultimately show ?thesis unfolding e by auto
  qed
  have nd: "hn_node (hn_link ix f t l) j m = hn_node ix j m" for j m by (simp add: e)
  show "hn_counts (hn_link ix f t l)"
    using counts c pk [of _ _ 0] by (auto simp: hn_counts_def nd e hn_stride_def)
  show "neighbours (hn_link ix f t l) j m = (if j = f \<and> m = l then neighbours ix f l @ [t] else neighbours ix j m)"
  proof (cases "hn_node ix j m")
    case True
    have cj: "hn_peek ix j m 0 \<le> max_neighbours (hn_config ix) m" using counts True by (simp add: hn_counts_def)
    show ?thesis
    proof (cases "j = f \<and> m = l")
      case same: True
      have "map (\<lambda>k. hn_peek (hn_link ix f t l) f l (k + 1)) [0..<?n] = map (\<lambda>k. hn_peek ix f l (k + 1)) [0..<?n]"
        using pk [OF f] c by (auto simp: hn_stride_def)
      moreover have "hn_peek (hn_link ix f t l) f l 0 = ?n + 1" "hn_peek (hn_link ix f t l) f l (?n + 1) = t"
        using pk [OF f] c by (simp_all add: hn_stride_def)
      ultimately show ?thesis using same f nd by (simp add: neighbours_node)
    next
      case False
      have "map (\<lambda>k. hn_peek (hn_link ix f t l) j m (k + 1)) [0..<hn_peek ix j m 0] =
          map (\<lambda>k. hn_peek ix j m (k + 1)) [0..<hn_peek ix j m 0]"
        using pk [OF True] False cj by (auto simp: hn_stride_def)
      moreover have "hn_peek (hn_link ix f t l) j m 0 = hn_peek ix j m 0"
        using pk [OF True, of 0] False by (simp add: hn_stride_def)
      ultimately show ?thesis unfolding if_not_P [OF False] using True nd by (simp add: neighbours_node)
    qed
  next
    case False
    then show ?thesis using f nd by (auto simp: neighbours_not_node)
  qed
qed

lemma link_fields [simp]:
  "hn_node_level (hn_link ix f t l) = hn_node_level ix" "hn_config (hn_link ix f t l) = hn_config ix"
  "hn_accessor (hn_link ix f t l) = hn_accessor ix" "hn_metric (hn_link ix f t l) = hn_metric ix"
  "hn_kernel (hn_link ix f t l) = hn_kernel ix" "hn_entry_point (hn_link ix f t l) = hn_entry_point ix"
  "hn_max_level (hn_link ix f t l) = hn_max_level ix" "hn_live_count (hn_link ix f t l) = hn_live_count ix"
  "hn_rng (hn_link ix f t l) = hn_rng ix" "hn_shape (hn_link ix f t l) = hn_shape ix"
  "hn_size (hn_link ix f t l) = hn_size ix" "hn_node (hn_link ix f t l) = hn_node ix"
  by (simp_all add: hn_link_def Let_def fun_eq_iff)

text \<open>After a link the list of \<open>f\<close> holds nothing but old neighbours and \<open>t\<close>, within the limit.\<close>

lemma link_result:
  assumes ok: "hn_ok ix" and f: "hn_node ix f l" and t: "hn_node ix t l" "t \<noteq> f" "t \<notin> set (neighbours ix f l)"
  shows "hn_ok (hn_link ix f t l)"
    and "\<And>j m. (j, m) \<noteq> (f, l) \<Longrightarrow> neighbours (hn_link ix f t l) j m = neighbours ix j m"
    and "set (neighbours (hn_link ix f t l) f l) \<subseteq> insert t (set (neighbours ix f l))"
proof -
  let ?N = "neighbours (hn_link ix f t l) f l" and ?n = "hn_peek ix f l 0"
  have d: "distinct (neighbours ix f l)" "f \<notin> set (neighbours ix f l)" using ok by (auto simp: hn_ok_def hn_lists_def)
  have w: "hn_words ix" "t < 2 ^ 32" using ok words_node [OF _ t(1)] by (simp_all add: hn_ok_def)
  have "hn_words (hn_link ix f t l) \<and> hn_counts (hn_link ix f t l) \<and> (\<forall>j m. (j, m) \<noteq> (f, l) \<longrightarrow> neighbours (hn_link ix f t l) j m = neighbours ix j m) \<and>
    set ?N \<subseteq> insert t (set (neighbours ix f l)) \<and> distinct ?N"
  proof (cases "?n < max_neighbours (hn_config ix) l")
    case True
    moreover have "hn_words (hn_link ix f t l)" using True w
      by (simp add: hn_link_def Let_def words_poke cast_u32_def)
    ultimately show ?thesis using link_append [OF ok f True] d t(3) by auto
  next
    case False
    let ?v = "ac_vector (hn_accessor ix) f" and ?vn = "ac_norm (hn_accessor ix) f"
    let ?cand = "\<lambda>i. \<lparr>local_id = i, key = hn_dist ix ?v ?vn i\<rparr>"
    let ?cs = "map (\<lambda>i. ?cand (hn_peek ix f l (i + 1))) [0..<?n] @ [?cand t]"
    let ?kept = "snd (select_neighbours ix ?cs (max_neighbours (hn_config ix) l))"
    have e: "hn_link ix f t l = set_neighbours ix f l ?kept" using False by (simp add: hn_link_def Let_def)
    have ids: "map local_id ?cs = neighbours ix f l @ [t]" using f by (simp add: neighbours_node comp_def)
    then have dc: "distinct (map local_id ?cs)" using d t(3) by simp
    note S = select_neighbours_result [OF dc, of ix "max_neighbours (hn_config ix) l"]
    have "length ?kept \<le> max_neighbours (hn_config ix) l" using S(3) by simp
    note N = neighbours_set [OF ok f this, folded e]
    have "local_id ` set ?cs = set (map local_id ?cs)" by (simp only: set_map)
    also have "\<dots> = insert t (set (neighbours ix f l))" unfolding ids by simp
    finally have "local_id ` set ?cs = insert t (set (neighbours ix f l))" .
    moreover have "\<forall>k\<in>set ?kept. k < 2 ^ 32"
      using S(2) w words_node [of ix _ l] ok calculation by (auto simp: hn_ok_def hn_links_ok_def)
    then have "hn_words (hn_link ix f t l)" unfolding e by (rule words_set [OF w(1)])
    ultimately show ?thesis using N S(1,2) by auto
  qed
  then have N: "hn_words (hn_link ix f t l)" "hn_counts (hn_link ix f t l)" "\<And>j m. (j, m) \<noteq> (f, l) \<Longrightarrow> neighbours (hn_link ix f t l) j m = neighbours ix j m"
    "set ?N \<subseteq> insert t (set (neighbours ix f l))" "distinct ?N" by blast+
  show "(j, m) \<noteq> (f, l) \<Longrightarrow> neighbours (hn_link ix f t l) j m = neighbours ix j m" for j m by (rule N(3))
  show "set ?N \<subseteq> insert t (set (neighbours ix f l))" by (rule N(4))
  have links: "hn_node ix k m" if "k \<in> set (neighbours (hn_link ix f t l) j m)" for j k m
    using that N(3) [of j m] N(4) t(1) ok by (cases "(j, m) = (f, l)") (auto simp: hn_ok_def hn_links_ok_def)
  have lists: "distinct (neighbours (hn_link ix f t l) j m) \<and> j \<notin> set (neighbours (hn_link ix f t l) j m)" for j m
    using N(3) [of j m] N(4,5) d t(2) ok by (cases "(j, m) = (f, l)") (auto simp: hn_ok_def hn_lists_def)
  show "hn_ok (hn_link ix f t l)"
    using ok N(1,2) links lists by (simp add: hn_ok_def hn_links_ok_def hn_lists_def)
qed

lemma link_all_fields [simp]:
  "hn_node_level (link_all ix ns i l) = hn_node_level ix" "hn_config (link_all ix ns i l) = hn_config ix"
  "hn_accessor (link_all ix ns i l) = hn_accessor ix" "hn_metric (link_all ix ns i l) = hn_metric ix"
  "hn_kernel (link_all ix ns i l) = hn_kernel ix" "hn_entry_point (link_all ix ns i l) = hn_entry_point ix"
  "hn_max_level (link_all ix ns i l) = hn_max_level ix" "hn_live_count (link_all ix ns i l) = hn_live_count ix"
  "hn_rng (link_all ix ns i l) = hn_rng ix" "hn_node (link_all ix ns i l) = hn_node ix" "hn_size (link_all ix ns i l) = hn_size ix"
  by (induction ns arbitrary: ix) simp_all

lemma link_all_result:
  assumes "hn_ok ix" "distinct ns" "i \<notin> set ns" "hn_node ix i l" "\<forall>n\<in>set ns. hn_node ix n l \<and> i \<notin> set (neighbours ix n l)"
  shows "hn_ok (link_all ix ns i l) \<and> (\<forall>j m. m \<noteq> l \<longrightarrow> neighbours (link_all ix ns i l) j m = neighbours ix j m) \<and>
    neighbours (link_all ix ns i l) i l = neighbours ix i l"
  using assms
proof (induction ns arbitrary: ix)
  case (Cons n ns)
  have n: "hn_node ix n l" "i \<noteq> n" "i \<notin> set (neighbours ix n l)" using Cons.prems(3,5) by auto
  note L = link_result [OF Cons.prems(1) n(1) Cons.prems(4) n(2,3)]
  have "\<forall>k\<in>set ns. hn_node (hn_link ix n i l) k l \<and> i \<notin> set (neighbours (hn_link ix n i l) k l)"
  proof
    fix k assume k: "k \<in> set ns"
    then have "k \<noteq> n" using Cons.prems(2) by auto
    then have "neighbours (hn_link ix n i l) k l = neighbours ix k l" by (intro L(2)) simp
    then show "hn_node (hn_link ix n i l) k l \<and> i \<notin> set (neighbours (hn_link ix n i l) k l)"
      using Cons.prems(5) k by simp
  qed
  then show ?case using Cons.IH [OF L(1)] Cons.prems L(2) n(2) by auto
qed simp

text \<open>The links do not depend on the scalar fields.\<close>

lemma scalar_updates [simp]:
  "hn_size (ix\<lparr>hn_rng := g\<rparr>) = hn_size ix"
  "hn_shape (ix\<lparr>hn_rng := g\<rparr>) = hn_shape ix"
  "hn_counts (ix\<lparr>hn_rng := g\<rparr>) = hn_counts ix"
  "hn_links_ok (ix\<lparr>hn_rng := g\<rparr>) = hn_links_ok ix"
  "hn_lists (ix\<lparr>hn_rng := g\<rparr>) = hn_lists ix"
  "hn_ok (ix\<lparr>hn_rng := g\<rparr>) = hn_ok ix" "hn_words (ix\<lparr>hn_rng := g\<rparr>) = hn_words ix"
  "hn_node (ix\<lparr>hn_rng := g\<rparr>) i l = hn_node ix i l" "neighbours (ix\<lparr>hn_rng := g\<rparr>) i l = neighbours ix i l"
  "hn_peek (ix\<lparr>hn_rng := g\<rparr>) i l k = hn_peek ix i l k"
  "hn_size (ix\<lparr>hn_live_count := n\<rparr>) = hn_size ix"
  "hn_shape (ix\<lparr>hn_live_count := n\<rparr>) = hn_shape ix"
  "hn_counts (ix\<lparr>hn_live_count := n\<rparr>) = hn_counts ix"
  "hn_links_ok (ix\<lparr>hn_live_count := n\<rparr>) = hn_links_ok ix"
  "hn_lists (ix\<lparr>hn_live_count := n\<rparr>) = hn_lists ix"
  "hn_ok (ix\<lparr>hn_live_count := n\<rparr>) = hn_ok ix" "hn_words (ix\<lparr>hn_live_count := n\<rparr>) = hn_words ix"
  "hn_node (ix\<lparr>hn_live_count := n\<rparr>) i l = hn_node ix i l" "neighbours (ix\<lparr>hn_live_count := n\<rparr>) i l = neighbours ix i l"
  "hn_peek (ix\<lparr>hn_live_count := n\<rparr>) i l k = hn_peek ix i l k"
  "hn_size (ix\<lparr>hn_entry_point := e\<rparr>) = hn_size ix"
  "hn_shape (ix\<lparr>hn_entry_point := e\<rparr>) = hn_shape ix"
  "hn_counts (ix\<lparr>hn_entry_point := e\<rparr>) = hn_counts ix"
  "hn_links_ok (ix\<lparr>hn_entry_point := e\<rparr>) = hn_links_ok ix"
  "hn_lists (ix\<lparr>hn_entry_point := e\<rparr>) = hn_lists ix"
  "hn_ok (ix\<lparr>hn_entry_point := e\<rparr>) = hn_ok ix" "hn_words (ix\<lparr>hn_entry_point := e\<rparr>) = hn_words ix"
  "hn_node (ix\<lparr>hn_entry_point := e\<rparr>) i l = hn_node ix i l" "neighbours (ix\<lparr>hn_entry_point := e\<rparr>) i l = neighbours ix i l"
  "hn_peek (ix\<lparr>hn_entry_point := e\<rparr>) i l k = hn_peek ix i l k"
  "hn_size (ix\<lparr>hn_max_level := m\<rparr>) = hn_size ix"
  "hn_shape (ix\<lparr>hn_max_level := m\<rparr>) = hn_shape ix"
  "hn_counts (ix\<lparr>hn_max_level := m\<rparr>) = hn_counts ix"
  "hn_links_ok (ix\<lparr>hn_max_level := m\<rparr>) = hn_links_ok ix"
  "hn_lists (ix\<lparr>hn_max_level := m\<rparr>) = hn_lists ix"
  "hn_ok (ix\<lparr>hn_max_level := m\<rparr>) = hn_ok ix" "hn_words (ix\<lparr>hn_max_level := m\<rparr>) = hn_words ix"
  "hn_node (ix\<lparr>hn_max_level := m\<rparr>) i l = hn_node ix i l" "neighbours (ix\<lparr>hn_max_level := m\<rparr>) i l = neighbours ix i l"
  "hn_peek (ix\<lparr>hn_max_level := m\<rparr>) i l k = hn_peek ix i l k"
  by (simp_all add: hn_words_def hn_size_def hn_shape_def upper_before_def layer0_stride_def upper_stride_def hn_counts_def hn_node_def
      hn_peek_def link_addr_def hn_links_ok_def neighbours_def hn_lists_def hn_ok_def)

section \<open>Adding a node keeps the graph well formed\<close>

lemma connect_layers_result:
  assumes "connect_layers ix i x vn n eps v = (ix', v')" "hn_ok ix" "vst_inv v"
    and "\<forall>e\<in>set eps. hn_node ix e (n - 1) \<and> e \<noteq> i" "eps \<noteq> []" "length eps \<le> hc_ef_construction (hn_config ix)"
    and "\<forall>m<n. hn_node ix i m \<and> neighbours ix i m = [] \<and> (\<forall>j. i \<notin> set (neighbours ix j m))"
  shows "hn_ok ix' \<and> vst_inv v' \<and> hn_node_level ix' = hn_node_level ix \<and> hn_config ix' = hn_config ix \<and>
    hn_accessor ix' = hn_accessor ix \<and> hn_metric ix' = hn_metric ix \<and> hn_kernel ix' = hn_kernel ix \<and>
    hn_entry_point ix' = hn_entry_point ix \<and> hn_max_level ix' = hn_max_level ix \<and>
    hn_live_count ix' = hn_live_count ix \<and> hn_rng ix' = hn_rng ix \<and>
    (\<forall>j m. n \<le> m \<longrightarrow> neighbours ix' j m = neighbours ix j m) \<and> (\<forall>m<n. neighbours ix' i m \<noteq> [])"
  using assms
proof (induction n arbitrary: ix eps v)
  case (Suc l)
  let ?efc = "hc_ef_construction (hn_config ix)" and ?lim = "max_neighbours (hn_config ix) l"
  obtain found v1 where s: "search_layer ix x vn eps ?efc l v = (found, v1)"
    by (cases "search_layer ix x vn eps ?efc l v")
  obtain found' chosen where c: "select_neighbours ix found ?lim = (found', chosen)"
    by (cases "select_neighbours ix found ?lim")
  define iy where "iy = set_neighbours ix i l chosen"
  define iz where "iz = link_all iy chosen i l"
  have rest: "connect_layers iz i x vn l (map local_id found') v1 = (ix', v')"
    using Suc.prems(1) s c by (simp add: iy_def iz_def)
  have cfg: "hc_validate (hn_config ix) = Inr ()" using Suc.prems(2) by (simp add: hn_ok_def)
  have links: "hn_links_ok ix" using Suc.prems(2) by (simp add: hn_ok_def)
  let ?R = "{j. \<exists>e\<in>set eps. reaches (\<lambda>i. neighbours ix i l) e j}"
  have es: "\<forall>e\<in>set eps. hn_node ix e l" using Suc.prems(4) by simp
  note F = search_layer_result [OF links es Suc.prems(6) config_bounds(3) [OF cfg] Suc.prems(3) s refl]
  have "i \<notin> ?R"
  proof
    assume "i \<in> ?R"
    then obtain e where e: "e \<in> set eps" "reaches (\<lambda>i. neighbours ix i l) e i" by auto
    have "i \<in> {j. j \<noteq> i}"
      by (rule reaches_closed [OF e(2)]) (use e(1) Suc.prems(4,7) in auto)
    then show False by simp
  qed
  then have fi: "\<forall>f\<in>set found. hn_node ix (local_id f) l \<and> local_id f \<noteq> i" using F by blast
  have "?R \<noteq> {}" using Suc.prems(5) by (auto intro!: reaches.here simp: neq_Nil_conv)
  then have "0 < card ?R" using F by (simp add: card_gt_0_iff)
  then have flen: "0 < length found" "length found \<le> ?efc" using F config_bounds(3) [OF cfg] by auto
  have fd: "distinct (map local_id found)" using F by simp
  note S = select_neighbours_result [OF fd, of ix ?lim, unfolded c, simplified]
  have ci: "\<forall>k\<in>set chosen. hn_node ix k l \<and> k \<noteq> i" using S(2) fi by auto
  have ni: "hn_node ix i l" using Suc.prems(7) by simp
  have "0 < min ?lim (length found)" using flen(1) config_bounds(1) [OF cfg, of l] by simp
  then have "0 < length chosen" by (simp only: S(3))
  then have "chosen \<noteq> []" by (rule length_greater_0_conv [THEN iffD1])
  moreover have "length chosen \<le> ?lim" using S(3) by simp
  ultimately have cl: "length chosen \<le> ?lim" "chosen \<noteq> []" by simp_all
  note N = neighbours_set [OF Suc.prems(2) ni cl(1), folded iy_def]
  have y: "hn_ok iy" unfolding iy_def
    by (rule ok_set_neighbours [OF Suc.prems(2) ni cl(1) S(1)]) (use ci in auto)
  have ynode: "hn_node iy = hn_node ix" by (simp add: iy_def)
  have "\<forall>k\<in>set chosen. hn_node iy k l \<and> i \<notin> set (neighbours iy k l)"
    using ci N(1) Suc.prems(7) by (auto simp: ynode)
  note Z = link_all_result [OF y S(1) _ _ this, folded iz_def]
  have z: "hn_ok iz" "\<And>j m. m \<noteq> l \<Longrightarrow> neighbours iz j m = neighbours ix j m" "neighbours iz i l = chosen"
    using Z ci N(1) ni by (auto simp: ynode)
  have znode: "hn_node iz = hn_node ix" by (simp add: iz_def ynode)
  have fz: "hn_config iz = hn_config ix" "hn_node_level iz = hn_node_level ix" "hn_accessor iz = hn_accessor ix"
    "hn_metric iz = hn_metric ix" "hn_kernel iz = hn_kernel ix" "hn_entry_point iz = hn_entry_point ix"
    "hn_max_level iz = hn_max_level ix" "hn_live_count iz = hn_live_count ix" "hn_rng iz = hn_rng ix"
    by (simp_all add: iz_def iy_def)
  have ms: "set found' = set found" "length found' = length found"
    using mset_eq_setD [OF S(4)] mset_eq_length [OF S(4)] by simp_all
  have "hn_ok ix' \<and> vst_inv v' \<and> hn_node_level ix' = hn_node_level iz \<and> hn_config ix' = hn_config iz \<and>
    hn_accessor ix' = hn_accessor iz \<and> hn_metric ix' = hn_metric iz \<and> hn_kernel ix' = hn_kernel iz \<and>
    hn_entry_point ix' = hn_entry_point iz \<and> hn_max_level ix' = hn_max_level iz \<and>
    hn_live_count ix' = hn_live_count iz \<and> hn_rng ix' = hn_rng iz \<and>
    (\<forall>j m. l \<le> m \<longrightarrow> neighbours ix' j m = neighbours iz j m) \<and> (\<forall>m<l. neighbours ix' i m \<noteq> [])"
  proof (rule Suc.IH [OF rest z(1)])
    show "vst_inv v1" using F by simp
    show "\<forall>e\<in>set (map local_id found'). hn_node iz e (l - 1) \<and> e \<noteq> i"
      using fi ms(1) hn_node_mono [of ix _ l "l - 1"] by (auto simp: znode)
    show "map local_id found' \<noteq> []" using flen(1) ms(2) by auto
    show "length (map local_id found') \<le> hc_ef_construction (hn_config iz)" using flen(2) ms(2) fz(1) by simp
    show "\<forall>m<l. hn_node iz i m \<and> neighbours iz i m = [] \<and> (\<forall>j. i \<notin> set (neighbours iz j m))"
      using Suc.prems(7) z(2) by (simp add: znode)
  qed
  then show ?case using fz z cl(2) by (auto simp: less_Suc_eq)
qed simp

lemma trunc_254: "\<not> f64_lt f64_254 x \<Longrightarrow> f64_trunc x \<le> 254"
proof -
  assume n: "\<not> f64_lt f64_254 x"
  have v: "f64_val f64_254 = FFin False (254 * 2 ^ 1074)" by (simp add: f64_254_def feval binary64_def cong: let_weak_cong)
  show ?thesis
  proof (cases "f64_val x")
    case (FFin s m)
    then have "\<not> s \<Longrightarrow> m \<le> 254 * 2 ^ 1074" using n by (simp add: f64_lt_def flt_code v)
    then have "\<not> s \<Longrightarrow> m div 2 ^ 1074 \<le> 254 * 2 ^ 1074 div 2 ^ 1074" by (intro div_le_mono)
    then show ?thesis using FFin by (simp add: f64_trunc_def funit_def binary64_def)
  qed (simp_all add: f64_trunc_def)
qed

lemma random_level_bound: "random_level logd ix = (level, ix') \<Longrightarrow> level \<le> 254 \<and> (\<exists>g. ix' = ix\<lparr>hn_rng := g\<rparr>)"
proof -
  assume r: "random_level logd ix = (level, ix')"
  have "f64_trunc f64_254 \<le> 254" by (rule trunc_254) (simp add: f64_lt_def)
  then show ?thesis using r trunc_254 by (auto simp: random_level_def Let_def split: prod.splits if_splits)
qed

text \<open>A descent over links of an older graph stays in it.\<close>

lemma greedy_descend_old:
  assumes links: "hn_links_ok ix" and nb: "\<And>j m. neighbours iy j m = neighbours ix j m" and e: "hn_node ix e l"
  shows "hn_node ix (greedy_descend iy q qn e l) l"
proof -
  have "reaches (\<lambda>i. neighbours iy i l) e (greedy_descend iy q qn e l)"
    unfolding greedy_descend_def using greedy_loop_result by blast
  then have "greedy_descend iy q qn e l \<in> {j. hn_node ix j l}"
    by (rule reaches_closed) (use links e in \<open>auto simp: nb hn_links_ok_def\<close>)
  then show ?thesis by simp
qed

lemma descend_old:
  assumes "hn_links_ok ix" "\<And>j m. neighbours iy j m = neighbours ix j m" "hn_node ix e l"
  shows "hn_node ix (descend_to iy q qn level l e) 0"
  using assms(3)
proof (induction l arbitrary: e)
  case (Suc l)
  have "hn_node ix (greedy_descend iy q qn e (Suc l)) l"
    by (rule hn_node_mono [OF greedy_descend_old [OF assms(1,2) Suc.prems]]) simp
  from Suc.IH [OF this] hn_node_mono [OF Suc.prems] show ?case by simp
qed simp

definition hn_wf :: "hnsw_index \<Rightarrow> bool" where
  "hn_wf ix \<longleftrightarrow> hn_ok ix \<and> hn_entry_ok ix \<and> (\<forall>i<hn_size ix. hn_node_level ix ! i \<le> hn_max_level ix) \<and>
     hn_max_level ix \<le> 254 \<and> hn_live_count ix \<le> hn_size ix"

lemma wf_graph: "hn_wf ix \<Longrightarrow> hn_graph ix"
  by (simp add: hn_wf_def hn_ok_def hn_graph_def)

lemma new_wf: "hn_new ac m c kn = Inr ix \<Longrightarrow> hn_wf ix \<and> hn_size ix = 0 \<and> hn_live_count ix = 0"
  by (auto simp: hn_new_def rbind_def hn_wf_def hn_ok_def hn_words_def hn_shape_def hn_counts_def hn_links_ok_def hn_lists_def
      hn_entry_ok_def hn_size_def hn_node_def upper_before_def neighbours_def kMaxVectorCount_def split: sum.splits)

text \<open>\<^verbatim>\<open>add\<close> after its checks, with the new arrays named.\<close>

lemma hn_add_steps:
  assumes "i = length (hn_node_level ix)" "i < ac_size (hn_accessor ix)" "random_level logd ix = (level, ir)"
    and ib: "ib = hn_append_node ir i level\<lparr>hn_live_count := hn_live_count (hn_append_node ir i level) + 1\<rparr>"
  shows "hn_add logd ix i v =
      (if hn_entry_point ib = kInvalidLocalId then Inr (ib\<lparr>hn_entry_point := i, hn_max_level := level\<rparr>, v)
       else let x = ac_vector (hn_accessor ib) i; n = ac_norm (hn_accessor ib) i;
                e = descend_to ib x n level (hn_max_level ib) (hn_entry_point ib);
                (ic, vc) = connect_layers ib i x n (min level (hn_max_level ib) + 1) [e] v in
         Inr (if level > hn_max_level ic then ic\<lparr>hn_max_level := level, hn_entry_point := i\<rparr> else ic, vc))"
proof -
  have "\<not> i \<noteq> length (hn_node_level ix)" "\<not> i \<ge> ac_size (hn_accessor ix)" using assms(1,2) by simp_all
  then show ?thesis unfolding hn_add_def assms(3) ib by (simp only: Let_def if_False prod.case)
qed

text \<open>What \<^verbatim>\<open>add\<close> does when it succeeds.\<close>

lemma add_result:
  assumes wf: "hn_wf ix" and v: "vst_inv v" and i: "i = hn_size ix" "i < ac_size (hn_accessor ix)"
    and ac: "ac_size (hn_accessor ix) \<le> kMaxVectorCount" and u: "length (hn_upper_links ix) < 2 ^ 32"
  obtains ix' v' level where "hn_add logd ix i v = Inr (ix', v')" "hn_wf ix'" "vst_inv v'"
    "hn_node_level ix' = hn_node_level ix @ [level]" "level \<le> 254" "hn_live_count ix' = hn_live_count ix + 1"
    "hn_accessor ix' = hn_accessor ix" "hn_config ix' = hn_config ix" "hn_metric ix' = hn_metric ix"
    "hn_kernel ix' = hn_kernel ix"
    "0 < hn_size ix \<Longrightarrow> neighbours ix' i 0 \<noteq> []"
proof -
  obtain level ir where r: "random_level logd ix = (level, ir)" by (cases "random_level logd ix")
  obtain g where g: "level \<le> 254" "ir = ix\<lparr>hn_rng := g\<rparr>" using random_level_bound [OF r] by blast
  have ok: "hn_ok ix" and entry: "hn_entry_ok ix" using wf by (simp_all add: hn_wf_def)
  define ia where "ia = hn_append_node ir i level"
  have sr: "hn_size ir = hn_size ix" by (simp add: g)
  have A: "hn_shape ia" "hn_counts ia" "\<And>j m. hn_node ia j m \<longleftrightarrow> hn_node ix j m \<or> j = i \<and> m \<le> level"
    "\<And>j m. neighbours ia j m = neighbours ix j m" "hn_size ia = Suc i"
    using append_node [of ir level ia] ok u g i sr by (simp_all add: ia_def hn_ok_def)
  have wa: "hn_words ia"
    unfolding ia_def using ok g i ac sr by (intro append_node_words) (simp_all add: hn_ok_def kMaxVectorCount_def)
  have fa: "hn_config ia = hn_config ix" "hn_accessor ia = hn_accessor ix" "hn_metric ia = hn_metric ix"
    "hn_kernel ia = hn_kernel ix" "hn_entry_point ia = hn_entry_point ix" "hn_max_level ia = hn_max_level ix"
    "hn_live_count ia = hn_live_count ix" by (simp_all add: ia_def g)
  have lev: "hn_node_level ia = hn_node_level ix @ [level]"
    using g by (simp add: ia_def append_node_grown hn_grown_def)
  define ib where "ib = ia\<lparr>hn_live_count := hn_live_count ia + 1\<rparr>"
  have B: "hn_ok ib" "\<And>j m. hn_node ib j m \<longleftrightarrow> hn_node ix j m \<or> j = i \<and> m \<le> level"
    "\<And>j m. neighbours ib j m = neighbours ix j m" "hn_size ib = Suc i"
    using A ok fa wa by (simp_all add: ib_def hn_ok_def hn_links_ok_def hn_lists_def)
  have fb: "hn_config ib = hn_config ix" "hn_accessor ib = hn_accessor ix" "hn_metric ib = hn_metric ix"
    "hn_kernel ib = hn_kernel ix" "hn_entry_point ib = hn_entry_point ix" "hn_max_level ib = hn_max_level ix"
    "hn_live_count ib = hn_live_count ix + 1" "hn_node_level ib = hn_node_level ix @ [level]"
    using fa lev by (simp_all add: ib_def)
  note add = hn_add_steps [OF i(1) [unfolded hn_size_def] i(2) r ib_def [unfolded ia_def]]
  have size: "Suc i \<le> kMaxVectorCount" using i ac by simp
  have mx: "\<And>j. j < i \<Longrightarrow> hn_node_level ix ! j \<le> hn_max_level ix" using wf i by (simp add: hn_wf_def)
  have len: "length (hn_node_level ix) = i" using i by (simp add: hn_size_def)
  show thesis
  proof (cases "hn_entry_point ix = kInvalidLocalId")
    case True
    then have z: "hn_size ix = 0"
      using entry by (auto simp: hn_entry_ok_def hn_node_def kInvalidLocalId_def kMaxVectorCount_def split: if_splits)
    let ?ix = "ib\<lparr>hn_entry_point := i, hn_max_level := level\<rparr>"
    have res: "hn_add logd ix i v = Inr (?ix, v)" unfolding add using True by (simp add: fb)
    have "hn_wf ?ix"
      using B size z i len g(1) wf by (simp add: hn_wf_def hn_entry_ok_def fb)
    then show thesis using that [OF res] v g(1) fb z by simp
  next
    case False
    have enode: "hn_node ix (hn_entry_point ix) (hn_max_level ix)" and pos: "0 < hn_size ix"
      using False entry by (auto simp: hn_entry_ok_def split: if_splits)
    let ?x = "ac_vector (hn_accessor ib) i" and ?n = "ac_norm (hn_accessor ib) i"
    let ?start = "min level (hn_max_level ix)"
    define e where "e = descend_to ib ?x ?n level (hn_max_level ix) (hn_entry_point ix)"
    have "hn_links_ok ib" "hn_node ib (hn_entry_point ix) (hn_max_level ix)" using B(1,2) enode by (simp_all add: hn_ok_def)
    from descend_to_node [OF this, of ?x ?n level]
    have en: "hn_node ib e ?start" by (simp add: e_def)
    have ne: "e \<noteq> i"
    proof -
      \<comment> \<open>the walk follows links of old nodes, so it stays among them\<close>
      have "hn_node ix (descend_to ib ?x ?n level (hn_max_level ix) (hn_entry_point ix)) 0"
        by (rule descend_old [OF _ B(3) enode]) (use ok in \<open>simp add: hn_ok_def\<close>)
      then show ?thesis using i by (simp add: e_def hn_node_def)
    qed
    obtain ic vc where c: "connect_layers ib i ?x ?n (?start + 1) [e] v = (ic, vc)"
      by (cases "connect_layers ib i ?x ?n (?start + 1) [e] v")
    have "\<forall>m<?start + 1. hn_node ib i m \<and> neighbours ib i m = [] \<and> (\<forall>j. i \<notin> set (neighbours ib j m))"
    proof (intro allI impI conjI)
      fix m j assume "m < ?start + 1"
      then have "m \<le> level" by (simp add: less_Suc_eq_le)
      then show "hn_node ib i m" by (simp add: B(2))
      have no: "\<not> hn_node ix i m" using i(1) by (simp add: hn_node_def)
      then show "neighbours ib i m = []" by (simp add: B(3) neighbours_not_node)
      have "i \<in> set (neighbours ix j m) \<Longrightarrow> hn_node ix i m" using ok by (simp add: hn_ok_def hn_links_ok_def)
      then show "i \<notin> set (neighbours ib j m)" using no by (auto simp: B(3))
    qed
    moreover have "length [e] \<le> hc_ef_construction (hn_config ib)"
      using ok config_bounds(3) [of "hn_config ix"] by (simp add: fb hn_ok_def)
    moreover have "\<forall>f\<in>set [e]. hn_node ib f (?start + 1 - 1) \<and> f \<noteq> i" using en ne by simp
    ultimately have C: "hn_ok ic \<and> vst_inv vc \<and> hn_node_level ic = hn_node_level ib \<and> hn_config ic = hn_config ib \<and>
      hn_accessor ic = hn_accessor ib \<and> hn_metric ic = hn_metric ib \<and> hn_kernel ic = hn_kernel ib \<and>
      hn_entry_point ic = hn_entry_point ib \<and> hn_max_level ic = hn_max_level ib \<and>
      hn_live_count ic = hn_live_count ib \<and> hn_rng ic = hn_rng ib \<and>
      (\<forall>j m. ?start + 1 \<le> m \<longrightarrow> neighbours ic j m = neighbours ib j m) \<and> (\<forall>m<?start + 1. neighbours ic i m \<noteq> [])"
      using v by (intro connect_layers_result [OF c B(1)]) simp_all
    define jd where "jd = (if level > hn_max_level ic then ic\<lparr>hn_max_level := level, hn_entry_point := i\<rparr> else ic)"
    have res: "hn_add logd ix i v = Inr (jd, vc)"
      unfolding add using False c by (simp add: fb e_def jd_def)
    have nodes: "hn_node ic j m \<longleftrightarrow> hn_node ib j m" for j m using C by (simp add: hn_node_def hn_size_def)
    have sz: "hn_size ic = Suc i" using C B(4) by (simp add: hn_size_def)
    have lv: "hn_node_level ic = hn_node_level ix @ [level]" using C fb by simp
    have wf': "hn_wf jd"
    proof (cases "level > hn_max_level ic")
      case True
      then have "hn_entry_ok jd" using sz size nodes [of i level] B(2) [of i level] by (simp add: jd_def hn_entry_ok_def)
      moreover have "hn_node_level jd ! j \<le> hn_max_level jd" if "j < hn_size jd" for j
        using True that mx [of j] C fb len sz by (cases "j = i") (auto simp: jd_def lv nth_append less_Suc_eq)
      ultimately show ?thesis using C True g(1) wf fb sz i(1) by (simp add: hn_wf_def jd_def)
    next
      case False
      then have "hn_entry_ok jd" using sz size nodes B(2) enode C fb by (simp add: jd_def hn_entry_ok_def)
      moreover have "hn_node_level jd ! j \<le> hn_max_level jd" if "j < hn_size jd" for j
        using False that mx [of j] C fb len sz by (cases "j = i") (auto simp: jd_def lv nth_append less_Suc_eq)
      ultimately show ?thesis using C False wf fb sz i(1) by (simp add: hn_wf_def jd_def)
    qed
    have "neighbours jd i 0 \<noteq> []" using C by (simp add: jd_def)
    then show thesis using that [OF res wf'] C g(1) lv fb by (simp add: jd_def)
  qed
qed

text \<open>The upper blocks of a well-formed graph take at most 254 layers a node.\<close>

lemma upper_links_bound:
  assumes "hn_wf ix"
  shows "length (hn_upper_links ix) \<le> hn_size ix * 254 * (hc_m (hn_config ix) + 1)"
proof -
  have "x \<le> 254" if "x \<in> set (hn_node_level ix)" for x
    using that assms by (fastforce simp: in_set_conv_nth hn_wf_def hn_size_def)
  then have "sum_list (map (\<lambda>x. x) (hn_node_level ix)) \<le> sum_list (map (\<lambda>x. 254) (hn_node_level ix))"
    by (intro sum_list_mono) simp
  then have "upper_before ix (hn_size ix) \<le> hn_size ix * 254"
    by (simp add: upper_before_def hn_size_def sum_list_triv)
  then have "upper_before ix (hn_size ix) * (hc_m (hn_config ix) + 1) \<le> hn_size ix * 254 * (hc_m (hn_config ix) + 1)"
    by (rule mult_right_mono) simp
  then show ?thesis using assms by (simp add: hn_wf_def hn_ok_def hn_shape_def upper_stride_def)
qed

section \<open>Properties\<close>

text \<open>Further: the flat link arrays with their strides and offsets are one list per node and layer: rewriting the
  block of one node on one layer changes that list and no other, and keeps every stored count in bounds.\<close>

theorem link_blocks_are_lists:
  assumes "hn_ok ix" and "hn_node ix i l" and "length vs \<le> max_neighbours (hn_config ix) l"
  shows "neighbours (set_neighbours ix i l vs) j m = (if j = i \<and> m = l then vs else neighbours ix j m) \<and>
    hn_counts (set_neighbours ix i l vs)"
  using neighbours_set [OF assms] by blast

lemma small_ok: "hn_ok small_index"
proof -
  have "hn_lists small_index" by (auto simp: hn_lists_def small_neighbours)
  moreover have "hc_validate (hn_config small_index) = Inr ()"
    by (simp add: hc_validate_def small_index_def guard_throw_def rbind_def)
  moreover have "hn_words small_index" by (simp add: hn_words_def) (simp add: small_index_def kInvalidLocalId_def)
  moreover note small_graph small_blocks
  ultimately show ?thesis by (simp add: hn_graph_def hn_ok_def)
qed

theorem link_blocks_are_lists_witness:
  "neighbours (set_neighbours small_index 0 0 []) 0 0 = [] \<and> neighbours (set_neighbours small_index 0 0 []) 1 0 = [0]"
  using link_blocks_are_lists [of small_index 0 0 "[]" 0 0] link_blocks_are_lists [of small_index 0 0 "[]" 1 0]
  by (simp add: small_ok small_neighbours)

text \<open>Further: neighbour selection returns exactly the smaller of the limit and the number of candidates, all of
  them candidates and none twice: the diversity rule never leaves a list short.\<close>

theorem select_neighbours_fills:
  assumes "distinct (map local_id cs)"
  shows "distinct (snd (select_neighbours ix cs limit)) \<and> set (snd (select_neighbours ix cs limit)) \<subseteq> local_id ` set cs \<and>
    length (snd (select_neighbours ix cs limit)) = min limit (length cs)"
  using select_neighbours_result [OF assms] by blast

theorem select_neighbours_fills_witness:
  "length (snd (select_neighbours small_index [\<lparr>local_id = 0, key = 0x40000000\<rparr>, \<lparr>local_id = 1, key = 0x7FC00000\<rparr>] 1)) = 1"
  using select_neighbours_fills [of "[\<lparr>local_id = 0, key = 0x40000000\<rparr>, \<lparr>local_id = 1, key = 0x7FC00000\<rparr>]" small_index 1]
  by simp

text \<open>C6: adding the next slot to a well-formed graph succeeds and leaves it well formed, whatever level is
  drawn and whatever the distances are: blocks disjoint, counts within the configured limits, every link to
  an existing node of its layer, no self link and no double link, the entry point on the top layer; one
  node more, and the new node has neighbours unless it is the first. The upper link words before the call fit 32 bits.
  (With NaN distances the sorting and heap algorithms are the ones of the model; C++ leaves their behaviour undefined there.)\<close>

theorem hn_add_keeps_graph:
  assumes "hn_wf ix" and "vst_inv v" and "i = hn_size ix" and "i < ac_size (hn_accessor ix)"
    and "ac_size (hn_accessor ix) \<le> kMaxVectorCount" and "length (hn_upper_links ix) < 2 ^ 32"
  shows "\<exists>ix' v' level. hn_add logd ix i v = Inr (ix', v') \<and> hn_wf ix' \<and> vst_inv v' \<and>
    hn_node_level ix' = hn_node_level ix @ [level] \<and> level \<le> 254 \<and> hn_live_count ix' = hn_live_count ix + 1 \<and>
    (0 < hn_size ix \<longrightarrow> neighbours ix' i 0 \<noteq> [])"
  by (rule add_result [OF assms, where logd = logd], intro exI conjI impI) assumption+

theorem hn_add_keeps_graph_witness:
  "\<exists>ix ix' v'. hn_new small_accessor L2Squared hc_default small_kernel = Inr ix \<and>
     hn_add (\<lambda>x. x) ix 0 vst_empty = Inr (ix', v') \<and> hn_wf ix'"
proof -
  obtain ix where n: "hn_new small_accessor L2Squared hc_default small_kernel = Inr ix"
    and f: "hn_accessor ix = small_accessor" "hn_upper_links ix = []"
    by (simp add: hn_new_def hc_validate_def hc_default_def guard_throw_def rbind_def)
  then show ?thesis
    using hn_add_keeps_graph [of ix vst_empty 0 "\<lambda>x. x"] new_wf [OF n] by (auto simp: kMaxVectorCount_def)
qed

text \<open>Further: what the index saves as its generator state is not that state: it is the next output, and restoring
  from it makes the next level draw differ from the one an index that was never saved would make.\<close>

theorem rng_state_not_restored:
  "\<exists>ix. hn_new small_accessor L2Squared hc_default small_kernel = Inr ix \<and>
     fst (rng_next (hn_rng (hn_restore ix [] [] [] [] kInvalidLocalId 0 0 (hn_rng_state ix)))) \<noteq> fst (rng_next (hn_rng ix))"
  by (simp add: hn_new_def hc_validate_def hc_default_def guard_throw_def rbind_def hn_restore_def hn_rng_state_def
      rng_new_def rng_next_def splitmix64_def Let_def)

end
