(* ===== verification/Vdb_ByteIO.thy ===== *)
theory Vdb_ByteIO
  imports Vdb_Vector
begin

text \<open>
  \<^verbatim>\<open>src/persistence/byte_io.cpp\<close>: the little-endian writer and the bounds-checked reader over byte
  buffers, and the CRC-32 with its table. A writer is the buffer it appends to; a reader is its span
  and position. The lemmas show that each field read back is the field written and that a reader never
  runs past its span; \<open>field_codec\<close> is the contract of one field type.
\<close>

unbundle bit_operations_syntax

section \<open>Writer\<close>

definition put_u8 :: "byte list \<Rightarrow> u8 \<Rightarrow> byte list" where
  "put_u8 buf v = buf @ [v]"

definition put_u16 :: "byte list \<Rightarrow> 16 word \<Rightarrow> byte list" where
  "put_u16 buf v = put_u8 (put_u8 buf (ucast (v AND 0xFF))) (ucast (drop_bit 8 v AND 0xFF))"

text \<open>\<^verbatim>\<open>for (int shift = 0; shift < 32; shift += 8)\<close> as a fold over the shifts.\<close>

definition put_u32 :: "byte list \<Rightarrow> u32 \<Rightarrow> byte list" where
  "put_u32 buf v = foldl (\<lambda>buf shift. put_u8 buf (ucast (drop_bit shift v AND 0xFF))) buf [0, 8, 16, 24]"

definition put_u64 :: "byte list \<Rightarrow> u64 \<Rightarrow> byte list" where
  "put_u64 buf v = foldl (\<lambda>buf shift. put_u8 buf (ucast (drop_bit shift v AND 0xFF))) buf
     [0, 8, 16, 24, 32, 40, 48, 56]"

text \<open>A float is its bit pattern, so \<^verbatim>\<open>std::bit_cast\<close> is the identity.\<close>

definition put_f32 :: "byte list \<Rightarrow> f32 \<Rightarrow> byte list" where
  "put_f32 buf v = put_u32 buf v"

definition put_bytes :: "byte list \<Rightarrow> byte list \<Rightarrow> byte list" where
  "put_bytes buf data = buf @ data"

definition put_pad :: "byte list \<Rightarrow> nat \<Rightarrow> byte list" where
  "put_pad buf n = buf @ replicate n 0"

definition put_fixed_string :: "byte list \<Rightarrow> byte list \<Rightarrow> nat \<Rightarrow> byte list" where
  "put_fixed_string buf text sz =
     (let copied = min (length text) sz in put_pad (buf @ take copied text) (sz - copied))"

section \<open>Reader\<close>

record reader =
  rd_data :: "byte list"
  rd_position :: nat

definition rd_new :: "byte list \<Rightarrow> reader" where
  "rd_new data = \<lparr>rd_data = data, rd_position = 0\<rparr>"

definition rd_remaining :: "reader \<Rightarrow> nat" where
  "rd_remaining r = length (rd_data r) - rd_position r"

definition rd_require :: "reader \<Rightarrow> nat \<Rightarrow> unit result" where
  "rd_require r n = guard_throw (rd_remaining r < n) CorruptionError"

definition rd_expect_remaining :: "reader \<Rightarrow> nat \<Rightarrow> unit result" where
  "rd_expect_remaining r n = guard_throw (rd_remaining r \<noteq> n) CorruptionError"

definition get_u8 :: "reader \<Rightarrow> (u8 \<times> reader) result" where
  "get_u8 r = rbind (rd_require r 1) (\<lambda>_.
     Inr (rd_data r ! rd_position r, r\<lparr>rd_position := rd_position r + 1\<rparr>))"

definition get_u16 :: "reader \<Rightarrow> (16 word \<times> reader) result" where
  "get_u16 r = rbind (rd_require r 2) (\<lambda>_.
     rbind (get_u8 r) (\<lambda>(low, r).
     rbind (get_u8 r) (\<lambda>(high, r). Inr (ucast low OR push_bit 8 (ucast high), r))))"

fun get_shifted :: "nat list \<Rightarrow> 'a::len word \<Rightarrow> reader \<Rightarrow> ('a word \<times> reader) result" where
  "get_shifted [] v r = Inr (v, r)"
| "get_shifted (shift # shifts) v r =
     rbind (get_u8 r) (\<lambda>(b, r). get_shifted shifts (v OR push_bit shift (ucast b)) r)"

definition get_u32 :: "reader \<Rightarrow> (u32 \<times> reader) result" where
  "get_u32 r = rbind (rd_require r 4) (\<lambda>_. get_shifted [0, 8, 16, 24] 0 r)"

definition get_u64 :: "reader \<Rightarrow> (u64 \<times> reader) result" where
  "get_u64 r = rbind (rd_require r 8) (\<lambda>_. get_shifted [0, 8, 16, 24, 32, 40, 48, 56] 0 r)"

definition get_f32 :: "reader \<Rightarrow> (f32 \<times> reader) result" where
  "get_f32 r = get_u32 r"

definition get_bytes :: "reader \<Rightarrow> nat \<Rightarrow> (byte list \<times> reader) result" where
  "get_bytes r n = rbind (rd_require r n) (\<lambda>_.
     Inr (take n (drop (rd_position r) (rd_data r)), r\<lparr>rd_position := rd_position r + n\<rparr>))"

definition get_fixed_string :: "reader \<Rightarrow> nat \<Rightarrow> (byte list \<times> reader) result" where
  "get_fixed_string r n = rbind (get_bytes r n) (\<lambda>(view, r). Inr (takeWhile (\<lambda>b. b \<noteq> 0) view, r))"

definition rd_skip :: "reader \<Rightarrow> nat \<Rightarrow> reader result" where
  "rd_skip r n = rbind (rd_require r n) (\<lambda>_. Inr (r\<lparr>rd_position := rd_position r + n\<rparr>))"

section \<open>CRC-32\<close>

definition kPolynomial :: u32 where
  "kPolynomial = 0xEDB88320"

definition crc_bit :: "u32 \<Rightarrow> u32" where
  "crc_bit v = (if v AND 1 \<noteq> 0 then drop_bit 1 v XOR kPolynomial else drop_bit 1 v)"

definition crc_table :: "u32 list" where
  "crc_table = map (\<lambda>i. (crc_bit ^^ 8) (word_of_nat i)) [0..<256]"

definition crc_step :: "u32 \<Rightarrow> byte \<Rightarrow> u32" where
  "crc_step crc b = (crc_table ! unat ((crc XOR ucast b) AND 0xFF)) XOR drop_bit 8 crc"

definition crc32 :: "byte list \<Rightarrow> u32 \<Rightarrow> u32" where
  "crc32 data seed = NOT (foldl crc_step (NOT seed) data)"

text \<open>The bytes of a float array as they lie in memory (the sources require a little-endian machine).\<close>

definition le32 :: "u32 \<Rightarrow> byte list" where
  "le32 v = [ucast v, ucast (drop_bit 8 v), ucast (drop_bit 16 v), ucast (drop_bit 24 v)]"

definition float_bytes :: "f32 list \<Rightarrow> byte list" where
  "float_bytes xs = concat (map le32 xs)"

definition crc32_floats :: "f32 list \<Rightarrow> u32 \<Rightarrow> u32" where
  "crc32_floats xs seed = crc32 (float_bytes xs) seed"

section \<open>What the writer appends\<close>

definition le16 :: "16 word \<Rightarrow> byte list" where
  "le16 v = [ucast v, ucast (drop_bit 8 v)]"

definition le64 :: "u64 \<Rightarrow> byte list" where
  "le64 v = [ucast v, ucast (drop_bit 8 v), ucast (drop_bit 16 v), ucast (drop_bit 24 v),
     ucast (drop_bit 32 v), ucast (drop_bit 40 v), ucast (drop_bit 48 v), ucast (drop_bit 56 v)]"

lemma ucast_mask8: "ucast (v AND 0xFF :: 'a::len word) = (ucast v :: 8 word)" if "8 \<le> LENGTH('a)"
proof (rule bit_word_eqI)
  fix n assume n: "n < LENGTH(8)"
  have m: "(0xFF :: 'a word) = mask 8" by (simp add: mask_eq_exp_minus_1)
  show "bit (ucast (v AND 0xFF) :: 8 word) n = bit (ucast v :: 8 word) n"
    unfolding m using n that by (simp add: bit_simps)
qed

lemma put_u16_le: "put_u16 buf v = buf @ le16 v"
  by (simp add: put_u16_def put_u8_def le16_def ucast_mask8)

lemma put_u32_le: "put_u32 buf v = buf @ le32 v"
  by (simp add: put_u32_def put_u8_def le32_def ucast_mask8)

lemma put_u64_le: "put_u64 buf v = buf @ le64 v"
  by (simp add: put_u64_def put_u8_def le64_def ucast_mask8)

lemma length_le [simp]: "length (le16 w) = 2" "length (le32 v) = 4" "length (le64 u) = 8"
  by (simp_all add: le16_def le32_def le64_def)

lemmas put_le = put_u8_def put_u16_le put_u32_le put_u64_le put_f32_def put_bytes_def put_pad_def

section \<open>What the reader gives back\<close>

text \<open>A reader in the middle of its span.\<close>

definition rd_at :: "byte list \<Rightarrow> byte list \<Rightarrow> reader" where
  "rd_at pre rest = \<lparr>rd_data = pre @ rest, rd_position = length pre\<rparr>"

lemma rd_new_at: "rd_new xs = rd_at [] xs"
  by (simp add: rd_new_def rd_at_def)

lemma rd_at_exists:
  "rd_position r \<le> length (rd_data r) \<Longrightarrow>
   \<exists>pre rest. r = rd_at pre rest \<and> length rest = rd_remaining r"
  by (intro exI [of _ "take (rd_position r) (rd_data r)"] exI [of _ "drop (rd_position r) (rd_data r)"])
    (simp add: rd_at_def rd_remaining_def min_absorb2)

lemma remaining_at [simp]: "rd_remaining (rd_at pre rest) = length rest"
  by (simp add: rd_remaining_def rd_at_def)

lemma require_at: "rd_require (rd_at pre rest) n = (if length rest < n then Inl CorruptionError else Inr ())"
  by (simp add: rd_require_def guard_throw_def)

lemma get_u8_at [simp]:
  "get_u8 (rd_at pre (b # rest)) = Inr (b, rd_at (pre @ [b]) rest)"
  "get_u8 (rd_at pre []) = Inl CorruptionError"
  by (simp_all add: get_u8_def require_at) (simp add: rd_at_def)

lemma byte_of_word:
  fixes v :: "'a::len word"
  assumes "n < LENGTH('a)"
  shows "bit (push_bit k (ucast (ucast (drop_bit k v) :: 8 word)) :: 'a word) n \<longleftrightarrow>
    k \<le> n \<and> n < k + 8 \<and> bit v n"
  using assms by (auto simp: bit_simps)

lemma byte_of_word_0:
  fixes v :: "'a::len word"
  assumes "n < LENGTH('a)"
  shows "bit (ucast (ucast v :: 8 word) :: 'a word) n \<longleftrightarrow> n < 8 \<and> bit v n"
  using assms by (auto simp: bit_simps)

lemma or_le16:
  "(ucast (ucast v :: 8 word) OR push_bit 8 (ucast (ucast (drop_bit 8 v) :: 8 word))) = (v :: 16 word)"
  (is "?w = v")
proof (rule bit_word_eqI)
  fix n assume n: "n < LENGTH(16)"
  then have "n < 16" by simp
  then show "bit ?w n = bit v n"
    unfolding bit_or_iff byte_of_word [OF n] byte_of_word_0 [OF n] by (cases "bit v n"; simp; arith)
qed

lemma or_le32:
  "(ucast (ucast v :: 8 word) OR push_bit 8 (ucast (ucast (drop_bit 8 v) :: 8 word)) OR
    push_bit 16 (ucast (ucast (drop_bit 16 v) :: 8 word)) OR
    push_bit 24 (ucast (ucast (drop_bit 24 v) :: 8 word))) = (v :: 32 word)"
  (is "?w = v")
proof (rule bit_word_eqI)
  fix n assume n: "n < LENGTH(32)"
  then have "n < 32" by simp
  then show "bit ?w n = bit v n"
    unfolding bit_or_iff byte_of_word [OF n] byte_of_word_0 [OF n] by (cases "bit v n"; simp; arith)
qed

lemma or_le64:
  "(ucast (ucast v :: 8 word) OR push_bit 8 (ucast (ucast (drop_bit 8 v) :: 8 word)) OR
    push_bit 16 (ucast (ucast (drop_bit 16 v) :: 8 word)) OR
    push_bit 24 (ucast (ucast (drop_bit 24 v) :: 8 word)) OR
    push_bit 32 (ucast (ucast (drop_bit 32 v) :: 8 word)) OR
    push_bit 40 (ucast (ucast (drop_bit 40 v) :: 8 word)) OR
    push_bit 48 (ucast (ucast (drop_bit 48 v) :: 8 word)) OR
    push_bit 56 (ucast (ucast (drop_bit 56 v) :: 8 word))) = (v :: 64 word)"
  (is "?w = v")
proof (rule bit_word_eqI)
  fix n assume n: "n < LENGTH(64)"
  then have "n < 64" by simp
  then show "bit ?w n = bit v n"
    unfolding bit_or_iff byte_of_word [OF n] byte_of_word_0 [OF n] by (cases "bit v n"; simp; arith)
qed

lemma get_shifted_Cons:
  "get_shifted (shift # shifts) v (rd_at pre (b # rest)) =
   get_shifted shifts (v OR push_bit shift (ucast b)) (rd_at (pre @ [b]) rest)"
  by simp

lemma get_u16_at [simp]: "get_u16 (rd_at pre (le16 v @ rest)) = Inr (v, rd_at (pre @ le16 v) rest)"
  by (simp add: get_u16_def require_at) (simp add: le16_def or_le16)

lemma get_u32_at [simp]: "get_u32 (rd_at pre (le32 v @ rest)) = Inr (v, rd_at (pre @ le32 v) rest)"
  by (simp add: get_u32_def require_at) (simp add: le32_def or_le32 [unfolded or.assoc] or.assoc)

lemma get_u64_at [simp]: "get_u64 (rd_at pre (le64 v @ rest)) = Inr (v, rd_at (pre @ le64 v) rest)"
  by (simp add: get_u64_def require_at) (simp add: le64_def or_le64 [unfolded or.assoc] or.assoc)

lemma get_f32_at [simp]: "get_f32 (rd_at pre (le32 v @ rest)) = Inr (v, rd_at (pre @ le32 v) rest)"
  by (simp add: get_f32_def)

lemma get_bytes_at: "length xs = n \<Longrightarrow> get_bytes (rd_at pre (xs @ rest)) n = Inr (xs, rd_at (pre @ xs) rest)"
  by (simp add: get_bytes_def require_at) (simp add: rd_at_def)

lemma rd_skip_at: "length xs = n \<Longrightarrow> rd_skip (rd_at pre (xs @ rest)) n = Inr (rd_at (pre @ xs) rest)"
  by (simp add: rd_skip_def require_at) (simp add: rd_at_def)

lemma get_fixed_string_at:
  assumes "length text \<le> n" "0 \<notin> set text"
  shows "get_fixed_string (rd_at pre (text @ replicate (n - length text) 0 @ rest)) n =
    Inr (text, rd_at (pre @ text @ replicate (n - length text) 0) rest)"
proof -
  have "takeWhile (\<lambda>b. b \<noteq> 0) (text @ replicate (n - length text) 0) = text"
    using assms by (subst takeWhile_append2) auto
  then show ?thesis
    using assms get_bytes_at [of "text @ replicate (n - length text) 0" n pre rest]
    by (simp add: get_fixed_string_def)
qed

section \<open>One field type\<close>

locale field_codec =
  fixes enc :: "'v \<Rightarrow> byte list" and width :: nat and get :: "reader \<Rightarrow> ('v \<times> reader) result"
  assumes enc_width: "length (enc v) = width"
    and reads: "get (rd_at pre (enc v @ rest)) = Inr (v, rd_at (pre @ enc v) rest)"
    and short: "length rest < width \<Longrightarrow> get (rd_at pre rest) = Inl CorruptionError"
begin

lemma enc_inject:
  assumes e: "enc v @ rest = enc w @ rest'"
  shows "v = w \<and> rest = rest'"
proof
  have "get (rd_at [] (enc v @ rest)) = get (rd_at [] (enc w @ rest'))" by (simp only: e)
  then show "v = w" by (simp only: reads sum.inject prod.inject)
  then show "rest = rest'" using e by simp
qed

text \<open>An array of fields, read one after the other.\<close>

lemma length_array: "length (concat (map enc vs)) = length vs * width"
  by (induction vs) (simp_all add: enc_width)

lemma read_nth:
  assumes "i < length vs"
  shows "get \<lparr>rd_data = concat (map enc vs), rd_position = i * width\<rparr> =
    Inr (vs ! i, \<lparr>rd_data = concat (map enc vs), rd_position = Suc i * width\<rparr>)"
proof -
  define pre where "pre = concat (map enc (take i vs))"
  define rest where "rest = concat (map enc (drop (Suc i) vs))"
  have split: "concat (map enc vs) = pre @ enc (vs ! i) @ rest"
    unfolding pre_def rest_def
    by (subst id_take_nth_drop [OF assms]) (simp only: map_append concat_append list.simps concat.simps)
  have len: "length pre = i * width"
    using assms unfolding pre_def length_array by simp
  show ?thesis
    using reads [of pre "vs ! i" rest] unfolding split by (simp add: rd_at_def len enc_width add.commute)
qed

lemma read_past_end:
  "length xs \<le> i * width \<Longrightarrow> 0 < width \<Longrightarrow> i * width \<le> length xs \<Longrightarrow>
   get \<lparr>rd_data = xs, rd_position = i * width\<rparr> = Inl CorruptionError"
  using short [of "[]" xs] by (simp add: rd_at_def)

end

interpretation u8: field_codec "\<lambda>v. [v]" 1 get_u8
  by unfold_locales simp_all

interpretation u16: field_codec le16 2 get_u16
  by unfold_locales (simp, rule get_u16_at, simp add: get_u16_def require_at)

interpretation u32: field_codec le32 4 get_u32
  by unfold_locales (simp, rule get_u32_at, simp add: get_u32_def require_at)

interpretation u64: field_codec le64 8 get_u64
  by unfold_locales (simp, rule get_u64_at, simp add: get_u64_def require_at)

interpretation f32: field_codec le32 4 get_f32
  by unfold_locales (simp, rule get_f32_at, simp add: get_f32_def get_u32_def require_at)

section \<open>Every four or eight bytes are some field\<close>

lemma le32_surj: "length bs = 4 \<Longrightarrow> \<exists>v. bs = le32 v"
proof -
  assume "length bs = 4"
  then obtain b0 b1 b2 b3 where bs: "bs = [b0, b1, b2, b3]"
    by (auto simp: numeral_eq_Suc length_Suc_conv)
  let ?v = "ucast b0 OR push_bit 8 (ucast b1) OR push_bit 16 (ucast b2) OR push_bit 24 (ucast b3) :: 32 word"
  have "ucast ?v = b0" "ucast (drop_bit 8 ?v) = b1" "ucast (drop_bit 16 ?v) = b2" "ucast (drop_bit 24 ?v) = b3"
    by (rule bit_word_eqI, auto simp: bit_simps dest: bit_imp_le_length)+
  then have "bs = le32 ?v" by (simp add: le32_def bs)
  then show ?thesis by blast
qed

lemma le64_surj: "length bs = 8 \<Longrightarrow> \<exists>v. bs = le64 v"
proof -
  assume "length bs = 8"
  then have l: "length (take 4 bs) = 4" "length (drop 4 bs) = 4" by simp_all
  from le32_surj [OF l(1)] le32_surj [OF l(2)] obtain a b where ab: "take 4 bs = le32 a" "drop 4 bs = le32 b"
    by blast
  let ?v = "ucast a OR push_bit 32 (ucast b) :: 64 word"
  have "le64 ?v = le32 a @ le32 b"
    unfolding le64_def le32_def
    by (simp, intro conjI; rule bit_word_eqI, auto simp: bit_simps dest: bit_imp_le_length)
  then have "bs = le64 ?v" using ab append_take_drop_id [of 4 bs] by simp
  then show ?thesis by blast
qed

section \<open>The table-driven CRC\<close>

lemma crc_bit_alt: "crc_bit v = drop_bit 1 v XOR (if bit v 0 then kPolynomial else 0)"
  by (simp add: crc_bit_def and_one_eq bit_0 mod_2_eq_odd)

lemma crc_bit_xor: "crc_bit (x XOR y) = crc_bit x XOR crc_bit y"
  by (rule bit_word_eqI) (auto simp: crc_bit_alt bit_xor_iff bit_drop_bit_eq)

lemma crc_bits_xor: "(crc_bit ^^ k) (x XOR y) = (crc_bit ^^ k) x XOR (crc_bit ^^ k) y"
  by (induction k) (simp_all add: crc_bit_xor)

lemma crc_bits_high: "(\<forall>i<k. \<not> bit x i) \<Longrightarrow> (crc_bit ^^ k) x = drop_bit k x"
proof (induction k)
  case (Suc k)
  then have "(crc_bit ^^ Suc k) x = crc_bit (drop_bit k x)" by simp
  also have "\<dots> = drop_bit 1 (drop_bit k x)" using Suc.prems by (simp add: crc_bit_alt bit_drop_bit_eq)
  finally show ?case by (simp add: drop_bit_drop_bit)
qed simp

text \<open>The last shifted-out bit is the top bit of the result, so no information is lost.\<close>

lemma crc_bit_inject: "crc_bit x = crc_bit y \<Longrightarrow> x = y"
proof -
  assume e: "crc_bit x = crc_bit y"
  have top: "bit (crc_bit z) 31 = bit z 0" for z
  proof -
    have "bit kPolynomial 31" by (simp add: kPolynomial_def)
    moreover have "\<not> bit (drop_bit 1 z) 31" using bit_imp_le_length [of z 32] by (auto simp: bit_drop_bit_eq)
    ultimately show ?thesis by (simp add: crc_bit_alt bit_xor_iff)
  qed
  have b0: "bit x 0 = bit y 0" using top [of x] top [of y] e by simp
  define p where "p = (if bit y 0 then kPolynomial else 0)"
  have "drop_bit 1 x XOR p = drop_bit 1 y XOR p" using e b0 by (simp add: crc_bit_alt p_def)
  then have "(drop_bit 1 x XOR p) XOR p = (drop_bit 1 y XOR p) XOR p" by simp
  then have d: "drop_bit 1 x = drop_bit 1 y" by (simp only: xor.assoc xor_self_eq xor.right_neutral)
  show ?thesis
  proof (rule bit_word_eqI)
    fix n show "bit x n = bit y n"
    proof (cases n)
      case (Suc m)
      then show ?thesis using arg_cong [OF d, of "\<lambda>w. bit w m"] by (simp add: bit_drop_bit_eq)
    qed (simp add: b0)
  qed
qed

lemma crc_bits_inject: "(crc_bit ^^ k) x = (crc_bit ^^ k) y \<Longrightarrow> x = y"
  by (induction k) (auto dest: crc_bit_inject)

lemma crc_step_bits: "crc_step crc b = (crc_bit ^^ 8) (crc XOR ucast b)"
proof -
  let ?z = "crc XOR ucast b"
  have m: "(0xFF :: u32) = mask 8" by (simp add: mask_eq_exp_minus_1)
  have split: "?z = (?z AND 0xFF) XOR (?z AND NOT 0xFF)"
    by (rule bit_word_eqI) (auto simp: bit_simps)
  have "unat (?z AND 0xFF) < 2 ^ 8"
    unfolding m take_bit_eq_mask [symmetric] unsigned_take_bit_eq by (rule take_bit_nat_less_exp)
  then have t: "crc_table ! unat (?z AND 0xFF) = (crc_bit ^^ 8) (?z AND 0xFF)"
    by (simp add: crc_table_def)
  have low: "\<forall>i<8. \<not> bit (?z AND NOT 0xFF) i"
    unfolding m by (simp add: bit_simps)
  have "drop_bit 8 (?z AND NOT 0xFF) = drop_bit 8 crc"
    unfolding m by (rule bit_word_eqI) (auto simp: bit_simps dest: bit_imp_le_length)
  then have "(crc_bit ^^ 8) (?z AND NOT 0xFF) = drop_bit 8 crc" using crc_bits_high [OF low] by simp
  then show ?thesis
    using t crc_bits_xor [of 8 "?z AND 0xFF" "?z AND NOT 0xFF"] split by (simp add: crc_step_def)
qed

text \<open>The reference: one bit at a time, no table.\<close>

definition crc32_bitwise :: "byte list \<Rightarrow> u32 \<Rightarrow> u32" where
  "crc32_bitwise data seed = NOT (foldl (\<lambda>crc b. (crc_bit ^^ 8) (crc XOR ucast b)) (NOT seed) data)"

lemma crc_step_inject:
  assumes "crc_step c b = crc_step c' b'"
  shows "c XOR ucast b = c' XOR ucast b'"
  using assms unfolding crc_step_bits by (rule crc_bits_inject)

lemma xor_cancel: "(x XOR z = y XOR z) = (x = (y :: 'a::len word))" "(z XOR x = z XOR y) = (x = y)"
proof -
  have "x = y" if "x XOR z = y XOR z" for x y :: "'a word"
  proof -
    have "(x XOR z) XOR z = (y XOR z) XOR z" using that by simp
    then show ?thesis by (simp only: xor.assoc xor_self_eq xor.right_neutral)
  qed
  then show "(x XOR z = y XOR z) = (x = y)" "(z XOR x = z XOR y) = (x = y)"
    by (auto simp: xor.commute)
qed

lemma crc_foldl_inject: "foldl crc_step c bs = foldl crc_step c' bs \<Longrightarrow> c = c'"
proof (induction bs arbitrary: c c')
  case (Cons b bs)
  then have "crc_step c b = crc_step c' b" by simp
  from crc_step_inject [OF this] show ?case by (simp add: xor_cancel)
qed simp

lemma ucast_byte_inject: "(ucast (a :: 8 word) :: 32 word) = ucast b \<Longrightarrow> a = b"
proof -
  assume e: "(ucast a :: 32 word) = ucast b"
  show "a = b"
  proof (rule bit_word_eqI)
    fix n assume "n < LENGTH(8)"
    then show "bit a n = bit b n" using arg_cong [OF e, of "\<lambda>w. bit w n"] by (simp add: bit_ucast_iff)
  qed
qed

lemma crc32_byte_changed:
  assumes "k < length xs" and "b \<noteq> xs ! k"
  shows "crc32 (xs[k := b]) seed \<noteq> crc32 xs seed"
proof
  assume e: "crc32 (xs[k := b]) seed = crc32 xs seed"
  have x: "xs = take k xs @ xs ! k # drop (Suc k) xs" "xs[k := b] = take k xs @ b # drop (Suc k) xs"
    using assms(1) by (simp_all add: id_take_nth_drop upd_conv_take_nth_drop)
  have "foldl crc_step (crc_step (foldl crc_step (NOT seed) (take k xs)) b) (drop (Suc k) xs) =
      foldl crc_step (crc_step (foldl crc_step (NOT seed) (take k xs)) (xs ! k)) (drop (Suc k) xs)"
  proof -
    have "NOT (NOT (foldl crc_step (NOT seed) (xs[k := b]))) = NOT (NOT (foldl crc_step (NOT seed) xs))"
      using e by (simp only: crc32_def)
    then show ?thesis unfolding bit.double_compl by (subst (asm) x(2), subst (asm) (2) x(1)) simp
  qed
  then have "crc_step (foldl crc_step (NOT seed) (take k xs)) b =
      crc_step (foldl crc_step (NOT seed) (take k xs)) (xs ! k)" by (rule crc_foldl_inject)
  from crc_step_inject [OF this] have "(ucast b :: 32 word) = ucast (xs ! k)" by (simp add: xor_cancel)
  then show False using ucast_byte_inject assms(2) by blast
qed

section \<open>Properties\<close>

text \<open>Further: fields written one after another are read back as they were written, in order, and the
  reader ends exactly at the end of the buffer.\<close>

theorem fields_round_trip:
  "rbind (get_u8 (rd_new (put_f32 (put_u64 (put_u32 (put_u16 (put_u8 [] a) b) c) d) e))) (\<lambda>(a', r).
   rbind (get_u16 r) (\<lambda>(b', r). rbind (get_u32 r) (\<lambda>(c', r). rbind (get_u64 r) (\<lambda>(d', r).
   rbind (get_f32 r) (\<lambda>(e', r). Inr (a', b', c', d', e', rd_remaining r)))))) =
   Inr (a, b, c, d, e, 0)"
  using get_f32_at [of _ e "[]"] by (simp add: put_le rd_new_at)

text \<open>Further: an integer read consumes exactly the bytes of the field and decodes those bytes, or, when
  fewer remain, throws a corruption error; it never looks past the end of its span.\<close>

theorem reader_in_bounds:
  assumes "rd_position r \<le> length (rd_data r)"
  shows "(rd_remaining r < 8 \<longrightarrow> get_u64 r = Inl CorruptionError) \<and>
    (8 \<le> rd_remaining r \<longrightarrow> (\<exists>v. le64 v = take 8 (drop (rd_position r) (rd_data r)) \<and>
       get_u64 r = Inr (v, r\<lparr>rd_position := rd_position r + 8\<rparr>))) \<and>
    (rd_remaining r < 4 \<longrightarrow> get_u32 r = Inl CorruptionError) \<and>
    (4 \<le> rd_remaining r \<longrightarrow> (\<exists>v. le32 v = take 4 (drop (rd_position r) (rd_data r)) \<and>
       get_u32 r = Inr (v, r\<lparr>rd_position := rd_position r + 4\<rparr>)))"
proof -
  obtain pre rest where r: "r = rd_at pre rest" using rd_at_exists [OF assms] by blast
  have 8: "\<exists>v. le64 v = take 8 rest \<and> get_u64 (rd_at pre rest) = Inr (v, rd_at (pre @ le64 v) (drop 8 rest))"
    if "8 \<le> length rest"
  proof -
    have "length (take 8 rest) = 8" using that by simp
    from le64_surj [OF this] obtain v where v: "take 8 rest = le64 v" ..
    then have "rest = le64 v @ drop 8 rest" by (metis append_take_drop_id)
    then show ?thesis using get_u64_at [of pre v "drop 8 rest"] v by metis
  qed
  have 4: "\<exists>v. le32 v = take 4 rest \<and> get_u32 (rd_at pre rest) = Inr (v, rd_at (pre @ le32 v) (drop 4 rest))"
    if "4 \<le> length rest"
  proof -
    have "length (take 4 rest) = 4" using that by simp
    from le32_surj [OF this] obtain v where v: "take 4 rest = le32 v" ..
    then have "rest = le32 v @ drop 4 rest" by (metis append_take_drop_id)
    then show ?thesis using get_u32_at [of pre v "drop 4 rest"] v by metis
  qed
  have pos: "rd_at (pre @ take n rest) (drop n rest) = (rd_at pre rest)\<lparr>rd_position := length pre + n\<rparr>"
    if "n \<le> length rest" for n using that by (simp add: rd_at_def)
  have d: "drop (rd_position r) (rd_data r) = rest" "rd_position r = length pre"
      "drop (length pre) (rd_data (rd_at pre rest)) = rest" by (simp_all add: r rd_at_def)
  show ?thesis
    using u64.short [of rest pre] u32.short [of rest pre] 8 4 pos [of 8] pos [of 4] unfolding d
    by (auto simp: r d(3))
qed

theorem reader_in_bounds_witness:
  "get_u32 \<lparr>rd_data = [1, 2, 3], rd_position = 1\<rparr> = Inl CorruptionError"
  using reader_in_bounds [of "\<lparr>rd_data = [1, 2, 3], rd_position = 1\<rparr>"] by (simp add: rd_remaining_def)

text \<open>Further: the table-driven checksum is the bit-by-bit CRC-32 and can be computed in pieces.\<close>

theorem crc32_is_bitwise:
  "crc32 data seed = crc32_bitwise data seed \<and> crc32 (data @ data2) seed = crc32 data2 (crc32 data seed)"
proof
  have "crc_step = (\<lambda>crc b. (crc_bit ^^ 8) (crc XOR ucast b))"
    by (intro ext) (rule crc_step_bits)
  then show "crc32 data seed = crc32_bitwise data seed" by (simp add: crc32_def crc32_bitwise_def)
  show "crc32 (data @ data2) seed = crc32 data2 (crc32 data seed)" by (simp add: crc32_def)
qed

text \<open>Further: the checksum notices every change confined to one byte, whatever surrounds it.\<close>

theorem crc32_detects_one_byte:
  "crc32 (pre @ a # post) seed = crc32 (pre @ b # post) seed \<longleftrightarrow> a = b"
proof
  assume "crc32 (pre @ a # post) seed = crc32 (pre @ b # post) seed"
  then have "NOT (NOT (foldl crc_step (crc_step (foldl crc_step (NOT seed) pre) a) post)) =
      NOT (NOT (foldl crc_step (crc_step (foldl crc_step (NOT seed) pre) b) post))"
    by (simp add: crc32_def)
  then have "crc_step (foldl crc_step (NOT seed) pre) a = crc_step (foldl crc_step (NOT seed) pre) b"
    unfolding bit.double_compl by (rule crc_foldl_inject)
  from crc_step_inject [OF this] have "(ucast a :: 32 word) = ucast b" by (simp add: xor_cancel)
  then show "a = b" by (rule ucast_byte_inject)
qed simp

end
