(* ===== verification/Vdb_VectorFile.thy ===== *)
theory Vdb_VectorFile
  imports Vdb_ByteIO Vdb_Store
begin

text \<open>
  The file of vectors (\<^verbatim>\<open>src/storage/vector_file.cpp\<close>): what \<^verbatim>\<open>write_vector_file\<close> hands to the atomic
  write, the header parser with its checks in order, the loader and the payload verification, over the
  bytes of the file. The lemmas show that every store is read back exactly, that an accepted header
  describes a file of exactly that length, and that damage to the header is noticed.
\<close>

unbundle bit_operations_syntax

section \<open>Layout\<close>

definition ascii :: "string \<Rightarrow> byte list" where
  "ascii s = map (\<lambda>c. word_of_nat (of_char c)) s"

definition kVectorFileMagic :: "byte list" where
  "kVectorFileMagic = ascii ''VDBVEC''"

definition kVectorFileVersion :: u32 where
  "kVectorFileVersion = 1"

definition kVectorFileHeaderSize :: nat where
  "kVectorFileHeaderSize = 64"

definition kHeaderCrcOffset :: nat where
  "kHeaderCrcOffset = 60"

definition kFlagNormalized :: u8 where
  "kFlagNormalized = 1"

record vector_file_header =
  vh_format_version :: u32
  vh_dimension :: u32
  vh_slot_count :: u64
  vh_live_count :: u64
  vh_normalized :: bool
  vh_payload_crc :: u32
  vh_header_crc :: u32

text \<open>Offsets are 64-bit unsigned arithmetic.\<close>

definition vh_payload_offset :: "vector_file_header \<Rightarrow> u64" where
  "vh_payload_offset h = 64"

definition vh_ids_offset :: "vector_file_header \<Rightarrow> u64" where
  "vh_ids_offset h = vh_payload_offset h + vh_slot_count h * ucast (vh_dimension h) * 4"

definition vh_norms_offset :: "vector_file_header \<Rightarrow> u64" where
  "vh_norms_offset h = vh_ids_offset h + vh_slot_count h * 8"

definition vh_live_offset :: "vector_file_header \<Rightarrow> u64" where
  "vh_live_offset h = vh_norms_offset h + vh_slot_count h * 4"

definition vh_total_size :: "vector_file_header \<Rightarrow> u64" where
  "vh_total_size h = vh_live_offset h + vh_slot_count h * 1"

section \<open>Writing\<close>

text \<open>The loop that fills the id, norm and liveness regions.\<close>

function vf_regions ::
    "vector_store \<Rightarrow> nat \<Rightarrow> nat \<Rightarrow> byte list \<times> byte list \<times> byte list \<Rightarrow>
     (byte list \<times> byte list \<times> byte list) result" where
  "vf_regions s i n (ids, norms, live) =
     (if i < n then
        rbind (vs_vector_id s i) (\<lambda>vid.
          vf_regions s (i + 1) n
            (put_u64 ids vid, put_f32 norms (vs_norms s ! i), put_u8 live (if vs_is_live s i then 1 else 0)))
      else Inr (ids, norms, live))"
  by pat_completeness auto
termination by (relation "measure (\<lambda>(s, i, n, _). n - i)") auto

declare vf_regions.simps [simp del]

definition vf_header_60 :: "vector_store \<Rightarrow> u32 \<Rightarrow> byte list" where
  "vf_header_60 s payload_crc =
     (let slot_count = word_of_nat (vs_slot_count s) :: u64;
          dimension = word_of_nat (vs_dimension s) :: u32;
          w = put_fixed_string [] kVectorFileMagic 8;
          w = put_u32 w kVectorFileVersion;
          w = put_u32 w dimension;
          w = put_u64 w slot_count;
          w = put_u64 w (word_of_nat (vs_live_count s));
          w = put_u8 w (if vs_normalize s then kFlagNormalized else 0);
          w = put_pad w 7;
          w = put_u64 w (slot_count * ucast dimension * 4);
          w = put_u32 w payload_crc in
      put_pad w 8)"

definition vf_payload :: "vector_store \<Rightarrow> f32 list" where
  "vf_payload s = take (vs_slot_count s * vs_dimension s) (va_storage (vs_vectors s))"

text \<open>The chunks given to \<^verbatim>\<open>write_file_atomically\<close>, in order.\<close>

definition vector_file_chunks :: "vector_store \<Rightarrow> byte list list result" where
  "vector_file_chunks s =
     rbind (vf_regions s 0 (cast_u32 (vs_slot_count s)) ([], [], [])) (\<lambda>(ids, norms, live).
       let payload = vf_payload s;
           header = vf_header_60 s (crc32_floats payload 0);
           header = put_u32 header (crc32 (take kHeaderCrcOffset header) 0) in
       Inr [header, float_bytes payload, ids, norms, live])"

section \<open>Reading\<close>

definition checked_multiply :: "u64 \<Rightarrow> u64 \<Rightarrow> u64 result" where
  "checked_multiply a b = (if a \<noteq> 0 \<and> b > (- 1) div a then Inl CorruptionError else Inr (a * b))"

text \<open>\<^verbatim>\<open>std::bit_cast\<close> of four bytes on a little-endian machine.\<close>

definition de32 :: "byte list \<Rightarrow> u32" where
  "de32 bs = ucast (bs ! 0) OR push_bit 8 (ucast (bs ! 1)) OR push_bit 16 (ucast (bs ! 2)) OR
     push_bit 24 (ucast (bs ! 3))"

definition parse_vector_file_header :: "byte list \<Rightarrow> u64 \<Rightarrow> vector_file_header result" where
  "parse_vector_file_header bytes file_size =
     (if length bytes < kVectorFileHeaderSize then Inl CorruptionError
      else
        rbind (get_fixed_string (rd_new (take kVectorFileHeaderSize bytes)) 8) (\<lambda>(magic, r).
        rbind (guard_throw (magic \<noteq> ascii ''VDBVEC'') CorruptionError) (\<lambda>_.
        rbind (get_u32 r) (\<lambda>(version, r).
        rbind (guard_throw (version \<noteq> kVectorFileVersion)
                 (UnsupportedVersionError (unat version) (unat kVectorFileVersion))) (\<lambda>_.
        let stored_crc = de32 (take 4 (drop kHeaderCrcOffset bytes));
            computed_crc = crc32 (take kHeaderCrcOffset bytes) 0 in
        rbind (guard_throw (stored_crc \<noteq> computed_crc) CorruptionError) (\<lambda>_.
        rbind (get_u32 r) (\<lambda>(dimension, r).
        rbind (guard_throw (dimension = 0 \<or> unat dimension > kMaxDimension) CorruptionError) (\<lambda>_.
        rbind (get_u64 r) (\<lambda>(slot_count, r).
        rbind (guard_throw (unat slot_count > kMaxVectorCount) CorruptionError) (\<lambda>_.
        rbind (get_u64 r) (\<lambda>(live_count, r).
        rbind (guard_throw (live_count > slot_count) CorruptionError) (\<lambda>_.
        rbind (get_u8 r) (\<lambda>(flags, r).
        rbind (rd_skip r 7) (\<lambda>r.
        rbind (checked_multiply slot_count (ucast dimension)) (\<lambda>cells.
        rbind (checked_multiply cells 4) (\<lambda>expected_payload.
        rbind (get_u64 r) (\<lambda>(declared_payload, r).
        rbind (guard_throw (declared_payload \<noteq> expected_payload) CorruptionError) (\<lambda>_.
        rbind (get_u32 r) (\<lambda>(payload_crc, r).
        let header = \<lparr>vh_format_version = version, vh_dimension = dimension, vh_slot_count = slot_count,
              vh_live_count = live_count, vh_normalized = (flags AND kFlagNormalized \<noteq> 0),
              vh_payload_crc = payload_crc, vh_header_crc = stored_crc\<rparr> in
        rbind (guard_throw (file_size \<noteq> vh_total_size header) CorruptionError) (\<lambda>_.
        Inr header))))))))))))))))))))"

text \<open>The floats of the payload seen in place.\<close>

definition vf_float_at :: "byte list \<Rightarrow> nat \<Rightarrow> f32" where
  "vf_float_at payload k = de32 (take 4 (drop (k * 4) payload))"

definition vf_row :: "byte list \<Rightarrow> nat \<Rightarrow> nat \<Rightarrow> vec" where
  "vf_row payload d slot = map (\<lambda>j. vf_float_at payload (slot * d + j)) [0..<d]"

function vf_load ::
    "byte list \<Rightarrow> nat \<Rightarrow> nat \<Rightarrow> nat \<Rightarrow> reader \<Rightarrow> reader \<Rightarrow> reader \<Rightarrow> vector_store \<Rightarrow> nat \<Rightarrow>
     (vector_store \<times> nat) result" where
  "vf_load payload d slot n ids norms live s live_seen =
     (if slot < n then
        rbind (get_u64 ids) (\<lambda>(vid, ids).
        rbind (get_f32 norms) (\<lambda>(nm, norms).
        rbind (get_u8 live) (\<lambda>(flag, live).
        let is_live = (flag \<noteq> 0) in
        rbind (vs_append_trusted s vid (vf_row payload d slot) nm is_live) (\<lambda>(_, s).
        vf_load payload d (slot + 1) n ids norms live s (live_seen + (if is_live then 1 else 0))))))
      else Inr (s, live_seen))"
  by pat_completeness auto
termination by (relation "measure (\<lambda>(payload, d, slot, n, _). n - slot)") auto

declare vf_load.simps [simp del]

definition subspan :: "byte list \<Rightarrow> u64 \<Rightarrow> u64 \<Rightarrow> byte list" where
  "subspan bytes off n = take (unat n) (drop (unat off) bytes)"

definition read_vector_file :: "byte list \<Rightarrow> vector_store result" where
  "read_vector_file bytes =
     rbind (parse_vector_file_header bytes (word_of_nat (length bytes))) (\<lambda>h.
     rbind (vs_new (unat (vh_dimension h)) (vh_normalized h)) (\<lambda>s.
     rbind (vf_load (drop (unat (vh_payload_offset h)) bytes) (unat (vh_dimension h)) 0
              (unat (vh_slot_count h))
              (rd_new (subspan bytes (vh_ids_offset h) (vh_slot_count h * 8)))
              (rd_new (subspan bytes (vh_norms_offset h) (vh_slot_count h * 4)))
              (rd_new (subspan bytes (vh_live_offset h) (vh_slot_count h))) s 0) (\<lambda>(s, live_seen).
     if live_seen \<noteq> unat (vh_live_count h) then Inl CorruptionError else Inr s)))"

definition verify_vector_file_payload :: "byte list \<Rightarrow> bool result" where
  "verify_vector_file_payload bytes =
     rbind (parse_vector_file_header bytes (word_of_nat (length bytes))) (\<lambda>h.
       Inr (crc32 (subspan bytes (vh_payload_offset h) (vh_slot_count h * ucast (vh_dimension h) * 4)) 0 =
            vh_payload_crc h))"

section \<open>The regions\<close>

lemma vf_regions_from:
  assumes inv: "vs_inv s" and i: "i \<le> vs_slot_count s"
  shows "vf_regions s i (vs_slot_count s) (a, b, c) =
    Inr (a @ concat (map le64 (drop i (vs_local_to_id s))), b @ concat (map le32 (drop i (vs_norms s))),
         c @ drop i (vs_live s))"
  using i
proof (induction "vs_slot_count s - i" arbitrary: i a b c)
  case 0
  then show ?case using inv by (subst vf_regions.simps) (simp add: vs_inv_def)
next
  case (Suc k)
  then have lt: "i < vs_slot_count s" and k: "k = vs_slot_count s - Suc i" by simp_all
  have len: "length (vs_local_to_id s) = vs_slot_count s" "length (vs_norms s) = vs_slot_count s"
    "length (vs_live s) = vs_slot_count s" and bits: "set (vs_live s) \<subseteq> {0, 1}"
    using inv by (simp_all add: vs_inv_def)
  have "vs_live s ! i \<in> set (vs_live s)" using lt len by simp
  then have "vs_live s ! i \<in> {0, 1}" using bits by (rule subsetD [rotated])
  then have bit: "(if vs_is_live s i then 1 else 0) = vs_live s ! i" by (auto simp: vs_is_live_def)
  have drops: "drop i (vs_local_to_id s) = vs_local_to_id s ! i # drop (Suc i) (vs_local_to_id s)"
    "drop i (vs_norms s) = vs_norms s ! i # drop (Suc i) (vs_norms s)"
    "drop i (vs_live s) = vs_live s ! i # drop (Suc i) (vs_live s)"
    using lt len by (simp_all add: Cons_nth_drop_Suc)
  show ?case
    using lt len Suc.hyps(1) [OF k] bit
    by (subst vf_regions.simps) (simp add: drops vs_vector_id_def put_le)
qed

lemma vs_slot_count_cast: "vs_inv s \<Longrightarrow> cast_u32 (vs_slot_count s) = vs_slot_count s"
  by (rule cast_u32_id) (auto simp: vs_inv_def va_inv_def vs_slot_count_def kMaxVectorCount_def)

lemma vf_payload_all: "vs_inv s \<Longrightarrow> vf_payload s = va_storage (vs_vectors s)"
  by (simp add: vf_payload_def vs_inv_def va_inv_def vs_slot_count_def vs_dimension_def)

lemma de32_le32 [simp]: "de32 (le32 v) = v"
  using or_le32 [of v] by (simp add: de32_def le32_def)

lemma length_float_bytes [simp]: "length (float_bytes xs) = 4 * length xs"
  unfolding float_bytes_def u32.length_array by simp

lemma vf_float_at_nth: "k < length xs \<Longrightarrow> vf_float_at (float_bytes xs @ rest) k = xs ! k"
proof -
  assume k: "k < length xs"
  have "float_bytes xs = float_bytes (take k xs) @ le32 (xs ! k) @ float_bytes (drop (Suc k) xs)"
    unfolding float_bytes_def
    by (subst id_take_nth_drop [OF k]) (simp only: map_append concat_append list.simps concat.simps)
  moreover have "length (float_bytes (take k xs)) = k * 4" using k by simp
  ultimately have "take 4 (drop (k * 4) (float_bytes xs @ rest)) = le32 (xs ! k)" by simp
  then show ?thesis by (simp add: vf_float_at_def)
qed

lemma vf_row_block:
  assumes "Suc slot * d \<le> length xs"
  shows "vf_row (float_bytes xs @ rest) d slot = block d slot xs"
proof (rule nth_equalityI)
  show "length (vf_row (float_bytes xs @ rest) d slot) = length (block d slot xs)"
    using assms by (simp add: vf_row_def block_def)
  fix j assume "j < length (vf_row (float_bytes xs @ rest) d slot)"
  then have j: "j < d" by (simp add: vf_row_def)
  then have "slot * d + j < length xs" using assms by simp
  then show "vf_row (float_bytes xs @ rest) d slot ! j = block d slot xs ! j"
    using j assms by (simp add: vf_row_def block_def vf_float_at_nth)
qed

section \<open>Loading slot by slot\<close>

text \<open>What the store under construction holds after \<open>k\<close> slots.\<close>

definition vs_prefix :: "vector_store \<Rightarrow> nat \<Rightarrow> vector_store" where
  "vs_prefix s k = \<lparr>
     vs_vectors = \<lparr>va_dimension = vs_dimension s, va_count = k,
       va_storage = take (k * vs_dimension s) (va_storage (vs_vectors s))\<rparr>,
     vs_norms = take k (vs_norms s), vs_live = take k (vs_live s),
     vs_local_to_id = take k (vs_local_to_id s),
     vs_id_to_local = (\<lambda>vid. case vs_id_to_local s vid of None \<Rightarrow> None | Some i \<Rightarrow> if i < k then Some i else None),
     vs_live_count = card {i. i < k \<and> vs_is_live s i}, vs_normalize = vs_normalize s\<rparr>"

lemma vs_prefix_all: "vs_inv s \<Longrightarrow> vs_prefix s (vs_slot_count s) = s"
proof -
  assume inv: "vs_inv s"
  have "(case vs_id_to_local s vid of None \<Rightarrow> None | Some i \<Rightarrow> if i < vs_slot_count s then Some i else None) =
      vs_id_to_local s vid" for vid
  proof (cases "vs_id_to_local s vid")
    case (Some i)
    then have "i \<in> live_slots s" using inv unfolding vs_inv_def by blast
    then show ?thesis using Some by (simp add: live_slots_def)
  qed simp
  then show ?thesis
    using inv unfolding vs_prefix_def
    by (simp add: vs_inv_def va_inv_def vs_slot_count_def vs_dimension_def live_slots_def)
qed

lemma card_live_Suc:
  "card {i. i < Suc k \<and> P i} = card {i. i < k \<and> P i} + (if P k then 1 else 0)"
proof -
  have "{i. i < Suc k \<and> P i} = (if P k then insert k {i. i < k \<and> P i} else {i. i < k \<and> P i})"
    by (auto simp: less_Suc_eq)
  then show ?thesis by simp
qed

lemma vs_prefix_step:
  assumes inv: "vs_inv s" and k: "k < vs_slot_count s"
  shows "vs_append_trusted (vs_prefix s k) (vs_local_to_id s ! k)
      (block (vs_dimension s) k (va_storage (vs_vectors s))) (vs_norms s ! k) (vs_is_live s k) =
    Inr (k, vs_prefix s (Suc k))"
proof -
  let ?d = "vs_dimension s" and ?st = "va_storage (vs_vectors s)" and ?vid = "vs_local_to_id s ! k"
  have st: "length ?st = vs_slot_count s * ?d" and max: "vs_slot_count s \<le> kMaxVectorCount"
    and len: "length (vs_local_to_id s) = vs_slot_count s" "length (vs_norms s) = vs_slot_count s"
      "length (vs_live s) = vs_slot_count s" and bits: "set (vs_live s) \<subseteq> {0, 1}"
    and map: "\<And>vid i. vs_id_to_local s vid = Some i \<longleftrightarrow> i \<in> live_slots s \<and> vs_local_to_id s ! i = vid"
    using inv by (simp_all add: vs_inv_def va_inv_def vs_slot_count_def vs_dimension_def)
  have row: "length (block ?d k ?st) = ?d" using k st by (rule length_block)
  have storage: "take (k * ?d) ?st @ block ?d k ?st = take (Suc k * ?d) ?st"
    by (simp add: block_def add.commute flip: take_add)
  have "vs_live s ! k \<in> set (vs_live s)" using k len by simp
  then have "vs_live s ! k \<in> {0, 1}" using bits by (rule subsetD [rotated])
  then have bit: "(if vs_is_live s k then 1 else 0) = vs_live s ! k" by (auto simp: vs_is_live_def)
  let ?m = "\<lambda>k vid. case vs_id_to_local s vid of None \<Rightarrow> None | Some i \<Rightarrow> if i < k then Some i else None"
  have live: "vs_id_to_local s ?vid = Some k" if "vs_is_live s k"
    using that map k by (simp add: live_slots_def)
  have m_live: "(?m k)(?vid \<mapsto> k) = ?m (Suc k)" if "vs_is_live s k"
  proof
    fix vid
    show "((?m k)(?vid \<mapsto> k)) vid = ?m (Suc k) vid"
      using live [OF that] map [of vid k] by (auto simp: less_Suc_eq split: option.split)
  qed
  have m_dead: "?m k = ?m (Suc k)" if "\<not> vs_is_live s k"
  proof
    fix vid
    have "vs_id_to_local s vid \<noteq> Some k" using that map by (simp add: live_slots_def)
    then show "?m k vid = ?m (Suc k) vid" by (auto simp: less_Suc_eq split: option.split)
  qed
  have push: "va_push_back (vs_vectors (vs_prefix s k)) (block ?d k ?st) =
      Inr (k, \<lparr>va_dimension = ?d, va_count = Suc k, va_storage = take (Suc k * ?d) ?st\<rparr>)"
    using k max row storage by (simp add: va_push_back_def vs_prefix_def cast_u32_slot)
  have ens: "ensure_capacity_for_one (vs_prefix s k) = Inr ()"
    using k max by (simp add: ensure_capacity_for_one_def vs_prefix_def)
  have prefix: "vs_prefix s (Suc k) = (vs_prefix s k)\<lparr>
      vs_vectors := \<lparr>va_dimension = ?d, va_count = Suc k, va_storage = take (Suc k * ?d) ?st\<rparr>,
      vs_norms := vs_norms (vs_prefix s k) @ [vs_norms s ! k],
      vs_live := vs_live (vs_prefix s k) @ [if vs_is_live s k then 1 else 0],
      vs_local_to_id := vs_local_to_id (vs_prefix s k) @ [?vid],
      vs_id_to_local := ?m (Suc k),
      vs_live_count := vs_live_count (vs_prefix s k) + (if vs_is_live s k then 1 else 0)\<rparr>"
    unfolding bit using k len by (simp add: vs_prefix_def take_Suc_conv_app_nth card_live_Suc)
  show ?thesis
  proof (cases "vs_is_live s k")
    case True
    have none: "vs_id_to_local (vs_prefix s k) ?vid = None" using live [OF True] by (simp add: vs_prefix_def)
    show ?thesis using True m_live [OF True]
      by (simp add: vs_append_trusted_def ens push Let_def none prefix) (simp add: vs_prefix_def)
  next
    case False
    show ?thesis using False m_dead [OF False]
      by (simp add: vs_append_trusted_def ens push Let_def prefix) (simp add: vs_prefix_def)
  qed
qed

lemma vf_load_from:
  assumes inv: "vs_inv s" and k: "k \<le> vs_slot_count s"
  shows "vf_load (float_bytes (va_storage (vs_vectors s)) @ rest) (vs_dimension s) k (vs_slot_count s)
      \<lparr>rd_data = concat (map le64 (vs_local_to_id s)), rd_position = k * 8\<rparr>
      \<lparr>rd_data = concat (map le32 (vs_norms s)), rd_position = k * 4\<rparr>
      \<lparr>rd_data = vs_live s, rd_position = k\<rparr> (vs_prefix s k) (card {i. i < k \<and> vs_is_live s i}) =
    Inr (s, vs_live_count s)"
  using k
proof (induction "vs_slot_count s - k" arbitrary: k)
  case 0
  then have "k = vs_slot_count s" by simp
  then show ?case
    using inv by (subst vf_load.simps) (simp add: vs_prefix_all, simp add: vs_inv_def live_slots_def)
next
  case (Suc m)
  then have lt: "k < vs_slot_count s" and m: "m = vs_slot_count s - Suc k" by simp_all
  have len: "length (vs_local_to_id s) = vs_slot_count s" "length (vs_norms s) = vs_slot_count s"
    "length (vs_live s) = vs_slot_count s"
    using inv by (simp_all add: vs_inv_def)
  have st: "length (va_storage (vs_vectors s)) = vs_slot_count s * vs_dimension s"
    using inv by (simp add: vs_inv_def va_inv_def vs_slot_count_def vs_dimension_def)
  have "Suc k * vs_dimension s \<le> vs_slot_count s * vs_dimension s" using lt by (intro mult_right_mono) auto
  then have row: "vf_row (float_bytes (va_storage (vs_vectors s)) @ rest) (vs_dimension s) k =
      block (vs_dimension s) k (va_storage (vs_vectors s))"
    using st by (intro vf_row_block) simp
  have ids: "get_u64 \<lparr>rd_data = concat (map le64 (vs_local_to_id s)), rd_position = k * 8\<rparr> =
      Inr (vs_local_to_id s ! k, \<lparr>rd_data = concat (map le64 (vs_local_to_id s)), rd_position = Suc k * 8\<rparr>)"
    using lt len by (intro u64.read_nth) simp
  have norms: "get_f32 \<lparr>rd_data = concat (map le32 (vs_norms s)), rd_position = k * 4\<rparr> =
      Inr (vs_norms s ! k, \<lparr>rd_data = concat (map le32 (vs_norms s)), rd_position = Suc k * 4\<rparr>)"
    using lt len by (intro f32.read_nth) simp
  have live: "get_u8 \<lparr>rd_data = vs_live s, rd_position = k\<rparr> =
      Inr (vs_live s ! k, \<lparr>rd_data = vs_live s, rd_position = Suc k\<rparr>)"
    using u8.read_nth [of k "vs_live s"] lt len by (simp add: concat_map_singleton)
  have flag: "(vs_live s ! k \<noteq> 0) = vs_is_live s k" by (simp add: vs_is_live_def)
  show ?case
    using Suc.hyps(1) [OF m] lt vs_prefix_step [OF inv lt] unfolding card_live_Suc
    by (subst vf_load.simps) (simp only: if_True ids norms live rbind_simps Let_def split row flag prod.case, simp)
qed

section \<open>The header\<close>

definition vs_header :: "vector_store \<Rightarrow> vector_file_header" where
  "vs_header s = \<lparr>vh_format_version = kVectorFileVersion, vh_dimension = word_of_nat (vs_dimension s),
     vh_slot_count = word_of_nat (vs_slot_count s), vh_live_count = word_of_nat (vs_live_count s),
     vh_normalized = vs_normalize s, vh_payload_crc = crc32_floats (vf_payload s) 0,
     vh_header_crc = crc32 (vf_header_60 s (crc32_floats (vf_payload s) 0)) 0\<rparr>"

lemma vf_header_60_bytes:
  "vf_header_60 s crc = ascii ''VDBVEC'' @ replicate 2 0 @ le32 kVectorFileVersion @
     le32 (word_of_nat (vs_dimension s)) @ le64 (word_of_nat (vs_slot_count s)) @
     le64 (word_of_nat (vs_live_count s)) @ [if vs_normalize s then kFlagNormalized else 0] @
     replicate 7 0 @
     le64 (word_of_nat (vs_slot_count s) * ucast (word_of_nat (vs_dimension s) :: u32) * 4) @
     le32 crc @ replicate 8 0"
  by (simp add: vf_header_60_def Let_def put_le put_fixed_string_def kVectorFileMagic_def ascii_def)

lemma length_vf_header_60 [simp]: "length (vf_header_60 s crc) = 60"
  by (simp add: vf_header_60_bytes ascii_def)

lemma magic_read:
  "get_fixed_string (rd_at [] (ascii ''VDBVEC'' @ replicate 2 0 @ rest)) 8 =
   Inr (ascii ''VDBVEC'', rd_at (ascii ''VDBVEC'' @ replicate 2 0) rest)"
proof -
  have "0 \<notin> set (ascii ''VDBVEC'')" by (simp add: ascii_def)
  then show ?thesis
    using get_fixed_string_at [of "ascii ''VDBVEC''" 8 "[]" rest] by (simp add: ascii_def)
qed

lemma checked_multiply_ok:
  assumes "unat a * unat b < 2 ^ 64"
  shows "checked_multiply a b = Inr (a * b)"
proof -
  have "\<not> b > (- 1) div a" if "a \<noteq> 0"
  proof -
    have pos: "0 < unat a" using that by (simp add: unat_gt_0)
    have "unat b \<le> (2 ^ 64 - 1) div unat a"
      using assms pos by (simp add: less_eq_div_iff_mult_less_eq mult.commute)
    also have "\<dots> = unat ((- 1 :: u64) div a)"
      by (simp add: unat_div_distrib unsigned_minus_1_eq_mask mask_eq_exp_minus_1)
    finally show ?thesis by (simp add: word_le_nat_alt not_less)
  qed
  then show ?thesis by (auto simp: checked_multiply_def)
qed

lemma store_bounds:
  assumes "vs_inv s"
  shows "unat (word_of_nat (vs_dimension s) :: u32) = vs_dimension s"
    and "unat (word_of_nat (vs_slot_count s) :: u64) = vs_slot_count s"
    and "unat (word_of_nat (vs_live_count s) :: u64) = vs_live_count s"
    and "ucast (word_of_nat (vs_dimension s) :: u32) = (word_of_nat (vs_dimension s) :: u64)"
    and "vs_live_count s \<le> vs_slot_count s" and "vs_slot_count s \<le> kMaxVectorCount"
    and "0 < vs_dimension s" and "vs_dimension s \<le> kMaxDimension"
proof -
  show b: "vs_slot_count s \<le> kMaxVectorCount" "0 < vs_dimension s" "vs_dimension s \<le> kMaxDimension"
    using assms by (simp_all add: vs_inv_def va_inv_def vs_slot_count_def vs_dimension_def)
  have "card (live_slots s) \<le> card {i. i < vs_slot_count s}"
    by (rule card_mono) (auto simp: live_slots_def)
  then show l: "vs_live_count s \<le> vs_slot_count s" using assms by (simp add: vs_inv_def)
  show "unat (word_of_nat (vs_dimension s) :: u32) = vs_dimension s"
    "unat (word_of_nat (vs_slot_count s) :: u64) = vs_slot_count s"
    "unat (word_of_nat (vs_live_count s) :: u64) = vs_live_count s"
    using b l by (simp_all add: unat_of_nat kMaxVectorCount_def kMaxDimension_def)
  show "ucast (word_of_nat (vs_dimension s) :: u32) = (word_of_nat (vs_dimension s) :: u64)"
    using b by (simp add: unsigned_of_nat take_bit_nat_eq_self kMaxDimension_def)
qed

lemma flag_bit: "((if b then kFlagNormalized else 0) AND kFlagNormalized \<noteq> 0) = b"
  by (simp add: kFlagNormalized_def)

lemma parse_written_header:
  assumes inv: "vs_inv s"
  defines "h60 \<equiv> vf_header_60 s (crc32_floats (vf_payload s) 0)"
  shows "parse_vector_file_header ((h60 @ le32 (crc32 h60 0)) @ rest) (vh_total_size (vs_header s)) =
    Inr (vs_header s)"
proof -
  note b = store_bounds [OF inv]
  let ?d = "word_of_nat (vs_dimension s) :: u32" and ?n = "word_of_nat (vs_slot_count s) :: u64"
  let ?l = "word_of_nat (vs_live_count s) :: u64"
  let ?bytes = "(h60 @ le32 (crc32 h60 0)) @ rest"
  have len: "length h60 = 60" by (simp add: h60_def)
  have t: "take 64 ?bytes = h60 @ le32 (crc32 h60 0)" "take 60 ?bytes = h60"
    "take 4 (drop 60 ?bytes) = le32 (crc32 h60 0)" "\<not> length ?bytes < 64"
    using len by simp_all
  have rd: "rd_new (h60 @ le32 (crc32 h60 0)) = rd_at [] (ascii ''VDBVEC'' @ replicate 2 0 @
      le32 kVectorFileVersion @ le32 ?d @ le64 ?n @ le64 ?l @
      [if vs_normalize s then kFlagNormalized else 0] @ replicate 7 0 @ le64 (?n * ucast ?d * 4) @
      le32 (crc32_floats (vf_payload s) 0) @ replicate 8 0 @ le32 (crc32 h60 0))"
    by (simp add: rd_new_at h60_def vf_header_60_bytes)
  have "vs_slot_count s * vs_dimension s \<le> kMaxVectorCount * kMaxDimension"
    using b by (intro mult_le_mono)
  also have "kMaxVectorCount * kMaxDimension < 2 ^ 62"
    by (simp add: kMaxVectorCount_def kMaxDimension_def)
  finally have nd: "vs_slot_count s * vs_dimension s < 2 ^ 62" .
  have ud: "unat (word_of_nat (vs_dimension s) :: u64) = vs_dimension s"
    using b by (simp add: unat_of_nat kMaxDimension_def)
  have m1: "checked_multiply ?n (ucast ?d) = Inr (?n * ucast ?d)"
    using nd b ud by (intro checked_multiply_ok) simp
  have "unat (?n * ucast ?d) = vs_slot_count s * vs_dimension s"
    using nd by (simp add: b(4) unat_of_nat flip: of_nat_mult)
  then have m2: "checked_multiply (?n * ucast ?d) 4 = Inr (?n * ucast ?d * 4)"
    using nd by (intro checked_multiply_ok) (simp add: mult.commute)
  have dz: "?d \<noteq> 0" using b(1,7) by (metis unat_0 less_irrefl)
  have ll: "\<not> ?l > ?n" using b by (simp add: word_less_nat_alt)
  show ?thesis
    unfolding parse_vector_file_header_def kVectorFileHeaderSize_def kHeaderCrcOffset_def t rd Let_def
    using b dz ll m1 m2 len by (simp add: magic_read rd_skip_at guard_throw_def flag_bit vs_header_def flip: h60_def)
qed

lemma vs_new_prefix:
  assumes inv: "vs_inv s"
  shows "vs_new (vs_dimension s) (vs_normalize s) = Inr (vs_prefix s 0)"
  using store_bounds(7,8) [OF inv]
  by (simp add: vs_new_def va_new_def vs_prefix_def fun_eq_iff split: option.split)

lemma vector_file_chunks_ok:
  assumes inv: "vs_inv s"
  shows "vector_file_chunks s = Inr
    [vf_header_60 s (crc32_floats (vf_payload s) 0) @
       le32 (crc32 (vf_header_60 s (crc32_floats (vf_payload s) 0)) 0),
     float_bytes (vf_payload s), concat (map le64 (vs_local_to_id s)),
     concat (map le32 (vs_norms s)), vs_live s]"
  using vf_regions_from [OF inv, of 0]
  by (simp add: vector_file_chunks_def vs_slot_count_cast [OF inv] put_u32_le kHeaderCrcOffset_def Let_def)

lemma header_offsets:
  assumes inv: "vs_inv s"
  defines "n \<equiv> vs_slot_count s" and "d \<equiv> vs_dimension s"
  shows "unat (vh_payload_offset (vs_header s)) = 64"
    and "unat (vh_ids_offset (vs_header s)) = 64 + n * d * 4"
    and "unat (vh_norms_offset (vs_header s)) = 64 + n * d * 4 + n * 8"
    and "unat (vh_live_offset (vs_header s)) = 64 + n * d * 4 + n * 8 + n * 4"
    and "vh_total_size (vs_header s) = word_of_nat (64 + n * d * 4 + n * 8 + n * 4 + n)"
    and "unat (vh_slot_count (vs_header s)) = n" and "unat (vh_slot_count (vs_header s) * 8) = n * 8"
    and "unat (vh_slot_count (vs_header s) * 4) = n * 4"
    and "unat (vh_slot_count (vs_header s) * ucast (vh_dimension (vs_header s)) * 4) = n * d * 4"
    and "64 + n * d * 4 + n * 8 + n * 4 + n < 2 ^ 64"
proof -
  note b = store_bounds [OF inv]
  have "n * d \<le> kMaxVectorCount * kMaxDimension" unfolding n_def d_def
    using b by (intro mult_le_mono)
  also have "\<dots> < 2 ^ 60" by (simp add: kMaxVectorCount_def kMaxDimension_def)
  finally have nd: "n * d < 2 ^ 60" .
  have n: "n < 2 ^ 32" using b(6) by (simp add: n_def kMaxVectorCount_def)
  show top: "64 + n * d * 4 + n * 8 + n * 4 + n < 2 ^ 64" using nd n by simp
  have u: "unat (word_of_nat m :: u64) = m" if "m < 2 ^ 64" for m using that by (simp add: unat_of_nat)
  have e: "vh_payload_offset (vs_header s) = word_of_nat 64"
    "vh_ids_offset (vs_header s) = word_of_nat (64 + n * d * 4)"
    "vh_norms_offset (vs_header s) = word_of_nat (64 + n * d * 4 + n * 8)"
    "vh_live_offset (vs_header s) = word_of_nat (64 + n * d * 4 + n * 8 + n * 4)"
    "vh_slot_count (vs_header s) = word_of_nat n" "(word_of_nat n :: u64) * 8 = word_of_nat (n * 8)"
    "(word_of_nat n :: u64) * 4 = word_of_nat (n * 4)"
    "(word_of_nat n :: u64) * ucast (vh_dimension (vs_header s)) * 4 = word_of_nat (n * d * 4)"
    by (simp_all add: vh_live_offset_def vh_norms_offset_def vh_ids_offset_def vh_payload_offset_def
        vs_header_def b(4) n_def d_def)
  show "vh_total_size (vs_header s) = word_of_nat (64 + n * d * 4 + n * 8 + n * 4 + n)"
    by (simp add: vh_total_size_def vh_live_offset_def vh_norms_offset_def vh_ids_offset_def
        vh_payload_offset_def vs_header_def b(4) n_def d_def)
  show "unat (vh_payload_offset (vs_header s)) = 64"
    "unat (vh_ids_offset (vs_header s)) = 64 + n * d * 4"
    "unat (vh_norms_offset (vs_header s)) = 64 + n * d * 4 + n * 8"
    "unat (vh_live_offset (vs_header s)) = 64 + n * d * 4 + n * 8 + n * 4"
    "unat (vh_slot_count (vs_header s)) = n" "unat (vh_slot_count (vs_header s) * 8) = n * 8"
    "unat (vh_slot_count (vs_header s) * 4) = n * 4"
    "unat (vh_slot_count (vs_header s) * ucast (vh_dimension (vs_header s)) * 4) = n * d * 4"
    unfolding e using top by (intro u; linarith)+
qed

lemma subspan_middle:
  "unat off = length pre \<Longrightarrow> unat n = length xs \<Longrightarrow> subspan (pre @ xs @ post) off n = xs"
  by (simp add: subspan_def)

lemma written_file:
  assumes inv: "vs_inv s" and chunks: "vector_file_chunks s = Inr cs"
  shows "read_vector_file (concat cs) = Inr s"
    and "verify_vector_file_payload (concat cs) = Inr True"
    and "parse_vector_file_header (concat cs) (word_of_nat (length (concat cs))) = Inr (vs_header s)"
proof -
  let ?h60 = "vf_header_60 s (crc32_floats (vf_payload s) 0)"
  let ?h = "?h60 @ le32 (crc32 ?h60 0)" and ?p = "float_bytes (vf_payload s)"
  let ?ids = "concat (map le64 (vs_local_to_id s))" and ?norms = "concat (map le32 (vs_norms s))"
  have cs: "concat cs = ?h @ ?p @ ?ids @ ?norms @ vs_live s"
    using chunks by (auto simp: vector_file_chunks_ok [OF inv])
  note off = header_offsets [OF inv]
  have len: "length ?h = 64" "length ?p = vs_slot_count s * vs_dimension s * 4"
    "length ?ids = vs_slot_count s * 8" "length ?norms = vs_slot_count s * 4"
    "length (vs_live s) = vs_slot_count s"
    using inv unfolding u64.length_array f32.length_array
    by (simp_all add: vf_payload_all vs_inv_def va_inv_def vs_slot_count_def vs_dimension_def)
  then have "length (concat cs) = 64 + vs_slot_count s * vs_dimension s * 4 + vs_slot_count s * 8 +
      vs_slot_count s * 4 + vs_slot_count s"
    unfolding cs by (simp only: length_append)
  then have size: "word_of_nat (length (concat cs)) = vh_total_size (vs_header s)" using off(5) by simp
  show parse: "parse_vector_file_header (concat cs) (word_of_nat (length (concat cs))) = Inr (vs_header s)"
    unfolding size unfolding cs using parse_written_header [OF inv] by simp
  have payload: "drop (unat (vh_payload_offset (vs_header s))) (concat cs) = ?p @ ?ids @ ?norms @ vs_live s"
    unfolding cs off(1) using len(1) by simp
  have regions: "subspan (concat cs) (vh_ids_offset (vs_header s)) (vh_slot_count (vs_header s) * 8) = ?ids"
    "subspan (concat cs) (vh_norms_offset (vs_header s)) (vh_slot_count (vs_header s) * 4) = ?norms"
    "subspan (concat cs) (vh_live_offset (vs_header s)) (vh_slot_count (vs_header s)) = vs_live s"
    "subspan (concat cs) (vh_payload_offset (vs_header s))
      (vh_slot_count (vs_header s) * ucast (vh_dimension (vs_header s)) * 4) = ?p"
    unfolding cs using off len
      subspan_middle [of "vh_ids_offset (vs_header s)" "?h @ ?p" "vh_slot_count (vs_header s) * 8" ?ids "?norms @ vs_live s"]
      subspan_middle [of "vh_norms_offset (vs_header s)" "?h @ ?p @ ?ids" "vh_slot_count (vs_header s) * 4" ?norms "vs_live s"]
      subspan_middle [of "vh_live_offset (vs_header s)" "?h @ ?p @ ?ids @ ?norms" "vh_slot_count (vs_header s)" "vs_live s" "[]"]
      subspan_middle [of "vh_payload_offset (vs_header s)" ?h
        "vh_slot_count (vs_header s) * ucast (vh_dimension (vs_header s)) * 4" ?p "?ids @ ?norms @ vs_live s"]
    by (simp_all only: length_append append_assoc append_Nil2)
  have dim: "unat (vh_dimension (vs_header s)) = vs_dimension s" "vh_normalized (vs_header s) = vs_normalize s"
    "unat (vh_live_count (vs_header s)) = vs_live_count s" "vh_payload_crc (vs_header s) = crc32 ?p 0"
    using store_bounds [OF inv] by (simp_all add: vs_header_def crc32_floats_def)
  show "read_vector_file (concat cs) = Inr s"
    using vf_load_from [OF inv, of 0 "?ids @ ?norms @ vs_live s"]
    unfolding read_vector_file_def parse
    by (simp add: regions payload dim off(6) vs_new_prefix [OF inv] rd_new_def vf_payload_all [OF inv])
  show "verify_vector_file_payload (concat cs) = Inr True"
    unfolding verify_vector_file_payload_def parse by (simp add: regions dim)
qed

section \<open>What an accepted header means\<close>

lemma checked_multiply_Inr: "checked_multiply a b = Inr c \<Longrightarrow> c = a * b \<and> unat c = unat a * unat b"
proof -
  assume r: "checked_multiply a b = Inr c"
  then have c: "c = a * b" and g: "a = 0 \<or> b \<le> (- 1) div a"
    by (auto simp: checked_multiply_def split: if_splits)
  have "unat a * unat b < 2 ^ 64"
  proof (cases "a = 0")
    case False
    then have "unat b \<le> (2 ^ 64 - 1) div unat a"
      using g by (simp add: word_le_nat_alt unat_div_distrib unsigned_minus_1_eq_mask mask_eq_exp_minus_1)
    then have "unat a * unat b \<le> unat a * ((2 ^ 64 - 1) div unat a)" by (rule mult_le_mono2)
    also have "\<dots> \<le> 2 ^ 64 - 1" by (rule times_div_less_eq_dividend)
    finally show ?thesis by simp
  qed simp
  then show ?thesis using c by (simp add: unat_word_ariths)
qed

lemma parse_accepts:
  assumes "parse_vector_file_header bytes fsize = Inr h"
  shows "kVectorFileHeaderSize \<le> length bytes" and "fsize = vh_total_size h"
    and "0 < unat (vh_dimension h)" and "unat (vh_dimension h) \<le> kMaxDimension"
    and "unat (vh_slot_count h) \<le> kMaxVectorCount" and "vh_live_count h \<le> vh_slot_count h"
    and "de32 (take 4 (drop kHeaderCrcOffset bytes)) = crc32 (take kHeaderCrcOffset bytes) 0"
    and "vh_format_version h = kVectorFileVersion"
proof -
  have "kVectorFileHeaderSize \<le> length bytes \<and> fsize = vh_total_size h \<and>
    vh_dimension h \<noteq> 0 \<and> unat (vh_dimension h) \<le> kMaxDimension \<and>
    unat (vh_slot_count h) \<le> kMaxVectorCount \<and> vh_live_count h \<le> vh_slot_count h \<and>
    de32 (take 4 (drop kHeaderCrcOffset bytes)) = crc32 (take kHeaderCrcOffset bytes) 0 \<and>
    vh_format_version h = kVectorFileVersion"
    using assms unfolding parse_vector_file_header_def Let_def
    by (clarsimp simp: result_simps not_le not_less split: if_splits prod.splits)
  then show "kVectorFileHeaderSize \<le> length bytes" "fsize = vh_total_size h" "0 < unat (vh_dimension h)"
    "unat (vh_dimension h) \<le> kMaxDimension" "unat (vh_slot_count h) \<le> kMaxVectorCount"
    "vh_live_count h \<le> vh_slot_count h" "vh_format_version h = kVectorFileVersion"
    "de32 (take 4 (drop kHeaderCrcOffset bytes)) = crc32 (take kHeaderCrcOffset bytes) 0"
    by (simp_all add: unat_gt_0)
qed

lemma total_size_nat:
  assumes "unat (vh_dimension h) \<le> kMaxDimension" and "unat (vh_slot_count h) \<le> kMaxVectorCount"
  shows "unat (vh_total_size h) = 64 + unat (vh_slot_count h) * (4 * unat (vh_dimension h) + 13)"
proof -
  let ?n = "unat (vh_slot_count h)" and ?d = "unat (vh_dimension h)"
  have w: "vh_slot_count h = word_of_nat ?n" "ucast (vh_dimension h) = (word_of_nat ?d :: u64)" by simp_all
  have u: "unat (word_of_nat m :: u64) = m" if "m < 2 ^ 64" for m using that by (simp add: unat_of_nat)
  have eq: "vh_total_size h = word_of_nat (64 + ?n * (4 * ?d + 13))"
    unfolding vh_total_size_def vh_live_offset_def vh_norms_offset_def vh_ids_offset_def vh_payload_offset_def
    by (subst (1 2 3 4) w(1), subst w(2)) (simp only: of_nat_add of_nat_mult, simp add: algebra_simps)
  have "?n * (4 * ?d + 13) \<le> kMaxVectorCount * (4 * kMaxDimension + 13)"
    using assms by (intro mult_le_mono) simp_all
  then have "64 + ?n * (4 * ?d + 13) < 2 ^ 64" by (simp add: kMaxVectorCount_def kMaxDimension_def)
  then show ?thesis unfolding eq by (rule u)
qed

lemma de32_inject: "length xs = 4 \<Longrightarrow> length ys = 4 \<Longrightarrow> de32 xs = de32 ys \<Longrightarrow> xs = ys"
  using le32_surj [of xs] le32_surj [of ys] by auto

text \<open>A changed byte in the first 64 is noticed.\<close>

lemma trailing_crc_sensitive:
  assumes len: "n + 4 \<le> length bytes" and k: "k < n + 4" and b: "b \<noteq> bytes ! k"
    and ok: "de32 (take 4 (drop n bytes)) = crc32 (take n bytes) 0"
  shows "de32 (take 4 (drop n (bytes[k := b]))) \<noteq> crc32 (take n (bytes[k := b])) 0"
proof (cases "k < n")
  case True
  then have "take n (bytes[k := b]) = (take n bytes)[k := b]" "drop n (bytes[k := b]) = drop n bytes"
    by (simp_all add: take_update_swap)
  then show ?thesis using crc32_byte_changed [of k "take n bytes" b 0] True len b ok by simp
next
  case False
  then have t: "take n (bytes[k := b]) = take n bytes" by simp
  have "take 4 (drop n (bytes[k := b])) \<noteq> take 4 (drop n bytes)"
  proof
    assume "take 4 (drop n (bytes[k := b])) = take 4 (drop n bytes)"
    then have "take 4 (drop n (bytes[k := b])) ! (k - n) = take 4 (drop n bytes) ! (k - n)" by simp
    then show False using False k b len by simp
  qed
  then have "de32 (take 4 (drop n (bytes[k := b]))) \<noteq> de32 (take 4 (drop n bytes))"
    using de32_inject [of "take 4 (drop n (bytes[k := b]))" "take 4 (drop n bytes)"] len by auto
  then show ?thesis using ok t by simp
qed

text \<open>The parser looks at nothing beyond the header.\<close>

lemma parse_cong:
  "take 64 xs = take 64 ys \<Longrightarrow> length xs = length ys \<Longrightarrow>
   parse_vector_file_header xs fsize = parse_vector_file_header ys fsize"
proof -
  assume t: "take 64 xs = take 64 ys" and l: "length xs = length ys"
  have "take 60 zs = take 60 (take 64 zs)" "take 4 (drop 60 zs) = drop 60 (take 64 zs)" for zs :: "byte list"
    by (simp_all add: drop_take)
  then have "take 60 xs = take 60 ys" "take 4 (drop 60 xs) = take 4 (drop 60 ys)" using t by metis+
  then show ?thesis
    unfolding parse_vector_file_header_def kVectorFileHeaderSize_def kHeaderCrcOffset_def
    by (simp only: t l)
qed

lemma empty_file: "\<exists>bytes h. parse_vector_file_header bytes 64 = Inr h"
proof -
  let ?s = "\<lparr>vs_vectors = \<lparr>va_dimension = 1, va_count = 0, va_storage = []\<rparr>, vs_norms = [], vs_live = [],
      vs_local_to_id = [], vs_id_to_local = Map.empty, vs_live_count = 0, vs_normalize = False\<rparr>"
  have "vs_new 1 False = Inr ?s" by (simp add: vs_new_def va_new_def kMaxDimension_def)
  then have inv: "vs_inv ?s" using vs_new_ok by blast
  from parse_written_header [OF this, of "[]"] have "\<exists>bytes h. parse_vector_file_header bytes (vh_total_size (vs_header ?s)) = Inr h"
    by blast
  then show ?thesis using header_offsets(5) [OF inv] by (simp add: vs_slot_count_def)
qed

section \<open>Properties\<close>

text \<open>C25: writing any store (tombstones included) and reading the file back gives exactly that store,
  and its payload checksum verifies.\<close>

theorem vector_file_round_trip:
  assumes "vs_inv s"
  shows "\<exists>cs. vector_file_chunks s = Inr cs \<and> read_vector_file (concat cs) = Inr s \<and>
    verify_vector_file_payload (concat cs) = Inr True"
  using vector_file_chunks_ok [OF assms] written_file [OF assms] by blast

theorem vector_file_round_trip_witness:
  "\<exists>cs. vector_file_chunks \<lparr>vs_vectors = \<lparr>va_dimension = 1, va_count = 2, va_storage = [7, 8]\<rparr>, vs_norms = [1, 2],
     vs_live = [0, 1], vs_local_to_id = [5, 6], vs_id_to_local = [6 \<mapsto> 1], vs_live_count = 1,
     vs_normalize = False\<rparr> = Inr cs"
proof -
  let ?s = "\<lparr>vs_vectors = \<lparr>va_dimension = 1, va_count = 2, va_storage = [7, 8]\<rparr>, vs_norms = [1, 2],
     vs_live = [0, 1], vs_local_to_id = [5, 6], vs_id_to_local = [6 \<mapsto> 1], vs_live_count = 1,
     vs_normalize = False\<rparr>"
  have live: "live_slots ?s = {1}"
    by (auto simp: live_slots_def vs_slot_count_def vs_is_live_def less_2_cases_iff)
  have "vs_inv ?s" unfolding vs_inv_def live
    by (auto simp: va_inv_def vs_slot_count_def kMaxDimension_def kMaxVectorCount_def)
  from vector_file_round_trip [OF this] show ?thesis by blast
qed

text \<open>Further: an accepted header has a supported version, a dimension and slot count within the limits, no
  more live vectors than slots, and describes a file of exactly the length given, computed without
  wrap-around; so truncated files and files with trailing data are refused.\<close>

theorem vector_header_accepted:
  assumes "parse_vector_file_header bytes fsize = Inr h"
  shows "unat fsize = 64 + unat (vh_slot_count h) * (4 * unat (vh_dimension h) + 13) \<and>
    vh_format_version h = 1 \<and> 1 \<le> unat (vh_dimension h) \<and> unat (vh_dimension h) \<le> 65536 \<and>
    unat (vh_live_count h) \<le> unat (vh_slot_count h) \<and> unat (vh_slot_count h) < 2 ^ 32 - 1 \<and>
    64 \<le> length bytes"
  using parse_accepts [OF assms] total_size_nat [of h]
  by (simp add: word_le_nat_alt kVectorFileVersion_def kMaxVectorCount_def kMaxDimension_def
      kVectorFileHeaderSize_def)

theorem vector_header_accepted_witness:
  "\<exists>bytes h. parse_vector_file_header bytes 64 = Inr h \<and>
     unat (64 :: u64) = 64 + unat (vh_slot_count h) * (4 * unat (vh_dimension h) + 13)"
proof -
  obtain bytes h where p: "parse_vector_file_header bytes 64 = Inr h" using empty_file by blast
  with conjunct1 [OF vector_header_accepted [OF p]] show ?thesis by blast
qed

text \<open>Further: damage to any one byte of the header of an accepted file, its checksum included, makes the
  parser refuse the file.\<close>

theorem vector_header_damage:
  assumes "parse_vector_file_header bytes fsize = Inr h" and "k < 64" and "b \<noteq> bytes ! k"
  shows "\<exists>e. parse_vector_file_header (bytes[k := b]) fsize = Inl e"
proof (cases "parse_vector_file_header (bytes[k := b]) fsize")
  case (Inr h')
  have "64 \<le> length bytes" "de32 (take 4 (drop 60 bytes)) = crc32 (take 60 bytes) 0"
    using parse_accepts(1,7) [OF assms(1)] by (simp_all add: kHeaderCrcOffset_def kVectorFileHeaderSize_def)
  with trailing_crc_sensitive [of 60 bytes k b] assms(2,3) show ?thesis
    using parse_accepts(7) [OF Inr] by (simp add: kHeaderCrcOffset_def)
qed simp

theorem vector_header_damage_witness:
  "\<exists>bytes h. parse_vector_file_header bytes 64 = Inr h \<and>
     (\<exists>e. parse_vector_file_header (bytes[9 := bytes ! 9 + 1]) 64 = Inl e)"
proof -
  obtain bytes h where p: "parse_vector_file_header bytes 64 = Inr h" using empty_file by blast
  have "bytes ! 9 + 1 \<noteq> bytes ! 9" by simp
  from vector_header_damage [OF p _ this] p show ?thesis by fastforce
qed

text \<open>Further: neither the reader's header check nor the payload verification depends on the id, norm and
  liveness regions: any bytes of the right length in their place pass both.\<close>

theorem tail_regions_unprotected:
  assumes "vs_inv s" and "vector_file_chunks s = Inr [header, payload, ids, norms, live]"
    and "length junk = length ids + length norms + length live"
  shows "verify_vector_file_payload (header @ payload @ junk) = Inr True"
proof -
  let ?x = "header @ payload @ ids @ norms @ live" and ?y = "header @ payload @ junk"
  have hp: "length header = 64" "length payload = vs_slot_count s * vs_dimension s * 4"
    using assms(2) vector_file_chunks_ok [OF assms(1)] assms(1)
    by (auto simp: vf_payload_all vs_inv_def va_inv_def vs_slot_count_def vs_dimension_def)
  have v: "verify_vector_file_payload ?x = Inr True"
    using written_file(2) [OF assms(1,2)] by simp
  then obtain h where h: "parse_vector_file_header ?x (word_of_nat (length ?x)) = Inr h"
    by (auto simp: verify_vector_file_payload_def result_simps)
  have len: "length ?y = length ?x" using assms(3) by simp
  have h': "parse_vector_file_header ?y (word_of_nat (length ?y)) = Inr h"
    unfolding len using h parse_cong [of ?y ?x] hp assms(3) by simp
  have sub: "subspan ?y off n = subspan ?x off n"
    if "unat off + unat n \<le> length header + length payload" for off n
    using that by (simp add: subspan_def)
  have b: "unat (vh_payload_offset h) = 64"
    "unat (vh_slot_count h * ucast (vh_dimension h) * 4) = vs_slot_count s * vs_dimension s * 4"
  proof -
    have "parse_vector_file_header ?x (word_of_nat (length ?x)) = Inr (vs_header s)"
      using written_file(3) [OF assms(1,2)] by simp
    then show "unat (vh_payload_offset h) = 64"
      "unat (vh_slot_count h * ucast (vh_dimension h) * 4) = vs_slot_count s * vs_dimension s * 4"
      using h header_offsets [OF assms(1)] by simp_all
  qed
  show ?thesis
    using v h h' sub [of "vh_payload_offset h" "vh_slot_count h * ucast (vh_dimension h) * 4"] b hp
    by (simp add: verify_vector_file_payload_def)
qed

theorem tail_regions_unprotected_witness:
  "\<exists>header payload. verify_vector_file_payload (header @ payload @ replicate 13 0) = Inr True"
proof -
  let ?s = "\<lparr>vs_vectors = \<lparr>va_dimension = 1, va_count = 1, va_storage = [7]\<rparr>, vs_norms = [1],
     vs_live = [1], vs_local_to_id = [5], vs_id_to_local = [5 \<mapsto> 0], vs_live_count = 1,
     vs_normalize = False\<rparr>"
  have live: "live_slots ?s = {0}" by (auto simp: live_slots_def vs_slot_count_def vs_is_live_def)
  have inv: "vs_inv ?s" unfolding vs_inv_def live
    by (auto simp: va_inv_def vs_slot_count_def kMaxDimension_def kMaxVectorCount_def)
  have len: "length (replicate 13 (0 :: byte)) = length (concat (map le64 (vs_local_to_id ?s))) +
      length (concat (map le32 (vs_norms ?s))) + length (vs_live ?s)" by simp
  from tail_regions_unprotected [OF inv vector_file_chunks_ok [OF inv] len] show ?thesis by blast
qed

end
