(* ===== verification/Vdb_HnswFile.thy ===== *)
theory Vdb_HnswFile
  imports Vdb_HnswBuild Vdb_VectorFile
begin

text \<open>
  The file of an HNSW graph (\<^verbatim>\<open>src/index/hnsw/hnsw_file.cpp\<close>): the bytes \<^verbatim>\<open>write_hnsw_file\<close> hands to the
  atomic write, the header parser, the loader with its validation pass over every link, and the payload
  verification. The lemmas show that a well-formed index is read back exactly (but for its generator), and
  that whatever bytes the loader accepts make a graph the search may walk without a bounds check.
\<close>

unbundle bit_operations_syntax

section \<open>Layout\<close>

definition kHnswFileMagic :: "byte list" where
  "kHnswFileMagic = ascii ''VDBHNSW''"

definition kHnswFileVersion :: u32 where
  "kHnswFileVersion = 1"

definition kHnswFileHeaderSize :: nat where
  "kHnswFileHeaderSize = 128"

definition kHnswHeaderCrcOffset :: nat where
  "kHnswHeaderCrcOffset = 124"

record hnsw_file_header =
  hh_format_version :: u32
  hh_dimension :: u32
  hh_metric :: metric
  hh_config :: hnsw_config
  hh_node_count :: u64
  hh_live_count :: u64
  hh_layer0_link_count :: u64
  hh_upper_link_count :: u64
  hh_entry_point :: u32
  hh_max_level :: u32
  hh_rng_state :: u64
  hh_payload_crc :: u32
  hh_header_crc :: u32

definition hh_levels_offset :: "hnsw_file_header \<Rightarrow> u64" where
  "hh_levels_offset h = 128"

definition hh_offsets_offset :: "hnsw_file_header \<Rightarrow> u64" where
  "hh_offsets_offset h = hh_levels_offset h + hh_node_count h"

definition hh_layer0_offset :: "hnsw_file_header \<Rightarrow> u64" where
  "hh_layer0_offset h = hh_offsets_offset h + hh_node_count h * 4"

definition hh_upper_offset :: "hnsw_file_header \<Rightarrow> u64" where
  "hh_upper_offset h = hh_layer0_offset h + hh_layer0_link_count h * 4"

definition hh_total_size :: "hnsw_file_header \<Rightarrow> u64" where
  "hh_total_size h = hh_upper_offset h + hh_upper_link_count h * 4"

section \<open>Writing\<close>

text \<open>The bytes of an array of 32-bit values and of an array of levels in memory.\<close>

definition u32_bytes :: "nat list \<Rightarrow> byte list" where
  "u32_bytes xs = float_bytes (map word_of_nat xs)"

definition u8_bytes :: "nat list \<Rightarrow> byte list" where
  "u8_bytes xs = map word_of_nat xs"

definition hnsw_header_124 :: "hnsw_index \<Rightarrow> nat \<Rightarrow> u32 \<Rightarrow> byte list" where
  "hnsw_header_124 ix d payload_crc =
     (let config = hn_config ix;
          w = put_fixed_string [] kHnswFileMagic 8;
          w = put_u32 w kHnswFileVersion;
          w = put_u32 w (word_of_nat d);
          w = put_u64 w (word_of_nat (length (hn_node_level ix)));
          w = put_u64 w (word_of_nat (hn_live_count ix));
          w = put_u32 w (word_of_nat (hc_m config));
          w = put_u32 w (word_of_nat (hc_ef_construction config));
          w = put_u32 w (word_of_nat (hc_ef_search config));
          w = put_u32 w (word_of_nat (hn_entry_point ix));
          w = put_u64 w (hc_seed config);
          w = put_u64 w (hn_rng_state ix);
          w = put_u32 w (word_of_nat (hn_max_level ix));
          w = put_u8 w (word_of_nat (metric_code (hn_metric ix)));
          w = put_pad w 3;
          w = put_u64 w (word_of_nat (length (hn_layer0_links ix)));
          w = put_u64 w (word_of_nat (length (hn_upper_links ix)));
          w = put_u32 w payload_crc in
      put_pad w 32)"

definition hnsw_payload_crc :: "hnsw_index \<Rightarrow> u32" where
  "hnsw_payload_crc ix =
     (let c = crc32 (u8_bytes (hn_node_level ix)) 0;
          c = crc32 (u32_bytes (hn_upper_offsets ix)) c;
          c = crc32 (u32_bytes (hn_layer0_links ix)) c in
      crc32 (u32_bytes (hn_upper_links ix)) c)"

text \<open>The chunks given to \<^verbatim>\<open>write_file_atomically\<close>, in order.\<close>

definition hnsw_file_chunks :: "hnsw_index \<Rightarrow> nat \<Rightarrow> byte list list" where
  "hnsw_file_chunks ix d =
     (let header = hnsw_header_124 ix d (hnsw_payload_crc ix);
          header = put_u32 header (crc32 (take kHnswHeaderCrcOffset header) 0) in
      [header, u8_bytes (hn_node_level ix), u32_bytes (hn_upper_offsets ix), u32_bytes (hn_layer0_links ix),
       u32_bytes (hn_upper_links ix)])"

section \<open>Reading the header\<close>

text \<open>The \<^verbatim>\<open>catch (const InvalidArgumentError&)\<close> around the validation of the stored configuration.\<close>

definition argument_to_corruption :: "'a result \<Rightarrow> 'a result" where
  "argument_to_corruption r =
     (case r of Inl e \<Rightarrow> Inl (if is_invalid_argument e then CorruptionError else e) | Inr x \<Rightarrow> Inr x)"

lemma argument_to_corruption_Inr [result_simps, simp]: "argument_to_corruption r = Inr x \<longleftrightarrow> r = Inr x"
  by (simp add: argument_to_corruption_def split: sum.split)

lemma argument_to_corruption_ok [simp]: "argument_to_corruption (Inr x) = Inr x"
  by simp

definition parse_hnsw_file_header :: "byte list \<Rightarrow> u64 \<Rightarrow> hnsw_file_header result" where
  "parse_hnsw_file_header bytes file_size =
     (if length bytes < kHnswFileHeaderSize then Inl CorruptionError
      else
        rbind (get_fixed_string (rd_new (take kHnswFileHeaderSize bytes)) 8) (\<lambda>(magic, r).
        rbind (guard_throw (magic \<noteq> kHnswFileMagic) CorruptionError) (\<lambda>_.
        rbind (get_u32 r) (\<lambda>(version, r).
        rbind (guard_throw (version \<noteq> kHnswFileVersion)
                 (UnsupportedVersionError (unat version) (unat kHnswFileVersion))) (\<lambda>_.
        let stored_crc = de32 (take 4 (drop kHnswHeaderCrcOffset bytes));
            computed_crc = crc32 (take kHnswHeaderCrcOffset bytes) 0 in
        rbind (guard_throw (stored_crc \<noteq> computed_crc) CorruptionError) (\<lambda>_.
        rbind (get_u32 r) (\<lambda>(dimension, r).
        rbind (guard_throw (dimension = 0 \<or> unat dimension > kMaxDimension) CorruptionError) (\<lambda>_.
        rbind (get_u64 r) (\<lambda>(node_count, r).
        rbind (guard_throw (unat node_count > kMaxVectorCount) CorruptionError) (\<lambda>_.
        rbind (get_u64 r) (\<lambda>(live_count, r).
        rbind (guard_throw (live_count > node_count) CorruptionError) (\<lambda>_.
        rbind (get_u32 r) (\<lambda>(m, r).
        rbind (get_u32 r) (\<lambda>(efc, r).
        rbind (get_u32 r) (\<lambda>(efs, r).
        rbind (get_u32 r) (\<lambda>(entry, r).
        rbind (get_u64 r) (\<lambda>(seed, r).
        rbind (get_u64 r) (\<lambda>(state, r).
        rbind (get_u32 r) (\<lambda>(max_level, r).
        rbind (get_u8 r) (\<lambda>(metric_value, r).
        rbind (guard_throw (unat metric_value > metric_code InnerProduct) CorruptionError) (\<lambda>_.
        rbind (rd_skip r 3) (\<lambda>r.
        let config = \<lparr>hc_m = unat m, hc_ef_construction = unat efc, hc_ef_search = unat efs, hc_seed = seed\<rparr> in
        rbind (argument_to_corruption (hc_validate config)) (\<lambda>_.
        rbind (get_u64 r) (\<lambda>(layer0_count, r).
        rbind (get_u64 r) (\<lambda>(upper_count, r).
        rbind (get_u32 r) (\<lambda>(payload_crc, r).
        rbind (checked_multiply node_count (word_of_nat (max_m0 config + 1))) (\<lambda>expected_layer0.
        rbind (guard_throw (layer0_count \<noteq> expected_layer0) CorruptionError) (\<lambda>_.
        rbind (guard_throw (max_level > 254) CorruptionError) (\<lambda>_.
        rbind (if node_count = 0 then guard_throw (unat entry \<noteq> kInvalidLocalId) CorruptionError
               else guard_throw (ucast entry \<ge> node_count) CorruptionError) (\<lambda>_.
        let header = \<lparr>hh_format_version = version, hh_dimension = dimension,
              hh_metric = metric_of_code (unat metric_value), hh_config = config, hh_node_count = node_count,
              hh_live_count = live_count, hh_layer0_link_count = layer0_count, hh_upper_link_count = upper_count,
              hh_entry_point = entry, hh_max_level = max_level, hh_rng_state = state,
              hh_payload_crc = payload_crc, hh_header_crc = stored_crc\<rparr> in
        rbind (guard_throw (file_size \<noteq> hh_total_size header) CorruptionError) (\<lambda>_.
        Inr header)))))))))))))))))))))))))))))))"

section \<open>Validating the links\<close>

text \<open>The loop of \<^verbatim>\<open>validate_block\<close> over the links of one block, and the block itself.\<close>

fun validate_links :: "nat list \<Rightarrow> nat \<Rightarrow> local_id list \<Rightarrow> nat \<Rightarrow> local_id \<Rightarrow> nat \<Rightarrow> nat list \<Rightarrow> unit result" where
  "validate_links levels node_count arr base node layer [] = Inr ()"
| "validate_links levels node_count arr base node layer (i # is) =
     (let neighbour = arr ! (base + 1 + i) in
      rbind (guard_throw (neighbour \<ge> node_count) CorruptionError) (\<lambda>_.
      rbind (guard_throw (neighbour = node) CorruptionError) (\<lambda>_.
      rbind (guard_throw (levels ! neighbour < layer) CorruptionError) (\<lambda>_.
      validate_links levels node_count arr base node layer is))))"

definition validate_block ::
    "nat list \<Rightarrow> nat \<Rightarrow> local_id list \<Rightarrow> nat \<Rightarrow> nat \<Rightarrow> local_id \<Rightarrow> nat \<Rightarrow> unit result" where
  "validate_block levels node_count arr base budget node layer =
     (let cnt = arr ! base in
      rbind (guard_throw (cnt > budget) CorruptionError) (\<lambda>_.
      validate_links levels node_count arr base node layer [0..<cnt]))"

text \<open>The loop over the upper layers of one node, and the loop over the nodes.\<close>

fun validate_upper ::
    "nat list \<Rightarrow> nat \<Rightarrow> hnsw_config \<Rightarrow> local_id list \<Rightarrow> nat \<Rightarrow> local_id \<Rightarrow> nat list \<Rightarrow> unit result" where
  "validate_upper levels node_count c upper off node [] = Inr ()"
| "validate_upper levels node_count c upper off node (layer # ls) =
     rbind (validate_block levels node_count upper (off + (layer - 1) * (hc_m c + 1)) (hc_m c) node layer) (\<lambda>_.
     validate_upper levels node_count c upper off node ls)"

fun validate_nodes ::
    "nat list \<Rightarrow> nat list \<Rightarrow> local_id list \<Rightarrow> local_id list \<Rightarrow> hnsw_file_header \<Rightarrow> nat list \<Rightarrow> unit result" where
  "validate_nodes levels offsets layer0 upper h [] = Inr ()"
| "validate_nodes levels offsets layer0 upper h (node # ns) =
     (let level = levels ! node; node_count = unat (hh_node_count h); c = hh_config h in
      rbind (guard_throw (level > unat (hh_max_level h)) CorruptionError) (\<lambda>_.
      rbind (validate_block levels node_count layer0 (node * (max_m0 c + 1)) (max_m0 c) node 0) (\<lambda>_.
      rbind (if level = 0 then guard_throw (offsets ! node \<noteq> kNoUpperLinks) CorruptionError
             else
               rbind (guard_throw (offsets ! node = kNoUpperLinks \<or>
                        offsets ! node + level * (hc_m c + 1) > unat (hh_upper_link_count h)) CorruptionError) (\<lambda>_.
               validate_upper levels node_count c upper (offsets ! node) node [1..<level + 1])) (\<lambda>_.
      validate_nodes levels offsets layer0 upper h ns))))"

section \<open>Loading\<close>

definition u32_array :: "byte list \<Rightarrow> nat \<Rightarrow> nat list" where
  "u32_array region n = map (\<lambda>k. unat (vf_float_at region k)) [0..<n]"

definition u8_array :: "byte list \<Rightarrow> nat \<Rightarrow> nat list" where
  "u8_array region n = map unat (take n region)"

text \<open>
  The most elements a \<^verbatim>\<open>std::vector\<close> of 32-bit values may have; its constructor throws beyond it. (Below
  it the allocation may still fail: memory is unbounded here.)
\<close>

definition vector_max_size :: nat where
  "vector_max_size = 2 ^ 61 - 1"

definition read_hnsw_file ::
    "byte list \<Rightarrow> accessor \<Rightarrow> metric \<Rightarrow> nat \<Rightarrow> distance_kernel \<Rightarrow> hnsw_index result" where
  "read_hnsw_file bytes ac expected_metric expected_dimension kn =
     rbind (parse_hnsw_file_header bytes (word_of_nat (length bytes))) (\<lambda>h.
     rbind (guard_throw (hh_metric h \<noteq> expected_metric) CorruptionError) (\<lambda>_.
     rbind (guard_throw (unat (hh_dimension h) \<noteq> expected_dimension) CorruptionError) (\<lambda>_.
     rbind (guard_throw (unat (hh_node_count h) \<noteq> ac_size ac) CorruptionError) (\<lambda>_.
     rbind (guard_throw (unat (hh_layer0_link_count h) > vector_max_size) StdException) (\<lambda>_.
     rbind (guard_throw (unat (hh_upper_link_count h) > vector_max_size) StdException) (\<lambda>_.
     let n = unat (hh_node_count h);
         levels = u8_array (drop (unat (hh_levels_offset h)) bytes) n;
         offsets = u32_array (drop (unat (hh_offsets_offset h)) bytes) n;
         layer0 = u32_array (drop (unat (hh_layer0_offset h)) bytes) (unat (hh_layer0_link_count h));
         upper = u32_array (drop (unat (hh_upper_offset h)) bytes) (unat (hh_upper_link_count h)) in
     rbind (validate_nodes levels offsets layer0 upper h [0..<n]) (\<lambda>_.
     rbind (guard_throw (n > 0 \<and> levels ! unat (hh_entry_point h) \<noteq> unat (hh_max_level h)) CorruptionError) (\<lambda>_.
     rbind (hn_new ac (hh_metric h) (hh_config h) kn) (\<lambda>ix.
     Inr (hn_restore ix levels layer0 upper offsets (unat (hh_entry_point h)) (unat (hh_max_level h))
            (unat (hh_live_count h)) (hh_rng_state h)))))))))))"

definition verify_hnsw_file_payload :: "byte list \<Rightarrow> bool result" where
  "verify_hnsw_file_payload bytes =
     rbind (parse_hnsw_file_header bytes (word_of_nat (length bytes))) (\<lambda>h.
     let payload_size = hh_total_size h - 128 in
     Inr (crc32 (subspan bytes 128 payload_size) 0 = hh_payload_crc h))"

section \<open>What the validation pass checks\<close>

lemma validate_links_iff:
  "validate_links levels n arr base node layer is = Inr () \<longleftrightarrow>
   (\<forall>i\<in>set is. arr ! (base + 1 + i) < n \<and> arr ! (base + 1 + i) \<noteq> node \<and> layer \<le> levels ! (arr ! (base + 1 + i)))"
  by (induction "is") (auto simp: Let_def result_simps not_le not_less)

lemma validate_upper_iff:
  "validate_upper levels n c upper off node ls = Inr () \<longleftrightarrow>
   (\<forall>layer\<in>set ls. validate_block levels n upper (off + (layer - 1) * (hc_m c + 1)) (hc_m c) node layer = Inr ())"
  by (induction ls) (auto simp: result_simps)

lemma block_valid:
  assumes "hn_node ix node layer"
  shows "validate_block (hn_node_level ix) (hn_size ix) (if layer = 0 then hn_layer0_links ix else hn_upper_links ix)
      (link_addr ix node layer) b node layer = Inr () \<longleftrightarrow>
    hn_peek ix node layer 0 \<le> b \<and> (\<forall>j\<in>set (neighbours ix node layer). hn_node ix j layer \<and> j \<noteq> node)"
  using assms
  by (auto simp: validate_block_def Let_def result_simps validate_links_iff neighbours_node hn_peek_def hn_node_def
      add.assoc not_le not_less split: if_splits)

text \<open>What one node's blocks must satisfy, over the index the loader builds.\<close>

definition hn_node_valid :: "hnsw_index \<Rightarrow> local_id \<Rightarrow> bool" where
  "hn_node_valid ix i \<longleftrightarrow> hn_node_level ix ! i \<le> hn_max_level ix \<and>
     (hn_node_level ix ! i = 0 \<longrightarrow> hn_upper_offsets ix ! i = kNoUpperLinks) \<and>
     (0 < hn_node_level ix ! i \<longrightarrow> hn_upper_offsets ix ! i \<noteq> kNoUpperLinks \<and>
        hn_upper_offsets ix ! i + hn_node_level ix ! i * upper_stride ix \<le> length (hn_upper_links ix)) \<and>
     (\<forall>layer\<le>hn_node_level ix ! i. hn_peek ix i layer 0 \<le> max_neighbours (hn_config ix) layer \<and>
        (\<forall>j\<in>set (neighbours ix i layer). hn_node ix j layer \<and> j \<noteq> i))"

lemma all_layers: "(\<forall>layer\<le>n. P layer) \<longleftrightarrow> P 0 \<and> (\<forall>layer\<in>{1..n}. P layer)" for n :: nat
proof -
  have "{..n} = insert 0 {1..n}" by auto
  then show ?thesis by (metis atMost_iff insert_iff)
qed

lemma validate_nodes_iff:
  assumes "unat (hh_node_count h) = hn_size ix" "hh_config h = hn_config ix" "unat (hh_max_level h) = hn_max_level ix"
    "unat (hh_upper_link_count h) = length (hn_upper_links ix)" "\<forall>i\<in>set ns. i < hn_size ix"
  shows "validate_nodes (hn_node_level ix) (hn_upper_offsets ix) (hn_layer0_links ix) (hn_upper_links ix) h ns = Inr () \<longleftrightarrow>
    (\<forall>i\<in>set ns. hn_node_valid ix i)"
  using assms(5)
proof (induction ns)
  case (Cons i ns)
  let ?l = "hn_node_level ix ! i"
  let ?B = "\<lambda>layer. hn_peek ix i layer 0 \<le> max_neighbours (hn_config ix) layer \<and>
      (\<forall>j\<in>set (neighbours ix i layer). hn_node ix j layer \<and> j \<noteq> i)"
  have i: "hn_node ix i layer" if "layer \<le> ?l" for layer using Cons.prems that by (simp add: hn_node_def)
  have b0: "validate_block (hn_node_level ix) (hn_size ix) (hn_layer0_links ix)
      (i * (max_m0 (hn_config ix) + 1)) (max_m0 (hn_config ix)) i 0 = Inr () \<longleftrightarrow> ?B 0"
    using block_valid [OF i [of 0], of "max_m0 (hn_config ix)"]
    by (simp add: link_addr_def layer0_stride_def max_neighbours_def)
  have bu: "validate_upper (hn_node_level ix) (hn_size ix) (hn_config ix) (hn_upper_links ix) (hn_upper_offsets ix ! i) i
      [1..<?l + 1] = Inr () \<longleftrightarrow> (\<forall>layer\<in>{1..?l}. ?B layer)"
    unfolding validate_upper_iff
  proof (rule ball_cong)
    fix layer assume "layer \<in> {1..?l}"
    then show "validate_block (hn_node_level ix) (hn_size ix) (hn_upper_links ix)
        (hn_upper_offsets ix ! i + (layer - 1) * (hc_m (hn_config ix) + 1)) (hc_m (hn_config ix)) i layer = Inr () \<longleftrightarrow> ?B layer"
      using block_valid [OF i [of layer], of "hc_m (hn_config ix)"]
      by (simp add: link_addr_def upper_stride_def max_neighbours_def)
  qed auto
  have all: "(\<forall>layer\<le>?l. ?B layer) \<longleftrightarrow> ?B 0 \<and> (\<forall>layer\<in>{1..?l}. ?B layer)"
    by (rule all_layers)
  have v: "hn_node_valid ix i \<longleftrightarrow> ?l \<le> hn_max_level ix \<and> ?B 0 \<and>
      (if ?l = 0 then hn_upper_offsets ix ! i = kNoUpperLinks
       else hn_upper_offsets ix ! i \<noteq> kNoUpperLinks \<and>
         hn_upper_offsets ix ! i + ?l * upper_stride ix \<le> length (hn_upper_links ix) \<and> (\<forall>layer\<in>{1..?l}. ?B layer))"
    unfolding hn_node_valid_def all by (cases "?l = 0") (simp_all add: conj_ac)
  have IH: "validate_nodes (hn_node_level ix) (hn_upper_offsets ix) (hn_layer0_links ix) (hn_upper_links ix) h ns = Inr () \<longleftrightarrow>
      (\<forall>i\<in>set ns. hn_node_valid ix i)"
    using Cons.IH Cons.prems by simp
  have e: "validate_nodes (hn_node_level ix) (hn_upper_offsets ix) (hn_layer0_links ix) (hn_upper_links ix) h (i # ns) = Inr () \<longleftrightarrow>
      \<not> ?l > hn_max_level ix \<and> ?B 0 \<and>
      (if ?l = 0 then hn_upper_offsets ix ! i = kNoUpperLinks
       else \<not> (hn_upper_offsets ix ! i = kNoUpperLinks \<or>
         hn_upper_offsets ix ! i + ?l * (hc_m (hn_config ix) + 1) > length (hn_upper_links ix)) \<and> (\<forall>layer\<in>{1..?l}. ?B layer)) \<and>
      (\<forall>i\<in>set ns. hn_node_valid ix i)"
    unfolding validate_nodes.simps Let_def assms(1-4) IH [symmetric] b0 [symmetric] bu [symmetric]
    by (cases "?l = 0") (simp_all only: rbind_unit_iff guard_throw_Inr_iff if_True if_False simp_thms)
  show ?case
    unfolding e list.set ball_simps v upper_stride_def by (cases "?l = 0") (simp_all only: if_True if_False not_less de_Morgan_disj conj_assoc)
qed simp

section \<open>Headers\<close>

text \<open>What an accepted header satisfies, besides its size and checksum.\<close>

definition hh_valid :: "hnsw_file_header \<Rightarrow> bool" where
  "hh_valid h \<longleftrightarrow> hh_format_version h = kHnswFileVersion \<and> hh_dimension h \<noteq> 0 \<and>
     unat (hh_dimension h) \<le> kMaxDimension \<and> unat (hh_node_count h) \<le> kMaxVectorCount \<and>
     hh_live_count h \<le> hh_node_count h \<and> hc_validate (hh_config h) = Inr () \<and>
     hc_ef_construction (hh_config h) < 2 ^ 32 \<and> hc_ef_search (hh_config h) < 2 ^ 32 \<and>
     unat (hh_layer0_link_count h) = unat (hh_node_count h) * (max_m0 (hh_config h) + 1) \<and>
     unat (hh_max_level h) \<le> 254 \<and>
     (if hh_node_count h = 0 then unat (hh_entry_point h) = kInvalidLocalId
      else unat (hh_entry_point h) < unat (hh_node_count h))"

lemma config_word:
  assumes "hc_validate c = Inr ()"
  shows "unat (word_of_nat (max_m0 c + 1) :: u64) = max_m0 c + 1" "unat (word_of_nat (hc_m c) :: u32) = hc_m c" "max_m0 c \<le> 1024"
proof -
  have m: "hc_m c \<le> 512" using assms by (auto simp: hc_validate_def guard_throw_def rbind_def split: if_splits)
  show "unat (word_of_nat (max_m0 c + 1) :: u64) = max_m0 c + 1" "unat (word_of_nat (hc_m c) :: u32) = hc_m c"
    "max_m0 c \<le> 1024" using m by (simp_all only: unat_of_nat) (simp_all add: max_m0_def)
qed

lemma u32_range: "unat (w :: u32) < 4294967296"
  using unsigned_less [of w] by simp

lemma u64_range: "unat (w :: u64) < 18446744073709551616"
  using unsigned_less [of w] by simp

lemma unat_widen: "unat (ucast (x :: u32) :: u64) = unat x"
proof -
  have "unat x < 2 ^ 64" using u32_range [of x] by simp
  then show ?thesis by (simp add: unsigned_ucast_eq take_bit_nat_eq_self)
qed

lemma guard_throw_if: "(if c then guard_throw a e else guard_throw b e) = guard_throw (c \<and> a \<or> \<not> c \<and> b) e"
  by simp

lemma parse_hnsw_accepts:
  assumes "parse_hnsw_file_header bytes fsize = Inr h"
  shows "hh_valid h" "fsize = hh_total_size h" "kHnswFileHeaderSize \<le> length bytes"
    "de32 (take 4 (drop kHnswHeaderCrcOffset bytes)) = crc32 (take kHnswHeaderCrcOffset bytes) 0"
proof -
  have "kHnswFileHeaderSize \<le> length bytes \<and> fsize = hh_total_size h \<and>
    de32 (take 4 (drop kHnswHeaderCrcOffset bytes)) = crc32 (take kHnswHeaderCrcOffset bytes) 0 \<and>
    hh_format_version h = kHnswFileVersion \<and> hh_dimension h \<noteq> 0 \<and>
    unat (hh_dimension h) \<le> kMaxDimension \<and> unat (hh_node_count h) \<le> kMaxVectorCount \<and>
    hh_live_count h \<le> hh_node_count h \<and> hc_validate (hh_config h) = Inr () \<and>
    hc_ef_construction (hh_config h) < 2 ^ 32 \<and> hc_ef_search (hh_config h) < 2 ^ 32 \<and>
    checked_multiply (hh_node_count h) (word_of_nat (max_m0 (hh_config h) + 1)) = Inr (hh_layer0_link_count h) \<and>
    hh_max_level h \<le> 254 \<and>
    (if hh_node_count h = 0 then unat (hh_entry_point h) = kInvalidLocalId
     else ucast (hh_entry_point h) < hh_node_count h)"
    using assms unfolding parse_hnsw_file_header_def Let_def
    unfolding guard_throw_if
    by (clarsimp simp: result_simps not_le not_less u32_range simp del: metric_of_code.simps split: if_splits prod.splits) auto
  then show "hh_valid h" "fsize = hh_total_size h" "kHnswFileHeaderSize \<le> length bytes"
    "de32 (take 4 (drop kHnswHeaderCrcOffset bytes)) = crc32 (take kHnswHeaderCrcOffset bytes) 0"
    using config_word(1) [of "hh_config h"] checked_multiply_Inr [of "hh_node_count h" "word_of_nat (max_m0 (hh_config h) + 1)"]
    by (auto simp: hh_valid_def word_le_nat_alt word_less_nat_alt unat_widen split: if_splits)
qed

section \<open>Headers round trip\<close>

text \<open>The bytes of a header, field by field.\<close>

definition hh_bytes :: "hnsw_file_header \<Rightarrow> byte list" where
  "hh_bytes h = ascii ''VDBHNSW'' @ [0] @ le32 (hh_format_version h) @ le32 (hh_dimension h) @
     le64 (hh_node_count h) @ le64 (hh_live_count h) @ le32 (word_of_nat (hc_m (hh_config h))) @
     le32 (word_of_nat (hc_ef_construction (hh_config h))) @ le32 (word_of_nat (hc_ef_search (hh_config h))) @
     le32 (hh_entry_point h) @ le64 (hc_seed (hh_config h)) @ le64 (hh_rng_state h) @ le32 (hh_max_level h) @
     [word_of_nat (metric_code (hh_metric h))] @ replicate 3 0 @ le64 (hh_layer0_link_count h) @
     le64 (hh_upper_link_count h) @ le32 (hh_payload_crc h) @ replicate 32 0"

lemma length_hh_bytes [simp]: "length (hh_bytes h) = 124"
  by (simp add: hh_bytes_def ascii_def)

lemma hnsw_magic_read:
  "get_fixed_string (rd_at [] (ascii ''VDBHNSW'' @ 0 # rest)) 8 =
   Inr (kHnswFileMagic, rd_at (ascii ''VDBHNSW'' @ [0]) rest)"
proof -
  have "0 \<notin> set (ascii ''VDBHNSW'')" by (simp add: ascii_def)
  then show ?thesis
    using get_fixed_string_at [of "ascii ''VDBHNSW''" 8 "[]" rest] by (simp add: ascii_def kHnswFileMagic_def)
qed

lemma metric_byte: "unat (word_of_nat (metric_code m) :: u8) = metric_code m"
  using metric_code_le [of m] by (simp add: unat_of_nat)

lemma parse_built_header:
  assumes v: "hh_valid h"
  shows "parse_hnsw_file_header ((hh_bytes h @ le32 (crc32 (hh_bytes h) 0)) @ rest) (hh_total_size h) =
    Inr (h\<lparr>hh_header_crc := crc32 (hh_bytes h) 0\<rparr>)"
proof -
  let ?bytes = "(hh_bytes h @ le32 (crc32 (hh_bytes h) 0)) @ rest" and ?c = "hh_config h"
  have t: "take 128 ?bytes = hh_bytes h @ le32 (crc32 (hh_bytes h) 0)" "take 124 ?bytes = hh_bytes h"
    "take 4 (drop 124 ?bytes) = le32 (crc32 (hh_bytes h) 0)" "\<not> length ?bytes < 128"
    by simp_all
  have cfg: "\<lparr>hc_m = unat (word_of_nat (hc_m ?c) :: u32), hc_ef_construction = unat (word_of_nat (hc_ef_construction ?c) :: u32),
      hc_ef_search = unat (word_of_nat (hc_ef_search ?c) :: u32), hc_seed = hc_seed ?c\<rparr> = ?c"
    using v config_word(2) [of ?c] by (simp add: hh_valid_def unat_of_nat)
  have l0: "checked_multiply (hh_node_count h) (word_of_nat (max_m0 ?c + 1)) = Inr (hh_layer0_link_count h)"
  proof -
    have w: "unat (word_of_nat (max_m0 ?c + 1) :: u64) = max_m0 ?c + 1" "max_m0 ?c \<le> 1024"
      using v by (auto simp only: hh_valid_def intro: config_word)
    have e: "unat (hh_layer0_link_count h) = unat (hh_node_count h) * unat (word_of_nat (max_m0 ?c + 1) :: u64)"
      unfolding w(1) using v by (simp add: hh_valid_def)
    then have "unat (hh_node_count h) * unat (word_of_nat (max_m0 ?c + 1) :: u64) < 2 ^ 64"
      using u64_range [of "hh_layer0_link_count h"] by simp
    moreover from this e have "hh_node_count h * word_of_nat (max_m0 ?c + 1) = hh_layer0_link_count h"
      by (simp add: word_unat_eq_iff unat_word_ariths del: of_nat_add)
    ultimately show ?thesis using checked_multiply_ok by simp
  qed
  have en: "(if hh_node_count h = 0 then guard_throw (unat (hh_entry_point h) \<noteq> kInvalidLocalId) CorruptionError
      else guard_throw (ucast (hh_entry_point h) \<ge> hh_node_count h) CorruptionError) = Inr ()"
    unfolding guard_throw_if guard_throw_Inr_iff using v
    by (cases "hh_node_count h = 0") (simp_all add: hh_valid_def word_le_nat_alt unat_widen)
  have ts: "hh_total_size (h\<lparr>hh_header_crc := c\<rparr>) = hh_total_size h" for c
    by (simp add: hh_total_size_def hh_upper_offset_def hh_layer0_offset_def hh_offsets_offset_def hh_levels_offset_def)
  have mc: "\<not> metric_code (hh_metric h) > metric_code InnerProduct" using metric_code_le [of "hh_metric h"] by simp
  have ml: "\<not> hh_max_level h > 254" using v by (simp add: hh_valid_def word_less_nat_alt not_less)
  have lc: "\<not> hh_node_count h < hh_live_count h" using v by (simp add: hh_valid_def not_less)
  have built: "\<lparr>hh_format_version = kHnswFileVersion, hh_dimension = hh_dimension h, hh_metric = hh_metric h,
      hh_config = ?c, hh_node_count = hh_node_count h, hh_live_count = hh_live_count h,
      hh_layer0_link_count = hh_layer0_link_count h, hh_upper_link_count = hh_upper_link_count h,
      hh_entry_point = hh_entry_point h, hh_max_level = hh_max_level h, hh_rng_state = hh_rng_state h,
      hh_payload_crc = hh_payload_crc h, hh_header_crc = c\<rparr> = h\<lparr>hh_header_crc := c\<rparr>" for c
    using v by (cases h) (simp add: hh_valid_def)
  obtain C where C: "crc32 (hh_bytes h) 0 = C" by simp
  have rd: "rd_new (hh_bytes h @ le32 C) = rd_at [] (ascii ''VDBHNSW'' @ 0 # le32 (hh_format_version h) @
      le32 (hh_dimension h) @ le64 (hh_node_count h) @ le64 (hh_live_count h) @ le32 (word_of_nat (hc_m ?c)) @
      le32 (word_of_nat (hc_ef_construction ?c)) @ le32 (word_of_nat (hc_ef_search ?c)) @ le32 (hh_entry_point h) @
      le64 (hc_seed ?c) @ le64 (hh_rng_state h) @ le32 (hh_max_level h) @
      word_of_nat (metric_code (hh_metric h)) # replicate 3 0 @ le64 (hh_layer0_link_count h) @
      le64 (hh_upper_link_count h) @ le32 (hh_payload_crc h) @ replicate 32 0 @ le32 C)"
    by (simp add: rd_new_at hh_bytes_def)
  show ?thesis
    unfolding parse_hnsw_file_header_def kHnswFileHeaderSize_def kHnswHeaderCrcOffset_def t Let_def if_not_P [OF t(4)]
    unfolding C rd using v mc l0 en ts [of C] ml lc unfolding hh_valid_def
    by (simp add: hnsw_magic_read rd_skip_at metric_byte cfg built
        del: metric_of_code.simps metric_code.simps of_nat_add)
qed

section \<open>Offsets\<close>

text \<open>Below the largest vector the 64-bit offsets are the natural ones.\<close>

definition hh_nat_size :: "hnsw_file_header \<Rightarrow> nat" where
  "hh_nat_size h = 128 + unat (hh_node_count h) * 5 + unat (hh_layer0_link_count h) * 4 + unat (hh_upper_link_count h) * 4"

lemma hnsw_offsets:
  assumes v: "hh_valid h" and u: "unat (hh_upper_link_count h) \<le> vector_max_size"
  shows "unat (hh_levels_offset h) = 128"
    and "unat (hh_offsets_offset h) = 128 + unat (hh_node_count h)"
    and "unat (hh_layer0_offset h) = 128 + unat (hh_node_count h) * 5"
    and "unat (hh_upper_offset h) = 128 + unat (hh_node_count h) * 5 + unat (hh_layer0_link_count h) * 4"
    and "unat (hh_total_size h) = hh_nat_size h"
    and "unat (hh_layer0_link_count h) \<le> vector_max_size"
proof -
  let ?n = "unat (hh_node_count h)" and ?l = "unat (hh_layer0_link_count h)" and ?u = "unat (hh_upper_link_count h)"
  have n: "?n < 2 ^ 32" using v by (simp add: hh_valid_def kMaxVectorCount_def)
  have "?n * (max_m0 (hh_config h) + 1) \<le> 2 ^ 32 * 1025"
    using n v config_word(3) [of "hh_config h"] by (intro mult_le_mono) (simp_all add: hh_valid_def)
  then have l: "?l \<le> 2 ^ 32 * 1025" using v by (simp add: hh_valid_def)
  show "?l \<le> vector_max_size" using l by (simp add: vector_max_size_def)
  have w: "hh_node_count h = word_of_nat ?n" "hh_layer0_link_count h = word_of_nat ?l" "hh_upper_link_count h = word_of_nat ?u"
    by simp_all
  have e: "hh_levels_offset h = word_of_nat 128" "hh_offsets_offset h = word_of_nat (128 + ?n)"
    "hh_layer0_offset h = word_of_nat (128 + ?n * 5)" "hh_upper_offset h = word_of_nat (128 + ?n * 5 + ?l * 4)"
    "hh_total_size h = word_of_nat (hh_nat_size h)"
    by (simp_all add: hh_levels_offset_def hh_offsets_offset_def hh_layer0_offset_def hh_upper_offset_def
        hh_total_size_def hh_nat_size_def algebra_simps)
  have u64: "unat (word_of_nat m :: u64) = m" if "m < 2 ^ 64" for m using that by (simp add: unat_of_nat)
  have "hh_nat_size h < 2 ^ 64" using n l u by (simp add: hh_nat_size_def vector_max_size_def)
  then show "unat (hh_levels_offset h) = 128" "unat (hh_offsets_offset h) = 128 + ?n"
    "unat (hh_layer0_offset h) = 128 + ?n * 5" "unat (hh_upper_offset h) = 128 + ?n * 5 + ?l * 4"
    "unat (hh_total_size h) = hh_nat_size h"
    unfolding e by (intro u64; simp add: hh_nat_size_def)+
qed

section \<open>An accepted file\<close>

lemma new_config:
  "hn_new ac m c kn = Inr ix \<Longrightarrow> hn_accessor ix = ac \<and> hn_metric ix = m \<and> hn_config ix = c \<and> hn_kernel ix = kn"
  by (auto simp: hn_new_def result_simps)

lemma restore_fields [simp]:
  "hn_node_level (hn_restore ix ls l0 up off e mx lv st) = ls" "hn_layer0_links (hn_restore ix ls l0 up off e mx lv st) = l0"
  "hn_upper_links (hn_restore ix ls l0 up off e mx lv st) = up" "hn_upper_offsets (hn_restore ix ls l0 up off e mx lv st) = off"
  "hn_entry_point (hn_restore ix ls l0 up off e mx lv st) = e" "hn_max_level (hn_restore ix ls l0 up off e mx lv st) = mx"
  "hn_live_count (hn_restore ix ls l0 up off e mx lv st) = lv" "hn_rng (hn_restore ix ls l0 up off e mx lv st) = rng_new st"
  "hn_accessor (hn_restore ix ls l0 up off e mx lv st) = hn_accessor ix" "hn_metric (hn_restore ix ls l0 up off e mx lv st) = hn_metric ix"
  "hn_config (hn_restore ix ls l0 up off e mx lv st) = hn_config ix" "hn_kernel (hn_restore ix ls l0 up off e mx lv st) = hn_kernel ix"
  by (simp_all add: hn_restore_def)

lemma read_accepts:
  assumes r: "read_hnsw_file bytes ac m d kn = Inr ix" and len: "length bytes < 2 ^ 64"
  obtains h where "parse_hnsw_file_header bytes (word_of_nat (length bytes)) = Inr h" "hh_valid h"
    "length bytes = hh_nat_size h" "hn_config ix = hh_config h" "hn_accessor ix = ac" "hn_metric ix = m"
    "hn_kernel ix = kn" "hn_size ix = unat (hh_node_count h)" "hn_size ix = ac_size ac"
    "hn_entry_point ix = unat (hh_entry_point h)" "hn_max_level ix = unat (hh_max_level h)"
    "length (hn_layer0_links ix) = unat (hh_layer0_link_count h)"
    "length (hn_upper_links ix) = unat (hh_upper_link_count h)" "length (hn_upper_offsets ix) = hn_size ix"
    "\<forall>i<hn_size ix. hn_node_valid ix i" "0 < hn_size ix \<longrightarrow> hn_node_level ix ! hn_entry_point ix = hn_max_level ix"
    "unat (hh_dimension h) = d" "hn_live_count ix = unat (hh_live_count h)"
proof -
  obtain h jx where p: "parse_hnsw_file_header bytes (word_of_nat (length bytes)) = Inr h"
    and g: "hh_metric h = m" "unat (hh_dimension h) = d" "unat (hh_node_count h) = ac_size ac"
      "unat (hh_upper_link_count h) \<le> vector_max_size"
    and nw: "hn_new ac (hh_metric h) (hh_config h) kn = Inr jx"
    and ix: "ix = hn_restore jx (u8_array (drop (unat (hh_levels_offset h)) bytes) (unat (hh_node_count h)))
      (u32_array (drop (unat (hh_layer0_offset h)) bytes) (unat (hh_layer0_link_count h)))
      (u32_array (drop (unat (hh_upper_offset h)) bytes) (unat (hh_upper_link_count h)))
      (u32_array (drop (unat (hh_offsets_offset h)) bytes) (unat (hh_node_count h)))
      (unat (hh_entry_point h)) (unat (hh_max_level h)) (unat (hh_live_count h)) (hh_rng_state h)"
    and vn: "validate_nodes (hn_node_level ix) (hn_upper_offsets ix) (hn_layer0_links ix) (hn_upper_links ix) h
      [0..<unat (hh_node_count h)] = Inr ()"
    and en: "0 < unat (hh_node_count h) \<longrightarrow> hn_node_level ix ! unat (hh_entry_point h) = unat (hh_max_level h)"
    using r by (auto simp: read_hnsw_file_def Let_def rbind_Inr_iff guard_throw_Inr_iff not_less)
  note v = parse_hnsw_accepts(1) [OF p]
  note off = hnsw_offsets [OF v g(4)]
  have "unat (word_of_nat (length bytes) :: u64) = length bytes" using len by (simp add: unat_of_nat)
  then have size: "length bytes = hh_nat_size h" using parse_hnsw_accepts(2) [OF p] off(5) by simp
  have n: "hn_size ix = unat (hh_node_count h)"
    unfolding hn_size_def ix using size off(1) by (simp add: u8_array_def hh_nat_size_def)
  have f: "hn_config ix = hh_config h" "hn_accessor ix = ac" "hn_metric ix = m" "hn_kernel ix = kn"
    "hn_entry_point ix = unat (hh_entry_point h)" "hn_max_level ix = unat (hh_max_level h)"
    "length (hn_layer0_links ix) = unat (hh_layer0_link_count h)"
    "length (hn_upper_links ix) = unat (hh_upper_link_count h)" "length (hn_upper_offsets ix) = hn_size ix"
    "hn_live_count ix = unat (hh_live_count h)"
    using new_config [OF nw] g(1) n by (simp_all add: ix u32_array_def)
  have "\<forall>i<hn_size ix. hn_node_valid ix i"
    using vn validate_nodes_iff [of h ix "[0..<hn_size ix]"] n f by simp
  then show ?thesis using p v size f n g en by (intro that) simp_all
qed

lemma loaded_graph:
  assumes "read_hnsw_file bytes ac m d kn = Inr ix" and "length bytes < 2 ^ 64"
  shows "hn_graph ix"
    and "hn_node ix i l \<Longrightarrow> link_addr ix i l + hn_stride ix l \<le>
      (if l = 0 then length (hn_layer0_links ix) else length (hn_upper_links ix)) \<and>
      length (neighbours ix i l) \<le> max_neighbours (hn_config ix) l \<and> i \<notin> set (neighbours ix i l)"
proof -
  obtain h where h: "hh_valid h" "hn_config ix = hh_config h" "hn_size ix = unat (hh_node_count h)"
    "hn_entry_point ix = unat (hh_entry_point h)" "hn_max_level ix = unat (hh_max_level h)"
    "length (hn_layer0_links ix) = unat (hh_layer0_link_count h)"
    and nv: "\<forall>i<hn_size ix. hn_node_valid ix i"
    and en: "0 < hn_size ix \<longrightarrow> hn_node_level ix ! hn_entry_point ix = hn_max_level ix"
    by (rule read_accepts [OF assms])
  have valid: "hn_peek ix i l 0 \<le> max_neighbours (hn_config ix) l \<and> (\<forall>j\<in>set (neighbours ix i l). hn_node ix j l \<and> j \<noteq> i)"
    if "hn_node ix i l" for i l
  proof -
    have "hn_node_valid ix i" "l \<le> hn_node_level ix ! i" using nv that by (simp_all add: hn_node_def)
    then show ?thesis unfolding hn_node_valid_def by blast
  qed
  have "hn_links_ok ix"
    unfolding hn_links_ok_def
  proof (intro allI ballI)
    fix i l j assume j: "j \<in> set (neighbours ix i l)"
    then have "hn_node ix i l" using neighbours_not_node [of ix i l] by (cases "hn_node ix i l") simp_all
    then show "hn_node ix j l" using valid j by blast
  qed
  moreover have "hn_entry_ok ix"
    using h(1,3,4,5) en by (simp add: hn_entry_ok_def hh_valid_def hn_node_def unat_gt_0 split: if_splits)
  ultimately show "hn_graph ix" by (simp add: hn_graph_def)
  show "link_addr ix i l + hn_stride ix l \<le> (if l = 0 then length (hn_layer0_links ix) else length (hn_upper_links ix)) \<and>
      length (neighbours ix i l) \<le> max_neighbours (hn_config ix) l \<and> i \<notin> set (neighbours ix i l)" if i: "hn_node ix i l"
  proof -
    have "link_addr ix i l + hn_stride ix l \<le> (if l = 0 then length (hn_layer0_links ix) else length (hn_upper_links ix))"
    proof (cases "l = 0")
      case True
      have "Suc i * layer0_stride ix \<le> hn_size ix * layer0_stride ix" using i by (intro mult_le_mono1) (simp add: hn_node_def)
      then show ?thesis using True h(1,2,3,6) by (simp add: link_addr_def strides hh_valid_def layer0_stride_def)
    next
      case False
      have "hn_node_valid ix i" using nv i by (simp add: hn_node_def)
      then have u: "hn_upper_offsets ix ! i + hn_node_level ix ! i * upper_stride ix \<le> length (hn_upper_links ix)"
        using i False by (simp add: hn_node_def hn_node_valid_def)
      have "Suc (l - 1) * upper_stride ix \<le> hn_node_level ix ! i * upper_stride ix"
        using i False by (intro mult_le_mono1) (simp add: hn_node_def)
      then have "hn_upper_offsets ix ! i + (l - 1) * upper_stride ix + upper_stride ix \<le> length (hn_upper_links ix)"
        using u by (simp only: mult_Suc)
      then show ?thesis using False by (simp add: link_addr_def strides)
    qed
    moreover have "i \<notin> set (neighbours ix i l)" using valid [OF i] by blast
    ultimately show ?thesis using valid [OF i] i by (simp add: neighbours_node)
  qed
qed

section \<open>Write, then read\<close>

definition hh_of :: "hnsw_index \<Rightarrow> nat \<Rightarrow> hnsw_file_header" where
  "hh_of ix d = \<lparr>hh_format_version = kHnswFileVersion, hh_dimension = word_of_nat d, hh_metric = hn_metric ix,
     hh_config = hn_config ix, hh_node_count = word_of_nat (hn_size ix), hh_live_count = word_of_nat (hn_live_count ix),
     hh_layer0_link_count = word_of_nat (length (hn_layer0_links ix)),
     hh_upper_link_count = word_of_nat (length (hn_upper_links ix)), hh_entry_point = word_of_nat (hn_entry_point ix),
     hh_max_level = word_of_nat (hn_max_level ix), hh_rng_state = hn_rng_state ix,
     hh_payload_crc = hnsw_payload_crc ix, hh_header_crc = 0\<rparr>"

lemma header_bytes: "hnsw_header_124 ix d (hnsw_payload_crc ix) = hh_bytes (hh_of ix d)"
  by (simp add: hnsw_header_124_def hh_bytes_def hh_of_def Let_def put_le put_fixed_string_def kHnswFileMagic_def
      ascii_def hn_size_def)

text \<open>What a file can hold: the fields that are narrower in the header than in memory fit.\<close>

definition hn_storable :: "hnsw_index \<Rightarrow> nat \<Rightarrow> bool" where
  "hn_storable ix d \<longleftrightarrow> hn_wf ix \<and> 0 < d \<and> d \<le> kMaxDimension \<and> hc_ef_construction (hn_config ix) < 2 ^ 32 \<and>
     hc_ef_search (hn_config ix) < 2 ^ 32 \<and> length (hn_upper_links ix) < 2 ^ 32"

lemma storable_header:
  assumes "hn_storable ix d"
  shows "hh_valid (hh_of ix d)" and "unat (hh_upper_link_count (hh_of ix d)) = length (hn_upper_links ix)"
    and "unat (hh_layer0_link_count (hh_of ix d)) = length (hn_layer0_links ix)"
    and "unat (hh_node_count (hh_of ix d)) = hn_size ix" and "unat (hh_live_count (hh_of ix d)) = hn_live_count ix"
    and "unat (hh_entry_point (hh_of ix d)) = hn_entry_point ix" and "unat (hh_max_level (hh_of ix d)) = hn_max_level ix"
    and "unat (hh_dimension (hh_of ix d)) = d"
proof -
  have wf: "hn_shape ix" "hc_validate (hn_config ix) = Inr ()" "hn_entry_ok ix" "hn_max_level ix \<le> 254" "hn_live_count ix \<le> hn_size ix"
    and b: "0 < d" "d \<le> kMaxDimension" "hc_ef_construction (hn_config ix) < 2 ^ 32" "hc_ef_search (hn_config ix) < 2 ^ 32"
      "length (hn_upper_links ix) < 2 ^ 32"
    using assms by (simp_all add: hn_storable_def hn_wf_def hn_ok_def)
  have n: "hn_size ix \<le> kMaxVectorCount" and e: "if hn_size ix = 0 then hn_entry_point ix = kInvalidLocalId else hn_entry_point ix < hn_size ix"
    using wf(3) by (simp_all add: hn_entry_ok_def hn_node_def split: if_splits)
  have l0: "length (hn_layer0_links ix) = hn_size ix * (max_m0 (hn_config ix) + 1)"
    using wf(1) by (simp add: hn_shape_def layer0_stride_def)
  have "hn_size ix * (max_m0 (hn_config ix) + 1) \<le> kMaxVectorCount * 1025"
    using n config_word(3) [OF wf(2)] by (intro mult_le_mono) simp_all
  then have l0b: "length (hn_layer0_links ix) < 2 ^ 64" unfolding l0 by (simp add: kMaxVectorCount_def)
  show f: "unat (hh_upper_link_count (hh_of ix d)) = length (hn_upper_links ix)"
    "unat (hh_layer0_link_count (hh_of ix d)) = length (hn_layer0_links ix)"
    "unat (hh_node_count (hh_of ix d)) = hn_size ix" "unat (hh_live_count (hh_of ix d)) = hn_live_count ix"
    "unat (hh_entry_point (hh_of ix d)) = hn_entry_point ix" "unat (hh_max_level (hh_of ix d)) = hn_max_level ix"
    "unat (hh_dimension (hh_of ix d)) = d"
    using b wf n e l0b by (simp_all add: hh_of_def unat_of_nat kMaxVectorCount_def kInvalidLocalId_def kMaxDimension_def split: if_splits)
  have "hh_dimension (hh_of ix d) \<noteq> 0" using f(7) b(1) by (metis unat_0 less_irrefl)
  moreover have "hh_live_count (hh_of ix d) \<le> hh_node_count (hh_of ix d)" using f wf(5) by (simp add: word_le_nat_alt)
  moreover have "hh_node_count (hh_of ix d) = 0 \<longleftrightarrow> hn_size ix = 0" using f(3) by (metis unat_eq_zero)
  moreover have "hh_config (hh_of ix d) = hn_config ix" "hh_format_version (hh_of ix d) = kHnswFileVersion" by (simp_all add: hh_of_def)
  ultimately show "hh_valid (hh_of ix d)" unfolding hh_valid_def f using b wf n e l0 by simp
qed

lemma u32_array_read: "\<forall>x\<in>set xs. x < 2 ^ 32 \<Longrightarrow> u32_array (u32_bytes xs @ rest) (length xs) = xs"
  by (rule nth_equalityI) (simp_all add: u32_array_def u32_bytes_def vf_float_at_nth unat_of_nat)

lemma u8_array_read: "\<forall>x\<in>set xs. x < 256 \<Longrightarrow> u8_array (u8_bytes xs @ rest) (length xs) = xs"
  by (rule nth_equalityI) (simp_all add: u8_array_def u8_bytes_def unat_of_nat)

lemma length_bytes [simp]: "length (u8_bytes xs) = length xs" "length (u32_bytes xs) = 4 * length xs"
  by (simp_all add: u8_bytes_def u32_bytes_def)

lemma wf_node_valid:
  assumes "hn_wf ix" "length (hn_upper_links ix) < 2 ^ 32" "i < hn_size ix"
  shows "hn_node_valid ix i"
proof -
  have shape: "hn_shape ix" and counts: "hn_counts ix" and links: "hn_links_ok ix" and l: "hn_lists ix"
    and mx: "hn_node_level ix ! i \<le> hn_max_level ix"
    using assms by (simp_all add: hn_wf_def hn_ok_def)
  let ?l = "hn_node_level ix ! i" and ?s = "upper_stride ix"
  have off: "hn_upper_offsets ix ! i = (if 0 < ?l then upper_before ix i * ?s else kNoUpperLinks)"
    and len: "length (hn_upper_links ix) = upper_before ix (hn_size ix) * ?s"
    using shape assms(3) by (simp_all add: hn_shape_def)
  have "upper_before ix i + ?l \<le> upper_before ix (hn_size ix)"
    using upper_before_Suc [OF assms(3)] upper_before_mono [of "Suc i" "hn_size ix" ix] assms(3) by simp
  then have "(upper_before ix i + ?l) * ?s \<le> length (hn_upper_links ix)" unfolding len by (rule mult_le_mono1)
  then have end_ok: "upper_before ix i * ?s + ?l * ?s \<le> length (hn_upper_links ix)" by (simp add: add_mult_distrib)
  have "upper_before ix i * ?s \<noteq> kNoUpperLinks" if "0 < ?l"
  proof -
    have "1 \<le> ?l * ?s" using that by (simp add: upper_stride_def)
    moreover have "length (hn_upper_links ix) \<le> kNoUpperLinks" using assms(2) by (simp add: kNoUpperLinks_def)
    ultimately show ?thesis using end_ok by linarith
  qed
  then have o: "?l = 0 \<longrightarrow> hn_upper_offsets ix ! i = kNoUpperLinks"
    "0 < ?l \<longrightarrow> hn_upper_offsets ix ! i \<noteq> kNoUpperLinks \<and> hn_upper_offsets ix ! i + ?l * ?s \<le> length (hn_upper_links ix)"
    using off end_ok by simp_all
  have "hn_peek ix i layer 0 \<le> max_neighbours (hn_config ix) layer \<and> (\<forall>j\<in>set (neighbours ix i layer). hn_node ix j layer \<and> j \<noteq> i)"
    if "layer \<le> ?l" for layer
  proof -
    have "hn_node ix i layer" using that assms(3) by (simp add: hn_node_def)
    then have "hn_peek ix i layer 0 \<le> max_neighbours (hn_config ix) layer" using counts by (simp add: hn_counts_def)
    moreover have "\<forall>j\<in>set (neighbours ix i layer). hn_node ix j layer" using links by (simp add: hn_links_ok_def)
    moreover have "i \<notin> set (neighbours ix i layer)" using l by (simp add: hn_lists_def)
    ultimately show ?thesis by blast
  qed
  then show ?thesis using mx o unfolding hn_node_valid_def by blast
qed

text \<open>The regions of the written file.\<close>

lemma written_regions:
  assumes st: "hn_storable ix d"
  defines "h \<equiv> hh_of ix d" and "bytes \<equiv> concat (hnsw_file_chunks ix d)"
  shows "parse_hnsw_file_header bytes (word_of_nat (length bytes)) = Inr (h\<lparr>hh_header_crc := crc32 (hh_bytes h) 0\<rparr>)"
    and "length bytes = hh_nat_size h"
    and "drop 128 bytes = u8_bytes (hn_node_level ix) @ u32_bytes (hn_upper_offsets ix) @ u32_bytes (hn_layer0_links ix) @
      u32_bytes (hn_upper_links ix)"
proof -
  note f = storable_header [OF st, folded h_def]
  have shape: "hn_shape ix" using st by (simp add: hn_storable_def hn_wf_def hn_ok_def)
  have up: "unat (hh_upper_link_count h) \<le> vector_max_size"
    using f(2) st by (simp add: hn_storable_def vector_max_size_def)
  let ?rest = "u8_bytes (hn_node_level ix) @ u32_bytes (hn_upper_offsets ix) @ u32_bytes (hn_layer0_links ix) @
      u32_bytes (hn_upper_links ix)"
  have b: "bytes = (hh_bytes h @ le32 (crc32 (hh_bytes h) 0)) @ ?rest"
    by (simp add: bytes_def h_def hnsw_file_chunks_def header_bytes put_le kHnswHeaderCrcOffset_def Let_def)
  show "drop 128 bytes = ?rest" unfolding b by simp
  show len: "length bytes = hh_nat_size h"
    unfolding b using f shape by (simp add: hh_nat_size_def hn_shape_def hn_size_def)
  have "word_of_nat (length bytes) = hh_total_size h"
    using hnsw_offsets(5) [OF f(1) up] len by (simp flip: hnsw_offsets(5) [OF f(1) up])
  then show "parse_hnsw_file_header bytes (word_of_nat (length bytes)) = Inr (h\<lparr>hh_header_crc := crc32 (hh_bytes h) 0\<rparr>)"
    unfolding b using parse_built_header [OF f(1)] by simp
qed

lemma written_arrays:
  assumes st: "hn_storable ix d"
  defines "h \<equiv> hh_of ix d" and "bytes \<equiv> concat (hnsw_file_chunks ix d)"
  shows "u8_array (drop (unat (hh_levels_offset h)) bytes) (hn_size ix) = hn_node_level ix"
    and "u32_array (drop (unat (hh_offsets_offset h)) bytes) (hn_size ix) = hn_upper_offsets ix"
    and "u32_array (drop (unat (hh_layer0_offset h)) bytes) (unat (hh_layer0_link_count h)) = hn_layer0_links ix"
    and "u32_array (drop (unat (hh_upper_offset h)) bytes) (unat (hh_upper_link_count h)) = hn_upper_links ix"
proof -
  note f = storable_header [OF st, folded h_def] and d = written_regions(3) [OF st, folded bytes_def]
  have wf: "hn_wf ix" "hn_shape ix" "hn_words ix" and u: "length (hn_upper_links ix) < 2 ^ 32"
    using st by (simp_all add: hn_storable_def hn_wf_def hn_ok_def)
  have up: "unat (hh_upper_link_count h) \<le> vector_max_size" using f(2) u by (simp add: vector_max_size_def)
  note off = hnsw_offsets [OF f(1) up, unfolded f(2-4)]
  have len: "length (hn_upper_offsets ix) = hn_size ix" "length (hn_node_level ix) = hn_size ix"
    using wf(2) by (simp_all add: hn_shape_def hn_size_def)
  have drops: "drop (128 + k) bytes = drop k (drop 128 bytes)" for k by (simp add: add.commute)
  have lv: "\<forall>x\<in>set (hn_node_level ix). x < 256"
  proof
    fix x assume "x \<in> set (hn_node_level ix)"
    then obtain i where "i < hn_size ix" "x = hn_node_level ix ! i" unfolding hn_size_def by (metis in_set_conv_nth)
    then have "x \<le> hn_max_level ix \<and> hn_max_level ix \<le> 254" using wf(1) by (simp add: hn_wf_def)
    then show "x < 256" by simp
  qed
  have ofs: "\<forall>x\<in>set (hn_upper_offsets ix). x < 2 ^ 32"
  proof
    fix x assume "x \<in> set (hn_upper_offsets ix)"
    then obtain i where i: "i < hn_size ix" "x = hn_upper_offsets ix ! i" using len by (metis in_set_conv_nth)
    then show "x < 2 ^ 32"
      using wf_node_valid [OF wf(1) u i(1)] u by (cases "hn_node_level ix ! i = 0") (simp_all add: hn_node_valid_def kNoUpperLinks_def)
  qed
  show "u8_array (drop (unat (hh_levels_offset h)) bytes) (hn_size ix) = hn_node_level ix"
    using u8_array_read [OF lv] by (simp add: off(1) d hn_size_def)
  have "drop (unat (hh_offsets_offset h)) bytes = u32_bytes (hn_upper_offsets ix) @ u32_bytes (hn_layer0_links ix) @ u32_bytes (hn_upper_links ix)"
    unfolding off(2) drops d using len(2) by simp
  then show "u32_array (drop (unat (hh_offsets_offset h)) bytes) (hn_size ix) = hn_upper_offsets ix"
    using u32_array_read [OF ofs] by (simp add: len(1))
  have "drop (unat (hh_layer0_offset h)) bytes = u32_bytes (hn_layer0_links ix) @ u32_bytes (hn_upper_links ix)"
    unfolding off(3) drops d using len by simp
  then show "u32_array (drop (unat (hh_layer0_offset h)) bytes) (unat (hh_layer0_link_count h)) = hn_layer0_links ix"
    using u32_array_read [of "hn_layer0_links ix"] wf(3) by (simp add: f(3) hn_words_def)
  have "drop (unat (hh_upper_offset h)) bytes = u32_bytes (hn_upper_links ix) @ []"
    unfolding off(4) add.assoc drops d using len by simp
  then show "u32_array (drop (unat (hh_upper_offset h)) bytes) (unat (hh_upper_link_count h)) = hn_upper_links ix"
    using u32_array_read [of "hn_upper_links ix" "[]"] wf(3) by (simp add: f(2) hn_words_def)
qed

lemma read_written:
  assumes st: "hn_storable ix d" and ac: "hn_size ix = ac_size (hn_accessor ix)"
  shows "read_hnsw_file (concat (hnsw_file_chunks ix d)) (hn_accessor ix) (hn_metric ix) d (hn_kernel ix) =
    Inr (ix\<lparr>hn_rng := rng_new (hn_rng_state ix)\<rparr>)"
proof -
  let ?h = "hh_of ix d"
  let ?g = "?h\<lparr>hh_header_crc := crc32 (hh_bytes ?h) 0\<rparr>"
  note f = storable_header [OF st] and regions = written_regions [OF st] and arrays = written_arrays [OF st]
  have wf: "hn_wf ix" and u: "length (hn_upper_links ix) < 2 ^ 32" and cfg: "hc_validate (hn_config ix) = Inr ()"
    using st by (simp_all add: hn_storable_def hn_wf_def hn_ok_def)
  have off: "hh_levels_offset ?g = hh_levels_offset ?h" "hh_offsets_offset ?g = hh_offsets_offset ?h"
    "hh_layer0_offset ?g = hh_layer0_offset ?h" "hh_upper_offset ?g = hh_upper_offset ?h"
    by (simp_all add: hh_levels_offset_def hh_offsets_offset_def hh_layer0_offset_def hh_upper_offset_def)
  have up: "unat (hh_upper_link_count ?h) \<le> vector_max_size" using f(2) u by (simp add: vector_max_size_def)
  have valid: "validate_nodes (hn_node_level ix) (hn_upper_offsets ix) (hn_layer0_links ix) (hn_upper_links ix) ?g
      [0..<hn_size ix] = Inr ()"
    using validate_nodes_iff [of ?g ix "[0..<hn_size ix]"] f wf_node_valid [OF wf u] by (simp add: hh_of_def)
  have entry: "\<not> (0 < hn_size ix \<and> hn_node_level ix ! hn_entry_point ix \<noteq> hn_max_level ix)"
  proof (cases "hn_size ix = 0")
    case False
    then have "hn_node ix (hn_entry_point ix) (hn_max_level ix)" using wf by (simp add: hn_wf_def hn_entry_ok_def)
    then show ?thesis using wf by (auto simp: hn_wf_def hn_node_def intro: order_antisym)
  qed simp
  have dims: "hh_metric ?h = hn_metric ix" "hh_config ?h = hn_config ix" "hh_rng_state ?h = hn_rng_state ix"
    by (simp_all add: hh_of_def)
  show ?thesis
    unfolding read_hnsw_file_def regions(1) rbind_simps Let_def off
    using f dims up hnsw_offsets(6) [OF f(1) up] arrays valid entry ac cfg
    by (auto simp: hn_new_def hn_restore_def guard_throw_def)
qed

lemma crc32_append: "crc32 (xs @ ys) seed = crc32 ys (crc32 xs seed)"
  by (simp add: crc32_def)

lemma verify_written:
  assumes st: "hn_storable ix d"
  shows "verify_hnsw_file_payload (concat (hnsw_file_chunks ix d)) = Inr True"
proof -
  let ?h = "hh_of ix d" and ?bytes = "concat (hnsw_file_chunks ix d)"
  let ?g = "?h\<lparr>hh_header_crc := crc32 (hh_bytes ?h) 0\<rparr>"
  note f = storable_header [OF st] and regions = written_regions [OF st]
  have up: "unat (hh_upper_link_count ?h) \<le> vector_max_size"
    using f(2) st by (simp add: hn_storable_def vector_max_size_def)
  have ts: "hh_total_size ?g = hh_total_size ?h"
    by (simp add: hh_total_size_def hh_levels_offset_def hh_offsets_offset_def hh_layer0_offset_def hh_upper_offset_def)
  have "unat (128 :: u64) \<le> unat (hh_total_size ?h)" using hnsw_offsets(5) [OF f(1) up] by (simp add: hh_nat_size_def)
  then have "unat (hh_total_size ?h - 128) = hh_nat_size ?h - 128"
    using hnsw_offsets(5) [OF f(1) up] unat_sub [of "128 :: u64" "hh_total_size ?h"] by (simp add: word_le_nat_alt)
  then have "subspan ?bytes 128 (hh_total_size ?g - 128) = drop 128 ?bytes"
    unfolding ts subspan_def using regions(2) by simp
  moreover have "crc32 (drop 128 ?bytes) 0 = hnsw_payload_crc ix"
    unfolding regions(3) hnsw_payload_crc_def Let_def by (simp add: crc32_append)
  moreover have "hh_payload_crc ?h = hnsw_payload_crc ix" by (simp add: hh_of_def)
  ultimately show ?thesis
    unfolding verify_hnsw_file_payload_def regions(1) rbind_simps Let_def by simp
qed

lemma hn_search_safe:
  assumes g: "hn_graph ix" and v: "vst_inv v" and p: "0 < sp_k params" "length q = ac_dimension (hn_accessor ix)"
  obtains rs v' where "hn_search ix q params v = Inr (rs, v')" "length rs \<le> sp_k params"
    "\<forall>c\<in>set rs. local_id c < hn_size ix \<and> ac_is_live (hn_accessor ix) (local_id c)"
proof (cases "hn_entry_point ix = kInvalidLocalId")
  case True
  then show ?thesis using p that [of "[]" v] by (simp add: hn_search_def)
next
  case False
  obtain found v' where f: "hn_search ix q params v =
       Inr (take (sp_k params) (filter (\<lambda>c. ac_is_live (hn_accessor ix) (local_id c)) found), v')"
    "\<forall>c\<in>set found. key c = hn_dist ix q (hn_query_norm ix q) (local_id c) \<and> local_id c < hn_size ix"
    by (rule hn_search_found [OF g v p False])
  let ?xs = "filter (\<lambda>c. ac_is_live (hn_accessor ix) (local_id c)) found"
  have "set (take (sp_k params) ?xs) \<subseteq> set ?xs" by (rule set_take_subset)
  then have c: "\<forall>c\<in>set (take (sp_k params) ?xs). local_id c < hn_size ix \<and> ac_is_live (hn_accessor ix) (local_id c)"
    using f(2) by auto
  have "length (take (sp_k params) ?xs) \<le> sp_k params" by simp
  then show ?thesis by (rule that [OF f(1) _ c])
qed

section \<open>Damage\<close>

text \<open>A changed byte in the first 128 is noticed.\<close>

section \<open>Examples\<close>

lemma small_storable: "hn_storable small_index 1"
proof -
  have "hn_lists small_index" by (auto simp: hn_lists_def small_neighbours)
  moreover have "hn_words small_index" by (auto simp: hn_words_def small_index_def hn_size_def kInvalidLocalId_def)
  moreover have "hn_links_ok small_index" "hn_entry_ok small_index" using small_graph unfolding hn_graph_def by blast+
  moreover have "\<forall>i<2. hn_node_level small_index ! i = 0" by (auto simp: small_index_def less_Suc_eq numeral_2_eq_2)
  ultimately show ?thesis
    using small_blocks
    by (simp add: hn_storable_def hn_wf_def hn_ok_def kMaxDimension_def)
      (simp add: small_index_def hc_validate_def hc_default_def guard_throw_def rbind_def)
qed

lemma small_file:
  obtains bytes ix where "read_hnsw_file bytes small_accessor L2Squared 1 small_kernel = Inr ix" "length bytes < 2 ^ 64"
    "hn_size ix = 2"
proof -
  have r: "read_hnsw_file (concat (hnsw_file_chunks small_index 1)) small_accessor L2Squared 1 small_kernel =
      Inr (small_index\<lparr>hn_rng := rng_new (hn_rng_state small_index)\<rparr>)"
    using read_written [OF small_storable] by simp
  have "length (concat (hnsw_file_chunks small_index 1)) = hh_nat_size (hh_of small_index 1)"
    by (rule written_regions(2) [OF small_storable])
  also have "\<dots> < 2 ^ 64"
    using storable_header(2-4) [OF small_storable] by (simp add: hh_nat_size_def) (simp add: small_index_def)
  finally have "length (concat (hnsw_file_chunks small_index 1)) < 2 ^ 64" .
  moreover have "hn_size (small_index\<lparr>hn_rng := rng_new (hn_rng_state small_index)\<rparr>) = 2"
    by (simp add: hn_size_def) (simp add: small_index_def)
  ultimately show ?thesis using that r by blast
qed

section \<open>Properties\<close>

text \<open>C7: whatever bytes the loader accepts, the graph it builds is one the search may walk without bounds checks:
  every block lies inside its array and within its budget, every link leads to another node of the same layer, the
  entry point is on the top layer, and there is a node for every slot. So a search of it cannot fail and returns only
  live slots of the store.\<close>

theorem accepted_file_is_safe:
  assumes "read_hnsw_file bytes ac m d kn = Inr ix" and "length bytes < 2 ^ 64" and "vst_inv v"
    and "0 < sp_k params" and "length q = ac_dimension ac"
  shows "hn_graph ix \<and> hn_size ix = ac_size ac \<and>
    (\<forall>i l. hn_node ix i l \<longrightarrow> link_addr ix i l + hn_stride ix l \<le>
        (if l = 0 then length (hn_layer0_links ix) else length (hn_upper_links ix)) \<and>
      length (neighbours ix i l) \<le> max_neighbours (hn_config ix) l \<and> i \<notin> set (neighbours ix i l)) \<and>
    (\<exists>rs v'. hn_search ix q params v = Inr (rs, v') \<and> length rs \<le> sp_k params \<and>
      (\<forall>c\<in>set rs. local_id c < ac_size ac \<and> ac_is_live ac (local_id c)))"
proof -
  obtain f: "hn_size ix = ac_size ac" "hn_accessor ix = ac" by (rule read_accepts [OF assms(1,2)])
  have g: "hn_graph ix" by (rule loaded_graph(1) [OF assms(1,2)])
  obtain rs v' where r: "hn_search ix q params v = Inr (rs, v')" "length rs \<le> sp_k params"
    "\<forall>c\<in>set rs. local_id c < hn_size ix \<and> ac_is_live (hn_accessor ix) (local_id c)"
    by (rule hn_search_safe [OF g assms(3,4)]) (use assms(5) f in simp_all)
  then show ?thesis
    using g f loaded_graph(2) [OF assms(1,2)] by auto
qed

theorem accepted_file_is_safe_witness:
  "\<exists>bytes ix. read_hnsw_file bytes small_accessor L2Squared 1 small_kernel = Inr ix \<and> hn_graph ix"
proof -
  obtain bytes ix where "read_hnsw_file bytes small_accessor L2Squared 1 small_kernel = Inr ix" "length bytes < 2 ^ 64"
    by (rule small_file)
  from this(1) accepted_file_is_safe [OF this, of vst_empty "\<lparr>sp_k = 1, sp_ef_search = 0\<rparr>" "[0]"] show ?thesis by auto
qed

text \<open>C26: saving a well-formed index and loading it over the same vectors gives the same index, all but the state of
  its generator, and its payload checksum verifies.\<close>

theorem hnsw_file_round_trip:
  assumes "hn_storable ix d" and "hn_size ix = ac_size (hn_accessor ix)"
  shows "read_hnsw_file (concat (hnsw_file_chunks ix d)) (hn_accessor ix) (hn_metric ix) d (hn_kernel ix) =
      Inr (ix\<lparr>hn_rng := rng_new (hn_rng_state ix)\<rparr>) \<and>
    verify_hnsw_file_payload (concat (hnsw_file_chunks ix d)) = Inr True"
  using read_written [OF assms] verify_written [OF assms(1)] by (rule conjI)

theorem hnsw_file_round_trip_witness:
  "verify_hnsw_file_payload (concat (hnsw_file_chunks small_index 1)) = Inr True"
  using hnsw_file_round_trip [OF small_storable] by simp

text \<open>Further: damage to any one byte of the header of an accepted index file makes the parser refuse it.\<close>

theorem hnsw_header_damage:
  assumes "parse_hnsw_file_header bytes fsize = Inr h" and "k < 128" and "b \<noteq> bytes ! k"
  shows "\<exists>e. parse_hnsw_file_header (bytes[k := b]) fsize = Inl e"
proof (cases "parse_hnsw_file_header (bytes[k := b]) fsize")
  case (Inr h')
  have "128 \<le> length bytes" "de32 (take 4 (drop 124 bytes)) = crc32 (take 124 bytes) 0"
    using parse_hnsw_accepts(3,4) [OF assms(1)] by (simp_all add: kHnswHeaderCrcOffset_def kHnswFileHeaderSize_def)
  with trailing_crc_sensitive [of 124 bytes k b] assms(2,3) show ?thesis
    using parse_hnsw_accepts(4) [OF Inr] by (simp add: kHnswHeaderCrcOffset_def)
qed simp

theorem hnsw_header_damage_witness:
  "\<exists>bytes e. parse_hnsw_file_header (bytes[20 := bytes ! 20 + 1]) (word_of_nat (length bytes)) = Inl e"
proof -
  obtain bytes ix where r: "read_hnsw_file bytes small_accessor L2Squared 1 small_kernel = Inr ix" "length bytes < 2 ^ 64"
    by (rule small_file)
  then obtain h where h: "parse_hnsw_file_header bytes (word_of_nat (length bytes)) = Inr h" by (rule read_accepts)
  have "bytes ! 20 + 1 \<noteq> bytes ! 20" by simp
  from hnsw_header_damage [OF h _ this] show ?thesis by auto
qed

text \<open>Further: the size check is computed in 64 bits and can be passed by a header whose upper-link count is far beyond the
  file: a file of 128 bytes is accepted by the parser, and loading it fails in the allocation, with an exception that
  is not a corruption error.\<close>

theorem hnsw_size_check_wraps:
  "\<exists>bytes h. length bytes = 128 \<and> parse_hnsw_file_header bytes 128 = Inr h \<and> unat (hh_upper_link_count h) = 2 ^ 62 \<and>
     read_hnsw_file bytes \<lparr>ac_vectors = \<lparr>va_dimension = 1, va_count = 0, va_storage = []\<rparr>, ac_norms = [], ac_live = []\<rparr>
       L2Squared 1 small_kernel = Inl StdException"
proof -
  let ?h = "\<lparr>hh_format_version = kHnswFileVersion, hh_dimension = 1, hh_metric = L2Squared, hh_config = hc_default,
     hh_node_count = 0, hh_live_count = 0, hh_layer0_link_count = 0, hh_upper_link_count = 0x4000000000000000,
     hh_entry_point = 0xFFFFFFFF, hh_max_level = 0, hh_rng_state = 0, hh_payload_crc = 0, hh_header_crc = 0\<rparr>"
  let ?bytes = "hh_bytes ?h @ le32 (crc32 (hh_bytes ?h) 0)"
  have v: "hh_valid ?h"
    by (simp add: hh_valid_def hc_default_def hc_validate_def kMaxDimension_def kMaxVectorCount_def kInvalidLocalId_def)
  have ts: "hh_total_size ?h = 128"
    by (simp add: hh_total_size_def hh_upper_offset_def hh_layer0_offset_def hh_offsets_offset_def hh_levels_offset_def)
  have p: "parse_hnsw_file_header ?bytes 128 = Inr (?h\<lparr>hh_header_crc := crc32 (hh_bytes ?h) 0\<rparr>)"
    using parse_built_header [OF v, of "[]"] unfolding ts by simp
  have len: "length ?bytes = 128" by simp
  have up: "unat (hh_upper_link_count (?h\<lparr>hh_header_crc := c\<rparr>)) = 2 ^ 62" for c by simp
  have r: "read_hnsw_file ?bytes \<lparr>ac_vectors = \<lparr>va_dimension = 1, va_count = 0, va_storage = []\<rparr>, ac_norms = [], ac_live = []\<rparr>
      L2Squared 1 small_kernel = Inl StdException"
    unfolding read_hnsw_file_def len of_nat_numeral p rbind_simps by (simp add: ac_size_def vector_max_size_def)
  show ?thesis by (intro exI conjI) (rule len, rule p, rule up, rule r)
qed

end
