(* ===== verification/Vdb_Index.thy ===== *)
theory Vdb_Index
  imports Vdb_HnswFile
begin

text \<open>
  The abstract class \<^verbatim>\<open>VectorIndex\<close> (\<^verbatim>\<open>index/vector_index.hpp\<close>) as a sum of its two
  implementations with the virtual calls as case distinctions, and the contract its user, the database,
  relies on as the locale \<open>vector_index\<close>, interpreted on the exact index, on the graph index and on the sum.
\<close>

section \<open>Virtual calls\<close>

datatype vindex = BruteIndex brute_force_index | HnswIndex hnsw_index

definition ix_add ::
    "(f64 \<Rightarrow> f64) \<Rightarrow> vindex \<Rightarrow> local_id \<Rightarrow> visited_set \<Rightarrow> (vindex \<times> visited_set) result" where
  "ix_add logd ix i scratch =
     (case ix of
        BruteIndex b \<Rightarrow> Inr (BruteIndex (bf_add b i), scratch)
      | HnswIndex h \<Rightarrow> rbind (hn_add logd h i scratch) (\<lambda>(h, scratch). Inr (HnswIndex h, scratch)))"

definition ix_remove :: "vindex \<Rightarrow> local_id \<Rightarrow> vindex" where
  "ix_remove ix i = (case ix of BruteIndex b \<Rightarrow> BruteIndex (bf_remove b i) | HnswIndex h \<Rightarrow> HnswIndex (hn_remove h i))"

definition ix_search ::
    "vindex \<Rightarrow> vec \<Rightarrow> search_params \<Rightarrow> visited_set \<Rightarrow> (candidate list \<times> visited_set) result" where
  "ix_search ix query params scratch =
     (case ix of
        BruteIndex b \<Rightarrow> rbind (bf_search b query params) (\<lambda>rs. Inr (rs, scratch))
      | HnswIndex h \<Rightarrow> hn_search h query params scratch)"

definition ix_set_accessor :: "vindex \<Rightarrow> accessor \<Rightarrow> vindex" where
  "ix_set_accessor ix ac =
     (case ix of BruteIndex b \<Rightarrow> BruteIndex (bf_set_accessor b ac) | HnswIndex h \<Rightarrow> HnswIndex (hn_set_accessor h ac))"

definition ix_accessor :: "vindex \<Rightarrow> accessor" where
  "ix_accessor ix = (case ix of BruteIndex b \<Rightarrow> bf_accessor b | HnswIndex h \<Rightarrow> hn_accessor h)"

definition ix_type :: "vindex \<Rightarrow> index_type" where
  "ix_type ix = (case ix of BruteIndex _ \<Rightarrow> BruteForce | HnswIndex _ \<Rightarrow> Hnsw)"

definition ix_metric :: "vindex \<Rightarrow> metric" where
  "ix_metric ix = (case ix of BruteIndex b \<Rightarrow> bf_metric b | HnswIndex h \<Rightarrow> hn_metric h)"

definition ix_describe :: "vindex \<Rightarrow> string" where
  "ix_describe ix = (case ix of BruteIndex b \<Rightarrow> bf_describe b | HnswIndex h \<Rightarrow> hn_describe h)"

section \<open>The contract\<close>

text \<open>What a search may return.\<close>

definition sound_results :: "accessor \<Rightarrow> nat \<Rightarrow> candidate list \<Rightarrow> bool" where
  "sound_results ac k rs \<longleftrightarrow> length rs \<le> k \<and> distinct (map local_id rs) \<and>
     (\<forall>c\<in>set rs. local_id c < ac_size ac \<and> ac_is_live ac (local_id c))"

text \<open>\<open>good ix n\<close>: well formed, with the slots below \<open>n\<close> added; \<open>room\<close>: another one fits; \<open>info\<close>: what the
  constructor fixed.\<close>

locale vector_index =
  fixes good :: "'ix \<Rightarrow> nat \<Rightarrow> bool" and room :: "'ix \<Rightarrow> bool" and acc :: "'ix \<Rightarrow> accessor"
    and add :: "(f64 \<Rightarrow> f64) \<Rightarrow> 'ix \<Rightarrow> local_id \<Rightarrow> visited_set \<Rightarrow> ('ix \<times> visited_set) result"
    and rem :: "'ix \<Rightarrow> local_id \<Rightarrow> 'ix"
    and search :: "'ix \<Rightarrow> vec \<Rightarrow> search_params \<Rightarrow> visited_set \<Rightarrow> (candidate list \<times> visited_set) result"
    and set_acc :: "'ix \<Rightarrow> accessor \<Rightarrow> 'ix" and info :: "'ix \<Rightarrow> 'i"
  assumes search_law: "good ix (ac_size (acc ix)) \<Longrightarrow> ac_size (acc ix) \<le> kMaxVectorCount \<Longrightarrow> vst_inv v \<Longrightarrow> 0 < sp_k params \<Longrightarrow>
      length q = ac_dimension (acc ix) \<Longrightarrow> \<exists>rs v'. search ix q params v = Inr (rs, v') \<and> vst_inv v' \<and> sound_results (acc ix) (sp_k params) rs"
    and add_law: "good ix n \<Longrightarrow> n < ac_size (acc ix) \<Longrightarrow> ac_size (acc ix) \<le> kMaxVectorCount \<Longrightarrow> vst_inv v \<Longrightarrow> room ix \<Longrightarrow>
      \<exists>ix' v'. add logd ix n v = Inr (ix', v') \<and> good ix' (Suc n) \<and> acc ix' = acc ix \<and> vst_inv v' \<and> info ix' = info ix"
    and rem_law: "good ix n \<Longrightarrow> good (rem ix i) n \<and> acc (rem ix i) = acc ix \<and> info (rem ix i) = info ix"
    and set_law: "good ix n \<Longrightarrow> good (set_acc ix ac) n \<and> acc (set_acc ix ac) = ac \<and> info (set_acc ix ac) = info ix"
    and room_law: "room (set_acc ix ac) = room ix"
begin

text \<open>The calls an insert makes: point the index at the grown store, then add the new slot.\<close>

lemma grow:
  assumes "good ix n" and "ac_size ac = Suc n" and "ac_size ac \<le> kMaxVectorCount" and "vst_inv v" and "room ix"
  shows "\<exists>ix' v'. add logd (set_acc ix ac) n v = Inr (ix', v') \<and> good ix' (ac_size ac) \<and> acc ix' = ac \<and> vst_inv v' \<and> info ix' = info ix"
  using add_law [of "set_acc ix ac" n v logd] set_law [OF assms(1), of ac] assms(2-5) room_law by auto

text \<open>The calls an update makes.\<close>

lemma refresh: "good ix n \<Longrightarrow> ac_size ac = n \<Longrightarrow> good (set_acc ix ac) (ac_size ac) \<and> acc (set_acc ix ac) = ac \<and> info (set_acc ix ac) = info ix"
  using set_law by blast

text \<open>The calls a removal makes: the slot count stays, the liveness is the store's.\<close>

lemma retire:
  "good ix n \<Longrightarrow> ac_size ac = n \<Longrightarrow>
   good (rem (set_acc ix ac) i) (ac_size ac) \<and> acc (rem (set_acc ix ac) i) = ac \<and> info (rem (set_acc ix ac) i) = info ix"
  using refresh rem_law by metis

text \<open>A removed slot is never returned, whatever the index still holds.\<close>

lemma removed_not_found:
  assumes "good ix n" and "ac_size ac = n" and "n \<le> kMaxVectorCount" and "vst_inv v" and "0 < sp_k params"
    and "length q = ac_dimension ac" and "\<not> ac_is_live ac i"
  shows "\<exists>rs v'. search (rem (set_acc ix ac) i) q params v = Inr (rs, v') \<and> i \<notin> local_id ` set rs"
proof -
  have r: "good (rem (set_acc ix ac) i) (ac_size ac)" "acc (rem (set_acc ix ac) i) = ac" using retire [OF assms(1,2)] by auto
  then obtain rs v' where "search (rem (set_acc ix ac) i) q params v = Inr (rs, v')" "sound_results ac (sp_k params) rs"
    using search_law [of "rem (set_acc ix ac) i" v params q] assms(2-6) by auto
  then show ?thesis using assms(7) by (auto simp: sound_results_def)
qed

end

section \<open>The exact index\<close>

lemma offer_keeps:
  assumes "length (tk_heap t) \<le> tk_k t" "0 < tk_k t"
  shows "mset (tk_heap (offer t i x)) \<subseteq># add_mset \<lparr>local_id = i, key = x\<rparr> (mset (tk_heap t)) \<and>
    length (tk_heap (offer t i x)) \<le> tk_k t \<and> tk_k (offer t i x) = tk_k t"
proof (cases "length (tk_heap t) < tk_k t \<or> \<not> candidate_better \<lparr>local_id = i, key = x\<rparr> (hd (tk_heap t))")
  case True
  then show ?thesis using assms by (auto simp: offer_def Let_def)
next
  case False
  have ne: "tk_heap t \<noteq> []" using False assms by auto
  have m: "mset (tk_heap (offer t i x)) = add_mset \<lparr>local_id = i, key = x\<rparr> (mset (butlast (pop_heap candidate_better (tk_heap t))))"
    using False by (simp add: offer_def Let_def)
  have "mset (butlast (pop_heap candidate_better (tk_heap t))) \<subseteq># mset (tk_heap t)"
    by (subst mset_pop_split [OF ne, of candidate_better]) simp
  then have s: "mset (tk_heap (offer t i x)) \<subseteq># add_mset \<lparr>local_id = i, key = x\<rparr> (mset (tk_heap t))" unfolding m by simp
  have "length (tk_heap (offer t i x)) = Suc (length (tk_heap t) - 1)"
    using False by (simp add: offer_def Let_def length_pop_heap)
  then show ?thesis using s ne assms False by (cases "tk_heap t") (auto simp: offer_def Let_def)
qed

lemma offers_keeps:
  "length (tk_heap t) \<le> tk_k t \<Longrightarrow> 0 < tk_k t \<Longrightarrow>
   mset (tk_heap (offers t cs)) \<subseteq># mset cs + mset (tk_heap t) \<and> length (tk_heap (offers t cs)) \<le> tk_k t"
proof (induction cs arbitrary: t)
  case (Cons c cs)
  let ?t = "offer t (local_id c) (key c)"
  have e: "\<lparr>local_id = local_id c, key = key c\<rparr> = c" by (cases c) simp
  have o: "mset (tk_heap ?t) \<subseteq># add_mset c (mset (tk_heap t))" "length (tk_heap ?t) \<le> tk_k ?t" "tk_k ?t = tk_k t"
    using offer_keeps [OF Cons.prems, of "local_id c" "key c", unfolded e] by auto
  have "mset (tk_heap (offers ?t cs)) \<subseteq># mset cs + mset (tk_heap ?t) \<and> length (tk_heap (offers ?t cs)) \<le> tk_k ?t"
    using Cons.IH [OF o(2)] o(3) Cons.prems(2) by simp
  moreover have "mset cs + mset (tk_heap ?t) \<subseteq># mset (c # cs) + mset (tk_heap t)" using o(1) by simp
  ultimately show ?case using o(3) by (auto simp: offers_def intro: subset_mset.order_trans)
qed (simp add: offers_def)

lemma mset_sort_heap [simp]: "mset (sort_heap lt xs) = mset xs"
proof -
  have "length xs = n \<Longrightarrow> mset (sort_heap_n lt n xs) = mset xs" for n
  proof (induction n arbitrary: xs)
    case (Suc n)
    let ?ys = "pop_heap lt xs"
    have l: "length ?ys = Suc n" using Suc.prems by (simp add: length_pop_heap)
    then have ne: "?ys \<noteq> []" by auto
    have "mset (sort_heap_n lt n (butlast ?ys)) = mset (butlast ?ys)" using l by (intro Suc.IH) simp
    then show ?case using mset_snoc_split [OF ne] by (simp add: Let_def mset_pop_heap)
  qed simp
  then show ?thesis by (simp add: sort_heap_def)
qed

lemma distinct_sub_mset: "mset xs \<subseteq># mset ys \<Longrightarrow> distinct ys \<Longrightarrow> distinct xs"
proof -
  assume sub: "mset xs \<subseteq># mset ys" and d: "distinct ys"
  obtain zs where "mset zs = mset ys - mset xs" using ex_mset by blast
  then have "mset (xs @ zs) = mset ys" using sub by simp
  then have "distinct (xs @ zs)" using d mset_eq_imp_distinct_iff by metis
  then show "distinct xs" by simp
qed

lemma bf_search_sound:
  assumes k: "0 < sp_k params" and q: "length query = ac_dimension (bf_accessor ix)" and n: "ac_size (bf_accessor ix) \<le> kMaxVectorCount"
  shows "\<exists>rs. bf_search ix query params = Inr rs \<and> sound_results (bf_accessor ix) (sp_k params) rs"
proof -
  let ?n = "ac_size (bf_accessor ix)"
  let ?cs = "bf_candidates ix query (bf_query_norm ix query) 0 ?n"
  let ?t = "\<lparr>tk_k = sp_k params, tk_heap = []\<rparr>"
  let ?rs = "fst (take_sorted (offers ?t ?cs))"
  have c: "cast_u32 ?n = ?n" using n by (simp add: cast_u32_def kMaxVectorCount_def)
  have r: "bf_search ix query params = Inr ?rs"
    using k q by (simp add: bf_search_def top_k_new_def c bf_search_range_def bf_scan_offers bf_query_norm_def)
  have o: "mset (tk_heap (offers ?t ?cs)) \<subseteq># mset ?cs" "length (tk_heap (offers ?t ?cs)) \<le> sp_k params"
    using offers_keeps [of ?t ?cs] k by simp_all
  have m: "mset ?rs = mset (tk_heap (offers ?t ?cs))" by (simp add: take_sorted_def)
  have sub: "mset ?rs \<subseteq># mset ?cs" using o(1) m by simp
  have "mset (map local_id ?rs) \<subseteq># mset (map local_id ?cs)" using image_mset_subseteq_mono [OF sub] by simp
  moreover have "distinct (map local_id ?cs)" by (simp add: bf_candidates_ids)
  ultimately have "distinct (map local_id ?rs)"
    by (rule distinct_sub_mset)
  moreover have "length ?rs \<le> sp_k params" using o(2) m by (metis size_mset)
  moreover have "set ?rs \<subseteq> bf_live_candidates ix query"
    using set_mset_mono [OF sub] by (simp add: bf_candidates_set)
  ultimately show ?thesis using r by (auto simp: sound_results_def bf_live_candidates_def)
qed

definition bf_search_ix :: "brute_force_index \<Rightarrow> vec \<Rightarrow> search_params \<Rightarrow> visited_set \<Rightarrow> (candidate list \<times> visited_set) result" where
  "bf_search_ix b query params scratch = rbind (bf_search b query params) (\<lambda>rs. Inr (rs, scratch))"

interpretation brute: vector_index "\<lambda>(b :: brute_force_index) n. True" "\<lambda>b. True" bf_accessor "\<lambda>logd b i v. Inr (bf_add b i, v)" bf_remove bf_search_ix bf_set_accessor
  "\<lambda>b. (bf_metric b, bf_kernel b)"
proof unfold_locales
  fix ix :: brute_force_index and v and params :: search_params and q :: vec
  assume "ac_size (bf_accessor ix) \<le> kMaxVectorCount" "vst_inv v" "0 < sp_k params" "length q = ac_dimension (bf_accessor ix)"
  then show "\<exists>rs v'. bf_search_ix ix q params v = Inr (rs, v') \<and> vst_inv v' \<and> sound_results (bf_accessor ix) (sp_k params) rs"
    using bf_search_sound [of params q ix] by (auto simp: bf_search_ix_def)
qed (simp_all add: bf_add_def bf_remove_def bf_set_accessor_def)

section \<open>The graph index\<close>

definition hn_good :: "hnsw_index \<Rightarrow> nat \<Rightarrow> bool" where
  "hn_good ix n \<longleftrightarrow> hn_wf ix \<and> hn_size ix = n"

definition hn_room :: "hnsw_index \<Rightarrow> bool" where
  "hn_room ix \<longleftrightarrow> length (hn_upper_links ix) < 2 ^ 32"

text \<open>Well-formedness reads the configuration, the arrays, the entry point and the counts, not the accessor.\<close>

lemma same_structure:
  assumes "hn_config a = hn_config b" "hn_node_level a = hn_node_level b" "hn_layer0_links a = hn_layer0_links b"
    "hn_upper_links a = hn_upper_links b" "hn_upper_offsets a = hn_upper_offsets b"
  shows "hn_size a = hn_size b" "hn_node a = hn_node b" "hn_ok a = hn_ok b"
proof -
  show sz: "hn_size a = hn_size b" using assms by (simp add: hn_size_def)
  show nd: "hn_node a = hn_node b" using assms by (simp add: hn_node_def hn_size_def fun_eq_iff)
  have st: "layer0_stride a = layer0_stride b" "upper_stride a = upper_stride b" "upper_before a = upper_before b"
    using assms by (simp_all add: layer0_stride_def upper_stride_def upper_before_def fun_eq_iff)
  have la: "link_addr a = link_addr b" using assms st by (simp add: link_addr_def fun_eq_iff)
  have pk: "hn_peek a = hn_peek b" using assms la by (simp add: hn_peek_def fun_eq_iff)
  have nb: "neighbours a = neighbours b" using assms pk by (simp add: neighbours_def fun_eq_iff)
  show "hn_ok a = hn_ok b"
    unfolding hn_ok_def hn_shape_def hn_counts_def hn_links_ok_def hn_lists_def hn_words_def sz nd st pk nb assms ..
qed

lemma wf_cong:
  assumes "hn_config a = hn_config b" "hn_node_level a = hn_node_level b" "hn_layer0_links a = hn_layer0_links b"
    "hn_upper_links a = hn_upper_links b" "hn_upper_offsets a = hn_upper_offsets b"
    and "hn_entry_point a = hn_entry_point b" "hn_max_level a = hn_max_level b" "hn_live_count a \<le> hn_size b" "hn_wf b"
  shows "hn_wf a"
  using assms same_structure [OF assms(1-5)] by (simp add: hn_wf_def hn_entry_ok_def)

lemma wf_set_accessor: "hn_wf ix \<Longrightarrow> hn_wf (hn_set_accessor ix ac)"
  by (rule wf_cong [of _ ix]) (simp_all add: hn_set_accessor_def hn_wf_def)

lemma wf_remove: "hn_wf ix \<Longrightarrow> hn_wf (hn_remove ix i) \<and> hn_size (hn_remove ix i) = hn_size ix \<and> hn_accessor (hn_remove ix i) = hn_accessor ix \<and>
    hn_metric (hn_remove ix i) = hn_metric ix \<and> hn_config (hn_remove ix i) = hn_config ix"
proof -
  assume wf: "hn_wf ix"
  then have le: "hn_live_count ix \<le> hn_size ix" by (simp add: hn_wf_def)
  have "hn_wf (hn_remove ix i)" by (rule wf_cong [OF _ _ _ _ _ _ _ _ wf]) (use le in \<open>auto simp: hn_remove_def\<close>)
  then show ?thesis by (simp add: hn_remove_def hn_size_def)
qed

interpretation graph: vector_index hn_good hn_room hn_accessor hn_add hn_remove hn_search hn_set_accessor
  "\<lambda>h. (hn_metric h, hn_config h)"
proof unfold_locales
  fix ix :: hnsw_index and v and params :: search_params and q :: vec
  assume "hn_good ix (ac_size (hn_accessor ix))" "vst_inv v" "0 < sp_k params" "length q = ac_dimension (hn_accessor ix)"
  then obtain rs v' where "hn_search ix q params v = Inr (rs, v')" "vst_inv v'" "length rs \<le> sp_k params" "distinct (map local_id rs)"
    "\<forall>c\<in>set rs. ac_is_live (hn_accessor ix) (local_id c) \<and> local_id c < hn_size ix" "hn_size ix = ac_size (hn_accessor ix)"
    using hn_search_sound [of ix v v params q] wf_graph by (auto simp: hn_good_def)
  then show "\<exists>rs v'. hn_search ix q params v = Inr (rs, v') \<and> vst_inv v' \<and> sound_results (hn_accessor ix) (sp_k params) rs"
    by (auto simp: sound_results_def)
next
  fix ix :: hnsw_index and n v logd
  assume g: "hn_good ix n" "n < ac_size (hn_accessor ix)" "ac_size (hn_accessor ix) \<le> kMaxVectorCount" "vst_inv v" "hn_room ix"
  then have a: "hn_wf ix" "vst_inv v" "n = hn_size ix" "n < ac_size (hn_accessor ix)" "ac_size (hn_accessor ix) \<le> kMaxVectorCount"
    "length (hn_upper_links ix) < 2 ^ 32" by (simp_all add: hn_good_def hn_room_def)
  obtain ix' v' level where "hn_add logd ix n v = Inr (ix', v')" "hn_wf ix'" "vst_inv v'"
    "hn_node_level ix' = hn_node_level ix @ [level]" "hn_accessor ix' = hn_accessor ix" "hn_config ix' = hn_config ix" "hn_metric ix' = hn_metric ix"
    by (rule add_result [OF a, where logd = logd])
  then show "\<exists>ix' v'. hn_add logd ix n v = Inr (ix', v') \<and> hn_good ix' (Suc n) \<and> hn_accessor ix' = hn_accessor ix \<and> vst_inv v' \<and>
      (hn_metric ix', hn_config ix') = (hn_metric ix, hn_config ix)"
    using g(1) by (simp add: hn_good_def hn_size_def)
next
  fix ix n ac assume "hn_good ix n"
  then show "hn_good (hn_set_accessor ix ac) n \<and> hn_accessor (hn_set_accessor ix ac) = ac \<and>
      (hn_metric (hn_set_accessor ix ac), hn_config (hn_set_accessor ix ac)) = (hn_metric ix, hn_config ix)"
    using wf_set_accessor [of ix ac] by (simp add: hn_good_def hn_set_accessor_def hn_size_def)
qed (simp_all add: hn_good_def hn_room_def wf_remove hn_set_accessor_def)

section \<open>The sum\<close>

definition ix_good :: "vindex \<Rightarrow> nat \<Rightarrow> bool" where
  "ix_good ix n = (case ix of BruteIndex b \<Rightarrow> True | HnswIndex h \<Rightarrow> hn_good h n)"

definition ix_room :: "vindex \<Rightarrow> bool" where
  "ix_room ix = (case ix of BruteIndex b \<Rightarrow> True | HnswIndex h \<Rightarrow> hn_room h)"

definition ix_info :: "vindex \<Rightarrow> metric \<times> hnsw_config option" where
  "ix_info ix = (case ix of BruteIndex b \<Rightarrow> (bf_metric b, None) | HnswIndex h \<Rightarrow> (hn_metric h, Some (hn_config h)))"

lemmas ix_defs = ix_info_def ix_good_def ix_room_def ix_accessor_def ix_add_def ix_remove_def ix_search_def ix_set_accessor_def

interpretation index: vector_index ix_good ix_room ix_accessor ix_add ix_remove ix_search ix_set_accessor ix_info
proof unfold_locales
  fix ix v and params :: search_params and q :: vec
  assume "ix_good ix (ac_size (ix_accessor ix))" "ac_size (ix_accessor ix) \<le> kMaxVectorCount" "vst_inv v" "0 < sp_k params"
    "length q = ac_dimension (ix_accessor ix)"
  then show "\<exists>rs v'. ix_search ix q params v = Inr (rs, v') \<and> vst_inv v' \<and> sound_results (ix_accessor ix) (sp_k params) rs"
    using brute.search_law graph.search_law by (cases ix) (auto simp: ix_defs bf_search_ix_def)
next
  fix ix n v logd
  assume "ix_good ix n" "n < ac_size (ix_accessor ix)" "ac_size (ix_accessor ix) \<le> kMaxVectorCount" "vst_inv v" "ix_room ix"
  then show "\<exists>ix' v'. ix_add logd ix n v = Inr (ix', v') \<and> ix_good ix' (Suc n) \<and> ix_accessor ix' = ix_accessor ix \<and> vst_inv v' \<and> ix_info ix' = ix_info ix"
    using brute.add_law graph.add_law [of _ n v logd] by (cases ix) (fastforce simp: ix_defs bf_add_def)+
qed (use graph.rem_law graph.set_law graph.room_law in \<open>auto simp: ix_defs bf_remove_def bf_set_accessor_def split: vindex.split\<close>)

end
