(* ===== verification/Vdb_Action.thy ===== *)
theory Vdb_Action
  imports Vdb_Prelude
begin

text \<open>
  Code that changes state and may throw: an action maps a state to a result and the state left behind.
  The state of a failed action is kept, as the source keeps what was done before an exception.
\<close>

type_synonym ('s, 'a) act = "'s \<Rightarrow> 'a result \<times> 's"

definition aret :: "'a \<Rightarrow> ('s, 'a) act" where
  "aret x s = (Inr x, s)"

definition athrow :: "error \<Rightarrow> ('s, 'a) act" where
  "athrow e s = (Inl e, s)"

definition abind :: "('s, 'a) act \<Rightarrow> ('a \<Rightarrow> ('s, 'b) act) \<Rightarrow> ('s, 'b) act" where
  "abind m f s = (case m s of (Inl e, s') \<Rightarrow> (Inl e, s') | (Inr x, s') \<Rightarrow> f x s')"

text \<open>\<open>try { m } catch (...) { h; throw; }\<close> and \<open>try { m } catch (e) { h e }\<close>.\<close>

definition acatch :: "('s, 'a) act \<Rightarrow> (error \<Rightarrow> ('s, 'a) act) \<Rightarrow> ('s, 'a) act" where
  "acatch m h s = (case m s of (Inl e, s') \<Rightarrow> h e s' | (Inr x, s') \<Rightarrow> (Inr x, s'))"

text \<open>A guard object: \<open>f\<close> is its destructor, run however the scope is left.\<close>

definition afinally :: "('s, 'a) act \<Rightarrow> ('s \<Rightarrow> 's) \<Rightarrow> ('s, 'a) act" where
  "afinally m f s = (case m s of (r, s') \<Rightarrow> (r, f s'))"

definition alift :: "'a result \<Rightarrow> ('s, 'a) act" where
  "alift r s = (r, s)"

definition aguard :: "bool \<Rightarrow> error \<Rightarrow> ('s, unit) act" where
  "aguard c e = (if c then athrow e else aret ())"

text \<open>An action on a part of the state.\<close>

definition azoom :: "('s \<Rightarrow> 't) \<Rightarrow> ('t \<Rightarrow> 's \<Rightarrow> 's) \<Rightarrow> ('t, 'a) act \<Rightarrow> ('s, 'a) act" where
  "azoom get put m s = (case m (get s) of (r, t) \<Rightarrow> (r, put t s))"

lemma act_simps [simp]:
  "aret x s = (Inr x, s)" "athrow e s = (Inl e, s)" "alift r s = (r, s)"
  "aguard False e s = (Inr (), s)" "aguard True e s = (Inl e, s)"
  by (simp_all add: aret_def athrow_def alift_def aguard_def)

named_theorems act_inv \<open>inversion of actions\<close>

lemma abind_Inr [act_inv]: "abind m f s = (Inr y, t) \<longleftrightarrow> (\<exists>x u. m s = (Inr x, u) \<and> f x u = (Inr y, t))"
  by (auto simp: abind_def split: prod.splits sum.splits)

lemma abind_Inl [act_inv]:
  "abind m f s = (Inl e, t) \<longleftrightarrow> m s = (Inl e, t) \<or> (\<exists>x u. m s = (Inr x, u) \<and> f x u = (Inl e, t))"
  by (auto simp: abind_def split: prod.splits sum.splits)

lemma abind_step: "m s = (Inr x, t) \<Longrightarrow> abind m f s = f x t" "m s = (Inl e, t) \<Longrightarrow> abind m f s = (Inl e, t)"
  by (simp_all add: abind_def)

lemma aguard_Inr [act_inv]: "aguard c e s = (Inr u, t) \<longleftrightarrow> \<not> c \<and> t = s"
  by (auto simp: aguard_def)

lemma aguard_Inl [act_inv]: "aguard c e s = (Inl e', t) \<longleftrightarrow> c \<and> e' = e \<and> t = s"
  by (auto simp: aguard_def)

lemma acatch_step: "m s = (Inr x, t) \<Longrightarrow> acatch m h s = (Inr x, t)" "m s = (Inl e, t) \<Longrightarrow> acatch m h s = h e t"
  by (simp_all add: acatch_def)

lemma abind_cong [fundef_cong]:
  "s = s' \<Longrightarrow> m s' = m' s' \<Longrightarrow> (\<And>x t. m' s' = (Inr x, t) \<Longrightarrow> f x t = f' x t) \<Longrightarrow> abind m f s = abind m' f' s'"
  by (auto simp: abind_def split: prod.split sum.split)

text \<open>An invariant of the state that an action keeps, whether it returns or throws.\<close>

definition keeps :: "('s \<Rightarrow> bool) \<Rightarrow> ('s, 'a) act \<Rightarrow> bool" where
  "keeps P m \<longleftrightarrow> (\<forall>s. P s \<longrightarrow> P (snd (m s)))"

lemma keepsD: "keeps P m \<Longrightarrow> P s \<Longrightarrow> m s = (r, t) \<Longrightarrow> P t"
  by (metis keeps_def snd_conv)

lemma keeps_intros [intro]:
  "keeps P (aret x)" "keeps P (athrow e)" "keeps P (alift r)" "keeps P (aguard c e)"
  by (simp_all add: keeps_def aguard_def)

lemma keeps_abind [intro]: "keeps P m \<Longrightarrow> (\<And>x. keeps P (f x)) \<Longrightarrow> keeps P (abind m f)"
  unfolding keeps_def abind_def by (auto split: prod.split sum.split dest: spec)

lemma keeps_acatch [intro]: "keeps P m \<Longrightarrow> (\<And>e. keeps P (h e)) \<Longrightarrow> keeps P (acatch m h)"
  unfolding keeps_def acatch_def by (auto split: prod.split sum.split dest: spec)

lemma keeps_afinally [intro]: "keeps P m \<Longrightarrow> (\<And>s. P s \<Longrightarrow> P (f s)) \<Longrightarrow> keeps P (afinally m f)"
  unfolding keeps_def afinally_def by (auto split: prod.split)

end
