(* ===== verification/Vdb_Filter.thy ===== *)
theory Vdb_Filter
  imports Vdb_Float
begin

text \<open>
  Metadata values (\<^verbatim>\<open>src/storage/metadata.cpp\<close>) and the filter language
  (\<^verbatim>\<open>src/storage/filter.cpp\<close>): comparison, matching, printing and the parser. The parser's position
  \<open>pos\<close> is the suffix of the expression still to be read. Two library functions are parameters:
  \<open>strtod\<close>, from a C string to a double and the number of characters it consumed, and \<open>show_double\<close>,
  the text \<^verbatim>\<open>operator<<\<close> gives a double. The lemmas show what a condition accepts, that the parser
  inverts the printer on the text the language can quote, and where it does not.
\<close>

section \<open>Values\<close>

datatype metadata_value = MNull | MInt u64 | MReal f64 | MText string

text \<open>
  A \<^verbatim>\<open>std::map\<close> as its association list in ascending byte order of the keys. An \<open>int64\<close> is the word
  holding it, read by \<open>sint\<close>.
\<close>

type_synonym metadata = "(string \<times> metadata_value) list"

datatype metadata_type = KNull | KInteger | KReal | KText

fun metadata_type_code :: "metadata_type \<Rightarrow> nat" where
  "metadata_type_code KNull = 0"
| "metadata_type_code KInteger = 1"
| "metadata_type_code KReal = 2"
| "metadata_type_code KText = 3"

fun type_of :: "metadata_value \<Rightarrow> metadata_type" where
  "type_of (MInt i) = KInteger"
| "type_of (MReal x) = KReal"
| "type_of (MText s) = KText"
| "type_of MNull = KNull"

text \<open>\<^verbatim>\<open>std::to_string\<close> of a signed integer.\<close>

definition show_int :: "int \<Rightarrow> string" where
  "show_int i = (if i < 0 then CHR ''-'' # show_nat (nat (- i)) else show_nat (nat i))"

fun to_display_string :: "(f64 \<Rightarrow> string) \<Rightarrow> metadata_value \<Rightarrow> string" where
  "to_display_string show_double (MInt i) = show_int (sint i)"
| "to_display_string show_double (MReal x) = show_double x"
| "to_display_string show_double (MText s) = s"
| "to_display_string show_double MNull = ''null''"

definition hex_digit :: "nat \<Rightarrow> char" where
  "hex_digit d = (if d < 10 then char_of (48 + d) else char_of (87 + d))"

definition json_char :: "char \<Rightarrow> string" where
  "json_char c =
     (if c = CHR 0x22 then [CHR 0x5C, CHR 0x22]
      else if c = CHR 0x5C then [CHR 0x5C, CHR 0x5C]
      else if c = CHR 0x0A then [CHR 0x5C, CHR ''n'']
      else if c = CHR 0x0D then [CHR 0x5C, CHR ''r'']
      else if c = CHR 0x09 then [CHR 0x5C, CHR ''t'']
      else if (of_char c :: nat) < 0x20
      then [CHR 0x5C, CHR ''u'', CHR ''0'', CHR ''0'', hex_digit (of_char c div 16), hex_digit (of_char c mod 16)]
      else [c])"

definition f64_is_finite :: "f64 \<Rightarrow> bool" where
  "f64_is_finite x = is_finv (f64_val x)"

fun to_json_string :: "(f64 \<Rightarrow> string) \<Rightarrow> metadata_value \<Rightarrow> string" where
  "to_json_string show_double (MInt i) = show_int (sint i)"
| "to_json_string show_double (MReal x) = (if \<not> f64_is_finite x then ''null'' else show_double x)"
| "to_json_string show_double (MText s) = [CHR 0x22] @ concat (map json_char s) @ [CHR 0x22]"
| "to_json_string show_double MNull = ''null''"

section \<open>Comparison and matching\<close>

text \<open>Bytewise order of strings, as \<^verbatim>\<open>std::string::compare\<close> and \<^verbatim>\<open>std::less\<close> see it.\<close>

fun str_compare :: "string \<Rightarrow> string \<Rightarrow> int" where
  "str_compare [] [] = 0"
| "str_compare [] (d # ds) = - 1"
| "str_compare (c # cs) [] = 1"
| "str_compare (c # cs) (d # ds) =
     (if (of_char c :: nat) < of_char d then - 1 else if (of_char d :: nat) < of_char c then 1 else str_compare cs ds)"

fun is_numeric :: "metadata_value \<Rightarrow> bool" where
  "is_numeric (MInt i) = True"
| "is_numeric (MReal x) = True"
| "is_numeric _ = False"

text \<open>The value as a double; only read when it is numeric.\<close>

fun as_double :: "metadata_value \<Rightarrow> f64" where
  "as_double (MInt i) = f64_of_int (sint i)"
| "as_double (MReal x) = x"
| "as_double _ = 0"

fun compare_values :: "metadata_value \<Rightarrow> metadata_value \<Rightarrow> int option" where
  "compare_values stored wanted =
     (if is_numeric stored \<and> is_numeric wanted then
        (let a = as_double stored; b = as_double wanted in
         if f64_lt a b then Some (- 1) else Some (if f64_lt b a then 1 else 0))
      else
        (case (stored, wanted) of
           (MText s, MText t) \<Rightarrow> Some (str_compare s t)
         | (MNull, MNull) \<Rightarrow> Some 0
         | _ \<Rightarrow> None))"

datatype filter_op = OpEqual | OpNotEqual | OpLess | OpLessEqual | OpGreater | OpGreaterEqual

fun filter_op_symbol :: "filter_op \<Rightarrow> string" where
  "filter_op_symbol OpEqual = ''==''"
| "filter_op_symbol OpNotEqual = ''!=''"
| "filter_op_symbol OpLess = ''<''"
| "filter_op_symbol OpLessEqual = ''<=''"
| "filter_op_symbol OpGreater = ''>''"
| "filter_op_symbol OpGreaterEqual = ''>=''"

record filter_condition =
  fc_key :: string
  fc_op :: filter_op
  fc_value :: metadata_value

type_synonym vfilter = "filter_condition list"

fun order_matches :: "filter_op \<Rightarrow> int \<Rightarrow> bool" where
  "order_matches OpEqual order = (order = 0)"
| "order_matches OpNotEqual order = (order \<noteq> 0)"
| "order_matches OpLess order = (order < 0)"
| "order_matches OpLessEqual order = (order \<le> 0)"
| "order_matches OpGreater order = (order > 0)"
| "order_matches OpGreaterEqual order = (order \<ge> 0)"

definition condition_matches :: "filter_condition \<Rightarrow> metadata \<Rightarrow> bool" where
  "condition_matches c metadata =
     (case map_of metadata (fc_key c) of
        None \<Rightarrow> False
      | Some stored \<Rightarrow>
          (case compare_values stored (fc_value c) of
             None \<Rightarrow> False
           | Some order \<Rightarrow> order_matches (fc_op c) order))"

definition filter_matches :: "vfilter \<Rightarrow> metadata \<Rightarrow> bool" where
  "filter_matches f metadata = list_all (\<lambda>c. condition_matches c metadata) f"

section \<open>Printing\<close>

definition condition_to_string :: "(f64 \<Rightarrow> string) \<Rightarrow> filter_condition \<Rightarrow> string" where
  "condition_to_string show_double c = fc_key c @ '' '' @ filter_op_symbol (fc_op c) @ '' '' @
     (case fc_value c of MText s \<Rightarrow> [CHR 0x22] @ s @ [CHR 0x22] | v \<Rightarrow> to_display_string show_double v)"

fun filter_to_string :: "(f64 \<Rightarrow> string) \<Rightarrow> vfilter \<Rightarrow> string" where
  "filter_to_string show_double [] = ''''"
| "filter_to_string show_double [c] = condition_to_string show_double c"
| "filter_to_string show_double (c # cs) = condition_to_string show_double c @ '' and '' @ filter_to_string show_double cs"

section \<open>Parsing\<close>

text \<open>\<^verbatim>\<open><cctype>\<close> in the C locale.\<close>

definition is_space :: "char \<Rightarrow> bool" where
  "is_space c = (c = CHR 0x20 \<or> 9 \<le> (of_char c :: nat) \<and> (of_char c :: nat) \<le> 13)"

definition is_digit :: "char \<Rightarrow> bool" where
  "is_digit c = (48 \<le> (of_char c :: nat) \<and> (of_char c :: nat) \<le> 57)"

definition is_alpha :: "char \<Rightarrow> bool" where
  "is_alpha c = (65 \<le> (of_char c :: nat) \<and> (of_char c :: nat) \<le> 90 \<or> 97 \<le> (of_char c :: nat) \<and> (of_char c :: nat) \<le> 122)"

definition to_lower :: "char \<Rightarrow> char" where
  "to_lower c = (if 65 \<le> (of_char c :: nat) \<and> (of_char c :: nat) \<le> 90 then char_of (of_char c + 32 :: nat) else c)"

definition is_key_char :: "char \<Rightarrow> bool" where
  "is_key_char c = (is_alpha c \<or> is_digit c \<or> c = CHR ''_'' \<or> c = CHR ''.'' \<or> c = CHR ''-'')"

definition skip_spaces :: "string \<Rightarrow> string" where
  "skip_spaces s = dropWhile is_space s"

definition digits_value :: "string \<Rightarrow> nat" where
  "digits_value s = foldl (\<lambda>n c. n * 10 + (of_char c - 48)) 0 s"

text \<open>
  \<^verbatim>\<open>std::from_chars\<close> to an \<open>int64\<close> with the test that it read the whole token: a minus sign or none,
  digits, in range.
\<close>

definition from_chars_i64 :: "string \<Rightarrow> u64 option" where
  "from_chars_i64 s =
     (let neg = (s \<noteq> [] \<and> hd s = CHR ''-'');
          ds = (if neg then drop 1 s else s);
          n = digits_value ds in
      if ds = [] \<or> \<not> list_all is_digit ds then None
      else if neg then (if n \<le> 2 ^ 63 then Some (word_of_int (- int n)) else None)
      else (if n < 2 ^ 63 then Some (word_of_nat n) else None))"

text \<open>
  \<^verbatim>\<open>std::stoull\<close> in base ten: leading white space, a sign, digits; what follows them is ignored, and a minus
  sign negates the value modulo \<open>2 ^ 64\<close>.
\<close>

definition stoull :: "string \<Rightarrow> u64 option" where
  "stoull text =
     (let s = skip_spaces text;
          neg = (s \<noteq> [] \<and> hd s = CHR ''-'');
          s = (if s \<noteq> [] \<and> hd s \<in> {CHR ''-'', CHR ''+''} then drop 1 s else s);
          ds = takeWhile is_digit s;
          n = digits_value ds in
      if ds = [] \<or> n \<ge> 2 ^ 64 then None else Some (if neg then - word_of_nat n else word_of_nat n))"

text \<open>\<^verbatim>\<open>strtod\<close> sees the token up to an embedded NUL; \<open>*stop\<close> is NUL when it consumed all of that.\<close>

definition c_str :: "string \<Rightarrow> string" where
  "c_str s = takeWhile (\<lambda>c. c \<noteq> CHR 0x00) s"

definition parse_value :: "(string \<Rightarrow> f64 \<times> nat) \<Rightarrow> string \<Rightarrow> bool \<Rightarrow> metadata_value" where
  "parse_value strtod token was_quoted =
     (if was_quoted then MText token
      else
        (case from_chars_i64 token of
           Some i \<Rightarrow> MInt i
         | None \<Rightarrow>
             (let (real, stop) = strtod (c_str token) in
              if stop = length (c_str token) \<and> token \<noteq> [] then MReal real else MText token)))"

text \<open>The operator at the front of the text, longest first, and the text after it.\<close>

definition parse_op :: "string \<Rightarrow> (filter_op \<times> string) option" where
  "parse_op s =
     (if take 2 s = ''=='' then Some (OpEqual, drop 2 s)
      else if take 2 s = ''!='' then Some (OpNotEqual, drop 2 s)
      else if take 2 s = ''>='' then Some (OpGreaterEqual, drop 2 s)
      else if take 2 s = ''<='' then Some (OpLessEqual, drop 2 s)
      else if take 1 s = ''>'' then Some (OpGreater, drop 1 s)
      else if take 1 s = ''<'' then Some (OpLess, drop 1 s)
      else if take 1 s = ''='' then Some (OpEqual, drop 1 s)
      else None)"

text \<open>The quoted value: a backslash takes the next character literally. \<open>None\<close> is an unterminated one.\<close>

fun scan_quoted :: "char \<Rightarrow> string \<Rightarrow> (string \<times> string) option" where
  "scan_quoted q [] = None"
| "scan_quoted q (c # cs) =
     (if c = q then Some ([], cs)
      else if c = CHR 0x5C \<and> cs \<noteq> []
      then map_option (\<lambda>(t, r). (hd cs # t, r)) (scan_quoted q (tl cs))
      else map_option (\<lambda>(t, r). (c # t, r)) (scan_quoted q cs))"

definition parse_token :: "string \<Rightarrow> (string \<times> bool \<times> string) result" where
  "parse_token s =
     (if hd s = CHR 0x22 \<or> hd s = CHR 0x27 then
        (case scan_quoted (hd s) (drop 1 s) of
           None \<Rightarrow> Inl InvalidArgumentError
         | Some (token, rest) \<Rightarrow> Inr (token, True, rest))
      else
        (let token = takeWhile (\<lambda>c. \<not> is_space c) s in
         if token = [] then Inl InvalidArgumentError
         else Inr (token, False, dropWhile (\<lambda>c. \<not> is_space c) s)))"

text \<open>One condition from the front of the text: a round of the loop up to \<^verbatim>\<open>filter.add\<close>.\<close>

definition parse_condition :: "(string \<Rightarrow> f64 \<times> nat) \<Rightarrow> string \<Rightarrow> (filter_condition \<times> string) result" where
  "parse_condition strtod s =
     (let s = skip_spaces s; key = takeWhile is_key_char s; s = dropWhile is_key_char s in
      rbind (guard_throw (key = []) InvalidArgumentError) (\<lambda>_.
      case parse_op (skip_spaces s) of
        None \<Rightarrow> Inl InvalidArgumentError
      | Some (op, s) \<Rightarrow>
          (let s = skip_spaces s in
           rbind (guard_throw (s = []) InvalidArgumentError) (\<lambda>_.
           rbind (parse_token s) (\<lambda>(token, quoted, s).
           Inr (\<lparr>fc_key = key, fc_op = op, fc_value = parse_value strtod token quoted\<rparr>, s))))))"

lemma scan_quoted_shorter: "scan_quoted q s = Some (t, r) \<Longrightarrow> length r < length s"
proof (induction q s arbitrary: t r rule: scan_quoted.induct)
  case (2 q c cs)
  show ?case
  proof (cases "c = q")
    case False
    show ?thesis
    proof (cases "c = CHR 0x5C \<and> cs \<noteq> []")
      case True
      then obtain t' where "scan_quoted q (tl cs) = Some (t', r)" using "2.prems" False by auto
      from "2.IH"(1) [OF False True this] show ?thesis by simp
    next
      case esc: False
      then obtain t' where "scan_quoted q cs = Some (t', r)" using "2.prems" False by (auto split: if_splits)
      from "2.IH"(2) [OF False esc this] show ?thesis by simp
    qed
  qed (use "2.prems" in simp)
qed simp

lemma length_dropWhile_less: "takeWhile P s \<noteq> [] \<Longrightarrow> length (dropWhile P s) < length s"
  by (cases s) (auto simp: le_imp_less_Suc length_dropWhile_le split: if_splits)

lemma length_skip_spaces: "length (skip_spaces s) \<le> length s"
  by (simp add: skip_spaces_def length_dropWhile_le)

lemma parse_token_shorter: "parse_token s = Inr (t, q, r) \<Longrightarrow> s \<noteq> [] \<Longrightarrow> length r < length s"
  by (cases s) (auto simp: parse_token_def Let_def length_dropWhile_le le_imp_less_Suc
      split: if_splits option.splits dest!: scan_quoted_shorter)

lemma parse_op_shorter: "parse_op s = Some (op, r) \<Longrightarrow> length r \<le> length s"
  by (auto simp: parse_op_def split: if_splits)

lemma parse_condition_shorter: "parse_condition strtod s = Inr (c, r) \<Longrightarrow> length r < length s"
proof -
  assume p: "parse_condition strtod s = Inr (c, r)"
  let ?k = "dropWhile is_key_char (skip_spaces s)"
  obtain op s1 token quoted where k: "takeWhile is_key_char (skip_spaces s) \<noteq> []"
    and o: "parse_op (skip_spaces ?k) = Some (op, s1)" and n: "skip_spaces s1 \<noteq> []"
    and t: "parse_token (skip_spaces s1) = Inr (token, quoted, r)"
    using p by (auto simp: parse_condition_def Let_def result_simps split: option.splits)
  have "length r < length (skip_spaces s1)" by (rule parse_token_shorter [OF t n])
  also have "\<dots> \<le> length (skip_spaces ?k)" using parse_op_shorter [OF o] length_skip_spaces [of s1] by simp
  also have "\<dots> \<le> length s" using length_skip_spaces [of ?k] length_dropWhile_less [OF k] length_skip_spaces [of s] by simp
  finally show ?thesis .
qed

function parse_conditions :: "(string \<Rightarrow> f64 \<times> nat) \<Rightarrow> string \<Rightarrow> vfilter result" where
  "parse_conditions strtod s =
     rbind (parse_condition strtod s) (\<lambda>x.
     let c = fst x; s = skip_spaces (snd x) in
     if s = [] then Inr [c]
     else
       rbind (guard_throw (map to_lower (takeWhile is_alpha s) \<noteq> ''and'') InvalidArgumentError) (\<lambda>_.
       rbind (parse_conditions strtod (dropWhile is_alpha s)) (\<lambda>cs. Inr (c # cs))))"
  by pat_completeness auto
termination
proof (relation "measure (\<lambda>(_, s). length s)")
  fix strtod :: "string \<Rightarrow> f64 \<times> nat" and s x xa xb xc
  assume "parse_condition strtod s = Inr x" and e: "xa = fst x" "xb = skip_spaces (snd x)"
  then have "length (snd x) < length s" using parse_condition_shorter [of strtod s "fst x" "snd x"] by simp
  then have "length (dropWhile is_alpha xb) < length s"
    using length_dropWhile_le [of is_alpha xb] length_skip_spaces [of "snd x"] e by simp
  then show "((strtod, dropWhile is_alpha xb), (strtod, s)) \<in> measure (\<lambda>(_, s). length s)" by simp
qed simp

declare parse_conditions.simps [simp del]

definition filter_parse :: "(string \<Rightarrow> f64 \<times> nat) \<Rightarrow> string \<Rightarrow> vfilter result" where
  "filter_parse strtod expression =
     (let s = skip_spaces expression in if s = [] then Inr [] else parse_conditions strtod s)"

section \<open>Numbers in text\<close>

lemma digit_char_facts: "d < 10 \<Longrightarrow> is_digit (digit_char d) \<and> (of_char (digit_char d) :: nat) = 48 + d"
  by (simp add: is_digit_def digit_char_def)

lemma show_nat_digits: "list_all is_digit (show_nat n) \<and> show_nat n \<noteq> [] \<and> digits_value (show_nat n) = n"
proof (induction n rule: show_nat.induct)
  case (1 n)
  show ?case
  proof (cases "n < 10")
    case True
    then show ?thesis by (subst (1 2 3) show_nat.simps) (simp add: digit_char_facts digits_value_def)
  next
    case False
    have "digits_value (show_nat (n div 10) @ [digit_char (n mod 10)]) = digits_value (show_nat (n div 10)) * 10 + n mod 10"
      by (simp add: digits_value_def digit_char_facts)
    then show ?thesis
      using False "1.IH" by (subst (1 2 3) show_nat.simps) (simp add: digit_char_facts)
  qed
qed

lemma digits_not_special: "is_digit c \<Longrightarrow> \<not> is_space c \<and> c \<noteq> CHR ''-'' \<and> c \<noteq> CHR ''+''"
  by (auto simp: is_digit_def is_space_def)

lemma stoull_shown: "n < 2 ^ 64 \<Longrightarrow> stoull (show_nat n) = Some (word_of_nat n)"
proof -
  assume n: "n < 2 ^ 64"
  have d: "list_all is_digit (show_nat n)" "show_nat n \<noteq> []" "digits_value (show_nat n) = n" using show_nat_digits [of n] by simp_all
  have h: "is_digit (hd (show_nat n))" using d(1,2) by (cases "show_nat n") simp_all
  have s: "skip_spaces (show_nat n) = show_nat n"
    using digits_not_special [OF h] d(2) by (cases "show_nat n") (simp_all add: skip_spaces_def)
  have t: "takeWhile is_digit (show_nat n) = show_nat n" using d(1) by (simp add: takeWhile_eq_all_conv list_all_iff)
  have "hd (show_nat n) \<notin> {CHR ''-'', CHR ''+''}" using digits_not_special [OF h] by simp
  then show ?thesis
    using d(2,3) n s t digits_not_special [OF h] by (simp add: stoull_def Let_def del: takeWhile_eq_all_conv)
qed

lemma digit_not_minus: "is_digit c \<Longrightarrow> c \<noteq> CHR ''-''"
  by (auto simp: is_digit_def)

lemma from_chars_show: "from_chars_i64 (show_int (sint i)) = Some i"
proof (cases "sint i < 0")
  case True
  have "- (2 ^ 63) \<le> sint i" using sint_ge [of i] by simp
  then have b: "nat (- sint i) \<le> 2 ^ 63" using True by simp
  have "word_of_int (- int (nat (- sint i))) = i" using True by simp
  then show ?thesis
    using True b show_nat_digits [of "nat (- sint i)"] by (simp add: from_chars_i64_def show_int_def)
next
  case False
  have "sint i < 2 ^ 63" using sint_lt [of i] by simp
  then have b: "nat (sint i) < 2 ^ 63" using False by simp
  have d: "list_all is_digit (show_nat (nat (sint i)))" "show_nat (nat (sint i)) \<noteq> []"
    "digits_value (show_nat (nat (sint i))) = nat (sint i)"
    using show_nat_digits by auto
  have "hd (show_nat (nat (sint i))) \<noteq> CHR ''-''" using d(1,2) by (cases "show_nat (nat (sint i))") (auto dest: digit_not_minus)
  moreover have "word_of_nat (nat (sint i)) = i"
  proof -
    have "word_of_nat (nat (sint i)) = (word_of_int (int (nat (sint i))) :: u64)" by simp
    also have "int (nat (sint i)) = sint i" using False by simp
    finally show ?thesis by simp
  qed
  ultimately show ?thesis using False b d by (simp add: from_chars_i64_def show_int_def)
qed

lemma show_int_bare: "show_int i \<noteq> [] \<and> list_all (\<lambda>c. \<not> is_space c \<and> c \<noteq> CHR 0x22 \<and> c \<noteq> CHR 0x27) (show_int i)"
proof -
  have d: "\<not> is_space c \<and> c \<noteq> CHR 0x22 \<and> c \<noteq> CHR 0x27" if "is_digit c" for c
    using that by (auto simp: is_digit_def is_space_def)
  have "list_all (\<lambda>c. \<not> is_space c \<and> c \<noteq> CHR 0x22 \<and> c \<noteq> CHR 0x27) (show_nat n)" for n
    using show_nat_digits [of n] d by (auto simp: list_all_iff)
  then show ?thesis using show_nat_digits by (simp add: show_int_def is_space_def)
qed

section \<open>The parser inverts the printer\<close>

text \<open>
  What the language can express: keys of key characters, integers, and text without quotes and
  backslashes. (Printed doubles are outside: the printer rounds them.)
\<close>

fun printable_value :: "metadata_value \<Rightarrow> bool" where
  "printable_value (MInt i) = True"
| "printable_value (MText s) = list_all (\<lambda>c. c \<noteq> CHR 0x22 \<and> c \<noteq> CHR 0x5C) s"
| "printable_value _ = False"

definition printable :: "filter_condition \<Rightarrow> bool" where
  "printable c \<longleftrightarrow> fc_key c \<noteq> [] \<and> list_all is_key_char (fc_key c) \<and> printable_value (fc_value c)"

lemma key_char_not_space: "is_key_char c \<Longrightarrow> \<not> is_space c"
  by (auto simp: is_key_char_def is_space_def is_alpha_def is_digit_def)

lemma scan_plain:
  "list_all (\<lambda>c. c \<noteq> CHR 0x22 \<and> c \<noteq> CHR 0x5C) t \<Longrightarrow> scan_quoted CHR 0x22 (t @ CHR 0x22 # rest) = Some (t, rest)"
  by (induction t) auto

lemma skip_spaces_Cons [simp]:
  "skip_spaces (CHR '' '' # s) = skip_spaces s" "\<not> is_space c \<Longrightarrow> skip_spaces (c # s) = c # s"
  by (simp_all add: skip_spaces_def) (simp add: is_space_def)

lemma skip_spaces_nonspace: "x \<noteq> [] \<Longrightarrow> \<not> is_space (hd x) \<Longrightarrow> skip_spaces (x @ s) = x @ s"
  by (cases x) simp_all

lemma parse_op_symbol: "parse_op (skip_spaces (CHR '' '' # filter_op_symbol op @ CHR '' '' # s)) = Some (op, CHR '' '' # s)"
  by (cases op) (simp_all add: is_space_def parse_op_def)

lemma takeWhile_list_all: "list_all P xs \<Longrightarrow> takeWhile P (xs @ ys) = xs @ takeWhile P ys"
  "list_all P xs \<Longrightarrow> dropWhile P (xs @ ys) = dropWhile P ys"
  by (induction xs) simp_all

lemma parse_printed:
  assumes p: "printable c" and r: "rest = [] \<or> is_space (hd rest)"
  shows "parse_condition strtod (condition_to_string show_double c @ rest) = Inr (c, rest)"
proof -
  obtain key op v where c: "c = \<lparr>fc_key = key, fc_op = op, fc_value = v\<rparr>" by (cases c) auto
  have k: "key \<noteq> []" "list_all is_key_char key" and v: "printable_value v" using p by (simp_all add: printable_def c)
  have hk: "\<not> is_space (hd key)" using k by (cases key) (auto dest: key_char_not_space)
  have sp: "\<not> is_key_char CHR '' ''" using key_char_not_space [of "CHR '' ''"] by (auto simp: is_space_def)
  define vt where "vt = (case v of MText s \<Rightarrow> [CHR 0x22] @ s @ [CHR 0x22] | v \<Rightarrow> to_display_string show_double v)"
  have tok: "skip_spaces (CHR '' '' # vt @ rest) = vt @ rest \<and> vt @ rest \<noteq> [] \<and>
      (\<exists>token quoted. parse_token (vt @ rest) = Inr (token, quoted, rest) \<and> parse_value strtod token quoted = v)"
  proof (cases v)
    case (MText s)
    then show ?thesis using v scan_plain [of s rest] by (simp add: vt_def ex_bool_eq parse_token_def is_space_def parse_value_def)
  next
    case (MInt i)
    have b: "show_int (sint i) \<noteq> []" "list_all (\<lambda>c. \<not> is_space c) (show_int (sint i))"
      and q: "hd (show_int (sint i)) \<noteq> CHR 0x22" "hd (show_int (sint i)) \<noteq> CHR 0x27" "\<not> is_space (hd (show_int (sint i)))"
      using show_int_bare [of "sint i"] by (auto simp: list_all_iff)
    have "takeWhile (\<lambda>c. \<not> is_space c) rest = []" "dropWhile (\<lambda>c. \<not> is_space c) rest = rest"
      using r by (cases rest; simp)+
    then show ?thesis
      using MInt b q by (simp add: vt_def ex_bool_eq parse_token_def takeWhile_list_all skip_spaces_nonspace parse_value_def from_chars_show)
  qed (use v in simp_all)
  then obtain token quoted where t: "skip_spaces (CHR '' '' # vt @ rest) = vt @ rest" "vt @ rest \<noteq> []"
    "parse_token (vt @ rest) = Inr (token, quoted, rest)" "parse_value strtod token quoted = v" by blast
  have printed: "condition_to_string show_double c @ rest = key @ CHR '' '' # filter_op_symbol op @ CHR '' '' # vt @ rest"
    by (simp add: condition_to_string_def c vt_def)
  have key: "skip_spaces (key @ s) = key @ s" "takeWhile is_key_char (key @ CHR '' '' # s) = key"
    "dropWhile is_key_char (key @ CHR '' '' # s) = CHR '' '' # s" for s
    using k hk sp by (simp_all add: skip_spaces_nonspace takeWhile_list_all)
  show ?thesis
    unfolding printed parse_condition_def Let_def key parse_op_symbol using k(1) t by (simp add: c guard_throw_def del: skip_spaces_Cons)
qed

lemma parse_printed_filter:
  "list_all printable (c # cs) \<Longrightarrow> parse_conditions strtod (filter_to_string show_double (c # cs)) = Inr (c # cs)"
proof (induction cs arbitrary: c)
  case Nil
  then show ?case
    using parse_printed [of c "[]" strtod show_double]
    by (subst parse_conditions.simps) (simp add: skip_spaces_def)
next
  case (Cons d ds)
  let ?rest = "filter_to_string show_double (d # ds)"
  have t: "filter_to_string show_double (c # d # ds) = condition_to_string show_double c @ '' and '' @ ?rest" by simp
  have p: "parse_condition strtod (condition_to_string show_double c @ '' and '' @ ?rest) = Inr (c, '' and '' @ ?rest)"
    using parse_printed [of c "'' and '' @ ?rest" strtod show_double] Cons.prems by (simp add: is_space_def)
  have kw: "skip_spaces ('' and '' @ ?rest) = ''and '' @ ?rest" by (simp add: is_space_def)
  have a: "takeWhile is_alpha (''and '' @ ?rest) = ''and''" "dropWhile is_alpha (''and '' @ ?rest) = '' '' @ ?rest"
    by (simp_all add: is_alpha_def)
  have skip: "parse_conditions strtod ('' '' @ ?rest) = parse_conditions strtod ?rest"
    by (subst (1 2) parse_conditions.simps) (simp add: parse_condition_def)
  show ?case
    unfolding t using Cons.IH [of d] Cons.prems
    by (subst parse_conditions.simps) (simp add: p kw a skip to_lower_def del: append.simps filter_to_string.simps)
qed

section \<open>What a condition accepts\<close>

text \<open>A number that is not NaN.\<close>

definition real_number :: "metadata_value \<Rightarrow> bool" where
  "real_number v \<longleftrightarrow> is_numeric v \<and> \<not> is_nanv (f64_val (as_double v))"

text \<open>Comparable values: two such numbers, two texts, or two nulls.\<close>

definition comparable :: "metadata_value \<Rightarrow> metadata_value \<Rightarrow> bool" where
  "comparable v w \<longleftrightarrow> real_number v \<and> real_number w \<or> (\<exists>s t. v = MText s \<and> w = MText t) \<or> v = MNull \<and> w = MNull"

lemma str_compare_swap: "str_compare t s = - str_compare s t"
  by (induction s t rule: str_compare.induct) auto

lemma str_compare_eq: "str_compare s t = 0 \<longleftrightarrow> s = t"
proof (induction s t rule: str_compare.induct)
  case (4 c cs d ds)
  then show ?case by (cases "(of_char c :: nat) < of_char d \<or> (of_char d :: nat) < of_char c") (auto simp: linorder_neq_iff)
qed auto

definition str_less :: "string \<Rightarrow> string \<Rightarrow> bool" where
  "str_less s t \<longleftrightarrow> str_compare s t < 0"

lemma str_less_trans: "str_less a b \<Longrightarrow> str_less b c \<Longrightarrow> str_less a c"
  unfolding str_less_def
proof (induction a c arbitrary: b rule: str_compare.induct)
  case (4 x xs y ys)
  then show ?case by (cases b) (auto split: if_splits)
next
  case (3 c cs)
  then show ?case by (cases b) (auto split: if_splits)
qed (case_tac b; auto split: if_splits)+

lemma str_less_irrefl [simp]: "\<not> str_less a a"
  by (simp add: str_less_def str_compare_eq [THEN iffD2])

lemma str_less_asym: "str_less a b \<Longrightarrow> \<not> str_less b a"
  using str_less_trans str_less_irrefl by blast

lemma str_less_distinct: "sorted_wrt str_less ks \<Longrightarrow> distinct ks"
  by (induction ks) auto

lemma str_less_unique: "sorted_wrt str_less xs \<Longrightarrow> sorted_wrt str_less ys \<Longrightarrow> set xs = set ys \<Longrightarrow> xs = ys"
proof (induction xs arbitrary: ys)
  case Nil
  then show ?case by simp
next
  case (Cons x xs)
  then obtain y ys' where ys: "ys = y # ys'" by (cases ys) auto
  have "x = y" using Cons.prems str_less_asym by (auto simp: ys) (metis insertI1 insert_iff)
  moreover have "set xs = set ys'"
    using Cons.prems str_less_distinct [OF Cons.prems(1)] str_less_distinct [OF Cons.prems(2)] calculation by (auto simp: ys)
  ultimately show ?case using Cons by (simp add: ys)
qed

lemma compare_comparable:
  "comparable v w \<Longrightarrow> \<exists>n. compare_values v w = Some n \<and> compare_values w v = Some (- n)"
proof -
  assume c: "comparable v w"
  have num: ?thesis if "is_numeric v" "is_numeric w"
    using that flt_asym [of "f64_val (as_double v)" "f64_val (as_double w)"] by (auto simp: Let_def f64_lt_def)
  have ?thesis if "v = MText s" "w = MText t" for s t
    using that str_compare_swap [of t s] by simp
  moreover have ?thesis if "v = MNull" "w = MNull" using that by simp
  ultimately show ?thesis using num c unfolding comparable_def real_number_def by blast
qed

text \<open>A 54-bit integer is halved by the rounding to a double.\<close>

lemma rne_scale: "0 < k \<Longrightarrow> rne (p * k) (q * k) = rne p q"
proof -
  assume k: "0 < k"
  have "p * k mod (q * k) = p mod q * k" by (simp add: mult_mod_left)
  then show ?thesis using k by (simp add: rne_def Let_def)
qed

lemma floorlog_54: "2 ^ 53 \<le> n \<Longrightarrow> n < 2 ^ 54 \<Longrightarrow> floorlog 2 n = 54"
  using floorlog_leI [of n 2 54] floorlog_geI [of 2 54 n] by (intro order_antisym) simp_all

lemma f64_of_int_54:
  assumes "floorlog 2 a = 54"
  shows "f64_of_int (int a) = f64_of (let n = rne a 2 * 2 ^ 1075 in if 2 ^ 2098 \<le> n then FInf False else FFin False n)"
proof -
  have a: "0 < a" using assms by (cases "a = 0") (simp_all add: floorlog_def)
  have "floorlog 2 (a * 2 ^ 1074) = 1128" using floorlog_power [of a 2 1074] assms a by simp
  then have "round_mag binary64 (a * 2 ^ 1074) 1 = rne (a * 2 ^ 1074) (1 * 2 ^ 1075) * 2 ^ 1075"
    by (simp only: round_mag_def Let_def div_by_1 prec_std) simp
  also have "(2 :: nat) ^ 1075 = 2 * 2 ^ 1074" by (rule power_Suc [of 2 1074, simplified])
  finally have "round_mag binary64 (a * 2 ^ 1074) 1 = rne a 2 * 2 ^ 1075"
    using rne_scale [of "2 ^ 1074" a 2] by simp
  then show ?thesis by (simp only: f64_of_int_def fround_def funit_std ftop_std abs_of_nat nat_int of_nat_less_0_iff)
qed

section \<open>Properties\<close>

text \<open>C34: parsing what the printer produced gives the filter back, for every filter whose conditions have keys of key
  characters and integer values or text without quotes and backslashes.\<close>

theorem filter_round_trip:
  assumes "list_all printable f"
  shows "filter_parse strtod (filter_to_string show_double f) = Inr f"
proof (cases f)
  case Nil
  then show ?thesis by (simp add: filter_parse_def skip_spaces_def)
next
  case (Cons c cs)
  have "fc_key c \<noteq> []" "list_all is_key_char (fc_key c)" using assms Cons by (simp_all add: printable_def)
  then have k: "filter_to_string show_double f \<noteq> [] \<and> \<not> is_space (hd (filter_to_string show_double f))"
    using Cons by (cases cs; cases "fc_key c") (auto simp: condition_to_string_def dest: key_char_not_space)
  then have "skip_spaces (filter_to_string show_double f) = filter_to_string show_double f"
    using skip_spaces_nonspace [of "filter_to_string show_double f" "[]"] by simp
  then show ?thesis using k parse_printed_filter [of c cs strtod show_double] assms Cons by (simp add: filter_parse_def)
qed

theorem filter_round_trip_witness:
  "filter_parse (\<lambda>_. (0, 0)) ''year >= 2020 and kind == \"a b\"'' =
     Inr [\<lparr>fc_key = ''year'', fc_op = OpGreaterEqual, fc_value = MInt 2020\<rparr>,
          \<lparr>fc_key = ''kind'', fc_op = OpEqual, fc_value = MText ''a b''\<rparr>]"
proof -
  let ?f = "[\<lparr>fc_key = ''year'', fc_op = OpGreaterEqual, fc_value = MInt 2020\<rparr>,
          \<lparr>fc_key = ''kind'', fc_op = OpEqual, fc_value = MText ''a b''\<rparr>]"
  have "filter_to_string (\<lambda>_. '''') ?f = ''year >= 2020 and kind == \"a b\"''"
    by code_simp
  moreover have "list_all printable ?f" by (simp add: printable_def is_key_char_def is_alpha_def is_digit_def)
  ultimately show ?thesis using filter_round_trip [of ?f "\<lambda>_. (0, 0)" "\<lambda>_. ''''"] by simp
qed

text \<open>Further: a text value with a quote in it is printed without escaping, and the text so printed does not parse.\<close>

theorem filter_print_not_escaped:
  "filter_to_string show_double [\<lparr>fc_key = ''k'', fc_op = OpEqual, fc_value = MText [CHR 0x22]\<rparr>] = ''k == \"\"\"'' \<and>
   filter_parse strtod (filter_to_string show_double [\<lparr>fc_key = ''k'', fc_op = OpEqual, fc_value = MText [CHR 0x22]\<rparr>]) =
     Inl InvalidArgumentError"
  by (simp add: condition_to_string_def filter_parse_def parse_conditions.simps parse_condition_def parse_op_def
      parse_token_def is_key_char_def is_alpha_def is_digit_def is_space_def Let_def)

text \<open>Further: the six operators on comparable values are one order: exactly one of less, equal and greater holds, the other
  three are their negations, and swapping the sides swaps less and greater; equal texts are the same text.\<close>

theorem comparison_trichotomy:
  assumes "comparable v w"
  shows "\<exists>n. compare_values v w = Some n \<and> compare_values w v = Some (- n) \<and>
    (order_matches OpNotEqual n \<longleftrightarrow> \<not> order_matches OpEqual n) \<and>
    (order_matches OpGreaterEqual n \<longleftrightarrow> \<not> order_matches OpLess n) \<and>
    (order_matches OpLessEqual n \<longleftrightarrow> \<not> order_matches OpGreater n) \<and>
    (order_matches OpLess n \<longleftrightarrow> order_matches OpGreater (- n)) \<and>
    ((\<exists>s t. v = MText s \<and> w = MText t) \<longrightarrow> (order_matches OpEqual n \<longleftrightarrow> v = w))"
  using compare_comparable [OF assms] by (auto simp: str_compare_eq)

theorem comparison_trichotomy_witness:
  "\<exists>n. compare_values (MText ''a'') (MText ''b'') = Some n \<and> order_matches OpLess n"
  using comparison_trichotomy [of "MText ''a''" "MText ''b''"] by (auto simp: comparable_def)

text \<open>Further: a missing key never matches, not even with a negated operator, so a filter with a condition matches no vector
  without metadata; values of different kinds never match either; an empty filter matches everything.\<close>

theorem missing_key_never_matches:
  "(map_of md (fc_key c) = None \<longrightarrow> \<not> condition_matches c md) \<and> (f \<noteq> [] \<longrightarrow> \<not> filter_matches f []) \<and> filter_matches [] md \<and>
   (map_of md (fc_key c) = Some (MText s) \<and> is_numeric (fc_value c) \<longrightarrow> \<not> condition_matches c md)"
  by (cases "fc_value c"; cases f) (auto simp: condition_matches_def filter_matches_def)

theorem missing_key_never_matches_witness:
  "\<not> filter_matches [\<lparr>fc_key = ''k'', fc_op = OpNotEqual, fc_value = MInt 1\<rparr>] []"
  using missing_key_never_matches [of "[]" _ "[\<lparr>fc_key = ''k'', fc_op = OpNotEqual, fc_value = MInt 1\<rparr>]"] by simp

text \<open>Further: outside those values the order breaks down: a NaN compares equal to every number, and integers are compared
  after rounding to doubles, so two different integers can be equal.\<close>

theorem comparison_pitfalls:
  "compare_values (MReal 0x7FF8000000000000) (MInt i) = Some 0 \<and>
   compare_values (MInt 0x20000000000001) (MInt 0x20000000000000) = Some 0"
proof
  have "f64_val 0x7FF8000000000000 = FNaN" by (simp add: feval cong: let_weak_cong)
  then show "compare_values (MReal 0x7FF8000000000000) (MInt i) = Some 0" by (simp add: f64_lt_def)
  have "rne 9007199254740993 2 = rne 9007199254740992 2" by (simp add: rne_def)
  moreover have "floorlog 2 9007199254740993 = 54" "floorlog 2 9007199254740992 = 54"
    by (rule floorlog_54; simp)+
  ultimately have "f64_of_int (int 9007199254740993) = f64_of_int (int 9007199254740992)"
    by (simp only: f64_of_int_54)
  then show "compare_values (MInt 0x20000000000001) (MInt 0x20000000000000) = Some 0"
    by (simp add: f64_lt_def)
qed

end
