(* ===== verification/Vdb_Sqlite.thy ===== *)
theory Vdb_Sqlite
  imports Vdb_Action Vdb_Filter
begin

text \<open>
  The wrappers around SQLite (\<^verbatim>\<open>src/storage/sqlite.cpp\<close>): connections, prepared statements with their
  bindings and their run state, and transactions. SQLite itself is the parameter \<open>sq\<close>: functions on an
  opaque database state. A prepared statement that was stepped and not reset refuses bindings, as the
  library documents; the wrapper's state machine is modelled with that.
\<close>

section \<open>The library\<close>

datatype sql_value = SqlNull | SqlInt u64 | SqlReal f64 | SqlText string

type_synonym sql_row = "sql_value list"

text \<open>
  Running a statement gives the rows it delivers and whether it then ends normally. Columns of another
  type than the one asked for are converted by the library.
\<close>

record 'db sqlite =
  sq_exec :: "string \<Rightarrow> 'db \<Rightarrow> bool \<times> 'db"
  sq_prepare :: "string \<Rightarrow> 'db \<Rightarrow> bool"
  sq_query :: "string \<Rightarrow> sql_value list \<Rightarrow> 'db \<Rightarrow> (sql_row list \<times> bool) \<times> 'db"
  sq_to_int :: "sql_value \<Rightarrow> u64"
  sq_to_real :: "sql_value \<Rightarrow> f64"
  sq_to_text :: "sql_value \<Rightarrow> string"

definition connection_execute :: "'db sqlite \<Rightarrow> string \<Rightarrow> ('db, unit) act" where
  "connection_execute sq sql db =
     (case sq_exec sq sql db of (ok, db) \<Rightarrow> (if ok then Inr () else Inl MetadataError, db))"

definition kPragmas :: string where
  "kPragmas = ''PRAGMA journal_mode = WAL;'' @ ''PRAGMA synchronous = NORMAL;'' @ ''PRAGMA foreign_keys = ON;'' @
     ''PRAGMA temp_store = MEMORY;''"

text \<open>\<open>opened\<close> is what \<^verbatim>\<open>sqlite3_open_v2\<close> gave: a database, or none when it failed.\<close>

definition connection_open :: "'db sqlite \<Rightarrow> 'db option \<Rightarrow> 'db result" where
  "connection_open sq opened =
     (case opened of
        None \<Rightarrow> Inl MetadataError
      | Some db \<Rightarrow> (case connection_execute sq kPragmas db of (Inl e, _) \<Rightarrow> Inl e | (Inr _, db) \<Rightarrow> Inr db))"

section \<open>Statements\<close>

record statement =
  st_sql :: string
  st_params :: "sql_value list"
  st_run :: "(sql_row list \<times> bool) option"

definition st_new :: "string \<Rightarrow> statement" where
  "st_new sql = \<lparr>st_sql = sql, st_params = replicate (count_list sql CHR ''?'') SqlNull, st_run = None\<rparr>"

definition statement_prepare :: "'db sqlite \<Rightarrow> string \<Rightarrow> ('db, statement) act" where
  "statement_prepare sq sql db = (if sq_prepare sq sql db then Inr (st_new sql) else Inl MetadataError, db)"

text \<open>An action on a database and a statement.\<close>

type_synonym ('db, 'a) stmt_act = "('db \<times> statement, 'a) act"

text \<open>The four \<^verbatim>\<open>bind_*\<close> members; indices count from 1.\<close>

definition bind_param :: "nat \<Rightarrow> sql_value \<Rightarrow> ('db, unit) stmt_act" where
  "bind_param i v s =
     (case s of (db, st) \<Rightarrow>
       if st_run st \<noteq> None \<or> i = 0 \<or> length (st_params st) < i then (Inl MetadataError, s)
       else (Inr (), (db, st\<lparr>st_params := (st_params st)[i - 1 := v]\<rparr>)))"

definition bind_null :: "nat \<Rightarrow> ('db, unit) stmt_act" where
  "bind_null i = bind_param i SqlNull"

definition bind_int64 :: "nat \<Rightarrow> u64 \<Rightarrow> ('db, unit) stmt_act" where
  "bind_int64 i v = bind_param i (SqlInt v)"

definition bind_double :: "nat \<Rightarrow> f64 \<Rightarrow> ('db, unit) stmt_act" where
  "bind_double i v = bind_param i (SqlReal v)"

definition bind_text :: "nat \<Rightarrow> string \<Rightarrow> ('db, unit) stmt_act" where
  "bind_text i v = bind_param i (SqlText v)"

text \<open>\<^verbatim>\<open>step()\<close>: the next row, or none at the end.\<close>

definition stmt_step :: "'db sqlite \<Rightarrow> ('db, sql_row option) stmt_act" where
  "stmt_step sq s =
     (case s of (db, st) \<Rightarrow>
       let (run, db) = (case st_run st of Some r \<Rightarrow> (r, db) | None \<Rightarrow> sq_query sq (st_sql st) (st_params st) db) in
       case run of
         (row # rows, ok) \<Rightarrow> (Inr (Some row), (db, st\<lparr>st_run := Some (rows, ok)\<rparr>))
       | ([], ok) \<Rightarrow> (if ok then Inr None else Inl MetadataError, (db, st\<lparr>st_run := Some ([], ok)\<rparr>)))"

definition stmt_reset :: "('db, unit) stmt_act" where
  "stmt_reset s =
     (case s of (db, st) \<Rightarrow> (Inr (), (db, st\<lparr>st_params := replicate (length (st_params st)) SqlNull, st_run := None\<rparr>)))"

definition stmt_run :: "'db sqlite \<Rightarrow> ('db, unit) stmt_act" where
  "stmt_run sq =
     abind (stmt_step sq) (\<lambda>row.
     case row of Some _ \<Rightarrow> athrow MetadataError | None \<Rightarrow> stmt_reset)"

text \<open>The loop \<^verbatim>\<open>while (statement.step())\<close>, collecting the rows; it has no more rounds than there are rows.\<close>

function stmt_rows :: "'db sqlite \<Rightarrow> sql_row list \<Rightarrow> ('db, sql_row list) stmt_act" where
  "stmt_rows sq acc s =
     (case stmt_step sq s of
        (Inl e, s) \<Rightarrow> (Inl e, s)
      | (Inr None, s) \<Rightarrow> (Inr acc, s)
      | (Inr (Some row), s) \<Rightarrow> stmt_rows sq (acc @ [row]) s)"
  by pat_completeness auto
termination
  by (relation "measure (\<lambda>(sq, acc, (db, st)). case st_run st of None \<Rightarrow> Suc (length (fst (fst (sq_query sq (st_sql st) (st_params st) db)))) | Some (rows, _) \<Rightarrow> length rows)")
    (auto simp: stmt_step_def Let_def split: prod.splits list.splits option.splits if_splits)

declare stmt_rows.simps [simp del]

definition column_int64 :: "'db sqlite \<Rightarrow> sql_row \<Rightarrow> nat \<Rightarrow> u64" where
  "column_int64 sq row i = (case row ! i of SqlInt v \<Rightarrow> v | SqlNull \<Rightarrow> 0 | v \<Rightarrow> sq_to_int sq v)"

definition column_double :: "'db sqlite \<Rightarrow> sql_row \<Rightarrow> nat \<Rightarrow> f64" where
  "column_double sq row i = (case row ! i of SqlReal v \<Rightarrow> v | SqlNull \<Rightarrow> 0 | v \<Rightarrow> sq_to_real sq v)"

definition column_text :: "'db sqlite \<Rightarrow> sql_row \<Rightarrow> nat \<Rightarrow> string" where
  "column_text sq row i = (case row ! i of SqlText v \<Rightarrow> v | SqlNull \<Rightarrow> '''' | v \<Rightarrow> sq_to_text sq v)"

section \<open>Transactions\<close>

text \<open>The object is its flag \<open>finished\<close>.\<close>

definition transaction_new :: "'db sqlite \<Rightarrow> ('db, bool) act" where
  "transaction_new sq = abind (connection_execute sq ''BEGIN IMMEDIATE'') (\<lambda>_. aret False)"

definition transaction_destroy :: "'db sqlite \<Rightarrow> bool \<Rightarrow> 'db \<Rightarrow> 'db" where
  "transaction_destroy sq finished db = (if finished then db else snd (connection_execute sq ''ROLLBACK'' db))"

definition transaction_commit :: "'db sqlite \<Rightarrow> bool \<Rightarrow> ('db, bool) act" where
  "transaction_commit sq finished = abind (connection_execute sq ''COMMIT'') (\<lambda>_. aret True)"

end
