(* ===== verification/Vdb_MetadataStore.thy ===== *)
theory Vdb_MetadataStore
  imports Vdb_Sqlite
begin

text \<open>
  The metadata store (\<^verbatim>\<open>src/storage/metadata_store.cpp\<close>): its cached statements, nested transactions, and
  every operation, with the SQL text it runs. The mutex is not state of the model (one operation at a
  time). What SQLite promises of those texts is the predicate \<open>sqlite_laws\<close>, over the rows a database state
  stands for.
\<close>

section \<open>State\<close>

definition kSchemaVersion :: nat where
  "kSchemaVersion = 1"

definition sql_insert_value :: string where
  "sql_insert_value = ''INSERT OR REPLACE INTO metadata'' @ ''(vector_id, key, value_type, int_value, real_value, text_value) '' @
     ''VALUES(?, ?, ?, ?, ?, ?)''"

definition sql_select_by_vector :: string where
  "sql_select_by_vector = ''SELECT key, value_type, int_value, real_value, text_value '' @
     ''FROM metadata WHERE vector_id = ? ORDER BY key''"

definition sql_delete_by_vector :: string where
  "sql_delete_by_vector = ''DELETE FROM metadata WHERE vector_id = ?''"

definition sql_delete_key :: string where
  "sql_delete_key = ''DELETE FROM metadata WHERE vector_id = ? AND key = ?''"

definition sql_set_config :: string where
  "sql_set_config = ''INSERT OR REPLACE INTO schema_info(key, value) VALUES(?, ?)''"

definition sql_get_config :: string where
  "sql_get_config = ''SELECT value FROM schema_info WHERE key = ?''"

definition sql_schema_version :: string where
  "sql_schema_version = ''INSERT OR IGNORE INTO schema_info(key, value) '' @ ''VALUES('' @ [CHR 0x27] @ ''schema_version'' @
     [CHR 0x27] @ '', ?)''"

definition sql_count_key :: string where
  "sql_count_key = ''SELECT COUNT(*) FROM metadata WHERE vector_id = ? AND key = ?''"

definition sql_count_vector :: string where
  "sql_count_vector = ''SELECT COUNT(*) FROM metadata WHERE vector_id = ?''"

definition sql_select_all :: string where
  "sql_select_all = ''SELECT vector_id, key, value_type, int_value, real_value, text_value '' @
     ''FROM metadata ORDER BY vector_id, key''"

definition sql_count_distinct :: string where
  "sql_count_distinct = ''SELECT COUNT(DISTINCT vector_id) FROM metadata''"

definition sql_count_rows :: string where
  "sql_count_rows = ''SELECT COUNT(*) FROM metadata''"

definition sql_keys :: string where
  "sql_keys = ''SELECT DISTINCT key FROM metadata ORDER BY key''"

definition sql_all_config :: string where
  "sql_all_config = ''SELECT key, value FROM schema_info ORDER BY key''"

definition sql_vectors :: string where
  "sql_vectors = ''SELECT DISTINCT vector_id FROM metadata ORDER BY vector_id''"

text \<open>\<open>ms_transaction\<close> is the owned transaction object, when there is one.\<close>

record 'db mstore =
  ms_db :: 'db
  ms_insert_value :: statement
  ms_select_by_vector :: statement
  ms_delete_by_vector :: statement
  ms_delete_key :: statement
  ms_set_config_value :: statement
  ms_get_config_value :: statement
  ms_transaction :: "bool option"
  ms_depth :: nat

type_synonym ('db, 'a) ms_act = "('db mstore, 'a) act"

text \<open>An action on a cached statement, and one on a statement of its own that is finalised at the end.\<close>

definition cached ::
    "('db mstore \<Rightarrow> statement) \<Rightarrow> ((statement \<Rightarrow> statement) \<Rightarrow> 'db mstore \<Rightarrow> 'db mstore) \<Rightarrow> ('db, 'a) stmt_act \<Rightarrow>
     ('db, 'a) ms_act" where
  "cached get upd m s = (case m (ms_db s, get s) of (r, (db, st)) \<Rightarrow> (r, upd (\<lambda>_. st) (s\<lparr>ms_db := db\<rparr>)))"

definition on_db :: "('db, 'a) act \<Rightarrow> ('db, 'a) ms_act" where
  "on_db m s = (case m (ms_db s) of (r, db) \<Rightarrow> (r, s\<lparr>ms_db := db\<rparr>))"

definition local_statement :: "'db sqlite \<Rightarrow> string \<Rightarrow> ('db, 'a) stmt_act \<Rightarrow> ('db, 'a) act" where
  "local_statement sq sql m =
     abind (statement_prepare sq sql) (\<lambda>st db. case m (db, st) of (r, (db, _)) \<Rightarrow> (r, db))"

section \<open>Opening\<close>

text \<open>
  The constructor, with the schema script as a parameter (it is passed to SQLite as it is).
\<close>

definition ms_open :: "'db sqlite \<Rightarrow> string \<Rightarrow> 'db option \<Rightarrow> 'db mstore result" where
  "ms_open sq schema opened =
     rbind (connection_open sq opened) (\<lambda>db.
       fst ((abind (connection_execute sq schema) (\<lambda>_.
             abind (local_statement sq sql_schema_version
                      (abind (bind_text 1 (show_nat kSchemaVersion)) (\<lambda>_. stmt_run sq))) (\<lambda>_.
             abind (statement_prepare sq sql_insert_value) (\<lambda>ins.
             abind (statement_prepare sq sql_select_by_vector) (\<lambda>sel.
             abind (statement_prepare sq sql_delete_by_vector) (\<lambda>del.
             abind (statement_prepare sq sql_delete_key) (\<lambda>delk.
             abind (statement_prepare sq sql_set_config) (\<lambda>setc.
             abind (statement_prepare sq sql_get_config) (\<lambda>getc db.
             (Inr \<lparr>ms_db = db, ms_insert_value = ins, ms_select_by_vector = sel, ms_delete_by_vector = del,
                ms_delete_key = delk, ms_set_config_value = setc, ms_get_config_value = getc,
                ms_transaction = None, ms_depth = 0\<rparr>, db))))))))))
            db))"

section \<open>Transactions\<close>

text \<open>
  The assignment to the owning pointer destroys the transaction it held before. The depth is counted
  before the transaction is begun.
\<close>

definition begin_locked :: "'db sqlite \<Rightarrow> ('db, unit) ms_act" where
  "begin_locked sq s =
     (let d = ms_depth s; s = s\<lparr>ms_depth := d + 1\<rparr> in
      if d = 0 then
        abind (on_db (transaction_new sq)) (\<lambda>t s.
          (Inr (), (case ms_transaction s of
             None \<Rightarrow> s | Some old \<Rightarrow> s\<lparr>ms_db := transaction_destroy sq old (ms_db s)\<rparr>)\<lparr>ms_transaction := Some t\<rparr>)) s
      else (Inr (), s))"

text \<open>A commit without a transaction would dereference a null pointer.\<close>

definition commit_locked :: "'db sqlite \<Rightarrow> ('db, unit) ms_act" where
  "commit_locked sq s =
     (if ms_depth s = 0 then (Inr (), s)
      else let s = s\<lparr>ms_depth := ms_depth s - 1\<rparr> in
        if ms_depth s = 0 then
          (case ms_transaction s of
             None \<Rightarrow> (Inl StdException, s)
           | Some t \<Rightarrow> abind (on_db (transaction_commit sq t)) (\<lambda>t s.
               (Inr (), s\<lparr>ms_db := transaction_destroy sq t (ms_db s), ms_transaction := None\<rparr>)) s)
        else (Inr (), s))"

definition rollback_locked :: "'db sqlite \<Rightarrow> 'db mstore \<Rightarrow> 'db mstore" where
  "rollback_locked sq s =
     (let s = s\<lparr>ms_depth := 0\<rparr> in
      (case ms_transaction s of None \<Rightarrow> s | Some t \<Rightarrow> s\<lparr>ms_db := transaction_destroy sq t (ms_db s)\<rparr>)\<lparr>ms_transaction := None\<rparr>)"

definition in_transaction :: "'db sqlite \<Rightarrow> ('db, unit) ms_act \<Rightarrow> ('db, unit) ms_act" where
  "in_transaction sq body =
     abind (begin_locked sq) (\<lambda>_.
     abind (acatch body (\<lambda>e s. (Inl e, rollback_locked sq s))) (\<lambda>_.
     commit_locked sq))"

section \<open>Writing\<close>

definition bind_value :: "metadata_value \<Rightarrow> ('db, unit) stmt_act" where
  "bind_value v =
     abind (bind_int64 3 (word_of_nat (metadata_type_code (type_of v)))) (\<lambda>_.
     abind (bind_null 4) (\<lambda>_.
     abind (bind_null 5) (\<lambda>_.
     abind (bind_null 6) (\<lambda>_.
     case v of MInt i \<Rightarrow> bind_int64 4 i | MReal x \<Rightarrow> bind_double 5 x | MText s \<Rightarrow> bind_text 6 s | MNull \<Rightarrow> aret ()))))"

definition insert_row :: "'db sqlite \<Rightarrow> u64 \<Rightarrow> string \<Rightarrow> metadata_value \<Rightarrow> ('db, unit) ms_act" where
  "insert_row sq vid k v = cached ms_insert_value ms_insert_value_update
     (abind (bind_int64 1 vid) (\<lambda>_.
      abind (bind_text 2 k) (\<lambda>_.
      abind (bind_value v) (\<lambda>_.
      stmt_run sq))))"

definition delete_vector :: "'db sqlite \<Rightarrow> u64 \<Rightarrow> ('db, unit) ms_act" where
  "delete_vector sq vid = cached ms_delete_by_vector ms_delete_by_vector_update
     (abind (bind_int64 1 vid) (\<lambda>_. stmt_run sq))"

fun insert_rows :: "'db sqlite \<Rightarrow> u64 \<Rightarrow> metadata \<Rightarrow> ('db, unit) ms_act" where
  "insert_rows sq vid [] = aret ()"
| "insert_rows sq vid ((k, v) # md) = abind (insert_row sq vid k v) (\<lambda>_. insert_rows sq vid md)"

definition ms_set :: "'db sqlite \<Rightarrow> u64 \<Rightarrow> metadata \<Rightarrow> ('db, unit) ms_act" where
  "ms_set sq vid md =
     abind (aguard (list_ex (\<lambda>(k, v). k = []) md) InvalidArgumentError) (\<lambda>_.
     abind (begin_locked sq) (\<lambda>_.
     abind (acatch (abind (delete_vector sq vid) (\<lambda>_. insert_rows sq vid md)) (\<lambda>e s. (Inl e, rollback_locked sq s))) (\<lambda>_.
     commit_locked sq)))"

definition ms_set_key :: "'db sqlite \<Rightarrow> u64 \<Rightarrow> string \<Rightarrow> metadata_value \<Rightarrow> ('db, unit) ms_act" where
  "ms_set_key sq vid k v = abind (aguard (k = []) InvalidArgumentError) (\<lambda>_. insert_row sq vid k v)"

text \<open>\<^verbatim>\<open>count.step() && count.column_int64(0) > 0\<close>, and the reset that follows.\<close>

definition count_positive :: "'db sqlite \<Rightarrow> ('db, bool) stmt_act" where
  "count_positive sq =
     abind (stmt_step sq) (\<lambda>row.
     abind stmt_reset (\<lambda>_.
     aret (case row of None \<Rightarrow> False | Some r \<Rightarrow> 0 <s column_int64 sq r 0)))"

definition ms_remove_key :: "'db sqlite \<Rightarrow> u64 \<Rightarrow> string \<Rightarrow> ('db, bool) ms_act" where
  "ms_remove_key sq vid k =
     abind (on_db (local_statement sq sql_count_key
              (abind (bind_int64 1 vid) (\<lambda>_. abind (bind_text 2 k) (\<lambda>_. count_positive sq))))) (\<lambda>present.
     if \<not> present then aret False
     else abind (cached ms_delete_key ms_delete_key_update
                   (abind (bind_int64 1 vid) (\<lambda>_. abind (bind_text 2 k) (\<lambda>_. stmt_run sq)))) (\<lambda>_. aret True))"

definition ms_remove :: "'db sqlite \<Rightarrow> u64 \<Rightarrow> ('db, bool) ms_act" where
  "ms_remove sq vid =
     abind (on_db (local_statement sq sql_count_vector
              (abind (bind_int64 1 vid) (\<lambda>_. count_positive sq)))) (\<lambda>present.
     if \<not> present then aret False
     else abind (delete_vector sq vid) (\<lambda>_. aret True))"

section \<open>Reading\<close>

text \<open>\<^verbatim>\<open>metadata[key] = value\<close> in the ordered map.\<close>

fun md_put :: "string \<Rightarrow> metadata_value \<Rightarrow> metadata \<Rightarrow> metadata" where
  "md_put k v [] = [(k, v)]"
| "md_put k v ((k', v') # md) =
     (if str_compare k k' < 0 then (k, v) # (k', v') # md
      else if k = k' then (k, v) # md
      else (k', v') # md_put k v md)"

text \<open>The switch over the stored type; \<open>i\<close> is the column of the type. Another code leaves the map alone.\<close>

definition put_typed :: "'db sqlite \<Rightarrow> sql_row \<Rightarrow> nat \<Rightarrow> string \<Rightarrow> metadata \<Rightarrow> metadata" where
  "put_typed sq row i k md =
     (let type = ucast (column_int64 sq row i) :: u8 in
      if type = 1 then md_put k (MInt (column_int64 sq row (i + 1))) md
      else if type = 2 then md_put k (MReal (column_double sq row (i + 2))) md
      else if type = 3 then md_put k (MText (column_text sq row (i + 3))) md
      else if type = 0 then md_put k MNull md
      else md)"

definition ms_get :: "'db sqlite \<Rightarrow> u64 \<Rightarrow> ('db, metadata) ms_act" where
  "ms_get sq vid = cached ms_select_by_vector ms_select_by_vector_update
     (abind (bind_int64 1 vid) (\<lambda>_.
      abind (stmt_rows sq []) (\<lambda>rows.
      abind stmt_reset (\<lambda>_.
      aret (foldl (\<lambda>md row. put_typed sq row 1 (column_text sq row 0) md) [] rows)))))"

text \<open>
  The scan of \<^verbatim>\<open>matching\<close>: the group under construction and the ids found so far.
\<close>

fun match_rows :: "'db sqlite \<Rightarrow> vfilter \<Rightarrow> sql_row list \<Rightarrow> (u64 \<times> metadata) option \<Rightarrow> u64 list" where
  "match_rows sq f [] current =
     (case current of Some (i, md) \<Rightarrow> if filter_matches f md then [i] else [] | None \<Rightarrow> [])"
| "match_rows sq f (row # rows) current =
     (let i = column_int64 sq row 0; add = put_typed sq row 2 (column_text sq row 1) in
      case current of
        None \<Rightarrow> match_rows sq f rows (Some (i, add []))
      | Some (j, md) \<Rightarrow>
          if i \<noteq> j then (if filter_matches f md then [j] else []) @ match_rows sq f rows (Some (i, add []))
          else match_rows sq f rows (Some (j, add md)))"

definition ms_matching :: "'db sqlite \<Rightarrow> vfilter \<Rightarrow> ('db, u64 list) ms_act" where
  "ms_matching sq f = abind (on_db (local_statement sq sql_select_all (stmt_rows sq []))) (\<lambda>rows.
     aret (match_rows sq f rows None))"

definition ms_matching_set :: "'db sqlite \<Rightarrow> vfilter \<Rightarrow> ('db, u64 set) ms_act" where
  "ms_matching_set sq f = abind (ms_matching sq f) (\<lambda>ids. aret (set ids))"

definition count_query :: "'db sqlite \<Rightarrow> string \<Rightarrow> ('db, nat) ms_act" where
  "count_query sq sql = on_db (local_statement sq sql
     (abind (stmt_step sq) (\<lambda>row. aret (case row of None \<Rightarrow> 0 | Some r \<Rightarrow> unat (column_int64 sq r 0)))))"

definition ms_vector_count :: "'db sqlite \<Rightarrow> ('db, nat) ms_act" where
  "ms_vector_count sq = count_query sq sql_count_distinct"

definition ms_row_count :: "'db sqlite \<Rightarrow> ('db, nat) ms_act" where
  "ms_row_count sq = count_query sq sql_count_rows"

definition ms_keys :: "'db sqlite \<Rightarrow> ('db, string list) ms_act" where
  "ms_keys sq = abind (on_db (local_statement sq sql_keys (stmt_rows sq []))) (\<lambda>rows.
     aret (map (\<lambda>r. column_text sq r 0) rows))"

section \<open>Configuration and orphans\<close>

definition ms_set_config :: "'db sqlite \<Rightarrow> string \<Rightarrow> string \<Rightarrow> ('db, unit) ms_act" where
  "ms_set_config sq k v = cached ms_set_config_value ms_set_config_value_update
     (abind (bind_text 1 k) (\<lambda>_. abind (bind_text 2 v) (\<lambda>_. stmt_run sq)))"

definition ms_get_config :: "'db sqlite \<Rightarrow> string \<Rightarrow> ('db, string option) ms_act" where
  "ms_get_config sq k = cached ms_get_config_value ms_get_config_value_update
     (abind (bind_text 1 k) (\<lambda>_.
      abind (stmt_step sq) (\<lambda>row.
      abind stmt_reset (\<lambda>_.
      aret (map_option (\<lambda>r. column_text sq r 0) row)))))"

definition ms_all_config :: "'db sqlite \<Rightarrow> ('db, (string \<times> string) list) ms_act" where
  "ms_all_config sq = abind (on_db (local_statement sq sql_all_config (stmt_rows sq []))) (\<lambda>rows.
     aret (map (\<lambda>r. (column_text sq r 0, column_text sq r 1)) rows))"

definition ms_orphaned_ids :: "'db sqlite \<Rightarrow> u64 set \<Rightarrow> ('db, u64 list) ms_act" where
  "ms_orphaned_ids sq live = abind (on_db (local_statement sq sql_vectors (stmt_rows sq []))) (\<lambda>rows.
     aret (filter (\<lambda>i. i \<notin> live) (map (\<lambda>r. column_int64 sq r 0) rows)))"

fun delete_vectors :: "'db sqlite \<Rightarrow> u64 list \<Rightarrow> ('db, unit) ms_act" where
  "delete_vectors sq [] = aret ()"
| "delete_vectors sq (i # is) = abind (delete_vector sq i) (\<lambda>_. delete_vectors sq is)"

definition ms_remove_orphans :: "'db sqlite \<Rightarrow> u64 set \<Rightarrow> ('db, nat) ms_act" where
  "ms_remove_orphans sq live =
     abind (ms_orphaned_ids sq live) (\<lambda>orphans.
     if orphans = [] then aret 0
     else abind (begin_locked sq) (\<lambda>_.
          abind (acatch (delete_vectors sq orphans) (\<lambda>e s. (Inl e, rollback_locked sq s))) (\<lambda>_.
          abind (commit_locked sq) (\<lambda>_. aret (length orphans)))))"

end
