(* ===== verification/Vdb_FileIO.thy ===== *)
theory Vdb_FileIO
  imports Vdb_Action
begin

text \<open>
  The file primitives (\<^verbatim>\<open>src/persistence/file_io.cpp\<close>, POSIX branch): atomic replacement and the reading
  loops. The operating system is a \<open>world\<close>: what processes see and what is on the disk, and the outcomes
  its next calls will have (success, failure, an interrupting signal, a short transfer, or the machine
  stopping). After the listed outcomes every call succeeds; a theorem about every list of outcomes is a
  theorem about every schedule of faults. The lemmas show that replacement is all or nothing, even across
  a crash, and that reading never returns part of a file.
\<close>

section \<open>The operating system\<close>

datatype outcome = Succeed | Fail | Interrupt | Short nat | Stop

text \<open>
  Names lead to files, as processes see them and as the directory on disk has them. A file has its
  contents and, when they have been synced since their last change, the contents on disk.
\<close>

record world =
  w_dir :: "string \<Rightarrow> nat option"
  w_dir_disk :: "string \<Rightarrow> nat option"
  w_data :: "nat \<Rightarrow> byte list"
  w_data_disk :: "nat \<Rightarrow> byte list option"
  w_next :: nat
  w_fds :: "nat \<Rightarrow> (nat \<times> nat) option"
  w_next_fd :: nat
  w_outcomes :: "outcome list"
  w_stopped :: bool

datatype 'a sys = Done 'a | Failed | Interrupted

text \<open>The outcome of the next call; a stopped machine executes nothing more.\<close>

definition next_outcome :: "world \<Rightarrow> outcome \<times> world" where
  "next_outcome w =
     (if w_stopped w then (Fail, w)
      else case w_outcomes w of
        [] \<Rightarrow> (Succeed, w)
      | Stop # os \<Rightarrow> (Fail, w\<lparr>w_outcomes := os, w_stopped := True\<rparr>)
      | x # os \<Rightarrow> (x, w\<lparr>w_outcomes := os\<rparr>))"

text \<open>A call that runs \<open>f\<close> unless its outcome is a failure or an interruption.\<close>

definition sys_call :: "(nat option \<Rightarrow> world \<Rightarrow> 'a sys \<times> world) \<Rightarrow> world \<Rightarrow> 'a sys \<times> world" where
  "sys_call f w =
     (case next_outcome w of
        (Fail, w) \<Rightarrow> (Failed, w)
      | (Interrupt, w) \<Rightarrow> (Interrupted, w)
      | (Short k, w) \<Rightarrow> f (Some k) w
      | (_, w) \<Rightarrow> f None w)"

definition sys_open_fd :: "nat \<Rightarrow> world \<Rightarrow> nat sys \<times> world" where
  "sys_open_fd i w = (Done (w_next_fd w),
     w\<lparr>w_fds := (w_fds w)(w_next_fd w \<mapsto> (i, 0)), w_next_fd := w_next_fd w + 1\<rparr>)"

text \<open>\<^verbatim>\<open>open(path, O_WRONLY | O_CREAT | O_TRUNC)\<close>\<close>

definition sys_create :: "string \<Rightarrow> world \<Rightarrow> nat sys \<times> world" where
  "sys_create p = sys_call (\<lambda>_ w.
     case w_dir w p of
       Some i \<Rightarrow> sys_open_fd i (w\<lparr>w_data := (w_data w)(i := []), w_data_disk := (w_data_disk w)(i := None)\<rparr>)
     | None \<Rightarrow> sys_open_fd (w_next w)
         (w\<lparr>w_dir := (w_dir w)(p \<mapsto> w_next w), w_data := (w_data w)(w_next w := []),
            w_data_disk := (w_data_disk w)(w_next w := None), w_next := w_next w + 1\<rparr>))"

text \<open>\<^verbatim>\<open>open(path, O_RDONLY)\<close>\<close>

definition sys_open :: "string \<Rightarrow> world \<Rightarrow> nat sys \<times> world" where
  "sys_open p = sys_call (\<lambda>_ w. case w_dir w p of None \<Rightarrow> (Failed, w) | Some i \<Rightarrow> sys_open_fd i w)"

text \<open>\<^verbatim>\<open>write\<close>: how many bytes went in.\<close>

definition sys_write :: "nat \<Rightarrow> byte list \<Rightarrow> world \<Rightarrow> nat sys \<times> world" where
  "sys_write fd bs = sys_call (\<lambda>short w.
     case w_fds w fd of
       None \<Rightarrow> (Failed, w)
     | Some (i, off) \<Rightarrow>
         (let k = (case short of None \<Rightarrow> length bs | Some k \<Rightarrow> min k (length bs)) in
          (Done k, w\<lparr>w_data := (w_data w)(i := overwrite (w_data w i) off (take k bs)),
             w_data_disk := (w_data_disk w)(i := None), w_fds := (w_fds w)(fd \<mapsto> (i, off + k))\<rparr>)))"

text \<open>\<^verbatim>\<open>read\<close>: the bytes that came out, none at the end of the file.\<close>

definition sys_read :: "nat \<Rightarrow> nat \<Rightarrow> world \<Rightarrow> byte list sys \<times> world" where
  "sys_read fd n = sys_call (\<lambda>short w.
     case w_fds w fd of
       None \<Rightarrow> (Failed, w)
     | Some (i, off) \<Rightarrow>
         (let n = (case short of None \<Rightarrow> n | Some k \<Rightarrow> if k = 0 then n else min k n); bs = take n (drop off (w_data w i)) in
          (Done bs, w\<lparr>w_fds := (w_fds w)(fd \<mapsto> (i, off + length bs))\<rparr>)))"

definition sys_fsync :: "nat \<Rightarrow> world \<Rightarrow> unit sys \<times> world" where
  "sys_fsync fd = sys_call (\<lambda>_ w.
     case w_fds w fd of
       None \<Rightarrow> (Failed, w)
     | Some (i, _) \<Rightarrow> (Done (), w\<lparr>w_data_disk := (w_data_disk w)(i \<mapsto> w_data w i)\<rparr>))"

text \<open>A descriptor is gone after \<^verbatim>\<open>close\<close>, whatever it returned.\<close>

definition sys_close :: "nat \<Rightarrow> world \<Rightarrow> unit sys \<times> world" where
  "sys_close fd w =
     (case sys_call (\<lambda>_ w. (Done (), w)) w of (r, w) \<Rightarrow> (r, w\<lparr>w_fds := (w_fds w)(fd := None)\<rparr>))"

definition sys_rename :: "string \<Rightarrow> string \<Rightarrow> world \<Rightarrow> unit sys \<times> world" where
  "sys_rename p q = sys_call (\<lambda>_ w.
     case w_dir w p of
       None \<Rightarrow> (Failed, w)
     | Some i \<Rightarrow> (Done (), w\<lparr>w_dir := (w_dir w)(p := None, q \<mapsto> i)\<rparr>))"

definition sys_unlink :: "string \<Rightarrow> world \<Rightarrow> unit sys \<times> world" where
  "sys_unlink p = sys_call (\<lambda>_ w. (Done (), w\<lparr>w_dir := (w_dir w)(p := None)\<rparr>))"

text \<open>\<^verbatim>\<open>open\<close> of a directory and \<^verbatim>\<open>fsync\<close> of it: the names reach the disk. All files are in one directory.\<close>

definition sys_open_dir :: "world \<Rightarrow> unit sys \<times> world" where
  "sys_open_dir = sys_call (\<lambda>_ w. (Done (), w))"

definition sys_fsync_dir :: "world \<Rightarrow> unit sys \<times> world" where
  "sys_fsync_dir = sys_call (\<lambda>_ w. (Done (), w\<lparr>w_dir_disk := w_dir w\<rparr>))"

definition sys_stat_size :: "string \<Rightarrow> world \<Rightarrow> nat sys \<times> world" where
  "sys_stat_size p = sys_call (\<lambda>_ w.
     case w_dir w p of None \<Rightarrow> (Failed, w) | Some i \<Rightarrow> (Done (length (w_data w i)), w))"

text \<open>A call whose failure is thrown.\<close>

definition or_io_error :: "(world \<Rightarrow> 'a sys \<times> world) \<Rightarrow> (world, 'a) act" where
  "or_io_error f w = (case f w of (Done x, w) \<Rightarrow> (Inr x, w) | (_, w) \<Rightarrow> (Inl IoError, w))"

section \<open>Writing\<close>

lemma next_outcome_shrinks:
  "next_outcome w = (Interrupt, w') \<Longrightarrow> length (w_outcomes w') < length (w_outcomes w)"
  "next_outcome w = (Short k, w') \<Longrightarrow> length (w_outcomes w') < length (w_outcomes w)"
  "next_outcome w = (x, w') \<Longrightarrow> length (w_outcomes w') \<le> length (w_outcomes w)"
  by (auto simp: next_outcome_def split: if_splits list.splits outcome.splits)

lemma sys_write_shrinks:
  "sys_write fd bs w = (Interrupted, w') \<Longrightarrow> length (w_outcomes w') < length (w_outcomes w)"
  "sys_write fd bs w = (Done k, w') \<Longrightarrow> bs \<noteq> [] \<Longrightarrow>
     length (drop k bs) + length (w_outcomes w') < length bs + length (w_outcomes w)"
  by (auto simp: sys_write_def sys_call_def Let_def split: prod.splits outcome.splits option.splits
      dest: next_outcome_shrinks)
    (cases bs; auto dest: next_outcome_shrinks(3))+

lemma sys_read_shrinks:
  "sys_read fd n w = (Interrupted, w') \<Longrightarrow> length (w_outcomes w') < length (w_outcomes w)"
  "sys_read fd n w = (Done bs, w') \<Longrightarrow> length (w_outcomes w') \<le> length (w_outcomes w) \<and> length bs \<le> n"
  by (auto simp: sys_read_def sys_call_def Let_def split: prod.splits outcome.splits option.splits if_splits
      dest: next_outcome_shrinks)

text \<open>The loop ends: an interruption uses up an outcome, as does a short write, and a full one ends it.\<close>

function write_all :: "nat \<Rightarrow> byte list \<Rightarrow> (world, unit) act" where
  "write_all fd data w =
     (if data = [] then (Inr (), w)
      else case sys_write fd data w of
        (Interrupted, w) \<Rightarrow> write_all fd data w
      | (Failed, w) \<Rightarrow> (Inl IoError, w)
      | (Done k, w) \<Rightarrow> write_all fd (drop k data) w)"
  by pat_completeness auto
termination
  by (relation "measure (\<lambda>(fd, data, w). length data + length (w_outcomes w))")
    (auto dest: sys_write_shrinks [OF sym])

declare write_all.simps [simp del]

fun write_chunks :: "nat \<Rightarrow> byte list list \<Rightarrow> (world, unit) act" where
  "write_chunks fd [] = aret ()"
| "write_chunks fd (c # cs) = abind (if c \<noteq> [] then write_all fd c else aret ()) (\<lambda>_. write_chunks fd cs)"

definition fsync_or_throw :: "nat \<Rightarrow> (world, unit) act" where
  "fsync_or_throw fd = or_io_error (sys_fsync fd)"

text \<open>The result of syncing the directory is ignored by the source.\<close>

definition fsync_directory :: "(world, unit) act" where
  "fsync_directory = abind (or_io_error sys_open_dir) (\<lambda>_ w. (Inr (), snd (sys_fsync_dir w)))"

text \<open>
  The guard object closes the descriptor when the scope is left by an exception; \<^verbatim>\<open>close()\<close> has closed it
  already otherwise.
\<close>

definition close_guard :: "nat \<Rightarrow> world \<Rightarrow> world" where
  "close_guard fd w = (if w_fds w fd = None then w else snd (sys_close fd w))"

definition write_file_atomically :: "string \<Rightarrow> byte list list \<Rightarrow> (world, unit) act" where
  "write_file_atomically path chunks =
     (let temporary = path @ ''.tmp'' in
      abind
        (abind (or_io_error (sys_create temporary)) (\<lambda>fd.
           afinally
             (abind (write_chunks fd chunks) (\<lambda>_.
              abind (fsync_or_throw fd) (\<lambda>_.
              or_io_error (sys_close fd))))
             (close_guard fd)))
        (\<lambda>_ w.
           case sys_rename temporary path w of
             (Done _, w) \<Rightarrow> fsync_directory w
           | (_, w) \<Rightarrow> (Inl IoError, snd (sys_unlink temporary w))))"

section \<open>Reading\<close>

text \<open>The loop that fills a buffer of a fixed size.\<close>

function read_loop :: "nat \<Rightarrow> nat \<Rightarrow> byte list \<Rightarrow> (world, byte list) act" where
  "read_loop fd n buffer w =
     (if n \<le> length buffer then (Inr buffer, w)
      else case sys_read fd (n - length buffer) w of
        (Interrupted, w) \<Rightarrow> read_loop fd n buffer w
      | (Failed, w) \<Rightarrow> (Inl IoError, w)
      | (Done bs, w) \<Rightarrow>
          if bs = [] then (Inl CorruptionError, w) else read_loop fd n (buffer @ bs) w)"
  by pat_completeness auto
termination
  by (relation "measure (\<lambda>(fd, n, buffer, w). (n - length buffer) + length (w_outcomes w))")
    (auto dest!: sys_read_shrinks [OF sym] simp flip: length_greater_0_conv)

declare read_loop.simps [simp del]

definition read_prefix_of :: "string \<Rightarrow> nat \<Rightarrow> (world, byte list) act" where
  "read_prefix_of path n =
     abind (or_io_error (sys_open path)) (\<lambda>fd. afinally (read_loop fd n []) (close_guard fd))"

definition read_file :: "string \<Rightarrow> nat \<Rightarrow> (world, byte list) act" where
  "read_file path max_bytes =
     abind (or_io_error (sys_stat_size path)) (\<lambda>size.
     abind (aguard (size > max_bytes) CorruptionError) (\<lambda>_.
     read_prefix_of path size))"

definition read_file_prefix :: "string \<Rightarrow> nat \<Rightarrow> (world, byte list) act" where
  "read_file_prefix path n = read_prefix_of path n"

text \<open>
  A mapping shows the contents of the file. The size is taken once; that nobody else changes the file
  while it is mapped is assumed.
\<close>

definition map_file :: "string \<Rightarrow> (world, byte list) act" where
  "map_file path =
     abind (or_io_error (sys_open path)) (\<lambda>fd.
       afinally
         (abind (or_io_error (sys_call (\<lambda>_ w. case w_fds w fd of None \<Rightarrow> (Failed, w) | Some (i, _) \<Rightarrow> (Done (w_data w i), w)))) (\<lambda>bs.
          if bs = [] then aret [] else or_io_error (sys_call (\<lambda>_ w. (Done bs, w)))))
         (close_guard fd))"

section \<open>What calls leave alone\<close>

definition visible :: "world \<Rightarrow> string \<Rightarrow> byte list option" where
  "visible w p = map_option (w_data w) (w_dir w p)"

text \<open>
  What may be found under a name after a crash: the name leads where it did when the directory was last
  synced or where processes last saw it lead, and a file that was not synced may hold anything.
\<close>

definition recovered :: "world \<Rightarrow> string \<Rightarrow> byte list option \<Rightarrow> bool" where
  "recovered w p c \<longleftrightarrow> (\<exists>e\<in>{w_dir w p, w_dir_disk w p}. case e of None \<Rightarrow> c = None
     | Some i \<Rightarrow> \<exists>bs. c = Some bs \<and> (\<forall>d. w_data_disk w i = Some d \<longrightarrow> bs = d))"

text \<open>A world in which a name and what it leads to are on disk.\<close>

definition settled :: "world \<Rightarrow> string \<Rightarrow> bool" where
  "settled w p \<longleftrightarrow> w_dir_disk w p = w_dir w p \<and> (\<forall>i. w_dir w p = Some i \<longrightarrow> w_data_disk w i = Some (w_data w i))"

text \<open>Distinct names lead to distinct files, and new files are new.\<close>

definition world_ok :: "world \<Rightarrow> bool" where
  "world_ok w \<longleftrightarrow> (\<forall>p q i. w_dir w p = Some i \<longrightarrow> w_dir w q = Some i \<longrightarrow> p = q) \<and> (\<forall>p i. w_dir w p = Some i \<longrightarrow> i < w_next w)"

definition only_file :: "nat \<Rightarrow> world \<Rightarrow> world \<Rightarrow> bool" where
  "only_file j w w' \<longleftrightarrow> w_dir w' = w_dir w \<and> w_dir_disk w' = w_dir_disk w \<and> w_next w' = w_next w \<and>
     (\<forall>i. i \<noteq> j \<longrightarrow> w_data w' i = w_data w i \<and> w_data_disk w' i = w_data_disk w i)"

lemma only_refl [simp]: "only_file j w w"
  by (simp add: only_file_def)

lemma only_trans: "only_file j w w' \<Longrightarrow> only_file j w' w'' \<Longrightarrow> only_file j w w''"
  by (simp add: only_file_def)

lemma next_outcome_fields: "next_outcome w = (x, w') \<Longrightarrow> \<exists>os st. w' = w\<lparr>w_outcomes := os, w_stopped := st\<rparr>"
proof -
  have "w = w\<lparr>w_outcomes := w_outcomes w, w_stopped := w_stopped w\<rparr>" by simp
  moreover have "w\<lparr>w_outcomes := os\<rparr> = w\<lparr>w_outcomes := os, w_stopped := w_stopped w\<rparr>" for os by simp
  ultimately show "next_outcome w = (x, w') \<Longrightarrow> ?thesis"
    unfolding next_outcome_def by (auto split: if_splits list.splits outcome.splits; metis)
qed

lemma sys_call_cases:
  assumes "sys_call f w = (r, w')"
  obtains (failed) os st where "r = Failed \<or> r = Interrupted" "w' = w\<lparr>w_outcomes := os, w_stopped := st\<rparr>"
  | (ran) sh os st where "f sh (w\<lparr>w_outcomes := os, w_stopped := st\<rparr>) = (r, w')"
proof -
  obtain x v where n: "next_outcome w = (x, v)" by fastforce
  then obtain os st where v: "v = w\<lparr>w_outcomes := os, w_stopped := st\<rparr>" using next_outcome_fields by blast
  show ?thesis
    using assms n v by (auto simp: sys_call_def split: outcome.splits intro: failed ran)
qed

lemma overwrite_end: "overwrite xs (length xs) ys = xs @ ys"
  by (simp add: overwrite_def)

lemma sys_write_file:
  assumes "sys_write fd bs w = (r, w')" and "w_fds w fd = Some (j, length (w_data w j))"
  shows "only_file j w w'" and "w_fds w' fd = Some (j, length (w_data w' j))"
    and "r = Done k \<Longrightarrow> w_data w' j = w_data w j @ take k bs" and "r = Interrupted \<Longrightarrow> w_data w' j = w_data w j"
proof -
  have "only_file j w w' \<and> w_fds w' fd = Some (j, length (w_data w' j)) \<and>
      (\<forall>k. r = Done k \<longrightarrow> w_data w' j = w_data w j @ take k bs) \<and> (r = Interrupted \<longrightarrow> w_data w' j = w_data w j)"
    using assms(1) unfolding sys_write_def
    by (rule sys_call_cases) (use assms(2) in \<open>auto simp: only_file_def Let_def overwrite_end split: option.splits\<close>)
  then show "only_file j w w'" "w_fds w' fd = Some (j, length (w_data w' j))"
    "r = Done k \<Longrightarrow> w_data w' j = w_data w j @ take k bs" "r = Interrupted \<Longrightarrow> w_data w' j = w_data w j" by blast+
qed

lemma write_all_file:
  assumes "write_all fd data w = (r, w')" and "w_fds w fd = Some (j, length (w_data w j))"
  shows "only_file j w w' \<and> w_fds w' fd = Some (j, length (w_data w' j)) \<and> (r = Inr () \<longrightarrow> w_data w' j = w_data w j @ data)"
  using assms
proof (induction fd data w rule: write_all.induct)
  case (1 fd data w)
  show ?case
  proof (cases "data = []")
    case False
    obtain x v where s: "sys_write fd data w = (x, v)" by fastforce
    note f = sys_write_file [OF s "1.prems"(2)]
    show ?thesis
    proof (cases x)
      case (Done k)
      have "write_all fd (drop k data) v = (r, w')" using "1.prems"(1) False s Done by (subst (asm) write_all.simps) simp
      from "1.IH"(1) [OF False s [symmetric] Done this f(2)] show ?thesis
        using f(1) f(3) [OF Done] only_trans by auto
    next
      case Interrupted
      have "write_all fd data v = (r, w')" using "1.prems"(1) False s Interrupted by (subst (asm) write_all.simps) simp
      from "1.IH"(2) [OF False s [symmetric] Interrupted this f(2)] show ?thesis
        using f(1) f(4) [OF Interrupted] only_trans by auto
    next
      case Failed
      then show ?thesis using "1.prems"(1) False s f by (subst (asm) write_all.simps) auto
    qed
  qed (use "1.prems" in \<open>simp add: write_all.simps\<close>)
qed

lemma write_chunks_file:
  "write_chunks fd cs w = (r, w') \<Longrightarrow> w_fds w fd = Some (j, length (w_data w j)) \<Longrightarrow>
   only_file j w w' \<and> w_fds w' fd = Some (j, length (w_data w' j)) \<and> (r = Inr () \<longrightarrow> w_data w' j = w_data w j @ concat cs)"
proof (induction cs arbitrary: w)
  case (Cons c cs)
  obtain x v where s: "(if c \<noteq> [] then write_all fd c else aret ()) w = (x, v)" by fastforce
  have f: "only_file j w v \<and> w_fds v fd = Some (j, length (w_data v j)) \<and> (x = Inr () \<longrightarrow> w_data v j = w_data w j @ c)"
    using s Cons.prems(2) write_all_file [of fd c w x v j] by (cases "c = []") auto
  show ?case
  proof (cases x)
    case (Inl e)
    then show ?thesis using Cons.prems(1) s f by (auto simp: abind_step)
  next
    case (Inr u)
    then have "write_chunks fd cs v = (r, w')" using Cons.prems(1) s by (simp add: abind_step)
    from Cons.IH [OF this] show ?thesis using f Inr only_trans [of j w v w'] by auto
  qed
qed simp

section \<open>Replacing a file\<close>

lemma or_io_error_cases: "or_io_error f w = (r, w') \<Longrightarrow> \<exists>x. f w = (x, w') \<and> (\<forall>y. r = Inr y \<longrightarrow> x = Done y)"
  by (auto simp: or_io_error_def split: prod.splits sys.splits)

lemma sys_close_file: "sys_close fd w = (r, w') \<Longrightarrow> only_file j w w' \<and> w_data w' = w_data w \<and> w_data_disk w' = w_data_disk w"
proof -
  assume s: "sys_close fd w = (r, w')"
  obtain x v where c: "sys_call (\<lambda>_ w. (Done (), w)) w = (x, v)" by fastforce
  then have "\<exists>os st. v = w\<lparr>w_outcomes := os, w_stopped := st\<rparr>" by (rule sys_call_cases) auto
  then show ?thesis using s c by (auto simp: sys_close_def only_file_def)
qed

lemma close_guard_file: "only_file j w (close_guard fd w) \<and> w_data (close_guard fd w) = w_data w \<and> w_data_disk (close_guard fd w) = w_data_disk w"
proof -
  obtain r v where "sys_close fd w = (r, v)" by fastforce
  then show ?thesis using sys_close_file by (auto simp: close_guard_def)
qed

lemma sys_fsync_file:
  assumes "sys_fsync fd w = (r, w')" and "w_fds w fd = Some (j, n)"
  shows "only_file j w w' \<and> w_data w' = w_data w \<and> (r = Done u \<longrightarrow> w_data_disk w' j = Some (w_data w j))"
  using assms(1) unfolding sys_fsync_def by (rule sys_call_cases) (use assms(2) in \<open>auto simp: only_file_def\<close>)

text \<open>The descriptor's scope: write everything, sync, close.\<close>

lemma filled:
  assumes "abind (write_chunks fd cs) (\<lambda>_. abind (fsync_or_throw fd) (\<lambda>_. or_io_error (sys_close fd))) w = (r, w')"
    and "w_fds w fd = Some (j, length (w_data w j))"
  shows "only_file j w w'" and "r = Inr u \<Longrightarrow> w_data w' j = w_data w j @ concat cs \<and> w_data_disk w' j = Some (w_data w' j)"
proof -
  obtain r1 w1 where s1: "write_chunks fd cs w = (r1, w1)" by fastforce
  note f1 = write_chunks_file [OF s1 assms(2)]
  obtain r2 w2 where s2: "fsync_or_throw fd w1 = (r2, w2)" by fastforce
  then obtain x2 where x2: "sys_fsync fd w1 = (x2, w2)" "r2 = Inr () \<longrightarrow> x2 = Done ()"
    unfolding fsync_or_throw_def using or_io_error_cases by blast
  have f2: "only_file j w1 w2 \<and> w_data w2 = w_data w1 \<and> (r2 = Inr () \<longrightarrow> w_data_disk w2 j = Some (w_data w1 j))"
    using sys_fsync_file [OF x2(1), of j] f1 x2(2) by blast
  obtain r3 w3 where s3: "or_io_error (sys_close fd) w2 = (r3, w3)" by fastforce
  then have f3: "only_file j w2 w3 \<and> w_data w3 = w_data w2 \<and> w_data_disk w3 = w_data_disk w2"
    using or_io_error_cases sys_close_file by blast
  have o: "only_file j w w1" "only_file j w w2" "only_file j w w3" using f1 f2 f3 only_trans by blast+
  show "only_file j w w'"
    using assms(1) s1 s2 s3 o by (cases r1; cases r2) (auto simp: abind_step)
  show "w_data w' j = w_data w j @ concat cs \<and> w_data_disk w' j = Some (w_data w' j)" if "r = Inr u"
    using assms(1) s1 s2 s3 f1 f2 f3 that by (cases r1; cases r2) (auto simp: abind_step)
qed

lemma sys_create_file:
  assumes "sys_create p w = (r, w')" and ok: "world_ok w" and q: "q \<noteq> p"
  shows "w_dir w' q = w_dir w q" and "w_dir_disk w' = w_dir_disk w"
    and "w_dir w q = Some i \<Longrightarrow> w_data w' i = w_data w i \<and> w_data_disk w' i = w_data_disk w i"
    and "r = Done fd \<Longrightarrow> \<exists>j. w_fds w' fd = Some (j, length (w_data w' j)) \<and> w_data w' j = [] \<and> w_dir w' p = Some j \<and> w_dir w q \<noteq> Some j"
proof -
  have "w_dir w' q = w_dir w q \<and> w_dir_disk w' = w_dir_disk w \<and>
      (\<forall>i. w_dir w q = Some i \<longrightarrow> w_data w' i = w_data w i \<and> w_data_disk w' i = w_data_disk w i) \<and>
      (\<forall>fd. r = Done fd \<longrightarrow>
        (\<exists>j. w_fds w' fd = Some (j, length (w_data w' j)) \<and> w_data w' j = [] \<and> w_dir w' p = Some j \<and> w_dir w q \<noteq> Some j))"
    using assms(1) unfolding sys_create_def
  proof (rule sys_call_cases)
    fix sh os st
    assume f: "(case w_dir (w\<lparr>w_outcomes := os, w_stopped := st\<rparr>) p of
        None \<Rightarrow> sys_open_fd (w_next (w\<lparr>w_outcomes := os, w_stopped := st\<rparr>))
          (w\<lparr>w_outcomes := os, w_stopped := st,
             w_dir := (w_dir (w\<lparr>w_outcomes := os, w_stopped := st\<rparr>))(p \<mapsto> w_next (w\<lparr>w_outcomes := os, w_stopped := st\<rparr>)),
             w_data := (w_data (w\<lparr>w_outcomes := os, w_stopped := st\<rparr>))(w_next (w\<lparr>w_outcomes := os, w_stopped := st\<rparr>) := []),
             w_data_disk := (w_data_disk (w\<lparr>w_outcomes := os, w_stopped := st\<rparr>))(w_next (w\<lparr>w_outcomes := os, w_stopped := st\<rparr>) := None),
             w_next := w_next (w\<lparr>w_outcomes := os, w_stopped := st\<rparr>) + 1\<rparr>)
      | Some i \<Rightarrow> sys_open_fd i
          (w\<lparr>w_outcomes := os, w_stopped := st,
             w_data := (w_data (w\<lparr>w_outcomes := os, w_stopped := st\<rparr>))(i := []),
             w_data_disk := (w_data_disk (w\<lparr>w_outcomes := os, w_stopped := st\<rparr>))(i := None)\<rparr>)) = (r, w')"
    show ?thesis
    proof (cases "w_dir w p")
      case None
      moreover have "w_dir w q \<noteq> Some (w_next w)" using ok by (auto simp: world_ok_def)
      ultimately show ?thesis using f q by (auto simp: sys_open_fd_def)
    next
      case (Some i)
      then have "w_dir w q \<noteq> Some i" using ok q by (auto simp: world_ok_def)
      then show ?thesis using f Some by (auto simp: sys_open_fd_def)
    qed
  qed auto
  then show "w_dir w' q = w_dir w q" "w_dir_disk w' = w_dir_disk w"
    "w_dir w q = Some i \<Longrightarrow> w_data w' i = w_data w i \<and> w_data_disk w' i = w_data_disk w i"
    "r = Done fd \<Longrightarrow> \<exists>j. w_fds w' fd = Some (j, length (w_data w' j)) \<and> w_data w' j = [] \<and> w_dir w' p = Some j \<and> w_dir w q \<noteq> Some j"
    by blast+
qed

text \<open>The temporary file is complete and on disk before the rename, and the target is as it was.\<close>

lemma temporary_written:
  assumes "abind (or_io_error (sys_create tmp)) (\<lambda>fd. afinally
      (abind (write_chunks fd cs) (\<lambda>_. abind (fsync_or_throw fd) (\<lambda>_. or_io_error (sys_close fd))))
      (close_guard fd)) w = (r, w')"
    and ok: "world_ok w" and q: "q \<noteq> tmp"
  shows "w_dir w' q = w_dir w q" and "w_dir_disk w' = w_dir_disk w"
    and "w_dir w q = Some i \<Longrightarrow> w_data w' i = w_data w i \<and> w_data_disk w' i = w_data_disk w i"
    and "r = Inr u \<Longrightarrow> \<exists>j. w_dir w' tmp = Some j \<and> w_data w' j = concat cs \<and> w_data_disk w' j = Some (concat cs)"
proof -
  have "w_dir w' q = w_dir w q \<and> w_dir_disk w' = w_dir_disk w \<and>
      (\<forall>i. w_dir w q = Some i \<longrightarrow> w_data w' i = w_data w i \<and> w_data_disk w' i = w_data_disk w i) \<and>
      (r = Inr () \<longrightarrow> (\<exists>j. w_dir w' tmp = Some j \<and> w_data w' j = concat cs \<and> w_data_disk w' j = Some (concat cs)))"
  proof -
    obtain x w1 where c: "sys_create tmp w = (x, w1)" by fastforce
    note f1 = sys_create_file [OF c ok q]
    show ?thesis
    proof (cases x)
      case (Done fd)
      obtain j where j: "w_fds w1 fd = Some (j, length (w_data w1 j))" "w_data w1 j = []" "w_dir w1 tmp = Some j" "w_dir w q \<noteq> Some j"
        using f1(4) [OF Done] by blast
      obtain r2 w2 where b: "abind (write_chunks fd cs) (\<lambda>_. abind (fsync_or_throw fd) (\<lambda>_. or_io_error (sys_close fd))) w1 = (r2, w2)"
        by fastforce
      note f2 = filled [OF b j(1)]
      have e: "r = r2" "w' = close_guard fd w2"
        using assms(1) c Done b by (auto simp: abind_step afinally_def or_io_error_def)
      have o: "only_file j w1 w'" "w_data w' = w_data w2" "w_data_disk w' = w_data_disk w2"
        using close_guard_file [of j w2 fd] f2(1) only_trans e(2) by blast+
      have "w_dir w' tmp = Some j \<and> w_data w' j = concat cs \<and> w_data_disk w' j = Some (concat cs)" if "r = Inr ()"
        using f2(2) that e(1) o j by (simp add: only_file_def)
      then show ?thesis using o(1) f1(1-3) j(4) by (auto simp: only_file_def)
    qed (use assms(1) c f1 in \<open>auto simp: abind_step or_io_error_def\<close>)
  qed
  then show "w_dir w' q = w_dir w q" "w_dir_disk w' = w_dir_disk w"
    "w_dir w q = Some i \<Longrightarrow> w_data w' i = w_data w i \<and> w_data_disk w' i = w_data_disk w i"
    "r = Inr u \<Longrightarrow> \<exists>j. w_dir w' tmp = Some j \<and> w_data w' j = concat cs \<and> w_data_disk w' j = Some (concat cs)"
    by auto
qed

lemma fsync_directory_cases:
  assumes "fsync_directory w = (r, w')"
  obtains os st where "w' = w\<lparr>w_outcomes := os, w_stopped := st\<rparr>"
  | os st where "w' = w\<lparr>w_outcomes := os, w_stopped := st, w_dir_disk := w_dir w\<rparr>"
proof -
  obtain x w1 where o: "sys_open_dir w = (x, w1)" by fastforce
  then have w1: "\<exists>os st. w1 = w\<lparr>w_outcomes := os, w_stopped := st\<rparr>"
    unfolding sys_open_dir_def by (rule sys_call_cases) auto
  obtain y w2 where s: "sys_fsync_dir w1 = (y, w2)" by fastforce
  then have w2: "(\<exists>os st. w2 = w1\<lparr>w_outcomes := os, w_stopped := st\<rparr>) \<or>
      (\<exists>os st. w2 = w1\<lparr>w_outcomes := os, w_stopped := st, w_dir_disk := w_dir w1\<rparr>)"
    unfolding sys_fsync_dir_def by (rule sys_call_cases) auto
  have "w' = w1 \<or> w' = w2"
    using assms o s by (cases x) (auto simp: fsync_directory_def abind_step or_io_error_def)
  then show ?thesis using w1 w2 that by auto
qed

text \<open>What the whole replacement does to the target.\<close>

lemma write_atomically_cases:
  assumes w: "write_file_atomically path cs w = (r, w')" and ok: "world_ok w"
  obtains (old) "\<exists>e. r = Inl e" "w_dir w' path = w_dir w path" "w_dir_disk w' path = w_dir_disk w path"
      "\<And>i. w_dir w path = Some i \<Longrightarrow> w_data w' i = w_data w i \<and> w_data_disk w' i = w_data_disk w i"
  | (new) j where "w_dir w' path = Some j" "w_data w' j = concat cs" "w_data_disk w' j = Some (concat cs)"
      "w_dir_disk w' path \<in> {w_dir_disk w path, Some j}"
      "\<And>i. w_dir w path = Some i \<Longrightarrow> w_data w' i = w_data w i \<and> w_data_disk w' i = w_data_disk w i"
proof -
  let ?tmp = "path @ ''.tmp''"
  have ne: "path \<noteq> ?tmp" by simp
  obtain r1 w1 where t: "abind (or_io_error (sys_create ?tmp)) (\<lambda>fd. afinally
      (abind (write_chunks fd cs) (\<lambda>_. abind (fsync_or_throw fd) (\<lambda>_. or_io_error (sys_close fd))))
      (close_guard fd)) w = (r1, w1)" by fastforce
  note f1 = temporary_written [OF t ok ne]
  show ?thesis
  proof (cases r1)
    case (Inl e)
    then have "r = Inl e" "w' = w1" using w t by (simp_all add: write_file_atomically_def Let_def abind_step)
    then show ?thesis using f1 by (intro old) auto
  next
    case (Inr u)
    obtain j where j: "w_dir w1 ?tmp = Some j" "w_data w1 j = concat cs" "w_data_disk w1 j = Some (concat cs)"
      using f1(4) [OF Inr] by blast
    obtain x w2 where rn: "sys_rename ?tmp path w1 = (x, w2)" by fastforce
    then have w2: "(x = Failed \<or> x = Interrupted) \<and> (\<exists>os st. w2 = w1\<lparr>w_outcomes := os, w_stopped := st\<rparr>) \<or>
        (\<exists>os st. x = Done () \<and> w2 = w1\<lparr>w_outcomes := os, w_stopped := st, w_dir := (w_dir w1)(?tmp := None, path \<mapsto> j)\<rparr>)"
      unfolding sys_rename_def by (rule sys_call_cases) (use j(1) in auto)
    show ?thesis
    proof (cases "x = Done ()")
      case True
      then have fd: "fsync_directory w2 = (r, w')" using w t rn Inr by (simp add: write_file_atomically_def Let_def abind_step)
      obtain os st where e: "w2 = w1\<lparr>w_outcomes := os, w_stopped := st, w_dir := (w_dir w1)(?tmp := None, path \<mapsto> j)\<rparr>"
        using w2 True by blast
      from fd show ?thesis
        by (rule fsync_directory_cases; intro new [of j]) (use e f1 j in auto)
    next
      case False
      obtain y w3 where u: "sys_unlink ?tmp w2 = (y, w3)" by fastforce
      then have w3: "(\<exists>os st. w3 = w2\<lparr>w_outcomes := os, w_stopped := st\<rparr>) \<or>
          (\<exists>os st. w3 = w2\<lparr>w_outcomes := os, w_stopped := st, w_dir := (w_dir w2)(?tmp := None)\<rparr>)"
        unfolding sys_unlink_def by (rule sys_call_cases) auto
      have "x = Failed \<or> x = Interrupted" using w2 False by auto
      then have "r = Inl IoError" "w' = w3" using w t rn Inr u by (auto simp: write_file_atomically_def Let_def abind_step)
      then show ?thesis using w2 w3 False f1 by (intro old) auto
    qed
  qed
qed

section \<open>Without faults\<close>

definition quiet :: "world \<Rightarrow> bool" where
  "quiet w \<longleftrightarrow> w_outcomes w = [] \<and> \<not> w_stopped w"

lemma quiet_upd [simp]:
  "quiet (w\<lparr>w_data := a\<rparr>) = quiet w" "quiet (w\<lparr>w_data_disk := b\<rparr>) = quiet w" "quiet (w\<lparr>w_dir := c\<rparr>) = quiet w"
  "quiet (w\<lparr>w_dir_disk := c\<rparr>) = quiet w" "quiet (w\<lparr>w_fds := d\<rparr>) = quiet w" "quiet (w\<lparr>w_next := n\<rparr>) = quiet w"
  "quiet (w\<lparr>w_next_fd := n\<rparr>) = quiet w"
  by (simp_all add: quiet_def)

lemma quiet_call: "quiet w \<Longrightarrow> sys_call f w = f None w"
  by (simp add: quiet_def sys_call_def next_outcome_def)

lemma quiet_write_all:
  assumes "quiet w" "w_fds w fd = Some q"
  obtains w' q' where "write_all fd data w = (Inr (), w')" "quiet w'" "w_fds w' fd = Some q'"
proof (cases "data = []")
  case True
  then show ?thesis using that assms by (simp add: write_all.simps)
next
  case False
  obtain w1 where s: "sys_write fd data w = (Done (length data), w1)" and q: "quiet w1" "\<exists>q'. w_fds w1 fd = Some q'"
    using assms by (cases q) (auto simp: sys_write_def quiet_call Let_def)
  have "write_all fd data w = (Inr (), w1)"
    using False s by (subst write_all.simps, subst write_all.simps) simp
  then show ?thesis using that q by blast
qed

lemma quiet_write_chunks:
  "quiet w \<Longrightarrow> w_fds w fd = Some q \<Longrightarrow> \<exists>w' q'. write_chunks fd cs w = (Inr (), w') \<and> quiet w' \<and> w_fds w' fd = Some q'"
proof (induction cs arbitrary: w q)
  case (Cons c cs)
  obtain v qv where v: "write_all fd c w = (Inr (), v)" "quiet v" "w_fds v fd = Some qv" by (rule quiet_write_all [OF Cons.prems])
  obtain w1 q1 where "(if c \<noteq> [] then write_all fd c else aret ()) w = (Inr (), w1)" "quiet w1" "w_fds w1 fd = Some q1"
    using v Cons.prems by (cases "c = []") auto
  then show ?case using Cons.IH [of w1 q1] by (simp add: abind_step)
qed simp

lemma quiet_replacement:
  assumes "quiet w" "world_ok w"
  obtains w' where "write_file_atomically path cs w = (Inr (), w')" "quiet w'" "w_dir_disk w' = w_dir w'"
proof -
  let ?tmp = "path @ ''.tmp''"
  obtain fd w1 q1 where c: "sys_create ?tmp w = (Done fd, w1)" "quiet w1" "w_fds w1 fd = Some q1"
    using assms(1) by (cases "w_dir w ?tmp") (auto simp: sys_create_def quiet_call sys_open_fd_def)
  obtain w2 j n where f: "write_chunks fd cs w1 = (Inr (), w2)" "quiet w2" "w_fds w2 fd = Some (j, n)"
    using quiet_write_chunks [OF c(2,3)] by force
  obtain w3 where s: "sys_fsync fd w2 = (Done (), w3)" "quiet w3"
    using f by (auto simp: sys_fsync_def quiet_call)
  obtain w4 where l: "sys_close fd w3 = (Done (), w4)" "quiet w4" "w_fds w4 fd = None"
    using s by (auto simp: sys_close_def quiet_call)
  have t: "abind (or_io_error (sys_create ?tmp)) (\<lambda>fd. afinally
      (abind (write_chunks fd cs) (\<lambda>_. abind (fsync_or_throw fd) (\<lambda>_. or_io_error (sys_close fd))))
      (close_guard fd)) w = (Inr (), w4)"
    using c f s l by (simp add: abind_step or_io_error_def afinally_def fsync_or_throw_def close_guard_def)
  obtain i where i: "w_dir w4 ?tmp = Some i" using temporary_written(4) [OF t assms(2), of path] by auto
  let ?w5 = "w4\<lparr>w_dir := (w_dir w4)(?tmp := None, path \<mapsto> i)\<rparr>"
  have r: "sys_rename ?tmp path w4 = (Done (), ?w5)" "quiet ?w5"
    using l i by (simp_all add: sys_rename_def quiet_call)
  have d: "fsync_directory ?w5 = (Inr (), ?w5\<lparr>w_dir_disk := w_dir ?w5\<rparr>)"
    using r(2) by (simp add: fsync_directory_def abind_def or_io_error_def sys_open_dir_def sys_fsync_dir_def quiet_call)
  have "write_file_atomically path cs w = (Inr (), ?w5\<lparr>w_dir_disk := w_dir ?w5\<rparr>)"
    using t r(1) d by (simp add: write_file_atomically_def Let_def abind_step)
  then show ?thesis using that r(2) by simp
qed

section \<open>Reading back\<close>

lemma sys_read_file:
  assumes "sys_read fd n w = (Done bs, w')" and "w_fds w fd = Some (i, off)"
  shows "w_fds w' fd = Some (i, off + length bs)" and "w_data w' = w_data w" and "w_dir w' = w_dir w"
    and "\<exists>k. bs = take k (drop off (w_data w i)) \<and> k \<le> n"
    and "bs = [] \<Longrightarrow> 0 < n \<Longrightarrow> length (w_data w i) \<le> off"
proof -
  have "w_fds w' fd = Some (i, off + length bs) \<and> w_data w' = w_data w \<and> w_dir w' = w_dir w \<and>
      (\<exists>k. bs = take k (drop off (w_data w i)) \<and> k \<le> n) \<and> (bs = [] \<longrightarrow> 0 < n \<longrightarrow> length (w_data w i) \<le> off)"
    using assms(1) unfolding sys_read_def
    by (rule sys_call_cases) (use assms(2) in \<open>auto simp: Let_def split: option.splits if_splits\<close>)
  then show "w_fds w' fd = Some (i, off + length bs)" "w_data w' = w_data w" "w_dir w' = w_dir w"
    "\<exists>k. bs = take k (drop off (w_data w i)) \<and> k \<le> n" "bs = [] \<Longrightarrow> 0 < n \<Longrightarrow> length (w_data w i) \<le> off" by blast+
qed

lemma sys_read_interrupted:
  "sys_read fd n w = (r, w') \<Longrightarrow> r = Interrupted \<or> r = Failed \<Longrightarrow> w_fds w' = w_fds w \<and> w_data w' = w_data w \<and> w_dir w' = w_dir w"
  unfolding sys_read_def by (erule sys_call_cases) (auto simp: Let_def split: option.splits)

lemma read_loop_file:
  assumes "read_loop fd n buffer w = (r, w')" and "w_fds w fd = Some (i, length buffer)"
    and "buffer = take (length buffer) (w_data w i)" and "length buffer \<le> n"
  shows "w_data w' = w_data w \<and> w_dir w' = w_dir w \<and> (\<forall>bs. r = Inr bs \<longrightarrow> bs = take n (w_data w i) \<and> length bs = n)"
  using assms
proof (induction fd n buffer w rule: read_loop.induct)
  case (1 fd n buffer w)
  show ?case
  proof (cases "n \<le> length buffer")
    case True
    then show ?thesis using "1.prems" by (subst (asm) read_loop.simps) auto
  next
    case False
    obtain x v where s: "sys_read fd (n - length buffer) w = (x, v)" by fastforce
    show ?thesis
    proof (cases x)
      case (Done bs)
      note f = sys_read_file [OF s [unfolded Done] "1.prems"(2)]
      show ?thesis
      proof (cases "bs = []")
        case True
        then show ?thesis using "1.prems"(1) False s Done f by (subst (asm) read_loop.simps) auto
      next
        case ne: False
        have rec: "read_loop fd n (buffer @ bs) v = (r, w')"
          using "1.prems"(1) False s Done ne by (subst (asm) read_loop.simps) simp
        obtain k where k: "bs = take k (drop (length buffer) (w_data w i))" "k \<le> n - length buffer" using f(4) by blast
        have "buffer @ bs = take (length buffer + k) (w_data w i)" using "1.prems"(3) k(1) by (metis take_add)
        then have b: "buffer @ bs = take (length (buffer @ bs)) (w_data v i)"
          using f(2) by (cases "length buffer + k \<le> length (w_data w i)") simp_all
        have l: "length (buffer @ bs) \<le> n" using k False by simp
        have "w_fds v fd = Some (i, length (buffer @ bs))" using f(1) by simp
        from "1.IH"(1) [OF False s [symmetric] Done ne rec this b l] show ?thesis using f(2,3) by simp
      qed
    next
      case Interrupted
      have rec: "read_loop fd n buffer v = (r, w')"
        using "1.prems"(1) False s Interrupted by (subst (asm) read_loop.simps) simp
      have u: "w_fds v = w_fds w" "w_data v = w_data w" "w_dir v = w_dir w"
        using sys_read_interrupted [OF s] Interrupted by simp_all
      show ?thesis
        using "1.IH"(2) [OF False s [symmetric] Interrupted rec] "1.prems"(2-4) u by simp
    next
      case Failed
      then show ?thesis using "1.prems"(1) False s sys_read_interrupted [OF s] by (subst (asm) read_loop.simps) auto
    qed
  qed
qed

lemma read_prefix_file:
  assumes "read_prefix_of path n w = (r, w')"
  shows "visible w' = visible w \<and> (\<forall>bs. r = Inr bs \<longrightarrow> (\<exists>all. visible w path = Some all \<and> bs = take n all \<and> n \<le> length all))"
proof -
  obtain x w1 where o: "sys_open path w = (x, w1)" by fastforce
  then have w1: "w_data w1 = w_data w \<and> w_dir w1 = w_dir w \<and>
      (\<forall>fd. x = Done fd \<longrightarrow> (\<exists>i. w_dir w path = Some i \<and> w_fds w1 fd = Some (i, 0)))"
    unfolding sys_open_def by (rule sys_call_cases) (auto simp: sys_open_fd_def split: option.splits)
  show ?thesis
  proof (cases x)
    case (Done fd)
    obtain i where i: "w_dir w path = Some i" "w_fds w1 fd = Some (i, 0)" using w1 Done by blast
    obtain r2 w2 where l: "read_loop fd n [] w1 = (r2, w2)" by fastforce
    have f: "w_data w2 = w_data w1 \<and> w_dir w2 = w_dir w1 \<and> (\<forall>bs. r2 = Inr bs \<longrightarrow> bs = take n (w_data w1 i) \<and> length bs = n)"
      using read_loop_file [OF l] i(2) by simp
    have e: "r = r2" "w' = close_guard fd w2"
      using assms o Done l by (auto simp: read_prefix_of_def abind_step or_io_error_def afinally_def)
    have "w_data w' = w_data w2" "w_dir w' = w_dir w2"
      using close_guard_file [of i w2 fd] unfolding e(2) only_file_def by auto
    then show ?thesis using f w1 i e(1) by (auto simp: visible_def)
  qed (use assms o w1 in \<open>auto simp: read_prefix_of_def abind_step or_io_error_def visible_def\<close>)
qed

lemma read_file_whole:
  assumes "read_file path max_bytes w = (r, w')"
  shows "visible w' = visible w \<and> (\<forall>bs. r = Inr bs \<longrightarrow> visible w path = Some bs \<and> length bs \<le> max_bytes)"
proof -
  obtain x w1 where s: "sys_stat_size path w = (x, w1)" by fastforce
  then have w1: "visible w1 = visible w \<and> (\<forall>k. x = Done k \<longrightarrow> (\<exists>all. visible w path = Some all \<and> k = length all))"
    unfolding sys_stat_size_def by (rule sys_call_cases) (auto simp: visible_def fun_eq_iff split: option.splits)
  show ?thesis
  proof (cases x)
    case (Done k)
    show ?thesis
    proof (cases "k > max_bytes")
      case False
      then have p: "read_prefix_of path k w1 = (r, w')" using assms s Done by (simp add: read_file_def abind_step or_io_error_def)
      show ?thesis using read_prefix_file [OF p] w1 Done False by auto
    qed (use assms s w1 Done in \<open>auto simp: read_file_def abind_step or_io_error_def\<close>)
  qed (use assms s w1 in \<open>auto simp: read_file_def abind_step or_io_error_def\<close>)
qed

section \<open>Properties\<close>

text \<open>C16: replacing a file is all or nothing. Whatever calls fail, are interrupted or transfer less, and wherever the
  machine stops, the name leads to the complete old contents or the complete new contents, both for running
  processes and after a crash; when the call returns normally it is the new contents that are seen.\<close>

theorem replacement_is_atomic:
  assumes "write_file_atomically path chunks w = (r, w')" and "world_ok w" and "settled w path"
  shows "(\<forall>c. recovered w' path c \<longrightarrow> c = visible w path \<or> c = Some (concat chunks)) \<and>
    (visible w' path = visible w path \<or> visible w' path = Some (concat chunks)) \<and>
    (r = Inr () \<longrightarrow> visible w' path = Some (concat chunks))"
  using assms(1,2)
proof (rule write_atomically_cases)
  assume "\<exists>e. r = Inl e" "w_dir w' path = w_dir w path" "w_dir_disk w' path = w_dir_disk w path"
    "\<And>i. w_dir w path = Some i \<Longrightarrow> w_data w' i = w_data w i \<and> w_data_disk w' i = w_data_disk w i"
  then show ?thesis using assms(3) by (cases "w_dir w path") (auto simp: recovered_def visible_def settled_def)
next
  fix j
  assume n: "w_dir w' path = Some j" "w_data w' j = concat chunks" "w_data_disk w' j = Some (concat chunks)"
    "w_dir_disk w' path \<in> {w_dir_disk w path, Some j}"
    and "\<And>i. w_dir w path = Some i \<Longrightarrow> w_data w' i = w_data w i \<and> w_data_disk w' i = w_data_disk w i"
  then show ?thesis using assms(3) by (cases "w_dir w path") (auto simp: recovered_def visible_def settled_def)
qed

theorem replacement_is_atomic_witness:
  "\<exists>r w' w. write_file_atomically ''f'' [[1, 2], [], [3]] w = (r, w') \<and> w_outcomes w = [Succeed, Short 1, Interrupt, Succeed, Stop] \<and>
     (\<forall>c. recovered w' ''f'' c \<longrightarrow> c = Some [9] \<or> c = Some [1, 2, 3])"
proof -
  let ?w = "\<lparr>w_dir = [''f'' \<mapsto> 0], w_dir_disk = [''f'' \<mapsto> 0], w_data = (\<lambda>_. [9]), w_data_disk = (\<lambda>_. Some [9]), w_next = 1,
     w_fds = Map.empty, w_next_fd = 0, w_outcomes = [Succeed, Short 1, Interrupt, Succeed, Stop], w_stopped = False\<rparr>"
  obtain r w' where w: "write_file_atomically ''f'' [[1, 2], [], [3]] ?w = (r, w')" by fastforce
  have "world_ok ?w" "settled ?w ''f''" by (auto simp: world_ok_def settled_def split: if_splits)
  from replacement_is_atomic [OF w this] w show ?thesis by (intro exI conjI) (assumption, simp, simp add: visible_def)
qed

text \<open>Further: when nothing fails, replacing a file succeeds, and what is then found after a crash is the new contents.\<close>

theorem replacement_succeeds:
  assumes "w_outcomes w = []" and "\<not> w_stopped w" and "world_ok w"
  shows "\<exists>w'. write_file_atomically path chunks w = (Inr (), w') \<and> visible w' path = Some (concat chunks) \<and>
    (\<forall>c. recovered w' path c \<longrightarrow> c = Some (concat chunks))"
proof -
  obtain w' where w: "write_file_atomically path chunks w = (Inr (), w')" "w_dir_disk w' = w_dir w'"
    by (rule quiet_replacement [of w path chunks]) (use assms in \<open>simp_all add: quiet_def\<close>)
  from w(1) assms(3) have "visible w' path = Some (concat chunks) \<and> (\<forall>c. recovered w' path c \<longrightarrow> c = Some (concat chunks))"
    by (rule write_atomically_cases) (use w(2) in \<open>auto simp: visible_def recovered_def\<close>)
  then show ?thesis using w(1) by blast
qed

theorem replacement_succeeds_witness:
  "\<exists>w w'. write_file_atomically ''f'' [[1]] w = (Inr (), w') \<and> visible w' ''f'' = Some [1]"
  using replacement_succeeds [of "\<lparr>w_dir = Map.empty, w_dir_disk = Map.empty, w_data = (\<lambda>_. []), w_data_disk = (\<lambda>_. None),
      w_next = 0, w_fds = Map.empty, w_next_fd = 0, w_outcomes = [], w_stopped = False\<rparr>" "''f''" "[[1]]"]
  by (auto simp: world_ok_def)

text \<open>Further: reading never returns part of a file: a read that returns gives the whole contents, within the limit, however
  its transfers are split, interrupted or failed, and a prefix read that returns gives exactly the bytes asked for.\<close>

theorem reads_are_whole:
  assumes "read_file path max_bytes w = (r, w')" and "read_file_prefix path n w = (q, w'')"
  shows "(\<forall>bs. r = Inr bs \<longrightarrow> visible w path = Some bs \<and> length bs \<le> max_bytes) \<and>
    (\<forall>bs. q = Inr bs \<longrightarrow> (\<exists>all. visible w path = Some all \<and> bs = take n all \<and> length bs = n)) \<and>
    visible w' = visible w \<and> visible w'' = visible w"
  using read_file_whole [OF assms(1)] read_prefix_file [OF assms(2) [unfolded read_file_prefix_def]] by auto

theorem reads_are_whole_witness:
  "\<exists>w r w'. read_file ''f'' 3 w = (r, w') \<and> (\<forall>bs. r = Inr bs \<longrightarrow> bs = [1, 2, 3])"
proof -
  let ?w = "\<lparr>w_dir = [''f'' \<mapsto> 0], w_dir_disk = Map.empty, w_data = (\<lambda>_. [1, 2, 3]), w_data_disk = (\<lambda>_. None), w_next = 1,
     w_fds = Map.empty, w_next_fd = 0, w_outcomes = [Succeed, Succeed, Short 2, Interrupt], w_stopped = False\<rparr>"
  obtain r w' q w'' where "read_file ''f'' 3 ?w = (r, w')" "read_file_prefix ''f'' 1 ?w = (q, w'')" by fastforce
  from this(1) reads_are_whole [OF this] show ?thesis by (intro exI conjI) (assumption, auto simp: visible_def)
qed

end
