(* ===== verification/Vdb_Database.thy ===== *)
theory Vdb_Database
  imports Vdb_Index Vdb_MetadataStore Vdb_FileIO
begin

text \<open>
  The database (\<^verbatim>\<open>src/db/database.cpp\<close>): configuration, creation, opening with its fallback to a
  rebuild, every mutation with the order of its effects, retrieval, persistence and the health check. An
  operation is an action on the whole state; what an exception leaves behind is the state at that point.
  The libraries it calls are the environment: SQLite, the distance kernel the CPU selected, and \<^verbatim>\<open>std::log\<close>.
\<close>

section \<open>Configuration\<close>

record database_config =
  dc_dimension :: nat
  dc_metric :: metric
  dc_index_type :: index_type
  dc_hnsw :: hnsw_config
  dc_normalize :: bool

definition dc_validate :: "database_config \<Rightarrow> unit result" where
  "dc_validate c =
     rbind (guard_throw (dc_dimension c = 0 \<or> dc_dimension c > kMaxDimension) InvalidArgumentError) (\<lambda>_.
     if dc_index_type c = Hnsw then hc_validate (dc_hnsw c) else Inr ())"

definition kVectorFileName :: string where "kVectorFileName = ''vectors.bin''"
definition kIndexFileName :: string where "kIndexFileName = ''index.hnsw''"
definition kMetadataFileName :: string where "kMetadataFileName = ''metadata.sqlite''"

definition kKeyDimension :: string where "kKeyDimension = ''dimension''"
definition kKeyMetric :: string where "kKeyMetric = ''metric''"
definition kKeyIndexType :: string where "kKeyIndexType = ''index_type''"
definition kKeyNormalize :: string where "kKeyNormalize = ''normalize''"
definition kKeyHnswM :: string where "kKeyHnswM = ''hnsw_m''"
definition kKeyHnswEfConstruction :: string where "kKeyHnswEfConstruction = ''hnsw_ef_construction''"
definition kKeyHnswEfSearch :: string where "kKeyHnswEfSearch = ''hnsw_ef_search''"
definition kKeyHnswSeed :: string where "kKeyHnswSeed = ''hnsw_seed''"
definition kKeyNextId :: string where "kKeyNextId = ''next_auto_id''"

definition kDefaultFilterOversample :: nat where
  "kDefaultFilterOversample = 8"

text \<open>\<^verbatim>\<open>operator/\<close> of a path: a separator unless the directory is empty or ends in one.\<close>

definition path_append :: "string \<Rightarrow> string \<Rightarrow> string" where
  "path_append dir name = (if dir = [] \<or> last dir = CHR ''/'' then dir @ name else dir @ ''/'' @ name)"

definition vector_file_path :: "string \<Rightarrow> string" where
  "vector_file_path dir = path_append dir kVectorFileName"

definition index_file_path :: "string \<Rightarrow> string" where
  "index_file_path dir = path_append dir kIndexFileName"

definition metadata_file_path :: "string \<Rightarrow> string" where
  "metadata_file_path dir = path_append dir kMetadataFileName"

definition parse_u64 :: "string option \<Rightarrow> u64 result" where
  "parse_u64 s =
     (case s of None \<Rightarrow> Inl CorruptionError
      | Some s \<Rightarrow> (case stoull s of None \<Rightarrow> Inl CorruptionError | Some n \<Rightarrow> Inr n))"

section \<open>State\<close>

record 'db env =
  en_sqlite :: "'db sqlite"
  en_schema :: string
  en_kernel :: distance_kernel
  en_log :: "f64 \<Rightarrow> f64"

text \<open>\<open>db_scratch\<close> is the visited set of the calling thread; \<open>db_world\<close> the files.\<close>

record 'db database =
  db_directory :: string
  db_config :: database_config
  db_store :: vector_store
  db_metadata :: "'db mstore"
  db_index :: vindex
  db_next_auto_id :: u64
  db_dirty :: bool
  db_has_metadata :: bool
  db_scratch :: visited_set
  db_world :: world

type_synonym ('db, 'a) db_act = "('db database, 'a) act"

definition on_metadata :: "('db, 'a) ms_act \<Rightarrow> ('db, 'a) db_act" where
  "on_metadata = azoom db_metadata (\<lambda>m d. d\<lparr>db_metadata := m\<rparr>)"

definition on_files :: "(world, 'a) act \<Rightarrow> ('db, 'a) db_act" where
  "on_files = azoom db_world (\<lambda>w d. d\<lparr>db_world := w\<rparr>)"

definition db_update :: "('db database \<Rightarrow> 'db database) \<Rightarrow> ('db, unit) db_act" where
  "db_update f d = (Inr (), f d)"

definition db_read :: "('db database \<Rightarrow> ('db, 'a) db_act) \<Rightarrow> ('db, 'a) db_act" where
  "db_read f d = f d d"

definition file_exists :: "string \<Rightarrow> world \<Rightarrow> bool" where
  "file_exists path w = (w_dir w path \<noteq> None)"

section \<open>The index\<close>

text \<open>Every slot is added, and the dead ones are then removed, so that slots and nodes stay aligned.\<close>

fun add_slots ::
    "(f64 \<Rightarrow> f64) \<Rightarrow> vector_store \<Rightarrow> local_id list \<Rightarrow> hnsw_index \<Rightarrow> visited_set \<Rightarrow> (hnsw_index \<times> visited_set) result" where
  "add_slots logd s [] ix scratch = Inr (ix, scratch)"
| "add_slots logd s (i # is) ix scratch =
     rbind (hn_add logd ix i scratch) (\<lambda>(ix, scratch).
       add_slots logd s is (if \<not> vs_is_live s i then hn_remove ix i else ix) scratch)"

definition built_index ::
    "'db env \<Rightarrow> database_config \<Rightarrow> vector_store \<Rightarrow> visited_set \<Rightarrow> (vindex \<times> visited_set) result" where
  "built_index env c s scratch =
     (if dc_index_type c = Hnsw then
        rbind (hn_new (vs_accessor s) (dc_metric c) (dc_hnsw c) (en_kernel env)) (\<lambda>ix.
        rbind (add_slots (en_log env) s [0..<vs_slot_count s] ix scratch) (\<lambda>(ix, scratch).
        Inr (HnswIndex ix, scratch)))
      else Inr (BruteIndex \<lparr>bf_accessor = vs_accessor s, bf_metric = dc_metric c, bf_kernel = en_kernel env\<rparr>, scratch))"

definition build_index :: "'db env \<Rightarrow> ('db, unit) db_act" where
  "build_index env d =
     (case built_index env (db_config d) (db_store d) (db_scratch d) of
        Inl e \<Rightarrow> (Inl e, d)
      | Inr (ix, scratch) \<Rightarrow> (Inr (), d\<lparr>db_index := ix, db_scratch := scratch\<rparr>))"

definition refresh_accessor :: "'db database \<Rightarrow> 'db database" where
  "refresh_accessor d = d\<lparr>db_index := ix_set_accessor (db_index d) (vs_accessor (db_store d))\<rparr>"

definition index_add :: "'db env \<Rightarrow> local_id \<Rightarrow> ('db, unit) db_act" where
  "index_add env i d =
     (case ix_add (en_log env) (db_index d) i (db_scratch d) of
        Inl e \<Rightarrow> (Inl e, d)
      | Inr (ix, scratch) \<Rightarrow> (Inr (), d\<lparr>db_index := ix, db_scratch := scratch\<rparr>))"

section \<open>Mutation\<close>

definition db_insert :: "'db env \<Rightarrow> u64 \<Rightarrow> vec \<Rightarrow> metadata \<Rightarrow> ('db, unit) db_act" where
  "db_insert env vid v md = db_read (\<lambda>d.
     abind (alift (vs_insert (db_store d) vid v)) (\<lambda>(i, s).
     abind (db_update (\<lambda>d. refresh_accessor (d\<lparr>db_store := s\<rparr>))) (\<lambda>_.
     abind (index_add env i) (\<lambda>_.
     abind (if md \<noteq> [] then
              abind (on_metadata (ms_set (en_sqlite env) vid md)) (\<lambda>_. db_update (\<lambda>d. d\<lparr>db_has_metadata := True\<rparr>))
            else aret ()) (\<lambda>_.
     db_update (\<lambda>d. (if vid \<ge> db_next_auto_id d then d\<lparr>db_next_auto_id := vid + 1\<rparr> else d)\<lparr>db_dirty := True\<rparr>))))))"

definition db_insert_auto :: "'db env \<Rightarrow> vec \<Rightarrow> metadata \<Rightarrow> ('db, u64) db_act" where
  "db_insert_auto env v md = db_read (\<lambda>d.
     abind (db_insert env (db_next_auto_id d) v md) (\<lambda>_. aret (db_next_auto_id d)))"

definition db_upsert :: "'db env \<Rightarrow> u64 \<Rightarrow> vec \<Rightarrow> metadata \<Rightarrow> ('db, unit) db_act" where
  "db_upsert env vid v md = db_read (\<lambda>d.
     if vs_contains (db_store d) vid then
       abind (alift (vs_upsert (db_store d) vid v)) (\<lambda>(i, s).
       abind (db_update (\<lambda>d. refresh_accessor (d\<lparr>db_store := s\<rparr>))) (\<lambda>_.
       abind (on_metadata (ms_set (en_sqlite env) vid md)) (\<lambda>_.
       db_update (\<lambda>d. d\<lparr>db_has_metadata := db_has_metadata d \<or> md \<noteq> [], db_dirty := True\<rparr>))))
     else db_insert env vid v md)"

definition db_remove :: "'db env \<Rightarrow> u64 \<Rightarrow> ('db, bool) db_act" where
  "db_remove env vid = db_read (\<lambda>d.
     case vs_find (db_store d) vid of
       None \<Rightarrow> aret False
     | Some i \<Rightarrow>
         abind (db_update (\<lambda>d. refresh_accessor (d\<lparr>db_store := snd (vs_remove (db_store d) vid)\<rparr>))) (\<lambda>_.
         abind (db_update (\<lambda>d. d\<lparr>db_index := ix_remove (db_index d) i\<rparr>)) (\<lambda>_.
         abind (on_metadata (ms_remove (en_sqlite env) vid)) (\<lambda>_.
         abind (db_update (\<lambda>d. d\<lparr>db_dirty := True\<rparr>)) (\<lambda>_.
         aret True)))))"

definition db_set_metadata :: "'db env \<Rightarrow> u64 \<Rightarrow> metadata \<Rightarrow> ('db, unit) db_act" where
  "db_set_metadata env vid md = db_read (\<lambda>d.
     if \<not> vs_contains (db_store d) vid then athrow NotFoundError
     else abind (on_metadata (ms_set (en_sqlite env) vid md)) (\<lambda>_.
          db_update (\<lambda>d. d\<lparr>db_has_metadata := db_has_metadata d \<or> md \<noteq> []\<rparr>)))"

section \<open>Retrieval\<close>

record stored_vector =
  sv_id :: u64
  sv_vector :: vec
  sv_metadata :: metadata

definition db_get :: "'db env \<Rightarrow> u64 \<Rightarrow> ('db, stored_vector option) db_act" where
  "db_get env vid = db_read (\<lambda>d.
     case vs_find (db_store d) vid of
       None \<Rightarrow> aret None
     | Some i \<Rightarrow> abind (on_metadata (ms_get (en_sqlite env) vid)) (\<lambda>md.
         aret (Some \<lparr>sv_id = vid, sv_vector = va_view (vs_vectors (db_store d)) i, sv_metadata = md\<rparr>)))"

definition db_contains :: "'db database \<Rightarrow> u64 \<Rightarrow> bool" where
  "db_contains d vid = vs_contains (db_store d) vid"

record query_options =
  qo_k :: nat
  qo_ef_search :: nat
  qo_filter :: vfilter
  qo_exact :: bool
  qo_filter_oversample :: nat
  qo_include_metadata :: bool

record query_result =
  qr_id :: u64
  qr_score :: f32
  qr_metadata :: metadata

definition needs_metadata :: "'db database \<Rightarrow> query_options \<Rightarrow> bool" where
  "needs_metadata d opt \<longleftrightarrow> db_has_metadata d \<and> (qo_filter opt \<noteq> [] \<or> qo_include_metadata opt)"

definition use_exact :: "'db database \<Rightarrow> query_options \<Rightarrow> bool" where
  "use_exact d opt \<longleftrightarrow> qo_exact opt \<or> dc_index_type (db_config d) = BruteForce"

text \<open>How many candidates are asked for; the product is one of \<open>size_t\<close>.\<close>

definition fetch_count :: "'db database \<Rightarrow> query_options \<Rightarrow> nat" where
  "fetch_count d opt =
     (if qo_filter opt \<noteq> [] \<and> \<not> use_exact d opt
      then (qo_k opt * (if qo_filter_oversample opt > 0 then qo_filter_oversample opt else kDefaultFilterOversample)) mod 2 ^ 64
      else qo_k opt)"

definition search_candidates :: "'db env \<Rightarrow> vec \<Rightarrow> query_options \<Rightarrow> ('db, candidate list) db_act" where
  "search_candidates env query opt d =
     (if use_exact d opt then
        (bf_search \<lparr>bf_accessor = vs_accessor (db_store d), bf_metric = dc_metric (db_config d), bf_kernel = en_kernel env\<rparr>
           query \<lparr>sp_k = (if qo_filter opt \<noteq> [] then vs_slot_count (db_store d) else qo_k opt), sp_ef_search = 0\<rparr>, d)
      else case ix_search (db_index d) query \<lparr>sp_k = fetch_count d opt, sp_ef_search = qo_ef_search opt\<rparr> (db_scratch d) of
        Inl e \<Rightarrow> (Inl e, d)
      | Inr (cs, scratch) \<Rightarrow> (Inr cs, d\<lparr>db_scratch := scratch\<rparr>))"

text \<open>The loop over the candidates, which stops when \<open>k\<close> results are there.\<close>

fun collect_results ::
    "'db env \<Rightarrow> query_options \<Rightarrow> candidate list \<Rightarrow> query_result list \<Rightarrow> ('db, query_result list) db_act" where
  "collect_results env opt [] results = aret results"
| "collect_results env opt (c # cs) results =
     (if length results \<ge> qo_k opt then aret results
      else db_read (\<lambda>d.
        abind (alift (vs_vector_id (db_store d) (local_id c))) (\<lambda>vid.
        let put = (\<lambda>md. collect_results env opt cs (results @
              [\<lparr>qr_id = vid, qr_score = score_from_rank_key (dc_metric (db_config d)) (key c), qr_metadata = md\<rparr>])) in
        if needs_metadata d opt then
          abind (on_metadata (ms_get (en_sqlite env) vid)) (\<lambda>md.
            if qo_filter opt \<noteq> [] \<and> \<not> filter_matches (qo_filter opt) md then collect_results env opt cs results else put md)
        else if qo_filter opt \<noteq> [] then collect_results env opt cs results
        else put [])))"

definition db_search :: "'db env \<Rightarrow> vec \<Rightarrow> query_options \<Rightarrow> ('db, query_result list) db_act" where
  "db_search env query opt = db_read (\<lambda>d.
     abind (aguard (qo_k opt = 0) InvalidArgumentError) (\<lambda>_.
     abind (alift (validate_vector query (dc_dimension (db_config d)))) (\<lambda>_.
     abind (search_candidates env query opt) (\<lambda>cs.
     collect_results env opt cs []))))"

fun db_batch_search :: "'db env \<Rightarrow> vec list \<Rightarrow> query_options \<Rightarrow> ('db, query_result list list) db_act" where
  "db_batch_search env [] opt = aret []"
| "db_batch_search env (q # qs) opt =
     abind (db_search env q opt) (\<lambda>r. abind (db_batch_search env qs opt) (\<lambda>rs. aret (r # rs)))"

text \<open>The ids of the live slots, sorted.\<close>

definition live_ids :: "vector_store \<Rightarrow> u64 list" where
  "live_ids s = map (\<lambda>i. vs_local_to_id s ! i) (filter (vs_is_live s) [0..<vs_slot_count s])"

definition db_all_ids :: "'db database \<Rightarrow> u64 list" where
  "db_all_ids d = sort_by (<) (live_ids (db_store d))"

definition db_filter_ids :: "'db env \<Rightarrow> vfilter \<Rightarrow> ('db, u64 list) db_act" where
  "db_filter_ids env f = db_read (\<lambda>d.
     abind (on_metadata (ms_matching (en_sqlite env) f)) (\<lambda>ids.
     aret (filter (\<lambda>i. vs_contains (db_store d) i) ids)))"

section \<open>Persistence\<close>

definition write_vector_file :: "string \<Rightarrow> vector_store \<Rightarrow> (world, unit) act" where
  "write_vector_file path s = abind (alift (vector_file_chunks s)) (write_file_atomically path)"

definition write_hnsw_file :: "string \<Rightarrow> hnsw_index \<Rightarrow> nat \<Rightarrow> (world, unit) act" where
  "write_hnsw_file path ix dimension = write_file_atomically path (hnsw_file_chunks ix dimension)"

definition db_flush :: "'db env \<Rightarrow> ('db, unit) db_act" where
  "db_flush env = db_read (\<lambda>d.
     if \<not> db_dirty d then aret ()
     else
       abind (on_files (write_vector_file (vector_file_path (db_directory d)) (db_store d))) (\<lambda>_.
       abind (if dc_index_type (db_config d) = Hnsw then
                (case db_index d of
                   HnswIndex h \<Rightarrow> on_files (write_hnsw_file (index_file_path (db_directory d)) h (dc_dimension (db_config d)))
                 | BruteIndex b \<Rightarrow> aret ())
              else aret ()) (\<lambda>_.
       abind (on_metadata (ms_set_config (en_sqlite env) kKeyNextId (show_nat (unat (db_next_auto_id d))))) (\<lambda>_.
       db_update (\<lambda>d. d\<lparr>db_dirty := False\<rparr>)))))"

text \<open>The destructor flushes and swallows what that throws.\<close>

definition db_destroy :: "'db env \<Rightarrow> 'db database \<Rightarrow> 'db database" where
  "db_destroy env d = snd (db_flush env d)"

definition db_rebuild_index :: "'db env \<Rightarrow> ('db, unit) db_act" where
  "db_rebuild_index env =
     abind (build_index env) (\<lambda>_.
     abind (db_update (\<lambda>d. d\<lparr>db_dirty := True\<rparr>)) (\<lambda>_.
     db_flush env))"

fun copy_live :: "vector_store \<Rightarrow> local_id list \<Rightarrow> vector_store \<Rightarrow> vector_store result" where
  "copy_live s [] t = Inr t"
| "copy_live s (i # is) t =
     (if \<not> vs_is_live s i then copy_live s is t
      else rbind (vs_vector_id s i) (\<lambda>vid.
           rbind (vs_append_trusted t vid (va_view (vs_vectors s) i) (vs_norms s ! i) True) (\<lambda>(_, t).
           copy_live s is t)))"

definition db_compact :: "'db env \<Rightarrow> ('db, nat) db_act" where
  "db_compact env = db_read (\<lambda>d.
     let reclaimed = vs_tombstone_count (db_store d) in
     if reclaimed = 0 then aret 0
     else
       abind (alift (rbind (vs_new (dc_dimension (db_config d)) (dc_normalize (db_config d)))
                (copy_live (db_store d) [0..<vs_slot_count (db_store d)]))) (\<lambda>compacted.
       abind (db_update (\<lambda>d. d\<lparr>db_store := compacted\<rparr>)) (\<lambda>_.
       abind (build_index env) (\<lambda>_.
       abind (db_update (\<lambda>d. d\<lparr>db_dirty := True\<rparr>)) (\<lambda>_.
       abind (db_flush env) (\<lambda>_.
       aret reclaimed))))))"

end
