(* ===== verification/Vdb_DatabaseOpen.thy ===== *)
theory Vdb_DatabaseOpen
  imports Vdb_Database
begin

text \<open>
  Creating and opening a database, its destructor, the health check and the statistics
  (\<^verbatim>\<open>src/db/database.cpp\<close>). What the operating system answers about directories, and the SQLite file that
  opening the metadata path gives, are the argument \<open>host\<close>.
\<close>

section \<open>Configuration rows\<close>

definition config_rows :: "database_config \<Rightarrow> u64 \<Rightarrow> (string \<times> string) list" where
  "config_rows c next_id =
     [(kKeyDimension, show_nat (dc_dimension c)),
      (kKeyMetric, metric_name (dc_metric c)),
      (kKeyIndexType, index_type_name (dc_index_type c)),
      (kKeyNormalize, if dc_normalize c then ''1'' else ''0''),
      (kKeyHnswM, show_nat (hc_m (dc_hnsw c))),
      (kKeyHnswEfConstruction, show_nat (hc_ef_construction (dc_hnsw c))),
      (kKeyHnswEfSearch, show_nat (hc_ef_search (dc_hnsw c))),
      (kKeyHnswSeed, show_nat (unat (hc_seed (dc_hnsw c)))),
      (kKeyNextId, show_nat (unat next_id))]"

fun set_configs :: "'db sqlite \<Rightarrow> (string \<times> string) list \<Rightarrow> ('db, unit) ms_act" where
  "set_configs sq [] = aret ()"
| "set_configs sq ((k, v) # rows) = abind (ms_set_config sq k v) (\<lambda>_. set_configs sq rows)"

definition persist_config :: "'db sqlite \<Rightarrow> database_config \<Rightarrow> u64 \<Rightarrow> ('db, unit) ms_act" where
  "persist_config sq c next_id = in_transaction sq (set_configs sq (config_rows c next_id))"

section \<open>Creation\<close>

record 'db host =
  ho_exists :: bool \<comment> \<open>the directory exists already\<close>
  ho_mkdir :: bool \<comment> \<open>it can be created\<close>
  ho_is_directory :: bool
  ho_sqlite :: "'db option" \<comment> \<open>what opening the metadata file gives\<close>
  ho_world :: world
  ho_scratch :: visited_set

text \<open>
  An error before the object exists, or the object with the outcome of the first flush. When that throws, the
  object is destroyed, which flushes again.
\<close>

definition db_create ::
    "'db env \<Rightarrow> string \<Rightarrow> database_config \<Rightarrow> 'db host \<Rightarrow> error + (unit result \<times> 'db database)" where
  "db_create env dir c host =
     rbind (dc_validate c) (\<lambda>_.
     rbind (guard_throw (ho_exists host) InvalidArgumentError) (\<lambda>_.
     rbind (guard_throw (\<not> ho_mkdir host) IoError) (\<lambda>_.
     rbind (vs_new (dc_dimension c) (dc_normalize c)) (\<lambda>s.
     rbind (ms_open (en_sqlite env) (en_schema env) (ho_sqlite host)) (\<lambda>m.
     case persist_config (en_sqlite env) c 0 m of
       (Inl e, _) \<Rightarrow> Inl e
     | (Inr _, m) \<Rightarrow>
         rbind (built_index env c s (ho_scratch host)) (\<lambda>(ix, scratch).
         let d = \<lparr>db_directory = dir, db_config = c, db_store = s, db_metadata = m, db_index = ix, db_next_auto_id = 0,
                  db_dirty = True, db_has_metadata = False, db_scratch = scratch, db_world = ho_world host\<rparr> in
         Inr (case db_flush env d of
                (Inr _, d) \<Rightarrow> (Inr (), d)
              | (Inl e, d) \<Rightarrow> (Inl e, db_destroy env d))))))))"

section \<open>Opening\<close>

text \<open>The store and the files are all that opening changes.\<close>

type_synonym ('db, 'a) open_act = "('db mstore \<times> world, 'a) act"

definition open_config :: "'db env \<Rightarrow> string \<Rightarrow> ('db, string option) open_act" where
  "open_config env k = azoom fst (\<lambda>m (_, w). (m, w)) (ms_get_config (en_sqlite env) k)"

definition open_u64 :: "'db env \<Rightarrow> string \<Rightarrow> ('db, u64) open_act" where
  "open_u64 env k = abind (open_config env k) (\<lambda>t. alift (parse_u64 t))"

definition open_files :: "(world, 'a) act \<Rightarrow> ('db, 'a) open_act" where
  "open_files = azoom snd (\<lambda>w (m, _). (m, w))"

definition read_config :: "'db env \<Rightarrow> ('db, database_config) open_act" where
  "read_config env =
     abind (open_u64 env kKeyDimension) (\<lambda>dimension.
     abind (open_config env kKeyMetric) (\<lambda>metric_text.
     case Option.bind metric_text parse_metric of
       None \<Rightarrow> athrow CorruptionError
     | Some metric \<Rightarrow>
     abind (open_config env kKeyIndexType) (\<lambda>index_text.
     case Option.bind index_text parse_index_type of
       None \<Rightarrow> athrow CorruptionError
     | Some index_type \<Rightarrow>
     abind (open_config env kKeyNormalize) (\<lambda>normalize.
     abind (open_u64 env kKeyHnswM) (\<lambda>m.
     abind (open_u64 env kKeyHnswEfConstruction) (\<lambda>efc.
     abind (open_u64 env kKeyHnswEfSearch) (\<lambda>efs.
     abind (open_u64 env kKeyHnswSeed) (\<lambda>seed.
     let c = \<lparr>dc_dimension = cast_u32 (unat dimension), dc_metric = metric, dc_index_type = index_type,
              dc_hnsw = \<lparr>hc_m = unat m, hc_ef_construction = unat efc, hc_ef_search = unat efs, hc_seed = seed\<rparr>,
              dc_normalize = (case normalize of None \<Rightarrow> False | Some t \<Rightarrow> t = ''1'')\<rparr> in
     abind (alift (dc_validate c)) (\<lambda>_. aret c)))))))))"

text \<open>A vector file there is read; without one the store is empty.\<close>

definition open_store :: "string \<Rightarrow> database_config \<Rightarrow> ('db, vector_store) open_act" where
  "open_store dir c mw =
     (if file_exists (vector_file_path dir) (snd mw)
      then abind (open_files (map_file (vector_file_path dir))) (\<lambda>bytes. alift (read_vector_file bytes)) mw
      else alift (vs_new (dc_dimension c) (dc_normalize c)) mw)"

text \<open>The index file, when there is one and it is intact; a corrupt or unreadable one counts as absent.\<close>

definition load_index ::
    "'db env \<Rightarrow> string \<Rightarrow> database_config \<Rightarrow> vector_store \<Rightarrow> ('db, hnsw_index option) open_act" where
  "load_index env dir c s mw =
     (if dc_index_type c = Hnsw \<and> file_exists (index_file_path dir) (snd mw) then
        acatch
          (abind (open_files (map_file (index_file_path dir))) (\<lambda>bytes.
           abind (alift (read_hnsw_file bytes (vs_accessor s) (dc_metric c) (dc_dimension c) (en_kernel env))) (\<lambda>ix.
           aret (Some ix))))
          (\<lambda>e. if is_corruption e \<or> is_io_error e then aret None else athrow e) mw
      else aret None mw)"

definition db_open :: "'db env \<Rightarrow> string \<Rightarrow> 'db host \<Rightarrow> 'db database result" where
  "db_open env dir host =
     rbind (guard_throw (\<not> ho_is_directory host) NotFoundError) (\<lambda>_.
     rbind (guard_throw (\<not> file_exists (metadata_file_path dir) (ho_world host)) NotFoundError) (\<lambda>_.
     rbind (ms_open (en_sqlite env) (en_schema env) (ho_sqlite host)) (\<lambda>m.
     fst (abind (read_config env) (\<lambda>c.
          abind (open_store dir c) (\<lambda>s.
          abind (aguard (vs_dimension s \<noteq> dc_dimension c) CorruptionError) (\<lambda>_.
          abind (open_config env kKeyNextId) (\<lambda>next_text.
          abind (alift (parse_u64 (Some (case next_text of None \<Rightarrow> ''0'' | Some t \<Rightarrow> t)))) (\<lambda>next_id.
          abind (azoom fst (\<lambda>m (_, w). (m, w)) (ms_vector_count (en_sqlite env))) (\<lambda>vectors.
          abind (load_index env dir c s) (\<lambda>loaded.
          abind (alift (case loaded of
                   Some ix \<Rightarrow> Inr (HnswIndex ix, ho_scratch host)
                 | None \<Rightarrow> built_index env c s (ho_scratch host))) (\<lambda>(ix, scratch) (m, w).
          (Inr \<lparr>db_directory = dir, db_config = c, db_store = s, db_metadata = m, db_index = ix, db_next_auto_id = next_id,
                db_dirty = (loaded = None \<and> dc_index_type c = Hnsw), db_has_metadata = (vectors > 0),
                db_scratch = scratch, db_world = w\<rparr>, (m, w)))))))))) (m, ho_world host)))))"

section \<open>The health check\<close>

text \<open>One constructor for each message.\<close>

datatype check_issue =
    VectorFileMissing nat
  | VectorFileDimension nat nat
  | VectorPayloadDamaged
  | VectorFileError error
  | IndexFileMissing
  | IndexNodeCount nat nat
  | IndexMetric metric metric
  | IndexPayloadDamaged
  | IndexFileError error
  | OrphanRows nat u64
  | ManyTombstones nat nat
  | NonFiniteSlot nat u64

fun issue_is_error :: "check_issue \<Rightarrow> bool" where
  "issue_is_error IndexFileMissing = False"
| "issue_is_error (OrphanRows _ _) = False"
| "issue_is_error (ManyTombstones _ _) = False"
| "issue_is_error _ = True"

definition error_count :: "check_issue list \<Rightarrow> nat" where
  "error_count issues = length (filter issue_is_error issues)"

definition warning_count :: "check_issue list \<Rightarrow> nat" where
  "warning_count issues = length issues - error_count issues"

definition read_vector_file_header :: "string \<Rightarrow> (world, vector_file_header) act" where
  "read_vector_file_header path =
     abind (or_io_error (sys_stat_size path)) (\<lambda>size.
     abind (read_file_prefix path kVectorFileHeaderSize) (\<lambda>prefix.
     alift (parse_vector_file_header prefix (word_of_nat size))))"

definition read_hnsw_file_header :: "string \<Rightarrow> (world, hnsw_file_header) act" where
  "read_hnsw_file_header path =
     abind (or_io_error (sys_stat_size path)) (\<lambda>size.
     abind (read_file_prefix path kHnswFileHeaderSize) (\<lambda>prefix.
     alift (parse_hnsw_file_header prefix (word_of_nat size))))"

text \<open>A \<open>try\<close> block that reports issues; \<open>f\<close> gets those found so far when an error of the hierarchy ends it.\<close>

definition report_errors :: "(error \<Rightarrow> check_issue) \<Rightarrow> (world, check_issue list \<times> error option) act \<Rightarrow> (world, check_issue list) act" where
  "report_errors issue m =
     abind m (\<lambda>(issues, e). case e of
       None \<Rightarrow> aret issues
     | Some e \<Rightarrow> if is_vdb_error e then aret (issues @ [issue e]) else athrow e)"

text \<open>Turning an exception into a value, with the issues already reported.\<close>

definition attempt :: "check_issue list \<Rightarrow> (world, 'a) act \<Rightarrow> ('a \<Rightarrow> (world, check_issue list \<times> error option) act) \<Rightarrow>
    (world, check_issue list \<times> error option) act" where
  "attempt issues m f w = (case m w of (Inl e, w) \<Rightarrow> (Inr (issues, Some e), w) | (Inr x, w) \<Rightarrow> f x w)"

definition check_vector_file :: "'db database \<Rightarrow> bool \<Rightarrow> (world, check_issue list) act" where
  "check_vector_file d deep w =
     (let path = vector_file_path (db_directory d) in
      if \<not> file_exists path w then
        (Inr (if vs_slot_count (db_store d) > 0 then [VectorFileMissing (vs_slot_count (db_store d))] else []), w)
      else report_errors VectorFileError
        (attempt [] (read_vector_file_header path) (\<lambda>h.
           let dim = unat (vh_dimension h);
               issues = (if dim \<noteq> dc_dimension (db_config d) then [VectorFileDimension dim (dc_dimension (db_config d))] else []) in
           if \<not> deep then aret (issues, None)
           else attempt issues (abind (map_file path) (\<lambda>bytes. alift (verify_vector_file_payload bytes))) (\<lambda>good.
             aret (issues @ (if good then [] else [VectorPayloadDamaged]), None)))) w)"

definition check_index_file :: "'db database \<Rightarrow> bool \<Rightarrow> (world, check_issue list) act" where
  "check_index_file d deep w =
     (let path = index_file_path (db_directory d) in
      if dc_index_type (db_config d) \<noteq> Hnsw then (Inr [], w)
      else if \<not> file_exists path w then (Inr [IndexFileMissing], w)
      else report_errors IndexFileError
        (attempt [] (read_hnsw_file_header path) (\<lambda>h.
           let n = unat (hh_node_count h);
               issues = (if n \<noteq> vs_slot_count (db_store d) then [IndexNodeCount n (vs_slot_count (db_store d))] else []) @
                 (if hh_metric h \<noteq> dc_metric (db_config d) then [IndexMetric (hh_metric h) (dc_metric (db_config d))] else []) in
           if \<not> deep then aret (issues, None)
           else attempt issues (abind (map_file path) (\<lambda>bytes. alift (verify_hnsw_file_payload bytes))) (\<lambda>good.
             aret (issues @ (if good then [] else [IndexPayloadDamaged]), None)))) w)"

definition kHalf :: f64 where
  "kHalf = 0x3FE0000000000000"

definition first_non_finite :: "vector_store \<Rightarrow> check_issue list" where
  "first_non_finite s =
     (case filter (\<lambda>i. \<not> is_finite_vec (va_view (vs_vectors s) i)) [0..<vs_slot_count s] of
        [] \<Rightarrow> [] | i # _ \<Rightarrow> [NonFiniteSlot i (vs_local_to_id s ! i)])"

definition db_check :: "'db env \<Rightarrow> bool \<Rightarrow> ('db, check_issue list) db_act" where
  "db_check env deep = db_read (\<lambda>d.
     abind (on_files (check_vector_file d deep)) (\<lambda>vector_issues.
     abind (on_files (check_index_file d deep)) (\<lambda>index_issues.
     abind (on_metadata (ms_orphaned_ids (en_sqlite env) (set (live_ids (db_store d))))) (\<lambda>orphans.
     aret (vector_issues @ index_issues @
       (case orphans of [] \<Rightarrow> [] | i # _ \<Rightarrow> [OrphanRows (length orphans) i]) @
       (if f64_lt kHalf (vs_tombstone_ratio (db_store d)) \<and> vs_slot_count (db_store d) > 100
        then [ManyTombstones (vs_tombstone_count (db_store d)) (vs_slot_count (db_store d))] else []) @
       (if deep then first_non_finite (db_store d) else []))))))"

section \<open>Statistics\<close>

record db_stats =
  ds_dimension :: nat
  ds_metric :: metric
  ds_index_type :: index_type
  ds_index_description :: string
  ds_live_vectors :: nat
  ds_slots :: nat
  ds_tombstones :: nat
  ds_tombstone_ratio :: f64
  ds_metadata_vectors :: nat
  ds_metadata_rows :: nat
  ds_metadata_keys :: "string list"
  ds_vector_file_bytes :: nat
  ds_index_file_bytes :: nat
  ds_metadata_file_bytes :: nat
  ds_dirty :: bool

definition file_size_or_zero :: "string \<Rightarrow> (world, nat) act" where
  "file_size_or_zero path w = (case sys_stat_size path w of (Done n, w) \<Rightarrow> (Inr n, w) | (_, w) \<Rightarrow> (Inr 0, w))"

definition db_get_stats :: "'db env \<Rightarrow> ('db, db_stats) db_act" where
  "db_get_stats env = db_read (\<lambda>d.
     abind (on_metadata (ms_vector_count (en_sqlite env))) (\<lambda>vectors.
     abind (on_metadata (ms_row_count (en_sqlite env))) (\<lambda>rows.
     abind (on_metadata (ms_keys (en_sqlite env))) (\<lambda>keys.
     abind (on_files (file_size_or_zero (vector_file_path (db_directory d)))) (\<lambda>vbytes.
     abind (on_files (file_size_or_zero (index_file_path (db_directory d)))) (\<lambda>ibytes.
     abind (on_files (file_size_or_zero (metadata_file_path (db_directory d)))) (\<lambda>mbytes.
     aret \<lparr>ds_dimension = dc_dimension (db_config d), ds_metric = dc_metric (db_config d),
           ds_index_type = dc_index_type (db_config d), ds_index_description = ix_describe (db_index d),
           ds_live_vectors = vs_live_count (db_store d), ds_slots = vs_slot_count (db_store d),
           ds_tombstones = vs_tombstone_count (db_store d), ds_tombstone_ratio = vs_tombstone_ratio (db_store d),
           ds_metadata_vectors = vectors, ds_metadata_rows = rows, ds_metadata_keys = keys,
           ds_vector_file_bytes = vbytes, ds_index_file_bytes = ibytes, ds_metadata_file_bytes = mbytes,
           ds_dirty = db_dirty d\<rparr>)))))))"

end
