(* ===== verification/Vdb_MetadataSpec.thy ===== *)
theory Vdb_MetadataSpec
  imports Vdb_MetadataStore
begin

text \<open>
  What the metadata store promises: the rows as an abstract table, the laws SQLite's documentation gives
  for the statements the store runs, and the proofs that the operations implement a map from ids to
  metadata: writes are atomic, what was written is read back, and the scan returns the matching ids.
\<close>

section \<open>The table behind a database state\<close>

text \<open>\<open>sc_saved\<close> is the committed table while a transaction is open.\<close>

record sql_content =
  sc_meta :: "u64 \<Rightarrow> string \<Rightarrow> sql_row option"
  sc_config :: "string \<Rightarrow> string option"
  sc_saved :: "((u64 \<Rightarrow> string \<Rightarrow> sql_row option) \<times> (string \<Rightarrow> string option)) option"

definition sc_rollback :: "sql_content \<Rightarrow> sql_content" where
  "sc_rollback c = (case sc_saved c of None \<Rightarrow> c | Some (m, g) \<Rightarrow> \<lparr>sc_meta = m, sc_config = g, sc_saved = None\<rparr>)"

text \<open>What a crash or a rollback leaves.\<close>

definition sc_durable :: "sql_content \<Rightarrow> u64 \<Rightarrow> string \<Rightarrow> sql_row option" where
  "sc_durable c = sc_meta (sc_rollback c)"

text \<open>A NaN is stored as NULL, and negative zero as zero (a REAL column keeps an integral value as an integer).\<close>

definition sql_stored :: "sql_value \<Rightarrow> sql_value" where
  "sql_stored v = (case v of
     SqlReal x \<Rightarrow> if is_nanv (f64_val x) then SqlNull else if x = 0x8000000000000000 then SqlReal 0 else v
   | _ \<Rightarrow> v)"

text \<open>The cells the store binds for a value: the type code, then the value in the column of its type. Every row it
  inserts has this shape, so a cell never meets a column of another affinity.\<close>

fun enc_value :: "metadata_value \<Rightarrow> sql_row" where
  "enc_value MNull = [SqlInt 0, SqlNull, SqlNull, SqlNull]"
| "enc_value (MInt i) = [SqlInt 1, SqlInt i, SqlNull, SqlNull]"
| "enc_value (MReal x) = [SqlInt 2, SqlNull, SqlReal x, SqlNull]"
| "enc_value (MText s) = [SqlInt 3, SqlNull, SqlNull, SqlText s]"

text \<open>The keys of one vector in the order of the primary key.\<close>

definition keys_of :: "(string \<Rightarrow> sql_row option) \<Rightarrow> string list \<Rightarrow> bool" where
  "keys_of m ks \<longleftrightarrow> sorted_wrt str_less ks \<and> set ks = {k. m k \<noteq> None}"

section \<open>What SQLite promises\<close>

text \<open>A statement that fails has no effect, or the whole transaction is rolled back.\<close>

definition sql_failed :: "sql_content \<Rightarrow> sql_content \<Rightarrow> bool" where
  "sql_failed c c' \<longleftrightarrow> c' = c \<or> c' = sc_rollback c"

definition law_begin :: "'db sqlite \<Rightarrow> ('db \<Rightarrow> sql_content) \<Rightarrow> bool" where
  "law_begin sq content \<longleftrightarrow> (\<forall>db ok db'. sq_exec sq ''BEGIN IMMEDIATE'' db = (ok, db') \<longrightarrow>
     (if ok then sc_saved (content db) = None \<and>
        content db' = (content db)\<lparr>sc_saved := Some (sc_meta (content db), sc_config (content db))\<rparr>
      else content db' = content db))"

definition law_commit :: "'db sqlite \<Rightarrow> ('db \<Rightarrow> sql_content) \<Rightarrow> bool" where
  "law_commit sq content \<longleftrightarrow> (\<forall>db ok db'. sq_exec sq ''COMMIT'' db = (ok, db') \<longrightarrow>
     (if ok then content db' = (content db)\<lparr>sc_saved := None\<rparr> else sql_failed (content db) (content db')))"

definition law_rollback :: "'db sqlite \<Rightarrow> ('db \<Rightarrow> sql_content) \<Rightarrow> bool" where
  "law_rollback sq content \<longleftrightarrow> (\<forall>db ok db'. sq_exec sq ''ROLLBACK'' db = (ok, db') \<longrightarrow> content db' = sc_rollback (content db))"

definition law_delete :: "'db sqlite \<Rightarrow> ('db \<Rightarrow> sql_content) \<Rightarrow> bool" where
  "law_delete sq content \<longleftrightarrow> (\<forall>vid db rows ok db'. sq_query sq sql_delete_by_vector [SqlInt vid] db = ((rows, ok), db') \<longrightarrow>
     rows = [] \<and>
     (if ok then content db' = (content db)\<lparr>sc_meta := (sc_meta (content db))(vid := Map.empty)\<rparr>
      else sql_failed (content db) (content db')))"

definition law_insert :: "'db sqlite \<Rightarrow> ('db \<Rightarrow> sql_content) \<Rightarrow> bool" where
  "law_insert sq content \<longleftrightarrow> (\<forall>vid k v db rows ok db'.
     sq_query sq sql_insert_value (SqlInt vid # SqlText k # enc_value v) db = ((rows, ok), db') \<longrightarrow>
     rows = [] \<and>
     (if ok then content db' = (content db)\<lparr>sc_meta := (sc_meta (content db))(vid := (sc_meta (content db) vid)(k \<mapsto> map sql_stored (enc_value v)))\<rparr>
      else sql_failed (content db) (content db')))"

definition law_select :: "'db sqlite \<Rightarrow> ('db \<Rightarrow> sql_content) \<Rightarrow> bool" where
  "law_select sq content \<longleftrightarrow> (\<forall>vid db rows ok db'. sq_query sq sql_select_by_vector [SqlInt vid] db = ((rows, ok), db') \<longrightarrow>
     content db' = content db \<and>
     (ok \<longrightarrow> (\<exists>ks. keys_of (sc_meta (content db) vid) ks \<and> rows = map (\<lambda>k. SqlText k # the (sc_meta (content db) vid k)) ks)))"

text \<open>The whole table comes grouped by vector, in the order of the signed ids.\<close>

definition law_select_all :: "'db sqlite \<Rightarrow> ('db \<Rightarrow> sql_content) \<Rightarrow> bool" where
  "law_select_all sq content \<longleftrightarrow> (\<forall>db rows ok db'. sq_query sq sql_select_all [] db = ((rows, ok), db') \<longrightarrow>
     content db' = content db \<and>
     (ok \<longrightarrow> (\<exists>ids kss. sorted_wrt (\<lambda>i j. i <s j) ids \<and> set ids = {i. sc_meta (content db) i \<noteq> Map.empty} \<and>
        (\<forall>i\<in>set ids. keys_of (sc_meta (content db) i) (kss i)) \<and>
        rows = concat (map (\<lambda>i. map (\<lambda>k. SqlInt i # SqlText k # the (sc_meta (content db) i k)) (kss i)) ids))))"

text \<open>A query for one row delivers it or fails. The count is positive when the vector has a row.\<close>

definition law_count :: "'db sqlite \<Rightarrow> ('db \<Rightarrow> sql_content) \<Rightarrow> bool" where
  "law_count sq content \<longleftrightarrow> (\<forall>vid db rows ok db'. sq_query sq sql_count_vector [SqlInt vid] db = ((rows, ok), db') \<longrightarrow>
     content db' = content db \<and>
     (rows = [] \<and> \<not> ok \<or> (\<exists>n. rows = [[SqlInt n]] \<and> (0 <s n \<longleftrightarrow> sc_meta (content db) vid \<noteq> Map.empty))))"

definition law_count_all :: "'db sqlite \<Rightarrow> ('db \<Rightarrow> sql_content) \<Rightarrow> bool" where
  "law_count_all sq content \<longleftrightarrow> (\<forall>db rows ok db'. sq_query sq sql_count_distinct [] db = ((rows, ok), db') \<longrightarrow>
     content db' = content db \<and>
     (rows = [] \<and> \<not> ok \<or> (\<exists>n. rows = [[SqlInt n]] \<and> (n \<noteq> 0 \<longleftrightarrow> (\<exists>vid. sc_meta (content db) vid \<noteq> Map.empty)))))"

definition law_set_config :: "'db sqlite \<Rightarrow> ('db \<Rightarrow> sql_content) \<Rightarrow> bool" where
  "law_set_config sq content \<longleftrightarrow> (\<forall>k v db rows ok db'. sq_query sq sql_set_config [SqlText k, SqlText v] db = ((rows, ok), db') \<longrightarrow>
     rows = [] \<and>
     (if ok then content db' = (content db)\<lparr>sc_config := (sc_config (content db))(k \<mapsto> v)\<rparr>
      else sql_failed (content db) (content db')))"

definition law_get_config :: "'db sqlite \<Rightarrow> ('db \<Rightarrow> sql_content) \<Rightarrow> bool" where
  "law_get_config sq content \<longleftrightarrow> (\<forall>k db rows ok db'. sq_query sq sql_get_config [SqlText k] db = ((rows, ok), db') \<longrightarrow>
     content db' = content db \<and>
     (rows = [] \<and> \<not> ok \<or> rows = (case sc_config (content db) k of None \<Rightarrow> [] | Some v \<Rightarrow> [[SqlText v]])))"

definition sqlite_laws :: "'db sqlite \<Rightarrow> ('db \<Rightarrow> sql_content) \<Rightarrow> bool" where
  "sqlite_laws sq content \<longleftrightarrow> law_begin sq content \<and> law_commit sq content \<and> law_rollback sq content \<and> law_delete sq content \<and>
     law_insert sq content \<and> law_select sq content \<and> law_select_all sq content \<and> law_count sq content \<and>
     law_count_all sq content \<and> law_set_config sq content \<and> law_get_config sq content"

section \<open>A store at rest\<close>

definition ms_rest :: "('db \<Rightarrow> sql_content) \<Rightarrow> 'db mstore \<Rightarrow> bool" where
  "ms_rest content s \<longleftrightarrow> ms_insert_value s = st_new sql_insert_value \<and> ms_select_by_vector s = st_new sql_select_by_vector \<and>
     ms_delete_by_vector s = st_new sql_delete_by_vector \<and> ms_transaction s = None \<and> ms_depth s = 0 \<and>
     sc_saved (content (ms_db s)) = None"

text \<open>The statements the transaction uses are ready.\<close>

definition ms_ready :: "'db mstore \<Rightarrow> bool" where
  "ms_ready s \<longleftrightarrow> ms_insert_value s = st_new sql_insert_value \<and> ms_delete_by_vector s = st_new sql_delete_by_vector"

lemma statement_params [simp]:
  "st_new sql_insert_value = \<lparr>st_sql = sql_insert_value, st_params = [SqlNull, SqlNull, SqlNull, SqlNull, SqlNull, SqlNull], st_run = None\<rparr>"
  "st_new sql_select_by_vector = \<lparr>st_sql = sql_select_by_vector, st_params = [SqlNull], st_run = None\<rparr>"
  "st_new sql_delete_by_vector = \<lparr>st_sql = sql_delete_by_vector, st_params = [SqlNull], st_run = None\<rparr>"
  "st_new sql_select_all = \<lparr>st_sql = sql_select_all, st_params = [], st_run = None\<rparr>"
  "st_new sql_count_vector = \<lparr>st_sql = sql_count_vector, st_params = [SqlNull], st_run = None\<rparr>"
  by (simp_all add: st_new_def) (code_simp | simp add: sql_insert_value_def sql_select_by_vector_def sql_delete_by_vector_def sql_select_all_def sql_count_vector_def)+

section \<open>One statement\<close>

lemmas statement_defs = cached_def bind_value_def bind_int64_def bind_double_def bind_text_def bind_null_def bind_param_def
  stmt_run_def stmt_step_def stmt_reset_def abind_def aret_def athrow_def

lemma insert_row_run:
  assumes "ms_insert_value s = st_new sql_insert_value"
    and "sq_query sq sql_insert_value (SqlInt vid # SqlText k # enc_value v) (ms_db s) = (([], ok), db')"
  obtains "ok" "insert_row sq vid k v s = (Inr (), s\<lparr>ms_db := db'\<rparr>)"
  | st where "\<not> ok" "insert_row sq vid k v s = (Inl MetadataError, s\<lparr>ms_db := db', ms_insert_value := st\<rparr>)" "st_run st \<noteq> None"
proof (cases ok)
  case True
  have "insert_row sq vid k v s = (Inr (), s\<lparr>ms_db := db'\<rparr>)"
    using assms True by (cases v) (simp_all add: insert_row_def statement_defs Let_def)
  then show ?thesis using that(1) True by blast
next
  case False
  have "\<exists>st. insert_row sq vid k v s = (Inl MetadataError, s\<lparr>ms_db := db', ms_insert_value := st\<rparr>) \<and> st_run st \<noteq> None"
    using assms False by (cases v) (simp_all add: insert_row_def statement_defs Let_def, force+)
  then show ?thesis using that(2) False by blast
qed

lemma delete_vector_run:
  assumes "ms_delete_by_vector s = st_new sql_delete_by_vector"
    and "sq_query sq sql_delete_by_vector [SqlInt vid] (ms_db s) = (([], ok), db')"
  obtains "ok" "delete_vector sq vid s = (Inr (), s\<lparr>ms_db := db'\<rparr>)"
  | st where "\<not> ok" "delete_vector sq vid s = (Inl MetadataError, s\<lparr>ms_db := db', ms_delete_by_vector := st\<rparr>)" "st_run st \<noteq> None"
proof (cases ok)
  case True
  have "delete_vector sq vid s = (Inr (), s\<lparr>ms_db := db'\<rparr>)"
    using assms True by (simp add: delete_vector_def statement_defs Let_def)
  then show ?thesis using that(1) True by blast
next
  case False
  have "\<exists>st. delete_vector sq vid s = (Inl MetadataError, s\<lparr>ms_db := db', ms_delete_by_vector := st\<rparr>) \<and> st_run st \<noteq> None"
    using assms False by (simp add: delete_vector_def statement_defs Let_def) force
  then show ?thesis using that(2) False by blast
qed

text \<open>A statement left running refuses its next binding, so the operations on it fail from then on.\<close>

lemma stuck_insert: "st_run (ms_insert_value s) \<noteq> None \<Longrightarrow> insert_row sq vid k v s = (Inl MetadataError, s)"
  by (cases s) (auto simp: insert_row_def statement_defs)

section \<open>Setting all of a vector's metadata\<close>

text \<open>The table after writing \<open>md\<close> for a vector.\<close>

definition stored_rows :: "metadata \<Rightarrow> string \<Rightarrow> sql_row option" where
  "stored_rows md k = map_option (\<lambda>v. map sql_stored (enc_value v)) (map_of (rev md) k)"

lemma stored_rows_snoc: "stored_rows (md @ [(k, v)]) = (stored_rows md)(k \<mapsto> map sql_stored (enc_value v))"
  by (auto simp: stored_rows_def fun_eq_iff)

text \<open>Inside the transaction: the rows so far, and the table to go back to.\<close>

definition in_set :: "('db \<Rightarrow> sql_content) \<Rightarrow> sql_content \<Rightarrow> u64 \<Rightarrow> metadata \<Rightarrow> 'db mstore \<Rightarrow> bool" where
  "in_set content c vid md s \<longleftrightarrow> content (ms_db s) = \<lparr>sc_meta = (sc_meta c)(vid := stored_rows md), sc_config = sc_config c,
     sc_saved = Some (sc_meta c, sc_config c)\<rparr>"

text \<open>After a failure: the old table is what a rollback gives.\<close>

definition can_restore :: "('db \<Rightarrow> sql_content) \<Rightarrow> sql_content \<Rightarrow> 'db mstore \<Rightarrow> bool" where
  "can_restore content c s \<longleftrightarrow> sc_rollback (content (ms_db s)) = \<lparr>sc_meta = sc_meta c, sc_config = sc_config c, sc_saved = None\<rparr>"

lemma rollback_twice [simp]: "sc_rollback (sc_rollback c) = sc_rollback c"
  by (auto simp: sc_rollback_def split: option.splits)

lemma failed_restore: "sql_failed c c' \<Longrightarrow> sc_rollback c' = sc_rollback c"
  by (auto simp: sql_failed_def)

lemma in_set_restore: "in_set content c vid md s \<Longrightarrow> can_restore content c s"
  by (simp add: in_set_def can_restore_def sc_rollback_def)

lemma insert_rows_cases:
  assumes laws: "sqlite_laws sq content"
  shows "ms_insert_value s = st_new sql_insert_value \<Longrightarrow> in_set content c vid done s \<Longrightarrow> insert_rows sq vid md s = (r, s') \<Longrightarrow>
    (r = Inr () \<and> (\<exists>db. s' = s\<lparr>ms_db := db\<rparr>) \<and> in_set content c vid (done @ md) s') \<or>
    (r = Inl MetadataError \<and> (\<exists>db st. s' = s\<lparr>ms_db := db, ms_insert_value := st\<rparr>) \<and> can_restore content c s')"
proof (induction md arbitrary: "done" s)
  case Nil
  have "s = s\<lparr>ms_db := ms_db s\<rparr>" by simp
  moreover have "r = Inr ()" "s' = s" using Nil.prems(3) by simp_all
  ultimately show ?case using Nil.prems(2) by (metis append_Nil2)
next
  case (Cons kv md)
  obtain k v where kv: "kv = (k, v)" by fastforce
  obtain rows ok db' where q: "sq_query sq sql_insert_value (SqlInt vid # SqlText k # enc_value v) (ms_db s) = ((rows, ok), db')"
    by (metis prod.collapse)
  have law: "rows = []" "ok \<Longrightarrow> content db' = (content (ms_db s))\<lparr>sc_meta := (sc_meta (content (ms_db s)))(vid :=
      (sc_meta (content (ms_db s)) vid)(k \<mapsto> map sql_stored (enc_value v)))\<rparr>"
    "\<not> ok \<Longrightarrow> sql_failed (content (ms_db s)) (content db')"
    using laws q unfolding sqlite_laws_def law_insert_def by (metis (full_types))+
  show ?case
  proof (rule insert_row_run [OF Cons.prems(1) q [unfolded law(1)]])
    assume ok: "ok" and i: "insert_row sq vid k v s = (Inr (), s\<lparr>ms_db := db'\<rparr>)"
    have st: "in_set content c vid (done @ [(k, v)]) (s\<lparr>ms_db := db'\<rparr>)"
      using law(2) [OF ok] Cons.prems(2) by (simp add: in_set_def stored_rows_snoc)
    have rest: "insert_rows sq vid md (s\<lparr>ms_db := db'\<rparr>) = (r, s')" using Cons.prems(3) i by (simp add: kv abind_step)
    have "ms_insert_value (s\<lparr>ms_db := db'\<rparr>) = st_new sql_insert_value" using Cons.prems(1) by simp
    from Cons.IH [OF this st rest] show ?thesis by (auto simp: kv)
  next
    fix st
    assume ok: "\<not> ok" and i: "insert_row sq vid k v s = (Inl MetadataError, s\<lparr>ms_db := db', ms_insert_value := st\<rparr>)"
    have "can_restore content c (s\<lparr>ms_db := db', ms_insert_value := st\<rparr>)"
      using in_set_restore [OF Cons.prems(2)] failed_restore [OF law(3) [OF ok]] by (simp add: can_restore_def)
    moreover have "r = Inl MetadataError" "s' = s\<lparr>ms_db := db', ms_insert_value := st\<rparr>"
      using Cons.prems(3) i by (simp_all add: kv abind_step)
    ultimately show ?thesis by blast
  qed
qed

lemma begin_cases:
  assumes laws: "sqlite_laws sq content" and rest: "ms_rest content s" and b: "begin_locked sq s = (r, s')"
  shows "(r = Inr () \<and> (\<exists>db. s' = s\<lparr>ms_depth := 1, ms_db := db, ms_transaction := Some False\<rparr> \<and>
      content db = (content (ms_db s))\<lparr>sc_saved := Some (sc_meta (content (ms_db s)), sc_config (content (ms_db s)))\<rparr>)) \<or>
    (r = Inl MetadataError \<and> (\<exists>db. s' = s\<lparr>ms_depth := 1, ms_db := db\<rparr> \<and> content db = content (ms_db s)))"
proof -
  obtain ok db where q: "sq_exec sq ''BEGIN IMMEDIATE'' (ms_db s) = (ok, db)" by fastforce
  have lb: "law_begin sq content" using laws by (simp add: sqlite_laws_def)
  have law: "if ok then content db = (content (ms_db s))\<lparr>sc_saved := Some (sc_meta (content (ms_db s)), sc_config (content (ms_db s)))\<rparr>
      else content db = content (ms_db s)"
    using lb [unfolded law_begin_def, rule_format, OF q] by (cases ok) simp_all
  have d: "ms_depth s = 0" "ms_transaction s = None" using rest by (simp_all add: ms_rest_def)
  have e: "on_db (transaction_new sq) (s\<lparr>ms_depth := 1\<rparr>) = (if ok then Inr False else Inl MetadataError, s\<lparr>ms_depth := 1, ms_db := db\<rparr>)"
    by (simp add: on_db_def transaction_new_def connection_execute_def abind_def q)
  show ?thesis
  proof (cases ok)
    case True
    have "(r, s') = (Inr (), s\<lparr>ms_depth := 1, ms_db := db, ms_transaction := Some False\<rparr>)"
      using b e True d by (simp add: begin_locked_def Let_def abind_def)
    then show ?thesis using law True by auto
  next
    case False
    have "(r, s') = (Inl MetadataError, s\<lparr>ms_depth := 1, ms_db := db\<rparr>)"
      using b e False d by (simp add: begin_locked_def Let_def abind_def)
    then show ?thesis using law False by auto
  qed
qed

lemma commit_cases:
  assumes laws: "sqlite_laws sq content" and d: "ms_depth s = 1" "ms_transaction s = Some False" and b: "commit_locked sq s = (r, s')"
  shows "(r = Inr () \<and> (\<exists>db. s' = s\<lparr>ms_depth := 0, ms_db := db, ms_transaction := None\<rparr> \<and> content db = (content (ms_db s))\<lparr>sc_saved := None\<rparr>)) \<or>
    (r = Inl MetadataError \<and> sql_failed (content (ms_db s)) (content (ms_db s')))"
proof -
  obtain ok db where q: "sq_exec sq ''COMMIT'' (ms_db s) = (ok, db)" by fastforce
  have law: "if ok then content db = (content (ms_db s))\<lparr>sc_saved := None\<rparr> else sql_failed (content (ms_db s)) (content db)"
    using laws q unfolding sqlite_laws_def law_commit_def by (metis (full_types))
  have e: "on_db (transaction_commit sq False) (s\<lparr>ms_depth := 0\<rparr>) = (if ok then Inr True else Inl MetadataError, s\<lparr>ms_depth := 0, ms_db := db\<rparr>)"
    by (simp add: on_db_def transaction_commit_def connection_execute_def abind_def q)
  show ?thesis
  proof (cases ok)
    case True
    have "(r, s') = (Inr (), s\<lparr>ms_depth := 0, ms_db := db, ms_transaction := None\<rparr>)"
      using b e True d by (simp add: commit_locked_def Let_def abind_step(1) transaction_destroy_def)
    then show ?thesis using law True by auto
  next
    case False
    have "(r, s') = (Inl MetadataError, s\<lparr>ms_depth := 0, ms_db := db\<rparr>)"
      using b e False d by (simp add: commit_locked_def Let_def abind_step(2))
    then show ?thesis using law False by simp
  qed
qed

lemma rollback_content:
  assumes laws: "sqlite_laws sq content" and d: "ms_transaction s = Some False"
  shows "content (ms_db (rollback_locked sq s)) = sc_rollback (content (ms_db s))"
proof -
  obtain ok db where q: "sq_exec sq ''ROLLBACK'' (ms_db s) = (ok, db)" by fastforce
  have "content db = sc_rollback (content (ms_db s))"
    using laws q unfolding sqlite_laws_def law_rollback_def by blast
  then show ?thesis using d q by (simp add: rollback_locked_def Let_def transaction_destroy_def connection_execute_def)
qed

text \<open>The body of the transaction: the rows of the vector are replaced.\<close>

lemma set_body_cases:
  assumes laws: "sqlite_laws sq content" and st: "ms_insert_value s = st_new sql_insert_value" "ms_delete_by_vector s = st_new sql_delete_by_vector"
    and c: "content (ms_db s) = c\<lparr>sc_saved := Some (sc_meta c, sc_config c)\<rparr>"
    and b: "abind (delete_vector sq vid) (\<lambda>_. insert_rows sq vid md) s = (r, s')"
  shows "(r = Inr () \<and> (\<exists>db. s' = s\<lparr>ms_db := db\<rparr>) \<and> in_set content c vid md s') \<or>
    (r = Inl MetadataError \<and> ms_transaction s' = ms_transaction s \<and> can_restore content c s')"
proof -
  obtain rows ok db where q: "sq_query sq sql_delete_by_vector [SqlInt vid] (ms_db s) = ((rows, ok), db)" by (metis prod.collapse)
  have law: "rows = []" "ok \<Longrightarrow> content db = (content (ms_db s))\<lparr>sc_meta := (sc_meta (content (ms_db s)))(vid := Map.empty)\<rparr>"
    "\<not> ok \<Longrightarrow> sql_failed (content (ms_db s)) (content db)"
    using laws q unfolding sqlite_laws_def law_delete_def by (metis (full_types))+
  have e: "stored_rows [] = Map.empty" by (simp add: stored_rows_def fun_eq_iff)
  show ?thesis
  proof (rule delete_vector_run [OF st(2) q [unfolded law(1)]])
    assume ok: "ok" and d: "delete_vector sq vid s = (Inr (), s\<lparr>ms_db := db\<rparr>)"
    have i: "in_set content c vid [] (s\<lparr>ms_db := db\<rparr>)" using law(2) [OF ok] c by (simp add: in_set_def e)
    have rest: "insert_rows sq vid md (s\<lparr>ms_db := db\<rparr>) = (r, s')" using b d by (simp add: abind_step)
    have "ms_insert_value (s\<lparr>ms_db := db\<rparr>) = st_new sql_insert_value" using st(1) by simp
    from insert_rows_cases [OF laws this i rest] show ?thesis by auto
  next
    fix stm
    assume ok: "\<not> ok" and d: "delete_vector sq vid s = (Inl MetadataError, s\<lparr>ms_db := db, ms_delete_by_vector := stm\<rparr>)"
    have "sc_rollback (content db) = \<lparr>sc_meta = sc_meta c, sc_config = sc_config c, sc_saved = None\<rparr>"
      using failed_restore [OF law(3) [OF ok]] c by (simp add: sc_rollback_def)
    then show ?thesis using b d by (auto simp: abind_step can_restore_def)
  qed
qed

lemma ms_set_cases:
  assumes laws: "sqlite_laws sq content" and rest: "ms_rest content s" and keys: "\<forall>(k, v)\<in>set md. k \<noteq> []"
    and b: "ms_set sq vid md s = (r, s')"
  shows "(r = Inr () \<and> ms_rest content s' \<and> content (ms_db s') = (content (ms_db s))\<lparr>sc_meta := (sc_meta (content (ms_db s)))(vid := stored_rows md)\<rparr>) \<or>
    (r = Inl MetadataError \<and> sc_durable (content (ms_db s')) = sc_meta (content (ms_db s)))"
proof -
  let ?c = "content (ms_db s)"
  have saved: "sc_saved ?c = None" using rest by (simp add: ms_rest_def)
  have g: "\<not> list_ex (\<lambda>(k, v). k = []) md" using keys by (auto simp: list_ex_iff)
  obtain r1 s1 where b1: "begin_locked sq s = (r1, s1)" by fastforce
  from begin_cases [OF laws rest b1] show ?thesis
  proof (elim disjE conjE exE)
    fix db
    assume r1: "r1 = Inl MetadataError" and "s1 = s\<lparr>ms_depth := 1, ms_db := db\<rparr>" "content db = ?c"
    then show ?thesis using b b1 g saved by (auto simp: ms_set_def abind_step sc_durable_def sc_rollback_def)
  next
    fix db
    assume r1: "r1 = Inr ()" and s1: "s1 = s\<lparr>ms_depth := 1, ms_db := db, ms_transaction := Some False\<rparr>"
      and c1: "content db = ?c\<lparr>sc_saved := Some (sc_meta ?c, sc_config ?c)\<rparr>"
    obtain r2 s2 where b2: "abind (delete_vector sq vid) (\<lambda>_. insert_rows sq vid md) s1 = (r2, s2)" by fastforce
    have st: "ms_insert_value s1 = st_new sql_insert_value" "ms_delete_by_vector s1 = st_new sql_delete_by_vector"
      "content (ms_db s1) = ?c\<lparr>sc_saved := Some (sc_meta ?c, sc_config ?c)\<rparr>"
      using rest c1 by (simp_all add: s1 ms_rest_def)
    from set_body_cases [OF laws st b2] show ?thesis
    proof (elim disjE conjE exE)
      fix db2
      assume r2: "r2 = Inr ()" and s2: "s2 = s1\<lparr>ms_db := db2\<rparr>" and i: "in_set content ?c vid md s2"
      have d: "ms_depth s2 = 1" "ms_transaction s2 = Some False" by (simp_all add: s2 s1)
      have cm: "commit_locked sq s2 = (r, s')"
        using b b1 r1 b2 r2 g by (simp add: ms_set_def abind_step acatch_step)
      from commit_cases [OF laws d cm] show ?thesis
      proof (elim disjE conjE exE)
        fix db3
        assume r: "r = Inr ()" and s': "s' = s2\<lparr>ms_depth := 0, ms_db := db3, ms_transaction := None\<rparr>"
          and c3: "content db3 = (content (ms_db s2))\<lparr>sc_saved := None\<rparr>"
        have "content (ms_db s') = ?c\<lparr>sc_meta := (sc_meta ?c)(vid := stored_rows md)\<rparr>"
          using i c3 saved by (simp add: s' in_set_def)
        then show ?thesis using r rest saved by (simp add: ms_rest_def s' s2 s1)
      next
        assume r: "r = Inl MetadataError" and f: "sql_failed (content (ms_db s2)) (content (ms_db s'))"
        then show ?thesis using failed_restore [OF f] in_set_restore [OF i] by (simp add: sc_durable_def can_restore_def)
      qed
    next
      assume r2: "r2 = Inl MetadataError" and t: "ms_transaction s2 = ms_transaction s1" and cr: "can_restore content ?c s2"
      have "r = Inl MetadataError" "s' = rollback_locked sq s2"
        using b b1 r1 b2 r2 g by (simp_all add: ms_set_def abind_def acatch_def)
      moreover have "content (ms_db (rollback_locked sq s2)) = sc_rollback (content (ms_db s2))"
        by (rule rollback_content [OF laws]) (simp add: t s1)
      ultimately show ?thesis using cr by (simp add: sc_durable_def can_restore_def sc_rollback_def [of "\<lparr>sc_meta = m, sc_config = g, sc_saved = None\<rparr>" for m g])
    qed
  qed
qed

section \<open>Reading it back\<close>

text \<open>A C++ map lists its keys in order.\<close>

definition md_sorted :: "metadata \<Rightarrow> bool" where
  "md_sorted md \<longleftrightarrow> sorted_wrt str_less (map fst md)"

lemma md_put_last: "\<forall>k'\<in>fst ` set md. str_less k' k \<Longrightarrow> md_put k v md = md @ [(k, v)]"
proof (induction md)
  case (Cons kv md)
  obtain k' v' where kv: "kv = (k', v')" by fastforce
  have "str_less k' k" using Cons.prems by (simp add: kv)
  then have "\<not> str_less k k'" "k \<noteq> k'" using str_less_asym by auto
  then show ?case using Cons by (simp add: kv str_less_def)
qed simp

text \<open>What a value becomes in the database.\<close>

fun read_back :: "metadata_value \<Rightarrow> metadata_value" where
  "read_back (MReal x) = MReal (if is_nanv (f64_val x) \<or> x = 0x8000000000000000 then 0 else x)"
| "read_back v = v"

lemma put_typed_row:
  "put_typed sq (SqlText k # map sql_stored (enc_value v)) (Suc 0) k' md = md_put k' (read_back v) md"
  "put_typed sq (SqlInt j # SqlText k # map sql_stored (enc_value v)) 2 k' md = md_put k' (read_back v) md"
  by (cases v; simp add: put_typed_def sql_stored_def column_int64_def column_double_def column_text_def Let_def)+

lemma column_key [simp]: "column_text sq (SqlText k # r) 0 = k" "column_text sq (SqlInt i # SqlText k # r) 1 = k"
  "column_int64 sq (SqlInt i # r) 0 = i"
  by (simp_all add: column_text_def column_int64_def)

text \<open>The rows of sorted keys rebuild the map.\<close>

lemma foldl_rows:
  "sorted_wrt str_less (map fst acc @ ks) \<Longrightarrow>
   foldl (\<lambda>md row. put_typed sq row (Suc 0) (column_text sq row 0) md) acc (map (\<lambda>k. SqlText k # map sql_stored (enc_value (g k))) ks) =
   acc @ map (\<lambda>k. (k, read_back (g k))) ks"
proof (induction ks arbitrary: acc)
  case (Cons k ks)
  have "md_put k (read_back (g k)) acc = acc @ [(k, read_back (g k))]"
    using Cons.prems by (intro md_put_last) (auto simp: sorted_wrt_append)
  then show ?case using Cons.IH [of "acc @ [(k, read_back (g k))]"] Cons.prems by (simp add: put_typed_row)
qed simp

lemma stmt_rows_running: "st_run st = Some (rows, ok) \<Longrightarrow>
    stmt_rows sq acc (db, st) = (if ok then Inr (acc @ rows) else Inl MetadataError, (db, st\<lparr>st_run := Some ([], ok)\<rparr>))"
proof (induction rows arbitrary: acc st)
  case Nil
  then show ?case by (cases st) (simp add: stmt_rows.simps [of sq acc] stmt_step_def)
next
  case (Cons row rows)
  have "stmt_rows sq (acc @ [row]) (db, st\<lparr>st_run := Some (rows, ok)\<rparr>) =
      (if ok then Inr ((acc @ [row]) @ rows) else Inl MetadataError, (db, st\<lparr>st_run := Some ([], ok)\<rparr>))"
    using Cons.IH [of "st\<lparr>st_run := Some (rows, ok)\<rparr>"] by simp
  then show ?case using Cons.prems by (simp add: stmt_rows.simps [of sq acc] stmt_step_def)
qed

lemma stmt_rows_fresh:
  assumes "st_run st = None" "sq_query sq (st_sql st) (st_params st) db = ((rows, ok), db')"
  shows "stmt_rows sq acc (db, st) = (if ok then Inr (acc @ rows) else Inl MetadataError, (db', st\<lparr>st_run := Some ([], ok)\<rparr>))"
proof -
  have "stmt_rows sq acc (db, st) = stmt_rows sq acc (db', st\<lparr>st_run := Some (rows, ok)\<rparr>)"
    using assms stmt_rows.simps [of sq acc "(db, st)"] stmt_rows.simps [of sq acc "(db', st\<lparr>st_run := Some (rows, ok)\<rparr>)"]
    by (cases rows) (simp_all add: stmt_step_def)
  then show ?thesis using stmt_rows_running [of "st\<lparr>st_run := Some (rows, ok)\<rparr>" rows ok sq acc db'] by simp
qed

lemma stored_rows_sorted:
  assumes "md_sorted md"
  shows "stored_rows md = map_of (map (\<lambda>(k, v). (k, map sql_stored (enc_value v))) md)"
proof
  fix k
  have d: "distinct (map fst md)" using assms str_less_distinct by (simp add: md_sorted_def)
  have "map_of (rev md) = map_of md"
    using d by (intro map_of_inject_set [THEN iffD2]) (simp_all add: rev_map [symmetric] distinct_rev)
  then show "stored_rows md k = map_of (map (\<lambda>(k, v). (k, map sql_stored (enc_value v))) md) k"
    by (simp add: stored_rows_def map_of_map)
qed

lemma keys_of_stored:
  assumes md: "md_sorted md" and ks: "keys_of (stored_rows md) ks"
  shows "ks = map fst md" and "k \<in> set ks \<Longrightarrow> the (stored_rows md k) = map sql_stored (enc_value (the (map_of md k)))"
proof -
  have s: "stored_rows md = map_of (map (\<lambda>(k, v). (k, map sql_stored (enc_value v))) md)" by (rule stored_rows_sorted [OF md])
  have "{k. stored_rows md k \<noteq> None} = set (map fst md)" unfolding s by (auto simp: map_of_map map_of_eq_None_iff)
  then show k: "ks = map fst md"
    using ks md by (intro str_less_unique) (simp_all add: keys_of_def md_sorted_def)
  show "the (stored_rows md k) = map sql_stored (enc_value (the (map_of md k)))" if "k \<in> set ks"
    using that unfolding s k by (auto simp: map_of_map dest!: weak_map_of_SomeI)
qed

lemma ms_get_run:
  assumes "ms_rest content s" "sq_query sq sql_select_by_vector [SqlInt vid] (ms_db s) = ((rows, ok), db')"
  shows "ok \<Longrightarrow> ms_get sq vid s = (Inr (foldl (\<lambda>md row. put_typed sq row (Suc 0) (column_text sq row 0) md) [] rows), s\<lparr>ms_db := db'\<rparr>)"
    and "\<not> ok \<Longrightarrow> fst (ms_get sq vid s) = Inl MetadataError"
proof -
  have st: "ms_select_by_vector s = st_new sql_select_by_vector" using assms(1) by (simp add: ms_rest_def)
  let ?st = "\<lparr>st_sql = sql_select_by_vector, st_params = [SqlInt vid], st_run = None\<rparr>"
  have b: "bind_int64 1 vid (ms_db s, ms_select_by_vector s) = (Inr (), (ms_db s, ?st))"
    by (simp add: st bind_int64_def bind_param_def)
  have r: "stmt_rows sq [] (ms_db s, ?st) = (if ok then Inr rows else Inl MetadataError, (db', ?st\<lparr>st_run := Some ([], ok)\<rparr>))"
    using stmt_rows_fresh [of ?st sq "ms_db s" rows ok db' "[]"] assms(2) by simp
  show "ms_get sq vid s = (Inr (foldl (\<lambda>md row. put_typed sq row (Suc 0) (column_text sq row 0) md) [] rows), s\<lparr>ms_db := db'\<rparr>)" if "ok"
    using b r that st by (simp add: ms_get_def cached_def abind_def stmt_reset_def aret_def)
  show "fst (ms_get sq vid s) = Inl MetadataError" if "\<not> ok"
    using b r that by (simp add: ms_get_def cached_def abind_def stmt_reset_def aret_def)
qed

text \<open>The table holds the metadata \<open>g\<close>, one map for each vector.\<close>

definition holds_metadata :: "sql_content \<Rightarrow> (u64 \<Rightarrow> metadata) \<Rightarrow> bool" where
  "holds_metadata c g \<longleftrightarrow> (\<forall>i. md_sorted (g i) \<and> sc_meta c i = stored_rows (g i))"

lemma ms_get_stored:
  assumes laws: "sqlite_laws sq content" and rest: "ms_rest content s" and md: "md_sorted md" "sc_meta (content (ms_db s)) vid = stored_rows md"
    and g: "ms_get sq vid s = (Inr md', s')"
  shows "md' = map (\<lambda>(k, v). (k, read_back v)) md \<and> ms_rest content s' \<and> content (ms_db s') = content (ms_db s)"
proof -
  obtain rows ok db' where q: "sq_query sq sql_select_by_vector [SqlInt vid] (ms_db s) = ((rows, ok), db')" by (metis prod.collapse)
  have l: "law_select sq content" using laws by (simp add: sqlite_laws_def)
  have ok: "ok" using ms_get_run(2) [OF rest q] g by (cases ok) simp_all
  obtain ks where ks: "keys_of (stored_rows md) ks" "rows = map (\<lambda>k. SqlText k # the (stored_rows md k)) ks"
    and c: "content db' = content (ms_db s)"
    using l [unfolded law_select_def, rule_format, OF q] ok md(2) by auto
  have rows: "rows = map (\<lambda>k. SqlText k # map sql_stored (enc_value (the (map_of md k)))) ks"
    using ks(2) keys_of_stored(2) [OF md(1) ks(1)] by simp
  have "foldl (\<lambda>md row. put_typed sq row (Suc 0) (column_text sq row 0) md) [] rows = map (\<lambda>k. (k, read_back (the (map_of md k)))) ks"
    unfolding rows using ks(1) by (subst foldl_rows) (simp_all add: keys_of_def)
  also have "\<dots> = map (\<lambda>(k, v). (k, read_back v)) md"
    unfolding keys_of_stored(1) [OF md(1) ks(1)] using str_less_distinct md(1) by (auto simp: md_sorted_def)
  finally show ?thesis using ms_get_run(1) [OF rest q ok] g rest c by (simp add: ms_rest_def)
qed

section \<open>Scanning\<close>

definition read_md :: "metadata \<Rightarrow> metadata" where
  "read_md md = map (\<lambda>(k, v). (k, read_back v)) md"

text \<open>The rows of one vector.\<close>

definition group_rows :: "u64 \<Rightarrow> metadata \<Rightarrow> sql_row list" where
  "group_rows i md = map (\<lambda>(k, v). SqlInt i # SqlText k # map sql_stored (enc_value v)) md"

lemma match_group:
  "md_sorted (acc @ md) \<Longrightarrow>
   match_rows sq f (group_rows i md @ rest) (Some (i, read_md acc)) = match_rows sq f rest (Some (i, read_md (acc @ md)))"
proof (induction md arbitrary: acc)
  case (Cons kv md)
  obtain k v where kv: "kv = (k, v)" by fastforce
  have "md_put k (read_back v) (read_md acc) = read_md acc @ [(k, read_back v)]"
    using Cons.prems by (intro md_put_last) (auto simp: md_sorted_def sorted_wrt_append kv read_md_def)
  then have "put_typed sq (SqlInt i # SqlText k # map sql_stored (enc_value v)) 2 k (read_md acc) = read_md (acc @ [kv])"
    by (simp add: put_typed_row(2) read_md_def kv)
  then show ?case using Cons.IH [of "acc @ [kv]"] Cons.prems
    by (simp add: group_rows_def kv Let_def column_key [unfolded One_nat_def])
qed (simp add: group_rows_def)

lemma match_next_group:
  assumes "md_sorted md" "md \<noteq> []" "current = None \<or> (\<exists>j m. current = Some (j, m) \<and> i \<noteq> j)"
  shows "match_rows sq f (group_rows i md @ rest) current =
    (case current of Some (j, m) \<Rightarrow> if filter_matches f m then [j] else [] | None \<Rightarrow> []) @
    match_rows sq f rest (Some (i, read_md md))"
proof -
  obtain k v md' where md: "md = (k, v) # md'" using assms(2) by (cases md) auto
  have r: "group_rows i md = (SqlInt i # SqlText k # map sql_stored (enc_value v)) # group_rows i md'"
    by (simp add: group_rows_def md)
  have p: "put_typed sq (SqlInt i # SqlText k # map sql_stored (enc_value v)) 2 k [] = read_md [(k, v)]"
    by (simp add: put_typed_row(2) read_md_def)
  have "match_rows sq f (group_rows i md' @ rest) (Some (i, read_md [(k, v)])) = match_rows sq f rest (Some (i, read_md md))"
    using match_group [of "[(k, v)]" md'] assms(1) by (simp add: md)
  then show ?thesis using assms(3) by (auto simp: r p Let_def column_key [unfolded One_nat_def])
qed

lemma match_groups:
  assumes "distinct ids" "\<forall>i\<in>set ids. md_sorted (g i) \<and> g i \<noteq> []" "current = None \<or> (\<exists>j m. current = Some (j, m) \<and> j \<notin> set ids)"
  shows "match_rows sq f (concat (map (\<lambda>i. group_rows i (g i)) ids)) current =
    (case current of Some (j, m) \<Rightarrow> if filter_matches f m then [j] else [] | None \<Rightarrow> []) @
    filter (\<lambda>i. filter_matches f (read_md (g i))) ids"
  using assms
proof (induction ids arbitrary: current)
  case Nil
  then show ?case by (cases current) auto
next
  case (Cons i ids)
  have "match_rows sq f (concat (map (\<lambda>i. group_rows i (g i)) ids)) (Some (i, read_md (g i))) =
      (if filter_matches f (read_md (g i)) then [i] else []) @ filter (\<lambda>i. filter_matches f (read_md (g i))) ids"
    using Cons.IH [of "Some (i, read_md (g i))"] Cons.prems(1,2) by simp
  then show ?case using Cons.prems by (subst list.map, subst concat.simps, subst match_next_group) auto
qed

lemma stored_rows_empty: "md_sorted md \<Longrightarrow> stored_rows md = Map.empty \<longleftrightarrow> md = []"
  by (cases md) (auto simp: stored_rows_sorted fun_eq_iff)

lemma ms_matching_stored:
  assumes laws: "sqlite_laws sq content" and c: "holds_metadata (content (ms_db s)) g" and m: "ms_matching sq f s = (Inr ids, s')"
  shows "sorted_wrt (\<lambda>i j. i <s j) ids \<and> set ids = {i. g i \<noteq> [] \<and> filter_matches f (read_md (g i))} \<and>
    (\<exists>db. s' = s\<lparr>ms_db := db\<rparr> \<and> content db = content (ms_db s))"
proof -
  obtain rows ok db' where q: "sq_query sq sql_select_all [] (ms_db s) = ((rows, ok), db')" by (metis prod.collapse)
  have l: "law_select_all sq content" using laws by (simp add: sqlite_laws_def)
  let ?st = "\<lparr>st_sql = sql_select_all, st_params = [], st_run = None\<rparr>"
  have r: "stmt_rows sq [] (ms_db s, ?st) = (if ok then Inr rows else Inl MetadataError, (db', ?st\<lparr>st_run := Some ([], ok)\<rparr>))"
    using stmt_rows_fresh [of ?st sq "ms_db s" rows ok db' "[]"] q by simp
  have e: "ok \<and> ids = match_rows sq f rows None \<and> s' = s\<lparr>ms_db := db'\<rparr>"
    using m r by (cases ok; cases "sq_prepare sq sql_select_all (ms_db s)")
      (auto simp: ms_matching_def on_db_def local_statement_def statement_prepare_def abind_def aret_def)
  obtain all kss where all: "sorted_wrt (\<lambda>i j. i <s j) all" "set all = {i. sc_meta (content (ms_db s)) i \<noteq> Map.empty}"
    and ks: "\<forall>i\<in>set all. keys_of (sc_meta (content (ms_db s)) i) (kss i)"
    and rows: "rows = concat (map (\<lambda>i. map (\<lambda>k. SqlInt i # SqlText k # the (sc_meta (content (ms_db s)) i k)) (kss i)) all)"
    and cdb: "content db' = content (ms_db s)"
    using l [unfolded law_select_all_def, rule_format, OF q] e by blast
  have g: "md_sorted (g i)" "sc_meta (content (ms_db s)) i = stored_rows (g i)" for i using c by (simp_all add: holds_metadata_def)
  have grp: "map (\<lambda>k. SqlInt i # SqlText k # the (sc_meta (content (ms_db s)) i k)) (kss i) = group_rows i (g i)" if "i \<in> set all" for i
  proof -
    have k: "keys_of (stored_rows (g i)) (kss i)" using ks that g(2) by auto
    have "map (\<lambda>k. SqlInt i # SqlText k # the (sc_meta (content (ms_db s)) i k)) (kss i) =
        map (\<lambda>k. SqlInt i # SqlText k # map sql_stored (enc_value (the (map_of (g i) k)))) (kss i)"
      using keys_of_stored(2) [OF g(1) k] g(2) by simp
    also have "\<dots> = group_rows i (g i)"
      unfolding keys_of_stored(1) [OF g(1) k] group_rows_def using str_less_distinct g(1) by (auto simp: md_sorted_def)
    finally show ?thesis .
  qed
  have "rows = concat (map (\<lambda>i. group_rows i (g i)) all)" unfolding rows using grp by (intro arg_cong [where f = concat] map_cong) auto
  moreover have "distinct all" using all(1) by (induction all) (auto simp: word_sless_alt)
  moreover have set: "set all = {i. g i \<noteq> []}" using all(2) g stored_rows_empty by auto
  ultimately have "ids = filter (\<lambda>i. filter_matches f (read_md (g i))) all"
    using match_groups [of all g None sq f] e g(1) by simp
  then show ?thesis using all(1) set e cdb by (auto intro: sorted_wrt_filter)
qed

section \<open>Removing\<close>

lemma count_positive_run:
  assumes "st_run st = None" "sq_query sq (st_sql st) (st_params st) db = ((rows, ok), db')"
  shows "\<exists>st'. count_positive sq (db, st) =
    (case rows of [] \<Rightarrow> if ok then Inr False else Inl MetadataError | row # _ \<Rightarrow> Inr (0 <s column_int64 sq row 0), (db', st'))"
  using assms by (cases rows) (auto simp: count_positive_def statement_defs Let_def)

lemma count_vector_run:
  assumes "sq_query sq sql_count_vector [SqlInt vid] (ms_db s) = ((rows, ok), db)"
  shows "on_db (local_statement sq sql_count_vector (abind (bind_int64 1 vid) (\<lambda>_. count_positive sq))) s =
    (if sq_prepare sq sql_count_vector (ms_db s) then
       (case rows of [] \<Rightarrow> if ok then Inr False else Inl MetadataError | row # _ \<Rightarrow> Inr (0 <s column_int64 sq row 0), s\<lparr>ms_db := db\<rparr>)
     else (Inl MetadataError, s))"
proof -
  let ?st = "\<lparr>st_sql = sql_count_vector, st_params = [SqlInt vid], st_run = None\<rparr>"
  have b: "bind_int64 1 vid (ms_db s, st_new sql_count_vector) = (Inr (), (ms_db s, ?st))"
    by (simp add: bind_int64_def bind_param_def)
  obtain st' where "count_positive sq (ms_db s, ?st) =
    (case rows of [] \<Rightarrow> if ok then Inr False else Inl MetadataError | row # _ \<Rightarrow> Inr (0 <s column_int64 sq row 0), (db, st'))"
    using count_positive_run [of ?st sq "ms_db s" rows ok db] assms by auto
  then show ?thesis using b by (simp add: on_db_def local_statement_def statement_prepare_def abind_def)
qed

lemma delete_vector_cases:
  assumes laws: "sqlite_laws sq content" and rest: "ms_rest content s" and r: "delete_vector sq vid s = (r, s')"
  shows "(r = Inr () \<and> ms_rest content s' \<and> content (ms_db s') = (content (ms_db s))\<lparr>sc_meta := (sc_meta (content (ms_db s)))(vid := Map.empty)\<rparr>) \<or>
    (r = Inl MetadataError \<and> content (ms_db s') = content (ms_db s))"
proof -
  obtain rows ok db where q: "sq_query sq sql_delete_by_vector [SqlInt vid] (ms_db s) = ((rows, ok), db)" by (metis prod.collapse)
  have ld: "law_delete sq content" using laws by (simp add: sqlite_laws_def)
  note law = ld [unfolded law_delete_def, rule_format, OF q]
  have st: "ms_delete_by_vector s = st_new sql_delete_by_vector" "sc_saved (content (ms_db s)) = None" using rest by (simp_all add: ms_rest_def)
  have rows: "rows = []" using law by simp
  show ?thesis
    by (rule delete_vector_run [OF st(1) q [unfolded rows]])
      (use r law rest st(2) in \<open>auto simp: ms_rest_def sql_failed_def sc_rollback_def\<close>)
qed

lemma ms_remove_cases:
  assumes laws: "sqlite_laws sq content" and rest: "ms_rest content s" and r: "ms_remove sq vid s = (r, s')"
  shows "(r = Inr (sc_meta (content (ms_db s)) vid \<noteq> Map.empty) \<and> ms_rest content s' \<and>
      content (ms_db s') = (content (ms_db s))\<lparr>sc_meta := (sc_meta (content (ms_db s)))(vid := Map.empty)\<rparr>) \<or>
    (r = Inl MetadataError \<and> content (ms_db s') = content (ms_db s))"
proof -
  let ?c = "content (ms_db s)"
  obtain rows ok db where q: "sq_query sq sql_count_vector [SqlInt vid] (ms_db s) = ((rows, ok), db)" by (metis prod.collapse)
  have lc: "law_count sq content" using laws by (simp add: sqlite_laws_def)
  note law = lc [unfolded law_count_def, rule_format, OF q]
  note run = count_vector_run [OF q]
  have rest': "ms_rest content (s\<lparr>ms_db := db\<rparr>)" using rest law by (simp add: ms_rest_def)
  consider "\<not> sq_prepare sq sql_count_vector (ms_db s)" | "rows = []" "\<not> ok" "sq_prepare sq sql_count_vector (ms_db s)"
    | n where "rows = [[SqlInt n]]" "0 <s n \<longleftrightarrow> sc_meta ?c vid \<noteq> Map.empty" "sq_prepare sq sql_count_vector (ms_db s)"
    using law by blast
  then show ?thesis
  proof cases
    case 3
    show ?thesis
    proof (cases "0 <s n")
      case True
      have "delete_vector sq vid (s\<lparr>ms_db := db\<rparr>) = (case r of Inl e \<Rightarrow> Inl e | Inr _ \<Rightarrow> Inr (), s') \<and> (r = Inr False \<longrightarrow> False)"
        using r run 3 True by (auto simp: ms_remove_def abind_def split: sum.splits prod.splits)
      then show ?thesis using delete_vector_cases [OF laws rest'] law 3 True by (auto split: sum.splits bool.splits)
    next
      case False
      then have "r = Inr False" "s' = s\<lparr>ms_db := db\<rparr>" using r run 3 by (auto simp: ms_remove_def abind_def)
      then show ?thesis using rest' law 3 False fun_upd_idem [of "sc_meta ?c" vid Map.empty] by auto
    qed
  qed (use r run law in \<open>auto simp: ms_remove_def abind_def\<close>)
qed

end
