(* ===== verification/Vdb_Metadata.thy ===== *)
theory Vdb_Metadata
  imports Vdb_MetadataSpec
begin

text \<open>
  The properties of the metadata store, and a small table database that satisfies SQLite's laws, on which the
  witnesses run.
\<close>

section \<open>A small database for the witnesses\<close>

text \<open>
  Tables as association lists, with the outcomes of the coming calls given in advance. A select fails when
  the list is not sorted, which inserting does not cause.
\<close>

record table_db =
  td_rows :: "(u64 \<times> (string \<times> sql_row) list) list"
  td_config :: "(string \<times> string) list"
  td_saved :: "((u64 \<times> (string \<times> sql_row) list) list \<times> (string \<times> string) list) option"
  td_outcomes :: "bool list"

definition td_meta :: "(u64 \<times> (string \<times> sql_row) list) list \<Rightarrow> u64 \<Rightarrow> string \<Rightarrow> sql_row option" where
  "td_meta t i = (case map_of t i of None \<Rightarrow> Map.empty | Some l \<Rightarrow> map_of l)"

definition td_content :: "table_db \<Rightarrow> sql_content" where
  "td_content db = \<lparr>sc_meta = td_meta (td_rows db), sc_config = map_of (td_config db),
     sc_saved = map_option (\<lambda>(t, g). (td_meta t, map_of g)) (td_saved db)\<rparr>"

definition td_next :: "table_db \<Rightarrow> bool \<times> table_db" where
  "td_next db = (case td_outcomes db of [] \<Rightarrow> (True, db) | b # bs \<Rightarrow> (b, db\<lparr>td_outcomes := bs\<rparr>))"

definition td_exec :: "string \<Rightarrow> table_db \<Rightarrow> bool \<times> table_db" where
  "td_exec sql db =
     (if sql = ''ROLLBACK'' then
        (True, (case td_saved db of None \<Rightarrow> db | Some (t, g) \<Rightarrow> db\<lparr>td_rows := t, td_config := g, td_saved := None\<rparr>))
      else case td_next db of (ok, db) \<Rightarrow>
        if \<not> ok then (False, db)
        else if sql = ''BEGIN IMMEDIATE'' then
          (if td_saved db = None then (True, db\<lparr>td_saved := Some (td_rows db, td_config db)\<rparr>) else (False, db))
        else if sql = ''COMMIT'' then (True, db\<lparr>td_saved := None\<rparr>)
        else (True, db))"

definition td_sorted :: "table_db \<Rightarrow> bool" where
  "td_sorted db \<longleftrightarrow> sorted_wrt (\<lambda>i j. i <s j) (map fst (td_rows db)) \<and>
     (\<forall>(i, l)\<in>set (td_rows db). l \<noteq> [] \<and> sorted_wrt str_less (map fst l))"

definition td_query :: "string \<Rightarrow> sql_value list \<Rightarrow> table_db \<Rightarrow> (sql_row list \<times> bool) \<times> table_db" where
  "td_query sql args db =
     (case td_next db of (ok, db) \<Rightarrow>
      if \<not> ok then (([], False), db)
      else if sql = sql_delete_by_vector then
        (case args of [SqlInt i] \<Rightarrow> (([], True), db\<lparr>td_rows := filter (\<lambda>(j, l). j \<noteq> i) (td_rows db)\<rparr>) | _ \<Rightarrow> (([], False), db))
      else if sql = sql_insert_value then
        (case args of SqlInt i # SqlText k # row \<Rightarrow>
           (([], True), db\<lparr>td_rows := list_put (\<lambda>i j. i <s j) i
              (list_put str_less k (map sql_stored row) (case map_of (td_rows db) i of None \<Rightarrow> [] | Some l \<Rightarrow> l)) (td_rows db)\<rparr>)
         | _ \<Rightarrow> (([], False), db))
      else if sql = sql_select_by_vector then
        (case args of [SqlInt i] \<Rightarrow>
           (case map_of (td_rows db) i of
              None \<Rightarrow> (([], True), db)
            | Some l \<Rightarrow> ((map (\<lambda>(k, r). SqlText k # r) l, sorted_wrt str_less (map fst l)), db))
         | _ \<Rightarrow> (([], False), db))
      else if sql = sql_select_all then
        ((concat (map (\<lambda>(i, l). map (\<lambda>(k, r). SqlInt i # SqlText k # r) l) (td_rows db)), td_sorted db), db)
      else if sql = sql_count_vector then
        (case args of [SqlInt i] \<Rightarrow>
           (([[SqlInt (case map_of (td_rows db) i of None \<Rightarrow> 0 | Some l \<Rightarrow> if l = [] then 0 else 1)]], True), db) | _ \<Rightarrow> (([], False), db))
      else if sql = sql_count_distinct then
        (([[SqlInt (if list_ex (\<lambda>(i, l). map_of (td_rows db) i \<noteq> Some []) (td_rows db) then 1 else 0)]], True), db)
      else if sql = sql_set_config then
        (case args of [SqlText k, SqlText v] \<Rightarrow> (([], True), db\<lparr>td_config := list_put str_less k v (td_config db)\<rparr>) | _ \<Rightarrow> (([], False), db))
      else if sql = sql_get_config then
        (case args of [SqlText k] \<Rightarrow> ((case map_of (td_config db) k of None \<Rightarrow> [] | Some v \<Rightarrow> [[SqlText v]], True), db) | _ \<Rightarrow> (([], False), db))
      else if sql = sql_schema_version then
        (([], True), if map_of (td_config db) ''schema_version'' = None
           then db\<lparr>td_config := list_put str_less ''schema_version'' (case args of [SqlText v] \<Rightarrow> v | _ \<Rightarrow> []) (td_config db)\<rparr> else db)
      else (([], False), db))"

definition table_sqlite :: "table_db sqlite" where
  "table_sqlite = \<lparr>sq_exec = td_exec, sq_prepare = (\<lambda>_ _. True), sq_query = td_query, sq_to_int = (\<lambda>_. 0), sq_to_real = (\<lambda>_. 0),
     sq_to_text = (\<lambda>_. [])\<rparr>"

lemma sql_texts_differ:
  "distinct [sql_delete_by_vector, sql_insert_value, sql_select_by_vector, sql_select_all, sql_count_vector,
     sql_count_distinct, sql_set_config, sql_get_config, sql_schema_version]"
  by code_simp

lemmas sql_neq [simp] = sql_texts_differ [simplified] sql_texts_differ [THEN distinct_rev [THEN iffD2], simplified]

lemma td_next_content: "td_next db = (ok, db') \<Longrightarrow> td_rows db' = td_rows db \<and> td_config db' = td_config db \<and> td_saved db' = td_saved db"
  by (auto simp: td_next_def split: list.splits)

lemma td_content_cong: "td_rows db' = td_rows db \<Longrightarrow> td_config db' = td_config db \<Longrightarrow> td_saved db' = td_saved db \<Longrightarrow> td_content db' = td_content db"
  by (simp add: td_content_def)

lemma td_laws_exec: "law_begin table_sqlite td_content" "law_commit table_sqlite td_content" "law_rollback table_sqlite td_content"
proof -
  show "law_begin table_sqlite td_content" "law_commit table_sqlite td_content"
    unfolding law_begin_def law_commit_def
    by (auto simp: table_sqlite_def td_exec_def td_content_def sql_failed_def split: prod.splits if_splits option.splits dest!: td_next_content)
  show "law_rollback table_sqlite td_content"
    by (auto simp: law_rollback_def table_sqlite_def td_exec_def td_content_def sc_rollback_def split: option.splits)
qed

lemma td_meta_simps:
  "td_meta (filter (\<lambda>(j, l). j \<noteq> i) t) = (td_meta t)(i := Map.empty)"
  "td_meta (list_put lt i l t) = (td_meta t)(i := map_of l)"
  "map_of (case map_of t i of None \<Rightarrow> [] | Some l \<Rightarrow> l) = td_meta t i"
proof -
  show "td_meta (filter (\<lambda>(j, l). j \<noteq> i) t) = (td_meta t)(i := Map.empty)"
    by (induction t) (auto simp: td_meta_def fun_eq_iff)
qed (auto simp: td_meta_def fun_eq_iff split: option.splits)

lemma td_laws_write: "law_delete table_sqlite td_content" "law_insert table_sqlite td_content" "law_set_config table_sqlite td_content"
  unfolding law_delete_def law_insert_def law_set_config_def
  by (auto simp: table_sqlite_def td_query_def td_content_def sql_failed_def td_meta_simps split: prod.splits if_splits dest!: td_next_content)

lemma sorted_keys_of: "sorted_wrt str_less (map fst l) \<Longrightarrow> keys_of (map_of l) (map fst l)"
  by (auto simp: keys_of_def map_of_eq_None_iff)

lemma sorted_rows: "sorted_wrt str_less (map fst l) \<Longrightarrow> map (\<lambda>(k, r). h k r) l = map (\<lambda>k. h k (the (map_of l k))) (map fst l)"
  using str_less_distinct by auto

lemma td_law_select: "law_select table_sqlite td_content"
  unfolding law_select_def
proof (intro allI impI)
  fix vid db rows ok db'
  assume q: "sq_query table_sqlite sql_select_by_vector [SqlInt vid] db = ((rows, ok), db')"
  obtain b db1 where n: "td_next db = (b, db1)" by fastforce
  note nc = td_next_content [OF n]
  have c: "td_content db1 = td_content db" using nc by (simp add: td_content_def)
  have m: "sc_meta (td_content db) = td_meta (td_rows db)" by (simp add: td_content_def)
  show "td_content db' = td_content db \<and> (ok \<longrightarrow> (\<exists>ks. keys_of (sc_meta (td_content db) vid) ks \<and>
      rows = map (\<lambda>k. SqlText k # the (sc_meta (td_content db) vid k)) ks))"
  proof (cases "map_of (td_rows db) vid")
    case None
    have "db' = db1 \<and> (ok \<longrightarrow> rows = [])"
      using q n nc None by (cases b) (simp_all add: table_sqlite_def td_query_def)
    moreover have "keys_of (td_meta (td_rows db) vid) []" using None by (simp add: td_meta_def keys_of_def)
    ultimately show ?thesis using c m by auto
  next
    case (Some l)
    have "db' = db1 \<and> (ok \<longrightarrow> sorted_wrt str_less (map fst l) \<and> rows = map (\<lambda>(k, r). SqlText k # r) l)"
      using q n nc Some by (cases b) (simp_all add: table_sqlite_def td_query_def)
    moreover have "td_meta (td_rows db) vid = map_of l" using Some by (simp add: td_meta_def)
    ultimately show ?thesis using c m sorted_keys_of [of l] sorted_rows [of l "\<lambda>k r. SqlText k # r"] by metis
  qed
qed

lemma td_law_get_config: "law_get_config table_sqlite td_content"
  unfolding law_get_config_def
proof (intro allI impI)
  fix k db rows ok db'
  assume q: "sq_query table_sqlite sql_get_config [SqlText k] db = ((rows, ok), db')"
  obtain b db1 where n: "td_next db = (b, db1)" by fastforce
  note nc = td_next_content [OF n]
  show "td_content db' = td_content db \<and> (rows = [] \<and> \<not> ok \<or> rows = (case sc_config (td_content db) k of None \<Rightarrow> [] | Some v \<Rightarrow> [[SqlText v]]))"
    using q n nc by (cases b) (auto simp: table_sqlite_def td_query_def td_content_def)
qed

lemma td_law_count: "law_count table_sqlite td_content"
  unfolding law_count_def
proof (intro allI impI)
  fix vid db rows ok db'
  assume q: "sq_query table_sqlite sql_count_vector [SqlInt vid] db = ((rows, ok), db')"
  obtain b db1 where n: "td_next db = (b, db1)" by fastforce
  note nc = td_next_content [OF n]
  have c: "td_content db1 = td_content db" using nc by (simp add: td_content_def)
  have e: "0 <s (1 :: u64)" "\<not> 0 <s (0 :: u64)" by (simp_all add: word_sless_alt)
  let ?n = "case map_of (td_rows db) vid of None \<Rightarrow> 0 | Some l \<Rightarrow> if l = [] then 0 else (1 :: u64)"
  have "0 <s ?n \<longleftrightarrow> td_meta (td_rows db) vid \<noteq> Map.empty"
    using e by (cases "map_of (td_rows db) vid") (simp_all add: td_meta_def del: empty_eq_map_of_iff)
  then show "td_content db' = td_content db \<and> (rows = [] \<and> \<not> ok \<or> (\<exists>n. rows = [[SqlInt n]] \<and> (0 <s n \<longleftrightarrow> sc_meta (td_content db) vid \<noteq> Map.empty)))"
    using q n nc c by (cases b) (auto simp: table_sqlite_def td_query_def td_content_def)
qed

lemma td_law_count_all: "law_count_all table_sqlite td_content"
  unfolding law_count_all_def
proof (intro allI impI)
  fix db rows ok db'
  assume q: "sq_query table_sqlite sql_count_distinct [] db = ((rows, ok), db')"
  obtain b db1 where n: "td_next db = (b, db1)" by fastforce
  note nc = td_next_content [OF n]
  have c: "td_content db1 = td_content db" using nc by (simp add: td_content_def)
  let ?e = "list_ex (\<lambda>(i, l). map_of (td_rows db) i \<noteq> Some []) (td_rows db)"
  have "?e \<longleftrightarrow> (\<exists>i. td_meta (td_rows db) i \<noteq> Map.empty)"
  proof
    assume ?e
    then obtain i l where i: "(i, l) \<in> set (td_rows db)" "map_of (td_rows db) i \<noteq> Some []" by (auto simp: list_ex_iff)
    then obtain l' where "map_of (td_rows db) i = Some l'" "l' \<noteq> []" by (cases "map_of (td_rows db) i") (force simp: map_of_eq_None_iff)+
    then have "td_meta (td_rows db) i \<noteq> Map.empty" by (simp add: td_meta_def)
    then show "\<exists>i. td_meta (td_rows db) i \<noteq> Map.empty" ..
  next
    assume "\<exists>i. td_meta (td_rows db) i \<noteq> Map.empty"
    then obtain i l where l: "map_of (td_rows db) i = Some l" "l \<noteq> []"
      by (auto simp: td_meta_def split: option.splits)
    have "(i, l) \<in> set (td_rows db)" using map_of_SomeD l(1) by fast
    moreover have "case (i, l) of (i, l) \<Rightarrow> map_of (td_rows db) i \<noteq> Some []" using l by simp
    ultimately show ?e unfolding list_ex_iff by (rule bexI [rotated])
  qed
  then have iff: "(if ?e then 1 else 0 :: u64) \<noteq> 0 \<longleftrightarrow> (\<exists>vid. sc_meta (td_content db) vid \<noteq> Map.empty)"
    by (simp add: td_content_def)
  have "td_query sql_count_distinct [] db = (if b then ([[SqlInt (if ?e then 1 else 0)]], True) else ([], False), db1)"
    by (cases b) (simp_all only: td_query_def n prod.case nc simp_thms if_True if_False sql_neq)
  then have r: "db' = db1 \<and> (rows = [] \<and> \<not> ok \<or> rows = [[SqlInt (if ?e then 1 else 0)]])"
    using q by (cases b) (simp_all only: table_sqlite_def sqlite.simps if_True if_False prod.inject simp_thms)
  show "td_content db' = td_content db \<and> (rows = [] \<and> \<not> ok \<or> (\<exists>n. rows = [[SqlInt n]] \<and> (n \<noteq> 0 \<longleftrightarrow> (\<exists>vid. sc_meta (td_content db) vid \<noteq> Map.empty))))"
    using r
  proof (elim conjE disjE)
    assume "rows = [[SqlInt (if ?e then 1 else 0)]]" and d: "db' = db1"
    then have "\<exists>n. rows = [[SqlInt n]] \<and> (n \<noteq> 0 \<longleftrightarrow> (\<exists>vid. sc_meta (td_content db) vid \<noteq> Map.empty))" using iff by blast
    then show ?thesis using c d by simp
  qed (simp add: c)
qed

lemma sless_distinct: "sorted_wrt (\<lambda>i j. i <s j) (ids :: u64 list) \<Longrightarrow> distinct ids"
  by (induction ids) (auto simp: word_sless_alt)

lemma td_law_select_all: "law_select_all table_sqlite td_content"
  unfolding law_select_all_def
proof (intro allI impI)
  fix db rows ok db'
  assume q: "sq_query table_sqlite sql_select_all [] db = ((rows, ok), db')"
  obtain b db1 where n: "td_next db = (b, db1)" by fastforce
  note nc = td_next_content [OF n]
  have c: "td_content db1 = td_content db" using nc by (simp add: td_content_def)
  have r: "db' = db1" "ok \<Longrightarrow> td_sorted db1 \<and> rows = concat (map (\<lambda>(i, l). map (\<lambda>(k, r). SqlInt i # SqlText k # r) l) (td_rows db))"
    using q n nc by (cases b; simp add: table_sqlite_def td_query_def)+
  let ?t = "td_rows db" let ?ids = "map fst (td_rows db)" let ?m = "td_meta (td_rows db)"
  let ?ks = "\<lambda>i. map fst (the (map_of (td_rows db) i))"
  have "\<exists>ids kss. sorted_wrt (\<lambda>i j. i <s j) ids \<and> set ids = {i. ?m i \<noteq> Map.empty} \<and> (\<forall>i\<in>set ids. keys_of (?m i) (kss i)) \<and>
      rows = concat (map (\<lambda>i. map (\<lambda>k. SqlInt i # SqlText k # the (?m i k)) (kss i)) ids)" if "ok"
  proof (rule exI [of _ ?ids], rule exI [of _ ?ks], intro conjI)
    have so: "sorted_wrt (\<lambda>i j. i <s j) ?ids" and ls: "\<And>i l. (i, l) \<in> set ?t \<Longrightarrow> l \<noteq> [] \<and> sorted_wrt str_less (map fst l)"
      using r(2) [OF that] nc by (auto simp: td_sorted_def)
    have dist: "distinct ?ids" by (rule sless_distinct [OF so])
    have m: "?m i = map_of l" "map_of ?t i = Some l" if "(i, l) \<in> set ?t" for i l using that dist by (simp_all add: td_meta_def)
    show "sorted_wrt (\<lambda>i j. i <s j) ?ids" by (rule so)
    show "set ?ids = {i. ?m i \<noteq> Map.empty}"
    proof (intro equalityI subsetI)
      fix i assume "i \<in> set ?ids"
      then obtain l where "(i, l) \<in> set ?t" by auto
      then show "i \<in> {i. ?m i \<noteq> Map.empty}" using m(1) ls by auto
    next
      fix i assume "i \<in> {i. ?m i \<noteq> Map.empty}"
      then obtain l where "map_of ?t i = Some l" by (auto simp: td_meta_def split: option.splits)
      then show "i \<in> set ?ids" using map_of_SomeD by force
    qed
    show "\<forall>i\<in>set ?ids. keys_of (?m i) (?ks i)"
    proof
      fix i assume "i \<in> set ?ids"
      then obtain l where l: "(i, l) \<in> set ?t" by auto
      then show "keys_of (?m i) (?ks i)" using m [OF l] ls [OF l] sorted_keys_of [of l] by simp
    qed
    let ?h = "\<lambda>i. map (\<lambda>k. SqlInt i # SqlText k # the (?m i k)) (?ks i)"
    have e: "map ?h ?ids = map (\<lambda>p. ?h (fst p)) ?t" by (simp add: comp_def)
    show "rows = concat (map ?h ?ids)"
      unfolding conjunct2 [OF r(2) [OF that]] e
    proof (intro arg_cong [where f = concat] map_cong refl)
      fix p assume p: "p \<in> set ?t"
      obtain i l where il: "p = (i, l)" by fastforce
      then have l: "(i, l) \<in> set ?t" using p by simp
      show "(case p of (i, l) \<Rightarrow> map (\<lambda>(k, r). SqlInt i # SqlText k # r) l) =
          ?h (fst p)"
        using m [OF l] ls [OF l] sorted_rows [of l "\<lambda>k r. SqlInt i # SqlText k # r"] by (simp add: il)
    qed
  qed
  then show "td_content db' = td_content db \<and> (ok \<longrightarrow> (\<exists>ids kss. sorted_wrt (\<lambda>i j. i <s j) ids \<and> set ids = {i. sc_meta (td_content db) i \<noteq> Map.empty} \<and>
        (\<forall>i\<in>set ids. keys_of (sc_meta (td_content db) i) (kss i)) \<and>
        rows = concat (map (\<lambda>i. map (\<lambda>k. SqlInt i # SqlText k # the (sc_meta (td_content db) i k)) (kss i)) ids)))"
    using r(1) c by (simp add: td_content_def)
qed

lemma table_sqlite_laws: "sqlite_laws table_sqlite td_content"
  by (simp add: sqlite_laws_def td_laws_exec td_laws_write td_law_select td_law_get_config td_law_count td_law_count_all td_law_select_all)

text \<open>A store with one vector's metadata, and what its next calls give.\<close>

definition small_mstore :: "bool list \<Rightarrow> table_db mstore" where
  "small_mstore outs = \<lparr>ms_db = \<lparr>td_rows = [(7, [(''a'', map sql_stored (enc_value (MInt 1)))])], td_config = [], td_saved = None, td_outcomes = outs\<rparr>,
     ms_insert_value = st_new sql_insert_value, ms_select_by_vector = st_new sql_select_by_vector,
     ms_delete_by_vector = st_new sql_delete_by_vector, ms_delete_key = st_new sql_delete_key,
     ms_set_config_value = st_new sql_set_config, ms_get_config_value = st_new sql_get_config,
     ms_transaction = None, ms_depth = 0\<rparr>"

lemma small_mstore_rest: "ms_rest td_content (small_mstore outs)"
  by (simp add: ms_rest_def small_mstore_def td_content_def del: statement_params)

lemma small_mstore_holds: "holds_metadata (td_content (ms_db (small_mstore outs))) ((\<lambda>_. [])(7 := [(''a'', MInt 1)]))"
  by (auto simp: holds_metadata_def small_mstore_def td_content_def td_meta_def md_sorted_def stored_rows_def fun_eq_iff)

section \<open>The contract\<close>

text \<open>C8: Replacing a vector's metadata in a store at rest (no transaction open or counted as open, no statement left
  running: every earlier write either succeeded or failed before it touched the database) is all or nothing: on success the
  committed table has exactly the new entries for that vector, and if the call throws, at whichever statement of this
  call, the committed table is the old one. A write after one that threw is not covered: a BEGIN or COMMIT that fails
  leaves the store in a state where the next failing write loses rows (\<open>failed_begin_loses_rows\<close>).\<close>

theorem metadata_set_is_atomic:
  assumes "sqlite_laws sq content" and "ms_rest content s" and "holds_metadata (content (ms_db s)) g" and "md_sorted md"
    and "ms_set sq vid md s = (r, s')"
  shows "(r = Inr () \<and> ms_rest content s' \<and> holds_metadata (content (ms_db s')) (g(vid := md)) \<and>
        sc_durable (content (ms_db s')) = sc_meta (content (ms_db s'))) \<or>
    ((r = Inl MetadataError \<or> r = Inl InvalidArgumentError \<and> s' = s) \<and> sc_durable (content (ms_db s')) = sc_meta (content (ms_db s)))"
proof (cases "\<forall>(k, v)\<in>set md. k \<noteq> []")
  case True
  have rest: "ms_rest content s' \<Longrightarrow> sc_durable (content (ms_db s')) = sc_meta (content (ms_db s'))"
    by (simp add: ms_rest_def sc_durable_def sc_rollback_def)
  from ms_set_cases [OF assms(1,2) True assms(5)] show ?thesis
    using assms(3,4) rest by (auto simp: holds_metadata_def)
next
  case False
  then have "list_ex (\<lambda>(k, v). k = []) md" by (auto simp: list_ex_iff)
  then have "r = Inl InvalidArgumentError" "s' = s" using assms(5) by (simp_all add: ms_set_def abind_def)
  then show ?thesis using assms(2) by (simp add: ms_rest_def sc_durable_def sc_rollback_def)
qed

lemma metadata_set_is_atomic_witness:
  "\<exists>r s'. ms_set table_sqlite 7 [(''b'', MText ''x'')] (small_mstore [True, True, False]) = (r, s') \<and>
     ((r = Inr () \<and> ms_rest td_content s') \<or> sc_durable (td_content (ms_db s')) = sc_meta (td_content (ms_db (small_mstore [True, True, False]))))"
proof -
  obtain r s' where run: "ms_set table_sqlite 7 [(''b'', MText ''x'')] (small_mstore [True, True, False]) = (r, s')" by fastforce
  have "md_sorted [(''b'', MText ''x'')]" by (simp add: md_sorted_def)
  from metadata_set_is_atomic [OF table_sqlite_laws small_mstore_rest small_mstore_holds this run] run show ?thesis by blast
qed

text \<open>C9: In a store at rest, the store implements a map from vectors to metadata: when the call returns, what was set is
  read back (a NaN and a negative zero as zero, which is how SQLite keeps them), removing says whether there was anything, and the scan gives the ids whose metadata matches,
  in the order of the signed ids.\<close>

theorem metadata_store_refines_map:
  assumes "sqlite_laws sq content" and "ms_rest content s" and "holds_metadata (content (ms_db s)) g"
  shows "(ms_get sq vid s = (Inr md, s') \<longrightarrow> md = read_md (g vid) \<and> ms_rest content s' \<and> holds_metadata (content (ms_db s')) g) \<and>
    (ms_remove sq vid s = (Inr b, s') \<longrightarrow> b = (g vid \<noteq> []) \<and> ms_rest content s' \<and> holds_metadata (content (ms_db s')) (g(vid := []))) \<and>
    (ms_matching sq f s = (Inr ids, s') \<longrightarrow> sorted_wrt (\<lambda>i j. i <s j) ids \<and>
       set ids = {i. g i \<noteq> [] \<and> filter_matches f (read_md (g i))} \<and> ms_rest content s' \<and> holds_metadata (content (ms_db s')) g)"
proof -
  have g: "md_sorted (g i)" "sc_meta (content (ms_db s)) i = stored_rows (g i)" for i using assms(3) by (simp_all add: holds_metadata_def)
  have a: "md = read_md (g vid) \<and> ms_rest content s' \<and> holds_metadata (content (ms_db s')) g" if "ms_get sq vid s = (Inr md, s')"
    using ms_get_stored [OF assms(1,2) g that] assms(3) by (simp add: read_md_def)
  have b: "b = (g vid \<noteq> []) \<and> ms_rest content s' \<and> holds_metadata (content (ms_db s')) (g(vid := []))" if "ms_remove sq vid s = (Inr b, s')"
    using ms_remove_cases [OF assms(1,2) that] g stored_rows_empty [OF g(1)] by (auto simp: holds_metadata_def md_sorted_def stored_rows_def fun_eq_iff)
  have c: "sorted_wrt (\<lambda>i j. i <s j) ids \<and> set ids = {i. g i \<noteq> [] \<and> filter_matches f (read_md (g i))} \<and> ms_rest content s' \<and>
      holds_metadata (content (ms_db s')) g" if "ms_matching sq f s = (Inr ids, s')"
    using ms_matching_stored [OF assms(1,3) that] assms(2,3) by (auto simp: ms_rest_def)
  show ?thesis using a b c by blast
qed

lemma metadata_store_refines_map_witness:
  "\<exists>md s'. ms_get table_sqlite 7 (small_mstore []) = (Inr md, s') \<and> md = [(''a'', MInt 1)]"
proof -
  obtain r s' where run: "ms_get table_sqlite 7 (small_mstore []) = (r, s')" by fastforce
  have q: "sq_query table_sqlite sql_select_by_vector [SqlInt 7] (ms_db (small_mstore [])) =
      (([SqlText ''a'' # map sql_stored (enc_value (MInt 1))], True), ms_db (small_mstore []))"
    by (simp add: table_sqlite_def td_query_def td_next_def small_mstore_def)
  obtain md where md: "r = Inr md" using ms_get_run(1) [OF small_mstore_rest q] run by auto
  then show ?thesis
    using metadata_store_refines_map [OF table_sqlite_laws small_mstore_rest small_mstore_holds, of 7 "[]" md s'] run
    by (auto simp: read_md_def)
qed

text \<open>Further: A statement that fails is never reset. After one failed insert every later write of non-empty metadata
  through the same store object fails, whatever the database would answer.\<close>

theorem failed_insert_sticks:
  assumes "ms_insert_value s = st_new sql_insert_value" and "insert_row sq vid k v s = (Inl e, s')"
    and "ms_insert_value t = ms_insert_value s'" and "md \<noteq> []"
  shows "fst (ms_set sq' vid' md t) \<noteq> Inr ()"
proof -
  have run: "st_run (ms_insert_value s') \<noteq> None"
    using assms(1,2) by (cases v) (auto simp: insert_row_def statement_defs Let_def split: prod.splits list.splits if_splits)
  have ins: "ms_insert_value u = ms_insert_value s' \<Longrightarrow> insert_rows sq' vid' md u = (Inl MetadataError, u)" for u
  proof (cases md)
    case (Cons kv l)
    assume "ms_insert_value u = ms_insert_value s'"
    then have "insert_row sq' vid' (fst kv) (snd kv) u = (Inl MetadataError, u)" using run by (intro stuck_insert) simp
    then show ?thesis by (cases kv) (simp add: Cons abind_step)
  qed (use assms(4) in simp)
  have del: "ms_insert_value (snd (delete_vector sq' vid' u)) = ms_insert_value u" for u
    by (simp add: delete_vector_def cached_def split: prod.split)
  have beg: "ms_insert_value (snd (begin_locked sq' t)) = ms_insert_value t"
    by (auto simp: begin_locked_def Let_def abind_def on_db_def split: prod.split sum.split option.split)
  show ?thesis
  proof
    assume "fst (ms_set sq' vid' md t) = Inr ()"
    then obtain t' where "ms_set sq' vid' md t = (Inr (), t')" by (metis prod.collapse)
    then obtain u w x where b: "begin_locked sq' t = (Inr (), u)"
      and a: "acatch (abind (delete_vector sq' vid') (\<lambda>_. insert_rows sq' vid' md)) (\<lambda>e s. (Inl e, rollback_locked sq' s)) u = (Inr x, w)"
      by (auto simp: ms_set_def act_inv)
    then obtain u' where d: "delete_vector sq' vid' u = (Inr (), u')" "insert_rows sq' vid' md u' = (Inr x, w)"
      by (auto simp: acatch_def act_inv split: prod.splits sum.splits)
    have "ms_insert_value u' = ms_insert_value s'" using del [of u] beg d(1) b assms(3) by simp
    then show False using ins [of u'] d(2) by simp
  qed
qed

text \<open>Further: When BEGIN fails, the nesting depth stays counted, so the next write runs without a transaction: if its delete
  succeeds and its insert then fails, the vector's old metadata is gone for good although the call threw.\<close>

theorem failed_begin_loses_rows:
  assumes "sqlite_laws sq content" and "ms_rest content s"
    and "sq_exec sq ''BEGIN IMMEDIATE'' (ms_db s) = (False, db1)"
    and "sq_query sq sql_delete_by_vector [SqlInt vid] db1 = ((rows, True), db2)"
    and "sq_query sq sql_insert_value (SqlInt vid # SqlText k # enc_value v) db2 = ((rows2, False), db3)" and "k \<noteq> []"
  shows "\<exists>s1 s2. ms_set sq vid0 [(k0 # ks, v0)] s = (Inl MetadataError, s1) \<and> ms_set sq vid [(k, v)] s1 = (Inl MetadataError, s2) \<and>
     sc_durable (content (ms_db s2)) vid = Map.empty"
proof -
  have st: "ms_insert_value s = st_new sql_insert_value" "ms_delete_by_vector s = st_new sql_delete_by_vector" "ms_transaction s = None"
    "ms_depth s = 0" "sc_saved (content (ms_db s)) = None" using assms(2) by (simp_all add: ms_rest_def)
  have laws: "law_begin sq content" "law_delete sq content" "law_insert sq content" using assms(1) by (simp_all add: sqlite_laws_def)
  let ?s1 = "s\<lparr>ms_depth := 1, ms_db := db1\<rparr>"
  have b: "begin_locked sq s = (Inl MetadataError, ?s1)"
    using st assms(3) by (simp add: begin_locked_def Let_def abind_def on_db_def transaction_new_def connection_execute_def)
  have c1: "content db1 = content (ms_db s)" using laws(1) [unfolded law_begin_def, rule_format, OF assms(3)] by simp
  note d = laws(2) [unfolded law_delete_def, rule_format, OF assms(4)]
  note ins = laws(3) [unfolded law_insert_def, rule_format, OF assms(5)]
  have c3: "sc_durable (content db3) vid = Map.empty"
    using c1 d ins st(5) by (auto simp: sql_failed_def sc_rollback_def sc_durable_def)
  let ?s2 = "s\<lparr>ms_depth := 2, ms_db := db1\<rparr>"
  have b2: "begin_locked sq ?s1 = (Inr (), ?s2)" by (simp add: begin_locked_def Let_def numeral_2_eq_2)
  obtain w where body: "abind (delete_vector sq vid) (\<lambda>_. insert_rows sq vid [(k, v)]) ?s2 = (Inl MetadataError, w)"
    and w: "ms_db w = db3" "ms_transaction w = None"
  proof -
    have dv: "delete_vector sq vid ?s2 = (Inr (), ?s2\<lparr>ms_db := db2\<rparr>)"
      by (rule delete_vector_run [of ?s2 sq vid True db2]) (use st d assms(4) in simp_all)
    obtain stm where iv: "insert_row sq vid k v (?s2\<lparr>ms_db := db2\<rparr>) = (Inl MetadataError, ?s2\<lparr>ms_db := db3, ms_insert_value := stm\<rparr>)"
      by (rule insert_row_run [of "?s2\<lparr>ms_db := db2\<rparr>" sq vid k v False db3]) (use st ins assms(5) in simp_all)
    show ?thesis by (rule that [of "?s2\<lparr>ms_db := db3, ms_insert_value := stm\<rparr>"]) (use dv iv st in \<open>simp_all add: abind_def\<close>)
  qed
  have "ms_set sq vid [(k, v)] ?s1 = (Inl MetadataError, rollback_locked sq w)"
    using b2 body assms(6) by (simp add: ms_set_def abind_def acatch_def)
  moreover have "ms_db (rollback_locked sq w) = db3" using w by (simp add: rollback_locked_def Let_def)
  moreover have "ms_set sq vid0 [(k0 # ks, v0)] s = (Inl MetadataError, ?s1)" using b by (simp add: ms_set_def abind_def)
  ultimately show ?thesis using c3 by auto
qed

lemma failed_begin_loses_rows_witness:
  "\<exists>s1 s2. ms_set table_sqlite 3 [(''c'', MNull)] (small_mstore [False, True, False]) = (Inl MetadataError, s1) \<and>
     ms_set table_sqlite 7 [(''b'', MInt 2)] s1 = (Inl MetadataError, s2) \<and>
     sc_durable (td_content (ms_db s2)) 7 = Map.empty \<and> sc_durable (td_content (ms_db (small_mstore [False, True, False]))) 7 \<noteq> Map.empty"
proof -
  let ?d = "ms_db (small_mstore [False, True, False])"
  have b: "sq_exec table_sqlite ''BEGIN IMMEDIATE'' ?d = (False, ?d\<lparr>td_outcomes := [True, False]\<rparr>)"
    by (simp add: table_sqlite_def td_exec_def td_next_def small_mstore_def)
  have d: "sq_query table_sqlite sql_delete_by_vector [SqlInt 7] (?d\<lparr>td_outcomes := [True, False]\<rparr>) =
      (([], True), ?d\<lparr>td_rows := [], td_outcomes := [False]\<rparr>)"
    by (simp add: table_sqlite_def td_query_def td_next_def small_mstore_def)
  have i: "sq_query table_sqlite sql_insert_value (SqlInt 7 # SqlText ''b'' # enc_value (MInt 2)) (?d\<lparr>td_rows := [], td_outcomes := [False]\<rparr>) =
      (([], False), ?d\<lparr>td_rows := [], td_outcomes := []\<rparr>)"
    by (simp add: table_sqlite_def td_query_def td_next_def small_mstore_def)
  have old: "sc_durable (td_content ?d) 7 \<noteq> Map.empty"
    by (simp add: sc_durable_def sc_rollback_def td_content_def small_mstore_def td_meta_def)
  show ?thesis
    using failed_begin_loses_rows [OF table_sqlite_laws small_mstore_rest b d i, of 3 "CHR ''c''" "[]" MNull] old by auto
qed

lemma failed_insert_sticks_witness:
  "\<exists>s. insert_row table_sqlite 7 ''b'' (MInt 2) (small_mstore [False]) = (Inl MetadataError, s) \<and>
     fst (ms_set table_sqlite 8 [(''a'', MNull)] s) \<noteq> Inr ()"
proof -
  have q: "sq_query table_sqlite sql_insert_value (SqlInt 7 # SqlText ''b'' # enc_value (MInt 2)) (ms_db (small_mstore [False])) =
      (([], False), ms_db (small_mstore []))"
    by (simp add: table_sqlite_def td_query_def td_next_def small_mstore_def)
  have st: "ms_insert_value (small_mstore [False]) = st_new sql_insert_value" by (simp add: small_mstore_def)
  obtain s where i: "insert_row table_sqlite 7 ''b'' (MInt 2) (small_mstore [False]) = (Inl MetadataError, s)"
    by (rule insert_row_run [OF st q]) auto
  show ?thesis using i failed_insert_sticks [OF st i refl, of "[(''a'', MNull)]"] by auto
qed

end
