(* ===== verification/Vdb_DatabaseSpec.thy ===== *)
theory Vdb_DatabaseSpec
  imports Vdb_DatabaseOpen Vdb_Metadata "HOL-Library.Sublist"
begin

text \<open>
  What every operation of the database keeps, whether it returns or throws: the store's invariant, and an index
  that is well formed over exactly the store's slots. Which means that a search is sound in every state an
  application can reach, including those that exceptions leave behind.
\<close>

section \<open>The invariant\<close>

definition db_inv :: "'db database \<Rightarrow> bool" where
  "db_inv d \<longleftrightarrow> vs_inv (db_store d) \<and> dc_validate (db_config d) = Inr () \<and>
     vs_dimension (db_store d) = dc_dimension (db_config d) \<and> vs_normalize (db_store d) = dc_normalize (db_config d) \<and>
     ix_good (db_index d) (vs_slot_count (db_store d)) \<and> ix_accessor (db_index d) = vs_accessor (db_store d) \<and>
     ix_info (db_index d) = (dc_metric (db_config d), if dc_index_type (db_config d) = Hnsw then Some (dc_hnsw (db_config d)) else None) \<and>
     vst_inv (db_scratch d)"

text \<open>Room for \<open>n\<close> slots: the link offsets of the graph fit their 32 bits, whatever levels are drawn.\<close>

definition room_for :: "database_config \<Rightarrow> nat \<Rightarrow> bool" where
  "room_for c n \<longleftrightarrow> n \<le> kMaxVectorCount \<and> (dc_index_type c = Hnsw \<longrightarrow> n * 254 * (hc_m (dc_hnsw c) + 1) < 2 ^ 32)"

definition db_room :: "'db database \<Rightarrow> bool" where
  "db_room d \<longleftrightarrow> room_for (db_config d) (Suc (vs_slot_count (db_store d)))"

lemma accessor_simps [simp]:
  "ac_size (vs_accessor s) = vs_slot_count s" "ac_dimension (vs_accessor s) = vs_dimension s"
  "ac_is_live (vs_accessor s) i = vs_is_live s i"
  by (simp_all add: ac_size_def ac_dimension_def ac_is_live_def vs_accessor_def vs_slot_count_def vs_dimension_def vs_is_live_def)

lemma inv_slot_count: "vs_inv s \<Longrightarrow> vs_slot_count s \<le> kMaxVectorCount"
  by (simp add: vs_inv_def va_inv_def vs_slot_count_def)

lemma room_mono: "room_for c n \<Longrightarrow> k \<le> n \<Longrightarrow> room_for c k"
proof -
  assume r: "room_for c n" "k \<le> n"
  have "k * 254 * (hc_m (dc_hnsw c) + 1) \<le> n * 254 * (hc_m (dc_hnsw c) + 1)" using r(2) by (intro mult_right_mono) simp_all
  then show "room_for c k" using r unfolding room_for_def by (meson le_trans order.strict_trans1)
qed

lemma good_room:
  assumes "hn_good h n" "n * 254 * (hc_m (hn_config h) + 1) < 2 ^ 32"
  shows "hn_room h"
proof -
  have "length (hn_upper_links h) \<le> n * 254 * (hc_m (hn_config h) + 1)" using upper_links_bound [of h] assms(1) by (auto simp: hn_good_def)
  then show ?thesis unfolding hn_room_def using assms(2) by (rule order.strict_trans1)
qed

lemma db_inv_room: "db_inv d \<Longrightarrow> room_for (db_config d) (vs_slot_count (db_store d)) \<Longrightarrow> ix_room (db_index d)"
  using good_room unfolding db_inv_def room_for_def
  by (cases "db_index d") (auto simp: ix_defs split: if_splits)

section \<open>Building the index\<close>

lemma add_slots_ok:
  assumes "hn_good ix k" "hn_accessor ix = vs_accessor s" "hn_config ix = hc" "vst_inv v" "k \<le> n" "n \<le> vs_slot_count s"
    "vs_slot_count s \<le> kMaxVectorCount" "n * 254 * (hc_m hc + 1) < 2 ^ 32"
  shows "\<exists>ix' v'. add_slots logd s [k..<n] ix v = Inr (ix', v') \<and> hn_good ix' n \<and> hn_accessor ix' = vs_accessor s \<and>
    hn_config ix' = hc \<and> hn_metric ix' = hn_metric ix \<and> vst_inv v'"
  using assms
proof (induction "n - k" arbitrary: k ix v)
  case 0
  then show ?case by simp
next
  case (Suc m)
  have k: "k < n" using Suc.hyps(2) by simp
  have "k * 254 * (hc_m hc + 1) \<le> n * 254 * (hc_m hc + 1)" using k by (intro mult_right_mono) simp_all
  then have "k * 254 * (hc_m (hn_config ix) + 1) < 2 ^ 32" unfolding Suc.prems(3) using Suc.prems(8) by (rule order.strict_trans1)
  then have room: "hn_room ix" by (rule good_room [OF Suc.prems(1)])
  obtain ja w where a: "hn_add logd ix k v = Inr (ja, w)" "hn_good ja (Suc k)" "hn_accessor ja = hn_accessor ix" "vst_inv w"
    "(hn_metric ja, hn_config ja) = (hn_metric ix, hn_config ix)"
    using graph.add_law [OF Suc.prems(1) _ _ Suc.prems(4) room, of logd] Suc.prems(2,6,7) k by auto
  let ?j = "if \<not> vs_is_live s k then hn_remove ja k else ja"
  have j: "hn_good ?j (Suc k)" "hn_accessor ?j = vs_accessor s" "hn_config ?j = hc" "hn_metric ?j = hn_metric ix"
    using a graph.rem_law [OF a(2), of k] Suc.prems(2,3) by auto
  obtain ix' v' where "add_slots logd s [Suc k..<n] ?j w = Inr (ix', v')" "hn_good ix' n" "hn_accessor ix' = vs_accessor s"
    "hn_config ix' = hc" "hn_metric ix' = hn_metric ?j" "vst_inv v'"
  proof -
    have "m = n - Suc k" "Suc k \<le> n" using Suc.hyps(2) k by simp_all
    from Suc.hyps(1) [OF this(1) j(1,2,3) a(4) this(2) Suc.prems(6,7,8)] show thesis using that by blast
  qed
  then show ?case using a(1) j(4) k by (simp add: upt_conv_Cons)
qed

lemma built_index_ok:
  assumes s: "vs_inv s" and c: "dc_validate c = Inr ()" and v: "vst_inv v" and room: "room_for c (vs_slot_count s)"
  shows "\<exists>ix v'. built_index env c s v = Inr (ix, v') \<and> ix_good ix (vs_slot_count s) \<and> ix_accessor ix = vs_accessor s \<and>
    ix_info ix = (dc_metric c, if dc_index_type c = Hnsw then Some (dc_hnsw c) else None) \<and> vst_inv v'"
proof (cases "dc_index_type c = Hnsw")
  case True
  then have "hc_validate (dc_hnsw c) = Inr ()" using c by (auto simp: dc_validate_def result_simps)
  then obtain ix where n: "hn_new (vs_accessor s) (dc_metric c) (dc_hnsw c) (en_kernel env) = Inr ix"
    and f: "hn_accessor ix = vs_accessor s" "hn_metric ix = dc_metric c" "hn_config ix = dc_hnsw c"
    by (simp add: hn_new_def)
  have g: "hn_good ix 0" using new_wf [OF n] by (simp add: hn_good_def)
  have "vs_slot_count s * 254 * (hc_m (dc_hnsw c) + 1) < 2 ^ 32" "vs_slot_count s \<le> kMaxVectorCount"
    using room True by (simp_all add: room_for_def)
  from add_slots_ok [OF g f(1,3) v le0 order_refl this(2,1), of "en_log env"] show ?thesis
    using n f True by (auto simp: built_index_def ix_defs)
next
  case False
  then show ?thesis using v by (simp add: built_index_def ix_defs)
qed

lemma build_index_keeps:
  assumes "vs_inv (db_store d)" "dc_validate (db_config d) = Inr ()" "vst_inv (db_scratch d)"
    "room_for (db_config d) (vs_slot_count (db_store d))" "vs_dimension (db_store d) = dc_dimension (db_config d)"
    "vs_normalize (db_store d) = dc_normalize (db_config d)"
  shows "\<exists>d'. build_index env d = (Inr (), d') \<and> db_inv d' \<and> db_store d' = db_store d \<and> db_config d' = db_config d \<and>
    db_metadata d' = db_metadata d \<and> db_world d' = db_world d \<and> db_directory d' = db_directory d \<and>
    db_next_auto_id d' = db_next_auto_id d \<and> db_has_metadata d' = db_has_metadata d"
  using built_index_ok [OF assms(1,2,3,4), of env] assms by (auto simp: build_index_def db_inv_def)

section \<open>Every operation keeps it\<close>

lemma keeps_db_read: "(\<And>d. db_inv d \<Longrightarrow> db_inv (snd (f d d))) \<Longrightarrow> keeps db_inv (db_read f)"
  by (simp add: keeps_def db_read_def)

lemma on_metadata_step: "on_metadata m d = (fst (m (db_metadata d)), d\<lparr>db_metadata := snd (m (db_metadata d))\<rparr>)"
  by (simp add: on_metadata_def azoom_def split: prod.split)

lemma on_files_step: "on_files m d = (fst (m (db_world d)), d\<lparr>db_world := snd (m (db_world d))\<rparr>)"
  by (simp add: on_files_def azoom_def split: prod.split)

lemma keeps_on [intro]: "keeps db_inv (on_metadata m)" "keeps db_inv (on_files m')"
  by (simp_all add: keeps_def on_metadata_step on_files_step db_inv_def)

lemma keeps_flags [intro]:
  "keeps db_inv (db_update (\<lambda>d. d\<lparr>db_has_metadata := f d\<rparr>))" "keeps db_inv (db_update (\<lambda>d. d\<lparr>db_dirty := b\<rparr>))"
  "keeps db_inv (db_update (\<lambda>d. d\<lparr>db_has_metadata := f d, db_dirty := b\<rparr>))"
  "keeps db_inv (db_update (\<lambda>d. (if g d then d\<lparr>db_next_auto_id := h d\<rparr> else d)\<lparr>db_dirty := b\<rparr>))"
  by (simp_all add: keeps_def db_update_def db_inv_def)

text \<open>An insert: the store grows, the index follows; its link offset is that of the present links.\<close>

lemma insert_grows:
  assumes inv: "db_inv d" and r: "ix_room (db_index d)" and ins: "vs_insert (db_store d) vid v = Inr (i, s)"
  shows "\<exists>d'. index_add env i (refresh_accessor (d\<lparr>db_store := s\<rparr>)) = (Inr (), d') \<and> db_inv d' \<and> db_store d' = s \<and>
    d' = d\<lparr>db_store := s, db_index := db_index d', db_scratch := db_scratch d'\<rparr>"
proof -
  have s: "vs_inv (db_store d)" and g: "ix_good (db_index d) (vs_slot_count (db_store d))" and v: "vst_inv (db_scratch d)"
    using inv by (simp_all add: db_inv_def)
  note o = vs_insert_ok [OF s ins]
  have sz: "ac_size (vs_accessor s) = Suc (vs_slot_count (db_store d))" using o(4,7) by simp
  have le: "ac_size (vs_accessor s) \<le> kMaxVectorCount" using inv_slot_count [OF o(1)] by simp
  obtain ix v' where a: "ix_add (en_log env) (ix_set_accessor (db_index d) (vs_accessor s)) (vs_slot_count (db_store d)) (db_scratch d) = Inr (ix, v')"
    "ix_good ix (ac_size (vs_accessor s))" "ix_accessor ix = vs_accessor s" "vst_inv v'" "ix_info ix = ix_info (db_index d)"
    using index.grow [OF g sz le v r, of "en_log env"] by blast
  let ?d = "d\<lparr>db_store := s, db_index := ix, db_scratch := v'\<rparr>"
  have "index_add env i (refresh_accessor (d\<lparr>db_store := s\<rparr>)) = (Inr (), ?d)"
    using a(1) o(4) by (simp add: index_add_def refresh_accessor_def)
  moreover have "db_inv ?d" using inv o a by (simp add: db_inv_def)
  ultimately show ?thesis by (intro exI [of _ ?d]) simp
qed

lemma room_index: "db_inv d \<Longrightarrow> db_room d \<Longrightarrow> ix_room (db_index d)"
  by (intro db_inv_room) (auto simp: db_room_def elim: room_mono)

lemmas insert_steps = insert_grows [OF _ room_index]

lemma insert_keeps:
  assumes inv: "db_inv d" and room: "ix_room (db_index d)"
  shows "db_inv (snd (db_insert env vid v md d))"
proof (cases "vs_insert (db_store d) vid v")
  case (Inl e)
  then show ?thesis using inv by (simp add: db_insert_def db_read_def abind_def)
next
  case (Inr r)
  obtain i s where r: "r = (i, s)" by (cases r)
  obtain d' where a: "index_add env i (refresh_accessor (d\<lparr>db_store := s\<rparr>)) = (Inr (), d')" "db_inv d'"
    using insert_grows [OF inv room] Inr r by metis
  let ?rest = "abind (if md \<noteq> [] then
              abind (on_metadata (ms_set (en_sqlite env) vid md)) (\<lambda>_. db_update (\<lambda>d. d\<lparr>db_has_metadata := True\<rparr>))
            else aret ()) (\<lambda>_.
     db_update (\<lambda>d. (if vid \<ge> db_next_auto_id d then d\<lparr>db_next_auto_id := vid + 1\<rparr> else d)\<lparr>db_dirty := True\<rparr>))"
  have "db_insert env vid v md d = ?rest d'"
    using Inr a(1) by (simp add: db_insert_def db_read_def abind_def db_update_def r)
  moreover have "keeps db_inv ?rest" by (intro keeps_abind) (auto split: if_split)
  ultimately show ?thesis using a(2) by (simp add: keeps_def)
qed

lemma update_steps:
  assumes inv: "db_inv d" and s: "vs_inv s" "vs_dimension s = vs_dimension (db_store d)" "vs_normalize s = vs_normalize (db_store d)"
    "vs_slot_count s = vs_slot_count (db_store d)"
  shows "db_inv (refresh_accessor (d\<lparr>db_store := s\<rparr>))"
    and "db_inv ((refresh_accessor (d\<lparr>db_store := s\<rparr>))\<lparr>db_index := ix_remove (db_index (refresh_accessor (d\<lparr>db_store := s\<rparr>))) i\<rparr>)"
proof -
  have g: "ix_good (db_index d) (vs_slot_count (db_store d))" and n: "ac_size (vs_accessor s) = vs_slot_count (db_store d)"
    using inv s by (simp_all add: db_inv_def)
  show "db_inv (refresh_accessor (d\<lparr>db_store := s\<rparr>))"
    using inv s index.refresh [OF g n] by (simp add: db_inv_def refresh_accessor_def)
  show "db_inv ((refresh_accessor (d\<lparr>db_store := s\<rparr>))\<lparr>db_index := ix_remove (db_index (refresh_accessor (d\<lparr>db_store := s\<rparr>))) i\<rparr>)"
    using inv s index.retire [OF g n, of i] by (simp add: db_inv_def refresh_accessor_def)
qed

lemma upsert_keeps:
  assumes inv: "db_inv d" and room: "ix_room (db_index d)"
  shows "db_inv (snd (db_upsert env vid v md d))"
proof (cases "vs_contains (db_store d) vid")
  case False
  then show ?thesis using insert_keeps [OF assms] by (simp add: db_upsert_def db_read_def)
next
  case True
  then obtain i where i: "vs_id_to_local (db_store d) vid = Some i" by (auto simp: vs_contains_def vs_find_def)
  show ?thesis
  proof (cases "vs_upsert (db_store d) vid v")
    case (Inl e)
    then show ?thesis using inv True by (simp add: db_upsert_def db_read_def abind_def)
  next
    case (Inr r)
    obtain j s where r: "r = (j, s)" by (cases r)
    have vs: "vs_inv (db_store d)" using inv by (simp add: db_inv_def)
    note o = vs_upsert_existing [OF vs i Inr [unfolded r]]
    let ?rest = "abind (on_metadata (ms_set (en_sqlite env) vid md)) (\<lambda>_.
       db_update (\<lambda>d. d\<lparr>db_has_metadata := db_has_metadata d \<or> md \<noteq> [], db_dirty := True\<rparr>))"
    have "db_upsert env vid v md d = ?rest (refresh_accessor (d\<lparr>db_store := s\<rparr>))"
      using True Inr r by (simp add: db_upsert_def db_read_def abind_def db_update_def)
    moreover have "keeps db_inv ?rest" by (intro keeps_abind) auto
    ultimately show ?thesis using update_steps(1) [OF inv o(1,7,6,5)] by (simp add: keeps_def)
  qed
qed

lemma remove_keeps:
  assumes inv: "db_inv d"
  shows "db_inv (snd (db_remove env vid d))"
proof (cases "vs_find (db_store d) vid")
  case None
  then show ?thesis using inv by (simp add: db_remove_def db_read_def)
next
  case (Some i)
  have vs: "vs_inv (db_store d)" using inv by (simp add: db_inv_def)
  obtain b s where r: "vs_remove (db_store d) vid = (b, s)" by fastforce
  note o = vs_remove_ok [OF vs r]
  let ?rest = "abind (on_metadata (ms_remove (en_sqlite env) vid)) (\<lambda>_. abind (db_update (\<lambda>d. d\<lparr>db_dirty := True\<rparr>)) (\<lambda>_. aret True))"
  let ?d = "refresh_accessor (d\<lparr>db_store := s\<rparr>)"
  have "db_remove env vid d = ?rest (?d\<lparr>db_index := ix_remove (db_index ?d) i\<rparr>)"
    using Some r by (simp add: db_remove_def db_read_def abind_def db_update_def)
  moreover have "keeps db_inv ?rest" by (intro keeps_abind) auto
  ultimately show ?thesis using update_steps(2) [OF inv o(1,5,4,6)] by (simp add: keeps_def)
qed

lemma set_metadata_keeps: "keeps db_inv (db_set_metadata env vid md)"
  unfolding db_set_metadata_def
proof (rule keeps_db_read)
  fix d :: "'a database" assume "db_inv d"
  moreover have "keeps db_inv (abind (on_metadata (ms_set (en_sqlite env) vid md)) (\<lambda>_. db_update (\<lambda>d. d\<lparr>db_has_metadata := db_has_metadata d \<or> md \<noteq> []\<rparr>)))"
    by (intro keeps_abind) auto
  ultimately show "db_inv (snd ((if \<not> vs_contains (db_store d) vid then athrow NotFoundError
     else abind (on_metadata (ms_set (en_sqlite env) vid md)) (\<lambda>_. db_update (\<lambda>d. d\<lparr>db_has_metadata := db_has_metadata d \<or> md \<noteq> []\<rparr>))) d))"
    by (simp add: keeps_def)
qed

lemma flush_keeps: "keeps db_inv (db_flush env)"
  unfolding db_flush_def
proof (rule keeps_db_read)
  fix d :: "'a database" assume inv: "db_inv d"
  let ?rest = "abind (on_files (write_vector_file (vector_file_path (db_directory d)) (db_store d))) (\<lambda>_.
       abind (if dc_index_type (db_config d) = Hnsw then
                (case db_index d of
                   HnswIndex h \<Rightarrow> on_files (write_hnsw_file (index_file_path (db_directory d)) h (dc_dimension (db_config d)))
                 | BruteIndex b \<Rightarrow> aret ())
              else aret ()) (\<lambda>_.
       abind (on_metadata (ms_set_config (en_sqlite env) kKeyNextId (show_nat (unat (db_next_auto_id d))))) (\<lambda>_.
       db_update (\<lambda>d. d\<lparr>db_dirty := False\<rparr>))))"
  have "keeps db_inv ?rest" by (intro keeps_abind) (auto split: if_split vindex.split)
  then show "db_inv (snd ((if \<not> db_dirty d then aret () else ?rest) d))" using inv by (simp add: keeps_def)
qed

lemma rebuild_keeps:
  assumes inv: "db_inv d" and room: "db_room d"
  shows "db_inv (snd (db_rebuild_index env d))"
proof -
  have r: "room_for (db_config d) (vs_slot_count (db_store d))" using room by (auto simp: db_room_def elim: room_mono)
  obtain d' where d': "build_index env d = (Inr (), d')" "db_inv d'"
    using build_index_keeps [of d env] inv r by (auto simp: db_inv_def)
  have "db_rebuild_index env d = abind (db_update (\<lambda>d. d\<lparr>db_dirty := True\<rparr>)) (\<lambda>_. db_flush env) d'"
    using d'(1) by (simp add: db_rebuild_index_def abind_def)
  moreover have "keeps db_inv (abind (db_update (\<lambda>d. d\<lparr>db_dirty := True\<rparr>)) (\<lambda>_. db_flush env))"
    by (intro keeps_abind flush_keeps) auto
  ultimately show ?thesis using d'(2) by (simp add: keeps_def)
qed

section \<open>Compaction\<close>

text \<open>The copy so far: the live slots below \<open>k\<close>, and no tombstone.\<close>

definition copied :: "vector_store \<Rightarrow> nat \<Rightarrow> vector_store \<Rightarrow> bool" where
  "copied s k t \<longleftrightarrow> vs_inv t \<and> vs_dimension t = vs_dimension s \<and> vs_normalize t = vs_normalize s \<and> vs_slot_count t \<le> k \<and>
     vs_live_count t = vs_slot_count t \<and>
     (\<forall>vid. vs_abs t vid = (case vs_id_to_local s vid of Some i \<Rightarrow> if i < k then vs_abs s vid else None | None \<Rightarrow> None))"

lemma copied_step:
  assumes s: "vs_inv s" and c: "copied s k t" and k: "k < vs_slot_count s" and live: "vs_is_live s k"
  shows "\<exists>i t'. vs_append_trusted t (vs_local_to_id s ! k) (va_view (vs_vectors s) k) (vs_norms s ! k) True = Inr (i, t') \<and> copied s (Suc k) t'"
proof -
  let ?id = "vs_local_to_id s ! k"
  have map: "\<And>vid i. vs_id_to_local s vid = Some i \<longleftrightarrow> i \<in> live_slots s \<and> vs_local_to_id s ! i = vid"
    and va: "va_inv (vs_vectors s)" using s by (auto simp: vs_inv_def)
  have id: "vs_id_to_local s ?id = Some k" using map k live by (simp add: live_slots_def)
  have fresh: "vs_abs t ?id = None" using c id by (simp add: copied_def)
  have inv: "vs_inv t" and dim: "vs_dimension t = vs_dimension s" using c by (simp_all add: copied_def)
  have len: "length (va_view (vs_vectors s) k) = va_dimension (vs_vectors t)"
    using k va dim by (simp add: vs_slot_count_def vs_dimension_def)
  have "vs_slot_count t < kMaxVectorCount" using c k inv_slot_count [OF s] by (simp add: copied_def)
  then obtain i t' where a: "vs_append_trusted t ?id (va_view (vs_vectors s) k) (vs_norms s ! k) True = Inr (i, t')"
    using len by (auto simp: vs_append_trusted_def ensure_capacity_for_one_def va_push_back_def vs_slot_count_def guard_throw_def Let_def)
  note o = vs_append_trusted_ok [OF inv a fresh]
  have lc: "vs_live_count t' = Suc (vs_live_count t)"
    using a by (auto simp: vs_append_trusted_def result_simps Let_def split: prod.splits)
  have "vs_abs t' vid = (case vs_id_to_local s vid of Some i \<Rightarrow> if i < Suc k then vs_abs s vid else None | None \<Rightarrow> None)" for vid
  proof (cases "vid = ?id")
    case True
    then show ?thesis using o(2) id by (simp add: vs_abs_def)
  next
    case False
    then have "vs_id_to_local s vid \<noteq> Some k" using map by auto
    moreover have "vs_abs t' vid = vs_abs t vid" using o(2) False by simp
    ultimately show ?thesis using c by (auto simp: copied_def less_Suc_eq split: option.split)
  qed
  then have "copied s (Suc k) t'" using o c lc by (simp add: copied_def)
  then show ?thesis using a by blast
qed

lemma copy_live_ok:
  assumes s: "vs_inv s" and c: "copied s k t" and k: "k \<le> vs_slot_count s"
  shows "\<exists>t'. copy_live s [k..<vs_slot_count s] t = Inr t' \<and> copied s (vs_slot_count s) t'"
  using c k
proof (induction "vs_slot_count s - k" arbitrary: k t)
  case 0
  then show ?case by simp
next
  case (Suc m)
  have k: "k < vs_slot_count s" "m = vs_slot_count s - Suc k" "Suc k \<le> vs_slot_count s" using Suc.hyps(2) by simp_all
  show ?case
  proof (cases "vs_is_live s k")
    case True
    obtain i t' where a: "vs_append_trusted t (vs_local_to_id s ! k) (va_view (vs_vectors s) k) (vs_norms s ! k) True = Inr (i, t')"
      "copied s (Suc k) t'" using copied_step [OF s Suc.prems(1) k(1) True] by blast
    have "vs_vector_id s k = Inr (vs_local_to_id s ! k)" using k(1) s by (simp add: vs_vector_id_def vs_inv_def)
    then show ?thesis using Suc.hyps(1) [OF k(2) a(2) k(3)] a(1) True k(1) by (simp add: upt_conv_Cons)
  next
    case False
    have "vs_id_to_local s vid \<noteq> Some k" for vid using False s by (auto simp: vs_inv_def live_slots_def)
    then have "copied s (Suc k) t" using Suc.prems(1) unfolding copied_def by (auto simp: less_Suc_eq split: option.splits)
    then show ?thesis using Suc.hyps(1) [OF k(2) _ k(3)] False k(1) by (simp add: upt_conv_Cons)
  qed
qed

lemma copied_all:
  assumes "vs_inv s" "copied s (vs_slot_count s) t"
  shows "vs_abs t = vs_abs s"
proof
  fix vid
  show "vs_abs t vid = vs_abs s vid"
  proof (cases "vs_id_to_local s vid")
    case None
    then show ?thesis using assms(2) by (simp add: copied_def vs_abs_def [of s])
  next
    case (Some i)
    then have "i < vs_slot_count s" using assms(1) by (auto simp: vs_inv_def live_slots_def)
    then show ?thesis using assms(2) Some by (simp add: copied_def)
  qed
qed

lemma compact_store:
  assumes "db_inv d"
  shows "\<exists>t. rbind (vs_new (dc_dimension (db_config d)) (dc_normalize (db_config d)))
      (copy_live (db_store d) [0..<vs_slot_count (db_store d)]) = Inr t \<and>
    copied (db_store d) (vs_slot_count (db_store d)) t"
proof -
  have s: "vs_inv (db_store d)" using assms by (simp add: db_inv_def)
  have v: "0 < dc_dimension (db_config d)" "dc_dimension (db_config d) \<le> kMaxDimension"
    using assms by (auto simp: db_inv_def dc_validate_def result_simps)
  obtain t where t: "vs_new (dc_dimension (db_config d)) (dc_normalize (db_config d)) = Inr t"
    using v by (simp add: vs_new_def va_new_def)
  have "copied (db_store d) 0 t"
    using vs_new_ok [OF t] t assms
    by (auto simp: copied_def vs_new_def va_new_def vs_slot_count_def db_inv_def split: option.split if_splits)
  from copy_live_ok [OF s this] t show ?thesis by simp
qed

lemma compact_steps:
  assumes inv: "db_inv d" and room: "db_room d" and t: "0 < vs_tombstone_count (db_store d)"
  shows "\<exists>d'. db_inv d' \<and> vs_abs (db_store d') = vs_abs (db_store d) \<and> vs_tombstone_count (db_store d') = 0 \<and>
    db_config d' = db_config d \<and> db_metadata d' = db_metadata d \<and> db_world d' = db_world d \<and>
    db_has_metadata d' = db_has_metadata d \<and> vs_slot_count (db_store d') \<le> vs_slot_count (db_store d) \<and>
    db_compact env d = abind (db_update (\<lambda>d. d\<lparr>db_dirty := True\<rparr>)) (\<lambda>_. abind (db_flush env) (\<lambda>_. aret (vs_tombstone_count (db_store d)))) d'"
proof -
  have s: "vs_inv (db_store d)" using inv by (simp add: db_inv_def)
  obtain c where c: "rbind (vs_new (dc_dimension (db_config d)) (dc_normalize (db_config d)))
      (copy_live (db_store d) [0..<vs_slot_count (db_store d)]) = Inr c" "copied (db_store d) (vs_slot_count (db_store d)) c"
    using compact_store [OF inv] by blast
  have n: "vs_slot_count c \<le> Suc (vs_slot_count (db_store d))" using c(2) by (simp add: copied_def)
  let ?d = "d\<lparr>db_store := c\<rparr>"
  have f: "vs_inv (db_store ?d)" "dc_validate (db_config ?d) = Inr ()" "vst_inv (db_scratch ?d)"
    "room_for (db_config ?d) (vs_slot_count (db_store ?d))" "vs_dimension (db_store ?d) = dc_dimension (db_config ?d)"
    "vs_normalize (db_store ?d) = dc_normalize (db_config ?d)"
    using inv c(2) room_mono [OF room [unfolded db_room_def] n] by (simp_all add: db_inv_def copied_def)
  obtain d' where b: "build_index env ?d = (Inr (), d')" "db_inv d'" "db_store d' = c" "db_config d' = db_config d"
    "db_metadata d' = db_metadata d" "db_world d' = db_world d" "db_has_metadata d' = db_has_metadata d"
    using build_index_keeps [OF f, of env] by auto
  have "vs_slot_count (db_store d') \<le> vs_slot_count (db_store d)" using b(3) c(2) by (simp add: copied_def)
  moreover
  have "db_compact env d = abind (db_update (\<lambda>d. d\<lparr>db_dirty := True\<rparr>)) (\<lambda>_. abind (db_flush env) (\<lambda>_. aret (vs_tombstone_count (db_store d)))) d'"
    using t c(1) b(1) by (simp add: db_compact_def db_read_def abind_def db_update_def Let_def)
  moreover have "vs_tombstone_count (db_store d') = 0" "vs_abs (db_store d') = vs_abs (db_store d)"
    using b(3) c(2) copied_all [OF s c(2)] by (simp_all add: vs_tombstone_count_def copied_def)
  ultimately show ?thesis using b by blast
qed

lemma compact_keeps:
  assumes inv: "db_inv d" and room: "db_room d"
  shows "db_inv (snd (db_compact env d))"
proof (cases "vs_tombstone_count (db_store d) = 0")
  case True
  then show ?thesis using inv by (simp add: db_compact_def db_read_def Let_def)
next
  case False
  obtain d' where d': "db_inv d'"
    "db_compact env d = abind (db_update (\<lambda>d. d\<lparr>db_dirty := True\<rparr>)) (\<lambda>_. abind (db_flush env) (\<lambda>_. aret (vs_tombstone_count (db_store d)))) d'"
    using compact_steps [OF assms, of env] False by auto
  have "keeps db_inv (abind (db_update (\<lambda>d. d\<lparr>db_dirty := True\<rparr>)) (\<lambda>_. abind (db_flush env) (\<lambda>_. aret (vs_tombstone_count (db_store d)))))"
    by (intro keeps_abind flush_keeps) auto
  then show ?thesis using d' by (simp add: keeps_def)
qed

section \<open>Searching\<close>

text \<open>A result stands for its candidate.\<close>

definition result_of :: "'db database \<Rightarrow> candidate \<Rightarrow> query_result \<Rightarrow> bool" where
  "result_of d c r \<longleftrightarrow> qr_id r = vs_local_to_id (db_store d) ! local_id c \<and>
     qr_score r = score_from_rank_key (dc_metric (db_config d)) (key c)"

lemma get_error: "fst (ms_get sq vid m) = Inl e \<Longrightarrow> e = MetadataError"
proof -
  have rows: "fst (stmt_rows sq acc s) = Inl e \<Longrightarrow> e = MetadataError" for acc s
  proof (induction sq acc s rule: stmt_rows.induct)
    case (1 sq acc s)
    obtain r t where st: "stmt_step sq s = (r, t)" by (cases "stmt_step sq s") auto
    show ?case
    proof (cases r)
      case (Inl e')
      then have "e' = MetadataError" using st by (auto simp: stmt_step_def Let_def split: prod.splits list.splits if_splits option.splits)
      then show ?thesis using 1(2) st Inl by (simp add: stmt_rows.simps [of sq acc s])
    next
      case (Inr x)
      then show ?thesis using 1 st by (cases x) (simp_all add: stmt_rows.simps [of sq acc s])
    qed
  qed
  assume r: "fst (ms_get sq vid m) = Inl e"
  obtain b t where bt: "bind_int64 1 vid (ms_db m, ms_select_by_vector m) = (b, t)"
    by (cases "bind_int64 1 vid (ms_db m, ms_select_by_vector m)") auto
  show "e = MetadataError"
  proof (cases b)
    case (Inl e')
    then have "e' = MetadataError" using bt by (auto simp: bind_int64_def bind_param_def split: if_splits)
    then show ?thesis using r bt Inl by (simp add: ms_get_def cached_def abind_def split: prod.splits)
  next
    case (Inr u)
    obtain q w where q: "stmt_rows sq [] t = (q, w)" by (cases "stmt_rows sq [] t") auto
    then have "\<exists>e'. q = Inl e' \<and> e' = e"
      using r bt Inr by (cases q) (auto simp: ms_get_def cached_def abind_def stmt_reset_def aret_def split: prod.splits)
    then show ?thesis using rows [of "[]" t] q by simp
  qed
qed

text \<open>What collecting \<open>cs\<close> after \<open>res\<close> may return.\<close>

definition collected :: "'db database \<Rightarrow> query_options \<Rightarrow> candidate list \<Rightarrow> query_result list \<Rightarrow> query_result list \<Rightarrow> bool" where
  "collected d opt cs res rs \<longleftrightarrow> (\<exists>cs' new. rs = res @ new \<and> subseq cs' cs \<and> list_all2 (result_of d) cs' new \<and>
     length rs \<le> max (qo_k opt) (length res) \<and>
     (\<forall>x\<in>set new. qo_filter opt \<noteq> [] \<longrightarrow> filter_matches (qo_filter opt) (qr_metadata x)))"

lemma collected_none: "collected d opt cs res res"
  unfolding collected_def by (intro exI [of _ "[]"]) simp

lemma collected_skip: "collected d opt cs res rs \<Longrightarrow> collected d opt (c # cs) res rs"
  unfolding collected_def by (blast intro: list_emb_Cons)

lemma collected_put:
  assumes "collected d opt cs (res @ [x]) rs" "result_of d c x" "length res < qo_k opt"
    "qo_filter opt \<noteq> [] \<Longrightarrow> filter_matches (qo_filter opt) (qr_metadata x)"
  shows "collected d opt (c # cs) res rs"
proof -
  obtain cs' new where n: "rs = (res @ [x]) @ new" "subseq cs' cs" "list_all2 (result_of d) cs' new"
    "length rs \<le> max (qo_k opt) (length (res @ [x]))"
    "\<forall>x\<in>set new. qo_filter opt \<noteq> [] \<longrightarrow> filter_matches (qo_filter opt) (qr_metadata x)"
    using assms(1) unfolding collected_def by blast
  then show ?thesis unfolding collected_def using assms(2-4)
    by (intro exI [of _ "c # cs'"] exI [of _ "x # new"]) auto
qed

lemma collected_store: "collected (d\<lparr>db_metadata := m\<rparr>) = collected d"
  by (simp add: collected_def [abs_def] result_of_def [abs_def])

lemma collect_sound:
  assumes "\<forall>c\<in>set cs. local_id c < length (vs_local_to_id (db_store d))" and "collect_results env opt cs res d = (r, d')"
  shows "(\<exists>m. d' = d\<lparr>db_metadata := m\<rparr>) \<and> (r = Inl MetadataError \<or> (\<exists>rs. r = Inr rs \<and> collected d opt cs res rs))"
  using assms
proof (induction cs arbitrary: res d)
  case Nil
  then have "r = Inr res" "d' = d\<lparr>db_metadata := db_metadata d\<rparr>" by simp_all
  then show ?case using collected_none by blast
next
  case (Cons c cs)
  let ?vid = "vs_local_to_id (db_store d) ! local_id c"
  let ?mk = "\<lambda>md. \<lparr>qr_id = ?vid, qr_score = score_from_rank_key (dc_metric (db_config d)) (key c), qr_metadata = md\<rparr>"
  show ?case
  proof (cases "length res \<ge> qo_k opt")
    case True
    then have "r = Inr res" "d' = d\<lparr>db_metadata := db_metadata d\<rparr>" using Cons.prems(2) by simp_all
    then show ?thesis using collected_none by blast
  next
    case False
    have vid: "vs_vector_id (db_store d) (local_id c) = Inr ?vid" using Cons.prems(1) by (simp add: vs_vector_id_def)
    have rest: "(\<exists>m. d' = d\<lparr>db_metadata := m\<rparr>) \<and> (r = Inl MetadataError \<or> (\<exists>rs. r = Inr rs \<and> collected d opt cs acc rs))"
      if run: "collect_results env opt cs acc (d\<lparr>db_metadata := m\<rparr>) = (r, d')" for acc m
      using Cons.IH [OF _ run] Cons.prems(1) by (simp add: collected_store)
    have skip: ?thesis if "collect_results env opt cs res (d\<lparr>db_metadata := m\<rparr>) = (r, d')" for m
      using rest [OF that] collected_skip by blast
    have put: ?thesis if run: "collect_results env opt cs (res @ [?mk md]) (d\<lparr>db_metadata := m\<rparr>) = (r, d')"
      and f: "qo_filter opt \<noteq> [] \<Longrightarrow> filter_matches (qo_filter opt) md" for m md
    proof -
      have "result_of d c (?mk md)" by (simp add: result_of_def)
      then show ?thesis using rest [OF run] collected_put [of d opt cs res "?mk md" _ c] False f by fastforce
    qed
    show ?thesis
    proof (cases "needs_metadata d opt")
      case needs: True
      obtain g m where g: "ms_get (en_sqlite env) ?vid (db_metadata d) = (g, m)" by fastforce
      show ?thesis
      proof (cases g)
        case (Inl e)
        then have "e = MetadataError" using get_error g by (metis fst_conv)
        then have "r = Inl MetadataError \<and> d' = d\<lparr>db_metadata := m\<rparr>"
          using Cons.prems(2) False vid needs g Inl by (simp add: db_read_def abind_def Let_def on_metadata_step)
        then show ?thesis by blast
      next
        case (Inr md)
        then have "(if qo_filter opt \<noteq> [] \<and> \<not> filter_matches (qo_filter opt) md then collect_results env opt cs res
            else collect_results env opt cs (res @ [?mk md])) (d\<lparr>db_metadata := m\<rparr>) = (r, d')"
          using Cons.prems(2) False vid needs g by (simp add: db_read_def abind_def Let_def on_metadata_step)
        then show ?thesis using skip [of m] put [of md m] by presburger
      qed
    next
      case needs: False
      then have "(if qo_filter opt \<noteq> [] then collect_results env opt cs res
          else collect_results env opt cs (res @ [?mk []])) (d\<lparr>db_metadata := db_metadata d\<rparr>) = (r, d')"
        using Cons.prems(2) False vid by (simp add: db_read_def abind_def Let_def)
      then show ?thesis using skip [of "db_metadata d"] put [of "[]" "db_metadata d"] by presburger
    qed
  qed
qed

text \<open>How many candidates a search asks its index for.\<close>

definition asked :: "'db database \<Rightarrow> query_options \<Rightarrow> nat" where
  "asked d opt = (if use_exact d opt then if qo_filter opt \<noteq> [] then vs_slot_count (db_store d) else qo_k opt else fetch_count d opt)"

lemma candidates_sound:
  assumes inv: "db_inv d" and q: "length q = dc_dimension (db_config d)" and k: "0 < asked d opt"
  shows "\<exists>cs v. search_candidates env q opt d = (Inr cs, d\<lparr>db_scratch := v\<rparr>) \<and> sound_results (vs_accessor (db_store d)) (asked d opt) cs \<and>
    vst_inv v"
proof (cases "use_exact d opt")
  case True
  let ?ix = "\<lparr>bf_accessor = vs_accessor (db_store d), bf_metric = dc_metric (db_config d), bf_kernel = en_kernel env\<rparr>"
  let ?p = "\<lparr>sp_k = asked d opt, sp_ef_search = 0\<rparr>"
  have "length q = ac_dimension (bf_accessor ?ix)" "ac_size (bf_accessor ?ix) \<le> kMaxVectorCount"
    using inv q inv_slot_count by (auto simp: db_inv_def)
  then obtain rs where "bf_search ?ix q ?p = Inr rs" "sound_results (bf_accessor ?ix) (sp_k ?p) rs"
    using bf_search_sound [of ?p q ?ix] k by auto
  then have "search_candidates env q opt d = (Inr rs, d\<lparr>db_scratch := db_scratch d\<rparr>) \<and> sound_results (vs_accessor (db_store d)) (asked d opt) rs"
    using True by (simp add: search_candidates_def asked_def)
  moreover have "vst_inv (db_scratch d)" using inv by (simp add: db_inv_def)
  ultimately show ?thesis by blast
next
  case False
  let ?p = "\<lparr>sp_k = asked d opt, sp_ef_search = qo_ef_search opt\<rparr>"
  have g: "ix_good (db_index d) (ac_size (ix_accessor (db_index d)))" "ac_size (ix_accessor (db_index d)) \<le> kMaxVectorCount" "vst_inv (db_scratch d)"
    "length q = ac_dimension (ix_accessor (db_index d))" "0 < sp_k ?p" "ix_accessor (db_index d) = vs_accessor (db_store d)"
    using inv q k inv_slot_count by (auto simp: db_inv_def)
  obtain rs v where "ix_search (db_index d) q ?p (db_scratch d) = Inr (rs, v)" "vst_inv v" "sound_results (ix_accessor (db_index d)) (sp_k ?p) rs"
    using index.search_law [OF g(1,2,3,5,4)] by blast
  then show ?thesis using False g(6) by (auto simp: search_candidates_def asked_def)
qed

lemma live_ids_distinct:
  assumes s: "vs_inv s" and r: "sound_results (vs_accessor s) n cs"
  shows "distinct (map (\<lambda>c. vs_local_to_id s ! local_id c) cs)" "\<forall>c\<in>set cs. vs_contains s (vs_local_to_id s ! local_id c)"
proof -
  have m: "vs_id_to_local s (vs_local_to_id s ! local_id c) = Some (local_id c)" if "c \<in> set cs" for c
    using s r that by (auto simp: vs_inv_def sound_results_def live_slots_def)
  then show "\<forall>c\<in>set cs. vs_contains s (vs_local_to_id s ! local_id c)" by (simp add: vs_contains_def vs_find_def)
  have "inj_on (\<lambda>i. vs_local_to_id s ! i) (local_id ` set cs)" using m by (intro inj_onI) (metis (no_types, lifting) imageE option.inject)
  moreover have "distinct (map local_id cs)" using r by (simp add: sound_results_def)
  ultimately have "distinct (map (\<lambda>i. vs_local_to_id s ! i) (map local_id cs))" unfolding distinct_map [of "(!) (vs_local_to_id s)"] by simp
  then show "distinct (map (\<lambda>c. vs_local_to_id s ! local_id c) cs)" by (simp add: comp_def)
qed

lemma validate_length: "validate_vector q n = Inr () \<Longrightarrow> length q = n"
  by (simp add: validate_ok_iff)

definition results_ok :: "'db database \<Rightarrow> query_options \<Rightarrow> query_result list \<Rightarrow> bool" where
  "results_ok d opt rs \<longleftrightarrow> length rs \<le> qo_k opt \<and> distinct (map qr_id rs) \<and>
     (\<forall>x\<in>set rs. vs_contains (db_store d) (qr_id x) \<and>
        (qo_filter opt \<noteq> [] \<longrightarrow> filter_matches (qo_filter opt) (qr_metadata x)))"

lemma collected_scratch: "collected (d\<lparr>db_scratch := v\<rparr>) = collected d"
  by (simp add: collected_def [abs_def] result_of_def [abs_def])

lemma collected_results:
  assumes s: "vs_inv (db_store d)" and cs: "sound_results (vs_accessor (db_store d)) n cs" and c: "collected d opt cs [] rs"
  shows "results_ok d opt rs"
proof -
  let ?id = "\<lambda>c. vs_local_to_id (db_store d) ! local_id c"
  obtain cs' new where n: "rs = [] @ new" "subseq cs' cs" "list_all2 (result_of d) cs' new"
    "length rs \<le> max (qo_k opt) (length ([] :: query_result list))"
    "\<forall>x\<in>set new. qo_filter opt \<noteq> [] \<longrightarrow> filter_matches (qo_filter opt) (qr_metadata x)"
    using c unfolding collected_def by blast
  have "map qr_id new = map ?id cs'"
    using n(3) by (induction rule: list_all2_induct) (simp_all add: result_of_def)
  then have sub: "subseq (map qr_id rs) (map ?id cs)"
    using n(1) subseq_map [OF n(2), of ?id] by simp
  have "distinct (map qr_id rs)"
    using sub live_ids_distinct(1) [OF s cs] by (metis distinct_nthsI subseq_conv_nths)
  moreover have "vs_contains (db_store d) (qr_id x)" if "x \<in> set rs" for x
  proof -
    have "qr_id x \<in> set (map ?id cs)" using sub that by (force dest: list_emb_set)
    then show ?thesis using live_ids_distinct(2) [OF s cs] by auto
  qed
  ultimately show ?thesis using n(1,4,5) by (simp add: results_ok_def)
qed

lemma search_result:
  assumes inv: "db_inv d" and k: "0 < qo_k opt" and q: "validate_vector q (dc_dimension (db_config d)) = Inr ()" and a: "0 < asked d opt"
    and run: "db_search env q opt d = (r, d')"
  shows "\<exists>m v. d' = d\<lparr>db_scratch := v, db_metadata := m\<rparr> \<and> vst_inv v \<and>
    (r = Inl MetadataError \<or> (\<exists>rs. r = Inr rs \<and> results_ok d opt rs))"
proof -
  obtain cs v where c: "search_candidates env q opt d = (Inr cs, d\<lparr>db_scratch := v\<rparr>)"
    "sound_results (vs_accessor (db_store d)) (asked d opt) cs" "vst_inv v"
    using candidates_sound [OF inv validate_length [OF q] a] by blast
  have s: "vs_inv (db_store d)" using inv by (simp add: db_inv_def)
  have run2: "collect_results env opt cs [] (d\<lparr>db_scratch := v\<rparr>) = (r, d')"
    using run c(1) k q by (simp add: db_search_def db_read_def abind_def aguard_def)
  have b: "\<forall>c\<in>set cs. local_id c < length (vs_local_to_id (db_store (d\<lparr>db_scratch := v\<rparr>)))"
    using c(2) s by (auto simp: sound_results_def vs_inv_def)
  from collect_sound [OF b run2]
  obtain m where d': "d' = d\<lparr>db_scratch := v, db_metadata := m\<rparr>"
    and e: "r = Inl MetadataError \<or> (\<exists>rs. r = Inr rs \<and> collected (d\<lparr>db_scratch := v\<rparr>) opt cs [] rs)" by auto
  show ?thesis
  proof (intro exI conjI)
    show "d' = d\<lparr>db_scratch := v, db_metadata := m\<rparr>" by (rule d')
    show "vst_inv v" by (rule c(3))
    show "r = Inl MetadataError \<or> (\<exists>rs. r = Inr rs \<and> results_ok d opt rs)"
      using e collected_results [OF s c(2)] by (metis collected_scratch)
  qed
qed

end
