(* ===== verification/Vdb_FileFrame.thy ===== *)
theory Vdb_FileFrame
  imports Vdb_FileIO
begin

text \<open>
  What the file layer leaves alone: replacing one file keeps every other name, directories stay well formed,
  and a mapping shows the file's contents or fails.
\<close>

lemma names_cong: "w_dir w' = w_dir w \<Longrightarrow> w_next w' = w_next w \<Longrightarrow> world_ok w' = world_ok w"
  by (simp add: world_ok_def)

lemma create_names: "sys_create p w = (r, w') \<Longrightarrow> world_ok w \<Longrightarrow> world_ok w'"
  unfolding sys_create_def
proof (elim sys_call_cases)
  fix sh os st
  assume ok: "world_ok w" and f: "(case w_dir (w\<lparr>w_outcomes := os, w_stopped := st\<rparr>) p of
        None \<Rightarrow> sys_open_fd (w_next (w\<lparr>w_outcomes := os, w_stopped := st\<rparr>))
          (w\<lparr>w_outcomes := os, w_stopped := st,
             w_dir := (w_dir (w\<lparr>w_outcomes := os, w_stopped := st\<rparr>))(p \<mapsto> w_next (w\<lparr>w_outcomes := os, w_stopped := st\<rparr>)),
             w_data := (w_data (w\<lparr>w_outcomes := os, w_stopped := st\<rparr>))(w_next (w\<lparr>w_outcomes := os, w_stopped := st\<rparr>) := []),
             w_data_disk := (w_data_disk (w\<lparr>w_outcomes := os, w_stopped := st\<rparr>))(w_next (w\<lparr>w_outcomes := os, w_stopped := st\<rparr>) := None),
             w_next := w_next (w\<lparr>w_outcomes := os, w_stopped := st\<rparr>) + 1\<rparr>)
      | Some i \<Rightarrow> sys_open_fd i
          (w\<lparr>w_outcomes := os, w_stopped := st,
             w_data := (w_data (w\<lparr>w_outcomes := os, w_stopped := st\<rparr>))(i := []),
             w_data_disk := (w_data_disk (w\<lparr>w_outcomes := os, w_stopped := st\<rparr>))(i := None)\<rparr>)) = (r, w')"
  show "world_ok w'"
  proof (cases "w_dir w p")
    case None
    have lt: "w_dir w q = Some i \<Longrightarrow> i < w_next w" for q i using ok by (auto simp: world_ok_def)
    have fresh: "w_dir w q \<noteq> Some (w_next w)" for q using lt [of q] by force
    have w': "w_dir w' = (w_dir w)(p \<mapsto> w_next w)" "w_next w' = Suc (w_next w)" using f None by (auto simp: sys_open_fd_def)
    show ?thesis unfolding world_ok_def w' using ok lt fresh by (auto simp: world_ok_def less_Suc_eq split: if_splits)
  next
    case (Some i)
    then have "w_dir w' = w_dir w" "w_next w' = w_next w" using f by (auto simp: sys_open_fd_def)
    then show ?thesis using ok names_cong by blast
  qed
qed (simp add: world_ok_def)

lemma visible_cong: "w_data w' = w_data w \<Longrightarrow> w_dir w' = w_dir w \<Longrightarrow> visible w' = visible w"
  by (simp add: visible_def [abs_def])

lemma visible_outcomes [simp]: "visible (w\<lparr>w_outcomes := os, w_stopped := st\<rparr>) = visible w"
  "visible (w\<lparr>w_outcomes := os, w_stopped := st, w_dir_disk := dd\<rparr>) = visible w"
  "q \<noteq> p \<Longrightarrow> q \<noteq> p' \<Longrightarrow> visible (w\<lparr>w_outcomes := os, w_stopped := st, w_dir := (w_dir w)(p := a, p' := b)\<rparr>) q = visible w q"
  "q \<noteq> p \<Longrightarrow> visible (w\<lparr>w_outcomes := os, w_stopped := st, w_dir := (w_dir w)(p := a)\<rparr>) q = visible w q"
  by (simp_all add: visible_def [abs_def])

text \<open>Writing the temporary file keeps the names well formed; they are what creating it left.\<close>

lemma temporary_names:
  assumes "abind (or_io_error (sys_create tmp)) (\<lambda>fd. afinally
      (abind (write_chunks fd cs) (\<lambda>_. abind (fsync_or_throw fd) (\<lambda>_. or_io_error (sys_close fd))))
      (close_guard fd)) w = (r, w')" and ok: "world_ok w"
  shows "world_ok w'"
proof -
  obtain x w1 where c: "sys_create tmp w = (x, w1)" by fastforce
  have ok1: "world_ok w1" by (rule create_names [OF c ok])
  show ?thesis
  proof (cases x)
    case (Done fd)
    have ne: "CHR ''.'' # tmp \<noteq> tmp" by simp
    obtain j where j: "w_fds w1 fd = Some (j, length (w_data w1 j))"
      using sys_create_file(4) [OF c ok ne Done] by blast
    obtain r2 w2 where b: "abind (write_chunks fd cs) (\<lambda>_. abind (fsync_or_throw fd) (\<lambda>_. or_io_error (sys_close fd))) w1 = (r2, w2)"
      by fastforce
    have e: "w' = close_guard fd w2" using assms(1) c Done b by (auto simp: abind_step afinally_def or_io_error_def)
    have "only_file j w1 w'" using close_guard_file [of j w2 fd] filled(1) [OF b j] only_trans e by blast
    then show ?thesis using ok1 names_cong [of w' w1] by (simp add: only_file_def)
  qed (use assms(1) c ok1 in \<open>auto simp: abind_step or_io_error_def\<close>)
qed

lemma rename_names: "world_ok w \<Longrightarrow> w_dir w p = Some i \<Longrightarrow> p \<noteq> q \<Longrightarrow> world_ok (w\<lparr>w_dir := (w_dir w)(p := None, q \<mapsto> i)\<rparr>)"
  unfolding world_ok_def by (auto split: if_splits)

lemma unlink_names: "world_ok w \<Longrightarrow> world_ok (w\<lparr>w_dir := (w_dir w)(p := None)\<rparr>)"
  unfolding world_ok_def by (auto split: if_splits)

lemma names_outcomes [simp]: "world_ok (w\<lparr>w_outcomes := os, w_stopped := st\<rparr>) = world_ok w"
  "world_ok (w\<lparr>w_outcomes := os, w_stopped := st, w_dir_disk := dd\<rparr>) = world_ok w"
  "world_ok (w\<lparr>w_outcomes := os, w_stopped := st, w_dir := dir\<rparr>) = world_ok (w\<lparr>w_dir := dir\<rparr>)"
  by (simp_all add: world_ok_def)

lemma write_atomically_frame:
  assumes w: "write_file_atomically path cs w = (r, w')" and ok: "world_ok w"
  shows "world_ok w'" and "q \<noteq> path \<Longrightarrow> q \<noteq> path @ ''.tmp'' \<Longrightarrow> visible w' q = visible w q"
proof -
  let ?tmp = "path @ ''.tmp''"
  obtain r1 w1 where t: "abind (or_io_error (sys_create ?tmp)) (\<lambda>fd. afinally
      (abind (write_chunks fd cs) (\<lambda>_. abind (fsync_or_throw fd) (\<lambda>_. or_io_error (sys_close fd))))
      (close_guard fd)) w = (r1, w1)" by fastforce
  have n1: "world_ok w1" by (rule temporary_names [OF t ok])
  have v1: "visible w1 q = visible w q" if "q \<noteq> ?tmp" for q
    using temporary_written(1,3) [OF t ok that] by (cases "w_dir w q") (auto simp: visible_def)
  have "world_ok w' \<and> (q \<noteq> path \<longrightarrow> q \<noteq> ?tmp \<longrightarrow> visible w' q = visible w q)"
  proof (cases r1)
    case (Inl e)
    then have "w' = w1" using w t by (simp add: write_file_atomically_def Let_def abind_step)
    then show ?thesis using n1 v1 by simp
  next
    case (Inr u)
    have "path \<noteq> ?tmp" by simp
    then obtain j where j: "w_dir w1 ?tmp = Some j" using temporary_written(4) [OF t ok, of path] Inr by auto
    obtain x w2 where rn: "sys_rename ?tmp path w1 = (x, w2)" by fastforce
    then have w2: "(x = Failed \<or> x = Interrupted) \<and> (\<exists>os st. w2 = w1\<lparr>w_outcomes := os, w_stopped := st\<rparr>) \<or>
        (\<exists>os st. x = Done () \<and> w2 = w1\<lparr>w_outcomes := os, w_stopped := st, w_dir := (w_dir w1)(?tmp := None, path \<mapsto> j)\<rparr>)"
      unfolding sys_rename_def by (rule sys_call_cases) (use j in auto)
    have ok2: "world_ok (w1\<lparr>w_dir := (w_dir w1)(?tmp := None, path \<mapsto> j)\<rparr>)" by (rule rename_names [OF n1 j]) simp
    have n2: "world_ok w2" using w2 n1 ok2 names_outcomes(1,3) by metis
    have v2: "visible w2 q = visible w1 q" if "q \<noteq> path" "q \<noteq> ?tmp"
      using w2 visible_outcomes(3) [OF that(2,1)] visible_outcomes(1) by metis
    show ?thesis
    proof (cases "x = Done ()")
      case True
      then have fd: "fsync_directory w2 = (r, w')" using w t rn Inr by (simp add: write_file_atomically_def Let_def abind_step)
      then have "world_ok w' = world_ok w2 \<and> visible w' = visible w2"
        by (rule fsync_directory_cases) simp_all
      then show ?thesis using n2 v1 v2 by simp
    next
      case False
      obtain y w3 where u: "sys_unlink ?tmp w2 = (y, w3)" by fastforce
      then have w3: "(\<exists>os st. w3 = w2\<lparr>w_outcomes := os, w_stopped := st\<rparr>) \<or>
          (\<exists>os st. w3 = w2\<lparr>w_outcomes := os, w_stopped := st, w_dir := (w_dir w2)(?tmp := None)\<rparr>)"
        unfolding sys_unlink_def by (rule sys_call_cases) auto
      have "x = Failed \<or> x = Interrupted" using w2 False by auto
      then have "w' = w3" using w t rn Inr u by (auto simp: write_file_atomically_def Let_def abind_step)
      moreover have "world_ok w3" using w3 n2 unlink_names [OF n2] names_outcomes(1,3) by metis
      moreover have "visible w3 q = visible w2 q" if "q \<noteq> ?tmp" using w3 visible_outcomes(4) [OF that] visible_outcomes(1) by metis
      ultimately show ?thesis using v1 v2 by simp
    qed
  qed
  then show "world_ok w'" "q \<noteq> path \<Longrightarrow> q \<noteq> path @ ''.tmp'' \<Longrightarrow> visible w' q = visible w q" by blast+
qed

lemma write_atomically_visible:
  assumes "write_file_atomically path cs w = (Inr (), w')" and "world_ok w"
  shows "visible w' path = Some (concat cs)"
  using assms by (rule write_atomically_cases) (auto simp: visible_def)

lemma map_file_cases:
  assumes "map_file path w = (r, w')"
  shows "visible w' = visible w \<and> (r = Inl IoError \<or> (\<exists>bs. r = Inr bs \<and> visible w path = Some bs))"
proof -
  obtain x w1 where o: "sys_open path w = (x, w1)" by fastforce
  then have w1: "w_data w1 = w_data w \<and> w_dir w1 = w_dir w \<and>
      (\<forall>fd. x = Done fd \<longrightarrow> (\<exists>i. w_dir w path = Some i \<and> w_fds w1 fd = Some (i, 0)))"
    unfolding sys_open_def by (rule sys_call_cases) (auto simp: sys_open_fd_def split: option.splits)
  have v: "visible w1 = visible w" using w1 by (intro visible_cong) simp_all
  show ?thesis
  proof (cases x)
    case (Done fd)
    obtain i where i: "w_dir w path = Some i" "w_fds w1 fd = Some (i, 0)" using w1 Done by blast
    let ?read = "sys_call (\<lambda>_ w. case w_fds w fd of None \<Rightarrow> (Failed, w) | Some (i, _) \<Rightarrow> (Done (w_data w i), w))"
    obtain y w2 where s: "?read w1 = (y, w2)" by fastforce
    then have w2: "w_data w2 = w_data w1 \<and> w_dir w2 = w_dir w1 \<and> (\<forall>bs. y = Done bs \<longrightarrow> bs = w_data w i)"
      by (rule sys_call_cases) (use i w1 in auto)
    obtain q w3 where m: "abind (or_io_error ?read) (\<lambda>bs. if bs = [] then aret [] else or_io_error (sys_call (\<lambda>_ w. (Done bs, w)))) w1 = (q, w3)"
      by fastforce
    have w3: "w_data w3 = w_data w1 \<and> w_dir w3 = w_dir w1 \<and> (q = Inl IoError \<or> q = Inr (w_data w i))"
    proof (cases y)
      case y: (Done bs)
      obtain z w4 where z: "sys_call (\<lambda>_ w. (Done bs, w)) w2 = (z, w4)" by fastforce
      then have "w_data w4 = w_data w2 \<and> w_dir w4 = w_dir w2 \<and> (\<forall>b. z = Done b \<longrightarrow> b = bs)" by (rule sys_call_cases) auto
      then show ?thesis using m s y z w2 by (cases z) (auto simp: abind_def or_io_error_def split: if_splits)
    qed (use m s w2 in \<open>auto simp: abind_def or_io_error_def\<close>)
    have e: "r = q" "w' = close_guard fd w3"
      using assms o Done m by (auto simp: map_file_def abind_step or_io_error_def afinally_def)
    have "w_data w' = w_data w3" "w_dir w' = w_dir w3" using close_guard_file [of i w3 fd] unfolding e(2) only_file_def by auto
    then have "visible w' = visible w" using w3 w1 by (intro visible_cong) simp_all
    then show ?thesis using w3 i e(1) by (auto simp: visible_def)
  qed (use assms o v in \<open>auto simp: map_file_def abind_step or_io_error_def\<close>)
qed

end
