(* ===== verification/Vdb_DatabaseStart.thy ===== *)
theory Vdb_DatabaseStart
  imports Vdb_DatabaseSpec Vdb_FileFrame
begin

text \<open>
  Opening the files of a directory: when they are intact, the database object that \<^verbatim>\<open>open\<close> returns satisfies the
  invariant of the database, whatever the operating system and the metadata database answer on the way.
\<close>

section \<open>Loading a vector file\<close>

lemma appended_slot:
  assumes "vs_append_trusted s vid v nm live = Inr (i, s')"
    and "length (vs_live s) = vs_slot_count s" "length (vs_local_to_id s) = vs_slot_count s"
  shows "length (vs_live s') = vs_slot_count s'" "length (vs_local_to_id s') = vs_slot_count s'"
    and "live_ids s' = live_ids s @ (if live then [vid] else [])" and "vs_normalize s' = vs_normalize s"
proof -
  obtain a where a: "va_push_back (vs_vectors s) v = Inr (i, a)"
    and s': "vs_vectors s' = a" "vs_live s' = vs_live s @ [if live then 1 else 0]" "vs_local_to_id s' = vs_local_to_id s @ [vid]"
      "vs_normalize s' = vs_normalize s"
    using assms(1) by (auto simp: vs_append_trusted_def result_simps Let_def split: prod.splits if_splits)
  have n: "vs_slot_count s' = Suc (vs_slot_count s)"
    using a by (auto simp: va_push_back_def vs_slot_count_def Let_def s'(1) split: if_splits)
  then show "length (vs_live s') = vs_slot_count s'" "length (vs_local_to_id s') = vs_slot_count s'" "vs_normalize s' = vs_normalize s"
    using s' assms(2,3) by simp_all
  have "filter (vs_is_live s') [0..<vs_slot_count s] = filter (vs_is_live s) [0..<vs_slot_count s]"
    by (rule filter_cong) (use assms(2) in \<open>auto simp: vs_is_live_def s'(2) nth_append\<close>)
  moreover have "vs_is_live s' (vs_slot_count s) = live"
    using assms(2) by (simp add: vs_is_live_def s'(2) nth_append)
  ultimately show "live_ids s' = live_ids s @ (if live then [vid] else [])"
    using assms(3) by (auto simp: live_ids_def n s'(3) nth_append)
qed

lemma load_appends:
  "vf_load payload w slot n ids norms live s seen = Inr (s', seen') \<Longrightarrow> length (vs_live s) = vs_slot_count s \<Longrightarrow>
   length (vs_local_to_id s) = vs_slot_count s \<Longrightarrow> (\<exists>more. live_ids s' = live_ids s @ more) \<and> vs_normalize s' = vs_normalize s"
proof (induction payload w slot n ids norms live s seen rule: vf_load.induct)
  case (1 payload w slot n ids norms live s seen)
  show ?case
  proof (cases "slot < n")
    case True
    then obtain vid ids1 nm norms1 flag live1 i s1 where
      r: "get_u64 ids = Inr (vid, ids1)" "get_f32 norms = Inr (nm, norms1)" "get_u8 live = Inr (flag, live1)"
        "vs_append_trusted s vid (vf_row payload w slot) nm (flag \<noteq> 0) = Inr (i, s1)"
        "vf_load payload w (slot + 1) n ids1 norms1 live1 s1 (seen + (if flag \<noteq> 0 then 1 else 0)) = Inr (s', seen')"
      using "1.prems"(1) by (subst (asm) vf_load.simps) (auto simp: result_simps Let_def)
    note a = appended_slot [OF r(4) "1.prems"(2,3)]
    have "(\<exists>more. live_ids s' = live_ids s1 @ more) \<and> vs_normalize s' = vs_normalize s1"
      by (rule "1.IH" [OF True r(1) refl r(2) refl r(3) refl refl r(4) refl r(5) a(1,2)])
    then show ?thesis using a(3,4) by auto
  qed (use "1.prems"(1) in \<open>subst (asm) vf_load.simps, auto\<close>)
qed

text \<open>Loading keeps the store's invariant when no id of the file is live twice.\<close>

lemma load_keeps:
  "vf_load payload w slot n ids norms live s seen = Inr (s', seen') \<Longrightarrow> vs_inv s \<Longrightarrow> distinct (live_ids s') \<Longrightarrow>
   vs_inv s' \<and> vs_dimension s' = vs_dimension s"
proof (induction payload w slot n ids norms live s seen rule: vf_load.induct)
  case (1 payload w slot n ids norms live s seen)
  have len: "length (vs_live s) = vs_slot_count s" "length (vs_local_to_id s) = vs_slot_count s" using "1.prems"(2) by (simp_all add: vs_inv_def)
  show ?case
  proof (cases "slot < n")
    case True
    then obtain vid ids1 nm norms1 flag live1 i s1 where
      r: "get_u64 ids = Inr (vid, ids1)" "get_f32 norms = Inr (nm, norms1)" "get_u8 live = Inr (flag, live1)"
        "vs_append_trusted s vid (vf_row payload w slot) nm (flag \<noteq> 0) = Inr (i, s1)"
        "vf_load payload w (slot + 1) n ids1 norms1 live1 s1 (seen + (if flag \<noteq> 0 then 1 else 0)) = Inr (s', seen')"
      using "1.prems"(1) by (subst (asm) vf_load.simps) (auto simp: result_simps Let_def)
    note a = appended_slot [OF r(4) len]
    obtain more where "live_ids s' = live_ids s1 @ more" using load_appends [OF r(5) a(1,2)] by blast
    then have "flag \<noteq> 0 \<Longrightarrow> vid \<notin> set (live_ids s)" using a(3) "1.prems"(3) by auto
    moreover have "vs_abs s vid \<noteq> None \<Longrightarrow> vid \<in> set (live_ids s)"
      using "1.prems"(2) by (auto simp: vs_abs_def vs_inv_def live_ids_def live_slots_def image_iff split: option.splits)
    ultimately have fresh: "flag \<noteq> 0 \<Longrightarrow> vs_abs s vid = None" by blast
    note o = vs_append_trusted_ok [OF "1.prems"(2) r(4) fresh]
    have "vs_inv s' \<and> vs_dimension s' = vs_dimension s1"
      by (rule "1.IH" [OF True r(1) refl r(2) refl r(3) refl refl r(4) refl r(5) o(1) "1.prems"(3)])
    then show ?thesis using o(5) by simp
  qed (use "1.prems" in \<open>subst (asm) vf_load.simps, auto\<close>)
qed

lemma read_store_inv:
  assumes "read_vector_file bytes = Inr s" and "distinct (live_ids s)"
  shows "vs_inv s"
proof -
  obtain h s0 seen where n: "vs_new (unat (vh_dimension h)) (vh_normalized h) = Inr s0"
    and l: "vf_load (drop (unat (vh_payload_offset h)) bytes) (unat (vh_dimension h)) 0 (unat (vh_slot_count h))
              (rd_new (subspan bytes (vh_ids_offset h) (vh_slot_count h * 8)))
              (rd_new (subspan bytes (vh_norms_offset h) (vh_slot_count h * 4)))
              (rd_new (subspan bytes (vh_live_offset h) (vh_slot_count h))) s0 0 = Inr (s, seen)"
    using assms(1) unfolding read_vector_file_def by (auto simp: result_simps split: if_splits)
  show ?thesis using load_keeps [OF l _ assms(2)] vs_new_ok [OF n] by simp
qed

lemma inv_live_ids: "vs_inv s \<Longrightarrow> distinct (live_ids s)"
proof -
  assume "vs_inv s"
  then have "inj_on (\<lambda>i. vs_local_to_id s ! i) {i. i < vs_slot_count s \<and> vs_is_live s i}"
    unfolding vs_inv_def live_slots_def inj_on_def by (metis (mono_tags, lifting) mem_Collect_eq option.inject)
  then show ?thesis by (simp add: live_ids_def distinct_map conj_commute)
qed

section \<open>Intact files\<close>

text \<open>What the index file may hold: an index that fits, or bytes the reader calls corrupt.\<close>

definition index_file_ok :: "'db env \<Rightarrow> string \<Rightarrow> database_config \<Rightarrow> vector_store \<Rightarrow> (string \<Rightarrow> byte list option) \<Rightarrow> bool" where
  "index_file_ok env dir c s W \<longleftrightarrow> (\<forall>bytes. W (index_file_path dir) = Some bytes \<longrightarrow>
     (case read_hnsw_file bytes (vs_accessor s) (dc_metric c) (dc_dimension c) (en_kernel env) of
        Inl e \<Rightarrow> is_corruption e
      | Inr h \<Rightarrow> hn_good h (vs_slot_count s) \<and> hn_accessor h = vs_accessor s \<and> hn_metric h = dc_metric c \<and> hn_config h = dc_hnsw c))"

text \<open>
  The files a database of configuration \<open>c\<close> may be opened from: in the store they hold no id is live twice, it is
  normalised or not as the configuration says, and the index file, if there is one, is as above. Checksums, sizes and
  the dimension need no mention: the readers check them.
\<close>

definition file_store :: "string \<Rightarrow> database_config \<Rightarrow> (string \<Rightarrow> byte list option) \<Rightarrow> vector_store result" where
  "file_store dir c W = (case W (vector_file_path dir) of
     None \<Rightarrow> vs_new (dc_dimension c) (dc_normalize c) | Some bytes \<Rightarrow> read_vector_file bytes)"

definition files_intact :: "'db env \<Rightarrow> string \<Rightarrow> database_config \<Rightarrow> (string \<Rightarrow> byte list option) \<Rightarrow> bool" where
  "files_intact env dir c W \<longleftrightarrow> (\<forall>s. file_store dir c W = Inr s \<longrightarrow>
     distinct (live_ids s) \<and> vs_normalize s = dc_normalize c \<and> (dc_index_type c = Hnsw \<longrightarrow> index_file_ok env dir c s W))"

lemma file_store_inv: "file_store dir c W = Inr s \<Longrightarrow> distinct (live_ids s) \<Longrightarrow> vs_inv s"
  using read_store_inv vs_new_ok by (auto simp: file_store_def split: option.splits)

lemma exists_visible: "file_exists p w \<longleftrightarrow> visible w p \<noteq> None"
  by (simp add: file_exists_def visible_def)

section \<open>Opening them\<close>

text \<open>What only reads the metadata leaves the files as they are.\<close>

lemma open_config_files: "open_config env k mw = (r, mw') \<Longrightarrow> snd mw' = snd mw"
  by (cases mw) (auto simp: open_config_def azoom_def split: prod.splits)

lemma open_u64_files: "open_u64 env k mw = (r, mw') \<Longrightarrow> snd mw' = snd mw"
  using open_config_files [of env k mw] by (auto simp: open_u64_def abind_def split: prod.splits sum.splits)

lemma read_config_ok:
  assumes "read_config env mw = (Inr c, mw')"
  shows "snd mw' = snd mw \<and> dc_validate c = Inr ()"
  using assms unfolding read_config_def Let_def
  by (auto simp: act_inv split: option.splits dest!: open_u64_files open_config_files)

lemma open_store_read:
  assumes "open_store dir c mw = (Inr s, mw')"
  shows "visible (snd mw') = visible (snd mw) \<and> file_store dir c (visible (snd mw)) = Inr s"
proof (cases "visible (snd mw) (vector_file_path dir)")
  case None
  then show ?thesis using assms by (auto simp: open_store_def exists_visible file_store_def)
next
  case (Some bs)
  obtain bytes w where m: "map_file (vector_file_path dir) (snd mw) = (Inr bytes, w)" "read_vector_file bytes = Inr s" "snd mw' = w"
    using assms Some by (cases mw) (auto simp: open_store_def exists_visible act_inv open_files_def azoom_def split: prod.splits)
  then show ?thesis using map_file_cases [OF m(1)] Some by (auto simp: file_store_def)
qed

lemma load_index_read:
  assumes "load_index env dir c s mw = (Inr l, mw')" and "l = Some h"
  shows "\<exists>bytes. visible (snd mw) (index_file_path dir) = Some bytes \<and> dc_index_type c = Hnsw \<and>
     read_hnsw_file bytes (vs_accessor s) (dc_metric c) (dc_dimension c) (en_kernel env) = Inr h"
proof -
  obtain bytes w where m: "map_file (index_file_path dir) (snd mw) = (Inr bytes, w)" "dc_index_type c = Hnsw"
    "read_hnsw_file bytes (vs_accessor s) (dc_metric c) (dc_dimension c) (en_kernel env) = Inr h"
    using assms by (cases mw) (auto simp: load_index_def acatch_def abind_def open_files_def azoom_def split: prod.splits sum.splits if_splits)
  then show ?thesis using map_file_cases [OF m(1)] by auto
qed

lemma fst_is: "fst p = x \<longleftrightarrow> (\<exists>y. p = (x, y))"
  by (cases p) simp

text \<open>The way through \<^verbatim>\<open>open\<close>: the configuration, the store of the files, and an index that was read or built.\<close>

lemma open_shape:
  assumes "db_open env dir host = Inr d"
  obtains "dc_validate (db_config d) = Inr ()" "file_store dir (db_config d) (visible (ho_world host)) = Inr (db_store d)"
    "vs_dimension (db_store d) = dc_dimension (db_config d)"
    "(\<exists>h bytes. db_index d = HnswIndex h \<and> db_scratch d = ho_scratch host \<and> dc_index_type (db_config d) = Hnsw \<and>
        visible (ho_world host) (index_file_path dir) = Some bytes \<and>
        read_hnsw_file bytes (vs_accessor (db_store d)) (dc_metric (db_config d)) (dc_dimension (db_config d)) (en_kernel env) = Inr h) \<or>
     built_index env (db_config d) (db_store d) (ho_scratch host) = Inr (db_index d, db_scratch d)"
proof -
  let ?W = "visible (ho_world host)" and ?vc = "azoom fst (\<lambda>m (_, w). (m, w)) (ms_vector_count (en_sqlite env))"
  have vc: "?vc mw = (r, mw') \<Longrightarrow> snd mw' = snd mw" for mw r mw'
    by (cases mw) (auto simp: azoom_def split: prod.splits)
  obtain m c mw1 s mw2 t mw3 vs mw5 l mw6 ix sc where
    rc: "read_config env (m, ho_world host) = (Inr c, mw1)" and os: "open_store dir c mw1 = (Inr s, mw2)"
    and dim: "vs_dimension s = dc_dimension c" and t: "open_config env kKeyNextId mw2 = (Inr t, mw3)"
    and v: "?vc mw3 = (Inr vs, mw5)" and l: "load_index env dir c s mw5 = (Inr l, mw6)"
    and ix: "(case l of Some ix \<Rightarrow> Inr (HnswIndex ix, ho_scratch host) | None \<Rightarrow> built_index env c s (ho_scratch host)) = Inr (ix, sc)"
    and d: "db_config d = c" "db_store d = s" "db_index d = ix" "db_scratch d = sc"
    using assms unfolding db_open_def
    by (auto simp: rbind_Inr_iff guard_throw_Inr_iff act_inv fst_is split: prod.splits)
  note rc' = read_config_ok [OF rc] and os' = open_store_read [OF os]
  have w: "visible (snd mw5) = ?W" using rc' os' open_config_files [OF t] vc [OF v] by simp
  show thesis
  proof (rule that)
    show "dc_validate (db_config d) = Inr ()" "file_store dir (db_config d) ?W = Inr (db_store d)"
      "vs_dimension (db_store d) = dc_dimension (db_config d)" using rc' os' dim d by simp_all
    show "(\<exists>h bytes. db_index d = HnswIndex h \<and> db_scratch d = ho_scratch host \<and> dc_index_type (db_config d) = Hnsw \<and>
        ?W (index_file_path dir) = Some bytes \<and>
        read_hnsw_file bytes (vs_accessor (db_store d)) (dc_metric (db_config d)) (dc_dimension (db_config d)) (en_kernel env) = Inr h) \<or>
     built_index env (db_config d) (db_store d) (ho_scratch host) = Inr (db_index d, db_scratch d)"
      using load_index_read [OF l] ix d w by (cases l) auto
  qed
qed

lemma open_inv:
  assumes v: "vst_inv (ho_scratch host)" and o: "db_open env dir host = Inr d"
    and f: "files_intact env dir (db_config d) (visible (ho_world host))"
    and room: "room_for (db_config d) (vs_slot_count (db_store d))"
  shows "db_inv d"
  using o
proof (rule open_shape)
  let ?c = "db_config d" and ?s = "db_store d"
  assume c: "dc_validate ?c = Inr ()" and fs: "file_store dir ?c (visible (ho_world host)) = Inr ?s"
    and dim: "vs_dimension ?s = dc_dimension ?c"
    and ix: "(\<exists>h bytes. db_index d = HnswIndex h \<and> db_scratch d = ho_scratch host \<and> dc_index_type ?c = Hnsw \<and>
        visible (ho_world host) (index_file_path dir) = Some bytes \<and>
        read_hnsw_file bytes (vs_accessor ?s) (dc_metric ?c) (dc_dimension ?c) (en_kernel env) = Inr h) \<or>
     built_index env ?c ?s (ho_scratch host) = Inr (db_index d, db_scratch d)"
  have s: "vs_inv ?s" "vs_normalize ?s = dc_normalize ?c" and iok: "dc_index_type ?c = Hnsw \<Longrightarrow> index_file_ok env dir ?c ?s (visible (ho_world host))"
    using f fs file_store_inv [OF fs] by (simp_all add: files_intact_def)
  have "ix_good (db_index d) (vs_slot_count ?s) \<and> ix_accessor (db_index d) = vs_accessor ?s \<and>
    ix_info (db_index d) = (dc_metric ?c, if dc_index_type ?c = Hnsw then Some (dc_hnsw ?c) else None) \<and> vst_inv (db_scratch d)"
    using ix
  proof (elim disjE exE conjE)
    assume "built_index env ?c ?s (ho_scratch host) = Inr (db_index d, db_scratch d)"
    then show ?thesis using built_index_ok [OF s(1) c v room, of env] by auto
  qed (use iok v in \<open>auto simp: index_file_ok_def ix_defs\<close>)
  then show ?thesis using s c dim by (simp add: db_inv_def)
qed

end
