(* ===== verification/Vdb_DatabaseRun.thy ===== *)
theory Vdb_DatabaseRun
  imports Vdb_DatabaseStart
begin

text \<open>
  The database as a transition system: one step per call of its interface, ending normally or by an exception,
  from a database that \<^verbatim>\<open>create\<close> made or that \<^verbatim>\<open>open\<close> found in intact files. The invariant of every reachable state, and what it means for searches,
  for the ids and for compaction.
\<close>

section \<open>Steps\<close>

text \<open>
  One call. Those that can add a slot need an index whose next link offset fits its 32 bits, which is what the code needs;
  those that build the graph anew need room for the largest levels that can be drawn (\<open>db_room\<close>).
\<close>

inductive db_step :: "'db env \<Rightarrow> 'db database \<Rightarrow> 'db database \<Rightarrow> bool" for env where
  step_insert: "ix_room (db_index d) \<Longrightarrow> db_insert env vid v md d = (r, d') \<Longrightarrow> db_step env d d'"
| step_insert_auto: "ix_room (db_index d) \<Longrightarrow> db_insert_auto env v md d = (ra, d') \<Longrightarrow> db_step env d d'"
| step_upsert: "ix_room (db_index d) \<Longrightarrow> db_upsert env vid v md d = (r, d') \<Longrightarrow> db_step env d d'"
| step_remove: "db_remove env vid d = (rb, d') \<Longrightarrow> db_step env d d'"
| step_set_metadata: "db_set_metadata env vid md d = (r, d') \<Longrightarrow> db_step env d d'"
| step_get: "db_get env vid d = (rg, d') \<Longrightarrow> db_step env d d'"
| step_search: "db_search env q opt d = (rs, d') \<Longrightarrow> db_step env d d'"
| step_batch_search: "db_batch_search env qs opt d = (rl, d') \<Longrightarrow> db_step env d d'"
| step_filter_ids: "db_filter_ids env f d = (ri, d') \<Longrightarrow> db_step env d d'"
| step_flush: "db_flush env d = (r, d') \<Longrightarrow> db_step env d d'"
| step_rebuild: "db_room d \<Longrightarrow> db_rebuild_index env d = (r, d') \<Longrightarrow> db_step env d d'"
| step_compact: "db_room d \<Longrightarrow> db_compact env d = (rn, d') \<Longrightarrow> db_step env d d'"
| step_check: "db_check env deep d = (rc, d') \<Longrightarrow> db_step env d d'"
| step_stats: "db_get_stats env d = (rt, d') \<Longrightarrow> db_step env d d'"

inductive_cases db_stepE: "db_step env d d'"

inductive db_reach :: "'db env \<Rightarrow> 'db database \<Rightarrow> bool" for env where
  reach_create: "vst_inv (ho_scratch host) \<Longrightarrow> db_create env dir c host = Inr (r, d) \<Longrightarrow> db_reach env d"
| reach_open: "vst_inv (ho_scratch host) \<Longrightarrow> db_open env dir host = Inr d \<Longrightarrow> files_intact env dir (db_config d) (visible (ho_world host)) \<Longrightarrow>
    room_for (db_config d) (vs_slot_count (db_store d)) \<Longrightarrow> db_reach env d"
| reach_step: "db_reach env d \<Longrightarrow> db_step env d d' \<Longrightarrow> db_reach env d'"

section \<open>The invariant\<close>

lemma keeps_update_read: "(\<And>d. keeps P (f d)) \<Longrightarrow> keeps P (db_read f)"
  by (simp add: keeps_def db_read_def)

lemma search_no_k:
  assumes inv: "db_inv d" and a: "asked d opt = 0"
  shows "search_candidates env q opt d = (Inl InvalidArgumentError, d)"
proof (cases "use_exact d opt")
  case True
  then show ?thesis using a by (simp add: search_candidates_def asked_def bf_search_errors(1))
next
  case False
  have "ix_search (db_index d) q \<lparr>sp_k = 0, sp_ef_search = qo_ef_search opt\<rparr> (db_scratch d) = Inl InvalidArgumentError"
    by (cases "db_index d") (simp_all add: ix_search_def bf_search_errors(1) hn_search_def)
  then show ?thesis using False a by (simp add: search_candidates_def asked_def)
qed

lemma search_keeps:
  assumes inv: "db_inv d"
  shows "db_inv (snd (db_search env q opt d))"
proof (cases "0 < qo_k opt \<and> validate_vector q (dc_dimension (db_config d)) = Inr () \<and> 0 < asked d opt")
  case True
  obtain r d' where run: "db_search env q opt d = (r, d')" by fastforce
  from search_result [OF inv _ _ _ run] True show ?thesis using inv run by (auto simp: db_inv_def)
next
  case False
  then show ?thesis using inv search_no_k [OF inv, of opt env q]
    by (auto simp: db_search_def db_read_def abind_def aguard_def split: sum.split)
qed

lemma batch_search_keeps: "keeps db_inv (db_batch_search env qs opt)"
proof (induction qs)
  case (Cons q qs)
  have "keeps db_inv (db_search env q opt)" by (simp add: keeps_def search_keeps)
  with Cons.IH show ?case unfolding db_batch_search.simps by (intro keeps_abind keeps_intros)
qed (simp add: keeps_def)

lemma get_keeps: "keeps db_inv (db_get env vid)"
  unfolding db_get_def by (intro keeps_update_read) (auto split: option.split)

lemma filter_ids_keeps: "keeps db_inv (db_filter_ids env f)"
  unfolding db_filter_ids_def by (intro keeps_update_read) auto

lemma check_keeps: "keeps db_inv (db_check env deep)"
  unfolding db_check_def by (intro keeps_update_read) auto

lemma stats_keeps: "keeps db_inv (db_get_stats env)"
  unfolding db_get_stats_def by (intro keeps_update_read keeps_abind keeps_on keeps_intros)

lemma insert_auto_keeps: "db_inv d \<Longrightarrow> ix_room (db_index d) \<Longrightarrow> db_inv (snd (db_insert_auto env v md d))"
  using insert_keeps [of d env "db_next_auto_id d" v md]
  by (auto simp: db_insert_auto_def db_read_def abind_def split: prod.split sum.split)

lemmas operations_keep = insert_keeps insert_auto_keeps upsert_keeps remove_keeps search_keeps rebuild_keeps compact_keeps
  set_metadata_keeps [unfolded keeps_def, rule_format] get_keeps [unfolded keeps_def, rule_format]
  filter_ids_keeps [unfolded keeps_def, rule_format] flush_keeps [unfolded keeps_def, rule_format]
  batch_search_keeps [unfolded keeps_def, rule_format] check_keeps [unfolded keeps_def, rule_format] stats_keeps [unfolded keeps_def, rule_format]

lemma step_keeps: "db_step env d d' \<Longrightarrow> db_inv d \<Longrightarrow> db_inv d'"
  by (elim db_stepE) (metis operations_keep snd_conv)+

text \<open>A flush changes the files, the metadata connection and the flag only.\<close>

definition flushed_from :: "'db database \<Rightarrow> 'db database \<Rightarrow> bool" where
  "flushed_from d d' \<longleftrightarrow> d'\<lparr>db_metadata := db_metadata d, db_world := db_world d, db_dirty := db_dirty d\<rparr> = d"

lemma flushed_steps:
  "flushed_from d d" "keeps (flushed_from d) (on_metadata m)" "keeps (flushed_from d) (on_files f)"
  "keeps (flushed_from d) (db_update (\<lambda>d. d\<lparr>db_dirty := b\<rparr>))"
  by (simp_all add: keeps_def flushed_from_def on_metadata_step on_files_step db_update_def)

lemma flushed_fields:
  assumes "flushed_from d d'"
  shows "db_config d' = db_config d" "db_store d' = db_store d" "db_index d' = db_index d" "db_directory d' = db_directory d"
    "db_next_auto_id d' = db_next_auto_id d" "db_has_metadata d' = db_has_metadata d" "db_scratch d' = db_scratch d"
proof -
  note e = assms [unfolded flushed_from_def, THEN arg_cong]
  show "db_config d' = db_config d" "db_store d' = db_store d" "db_index d' = db_index d" "db_directory d' = db_directory d"
    "db_next_auto_id d' = db_next_auto_id d" "db_has_metadata d' = db_has_metadata d" "db_scratch d' = db_scratch d"
    using e [of db_config] e [of db_store] e [of db_index] e [of db_directory] e [of db_next_auto_id] e [of db_has_metadata] e [of db_scratch]
    by simp_all
qed

lemma flush_frame: "flushed_from d (snd (db_flush env d))"
proof -
  let ?rest = "abind (on_files (write_vector_file (vector_file_path (db_directory d)) (db_store d))) (\<lambda>_.
       abind (if dc_index_type (db_config d) = Hnsw then
                (case db_index d of
                   HnswIndex h \<Rightarrow> on_files (write_hnsw_file (index_file_path (db_directory d)) h (dc_dimension (db_config d)))
                 | BruteIndex b \<Rightarrow> aret ())
              else aret ()) (\<lambda>_.
       abind (on_metadata (ms_set_config (en_sqlite env) kKeyNextId (show_nat (unat (db_next_auto_id d))))) (\<lambda>_.
       db_update (\<lambda>d. d\<lparr>db_dirty := False\<rparr>))))"
  have "keeps (flushed_from d) ?rest"
    by (intro keeps_abind flushed_steps) (auto split: vindex.split intro: flushed_steps)
  then have "flushed_from d (snd (?rest d))" using flushed_steps(1) unfolding keeps_def by blast
  moreover have "db_flush env d = (if \<not> db_dirty d then aret () else ?rest) d" by (simp only: db_flush_def db_read_def)
  ultimately show ?thesis using flushed_steps(1) by (cases "db_dirty d") (simp_all only: if_True if_False simp_thms act_simps snd_conv)
qed

text \<open>The object before the first flush, and what comes out of it.\<close>

definition created :: "string \<Rightarrow> database_config \<Rightarrow> 'db host \<Rightarrow> vector_store \<Rightarrow> 'db mstore \<Rightarrow> vindex \<Rightarrow> visited_set \<Rightarrow> 'db database" where
  "created dir c host s m ix scratch =
     \<lparr>db_directory = dir, db_config = c, db_store = s, db_metadata = m, db_index = ix, db_next_auto_id = 0,
      db_dirty = True, db_has_metadata = False, db_scratch = scratch, db_world = ho_world host\<rparr>"

lemma create_shape:
  assumes "db_create env dir c host = Inr (r, d)"
  obtains s m m' ix w where "dc_validate c = Inr ()" "vs_new (dc_dimension c) (dc_normalize c) = Inr s"
    "ms_open (en_sqlite env) (en_schema env) (ho_sqlite host) = Inr m" "persist_config (en_sqlite env) c 0 m = (Inr (), m')"
    "built_index env c s (ho_scratch host) = Inr (ix, w)"
    "db_flush env (created dir c host s m' ix w) = (r, d) \<or>
     (\<exists>e d1. r = Inl e \<and> db_flush env (created dir c host s m' ix w) = (Inl e, d1) \<and> d = db_destroy env d1)"
proof -
  obtain s m where s: "dc_validate c = Inr ()" "vs_new (dc_dimension c) (dc_normalize c) = Inr s"
    "ms_open (en_sqlite env) (en_schema env) (ho_sqlite host) = Inr m"
    and c2: "(case persist_config (en_sqlite env) c 0 m of
       (Inl e, _) \<Rightarrow> Inl e
     | (Inr _, m) \<Rightarrow>
         rbind (built_index env c s (ho_scratch host)) (\<lambda>(ix, scratch).
         Inr (case db_flush env (created dir c host s m ix scratch) of
                (Inr _, d) \<Rightarrow> (Inr (), d)
              | (Inl e, d) \<Rightarrow> (Inl e, db_destroy env d)))) = Inr (r, d)"
    using assms unfolding db_create_def created_def Let_def by (auto simp: result_simps)
  obtain m' where p: "persist_config (en_sqlite env) c 0 m = (Inr (), m')"
    and c3: "rbind (built_index env c s (ho_scratch host)) (\<lambda>(ix, scratch).
         Inr (case db_flush env (created dir c host s m' ix scratch) of
                (Inr _, d) \<Rightarrow> (Inr (), d)
              | (Inl e, d) \<Rightarrow> (Inl e, db_destroy env d))) = Inr (r, d)"
    using c2 by (auto split: prod.splits sum.splits)
  obtain ix w where b: "built_index env c s (ho_scratch host) = Inr (ix, w)" using c3 by (cases "built_index env c s (ho_scratch host)") auto
  obtain q d1 where f: "db_flush env (created dir c host s m' ix w) = (q, d1)" by fastforce
  show thesis by (rule that [OF s p b]) (use c3 b f in \<open>auto split: sum.splits\<close>)
qed

lemma new_store_empty: "vs_new n b = Inr s \<Longrightarrow> vs_slot_count s = 0"
  by (auto simp: vs_new_def va_new_def vs_slot_count_def result_simps split: if_splits)

lemma create_inv:
  assumes v: "vst_inv (ho_scratch host)" and c: "db_create env dir c host = Inr (r, d)"
  shows "db_inv d"
  using c
proof (rule create_shape)
  fix s m m' ix w
  assume ok: "dc_validate c = Inr ()" and s: "vs_new (dc_dimension c) (dc_normalize c) = Inr s"
    and b: "built_index env c s (ho_scratch host) = Inr (ix, w)"
    and f: "db_flush env (created dir c host s m' ix w) = (r, d) \<or>
     (\<exists>e d1. r = Inl e \<and> db_flush env (created dir c host s m' ix w) = (Inl e, d1) \<and> d = db_destroy env d1)"
  note o = vs_new_ok [OF s]
  have "room_for c (vs_slot_count s)" by (simp add: new_store_empty [OF s] room_for_def)
  with built_index_ok [OF _ ok v this, of env] o b
  have i: "db_inv (created dir c host s m' ix w)" using ok by (simp add: db_inv_def created_def)
  show ?thesis using f i flush_keeps [of env] unfolding keeps_def db_destroy_def by (metis snd_conv)
qed

lemma reach_inv: "db_reach env d \<Longrightarrow> db_inv d"
  by (induction rule: db_reach.induct) (auto intro: create_inv open_inv step_keeps)

section \<open>The database as two maps\<close>

text \<open>The metadata of every id, and a flag that is only off while there is none.\<close>

definition db_holds :: "('db \<Rightarrow> sql_content) \<Rightarrow> (u64 \<Rightarrow> metadata) \<Rightarrow> 'db database \<Rightarrow> bool" where
  "db_holds content g d \<longleftrightarrow> ms_rest content (db_metadata d) \<and> holds_metadata (content (ms_db (db_metadata d))) g \<and>
     (db_has_metadata d \<or> (\<forall>i. g i = []))"

definition db_rows :: "('db \<Rightarrow> sql_content) \<Rightarrow> 'db database \<Rightarrow> string \<Rightarrow> string option" where
  "db_rows content d = sc_config (content (ms_db (db_metadata d)))"

text \<open>Calls that write, without what they return.\<close>

datatype db_write = WInsert u64 vec metadata | WUpsert u64 vec metadata | WRemove u64 | WSetMetadata u64 metadata

fun run_write :: "'db env \<Rightarrow> db_write \<Rightarrow> ('db, unit) db_act" where
  "run_write env (WInsert vid v md) = db_insert env vid v md"
| "run_write env (WUpsert vid v md) = db_upsert env vid v md"
| "run_write env (WRemove vid) = abind (db_remove env vid) (\<lambda>_. aret ())"
| "run_write env (WSetMetadata vid md) = db_set_metadata env vid md"

fun write_metadata :: "db_write \<Rightarrow> metadata" where
  "write_metadata (WInsert _ _ md) = md"
| "write_metadata (WUpsert _ _ md) = md"
| "write_metadata (WRemove _) = []"
| "write_metadata (WSetMetadata _ md) = md"

text \<open>What they mean on a map of vectors and a map of metadata.\<close>

fun apply_write :: "bool \<Rightarrow> db_write \<Rightarrow> (u64 \<rightharpoonup> vec \<times> f32) \<times> (u64 \<Rightarrow> metadata) \<Rightarrow> (u64 \<rightharpoonup> vec \<times> f32) \<times> (u64 \<Rightarrow> metadata)" where
  "apply_write nrm (WInsert vid v md) (V, g) = (V(vid \<mapsto> stored_row nrm v), if md = [] then g else g(vid := md))"
| "apply_write nrm (WUpsert vid v md) (V, g) =
     (V(vid \<mapsto> stored_row nrm v), if V vid = None \<and> md = [] then g else g(vid := md))"
| "apply_write nrm (WRemove vid) (V, g) = (V(vid := None), if V vid = None then g else g(vid := []))"
| "apply_write nrm (WSetMetadata vid md) (V, g) = (V, g(vid := md))"

lemma set_holds:
  assumes "sqlite_laws sq content" "ms_rest content m" "holds_metadata (content (ms_db m)) g" "md_sorted md" "ms_set sq vid md m = (Inr (), m')"
  shows "ms_rest content m' \<and> holds_metadata (content (ms_db m')) (g(vid := md)) \<and> sc_config (content (ms_db m')) = sc_config (content (ms_db m))"
proof (cases "list_ex (\<lambda>(k, v). k = []) md")
  case True
  then show ?thesis using assms(5) by (simp add: ms_set_def abind_def)
next
  case False
  then have "\<forall>(k, v)\<in>set md. k \<noteq> []" by (auto simp: list_ex_iff)
  from ms_set_cases [OF assms(1,2) this assms(5)] show ?thesis using assms(3,4) by (auto simp: holds_metadata_def)
qed

lemma remove_holds:
  assumes "sqlite_laws sq content" "ms_rest content m" "holds_metadata (content (ms_db m)) g" "ms_remove sq vid m = (Inr b, m')"
  shows "ms_rest content m' \<and> holds_metadata (content (ms_db m')) (g(vid := [])) \<and> sc_config (content (ms_db m')) = sc_config (content (ms_db m))"
  using ms_remove_cases [OF assms(1,2,4)] assms(3) by (auto simp: holds_metadata_def md_sorted_def stored_rows_def fun_eq_iff)


lemma on_metadata_Inr [act_inv]:
  "on_metadata f d = (Inr x, d') \<longleftrightarrow> (\<exists>m. f (db_metadata d) = (Inr x, m) \<and> d' = d\<lparr>db_metadata := m\<rparr>)"
  by (auto simp: on_metadata_def azoom_def split: prod.split)

lemma db_update_Inr [act_inv]: "db_update f d = (Inr u, d') \<longleftrightarrow> d' = f d"
  by (auto simp: db_update_def)

lemma insert_refines:
  assumes laws: "sqlite_laws (en_sqlite env) content" and inv: "db_inv d" and room: "db_room d" and h: "db_holds content g d"
    and md: "md_sorted md" and run: "db_insert env vid v md d = (Inr (), d')"
  shows "vs_abs (db_store d') = (vs_abs (db_store d))(vid \<mapsto> stored_row (vs_normalize (db_store d)) v) \<and>
    vs_abs (db_store d) vid = None \<and> vs_normalize (db_store d') = vs_normalize (db_store d) \<and> db_config d' = db_config d \<and>
    vs_slot_count (db_store d') \<le> Suc (vs_slot_count (db_store d)) \<and> db_holds content (if md = [] then g else g(vid := md)) d' \<and> db_dirty d' \<and> db_rows content d' = db_rows content d"
proof -
  obtain i s where ins: "vs_insert (db_store d) vid v = Inr (i, s)"
    using run by (auto simp: db_insert_def db_read_def act_inv alift_def)
  obtain d1 where d1: "index_add env i (refresh_accessor (d\<lparr>db_store := s\<rparr>)) = (Inr (), d1)" "db_store d1 = s"
    "d1 = d\<lparr>db_store := s, db_index := db_index d1, db_scratch := db_scratch d1\<rparr>"
    using insert_steps [OF inv inv room ins, of env] by blast
  have f: "db_metadata d1 = db_metadata d" "db_has_metadata d1 = db_has_metadata d" "db_config d1 = db_config d"
    by (subst d1(3), simp)+
  have vs: "vs_inv (db_store d)" using inv by (simp add: db_inv_def)
  note o = vs_insert_ok [OF vs ins]
  let ?fin = "\<lambda>d. (if vid \<ge> db_next_auto_id d then d\<lparr>db_next_auto_id := vid + 1\<rparr> else d)\<lparr>db_dirty := True\<rparr>"
  have r: "abind (if md \<noteq> [] then
              abind (on_metadata (ms_set (en_sqlite env) vid md)) (\<lambda>_. db_update (\<lambda>d. d\<lparr>db_has_metadata := True\<rparr>))
            else aret ()) (\<lambda>_. db_update ?fin) d1 = (Inr (), d')"
    using run ins d1(1) by (simp add: db_insert_def db_read_def abind_def db_update_def)
  show ?thesis
  proof (cases "md = []")
    case True
    then have "d' = ?fin d1" using r by (simp add: abind_def db_update_def)
    then show ?thesis using True o d1(2) f h by (simp add: db_holds_def db_rows_def)
  next
    case False
    obtain m where m: "ms_set (en_sqlite env) vid md (db_metadata d) = (Inr (), m)" and d': "d' = ?fin (d1\<lparr>db_metadata := m, db_has_metadata := True\<rparr>)"
      using r False f by (auto simp: act_inv)
    have "ms_rest content m \<and> holds_metadata (content (ms_db m)) (g(vid := md)) \<and> sc_config (content (ms_db m)) = sc_config (content (ms_db (db_metadata d)))"
      using h set_holds [OF laws _ _ md m, of g] by (simp add: db_holds_def)
    then show ?thesis using False o d1(2) f d' by (simp add: db_holds_def db_rows_def)
  qed
qed

lemma contains_abs: "vs_contains s vid \<longleftrightarrow> vs_abs s vid \<noteq> None"
  by (auto simp: vs_contains_def vs_find_def vs_abs_def)

lemma upsert_refines:
  assumes laws: "sqlite_laws (en_sqlite env) content" and inv: "db_inv d" and room: "db_room d" and h: "db_holds content g d"
    and md: "md_sorted md" and run: "db_upsert env vid v md d = (Inr (), d')"
  shows "vs_abs (db_store d') = (vs_abs (db_store d))(vid \<mapsto> stored_row (vs_normalize (db_store d)) v) \<and>
    vs_normalize (db_store d') = vs_normalize (db_store d) \<and> db_config d' = db_config d \<and>
    vs_slot_count (db_store d') \<le> Suc (vs_slot_count (db_store d)) \<and> db_holds content (if vs_abs (db_store d) vid = None \<and> md = [] then g else g(vid := md)) d' \<and> db_dirty d' \<and>
    db_rows content d' = db_rows content d"
proof (cases "vs_contains (db_store d) vid")
  case False
  then have n: "vs_abs (db_store d) vid = None" by (simp add: contains_abs)
  have "db_insert env vid v md d = (Inr (), d')" using run False by (simp add: db_upsert_def db_read_def)
  from insert_refines [OF laws inv room h md this] show ?thesis using n by (simp split: if_splits)
next
  case True
  then obtain i where i: "vs_id_to_local (db_store d) vid = Some i" by (auto simp: vs_contains_def vs_find_def)
  obtain j s where up: "vs_upsert (db_store d) vid v = Inr (j, s)"
    using run True by (auto simp: db_upsert_def db_read_def act_inv alift_def)
  have vs: "vs_inv (db_store d)" using inv by (simp add: db_inv_def)
  note o = vs_upsert_existing [OF vs i up]
  let ?d1 = "refresh_accessor (d\<lparr>db_store := s\<rparr>)"
  obtain m where m: "ms_set (en_sqlite env) vid md (db_metadata d) = (Inr (), m)"
    and d': "d' = ?d1\<lparr>db_metadata := m, db_has_metadata := db_has_metadata d \<or> md \<noteq> [], db_dirty := True\<rparr>"
    using run True up
    by (auto simp: db_upsert_def db_read_def act_inv alift_def refresh_accessor_def)
  have "ms_rest content m \<and> holds_metadata (content (ms_db m)) (g(vid := md)) \<and> sc_config (content (ms_db m)) = sc_config (content (ms_db (db_metadata d)))"
    using h set_holds [OF laws _ _ md m, of g] by (simp add: db_holds_def)
  then show ?thesis using o d' h i by (auto simp: db_holds_def db_rows_def refresh_accessor_def vs_abs_def)
qed

lemma remove_refines:
  assumes laws: "sqlite_laws (en_sqlite env) content" and inv: "db_inv d" and h: "db_holds content g d"
    and run: "db_remove env vid d = (Inr b, d')"
  shows "vs_abs (db_store d') = (vs_abs (db_store d))(vid := None) \<and> b = (vs_abs (db_store d) vid \<noteq> None) \<and>
    vs_normalize (db_store d') = vs_normalize (db_store d) \<and> db_config d' = db_config d \<and>
    vs_slot_count (db_store d') \<le> Suc (vs_slot_count (db_store d)) \<and> db_holds content (if vs_abs (db_store d) vid = None then g else g(vid := [])) d' \<and> (d' = d \<or> db_dirty d') \<and>
    db_rows content d' = db_rows content d"
proof (cases "vs_find (db_store d) vid")
  case None
  then have "vs_abs (db_store d) vid = None" "d' = d" "\<not> b" using run by (simp_all add: db_remove_def db_read_def vs_find_def)
  then show ?thesis using h fun_upd_idem [of "vs_abs (db_store d)" vid None] by simp
next
  case (Some i)
  obtain c s where r: "vs_remove (db_store d) vid = (c, s)" by fastforce
  have vs: "vs_inv (db_store d)" using inv by (simp add: db_inv_def)
  note o = vs_remove_ok [OF vs r]
  let ?d1 = "refresh_accessor (d\<lparr>db_store := s\<rparr>)"
  let ?d2 = "?d1\<lparr>db_index := ix_remove (db_index ?d1) i\<rparr>"
  have "abind (on_metadata (ms_remove (en_sqlite env) vid)) (\<lambda>_. abind (db_update (\<lambda>d. d\<lparr>db_dirty := True\<rparr>)) (\<lambda>_. aret True)) ?d2 = (Inr b, d')"
    using run Some r by (simp add: db_remove_def db_read_def abind_def db_update_def)
  then obtain m c' where m: "ms_remove (en_sqlite env) vid (db_metadata d) = (Inr c', m)" and d': "d' = ?d2\<lparr>db_metadata := m, db_dirty := True\<rparr>" "b"
    by (auto simp: act_inv aret_def refresh_accessor_def)
  have "ms_rest content m \<and> holds_metadata (content (ms_db m)) (g(vid := [])) \<and> sc_config (content (ms_db m)) = sc_config (content (ms_db (db_metadata d)))"
    using h remove_holds [OF laws _ _ m, of g] by (simp add: db_holds_def)
  then show ?thesis using o d' h Some by (auto simp: db_holds_def db_rows_def refresh_accessor_def vs_abs_def vs_find_def)
qed

lemma set_metadata_refines:
  assumes laws: "sqlite_laws (en_sqlite env) content" and h: "db_holds content g d"
    and md: "md_sorted md" and run: "db_set_metadata env vid md d = (Inr (), d')"
  shows "db_store d' = db_store d \<and> vs_abs (db_store d) vid \<noteq> None \<and> db_config d' = db_config d \<and> db_holds content (g(vid := md)) d' \<and>
    db_rows content d' = db_rows content d \<and> db_dirty d' = db_dirty d \<and> db_index d' = db_index d \<and> db_next_auto_id d' = db_next_auto_id d"
proof -
  have c: "vs_contains (db_store d) vid" using run by (auto simp: db_set_metadata_def db_read_def split: if_splits)
  obtain m where m: "ms_set (en_sqlite env) vid md (db_metadata d) = (Inr (), m)"
    and d': "d' = d\<lparr>db_metadata := m, db_has_metadata := db_has_metadata d \<or> md \<noteq> []\<rparr>"
    using run c by (auto simp: db_set_metadata_def db_read_def act_inv)
  have "ms_rest content m \<and> holds_metadata (content (ms_db m)) (g(vid := md)) \<and> sc_config (content (ms_db m)) = sc_config (content (ms_db (db_metadata d)))"
    using h set_holds [OF laws _ _ md m, of g] by (simp add: db_holds_def)
  then show ?thesis using d' h c by (auto simp: db_holds_def db_rows_def contains_abs)
qed

lemma get_refines:
  assumes laws: "sqlite_laws (en_sqlite env) content" and h: "db_holds content g d" and run: "db_get env vid d = (Inr r, d')"
  shows "r = map_option (\<lambda>(v, _). \<lparr>sv_id = vid, sv_vector = v, sv_metadata = read_md (g vid)\<rparr>) (vs_abs (db_store d) vid) \<and>
    (\<exists>m. d' = d\<lparr>db_metadata := m\<rparr>) \<and> db_holds content g d'"
proof (cases "vs_find (db_store d) vid")
  case None
  then have r: "r = None" "d' = d" using run by (simp_all add: db_get_def db_read_def)
  have "\<exists>m. d' = d\<lparr>db_metadata := m\<rparr>" using r by (intro exI [of _ "db_metadata d"]) simp
  then show ?thesis using r None h by (simp add: vs_abs_def vs_find_def)
next
  case (Some i)
  obtain md m where m: "ms_get (en_sqlite env) vid (db_metadata d) = (Inr md, m)" and d': "d' = d\<lparr>db_metadata := m\<rparr>"
    and r: "r = Some \<lparr>sv_id = vid, sv_vector = va_view (vs_vectors (db_store d)) i, sv_metadata = md\<rparr>"
    using run Some by (auto simp: db_get_def db_read_def act_inv aret_def)
  have "md = read_md (g vid) \<and> ms_rest content m \<and> content (ms_db m) = content (ms_db (db_metadata d))"
    using ms_get_stored [OF laws _ _ _ m, of "g vid"] h by (auto simp: db_holds_def holds_metadata_def read_md_def)
  then show ?thesis using r d' Some h by (auto simp: db_holds_def vs_abs_def vs_find_def)
qed

lemma write_refines:
  assumes laws: "sqlite_laws (en_sqlite env) content" and inv: "db_inv d" and room: "db_room d" and h: "db_holds content g d"
    and md: "md_sorted (write_metadata w)" and run: "run_write env w d = (Inr (), d')"
    and ap: "apply_write (dc_normalize (db_config d)) w (vs_abs (db_store d), g) = (V', g')"
  shows "vs_abs (db_store d') = V' \<and> db_holds content g' d' \<and> db_config d' = db_config d \<and>
    vs_slot_count (db_store d') \<le> Suc (vs_slot_count (db_store d)) \<and> db_step env d d' \<and> db_rows content d' = db_rows content d \<and>
    (db_dirty d' \<or> db_store d' = db_store d \<and> db_next_auto_id d' = db_next_auto_id d \<and> db_dirty d' = db_dirty d)"
proof -
  have n: "vs_normalize (db_store d) = dc_normalize (db_config d)" using inv by (simp add: db_inv_def)
  show ?thesis
  proof (cases w)
    case (WInsert vid v m)
    have r: "db_insert env vid v m d = (Inr (), d')" using run WInsert by simp
    show ?thesis using insert_refines [OF laws inv room h _ r] step_insert [OF room_index [OF inv room] r] md ap n WInsert by auto
  next
    case (WUpsert vid v m)
    have r: "db_upsert env vid v m d = (Inr (), d')" using run WUpsert by simp
    show ?thesis using upsert_refines [OF laws inv room h _ r] step_upsert [OF room_index [OF inv room] r] md ap n WUpsert by auto
  next
    case (WRemove vid)
    then obtain b where r: "db_remove env vid d = (Inr b, d')" using run by (auto simp: act_inv aret_def)
    show ?thesis using remove_refines [OF laws inv h r] step_remove [OF r] ap WRemove by auto
  next
    case (WSetMetadata vid m)
    have r: "db_set_metadata env vid m d = (Inr (), d')" using run WSetMetadata by simp
    show ?thesis using set_metadata_refines [OF laws h _ r] step_set_metadata [OF r] md ap WSetMetadata by auto
  qed
qed

fun run_writes :: "'db env \<Rightarrow> db_write list \<Rightarrow> ('db, unit) db_act" where
  "run_writes env [] = aret ()"
| "run_writes env (w # ws) = abind (run_write env w) (\<lambda>_. run_writes env ws)"

lemma writes_refine:
  assumes laws: "sqlite_laws (en_sqlite env) content" and inv: "db_inv d" and h: "db_holds content g d"
    and room: "room_for (db_config d) (vs_slot_count (db_store d) + length ws)"
    and md: "\<forall>w\<in>set ws. md_sorted (write_metadata w)" and run: "run_writes env ws d = (Inr (), d')"
    and ap: "fold (apply_write (dc_normalize (db_config d))) ws (vs_abs (db_store d), g) = (V', g')"
  shows "vs_abs (db_store d') = V' \<and> db_holds content g' d' \<and> (db_step env)\<^sup>*\<^sup>* d d'"
  using inv h room md run ap
proof (induction ws arbitrary: d g)
  case Nil
  then show ?case by simp
next
  case (Cons w ws)
  obtain d1 where d1: "run_write env w d = (Inr (), d1)" "run_writes env ws d1 = (Inr (), d')"
    using Cons.prems(5) by (auto simp: act_inv)
  obtain V1 g1 where ap: "apply_write (dc_normalize (db_config d)) w (vs_abs (db_store d), g) = (V1, g1)" by fastforce
  have r: "db_room d" unfolding db_room_def by (rule room_mono [OF Cons.prems(3)]) simp
  have m: "md_sorted (write_metadata w)" using Cons.prems(4) by simp
  note o = write_refines [OF laws Cons.prems(1) r Cons.prems(2) m d1(1) ap]
  have i: "db_inv d1" using o step_keeps Cons.prems(1) by blast
  have room1: "room_for (db_config d1) (vs_slot_count (db_store d1) + length ws)"
    using o by (auto intro: room_mono [OF Cons.prems(3)])
  have ap1: "fold (apply_write (dc_normalize (db_config d1))) ws (vs_abs (db_store d1), g1) = (V', g')" using Cons.prems(6) ap o by simp
  have "vs_abs (db_store d') = V' \<and> db_holds content g' d' \<and> (db_step env)\<^sup>*\<^sup>* d1 d'"
    by (rule Cons.IH [OF i _ room1 _ d1(2) ap1]) (use o Cons.prems(4) in auto)
  then show ?case using o converse_rtranclp_into_rtranclp [of "db_step env" d d1 d'] by simp
qed

section \<open>Exact search\<close>

text \<open>The result that stands for a candidate, and whether the filter wants it.\<close>

definition found :: "'db database \<Rightarrow> query_options \<Rightarrow> (u64 \<Rightarrow> metadata) \<Rightarrow> candidate \<Rightarrow> query_result" where
  "found d opt g c =
     (let vid = vs_local_to_id (db_store d) ! local_id c in
      \<lparr>qr_id = vid, qr_score = score_from_rank_key (dc_metric (db_config d)) (key c),
       qr_metadata = (if qo_filter opt \<noteq> [] \<or> qo_include_metadata opt then read_md (g vid) else [])\<rparr>)"

definition wanted :: "'db database \<Rightarrow> query_options \<Rightarrow> (u64 \<Rightarrow> metadata) \<Rightarrow> candidate \<Rightarrow> bool" where
  "wanted d opt g c \<longleftrightarrow> filter_matches (qo_filter opt) (read_md (g (vs_local_to_id (db_store d) ! local_id c)))"

lemma found_store [simp]: "found (d\<lparr>db_metadata := m\<rparr>) = found d" "wanted (d\<lparr>db_metadata := m\<rparr>) = wanted d"
  "found (d\<lparr>db_scratch := v\<rparr>) = found d" "wanted (d\<lparr>db_scratch := v\<rparr>) = wanted d"
  by (simp_all add: found_def [abs_def] wanted_def [abs_def])

lemma collect_exact:
  assumes laws: "sqlite_laws (en_sqlite env) content" and h: "db_holds content g d"
    and b: "\<forall>c\<in>set cs. local_id c < length (vs_local_to_id (db_store d))" and run: "collect_results env opt cs res d = (Inr rs, d')"
    and res: "length res \<le> qo_k opt"
  shows "rs = res @ map (found d opt g) (take (qo_k opt - length res) (filter (wanted d opt g) cs))"
  using h b run res
proof (induction cs arbitrary: res d)
  case Nil
  then show ?case by simp
next
  case (Cons c cs)
  let ?vid = "vs_local_to_id (db_store d) ! local_id c"
  show ?case
  proof (cases "length res \<ge> qo_k opt")
    case True
    then show ?thesis using Cons.prems by simp
  next
    case False
    have vid: "vs_vector_id (db_store d) (local_id c) = Inr ?vid" using Cons.prems(2) by (simp add: vs_vector_id_def)
    have k: "qo_k opt - length res = Suc (qo_k opt - Suc (length res))" using False by simp
    have skip: ?thesis if "\<not> wanted d opt g c" and "collect_results env opt cs res (d\<lparr>db_metadata := m\<rparr>) = (Inr rs, d')"
      and "db_holds content g (d\<lparr>db_metadata := m\<rparr>)" for m
      using Cons.IH [OF that(3) _ that(2)] Cons.prems(2,4) that(1) by simp
    have put: ?thesis if "wanted d opt g c" and "collect_results env opt cs (res @ [found d opt g c]) (d\<lparr>db_metadata := m\<rparr>) = (Inr rs, d')"
      and "db_holds content g (d\<lparr>db_metadata := m\<rparr>)" for m
      using Cons.IH [OF that(3) _ that(2)] Cons.prems(2) that(1) False by (simp add: k)
    show ?thesis
    proof (cases "needs_metadata d opt")
      case needs: True
      then have inc: "qo_filter opt \<noteq> [] \<or> qo_include_metadata opt" by (simp add: needs_metadata_def)
      obtain md m where m: "ms_get (en_sqlite env) ?vid (db_metadata d) = (Inr md, m)"
        and r: "(if qo_filter opt \<noteq> [] \<and> \<not> filter_matches (qo_filter opt) md then collect_results env opt cs res
          else collect_results env opt cs (res @ [\<lparr>qr_id = ?vid, qr_score = score_from_rank_key (dc_metric (db_config d)) (key c), qr_metadata = md\<rparr>]))
            (d\<lparr>db_metadata := m\<rparr>) = (Inr rs, d')"
        using Cons.prems(3) False vid needs by (auto simp: db_read_def act_inv Let_def alift_def)
      have md: "md = read_md (g ?vid)" and h': "db_holds content g (d\<lparr>db_metadata := m\<rparr>)"
        using ms_get_stored [OF laws _ _ _ m, of "g ?vid"] Cons.prems(1) by (auto simp: db_holds_def holds_metadata_def read_md_def)
      have w: "wanted d opt g c \<longleftrightarrow> filter_matches (qo_filter opt) md" by (simp add: wanted_def md)
      have f: "found d opt g c = \<lparr>qr_id = ?vid, qr_score = score_from_rank_key (dc_metric (db_config d)) (key c), qr_metadata = md\<rparr>"
        using inc by (auto simp: found_def md Let_def)
      have e: "qo_filter opt = [] \<Longrightarrow> wanted d opt g c" by (simp add: w filter_matches_def)
      show ?thesis
      proof (cases "wanted d opt g c")
        case True
        show ?thesis by (rule put [OF True _ h']) (use r True in \<open>simp add: w f\<close>)
      next
        case False
        show ?thesis by (rule skip [OF False _ h']) (use r False e in \<open>simp add: w split: if_splits\<close>)
      qed
    next
      case needs: False
      have r: "(if qo_filter opt \<noteq> [] then collect_results env opt cs res
          else collect_results env opt cs (res @ [\<lparr>qr_id = ?vid, qr_score = score_from_rank_key (dc_metric (db_config d)) (key c), qr_metadata = []\<rparr>]))
            (d\<lparr>db_metadata := db_metadata d\<rparr>) = (Inr rs, d')"
        using Cons.prems(3) False vid needs by (auto simp: db_read_def act_inv Let_def alift_def)
      have h': "db_holds content g (d\<lparr>db_metadata := db_metadata d\<rparr>)" using Cons.prems(1) by simp
      have none: "g ?vid = []" if "qo_filter opt \<noteq> [] \<or> qo_include_metadata opt"
        using needs Cons.prems(1) that by (auto simp: needs_metadata_def db_holds_def)
      have w: "wanted d opt g c \<longleftrightarrow> qo_filter opt = []"
        using none by (cases "qo_filter opt") (auto simp: wanted_def read_md_def filter_matches_def condition_matches_def)
      have f: "found d opt g c = \<lparr>qr_id = ?vid, qr_score = score_from_rank_key (dc_metric (db_config d)) (key c), qr_metadata = []\<rparr>"
        using none by (auto simp: found_def read_md_def Let_def)
      show ?thesis
      proof (cases "wanted d opt g c")
        case True
        show ?thesis by (rule put [OF True _ h']) (use r True in \<open>simp add: w f\<close>)
      next
        case False
        show ?thesis by (rule skip [OF False _ h']) (use r False in \<open>simp add: w\<close>)
      qed
    qed
  qed
qed

end
