(* ===== verification/Vdb_DatabaseProps.thy ===== *)
theory Vdb_DatabaseProps
  imports Vdb_DatabaseRun
begin

text \<open>
  The properties of the database, with the small database on which their witnesses run: one slot, exact index,
  metadata in a table.
\<close>

section \<open>A small database\<close>

definition small_store :: vector_store where
  "small_store = \<lparr>vs_vectors = \<lparr>va_dimension = 1, va_count = 1, va_storage = [0]\<rparr>, vs_norms = [0], vs_live = [1],
     vs_local_to_id = [7], vs_id_to_local = [7 \<mapsto> 0], vs_live_count = 1, vs_normalize = False\<rparr>"

definition empty_world :: world where
  "empty_world = \<lparr>w_dir = Map.empty, w_dir_disk = Map.empty, w_data = \<lambda>_. [], w_data_disk = \<lambda>_. None, w_next = 0,
     w_fds = Map.empty, w_next_fd = 0, w_outcomes = [], w_stopped = False\<rparr>"

definition small_config :: database_config where
  "small_config = \<lparr>dc_dimension = 1, dc_metric = L2Squared, dc_index_type = BruteForce, dc_hnsw = hc_default, dc_normalize = False\<rparr>"

definition small_database :: "vector_store \<Rightarrow> u64 \<Rightarrow> bool list \<Rightarrow> table_db database" where
  "small_database s next_id outs = \<lparr>db_directory = ''d'', db_config = small_config, db_store = s, db_metadata = small_mstore outs,
     db_index = BruteIndex \<lparr>bf_accessor = vs_accessor s, bf_metric = L2Squared, bf_kernel = small_kernel\<rparr>,
     db_next_auto_id = next_id, db_dirty = False, db_has_metadata = True, db_scratch = vst_empty, db_world = empty_world\<rparr>"

definition small_env :: "table_db env" where
  "small_env = \<lparr>en_sqlite = table_sqlite, en_schema = '''', en_kernel = small_kernel, en_log = \<lambda>x. x\<rparr>"

lemma small_store_inv: "vs_inv small_store"
proof -
  have live: "live_slots small_store = {0}" by (auto simp: live_slots_def vs_slot_count_def vs_is_live_def small_store_def)
  show ?thesis unfolding vs_inv_def live
    by (auto simp: small_store_def va_inv_def vs_slot_count_def kMaxDimension_def kMaxVectorCount_def)
qed

lemma small_valid [simp]: "dc_validate small_config = Inr ()"
  by (simp add: small_config_def dc_validate_def kMaxDimension_def)

lemma empty_scratch [simp]: "vst_inv vst_empty"
  by (simp add: vst_inv_def vst_empty_def)

lemma small_database_inv: "vs_inv s \<Longrightarrow> vs_dimension s = 1 \<Longrightarrow> \<not> vs_normalize s \<Longrightarrow> db_inv (small_database s n outs)"
  unfolding db_inv_def by (simp add: small_database_def ix_defs) (simp add: small_config_def)

lemma small_inv: "db_inv (small_database small_store n outs)"
  by (rule small_database_inv [OF small_store_inv]) (simp_all add: small_store_def vs_dimension_def)

lemma small_room: "vs_slot_count s \<le> 10 \<Longrightarrow> db_room (small_database s n outs)"
  by (simp add: db_room_def room_for_def small_database_def small_config_def kMaxVectorCount_def)

lemma small_room_store: "db_room (small_database small_store n outs)"
  by (rule small_room) (simp add: small_store_def vs_slot_count_def)

definition small_metadata :: "u64 \<Rightarrow> metadata" where
  "small_metadata = (\<lambda>_. [])(7 := [(''a'', MInt 1)])"

lemma small_holds: "db_holds td_content small_metadata (small_database s n outs)"
  using small_mstore_rest small_mstore_holds by (simp add: db_holds_def small_database_def small_metadata_def)

lemma small_laws: "sqlite_laws (en_sqlite small_env) td_content"
  by (simp add: small_env_def table_sqlite_laws)

text \<open>A database in which nothing ever fails and no row is kept, for creating one.\<close>

definition void_env :: "unit env" where
  "void_env = \<lparr>en_sqlite = \<lparr>sq_exec = \<lambda>_ db. (True, db), sq_prepare = \<lambda>_ _. True, sq_query = \<lambda>_ _ db. (([], True), db),
      sq_to_int = \<lambda>_. 0, sq_to_real = \<lambda>_. 0, sq_to_text = \<lambda>_. ''''\<rparr>,
    en_schema = '''', en_kernel = small_kernel, en_log = \<lambda>x. x\<rparr>"

definition void_host :: "unit host" where
  "void_host = \<lparr>ho_exists = False, ho_mkdir = True, ho_is_directory = True, ho_sqlite = Some (), ho_world = empty_world,
     ho_scratch = vst_empty\<rparr>"

lemma void_set_config:
  assumes "ms_set_config_value m = \<lparr>st_sql = sql_set_config, st_params = [x, y], st_run = None\<rparr>"
  shows "\<exists>x' y'. ms_set_config (en_sqlite void_env) k v m = (Inr (), m\<lparr>ms_set_config_value := \<lparr>st_sql = sql_set_config, st_params = [x', y'], st_run = None\<rparr>\<rparr>)"
  using assms by (cases m) (simp add: ms_set_config_def statement_defs Let_def void_env_def)

lemma void_set_configs:
  assumes "ms_set_config_value m = \<lparr>st_sql = sql_set_config, st_params = [x, y], st_run = None\<rparr>"
  shows "\<exists>st. set_configs (en_sqlite void_env) rows m = (Inr (), m\<lparr>ms_set_config_value := st\<rparr>)"
  using assms
proof (induction rows arbitrary: m x y)
  case Nil
  have "m = m\<lparr>ms_set_config_value := ms_set_config_value m\<rparr>" by simp
  then show ?case by (metis aret_def set_configs.simps(1))
next
  case (Cons row rows)
  obtain k v where row: "row = (k, v)" by fastforce
  obtain x' y' where s: "ms_set_config (en_sqlite void_env) k v m = (Inr (), m\<lparr>ms_set_config_value := \<lparr>st_sql = sql_set_config, st_params = [x', y'], st_run = None\<rparr>\<rparr>)"
    using void_set_config [OF Cons.prems] by blast
  obtain st where "set_configs (en_sqlite void_env) rows (m\<lparr>ms_set_config_value := \<lparr>st_sql = sql_set_config, st_params = [x', y'], st_run = None\<rparr>\<rparr>) =
      (Inr (), m\<lparr>ms_set_config_value := \<lparr>st_sql = sql_set_config, st_params = [x', y'], st_run = None\<rparr>, ms_set_config_value := st\<rparr>)"
    using Cons.IH by (metis (no_types, lifting) mstore.select_convs(6) mstore.simps(6) mstore.surjective mstore.update_convs(6))
  then show ?case using s by (auto simp: row abind_step)
qed

lemma void_persist:
  assumes m: "ms_set_config_value m = st_new sql_set_config" "ms_transaction m = None" "ms_depth m = 0"
  shows "\<exists>m'. persist_config (en_sqlite void_env) c n m = (Inr (), m')"
proof -
  have exec: "connection_execute (en_sqlite void_env) sql db = (Inr (), db)" for sql db
    by (simp add: connection_execute_def void_env_def)
  let ?m1 = "m\<lparr>ms_depth := 1, ms_transaction := Some False\<rparr>"
  have b: "begin_locked (en_sqlite void_env) m = (Inr (), ?m1)"
    using m by (simp add: begin_locked_def Let_def abind_def on_db_def transaction_new_def exec)
  have st: "st_new sql_set_config = \<lparr>st_sql = sql_set_config, st_params = [SqlNull, SqlNull], st_run = None\<rparr>"
    by (simp add: st_new_def sql_set_config_def)
  have "ms_set_config_value ?m1 = \<lparr>st_sql = sql_set_config, st_params = [SqlNull, SqlNull], st_run = None\<rparr>" using m(1) st by simp
  from void_set_configs [OF this] obtain s2 where s2: "set_configs (en_sqlite void_env) (config_rows c n) ?m1 = (Inr (), ?m1\<lparr>ms_set_config_value := s2\<rparr>)" by blast
  have "\<exists>m'. commit_locked (en_sqlite void_env) (?m1\<lparr>ms_set_config_value := s2\<rparr>) = (Inr (), m')"
    by (simp add: commit_locked_def Let_def abind_def on_db_def transaction_commit_def exec)
  then show ?thesis using b s2 by (simp add: persist_config_def in_transaction_def abind_step acatch_step)
qed

lemma void_created:
  assumes "dc_validate c = Inr ()"
  shows "\<exists>r d. db_create void_env dir c void_host = Inr (r, d)"
proof -
  have dim: "0 < dc_dimension c" "dc_dimension c \<le> kMaxDimension" using assms by (auto simp: dc_validate_def result_simps)
  obtain s where s: "vs_new (dc_dimension c) (dc_normalize c) = Inr s"
    using dim by (simp add: vs_new_def va_new_def result_simps)
  have n: "vs_slot_count s = 0" using s by (auto simp: vs_new_def va_new_def vs_slot_count_def result_simps split: if_splits)
  have "room_for c (vs_slot_count s)" by (simp add: n room_for_def)
  then obtain ix w where b: "built_index void_env c s vst_empty = Inr (ix, w)"
    using built_index_ok [OF _ assms empty_scratch, of s void_env] vs_new_ok [OF s] by blast
  have exec: "connection_execute (en_sqlite void_env) sql db = (Inr (), db)" for sql db
    by (simp add: connection_execute_def void_env_def)
  have "local_statement (en_sqlite void_env) sql_schema_version (abind (bind_text 1 t) (\<lambda>_. stmt_run (en_sqlite void_env))) db = (Inr (), db)" for t db
    by (simp add: local_statement_def statement_prepare_def void_env_def statement_defs st_new_def sql_schema_version_def)
  moreover have "statement_prepare (en_sqlite void_env) sql db = (Inr (st_new sql), db)" for sql db
    by (simp add: statement_prepare_def void_env_def)
  ultimately obtain m where m: "ms_open (en_sqlite void_env) (en_schema void_env) (ho_sqlite void_host) = Inr m"
    "ms_set_config_value m = st_new sql_set_config" "ms_transaction m = None" "ms_depth m = 0"
    by (simp add: ms_open_def connection_open_def void_host_def abind_def exec del: statement_params)
  obtain m' where p: "persist_config (en_sqlite void_env) c 0 m = (Inr (), m')" using void_persist [OF m(2-4)] by blast
  show ?thesis
    using assms s m(1) p b by (auto simp: db_create_def guard_throw_def void_host_def Let_def split: prod.splits sum.splits)
qed

lemma void_reach: "dc_validate c = Inr () \<Longrightarrow> \<exists>d. db_reach void_env d"
  using void_created [of c "''d''"] reach_create [of void_host void_env] by (metis empty_scratch host.select_convs(6) void_host_def)

lemma create_config: "db_create env dir c host = Inr (r, d) \<Longrightarrow> db_config d = c"
proof (elim create_shape)
  fix s m m' ix w
  assume "db_flush env (created dir c host s m' ix w) = (r, d) \<or>
     (\<exists>e d1. r = Inl e \<and> db_flush env (created dir c host s m' ix w) = (Inl e, d1) \<and> d = db_destroy env d1)"
  moreover have "db_config (snd (db_flush env x)) = db_config x" for x
    by (rule flushed_fields(1) [OF flush_frame])
  moreover have "db_config (created dir c host s m' ix w) = c" by (simp add: created_def)
  ultimately show ?thesis unfolding db_destroy_def by (metis snd_conv)
qed

section \<open>Safety of every history\<close>

text \<open>C3: A database that \<^verbatim>\<open>create\<close> made, or that \<^verbatim>\<open>open\<close> found in intact files (no id live twice in the vector file, which
  is not checked on loading; an index file that is absent, refused as corrupt, or the index of that store), stays
  consistent through every sequence of calls of its interface, whether they return or throw, whatever the metadata
  database and the file system answer: the store's maps, counts and arrays agree, and the index is well formed over exactly
  the store's slots, with the accessor pointing at the store's present arrays. Two size limits are part of the steps: a call
  that adds a slot finds fewer than 2 to the 32 upper link words in the index (beyond, the code truncates the offset), and
  one that builds the graph anew (opening, \<^verbatim>\<open>rebuild_index\<close>, \<^verbatim>\<open>compact\<close>) has room for the largest levels that could be
  drawn, which about a million slots with M = 16 are sure to have.\<close>

theorem reachable_states_are_consistent:
  assumes "db_reach env d"
  shows "vs_inv (db_store d) \<and> ix_accessor (db_index d) = vs_accessor (db_store d) \<and>
    ix_good (db_index d) (vs_slot_count (db_store d)) \<and> dc_validate (db_config d) = Inr () \<and>
    vs_dimension (db_store d) = dc_dimension (db_config d) \<and> ix_metric (db_index d) = dc_metric (db_config d)"
  using reach_inv [OF assms] by (cases "db_index d") (auto simp: db_inv_def ix_info_def ix_metric_def)

lemma reachable_states_are_consistent_witness:
  "\<exists>d. db_reach void_env d \<and> vs_inv (db_store d) \<and> dc_validate (db_config d) = Inr ()"
proof -
  obtain d where "db_reach void_env d" using void_reach [OF small_valid] by blast
  with reachable_states_are_consistent [OF this] show ?thesis by blast
qed

text \<open>C18: Every outcome of a search in a reachable state (in the sense of C3): k = 0 and an invalid query are refused with their errors;
  a filtered request is refused as if k were zero when it is exact and there is no slot, or when k times the oversampling
  factor is a multiple of \<open>2 ^ 64\<close>; every other search returns at most \<open>k\<close> results with distinct ids, all of them live and
  matching the filter, or the metadata database failed. Neither the vectors nor the index change.\<close>

theorem search_is_sound:
  assumes "db_reach env d" and "db_search env q opt d = (r, d')"
  shows "(if qo_k opt = 0 then r = Inl InvalidArgumentError
     else case validate_vector q (dc_dimension (db_config d)) of
       Inl e \<Rightarrow> r = Inl e
     | Inr _ \<Rightarrow>
       if qo_filter opt \<noteq> [] \<and> (if use_exact d opt then vs_slot_count (db_store d) = 0
            else 2 ^ 64 dvd qo_k opt * (if qo_filter_oversample opt > 0 then qo_filter_oversample opt else 8))
       then r = Inl InvalidArgumentError
       else r = Inl MetadataError \<or> (\<exists>rs. r = Inr rs \<and> length rs \<le> qo_k opt \<and> distinct (map qr_id rs) \<and>
         (\<forall>x\<in>set rs. db_contains d (qr_id x) \<and> (qo_filter opt \<noteq> [] \<longrightarrow> filter_matches (qo_filter opt) (qr_metadata x))))) \<and>
    db_store d' = db_store d \<and> db_index d' = db_index d"
proof (cases "0 < qo_k opt \<and> validate_vector q (dc_dimension (db_config d)) = Inr ()")
  case False
  then show ?thesis using assms(2) by (auto simp: db_search_def db_read_def abind_def aguard_def split: sum.splits)
next
  case True
  have inv: "db_inv d" by (rule reach_inv [OF assms(1)])
  have a: "asked d opt = 0 \<longleftrightarrow> qo_filter opt \<noteq> [] \<and> (if use_exact d opt then vs_slot_count (db_store d) = 0
            else 2 ^ 64 dvd qo_k opt * (if qo_filter_oversample opt > 0 then qo_filter_oversample opt else 8))"
    using True by (auto simp: asked_def fetch_count_def kDefaultFilterOversample_def dvd_eq_mod_eq_0)
  show ?thesis
  proof (cases "asked d opt = 0")
    case no_k: True
    have "db_search env q opt d = (Inl InvalidArgumentError, d)"
      using search_no_k [OF inv no_k] True by (simp add: db_search_def db_read_def abind_def)
    then show ?thesis using assms(2) True no_k [unfolded a] by (auto split: if_splits)
  next
    case False
    then have "0 < asked d opt" by simp
    with search_result [OF inv _ _ this assms(2)] True show ?thesis
      using False [unfolded a] by (auto simp: results_ok_def db_contains_def)
  qed
qed

definition small_query :: query_options where
  "small_query = \<lparr>qo_k = 3, qo_ef_search = 0, qo_filter = [], qo_exact = False, qo_filter_oversample = 0, qo_include_metadata = True\<rparr>"

lemma zero_vector_valid: "validate_vector [0] 1 = Inr ()"
  by (simp add: validate_ok_iff is_finite_vec_iff feval cong: let_weak_cong)

lemma search_is_sound_witness:
  "\<exists>d r d'. db_reach void_env d \<and> db_search void_env [0] small_query d = (r, d') \<and> db_store d' = db_store d \<and>
     (r = Inl MetadataError \<or> (\<exists>rs. r = Inr rs \<and> length rs \<le> 3))"
proof -
  obtain r d where c: "db_create void_env ''d'' small_config void_host = Inr (r, d)" using void_created [OF small_valid] by blast
  have rd: "db_reach void_env d" by (rule reach_create [OF _ c]) (simp add: void_host_def)
  have cfg: "db_config d = small_config"
    by (rule create_config [OF c])
  obtain x d' where s: "db_search void_env [0] small_query d = (x, d')" by fastforce
  have v: "validate_vector [0] (dc_dimension (db_config d)) = Inr ()" using zero_vector_valid by (simp add: cfg small_config_def)
  have "x = Inl MetadataError \<or> (\<exists>rs. x = Inr rs \<and> length rs \<le> 3)" "db_store d' = db_store d"
    using search_is_sound [OF rd s, unfolded v] by (auto simp: small_query_def)
  then show ?thesis using rd s by blast
qed

text \<open>C5: An exact search returns the nearest live vectors that match the filter, in order, with their scores and, when asked for
  or filtered on, their metadata: exactly the first \<open>k\<close> of the sorted live candidates whose stored metadata match. The metadata
  store is at rest (no failed write before), no live vector has a NaN key for this query, and the request is not one of
  those that the code refuses (k = 0, an invalid query, a filter over no slots).\<close>

theorem exact_search_returns_best_matches:
  assumes "sqlite_laws (en_sqlite env) content" and "db_inv d" and "db_holds content g d" and "use_exact d opt" and "0 < qo_k opt"
    and "validate_vector q (dc_dimension (db_config d)) = Inr ()" and "0 < vs_slot_count (db_store d) \<or> qo_filter opt = []"
    and "ix = \<lparr>bf_accessor = vs_accessor (db_store d), bf_metric = dc_metric (db_config d), bf_kernel = en_kernel env\<rparr>"
    and "\<forall>c\<in>bf_live_candidates ix q. ordered_key c" and "db_search env q opt d = (Inr rs, d')"
  shows "rs = map (found d opt g) (take (qo_k opt) (filter (wanted d opt g)
      (sort_by candidate_better (bf_candidates ix q (bf_query_norm ix q) 0 (vs_slot_count (db_store d))))))"
proof -
  let ?cs = "bf_candidates ix q (bf_query_norm ix q) 0 (vs_slot_count (db_store d))"
  let ?k = "if qo_filter opt \<noteq> [] then vs_slot_count (db_store d) else qo_k opt"
  have s: "vs_inv (db_store d)" "vs_dimension (db_store d) = dc_dimension (db_config d)" using assms(2) by (simp_all add: db_inv_def)
  have "bf_search ix q \<lparr>sp_k = ?k, sp_ef_search = 0\<rparr> = Inr (best_k ?k ?cs)"
    using bf_search_best [of "\<lparr>sp_k = ?k, sp_ef_search = 0\<rparr>" q ix] assms(5,7,9) validate_length [OF assms(6)] s inv_slot_count [OF s(1)]
    by (auto simp: assms(8) kMaxVectorCount_def)
  then have c: "search_candidates env q opt d = (Inr (best_k ?k ?cs), d)"
    using assms(4) by (simp add: search_candidates_def assms(8))
  have run: "collect_results env opt (best_k ?k ?cs) [] d = (Inr rs, d')"
    using assms(5,6,10) c by (simp add: db_search_def db_read_def abind_def aguard_def)
  have len: "length ?cs \<le> vs_slot_count (db_store d)"
    using length_filter_le [of "ac_is_live (bf_accessor ix)" "[0..<vs_slot_count (db_store d)]"] by (simp add: bf_candidates_def)
  have set: "set (best_k ?k ?cs) \<subseteq> set ?cs" unfolding best_k_def using set_take_subset by fastforce
  have b: "\<forall>c\<in>set (best_k ?k ?cs). local_id c < length (vs_local_to_id (db_store d))"
    using set s(1) by (auto simp: bf_candidates_def vs_inv_def)
  have "rs = map (found d opt g) (take (qo_k opt) (filter (wanted d opt g) (best_k ?k ?cs)))"
    using collect_exact [OF assms(1,3) b run] by simp
  moreover have "take (qo_k opt) (filter (wanted d opt g) (best_k ?k ?cs)) =
      take (qo_k opt) (filter (wanted d opt g) (sort_by candidate_better ?cs))"
  proof (cases "qo_filter opt = []")
    case True
    then have "wanted d opt g = (\<lambda>_. True)" by (simp add: wanted_def fun_eq_iff filter_matches_def)
    then show ?thesis using True by (simp add: best_k_def)
  next
    case False
    have "length (sort_by candidate_better ?cs) = length ?cs" by simp
    then show ?thesis using False len by (simp add: best_k_def)
  qed
  ultimately show ?thesis by simp
qed

definition match_query :: query_options where
  "match_query = \<lparr>qo_k = 3, qo_ef_search = 0, qo_filter = [\<lparr>fc_key = ''a'', fc_op = OpEqual, fc_value = MInt 1\<rparr>],
     qo_exact = True, qo_filter_oversample = 0, qo_include_metadata = False\<rparr>"

lemma small_get: "\<exists>md m. ms_get table_sqlite 7 (small_mstore []) = (Inr md, m)"
proof -
  have q: "sq_query table_sqlite sql_select_by_vector [SqlInt 7] (ms_db (small_mstore [])) =
      (([SqlText ''a'' # map sql_stored (enc_value (MInt 1))], True), ms_db (small_mstore []))"
    by (simp add: table_sqlite_def td_query_def td_next_def small_mstore_def)
  show ?thesis using ms_get_run(1) [OF small_mstore_rest q] by auto
qed

lemma exact_search_returns_best_matches_witness:
  "\<exists>rs d'. db_search small_env [0] match_query (small_database small_store 8 []) = (Inr rs, d') \<and> map qr_id rs = [7]"
proof -
  let ?d = "small_database small_store 8 []" and ?ix = "\<lparr>bf_accessor = vs_accessor small_store, bf_metric = L2Squared, bf_kernel = small_kernel\<rparr>"
  let ?c = "\<lparr>local_id = 0, key = 0\<rparr> :: candidate"
  have n: "vs_slot_count small_store = 1" by (simp add: small_store_def vs_slot_count_def)
  have dm: "vs_dimension small_store = 1" by (simp add: small_store_def vs_dimension_def)
  have l: "vs_is_live small_store 0" by (simp add: small_store_def vs_is_live_def)
  have key: "bf_key ?ix [0] qn 0 = 0" for qn
    by (simp add: bf_key_def with_norms_def small_kernel_def small_store_def vs_accessor_def ac_vector_def va_view_def va_offset_of_def)
  have live: "bf_live_candidates ?ix [0] = {?c}" by (auto simp: bf_live_candidates_def n l key)
  have cand: "bf_candidates ?ix [0] qn 0 1 = [?c]" for qn by (simp add: bf_candidates_def l key)
  have o: "\<forall>c\<in>bf_live_candidates ?ix [0]. ordered_key c" unfolding live by (simp add: ordered_key_def feval cong: let_weak_cong)
  have "bf_search ?ix [0] \<lparr>sp_k = 1, sp_ef_search = 0\<rparr> = Inr [?c]"
    using bf_search_best [OF _ _ _ o, of "\<lparr>sp_k = 1, sp_ef_search = 0\<rparr>"] cand
    by (simp add: n dm best_k_def)
  then have c: "search_candidates small_env [0] match_query ?d = (Inr [?c], ?d)"
    by (simp add: search_candidates_def use_exact_def match_query_def small_database_def small_config_def small_env_def n)
  obtain md m where g: "ms_get table_sqlite 7 (small_mstore []) = (Inr md, m)" using small_get by blast
  have "\<exists>rs d'. collect_results small_env match_query [?c] [] ?d = (Inr rs, d')"
    using g by (simp add: match_query_def db_read_def abind_def vs_vector_id_def needs_metadata_def on_metadata_step Let_def
        small_database_def small_env_def) (simp add: small_store_def)
  then obtain rs d' where run: "db_search small_env [0] match_query ?d = (Inr rs, d')"
    using c zero_vector_valid by (auto simp: db_search_def db_read_def abind_def match_query_def small_database_def small_config_def)
  have "rs = map (found ?d match_query small_metadata) (take 3 (filter (wanted ?d match_query small_metadata) [?c]))"
    using exact_search_returns_best_matches [OF small_laws small_inv small_holds _ _ _ _ refl _ run] o zero_vector_valid cand n
    by (simp add: small_database_def small_config_def small_env_def use_exact_def match_query_def)
  moreover have same_int: "compare_values (MInt 1) (MInt 1) = Some 0" by (simp add: f64_lt_def)
  moreover have "wanted ?d match_query small_metadata ?c"
    using same_int by (simp add: wanted_def small_database_def small_store_def small_metadata_def read_md_def match_query_def
        filter_matches_def condition_matches_def)
  ultimately have "map qr_id rs = [7]" by (simp add: found_def small_database_def small_store_def Let_def)
  then show ?thesis using run by simp
qed

section \<open>What writes mean\<close>

text \<open>C2: The database is two maps: after any sequence of successful inserts, upserts, removes and metadata writes, reading an
  id gives the vector and the metadata that the same sequence leaves in a map of vectors and a map of metadata. An
  insert without metadata leaves the id's metadata rows as they were, so rows that were there before the vector
  become its metadata. At the start the metadata store is at rest, and a graph has room for the writes (\<open>room_for\<close>).\<close>

theorem database_refines_maps:
  assumes "sqlite_laws (en_sqlite env) content" and "db_inv d" and "db_holds content g d"
    and "room_for (db_config d) (vs_slot_count (db_store d) + length ws)"
    and "\<forall>w\<in>set ws. md_sorted (write_metadata w)" and "run_writes env ws d = (Inr (), d1)"
    and "fold (apply_write (dc_normalize (db_config d))) ws (vs_abs (db_store d), g) = (V, g1)"
    and "db_get env vid d1 = (Inr r, d2)"
  shows "r = map_option (\<lambda>(v, _). \<lparr>sv_id = vid, sv_vector = v, sv_metadata = read_md (g1 vid)\<rparr>) (V vid) \<and>
    vs_abs (db_store d1) = V \<and> db_inv d1"
proof -
  have w: "vs_abs (db_store d1) = V \<and> db_holds content g1 d1 \<and> (db_step env)\<^sup>*\<^sup>* d d1"
    by (rule writes_refine [OF assms(1-7)])
  have "db_inv d1" using conjunct2 [OF conjunct2 [OF w]] assms(2) by (induction rule: rtranclp_induct) (auto intro: step_keeps)
  then show ?thesis using get_refines [OF assms(1) _ assms(8)] w by blast
qed

lemma small_insert:
  assumes "vs_insert s vid v = Inr (i, s')"
  shows "db_insert small_env vid v [] (small_database s n outs) =
    (Inr (), (small_database s' (if n \<le> vid then vid + 1 else n) outs)\<lparr>db_dirty := True\<rparr>)"
  using assms
  by (simp add: db_insert_def db_read_def abind_def db_update_def index_add_def refresh_accessor_def small_database_def ix_defs
      bf_add_def bf_set_accessor_def)

lemma small_get_fresh: "\<exists>md m. ms_get table_sqlite 8 (small_mstore []) = (Inr md, m)"
proof -
  have q: "sq_query table_sqlite sql_select_by_vector [SqlInt 8] (ms_db (small_mstore [])) = (([], True), ms_db (small_mstore []))"
    by (simp add: table_sqlite_def td_query_def td_next_def small_mstore_def)
  show ?thesis using ms_get_run(1) [OF small_mstore_rest q] by auto
qed

lemma small_second: "\<exists>i s. vs_insert small_store 8 [0] = Inr (i, s)"
  using vs_insert_total [OF small_store_inv, of 8 "[0]"] zero_vector_valid
  by (simp add: small_store_def vs_slot_count_def vs_dimension_def kMaxVectorCount_def)

lemma database_refines_maps_witness:
  "\<exists>d1 r d2. run_writes small_env [WInsert 8 [0] []] (small_database small_store 8 []) = (Inr (), d1) \<and>
     db_get small_env 8 d1 = (Inr (Some r), d2) \<and> sv_metadata r = []"
proof -
  let ?d = "small_database small_store 8 []" and ?ws = "[WInsert 8 [0] []]"
  obtain i s where ins: "vs_insert small_store 8 [0] = Inr (i, s)" using small_second by blast
  let ?d1 = "(small_database s 9 [])\<lparr>db_dirty := True\<rparr>"
  have run: "run_writes small_env ?ws ?d = (Inr (), ?d1)" using small_insert [OF ins, of 8 "[]"] by (simp add: abind_def)
  have "vs_abs s 8 \<noteq> None" using vs_insert_ok(2) [OF small_store_inv ins] by simp
  then obtain j where "vs_find s 8 = Some j" by (auto simp: vs_find_def)
  then obtain r d2 where g: "db_get small_env 8 ?d1 = (Inr (Some r), d2)"
    using small_get_fresh by (auto simp: db_get_def db_read_def abind_def on_metadata_step small_database_def small_env_def)
  obtain V g1 where ap: "fold (apply_write (dc_normalize (db_config ?d))) ?ws (vs_abs (db_store ?d), small_metadata) = (V, g1)" by fastforce
  then have g1: "g1 8 = []" by (auto simp: small_metadata_def)
  have room: "room_for (db_config ?d) (vs_slot_count (db_store ?d) + length ?ws)"
    using small_room_store [of 8 "[]"] by (simp add: db_room_def)
  have "Some r = map_option (\<lambda>(v, _). \<lparr>sv_id = 8, sv_vector = v, sv_metadata = read_md (g1 8)\<rparr>) (V 8)"
    using database_refines_maps [OF small_laws small_inv small_holds room _ run ap g] by (simp add: md_sorted_def)
  then have "sv_metadata r = []" by (cases "V 8") (auto simp: g1 read_md_def)
  then show ?thesis using run g by blast
qed

text \<open>C19: Compaction keeps the vector and the norm stored under every id and leaves no tombstone, even when the flush at its end
  fails; when it returns, it returns the number of slots it reclaimed. It is about the vectors only, not the metadata, and
  for databases small enough that the new graph has room at any levels drawn (\<open>db_room\<close>).\<close>

theorem compact_preserves_content:
  assumes "db_inv d" and "db_room d" and "db_compact env d = (r, d')"
  shows "vs_abs (db_store d') = vs_abs (db_store d) \<and> vs_tombstone_count (db_store d') = 0 \<and> db_inv d' \<and>
    (\<forall>n. r = Inr n \<longrightarrow> n = vs_tombstone_count (db_store d))"
proof (cases "vs_tombstone_count (db_store d) = 0")
  case True
  then show ?thesis using assms by (auto simp: db_compact_def db_read_def Let_def)
next
  case False
  then obtain d1 where d1: "vs_abs (db_store d1) = vs_abs (db_store d)" "vs_tombstone_count (db_store d1) = 0"
    "db_compact env d = abind (db_update (\<lambda>d. d\<lparr>db_dirty := True\<rparr>)) (\<lambda>_. abind (db_flush env) (\<lambda>_. aret (vs_tombstone_count (db_store d)))) d1"
    using compact_steps [OF assms(1,2), of env] by auto
  obtain q d2 where f: "db_flush env (d1\<lparr>db_dirty := True\<rparr>) = (q, d2)" by fastforce
  have "db_store d2 = db_store d1" using flushed_fields(2) [OF flush_frame, of env "d1\<lparr>db_dirty := True\<rparr>"] f by simp
  moreover have "d' = d2" "\<forall>n. r = Inr n \<longrightarrow> n = vs_tombstone_count (db_store d)"
    using assms(3) d1(3) f by (auto simp: abind_def db_update_def split: sum.splits)
  moreover have "db_inv d'" using compact_keeps [OF assms(1,2), of env] assms(3) by simp
  ultimately show ?thesis using d1 by simp
qed

lemma compact_preserves_content_witness:
  "\<exists>s r d'. db_compact small_env (small_database s 8 []) = (r, d') \<and> vs_tombstone_count s = 1 \<and> vs_tombstone_count (db_store d') = 0"
proof -
  obtain b s where r: "vs_remove small_store 7 = (b, s)" by fastforce
  note o = vs_remove_ok [OF small_store_inv r]
  have c: "vs_tombstone_count s = 1" "vs_slot_count s = 1"
    using r by (auto simp: vs_remove_def vs_tombstone_count_def small_store_def vs_slot_count_def)
  have inv: "db_inv (small_database s 8 [])"
    by (rule small_database_inv) (use o in \<open>simp_all add: small_store_def vs_dimension_def\<close>)
  obtain q d' where run: "db_compact small_env (small_database s 8 []) = (q, d')" by fastforce
  have "db_room (small_database s 8 [])" by (rule small_room) (simp add: c)
  from compact_preserves_content [OF inv this run] run c show ?thesis by blast
qed

lemma all_ids_live:
  assumes "db_inv d"
  shows "set (db_all_ids d) = {vid. db_contains d vid} \<and> sorted_wrt (<) (db_all_ids d) \<and> length (db_all_ids d) = vs_live_count (db_store d)"
proof -
  let ?s = "db_store d" and ?is = "filter (vs_is_live (db_store d)) [0..<vs_slot_count (db_store d)]"
  have s: "vs_inv ?s" using assms by (simp add: db_inv_def)
  have m: "vs_id_to_local ?s vid = Some i \<longleftrightarrow> i \<in> set ?is \<and> vs_local_to_id ?s ! i = vid" for vid i
    using s by (auto simp: vs_inv_def live_slots_def)
  have ids: "set (live_ids ?s) = {vid. db_contains d vid}"
    using m unfolding live_ids_def db_contains_def vs_contains_def vs_find_def by (auto simp: image_iff)
  have "inj_on (\<lambda>i. vs_local_to_id ?s ! i) (set ?is)" using m by (intro inj_onI) (metis option.inject)
  then have d: "distinct (live_ids ?s)" by (simp add: live_ids_def distinct_map)
  have "asc (<) (db_all_ids d)" unfolding db_all_ids_def
    by (rule asc_sort_by [of UNIV]) (auto simp: swo_on_def)
  then have "sorted_wrt (\<le>) (db_all_ids d)" by (simp add: asc_def not_less)
  moreover have "mset (db_all_ids d) = mset (live_ids ?s)" by (simp add: db_all_ids_def)
  then have "distinct (db_all_ids d)" using d by (metis mset_eq_imp_distinct_iff)
  ultimately have "sorted_wrt (<) (db_all_ids d)" by (simp add: strict_sorted_iff)
  moreover have "live_slots ?s = set ?is" by (auto simp: live_slots_def)
  then have "length (live_ids ?s) = vs_live_count ?s" using s by (simp add: vs_inv_def live_ids_def distinct_card [symmetric])
  ultimately show ?thesis using ids by (simp add: db_all_ids_def)
qed

text \<open>Further: The ids a database lists are exactly those it contains, each once, in ascending order.\<close>

theorem all_ids_are_the_live_ids:
  assumes "db_inv d"
  shows "set (db_all_ids d) = {vid. db_contains d vid} \<and> sorted_wrt (<) (db_all_ids d) \<and> length (db_all_ids d) = vs_live_count (db_store d)"
  by (rule all_ids_live [OF assms])

lemma all_ids_are_the_live_ids_witness: "set (db_all_ids (small_database small_store 8 [])) = {7}"
proof -
  have "db_contains (small_database small_store 8 []) vid \<longleftrightarrow> vid = 7" for vid
    by (simp add: db_contains_def small_database_def vs_contains_def vs_find_def small_store_def)
  then show ?thesis using all_ids_are_the_live_ids [OF small_inv, of 8 "[]"] by simp
qed

text \<open>Further: The ids a filter selects are exactly the live ones whose metadata are there and match, each once, in the order of the
  signed ids (so ids from \<open>2 ^ 63\<close> on come first).\<close>

theorem filter_ids_are_the_matches:
  assumes "sqlite_laws (en_sqlite env) content" and "db_holds content g d" and "db_filter_ids env f d = (Inr ids, d')"
  shows "sorted_wrt (\<lambda>i j. i <s j) ids \<and> set ids = {i. db_contains d i \<and> g i \<noteq> [] \<and> filter_matches f (read_md (g i))} \<and>
    db_holds content g d'"
proof -
  obtain l m where m: "ms_matching (en_sqlite env) f (db_metadata d) = (Inr l, m)" "d' = d\<lparr>db_metadata := m\<rparr>"
    and ids: "ids = filter (\<lambda>i. vs_contains (db_store d) i) l"
    using assms(3) by (auto simp: db_filter_ids_def db_read_def act_inv aret_def)
  have "holds_metadata (content (ms_db (db_metadata d))) g" using assms(2) by (simp add: db_holds_def)
  note o = ms_matching_stored [OF assms(1) this m(1)]
  then have "sorted_wrt (\<lambda>i j. i <s j) ids" unfolding ids by (blast intro: sorted_wrt_filter)
  moreover have "set ids = {i. db_contains d i \<and> g i \<noteq> [] \<and> filter_matches f (read_md (g i))}"
    using o by (auto simp: ids db_contains_def)
  moreover have "db_holds content g d'" using o assms(2) m(2) by (auto simp: db_holds_def ms_rest_def)
  ultimately show ?thesis by blast
qed

lemma filter_ids_are_the_matches_witness:
  "\<exists>ids d'. db_filter_ids small_env [] (small_database small_store 8 []) = (Inr ids, d') \<and> set ids = {7}"
proof -
  have q: "sq_query table_sqlite sql_select_all [] (ms_db (small_mstore [])) =
      (([[SqlInt 7, SqlText ''a'', SqlInt 1, SqlInt 1, SqlNull, SqlNull]], True), ms_db (small_mstore []))"
    by (simp add: table_sqlite_def td_query_def td_next_def small_mstore_def td_sorted_def sql_stored_def)
  have p: "sq_prepare table_sqlite sql db" for sql db by (simp add: table_sqlite_def)
  let ?st = "\<lparr>st_sql = sql_select_all, st_params = [], st_run = None\<rparr>"
  have "stmt_rows table_sqlite [] (ms_db (small_mstore []), ?st) =
      (Inr [[SqlInt 7, SqlText ''a'', SqlInt 1, SqlInt 1, SqlNull, SqlNull]], (ms_db (small_mstore []), ?st\<lparr>st_run := Some ([], True)\<rparr>))"
    using stmt_rows_fresh [of ?st table_sqlite "ms_db (small_mstore [])"] q by simp
  then have "\<exists>ids m. ms_matching table_sqlite [] (small_mstore []) = (Inr ids, m)"
    by (simp add: ms_matching_def abind_def on_db_def local_statement_def statement_prepare_def p)
  then obtain ids d' where run: "db_filter_ids small_env [] (small_database small_store 8 []) = (Inr ids, d')"
    by (auto simp: db_filter_ids_def db_read_def abind_def on_metadata_step small_database_def small_env_def)
  have "db_contains (small_database small_store 8 []) i \<longleftrightarrow> i = 7" for i
    by (simp add: db_contains_def small_database_def vs_contains_def vs_find_def small_store_def)
  then have "set ids = {7}"
    using filter_ids_are_the_matches [OF small_laws small_holds run] by (auto simp: small_metadata_def filter_matches_def)
  then show ?thesis using run by blast
qed

section \<open>Where the code falls short\<close>

text \<open>C37: An insert that fails while writing the metadata has already added the vector. With the next automatic id, every later
  automatic insert then fails with a duplicate id, whatever it inserts: the id is taken, and the counter only moves on
  success.\<close>

theorem failed_insert_blocks_automatic_ids:
  assumes "db_inv d" and "db_room d" and "\<not> db_contains d (db_next_auto_id d)" and "validate_vector v (dc_dimension (db_config d)) = Inr ()"
    and "md \<noteq> []" and "ms_set (en_sqlite env) (db_next_auto_id d) md (db_metadata d) = (Inl e, m)"
  shows "\<exists>d'. db_insert_auto env v md d = (Inl e, d') \<and> db_contains d' (db_next_auto_id d) \<and>
    (\<forall>v2 md2. db_insert_auto env v2 md2 d' = (Inl (DuplicateIdError (db_next_auto_id d)), d'))"
proof -
  let ?id = "db_next_auto_id d"
  have s: "vs_inv (db_store d)" "vs_dimension (db_store d) = dc_dimension (db_config d)" using assms(1) by (simp_all add: db_inv_def)
  have n: "vs_id_to_local (db_store d) ?id = None" using assms(3) by (simp add: db_contains_def vs_contains_def vs_find_def)
  have "vs_slot_count (db_store d) < kMaxVectorCount" using assms(2) by (simp add: db_room_def room_for_def)
  then obtain i t where ins: "vs_insert (db_store d) ?id v = Inr (i, t)"
    using vs_insert_total [OF s(1) n, of v] assms(4) s(2) by auto
  obtain d1 where d1: "index_add env i (refresh_accessor (d\<lparr>db_store := t\<rparr>)) = (Inr (), d1)" "db_store d1 = t"
    "d1 = d\<lparr>db_store := t, db_index := db_index d1, db_scratch := db_scratch d1\<rparr>"
    using insert_steps [OF assms(1,1,2) ins, of env] by blast
  have f: "db_metadata d1 = db_metadata d" "db_next_auto_id d1 = ?id" by (subst d1(3), simp)+
  let ?d = "d1\<lparr>db_metadata := m\<rparr>"
  have "db_insert env ?id v md d = (Inl e, ?d)"
    using ins d1(1) assms(5,6) f by (simp add: db_insert_def db_read_def abind_def db_update_def on_metadata_step)
  then have "db_insert_auto env v md d = (Inl e, ?d)" by (simp add: db_insert_auto_def db_read_def abind_def)
  moreover have "vs_id_to_local t ?id \<noteq> None" using vs_insert_ok(2) [OF s(1) ins] by (auto simp: vs_abs_def fun_eq_iff split: if_splits)
  then have "db_contains ?d ?id" "db_insert_auto env v2 md2 ?d = (Inl (DuplicateIdError ?id), ?d)" for v2 md2
    using d1(2) f(2) by (simp_all add: db_contains_def vs_contains_def vs_find_def db_insert_auto_def db_insert_def db_read_def abind_def vs_insert_def)
  ultimately show ?thesis by blast
qed

lemma failed_insert_blocks_automatic_ids_witness:
  "\<exists>d'. db_insert_auto small_env [0] [('''', MNull)] (small_database small_store 8 []) = (Inl InvalidArgumentError, d') \<and> db_contains d' 8 \<and>
     db_insert_auto small_env [0] [] d' = (Inl (DuplicateIdError 8), d')"
proof -
  let ?d = "small_database small_store 8 []"
  have "ms_set table_sqlite 8 [('''', MNull)] (small_mstore []) = (Inl InvalidArgumentError, small_mstore [])"
    by (simp add: ms_set_def abind_def)
  then show ?thesis
    using failed_insert_blocks_automatic_ids [OF small_inv small_room_store, of 8 "[]" "[0]" "[('''', MNull)]" small_env] zero_vector_valid
    by (force simp: small_database_def small_config_def small_env_def db_contains_def vs_contains_def vs_find_def small_store_def)
qed

text \<open>C38: Inserting the largest id wraps the counter to zero, so the next automatic insert takes id 0, and fails when that id
  is in use.\<close>

theorem largest_id_wraps_counter:
  assumes "db_inv d" and "db_room d" and "db_insert env (- 1) v md d = (Inr (), d')"
  shows "db_next_auto_id d' = 0 \<and>
    (db_contains d 0 \<longrightarrow> (\<forall>v2 md2. db_insert_auto env v2 md2 d' = (Inl (DuplicateIdError 0), d')))"
proof -
  have s: "vs_inv (db_store d)" using assms(1) by (simp add: db_inv_def)
  obtain i t where ins: "vs_insert (db_store d) (- 1) v = Inr (i, t)"
    using assms(3) by (auto simp: db_insert_def db_read_def act_inv alift_def)
  obtain d1 where d1: "index_add env i (refresh_accessor (d\<lparr>db_store := t\<rparr>)) = (Inr (), d1)" "db_store d1 = t"
    using insert_steps [OF assms(1,1,2) ins, of env] by blast
  have "abind (if md \<noteq> [] then
              abind (on_metadata (ms_set (en_sqlite env) (- 1) md)) (\<lambda>_. db_update (\<lambda>d. d\<lparr>db_has_metadata := True\<rparr>))
            else aret ()) (\<lambda>_. db_update (\<lambda>d. (if - 1 \<ge> db_next_auto_id d then d\<lparr>db_next_auto_id := - 1 + 1\<rparr> else d)\<lparr>db_dirty := True\<rparr>)) d1 = (Inr (), d')"
    using assms(3) ins d1(1) by (simp add: db_insert_def db_read_def abind_def db_update_def)
  then have d': "db_next_auto_id d' = 0" "db_store d' = t" using d1(2) by (auto simp: act_inv aret_def split: if_splits)
  have "vs_abs t = (vs_abs (db_store d))(- 1 \<mapsto> stored_row (vs_normalize (db_store d)) v)" by (rule vs_insert_ok(2) [OF s ins])
  then have "vs_abs t 0 = vs_abs (db_store d) 0" by simp
  then have "db_insert_auto env v2 md2 d' = (Inl (DuplicateIdError 0), d')" if "db_contains d 0" for v2 md2
    using that d' by (auto simp: db_contains_def contains_abs vs_abs_def db_insert_auto_def db_insert_def db_read_def abind_def vs_insert_def)
  then show ?thesis using d'(1) by blast
qed

lemma largest_id_wraps_counter_witness:
  "\<exists>d'. db_insert small_env (- 1) [0] [] (small_database small_store 8 []) = (Inr (), d') \<and> db_next_auto_id d' = 0"
proof -
  obtain i s where ins: "vs_insert small_store (- 1) [0] = Inr (i, s)"
    using vs_insert_total [OF small_store_inv, of "- 1" "[0]"] zero_vector_valid
    by (auto simp: small_store_def vs_slot_count_def vs_dimension_def kMaxVectorCount_def)
  from largest_id_wraps_counter [OF small_inv small_room_store small_insert [OF ins]] small_insert [OF ins] show ?thesis by blast
qed

text \<open>C39: Two valid requests are refused as if \<open>k\<close> were zero: an exact filtered search of a database without slots, and a filtered
  search whose \<open>k\<close> times the oversampling factor is a multiple of \<open>2 ^ 64\<close>.\<close>

theorem filtered_search_refuses_valid_requests:
  assumes "db_inv d" and "0 < qo_k opt" and "validate_vector q (dc_dimension (db_config d)) = Inr ()" and "qo_filter opt \<noteq> []"
    and "use_exact d opt \<and> vs_slot_count (db_store d) = 0 \<or>
      \<not> use_exact d opt \<and> 2 ^ 64 dvd qo_k opt * (if qo_filter_oversample opt > 0 then qo_filter_oversample opt else 8)"
  shows "db_search env q opt d = (Inl InvalidArgumentError, d)"
proof -
  have "asked d opt = 0" using assms(4,5) by (auto simp: asked_def fetch_count_def kDefaultFilterOversample_def dvd_eq_mod_eq_0)
  from search_no_k [OF assms(1) this] show ?thesis using assms(2,3) by (simp add: db_search_def db_read_def abind_def)
qed

lemma filtered_search_refuses_valid_requests_witness:
  "\<exists>s. vs_slot_count s = 0 \<and> db_search small_env [0] match_query (small_database s 0 []) = (Inl InvalidArgumentError, small_database s 0 [])"
proof -
  obtain s where s: "vs_new 1 False = Inr s" by (simp add: vs_new_def va_new_def kMaxDimension_def)
  note o = vs_new_ok [OF s]
  have "db_inv (small_database s 0 [])" by (rule small_database_inv) (use o in simp_all)
  from filtered_search_refuses_valid_requests [OF this, of match_query "[0]" small_env] new_store_empty [OF s] zero_vector_valid
  show ?thesis by (auto simp: match_query_def small_database_def small_config_def use_exact_def)
qed

end
