(* ===== verification/Vdb_Reopen.thy ===== *)
theory Vdb_Reopen
  imports Vdb_DatabaseProps
begin

text \<open>
  Closing a database and opening it again: what a flush that returns has written is what \<^verbatim>\<open>open\<close> reads back, through
  the vector file, the index file and the configuration rows; and a damaged index file costs a rebuild only.
\<close>

section \<open>Configuration rows\<close>

definition ms_conf :: "'db mstore \<Rightarrow> bool" where
  "ms_conf s \<longleftrightarrow> ms_set_config_value s = st_new sql_set_config \<and> ms_get_config_value s = st_new sql_get_config"

lemma config_statements:
  "st_new sql_set_config = \<lparr>st_sql = sql_set_config, st_params = [SqlNull, SqlNull], st_run = None\<rparr>"
  "st_new sql_get_config = \<lparr>st_sql = sql_get_config, st_params = [SqlNull], st_run = None\<rparr>"
  "st_new sql_schema_version = \<lparr>st_sql = sql_schema_version, st_params = [SqlNull], st_run = None\<rparr>"
  by (simp_all add: st_new_def sql_set_config_def sql_get_config_def sql_schema_version_def)

lemma same_mstore: "ms_conf s \<Longrightarrow> s\<lparr>ms_db := db, ms_get_config_value := \<lparr>st_sql = sql_get_config, st_params = [SqlNull], st_run = None\<rparr>\<rparr> = s\<lparr>ms_db := db\<rparr>"
  "ms_conf s \<Longrightarrow> s\<lparr>ms_db := db, ms_set_config_value := \<lparr>st_sql = sql_set_config, st_params = [SqlNull, SqlNull], st_run = None\<rparr>\<rparr> = s\<lparr>ms_db := db\<rparr>"
  by (cases s; simp add: ms_conf_def config_statements)+

lemma get_config_run:
  assumes c: "ms_conf s" and q: "sq_query sq sql_get_config [SqlText k] (ms_db s) = ((rows, ok), db)"
  shows "rows = [] \<Longrightarrow> \<not> ok \<Longrightarrow> fst (ms_get_config sq k s) = Inl MetadataError"
    and "rows = [] \<Longrightarrow> ok \<Longrightarrow> ms_get_config sq k s = (Inr None, s\<lparr>ms_db := db\<rparr>)"
    and "rows = r # rs \<Longrightarrow> ms_get_config sq k s = (Inr (Some (column_text sq r 0)), s\<lparr>ms_db := db\<rparr>)"
proof -
  have g: "ms_get_config_value s = \<lparr>st_sql = sql_get_config, st_params = [SqlNull], st_run = None\<rparr>"
    using c by (simp add: ms_conf_def config_statements)
  show "rows = [] \<Longrightarrow> \<not> ok \<Longrightarrow> fst (ms_get_config sq k s) = Inl MetadataError"
    using q by (simp add: ms_get_config_def statement_defs Let_def g)
  show "rows = [] \<Longrightarrow> ok \<Longrightarrow> ms_get_config sq k s = (Inr None, s\<lparr>ms_db := db\<rparr>)"
    "rows = r # rs \<Longrightarrow> ms_get_config sq k s = (Inr (Some (column_text sq r 0)), s\<lparr>ms_db := db\<rparr>)"
    using q by (simp_all add: ms_get_config_def statement_defs Let_def g same_mstore(1) [OF c])
qed

lemma get_config_cases:
  assumes laws: "sqlite_laws sq content" and c: "ms_conf s" and g: "ms_get_config sq k s = (r, s')"
  shows "r = Inl MetadataError \<or>
    (r = Inr (sc_config (content (ms_db s)) k) \<and> (\<exists>db. s' = s\<lparr>ms_db := db\<rparr> \<and> content db = content (ms_db s)))"
proof -
  obtain rows ok db where q: "sq_query sq sql_get_config [SqlText k] (ms_db s) = ((rows, ok), db)" by (metis prod.collapse)
  have l: "law_get_config sq content" using laws by (simp add: sqlite_laws_def)
  note law = l [unfolded law_get_config_def, rule_format, OF q]
  note run = get_config_run [OF c q]
  show ?thesis
  proof (cases rows)
    case Nil
    then show ?thesis using run(1,2) g law by (cases ok) (auto split: option.splits)
  next
    case (Cons row rs)
    then obtain v where v: "sc_config (content (ms_db s)) k = Some v" "row = [SqlText v]" using law by (auto split: option.splits)
    then show ?thesis using run(3) [OF Cons] g law by (auto simp: column_text_def)
  qed
qed

lemma set_config_cases:
  assumes laws: "sqlite_laws sq content" and c: "ms_conf s" and g: "ms_set_config sq k v s = (r, s')"
  shows "r = Inl MetadataError \<or>
    (r = Inr () \<and> (\<exists>db. s' = s\<lparr>ms_db := db\<rparr> \<and> content db = (content (ms_db s))\<lparr>sc_config := (sc_config (content (ms_db s)))(k \<mapsto> v)\<rparr>))"
proof -
  obtain rows ok db where q: "sq_query sq sql_set_config [SqlText k, SqlText v] (ms_db s) = ((rows, ok), db)" by (metis prod.collapse)
  have l: "law_set_config sq content" using laws by (simp add: sqlite_laws_def)
  note law = l [unfolded law_set_config_def, rule_format, OF q]
  have st: "ms_set_config_value s = \<lparr>st_sql = sql_set_config, st_params = [SqlNull, SqlNull], st_run = None\<rparr>"
    using c by (simp add: ms_conf_def config_statements)
  show ?thesis
  proof (cases ok)
    case True
    then have "ms_set_config sq k v s = (Inr (), s\<lparr>ms_db := db\<rparr>)"
      using q law by (simp add: ms_set_config_def statement_defs Let_def st same_mstore(2) [OF c])
    then show ?thesis using g law True by auto
  next
    case False
    then have "fst (ms_set_config sq k v s) = Inl MetadataError"
      using q law by (simp add: ms_set_config_def statement_defs Let_def st)
    then show ?thesis using g by simp
  qed
qed

section \<open>Numbers in the configuration\<close>

lemma parse_shown: "n < 2 ^ 64 \<Longrightarrow> parse_u64 (Some (show_nat n)) = Inr (word_of_nat n)"
  by (simp add: parse_u64_def stoull_shown)

text \<open>A configuration whose fields fit the types they are stored in.\<close>

definition config_fits :: "database_config \<Rightarrow> bool" where
  "config_fits c \<longleftrightarrow> dc_validate c = Inr () \<and> hc_m (dc_hnsw c) < 2 ^ 32 \<and> hc_ef_construction (dc_hnsw c) < 2 ^ 32 \<and> hc_ef_search (dc_hnsw c) < 2 ^ 32"

definition config_stored :: "sql_content \<Rightarrow> database_config \<Rightarrow> bool" where
  "config_stored s c \<longleftrightarrow> (\<forall>(k, v)\<in>set (butlast (config_rows c 0)). sc_config s k = Some v)"

lemma config_stored_rows:
  "config_stored s c \<longleftrightarrow> sc_config s kKeyDimension = Some (show_nat (dc_dimension c)) \<and> sc_config s kKeyMetric = Some (metric_name (dc_metric c)) \<and>
     sc_config s kKeyIndexType = Some (index_type_name (dc_index_type c)) \<and> sc_config s kKeyNormalize = Some (if dc_normalize c then ''1'' else ''0'') \<and>
     sc_config s kKeyHnswM = Some (show_nat (hc_m (dc_hnsw c))) \<and>
     sc_config s kKeyHnswEfConstruction = Some (show_nat (hc_ef_construction (dc_hnsw c))) \<and>
     sc_config s kKeyHnswEfSearch = Some (show_nat (hc_ef_search (dc_hnsw c))) \<and>
     sc_config s kKeyHnswSeed = Some (show_nat (unat (hc_seed (dc_hnsw c))))"
  by (auto simp: config_stored_def config_rows_def)

text \<open>
  A step of opening, on tables \<open>C\<close> and files \<open>W\<close>: it fails because SQLite or the file system failed, or returns a value
  of which \<open>Q\<close> holds, and leaves both as they were.
\<close>

definition opens :: "('db \<Rightarrow> sql_content) \<Rightarrow> sql_content \<Rightarrow> (string \<Rightarrow> byte list option) \<Rightarrow> 'db mstore \<Rightarrow> ('db, 'a) open_act \<Rightarrow> ('a \<Rightarrow> bool) \<Rightarrow> bool" where
  "opens content C W M f Q \<longleftrightarrow> (\<forall>db w r mw. content db = C \<longrightarrow> visible w = W \<longrightarrow> f (M\<lparr>ms_db := db\<rparr>, w) = (r, mw) \<longrightarrow>
     r = Inl MetadataError \<or> r = Inl IoError \<or>
     (\<exists>x db' w'. r = Inr x \<and> Q x \<and> mw = (M\<lparr>ms_db := db'\<rparr>, w') \<and> content db' = C \<and> visible w' = W))"

lemma opensI:
  assumes "\<And>db w r mw. content db = C \<Longrightarrow> visible w = W \<Longrightarrow> f (M\<lparr>ms_db := db\<rparr>, w) = (r, mw) \<Longrightarrow>
     r = Inl MetadataError \<or> r = Inl IoError \<or>
     (\<exists>x db' w'. r = Inr x \<and> Q x \<and> mw = (M\<lparr>ms_db := db'\<rparr>, w') \<and> content db' = C \<and> visible w' = W)"
  shows "opens content C W M f Q"
  using assms unfolding opens_def by blast

lemma opensD:
  assumes "opens content C W M f Q" "content db = C" "visible w = W" "f (M\<lparr>ms_db := db\<rparr>, w) = (r, mw)"
  obtains "r = Inl MetadataError \<or> r = Inl IoError"
  | x db' w' where "r = Inr x" "Q x" "mw = (M\<lparr>ms_db := db'\<rparr>, w')" "content db' = C" "visible w' = W"
  using assms unfolding opens_def by blast

lemma opens_bind:
  assumes f: "opens content C W M f Q" and g: "\<And>x. Q x \<Longrightarrow> opens content C W M (g x) R"
  shows "opens content C W M (abind f g) R"
proof (rule opensI)
  fix db w r mw
  assume m: "content db = C" "visible w = W" and run: "abind f g (M\<lparr>ms_db := db\<rparr>, w) = (r, mw)"
  obtain r1 s1 where f1: "f (M\<lparr>ms_db := db\<rparr>, w) = (r1, s1)" by (cases "f (M\<lparr>ms_db := db\<rparr>, w)")
  from f m f1 show "r = Inl MetadataError \<or> r = Inl IoError \<or>
     (\<exists>x db' w'. r = Inr x \<and> R x \<and> mw = (M\<lparr>ms_db := db'\<rparr>, w') \<and> content db' = C \<and> visible w' = W)"
  proof (cases rule: opensD)
    case 1
    then show ?thesis using run f1 by (auto simp: abind_def)
  next
    case (2 x db1 w1)
    then have "g x (M\<lparr>ms_db := db1\<rparr>, w1) = (r, mw)" using run f1 by (simp add: abind_def)
    with g [OF 2(2)] 2(4,5) show ?thesis by (cases rule: opensD) blast+
  qed
qed

lemma opens_lift: "Q x \<Longrightarrow> opens content C W M (alift (Inr x)) Q" "Q x \<Longrightarrow> opens content C W M (aret x) Q"
  by (auto simp: opens_def)

lemma opens_config:
  assumes laws: "sqlite_laws (en_sqlite env) content" and M: "ms_conf M"
  shows "opens content C W M (open_config env k) (\<lambda>v. v = sc_config C k)"
proof (rule opensI)
  fix db w r mw
  assume m: "content db = C" "visible w = W" and run: "open_config env k (M\<lparr>ms_db := db\<rparr>, w) = (r, mw)"
  obtain r1 m1 where g: "ms_get_config (en_sqlite env) k (M\<lparr>ms_db := db\<rparr>) = (r1, m1)" by fastforce
  have e: "r = r1" "mw = (m1, w)" using run g by (simp_all add: open_config_def azoom_def)
  have c: "ms_conf (M\<lparr>ms_db := db\<rparr>)" using M by (simp add: ms_conf_def)
  show "r = Inl MetadataError \<or> r = Inl IoError \<or>
     (\<exists>x db' w'. r = Inr x \<and> x = sc_config C k \<and> mw = (M\<lparr>ms_db := db'\<rparr>, w') \<and> content db' = C \<and> visible w' = W)"
    using get_config_cases [OF laws c g] m e by auto
qed

lemma opens_u64:
  assumes "sqlite_laws (en_sqlite env) content" "ms_conf M" "n < 2 ^ 64" "sc_config C k = Some (show_nat n)"
  shows "opens content C W M (open_u64 env k) (\<lambda>v. v = word_of_nat n)"
  unfolding open_u64_def
  by (rule opens_bind [OF opens_config [OF assms(1,2)]]) (simp add: assms(4) parse_shown [OF assms(3)] opens_lift)

lemma opens_read_config:
  assumes laws: "sqlite_laws (en_sqlite env) content" and M: "ms_conf M" and st: "config_stored C c" and fits: "config_fits c"
  shows "opens content C W M (read_config env) (\<lambda>v. v = c)"
proof -
  note s = st [unfolded config_stored_rows] and cfg = opens_bind [OF opens_config [OF laws M, of C W]]
  have b: "dc_dimension c < 2 ^ 64" "hc_m (dc_hnsw c) < 2 ^ 64" "hc_ef_construction (dc_hnsw c) < 2 ^ 64"
    "hc_ef_search (dc_hnsw c) < 2 ^ 64" "unat (hc_seed (dc_hnsw c)) < 2 ^ 64" "dc_validate c = Inr ()" "dc_dimension c < 2 ^ 32"
    using fits unsigned_less [of "hc_seed (dc_hnsw c)"] by (auto simp: config_fits_def dc_validate_def result_simps kMaxDimension_def)
  note num = opens_bind [OF opens_u64 [OF laws M]]
  have e: "\<lparr>dc_dimension = cast_u32 (unat (word_of_nat (dc_dimension c) :: u64)), dc_metric = dc_metric c, dc_index_type = dc_index_type c,
      dc_hnsw = \<lparr>hc_m = unat (word_of_nat (hc_m (dc_hnsw c)) :: u64), hc_ef_construction = unat (word_of_nat (hc_ef_construction (dc_hnsw c)) :: u64),
        hc_ef_search = unat (word_of_nat (hc_ef_search (dc_hnsw c)) :: u64), hc_seed = word_of_nat (unat (hc_seed (dc_hnsw c)))\<rparr>,
      dc_normalize = (case sc_config C kKeyNormalize of None \<Rightarrow> False | Some t \<Rightarrow> t = ''1'')\<rparr> = c"
    using b s by (cases c; cases "dc_hnsw c") (simp add: unat_of_nat cast_u32_def)
  have last: "opens content C W M (abind (alift (dc_validate c)) (\<lambda>_. aret c)) (\<lambda>v. v = c)"
    unfolding b(6) by (intro opens_bind [OF opens_lift(1)] opens_lift) simp_all
  show ?thesis
    unfolding read_config_def
    by (rule num [OF b(1)], simp add: s, simp, rule cfg, simp add: s, rule cfg, simp add: s, rule cfg, simp,
        rule num [OF b(2)], simp add: s, simp, rule num [OF b(3)], simp add: s, simp, rule num [OF b(4)], simp add: s, simp,
        rule num [OF b(5)], simp add: s, simp only: Let_def e, rule last)
qed

section \<open>Opening\<close>

lemma open_files_map:
  assumes "open_files (map_file path) (m, w) = (r, mw)"
  obtains w' where "mw = (m, w')" "visible w' = visible w" "r = Inl IoError \<or> (\<exists>bs. r = Inr bs \<and> visible w path = Some bs)"
proof -
  obtain r1 w1 where "map_file path w = (r1, w1)" by fastforce
  then show ?thesis using assms map_file_cases that by (auto simp: open_files_def azoom_def)
qed

lemma opens_store:
  assumes vis: "W (vector_file_path dir) = Some bytes" and rd: "read_vector_file bytes = Inr s"
  shows "opens content C W M (open_store dir c) (\<lambda>v. v = s)"
proof (rule opensI)
  fix db w r mw
  assume m: "content db = C" "visible w = W" and run: "open_store dir c (M\<lparr>ms_db := db\<rparr>, w) = (r, mw)"
  let ?read = "open_files (map_file (vector_file_path dir)) (M\<lparr>ms_db := db\<rparr>, w)"
  obtain q mw1 where o: "?read = (q, mw1)" by (cases ?read)
  have e: "abind (open_files (map_file (vector_file_path dir))) (\<lambda>bytes. alift (read_vector_file bytes)) (M\<lparr>ms_db := db\<rparr>, w) = (r, mw)"
    using run vis m by (simp add: open_store_def exists_visible)
  from o show "r = Inl MetadataError \<or> r = Inl IoError \<or>
     (\<exists>x db' w'. r = Inr x \<and> x = s \<and> mw = (M\<lparr>ms_db := db'\<rparr>, w') \<and> content db' = C \<and> visible w' = W)"
    by (rule open_files_map) (use e o vis rd m in \<open>auto simp: abind_def intro!: exI [of _ db]\<close>)
qed

lemma opens_index:
  assumes ok: "dc_index_type c = Hnsw \<longrightarrow> index_file_ok env dir c s W"
  shows "opens content C W M (load_index env dir c s) (\<lambda>l. l = None \<or> (\<exists>h bytes. l = Some h \<and> dc_index_type c = Hnsw \<and>
    W (index_file_path dir) = Some bytes \<and> read_hnsw_file bytes (vs_accessor s) (dc_metric c) (dc_dimension c) (en_kernel env) = Inr h))"
    (is "opens _ _ _ _ _ ?Q")
proof (rule opensI)
  fix db w r mw
  assume m: "content db = C" "visible w = W" and run: "load_index env dir c s (M\<lparr>ms_db := db\<rparr>, w) = (r, mw)"
  let ?M = "M\<lparr>ms_db := db\<rparr>" and ?goal = "r = Inl MetadataError \<or> r = Inl IoError \<or>
     (\<exists>x db' w'. r = Inr x \<and> ?Q x \<and> mw = (M\<lparr>ms_db := db'\<rparr>, w') \<and> content db' = C \<and> visible w' = W)"
  show ?goal
  proof (cases "dc_index_type c = Hnsw \<and> file_exists (index_file_path dir) w")
    case False
    then have "r = Inr None" "mw = (?M, w)" using run by (auto simp: load_index_def)
    then show ?thesis using m by blast
  next
    case True
    let ?read = "open_files (map_file (index_file_path dir))"
    obtain q mw1 where o: "?read (?M, w) = (q, mw1)" by (cases "?read (?M, w)")
    have e: "acatch (abind ?read (\<lambda>bytes.
           abind (alift (read_hnsw_file bytes (vs_accessor s) (dc_metric c) (dc_dimension c) (en_kernel env))) (\<lambda>ix. aret (Some ix))))
         (\<lambda>e. if is_corruption e \<or> is_io_error e then aret None else athrow e) (?M, w) = (r, mw)"
      using run True by (simp add: load_index_def)
    from o show ?thesis
    proof (rule open_files_map)
      fix w' assume w': "mw1 = (?M, w')" "visible w' = visible w"
        and q: "q = Inl IoError \<or> (\<exists>bs. q = Inr bs \<and> visible w (index_file_path dir) = Some bs)"
      from q show ?thesis
      proof (elim disjE exE conjE)
        assume "q = Inl IoError"
        then have "r = Inr None" "mw = (?M, w')" using e o w'(1) by (simp_all add: acatch_def abind_def)
        then show ?thesis using m w'(2) by blast
      next
        fix bs assume bs: "q = Inr bs" "visible w (index_file_path dir) = Some bs"
        let ?rd = "read_hnsw_file bs (vs_accessor s) (dc_metric c) (dc_dimension c) (en_kernel env)"
        have k: "?rd = Inl x \<Longrightarrow> is_corruption x" for x
          using ok True bs(2) m(2) unfolding index_file_ok_def by (auto split: sum.splits)
        have "mw = (?M, w')" "r = (case ?rd of Inl _ \<Rightarrow> Inr None | Inr h \<Rightarrow> Inr (Some h))"
          using e o w'(1) bs(1) k by (cases ?rd; auto simp: acatch_def abind_def)+
        then show ?thesis using bs(2) True m w'(2) by (cases ?rd) (auto intro!: exI [of _ db])
      qed
    qed
  qed
qed

text \<open>
  What opening does to the tables: the pragmas, the schema script (its tables are created if they are not there) and
  the version row change no metadata and no other configuration row.
\<close>

definition law_open :: "'db sqlite \<Rightarrow> string \<Rightarrow> ('db \<Rightarrow> sql_content) \<Rightarrow> bool" where
  "law_open sq schema content \<longleftrightarrow>
     (\<forall>sql\<in>{kPragmas, schema}. \<forall>db db'. sq_exec sq sql db = (True, db') \<longrightarrow> content db' = content db) \<and>
     (\<forall>v db rows ok db'. sq_query sq sql_schema_version [SqlText v] db = ((rows, ok), db') \<longrightarrow>
        (\<exists>cfg. content db' = (content db)\<lparr>sc_config := cfg\<rparr> \<and> (\<forall>k. k \<noteq> ''schema_version'' \<longrightarrow> cfg k = sc_config (content db) k)))"

definition fresh_mstore :: "'db \<Rightarrow> 'db mstore" where
  "fresh_mstore db = \<lparr>ms_db = db, ms_insert_value = st_new sql_insert_value, ms_select_by_vector = st_new sql_select_by_vector,
     ms_delete_by_vector = st_new sql_delete_by_vector, ms_delete_key = st_new sql_delete_key,
     ms_set_config_value = st_new sql_set_config, ms_get_config_value = st_new sql_get_config, ms_transaction = None, ms_depth = 0\<rparr>"

lemma prepared: "statement_prepare sq sql db = (r, db') \<Longrightarrow> db' = db \<and> (r = Inl MetadataError \<or> r = Inr (st_new sql))"
  by (auto simp: statement_prepare_def split: if_splits)

lemma abind_prepare:
  "abind (statement_prepare sq sql) f db = (if sq_prepare sq sql db then f (st_new sql) db else (Inl MetadataError, db))"
  by (simp add: abind_def statement_prepare_def)

lemma ms_open_cases:
  assumes law: "law_open sq schema content"
  obtains "ms_open sq schema (Some db) = Inl MetadataError"
  | db' cfg where "ms_open sq schema (Some db) = Inr (fresh_mstore db')" "content db' = (content db)\<lparr>sc_config := cfg\<rparr>"
      "\<forall>k. k \<noteq> ''schema_version'' \<longrightarrow> cfg k = sc_config (content db) k"
proof -
  obtain ok1 db1 where x1: "sq_exec sq kPragmas db = (ok1, db1)" by fastforce
  obtain ok2 db2 where x2: "sq_exec sq schema db1 = (ok2, db2)" by fastforce
  obtain rows ok3 db3 where x3: "sq_query sq sql_schema_version [SqlText (show_nat kSchemaVersion)] db2 = ((rows, ok3), db3)" by (metis prod.collapse)
  let ?ver = "local_statement sq sql_schema_version (abind (bind_text 1 (show_nat kSchemaVersion)) (\<lambda>_. stmt_run sq))"
  show ?thesis
  proof (cases "ok1 \<and> ok2 \<and> sq_prepare sq sql_schema_version db2 \<and> rows = [] \<and> ok3 \<and>
      sq_prepare sq sql_insert_value db3 \<and> sq_prepare sq sql_select_by_vector db3 \<and> sq_prepare sq sql_delete_by_vector db3 \<and>
      sq_prepare sq sql_delete_key db3 \<and> sq_prepare sq sql_set_config db3 \<and> sq_prepare sq sql_get_config db3")
    case True
    have v: "?ver db2 = (Inr (), db3)"
      using True x3 by (simp add: local_statement_def statement_prepare_def config_statements(3) statement_defs Let_def)
    have "ms_open sq schema (Some db) = Inr (fresh_mstore db3)"
      using True x1 x2 v
      by (simp add: ms_open_def connection_open_def connection_execute_def abind_step abind_prepare fresh_mstore_def del: statement_params)
    moreover obtain cfg where "content db3 = (content db2)\<lparr>sc_config := cfg\<rparr>" "\<forall>k. k \<noteq> ''schema_version'' \<longrightarrow> cfg k = sc_config (content db2) k"
      using law x3 unfolding law_open_def by blast
    moreover have "content db2 = content db" using law x1 x2 True unfolding law_open_def by auto
    ultimately show ?thesis using that(2) by auto
  next
    case False
    have v: "?ver db2 = (Inl MetadataError, db2) \<or> ?ver db2 = (Inl MetadataError, db3) \<or> (?ver db2 = (Inr (), db3) \<and> rows = [] \<and> ok3 \<and> sq_prepare sq sql_schema_version db2)"
      using x3 by (cases rows) (auto simp: local_statement_def statement_prepare_def config_statements(3) statement_defs Let_def)
    have "ms_open sq schema (Some db) = Inl MetadataError"
      using False x1 x2 v
      by (auto simp: ms_open_def connection_open_def connection_execute_def abind_def abind_prepare statement_prepare_def simp del: statement_params)
    then show ?thesis using that(1) by blast
  qed
qed

lemma vector_count_cases:
  assumes laws: "sqlite_laws sq content" and run: "ms_vector_count sq m = (r, m')"
  shows "r = Inl MetadataError \<or> (\<exists>n db. r = Inr n \<and> m' = m\<lparr>ms_db := db\<rparr> \<and> content db = content (ms_db m) \<and>
    (0 < n \<longleftrightarrow> (\<exists>vid. sc_meta (content (ms_db m)) vid \<noteq> Map.empty)))"
proof -
  have st: "st_new sql_count_distinct = \<lparr>st_sql = sql_count_distinct, st_params = [], st_run = None\<rparr>"
    by (simp add: st_new_def sql_count_distinct_def)
  obtain rows ok db where q: "sq_query sq sql_count_distinct [] (ms_db m) = ((rows, ok), db)" by (metis prod.collapse)
  have l: "law_count_all sq content" using laws by (simp add: sqlite_laws_def)
  note law = l [unfolded law_count_all_def, rule_format, OF q]
  show ?thesis
  proof (cases "sq_prepare sq sql_count_distinct (ms_db m) \<and> rows \<noteq> []")
    case True
    then obtain n where n: "rows = [[SqlInt n]]" "n \<noteq> 0 \<longleftrightarrow> (\<exists>vid. sc_meta (content (ms_db m)) vid \<noteq> Map.empty)" using law by blast
    have e: "ms_vector_count sq m = (Inr (unat n), m\<lparr>ms_db := db\<rparr>)"
      using True q n(1) by (simp add: ms_vector_count_def count_query_def on_db_def local_statement_def statement_prepare_def st statement_defs Let_def column_int64_def)
    have "0 < unat n \<longleftrightarrow> n \<noteq> 0" by (simp add: unat_gt_0)
    then show ?thesis using e run law n(2) by auto
  next
    case False
    then have "fst (ms_vector_count sq m) = Inl MetadataError"
      using q law by (auto simp: ms_vector_count_def count_query_def on_db_def local_statement_def statement_prepare_def st statement_defs Let_def)
    then show ?thesis using run by simp
  qed
qed

lemma opens_count:
  assumes laws: "sqlite_laws (en_sqlite env) content"
  shows "opens content C W M (azoom fst (\<lambda>m (_, w). (m, w)) (ms_vector_count (en_sqlite env))) (\<lambda>n. 0 < n \<longleftrightarrow> (\<exists>vid. sc_meta C vid \<noteq> Map.empty))"
proof (rule opensI)
  fix db w r mw
  assume m: "content db = C" "visible w = W"
    and run: "azoom fst (\<lambda>m (_, w). (m, w)) (ms_vector_count (en_sqlite env)) (M\<lparr>ms_db := db\<rparr>, w) = (r, mw)"
  obtain r1 m1 where g: "ms_vector_count (en_sqlite env) (M\<lparr>ms_db := db\<rparr>) = (r1, m1)" by fastforce
  have e: "r = r1" "mw = (m1, w)" using run g by (simp_all add: azoom_def)
  show "r = Inl MetadataError \<or> r = Inl IoError \<or> (\<exists>x db' w'. r = Inr x \<and> (0 < x \<longleftrightarrow> (\<exists>vid. sc_meta C vid \<noteq> Map.empty)) \<and>
      mw = (M\<lparr>ms_db := db'\<rparr>, w') \<and> content db' = C \<and> visible w' = W)"
    using vector_count_cases [OF laws g] m e by auto
qed

text \<open>What is on disk for a database with configuration \<open>c\<close>, vectors \<open>s\<close>, metadata \<open>g\<close> and next id \<open>n\<close>.\<close>

definition on_disk :: "'db env \<Rightarrow> string \<Rightarrow> database_config \<Rightarrow> vector_store \<Rightarrow> (u64 \<Rightarrow> metadata) \<Rightarrow> u64 \<Rightarrow> sql_content \<Rightarrow> (string \<Rightarrow> byte list option) \<Rightarrow> bool" where
  "on_disk env dir c s g n C W \<longleftrightarrow>
     config_stored C c \<and> sc_config C kKeyNextId = Some (show_nat (unat n)) \<and> sc_saved C = None \<and>
     holds_metadata C g \<and> (\<exists>bytes. W (vector_file_path dir) = Some bytes \<and> read_vector_file bytes = Inr s) \<and>
     (dc_index_type c = Hnsw \<longrightarrow> index_file_ok env dir c s W)"

lemma keys_not_version:
  "k \<in> {kKeyDimension, kKeyMetric, kKeyIndexType, kKeyNormalize, kKeyHnswM, kKeyHnswEfConstruction, kKeyHnswEfSearch, kKeyHnswSeed, kKeyNextId} \<Longrightarrow>
   k \<noteq> ''schema_version''"
  by (auto simp: kKeyDimension_def kKeyMetric_def kKeyIndexType_def kKeyNormalize_def kKeyHnswM_def kKeyHnswEfConstruction_def
      kKeyHnswEfSearch_def kKeyHnswSeed_def kKeyNextId_def)

lemma on_disk_version:
  assumes "on_disk env dir c s g n C W" "C' = C\<lparr>sc_config := cfg\<rparr>" "\<forall>k. k \<noteq> ''schema_version'' \<longrightarrow> cfg k = sc_config C k"
  shows "on_disk env dir c s g n C' W"
proof -
  have "cfg k = sc_config C k"
    if "k \<in> {kKeyDimension, kKeyMetric, kKeyIndexType, kKeyNormalize, kKeyHnswM, kKeyHnswEfConstruction, kKeyHnswEfSearch, kKeyHnswSeed, kKeyNextId}" for k
    using keys_not_version [OF that] assms(3) by blast
  then show ?thesis using assms(1,2) by (simp add: on_disk_def config_stored_rows holds_metadata_def)
qed

text \<open>The database opening should give.\<close>

definition opened :: "('db \<Rightarrow> sql_content) \<Rightarrow> 'db env \<Rightarrow> string \<Rightarrow> database_config \<Rightarrow> vector_store \<Rightarrow> (u64 \<Rightarrow> metadata) \<Rightarrow> u64 \<Rightarrow>
    (string \<Rightarrow> byte list option) \<Rightarrow> 'db database \<Rightarrow> bool" where
  "opened content env dir c s g n W d \<longleftrightarrow> db_inv d \<and> db_holds content g d \<and> db_config d = c \<and> db_store d = s \<and> db_next_auto_id d = n \<and>
     db_directory d = dir \<and> ms_conf (db_metadata d) \<and> on_disk env dir c s g n (content (ms_db (db_metadata d))) W \<and>
     visible (db_world d) = W \<and>
     (if db_dirty d then dc_index_type c = Hnsw
      else dc_index_type c = Hnsw \<longrightarrow> (\<exists>h bytes. db_index d = HnswIndex h \<and> W (index_file_path dir) = Some bytes \<and>
        read_hnsw_file bytes (vs_accessor s) (dc_metric c) (dc_dimension c) (en_kernel env) = Inr h))"

text \<open>The index that was loaded, or else a new one.\<close>

lemma loaded_or_built:
  assumes "vs_inv s" "config_fits c" "room_for c (vs_slot_count s)" "vst_inv v" "dc_index_type c = Hnsw \<longrightarrow> index_file_ok env dir c s W"
    and "l = None \<or> (\<exists>h bytes. l = Some h \<and> dc_index_type c = Hnsw \<and>
      W (index_file_path dir) = Some bytes \<and> read_hnsw_file bytes (vs_accessor s) (dc_metric c) (dc_dimension c) (en_kernel env) = Inr h)"
  shows "\<exists>ix v'. (case l of Some h \<Rightarrow> Inr (HnswIndex h, v) | None \<Rightarrow> built_index env c s v) = Inr (ix, v') \<and> ix_good ix (vs_slot_count s) \<and>
    ix_accessor ix = vs_accessor s \<and> ix_info ix = (dc_metric c, if dc_index_type c = Hnsw then Some (dc_hnsw c) else None) \<and> vst_inv v'"
  using assms(6)
proof (elim disjE exE conjE)
  assume "l = None"
  then show ?thesis using built_index_ok [OF assms(1) _ assms(4,3), of env] assms(2) by (simp add: config_fits_def)
next
  fix h bytes
  assume "l = Some h" "dc_index_type c = Hnsw" "W (index_file_path dir) = Some bytes"
    "read_hnsw_file bytes (vs_accessor s) (dc_metric c) (dc_dimension c) (en_kernel env) = Inr h"
  then show ?thesis using assms(4,5) by (auto simp: index_file_ok_def ix_defs)
qed

lemma open_cases:
  assumes laws: "sqlite_laws (en_sqlite env) content" "law_open (en_sqlite env) (en_schema env) content"
    and h: "ho_is_directory host" "visible (ho_world host) (metadata_file_path dir) \<noteq> None" "ho_sqlite host = Some db" "vst_inv (ho_scratch host)"
    and disk: "on_disk env dir c s g n (content db) (visible (ho_world host))" and fits: "config_fits c"
    and s: "vs_inv s" "vs_dimension s = dc_dimension c" "vs_normalize s = dc_normalize c" "room_for c (vs_slot_count s)"
  shows "db_open env dir host \<in> {Inl MetadataError, Inl IoError} \<or>
    (\<exists>d. db_open env dir host = Inr d \<and> opened content env dir c s g n (visible (ho_world host)) d)"
  using laws(2)
proof (rule ms_open_cases [of _ _ _ db])
  assume "ms_open (en_sqlite env) (en_schema env) (Some db) = Inl MetadataError"
  then show ?thesis using h by (simp add: db_open_def guard_throw_def exists_visible)
next
  let ?W = "visible (ho_world host)"
  fix db0 cfg
  assume m0: "ms_open (en_sqlite env) (en_schema env) (Some db) = Inr (fresh_mstore db0)"
    and c0: "content db0 = (content db)\<lparr>sc_config := cfg\<rparr>" "\<forall>k. k \<noteq> ''schema_version'' \<longrightarrow> cfg k = sc_config (content db) k"
  let ?M = "fresh_mstore db0" and ?C = "content db0"
  have here: "on_disk env dir c s g n ?C ?W" by (rule on_disk_version [OF disk c0])
  then obtain bytes where vis: "?W (vector_file_path dir) = Some bytes" "read_vector_file bytes = Inr s"
    and st: "config_stored ?C c" and nx: "sc_config ?C kKeyNextId = Some (show_nat (unat n))" and saved: "sc_saved ?C = None"
    and iok: "dc_index_type c = Hnsw \<longrightarrow> index_file_ok env dir c s ?W" and hg: "holds_metadata ?C g" by (auto simp: on_disk_def)
  have M: "ms_conf ?M" "?M = ?M\<lparr>ms_db := db0\<rparr>" by (simp_all add: ms_conf_def fresh_mstore_def)
  have p: "parse_u64 (Some (case Some (show_nat (unat n)) of None \<Rightarrow> ''0'' | Some t \<Rightarrow> t)) = Inr n"
    using parse_shown [of "unat n"] unsigned_less [of n] by simp
  let ?chain = "abind (read_config env) (\<lambda>c.
          abind (open_store dir c) (\<lambda>s.
          abind (aguard (vs_dimension s \<noteq> dc_dimension c) CorruptionError) (\<lambda>_.
          abind (open_config env kKeyNextId) (\<lambda>next_text.
          abind (alift (parse_u64 (Some (case next_text of None \<Rightarrow> ''0'' | Some t \<Rightarrow> t)))) (\<lambda>next_id.
          abind (azoom fst (\<lambda>m (_, w). (m, w)) (ms_vector_count (en_sqlite env))) (\<lambda>vectors.
          abind (load_index env dir c s) (\<lambda>loaded.
          abind (alift (case loaded of
                   Some ix \<Rightarrow> Inr (HnswIndex ix, ho_scratch host)
                 | None \<Rightarrow> built_index env c s (ho_scratch host))) (\<lambda>(ix, scratch) (m, w).
          (Inr \<lparr>db_directory = dir, db_config = c, db_store = s, db_metadata = m, db_index = ix, db_next_auto_id = next_id,
                db_dirty = (loaded = None \<and> dc_index_type c = Hnsw), db_has_metadata = (vectors > 0),
                db_scratch = scratch, db_world = w\<rparr>, (m, w))))))))))"
  have fin: "opens content ?C ?W ?M (abind (alift (case loaded of
                   Some ix \<Rightarrow> Inr (HnswIndex ix, ho_scratch host)
                 | None \<Rightarrow> built_index env c s (ho_scratch host))) (\<lambda>(ix, scratch) (m, w).
          (Inr \<lparr>db_directory = dir, db_config = c, db_store = s, db_metadata = m, db_index = ix, db_next_auto_id = n,
                db_dirty = (loaded = None \<and> dc_index_type c = Hnsw), db_has_metadata = (vectors > 0),
                db_scratch = scratch, db_world = w\<rparr>, (m, w)))) (opened content env dir c s g n ?W)"
    if k: "0 < vectors \<longleftrightarrow> (\<exists>vid. sc_meta ?C vid \<noteq> Map.empty)"
      and l: "loaded = None \<or> (\<exists>h bytes. loaded = Some h \<and> dc_index_type c = Hnsw \<and>
        ?W (index_file_path dir) = Some bytes \<and> read_hnsw_file bytes (vs_accessor s) (dc_metric c) (dc_dimension c) (en_kernel env) = Inr h)"
    for vectors :: nat and loaded
  proof -
    obtain ix v where b: "(case loaded of Some h \<Rightarrow> Inr (HnswIndex h, ho_scratch host) | None \<Rightarrow> built_index env c s (ho_scratch host)) = Inr (ix, v)"
      "ix_good ix (vs_slot_count s)" "ix_accessor ix = vs_accessor s"
      "ix_info ix = (dc_metric c, if dc_index_type c = Hnsw then Some (dc_hnsw c) else None)" "vst_inv v"
      using loaded_or_built [OF s(1) fits s(4) h(4) iok l] by blast
    have flag: "0 < vectors \<or> (\<forall>i. g i = [])" using k hg by (auto simp: holds_metadata_def stored_rows_empty)
    have "opened content env dir c s g n ?W \<lparr>db_directory = dir, db_config = c, db_store = s, db_metadata = ?M\<lparr>ms_db := x\<rparr>, db_index = ix,
        db_next_auto_id = n, db_dirty = (loaded = None \<and> dc_index_type c = Hnsw), db_has_metadata = (vectors > 0), db_scratch = v, db_world = w\<rparr>"
      if "content x = ?C" "visible w = ?W" for x w
      using that here b l s fits hg flag st saved by (auto simp: opened_def db_inv_def db_holds_def config_fits_def ms_rest_def fresh_mstore_def ms_conf_def)
    then show ?thesis unfolding b(1) by (intro opensI) (auto simp: abind_def alift_def)
  qed
  have "opens content ?C ?W ?M ?chain (opened content env dir c s g n ?W)"
    apply (rule opens_bind [OF opens_read_config [OF laws(1) M(1) st fits]], hypsubst)
    apply (rule opens_bind [OF opens_store [where W = ?W, OF vis]], hypsubst)
    apply (rule opens_bind [where Q = "\<lambda>_. True"], simp add: s(2) aguard_def opens_lift)
    apply (rule opens_bind [OF opens_config [OF laws(1) M(1)]], hypsubst)
    apply (unfold nx p)
    apply (rule opens_bind [where Q = "\<lambda>v. v = n"], simp add: opens_lift, hypsubst)
    apply (rule opens_bind [OF opens_count [OF laws(1)]])
    apply (rule opens_bind [OF opens_index [OF iok]])
    apply (rule fin, assumption+)
    done
  then have "fst (?chain (?M\<lparr>ms_db := db0\<rparr>, ho_world host)) \<in> {Inl MetadataError, Inl IoError} \<or>
      (\<exists>d. fst (?chain (?M\<lparr>ms_db := db0\<rparr>, ho_world host)) = Inr d \<and> opened content env dir c s g n ?W d)"
    unfolding opens_def by (metis (no_types, lifting) insertCI prod.collapse)
  moreover have "db_open env dir host = fst (?chain (?M\<lparr>ms_db := db0\<rparr>, ho_world host))"
    using h m0 M(2) by (simp add: db_open_def guard_throw_def exists_visible)
  ultimately show ?thesis by simp
qed

lemma map_names: "keeps world_ok (map_file path)"
  unfolding map_file_def
proof (intro keeps_abind keeps_afinally)
  have n: "world_ok w \<Longrightarrow> w_dir w' = w_dir w \<Longrightarrow> w_next w' = w_next w \<Longrightarrow> world_ok w'" for w w' :: world
    by (simp add: world_ok_def)
  have k: "keeps world_ok (or_io_error f)" if "\<And>w x w'. f w = (x, w') \<Longrightarrow> w_dir w' = w_dir w \<and> w_next w' = w_next w" for f :: "world \<Rightarrow> 'b sys \<times> world"
    using that n unfolding keeps_def or_io_error_def by (fastforce split: prod.split sys.split)
  show "keeps world_ok (or_io_error (sys_open path))"
  proof (rule k)
    fix w x w' assume "sys_open path w = (x, w')"
    then show "w_dir w' = w_dir w \<and> w_next w' = w_next w"
      unfolding sys_open_def by (rule sys_call_cases) (auto simp: sys_open_fd_def split: option.splits)
  qed
  show "keeps world_ok (or_io_error (sys_call (\<lambda>_ w. case w_fds w fd of None \<Rightarrow> (Failed, w) | Some (i, _) \<Rightarrow> (Done (w_data w i), w))))" for fd
  proof (rule k)
    fix w x w' assume "sys_call (\<lambda>_ w. case w_fds w fd of None \<Rightarrow> (Failed, w) | Some (i, _) \<Rightarrow> (Done (w_data w i), w)) w = (x, w')"
    then show "w_dir w' = w_dir w \<and> w_next w' = w_next w" by (rule sys_call_cases) (auto split: option.splits)
  qed
  have "keeps world_ok (or_io_error (sys_call (\<lambda>_ w. (Done bs, w))))" for bs :: "byte list"
  proof (rule k)
    fix w x w' assume "sys_call (\<lambda>_ w. (Done bs, w)) w = (x, w')"
    then show "w_dir w' = w_dir w \<and> w_next w' = w_next w" by (rule sys_call_cases) auto
  qed
  then show "keeps world_ok (if bs = [] then aret [] else or_io_error (sys_call (\<lambda>_ w. (Done bs, w))))" for bs :: "byte list" by auto
  show "world_ok w \<Longrightarrow> world_ok (close_guard fd w)" for fd w
    using close_guard_file [of 0 w fd] n [of w "close_guard fd w"] by (simp add: only_file_def)
qed

text \<open>What opening reads leaves the names of the files well formed.\<close>

definition gives_names :: "('db, 'db database) open_act \<Rightarrow> bool" where
  "gives_names f \<longleftrightarrow> (\<forall>mw d mw'. world_ok (snd mw) \<longrightarrow> f mw = (Inr d, mw') \<longrightarrow> world_ok (db_world d))"

lemma names_bind:
  assumes "keeps (\<lambda>mw. world_ok (snd mw)) f" "\<And>x. gives_names (g x)"
  shows "gives_names (abind f g)"
  unfolding gives_names_def
proof (intro allI impI)
  fix mw d mw'
  assume ok: "world_ok (snd mw)" and run: "abind f g mw = (Inr d, mw')"
  obtain x u where u: "f mw = (Inr x, u)" "g x u = (Inr d, mw')" using run by (auto simp: act_inv)
  have "world_ok (snd u)" using keepsD [OF assms(1) ok u(1)] .
  then show "world_ok (db_world d)" using assms(2) [of x] u(2) unfolding gives_names_def by blast
qed

lemma names_steps:
  "keeps (\<lambda>mw. world_ok (snd mw)) (open_config env k)" "keeps (\<lambda>mw. world_ok (snd mw)) (open_u64 env k)"
  "keeps world_ok f \<Longrightarrow> keeps (\<lambda>mw. world_ok (snd mw)) (open_files f)"
  "keeps (\<lambda>mw. world_ok (snd mw)) (azoom fst (\<lambda>m (_, w). (m, w)) ma)"
proof -
  show z: "keeps (\<lambda>mw. world_ok (snd mw)) (azoom fst (\<lambda>m (_, w). (m, w)) ma)" for ma
    by (auto simp: keeps_def azoom_def split: prod.split)
  show c: "keeps (\<lambda>mw. world_ok (snd mw)) (open_config env k)" by (simp add: open_config_def z)
  show "keeps (\<lambda>mw. world_ok (snd mw)) (open_u64 env k)" unfolding open_u64_def by (intro keeps_abind c keeps_intros)
  show "keeps world_ok f \<Longrightarrow> keeps (\<lambda>mw. world_ok (snd mw)) (open_files f)"
    unfolding keeps_def open_files_def azoom_def by (fastforce split: prod.split)
qed

lemma keeps_option: "keeps P f \<Longrightarrow> (\<And>x. keeps P (g x)) \<Longrightarrow> keeps P (case o' of None \<Rightarrow> f | Some x \<Rightarrow> g x)"
  by (cases o') simp_all

lemma names_config: "keeps (\<lambda>mw. world_ok (snd mw)) (read_config env)"
  unfolding read_config_def Let_def
  apply (rule keeps_abind [OF names_steps(2)])
  apply (rule keeps_abind [OF names_steps(1)])
  apply (rule keeps_option [OF keeps_intros(2)])
  apply (rule keeps_abind [OF names_steps(1)])
  apply (rule keeps_option [OF keeps_intros(2)])
  apply (rule keeps_abind [OF names_steps(1)])
  apply (rule keeps_abind [OF names_steps(2)])+
  apply (rule keeps_abind [OF keeps_intros(3)])
  apply (rule keeps_intros(1))
  done

lemma names_store: "keeps (\<lambda>mw. world_ok (snd mw)) (open_store dir c)"
proof -
  have "keeps (\<lambda>mw. world_ok (snd mw)) (abind (open_files (map_file (vector_file_path dir))) (\<lambda>bytes. alift (read_vector_file bytes)))"
    by (intro keeps_abind names_steps map_names keeps_intros)
  then show ?thesis unfolding keeps_def open_store_def by auto
qed

lemma names_index: "keeps (\<lambda>mw. world_ok (snd mw)) (load_index env dir c s)"
proof -
  have "keeps (\<lambda>mw. world_ok (snd mw))
      (acatch
          (abind (open_files (map_file (index_file_path dir))) (\<lambda>bytes.
           abind (alift (read_hnsw_file bytes (vs_accessor s) (dc_metric c) (dc_dimension c) (en_kernel env))) (\<lambda>ix.
           aret (Some ix))))
          (\<lambda>e. if is_corruption e \<or> is_io_error e then aret None else athrow e))"
    by (rule keeps_acatch [OF keeps_abind [OF names_steps(3) [OF map_names] keeps_abind [OF keeps_intros(3) keeps_intros(1)]]])
      (auto intro: keeps_intros(1,2))
  then show ?thesis unfolding keeps_def load_index_def by (simp del: split_paired_All) blast
qed

lemma open_chain_names: "gives_names (abind (read_config env) (\<lambda>c.
          abind (open_store dir c) (\<lambda>s.
          abind (aguard (vs_dimension s \<noteq> dc_dimension c) CorruptionError) (\<lambda>_.
          abind (open_config env kKeyNextId) (\<lambda>next_text.
          abind (alift (parse_u64 (Some (case next_text of None \<Rightarrow> ''0'' | Some t \<Rightarrow> t)))) (\<lambda>next_id.
          abind (azoom fst (\<lambda>m (_, w). (m, w)) (ms_vector_count (en_sqlite env))) (\<lambda>vectors.
          abind (load_index env dir c s) (\<lambda>loaded.
          abind (alift (case loaded of
                   Some ix \<Rightarrow> Inr (HnswIndex ix, ho_scratch host)
                 | None \<Rightarrow> built_index env c s (ho_scratch host))) (\<lambda>(ix, scratch) (m, w).
          (Inr \<lparr>db_directory = dir, db_config = c, db_store = s, db_metadata = m, db_index = ix, db_next_auto_id = next_id,
                db_dirty = (loaded = None \<and> dc_index_type c = Hnsw), db_has_metadata = (vectors > 0),
                db_scratch = scratch, db_world = w\<rparr>, (m, w)))))))))))"
  apply (rule names_bind [OF names_config])
  apply (rule names_bind [OF names_store])
  apply (rule names_bind [OF keeps_intros(4)])
  apply (rule names_bind [OF names_steps(1)])
  apply (rule names_bind [OF keeps_intros(3)])
  apply (rule names_bind [OF names_steps(4)])
  apply (rule names_bind [OF names_index])
  apply (rule names_bind [OF keeps_intros(3)])
  apply (simp add: gives_names_def split_beta)
  done

lemma open_names:
  assumes run: "db_open env dir host = Inr d" and ok: "world_ok (ho_world host)"
  shows "world_ok (db_world d)"
proof -
  have *: "gives_names f \<Longrightarrow> fst (f (m, ho_world host)) = Inr d \<Longrightarrow> world_ok (db_world d)" for f :: "('a, 'a database) open_act" and m
    using ok unfolding gives_names_def by (metis prod.collapse snd_conv)
  from run show ?thesis unfolding db_open_def rbind_Inr_iff by (elim exE conjE) (rule * [OF open_chain_names])
qed

section \<open>Writing\<close>

text \<open>The configuration statements and the files are untouched by the writing operations.\<close>

lemma keeps_conf_cached:
  assumes "\<And>s st db. ms_conf s \<Longrightarrow> ms_conf (upd (\<lambda>_. st) (s\<lparr>ms_db := db\<rparr>))"
  shows "keeps ms_conf (cached get upd m)"
  using assms by (auto simp: keeps_def cached_def split: prod.splits)

lemma keeps_conf_on_db: "keeps ms_conf (on_db m)"
  by (auto simp: keeps_def on_db_def ms_conf_def split: prod.splits)

lemma keeps_conf_rows: "keeps ms_conf (insert_row sq vid k v)" "keeps ms_conf (delete_vector sq vid)"
  unfolding insert_row_def delete_vector_def by (rule keeps_conf_cached, simp add: ms_conf_def)+

lemma keeps_conf_insert: "keeps ms_conf (insert_rows sq vid md)"
proof (induction sq vid md rule: insert_rows.induct)
  case (2 sq vid k v md)
  then show ?case unfolding insert_rows.simps by (intro keeps_abind keeps_conf_rows)
qed (simp only: insert_rows.simps keeps_intros)

lemma conf_rollback: "ms_conf s \<Longrightarrow> ms_conf (rollback_locked sq s)"
  by (auto simp: rollback_locked_def Let_def ms_conf_def split: option.split)

lemma keeps_conf_begin: "keeps ms_conf (begin_locked sq)"
  by (auto simp: keeps_def begin_locked_def Let_def abind_def on_db_def ms_conf_def split: prod.splits sum.splits option.splits)

lemma keeps_conf_commit: "keeps ms_conf (commit_locked sq)"
  by (auto simp: keeps_def commit_locked_def Let_def abind_def on_db_def ms_conf_def split: prod.splits sum.splits option.splits)

lemma keeps_conf_set: "keeps ms_conf (ms_set sq vid md)"
  unfolding ms_set_def
  by (intro keeps_abind keeps_acatch keeps_conf_begin keeps_conf_commit keeps_conf_rows keeps_conf_insert keeps_intros)
    (simp add: keeps_def conf_rollback)

lemma keeps_conf_remove: "keeps ms_conf (ms_remove sq vid)"
  unfolding ms_remove_def by (intro keeps_abind keeps_conf_on_db) (auto intro: keeps_conf_rows)

text \<open>What every write leaves alone, whether it returns or throws.\<close>

definition settled_in :: "world \<Rightarrow> string \<Rightarrow> 'db database \<Rightarrow> bool" where
  "settled_in w dir d \<longleftrightarrow> db_world d = w \<and> db_directory d = dir \<and> ms_conf (db_metadata d)"

lemma keeps_settled:
  "keeps ms_conf m \<Longrightarrow> keeps (settled_in w dir) (on_metadata m)"
  "(\<And>d. db_world (f d) = db_world d \<and> db_directory (f d) = db_directory d \<and> db_metadata (f d) = db_metadata d) \<Longrightarrow>
   keeps (settled_in w dir) (db_update f)"
  "keeps (settled_in w dir) (index_add env i)"
  by (auto simp: keeps_def settled_in_def on_metadata_step db_update_def index_add_def split: sum.splits prod.splits)

lemma settled_update:
  "keeps (settled_in w dir) (db_update (\<lambda>d. refresh_accessor (d\<lparr>db_store := st d\<rparr>)))"
  "keeps (settled_in w dir) (db_update (\<lambda>d. d\<lparr>db_index := ix_remove (db_index d) i\<rparr>))"
  "keeps (settled_in w dir) (db_update (\<lambda>d. d\<lparr>db_has_metadata := f d\<rparr>))"
  "keeps (settled_in w dir) (db_update (\<lambda>d. d\<lparr>db_dirty := b\<rparr>))"
  "keeps (settled_in w dir) (db_update (\<lambda>d. d\<lparr>db_has_metadata := f d, db_dirty := b\<rparr>))"
  "keeps (settled_in w dir) (db_update (\<lambda>d. (if h d then d\<lparr>db_next_auto_id := k d\<rparr> else d)\<lparr>db_dirty := b\<rparr>))"
  by (rule keeps_settled(2); simp add: refresh_accessor_def)+

lemma write_settled: "keeps (settled_in w dir) (run_write env wr)"
proof -
  have set: "keeps (settled_in w dir) (on_metadata (ms_set (en_sqlite env) vid md))" for vid md
    by (rule keeps_settled(1) [OF keeps_conf_set])
  have rem: "keeps (settled_in w dir) (on_metadata (ms_remove (en_sqlite env) vid))" for vid
    by (rule keeps_settled(1) [OF keeps_conf_remove])
  have ins: "keeps (settled_in w dir) (db_insert env vid v md)" for vid v md
    unfolding db_insert_def
    by (rule keeps_update_read) (auto intro!: keeps_abind settled_update set keeps_settled(3) split: prod.split)
  have ups: "keeps (settled_in w dir) (db_upsert env vid v md)" for vid v md
    unfolding db_upsert_def
    by (rule keeps_update_read) (auto intro!: keeps_abind settled_update set ins split: prod.split)
  have del: "keeps (settled_in w dir) (db_remove env vid)" for vid
    unfolding db_remove_def
    by (rule keeps_update_read) (auto intro!: keeps_abind settled_update rem split: option.split)
  have md: "keeps (settled_in w dir) (db_set_metadata env vid md)" for vid md
    unfolding db_set_metadata_def
    by (rule keeps_update_read) (auto intro!: keeps_abind settled_update set)
  show ?thesis by (cases wr) (auto intro!: keeps_abind ins ups del md)
qed

text \<open>The files show the vectors and an index for them, and the rows the next id.\<close>

definition files_current :: "'db env \<Rightarrow> 'db database \<Rightarrow> (string \<Rightarrow> string option) \<Rightarrow> bool" where
  "files_current env d rows \<longleftrightarrow> rows kKeyNextId = Some (show_nat (unat (db_next_auto_id d))) \<and>
     (\<exists>bytes. visible (db_world d) (vector_file_path (db_directory d)) = Some bytes \<and> read_vector_file bytes = Inr (db_store d)) \<and>
     (dc_index_type (db_config d) = Hnsw \<longrightarrow> index_file_ok env (db_directory d) (db_config d) (db_store d) (visible (db_world d)))"

text \<open>A database between two calls that returned: consistent, with metadata \<open>g\<close>, and on disk unless it is dirty.\<close>

definition db_session :: "('db \<Rightarrow> sql_content) \<Rightarrow> 'db env \<Rightarrow> (u64 \<Rightarrow> metadata) \<Rightarrow> 'db database \<Rightarrow> bool" where
  "db_session content env g d \<longleftrightarrow> db_inv d \<and> db_holds content g d \<and> ms_conf (db_metadata d) \<and>
     config_stored (content (ms_db (db_metadata d))) (db_config d) \<and> world_ok (db_world d) \<and>
     (db_dirty d \<or> files_current env d (db_rows content d))"

lemma session_write:
  assumes laws: "sqlite_laws (en_sqlite env) content" and s: "db_session content env g d" and room: "db_room d"
    and md: "md_sorted (write_metadata w)" and run: "run_write env w d = (Inr (), d')"
    and ap: "apply_write (dc_normalize (db_config d)) w (vs_abs (db_store d), g) = (V, g')"
  shows "db_session content env g' d' \<and> vs_abs (db_store d') = V \<and> db_config d' = db_config d \<and> db_directory d' = db_directory d \<and>
    db_world d' = db_world d \<and> vs_slot_count (db_store d') \<le> Suc (vs_slot_count (db_store d))"
proof -
  have i: "db_inv d" "db_holds content g d" using s by (simp_all add: db_session_def)
  note o = write_refines [OF laws i(1) room i(2) md run ap]
  have "settled_in (db_world d) (db_directory d) d" using s by (simp add: settled_in_def db_session_def)
  then have f: "db_world d' = db_world d" "db_directory d' = db_directory d" "ms_conf (db_metadata d')"
    using keepsD [OF write_settled _ run] by (auto simp: settled_in_def)
  have "db_inv d'" using o step_keeps i(1) by blast
  moreover have "config_stored (content (ms_db (db_metadata d'))) (db_config d')" using o s by (simp add: db_session_def config_stored_rows db_rows_def)
  moreover have "db_dirty d' \<or> files_current env d' (db_rows content d')" using o s f by (auto simp: db_session_def files_current_def)
  ultimately show ?thesis using o f s by (simp add: db_session_def)
qed

lemma session_writes:
  assumes laws: "sqlite_laws (en_sqlite env) content" and s: "db_session content env g d"
    and room: "room_for (db_config d) (vs_slot_count (db_store d) + length ws)"
    and md: "\<forall>w\<in>set ws. md_sorted (write_metadata w)" and run: "run_writes env ws d = (Inr (), d')"
    and ap: "fold (apply_write (dc_normalize (db_config d))) ws (vs_abs (db_store d), g) = (V, g')"
  shows "db_session content env g' d' \<and> vs_abs (db_store d') = V \<and> db_config d' = db_config d \<and> db_directory d' = db_directory d \<and>
    db_world d' = db_world d \<and> vs_slot_count (db_store d') \<le> vs_slot_count (db_store d) + length ws"
  using s room md run ap
proof (induction ws arbitrary: d g)
  case Nil
  then show ?case by simp
next
  case (Cons w ws)
  obtain d1 where d1: "run_write env w d = (Inr (), d1)" "run_writes env ws d1 = (Inr (), d')"
    using Cons.prems(4) by (auto simp: act_inv)
  obtain V1 g1 where ap: "apply_write (dc_normalize (db_config d)) w (vs_abs (db_store d), g) = (V1, g1)" by fastforce
  have r: "db_room d" unfolding db_room_def by (rule room_mono [OF Cons.prems(2)]) simp
  have m: "md_sorted (write_metadata w)" using Cons.prems(3) by simp
  note o = session_write [OF laws Cons.prems(1) r m d1(1) ap]
  have room1: "room_for (db_config d1) (vs_slot_count (db_store d1) + length ws)"
    using o by (auto intro: room_mono [OF Cons.prems(2)])
  have ap1: "fold (apply_write (dc_normalize (db_config d1))) ws (vs_abs (db_store d1), g1) = (V, g')" using Cons.prems(5) ap o by simp
  have s1: "db_session content env g1 d1" using o by blast
  have m1: "\<forall>w\<in>set ws. md_sorted (write_metadata w)" using Cons.prems(3) by simp
  from Cons.IH [OF s1 room1 m1 d1(2) ap1] show ?case using o by auto
qed

section \<open>Flushing\<close>

lemma path_parts: "\<exists>p. \<forall>name. path_append dir name = p @ name"
proof (cases "dir = [] \<or> last dir = CHR ''/''")
  case True
  then show ?thesis by (simp add: path_append_def)
next
  case False
  then have "\<forall>name. path_append dir name = (dir @ ''/'') @ name" by (simp add: path_append_def)
  then show ?thesis by blast
qed

lemma paths_differ:
  "vector_file_path dir \<noteq> index_file_path dir" "vector_file_path dir \<noteq> index_file_path dir @ ''.tmp''"
  "metadata_file_path dir \<noteq> vector_file_path dir" "metadata_file_path dir \<noteq> vector_file_path dir @ ''.tmp''"
  "metadata_file_path dir \<noteq> index_file_path dir" "metadata_file_path dir \<noteq> index_file_path dir @ ''.tmp''"
  using path_parts [of dir]
  by (auto simp: vector_file_path_def index_file_path_def metadata_file_path_def kVectorFileName_def kIndexFileName_def kMetadataFileName_def)

text \<open>The kernel is no part of the file.\<close>

lemma read_kernel:
  "read_hnsw_file bytes ac m n kn = Inr ix \<Longrightarrow> read_hnsw_file bytes ac m n kn' = Inr (ix\<lparr>hn_kernel := kn'\<rparr>)"
  by (auto simp: read_hnsw_file_def result_simps Let_def hn_new_def hn_restore_def)

lemma on_files_Inr [act_inv]: "on_files f d = (Inr x, d') \<longleftrightarrow> (\<exists>w. f (db_world d) = (Inr x, w) \<and> d' = d\<lparr>db_world := w\<rparr>)"
  by (auto simp: on_files_def azoom_def split: prod.split)

lemma flush_steps:
  assumes dirty: "db_dirty d" and run: "db_flush env d = (Inr (), d')"
  obtains cs w1 w2 m where "vector_file_chunks (db_store d) = Inr cs"
    "write_file_atomically (vector_file_path (db_directory d)) cs (db_world d) = (Inr (), w1)"
    "if dc_index_type (db_config d) = Hnsw \<and> (\<exists>h. db_index d = HnswIndex h)
     then \<exists>h. db_index d = HnswIndex h \<and>
       write_file_atomically (index_file_path (db_directory d)) (hnsw_file_chunks h (dc_dimension (db_config d))) w1 = (Inr (), w2)
     else w2 = w1"
    "ms_set_config (en_sqlite env) kKeyNextId (show_nat (unat (db_next_auto_id d))) (db_metadata d) = (Inr (), m)"
    "d' = d\<lparr>db_world := w2, db_metadata := m, db_dirty := False\<rparr>"
proof -
  let ?index = "(if dc_index_type (db_config d) = Hnsw then
                (case db_index d of
                   HnswIndex h \<Rightarrow> on_files (write_hnsw_file (index_file_path (db_directory d)) h (dc_dimension (db_config d)))
                 | BruteIndex b \<Rightarrow> aret ())
              else aret ())"
  obtain w1 d2 where w1: "write_vector_file (vector_file_path (db_directory d)) (db_store d) (db_world d) = (Inr (), w1)"
    and i: "?index (d\<lparr>db_world := w1\<rparr>) = (Inr (), d2)"
    and fin: "abind (on_metadata (ms_set_config (en_sqlite env) kKeyNextId (show_nat (unat (db_next_auto_id d)))))
       (\<lambda>_. db_update (\<lambda>d. d\<lparr>db_dirty := False\<rparr>)) d2 = (Inr (), d')"
    using run dirty unfolding db_flush_def db_read_def by (simp add: act_inv del: if_split) blast
  obtain cs where cs: "vector_file_chunks (db_store d) = Inr cs"
    "write_file_atomically (vector_file_path (db_directory d)) cs (db_world d) = (Inr (), w1)"
    using w1 by (auto simp: write_vector_file_def act_inv alift_def)
  obtain w2 where w2: "d2 = d\<lparr>db_world := w2\<rparr>" "if dc_index_type (db_config d) = Hnsw \<and> (\<exists>h. db_index d = HnswIndex h)
     then \<exists>h. db_index d = HnswIndex h \<and>
       write_file_atomically (index_file_path (db_directory d)) (hnsw_file_chunks h (dc_dimension (db_config d))) w1 = (Inr (), w2)
     else w2 = w1"
    using i by (cases "db_index d") (auto simp: on_files_Inr write_hnsw_file_def aret_def split: if_splits)
  obtain m where "ms_set_config (en_sqlite env) kKeyNextId (show_nat (unat (db_next_auto_id d))) (db_metadata d) = (Inr (), m)"
    "d' = d\<lparr>db_world := w2, db_metadata := m, db_dirty := False\<rparr>"
    using fin w2(1) by (auto simp: act_inv)
  then show thesis using that [OF cs w2(2)] by blast
qed

lemma written_index_ok:
  assumes inv: "db_inv d" and fits: "config_fits (db_config d)" and room: "room_for (db_config d) (vs_slot_count (db_store d))"
    and h: "db_index d = HnswIndex h" and W: "W (index_file_path dir) = Some (concat (hnsw_file_chunks h (dc_dimension (db_config d))))"
  shows "index_file_ok env dir (db_config d) (db_store d) W"
    and "dc_index_type (db_config d) = Hnsw \<Longrightarrow>
      read_hnsw_file (concat (hnsw_file_chunks h (dc_dimension (db_config d)))) (vs_accessor (db_store d)) (dc_metric (db_config d)) (dc_dimension (db_config d)) (en_kernel env) =
        Inr (h\<lparr>hn_rng := rng_new (hn_rng_state h), hn_kernel := en_kernel env\<rparr>)"
proof -
  have t: "dc_index_type (db_config d) = Hnsw" using inv h by (auto simp: db_inv_def ix_defs split: if_splits)
  have g: "hn_good h (vs_slot_count (db_store d))" "hn_accessor h = vs_accessor (db_store d)" "hn_metric h = dc_metric (db_config d)"
    "hn_config h = dc_hnsw (db_config d)"
    using inv h t by (auto simp: db_inv_def ix_defs)
  have "hn_room h" using db_inv_room [OF inv room] h by (simp add: ix_defs)
  then have "hn_storable h (dc_dimension (db_config d))"
    using g fits by (auto simp: hn_storable_def hn_good_def hn_room_def config_fits_def dc_validate_def result_simps)
  moreover have "hn_size h = ac_size (hn_accessor h)" using g by (simp add: hn_good_def)
  ultimately have "read_hnsw_file (concat (hnsw_file_chunks h (dc_dimension (db_config d)))) (vs_accessor (db_store d)) (dc_metric (db_config d))
      (dc_dimension (db_config d)) (hn_kernel h) = Inr (h\<lparr>hn_rng := rng_new (hn_rng_state h)\<rparr>)"
    using read_written g(2,3) by metis
  from read_kernel [OF this, of "en_kernel env"]
  have r: "read_hnsw_file (concat (hnsw_file_chunks h (dc_dimension (db_config d)))) (vs_accessor (db_store d)) (dc_metric (db_config d))
      (dc_dimension (db_config d)) (en_kernel env) = Inr (h\<lparr>hn_rng := rng_new (hn_rng_state h), hn_kernel := en_kernel env\<rparr>)" by simp
  show "dc_index_type (db_config d) = Hnsw \<Longrightarrow>
      read_hnsw_file (concat (hnsw_file_chunks h (dc_dimension (db_config d)))) (vs_accessor (db_store d)) (dc_metric (db_config d)) (dc_dimension (db_config d)) (en_kernel env) =
        Inr (h\<lparr>hn_rng := rng_new (hn_rng_state h), hn_kernel := en_kernel env\<rparr>)" by (rule r)
  have "hn_wf (h\<lparr>hn_rng := rng_new (hn_rng_state h), hn_kernel := en_kernel env\<rparr>)"
    by (rule wf_cong [of _ h]) (use g(1) in \<open>simp_all add: hn_good_def hn_wf_def\<close>)
  then show "index_file_ok env dir (db_config d) (db_store d) W"
    using W r g by (auto simp: index_file_ok_def hn_good_def hn_size_def)
qed

lemma session_flush:
  assumes laws: "sqlite_laws (en_sqlite env) content" and s: "db_session content env g d" and fits: "config_fits (db_config d)"
    and room: "room_for (db_config d) (vs_slot_count (db_store d))" and run: "db_flush env d = (Inr (), d')"
  shows "db_session content env g d' \<and> \<not> db_dirty d' \<and> db_store d' = db_store d \<and> db_index d' = db_index d \<and> db_config d' = db_config d \<and>
    db_directory d' = db_directory d \<and> db_next_auto_id d' = db_next_auto_id d \<and>
    visible (db_world d') (metadata_file_path (db_directory d)) = visible (db_world d) (metadata_file_path (db_directory d)) \<and>
    (db_dirty d \<longrightarrow> (\<forall>h. db_index d = HnswIndex h \<longrightarrow> dc_index_type (db_config d) = Hnsw \<longrightarrow>
       visible (db_world d') (index_file_path (db_directory d)) = Some (concat (hnsw_file_chunks h (dc_dimension (db_config d))))))"
proof (cases "db_dirty d")
  case False
  then have "d' = d" using run by (simp add: db_flush_def db_read_def)
  then show ?thesis using False s by simp
next
  case True
  from True run show ?thesis
  proof (rule flush_steps)
    fix cs w1 w2 m
    let ?dir = "db_directory d" and ?W = "visible w2"
    assume cs: "vector_file_chunks (db_store d) = Inr cs" and v: "write_file_atomically (vector_file_path ?dir) cs (db_world d) = (Inr (), w1)"
      and ix: "if dc_index_type (db_config d) = Hnsw \<and> (\<exists>h. db_index d = HnswIndex h)
       then \<exists>h. db_index d = HnswIndex h \<and>
         write_file_atomically (index_file_path ?dir) (hnsw_file_chunks h (dc_dimension (db_config d))) w1 = (Inr (), w2)
       else w2 = w1"
      and m: "ms_set_config (en_sqlite env) kKeyNextId (show_nat (unat (db_next_auto_id d))) (db_metadata d) = (Inr (), m)"
      and d': "d' = d\<lparr>db_world := w2, db_metadata := m, db_dirty := False\<rparr>"
    have inv: "db_inv d" and ok: "world_ok (db_world d)" and conf: "ms_conf (db_metadata d)" and hold: "db_holds content g d"
      and st: "config_stored (content (ms_db (db_metadata d))) (db_config d)" using s by (simp_all add: db_session_def)
    have vs: "vs_inv (db_store d)" using inv by (simp add: db_inv_def)
    note f1 = write_atomically_frame [OF v ok] and v1 = write_atomically_visible [OF v ok]
    have w2: "world_ok w2 \<and> ?W (vector_file_path ?dir) = visible w1 (vector_file_path ?dir) \<and> ?W (metadata_file_path ?dir) = visible w1 (metadata_file_path ?dir) \<and>
        (\<forall>h. db_index d = HnswIndex h \<longrightarrow> dc_index_type (db_config d) = Hnsw \<longrightarrow>
          ?W (index_file_path ?dir) = Some (concat (hnsw_file_chunks h (dc_dimension (db_config d)))))"
    proof (cases "dc_index_type (db_config d) = Hnsw \<and> (\<exists>h. db_index d = HnswIndex h)")
      case True
      then obtain h where h: "db_index d = HnswIndex h"
        "write_file_atomically (index_file_path ?dir) (hnsw_file_chunks h (dc_dimension (db_config d))) w1 = (Inr (), w2)" using ix by auto
      show ?thesis using write_atomically_frame [OF h(2) f1(1)] write_atomically_visible [OF h(2) f1(1)] paths_differ [of ?dir] h(1) by auto
    next
      case False
      then have "w2 = w1" using ix by (simp split: if_splits)
      then show ?thesis using False f1(1) by auto
    qed
    have vec: "?W (vector_file_path ?dir) = Some (concat cs)" "read_vector_file (concat cs) = Inr (db_store d)"
      using w2 v1 written_file(1) [OF vs cs] by simp_all
    have meta: "?W (metadata_file_path ?dir) = visible (db_world d) (metadata_file_path ?dir)"
      using w2 f1(2) paths_differ(3,4) [of ?dir] by simp
    have iok: "index_file_ok env ?dir (db_config d) (db_store d) ?W" if hn: "dc_index_type (db_config d) = Hnsw"
    proof -
      obtain h where h: "db_index d = HnswIndex h" using inv hn by (cases "db_index d") (auto simp: db_inv_def ix_defs split: if_splits)
      show ?thesis by (rule written_index_ok(1) [OF inv fits room h]) (use w2 h hn in simp)
    qed
    obtain db where db: "m = (db_metadata d)\<lparr>ms_db := db\<rparr>" "content db = (content (ms_db (db_metadata d)))\<lparr>sc_config :=
        (sc_config (content (ms_db (db_metadata d))))(kKeyNextId \<mapsto> show_nat (unat (db_next_auto_id d)))\<rparr>"
      using set_config_cases [OF laws conf m] by auto
    have keys: "kKeyNextId \<notin> {kKeyDimension, kKeyMetric, kKeyIndexType, kKeyNormalize, kKeyHnswM, kKeyHnswEfConstruction, kKeyHnswEfSearch, kKeyHnswSeed}"
      by (simp add: kKeyNextId_def kKeyDimension_def kKeyMetric_def kKeyIndexType_def kKeyNormalize_def kKeyHnswM_def kKeyHnswEfConstruction_def
          kKeyHnswEfSearch_def kKeyHnswSeed_def)
    have "config_stored (content db) (db_config d)" using st keys by (simp add: config_stored_rows db(2) eq_commute [of _ kKeyNextId])
    moreover have "db_holds content g d'" using hold db by (simp add: db_holds_def d' ms_rest_def holds_metadata_def)
    moreover have "files_current env d' (db_rows content d')" using vec iok db by (auto simp: files_current_def d' db_rows_def)
    moreover have "db_inv d'" using inv by (simp add: d' db_inv_def)
    ultimately show ?thesis using w2 meta conf db(1) by (simp add: db_session_def d' ms_conf_def)
  qed
qed

section \<open>Creating\<close>

lemma set_configs_stored:
  assumes laws: "sqlite_laws sq content"
  shows "ms_conf s \<Longrightarrow> set_configs sq rows s = (Inr (), s') \<Longrightarrow> \<exists>db. s' = s\<lparr>ms_db := db\<rparr> \<and>
    content db = (content (ms_db s))\<lparr>sc_config := sc_config (content (ms_db s)) ++ map_of (rev rows)\<rparr>"
proof (induction rows arbitrary: s)
  case Nil
  then show ?case by (auto simp: aret_def intro!: exI [of _ "ms_db s"])
next
  case (Cons row rows)
  obtain k v where row: "row = (k, v)" by fastforce
  obtain s1 where s1: "ms_set_config sq k v s = (Inr (), s1)" "set_configs sq rows s1 = (Inr (), s')"
    using Cons.prems(2) by (auto simp: row act_inv)
  obtain db where db: "s1 = s\<lparr>ms_db := db\<rparr>" "content db = (content (ms_db s))\<lparr>sc_config := (sc_config (content (ms_db s)))(k \<mapsto> v)\<rparr>"
    using set_config_cases [OF laws Cons.prems(1) s1(1)] by auto
  have "ms_conf s1" using Cons.prems(1) db(1) by (simp add: ms_conf_def)
  from Cons.IH [OF this s1(2)] show ?case using db by (auto simp: row map_add_def fun_eq_iff split: option.splits)
qed

lemma catch_Inr:
  "acatch m (\<lambda>e s. (Inl e, h s)) s = (Inr x, s') \<Longrightarrow> m s = (Inr x, s')"
  by (auto simp: acatch_def split: prod.splits sum.splits)

lemma persist_stored:
  assumes laws: "sqlite_laws sq content" and c: "ms_conf s" and rest: "ms_rest content s" and run: "persist_config sq c n s = (Inr (), s')"
  shows "ms_conf s' \<and> ms_rest content s' \<and>
    content (ms_db s') = (content (ms_db s))\<lparr>sc_config := sc_config (content (ms_db s)) ++ map_of (rev (config_rows c n))\<rparr>"
proof -
  obtain s1 s2 where b: "begin_locked sq s = (Inr (), s1)" "set_configs sq (config_rows c n) s1 = (Inr (), s2)" "commit_locked sq s2 = (Inr (), s')"
    using run by (auto simp: persist_config_def in_transaction_def act_inv dest!: catch_Inr)
  obtain db where s1: "s1 = s\<lparr>ms_depth := 1, ms_db := db, ms_transaction := Some False\<rparr>"
    "content db = (content (ms_db s))\<lparr>sc_saved := Some (sc_meta (content (ms_db s)), sc_config (content (ms_db s)))\<rparr>"
    using begin_cases [OF laws rest b(1)] by auto
  have "ms_conf s1" using c s1(1) by (simp add: ms_conf_def)
  from set_configs_stored [OF laws this b(2)] obtain db2 where s2: "s2 = s1\<lparr>ms_db := db2\<rparr>"
    "content db2 = (content db)\<lparr>sc_config := sc_config (content db) ++ map_of (rev (config_rows c n))\<rparr>" using s1(1) by auto
  have "ms_depth s2 = 1" "ms_transaction s2 = Some False" by (simp_all add: s2(1) s1(1))
  from commit_cases [OF laws this b(3)] obtain db3 where s3: "s' = s2\<lparr>ms_depth := 0, ms_db := db3, ms_transaction := None\<rparr>"
    "content db3 = (content (ms_db s2))\<lparr>sc_saved := None\<rparr>" by auto
  have "sc_saved (content (ms_db s)) = None" using rest by (simp add: ms_rest_def)
  then have "content db3 = (content (ms_db s))\<lparr>sc_config := sc_config (content (ms_db s)) ++ map_of (rev (config_rows c n))\<rparr>"
    using s3(2) s2 s1 by simp
  then show ?thesis using c rest s3 s2(1) s1(1) by (simp add: ms_conf_def ms_rest_def)
qed

lemma rows_stored: "sc_config s = m ++ map_of (rev (config_rows c n)) \<Longrightarrow> config_stored s c"
  by (simp add: config_stored_rows config_rows_def kKeyNextId_def kKeyDimension_def kKeyMetric_def kKeyIndexType_def kKeyNormalize_def
      kKeyHnswM_def kKeyHnswEfConstruction_def kKeyHnswEfSearch_def kKeyHnswSeed_def)

text \<open>Nothing but its opening has happened to a metadata file that was not there.\<close>

definition new_metadata :: "('db \<Rightarrow> sql_content) \<Rightarrow> 'db host \<Rightarrow> bool" where
  "new_metadata content host \<longleftrightarrow> (\<forall>db. ho_sqlite host = Some db \<longrightarrow> sc_meta (content db) = (\<lambda>_. Map.empty) \<and> sc_saved (content db) = None)"

lemma create_session:
  assumes laws: "sqlite_laws (en_sqlite env) content" "law_open (en_sqlite env) (en_schema env) content" and new: "new_metadata content host"
    and h: "world_ok (ho_world host)" "vst_inv (ho_scratch host)" and fits: "config_fits c"
    and run: "db_create env dir c host = Inr (Inr (), d)"
  shows "db_session content env (\<lambda>_. []) d \<and> vs_abs (db_store d) = Map.empty \<and> vs_slot_count (db_store d) = 0 \<and> db_config d = c \<and>
    db_directory d = dir \<and> db_next_auto_id d = 0 \<and> \<not> db_dirty d \<and> visible (db_world d) (metadata_file_path dir) = visible (ho_world host) (metadata_file_path dir)"
  using run
proof (rule create_shape)
  fix s m m' ix w
  assume ok: "dc_validate c = Inr ()" and s: "vs_new (dc_dimension c) (dc_normalize c) = Inr s"
    and m: "ms_open (en_sqlite env) (en_schema env) (ho_sqlite host) = Inr m" and p: "persist_config (en_sqlite env) c 0 m = (Inr (), m')"
    and b: "built_index env c s (ho_scratch host) = Inr (ix, w)"
    and f: "db_flush env (created dir c host s m' ix w) = (Inr (), d) \<or>
     (\<exists>e d1. Inr () = Inl e \<and> db_flush env (created dir c host s m' ix w) = (Inl e, d1) \<and> d = db_destroy env d1)"
  let ?d0 = "created dir c host s m' ix w"
  obtain db where db: "ho_sqlite host = Some db" using m by (cases "ho_sqlite host") (auto simp: ms_open_def connection_open_def result_simps)
  from laws(2) obtain db0 cfg where m0: "m = fresh_mstore db0" "content db0 = (content db)\<lparr>sc_config := cfg\<rparr>"
    by (rule ms_open_cases [of _ _ _ db]) (use m db in auto)
  have c0: "sc_meta (content db0) = (\<lambda>_. Map.empty)" "sc_saved (content db0) = None" using new db m0(2) by (simp_all add: new_metadata_def)
  have r0: "ms_conf m" "ms_rest content m" using c0 by (simp_all add: m0(1) fresh_mstore_def ms_conf_def ms_rest_def)
  note p' = persist_stored [OF laws(1) r0 p]
  note o = vs_new_ok [OF s]
  have n: "vs_slot_count s = 0" by (rule new_store_empty [OF s])
  have room: "room_for c (vs_slot_count s)" by (simp add: n room_for_def)
  have i: "db_inv ?d0" using built_index_ok [OF _ ok h(2) room, of env] o b ok by (simp add: db_inv_def created_def)
  have "holds_metadata (content (ms_db m')) (\<lambda>_. [])"
    using p' c0(1) by (simp add: holds_metadata_def m0(1) fresh_mstore_def md_sorted_def stored_rows_def fun_eq_iff)
  moreover have "config_stored (content (ms_db m')) c" using p' by (intro rows_stored) simp
  ultimately have "db_session content env (\<lambda>_. []) ?d0" using i p' h(1) by (simp add: db_session_def db_holds_def created_def)
  from session_flush [OF laws(1) this, of d] show ?thesis using f fits room o n by (auto simp: created_def)
qed

section \<open>The life of a database\<close>

text \<open>What a later process finds: the directory, the files as they are, and the tables through the same path.\<close>

definition left_behind :: "('db \<Rightarrow> sql_content) \<Rightarrow> 'db database \<Rightarrow> 'db host \<Rightarrow> bool" where
  "left_behind content d host \<longleftrightarrow> ho_is_directory host \<and> visible (ho_world host) = visible (db_world d) \<and>
     (\<exists>db. ho_sqlite host = Some db \<and> content db = content (ms_db (db_metadata d))) \<and>
     visible (ho_world host) (metadata_file_path (db_directory d)) \<noteq> None \<and> vst_inv (ho_scratch host)"

lemma session_reopens:
  assumes laws: "sqlite_laws (en_sqlite env) content" "law_open (en_sqlite env) (en_schema env) content"
    and s: "db_session content env g d" and clean: "\<not> db_dirty d" and fits: "config_fits (db_config d)"
    and room: "room_for (db_config d) (vs_slot_count (db_store d))" and host: "left_behind content d host"
  shows "db_open env (db_directory d) host \<in> {Inl MetadataError, Inl IoError} \<or>
    (\<exists>e. db_open env (db_directory d) host = Inr e \<and>
      opened content env (db_directory d) (db_config d) (db_store d) g (db_next_auto_id d) (visible (ho_world host)) e)"
proof -
  obtain db where db: "ho_sqlite host = Some db" "content db = content (ms_db (db_metadata d))" using host by (auto simp: left_behind_def)
  have f: "files_current env d (db_rows content d)" "db_inv d" "db_holds content g d"
    "config_stored (content (ms_db (db_metadata d))) (db_config d)" using s clean by (simp_all add: db_session_def)
  have disk: "on_disk env (db_directory d) (db_config d) (db_store d) g (db_next_auto_id d) (content db) (visible (ho_world host))"
    using f host db by (auto simp: on_disk_def files_current_def db_rows_def db_holds_def ms_rest_def left_behind_def)
  show ?thesis
    by (rule open_cases [OF laws _ _ db(1) _ disk fits _ _ _ room]) (use host f(2) in \<open>auto simp: left_behind_def db_inv_def\<close>)
qed

text \<open>A closed database that is opened by the next process is a session with the same contents.\<close>

lemma opened_session:
  "opened content env dir c s g n W d \<Longrightarrow> world_ok (db_world d) \<Longrightarrow> db_session content env g d"
  by (auto simp: opened_def db_session_def files_current_def on_disk_def db_rows_def)

lemma next_session:
  assumes laws: "sqlite_laws (en_sqlite env) content" "law_open (en_sqlite env) (en_schema env) content"
    and s: "db_session content env g d" and clean: "\<not> db_dirty d" and fits: "config_fits (db_config d)"
    and room: "room_for (db_config d) (vs_slot_count (db_store d))" and host: "left_behind content d host" "world_ok (ho_world host)"
    and run: "db_open env (db_directory d) host = Inr e"
  shows "db_session content env g e \<and> db_config e = db_config d \<and> db_store e = db_store d \<and> db_next_auto_id e = db_next_auto_id d \<and>
    db_directory e = db_directory d \<and> visible (db_world e) = visible (db_world d)"
proof -
  have o: "opened content env (db_directory d) (db_config d) (db_store d) g (db_next_auto_id d) (visible (ho_world host)) e"
    using session_reopens [OF laws s clean fits room host(1)] run by auto
  then show ?thesis using opened_session [OF o open_names [OF run host(2)]] host(1) by (auto simp: opened_def left_behind_def)
qed

text \<open>What a clean session leaves on disk is intact, so the database the next process opens is reachable.\<close>

lemma reopened_is_reachable:
  assumes laws: "sqlite_laws (en_sqlite env) content" "law_open (en_sqlite env) (en_schema env) content"
    and s: "db_session content env g d" and clean: "\<not> db_dirty d" and fits: "config_fits (db_config d)"
    and room: "room_for (db_config d) (vs_slot_count (db_store d))" and host: "left_behind content d host" "world_ok (ho_world host)"
    and run: "db_open env (db_directory d) host = Inr e"
  shows "db_reach env e"
proof (rule reach_open [OF _ run])
  have n: "db_config e = db_config d" "db_store e = db_store d" using next_session [OF laws s clean fits room host run] by blast+
  have h: "visible (ho_world host) = visible (db_world d)" using host(1) by (simp add: left_behind_def)
  have i: "vs_inv (db_store d)" "vs_normalize (db_store d) = dc_normalize (db_config d)" using s by (simp_all add: db_session_def db_inv_def)
  show "vst_inv (ho_scratch host)" using host(1) by (simp add: left_behind_def)
  show "room_for (db_config e) (vs_slot_count (db_store e))" using room n by simp
  have "files_current env d (db_rows content d)" using s clean by (simp add: db_session_def)
  then show "files_intact env (db_directory d) (db_config e) (visible (ho_world host))"
    using inv_live_ids [OF i(1)] i(2) by (auto simp: files_intact_def file_store_def files_current_def n h)
qed

lemma lifecycle:
  assumes laws: "sqlite_laws (en_sqlite env) content" "law_open (en_sqlite env) (en_schema env) content"
    and new: "new_metadata content host" "world_ok (ho_world host)" "vst_inv (ho_scratch host)"
    and fits: "config_fits c" "room_for c (length ws)" "\<forall>w\<in>set ws. md_sorted (write_metadata w)"
    and runs: "db_create env dir c host = Inr (Inr (), d0)" "run_writes env ws d0 = (Inr (), d1)" "db_flush env d1 = (Inr (), d2)"
    and later: "left_behind content d2 host'"
    and ap: "fold (apply_write (dc_normalize c)) ws (Map.empty, \<lambda>_. []) = (V, g)"
  shows "db_open env dir host' \<in> {Inl MetadataError, Inl IoError} \<or>
    (\<exists>e. db_open env dir host' = Inr e \<and> db_inv e \<and> db_config e = c \<and> vs_abs (db_store e) = V \<and> db_store e = db_store d2 \<and>
      db_next_auto_id e = db_next_auto_id d2 \<and> db_holds content g e \<and> db_directory d2 = dir)"
proof -
  note c = create_session [OF laws new fits(1) runs(1)]
  have s0: "db_session content env (\<lambda>_. []) d0" using c by blast
  have room: "room_for (db_config d0) (vs_slot_count (db_store d0) + length ws)" using c fits(2) by simp
  have "fold (apply_write (dc_normalize (db_config d0))) ws (vs_abs (db_store d0), \<lambda>_. []) = (V, g)" using c ap by simp
  note w = session_writes [OF laws(1) s0 room fits(3) runs(2) this]
  have room1: "room_for (db_config d1) (vs_slot_count (db_store d1))" using w c room_mono [OF fits(2), of "vs_slot_count (db_store d1)"] by simp
  have s1: "db_session content env g d1" and f1: "config_fits (db_config d1)" using w c fits(1) by simp_all
  note f = session_flush [OF laws(1) s1 f1 room1 runs(3)]
  have s2: "db_session content env g d2" "\<not> db_dirty d2" "config_fits (db_config d2)" "room_for (db_config d2) (vs_slot_count (db_store d2))"
    using f f1 room1 by simp_all
  have d: "db_directory d2 = dir" "db_config d2 = c" "vs_abs (db_store d2) = V" using f w c by simp_all
  show ?thesis using session_reopens [OF laws s2 later] d by (auto simp: opened_def)
qed

section \<open>A run in which nothing fails\<close>

lemma td_law_open: "law_open table_sqlite '''' td_content"
  unfolding law_open_def
  by (auto simp: table_sqlite_def td_exec_def td_query_def td_content_def kPragmas_def split: prod.splits if_splits dest!: td_next_content)

definition calm :: "table_db database \<Rightarrow> bool" where
  "calm d \<longleftrightarrow> quiet (db_world d) \<and> world_ok (db_world d) \<and> ms_conf (db_metadata d) \<and> td_outcomes (ms_db (db_metadata d)) = []"

lemma calm_set_config:
  assumes c: "ms_conf m" and t: "td_outcomes (ms_db m) = []"
  shows "\<exists>m'. ms_set_config table_sqlite k v m = (Inr (), m') \<and> ms_conf m' \<and> td_outcomes (ms_db m') = [] \<and> ms_depth m' = ms_depth m \<and>
    ms_transaction m' = ms_transaction m"
proof -
  let ?db = "(ms_db m)\<lparr>td_config := list_put str_less k v (td_config (ms_db m))\<rparr>"
  have q: "sq_query table_sqlite sql_set_config [SqlText k, SqlText v] (ms_db m) = (([], True), ?db)"
    using t by (simp add: table_sqlite_def td_query_def td_next_def)
  have st: "ms_set_config_value m = \<lparr>st_sql = sql_set_config, st_params = [SqlNull, SqlNull], st_run = None\<rparr>"
    using c by (simp add: ms_conf_def config_statements)
  have "ms_set_config table_sqlite k v m = (Inr (), m\<lparr>ms_db := ?db\<rparr>)"
    using q by (simp add: ms_set_config_def statement_defs Let_def st same_mstore(2) [OF c])
  then show ?thesis using c t by (simp add: ms_conf_def)
qed

lemma calm_set_configs:
  "ms_conf m \<Longrightarrow> td_outcomes (ms_db m) = [] \<Longrightarrow> \<exists>m'. set_configs table_sqlite rows m = (Inr (), m') \<and> ms_conf m' \<and> td_outcomes (ms_db m') = [] \<and>
    ms_depth m' = ms_depth m \<and> ms_transaction m' = ms_transaction m"
proof (induction rows arbitrary: m)
  case Nil
  then show ?case by (simp add: aret_def)
next
  case (Cons row rows)
  obtain k v where row: "row = (k, v)" by fastforce
  obtain m1 where m1: "ms_set_config table_sqlite k v m = (Inr (), m1)" "ms_conf m1" "td_outcomes (ms_db m1) = []"
    "ms_depth m1 = ms_depth m" "ms_transaction m1 = ms_transaction m" using calm_set_config [OF Cons.prems] by blast
  from Cons.IH [OF m1(2,3)] show ?case using m1 by (simp add: row abind_step)
qed

lemma calm_flush:
  assumes i: "db_inv d" and c: "calm d"
  obtains d' where "db_flush small_env d = (Inr (), d')" "calm d'"
proof (cases "db_dirty d")
  case False
  then show ?thesis using that [of d] c by (simp add: db_flush_def db_read_def)
next
  case True
  have vs: "vs_inv (db_store d)" using i by (simp add: db_inv_def)
  obtain cs where cs: "vector_file_chunks (db_store d) = Inr cs" using vector_file_chunks_ok [OF vs] by simp
  obtain w1 where w1: "write_file_atomically (vector_file_path (db_directory d)) cs (db_world d) = (Inr (), w1)" "quiet w1"
    by (rule quiet_replacement [of "db_world d"]) (use c in \<open>auto simp: calm_def\<close>)
  have o1: "world_ok w1" using write_atomically_frame [OF w1(1)] c by (simp add: calm_def)
  obtain m where m: "ms_set_config table_sqlite kKeyNextId (show_nat (unat (db_next_auto_id d))) (db_metadata d) = (Inr (), m)"
    "ms_conf m" "td_outcomes (ms_db m) = []"
    using calm_set_config [of "db_metadata d" kKeyNextId "show_nat (unat (db_next_auto_id d))"] c unfolding calm_def by blast
  have v: "on_files (write_vector_file (vector_file_path (db_directory d)) (db_store d)) d = (Inr (), d\<lparr>db_world := w1\<rparr>)"
    using cs w1(1) by (simp add: on_files_Inr write_vector_file_def alift_def abind_def)
  obtain w2 where w2: "(if dc_index_type (db_config d) = Hnsw then
                (case db_index d of
                   HnswIndex h \<Rightarrow> on_files (write_hnsw_file (index_file_path (db_directory d)) h (dc_dimension (db_config d)))
                 | BruteIndex b \<Rightarrow> aret ())
              else aret ()) (d\<lparr>db_world := w1\<rparr>) = (Inr (), d\<lparr>db_world := w2\<rparr>)" "quiet w2" "world_ok w2"
  proof (cases "dc_index_type (db_config d) = Hnsw \<and> (\<exists>h. db_index d = HnswIndex h)")
    case True
    then obtain h where h: "db_index d = HnswIndex h" by blast
    obtain w2 where w2: "write_file_atomically (index_file_path (db_directory d)) (hnsw_file_chunks h (dc_dimension (db_config d))) w1 = (Inr (), w2)" "quiet w2"
      using quiet_replacement [OF w1(2) o1] by blast
    then show ?thesis using that [of w2] True h write_atomically_frame [OF w2(1) o1] by (simp add: on_files_Inr write_hnsw_file_def)
  next
    case False
    then show ?thesis using that [of w1] w1(2) o1 by (cases "db_index d") (auto simp: aret_def)
  qed
  have "db_flush small_env d = (Inr (), d\<lparr>db_world := w2, db_metadata := m, db_dirty := False\<rparr>)"
    using True v w2(1) m(1) by (simp add: db_flush_def db_read_def abind_step on_metadata_Inr db_update_def small_env_def del: if_split)
  then show ?thesis using that w2(2,3) m(2,3) by (simp add: calm_def)
qed

text \<open>A new directory, its metadata file with empty tables.\<close>

definition new_world :: world where
  "new_world = empty_world\<lparr>w_dir := [metadata_file_path ''d'' \<mapsto> 0], w_next := 1\<rparr>"

definition new_host :: "table_db host" where
  "new_host = \<lparr>ho_exists = False, ho_mkdir = True, ho_is_directory = True,
     ho_sqlite = Some \<lparr>td_rows = [], td_config = [], td_saved = None, td_outcomes = []\<rparr>, ho_world = new_world, ho_scratch = vst_empty\<rparr>"

lemma new_host_ok: "new_metadata td_content new_host" "world_ok (ho_world new_host)" "quiet (ho_world new_host)" "vst_inv (ho_scratch new_host)"
  by (auto simp: new_metadata_def new_host_def td_content_def td_meta_def new_world_def empty_world_def world_ok_def quiet_def split: if_splits)

lemma calm_created:
  assumes c: "dc_validate c = Inr ()"
  obtains d where "db_create small_env ''d'' c new_host = Inr (Inr (), d)" "calm d"
proof -
  have dim: "0 < dc_dimension c" "dc_dimension c \<le> kMaxDimension" using c by (auto simp: dc_validate_def result_simps)
  obtain s where s: "vs_new (dc_dimension c) (dc_normalize c) = Inr s" using dim by (simp add: vs_new_def va_new_def result_simps)
  have room: "room_for c (vs_slot_count s)" by (simp add: new_store_empty [OF s] room_for_def)
  obtain ix w where b: "built_index small_env c s vst_empty = Inr (ix, w)" "ix_good ix (vs_slot_count s)" "ix_accessor ix = vs_accessor s"
      "ix_info ix = (dc_metric c, if dc_index_type c = Hnsw then Some (dc_hnsw c) else None)" "vst_inv w"
    using built_index_ok [OF _ c empty_scratch room, of small_env] vs_new_ok [OF s] by blast
  have exec: "connection_execute table_sqlite kPragmas db = (Inr (), db)" "connection_execute table_sqlite [] db = (Inr (), db)" if "td_outcomes db = []" for db
    using that by (simp_all add: connection_execute_def table_sqlite_def td_exec_def td_next_def kPragmas_def)
  have prep: "statement_prepare table_sqlite sql db = (Inr (st_new sql), db)" for sql db
    by (simp add: statement_prepare_def table_sqlite_def)
  let ?db0 = "\<lparr>td_rows = [], td_config = [], td_saved = None, td_outcomes = []\<rparr>"
  let ?db1 = "?db0\<lparr>td_config := [(''schema_version'', show_nat kSchemaVersion)]\<rparr>"
  have "sq_query table_sqlite sql_schema_version [SqlText t] ?db0 = (([], True), ?db0\<lparr>td_config := [(''schema_version'', t)]\<rparr>)" for t
    by (simp add: table_sqlite_def td_query_def td_next_def)
  then have "local_statement table_sqlite sql_schema_version (abind (bind_text 1 t) (\<lambda>_. stmt_run table_sqlite)) ?db0 =
      (Inr (), ?db0\<lparr>td_config := [(''schema_version'', t)]\<rparr>)" for t
    by (simp add: local_statement_def prep config_statements(3) statement_defs Let_def)
  then have m: "ms_open (en_sqlite small_env) (en_schema small_env) (ho_sqlite new_host) = Inr (fresh_mstore ?db1)"
    by (simp add: ms_open_def connection_open_def new_host_def small_env_def abind_step exec prep fresh_mstore_def del: statement_params)
  let ?db2 = "?db1\<lparr>td_saved := Some ([], [(''schema_version'', show_nat kSchemaVersion)])\<rparr>"
  let ?m1 = "(fresh_mstore ?db2)\<lparr>ms_depth := 1, ms_transaction := Some False\<rparr>"
  have bg: "begin_locked table_sqlite (fresh_mstore ?db1) = (Inr (), ?m1)"
    by (simp add: begin_locked_def Let_def abind_def on_db_def transaction_new_def connection_execute_def fresh_mstore_def table_sqlite_def
        td_exec_def td_next_def)
  have "ms_conf ?m1" "td_outcomes (ms_db ?m1) = []" by (simp_all add: ms_conf_def fresh_mstore_def)
  from calm_set_configs [OF this] obtain m2 where m2: "set_configs table_sqlite (config_rows c 0) ?m1 = (Inr (), m2)" "ms_conf m2"
    "td_outcomes (ms_db m2) = []" "ms_depth m2 = 1" "ms_transaction m2 = Some False" by auto
  obtain m3 where m3: "commit_locked table_sqlite m2 = (Inr (), m3)" "ms_conf m3" "td_outcomes (ms_db m3) = []"
    using m2 by (simp add: commit_locked_def Let_def abind_def on_db_def transaction_commit_def transaction_destroy_def connection_execute_def
        table_sqlite_def td_exec_def td_next_def ms_conf_def)
  have p: "persist_config (en_sqlite small_env) c 0 (fresh_mstore ?db1) = (Inr (), m3)"
    using bg m2(1) m3(1) by (simp add: persist_config_def in_transaction_def abind_step acatch_step small_env_def)
  let ?d0 = "created ''d'' c new_host s m3 ix w"
  have i: "db_inv ?d0" using b vs_new_ok [OF s] c by (simp add: db_inv_def created_def)
  have k: "calm ?d0" using m3 new_host_ok by (simp add: calm_def created_def)
  obtain d where d: "db_flush small_env ?d0 = (Inr (), d)" "calm d" by (rule calm_flush [OF i k])
  have "vst_empty = ho_scratch new_host" by (simp add: new_host_def)
  then have "db_create small_env ''d'' c new_host = Inr (Inr (), d)"
    using c s m p b(1) d(1) unfolding created_def by (simp add: db_create_def guard_throw_def new_host_def)
  then show ?thesis using that d(2) by blast
qed

section \<open>Properties\<close>

lemma opened_fields:
  "opened content env dir c s g n W d \<Longrightarrow> db_inv d \<and> db_holds content g d \<and> db_config d = c \<and> db_store d = s \<and> db_next_auto_id d = n"
  by (simp add: opened_def)

text \<open>C1: What was written is there after closing and opening. A database is created over empty tables, written to, flushed and
  opened again, by a process that finds the files and the tables as they were left. Then opening returns the same
  configuration, the same vectors slot by slot and the same next id, and reading an id gives what the writes leave in
  a map of vectors and a map of metadata, or opening throws a \<^verbatim>\<open>MetadataError\<close> or an \<^verbatim>\<open>IoError\<close>. The configuration is valid
  with graph parameters below 2 to the 32 (\<open>config_fits\<close>), and a graph has room for every write at any levels drawn
  (\<open>room_for\<close>: with M = 16, up to about a million vectors).\<close>

theorem database_survives_reopening:
  assumes "sqlite_laws (en_sqlite env) content" and "law_open (en_sqlite env) (en_schema env) content"
    and "new_metadata content host" and "world_ok (ho_world host)" and "vst_inv (ho_scratch host)"
    and "config_fits c" and "room_for c (length ws)" and "\<forall>w\<in>set ws. md_sorted (write_metadata w)"
    and "db_create env dir c host = Inr (Inr (), d0)" and "run_writes env ws d0 = (Inr (), d1)" and "db_flush env d1 = (Inr (), d2)"
    and "left_behind content d2 host'"
    and "fold (apply_write (dc_normalize c)) ws (Map.empty, \<lambda>_. []) = (V, g)"
  shows "db_open env dir host' \<in> {Inl MetadataError, Inl IoError} \<or>
    (\<exists>e. db_open env dir host' = Inr e \<and> db_inv e \<and> db_config e = c \<and> db_store e = db_store d2 \<and> db_next_auto_id e = db_next_auto_id d2 \<and>
      vs_abs (db_store e) = V \<and>
      (\<forall>vid r e'. db_get env vid e = (Inr r, e') \<longrightarrow>
         r = map_option (\<lambda>(v, _). \<lparr>sv_id = vid, sv_vector = v, sv_metadata = read_md (g vid)\<rparr>) (V vid)))"
  using lifecycle [OF assms] get_refines [OF assms(1)] by blast

lemma new_metadata_visible: "visible (ho_world new_host) (metadata_file_path ''d'') \<noteq> None"
  by (simp add: visible_def new_host_def new_world_def)

lemma small_config_fits: "config_fits (small_config\<lparr>dc_index_type := t\<rparr>)"
  by (cases t) (simp_all add: config_fits_def small_config_def dc_validate_def kMaxDimension_def hc_default_def hc_validate_def result_simps)

lemma database_survives_reopening_witness:
  "\<exists>d0 d1 d2. db_create small_env ''d'' small_config new_host = Inr (Inr (), d0) \<and>
     run_writes small_env [WInsert 7 [0] []] d0 = (Inr (), d1) \<and> db_flush small_env d1 = (Inr (), d2) \<and>
     (let host = new_host\<lparr>ho_world := db_world d2, ho_sqlite := Some (ms_db (db_metadata d2))\<rparr> in
      db_open small_env ''d'' host \<in> {Inl MetadataError, Inl IoError} \<or>
      (\<exists>e. db_open small_env ''d'' host = Inr e \<and> vs_abs (db_store e) 7 \<noteq> None))"
proof -
  let ?c = "small_config" and ?ws = "[WInsert 7 [0] []]"
  have fits: "config_fits ?c" using small_config_fits [of BruteForce] by (simp add: small_config_def)
  obtain d0 where d0: "db_create small_env ''d'' ?c new_host = Inr (Inr (), d0)" "calm d0"
    by (rule calm_created [of ?c]) simp
  have lo: "law_open (en_sqlite small_env) (en_schema small_env) td_content" using td_law_open by (simp add: small_env_def)
  note c0 = create_session [OF small_laws lo new_host_ok(1,2,4) fits d0(1)]
  have i0: "db_inv d0" using c0 by (simp add: db_session_def)
  have s0: "vs_inv (db_store d0)" "vs_dimension (db_store d0) = 1" using i0 c0 by (simp_all add: db_inv_def small_config_def)
  have "vs_id_to_local (db_store d0) 7 = None" using c0 s0(1) by (simp add: vs_abs_def fun_eq_iff split: option.splits)
  then obtain i s where ins: "vs_insert (db_store d0) 7 [0] = Inr (i, s)"
    using vs_insert_total [OF s0(1), of 7 "[0]"] c0 s0(2) zero_vector_valid by (auto simp: kMaxVectorCount_def)
  have room: "room_for ?c (length ?ws)" by (simp add: room_for_def small_config_def kMaxVectorCount_def)
  have r0: "db_room d0" using room c0 by (simp add: db_room_def)
  obtain d' where d': "index_add small_env i (refresh_accessor (d0\<lparr>db_store := s\<rparr>)) = (Inr (), d')" "db_inv d'"
    "d' = d0\<lparr>db_store := s, db_index := db_index d', db_scratch := db_scratch d'\<rparr>" using insert_steps [OF i0 i0 r0 ins] by blast
  let ?d1 = "(if 7 \<ge> db_next_auto_id d' then d'\<lparr>db_next_auto_id := 7 + 1\<rparr> else d')\<lparr>db_dirty := True\<rparr>"
  have run1: "run_writes small_env ?ws d0 = (Inr (), ?d1)"
    using ins d'(1) by (simp add: db_insert_def db_read_def abind_def db_update_def)
  have "db_world d' = db_world d0" "db_metadata d' = db_metadata d0" by (subst d'(3), simp)+
  then have k0: "calm ?d1" using d0(2) by (simp add: calm_def)
  have i2: "db_inv ?d1" using d'(2) by (simp add: db_inv_def)
  obtain d1 where run: "run_writes small_env ?ws d0 = (Inr (), d1)" and k1: "calm d1" and i1: "db_inv d1" using run1 k0 i2 by blast
  obtain d2 where d2: "db_flush small_env d1 = (Inr (), d2)" "calm d2" by (rule calm_flush [OF i1 k1])
  obtain V g where ap: "fold (apply_write (dc_normalize ?c)) ?ws (Map.empty, \<lambda>_. []) = (V, g)" by fastforce
  have md: "\<forall>w\<in>set ?ws. md_sorted (write_metadata w)" by (simp add: md_sorted_def)
  let ?h = "new_host\<lparr>ho_world := db_world d2, ho_sqlite := Some (ms_db (db_metadata d2))\<rparr>"
  have "fold (apply_write (dc_normalize (db_config d0))) ?ws (vs_abs (db_store d0), \<lambda>_. []) = (V, g)" using c0 ap by simp
  from session_writes [OF small_laws _ _ md run this] c0 room
  have w: "db_session td_content small_env g d1 \<and> db_config d1 = ?c \<and> db_directory d1 = ''d'' \<and> db_world d1 = db_world d0 \<and>
    vs_slot_count (db_store d1) \<le> 1" by (simp del: run_writes.simps)
  then have s1: "db_session td_content small_env g d1" "config_fits (db_config d1)" using fits by simp_all
  have room1: "room_for (db_config d1) (vs_slot_count (db_store d1))" using w room_mono [OF room, of "vs_slot_count (db_store d1)"] by simp
  note f2 = session_flush [OF small_laws s1 room1 d2(1)]
  have f: "db_directory d2 = ''d''" "visible (db_world d2) (metadata_file_path ''d'') = visible (db_world d0) (metadata_file_path ''d'')" using f2 w by simp_all
  have later: "left_behind td_content d2 ?h" using c0 f new_metadata_visible by (simp add: left_behind_def new_host_def)
  have "V 7 \<noteq> None" using ap by auto
  then have "db_open small_env ''d'' ?h \<in> {Inl MetadataError, Inl IoError} \<or>
      (\<exists>e. db_open small_env ''d'' ?h = Inr e \<and> vs_abs (db_store e) 7 \<noteq> None)"
    using database_survives_reopening [OF small_laws lo new_host_ok(1,2,4) fits room md d0(1) run d2(1) later ap] by blast
  then show ?thesis using d0(1) run d2(1) unfolding Let_def by blast
qed

text \<open>C17: A damaged or missing index file costs a rebuild and nothing else. Opening a flushed graph database whose index file is
  gone, or holds bytes the reader calls corrupt, gives the same configuration, vectors, next id and metadata, and a
  new graph over them, or opening throws a \<^verbatim>\<open>MetadataError\<close> or an \<^verbatim>\<open>IoError\<close>; the database is dirty, so that the next flush
  replaces the file. The slots are few enough for the new graph at any levels drawn (\<open>room_for\<close>).\<close>

theorem damaged_index_is_rebuilt:
  assumes "sqlite_laws (en_sqlite env) content" and "law_open (en_sqlite env) (en_schema env) content"
    and "db_session content env g d" and "\<not> db_dirty d" and "config_fits (db_config d)"
    and "room_for (db_config d) (vs_slot_count (db_store d))" and "dc_index_type (db_config d) = Hnsw"
    and "visible w = (visible (db_world d))(index_file_path (db_directory d) := damage)"
    and "\<forall>bytes. damage = Some bytes \<longrightarrow> (\<exists>x. is_corruption x \<and>
      read_hnsw_file bytes (vs_accessor (db_store d)) (dc_metric (db_config d)) (dc_dimension (db_config d)) (en_kernel env) = Inl x)"
    and "left_behind content (d\<lparr>db_world := w\<rparr>) host"
  shows "db_open env (db_directory d) host \<in> {Inl MetadataError, Inl IoError} \<or>
    (\<exists>e. db_open env (db_directory d) host = Inr e \<and> db_inv e \<and> db_config e = db_config d \<and> db_store e = db_store d \<and>
      db_next_auto_id e = db_next_auto_id d \<and> db_holds content g e \<and> db_dirty e)"
proof -
  have clean: "files_current env d (db_rows content d)" using assms(3,4) by (simp add: db_session_def)
  have W: "visible w (index_file_path (db_directory d)) = damage" "visible w (vector_file_path (db_directory d)) = visible (db_world d) (vector_file_path (db_directory d))"
    using assms(8) paths_differ(1) [of "db_directory d"] by simp_all
  have "index_file_ok env (db_directory d) (db_config d) (db_store d) (visible w)"
    using W(1) assms(9) by (auto simp: index_file_ok_def)
  then have disk: "on_disk env (db_directory d) (db_config d) (db_store d) g (db_next_auto_id d) (content (ms_db (db_metadata d))) (visible w)"
    using clean W(2) assms(3) by (auto simp: on_disk_def files_current_def db_session_def db_rows_def db_holds_def ms_rest_def)
  obtain db where db: "ho_sqlite host = Some db" "content db = content (ms_db (db_metadata d))" "visible (ho_world host) = visible w"
    using assms(10) by (auto simp: left_behind_def)
  have disk': "on_disk env (db_directory d) (db_config d) (db_store d) g (db_next_auto_id d) (content db) (visible (ho_world host))"
    using disk db(2,3) by simp
  have inv: "db_inv d" using assms(3) by (simp add: db_session_def)
  have "db_open env (db_directory d) host \<in> {Inl MetadataError, Inl IoError} \<or>
    (\<exists>e. db_open env (db_directory d) host = Inr e \<and>
      opened content env (db_directory d) (db_config d) (db_store d) g (db_next_auto_id d) (visible (ho_world host)) e)"
    by (rule open_cases [OF assms(1,2) _ _ db(1) _ disk' assms(5) _ _ _ assms(6)]) (use assms(10) inv in \<open>auto simp: left_behind_def db_inv_def\<close>)
  moreover have "db_dirty e" if "opened content env (db_directory d) (db_config d) (db_store d) g (db_next_auto_id d) (visible (ho_world host)) e" for e
    using that W(1) assms(7,9) db(3) by (fastforce simp: opened_def split: if_splits)
  ultimately show ?thesis using opened_fields by blast
qed

lemma damaged_index_is_rebuilt_witness:
  "\<exists>(d :: table_db database) w. visible w (index_file_path ''d'') = Some [] \<and>
     (let host = new_host\<lparr>ho_world := w, ho_sqlite := Some (ms_db (db_metadata d))\<rparr> in
      db_open small_env ''d'' host \<in> {Inl MetadataError, Inl IoError} \<or>
      (\<exists>e. db_open small_env ''d'' host = Inr e \<and> db_store e = db_store d \<and> db_dirty e))"
proof -
  let ?c = "small_config\<lparr>dc_index_type := Hnsw\<rparr>"
  have fits: "config_fits ?c" by (rule small_config_fits)
  then have ok: "dc_validate ?c = Inr ()" by (simp add: config_fits_def)
  obtain d where d: "db_create small_env ''d'' ?c new_host = Inr (Inr (), d)" "calm d" by (rule calm_created [OF ok])
  have lo: "law_open (en_sqlite small_env) (en_schema small_env) td_content" using td_law_open by (simp add: small_env_def)
  note c = create_session [OF small_laws lo new_host_ok(1,2,4) fits d(1)]
  let ?i = "w_next (db_world d)" and ?p = "index_file_path ''d''"
  let ?w = "(db_world d)\<lparr>w_dir := (w_dir (db_world d))(?p \<mapsto> ?i), w_data := (w_data (db_world d))(?i := [])\<rparr>"
  have ok: "world_ok (db_world d)" using d(2) by (simp add: calm_def)
  have vis: "visible ?w = (visible (db_world d))(?p := Some [])"
  proof
    fix q
    show "visible ?w q = ((visible (db_world d))(?p := Some [])) q"
      using ok by (cases "w_dir (db_world d) q") (auto simp: visible_def world_ok_def)
  qed
  have disk: "visible ?w (metadata_file_path ''d'') \<noteq> None"
    using c new_metadata_visible paths_differ(5) [of "''d''"] by (simp add: vis)
  have dir: "db_directory d = ''d''" "db_config d = ?c" "vs_slot_count (db_store d) = 0" "\<not> db_dirty d" using c by simp_all
  let ?h = "new_host\<lparr>ho_world := ?w, ho_sqlite := Some (ms_db (db_metadata d))\<rparr>"
  have "left_behind td_content (d\<lparr>db_world := ?w\<rparr>) ?h" using disk dir by (simp add: left_behind_def new_host_def)
  moreover have "read_hnsw_file [] ac m n kn = Inl CorruptionError" for ac m n kn
    by (simp add: read_hnsw_file_def parse_hnsw_file_header_def kHnswFileHeaderSize_def)
  moreover have "db_session td_content small_env (\<lambda>_. []) d" using c by blast
  moreover have "room_for (db_config d) (vs_slot_count (db_store d))" using dir by (simp add: room_for_def)
  ultimately have "db_open small_env (db_directory d) ?h \<in> {Inl MetadataError, Inl IoError} \<or>
    (\<exists>e. db_open small_env (db_directory d) ?h = Inr e \<and> db_inv e \<and> db_config e = db_config d \<and> db_store e = db_store d \<and>
      db_next_auto_id e = db_next_auto_id d \<and> db_holds td_content (\<lambda>_. []) e \<and> db_dirty e)"
    using dir fits vis by (intro damaged_index_is_rebuilt [OF small_laws lo, where w = ?w and damage = "Some []"]) (simp_all del: fun_upd_apply)
  then have "db_open small_env ''d'' ?h \<in> {Inl MetadataError, Inl IoError} \<or>
      (\<exists>e. db_open small_env ''d'' ?h = Inr e \<and> db_store e = db_store d \<and> db_dirty e)" unfolding dir(1) by blast
  moreover have "visible ?w ?p = Some []" by (simp add: vis)
  ultimately show ?thesis unfolding Let_def by blast
qed

end
