(* ===== verification/Vdb_ThreadPool.thy ===== *)
theory Vdb_ThreadPool
  imports Vdb_Action
begin

text \<open>
  The work queue of \<^verbatim>\<open>src/concurrency/thread_pool.cpp\<close>. Every critical section under the pool's mutex is one function on
  the state; a step relation interleaves them, the notifications (which are sent after the mutex is released) and
  the spurious wake-ups a condition variable is allowed.
\<close>

section \<open>State\<close>

text \<open>
  Where a worker is in its loop: about to evaluate the predicate under the mutex, blocked on \<^verbatim>\<open>work_available_\<close>, running a
  task without the mutex, about to give up its activity, or returned.
\<close>

datatype 't worker = Checking | Waiting | Running 't | Leaving | Exited

text \<open>
  \<open>pl_notify_one\<close> counts the submitters between unlocking and \<^verbatim>\<open>notify_one\<close>, \<open>pl_notify_all\<close> is the destructor between unlocking
  and \<^verbatim>\<open>notify_all\<close>. The idle counters are the callers of \<^verbatim>\<open>wait_idle\<close>. The last three fields are a history: what was
  submitted and started, in order, and what is done with the outcome its future holds.
\<close>

record 't pool =
  pl_workers :: "'t worker list"
  pl_tasks :: "'t list"
  pl_active :: nat
  pl_stopping :: bool
  pl_notify_one :: nat
  pl_notify_all :: bool
  pl_idle_checking :: nat
  pl_idle_blocked :: nat
  pl_submitted :: "'t list"
  pl_started :: "'t list"
  pl_done :: "('t \<times> unit result) list"

section \<open>Operations\<close>

definition hardware_threads :: "nat \<Rightarrow> nat" where
  "hardware_threads reported = (if reported = 0 then 1 else reported)"

definition pool_new :: "nat \<Rightarrow> nat \<Rightarrow> 't pool" where
  "pool_new threads reported =
     \<lparr>pl_workers = replicate (if threads = 0 then hardware_threads reported else threads) Checking, pl_tasks = [], pl_active = 0,
      pl_stopping = False, pl_notify_one = 0, pl_notify_all = False, pl_idle_checking = 0, pl_idle_blocked = 0,
      pl_submitted = [], pl_started = [], pl_done = []\<rparr>"

definition pool_size :: "'t pool \<Rightarrow> nat" where
  "pool_size p = length (pl_workers p)"

definition pool_pending :: "'t pool \<Rightarrow> nat" where
  "pool_pending p = length (pl_tasks p)"

definition pool_submit :: "'t \<Rightarrow> 't pool \<Rightarrow> 't pool result" where
  "pool_submit t p =
     (if pl_stopping p then Inl StdException
      else Inr (p\<lparr>pl_tasks := pl_tasks p @ [t], pl_notify_one := pl_notify_one p + 1, pl_submitted := pl_submitted p @ [t]\<rparr>))"

text \<open>The first block of the loop body: wait, return, or take a task.\<close>

definition worker_check :: "nat \<Rightarrow> 't pool \<Rightarrow> 't pool" where
  "worker_check i p =
     (case pl_tasks p of
        [] \<Rightarrow> p\<lparr>pl_workers := (pl_workers p)[i := if pl_stopping p then Exited else Waiting]\<rparr>
      | t # ts \<Rightarrow> p\<lparr>pl_workers := (pl_workers p)[i := Running t], pl_tasks := ts, pl_active := pl_active p + 1,
                   pl_started := pl_started p @ [t]\<rparr>)"

text \<open>The task ends with a result or an exception, which goes into its future.\<close>

definition worker_finish :: "nat \<Rightarrow> unit result \<Rightarrow> 't pool \<Rightarrow> 't pool" where
  "worker_finish i r p =
     (case pl_workers p ! i of
        Running t \<Rightarrow> p\<lparr>pl_workers := (pl_workers p)[i := Leaving], pl_done := pl_done p @ [(t, r)]\<rparr>
      | _ \<Rightarrow> p)"

definition notify_idle :: "'t pool \<Rightarrow> 't pool" where
  "notify_idle p = p\<lparr>pl_idle_checking := pl_idle_checking p + pl_idle_blocked p, pl_idle_blocked := 0\<rparr>"

text \<open>The second block of the loop body.\<close>

definition worker_leave :: "nat \<Rightarrow> 't pool \<Rightarrow> 't pool" where
  "worker_leave i p =
     (let p = p\<lparr>pl_active := pl_active p - 1, pl_workers := (pl_workers p)[i := Checking]\<rparr> in
      if pl_tasks p = [] \<and> pl_active p = 0 then notify_idle p else p)"

definition wake :: "'t worker \<Rightarrow> 't worker" where
  "wake w = (case w of Waiting \<Rightarrow> Checking | _ \<Rightarrow> w)"

text \<open>The destructor: set the flag, notify everybody; then it joins the workers.\<close>

definition pool_stop :: "'t pool \<Rightarrow> 't pool" where
  "pool_stop p = p\<lparr>pl_stopping := True, pl_notify_all := True\<rparr>"

definition pool_notify_all :: "'t pool \<Rightarrow> 't pool" where
  "pool_notify_all p = p\<lparr>pl_workers := map wake (pl_workers p), pl_notify_all := False\<rparr>"

definition pool_joined :: "'t pool \<Rightarrow> bool" where
  "pool_joined p \<longleftrightarrow> list_all (\<lambda>w. w = Exited) (pl_workers p)"

text \<open>The predicate of \<^verbatim>\<open>wait_idle\<close>, and a caller evaluating it.\<close>

definition pool_idle :: "'t pool \<Rightarrow> bool" where
  "pool_idle p \<longleftrightarrow> pl_tasks p = [] \<and> pl_active p = 0"

definition wait_idle_check :: "'t pool \<Rightarrow> 't pool" where
  "wait_idle_check p =
     (if pool_idle p then p\<lparr>pl_idle_checking := pl_idle_checking p - 1\<rparr>
      else p\<lparr>pl_idle_checking := pl_idle_checking p - 1, pl_idle_blocked := pl_idle_blocked p + 1\<rparr>)"

section \<open>Interleavings\<close>

text \<open>What workers do, with the wake-ups of submitters and of the destructor.\<close>

inductive work_step :: "'t pool \<Rightarrow> 't pool \<Rightarrow> bool" where
  check: "i < length (pl_workers p) \<Longrightarrow> pl_workers p ! i = Checking \<Longrightarrow> work_step p (worker_check i p)"
| finish: "i < length (pl_workers p) \<Longrightarrow> pl_workers p ! i = Running t \<Longrightarrow> work_step p (worker_finish i r p)"
| leave: "i < length (pl_workers p) \<Longrightarrow> pl_workers p ! i = Leaving \<Longrightarrow> work_step p (worker_leave i p)"
| notify_one: "0 < pl_notify_one p \<Longrightarrow> i < length (pl_workers p) \<Longrightarrow> pl_workers p ! i = Waiting \<Longrightarrow>
    work_step p (p\<lparr>pl_workers := (pl_workers p)[i := wake Waiting], pl_notify_one := pl_notify_one p - 1\<rparr>)"
| notify_nobody: "0 < pl_notify_one p \<Longrightarrow> Waiting \<notin> set (pl_workers p) \<Longrightarrow> work_step p (p\<lparr>pl_notify_one := pl_notify_one p - 1\<rparr>)"
| notify_all: "pl_notify_all p \<Longrightarrow> work_step p (pool_notify_all p)"

text \<open>And what the rest of the program and the runtime may do in between.\<close>

inductive pool_step :: "'t pool \<Rightarrow> 't pool \<Rightarrow> bool" where
  work: "work_step p p' \<Longrightarrow> pool_step p p'"
| submit: "pool_submit t p = Inr p' \<Longrightarrow> pool_step p p'"
| stop: "\<not> pl_stopping p \<Longrightarrow> pool_step p (pool_stop p)"
| spurious: "i < length (pl_workers p) \<Longrightarrow> pl_workers p ! i = Waiting \<Longrightarrow> pool_step p (p\<lparr>pl_workers := (pl_workers p)[i := wake Waiting]\<rparr>)"
| wait_idle: "pool_step p (p\<lparr>pl_idle_checking := pl_idle_checking p + 1\<rparr>)"
| idle_check: "0 < pl_idle_checking p \<Longrightarrow> pool_step p (wait_idle_check p)"
| idle_spurious: "0 < pl_idle_blocked p \<Longrightarrow>
    pool_step p (p\<lparr>pl_idle_blocked := pl_idle_blocked p - 1, pl_idle_checking := pl_idle_checking p + 1\<rparr>)"

inductive_cases work_stepE: "work_step p p'"
inductive_cases pool_stepE: "pool_step p p'"

inductive pool_reach :: "'t pool \<Rightarrow> bool" where
  created: "pool_reach (pool_new threads reported)"
| stepped: "pool_reach p \<Longrightarrow> pool_step p p' \<Longrightarrow> pool_reach p'"

section \<open>Counting workers\<close>

lemma sum_list_put:
  fixes f :: "'a \<Rightarrow> 'b::comm_monoid_add"
  assumes "i < length xs"
  shows "sum_list (map f (xs[i := x])) + f (xs ! i) = sum_list (map f xs) + f x"
proof -
  have "sum_list (map f (ys @ y # zs)) + f x = sum_list (map f (ys @ x # zs)) + f y" for y ys zs by (simp add: ac_simps)
  then show ?thesis by (metis assms id_take_nth_drop upd_conv_take_nth_drop)
qed

fun busy :: "'t worker \<Rightarrow> nat" where
  "busy (Running t) = 1" | "busy Leaving = 1" | "busy _ = 0"

fun ready :: "'t worker \<Rightarrow> nat" where
  "ready Checking = 1" | "ready _ = 0"

fun carries :: "'t worker \<Rightarrow> 't multiset" where
  "carries (Running t) = {#t#}" | "carries _ = {#}"

definition total :: "('t worker \<Rightarrow> 'm::comm_monoid_add) \<Rightarrow> 't pool \<Rightarrow> 'm" where
  "total f p = sum_list (map f (pl_workers p))"

lemma total_put: "i < length (pl_workers p) \<Longrightarrow> pl_workers p ! i = w \<Longrightarrow>
    sum_list (map f ((pl_workers p)[i := w'])) + f w = total f p + f w'"
  unfolding total_def using sum_list_put [of i "pl_workers p" f w'] by simp

lemma total_wake: "(\<And>w. f (wake w) = f w) \<Longrightarrow> sum_list (map f (map wake ws)) = sum_list (map f ws)"
  by (induction ws) simp_all

lemma wake_counts [simp]: "busy (wake w) = busy w" "carries (wake w) = carries w" "wake w \<noteq> Waiting" "wake w = Exited \<longleftrightarrow> w = Exited" "wake Waiting = Checking"
  by (cases w; simp add: wake_def)+

section \<open>The invariant\<close>

definition pool_inv :: "'t pool \<Rightarrow> bool" where
  "pool_inv p \<longleftrightarrow>
     pl_active p = total busy p \<and> pl_started p @ pl_tasks p = pl_submitted p \<and>
     mset (pl_started p) = total carries p + mset (map fst (pl_done p)) \<and>
     (Waiting \<in> set (pl_workers p) \<longrightarrow> length (pl_tasks p) \<le> total ready p + pl_notify_one p) \<and>
     (pl_stopping p \<longrightarrow> pl_notify_all p \<or> Waiting \<notin> set (pl_workers p)) \<and>
     (Exited \<in> set (pl_workers p) \<longrightarrow> pl_stopping p \<and> pl_tasks p = []) \<and>
     (0 < pl_idle_blocked p \<longrightarrow> \<not> pool_idle p)"

lemma set_put: "w \<in> set (ws[i := w']) \<Longrightarrow> w = w' \<or> w \<in> set ws"
  using set_update_subset_insert by fastforce

lemma waits_put: "w \<noteq> w' \<Longrightarrow> w \<in> set (ws[i := w']) \<Longrightarrow> w \<in> set ws"
  using set_put by fastforce

lemma total_same: "f w = 0 \<Longrightarrow> sum_list (map f (replicate n w)) = 0" for f :: "'t worker \<Rightarrow> 'm::comm_monoid_add"
  by (induction n) simp_all

lemma created_inv: "pool_inv (pool_new threads reported :: 'a pool)"
proof -
  have "total busy (pool_new threads reported :: 'a pool) = 0" "total carries (pool_new threads reported :: 'a pool) = {#}"
    unfolding total_def pool_new_def by (simp_all del: map_replicate add: total_same)
  then show ?thesis by (simp add: pool_inv_def) (simp add: pool_new_def pool_idle_def)
qed

lemmas pool_ops = worker_check_def worker_finish_def worker_leave_def notify_idle_def pool_notify_all_def pool_stop_def wait_idle_check_def
  pool_submit_def

lemma total_fields [simp]:
  "total f (p\<lparr>pl_tasks := a\<rparr>) = total f p" "total f (p\<lparr>pl_active := b\<rparr>) = total f p" "total f (p\<lparr>pl_stopping := c\<rparr>) = total f p"
  "total f (p\<lparr>pl_notify_one := b\<rparr>) = total f p" "total f (p\<lparr>pl_notify_all := c\<rparr>) = total f p" "total f (p\<lparr>pl_idle_checking := b\<rparr>) = total f p"
  "total f (p\<lparr>pl_idle_blocked := b\<rparr>) = total f p" "total f (p\<lparr>pl_submitted := a\<rparr>) = total f p" "total f (p\<lparr>pl_started := a\<rparr>) = total f p"
  "total f (p\<lparr>pl_done := d\<rparr>) = total f p"
  "total f (p\<lparr>pl_active := b, pl_workers := ws\<rparr>) = total f (p\<lparr>pl_workers := ws\<rparr>)"
  by (simp_all add: total_def)

lemma total_workers: "i < length (pl_workers p) \<Longrightarrow> pl_workers p ! i = w \<Longrightarrow> total f (p\<lparr>pl_workers := (pl_workers p)[i := w']\<rparr>) + f w = total f p + f w'"
  using total_put by (simp add: total_def)

lemma check_inv:
  assumes p: "pool_inv p" and i: "i < length (pl_workers p)" "pl_workers p ! i = Checking"
  shows "pool_inv (worker_check i p)"
proof (cases "pl_tasks p")
  case Nil
  let ?w = "if pl_stopping p then Exited else Waiting"
  have c: "total busy (p\<lparr>pl_workers := (pl_workers p)[i := ?w]\<rparr>) = total busy p" "total carries (p\<lparr>pl_workers := (pl_workers p)[i := ?w]\<rparr>) = total carries p"
    using total_workers [OF i, of busy ?w] total_workers [OF i, of carries ?w] by (auto split: if_splits)
  show ?thesis using p Nil c set_put [of _ "pl_workers p" i ?w] by (fastforce simp: pool_inv_def worker_check_def pool_idle_def split: if_splits)
next
  case (Cons t ts)
  let ?p = "p\<lparr>pl_workers := (pl_workers p)[i := Running t]\<rparr>"
  have c: "total busy ?p = total busy p + 1" "total carries ?p = total carries p + {#t#}" "total ready ?p + 1 = total ready p"
    using total_workers [OF i, of busy "Running t"] total_workers [OF i, of carries "Running t"] total_workers [OF i, of ready "Running t"] by simp_all
  show ?thesis using p Cons c waits_put [of _ "Running t" "pl_workers p" i]
    by (auto simp: pool_inv_def worker_check_def pool_idle_def)
qed

lemma finish_inv:
  assumes p: "pool_inv p" and i: "i < length (pl_workers p)" "pl_workers p ! i = Running t"
  shows "pool_inv (worker_finish i r p)"
proof -
  let ?p = "p\<lparr>pl_workers := (pl_workers p)[i := Leaving]\<rparr>"
  have c: "total busy ?p = total busy p" "total carries ?p + {#t#} = total carries p" "total ready ?p = total ready p"
    using total_workers [OF i, of busy Leaving] total_workers [OF i, of carries Leaving] total_workers [OF i, of ready Leaving] by simp_all
  show ?thesis using p i c waits_put [of _ Leaving "pl_workers p" i]
    by (auto simp: pool_inv_def worker_finish_def pool_idle_def)
qed

lemma leave_inv:
  assumes p: "pool_inv p" and i: "i < length (pl_workers p)" "pl_workers p ! i = Leaving"
  shows "pool_inv (worker_leave i p)"
proof -
  let ?p = "p\<lparr>pl_workers := (pl_workers p)[i := Checking]\<rparr>"
  have c: "total busy ?p + 1 = total busy p" "total carries ?p = total carries p" "total ready ?p = total ready p + 1"
    using total_workers [OF i, of busy Checking] total_workers [OF i, of carries Checking] total_workers [OF i, of ready Checking] by simp_all
  have a: "pl_active p = Suc (total busy ?p)" using p c(1) by (simp add: pool_inv_def)
  have w: "Waiting \<in> set ((pl_workers p)[i := Checking]) \<longrightarrow> Waiting \<in> set (pl_workers p)"
    "Exited \<in> set ((pl_workers p)[i := Checking]) \<longrightarrow> Exited \<in> set (pl_workers p)" using waits_put by fastforce+
  show ?thesis
  proof (cases "pl_tasks p = [] \<and> total busy ?p = 0")
    case True
    then show ?thesis using p a c(2,3) w by (auto simp: pool_inv_def worker_leave_def notify_idle_def Let_def)
  next
    case False
    then show ?thesis using p a c(2,3) w by (auto simp: pool_inv_def worker_leave_def notify_idle_def Let_def pool_idle_def)
  qed
qed

lemma wake_inv:
  assumes p: "pool_inv p" and i: "i < length (pl_workers p)" "pl_workers p ! i = Waiting"
  shows "pool_inv (p\<lparr>pl_workers := (pl_workers p)[i := wake Waiting]\<rparr>)"
    and "pool_inv (p\<lparr>pl_workers := (pl_workers p)[i := wake Waiting], pl_notify_one := pl_notify_one p - 1\<rparr>)"
proof -
  let ?p = "p\<lparr>pl_workers := (pl_workers p)[i := Checking]\<rparr>"
  have c: "total busy ?p = total busy p" "total carries ?p = total carries p" "total ready ?p = total ready p + 1"
    using total_workers [OF i, of busy Checking] total_workers [OF i, of carries Checking] total_workers [OF i, of ready Checking] by simp_all
  have w: "Waiting \<in> set (pl_workers p)" using i nth_mem by metis
  show "pool_inv (p\<lparr>pl_workers := (pl_workers p)[i := wake Waiting]\<rparr>)"
    "pool_inv (p\<lparr>pl_workers := (pl_workers p)[i := wake Waiting], pl_notify_one := pl_notify_one p - 1\<rparr>)"
    using p w c waits_put [of _ Checking "pl_workers p" i] by (auto simp: pool_inv_def pool_idle_def)
qed

lemma work_inv: "work_step p p' \<Longrightarrow> pool_inv p \<Longrightarrow> pool_inv p'"
proof (induction rule: work_step.induct)
  case (notify_all p)
  have "Waiting \<notin> wake ` set (pl_workers p)" by (metis image_iff wake_counts(3))
  moreover have "Exited \<in> wake ` set (pl_workers p) \<longleftrightarrow> Exited \<in> set (pl_workers p)" by (metis image_iff wake_counts(4))
  moreover have "total busy (pool_notify_all p) = total busy p" "total carries (pool_notify_all p) = total carries p"
    by (simp_all add: total_def pool_notify_all_def comp_def)
  ultimately show ?case using notify_all.prems by (auto simp: pool_inv_def pool_notify_all_def pool_idle_def)
next
  case (notify_one p i)
  then show ?case by (intro wake_inv(2))
next
  case (notify_nobody p)
  then show ?case by (auto simp: pool_inv_def pool_idle_def)
qed (intro check_inv finish_inv leave_inv; assumption)+

lemma step_inv: "pool_step p p' \<Longrightarrow> pool_inv p \<Longrightarrow> pool_inv p'"
proof (induction rule: pool_step.induct)
  case (submit t p p')
  then show ?case by (auto simp: pool_inv_def pool_submit_def pool_idle_def split: if_splits)
next
  case (idle_check p)
  then show ?case by (auto simp: pool_inv_def wait_idle_check_def pool_idle_def)
next
  case (spurious i p)
  then show ?case by (intro wake_inv(1))
next
  case (work p p')
  then show ?case by (rule work_inv)
next
  case (stop p)
  then show ?case by (auto simp: pool_inv_def pool_stop_def pool_idle_def)
next
  case (wait_idle p)
  then show ?case by (auto simp: pool_inv_def pool_idle_def)
next
  case (idle_spurious p)
  then show ?case by (auto simp: pool_inv_def pool_idle_def)
qed

lemma pool_reach_inv: "pool_reach p \<Longrightarrow> pool_inv p"
  by (induction rule: pool_reach.induct) (auto intro: created_inv step_inv)

section \<open>Progress\<close>

lemma reach_workers: "pool_reach p \<Longrightarrow> pl_workers p \<noteq> []"
proof (induction rule: pool_reach.induct)
  case (stepped p p')
  have "work_step p p' \<Longrightarrow> length (pl_workers p') = length (pl_workers p)" for p p' :: "'a pool"
    by (induction rule: work_step.induct) (auto simp: pool_ops Let_def split: list.split worker.split)
  then show ?case using stepped.IH stepped.hyps(2)
    by (elim pool_stepE) (force simp: pool_ops Let_def split: if_splits)+
qed (simp add: pool_new_def hardware_threads_def)

text \<open>
  Each step of the workers after the destructor has set the flag makes this smaller: what is left to do for the queue, the
  workers and the notifications.
\<close>

fun worker_weight :: "'t worker \<Rightarrow> nat" where
  "worker_weight Exited = 0" | "worker_weight Checking = 1" | "worker_weight Waiting = 2"
| "worker_weight Leaving = 3" | "worker_weight (Running t) = 4"

definition pool_weight :: "'t pool \<Rightarrow> nat" where
  "pool_weight p = 5 * length (pl_tasks p) + total worker_weight p + pl_notify_one p + of_bool (pl_notify_all p)"

lemma check_weight:
  assumes i: "i < length (pl_workers p)" "pl_workers p ! i = Checking" and s: "pl_stopping p"
  shows "pool_weight (worker_check i p) < pool_weight p"
proof (cases "pl_tasks p")
  case Nil
  then show ?thesis using total_workers [OF i, of worker_weight Exited] s by (simp add: pool_weight_def worker_check_def)
next
  case (Cons t ts)
  then show ?thesis using total_workers [OF i, of worker_weight "Running t"] by (simp add: pool_weight_def worker_check_def)
qed

lemma wake_weight: "sum_list (map worker_weight (map wake ws)) \<le> sum_list (map worker_weight ws)"
proof (induction ws)
  case (Cons w ws)
  then show ?case by (cases w) (simp_all add: wake_def)
qed simp

lemma work_weight: "work_step p p' \<Longrightarrow> pl_stopping p \<Longrightarrow> pool_weight p' < pool_weight p \<and> pl_stopping p' \<and> pl_submitted p' = pl_submitted p"
proof (induction rule: work_step.induct)
  case (check i p)
  moreover have "pl_stopping (worker_check i p) = pl_stopping p \<and> pl_submitted (worker_check i p) = pl_submitted p"
    by (simp add: worker_check_def split: list.split)
  ultimately show ?case using check_weight by simp
next
  case (finish i p t r)
  then show ?case using total_workers [of i p "Running t" worker_weight Leaving] by (simp add: pool_weight_def worker_finish_def)
next
  case (leave i p)
  then show ?case using total_workers [of i p Leaving worker_weight Checking] by (simp add: pool_weight_def worker_leave_def notify_idle_def Let_def)
next
  case (notify_one p i)
  then show ?case using total_workers [of i p Waiting worker_weight Checking] by (simp add: pool_weight_def)
next
  case (notify_all p)
  then show ?case using wake_weight [of "pl_workers p"] by (simp add: pool_weight_def pool_notify_all_def total_def)
qed (simp add: pool_weight_def)

text \<open>Something is left to do, and no worker, submitter or destructor can do it: that is a lost wake-up.\<close>

definition pool_unfinished :: "'t pool \<Rightarrow> bool" where
  "pool_unfinished p \<longleftrightarrow> pl_tasks p \<noteq> [] \<or> pl_active p > 0 \<or> (pl_stopping p \<and> \<not> pool_joined p)"

lemma busy_total: "0 < total busy p \<longleftrightarrow> (\<exists>w\<in>set (pl_workers p). 0 < busy w)"
proof -
  have "0 < sum_list (map busy ws) \<longleftrightarrow> (\<exists>w\<in>set ws. 0 < busy w)" for ws :: "'a worker list" by (induction ws) auto
  then show ?thesis by (simp add: total_def)
qed

lemma can_step:
  assumes w: "w \<in> set (pl_workers p)" "w \<noteq> Waiting" "w \<noteq> Exited"
  shows "\<exists>p'. work_step p p'"
proof -
  obtain i where i: "i < length (pl_workers p)" "pl_workers p ! i = w" using w(1) by (metis in_set_conv_nth)
  show ?thesis using i w(2,3) by (cases w) (auto intro: work_step.intros)
qed

lemma ready_total: "0 < total ready p \<Longrightarrow> Checking \<in> set (pl_workers p)"
proof -
  have "0 < sum_list (map ready ws) \<Longrightarrow> Checking \<in> set ws" for ws :: "'a worker list"
  proof (induction ws)
    case (Cons w ws)
    then show ?case by (cases w) auto
  qed simp
  then show "0 < total ready p \<Longrightarrow> Checking \<in> set (pl_workers p)" by (simp add: total_def)
qed

lemma never_stuck:
  assumes inv: "pool_inv p" and ws: "pl_workers p \<noteq> []" and u: "pool_unfinished p"
  shows "\<exists>p'. work_step p p'"
proof (rule ccontr)
  assume n: "\<nexists>p'. work_step p p'"
  have all: "w = Waiting \<or> w = Exited" if "w \<in> set (pl_workers p)" for w using can_step [OF that] n by blast
  then have "busy w = 0" if "w \<in> set (pl_workers p)" for w using that by force
  then have "total busy p = 0" using busy_total [of p] by auto
  then have a: "pl_active p = 0" using inv by (simp add: pool_inv_def)
  have "Checking \<notin> set (pl_workers p)" using all by force
  then have r: "total ready p = 0" using ready_total by blast
  have one: "pl_notify_one p = 0"
  proof (rule ccontr)
    assume "pl_notify_one p \<noteq> 0"
    moreover obtain i where "Waiting \<in> set (pl_workers p) \<longrightarrow> i < length (pl_workers p) \<and> pl_workers p ! i = Waiting" by (metis in_set_conv_nth)
    ultimately show False using n work_step.notify_one work_step.notify_nobody by (metis neq0_conv)
  qed
  have nall: "\<not> pl_notify_all p" using n work_step.notify_all by blast
  show False
  proof (cases "Waiting \<in> set (pl_workers p)")
    case True
    then have "pl_tasks p = []" "\<not> pl_stopping p" using inv r one nall by (auto simp: pool_inv_def)
    then show False using u a by (simp add: pool_unfinished_def)
  next
    case False
    then have ex: "\<forall>w\<in>set (pl_workers p). w = Exited" using all by blast
    then have "Exited \<in> set (pl_workers p)" using ws by (metis list.set_intros(1) list.exhaust)
    then have "pl_tasks p = []" using inv by (simp add: pool_inv_def)
    then show False using u a ex by (simp add: pool_unfinished_def pool_joined_def list_all_iff)
  qed
qed
section \<open>Parallel loops\<close>

text \<open>
  The contiguous ranges \<^verbatim>\<open>parallel_for\<close> hands out, in the order it submits them. The arithmetic is that of \<^verbatim>\<open>size_t\<close>.
\<close>

definition chunk_size :: "nat \<Rightarrow> nat \<Rightarrow> nat" where
  "chunk_size cnt chunks = ((cnt + chunks - 1) mod 2 ^ 64) div chunks"

definition chunk_range :: "nat \<Rightarrow> nat \<Rightarrow> nat \<Rightarrow> nat \<times> nat" where
  "chunk_range cnt sz chunk =
     (let first = (chunk * sz) mod 2 ^ 64 in (first, min ((first + sz) mod 2 ^ 64) cnt))"

definition chunk_ranges :: "nat \<Rightarrow> nat \<Rightarrow> (nat \<times> nat) list" where
  "chunk_ranges cnt workers =
     (let chunks = min cnt workers in
      takeWhile (\<lambda>(first, last). first < last) (map (chunk_range cnt (chunk_size cnt chunks)) [0..<chunks]))"

text \<open>One task: the body over its range, until it throws.\<close>

fun run_range :: "(nat \<Rightarrow> ('s, unit) act) \<Rightarrow> nat list \<Rightarrow> ('s, unit) act" where
  "run_range body [] = aret ()"
| "run_range body (i # is) = abind (body i) (\<lambda>_. run_range body is)"

definition run_chunk :: "(nat \<Rightarrow> ('s, unit) act) \<Rightarrow> nat \<times> nat \<Rightarrow> ('s, unit) act" where
  "run_chunk body = (\<lambda>(first, last). run_range body [first..<last])"

text \<open>The tasks submitted, or the loop on the calling thread when there is one index.\<close>

definition parallel_for :: "nat \<Rightarrow> nat \<Rightarrow> (nat \<times> nat) list + (nat \<times> nat)" where
  "parallel_for workers cnt =
     (if workers = 0 \<or> cnt = 1 then Inr (0, cnt) else Inl (if cnt = 0 then [] else chunk_ranges cnt workers))"

text \<open>
  Collecting the futures in order: \<open>None\<close> is a future that is not ready, on which \<^verbatim>\<open>get\<close> blocks; the first exception is
  rethrown at once.
\<close>

fun collect_futures :: "unit result option list \<Rightarrow> unit result option" where
  "collect_futures [] = Some (Inr ())"
| "collect_futures (None # fs) = None"
| "collect_futures (Some (Inl e) # fs) = Some (Inl e)"
| "collect_futures (Some (Inr _) # fs) = collect_futures fs"

definition futures_of :: "'t pool \<Rightarrow> 't list \<Rightarrow> unit result option list" where
  "futures_of p ts = map (map_of (pl_done p)) ts"

lemma chunk_cover:
  assumes c: "0 < cnt" and w: "0 < workers" and fit: "cnt + workers \<le> 2 ^ 63"
  shows "\<exists>m sz. m \<le> workers \<and> 0 < sz \<and> chunk_ranges cnt workers = map (\<lambda>j. (j * sz, min ((j + 1) * sz) cnt)) [0..<m] \<and>
    cnt \<le> m * sz \<and> (m - 1) * sz < cnt"
proof -
  obtain n sz where nd: "n = min cnt workers" and sd: "sz = (cnt + n - 1) div n" by blast
  have n: "0 < n" "n \<le> cnt" "n \<le> workers" using c w nd by simp_all
  have s: "chunk_size cnt n = sz" using fit n by (simp add: chunk_size_def sd)
  have s0: "0 < sz" using n by (simp add: sd div_greater_zero_iff)
  have cover: "cnt \<le> n * sz"
  proof -
    have "(cnt + n - 1) mod n < n" using n(1) by simp
    then have "cnt + n - 1 < n * sz + n" using mult_div_mod_eq [of n "cnt + n - 1"] unfolding sd by linarith
    then show ?thesis using n by linarith
  qed
  have small: "j * sz + sz < 2 ^ 64" if "j < n" for j
  proof -
    have "n * sz \<le> cnt + n - 1" by (simp add: sd mult.commute)
    moreover have "j * sz + sz \<le> n * sz" using that by (metis Suc_leI mult_Suc add.commute mult_le_mono1)
    ultimately show ?thesis using fit n by simp
  qed
  have r: "chunk_range cnt sz j = (j * sz, min ((j + 1) * sz) cnt)" if "j < n" for j
    using small [OF that] by (simp add: chunk_range_def Let_def algebra_simps)
  let ?m = "(LEAST m. cnt \<le> m * sz)"
  have m: "cnt \<le> ?m * sz" by (rule LeastI [of _ n]) (rule cover)
  have mn: "?m \<le> n" by (rule Least_le) (rule cover)
  have below: "j * sz < cnt" if "j < ?m" for j using not_less_Least [OF that] by simp
  have m0: "0 < ?m" using m c by (cases "?m") simp_all
  have "map (chunk_range cnt sz) [0..<n] = map (\<lambda>j. (j * sz, min ((j + 1) * sz) cnt)) [0..<?m] @ map (\<lambda>j. (j * sz, min ((j + 1) * sz) cnt)) [?m..<n]"
  proof -
    have "[0..<n] = [0..<?m] @ [?m..<n]" using mn by (metis le_add_diff_inverse upt_add_eq_append zero_le)
    moreover have "map (chunk_range cnt sz) [0..<n] = map (\<lambda>j. (j * sz, min ((j + 1) * sz) cnt)) [0..<n]" using r by simp
    ultimately show ?thesis by (metis map_append)
  qed
  moreover have "takeWhile (\<lambda>(a, b). a < b) (map (\<lambda>j. (j * sz, min ((j + 1) * sz) cnt)) [0..<?m] @ map (\<lambda>j. (j * sz, min ((j + 1) * sz) cnt)) [?m..<n]) =
      map (\<lambda>j. (j * sz, min ((j + 1) * sz) cnt)) [0..<?m]"
  proof -
    have tw: "takeWhile (\<lambda>(a, b). a < b) (xs @ ys) = xs" if "\<forall>x\<in>set xs. (\<lambda>(a, b). a < b) x" "ys \<noteq> [] \<longrightarrow> \<not> (\<lambda>(a, b). a < b) (hd ys)" for xs ys :: "(nat \<times> nat) list"
      using that by (cases ys) (auto simp: takeWhile_append)
    show ?thesis
    proof (rule tw)
      show "\<forall>x\<in>set (map (\<lambda>j. (j * sz, min ((j + 1) * sz) cnt)) [0..<?m]). case x of (a, b) \<Rightarrow> a < b" using below s0 by auto
      show "map (\<lambda>j. (j * sz, min ((j + 1) * sz) cnt)) [?m..<n] \<noteq> [] \<longrightarrow>
          \<not> (case hd (map (\<lambda>j. (j * sz, min ((j + 1) * sz) cnt)) [?m..<n]) of (a, b) \<Rightarrow> a < b)" using m by (simp add: hd_map)
    qed
  qed
  ultimately have "chunk_ranges cnt workers = map (\<lambda>j. (j * sz, min ((j + 1) * sz) cnt)) [0..<?m]"
    by (simp add: chunk_ranges_def Let_def s flip: nd)
  moreover have "?m \<le> workers" using mn n(3) by (rule le_trans)
  moreover have "(?m - 1) * sz < cnt" using below [of "?m - 1"] m0 by simp
  ultimately show ?thesis using m s0 by blast
qed

lemma ranges_tile: "(m - 1) * sz < cnt \<or> m = 0 \<Longrightarrow>
    concat (map (\<lambda>(a, b). [a..<b]) (map (\<lambda>j. (j * sz, min ((j + 1) * sz) cnt)) [0..<m])) = [0..<min (m * sz) cnt]"
proof (induction m)
  case (Suc m)
  have "m * sz \<le> cnt" using Suc.prems by simp
  moreover have "(m - 1) * sz < cnt \<or> m = 0" using Suc.prems by (cases m) auto
  ultimately show ?case using Suc.IH upt_add_eq_append [of 0 "m * sz" "min (sz + m * sz) cnt - m * sz"] by (simp add: min_def)
qed simp

section \<open>Properties\<close>

text \<open>C12: Whatever the interleaving, the pool loses and repeats no task: those started come first in the order of submission, each
  of them is running or has left an outcome in its future, exactly once, and the activity counter is the number of
  workers between the two critical sections.\<close>

theorem pool_runs_each_task_once:
  assumes "pool_reach p"
  shows "pl_started p @ pl_tasks p = pl_submitted p \<and> mset (pl_started p) = total carries p + mset (map fst (pl_done p)) \<and>
    pl_active p = total busy p \<and> (0 < pl_idle_blocked p \<longrightarrow> \<not> pool_idle p)"
  using pool_reach_inv [OF assms] by (simp add: pool_inv_def)

text \<open>C13: No wake-up is lost. While a task is queued or running, or the pool is being destroyed and a worker has not returned, some
  worker or pending notification can take a step, without relying on spurious wake-ups.\<close>

theorem pool_never_stuck:
  assumes "pool_reach p" and "pool_unfinished p"
  shows "\<exists>p'. work_step p p'"
  by (rule never_stuck [OF pool_reach_inv reach_workers]) (use assms in auto)

text \<open>C35: The destructor returns and finishes what was queued: once the flag is set every run of the workers is finite, bounded by
  a weight of the state, and where it ends all workers have returned and exactly the submitted tasks are done.\<close>

theorem destructor_drains_queue:
  assumes "pool_reach p" and "pl_stopping p"
  shows "(\<forall>n q. (work_step ^^ n) p q \<longrightarrow> n + pool_weight q \<le> pool_weight p) \<and>
    (\<forall>q. work_step\<^sup>*\<^sup>* p q \<and> (\<nexists>q'. work_step q q') \<longrightarrow> pool_joined q \<and> mset (map fst (pl_done q)) = mset (pl_submitted p))"
proof (rule conjI; intro allI impI)
  fix n q
  assume "(work_step ^^ n) p q"
  then have "n + pool_weight q \<le> pool_weight p \<and> pl_stopping q"
    by (induction n arbitrary: q) (use assms(2) work_weight in \<open>fastforce+\<close>)
  then show "n + pool_weight q \<le> pool_weight p" by simp
next
  fix q
  assume q: "work_step\<^sup>*\<^sup>* p q \<and> (\<nexists>q'. work_step q q')"
  then have "work_step\<^sup>*\<^sup>* p q" by simp
  then have r: "pool_reach q \<and> pl_stopping q \<and> pl_submitted q = pl_submitted p"
    by (induction rule: rtranclp_induct) (use assms work_weight in \<open>auto intro: pool_reach.stepped pool_step.work\<close>)
  then have "\<not> pool_unfinished q" using never_stuck [OF pool_reach_inv reach_workers] q by blast
  then have j: "pool_joined q" "pl_tasks q = []" using r by (simp_all add: pool_unfinished_def)
  have "sum_list (map carries ws) = {#}" if "list_all (\<lambda>w. w = Exited) ws" for ws :: "'a worker list" using that by (induction ws) auto
  then have "total carries q = {#}" using j(1) by (simp add: total_def pool_joined_def)
  then show "pool_joined q \<and> mset (map fst (pl_done q)) = mset (pl_submitted p)"
    using j r pool_reach_inv [of q] by (auto simp: pool_inv_def)
qed

lemma ranges_partition:
  assumes "0 < workers" and "cnt + workers \<le> 2 ^ 63" and "parallel_for workers cnt = Inl ranges"
  shows "concat (map (\<lambda>(a, b). [a..<b]) ranges) = [0..<cnt] \<and> (\<forall>(a, b)\<in>set ranges. a < b) \<and> length ranges \<le> workers"
proof (cases "cnt = 0")
  case True
  then show ?thesis using assms(3) by (auto simp: parallel_for_def split: if_splits)
next
  case False
  have r: "ranges = chunk_ranges cnt workers" using assms(3) False by (auto simp: parallel_for_def split: if_splits)
  obtain m sz where m: "m \<le> workers" "0 < sz" "chunk_ranges cnt workers = map (\<lambda>j. (j * sz, min ((j + 1) * sz) cnt)) [0..<m]"
    "cnt \<le> m * sz" "(m - 1) * sz < cnt" using chunk_cover [OF _ assms(1,2)] False by blast
  have "j * sz < cnt" if "j < m" for j
  proof -
    have "j * sz \<le> (m - 1) * sz" using that by (intro mult_le_mono1) simp
    then show ?thesis using m(5) by (rule le_less_trans)
  qed
  then show ?thesis using ranges_tile [of m sz cnt] m by (auto simp: r min_def)
qed

text \<open>Further: A parallel loop hands out every index exactly once: laid end to end, in the order of submission, the ranges are the whole
  loop; none is empty and there are at most as many as workers.\<close>

theorem parallel_for_covers_range:
  assumes "0 < workers" and "cnt + workers \<le> 2 ^ 63" and "parallel_for workers cnt = Inl ranges"
  shows "concat (map (\<lambda>(a, b). [a..<b]) ranges) = [0..<cnt] \<and> (\<forall>(a, b)\<in>set ranges. a < b) \<and> length ranges \<le> workers"
  using assms by (rule ranges_partition)

text \<open>C14: When a body throws, the loop returns before its other tasks have ended. There is a run on two workers in which the first
  future holds the exception, so that collecting the futures rethrows it, while another task of the same loop is still
  being run; it goes on using the body and whatever that refers to in the frames the exception has left.\<close>

theorem parallel_for_abandons_tasks:
  "\<exists>p. pool_reach p \<and> pl_submitted p = chunk_ranges 2 2 \<and> collect_futures (futures_of p (chunk_ranges 2 2)) = Some (Inl e) \<and>
     Running (1, 2) \<in> set (pl_workers p)"
proof -
  have c: "chunk_ranges 2 2 = [(0, 1), (1, 2)]" by (simp add: chunk_ranges_def chunk_size_def chunk_range_def upt_rec)
  let ?p = "pool_new 2 1 :: (nat \<times> nat) pool"
  obtain a where a: "pool_submit (0, 1) ?p = Inr a" by (simp add: pool_submit_def pool_new_def)
  obtain b where b: "pool_submit (1, 2) a = Inr b" using a by (auto simp: pool_submit_def pool_new_def)
  have b': "pl_workers b = [Checking, Checking]" "pl_tasks b = [(0, 1), (1, 2)]" "pl_submitted b = [(0, 1), (1, 2)]" "pl_done b = []"
    using a b by (auto simp: pool_submit_def pool_new_def numeral_2_eq_2)
  let ?q = "worker_check 1 (worker_check 0 b)"
  have q: "pl_workers ?q = [Running (0, 1), Running (1, 2)]" "pl_submitted ?q = [(0, 1), (1, 2)]" "pl_done ?q = []"
    using b' by (simp_all add: worker_check_def)
  have "pool_reach ?p" by (rule pool_reach.created)
  then have "pool_reach b" using a b pool_reach.stepped pool_step.submit by metis
  then have "pool_reach (worker_check 0 b)" using b' by (intro pool_reach.stepped [OF _ pool_step.work [OF work_step.check]]) simp_all
  then have "pool_reach ?q" by (rule pool_reach.stepped [OF _ pool_step.work [OF work_step.check]]) (use b' in \<open>simp_all add: worker_check_def\<close>)
  then have "pool_reach (worker_finish 0 (Inl e) ?q)"
    by (rule pool_reach.stepped [OF _ pool_step.work [OF work_step.finish]]) (use q in simp_all)
  moreover have "pl_submitted (worker_finish 0 (Inl e) ?q) = chunk_ranges 2 2" "Running (1, 2) \<in> set (pl_workers (worker_finish 0 (Inl e) ?q))"
    "collect_futures (futures_of (worker_finish 0 (Inl e) ?q) (chunk_ranges 2 2)) = Some (Inl e)"
    using q by (simp_all add: worker_finish_def c futures_of_def)
  ultimately show ?thesis by blast
qed

section \<open>Witnesses\<close>

lemma pool_runs_each_task_once_witness:
  "let p = worker_check 0 (pool_new 1 1 :: nat pool) in pl_started p @ pl_tasks p = pl_submitted p \<and> pl_active p = total busy p"
proof -
  have "pool_reach (worker_check 0 (pool_new 1 1 :: nat pool))"
    by (rule pool_reach.stepped [OF pool_reach.created pool_step.work [OF work_step.check]]) (simp_all add: pool_new_def)
  from pool_runs_each_task_once [OF this] show ?thesis by (simp add: Let_def)
qed

lemma pool_never_stuck_witness: "\<exists>p'. work_step (pool_stop (pool_new 1 1 :: nat pool)) p'"
proof (rule pool_never_stuck)
  show "pool_reach (pool_stop (pool_new 1 1 :: nat pool))"
    by (rule pool_reach.stepped [OF pool_reach.created pool_step.stop]) (simp add: pool_new_def)
  show "pool_unfinished (pool_stop (pool_new 1 1 :: nat pool))"
    by (simp add: pool_unfinished_def pool_stop_def pool_new_def pool_joined_def)
qed

lemma destructor_drains_queue_witness:
  "(\<exists>q. (work_step ^^ 3) (pool_stop (pool_new 1 1 :: nat pool)) q) = False"
proof -
  let ?p = "pool_stop (pool_new 1 1 :: nat pool)"
  have "pool_reach ?p" by (rule pool_reach.stepped [OF pool_reach.created pool_step.stop]) (simp add: pool_new_def)
  moreover have "pl_stopping ?p" by (simp add: pool_stop_def)
  moreover have "pool_weight ?p = 2" by (simp add: pool_weight_def pool_stop_def pool_new_def total_def)
  ultimately have "3 + pool_weight q \<le> 2" if "(work_step ^^ 3) ?p q" for q
    using conjunct1 [OF destructor_drains_queue [of ?p], rule_format, OF _ _ that] by simp
  then show ?thesis by fastforce
qed

lemma parallel_for_covers_range_witness:
  "\<exists>ranges. parallel_for 2 5 = Inl ranges \<and> concat (map (\<lambda>(a, b). [a..<b]) ranges) = [0..<5]"
proof -
  have "parallel_for 2 5 = Inl (chunk_ranges 5 2)" by (simp add: parallel_for_def)
  from this parallel_for_covers_range [OF _ _ this] show ?thesis by simp
qed

end
