(* ===== verification/Vdb_Concurrent.thy ===== *)
theory Vdb_Concurrent
  imports Vdb_Reopen Vdb_ThreadPool
begin

text \<open>
  The database behind a reader-writer lock (\<^verbatim>\<open>src/db/concurrent_database.cpp\<close>). A call that reads holds the lock shared and is a
  program of atomic pieces, one for each time it enters the metadata store, whose own mutex makes that piece atomic; the
  vectors and the index are plain memory, and the visited set of a search is thread-local. The pieces of different
  readers interleave in any order. A call that writes holds the lock alone and is one piece.
\<close>

section \<open>Programs of atomic pieces\<close>

datatype (dead 's, 'a) prog = Return "'a result" | Atomic "'s \<Rightarrow> ('s, 'a) prog \<times> 's"

primrec pbind :: "('s, 'a) prog \<Rightarrow> ('a \<Rightarrow> ('s, 'b) prog) \<Rightarrow> ('s, 'b) prog" where
  "pbind (Return r) f = (case r of Inl e \<Rightarrow> Return (Inl e) | Inr x \<Rightarrow> f x)"
| "pbind (Atomic g) f = Atomic (\<lambda>s. map_prod (\<lambda>p. pbind p f) (\<lambda>t. t) (g s))"

definition patom :: "('s, 'a) act \<Rightarrow> ('s, 'a) prog" where
  "patom m = Atomic (\<lambda>s. map_prod Return (\<lambda>t. t) (m s))"

definition pread :: "('s \<Rightarrow> ('s, 'a) prog) \<Rightarrow> ('s, 'a) prog" where
  "pread f = Atomic (\<lambda>s. (f s, s))"

text \<open>Run without interference.\<close>

primrec prun :: "('s, 'a) prog \<Rightarrow> ('s, 'a) act" where
  "prun (Return r) = (\<lambda>s. (r, s))"
| "prun (Atomic g) = (\<lambda>s. case map_prod prun (\<lambda>t. t) (g s) of (h, t) \<Rightarrow> h t)"

lemma atomic_simps [simp]:
  "pbind (Atomic g) f = Atomic (\<lambda>s. (pbind (fst (g s)) f, snd (g s)))" "prun (Atomic g) s = prun (fst (g s)) (snd (g s))"
  by (simp_all add: map_prod_def split_def)

declare pbind.simps(2) [simp del] prun.simps(2) [simp del]

lemma prun_bind: "prun (pbind p f) = abind (prun p) (\<lambda>x. prun (f x))"
proof (induction p)
  case (Return r)
  then show ?case by (auto simp: abind_def split: sum.split)
next
  case (Atomic g)
  have "prun (pbind (fst (g s)) f) = abind (prun (fst (g s))) (\<lambda>x. prun (f x))" for s
    by (rule Atomic [of "g s"]) (simp_all add: fsts.simps prod_set_defs)
  then show ?case by (auto simp: fun_eq_iff abind_def)
qed

lemma prun_atom [simp]: "prun (patom m) = m"
  by (simp add: patom_def fun_eq_iff map_prod_def split_def)

lemma prun_read: "prun (pread f) = (\<lambda>s. prun (f s) s)"
  by (simp add: pread_def fun_eq_iff)

section \<open>The calls\<close>

text \<open>The loop over the candidates; each metadata look-up is a piece of its own.\<close>

fun collect_prog :: "'db env \<Rightarrow> query_options \<Rightarrow> candidate list \<Rightarrow> query_result list \<Rightarrow> ('db database, query_result list) prog" where
  "collect_prog env opt [] results = Return (Inr results)"
| "collect_prog env opt (c # cs) results =
     (if length results \<ge> qo_k opt then Return (Inr results)
      else pread (\<lambda>d.
        pbind (Return (vs_vector_id (db_store d) (local_id c))) (\<lambda>vid.
        let put = (\<lambda>md. collect_prog env opt cs (results @
              [\<lparr>qr_id = vid, qr_score = score_from_rank_key (dc_metric (db_config d)) (key c), qr_metadata = md\<rparr>])) in
        if needs_metadata d opt then
          pbind (patom (on_metadata (ms_get (en_sqlite env) vid))) (\<lambda>md.
            if qo_filter opt \<noteq> [] \<and> \<not> filter_matches (qo_filter opt) md then collect_prog env opt cs results else put md)
        else if qo_filter opt \<noteq> [] then collect_prog env opt cs results
        else put [])))"

definition search_prog :: "'db env \<Rightarrow> vec \<Rightarrow> query_options \<Rightarrow> ('db database, query_result list) prog" where
  "search_prog env query opt = pread (\<lambda>d.
     pbind (Return (guard_throw (qo_k opt = 0) InvalidArgumentError)) (\<lambda>_.
     pbind (Return (validate_vector query (dc_dimension (db_config d)))) (\<lambda>_.
     pbind (patom (search_candidates env query opt)) (\<lambda>cs.
     collect_prog env opt cs []))))"

definition get_prog :: "'db env \<Rightarrow> u64 \<Rightarrow> ('db database, stored_vector option) prog" where
  "get_prog env vid = pread (\<lambda>d.
     case vs_find (db_store d) vid of
       None \<Rightarrow> Return (Inr None)
     | Some i \<Rightarrow> pbind (patom (on_metadata (ms_get (en_sqlite env) vid))) (\<lambda>md.
         Return (Inr (Some \<lparr>sv_id = vid, sv_vector = va_view (vs_vectors (db_store d)) i, sv_metadata = md\<rparr>))))"

definition stats_prog :: "'db env \<Rightarrow> ('db database, db_stats) prog" where
  "stats_prog env = pread (\<lambda>d.
     pbind (patom (on_metadata (ms_vector_count (en_sqlite env)))) (\<lambda>vectors.
     pbind (patom (on_metadata (ms_row_count (en_sqlite env)))) (\<lambda>rows.
     pbind (patom (on_metadata (ms_keys (en_sqlite env)))) (\<lambda>keys.
     pbind (patom (on_files (file_size_or_zero (vector_file_path (db_directory d))))) (\<lambda>vbytes.
     pbind (patom (on_files (file_size_or_zero (index_file_path (db_directory d))))) (\<lambda>ibytes.
     pbind (patom (on_files (file_size_or_zero (metadata_file_path (db_directory d))))) (\<lambda>mbytes.
     Return (Inr \<lparr>ds_dimension = dc_dimension (db_config d), ds_metric = dc_metric (db_config d),
           ds_index_type = dc_index_type (db_config d), ds_index_description = ix_describe (db_index d),
           ds_live_vectors = vs_live_count (db_store d), ds_slots = vs_slot_count (db_store d),
           ds_tombstones = vs_tombstone_count (db_store d), ds_tombstone_ratio = vs_tombstone_ratio (db_store d),
           ds_metadata_vectors = vectors, ds_metadata_rows = rows, ds_metadata_keys = keys,
           ds_vector_file_bytes = vbytes, ds_index_file_bytes = ibytes, ds_metadata_file_bytes = mbytes,
           ds_dirty = db_dirty d\<rparr>))))))))"

text \<open>In one thread these are the operations of the database.\<close>

lemma collect_prog_run: "prun (collect_prog env opt cs res) = collect_results env opt cs res"
proof (induction cs arbitrary: res)
  case (Cons c cs)
  then show ?case
    by (auto simp: fun_eq_iff prun_read prun_bind db_read_def abind_def alift_def aret_def Let_def split: sum.split prod.split)
qed (simp add: fun_eq_iff)

lemma search_prog_run: "prun (search_prog env q opt) = db_search env q opt"
  by (auto simp: search_prog_def db_search_def fun_eq_iff prun_read prun_bind collect_prog_run db_read_def abind_def aguard_def
      guard_throw_def split: sum.split prod.split)

lemma get_prog_run: "prun (get_prog env vid) = db_get env vid"
  by (auto simp: get_prog_def db_get_def fun_eq_iff prun_read prun_bind db_read_def abind_def aret_def split: option.split sum.split prod.split)

lemma stats_prog_run: "prun (stats_prog env) = db_get_stats env"
  unfolding stats_prog_def db_get_stats_def prun_read db_read_def prun_bind prun_atom by (simp add: aret_def [abs_def])

datatype call =
    CSearch vec query_options | CGet u64 | CContains u64 | CStats | CSize
  | CInsert u64 vec metadata | CInsertAuto vec metadata | CRemove u64 | CFlush | CRebuild | CCompact

datatype answer =
    AResults "query_result list" | AStored "stored_vector option" | ABool bool | AStats db_stats | ACount nat | AId u64 | ADone

fun is_read :: "call \<Rightarrow> bool" where
  "is_read (CSearch _ _) = True" | "is_read (CGet _) = True" | "is_read (CContains _) = True" | "is_read CStats = True" | "is_read CSize = True"
| "is_read _ = False"

definition panswer :: "('a \<Rightarrow> answer) \<Rightarrow> ('s, 'a) prog \<Rightarrow> ('s, answer) prog" where
  "panswer f p = pbind p (\<lambda>x. Return (Inr (f x)))"

fun read_prog :: "'db env \<Rightarrow> call \<Rightarrow> ('db database, answer) prog" where
  "read_prog env (CSearch q opt) = panswer AResults (search_prog env q opt)"
| "read_prog env (CGet vid) = panswer AStored (get_prog env vid)"
| "read_prog env (CContains vid) = pread (\<lambda>d. Return (Inr (ABool (db_contains d vid))))"
| "read_prog env CStats = panswer AStats (stats_prog env)"
| "read_prog env CSize = pread (\<lambda>d. Return (Inr (ACount (vs_live_count (db_store d)))))"
| "read_prog env _ = Return (Inr ADone)"

fun write_act :: "'db env \<Rightarrow> call \<Rightarrow> ('db, answer) db_act" where
  "write_act env (CInsert vid v md) = abind (db_insert env vid v md) (\<lambda>_. aret ADone)"
| "write_act env (CInsertAuto v md) = abind (db_insert_auto env v md) (\<lambda>vid. aret (AId vid))"
| "write_act env (CRemove vid) = abind (db_remove env vid) (\<lambda>b. aret (ABool b))"
| "write_act env CFlush = abind (db_flush env) (\<lambda>_. aret ADone)"
| "write_act env CRebuild = abind (db_rebuild_index env) (\<lambda>_. aret ADone)"
| "write_act env CCompact = abind (db_compact env) (\<lambda>n. aret (ACount n))"
| "write_act env _ = aret ADone"

section \<open>Threads and the lock\<close>

datatype 'db phase =
    Idle | Asking call | Reading call "('db database, answer) prog" | Writing call | Answered call "answer result"

text \<open>
  \<open>cd_shared\<close> and \<open>cd_exclusive\<close> are the shared mutex: the threads that hold it shared, and the one that holds it alone.
  \<open>cd_log\<close> is a history: the calls in the order in which they gave up the lock.
\<close>

record 'db cdb =
  cd_db :: "'db database"
  cd_scratch :: "nat \<Rightarrow> visited_set"
  cd_shared :: "nat set"
  cd_exclusive :: "nat option"
  cd_phase :: "nat \<Rightarrow> 'db phase"
  cd_log :: "(nat \<times> call \<times> answer result) list"

text \<open>A thread works on the database with its own visited set.\<close>

definition run_as :: "nat \<Rightarrow> ('db database \<Rightarrow> 'x \<times> 'db database) \<Rightarrow> 'db cdb \<Rightarrow> 'x \<times> 'db cdb" where
  "run_as t f s = (case f ((cd_db s)\<lparr>db_scratch := cd_scratch s t\<rparr>) of
     (x, d) \<Rightarrow> (x, s\<lparr>cd_db := d, cd_scratch := (cd_scratch s)(t := db_scratch d)\<rparr>))"

definition to_phase :: "nat \<Rightarrow> 'db phase \<Rightarrow> 'db cdb \<Rightarrow> 'db cdb" where
  "to_phase t ph s = s\<lparr>cd_phase := (cd_phase s)(t := ph)\<rparr>"

definition lock_shared :: "nat \<Rightarrow> 'db cdb \<Rightarrow> 'db cdb option" where
  "lock_shared t s = (if cd_exclusive s = None then Some (s\<lparr>cd_shared := insert t (cd_shared s)\<rparr>) else None)"

definition lock_exclusive :: "nat \<Rightarrow> 'db cdb \<Rightarrow> 'db cdb option" where
  "lock_exclusive t s = (if cd_exclusive s = None \<and> cd_shared s = {} then Some (s\<lparr>cd_exclusive := Some t\<rparr>) else None)"

definition answer_call :: "nat \<Rightarrow> call \<Rightarrow> answer result \<Rightarrow> 'db cdb \<Rightarrow> 'db cdb" where
  "answer_call t c r s = to_phase t (Answered c r) (s\<lparr>cd_log := cd_log s @ [(t, c, r)]\<rparr>)"

inductive cstep :: "'db env \<Rightarrow> nat \<Rightarrow> 'db cdb \<Rightarrow> 'db cdb \<Rightarrow> bool" for env where
  ask: "cd_phase s t = Idle \<Longrightarrow> cstep env t s (to_phase t (Asking c) s)"
| share: "cd_phase s t = Asking c \<Longrightarrow> is_read c \<Longrightarrow> lock_shared t s = Some s' \<Longrightarrow> cstep env t s (to_phase t (Reading c (read_prog env c)) s')"
| piece: "cd_phase s t = Reading c (Atomic f) \<Longrightarrow> run_as t f s = (p, s') \<Longrightarrow> cstep env t s (to_phase t (Reading c p) s')"
| release_shared: "cd_phase s t = Reading c (Return r) \<Longrightarrow> cstep env t s (answer_call t c r (s\<lparr>cd_shared := cd_shared s - {t}\<rparr>))"
| exclude: "cd_phase s t = Asking c \<Longrightarrow> \<not> is_read c \<Longrightarrow> lock_exclusive t s = Some s' \<Longrightarrow> cstep env t s (to_phase t (Writing c) s')"
| write_step: "cd_phase s t = Writing c \<Longrightarrow> run_as t (write_act env c) s = (r, s') \<Longrightarrow> cstep env t s (answer_call t c r (s'\<lparr>cd_exclusive := None\<rparr>))"
| leave: "cd_phase s t = Answered c r \<Longrightarrow> cstep env t s (to_phase t Idle s)"

definition cdb_new :: "'db database \<Rightarrow> (nat \<Rightarrow> visited_set) \<Rightarrow> 'db cdb" where
  "cdb_new d scratch = \<lparr>cd_db = d, cd_scratch = scratch, cd_shared = {}, cd_exclusive = None, cd_phase = (\<lambda>_. Idle), cd_log = []\<rparr>"

section \<open>Batches\<close>

text \<open>The calls the tasks of a batch search make, and the slots of the result vector they fill.\<close>

definition batch_calls :: "vec list \<Rightarrow> query_options \<Rightarrow> nat \<times> nat \<Rightarrow> (nat \<times> call) list" where
  "batch_calls queries opt = (\<lambda>(a, b). map (\<lambda>i. (i, CSearch (queries ! i) opt)) [a..<b])"

definition batch_tasks :: "nat \<Rightarrow> vec list \<Rightarrow> query_options \<Rightarrow> (nat \<times> call) list list" where
  "batch_tasks workers queries opt =
     (if queries = [] then []
      else map (batch_calls queries opt) (case parallel_for workers (length queries) of Inl ranges \<Rightarrow> ranges | Inr r \<Rightarrow> [r]))"

section \<open>The view of the readers\<close>

text \<open>What a shared holder of the lock can tell about the database: everything but the handles.\<close>

definition same_view :: "'db database \<Rightarrow> 'db database \<Rightarrow> bool" where
  "same_view d0 d \<longleftrightarrow> d0\<lparr>db_metadata := db_metadata d, db_world := db_world d, db_scratch := db_scratch d\<rparr> = d"

lemma view_fields:
  assumes "same_view d0 d"
  shows "db_config d = db_config d0" "db_store d = db_store d0" "db_index d = db_index d0" "db_directory d = db_directory d0"
    "db_next_auto_id d = db_next_auto_id d0" "db_has_metadata d = db_has_metadata d0" "db_dirty d = db_dirty d0"
  by (subst assms [unfolded same_view_def, symmetric], simp)+

lemma view_refl [simp]: "same_view d d"
  by (simp add: same_view_def)

lemma view_update:
  "same_view d0 d \<Longrightarrow> same_view d0 (d\<lparr>db_metadata := m\<rparr>)" "same_view d0 d \<Longrightarrow> same_view d0 (d\<lparr>db_world := w\<rparr>)"
  "same_view d0 d \<Longrightarrow> same_view d0 (d\<lparr>db_scratch := v\<rparr>)"
  by (cases d0; cases d; simp add: same_view_def)+

definition shown :: "('db \<Rightarrow> sql_content) \<Rightarrow> 'db env \<Rightarrow> (u64 \<Rightarrow> metadata) \<Rightarrow> 'db database \<Rightarrow> 'db database \<Rightarrow> bool" where
  "shown content env g d0 d \<longleftrightarrow> same_view d0 d \<and> db_session content env g d"

lemma shown_metadata:
  "shown content env g d0 d \<Longrightarrow> content db = content (ms_db (db_metadata d)) \<Longrightarrow>
   shown content env g d0 (d\<lparr>db_metadata := (db_metadata d)\<lparr>ms_db := db\<rparr>\<rparr>)"
  by (auto simp: shown_def db_session_def view_update db_inv_def db_holds_def ms_rest_def ms_conf_def files_current_def db_rows_def)

lemma shown_world:
  "shown content env g d0 d \<Longrightarrow> visible w = visible (db_world d) \<Longrightarrow> world_ok w \<Longrightarrow> shown content env g d0 (d\<lparr>db_world := w\<rparr>)"
  by (auto simp: shown_def db_session_def view_update db_inv_def db_holds_def files_current_def db_rows_def)

lemma shown_scratch: "shown content env g d0 d \<Longrightarrow> vst_inv v \<Longrightarrow> shown content env g d0 (d\<lparr>db_scratch := v\<rparr>)"
  by (auto simp: shown_def db_session_def view_update db_inv_def db_holds_def files_current_def db_rows_def)

section \<open>Programs that interference cannot disturb\<close>

text \<open>
  Whatever states with property \<open>P\<close> its pieces meet, they keep \<open>P\<close>, unless the metadata store fails; and a normal end has a
  result with property \<open>Q\<close>.
\<close>

inductive sure :: "('s \<Rightarrow> bool) \<Rightarrow> ('a \<Rightarrow> bool) \<Rightarrow> ('s, 'a) prog \<Rightarrow> bool" for P where
  sure_return: "(\<forall>a. r = Inr a \<longrightarrow> Q a) \<Longrightarrow> sure P Q (Return r)"
| sure_atomic: "(\<And>s. P s \<Longrightarrow> fst (g s) = Return (Inl MetadataError) \<or> P (snd (g s)) \<and> sure P Q (fst (g s))) \<Longrightarrow> sure P Q (Atomic g)"

inductive_simps sure_simps: "sure P Q (Return r)" "sure P Q (Atomic g)"

lemma sure_bind: "sure P Q p \<Longrightarrow> (\<And>a. Q a \<Longrightarrow> sure P R (f a)) \<Longrightarrow> sure P R (pbind p f)"
proof (induction rule: sure.induct)
  case (sure_return r Q)
  then show ?case by (auto simp: sure_simps split: sum.split)
next
  case (sure_atomic g Q)
  show ?case unfolding atomic_simps
  proof (rule sure.sure_atomic)
    fix s assume "P s"
    with sure_atomic.IH [of s] sure_atomic.prems
    show "fst (pbind (fst (g s)) f, snd (g s)) = Return (Inl MetadataError) \<or>
        P (snd (pbind (fst (g s)) f, snd (g s))) \<and> sure P R (fst (pbind (fst (g s)) f, snd (g s)))" by auto
  qed
qed

lemma sure_atom:
  assumes "\<And>s r s'. P s \<Longrightarrow> m s = (r, s') \<Longrightarrow> r = Inl MetadataError \<or> P s' \<and> (\<forall>a. r = Inr a \<longrightarrow> Q a)"
  shows "sure P Q (patom m)"
proof -
  have "fst (map_prod Return (\<lambda>t. t) (m s)) = Return (Inl MetadataError) \<or>
      P (snd (map_prod Return (\<lambda>t. t) (m s))) \<and> sure P Q (fst (map_prod Return (\<lambda>t. t) (m s)))" if "P s" for s
    using assms [OF that, of "fst (m s)" "snd (m s)"] by (auto simp: sure_simps map_prod_def split_def)
  then show ?thesis unfolding patom_def by (rule sure_atomic)
qed

lemma sure_read: "(\<And>s. P s \<Longrightarrow> sure P Q (f s)) \<Longrightarrow> sure P Q (pread f)"
  unfolding pread_def by (rule sure_atomic) simp

lemma sure_answer: "sure P Q p \<Longrightarrow> sure P (\<lambda>a. \<exists>x. a = F x \<and> Q x) (panswer F p)"
  unfolding panswer_def by (erule sure_bind) (auto simp: sure_simps)

lemma sure_weaken: "sure P Q p \<Longrightarrow> (\<And>a. Q a \<Longrightarrow> R a) \<Longrightarrow> sure P R p"
proof (induction rule: sure.induct)
  case (sure_atomic g Q)
  then show ?case by (intro sure.sure_atomic) blast
qed (simp add: sure_simps)

section \<open>The pieces of the calls\<close>

lemma get_cases:
  assumes laws: "sqlite_laws sq content" and rest: "ms_rest content s" "holds_metadata (content (ms_db s)) g" and run: "ms_get sq vid s = (r, s')"
  shows "r = Inl MetadataError \<or> r = Inr (read_md (g vid)) \<and> (\<exists>db. s' = s\<lparr>ms_db := db\<rparr> \<and> content db = content (ms_db s))"
proof -
  obtain rows ok db where q: "sq_query sq sql_select_by_vector [SqlInt vid] (ms_db s) = ((rows, ok), db)" by (metis prod.collapse)
  have "law_select sq content" using laws by (simp add: sqlite_laws_def)
  note c = this [unfolded law_select_def, rule_format, OF q]
  show ?thesis
  proof (cases ok)
    case True
    note e = ms_get_run(1) [OF rest(1) q True]
    have "md_sorted (g vid)" "sc_meta (content (ms_db s)) vid = stored_rows (g vid)" using rest(2) by (simp_all add: holds_metadata_def)
    note st = ms_get_stored [OF laws rest(1) this e]
    show ?thesis using st e run c by (auto simp: read_md_def)
  next
    case False
    then show ?thesis using ms_get_run(2) [OF rest(1) q] run by simp
  qed
qed

lemma get_piece:
  assumes "sqlite_laws (en_sqlite env) content"
  shows "sure (shown content env g d0) (\<lambda>md. md = read_md (g vid)) (patom (on_metadata (ms_get (en_sqlite env) vid)))"
proof (rule sure_atom)
  fix d r d'
  assume s: "shown content env g d0 d" and run: "on_metadata (ms_get (en_sqlite env) vid) d = (r, d')"
  obtain r1 m where m: "ms_get (en_sqlite env) vid (db_metadata d) = (r1, m)" by fastforce
  have e: "r = r1" "d' = d\<lparr>db_metadata := m\<rparr>" using run m by (simp_all add: on_metadata_def azoom_def)
  have "ms_rest content (db_metadata d)" "holds_metadata (content (ms_db (db_metadata d))) g" using s by (simp_all add: shown_def db_session_def db_holds_def)
  from get_cases [OF assms this m] shown_metadata [OF s] e
  show "r = Inl MetadataError \<or> shown content env g d0 d' \<and> (\<forall>md. r = Inr md \<longrightarrow> md = read_md (g vid))" by auto
qed

definition candidates_of :: "'db env \<Rightarrow> vec \<Rightarrow> query_options \<Rightarrow> 'db database \<Rightarrow> candidate list \<Rightarrow> bool" where
  "candidates_of env q opt d cs \<longleftrightarrow> (\<exists>v v'. vst_inv v \<and> vst_inv v' \<and> search_candidates env q opt (d\<lparr>db_scratch := v\<rparr>) = (Inr cs, d\<lparr>db_scratch := v'\<rparr>))"

lemma candidates_view:
  assumes v: "same_view d0 d" and run: "search_candidates env q opt d = (Inr cs, d\<lparr>db_scratch := w\<rparr>)"
  shows "search_candidates env q opt (d0\<lparr>db_scratch := db_scratch d\<rparr>) = (Inr cs, d0\<lparr>db_scratch := w\<rparr>)"
proof -
  obtain m wl where d: "d = d0\<lparr>db_metadata := m, db_world := wl, db_scratch := db_scratch d\<rparr>" using v by (metis same_view_def)
  have "use_exact d opt = use_exact d0 opt" "fetch_count d opt = fetch_count d0 opt" by (subst d, simp add: use_exact_def fetch_count_def)+
  then have u: "use_exact (d0\<lparr>db_scratch := x\<rparr>) opt = use_exact d opt" "fetch_count (d0\<lparr>db_scratch := x\<rparr>) opt = fetch_count d opt" for x
    by (simp_all add: use_exact_def fetch_count_def)
  have p: "db_scratch (snd (search_candidates env q opt d)) = w" "fst (search_candidates env q opt d) = Inr cs" using run by simp_all
  show ?thesis using p view_fields [OF v] by (cases "use_exact d opt") (auto simp: search_candidates_def u split: sum.splits)
qed

lemma candidates_piece:
  assumes k: "0 < qo_k opt" and q: "validate_vector q (dc_dimension (db_config d0)) = Inr ()"
  shows "sure (shown content env g d0) (\<lambda>cs. candidates_of env q opt d0 cs \<and> (\<forall>c\<in>set cs. local_id c < length (vs_local_to_id (db_store d0))))
    (patom (search_candidates env q opt))"
proof (rule sure_atom)
  fix d r d'
  assume s: "shown content env g d0 d" and run: "search_candidates env q opt d = (r, d')"
  have inv: "db_inv d" and view: "same_view d0 d" using s by (simp_all add: shown_def db_session_def)
  note f = view_fields [OF view]
  show "r = Inl MetadataError \<or> shown content env g d0 d' \<and> (\<forall>cs. r = Inr cs \<longrightarrow> candidates_of env q opt d0 cs \<and>
      (\<forall>c\<in>set cs. local_id c < length (vs_local_to_id (db_store d0))))"
  proof (cases "asked d opt = 0")
    case True
    then have "r = Inl InvalidArgumentError" "d' = d" using search_no_k [OF inv, of opt env q] run by simp_all
    then show ?thesis using s by simp
  next
    case False
    have "length q = dc_dimension (db_config d)" using validate_length [OF q] f by simp
    from candidates_sound [OF inv this, of opt env] False obtain cs v where c: "search_candidates env q opt d = (Inr cs, d\<lparr>db_scratch := v\<rparr>)"
      "sound_results (vs_accessor (db_store d)) (asked d opt) cs" "vst_inv v" by blast
    have "vst_inv (db_scratch d)" using inv by (simp add: db_inv_def)
    then have "candidates_of env q opt d0 cs" using candidates_view [OF view c(1)] c(3) unfolding candidates_of_def by blast
    moreover have "\<forall>c\<in>set cs. local_id c < length (vs_local_to_id (db_store d0))"
      using c(2) f inv by (auto simp: sound_results_def db_inv_def vs_inv_def)
    ultimately show ?thesis using c run shown_scratch [OF s c(3)] by simp
  qed
qed

text \<open>What a normal answer of a reading call says, in terms of the view and the metadata.\<close>

definition search_answer :: "'db env \<Rightarrow> (u64 \<Rightarrow> metadata) \<Rightarrow> 'db database \<Rightarrow> vec \<Rightarrow> query_options \<Rightarrow> query_result list \<Rightarrow> bool" where
  "search_answer env g d q opt rs \<longleftrightarrow>
     (\<exists>cs. candidates_of env q opt d cs \<and> rs = map (found d opt g) (take (qo_k opt) (filter (wanted d opt g) cs)))"

fun read_answer :: "'db env \<Rightarrow> (u64 \<Rightarrow> metadata) \<Rightarrow> 'db database \<Rightarrow> call \<Rightarrow> answer \<Rightarrow> bool" where
  "read_answer env g d (CSearch q opt) a \<longleftrightarrow> (\<exists>rs. a = AResults rs \<and> search_answer env g d q opt rs)"
| "read_answer env g d (CGet vid) a \<longleftrightarrow>
     a = AStored (map_option (\<lambda>(v, _). \<lparr>sv_id = vid, sv_vector = v, sv_metadata = read_md (g vid)\<rparr>) (vs_abs (db_store d) vid))"
| "read_answer env g d (CContains vid) a \<longleftrightarrow> a = ABool (vs_abs (db_store d) vid \<noteq> None)"
| "read_answer env g d CStats a \<longleftrightarrow> (\<exists>s. a = AStats s \<and> ds_live_vectors s = vs_live_count (db_store d) \<and> ds_slots s = vs_slot_count (db_store d) \<and>
     ds_dirty s = db_dirty d \<and> (0 < ds_metadata_vectors s \<longleftrightarrow> (\<exists>vid. g vid \<noteq> [])))"
| "read_answer env g d CSize a \<longleftrightarrow> a = ACount (vs_live_count (db_store d))"
| "read_answer env g d _ a \<longleftrightarrow> True"

lemma found_view: "same_view d0 d \<Longrightarrow> found d = found d0" "same_view d0 d \<Longrightarrow> wanted d = wanted d0"
  "same_view d0 d \<Longrightarrow> needs_metadata d opt = needs_metadata d0 opt"
  by (simp_all add: found_def [abs_def] wanted_def [abs_def] needs_metadata_def view_fields)

lemma no_metadata_wanted:
  assumes h: "db_holds content g d" and n: "\<not> needs_metadata d opt" and f: "qo_filter opt \<noteq> [] \<or> qo_include_metadata opt"
  shows "g vid = []"
  using assms by (auto simp: needs_metadata_def db_holds_def)

lemma collect_sure:
  assumes laws: "sqlite_laws (en_sqlite env) content" and b: "\<forall>c\<in>set cs. local_id c < length (vs_local_to_id (db_store d0))"
    and res: "length res \<le> qo_k opt"
  shows "sure (shown content env g d0) (\<lambda>rs. rs = res @ map (found d0 opt g) (take (qo_k opt - length res) (filter (wanted d0 opt g) cs)))
    (collect_prog env opt cs res)"
  using b res
proof (induction cs arbitrary: res)
  case Nil
  then show ?case by (simp add: sure_simps)
next
  case (Cons c cs)
  let ?P = "shown content env g d0" and ?vid = "vs_local_to_id (db_store d0) ! local_id c"
  let ?Q = "\<lambda>rs. rs = res @ map (found d0 opt g) (take (qo_k opt - length res) (filter (wanted d0 opt g) (c # cs)))"
  show ?case
  proof (cases "length res \<ge> qo_k opt")
    case True
    then show ?thesis by (simp add: sure_simps)
  next
    case False
    have k: "qo_k opt - length res = Suc (qo_k opt - Suc (length res))" using False by simp
    have skip: "sure ?P ?Q (collect_prog env opt cs res)" if "\<not> wanted d0 opt g c" using Cons.IH [of res] Cons.prems that by simp
    have put: "sure ?P ?Q (collect_prog env opt cs (res @ [found d0 opt g c]))" if "wanted d0 opt g c"
      using Cons.IH [of "res @ [found d0 opt g c]"] Cons.prems(1) that False by (simp add: k)
    have "sure ?P ?Q (pread (\<lambda>d.
        pbind (Return (vs_vector_id (db_store d) (local_id c))) (\<lambda>vid.
        let put = (\<lambda>md. collect_prog env opt cs (res @
              [\<lparr>qr_id = vid, qr_score = score_from_rank_key (dc_metric (db_config d)) (key c), qr_metadata = md\<rparr>])) in
        if needs_metadata d opt then
          pbind (patom (on_metadata (ms_get (en_sqlite env) vid))) (\<lambda>md.
            if qo_filter opt \<noteq> [] \<and> \<not> filter_matches (qo_filter opt) md then collect_prog env opt cs res else put md)
        else if qo_filter opt \<noteq> [] then collect_prog env opt cs res
        else put [])))"
    proof (rule sure_read)
      fix d assume s: "?P d"
      then have view: "same_view d0 d" and h: "db_holds content g d" by (simp_all add: shown_def db_session_def)
      note f = view_fields [OF view] found_view [OF view]
      have vid: "vs_vector_id (db_store d) (local_id c) = Inr ?vid" using Cons.prems(1) f by (simp add: vs_vector_id_def)
      let ?put = "\<lambda>md. collect_prog env opt cs (res @ [\<lparr>qr_id = ?vid, qr_score = score_from_rank_key (dc_metric (db_config d)) (key c), qr_metadata = md\<rparr>])"
      have "sure ?P ?Q (if needs_metadata d opt then
          pbind (patom (on_metadata (ms_get (en_sqlite env) ?vid))) (\<lambda>md.
            if qo_filter opt \<noteq> [] \<and> \<not> filter_matches (qo_filter opt) md then collect_prog env opt cs res else ?put md)
        else if qo_filter opt \<noteq> [] then collect_prog env opt cs res else ?put [])"
      proof (cases "needs_metadata d opt")
        case needs: True
        have step: "sure ?P ?Q (if qo_filter opt \<noteq> [] \<and> \<not> filter_matches (qo_filter opt) md then collect_prog env opt cs res else ?put md)"
          if md: "md = read_md (g ?vid)" for md
        proof (cases "wanted d0 opt g c")
          case True
          have "found d0 opt g c = \<lparr>qr_id = ?vid, qr_score = score_from_rank_key (dc_metric (db_config d)) (key c), qr_metadata = md\<rparr>"
            using needs f by (auto simp: found_def md Let_def needs_metadata_def)
          then show ?thesis using put [OF True] True by (simp add: wanted_def md)
        next
          case False
          then have "qo_filter opt \<noteq> [] \<and> \<not> filter_matches (qo_filter opt) md" by (auto simp: wanted_def md filter_matches_def)
          then show ?thesis using skip [OF False] by simp
        qed
        show ?thesis unfolding if_P [OF needs] by (rule sure_bind [OF get_piece [OF laws] step])
      next
        case needs: False
        note none = no_metadata_wanted [OF h needs]
        have w: "wanted d0 opt g c \<longleftrightarrow> qo_filter opt = []"
          using none by (cases "qo_filter opt") (auto simp: wanted_def read_md_def filter_matches_def condition_matches_def)
        have e: "found d0 opt g c = \<lparr>qr_id = ?vid, qr_score = score_from_rank_key (dc_metric (db_config d)) (key c), qr_metadata = []\<rparr>"
          using none f by (auto simp: found_def read_md_def Let_def)
        show ?thesis using needs skip put w e by simp
      qed
      then show "sure ?P ?Q (pbind (Return (vs_vector_id (db_store d) (local_id c))) (\<lambda>vid.
        let put = (\<lambda>md. collect_prog env opt cs (res @
              [\<lparr>qr_id = vid, qr_score = score_from_rank_key (dc_metric (db_config d)) (key c), qr_metadata = md\<rparr>])) in
        if needs_metadata d opt then
          pbind (patom (on_metadata (ms_get (en_sqlite env) vid))) (\<lambda>md.
            if qo_filter opt \<noteq> [] \<and> \<not> filter_matches (qo_filter opt) md then collect_prog env opt cs res else put md)
        else if qo_filter opt \<noteq> [] then collect_prog env opt cs res
        else put []))" by (simp add: vid Let_def)
    qed
    then show ?thesis using False by simp
  qed
qed

lemma search_sure:
  assumes laws: "sqlite_laws (en_sqlite env) content"
  shows "sure (shown content env g d0) (search_answer env g d0 q opt) (search_prog env q opt)"
  unfolding search_prog_def
proof (rule sure_read)
  fix d assume s: "shown content env g d0 d"
  then have c: "db_config d = db_config d0" using view_fields by (auto simp: shown_def)
  show "sure (shown content env g d0) (search_answer env g d0 q opt) (pbind (Return (guard_throw (qo_k opt = 0) InvalidArgumentError)) (\<lambda>_.
     pbind (Return (validate_vector q (dc_dimension (db_config d)))) (\<lambda>_.
     pbind (patom (search_candidates env q opt)) (\<lambda>cs. collect_prog env opt cs []))))"
  proof (cases "0 < qo_k opt \<and> validate_vector q (dc_dimension (db_config d0)) = Inr ()")
    case True
    have "sure (shown content env g d0) (search_answer env g d0 q opt) (pbind (patom (search_candidates env q opt)) (\<lambda>cs. collect_prog env opt cs []))"
    proof (rule sure_bind [OF candidates_piece])
      fix cs assume cs: "candidates_of env q opt d0 cs \<and> (\<forall>c\<in>set cs. local_id c < length (vs_local_to_id (db_store d0)))"
      show "sure (shown content env g d0) (search_answer env g d0 q opt) (collect_prog env opt cs [])"
        by (rule sure_weaken [OF collect_sure [OF laws, of cs d0 "[]" opt g]]) (use cs in \<open>auto simp: search_answer_def\<close>)
    qed (use True in auto)
    then show ?thesis using True by (simp add: c)
  next
    case False
    then show ?thesis by (cases "validate_vector q (dc_dimension (db_config d0))") (auto simp: c sure_simps guard_throw_def)
  qed
qed

lemma get_sure:
  assumes laws: "sqlite_laws (en_sqlite env) content"
  shows "sure (shown content env g d0)
    (\<lambda>r. r = map_option (\<lambda>(v, _). \<lparr>sv_id = vid, sv_vector = v, sv_metadata = read_md (g vid)\<rparr>) (vs_abs (db_store d0) vid)) (get_prog env vid)"
  unfolding get_prog_def
proof (rule sure_read)
  fix d assume "shown content env g d0 d"
  then have st: "db_store d = db_store d0" using view_fields by (auto simp: shown_def)
  show "sure (shown content env g d0)
    (\<lambda>r. r = map_option (\<lambda>(v, _). \<lparr>sv_id = vid, sv_vector = v, sv_metadata = read_md (g vid)\<rparr>) (vs_abs (db_store d0) vid))
    (case vs_find (db_store d) vid of None \<Rightarrow> Return (Inr None)
     | Some i \<Rightarrow> pbind (patom (on_metadata (ms_get (en_sqlite env) vid))) (\<lambda>md.
         Return (Inr (Some \<lparr>sv_id = vid, sv_vector = va_view (vs_vectors (db_store d)) i, sv_metadata = md\<rparr>))))"
  proof (cases "vs_find (db_store d0) vid")
    case None
    then show ?thesis by (simp add: st sure_simps vs_abs_def vs_find_def)
  next
    case (Some i)
    have "sure (shown content env g d0)
      (\<lambda>r. r = map_option (\<lambda>(v, _). \<lparr>sv_id = vid, sv_vector = v, sv_metadata = read_md (g vid)\<rparr>) (vs_abs (db_store d0) vid))
      (pbind (patom (on_metadata (ms_get (en_sqlite env) vid))) (\<lambda>md.
         Return (Inr (Some \<lparr>sv_id = vid, sv_vector = va_view (vs_vectors (db_store d0)) i, sv_metadata = md\<rparr>))))"
      by (rule sure_bind [OF get_piece [OF laws]]) (use Some in \<open>simp add: sure_simps vs_abs_def vs_find_def\<close>)
    then show ?thesis using Some by (simp add: st)
  qed
qed

text \<open>The two statements of the statistics that \<open>sqlite_laws\<close> says nothing about change no table.\<close>

definition law_statistics :: "'db sqlite \<Rightarrow> ('db \<Rightarrow> sql_content) \<Rightarrow> bool" where
  "law_statistics sq content \<longleftrightarrow> (\<forall>sql\<in>{sql_count_rows, sql_keys}. \<forall>args db. content (snd (sq_query sq sql args db)) = content db)"

lemma run_on_db:
  assumes "\<And>db r db'. m db = (r, db') \<Longrightarrow> r = Inl MetadataError \<or> content db' = content db"
  shows "sure (shown content env g d0) (\<lambda>_. True) (patom (on_metadata (on_db m)))"
proof (rule sure_atom)
  fix d r d'
  assume s: "shown content env g d0 d" and run: "on_metadata (on_db m) d = (r, d')"
  obtain r1 db where m: "m (ms_db (db_metadata d)) = (r1, db)" by fastforce
  then have "r = r1" "d' = d\<lparr>db_metadata := (db_metadata d)\<lparr>ms_db := db\<rparr>\<rparr>" using run by (simp_all add: on_metadata_def azoom_def on_db_def)
  then show "r = Inl MetadataError \<or> shown content env g d0 d' \<and> (\<forall>a. r = Inr a \<longrightarrow> True)" using assms [OF m] shown_metadata [OF s] by auto
qed

lemma local_statement_frame:
  assumes q: "\<And>args db. content (snd (sq_query sq sql args db)) = content db"
    and m: "\<And>db st r db' st'. st_sql st = sql \<Longrightarrow> st_run st = None \<Longrightarrow> m (db, st) = (r, (db', st')) \<Longrightarrow>
      r = Inl MetadataError \<or> db' = snd (sq_query sq sql (st_params st) db)"
    and run: "local_statement sq sql m db = (r, db')"
  shows "r = Inl MetadataError \<or> content db' = content db"
proof (cases "sq_prepare sq sql db")
  case True
  obtain r1 db1 st1 where r1: "m (db, st_new sql) = (r1, (db1, st1))" by (cases "m (db, st_new sql)") auto
  have "r = r1" "db' = db1" using run True r1 by (simp_all add: local_statement_def abind_prepare)
  then show ?thesis using m [OF _ _ r1] q by (auto simp: st_new_def)
next
  case False
  then show ?thesis using run by (simp add: local_statement_def abind_prepare)
qed

lemma one_step_frame:
  assumes "st_sql st = sql" "st_run st = None" "abind (stmt_step sq) (\<lambda>row. aret (f row)) (db, st) = (r, (db', st'))"
  shows "r = Inl MetadataError \<or> db' = snd (sq_query sq sql (st_params st) db)"
  using assms by (auto simp: abind_def stmt_step_def Let_def split: prod.splits list.splits if_splits)

lemma all_rows_frame:
  assumes "st_sql st = sql" "st_run st = None" "stmt_rows sq [] (db, st) = (r, (db', st'))"
  shows "r = Inl MetadataError \<or> db' = snd (sq_query sq sql (st_params st) db)"
proof -
  obtain rows ok db1 where q: "sq_query sq (st_sql st) (st_params st) db = ((rows, ok), db1)" by (metis prod.collapse)
  from stmt_rows_fresh [OF assms(2) q, of "[]"] show ?thesis using assms(1,3) q by auto
qed

lemma count_rows_piece:
  assumes l: "law_statistics (en_sqlite env) content"
  shows "sure (shown content env g d0) (\<lambda>_. True) (patom (on_metadata (ms_row_count (en_sqlite env))))"
  unfolding ms_row_count_def count_query_def
proof (rule run_on_db)
  fix db db' and r :: "nat result"
  assume run: "local_statement (en_sqlite env) sql_count_rows (abind (stmt_step (en_sqlite env)) (\<lambda>row. aret (case row of None \<Rightarrow> 0 | Some r \<Rightarrow> unat (column_int64 (en_sqlite env) r 0)))) db = (r, db')"
  show "r = Inl MetadataError \<or> content db' = content db"
    by (rule local_statement_frame [OF _ one_step_frame run]) (use l in \<open>auto simp: law_statistics_def\<close>)
qed

lemma keys_piece:
  assumes l: "law_statistics (en_sqlite env) content"
  shows "sure (shown content env g d0) (\<lambda>_. True) (patom (on_metadata (ms_keys (en_sqlite env))))"
proof -
  have "ms_keys (en_sqlite env) = on_db (abind (local_statement (en_sqlite env) sql_keys (stmt_rows (en_sqlite env) [])) (\<lambda>rows. aret (map (\<lambda>r. column_text (en_sqlite env) r 0) rows)))"
    by (auto simp: fun_eq_iff ms_keys_def abind_def on_db_def split: prod.split sum.split)
  moreover have "r = Inl MetadataError \<or> content db' = content db"
    if run: "abind (local_statement (en_sqlite env) sql_keys (stmt_rows (en_sqlite env) [])) (\<lambda>rows. aret (map (\<lambda>r. column_text (en_sqlite env) r 0) rows)) db = (r, db')" for db db' r
  proof -
    obtain r1 db1 where l1: "local_statement (en_sqlite env) sql_keys (stmt_rows (en_sqlite env) []) db = (r1, db1)" by fastforce
    have "r1 = Inl MetadataError \<or> content db1 = content db"
      by (rule local_statement_frame [OF _ all_rows_frame l1]) (use l in \<open>auto simp: law_statistics_def\<close>)
    then show ?thesis using run l1 by (auto simp: abind_def split: sum.splits)
  qed
  ultimately show ?thesis using run_on_db by metis
qed

lemma vector_count_piece:
  assumes "sqlite_laws (en_sqlite env) content"
  shows "sure (shown content env g d0) (\<lambda>n. 0 < n \<longleftrightarrow> (\<exists>vid. g vid \<noteq> [])) (patom (on_metadata (ms_vector_count (en_sqlite env))))"
proof (rule sure_atom)
  fix d r d'
  assume s: "shown content env g d0 d" and run: "on_metadata (ms_vector_count (en_sqlite env)) d = (r, d')"
  obtain r1 m where m: "ms_vector_count (en_sqlite env) (db_metadata d) = (r1, m)" by fastforce
  have e: "r = r1" "d' = d\<lparr>db_metadata := m\<rparr>" using run m by (simp_all add: on_metadata_def azoom_def)
  have "sc_meta (content (ms_db (db_metadata d))) vid \<noteq> Map.empty \<longleftrightarrow> g vid \<noteq> []" for vid
    using s by (simp add: shown_def db_session_def db_holds_def holds_metadata_def stored_rows_empty)
  then show "r = Inl MetadataError \<or> shown content env g d0 d' \<and> (\<forall>n. r = Inr n \<longrightarrow> (0 < n \<longleftrightarrow> (\<exists>vid. g vid \<noteq> [])))"
    using vector_count_cases [OF assms m] shown_metadata [OF s] e by auto
qed

lemma file_size_piece: "sure (shown content env g d0) (\<lambda>_. True) (patom (on_files (file_size_or_zero path)))"
proof (rule sure_atom)
  fix d d' and r :: "nat result"
  assume s: "shown content env g d0 d" and run: "on_files (file_size_or_zero path) d = (r, d')"
  obtain x w where x: "sys_stat_size path (db_world d) = (x, w)" by fastforce
  then have "visible w = visible (db_world d) \<and> (world_ok (db_world d) \<longrightarrow> world_ok w)"
    unfolding sys_stat_size_def by (rule sys_call_cases) (auto simp: visible_def fun_eq_iff world_ok_def split: option.splits)
  moreover have "d' = d\<lparr>db_world := w\<rparr>" using run x by (auto simp: on_files_def azoom_def file_size_or_zero_def split: sys.splits)
  ultimately show "r = Inl MetadataError \<or> shown content env g d0 d' \<and> (\<forall>a. r = Inr a \<longrightarrow> True)"
    using shown_world [OF s, of w] s by (auto simp: shown_def db_session_def)
qed

lemma stats_sure:
  assumes laws: "sqlite_laws (en_sqlite env) content" "law_statistics (en_sqlite env) content"
  shows "sure (shown content env g d0) (\<lambda>s. ds_live_vectors s = vs_live_count (db_store d0) \<and> ds_slots s = vs_slot_count (db_store d0) \<and>
     ds_dirty s = db_dirty d0 \<and> (0 < ds_metadata_vectors s \<longleftrightarrow> (\<exists>vid. g vid \<noteq> []))) (stats_prog env)"
  unfolding stats_prog_def
proof (rule sure_read)
  fix d assume "shown content env g d0 d"
  then have "same_view d0 d" by (simp add: shown_def)
  note f = view_fields(2,7) [OF this]
  show "sure (shown content env g d0) (\<lambda>s. ds_live_vectors s = vs_live_count (db_store d0) \<and> ds_slots s = vs_slot_count (db_store d0) \<and>
     ds_dirty s = db_dirty d0 \<and> (0 < ds_metadata_vectors s \<longleftrightarrow> (\<exists>vid. g vid \<noteq> [])))
    (pbind (patom (on_metadata (ms_vector_count (en_sqlite env)))) (\<lambda>vectors.
     pbind (patom (on_metadata (ms_row_count (en_sqlite env)))) (\<lambda>rows.
     pbind (patom (on_metadata (ms_keys (en_sqlite env)))) (\<lambda>keys.
     pbind (patom (on_files (file_size_or_zero (vector_file_path (db_directory d))))) (\<lambda>vbytes.
     pbind (patom (on_files (file_size_or_zero (index_file_path (db_directory d))))) (\<lambda>ibytes.
     pbind (patom (on_files (file_size_or_zero (metadata_file_path (db_directory d))))) (\<lambda>mbytes.
     Return (Inr \<lparr>ds_dimension = dc_dimension (db_config d), ds_metric = dc_metric (db_config d),
           ds_index_type = dc_index_type (db_config d), ds_index_description = ix_describe (db_index d),
           ds_live_vectors = vs_live_count (db_store d), ds_slots = vs_slot_count (db_store d),
           ds_tombstones = vs_tombstone_count (db_store d), ds_tombstone_ratio = vs_tombstone_ratio (db_store d),
           ds_metadata_vectors = vectors, ds_metadata_rows = rows, ds_metadata_keys = keys,
           ds_vector_file_bytes = vbytes, ds_index_file_bytes = ibytes, ds_metadata_file_bytes = mbytes,
           ds_dirty = db_dirty d\<rparr>))))))))"
    by (intro sure_bind [OF vector_count_piece [OF laws(1)]] sure_bind [OF count_rows_piece [OF laws(2)]] sure_bind [OF keys_piece [OF laws(2)]]
        sure_bind [OF file_size_piece]) (simp add: sure_simps f)
qed

lemma read_sure:
  assumes laws: "sqlite_laws (en_sqlite env) content" "law_statistics (en_sqlite env) content" and c: "is_read c"
  shows "sure (shown content env g d0) (read_answer env g d0 c) (read_prog env c)"
proof (cases c)
  case (CSearch q opt)
  then show ?thesis using sure_weaken [OF sure_answer [OF search_sure [OF laws(1), of g d0 q opt], of AResults]] by auto
next
  case (CGet vid)
  then show ?thesis using sure_weaken [OF sure_answer [OF get_sure [OF laws(1), of g d0 vid], of AStored]] by auto
next
  case CStats
  then show ?thesis using sure_weaken [OF sure_answer [OF stats_sure [OF laws, of g d0], of AStats]] by auto
next
  case (CContains vid)
  have "sure (shown content env g d0) (read_answer env g d0 c) (Return (Inr (ABool (db_contains d vid))))" if "shown content env g d0 d" for d
    using that view_fields [of d0 d] by (simp add: CContains sure_simps shown_def db_contains_def contains_abs)
  then show ?thesis using CContains by (auto intro!: sure_read)
next
  case CSize
  have "sure (shown content env g d0) (read_answer env g d0 c) (Return (Inr (ACount (vs_live_count (db_store d)))))" if "shown content env g d0 d" for d
    using that view_fields [of d0 d] by (simp add: CSize sure_simps shown_def)
  then show ?thesis using CSize by (auto intro!: sure_read)
qed (use c in simp_all)

section \<open>The calls that write\<close>

fun call_metadata :: "call \<Rightarrow> metadata" where
  "call_metadata (CInsert _ _ md) = md" | "call_metadata (CInsertAuto _ md) = md" | "call_metadata _ = []"

fun is_insert :: "call \<Rightarrow> bool" where
  "is_insert (CInsert _ _ _) = True" | "is_insert (CInsertAuto _ _) = True" | "is_insert _ = False"

definition md_good :: "metadata \<Rightarrow> bool" where
  "md_good md \<longleftrightarrow> md_sorted md \<and> (\<forall>(k, v)\<in>set md. k \<noteq> [])"

text \<open>An insertion the vector store turns away: a taken id, a wrong dimension, a value that is not finite.\<close>

fun refused :: "call \<Rightarrow> 'db database \<Rightarrow> error \<Rightarrow> bool" where
  "refused (CInsert vid v _) d e \<longleftrightarrow> vs_insert (db_store d) vid v = Inl e"
| "refused (CInsertAuto v _) d e \<longleftrightarrow> vs_insert (db_store d) (db_next_auto_id d) v = Inl e"
| "refused _ d e \<longleftrightarrow> False"

text \<open>What they do to the map of vectors and the map of metadata, and what they answer.\<close>

fun write_answer :: "bool \<Rightarrow> call \<Rightarrow> answer \<Rightarrow> (u64 \<rightharpoonup> vec \<times> f32) \<times> (u64 \<Rightarrow> metadata) \<Rightarrow> (u64 \<rightharpoonup> vec \<times> f32) \<times> (u64 \<Rightarrow> metadata) \<Rightarrow> bool" where
  "write_answer nrm (CInsert vid v md) a s s' \<longleftrightarrow> a = ADone \<and> fst s vid = None \<and> s' = apply_write nrm (WInsert vid v md) s"
| "write_answer nrm (CInsertAuto v md) a s s' \<longleftrightarrow> (\<exists>vid. a = AId vid \<and> fst s vid = None \<and> s' = apply_write nrm (WInsert vid v md) s)"
| "write_answer nrm (CRemove vid) a s s' \<longleftrightarrow> a = ABool (fst s vid \<noteq> None) \<and> s' = apply_write nrm (WRemove vid) s"
| "write_answer nrm CCompact a s s' \<longleftrightarrow> (\<exists>n. a = ACount n) \<and> s' = s"
| "write_answer nrm _ a s s' \<longleftrightarrow> a = ADone \<and> s' = s"

definition maps_of :: "'db database \<Rightarrow> (u64 \<Rightarrow> metadata) \<Rightarrow> (u64 \<rightharpoonup> vec \<times> f32) \<times> (u64 \<Rightarrow> metadata)" where
  "maps_of d g = (vs_abs (db_store d), g)"

lemma session_dirty: "db_session content env g d \<Longrightarrow> db_session content env g (d\<lparr>db_dirty := True\<rparr>)"
  by (simp add: db_session_def db_inv_def db_holds_def)

lemma rebuilt_flush:
  assumes laws: "sqlite_laws (en_sqlite env) content" and s: "db_session content env g d" and fits: "config_fits (db_config d)"
    and i: "db_inv d1" "vs_abs (db_store d1) = vs_abs (db_store d)" "db_config d1 = db_config d" "db_metadata d1 = db_metadata d"
      "db_world d1 = db_world d" "db_has_metadata d1 = db_has_metadata d"
    and room: "room_for (db_config d1) (vs_slot_count (db_store d1))"
    and run: "db_flush env (d1\<lparr>db_dirty := True\<rparr>) = (Inr (), d')"
  shows "db_session content env g d' \<and> maps_of d' g = maps_of d g \<and> db_config d' = db_config d \<and> vs_slot_count (db_store d') = vs_slot_count (db_store d1)"
proof -
  have "db_session content env g (d1\<lparr>db_dirty := True\<rparr>)" using s i by (simp add: db_session_def db_inv_def db_holds_def)
  from session_flush [OF laws this _ _ run] show ?thesis using fits i room by (simp add: maps_of_def)
qed

lemma write_session:
  assumes laws: "sqlite_laws (en_sqlite env) content" and s: "db_session content env g d" and fits: "config_fits (db_config d)"
    and room: "db_room d" and md: "md_sorted (call_metadata c)" and c: "\<not> is_read c" and run: "write_act env c d = (Inr a, d')"
  shows "\<exists>g'. db_session content env g' d' \<and> write_answer (dc_normalize (db_config d)) c a (maps_of d g) (maps_of d' g') \<and>
    db_config d' = db_config d \<and> vs_slot_count (db_store d') \<le> Suc (vs_slot_count (db_store d))"
proof -
  have i: "db_inv d" "db_holds content g d" using s by (simp_all add: db_session_def)
  have room0: "room_for (db_config d) (vs_slot_count (db_store d))" using room unfolding db_room_def by (rule room_mono) simp
  have ins: "\<exists>g'. db_session content env g' d' \<and> vs_abs (db_store d) vid = None \<and>
      maps_of d' g' = apply_write (dc_normalize (db_config d)) (WInsert vid v m) (maps_of d g) \<and>
      db_config d' = db_config d \<and> vs_slot_count (db_store d') \<le> Suc (vs_slot_count (db_store d))"
    if r: "db_insert env vid v m d = (Inr (), d')" and m: "md_sorted m" for vid v m
  proof -
    obtain V g' where ap: "apply_write (dc_normalize (db_config d)) (WInsert vid v m) (vs_abs (db_store d), g) = (V, g')" by fastforce
    have "run_write env (WInsert vid v m) d = (Inr (), d')" "md_sorted (write_metadata (WInsert vid v m))" using r m by simp_all
    from session_write [OF laws s room this(2,1) ap] insert_refines [OF laws i(1) room i(2) m r] ap show ?thesis
      by (intro exI [of _ g']) (simp add: maps_of_def)
  qed
  show ?thesis
  proof (cases c)
    case (CInsert vid v m)
    then have "db_insert env vid v m d = (Inr (), d')" "a = ADone" using run by (auto simp: act_inv aret_def)
    with ins [OF this(1)] md show ?thesis by (auto simp: CInsert maps_of_def)
  next
    case (CInsertAuto v m)
    then have "db_insert env (db_next_auto_id d) v m d = (Inr (), d')" "a = AId (db_next_auto_id d)"
      using run by (auto simp: db_insert_auto_def db_read_def act_inv aret_def)
    with ins [OF this(1)] md show ?thesis by (auto simp: CInsertAuto maps_of_def)
  next
    case (CRemove vid)
    then obtain b where r: "db_remove env vid d = (Inr b, d')" "a = ABool b" using run by (auto simp: act_inv aret_def)
    obtain V g' where ap: "apply_write (dc_normalize (db_config d)) (WRemove vid) (vs_abs (db_store d), g) = (V, g')" by fastforce
    have "run_write env (WRemove vid) d = (Inr (), d')" "md_sorted (write_metadata (WRemove vid))"
      using r by (simp_all add: abind_def md_sorted_def)
    from session_write [OF laws s room this(2,1) ap] remove_refines [OF laws i r(1)] ap show ?thesis
      by (intro exI [of _ g']) (simp add: maps_of_def CRemove r(2))
  next
    case CFlush
    then have "db_flush env d = (Inr (), d')" "a = ADone" using run by (auto simp: act_inv aret_def)
    with session_flush [OF laws s fits room0 this(1)] show ?thesis by (intro exI [of _ g]) (simp add: CFlush maps_of_def)
  next
    case CRebuild
    obtain d1 where d1: "build_index env d = (Inr (), d1)" "db_inv d1" "db_store d1 = db_store d" "db_config d1 = db_config d"
      "db_metadata d1 = db_metadata d" "db_world d1 = db_world d" "db_has_metadata d1 = db_has_metadata d"
      using build_index_keeps [of d env] i room0 by (auto simp: db_inv_def)
    then have "db_flush env (d1\<lparr>db_dirty := True\<rparr>) = (Inr (), d')" "a = ADone"
      using run CRebuild by (auto simp: db_rebuild_index_def act_inv aret_def db_update_def abind_step)
    from rebuilt_flush [OF laws s fits d1(2) _ d1(4-7) _ this(1)] show ?thesis
      using d1(3,4) room0 \<open>a = ADone\<close> by (intro exI [of _ g]) (simp add: CRebuild)
  next
    case CCompact
    show ?thesis
    proof (cases "vs_tombstone_count (db_store d) = 0")
      case True
      then have "d' = d" "a = ACount 0" using run by (auto simp: CCompact db_compact_def db_read_def abind_def aret_def Let_def)
      then show ?thesis using s by (intro exI [of _ g]) (simp add: CCompact maps_of_def)
    next
      case False
      obtain d1 where d1: "db_inv d1" "vs_abs (db_store d1) = vs_abs (db_store d)" "db_config d1 = db_config d"
        "db_metadata d1 = db_metadata d" "db_world d1 = db_world d" "db_has_metadata d1 = db_has_metadata d" "vs_slot_count (db_store d1) \<le> vs_slot_count (db_store d)"
        "db_compact env d = abind (db_update (\<lambda>d. d\<lparr>db_dirty := True\<rparr>)) (\<lambda>_. abind (db_flush env) (\<lambda>_. aret (vs_tombstone_count (db_store d)))) d1"
        using compact_steps [OF i(1) room, of env] False by auto
      have "db_flush env (d1\<lparr>db_dirty := True\<rparr>) = (Inr (), d')" "\<exists>n. a = ACount n"
        using run d1(8) by (auto simp: CCompact act_inv aret_def)
      from rebuilt_flush [OF laws s fits d1(1-6) _ this(1)] this(2) show ?thesis
        using room_mono [OF room0 d1(7)] d1(3,7) by (intro exI [of _ g]) (simp add: CCompact)
    qed
  qed (use c in simp_all)
qed

lemma insert_refused:
  assumes laws: "sqlite_laws (en_sqlite env) content" and s: "db_session content env g d" and room: "db_room d" and md: "md_good md"
    and run: "db_insert env vid v md d = (Inl e, d')" and e: "e \<noteq> MetadataError"
  shows "vs_insert (db_store d) vid v = Inl e \<and> d' = d"
proof (cases "vs_insert (db_store d) vid v")
  case (Inl e1)
  then show ?thesis using run by (simp add: db_insert_def db_read_def abind_def alift_def)
next
  case (Inr p)
  then obtain i st where ins: "vs_insert (db_store d) vid v = Inr (i, st)" by (cases p) auto
  have i: "db_inv d" "db_holds content g d" using s by (simp_all add: db_session_def)
  obtain d1 where d1: "index_add env i (refresh_accessor (d\<lparr>db_store := st\<rparr>)) = (Inr (), d1)"
    "d1 = d\<lparr>db_store := st, db_index := db_index d1, db_scratch := db_scratch d1\<rparr>"
    using insert_steps [OF i(1,1) room ins, of env] by blast
  have "db_metadata d1 = db_metadata d" by (subst d1(2), simp)
  then have rest: "ms_rest content (db_metadata d1)" using i(2) by (simp add: db_holds_def)
  obtain r1 m where ms: "ms_set (en_sqlite env) vid md (db_metadata d1) = (r1, m)" by fastforce
  have "r1 = Inr () \<or> r1 = Inl MetadataError" using ms_set_cases [OF laws rest _ ms] md by (auto simp: md_good_def)
  then show ?thesis using run ms e d1(1)
    by (auto simp: db_insert_def db_read_def db_update_def abind_def alift_def aret_def ins on_metadata_def azoom_def split: if_splits)
qed

lemma write_refused:
  assumes laws: "sqlite_laws (en_sqlite env) content" and s: "db_session content env g d" and room: "db_room d"
    and md: "md_good (call_metadata c)" and c: "is_insert c" and run: "write_act env c d = (Inl e, d')" and e: "e \<noteq> MetadataError"
  shows "refused c d e \<and> d' = d"
proof (cases c)
  case (CInsert vid v m)
  then have "db_insert env vid v m d = (Inl e, d')" using run by (auto simp: abind_def aret_def split: prod.splits sum.splits)
  from insert_refused [OF laws s room _ this e] md show ?thesis by (simp add: CInsert)
next
  case (CInsertAuto v m)
  then have "db_insert env (db_next_auto_id d) v m d = (Inl e, d')"
    using run by (auto simp: db_insert_auto_def db_read_def abind_def aret_def split: prod.splits sum.splits)
  from insert_refused [OF laws s room _ this e] md show ?thesis by (simp add: CInsertAuto)
qed (use c in simp_all)

lemma refused_shown: "refused c d1 e \<Longrightarrow> shown content env g d d1 \<Longrightarrow> refused c d e"
  using view_fields [of d d1] by (cases c) (auto simp: shown_def)

section \<open>Histories\<close>

text \<open>
  A sequence of calls one after the other. A reading call ends with an answer about the database as it is, or by an
  exception; a writing call is a run of the operation on a database with that view, or an insertion that is refused.
\<close>

inductive seq_calls :: "'db env \<Rightarrow> ('db \<Rightarrow> sql_content) \<Rightarrow> 'db database \<Rightarrow> (u64 \<Rightarrow> metadata) \<Rightarrow> (call \<times> answer result) list \<Rightarrow> 'db database \<Rightarrow>
    (u64 \<Rightarrow> metadata) \<Rightarrow> bool" for env content d0 g0 where
  seq_start: "seq_calls env content d0 g0 [] d0 g0"
| seq_read: "seq_calls env content d0 g0 l d g \<Longrightarrow> is_read c \<Longrightarrow> (\<And>a. r = Inr a \<Longrightarrow> read_answer env g d c a) \<Longrightarrow>
    seq_calls env content d0 g0 (l @ [(c, r)]) d g"
| seq_write: "seq_calls env content d0 g0 l d g \<Longrightarrow> \<not> is_read c \<Longrightarrow> shown content env g d d1 \<Longrightarrow> write_act env c d1 = (Inr a, d2) \<Longrightarrow>
    db_session content env g2 d2 \<Longrightarrow> write_answer (dc_normalize (db_config d)) c a (maps_of d g) (maps_of d2 g2) \<Longrightarrow>
    seq_calls env content d0 g0 (l @ [(c, Inr a)]) d2 g2"
| seq_refused: "seq_calls env content d0 g0 l d g \<Longrightarrow> refused c d e \<Longrightarrow> seq_calls env content d0 g0 (l @ [(c, Inl e)]) d g"

text \<open>
  The metadata store has not failed; and a call that writes files has not failed at all. A refused insertion is no failure.
\<close>

definition call_ok :: "call \<Rightarrow> answer result \<Rightarrow> bool" where
  "call_ok c r \<longleftrightarrow> (\<exists>a. r = Inr a) \<or> (is_read c \<or> is_insert c) \<and> r \<noteq> Inl MetadataError"

definition calls_ok :: "'db cdb \<Rightarrow> bool" where
  "calls_ok s \<longleftrightarrow> (\<forall>(t, c, r)\<in>set (cd_log s). call_ok c r) \<and> (\<forall>t c. cd_phase s t \<noteq> Reading c (Return (Inl MetadataError)))"

definition calls_fit :: "'db database \<Rightarrow> 'db cdb \<Rightarrow> bool" where
  "calls_fit d0 s \<longleftrightarrow> room_for (db_config d0) (vs_slot_count (db_store d0) + length (cd_log s)) \<and> (\<forall>(t, c, r)\<in>set (cd_log s). md_good (call_metadata c))"

section \<open>The lock\<close>

definition lock_inv :: "'db cdb \<Rightarrow> bool" where
  "lock_inv s \<longleftrightarrow> (\<forall>t. t \<in> cd_shared s \<longleftrightarrow> (\<exists>c p. cd_phase s t = Reading c p)) \<and>
     (\<forall>t. cd_exclusive s = Some t \<longleftrightarrow> (\<exists>c. cd_phase s t = Writing c)) \<and>
     (cd_exclusive s \<noteq> None \<longrightarrow> cd_shared s = {}) \<and>
     (\<forall>t c p. cd_phase s t = Reading c p \<longrightarrow> is_read c) \<and> (\<forall>t c. cd_phase s t = Writing c \<longrightarrow> \<not> is_read c)"

lemma run_as_frame: "run_as t f s = (x, s') \<Longrightarrow> cd_shared s' = cd_shared s \<and> cd_exclusive s' = cd_exclusive s \<and> cd_phase s' = cd_phase s \<and> cd_log s' = cd_log s"
  by (auto simp: run_as_def split: prod.splits)

lemmas lock_defs = to_phase_def answer_call_def lock_shared_def lock_exclusive_def

lemma lock_step: "cstep env t s s' \<Longrightarrow> lock_inv s \<Longrightarrow> lock_inv s'"
proof (induction rule: cstep.induct)
  case (ask s t)
  then show ?case by (auto simp: lock_inv_def lock_defs)
next
  case (share s t c s')
  then have "cd_exclusive s = None" "s' = s\<lparr>cd_shared := insert t (cd_shared s)\<rparr>" by (auto simp: lock_shared_def split: if_splits)
  then show ?case using share.hyps(1,2) share.prems by (simp add: lock_inv_def to_phase_def)
next
  case (piece s t c f p s')
  then have "is_read c" unfolding lock_inv_def by blast
  then show ?case using piece run_as_frame [OF piece.hyps(2)] by (auto simp: lock_inv_def lock_defs)
next
  case (release_shared s t c r)
  then show ?case by (auto simp: lock_inv_def lock_defs)
next
  case (exclude s t c s')
  then show ?case by (auto simp: lock_inv_def lock_defs split: if_splits)
next
  case (write_step s t c r s')
  then have x: "cd_exclusive s = Some t" "cd_shared s = {}" unfolding lock_inv_def by blast+
  moreover have "\<forall>u. (\<exists>c. cd_phase s u = Writing c) \<longrightarrow> u = t"
    using write_step.prems x(1) unfolding lock_inv_def by (metis option.inject)
  ultimately show ?case using write_step.prems write_step.hyps(1) run_as_frame [OF write_step.hyps(2)] by (auto simp: lock_inv_def lock_defs)
next
  case (leave s t c r)
  then show ?case by (auto simp: lock_inv_def lock_defs)
qed

definition cdb_step :: "'db env \<Rightarrow> 'db cdb \<Rightarrow> 'db cdb \<Rightarrow> bool" where
  "cdb_step env s s' \<longleftrightarrow> (\<exists>t. cstep env t s s')"

lemma lock_reach: "(cdb_step env)\<^sup>*\<^sup>* (cdb_new d0 scratch) s \<Longrightarrow> lock_inv s"
proof (induction rule: rtranclp_induct)
  case base
  show ?case by (simp add: lock_inv_def cdb_new_def)
next
  case (step s s')
  then show ?case using lock_step by (auto simp: cdb_step_def)
qed

section \<open>One call after the other\<close>

lemma step_log: "cstep env t s s' \<Longrightarrow> cd_log s' = cd_log s \<or> (\<exists>x. cd_log s' = cd_log s @ [x])"
  by (erule cstep.cases) (auto simp: lock_defs dest: run_as_frame split: if_splits)

lemma ok_back:
  assumes "calls_ok s'" "cd_phase s' = (cd_phase s)(t := ph)" "set (cd_log s) \<subseteq> set (cd_log s')"
    "\<And>c. cd_phase s t \<noteq> Reading c (Return (Inl MetadataError))"
  shows "calls_ok s"
proof -
  have "cd_phase s u \<noteq> Reading c (Return (Inl MetadataError))" for u c
    using assms by (cases "u = t") (auto simp: calls_ok_def split: if_splits)
  then show ?thesis using assms(1,3) by (auto simp: calls_ok_def)
qed

lemma calls_ok_back: "cstep env t s s' \<Longrightarrow> calls_ok s' \<Longrightarrow> calls_ok s"
proof (induction rule: cstep.induct)
  case (release_shared s t c r)
  have "cd_phase s u \<noteq> Reading c' (Return (Inl MetadataError))" for u c'
  proof (cases "u = t")
    case True
    then show ?thesis using release_shared by (auto simp: calls_ok_def call_ok_def lock_defs)
  next
    case False
    then show ?thesis using release_shared.prems by (auto simp: calls_ok_def lock_defs split: if_splits)
  qed
  then show ?case using release_shared.prems by (auto simp: calls_ok_def lock_defs)
next
  case (piece s t c f p s')
  then show ?case using run_as_frame [OF piece.hyps(2)] by (auto simp: calls_ok_def lock_defs) (metis phase.inject(2) prog.distinct(1))
next
  case (write_step s t c r s')
  then show ?case using run_as_frame [OF write_step.hyps(2)] 
    by (intro ok_back [OF write_step.prems, of s t "Answered c r"]) (auto simp: lock_defs)
next
  case (ask s t c)
  show ?case by (rule ok_back [OF ask.prems, of s t "Asking c"]) (use ask.hyps in \<open>auto simp: lock_defs\<close>)
next
  case (share s t c s')
  show ?case by (rule ok_back [OF share.prems, of s t "Reading c (read_prog env c)"]) (use share.hyps in \<open>auto simp: lock_defs split: if_splits\<close>)
next
  case (exclude s t c s')
  show ?case by (rule ok_back [OF exclude.prems, of s t "Writing c"]) (use exclude.hyps in \<open>auto simp: lock_defs split: if_splits\<close>)
next
  case (leave s t c r)
  show ?case by (rule ok_back [OF leave.prems, of s t Idle]) (use leave.hyps in \<open>auto simp: lock_defs\<close>)
qed

lemma calls_fit_back: "cstep env t s s' \<Longrightarrow> calls_fit d0 s' \<Longrightarrow> calls_fit d0 s"
  using step_log [of env t s s'] by (auto simp: calls_fit_def elim: room_mono)

definition readers_sure :: "('db \<Rightarrow> sql_content) \<Rightarrow> 'db env \<Rightarrow> 'db database \<Rightarrow> (u64 \<Rightarrow> metadata) \<Rightarrow> 'db cdb \<Rightarrow> bool" where
  "readers_sure content env d g s \<longleftrightarrow> (\<forall>t c p. cd_phase s t = Reading c p \<longrightarrow> sure (shown content env g d) (read_answer env g d c) p)"

definition main_inv :: "('db \<Rightarrow> sql_content) \<Rightarrow> 'db env \<Rightarrow> 'db database \<Rightarrow> (u64 \<Rightarrow> metadata) \<Rightarrow> 'db cdb \<Rightarrow> bool" where
  "main_inv content env d0 g0 s \<longleftrightarrow> (\<exists>d g. seq_calls env content d0 g0 (map snd (cd_log s)) d g \<and> shown content env g d (cd_db s) \<and>
     db_config d = db_config d0 \<and> vs_slot_count (db_store d) \<le> vs_slot_count (db_store d0) + length (cd_log s) \<and>
     readers_sure content env d g s \<and> (\<forall>t. vst_inv (cd_scratch s t)))"

lemma main_same:
  assumes "main_inv content env d0 g0 s" "cd_log s' = cd_log s" "cd_db s' = cd_db s" "cd_scratch s' = cd_scratch s"
    "\<And>u d g c p. cd_phase s' u = Reading c p \<Longrightarrow> cd_phase s u = Reading c p \<or> sure (shown content env g d) (read_answer env g d c) p"
  shows "main_inv content env d0 g0 s'"
proof -
  obtain d g where dg: "seq_calls env content d0 g0 (map snd (cd_log s)) d g" "shown content env g d (cd_db s)"
     "db_config d = db_config d0" "vs_slot_count (db_store d) \<le> vs_slot_count (db_store d0) + length (cd_log s)"
     "readers_sure content env d g s" "\<forall>t. vst_inv (cd_scratch s t)"
    using assms(1) unfolding main_inv_def by blast
  have "readers_sure content env d g s'" using dg(5) assms(5) unfolding readers_sure_def by blast
  then show ?thesis unfolding main_inv_def using dg assms(2-4) by auto
qed

lemma main_step:
  assumes laws: "sqlite_laws (en_sqlite env) content" "law_statistics (en_sqlite env) content" and fits: "config_fits (db_config d0)"
  shows "cstep env t s s' \<Longrightarrow> lock_inv s \<Longrightarrow> calls_ok s' \<Longrightarrow> calls_fit d0 s' \<Longrightarrow> main_inv content env d0 g0 s \<Longrightarrow> main_inv content env d0 g0 s'"
proof (induction rule: cstep.induct)
  case (ask s t c)
  show ?case by (rule main_same [OF ask.prems(4)]) (auto simp: lock_defs split: if_splits)
next
  case (leave s t c r)
  show ?case by (rule main_same [OF leave.prems(4)]) (auto simp: lock_defs split: if_splits)
next
  case (exclude s t c s')
  show ?case by (rule main_same [OF exclude.prems(4)]) (use exclude.hyps(3) in \<open>auto simp: lock_defs split: if_splits\<close>)
next
  case (share s t c s')
  show ?case by (rule main_same [OF share.prems(4)]) (use share.hyps(2,3) read_sure [OF laws share.hyps(2)] in \<open>auto simp: lock_defs split: if_splits\<close>)
next
  case (piece s t c f p s')
  obtain d g where dg: "seq_calls env content d0 g0 (map snd (cd_log s)) d g" "shown content env g d (cd_db s)"
     "db_config d = db_config d0" "vs_slot_count (db_store d) \<le> vs_slot_count (db_store d0) + length (cd_log s)"
     "readers_sure content env d g s" "\<forall>t. vst_inv (cd_scratch s t)"
    using piece.prems(4) unfolding main_inv_def by blast
  let ?d = "(cd_db s)\<lparr>db_scratch := cd_scratch s t\<rparr>"
  have v: "shown content env g d ?d" using dg(2,6) by (simp add: shown_scratch)
  have "sure (shown content env g d) (read_answer env g d c) (Atomic f)" using dg(5) piece.hyps(1) by (simp add: readers_sure_def)
  then have "fst (f ?d) = Return (Inl MetadataError) \<or> shown content env g d (snd (f ?d)) \<and> sure (shown content env g d) (read_answer env g d c) (fst (f ?d))"
    using v by (simp add: sure_simps)
  moreover have p: "p = fst (f ?d)" "s' = s\<lparr>cd_db := snd (f ?d), cd_scratch := (cd_scratch s)(t := db_scratch (snd (f ?d)))\<rparr>"
    using piece.hyps(2) by (auto simp: run_as_def split: prod.splits)
  moreover have "cd_phase (to_phase t (Reading c p) s') t = Reading c p" by (simp add: to_phase_def)
  then have "p \<noteq> Return (Inl MetadataError)" using piece.prems(2) unfolding calls_ok_def by metis
  ultimately have n: "shown content env g d (snd (f ?d))" "sure (shown content env g d) (read_answer env g d c) p" by auto
  have "vst_inv (db_scratch (snd (f ?d)))" using n(1) by (simp add: shown_def db_session_def db_inv_def)
  then show ?case unfolding main_inv_def using dg n p
    by (intro exI [of _ d] exI [of _ g]) (auto simp: lock_defs readers_sure_def)
next
  case (release_shared s t c r)
  obtain d g where dg: "seq_calls env content d0 g0 (map snd (cd_log s)) d g" "shown content env g d (cd_db s)"
     "db_config d = db_config d0" "vs_slot_count (db_store d) \<le> vs_slot_count (db_store d0) + length (cd_log s)"
     "readers_sure content env d g s" "\<forall>t. vst_inv (cd_scratch s t)"
    using release_shared.prems(4) unfolding main_inv_def by blast
  have c: "is_read c" using release_shared.prems(1) release_shared.hyps unfolding lock_inv_def by blast
  have "sure (shown content env g d) (read_answer env g d c) (Return r)" using dg(5) release_shared.hyps by (simp add: readers_sure_def)
  then have "seq_calls env content d0 g0 (map snd (cd_log s) @ [(c, r)]) d g" by (intro seq_read dg(1) c) (simp add: sure_simps)
  then show ?case unfolding main_inv_def using dg
    by (intro exI [of _ d] exI [of _ g]) (auto simp: lock_defs readers_sure_def)
next
  case (write_step s t c r s')
  obtain d g where dg: "seq_calls env content d0 g0 (map snd (cd_log s)) d g" "shown content env g d (cd_db s)"
     "db_config d = db_config d0" "vs_slot_count (db_store d) \<le> vs_slot_count (db_store d0) + length (cd_log s)"
     "readers_sure content env d g s" "\<forall>t. vst_inv (cd_scratch s t)"
    using write_step.prems(4) unfolding main_inv_def by blast
  let ?d = "(cd_db s)\<lparr>db_scratch := cd_scratch s t\<rparr>"
  have v: "shown content env g d ?d" using dg(2,6) by (simp add: shown_scratch)
  then have sess: "db_session content env g ?d" and view: "db_store ?d = db_store d" "db_config ?d = db_config d"
    using view_fields [of d ?d] by (auto simp: shown_def)
  obtain d' where w: "write_act env c ?d = (r, d')" and s': "s' = s\<lparr>cd_db := d', cd_scratch := (cd_scratch s)(t := db_scratch d')\<rparr>"
    using write_step.hyps(2) by (auto simp: run_as_def split: prod.splits)
  have "cd_shared s = {}" using write_step.prems(1) write_step.hyps(1) unfolding lock_inv_def by blast
  then have none: "cd_phase s u \<noteq> Reading c' p" for u c' p using write_step.prems(1) unfolding lock_inv_def by blast
  have c: "\<not> is_read c" using write_step.prems(1) write_step.hyps(1) unfolding lock_inv_def by blast
  have log: "cd_log (answer_call t c r (s'\<lparr>cd_exclusive := None\<rparr>)) = cd_log s @ [(t, c, r)]" by (simp add: answer_call_def to_phase_def s')
  have ok: "call_ok c r" "md_good (call_metadata c)" "room_for (db_config d0) (vs_slot_count (db_store d0) + Suc (length (cd_log s)))"
    using write_step.prems(2,3) by (simp_all add: calls_ok_def calls_fit_def log)
  have room: "db_room ?d" using room_mono [OF ok(3), of "Suc (vs_slot_count (db_store d))"] dg(3,4) view by (simp add: db_room_def)
  have new: "main_inv content env d0 g0 (answer_call t c r (s'\<lparr>cd_exclusive := None\<rparr>))"
    if "seq_calls env content d0 g0 (map snd (cd_log s) @ [(c, r)]) d2 g2" "shown content env g2 d2 d'" "db_config d2 = db_config d0"
      "vs_slot_count (db_store d2) \<le> Suc (vs_slot_count (db_store d))" for d2 g2
  proof -
    have "vst_inv (db_scratch d')" using that(2) by (simp add: shown_def db_session_def db_inv_def)
    then show ?thesis unfolding main_inv_def using that dg none
      by (intro exI [of _ d2] exI [of _ g2]) (auto simp: lock_defs readers_sure_def s')
  qed
  show ?case
  proof (cases r)
    case (Inr a)
    have md: "md_sorted (call_metadata c)" using ok(2) by (simp add: md_good_def)
    obtain g' where g': "db_session content env g' d'" "write_answer (dc_normalize (db_config ?d)) c a (maps_of ?d g) (maps_of d' g')"
      "db_config d' = db_config ?d" "vs_slot_count (db_store d') \<le> Suc (vs_slot_count (db_store ?d))"
      using write_session [OF laws(1) sess _ room md c w [unfolded Inr]] fits dg(3) view by auto
    show ?thesis
    proof (rule new)
      show "seq_calls env content d0 g0 (map snd (cd_log s) @ [(c, r)]) d' g'"
        unfolding Inr using g' view by (intro seq_write [OF dg(1) c v w [unfolded Inr]]) (simp_all add: maps_of_def)
    qed (use g' view dg in \<open>simp_all add: shown_def\<close>)
  next
    case (Inl e)
    have e: "is_insert c" "e \<noteq> MetadataError" using ok(1) c by (simp_all add: call_ok_def Inl)
    from write_refused [OF laws(1) sess room ok(2) e(1) w [unfolded Inl] e(2)] have "refused c ?d e" "d' = ?d" by simp_all
    then show ?thesis using v by (intro new [of d g]) (auto simp: Inl dg intro: seq_refused [OF dg(1)] refused_shown)
  qed
qed

lemma main_reach:
  assumes laws: "sqlite_laws (en_sqlite env) content" "law_statistics (en_sqlite env) content" and fits: "config_fits (db_config d0)"
    and start: "db_session content env g0 d0" "\<forall>t. vst_inv (scratch t)"
  shows "(cdb_step env)\<^sup>*\<^sup>* (cdb_new d0 scratch) s \<Longrightarrow> calls_ok s \<Longrightarrow> calls_fit d0 s \<Longrightarrow> main_inv content env d0 g0 s"
proof (induction rule: rtranclp_induct)
  case base
  show ?case unfolding main_inv_def
    by (intro exI [of _ d0] exI [of _ g0]) (use start in \<open>simp add: cdb_new_def seq_start shown_def readers_sure_def\<close>)
next
  case (step s s')
  then obtain t where t: "cstep env t s s'" by (auto simp: cdb_step_def)
  from main_step [OF laws fits t lock_reach [OF step.hyps(1)] step.prems] step.IH calls_ok_back [OF t step.prems(1)] calls_fit_back [OF t step.prems(2)]
  show ?case by blast
qed

end
