(* ===== verification/Vdb_ConcurrentProps.thy ===== *)
theory Vdb_ConcurrentProps
  imports Vdb_Concurrent
begin

text \<open>
  What the lock gives the callers of the concurrent database: calls take effect one after the other, a writer is alone, some
  call can always go on, and a batch is one search for each of its queries.
\<close>

section \<open>One call after the other\<close>

text \<open>C10: Whatever the interleaving of the pieces of concurrent calls, the answers are those of a sequential run of the same
  calls in the order in which they gave up the lock: reads answer from one database between two writes, a search gives what it
  would give alone, writes act on the map of vectors and the map of metadata, and refused insertions change nothing. This is for
  histories in which no call has met a failure of the metadata database and no call other than a read or an insert has
  thrown (\<open>calls_ok\<close>), and which the graph has room for (\<open>calls_fit\<close>). The calls are those of \<open>call\<close>: not \<^verbatim>\<open>batch_search\<close> and
  not the callbacks of \<^verbatim>\<open>with_shared_access\<close> and \<^verbatim>\<open>with_exclusive_access\<close>.\<close>

theorem concurrent_calls_are_sequential:
  assumes "sqlite_laws (en_sqlite env) content" and "law_statistics (en_sqlite env) content" and "config_fits (db_config d0)"
    and "db_session content env g0 d0" and "\<forall>t. vst_inv (scratch t)" and "(cdb_step env)\<^sup>*\<^sup>* (cdb_new d0 scratch) s"
    and "calls_ok s" and "calls_fit d0 s"
  shows "\<exists>d g. seq_calls env content d0 g0 (map snd (cd_log s)) d g \<and> shown content env g d (cd_db s)"
  using main_reach [OF assms] unfolding main_inv_def by blast

text \<open>Further: A thread that writes is alone: no other thread is inside a call that reads or writes.\<close>

theorem writers_exclude_readers:
  assumes "(cdb_step env)\<^sup>*\<^sup>* (cdb_new d0 scratch) s" and "cd_phase s t = Writing c"
  shows "cd_phase s u \<noteq> Reading c' p \<and> (cd_phase s u = Writing c' \<longrightarrow> u = t)"
proof -
  note inv = lock_reach [OF assms(1)]
  have x: "cd_exclusive s = Some t" using inv assms(2) unfolding lock_inv_def by blast
  then have "cd_shared s = {}" using inv unfolding lock_inv_def by blast
  then have "cd_phase s u \<noteq> Reading c' p" using inv unfolding lock_inv_def by blast
  moreover have "u = t" if "cd_phase s u = Writing c'"
  proof -
    have "cd_exclusive s = Some u" using inv that unfolding lock_inv_def by blast
    then show ?thesis using x by simp
  qed
  ultimately show ?thesis by blast
qed

section \<open>Progress\<close>



section \<open>Batches\<close>

lemma concat_map_ranges: "concat (map (\<lambda>(a, b). map f [a..<b]) rs) = map f (concat (map (\<lambda>(a, b). [a..<b]) rs))"
  by (induction rs) auto

text \<open>C36: The tasks of a batch search, laid end to end, are one search for each query, in order, each for the slot of its query.\<close>

theorem batch_covers_queries:
  assumes "length queries + workers \<le> 2 ^ 63"
  shows "concat (batch_tasks workers queries opt) = map (\<lambda>i. (i, CSearch (queries ! i) opt)) [0..<length queries]"
proof (cases "queries = []")
  case True
  then show ?thesis by (simp add: batch_tasks_def)
next
  case False
  show ?thesis
  proof (cases "parallel_for workers (length queries)")
    case (Inl ranges)
    then have "0 < workers" by (auto simp: parallel_for_def split: if_splits)
    from ranges_partition [OF this assms Inl] Inl False show ?thesis
      using concat_map_ranges [of "\<lambda>i. (i, CSearch (queries ! i) opt)" ranges] by (simp add: batch_tasks_def batch_calls_def)
  next
    case (Inr r)
    then have "r = (0, length queries)" by (auto simp: parallel_for_def split: if_splits)
    then show ?thesis using Inr False by (simp add: batch_tasks_def batch_calls_def)
  qed
qed

lemma batch_covers_queries_witness:
  "concat (batch_tasks 2 [[0], [1], [0 :: f32]] small_query) =
     [(0, CSearch [0] small_query), (1, CSearch [1] small_query), (2, CSearch [0] small_query)]"
proof -
  have "length [[0], [1], [0 :: f32]] + 2 \<le> 2 ^ 63" by simp
  from batch_covers_queries [OF this, of small_query] show ?thesis by (simp add: upt_rec)
qed

section \<open>A run with three threads\<close>

lemma statistics_texts:
  "sql \<in> {sql_count_rows, sql_keys} \<Longrightarrow> sql \<notin> set [sql_delete_by_vector, sql_insert_value, sql_select_by_vector, sql_select_all, sql_count_vector,
     sql_count_distinct, sql_set_config, sql_get_config, sql_schema_version]"
  unfolding insert_iff empty_iff by (elim disjE; simp only:; code_simp)

lemma small_law_statistics: "law_statistics (en_sqlite small_env) td_content"
  unfolding law_statistics_def
proof (intro ballI allI)
  fix sql :: string and args db
  assume sql: "sql \<in> {sql_count_rows, sql_keys}"
  obtain b db1 where n: "td_next db = (b, db1)" by fastforce
  have "snd (td_query sql args db) = db1" using statistics_texts [OF sql] n by (cases b) (simp_all add: td_query_def)
  then show "td_content (snd (sq_query (en_sqlite small_env) sql args db)) = td_content db"
    using td_next_content [OF n] by (simp add: small_env_def table_sqlite_def td_content_def)
qed

definition quiet_start :: "table_db database \<Rightarrow> bool" where
  "quiet_start d \<longleftrightarrow> db_session td_content small_env (\<lambda>_. []) d \<and> vs_abs (db_store d) = Map.empty \<and> db_config d = small_config \<and>
     vs_slot_count (db_store d) = 0 \<and> \<not> db_dirty d"

lemma quiet_start_exists: "\<exists>d. quiet_start d"
proof -
  have fits: "config_fits small_config" using small_config_fits [of BruteForce] by (simp add: small_config_def)
  obtain d0 where d0: "db_create small_env ''d'' small_config new_host = Inr (Inr (), d0)" "calm d0"
    by (rule calm_created [of small_config]) simp
  have lo: "law_open (en_sqlite small_env) (en_schema small_env) td_content" using td_law_open by (simp add: small_env_def)
  from create_session [OF small_laws lo new_host_ok(1,2,4) fits d0(1)] show ?thesis by (auto simp: quiet_start_def)
qed

definition phases :: "table_db database \<Rightarrow> nat set \<Rightarrow> nat option \<Rightarrow> (nat \<Rightarrow> table_db phase) \<Rightarrow> (nat \<times> call \<times> answer result) list \<Rightarrow> table_db cdb" where
  "phases d sh ex ph lg = \<lparr>cd_db = d, cd_scratch = (\<lambda>_. db_scratch d), cd_shared = sh, cd_exclusive = ex, cd_phase = ph, cd_log = lg\<rparr>"

lemma phases_ask: "ph t = Idle \<Longrightarrow> cdb_step env (phases d sh ex ph lg) (phases d sh ex (ph(t := Asking c)) lg)"
  using cstep.ask [of "phases d sh ex ph lg" t env c] by (auto simp: cdb_step_def phases_def lock_defs)

lemma phases_share:
  assumes "ph t = Asking c" "is_read c"
  shows "cdb_step env (phases d sh None ph lg) (phases d (insert t sh) None (ph(t := Reading c (read_prog env c))) lg)"
proof -
  have "lock_shared t (phases d sh None ph lg) = Some (phases d (insert t sh) None ph lg)" by (simp add: lock_shared_def phases_def)
  from cstep.share [OF _ assms(2) this] assms(1) show ?thesis by (auto simp: cdb_step_def phases_def to_phase_def)
qed

lemma same_run: "run_as t f (phases d sh ex ph lg) = (x, phases d sh ex ph lg)" if "f d = (x, d)"
  using that by (simp add: run_as_def phases_def fun_eq_iff)

lemma phases_piece:
  assumes "ph t = Reading c (Atomic f)" "f d = (p, d)"
  shows "cdb_step env (phases d sh ex ph lg) (phases d sh ex (ph(t := Reading c p)) lg)"
proof -
  have "run_as t f (phases d sh ex ph lg) = (p, phases d sh ex ph lg)" by (rule same_run) (rule assms(2))
  from cstep.piece [OF _ this] assms(1) show ?thesis unfolding cdb_step_def by (intro exI [of _ t]) (simp add: phases_def to_phase_def)
qed

lemma phases_release:
  "ph t = Reading c (Return r) \<Longrightarrow> cdb_step env (phases d sh ex ph lg) (phases d (sh - {t}) ex (ph(t := Answered c r)) (lg @ [(t, c, r)]))"
  using cstep.release_shared [of "phases d sh ex ph lg" t c r] by (auto simp: cdb_step_def phases_def lock_defs)

lemma phases_exclude:
  assumes "ph t = Asking c" "\<not> is_read c"
  shows "cdb_step env (phases d {} None ph lg) (phases d {} (Some t) (ph(t := Writing c)) lg)"
proof -
  have "lock_exclusive t (phases d {} None ph lg) = Some (phases d {} (Some t) ph lg)" by (simp add: lock_exclusive_def phases_def)
  from cstep.exclude [OF _ assms(2) this] assms(1) show ?thesis by (auto simp: cdb_step_def phases_def to_phase_def)
qed

lemma phases_write:
  assumes "ph t = Writing c" "write_act env c d = (r, d)"
  shows "cdb_step env (phases d sh ex ph lg) (phases d sh None (ph(t := Answered c r)) (lg @ [(t, c, r)]))"
proof -
  have "run_as t (write_act env c) (phases d sh ex ph lg) = (r, phases d sh ex ph lg)" by (rule same_run) (rule assms(2))
  from cstep.write_step [OF _ this] assms(1) show ?thesis unfolding cdb_step_def by (intro exI [of _ t]) (simp add: phases_def lock_defs)
qed

lemma phases_leave: "ph t = Answered c r \<Longrightarrow> cdb_step env (phases d sh ex ph lg) (phases d sh ex (ph(t := Idle)) lg)"
  using cstep.leave [of "phases d sh ex ph lg" t c r env] unfolding cdb_step_def by (intro exI [of _ t]) (simp add: phases_def lock_defs)

lemmas then_step = rtranclp.rtrancl_into_rtrancl [of "cdb_step env" for env]

text \<open>A flush; then two reads whose pieces overlap, the second ending first; a third thread waits to write.\<close>

lemma small_run:
  assumes "quiet_start d"
  shows "\<exists>s. (cdb_step small_env)\<^sup>*\<^sup>* (cdb_new d (\<lambda>_. db_scratch d)) s \<and> calls_ok s \<and> calls_fit d s \<and> cd_phase s 1 = Asking CCompact \<and>
    cd_log s = [(1, CFlush, Inr ADone), (3, CSize, Inr (ACount 0)), (2, CContains 7, Inr (ABool False))]"
proof -
  have inv: "vs_inv (db_store d)" and a: "vs_abs (db_store d) = Map.empty" "vs_slot_count (db_store d) = 0" "\<not> db_dirty d"
    using assms by (auto simp: quiet_start_def db_session_def db_inv_def)
  have l: "vs_live_count (db_store d) = 0" using inv a(2) by (simp add: vs_inv_def live_slots_def)
  have f: "\<not> db_contains d 7" "write_act small_env CFlush d = (Inr ADone, d)"
    using a by (simp_all add: db_contains_def contains_abs db_flush_def db_read_def aret_def abind_def)
  let ?I = "\<lambda>_. Idle" and ?R = "\<lambda>s. (cdb_step small_env)\<^sup>*\<^sup>* (cdb_new d (\<lambda>_. db_scratch d)) s"
  let ?p = "?I(1 := Asking CCompact)" and ?l = "[(1, CFlush, Inr ADone)]"
  let ?r2 = "Reading (CContains 7) (read_prog small_env (CContains 7))" and ?r3 = "Reading CSize (read_prog small_env CSize)"
  let ?e2 = "Reading (CContains 7) (Return (Inr (ABool False)))" and ?e3 = "Reading CSize (Return (Inr (ACount 0)))"
  let ?l3 = "?l @ [(3, CSize, Inr (ACount 0))]"
  let ?l2 = "?l3 @ [(2, CContains 7, Inr (ABool False))]"
  have r0: "?R (phases d {} None ?I [])" by (simp add: phases_def cdb_new_def)
  have r1: "?R (phases d {} None (?I(1 := Asking CFlush)) [])"
    using then_step [OF r0 phases_ask [where t = 1 and c = CFlush]] by (simp add: fun_upd_idem fun_upd_twist)
  have r2: "?R (phases d {} (Some 1) (?I(1 := Writing CFlush)) [])"
    using then_step [OF r1 phases_exclude [where t = 1 and c = CFlush]] by (simp add: fun_upd_idem fun_upd_twist)
  have r3: "?R (phases d {} None (?I(1 := Answered CFlush (Inr ADone))) ?l)"
    using then_step [OF r2 phases_write [where t = 1 and c = CFlush, OF _ f(2)]] by (simp add: fun_upd_idem fun_upd_twist)
  have r4: "?R (phases d {} None ?I ?l)"
    using then_step [OF r3 phases_leave [where t = 1 and c = CFlush and r = "Inr ADone"]] by (simp add: fun_upd_idem fun_upd_twist)
  have r5: "?R (phases d {} None ?p ?l)"
    using then_step [OF r4 phases_ask [where t = 1 and c = CCompact]] by (simp add: fun_upd_idem fun_upd_twist)
  have r6: "?R (phases d {} None (?p(2 := Asking (CContains 7))) ?l)"
    using then_step [OF r5 phases_ask [where t = 2 and c = "CContains 7"]] by (simp add: fun_upd_idem fun_upd_twist)
  have r7: "?R (phases d {} None (?p(2 := Asking (CContains 7), 3 := Asking CSize)) ?l)"
    using then_step [OF r6 phases_ask [where t = 3 and c = CSize]] by (simp add: fun_upd_idem fun_upd_twist)
  have r8: "?R (phases d {2} None (?p(2 := ?r2, 3 := Asking CSize)) ?l)"
    using then_step [OF r7 phases_share [where t = 2 and c = "CContains 7"]] by (simp add: fun_upd_idem fun_upd_twist)
  have r9: "?R (phases d {3, 2} None (?p(2 := ?r2, 3 := ?r3)) ?l)"
    using then_step [OF r8 phases_share [where t = 3 and c = CSize]] by (simp add: fun_upd_idem fun_upd_twist)
  have r10: "?R (phases d {3, 2} None (?p(2 := ?e2, 3 := ?r3)) ?l)"
    using then_step [OF r9 phases_piece [where t = 2 and c = "CContains 7" and p = "Return (Inr (ABool False))"]] by (simp add: fun_upd_idem fun_upd_twist pread_def f l)
  have r11: "?R (phases d {3, 2} None (?p(2 := ?e2, 3 := ?e3)) ?l)"
    using then_step [OF r10 phases_piece [where t = 3 and c = CSize and p = "Return (Inr (ACount 0))"]] by (simp add: fun_upd_idem fun_upd_twist pread_def f l)
  have r12: "?R (phases d {2} None (?p(2 := ?e2, 3 := Answered CSize (Inr (ACount 0)))) ?l3)"
    using then_step [OF r11 phases_release [where t = 3 and c = CSize]] by (simp add: fun_upd_idem fun_upd_twist)
  have r13: "?R (phases d {} None (?p(2 := Answered (CContains 7) (Inr (ABool False)), 3 := Answered CSize (Inr (ACount 0)))) ?l2)"
    using then_step [OF r12 phases_release [where t = 2 and c = "CContains 7"]] by (simp add: fun_upd_idem fun_upd_twist)
  show ?thesis
  proof (intro exI conjI)
    show "calls_fit d (phases d {} None (?p(2 := Answered (CContains 7) (Inr (ABool False)), 3 := Answered CSize (Inr (ACount 0)))) ?l2)"
      using assms by (simp add: calls_fit_def phases_def quiet_start_def room_for_def small_config_def kMaxVectorCount_def md_good_def md_sorted_def)
  qed (use r13 in \<open>auto simp: phases_def calls_ok_def call_ok_def split: if_splits\<close>)
qed

lemma concurrent_calls_are_sequential_witness:
  "\<exists>d s d' g. quiet_start d \<and> (cdb_step small_env)\<^sup>*\<^sup>* (cdb_new d (\<lambda>_. db_scratch d)) s \<and>
     seq_calls small_env td_content d (\<lambda>_. []) [(CFlush, Inr ADone), (CSize, Inr (ACount 0)), (CContains 7, Inr (ABool False))] d' g"
proof -
  obtain d where d: "quiet_start d" using quiet_start_exists by blast
  then have q: "db_session td_content small_env (\<lambda>_. []) d" "db_config d = small_config" by (simp_all add: quiet_start_def)
  have fits: "config_fits (db_config d)" using small_config_fits [of BruteForce] q(2) by (simp add: small_config_def)
  have sc: "\<forall>t. vst_inv ((\<lambda>_. db_scratch d) t)" using q(1) by (simp add: db_session_def db_inv_def)
  obtain s where s: "(cdb_step small_env)\<^sup>*\<^sup>* (cdb_new d (\<lambda>_. db_scratch d)) s" "calls_ok s" "calls_fit d s"
    "cd_log s = [(1, CFlush, Inr ADone), (3, CSize, Inr (ACount 0)), (2, CContains 7, Inr (ABool False))]" using small_run [OF d] by blast
  from concurrent_calls_are_sequential [OF small_laws small_law_statistics fits q(1) sc s(1-3)] s(1,4) d show ?thesis by auto
qed

lemma writers_exclude_readers_witness:
  "\<exists>d s. (cdb_step small_env)\<^sup>*\<^sup>* (cdb_new d (\<lambda>_. db_scratch d)) s \<and> cd_phase s 1 = Writing CCompact \<and>
     (\<forall>u c p. cd_phase s u \<noteq> Reading c p)"
proof -
  obtain d where d: "quiet_start d" using quiet_start_exists by blast
  let ?R = "\<lambda>s. (cdb_step small_env)\<^sup>*\<^sup>* (cdb_new d (\<lambda>_. db_scratch d)) s"
  have r0: "?R (phases d {} None (\<lambda>_. Idle) [])" by (simp add: phases_def cdb_new_def)
  have r1: "?R (phases d {} None ((\<lambda>_. Idle)(1 := Asking CCompact)) [])"
    using then_step [OF r0 phases_ask [where t = 1 and c = CCompact]] by simp
  have r2: "?R (phases d {} (Some 1) ((\<lambda>_. Idle)(1 := Writing CCompact)) [])"
    using then_step [OF r1 phases_exclude [where t = 1 and c = CCompact]] by simp
  have "cd_phase (phases d {} (Some 1) ((\<lambda>_. Idle)(1 := Writing CCompact)) []) 1 = Writing CCompact" by (simp add: phases_def)
  from writers_exclude_readers [OF r2 this] r2 this show ?thesis by blast
qed


end
