(* ===== verification/Vdb_VectorIO.thy ===== *)
theory Vdb_VectorIO
  imports Vdb_VectorFile Vdb_FileFrame
begin

text \<open>
  Vector interchange (\<^verbatim>\<open>src/util/vector_io.cpp\<close>): the binary matrix, written and read through the file layer. The lemmas
  show that a written matrix is read back exactly, that whatever is accepted is well formed and has the size its header
  says, that damage to the header is noticed and damage to the rows is not.
\<close>

section \<open>The format\<close>

definition kVectorMatrixMagic :: string where
  "kVectorMatrixMagic = ''VDBDATA''"

definition kVectorMatrixVersion :: u32 where
  "kVectorMatrixVersion = 1"

definition kVectorMatrixHeaderSize :: nat where
  "kVectorMatrixHeaderSize = 32"

definition kMatrixMagicSize :: nat where
  "kMatrixMagicSize = 8"

definition kMatrixCrcOffset :: nat where
  "kMatrixCrcOffset = 28"

definition kFlagHasIds :: u32 where
  "kFlagHasIds = 0x01"

definition kMaxMatrixBytes :: nat where
  "kMaxMatrixBytes = 64 * 1024 * 1024 * 1024"

record vector_batch =
  vb_vectors :: vector_array
  vb_ids :: "vector_id list"

record vector_matrix_info =
  mi_dimension :: nat
  mi_count :: u64
  mi_has_ids :: bool

definition read_u32_at :: "byte list \<Rightarrow> nat \<Rightarrow> u32" where
  "read_u32_at bytes offset =
     foldl (\<lambda>value i. value OR push_bit (8 * i) (ucast (bytes ! (offset + i)))) 0 [0, 1, 2, 3]"

section \<open>Writing\<close>

definition matrix_header :: "nat \<Rightarrow> nat \<Rightarrow> bool \<Rightarrow> byte list" where
  "matrix_header dimension cnt has_ids =
     (let w = put_fixed_string [] (ascii kVectorMatrixMagic) kMatrixMagicSize;
          w = put_u32 w kVectorMatrixVersion;
          w = put_u32 w (word_of_nat dimension);
          w = put_u64 w (word_of_nat cnt);
          w = put_u32 w (if has_ids then kFlagHasIds else 0) in
      put_u32 w (crc32 (take kMatrixCrcOffset w) 0))"

definition matrix_chunks :: "vector_array \<Rightarrow> vector_id list \<Rightarrow> byte list list result" where
  "matrix_chunks vectors ids =
     (if ids \<noteq> [] \<and> length ids \<noteq> va_count vectors then Inl InvalidArgumentError
      else Inr [matrix_header (va_dimension vectors) (va_count vectors) (ids \<noteq> []),
                float_bytes (take (va_count vectors * va_dimension vectors) (va_storage vectors)),
                foldl put_u64 [] ids])"

definition write_vector_matrix :: "string \<Rightarrow> vector_array \<Rightarrow> vector_id list \<Rightarrow> (world, unit) act" where
  "write_vector_matrix path vectors ids =
     abind (alift (matrix_chunks vectors ids)) (\<lambda>chunks. write_file_atomically path chunks)"

section \<open>Reading\<close>

fun push_matrix_rows :: "byte list \<Rightarrow> nat \<Rightarrow> nat list \<Rightarrow> vector_array \<Rightarrow> vector_array result" where
  "push_matrix_rows floats d [] a = Inr a"
| "push_matrix_rows floats d (i # is) a =
     rbind (va_push_back a (vf_row floats d i)) (\<lambda>(_, a). push_matrix_rows floats d is a)"

fun read_matrix_ids :: "nat \<Rightarrow> reader \<Rightarrow> vector_id list \<Rightarrow> vector_id list result" where
  "read_matrix_ids 0 r ids = Inr ids"
| "read_matrix_ids (Suc n) r ids = rbind (get_u64 r) (\<lambda>(vid, r). read_matrix_ids n r (ids @ [vid]))"

definition parse_vector_matrix :: "byte list \<Rightarrow> vector_batch result" where
  "parse_vector_matrix bytes =
     (if length bytes < kVectorMatrixHeaderSize then Inl CorruptionError
      else
        rbind (get_fixed_string (rd_new (take kVectorMatrixHeaderSize bytes)) kMatrixMagicSize) (\<lambda>(magic, r).
        rbind (guard_throw (magic \<noteq> ascii kVectorMatrixMagic) CorruptionError) (\<lambda>_.
        rbind (get_u32 r) (\<lambda>(version, r).
        rbind (guard_throw (version \<noteq> kVectorMatrixVersion)
                 (UnsupportedVersionError (unat version) (unat kVectorMatrixVersion))) (\<lambda>_.
        rbind (guard_throw (read_u32_at bytes kMatrixCrcOffset \<noteq> crc32 (take kMatrixCrcOffset bytes) 0) CorruptionError) (\<lambda>_.
        rbind (get_u32 r) (\<lambda>(dimension, r).
        rbind (guard_throw (dimension = 0 \<or> unat dimension > kMaxDimension) CorruptionError) (\<lambda>_.
        rbind (get_u64 r) (\<lambda>(cnt, r).
        rbind (guard_throw (unat cnt > kMaxVectorCount) CorruptionError) (\<lambda>_.
        rbind (get_u32 r) (\<lambda>(flags, r).
        let has_ids = (flags AND kFlagHasIds \<noteq> 0) in
        rbind (guard_throw (cnt \<noteq> 0 \<and> ucast dimension > ((- 1 :: u64) div cnt) div 4) CorruptionError) (\<lambda>_.
        let payload_bytes = cnt * ucast dimension * 4;
            id_bytes = (if has_ids then cnt * 8 else 0);
            expected = word_of_nat kVectorMatrixHeaderSize + payload_bytes + id_bytes in
        rbind (guard_throw (word_of_nat (length bytes) \<noteq> expected) CorruptionError) (\<lambda>_.
        rbind (va_new (unat dimension)) (\<lambda>a.
        rbind (push_matrix_rows (drop kVectorMatrixHeaderSize bytes) (unat dimension) [0..<unat cnt] a) (\<lambda>a.
        rbind (if has_ids
               then read_matrix_ids (unat cnt)
                      (rd_new (take (unat id_bytes) (drop (kVectorMatrixHeaderSize + unat payload_bytes) bytes))) []
               else Inr []) (\<lambda>ids.
        Inr \<lparr>vb_vectors = a, vb_ids = ids\<rparr>))))))))))))))))"

definition read_vector_matrix :: "string \<Rightarrow> (world, vector_batch) act" where
  "read_vector_matrix path = abind (read_file path kMaxMatrixBytes) (\<lambda>bytes. alift (parse_vector_matrix bytes))"

definition parse_vector_matrix_info :: "byte list \<Rightarrow> vector_matrix_info result" where
  "parse_vector_matrix_info prefix =
     rbind (get_fixed_string (rd_new prefix) kMatrixMagicSize) (\<lambda>(magic, r).
     rbind (guard_throw (magic \<noteq> ascii kVectorMatrixMagic) CorruptionError) (\<lambda>_.
     rbind (get_u32 r) (\<lambda>(version, r).
     rbind (guard_throw (version \<noteq> kVectorMatrixVersion)
              (UnsupportedVersionError (unat version) (unat kVectorMatrixVersion))) (\<lambda>_.
     rbind (get_u32 r) (\<lambda>(dimension, r).
     rbind (get_u64 r) (\<lambda>(cnt, r).
     rbind (get_u32 r) (\<lambda>(flags, r).
     Inr \<lparr>mi_dimension = unat dimension, mi_count = cnt, mi_has_ids = (flags AND kFlagHasIds \<noteq> 0)\<rparr>)))))))"

definition read_vector_matrix_info :: "string \<Rightarrow> (world, vector_matrix_info) act" where
  "read_vector_matrix_info path =
     abind (read_file_prefix path kVectorMatrixHeaderSize) (\<lambda>prefix. alift (parse_vector_matrix_info prefix))"

lemmas matrix_consts = kVectorMatrixMagic_def kVectorMatrixVersion_def kVectorMatrixHeaderSize_def kMatrixMagicSize_def
  kMatrixCrcOffset_def

section \<open>What a header says\<close>

lemma read_u32_at_de32: "offset + 4 \<le> length bytes \<Longrightarrow> read_u32_at bytes offset = de32 (take 4 (drop offset bytes))"
  by (simp add: read_u32_at_def de32_def nth_drop numeral_3_eq_3 or.assoc)

lemma matrix_header_bytes:
  "matrix_header d n b = (let h = ascii ''VDBDATA'' @ [0] @ le32 1 @ le32 (word_of_nat d) @ le64 (word_of_nat n) @ le32 (if b then 1 else 0) in
     h @ le32 (crc32 h 0))"
  by (simp add: matrix_header_def matrix_consts put_fixed_string_def put_le kFlagHasIds_def Let_def ascii_def)

lemma length_matrix_header [simp]: "length (matrix_header d n b) = 32"
  by (simp add: matrix_header_bytes Let_def ascii_def)

lemma magic_read_at:
  "length m = 8 \<Longrightarrow> get_fixed_string (rd_at [] (m @ rest)) 8 = Inr (takeWhile (\<lambda>b. b \<noteq> 0) m, rd_at m rest)"
  using get_bytes_at [of m 8 "[]" rest] by (simp add: get_fixed_string_def)

text \<open>Rows and ids, once the header is accepted.\<close>

definition matrix_contents :: "nat \<Rightarrow> nat \<Rightarrow> bool \<Rightarrow> byte list \<Rightarrow> vector_batch result" where
  "matrix_contents d n has_ids rest =
     rbind (va_new d) (\<lambda>a.
     rbind (push_matrix_rows rest d [0..<n] a) (\<lambda>a.
     rbind (if has_ids then read_matrix_ids n (rd_new (take (n * 8) (drop (n * d * 4) rest))) [] else Inr []) (\<lambda>ids.
     Inr \<lparr>vb_vectors = a, vb_ids = ids\<rparr>)))"

definition matrix_size :: "u32 \<Rightarrow> u64 \<Rightarrow> u32 \<Rightarrow> nat" where
  "matrix_size d n f = 32 + unat n * unat d * 4 + (if f AND kFlagHasIds \<noteq> 0 then unat n * 8 else 0)"

lemma small_sizes:
  fixes d :: u32 and n :: u64
  assumes "unat d \<le> kMaxDimension" "unat n \<le> kMaxVectorCount"
  shows "unat (n * ucast d * 4) = unat n * unat d * 4" "unat (n * 8) = unat n * 8"
    "k < 2 ^ 64 \<Longrightarrow> word_of_nat k = word_of_nat kVectorMatrixHeaderSize + n * ucast d * 4 + (if f AND kFlagHasIds \<noteq> 0 then n * 8 else 0) \<longleftrightarrow> k = matrix_size d n f"
    "n = 0 \<or> \<not> ucast d > ((- 1 :: u64) div n) div 4"
proof -
  let ?n = "unat n" and ?d = "unat d"
  have w: "n = word_of_nat ?n" "ucast d = (word_of_nat ?d :: u64)" by simp_all
  have u: "unat (word_of_nat m :: u64) = m" if "m < 2 ^ 64" for m using that by (simp add: unat_of_nat)
  have "?n * ?d \<le> kMaxVectorCount * kMaxDimension" using assms by (intro mult_le_mono)
  then have nd: "?n * ?d < 2 ^ 49" by (simp add: kMaxVectorCount_def kMaxDimension_def)
  have n: "?n < 2 ^ 32" using assms(2) by (simp add: kMaxVectorCount_def)
  have e1: "n * ucast d * 4 = word_of_nat (?n * ?d * 4)" by (subst w(1), subst w(2)) simp
  have e2: "n * 8 = word_of_nat (?n * 8)" by (subst w(1)) simp
  show "unat (n * ucast d * 4) = ?n * ?d * 4" unfolding e1 using nd by (intro u) simp
  show "unat (n * 8) = ?n * 8" unfolding e2 using n by (intro u) simp
  show "n = 0 \<or> \<not> ucast d > ((- 1 :: u64) div n) div 4"
  proof (cases "n = 0")
    case False
    then have pos: "0 < ?n" by (simp add: unat_gt_0)
    have "?d \<le> (2 ^ 64 - 1) div ?n div 4" using nd pos by (simp add: less_eq_div_iff_mult_less_eq mult.commute mult.left_commute)
    also have "\<dots> = unat ((- 1 :: u64) div n div 4)"
      by (simp add: unat_div_distrib unsigned_minus_1_eq_mask mask_eq_exp_minus_1)
    finally have "?d \<le> unat ((- 1 :: u64) div n div 4)" .
    moreover have "unat (ucast d :: u64) = ?d" unfolding w(2) using assms(1) by (intro u) (simp add: kMaxDimension_def)
    ultimately show ?thesis by (simp add: word_less_nat_alt not_less)
  qed simp
  show "word_of_nat k = word_of_nat kVectorMatrixHeaderSize + n * ucast d * 4 + (if f AND kFlagHasIds \<noteq> 0 then n * 8 else 0) \<longleftrightarrow> k = matrix_size d n f"
    if k: "k < 2 ^ 64"
  proof -
    have "word_of_nat kVectorMatrixHeaderSize + n * ucast d * 4 + (if f AND kFlagHasIds \<noteq> 0 then n * 8 else 0) = word_of_nat (matrix_size d n f)"
      unfolding e1 e2 by (simp add: matrix_size_def kVectorMatrixHeaderSize_def)
    moreover have "matrix_size d n f < 2 ^ 64" using nd n by (simp add: matrix_size_def)
    ultimately show ?thesis using k by (metis u)
  qed
qed

lemma parse_parts:
  assumes b: "bytes = (m @ le32 ver @ le32 d @ le64 n @ le32 f) @ le32 crc @ rest" and m: "length m = 8" and len: "length bytes < 2 ^ 64"
  shows "parse_vector_matrix bytes =
    rbind (guard_throw (takeWhile (\<lambda>b. b \<noteq> 0) m \<noteq> ascii kVectorMatrixMagic) CorruptionError) (\<lambda>_.
    rbind (guard_throw (ver \<noteq> kVectorMatrixVersion) (UnsupportedVersionError (unat ver) (unat kVectorMatrixVersion))) (\<lambda>_.
    rbind (guard_throw (crc \<noteq> crc32 (m @ le32 ver @ le32 d @ le64 n @ le32 f) 0) CorruptionError) (\<lambda>_.
    rbind (guard_throw (d = 0 \<or> unat d > kMaxDimension) CorruptionError) (\<lambda>_.
    rbind (guard_throw (unat n > kMaxVectorCount) CorruptionError) (\<lambda>_.
    rbind (guard_throw (length bytes \<noteq> matrix_size d n f) CorruptionError) (\<lambda>_.
    matrix_contents (unat d) (unat n) (f AND kFlagHasIds \<noteq> 0) rest))))))"
proof -
  have rd: "rd_new (take 32 bytes) = rd_at [] (m @ le32 ver @ le32 d @ le64 n @ le32 f @ le32 crc @ [])" using m by (simp add: b rd_new_at)
  have sz: "\<not> length bytes < 32" "take 28 bytes = m @ le32 ver @ le32 d @ le64 n @ le32 f" "take 4 (drop 28 bytes) = le32 crc" "drop 32 bytes = rest"
    using m by (simp_all add: b)
  have u: "read_u32_at bytes 28 = crc" using sz by (subst read_u32_at_de32) auto
  have c: "(length bytes < kVectorMatrixHeaderSize) = False" "take kMatrixCrcOffset bytes = m @ le32 ver @ le32 d @ le64 n @ le32 f"
    "rd_new (take kVectorMatrixHeaderSize bytes) = rd_at [] (m @ le32 ver @ le32 d @ le64 n @ le32 f @ le32 crc @ [])"
    "read_u32_at bytes kMatrixCrcOffset = crc" "drop kVectorMatrixHeaderSize bytes = rest"
    using rd sz u by (simp_all add: kVectorMatrixHeaderSize_def kMatrixCrcOffset_def)
  note z = small_sizes [of d n]
  have dr: "drop (kVectorMatrixHeaderSize + k) bytes = drop k rest" for k using m by (simp add: b kVectorMatrixHeaderSize_def)
  have rest: "rbind (guard_throw (n \<noteq> 0 \<and> ucast d > ((- 1 :: u64) div n) div 4) CorruptionError) (\<lambda>_.
        rbind (guard_throw (word_of_nat (length bytes) \<noteq> word_of_nat kVectorMatrixHeaderSize + n * ucast d * 4 + (if f AND kFlagHasIds \<noteq> 0 then n * 8 else 0)) CorruptionError) (\<lambda>_.
        rbind (va_new (unat d)) (\<lambda>a.
        rbind (push_matrix_rows rest (unat d) [0..<unat n] a) (\<lambda>a.
        rbind (if f AND kFlagHasIds \<noteq> 0
               then read_matrix_ids (unat n)
                      (rd_new (take (unat (if f AND kFlagHasIds \<noteq> 0 then n * 8 else 0)) (drop (kVectorMatrixHeaderSize + unat (n * ucast d * 4)) bytes))) []
               else Inr []) (\<lambda>ids.
        Inr \<lparr>vb_vectors = a, vb_ids = ids\<rparr>))))) =
      rbind (guard_throw (length bytes \<noteq> matrix_size d n f) CorruptionError) (\<lambda>_. matrix_contents (unat d) (unat n) (f AND kFlagHasIds \<noteq> 0) rest)"
    if "unat d \<le> kMaxDimension" "unat n \<le> kMaxVectorCount"
  proof -
    have "(n \<noteq> 0 \<and> ucast d > ((- 1 :: u64) div n) div 4) = False" using z(4) [OF that] by blast
    then show ?thesis unfolding z(3) [OF that len] dr z(1) [OF that] matrix_contents_def
      by (cases "f AND kFlagHasIds \<noteq> 0") (simp_all only: z(2) [OF that] guard_throw_simps if_True if_False rbind_simps not_True_eq_False not_False_eq_True HOL.simp_thms)
  qed
  have g: "rbind (guard_throw c e) F = rbind (guard_throw c e) G" if "\<not> c \<Longrightarrow> F () = G ()" for c e and F G :: "unit \<Rightarrow> vector_batch result"
    using that by (auto simp: guard_throw_def)
  show ?thesis
    unfolding parse_vector_matrix_def kMatrixMagicSize_def c if_False
    by (simp only: magic_read_at [OF m] get_u32_at get_u64_at rbind_simps prod.case Let_def) (intro g rest, auto)
qed

section \<open>Rows and ids\<close>

lemma push_rows:
  "va_dimension a = d \<Longrightarrow> va_count a + length is \<le> kMaxVectorCount \<Longrightarrow>
   push_matrix_rows fl d is a = Inr (a\<lparr>va_storage := va_storage a @ concat (map (vf_row fl d) is), va_count := va_count a + length is\<rparr>)"
proof (induction "is" arbitrary: a)
  case (Cons i "is")
  then show ?case by (simp add: va_push_back_def vf_row_def)
qed simp

lemma concat_rows: "n * d \<le> length xs \<Longrightarrow> concat (map (vf_row (float_bytes xs @ rest) d) [0..<n]) = take (n * d) xs"
proof (induction n)
  case (Suc n)
  then show ?case by (simp add: vf_row_block block_def add.commute flip: take_add)
qed simp

lemma read_ids: "read_matrix_ids (length vs) (rd_at pre (concat (map le64 vs) @ rest)) acc = Inr (acc @ vs)"
  by (induction vs arbitrary: pre acc) simp_all

lemma contents_ok:
  assumes "0 < d" "d \<le> kMaxDimension" "n \<le> kMaxVectorCount" "length xs = n * d" "length ids = (if has_ids then n else 0)"
  shows "matrix_contents d n has_ids (float_bytes xs @ concat (map le64 ids)) =
    Inr \<lparr>vb_vectors = \<lparr>va_dimension = d, va_count = n, va_storage = xs\<rparr>, vb_ids = ids\<rparr>"
proof -
  have "length (concat (map le64 ids)) = length ids * 8" by (rule u64.length_array)
  then have ids: "take (n * 8) (concat (map le64 ids)) = concat (map le64 ids)" if has_ids using assms(5) that by simp
  have "read_matrix_ids (length ids) (rd_new (concat (map le64 ids))) [] = Inr ids"
    using read_ids [of ids "[]" "[]" "[]"] by (simp add: rd_new_at)
  then show ?thesis using assms ids by (auto simp: matrix_contents_def va_new_def push_rows concat_rows mult.commute)
qed

lemma some_floats: "length bs = 4 * k \<Longrightarrow> \<exists>xs. bs = float_bytes xs \<and> length xs = k"
proof (induction k arbitrary: bs)
  case (Suc k)
  then obtain v where v: "take 4 bs = le32 v" using le32_surj [of "take 4 bs"] by auto
  obtain xs where "drop 4 bs = float_bytes xs" "length xs = k" using Suc.IH [of "drop 4 bs"] Suc.prems by auto
  then show ?case using v append_take_drop_id [of 4 bs] by (intro exI [of _ "v # xs"]) (simp add: float_bytes_def)
qed (simp add: float_bytes_def)

lemma some_ids: "length bs = 8 * k \<Longrightarrow> \<exists>xs. bs = concat (map le64 xs) \<and> length xs = k"
proof (induction k arbitrary: bs)
  case (Suc k)
  then obtain v where v: "take 8 bs = le64 v" using le64_surj [of "take 8 bs"] by auto
  obtain xs where "drop 8 bs = concat (map le64 xs)" "length xs = k" using Suc.IH [of "drop 8 bs"] Suc.prems by auto
  then show ?case using v append_take_drop_id [of 8 bs] by (intro exI [of _ "v # xs"]) simp
qed simp

lemma rows_and_ids:
  assumes l: "length bs = 4 * j + 8 * k"
  obtains xs ids where "bs = float_bytes xs @ concat (map le64 ids)" "length xs = j" "length ids = k"
proof -
  obtain xs where xs: "take (4 * j) bs = float_bytes xs" "length xs = j" using some_floats [of "take (4 * j) bs" j] l by auto
  obtain ids where ids: "drop (4 * j) bs = concat (map le64 ids)" "length ids = k" using some_ids [of "drop (4 * j) bs" k] l by auto
  have "bs = float_bytes xs @ concat (map le64 ids)" using xs(1) ids(1) append_take_drop_id by metis
  then show ?thesis using that xs(2) ids(2) by blast
qed

lemma header_split:
  assumes "32 \<le> length bytes"
  obtains m ver d n f crc where "bytes = (m @ le32 ver @ le32 d @ le64 n @ le32 f) @ le32 crc @ drop 32 bytes" "length m = 8"
proof -
  let ?p = "\<lambda>k n. take n (drop k bytes)"
  have l: "length (?p 8 4) = 4" "length (?p 12 4) = 4" "length (?p 16 8) = 8" "length (?p 24 4) = 4" "length (?p 28 4) = 4" using assms by simp_all
  obtain ver d n f crc where e: "?p 8 4 = le32 ver" "?p 12 4 = le32 d" "?p 16 8 = le64 n" "?p 24 4 = le32 f" "?p 28 4 = le32 crc"
    using le32_surj [OF l(1)] le32_surj [OF l(2)] le64_surj [OF l(3)] le32_surj [OF l(4)] le32_surj [OF l(5)] by blast
  have "drop k bytes = ?p k n @ drop (k + n) bytes" for k n using append_take_drop_id [of n "drop k bytes"] by (simp add: add.commute)
  from this [of 0 8] this [of 8 4] this [of 12 4] this [of 16 8] this [of 24 4] this [of 28 4]
  have "bytes = (take 8 bytes @ le32 ver @ le32 d @ le64 n @ le32 f) @ le32 crc @ drop 32 bytes" unfolding e by simp
  then show ?thesis using that assms by simp
qed

text \<open>Everything an accepted matrix tells about its bytes.\<close>

lemma matrix_accepts:
  assumes ok: "parse_vector_matrix bytes = Inr b" and len: "length bytes < 2 ^ 64"
  obtains m d n f xs ids where
    "bytes = (m @ le32 kVectorMatrixVersion @ le32 d @ le64 n @ le32 f) @ le32 (crc32 (m @ le32 kVectorMatrixVersion @ le32 d @ le64 n @ le32 f) 0) @
       float_bytes xs @ concat (map le64 ids)"
    "length m = 8" "takeWhile (\<lambda>b. b \<noteq> 0) m = ascii kVectorMatrixMagic" "d \<noteq> 0" "unat d \<le> kMaxDimension" "unat n \<le> kMaxVectorCount"
    "length xs = unat n * unat d" "length ids = (if f AND kFlagHasIds \<noteq> 0 then unat n else 0)"
    "b = \<lparr>vb_vectors = \<lparr>va_dimension = unat d, va_count = unat n, va_storage = xs\<rparr>, vb_ids = ids\<rparr>"
proof -
  have "32 \<le> length bytes" using ok by (simp add: parse_vector_matrix_def kVectorMatrixHeaderSize_def split: if_splits)
  then obtain m ver d n f crc where e: "bytes = (m @ le32 ver @ le32 d @ le64 n @ le32 f) @ le32 crc @ drop 32 bytes" "length m = 8"
    by (rule header_split)
  note p = ok [unfolded parse_parts [OF e len]]
  have g: "takeWhile (\<lambda>b. b \<noteq> 0) m = ascii kVectorMatrixMagic" "ver = kVectorMatrixVersion"
    "crc = crc32 (m @ le32 ver @ le32 d @ le64 n @ le32 f) 0" "d \<noteq> 0" "unat d \<le> kMaxDimension" "unat n \<le> kMaxVectorCount"
    "length bytes = matrix_size d n f" and c: "matrix_contents (unat d) (unat n) (f AND kFlagHasIds \<noteq> 0) (drop 32 bytes) = Inr b"
    using p by (auto simp: result_simps)
  let ?k = "if f AND kFlagHasIds \<noteq> 0 then unat n else 0" and ?r = "drop 32 bytes"
  have l: "length ?r = 4 * (unat n * unat d) + 8 * ?k" using g(7) by (simp add: matrix_size_def)
  obtain xs ids where r: "?r = float_bytes xs @ concat (map le64 ids)" and xs: "length xs = unat n * unat d" and ids: "length ids = ?k"
    by (rule rows_and_ids [OF l])
  have "0 < unat d" using g(4) by (simp add: unat_gt_0)
  from contents_ok [OF this g(5,6) xs ids] c r have "b = \<lparr>vb_vectors = \<lparr>va_dimension = unat d, va_count = unat n, va_storage = xs\<rparr>, vb_ids = ids\<rparr>"
    by simp
  then show ?thesis using that [of m d n f xs ids] e g r xs ids by simp
qed

text \<open>What is written is accepted.\<close>

lemma written_matrix:
  assumes inv: "va_inv v" and c: "matrix_chunks v ids = Inr cs" and len: "length (concat cs) < 2 ^ 64"
  shows "parse_vector_matrix (concat cs) = Inr \<lparr>vb_vectors = v, vb_ids = ids\<rparr>"
proof -
  let ?d = "word_of_nat (va_dimension v) :: u32" and ?n = "word_of_nat (va_count v) :: u64" and ?f = "if ids \<noteq> [] then 1 else 0 :: u32"
  let ?m = "ascii ''VDBDATA'' @ [0]" and ?r = "float_bytes (va_storage v) @ concat (map le64 ids)"
  let ?h = "?m @ le32 1 @ le32 ?d @ le64 ?n @ le32 ?f"
  have i: "0 < va_dimension v" "va_dimension v \<le> kMaxDimension" "va_count v \<le> kMaxVectorCount" "length (va_storage v) = va_count v * va_dimension v"
    using inv by (simp_all add: va_inv_def)
  have u: "unat ?d = va_dimension v" "unat ?n = va_count v" using i by (simp_all add: unat_of_nat kMaxDimension_def kMaxVectorCount_def)
  have put: "foldl put_u64 acc xs = acc @ concat (map le64 xs)" for acc xs by (induction xs arbitrary: acc) (simp_all add: put_le)
  have ids: "ids = [] \<or> length ids = va_count v" using c by (auto simp: matrix_chunks_def split: if_splits)
  have cs: "concat cs = ?h @ le32 (crc32 ?h 0) @ ?r"
    using c i by (auto simp: matrix_chunks_def matrix_header_bytes Let_def put split: if_splits)
  have m: "length ?m = 8" "takeWhile (\<lambda>b. b \<noteq> 0) ?m = ascii kVectorMatrixMagic" by (simp_all add: ascii_def kVectorMatrixMagic_def)
  have f: "(?f AND kFlagHasIds \<noteq> 0) = (ids \<noteq> [])" by (simp add: kFlagHasIds_def)
  have dz: "?d \<noteq> 0" using u(1) i(1) by (metis unat_0 less_irrefl)
  have l: "length (concat cs) = matrix_size ?d ?n ?f"
    using m(1) u i(4) ids by (auto simp: cs matrix_size_def f u64.length_array)
  have k: "length ids = (if ids \<noteq> [] then va_count v else 0)" using ids by auto
  have "matrix_contents (va_dimension v) (va_count v) (ids \<noteq> []) ?r = Inr \<lparr>vb_vectors = v, vb_ids = ids\<rparr>"
    using contents_ok [OF i k] by simp
  then show ?thesis
    using parse_parts [OF _ m(1) len, of 1 ?d ?n ?f] m(2) dz i u l f by (simp add: cs kVectorMatrixVersion_def)
qed

section \<open>Files\<close>

lemma quiet_read_file:
  assumes q: "quiet w" and v: "visible w path = Some bs" and len: "length bs \<le> max_bytes"
  obtains w' where "read_file path max_bytes w = (Inr bs, w')"
proof -
  obtain i where i: "w_dir w path = Some i" "w_data w i = bs" using v by (auto simp: visible_def split: option.splits)
  have s: "sys_stat_size path w = (Done (length bs), w)" using i by (simp add: sys_stat_size_def quiet_call [OF q])
  obtain fd w1 where o: "sys_open path w = (Done fd, w1)" "w_fds w1 fd = Some (i, 0)" "w_data w1 i = bs" "quiet w1"
    using i q by (auto simp: sys_open_def quiet_call [OF q] sys_open_fd_def)
  have loop: "\<exists>w2. read_loop fd (length bs) [] w1 = (Inr bs, w2)"
  proof (cases "bs = []")
    case True
    then show ?thesis by (simp add: read_loop.simps)
  next
    case False
    have "\<exists>w2. sys_read fd (length bs) w1 = (Done bs, w2)" using o(2,3) by (simp add: sys_read_def quiet_call [OF o(4)])
    then show ?thesis using False by (subst read_loop.simps) (auto simp: read_loop.simps)
  qed
  then obtain w2 where "read_loop fd (length bs) [] w1 = (Inr bs, w2)" by blast
  then have "read_file path max_bytes w = (Inr bs, close_guard fd w2)"
    using s o(1) len by (simp add: read_file_def read_prefix_of_def abind_step or_io_error_def afinally_def)
  then show ?thesis by (rule that)
qed

lemma max_matrix_64: "length bs \<le> kMaxMatrixBytes \<Longrightarrow> length bs < 2 ^ 64"
  by (simp add: kMaxMatrixBytes_def)

lemma write_matrix_visible:
  assumes "write_vector_matrix path v ids w = (Inr (), w')" and "world_ok w"
  obtains cs where "matrix_chunks v ids = Inr cs" "visible w' path = Some (concat cs)"
proof -
  obtain cs where cs: "matrix_chunks v ids = Inr cs" using assms(1) by (auto simp: write_vector_matrix_def act_inv alift_def)
  then have "write_file_atomically path cs w = (Inr (), w')" using assms(1) by (simp add: write_vector_matrix_def abind_def)
  from write_atomically_visible [OF this assms(2)] show ?thesis using cs that by blast
qed

lemma matrix_round_trip:
  assumes "world_ok w" and "va_inv v" and "write_vector_matrix path v ids w = (Inr (), w1)"
    and "32 + 4 * (va_count v * va_dimension v) + 8 * length ids \<le> kMaxMatrixBytes"
    and "visible w2 path = visible w1 path" and "read_vector_matrix path w2 = (r, w3)"
  shows "(\<forall>b. r = Inr b \<longrightarrow> b = \<lparr>vb_vectors = v, vb_ids = ids\<rparr>) \<and> (quiet w2 \<longrightarrow> r = Inr \<lparr>vb_vectors = v, vb_ids = ids\<rparr>)"
proof -
  obtain cs where cs: "matrix_chunks v ids = Inr cs" "visible w1 path = Some (concat cs)" by (rule write_matrix_visible [OF assms(3,1)])
  have "foldl put_u64 acc xs = acc @ concat (map le64 xs)" for acc xs by (induction xs arbitrary: acc) (simp_all add: put_le)
  then have len: "length (concat cs) \<le> kMaxMatrixBytes"
    using cs(1) assms(2,4) by (auto simp: matrix_chunks_def va_inv_def u64.length_array split: if_splits)
  note p = written_matrix [OF assms(2) cs(1) max_matrix_64 [OF len]]
  obtain q w' where f: "read_file path kMaxMatrixBytes w2 = (q, w')" by fastforce
  have q: "bs = concat cs" if "q = Inr bs" for bs using read_file_whole [OF f] that cs(2) assms(5) by simp
  have r: "r = rbind q parse_vector_matrix" using assms(6) f by (auto simp: read_vector_matrix_def abind_def rbind_def split: sum.splits)
  have "q = Inr (concat cs)" if "quiet w2"
    using quiet_read_file [OF that _ len, of path] cs(2) assms(5) f by fastforce
  then show ?thesis using q p r by (cases q) auto
qed

lemmas matrix_read_back = conjunct1 [OF matrix_round_trip, rule_format]

section \<open>Properties\<close>

text \<open>C27: A matrix written to a file of at most 64 GiB, the reader's limit, is read back exactly, vectors bit for bit and ids in
  order, by whatever process finds the file as it was left, and reading fails only if the operating system does.\<close>

theorem vector_matrix_round_trip:
  assumes "world_ok w" and "va_inv v" and "write_vector_matrix path v ids w = (Inr (), w1)"
    and "32 + 4 * (va_count v * va_dimension v) + 8 * length ids \<le> kMaxMatrixBytes"
    and "visible w2 path = visible w1 path" and "read_vector_matrix path w2 = (r, w3)"
  shows "(\<forall>b. r = Inr b \<longrightarrow> b = \<lparr>vb_vectors = v, vb_ids = ids\<rparr>) \<and> (quiet w2 \<longrightarrow> r = Inr \<lparr>vb_vectors = v, vb_ids = ids\<rparr>)"
  by (rule matrix_round_trip [OF assms])

text \<open>Further: A matrix that is accepted is well formed, and it is all of the file: after the header come exactly the floats of its
  vectors and its ids, of which there are none or one for each vector.\<close>

theorem accepted_matrix_is_whole_file:
  assumes "read_vector_matrix path w = (Inr b, w')"
  shows "va_inv (vb_vectors b) \<and> (vb_ids b = [] \<or> length (vb_ids b) = va_count (vb_vectors b)) \<and>
    (\<exists>header. length header = 32 \<and>
      visible w path = Some (header @ float_bytes (va_storage (vb_vectors b)) @ concat (map le64 (vb_ids b))))"
proof -
  obtain bytes where f: "read_file path kMaxMatrixBytes w = (Inr bytes, w')" and p: "parse_vector_matrix bytes = Inr b"
    using assms by (auto simp: read_vector_matrix_def act_inv alift_def)
  have v: "visible w path = Some bytes" "length bytes \<le> kMaxMatrixBytes" using read_file_whole [OF f] by simp_all
  from matrix_accepts [OF p max_matrix_64 [OF v(2)]] show ?thesis
  proof cases
    case (1 m d n f xs ids)
    have "0 < unat d" using 1(4) by (simp add: unat_gt_0)
    then have "va_inv (vb_vectors b)" "vb_ids b = [] \<or> length (vb_ids b) = va_count (vb_vectors b)" using 1 by (auto simp: va_inv_def split: if_splits)
    moreover have "length ((m @ le32 kVectorMatrixVersion @ le32 d @ le64 n @ le32 f) @ le32 (crc32 (m @ le32 kVectorMatrixVersion @ le32 d @ le64 n @ le32 f) 0)) = 32"
      using 1(2) by simp
    ultimately show ?thesis using 1(1,9) v(1) by (intro conjI exI [of _ "(m @ le32 kVectorMatrixVersion @ le32 d @ le64 n @ le32 f) @
        le32 (crc32 (m @ le32 kVectorMatrixVersion @ le32 d @ le64 n @ le32 f) 0)"]) simp_all
  qed
qed

text \<open>Further: Damage to any one byte of the header of an accepted matrix, the checksum included, makes the reader refuse it.\<close>

theorem matrix_header_damage:
  assumes "parse_vector_matrix bytes = Inr b" and "length bytes < 2 ^ 64" and "k < 32" and "x \<noteq> bytes ! k"
  shows "\<exists>e. parse_vector_matrix (bytes[k := x]) = Inl e"
proof (cases "parse_vector_matrix (bytes[k := x])")
  case (Inr b')
  have crc: "32 \<le> length bs \<and> de32 (take 4 (drop 28 bs)) = crc32 (take 28 bs) 0"
    if "parse_vector_matrix bs = Inr c" "length bs < 2 ^ 64" for bs c
    using that by (rule matrix_accepts) simp
  have "length (bytes[k := x]) < 2 ^ 64" using assms(2) by simp
  from crc [OF assms(1,2)] crc [OF Inr this] trailing_crc_sensitive [of 28 bytes k x] assms(3,4) show ?thesis by simp
qed simp

text \<open>Further: The checksum covers the header alone: any other bytes of the same length in place of the vectors and the ids are
  accepted as they are.\<close>

theorem matrix_rows_unprotected:
  assumes "parse_vector_matrix (header @ rest) = Inr b" and "length header = 32" and "length rest' = length rest"
    and "length (header @ rest) < 2 ^ 64"
  shows "\<exists>b'. parse_vector_matrix (header @ rest') = Inr b' \<and> va_count (vb_vectors b') = va_count (vb_vectors b) \<and>
    float_bytes (va_storage (vb_vectors b')) @ concat (map le64 (vb_ids b')) = rest'"
proof -
  obtain m ver d n f crc where e: "header = (m @ le32 ver @ le32 d @ le64 n @ le32 f) @ le32 crc @ drop 32 header" "length m = 8"
    by (rule header_split [of header]) (use assms(2) in simp_all)
  have h: "header @ x = (m @ le32 ver @ le32 d @ le64 n @ le32 f) @ le32 crc @ x" for x using e assms(2) by simp
  have len: "length (header @ rest') < 2 ^ 64" using assms(3,4) by simp
  note p = parse_parts [OF h e(2) assms(4)] and p' = parse_parts [OF h e(2) len]
  have g: "d \<noteq> 0" "unat d \<le> kMaxDimension" "unat n \<le> kMaxVectorCount" "length (header @ rest) = matrix_size d n f"
    and c: "matrix_contents (unat d) (unat n) (f AND kFlagHasIds \<noteq> 0) rest = Inr b"
    using assms(1) unfolding p by (auto simp: result_simps)
  have same: "parse_vector_matrix (header @ rest') = matrix_contents (unat d) (unat n) (f AND kFlagHasIds \<noteq> 0) rest'"
    using assms(1,3) unfolding p p' by (auto simp: result_simps)
  have cnt: "\<exists>b. matrix_contents (unat d) (unat n) (f AND kFlagHasIds \<noteq> 0) r = Inr b \<and> va_count (vb_vectors b) = unat n \<and>
      float_bytes (va_storage (vb_vectors b)) @ concat (map le64 (vb_ids b)) = r" if r: "length r = length rest" for r
  proof -
    let ?k = "if f AND kFlagHasIds \<noteq> 0 then unat n else 0"
    have l: "length r = 4 * (unat n * unat d) + 8 * ?k" using g(4) r assms(2) by (simp add: matrix_size_def)
    obtain xs ids where x: "r = float_bytes xs @ concat (map le64 ids)" "length xs = unat n * unat d" "length ids = ?k"
      by (rule rows_and_ids [OF l])
    have "0 < unat d" using g(1) by (simp add: unat_gt_0)
    from contents_ok [OF this g(2,3) x(2,3)] show ?thesis by (simp add: x(1))
  qed
  from cnt [of rest] cnt [OF assms(3)] c same show ?thesis by auto
qed

section \<open>Examples\<close>

definition small_matrix :: vector_array where
  "small_matrix = \<lparr>va_dimension = 1, va_count = 2, va_storage = [0, 1]\<rparr>"

definition blank_world :: world where
  "blank_world = \<lparr>w_dir = Map.empty, w_dir_disk = Map.empty, w_data = (\<lambda>_. []), w_data_disk = (\<lambda>_. None), w_next = 0,
     w_fds = Map.empty, w_next_fd = 0, w_outcomes = [], w_stopped = False\<rparr>"

lemma small_matrix_ok: "va_inv small_matrix"
  by (simp add: small_matrix_def va_inv_def kMaxDimension_def kMaxVectorCount_def)

lemma small_matrix_written:
  obtains w where "write_vector_matrix ''v'' small_matrix [5, 6] blank_world = (Inr (), w)" "quiet w" "world_ok blank_world"
proof -
  have ok: "quiet blank_world" "world_ok blank_world" by (auto simp: blank_world_def quiet_def world_ok_def)
  obtain cs where cs: "matrix_chunks small_matrix [5, 6] = Inr cs" by (simp add: matrix_chunks_def small_matrix_def)
  obtain w where "write_file_atomically ''v'' cs blank_world = (Inr (), w)" "quiet w" by (rule quiet_replacement [OF ok])
  then show ?thesis using that ok cs by (simp add: write_vector_matrix_def abind_def)
qed

lemma small_matrix_parses:
  obtains header rest where "parse_vector_matrix (header @ rest) = Inr \<lparr>vb_vectors = small_matrix, vb_ids = [5, 6]\<rparr>"
    "length header = 32" "length rest = 24"
proof -
  let ?h = "matrix_header 1 2 True" and ?r = "float_bytes [0, 1] @ foldl put_u64 [] [5, 6]"
  have c: "matrix_chunks small_matrix [5, 6] = Inr [?h, float_bytes [0, 1], foldl put_u64 [] [5, 6]]"
    by (simp add: matrix_chunks_def small_matrix_def)
  have l: "length ?r = 24" by (simp add: put_le)
  from written_matrix [OF small_matrix_ok c] l show ?thesis by (intro that [of ?h ?r]) simp_all
qed

lemma vector_matrix_round_trip_witness:
  "\<exists>w r w'. write_vector_matrix ''v'' small_matrix [5, 6] blank_world = (Inr (), w) \<and> read_vector_matrix ''v'' w = (r, w') \<and>
     r = Inr \<lparr>vb_vectors = small_matrix, vb_ids = [5, 6]\<rparr>"
proof -
  obtain w where w: "write_vector_matrix ''v'' small_matrix [5, 6] blank_world = (Inr (), w)" "quiet w" "world_ok blank_world"
    by (rule small_matrix_written)
  obtain r w' where r: "read_vector_matrix ''v'' w = (r, w')" by fastforce
  have "32 + 4 * (va_count small_matrix * va_dimension small_matrix) + 8 * length [5, 6 :: u64] \<le> kMaxMatrixBytes"
    by (simp add: small_matrix_def kMaxMatrixBytes_def)
  from vector_matrix_round_trip [OF w(3) small_matrix_ok w(1) this refl r] w(1,2) r show ?thesis by blast
qed

lemma accepted_matrix_is_whole_file_witness:
  "\<exists>w b w' header. read_vector_matrix ''v'' w = (Inr b, w') \<and> vb_ids b = [5, 6] \<and> length header = 32 \<and>
     visible w ''v'' = Some (header @ float_bytes [0, 1] @ le64 5 @ le64 6)"
proof -
  obtain w where w: "write_vector_matrix ''v'' small_matrix [5, 6] blank_world = (Inr (), w)" "quiet w" "world_ok blank_world"
    by (rule small_matrix_written)
  obtain cs where cs: "matrix_chunks small_matrix [5, 6] = Inr cs" "visible w ''v'' = Some (concat cs)"
    by (rule write_matrix_visible [OF w(1,3)])
  have len: "length (concat cs) \<le> kMaxMatrixBytes" using cs(1)
    by (auto simp: matrix_chunks_def small_matrix_def kMaxMatrixBytes_def put_le split: if_splits)
  obtain w' where "read_file ''v'' kMaxMatrixBytes w = (Inr (concat cs), w')" by (rule quiet_read_file [OF w(2) cs(2) len])
  then have r: "read_vector_matrix ''v'' w = (Inr \<lparr>vb_vectors = small_matrix, vb_ids = [5, 6]\<rparr>, w')"
    using written_matrix [OF small_matrix_ok cs(1) max_matrix_64 [OF len]] by (simp add: read_vector_matrix_def abind_def)
  from accepted_matrix_is_whole_file [OF this] obtain header where "length header = 32"
    "visible w ''v'' = Some (header @ float_bytes [0, 1] @ le64 5 @ le64 6)" by (auto simp: small_matrix_def)
  then show ?thesis using r by (intro exI [of _ w] exI [of _ "\<lparr>vb_vectors = small_matrix, vb_ids = [5, 6]\<rparr>"] exI [of _ w'] exI [of _ header]) simp
qed

lemma matrix_header_damage_witness:
  "\<exists>bytes b e. parse_vector_matrix bytes = Inr b \<and> parse_vector_matrix (bytes[12 := bytes ! 12 + 1]) = Inl e"
proof -
  obtain h r where p: "parse_vector_matrix (h @ r) = Inr \<lparr>vb_vectors = small_matrix, vb_ids = [5, 6]\<rparr>" "length h = 32" "length r = 24"
    by (rule small_matrix_parses)
  have l: "length (h @ r) < 2 ^ 64" using p by simp
  have x: "(h @ r) ! 12 + 1 \<noteq> (h @ r) ! 12" by simp
  from matrix_header_damage [OF p(1) l _ x] p(1) show ?thesis by fastforce
qed

lemma matrix_rows_unprotected_witness:
  "\<exists>h r b b'. parse_vector_matrix (h @ r) = Inr b \<and> parse_vector_matrix (h @ replicate 24 7) = Inr b' \<and> va_count (vb_vectors b') = 2"
proof -
  obtain h r where p: "parse_vector_matrix (h @ r) = Inr \<lparr>vb_vectors = small_matrix, vb_ids = [5, 6]\<rparr>" "length h = 32" "length r = 24"
    by (rule small_matrix_parses)
  have l: "length (h @ r) < 2 ^ 64" "length (replicate 24 7 :: byte list) = length r" using p by simp_all
  from matrix_rows_unprotected [OF p(1,2) l(2,1)] p(1) show ?thesis by (auto simp: small_matrix_def)
qed

end
