(* ===== verification/Vdb_VectorText.thy ===== *)
theory Vdb_VectorText
  imports Vdb_VectorIO Vdb_Filter
begin

text \<open>
  The text forms of vectors (\<^verbatim>\<open>src/util/vector_io.cpp\<close>): CSV files and the literals of the command line. Printing a float with
  nine digits and \<^verbatim>\<open>std::stof\<close> are parameters; \<^verbatim>\<open>std::getline\<close> is modelled.
\<close>

section \<open>The standard library\<close>

text \<open>
  \<open>tf_show\<close> is what the stream prints with precision 9; \<open>tf_stof\<close> gives the value and the number of characters used, or
  \<open>None\<close> where \<^verbatim>\<open>std::stof\<close> throws.
\<close>

record text_format =
  tf_show :: "f32 \<Rightarrow> string"
  tf_stof :: "string \<Rightarrow> (f32 \<times> nat) option"

text \<open>The pieces \<^verbatim>\<open>std::getline\<close> takes from a stream until it fails: nothing follows a final separator.\<close>

function getlines :: "char \<Rightarrow> string \<Rightarrow> string list" where
  "getlines sep s =
     (if s = [] then []
      else takeWhile (\<lambda>c. c \<noteq> sep) s # getlines sep (drop (Suc (length (takeWhile (\<lambda>c. c \<noteq> sep) s))) s))"
  by pat_completeness auto
termination by (relation "measure (\<lambda>(sep, s). length s)") auto

declare getlines.simps [simp del]

section \<open>Writing CSV\<close>

fun join :: "string \<Rightarrow> string list \<Rightarrow> string" where
  "join sep [] = []"
| "join sep [x] = x"
| "join sep (x # xs) = x @ sep @ join sep xs"

definition newline :: char where
  "newline = CHR 0x0A"

definition csv_header :: "vector_array \<Rightarrow> bool \<Rightarrow> string" where
  "csv_header vectors has_ids =
     ''# VectorDB CSV: '' @ (if has_ids then ''id,'' else '''') @ ''dimension '' @ show_nat (va_dimension vectors)"

definition csv_row :: "text_format \<Rightarrow> vector_array \<Rightarrow> vector_id list \<Rightarrow> local_id \<Rightarrow> string" where
  "csv_row tf vectors ids i =
     (if ids \<noteq> [] then show_nat (unat (ids ! i)) @ '','' else '''') @ join '','' (map (tf_show tf) (va_view vectors i))"

text \<open>The stream may fail to open, and may fail while it is written.\<close>

definition write_vector_csv :: "text_format \<Rightarrow> bool \<Rightarrow> bool \<Rightarrow> vector_array \<Rightarrow> vector_id list \<Rightarrow> string result" where
  "write_vector_csv tf opens writes vectors ids =
     rbind (guard_throw (ids \<noteq> [] \<and> length ids \<noteq> va_count vectors) InvalidArgumentError) (\<lambda>_.
     rbind (guard_throw (\<not> opens) IoError) (\<lambda>_.
     let file = csv_header vectors (ids \<noteq> []) @ [newline];
         file = file @ concat (map (\<lambda>i. csv_row tf vectors ids i @ [newline]) [0..<va_count vectors]) in
     rbind (guard_throw (\<not> writes) IoError) (\<lambda>_. Inr file)))"

section \<open>Reading CSV\<close>

definition is_csv_blank :: "char \<Rightarrow> bool" where
  "is_csv_blank c = (c = CHR '' '' \<or> c = CHR 0x09 \<or> c = CHR 0x0D)"

definition csv_token :: "string \<Rightarrow> string option" where
  "csv_token piece =
     (if list_all is_csv_blank piece then None
      else Some (rev (dropWhile is_csv_blank (rev (dropWhile is_csv_blank piece)))))"

definition csv_skips :: "string \<Rightarrow> bool" where
  "csv_skips line = (case dropWhile is_csv_blank line of [] \<Rightarrow> True | c # _ \<Rightarrow> c = CHR ''#'')"

fun csv_fields :: "text_format \<Rightarrow> bool \<Rightarrow> string list \<Rightarrow> bool \<Rightarrow> vector_id list \<Rightarrow> vec \<Rightarrow> (vector_id list \<times> vec) result" where
  "csv_fields tf with_ids [] first_field ids values = Inr (ids, values)"
| "csv_fields tf with_ids (piece # pieces) first_field ids values =
     (case csv_token piece of
        None \<Rightarrow> csv_fields tf with_ids pieces first_field ids values
      | Some token \<Rightarrow>
          if with_ids \<and> first_field then
            (case stoull token of
               None \<Rightarrow> Inl InvalidArgumentError
             | Some vid \<Rightarrow> csv_fields tf with_ids pieces False (ids @ [vid]) values)
          else
            (case tf_stof tf token of
               None \<Rightarrow> Inl InvalidArgumentError
             | Some (v, _) \<Rightarrow> csv_fields tf with_ids pieces False ids (values @ [v])))"

fun csv_lines :: "text_format \<Rightarrow> bool \<Rightarrow> string list \<Rightarrow> vector_id list \<Rightarrow> vec list \<Rightarrow> (vector_id list \<times> vec list) result" where
  "csv_lines tf with_ids [] ids rows = Inr (ids, rows)"
| "csv_lines tf with_ids (line # lines) ids rows =
     (if csv_skips line then csv_lines tf with_ids lines ids rows
      else
        rbind (csv_fields tf with_ids (getlines (CHR '','') line) True ids []) (\<lambda>(ids, values).
        if values = [] then csv_lines tf with_ids lines ids rows
        else
          rbind (guard_throw (rows \<noteq> [] \<and> length values \<noteq> length (hd rows)) InvalidArgumentError) (\<lambda>_.
          csv_lines tf with_ids lines ids (rows @ [values]))))"

fun push_csv_rows :: "vec list \<Rightarrow> vector_array \<Rightarrow> vector_array result" where
  "push_csv_rows [] a = Inr a"
| "push_csv_rows (row # rows) a = rbind (va_push_back a row) (\<lambda>(_, a). push_csv_rows rows a)"

text \<open>\<open>None\<close> is a file that cannot be opened.\<close>

definition read_vector_csv :: "text_format \<Rightarrow> string option \<Rightarrow> bool \<Rightarrow> vector_batch result" where
  "read_vector_csv tf file with_ids =
     (case file of
        None \<Rightarrow> Inl IoError
      | Some text \<Rightarrow>
          rbind (csv_lines tf with_ids (getlines newline text) [] []) (\<lambda>(ids, rows).
          rbind (guard_throw (rows = []) InvalidArgumentError) (\<lambda>_.
          rbind (va_new (cast_u32 (length (hd rows)))) (\<lambda>a.
          rbind (push_csv_rows rows a) (\<lambda>a.
          Inr \<lparr>vb_vectors = a, vb_ids = ids\<rparr>)))))"

section \<open>Literals\<close>

definition is_literal_separator :: "char \<Rightarrow> bool" where
  "is_literal_separator c = (c = CHR '','' \<or> c = CHR '' '' \<or> c = CHR 0x09 \<or> c = CHR ''['' \<or> c = CHR '']'')"

definition literal_flush :: "text_format \<Rightarrow> string \<Rightarrow> vec \<Rightarrow> vec result" where
  "literal_flush tf token values =
     (if token = [] then Inr values
      else case tf_stof tf token of
        None \<Rightarrow> Inl InvalidArgumentError
      | Some (v, consumed) \<Rightarrow> if consumed \<noteq> length token then Inl InvalidArgumentError else Inr (values @ [v]))"

fun literal_chars :: "text_format \<Rightarrow> string \<Rightarrow> string \<Rightarrow> vec \<Rightarrow> vec result" where
  "literal_chars tf [] token values = literal_flush tf token values"
| "literal_chars tf (c # cs) token values =
     (if is_literal_separator c then rbind (literal_flush tf token values) (\<lambda>values. literal_chars tf cs [] values)
      else literal_chars tf cs (token @ [c]) values)"

definition parse_vector_literal :: "text_format \<Rightarrow> string \<Rightarrow> vec result" where
  "parse_vector_literal tf text =
     rbind (literal_chars tf text [] []) (\<lambda>values.
     rbind (guard_throw (values = []) InvalidArgumentError) (\<lambda>_. Inr values))"

section \<open>What the standard library is known to do\<close>

text \<open>Zeros and the floats away from underflow.\<close>

definition printable :: "f32 \<Rightarrow> bool" where
  "printable v \<longleftrightarrow> take_bit 31 v = 0 \<or> (let e = unat (take_bit 8 (drop_bit 23 v)) in 1 < e \<and> e < 255)"

definition number_char :: "char \<Rightarrow> bool" where
  "number_char c \<longleftrightarrow> is_digit c \<or> c \<in> set ''.+-e''"

text \<open>
  Nine digits identify every finite float. Near underflow \<^verbatim>\<open>std::stof\<close> may throw a range error on them all the same:
  the C function under it may report one for any result that is subnormal, and glibc does when the result is inexact.
\<close>

definition law_floats :: "text_format \<Rightarrow> bool" where
  "law_floats tf \<longleftrightarrow> (\<forall>v. f32_isfinite v \<longrightarrow> tf_show tf v \<noteq> [] \<and> list_all number_char (tf_show tf v) \<and>
     (tf_stof tf (tf_show tf v) = Some (v, length (tf_show tf v)) \<or> \<not> printable v \<and> tf_stof tf (tf_show tf v) = None))"

text \<open>A float that is written and cannot be read.\<close>

definition unreadable :: "text_format \<Rightarrow> f32 \<Rightarrow> bool" where
  "unreadable tf v \<longleftrightarrow> tf_stof tf (tf_show tf v) = None"

lemma number_char_facts:
  "number_char c \<Longrightarrow> \<not> is_csv_blank c \<and> c \<noteq> CHR '','' \<and> c \<noteq> newline \<and> c \<noteq> CHR ''#'' \<and> \<not> is_literal_separator c"
  by (auto simp: number_char_def is_csv_blank_def newline_def is_literal_separator_def is_digit_def)

lemma digit_number: "list_all is_digit s \<Longrightarrow> list_all number_char s"
  by (auto simp: list_all_iff number_char_def)

lemma number_char_not: "list_all number_char s \<Longrightarrow> CHR '','' \<notin> set s \<and> newline \<notin> set s \<and> list_all (\<lambda>c. \<not> is_csv_blank c) s"
  using number_char_facts by (auto simp: list_all_iff)

section \<open>Lines and fields\<close>

lemma getlines_Cons: "sep \<notin> set l \<Longrightarrow> getlines sep (l @ sep # rest) = l # getlines sep rest"
  by (subst getlines.simps) (simp add: takeWhile_append)

lemma getlines_last: "sep \<notin> set l \<Longrightarrow> l \<noteq> [] \<Longrightarrow> getlines sep l = [l]"
proof -
  assume a: "sep \<notin> set l" "l \<noteq> []"
  then have t: "takeWhile (\<lambda>c. c \<noteq> sep) l = l" by (auto simp: takeWhile_eq_all_conv)
  show ?thesis using a(2) by (subst getlines.simps) (simp only: t, simp add: getlines.simps)
qed

lemma getlines_join:
  "xs \<noteq> [] \<Longrightarrow> \<forall>x\<in>set xs. x \<noteq> [] \<and> sep \<notin> set x \<Longrightarrow> getlines sep (join [sep] xs) = xs"
  by (induction "[sep]" xs rule: join.induct) (simp_all add: getlines_last getlines_Cons)

lemma token_all: "list_all number_char s \<Longrightarrow> s \<noteq> [] \<Longrightarrow> csv_token s = Some s"
proof -
  assume a: "list_all number_char s" "s \<noteq> []"
  have d: "dropWhile is_csv_blank xs = xs" if "list_all number_char xs" for xs
    using that number_char_facts by (cases xs) auto
  have "list_all number_char (rev s)" using a by simp
  then show ?thesis using a d number_char_facts by (cases s) (auto simp: csv_token_def)
qed

lemma value_fields:
  assumes l: "law_floats tf" "\<forall>v\<in>set vs. f32_isfinite v"
  shows "\<not> (with_ids \<and> first) \<or> vs = [] \<Longrightarrow> csv_fields tf with_ids (map (tf_show tf) vs) first ids acc =
    (if \<exists>v\<in>set vs. unreadable tf v then Inl InvalidArgumentError else Inr (ids, acc @ vs))"
  using l(2)
proof (induction vs arbitrary: acc first)
  case (Cons v vs)
  have t: "csv_token (tf_show tf v) = Some (tf_show tf v)"
    and r: "unreadable tf v \<or> \<not> unreadable tf v \<and> tf_stof tf (tf_show tf v) = Some (v, length (tf_show tf v))"
    using l(1) Cons.prems by (auto simp: law_floats_def unreadable_def intro: token_all)
  show ?case
  proof (cases "unreadable tf v")
    case True
    then show ?thesis using t Cons.prems by (auto simp: unreadable_def)
  next
    case False
    then show ?thesis using t r Cons by auto
  qed
qed simp


lemma csv_row_line:
  assumes l: "law_floats tf" "\<forall>v\<in>set (va_view a i). f32_isfinite v" "va_view a i \<noteq> []"
  shows "newline \<notin> set (csv_row tf a ids i)" "\<not> csv_skips (csv_row tf a ids i)"
    "csv_fields tf (ids \<noteq> []) (getlines (CHR '','') (csv_row tf a ids i)) True acc [] =
       (if \<exists>v\<in>set (va_view a i). unreadable tf v then Inl InvalidArgumentError
        else Inr (acc @ (if ids \<noteq> [] then [ids ! i] else []), va_view a i))"
proof -
  let ?id = "show_nat (unat (ids ! i))" and ?vs = "map (tf_show tf) (va_view a i)"
  have n: "\<forall>x\<in>set ?vs. x \<noteq> [] \<and> list_all number_char x" using l by (auto simp: law_floats_def)
  have id: "?id \<noteq> []" "list_all number_char ?id" using show_nat_digits [of "unat (ids ! i)"] digit_number by auto
  let ?parts = "(if ids \<noteq> [] then [?id] else []) @ ?vs"
  have p: "?parts \<noteq> []" "\<forall>x\<in>set ?parts. x \<noteq> [] \<and> list_all number_char x" using n id l(3) by auto
  have row: "csv_row tf a ids i = join '','' ?parts" using l(3) by (cases "va_view a i") (simp_all add: csv_row_def)
  have chars: "set (join '','' xs) \<subseteq> {c. number_char c} \<union> {CHR '',''}" if "\<forall>x\<in>set xs. list_all number_char x" for xs
    using that by (induction "'',''" xs rule: join.induct) (auto simp: list_all_iff)
  show "newline \<notin> set (csv_row tf a ids i)" using chars [of ?parts] p(2) number_char_facts unfolding row by (fastforce simp: newline_def)
  obtain c cs where c: "join '','' ?parts = c # cs" "number_char c"
  proof -
    obtain x xs where x: "?parts = x # xs" using p(1) by (cases ?parts) blast+
    then obtain c cs where "x = c # cs" "number_char c" using p(2) by (cases x) auto
    then show ?thesis using that x by (cases xs) auto
  qed
  then show "\<not> csv_skips (csv_row tf a ids i)" using number_char_facts [of c] unfolding row by (simp add: csv_skips_def)
  have "unat (ids ! i) < 2 ^ 64" using unsigned_less [of "ids ! i"] by simp
  then have st: "stoull ?id = Some (ids ! i)" by (simp add: stoull_shown)
  have "getlines (CHR '','') (csv_row tf a ids i) = ?parts"
    unfolding row using p number_char_not by (intro getlines_join) auto
  then show "csv_fields tf (ids \<noteq> []) (getlines (CHR '','') (csv_row tf a ids i)) True acc [] =
       (if \<exists>v\<in>set (va_view a i). unreadable tf v then Inl InvalidArgumentError
        else Inr (acc @ (if ids \<noteq> [] then [ids ! i] else []), va_view a i))"
    using value_fields [OF l(1,2)] token_all [OF id(2,1)] l(3) st by (cases "ids = []") auto
qed

lemma csv_rows_read:
  assumes l: "law_floats tf" and a: "va_inv a" "\<forall>v\<in>set (va_storage a). f32_isfinite v" and ids: "ids = [] \<or> length ids = va_count a"
  shows "k \<le> va_count a \<Longrightarrow> csv_lines tf (ids \<noteq> []) (getlines newline (concat (map (\<lambda>i. csv_row tf a ids i @ [newline]) [k..<va_count a])))
      (take k ids) (take k (va_rows a)) =
    (if \<exists>i\<in>set [k..<va_count a]. \<exists>v\<in>set (va_view a i). unreadable tf v then Inl InvalidArgumentError else Inr (ids, va_rows a))"
proof (induction "va_count a - k" arbitrary: k)
  case 0
  then show ?case using ids by (auto simp: getlines.simps)
next
  case (Suc j)
  have k: "k < va_count a" "j = va_count a - Suc k" using Suc.hyps(2) by simp_all
  have len: "length (va_view a k) = va_dimension a" if "k < va_count a" for k
    using a(1) that by (simp add: va_view_block va_inv_def)
  have sub: "set (va_view a k) \<subseteq> set (va_storage a)" by (auto simp: va_view_def dest: in_set_takeD in_set_dropD)
  have ne: "va_view a k \<noteq> []" using len [OF k(1)] a(1) by (auto simp: va_inv_def)
  note row = csv_row_line [OF l _ ne, where ids = ids]
  have pr: "\<forall>v\<in>set (va_view a k). f32_isfinite v" using sub a(2) by blast
  have upt: "[k..<va_count a] = k # [Suc k..<va_count a]" using k(1) by (rule upt_conv_Cons)
  have hd: "take k (va_rows a) \<noteq> [] \<longrightarrow> length (va_view a k) = length (hd (take k (va_rows a)))"
  proof
    assume "take k (va_rows a) \<noteq> []"
    then have "0 < k" by (cases k) simp_all
    then have "hd (take k (va_rows a)) = va_view a 0" using k(1) by (simp add: va_rows_def upt_conv_Cons)
    then show "length (va_view a k) = length (hd (take k (va_rows a)))" using len [OF k(1)] len [of 0] k(1) by simp
  qed
  have t: "take (Suc k) (va_rows a) = take k (va_rows a) @ [va_view a k]" using k(1) by (simp add: take_Suc_conv_app_nth)
  have i: "take (Suc k) ids = take k ids @ (if ids \<noteq> [] then [ids ! k] else [])" using k(1) ids by (auto simp: take_Suc_conv_app_nth)
  show ?case
  proof (cases "\<exists>v\<in>set (va_view a k). unreadable tf v")
    case True
    then show ?thesis unfolding upt using row(1) [OF pr] row(2) [OF pr] row(3) [OF pr] by (auto simp: getlines_Cons)
  next
    case False
    have "(\<exists>i\<in>set (k # [Suc k..<va_count a]). \<exists>v\<in>set (va_view a i). unreadable tf v) \<longleftrightarrow>
      (\<exists>i\<in>set [Suc k..<va_count a]. \<exists>v\<in>set (va_view a i). unreadable tf v)" using False by simp
    then show ?thesis unfolding upt using row(1) [OF pr] row(2) [OF pr] row(3) [OF pr] False ne hd Suc.hyps(1) [OF k(2)] k(1)
      by (simp add: getlines_Cons guard_throw_def t i del: take_eq_Nil set_simps set_upt) (metis (no_types) take_eq_Nil)
  qed
qed

lemma push_rows_read:
  "va_inv a \<Longrightarrow> \<forall>r\<in>set rows. length r = va_dimension a \<Longrightarrow> va_count a + length rows \<le> kMaxVectorCount \<Longrightarrow>
   push_csv_rows rows a = Inr (a\<lparr>va_storage := va_storage a @ concat rows, va_count := va_count a + length rows\<rparr>)"
proof (induction rows arbitrary: a)
  case (Cons r rows)
  let ?a = "a\<lparr>va_storage := va_storage a @ r, va_count := Suc (va_count a)\<rparr>"
  have "va_inv ?a" using Cons.prems by (simp add: va_inv_def)
  from Cons.IH [OF this] Cons.prems show ?case by (simp add: va_push_back_def)
qed simp

lemma push_rows_inv:
  "push_csv_rows rows a = Inr a' \<Longrightarrow> va_inv a \<Longrightarrow> va_inv a' \<and> va_count a' = va_count a + length rows \<and> va_rows a' = va_rows a @ rows"
proof (induction rows arbitrary: a)
  case (Cons r rows)
  obtain i b where b: "va_push_back a r = Inr (i, b)" "push_csv_rows rows b = Inr a'" using Cons.prems by (auto simp: result_simps)
  note p = va_push_back_ok [OF Cons.prems(2) b(1)]
  have "va_count b = Suc (va_count a)" using p(2) length_va_rows [of b] by simp
  then show ?case using Cons.IH [OF b(2) p(1)] p(2) by simp
qed simp

section \<open>Literals\<close>

text \<open>The pieces between separators, and what a token stands for.\<close>

fun literal_pieces :: "string \<Rightarrow> string list" where
  "literal_pieces [] = [[]]"
| "literal_pieces (c # cs) =
     (if is_literal_separator c then [] # literal_pieces cs
      else (c # hd (literal_pieces cs)) # tl (literal_pieces cs))"

definition literal_value :: "text_format \<Rightarrow> string \<Rightarrow> f32 option" where
  "literal_value tf token =
     (case tf_stof tf token of None \<Rightarrow> None | Some (v, n) \<Rightarrow> if n = length token then Some v else None)"

definition literal_values :: "text_format \<Rightarrow> string list \<Rightarrow> vec \<Rightarrow> vec result" where
  "literal_values tf pieces values =
     (case those (map (literal_value tf) (filter (\<lambda>t. t \<noteq> []) pieces)) of
        None \<Rightarrow> Inl InvalidArgumentError
      | Some vs \<Rightarrow> Inr (values @ vs))"

lemma flush_value:
  "literal_flush tf token values = (if token = [] then Inr values
     else case literal_value tf token of None \<Rightarrow> Inl InvalidArgumentError | Some v \<Rightarrow> Inr (values @ [v]))"
  by (auto simp: literal_flush_def literal_value_def split: option.splits)

lemma values_Cons: "literal_values tf (t # ts) values = rbind (literal_flush tf t values) (literal_values tf ts)"
  by (auto simp: literal_values_def flush_value split: option.splits)

lemma pieces_ne [simp]: "literal_pieces s \<noteq> []"
  by (cases s) simp_all

lemma literal_chars_pieces:
  "literal_chars tf s token vals = literal_values tf ((token @ hd (literal_pieces s)) # tl (literal_pieces s)) vals"
proof (induction s arbitrary: token vals)
  case Nil
  have "literal_values tf [] vs = Inr vs" for vs by (simp add: literal_values_def)
  then show ?case by (auto simp: values_Cons rbind_def split: sum.split)
next
  case (Cons c s)
  have "literal_values tf (hd (literal_pieces s) # tl (literal_pieces s)) = literal_values tf (literal_pieces s)" by simp
  then have "literal_chars tf s [] = literal_values tf (literal_pieces s)" by (simp add: fun_eq_iff Cons)
  then show ?case by (simp add: values_Cons [of tf token] Cons)
qed

lemma literal_parse:
  "parse_vector_literal tf text =
     (case those (map (literal_value tf) (filter (\<lambda>t. t \<noteq> []) (literal_pieces text))) of
        None \<Rightarrow> Inl InvalidArgumentError
      | Some vs \<Rightarrow> if vs = [] then Inl InvalidArgumentError else Inr vs)"
  by (auto simp: parse_vector_literal_def literal_chars_pieces literal_values_def guard_throw_def split: option.splits)

lemma pieces_append:
  "is_literal_separator c \<Longrightarrow> literal_pieces (s @ c # r) = literal_pieces s @ literal_pieces r"
  by (induction s) simp_all

lemma pieces_plain: "list_all (\<lambda>c. \<not> is_literal_separator c) s \<Longrightarrow> literal_pieces s = [s]"
  by (induction s) simp_all

lemma pieces_join:
  "\<forall>t\<in>set ts. list_all (\<lambda>c. \<not> is_literal_separator c) t \<and> t \<noteq> [] \<Longrightarrow>
   filter (\<lambda>t. t \<noteq> []) (literal_pieces (join [CHR '','', CHR '' ''] ts)) = ts"
proof (induction "[CHR '','', CHR '' '']" ts rule: join.induct)
  case (3 x y ys)
  have sep: "is_literal_separator (CHR '','')" "is_literal_separator (CHR '' '')" by (simp_all add: is_literal_separator_def)
  have "literal_pieces (join [CHR '','', CHR '' ''] (x # y # ys)) = literal_pieces x @ literal_pieces [] @ literal_pieces (join [CHR '','', CHR '' ''] (y # ys))"
    using pieces_append [OF sep(1), of x "CHR '' '' # join [CHR '','', CHR '' ''] (y # ys)"] pieces_append [OF sep(2), of "[]" "join [CHR '','', CHR '' ''] (y # ys)"] by simp
  then show ?case using 3 by (simp add: pieces_plain)
qed (simp_all add: pieces_plain)

lemma concat_views: "va_inv v \<Longrightarrow> concat (va_rows v) = va_storage v"
proof -
  assume v: "va_inv v"
  have "concat (map (va_view v) [0..<n]) = take (n * va_dimension v) (va_storage v)" if "n \<le> va_count v" for n
    using that by (induction n) (simp_all add: va_view_block block_def add.commute flip: take_add)
  then show "concat (va_rows v) = va_storage v" using v by (simp add: va_rows_def va_inv_def)
qed

lemma printable_finite: "printable v \<Longrightarrow> f32_isfinite v"
proof -
  assume p: "printable v"
  have e: "unat (take_bit 8 (drop_bit 23 v)) = unat v div 2 ^ 23 mod 2 ^ 8"
    by (simp only: unsigned_take_bit_eq unat_drop_bit_eq) (simp add: take_bit_eq_mod drop_bit_eq_div)
  have "unat v div 2 ^ 23 mod 2 ^ 8 \<noteq> 255"
  proof (cases "take_bit 31 v = 0")
    case True
    then have "take_bit 8 (drop_bit 23 v) = 0" using drop_bit_take_bit [of 23 31 v] by simp
    then show ?thesis using e by simp
  next
    case False
    then show ?thesis using p e by (simp add: printable_def Let_def)
  qed
  then show "f32_isfinite v" by (simp add: f32_isfinite_def f32_val_def fdec_def Let_def)
qed

lemma printed_back:
  "law_floats tf \<Longrightarrow> printable v \<Longrightarrow> tf_show tf v \<noteq> [] \<and> list_all number_char (tf_show tf v) \<and>
     tf_stof tf (tf_show tf v) = Some (v, length (tf_show tf v))"
  using printable_finite unfolding law_floats_def by blast

section \<open>Properties\<close>

text \<open>C28: What becomes of a CSV export of finite vectors when it is read: it comes back bit for bit, with the ids if there were any,
  unless it has no vectors or a component that \<^verbatim>\<open>std::stof\<close> rejects (it may throw a range error near underflow, for
  subnormal components); then the whole file is refused. With components that are zeros or away from underflow, the round
  trip is exact.\<close>

theorem csv_round_trip:
  assumes "law_floats tf" and "va_inv v" and "\<forall>x\<in>set (va_storage v). f32_isfinite x"
    and "write_vector_csv tf True True v ids = Inr text"
  shows "read_vector_csv tf (Some text) (ids \<noteq> []) =
      (if va_count v = 0 \<or> (\<exists>x\<in>set (va_storage v). tf_stof tf (tf_show tf x) = None) then Inl InvalidArgumentError
       else Inr \<lparr>vb_vectors = v, vb_ids = ids\<rparr>) \<and>
    ((\<forall>x\<in>set (va_storage v). printable x) \<and> va_count v \<noteq> 0 \<longrightarrow>
       read_vector_csv tf (Some text) (ids \<noteq> []) = Inr \<lparr>vb_vectors = v, vb_ids = ids\<rparr>)"
proof -
  have ids: "ids = [] \<or> length ids = va_count v" and t: "text = csv_header v (ids \<noteq> []) @ newline #
      concat (map (\<lambda>i. csv_row tf v ids i @ [newline]) [0..<va_count v])"
    using assms(4) by (auto simp: write_vector_csv_def result_simps)
  have d: "list_all number_char (show_nat (va_dimension v))" using show_nat_digits digit_number by blast
  have h: "newline \<notin> set (csv_header v (ids \<noteq> []))" "csv_skips (csv_header v (ids \<noteq> []))"
    using number_char_not [OF d] by (auto simp: csv_header_def newline_def csv_skips_def is_csv_blank_def)
  have ex: "(\<exists>i\<in>set [0..<va_count v]. \<exists>x\<in>set (va_view v i). unreadable tf x) \<longleftrightarrow> (\<exists>x\<in>set (va_storage v). unreadable tf x)"
    by (subst concat_views [OF assms(2), symmetric]) (simp add: va_rows_def)
  have "csv_lines tf (ids \<noteq> []) (getlines newline text) [] [] =
      (if \<exists>x\<in>set (va_storage v). unreadable tf x then Inl InvalidArgumentError else Inr (ids, va_rows v))"
    using csv_rows_read [OF assms(1-3) ids, of 0] h unfolding ex by (simp add: t getlines_Cons)
  moreover have "push_csv_rows (va_rows v) \<lparr>va_dimension = va_dimension v, va_count = 0, va_storage = []\<rparr> = Inr v"
  proof -
    have len: "\<forall>r\<in>set (va_rows v). length r = va_dimension v"
      using assms(2) by (auto simp: va_rows_def va_view_block va_inv_def)
    show ?thesis using concat_views [OF assms(2)] push_rows_read [of "\<lparr>va_dimension = va_dimension v, va_count = 0, va_storage = []\<rparr>" "va_rows v"] len assms(2)
      by (simp add: va_inv_def)
  qed
  moreover have "length (hd (va_rows v)) = va_dimension v" if "va_count v \<noteq> 0"
    using that assms(2) by (simp add: va_rows_def upt_conv_Cons va_view_block va_inv_def)
  moreover have "cast_u32 (va_dimension v) = va_dimension v" using assms(2) by (simp add: cast_u32_def va_inv_def kMaxDimension_def)
  moreover have "va_rows v = [] \<longleftrightarrow> va_count v = 0" by (simp add: va_rows_def)
  moreover have "va_storage v = []" if "va_count v = 0" using that assms(2) by (simp add: va_inv_def)
  ultimately have r: "read_vector_csv tf (Some text) (ids \<noteq> []) =
      (if va_count v = 0 \<or> (\<exists>x\<in>set (va_storage v). unreadable tf x) then Inl InvalidArgumentError
       else Inr \<lparr>vb_vectors = v, vb_ids = ids\<rparr>)"
    using assms(2) by (cases "\<exists>x\<in>set (va_storage v). unreadable tf x"; cases "va_count v = 0")
      (simp_all add: read_vector_csv_def va_new_def guard_throw_def va_inv_def)
  have "\<not> unreadable tf x" if "printable x" for x using printed_back [OF assms(1) that] by (simp add: unreadable_def)
  then have p: "\<not> (\<exists>x\<in>set (va_storage v). unreadable tf x)" if "\<forall>x\<in>set (va_storage v). printable x" using that by blast
  show ?thesis using r p unfolding unreadable_def by (intro conjI impI) (simp_all only: if_False simp_thms, metis)
qed

lemma fields_ids:
  "csv_fields tf with_ids pieces first ids vals = Inr (ids', vals') \<Longrightarrow>
   length ids \<le> length ids' \<and> (\<not> with_ids \<longrightarrow> ids' = ids) \<and> (with_ids \<and> first \<and> vals' \<noteq> vals \<longrightarrow> Suc (length ids) \<le> length ids')"
proof (induction pieces arbitrary: first ids vals)
  case (Cons p ps)
  show ?case
  proof (cases "csv_token p")
    case None
    then have "csv_fields tf with_ids ps first ids vals = Inr (ids', vals')" using Cons.prems by simp
    then show ?thesis by (rule Cons.IH)
  next
    case (Some token)
    show ?thesis
    proof (cases "with_ids \<and> first")
      case True
      then obtain vid where "stoull token = Some vid" "csv_fields tf with_ids ps False (ids @ [vid]) vals = Inr (ids', vals')"
        using Cons.prems Some by (auto split: option.splits)
      with Cons.IH [OF this(2)] True show ?thesis by simp
    next
      case False
      then obtain v n where "tf_stof tf token = Some (v, n)" "csv_fields tf with_ids ps False ids (vals @ [v]) = Inr (ids', vals')"
        using Cons.prems Some by (auto split: option.splits if_splits)
      with Cons.IH [OF this(2)] False show ?thesis by auto
    qed
  qed
qed simp

lemma lines_ids:
  "csv_lines tf with_ids ls ids rows = Inr (ids', rows') \<Longrightarrow> (with_ids \<longrightarrow> length rows \<le> length ids) \<Longrightarrow> (\<not> with_ids \<longrightarrow> ids = []) \<Longrightarrow>
   (with_ids \<longrightarrow> length rows' \<le> length ids') \<and> (\<not> with_ids \<longrightarrow> ids' = [])"
proof (induction ls arbitrary: ids rows)
  case (Cons l ls)
  show ?case
  proof (cases "csv_skips l")
    case True
    then show ?thesis using Cons by simp
  next
    case False
    then obtain ids1 vals where f: "csv_fields tf with_ids (getlines (CHR '','') l) True ids [] = Inr (ids1, vals)"
      "(if vals = [] then csv_lines tf with_ids ls ids1 rows else csv_lines tf with_ids ls ids1 (rows @ [vals])) = Inr (ids', rows')"
      using Cons.prems(1) by (auto simp: result_simps split: if_splits)
    note g = fields_ids [OF f(1)]
    show ?thesis
    proof (cases "vals = []")
      case True
      then have "csv_lines tf with_ids ls ids1 rows = Inr (ids', rows')" using f(2) by simp
      from Cons.IH [OF this] g Cons.prems(2,3) show ?thesis by fastforce
    next
      case False
      then have "csv_lines tf with_ids ls ids1 (rows @ [vals]) = Inr (ids', rows')" using f(2) by simp
      from Cons.IH [OF this] g Cons.prems(2,3) False show ?thesis by fastforce
    qed
  qed
qed simp

text \<open>C29: Whatever CSV is accepted gives a well-formed array with at least one vector. Without ids there are none; with ids
  there are at least as many ids as vectors.\<close>

theorem accepted_csv_is_well_formed:
  assumes "read_vector_csv tf file with_ids = Inr b"
  shows "va_inv (vb_vectors b) \<and> 0 < va_count (vb_vectors b) \<and> (\<not> with_ids \<longrightarrow> vb_ids b = []) \<and>
    (with_ids \<longrightarrow> va_count (vb_vectors b) \<le> length (vb_ids b))"
proof -
  obtain content ids rows a a' where r: "csv_lines tf with_ids (getlines newline content) [] [] = Inr (ids, rows)" "rows \<noteq> []"
    "va_new (cast_u32 (length (hd rows))) = Inr a" "push_csv_rows rows a = Inr a'" "b = \<lparr>vb_vectors = a', vb_ids = ids\<rparr>"
    using assms by (auto simp: read_vector_csv_def result_simps split: option.splits)
  have a: "va_inv a" "va_count a = 0" using r(3) by (auto simp: va_new_def va_inv_def split: if_splits)
  from push_rows_inv [OF r(4) a(1)] lines_ids [OF r(1)] r(2,5) a(2) show ?thesis by auto
qed

text \<open>Further: A line that holds an id and nothing else keeps the id and drops the line: from there on the ids no longer belong to
  the vectors. Here the only vector was written with id 8 and comes first, as 7 does.\<close>

theorem csv_ids_out_of_step:
  assumes "tf_stof tf ''1.5'' = Some (x, n)"
  shows "read_vector_csv tf (Some (''7'' @ [newline] @ ''8,1.5'' @ [newline])) True =
    Inr \<lparr>vb_vectors = \<lparr>va_dimension = 1, va_count = 1, va_storage = [x]\<rparr>, vb_ids = [7, 8]\<rparr>"
proof -
  have l: "getlines newline (''7'' @ [newline] @ ''8,1.5'' @ [newline]) = [''7'', ''8,1.5'']"
    by (simp add: newline_def getlines.simps)
  have f: "getlines (CHR '','') ''7'' = [''7'']" "getlines (CHR '','') ''8,1.5'' = [''8'', ''1.5'']" by (simp_all add: getlines.simps)
  have s: "stoull ''7'' = Some 7" "stoull ''8'' = Some 8" by (simp_all add: stoull_def skip_spaces_def is_space_def is_digit_def digits_value_def)
  have t: "csv_token ''7'' = Some ''7''" "csv_token ''8'' = Some ''8''" "csv_token ''1.5'' = Some ''1.5''"
    "\<not> csv_skips ''7''" "\<not> csv_skips ''8,1.5''"
    by (simp_all add: csv_token_def is_csv_blank_def csv_skips_def)
  show ?thesis unfolding read_vector_csv_def option.case l
    using assms by (simp add: f s t guard_throw_def va_new_def kMaxDimension_def va_push_back_def kMaxVectorCount_def cast_u32_def)
qed

text \<open>C30: A literal is its tokens between commas, blanks and brackets, each one number to its last character; anything else, and
  no token at all, is refused.\<close>

theorem literal_is_its_tokens:
  "parse_vector_literal tf text =
     (case those (map (literal_value tf) (filter (\<lambda>t. t \<noteq> []) (literal_pieces text))) of
        None \<Rightarrow> Inl InvalidArgumentError
      | Some vs \<Rightarrow> if vs = [] then Inl InvalidArgumentError else Inr vs)"
  by (rule literal_parse)

text \<open>Further: A vector printed number by number with commas, blanks and brackets around is read back as it was.\<close>

theorem literal_round_trip:
  assumes "law_floats tf" and "\<forall>x\<in>set vs. printable x" and "vs \<noteq> []"
  shows "parse_vector_literal tf (CHR ''['' # join [CHR '','', CHR '' ''] (map (tf_show tf) vs) @ '']'') = Inr vs"
proof -
  let ?ts = "map (tf_show tf) vs"
  have t: "\<forall>t\<in>set ?ts. list_all (\<lambda>c. \<not> is_literal_separator c) t \<and> t \<noteq> []"
    using printed_back [OF assms(1)] assms(2) number_char_facts by (auto simp: list_all_iff)
  have sep: "is_literal_separator (CHR ''['')" "is_literal_separator (CHR '']'')" by (simp_all add: is_literal_separator_def)
  have p: "filter (\<lambda>t. t \<noteq> []) (literal_pieces (CHR ''['' # join [CHR '','', CHR '' ''] ?ts @ '']'')) = ?ts"
    using pieces_append [OF sep(1), of "[]"] pieces_append [OF sep(2), of _ "[]"] pieces_join [OF t] by simp
  have "those (map (literal_value tf) ?ts) = Some vs"
    using assms(2) printed_back [OF assms(1)] by (induction vs) (simp_all add: literal_value_def)
  then show ?thesis using assms(3) by (simp only: literal_parse p, simp)
qed

section \<open>Examples\<close>

text \<open>A way to print bit patterns that keeps the law.\<close>

definition bit_format :: text_format where
  "bit_format = \<lparr>tf_show = (\<lambda>v. show_nat (unat v)), tf_stof = (\<lambda>s. Some (word_of_nat (digits_value s), length s))\<rparr>"

lemma bit_format_law: "law_floats bit_format"
  using show_nat_digits digit_number by (auto simp: law_floats_def bit_format_def)

definition unit_matrix :: vector_array where
  "unit_matrix = \<lparr>va_dimension = 1, va_count = 2, va_storage = [0, 0x3F800000]\<rparr>"

lemma unit_matrix_ok: "va_inv unit_matrix" "\<forall>x\<in>set (va_storage unit_matrix). printable x" "\<forall>x\<in>set (va_storage unit_matrix). f32_isfinite x"
proof -
  show p: "\<forall>x\<in>set (va_storage unit_matrix). printable x" by (simp add: unit_matrix_def printable_def)
  show "\<forall>x\<in>set (va_storage unit_matrix). f32_isfinite x" using p printable_finite by blast
qed (simp add: unit_matrix_def va_inv_def kMaxDimension_def kMaxVectorCount_def)

text \<open>A way that keeps it too, but does not read the subnormals it prints.\<close>

definition strict_format :: text_format where
  "strict_format = bit_format\<lparr>tf_stof := \<lambda>s. if printable (word_of_nat (digits_value s)) then Some (word_of_nat (digits_value s), length s) else None\<rparr>"

lemma strict_format_law: "law_floats strict_format"
  using show_nat_digits digit_number by (auto simp: law_floats_def bit_format_def strict_format_def)

definition tiny_matrix :: vector_array where
  "tiny_matrix = \<lparr>va_dimension = 1, va_count = 1, va_storage = [1]\<rparr>"

lemma tiny_matrix_ok: "va_inv tiny_matrix" "\<forall>x\<in>set (va_storage tiny_matrix). f32_isfinite x"
  by (simp_all add: tiny_matrix_def va_inv_def kMaxDimension_def kMaxVectorCount_def feval cong: let_weak_cong)

lemma csv_round_trip_witness:
  "\<exists>text. write_vector_csv bit_format True True unit_matrix [5, 6] = Inr text \<and>
     read_vector_csv bit_format (Some text) True = Inr \<lparr>vb_vectors = unit_matrix, vb_ids = [5, 6]\<rparr> \<and>
     (\<exists>t. write_vector_csv strict_format True True tiny_matrix [] = Inr t \<and> read_vector_csv strict_format (Some t) False = Inl InvalidArgumentError)"
proof -
  obtain t where t: "write_vector_csv bit_format True True unit_matrix [5, 6] = Inr t"
    by (simp add: write_vector_csv_def unit_matrix_def Let_def)
  obtain u where u: "write_vector_csv strict_format True True tiny_matrix [] = Inr u"
    by (simp add: write_vector_csv_def tiny_matrix_def Let_def)
  have not1: "\<not> printable 1" by (simp add: printable_def)
  have "tf_stof strict_format (tf_show strict_format 1) = None" using show_nat_digits [of 1] not1 by (simp add: strict_format_def bit_format_def)
  then have "read_vector_csv strict_format (Some u) False = Inl InvalidArgumentError"
    using csv_round_trip [OF strict_format_law tiny_matrix_ok u] by (simp add: tiny_matrix_def)
  moreover have "read_vector_csv bit_format (Some t) True = Inr \<lparr>vb_vectors = unit_matrix, vb_ids = [5, 6]\<rparr>"
    using csv_round_trip [OF bit_format_law unit_matrix_ok(1,3) t, THEN conjunct2] unit_matrix_ok(2) by (simp add: unit_matrix_def)
  ultimately show ?thesis using t u by blast
qed

lemma accepted_csv_is_well_formed_witness:
  "\<exists>b. read_vector_csv bit_format (Some ''5,0'') True = Inr b \<and> va_inv (vb_vectors b) \<and> 1 \<le> length (vb_ids b)"
proof -
  have l: "getlines newline ''5,0'' = [''5,0'']" "getlines (CHR '','') ''5,0'' = [''5'', ''0'']" by (simp_all add: newline_def getlines.simps)
  have s: "stoull ''5'' = Some 5" by (simp add: stoull_def skip_spaces_def is_space_def is_digit_def digits_value_def)
  have t: "csv_token ''5'' = Some ''5''" "csv_token ''0'' = Some ''0''" "\<not> csv_skips ''5,0''"
    by (simp_all add: csv_token_def is_csv_blank_def csv_skips_def)
  obtain b where b: "read_vector_csv bit_format (Some ''5,0'') True = Inr b"
    unfolding read_vector_csv_def option.case l(1)
    by (simp add: l s t guard_throw_def va_new_def kMaxDimension_def va_push_back_def kMaxVectorCount_def cast_u32_def bit_format_def)
  from accepted_csv_is_well_formed [OF b] b show ?thesis by auto
qed

lemma csv_ids_out_of_step_witness:
  "\<exists>b. read_vector_csv bit_format (Some (''7'' @ [newline] @ ''8,1.5'' @ [newline])) True = Inr b \<and>
     va_count (vb_vectors b) = 1 \<and> vb_ids b = [7, 8]"
proof -
  have "tf_stof bit_format ''1.5'' = Some (word_of_nat (digits_value ''1.5''), 3)" by (simp add: bit_format_def)
  from csv_ids_out_of_step [OF this] show ?thesis by simp
qed

lemma literal_round_trip_witness:
  "\<exists>t. parse_vector_literal bit_format t = Inr [0, 0x3F800000]"
proof -
  have "\<forall>x\<in>set [0, 0x3F800000]. printable x" "[0, 0x3F800000 :: f32] \<noteq> []" by (simp_all add: printable_def)
  from literal_round_trip [OF bit_format_law this] show ?thesis by blast
qed

end
