(* ===== verification/Vdb_Output.thy ===== *)
theory Vdb_Output
  imports Vdb_DatabaseOpen Vdb_VectorText
begin

text \<open>
  What the command line prints (\<^verbatim>\<open>src/cli/output.cpp\<close>), as the text each function appends to the stream. How the stream prints
  a float is a parameter, as are the words of a check issue. The lemmas show that a JSON string is read back by a JSON
  reader and that grouping puts a comma before every third digit from the right.
\<close>

section \<open>The stream\<close>

text \<open>
  \<open>of_f32\<close> and \<open>of_f64\<close> print a number in the default format, \<open>of_fixed\<close> in fixed format with a number of decimals.
\<close>

record output_format =
  of_f32 :: "f32 \<Rightarrow> string"
  of_f64 :: "f64 \<Rightarrow> string"
  of_fixed :: "nat \<Rightarrow> f64 \<Rightarrow> string"
  of_issue :: "check_issue \<Rightarrow> string"

definition nl :: string where
  "nl = [newline]"

definition quote_char :: char where
  "quote_char = CHR 0x22"

text \<open>\<^verbatim>\<open>std::setw\<close> with the text at the left or at the right.\<close>

definition pad_right :: "nat \<Rightarrow> string \<Rightarrow> string" where
  "pad_right w s = s @ replicate (w - length s) (CHR '' '')"

definition pad_left :: "nat \<Rightarrow> string \<Rightarrow> string" where
  "pad_left w s = replicate (w - length s) (CHR '' '') @ s"

definition format_score :: "output_format \<Rightarrow> f32 \<Rightarrow> string" where
  "format_score fmt score = of_fixed fmt 4 (f64_of_f32 score)"

section \<open>Numbers\<close>

text \<open>The loop over the digits from the last one, with \<^verbatim>\<open>since_separator\<close>.\<close>

fun group_loop :: "nat \<Rightarrow> string \<Rightarrow> string" where
  "group_loop since [] = []"
| "group_loop since (d # ds) =
     (if since = 3 then CHR '','' # d # group_loop 1 ds else d # group_loop (since + 1) ds)"

definition group_digits :: "nat \<Rightarrow> string" where
  "group_digits value = rev (group_loop 0 (rev (show_nat value)))"

definition kUnit :: f64 where
  "kUnit = f64_of_int 1024"

definition size_suffixes :: "string list" where
  "size_suffixes = [''KB'', ''MB'', ''GB'', ''TB'', ''PB'']"

text \<open>\<open>n\<close> is \<^verbatim>\<open>index + 1\<close>.\<close>

function human_loop :: "f64 \<Rightarrow> nat \<Rightarrow> f64 \<times> nat" where
  "human_loop value n =
     (if \<not> f64_lt value kUnit \<and> n < 5 then human_loop (f64_div value kUnit) (n + 1) else (value, n))"
  by pat_completeness auto
termination by (relation "measure (\<lambda>(v, n). 5 - n)") auto

declare human_loop.simps [simp del]

definition human_bytes :: "output_format \<Rightarrow> nat \<Rightarrow> string" where
  "human_bytes fmt bytes =
     (if bytes < 1024 then show_nat bytes @ '' B''
      else case human_loop (f64_of_int (int bytes)) 0 of (value, n) \<Rightarrow>
        of_fixed fmt (if f64_lt value (f64_of_int 10) then 2 else 1) value @ '' '' @ size_suffixes ! (n - 1))"

section \<open>JSON\<close>

definition json_string :: "string \<Rightarrow> string" where
  "json_string s = [quote_char] @ concat (map json_char s) @ [quote_char]"

definition metadata_to_json :: "output_format \<Rightarrow> metadata \<Rightarrow> string" where
  "metadata_to_json fmt md =
     ''{'' @ join '','' (map (\<lambda>(k, v). json_string k @ '':'' @ to_json_string (of_f64 fmt) v) md) @ ''}''"

definition json_bool :: "bool \<Rightarrow> string" where
  "json_bool b = (if b then ''true'' else ''false'')"

text \<open>\<open>"name": value\<close>, after an indentation.\<close>

definition json_field :: "nat \<Rightarrow> string \<Rightarrow> string \<Rightarrow> string" where
  "json_field indent name value = replicate indent (CHR '' '') @ [quote_char] @ name @ [quote_char] @ '': '' @ value"

text \<open>Elements on lines of their own, with a comma after each but the last.\<close>

fun comma_lines :: "string list \<Rightarrow> string" where
  "comma_lines [] = []"
| "comma_lines [x] = x @ nl"
| "comma_lines (x # xs) = x @ '','' @ nl @ comma_lines xs"

definition print_info :: "'db database \<Rightarrow> db_stats \<Rightarrow> bool \<Rightarrow> string" where
  "print_info d stats json =
     (let c = db_config d in
      if json then
        ''{'' @ nl
        @ json_field 2 ''path'' (json_string (db_directory d)) @ '','' @ nl
        @ json_field 2 ''dimension'' (show_nat (dc_dimension c)) @ '','' @ nl
        @ json_field 2 ''metric'' (json_string (metric_name (dc_metric c))) @ '','' @ nl
        @ json_field 2 ''index_type'' (json_string (index_type_name (dc_index_type c))) @ '','' @ nl
        @ json_field 2 ''index'' (json_string (ds_index_description stats)) @ '','' @ nl
        @ json_field 2 ''normalize'' (json_bool (dc_normalize c)) @ '','' @ nl
        @ json_field 2 ''vectors'' (show_nat (ds_live_vectors stats)) @ '','' @ nl
        @ json_field 2 ''slots'' (show_nat (ds_slots stats)) @ '','' @ nl
        @ json_field 2 ''tombstones'' (show_nat (ds_tombstones stats)) @ '','' @ nl
        @ (if dc_index_type c = Hnsw then
             json_field 2 ''hnsw'' (''{'' @ nl
               @ json_field 4 ''m'' (show_nat (hc_m (dc_hnsw c))) @ '','' @ nl
               @ json_field 4 ''ef_construction'' (show_nat (hc_ef_construction (dc_hnsw c))) @ '','' @ nl
               @ json_field 4 ''ef_search'' (show_nat (hc_ef_search (dc_hnsw c))) @ '','' @ nl
               @ json_field 4 ''seed'' (show_nat (unat (hc_seed (dc_hnsw c)))) @ nl
               @ ''  }'') @ '','' @ nl
           else [])
        @ json_field 2 ''metadata_keys'' (''['' @ join '','' (map json_string (ds_metadata_keys stats)) @ '']'') @ nl
        @ ''}'' @ nl
      else
        ''Database:  '' @ db_directory d @ nl
        @ ''Dimension: '' @ show_nat (dc_dimension c) @ nl
        @ ''Metric:    '' @ metric_name (dc_metric c) @ (if dc_normalize c then '' (vectors normalized on insert)'' else []) @ nl
        @ ''Index:     '' @ ds_index_description stats @ nl
        @ ''Vectors:   '' @ group_digits (ds_live_vectors stats)
        @ (if ds_tombstones stats > 0 then ''  ('' @ group_digits (ds_tombstones stats) @ '' deleted, not yet reclaimed)'' else [])
        @ nl
        @ (if ds_metadata_keys stats \<noteq> [] then ''Metadata:  '' @ join [CHR '','', CHR '' ''] (ds_metadata_keys stats) @ nl else []))"

definition stats_row :: "string \<Rightarrow> string \<Rightarrow> string" where
  "stats_row label value = ''  '' @ pad_right 26 label @ value @ nl"

text \<open>\<open>vector_bytes\<close> and \<open>index_bytes\<close> are the memory in use, which the database model does not count.\<close>

definition print_stats :: "output_format \<Rightarrow> nat \<Rightarrow> nat \<Rightarrow> db_stats \<Rightarrow> bool \<Rightarrow> string" where
  "print_stats fmt vector_bytes index_bytes stats json =
     (if json then
        ''{'' @ nl
        @ json_field 2 ''dimension'' (show_nat (db_stats.ds_dimension stats)) @ '','' @ nl
        @ json_field 2 ''metric'' (json_string (metric_name (ds_metric stats))) @ '','' @ nl
        @ json_field 2 ''index'' (json_string (ds_index_description stats)) @ '','' @ nl
        @ json_field 2 ''live_vectors'' (show_nat (ds_live_vectors stats)) @ '','' @ nl
        @ json_field 2 ''slots'' (show_nat (ds_slots stats)) @ '','' @ nl
        @ json_field 2 ''tombstones'' (show_nat (ds_tombstones stats)) @ '','' @ nl
        @ json_field 2 ''tombstone_ratio'' (of_f64 fmt (ds_tombstone_ratio stats)) @ '','' @ nl
        @ json_field 2 ''metadata_vectors'' (show_nat (ds_metadata_vectors stats)) @ '','' @ nl
        @ json_field 2 ''metadata_rows'' (show_nat (ds_metadata_rows stats)) @ '','' @ nl
        @ json_field 2 ''memory'' (''{'' @ nl
            @ json_field 4 ''vectors'' (show_nat vector_bytes) @ '','' @ nl
            @ json_field 4 ''index'' (show_nat index_bytes) @ nl @ ''  }'') @ '','' @ nl
        @ json_field 2 ''files'' (''{'' @ nl
            @ json_field 4 ''vectors'' (show_nat (ds_vector_file_bytes stats)) @ '','' @ nl
            @ json_field 4 ''index'' (show_nat (ds_index_file_bytes stats)) @ '','' @ nl
            @ json_field 4 ''metadata'' (show_nat (ds_metadata_file_bytes stats)) @ nl @ ''  }'') @ '','' @ nl
        @ json_field 2 ''dirty'' (json_bool (ds_dirty stats)) @ nl
        @ ''}'' @ nl
      else
        ''Contents'' @ nl
        @ stats_row ''live vectors'' (group_digits (ds_live_vectors stats))
        @ stats_row ''slots (incl. deleted)'' (group_digits (ds_slots stats))
        @ stats_row ''tombstones'' (group_digits (ds_tombstones stats))
        @ stats_row ''tombstone ratio'' (of_fixed fmt 1 (f64_mul (ds_tombstone_ratio stats) (f64_of_int 100)) @ ''%'')
        @ nl @ ''Metadata'' @ nl
        @ stats_row ''vectors with metadata'' (group_digits (ds_metadata_vectors stats))
        @ stats_row ''key-value rows'' (group_digits (ds_metadata_rows stats))
        @ nl @ ''Memory (resident)'' @ nl
        @ stats_row ''vectors'' (human_bytes fmt vector_bytes)
        @ stats_row ''index'' (human_bytes fmt index_bytes)
        @ (if ds_live_vectors stats > 0
           then stats_row ''index overhead'' (show_nat (index_bytes div ds_live_vectors stats) @ '' bytes/vector'') else [])
        @ nl @ ''On disk'' @ nl
        @ stats_row ''vectors.bin'' (human_bytes fmt (ds_vector_file_bytes stats))
        @ stats_row ''index.hnsw'' (human_bytes fmt (ds_index_file_bytes stats))
        @ stats_row ''metadata.sqlite'' (human_bytes fmt (ds_metadata_file_bytes stats))
        @ (if ds_dirty stats then nl @ ''There are unflushed changes in memory.'' @ nl else []))"

definition result_json :: "output_format \<Rightarrow> query_result \<Rightarrow> string" where
  "result_json fmt r =
     ''    {'' @ json_field 0 ''id'' (show_nat (unat (qr_id r))) @ [CHR '','', CHR '' ''] @ json_field 0 ''score'' (of_f32 fmt (qr_score r))
     @ (if qr_metadata r \<noteq> [] then [CHR '','', CHR '' ''] @ json_field 0 ''metadata'' (metadata_to_json fmt (qr_metadata r)) else [])
     @ ''}''"

definition result_line :: "output_format \<Rightarrow> nat \<Rightarrow> bool \<Rightarrow> nat \<times> query_result \<Rightarrow> string" where
  "result_line fmt width show_metadata = (\<lambda>(i, r).
     ''  '' @ pad_left width (show_nat (i + 1)) @ ''. id='' @ pad_right 12 (show_nat (unat (qr_id r)))
     @ '' score='' @ format_score fmt (qr_score r)
     @ (if show_metadata \<and> qr_metadata r \<noteq> [] then
          ''  '' @ join '' '' (map (\<lambda>(k, v). k @ ''='' @ to_display_string (of_f64 fmt) v) (qr_metadata r))
        else [])
     @ nl)"

definition print_results :: "output_format \<Rightarrow> query_result list \<Rightarrow> metric \<Rightarrow> bool \<Rightarrow> bool \<Rightarrow> string" where
  "print_results fmt results m json show_metadata =
     (if json then
        ''{'' @ nl @ json_field 2 ''metric'' (json_string (metric_name m)) @ '','' @ nl
        @ json_field 2 ''higher_is_better'' (json_bool (higher_score_is_better m)) @ '','' @ nl
        @ json_field 2 ''results'' (''['' @ nl) @ comma_lines (map (result_json fmt) results) @ ''  ]'' @ nl @ ''}'' @ nl
      else if results = [] then ''No results.'' @ nl
      else
        ''Results ('' @ metric_name m @ [CHR '','', CHR '' ''] @ (if higher_score_is_better m then ''higher is better'' else ''lower is better'')
        @ ''):'' @ nl @ nl
        @ concat (map (result_line fmt (length (show_nat (length results))) show_metadata) (zip [0..<length results] results)))"

definition batch_json :: "output_format \<Rightarrow> query_result list \<Rightarrow> string" where
  "batch_json fmt results =
     ''    ['' @ join [CHR '','', CHR '' ''] (map (\<lambda>r. ''{'' @ json_field 0 ''id'' (show_nat (unat (qr_id r))) @ [CHR '','', CHR '' '']
         @ json_field 0 ''score'' (of_f32 fmt (qr_score r)) @ ''}'') results) @ '']''"

definition print_batch_results :: "output_format \<Rightarrow> query_result list list \<Rightarrow> metric \<Rightarrow> bool \<Rightarrow> string" where
  "print_batch_results fmt results m json =
     (if json then
        ''{'' @ nl @ json_field 2 ''metric'' (json_string (metric_name m)) @ '','' @ nl
        @ json_field 2 ''queries'' (''['' @ nl) @ comma_lines (map (batch_json fmt) results) @ ''  ]'' @ nl @ ''}'' @ nl
      else
        concat (map (\<lambda>(q, rs). ''Query '' @ show_nat q @ '':'' @ nl
          @ concat (map (\<lambda>(i, r). ''  '' @ show_nat (i + 1) @ ''. id='' @ show_nat (unat (qr_id r)) @ '' score='' @ format_score fmt (qr_score r) @ nl)
              (zip [0..<length rs] rs))
          @ nl) (zip [0..<length results] results)))"

definition print_stored_vector :: "output_format \<Rightarrow> stored_vector \<Rightarrow> bool \<Rightarrow> nat \<Rightarrow> string" where
  "print_stored_vector fmt stored json preview =
     (let v = sv_vector stored; n = min preview (length v) in
      if json then
        ''{'' @ nl @ json_field 2 ''id'' (show_nat (unat (sv_id stored))) @ '','' @ nl
        @ json_field 2 ''dimension'' (show_nat (length v)) @ '','' @ nl
        @ json_field 2 ''vector'' (''['' @ join '','' (map (of_f32 fmt) v) @ '']'') @ '','' @ nl
        @ json_field 2 ''metadata'' (metadata_to_json fmt (sv_metadata stored)) @ nl @ ''}'' @ nl
      else
        ''id:        '' @ show_nat (unat (sv_id stored)) @ nl
        @ ''dimension: '' @ show_nat (length v) @ nl
        @ ''vector:    ['' @ join [CHR '','', CHR '' ''] (map (of_f32 fmt) (take n v))
        @ (if n < length v then [CHR '','', CHR '' ''] @ ''... ('' @ show_nat (length v - n) @ '' more; use --json for all)'' else [])
        @ '']'' @ nl
        @ (if sv_metadata stored \<noteq> [] then
             ''metadata:'' @ nl
             @ concat (map (\<lambda>(k, x). ''  '' @ pad_right 20 k @ to_display_string (of_f64 fmt) x @ nl) (sv_metadata stored))
           else []))"

definition issue_json :: "output_format \<Rightarrow> check_issue \<Rightarrow> string" where
  "issue_json fmt i =
     ''    {'' @ json_field 0 ''severity'' (json_string (if issue_is_error i then ''error'' else ''warning'')) @ [CHR '','', CHR '' '']
     @ json_field 0 ''message'' (json_string (of_issue fmt i)) @ ''}''"

definition print_check :: "output_format \<Rightarrow> check_issue list \<Rightarrow> bool \<Rightarrow> string" where
  "print_check fmt issues json =
     (if json then
        ''{'' @ nl @ json_field 2 ''ok'' (json_bool (issues = [])) @ '','' @ nl
        @ json_field 2 ''errors'' (show_nat (error_count issues)) @ '','' @ nl
        @ json_field 2 ''warnings'' (show_nat (warning_count issues)) @ '','' @ nl
        @ json_field 2 ''issues'' (''['' @ nl) @ comma_lines (map (issue_json fmt) issues) @ ''  ]'' @ nl @ ''}'' @ nl
      else if issues = [] then ''OK '' @ [CHR 0xE2, CHR 0x80, CHR 0x94] @ '' no problems found.'' @ nl
      else
        concat (map (\<lambda>i. (if issue_is_error i then ''error:   '' else ''warning: '') @ of_issue fmt i @ nl) issues)
        @ nl @ show_nat (error_count issues) @ '' error(s), '' @ show_nat (warning_count issues) @ '' warning(s).'' @ nl)"

section \<open>Grouping\<close>

text \<open>The reference: a comma before the last three digits of a number of four or more, and so on before that.\<close>

definition three_digits :: "nat \<Rightarrow> string" where
  "three_digits m = [digit_char (m div 100), digit_char (m div 10 mod 10), digit_char (m mod 10)]"

fun thousands :: "nat \<Rightarrow> string" where
  "thousands n = (if n < 1000 then show_nat n else thousands (n div 1000) @ '','' @ three_digits (n mod 1000))"

declare thousands.simps [simp del]

lemma show_nat_1000:
  assumes "1000 \<le> n"
  shows "show_nat n = show_nat (n div 1000) @ three_digits (n mod 1000)"
proof -
  have s: "show_nat m = show_nat (m div 10) @ [digit_char (m mod 10)]" if "10 \<le> m" for m
    using that by (subst show_nat.simps) simp
  have d: "n div 10 div 10 div 10 = n div 1000" by (simp add: div_mult2_eq [symmetric])
  have "show_nat n = show_nat (n div 1000) @ [digit_char (n div 100 mod 10), digit_char (n div 10 mod 10), digit_char (n mod 10)]"
    using s [of n] s [of "n div 10"] s [of "n div 10 div 10"] assms d by (simp add: div_mult2_eq [symmetric])
  moreover have "n mod 1000 div 100 = n div 100 mod 10" using mod_mult2_eq [of n 100 10] by simp
  moreover have "n mod 1000 div 10 mod 10 = n div 10 mod 10" using mod_mult2_eq [of n 10 100] by (simp add: mod_mod_cancel)
  moreover have "n mod 1000 mod 10 = n mod 10" by (simp add: mod_mod_cancel)
  ultimately show ?thesis by (simp add: three_digits_def)
qed

lemma group_restart: "ds \<noteq> [] \<Longrightarrow> group_loop 3 ds = CHR '','' # group_loop 0 ds"
  by (cases ds) simp_all

lemma group_short: "length ds \<le> 3 \<Longrightarrow> group_loop 0 ds = ds"
  by (cases ds; cases "tl ds"; cases "tl (tl ds)") (auto simp: numeral_3_eq_3)

lemma short_digits: "n < 1000 \<Longrightarrow> length (show_nat n) \<le> 3"
  by (subst show_nat.simps, subst show_nat.simps, subst show_nat.simps) auto

text \<open>A JSON reader, after the opening quote: the string up to the closing one, and what follows it.\<close>

definition hex_value :: "char \<Rightarrow> nat option" where
  "hex_value c =
     (let n = of_char c :: nat in
      if 48 \<le> n \<and> n \<le> 57 then Some (n - 48) else if 97 \<le> n \<and> n \<le> 102 then Some (n - 87)
      else if 65 \<le> n \<and> n \<le> 70 then Some (n - 55) else None)"

fun json_escape :: "string \<Rightarrow> (char \<times> string) option" where
  "json_escape (c # cs) =
     (if c \<in> {quote_char, CHR 0x5C, CHR ''/''} then Some (c, cs)
      else if c = CHR ''n'' then Some (CHR 0x0A, cs)
      else if c = CHR ''r'' then Some (CHR 0x0D, cs)
      else if c = CHR ''t'' then Some (CHR 0x09, cs)
      else if c = CHR ''b'' then Some (CHR 0x08, cs)
      else if c = CHR ''f'' then Some (CHR 0x0C, cs)
      else if c = CHR ''u'' then
        (case map hex_value (take 4 cs) of
           [Some a, Some b, Some h, Some l] \<Rightarrow>
             (let n = ((a * 16 + b) * 16 + h) * 16 + l in if n < 128 then Some (char_of n, drop 4 cs) else None)
         | _ \<Rightarrow> None)
      else None)"
| "json_escape [] = None"

lemma json_escape_shorter: "json_escape cs = Some (c, rest) \<Longrightarrow> length rest < length cs"
  by (cases cs) (auto split: if_splits list.splits option.splits simp: Let_def)

function json_read :: "string \<Rightarrow> (string \<times> string) option" where
  "json_read [] = None"
| "json_read (c # cs) =
     (if c = quote_char then Some ([], cs)
      else if c = CHR 0x5C then
        (case json_escape cs of
           None \<Rightarrow> None
         | Some (d, rest) \<Rightarrow> map_option (\<lambda>(s, r). (d # s, r)) (json_read rest))
      else if (of_char c :: nat) < 0x20 then None
      else map_option (\<lambda>(s, r). (c # s, r)) (json_read cs))"
  by pat_completeness auto
termination by (relation "measure length") (auto dest!: json_escape_shorter)

declare json_read.simps [simp del]

lemma json_control: "(of_char c :: nat) < 0x20 \<Longrightarrow> hex_value (hex_digit (of_char c div 16)) = Some (of_char c div 16) \<and>
    hex_value (hex_digit (of_char c mod 16)) = Some (of_char c mod 16)"
proof -
  assume "(of_char c :: nat) < 0x20"
  then have "(of_char c :: nat) div 16 < 2" by simp
  have h: "hex_value (hex_digit d) = Some d" if "d < 16" for d
    using that by (auto simp: hex_value_def hex_digit_def Let_def)
  show ?thesis using h [of "of_char c div 16"] h [of "of_char c mod 16"] \<open>(of_char c :: nat) div 16 < 2\<close> by simp
qed

lemma json_char_read: "json_read (json_char c @ rest) = map_option (\<lambda>(s, r). (c # s, r)) (json_read rest)"
proof (cases "c \<in> {CHR 0x22, CHR 0x5C, CHR 0x0A, CHR 0x0D, CHR 0x09}")
  case True
  then show ?thesis by (auto simp: json_char_def quote_char_def json_read.simps(2))
next
  case False
  show ?thesis
  proof (cases "(of_char c :: nat) < 0x20")
    case True
    note h = json_control [OF True]
    have "hex_value (CHR ''0'') = Some 0" by (simp add: hex_value_def Let_def)
    moreover have "(of_char c div 16) * 16 + of_char c mod 16 = (of_char c :: nat)" by simp
    ultimately show ?thesis using False True h by (auto simp: json_char_def quote_char_def json_read.simps(2))
  next
    case big: False
    then show ?thesis using False by (auto simp: json_char_def quote_char_def json_read.simps(2))
  qed
qed

lemma json_string_read: "json_read (concat (map json_char s) @ quote_char # rest) = Some (s, rest)"
  by (induction s) (simp_all add: json_char_read json_read.simps(2))

lemma group_thousands: "rev (group_loop 0 (rev (show_nat n))) = thousands n"
proof (induction n rule: thousands.induct)
  case (1 n)
  show ?case
  proof (cases "n < 1000")
    case True
    then show ?thesis using group_short [of "rev (show_nat n)"] short_digits by (subst thousands.simps) simp
  next
    case False
    have ne: "rev (show_nat (n div 1000)) \<noteq> []" using show_nat_digits by simp
    have "show_nat n = show_nat (n div 1000) @ three_digits (n mod 1000)" using False by (intro show_nat_1000) simp
    then have "group_loop 0 (rev (show_nat n)) = rev (three_digits (n mod 1000)) @ group_loop 3 (rev (show_nat (n div 1000)))"
      by (simp add: three_digits_def numeral_3_eq_3)
    then show ?thesis using 1 False by (subst thousands.simps) (simp add: group_restart [OF ne])
  qed
qed

section \<open>Properties\<close>

text \<open>Further: A quoted string is a JSON string with exactly the given content: a JSON reader gives back every byte, controls, quotes
  and backslashes included, and goes on right after the closing quote, so nothing in the content can end it early.\<close>

theorem json_string_round_trip:
  "json_string s = quote_char # tl (json_string s) \<and> json_read (tl (json_string s) @ rest) = Some (s, rest)"
  using json_string_read [of s rest] by (simp add: json_string_def)

text \<open>Further: Grouping changes no digit and puts a comma before each three digits counted from the right, and nowhere else.\<close>

theorem group_digits_by_thousands:
  "group_digits n = thousands n \<and> filter (\<lambda>c. c \<noteq> CHR '','') (group_digits n) = show_nat n"
proof -
  have plain: "filter (\<lambda>c. c \<noteq> CHR '','') (show_nat n) = show_nat n" for n
    using show_nat_digits [of n] by (auto simp: list_all_iff is_digit_def filter_id_conv)
  have loop: "filter (\<lambda>c. c \<noteq> CHR '','') (group_loop k ds) = filter (\<lambda>c. c \<noteq> CHR '','') ds" for k ds
    by (induction k ds rule: group_loop.induct) auto
  have "filter (\<lambda>c. c \<noteq> CHR '','') (group_digits n) = rev (filter (\<lambda>c. c \<noteq> CHR '','') (group_loop 0 (rev (show_nat n))))"
    by (simp only: group_digits_def rev_filter)
  also have "\<dots> = show_nat n" by (simp only: loop rev_filter plain rev_rev_ident)
  finally show ?thesis by (simp add: group_digits_def group_thousands)
qed

end
