(* ===== verification/Vdb_Args.thy ===== *)
theory Vdb_Args
  imports Vdb_Filter Vdb_Action
begin

text \<open>
  The command line parser (\<^verbatim>\<open>src/cli/args.cpp\<close>). The lemmas show that a line in the long form is read back, that an accessor
  sees what was given, and which options are reported as not recognised.
\<close>

section \<open>The parsed line\<close>

text \<open>The ordered maps are lists of entries in order; \<open>ar_touched\<close> is the mutable list of the names asked for.\<close>

record args =
  ar_options :: "(string \<times> string) list"
  ar_repeated :: "(string \<times> (string \<times> string) list) list"
  ar_positionals :: "string list"
  ar_touched :: "string list"

definition no_args :: args where
  "no_args = \<lparr>ar_options = [], ar_repeated = [], ar_positionals = [], ar_touched = []\<rparr>"

definition is_repeatable :: "string \<Rightarrow> bool" where
  "is_repeatable name \<longleftrightarrow> name = ''meta''"

definition expand_short :: "string \<Rightarrow> string" where
  "expand_short name =
     (if name = ''k'' then ''k''
      else if name = ''d'' then ''dimension''
      else if name = ''m'' then ''metric''
      else if name = ''v'' then ''verbose''
      else if name = ''q'' then ''query''
      else if name = ''o'' then ''output''
      else if name = ''i'' then ''input''
      else name)"

text \<open>What stands before and after the first equals sign, if there is one.\<close>

definition split_equals :: "string \<Rightarrow> (string \<times> string) option" where
  "split_equals s =
     (if CHR ''='' \<in> set s
      then Some (takeWhile (\<lambda>c. c \<noteq> CHR ''='') s, drop (Suc (length (takeWhile (\<lambda>c. c \<noteq> CHR ''='') s))) s)
      else None)"

text \<open>Whether the next argument is the value of an option: not another option, but a negative number is.\<close>

definition is_value :: "string \<Rightarrow> bool" where
  "is_value s \<longleftrightarrow> s \<noteq> [] \<and> (hd s \<noteq> CHR ''-'' \<or> length s = 1 \<or> is_digit (s ! 1) \<or> s ! 1 = CHR ''.'')"

definition take_value :: "string option \<Rightarrow> string list \<Rightarrow> string \<times> string list" where
  "take_value inline_value rest =
     (case inline_value of
        Some v \<Rightarrow> (v, rest)
      | None \<Rightarrow> (case rest of
          next # rest' \<Rightarrow> if is_value next then (next, rest') else ([], rest)
        | [] \<Rightarrow> ([], [])))"

definition put_option :: "string \<Rightarrow> string \<Rightarrow> args \<Rightarrow> args result" where
  "put_option name value a =
     (if is_repeatable name then
        (case split_equals value of
           None \<Rightarrow> Inl InvalidArgumentError
         | Some (k, v) \<Rightarrow>
             let old = (case map_of (ar_repeated a) name of None \<Rightarrow> [] | Some l \<Rightarrow> l) in
             Inr (a\<lparr>ar_repeated := list_put str_less name (old @ [(k, v)]) (ar_repeated a)\<rparr>))
      else Inr (a\<lparr>ar_options := list_put str_less name value (ar_options a)\<rparr>))"

lemma take_value_shrinks: "take_value iv rest = (v, rest') \<Longrightarrow> length rest' \<le> length rest"
  by (auto simp: take_value_def split: option.splits list.splits if_splits)

function parse_from :: "string list \<Rightarrow> args \<Rightarrow> args result" where
  "parse_from [] a = Inr a"
| "parse_from (token # rest) a =
     (if length token < 2 \<or> hd token \<noteq> CHR ''-'' then parse_from rest (a\<lparr>ar_positionals := ar_positionals a @ [token]\<rparr>)
      else
        let long_form = (length token > 2 \<and> token ! 1 = CHR ''-'');
            body = (if long_form then drop 2 token else drop 1 token);
            (name, inline_value) = (case split_equals body of Some (n, v) \<Rightarrow> (n, Some v) | None \<Rightarrow> (body, None));
            name = (if \<not> long_form then expand_short name else name) in
        if name = [] then Inl InvalidArgumentError
        else
          case take_value inline_value rest of (value, rest') \<Rightarrow>
            rbind (put_option name value a) (\<lambda>a. parse_from rest' a))"
  by pat_completeness auto
termination
  by (relation "measure (\<lambda>(ts, a). length ts)") (auto dest: take_value_shrinks [OF sym])

declare parse_from.simps [simp del]

definition parse_args :: "string list \<Rightarrow> args result" where
  "parse_args argv = parse_from argv no_args"

section \<open>Accessors\<close>

definition positional :: "nat \<Rightarrow> args \<Rightarrow> string option" where
  "positional i a = (if i \<ge> length (ar_positionals a) then None else Some (ar_positionals a ! i))"

definition require_positional :: "nat \<Rightarrow> (args, string) act" where
  "require_positional i a = (case positional i a of None \<Rightarrow> (Inl InvalidArgumentError, a) | Some s \<Rightarrow> (Inr s, a))"

definition touch :: "string \<Rightarrow> args \<Rightarrow> args" where
  "touch name a = a\<lparr>ar_touched := ar_touched a @ [name]\<rparr>"

definition arg_has :: "string \<Rightarrow> (args, bool) act" where
  "arg_has name a = (Inr (map_of (ar_options a) name \<noteq> None), touch name a)"

definition arg_value :: "string \<Rightarrow> (args, string option) act" where
  "arg_value name a =
     (Inr (case map_of (ar_options a) name of None \<Rightarrow> None | Some s \<Rightarrow> if s = [] then None else Some s), touch name a)"

definition arg_require :: "string \<Rightarrow> (args, string) act" where
  "arg_require name =
     abind (arg_value name) (\<lambda>found. case found of None \<Rightarrow> athrow InvalidArgumentError | Some s \<Rightarrow> aret s)"

text \<open>\<^verbatim>\<open>std::from_chars\<close> to an unsigned integer, with the test that it read the whole text: digits, in range.\<close>

definition from_chars_u64 :: "string \<Rightarrow> u64 option" where
  "from_chars_u64 s =
     (if s = [] \<or> \<not> list_all is_digit s \<or> digits_value s \<ge> 2 ^ 64 then None else Some (word_of_nat (digits_value s)))"

definition arg_number :: "string \<Rightarrow> u64 \<Rightarrow> (args, u64) act" where
  "arg_number name fallback =
     abind (arg_value name) (\<lambda>s. case s of
       None \<Rightarrow> aret fallback
     | Some s \<Rightarrow> (case from_chars_u64 s of None \<Rightarrow> athrow InvalidArgumentError | Some n \<Rightarrow> aret n))"

definition arg_require_number :: "string \<Rightarrow> (args, u64) act" where
  "arg_require_number name = abind (arg_require name) (\<lambda>_. arg_number name 0)"

definition arg_repeated :: "string \<Rightarrow> (args, (string \<times> string) list) act" where
  "arg_repeated name a =
     (Inr (case map_of (ar_repeated a) name of None \<Rightarrow> [] | Some l \<Rightarrow> l), touch name a)"

definition arg_unused :: "args \<Rightarrow> string list" where
  "arg_unused a =
     filter (\<lambda>n. n \<notin> set (ar_touched a)) (map fst (ar_options a)) @ filter (\<lambda>n. n \<notin> set (ar_touched a)) (map fst (ar_repeated a))"

section \<open>Lines\<close>

text \<open>
  What a user writes: an option in its long or short spelling, with its value after an equals sign or as the next
  argument, or alone as a flag; or a word.
\<close>

datatype spelling = Long string | Short string

fun dashed :: "spelling \<Rightarrow> string" where
  "dashed (Long n) = ''--'' @ n"
| "dashed (Short n) = ''-'' @ n"

fun option_name :: "spelling \<Rightarrow> string" where
  "option_name (Long n) = n"
| "option_name (Short n) = expand_short n"

text \<open>A lone double dash is read as the short option \<^verbatim>\<open>-\<close>.\<close>

fun spelling_ok :: "spelling \<Rightarrow> bool" where
  "spelling_ok (Long n) \<longleftrightarrow> n \<noteq> [] \<and> CHR ''='' \<notin> set n"
| "spelling_ok (Short n) \<longleftrightarrow> n \<noteq> [] \<and> CHR ''='' \<notin> set n \<and> (hd n \<noteq> CHR ''-'' \<or> n = ''-'')"

datatype piece = PInline spelling string | PSpaced spelling string | PFlag spelling | PWord string

fun piece_tokens :: "piece \<Rightarrow> string list" where
  "piece_tokens (PInline n v) = [dashed n @ ''='' @ v]"
| "piece_tokens (PSpaced n v) = [dashed n, v]"
| "piece_tokens (PFlag n) = [dashed n]"
| "piece_tokens (PWord s) = [s]"

text \<open>The name and the value a piece gives.\<close>

fun given :: "piece \<Rightarrow> (string \<times> string) option" where
  "given (PInline n v) = Some (option_name n, v)"
| "given (PSpaced n v) = Some (option_name n, v)"
| "given (PFlag n) = Some (option_name n, [])"
| "given (PWord s) = None"

text \<open>An argument that cannot be an option: it is not empty, and a dash is followed by nothing, a digit or a point.\<close>

fun value_token :: "string \<Rightarrow> bool" where
  "value_token [] \<longleftrightarrow> False"
| "value_token [c] \<longleftrightarrow> True"
| "value_token (c # b # s) \<longleftrightarrow> c \<noteq> CHR ''-'' \<or> b \<in> set ''0123456789.''"

fun piece_ok :: "piece \<Rightarrow> bool" where
  "piece_ok (PInline n v) \<longleftrightarrow> spelling_ok n \<and> n \<noteq> Short ''-'' \<and> (option_name n = ''meta'' \<longrightarrow> CHR ''='' \<in> set v)"
| "piece_ok (PSpaced n v) \<longleftrightarrow> spelling_ok n \<and> value_token v \<and> (option_name n = ''meta'' \<longrightarrow> CHR ''='' \<in> set v)"
| "piece_ok (PFlag n) \<longleftrightarrow> spelling_ok n \<and> option_name n \<noteq> ''meta''"
| "piece_ok (PWord s) \<longleftrightarrow> length s < 2 \<or> hd s \<noteq> CHR ''-''"

definition line_tokens :: "piece list \<Rightarrow> string list" where
  "line_tokens ps = List.concat (map piece_tokens ps)"

text \<open>After a flag, no argument may follow that would be its value.\<close>

fun line_ok :: "piece list \<Rightarrow> bool" where
  "line_ok [] \<longleftrightarrow> True"
| "line_ok (p # ps) \<longleftrightarrow> piece_ok p \<and> line_ok ps \<and>
     (case p of PFlag _ \<Rightarrow> (case line_tokens ps of [] \<Rightarrow> True | t # _ \<Rightarrow> \<not> value_token t) | _ \<Rightarrow> True)"

text \<open>What the line means: its words, its options (the last value counts) and its pairs.\<close>

definition line_words :: "piece list \<Rightarrow> string list" where
  "line_words ps = List.concat (map (\<lambda>p. case p of PWord s \<Rightarrow> [s] | _ \<Rightarrow> []) ps)"

definition line_options :: "piece list \<Rightarrow> string \<rightharpoonup> string" where
  "line_options ps = map_of (rev (filter (\<lambda>(n, v). n \<noteq> ''meta'') (List.map_filter given ps)))"

definition line_pairs :: "piece list \<Rightarrow> (string \<times> string) list" where
  "line_pairs ps = map (\<lambda>(n, v). (takeWhile (\<lambda>c. c \<noteq> CHR ''='') v, drop 1 (dropWhile (\<lambda>c. c \<noteq> CHR ''='') v)))
     (filter (\<lambda>(n, v). n = ''meta'') (List.map_filter given ps))"

section \<open>Reading them\<close>

lemma is_value_token: "is_value s = value_token s"
proof (cases s rule: value_token.cases)
  case (3 c b t)
  have "is_digit b \<or> b = CHR ''.'' \<longleftrightarrow> b \<in> set ''0123456789.''"
  proof -
    have "is_digit b \<longleftrightarrow> b \<in> set ''0123456789''"
    proof
      assume "is_digit b"
      then have "of_char b \<in> {48..<58 :: nat}" by (auto simp: is_digit_def)
      moreover have "{48..<58 :: nat} = set [48..<58]" by (rule atLeastLessThan_upt)
      ultimately have "of_char b \<in> set [48..<58 :: nat]" by (simp only:)
      then have "char_of (of_char b :: nat) \<in> set (map char_of [48..<58 :: nat])" by (simp only: set_map imageI)
      moreover have "map char_of [48..<58 :: nat] = ''0123456789''" by code_simp
      ultimately show "b \<in> set ''0123456789''" by (simp only: char_of_char)
    qed (auto simp: is_digit_def)
    then show ?thesis by auto
  qed
  then show ?thesis by (simp add: 3 is_value_def)
qed (simp_all add: is_value_def)

lemma split_equals_join: "CHR ''='' \<notin> set n \<Longrightarrow> split_equals (n @ CHR ''='' # v) = Some (n, v)"
  by (simp add: split_equals_def takeWhile_append)

lemma split_equals_none: "CHR ''='' \<notin> set n \<Longrightarrow> split_equals n = None"
  by (simp add: split_equals_def)

lemma split_equals_pair:
  "CHR ''='' \<in> set v \<Longrightarrow> split_equals v = Some (takeWhile (\<lambda>c. c \<noteq> CHR ''='') v, drop 1 (dropWhile (\<lambda>c. c \<noteq> CHR ''='') v))"
  by (simp add: split_equals_def dropWhile_eq_drop)

lemma split_equals_join_iff: "split_equals s = Some (n, v) \<longleftrightarrow> s = n @ CHR ''='' # v \<and> CHR ''='' \<notin> set n"
proof
  assume e: "split_equals s = Some (n, v)"
  then have m: "CHR ''='' \<in> set s" by (auto simp: split_equals_def split: if_splits)
  then obtain n' v' where s: "s = n' @ CHR ''='' # v'" "CHR ''='' \<notin> set n'" by (meson split_list_first)
  with e split_equals_join [OF s(2), of v'] show "s = n @ CHR ''='' # v \<and> CHR ''='' \<notin> set n" by simp
qed (simp add: split_equals_join)

text \<open>The parts of an option, whichever way it is spelled.\<close>

fun bare :: "spelling \<Rightarrow> string" where
  "bare (Long n) = n"
| "bare (Short n) = n"

lemma option_name_ok: "spelling_ok n \<Longrightarrow> option_name n \<noteq> [] \<and> bare n \<noteq> [] \<and> CHR ''='' \<notin> set (bare n)"
  by (cases n) (auto simp: expand_short_def)

lemma parse_option:
  assumes "token = dashed n @ t" and "spelling_ok n" and "n = Short ''-'' \<longrightarrow> t = []"
    and "split_equals (bare n @ t) = Some (bare n, v) \<and> iv = Some v \<or> split_equals (bare n @ t) = None \<and> t = [] \<and> iv = None"
  shows "parse_from (token # rest) a =
    (case take_value iv rest of (v, rest') \<Rightarrow> rbind (put_option (option_name n) v a) (\<lambda>a. parse_from rest' a))"
proof (cases n)
  case (Long s)
  have t: "\<not> (length token < 2 \<or> hd token \<noteq> CHR ''-'')" "length token > 2 \<and> token ! 1 = CHR ''-''" "drop 2 token = s @ t"
    using assms(1,2) Long by (auto simp: neq_Nil_conv)
  show ?thesis using t(1) assms(4) option_name_ok [OF assms(2)]
    unfolding parse_from.simps(2) Let_def if_P [OF t(2)] t(3) using t(2) by (auto simp: Long)
next
  case (Short s)
  have t: "\<not> (length token < 2 \<or> hd token \<noteq> CHR ''-'')" "\<not> (length token > 2 \<and> token ! 1 = CHR ''-'')" "drop 1 token = s @ t"
    using assms(1-3) Short by (auto simp: neq_Nil_conv)
  show ?thesis using t(1) assms(4) option_name_ok [OF assms(2)]
    unfolding parse_from.simps(2) Let_def if_not_P [OF t(2)] t(3) using t(2) by (auto simp: Short)
qed

definition put_given :: "piece \<Rightarrow> args \<Rightarrow> args result" where
  "put_given p a = (case given p of None \<Rightarrow> Inr (a\<lparr>ar_positionals := ar_positionals a @ line_words [p]\<rparr>) | Some (n, v) \<Rightarrow> put_option n v a)"

lemma parse_piece:
  assumes "piece_ok p" and "case p of PFlag _ \<Rightarrow> (case rest of [] \<Rightarrow> True | t # _ \<Rightarrow> \<not> value_token t) | _ \<Rightarrow> True"
  shows "parse_from (piece_tokens p @ rest) a = rbind (put_given p a) (\<lambda>a. parse_from rest a)"
proof (cases p)
  case (PInline n v)
  have o: "CHR ''='' \<notin> set (bare n)" using assms(1) PInline option_name_ok by simp
  show ?thesis using parse_option [of "dashed n @ ''='' @ v" n "''='' @ v" v "Some v" rest a] split_equals_join [OF o, of v] assms(1)
    by (simp add: PInline put_given_def take_value_def)
next
  case (PSpaced n v)
  have o: "CHR ''='' \<notin> set (bare n)" using assms(1) PSpaced option_name_ok by simp
  show ?thesis using parse_option [of "dashed n" n "[]" v None "v # rest" a] split_equals_none [OF o] assms(1)
    by (simp add: PSpaced put_given_def take_value_def is_value_token)
next
  case (PFlag n)
  have o: "CHR ''='' \<notin> set (bare n)" using assms(1) PFlag option_name_ok by simp
  show ?thesis using parse_option [of "dashed n" n "[]" v None rest a] split_equals_none [OF o] assms
    by (simp add: PFlag put_given_def take_value_def is_value_token split: list.splits)
next
  case (PWord s)
  then show ?thesis using assms(1) by (simp add: put_given_def line_words_def parse_from.simps(2))
qed

section \<open>What is stored\<close>

text \<open>What the record of a line holds besides what it held before.\<close>

definition holds_line :: "piece list \<Rightarrow> args \<Rightarrow> bool" where
  "holds_line ps a \<longleftrightarrow> ar_positionals a = line_words ps \<and> map_of (ar_options a) = line_options ps \<and>
     map_of (ar_repeated a) = (if line_pairs ps = [] then Map.empty else [''meta'' \<mapsto> line_pairs ps])"

lemma put_given_ok:
  assumes "piece_ok p" and "holds_line ps a"
  obtains b where "put_given p a = Inr b" "holds_line (ps @ [p]) b"
proof (cases "given p")
  case None
  then obtain s where p: "p = PWord s" by (cases p) auto
  show thesis by (rule that [of "a\<lparr>ar_positionals := ar_positionals a @ line_words [p]\<rparr>"])
    (use assms(2) in \<open>auto simp: p put_given_def holds_line_def line_words_def line_options_def line_pairs_def map_filter_simps List.map_filter_def\<close>)
next
  case (Some nv)
  obtain n v where nv: "nv = (n, v)" by fastforce
  have w: "line_words (ps @ [p]) = line_words ps" using Some by (cases p) (simp_all add: line_words_def)
  have m: "List.map_filter given (ps @ [p]) = List.map_filter given ps @ [(n, v)]" using Some nv by (simp add: List.map_filter_def)
  show thesis
  proof (cases "n = ''meta''")
    case True
    then have e: "CHR ''='' \<in> set v" using assms(1) Some nv by (cases p) auto
    show thesis
      by (rule that [of "a\<lparr>ar_repeated := list_put str_less ''meta'' (line_pairs (ps @ [p])) (ar_repeated a)\<rparr>"])
        (use assms(2) True e in \<open>auto simp: Some nv put_given_def put_option_def is_repeatable_def split_equals_pair holds_line_def w m
           line_options_def line_pairs_def fun_eq_iff split: if_splits\<close>)
  next
    case False
    show thesis
      by (rule that [of "a\<lparr>ar_options := list_put str_less n v (ar_options a)\<rparr>"])
        (use assms(2) False in \<open>auto simp: Some nv put_given_def put_option_def is_repeatable_def holds_line_def w m
           line_options_def line_pairs_def\<close>)
  qed
qed

lemma parse_line:
  "line_ok ps \<Longrightarrow> holds_line before a \<Longrightarrow> \<exists>b. parse_from (line_tokens ps) a = Inr b \<and> holds_line (before @ ps) b"
proof (induction ps arbitrary: before a)
  case Nil
  then show ?case by (simp add: line_tokens_def parse_from.simps(1))
next
  case (Cons p ps)
  have ok: "piece_ok p" "case p of PFlag _ \<Rightarrow> (case line_tokens ps of [] \<Rightarrow> True | t # _ \<Rightarrow> \<not> value_token t) | _ \<Rightarrow> True"
    using Cons.prems(1) by simp_all
  obtain b where b: "put_given p a = Inr b" "holds_line (before @ [p]) b" by (rule put_given_ok [OF ok(1) Cons.prems(2)])
  have "line_tokens (p # ps) = piece_tokens p @ line_tokens ps" by (simp add: line_tokens_def)
  then show ?case using parse_piece [OF ok, of a] b(1) Cons.IH [OF _ b(2)] Cons.prems(1) by simp
qed

text \<open>Every option is spelled in one of the two ways, or has no name.\<close>

lemma token_spelling:
  assumes "\<not> (length token < 2 \<or> hd token \<noteq> CHR ''-'')"
  obtains n v where "token = dashed n @ ''='' @ v" "spelling_ok n" "n \<noteq> Short ''-''"
  | n where "token = dashed n" "spelling_ok n"
  | "\<And>rest a. parse_from (token # rest) a = Inl InvalidArgumentError"
proof -
  obtain c t where t: "token = CHR ''-'' # c # t" using assms by (cases token; cases "tl token") auto
  have malformed: "parse_from (token # rest) a = Inl InvalidArgumentError"
    if "token = ''--='' @ v \<or> token = ''-='' @ v" for v rest a
    using that by (auto simp: parse_from.simps(2) split_equals_def expand_short_def)
  show thesis
  proof (cases "c = CHR ''-'' \<and> t \<noteq> []")
    case True
    show thesis
    proof (cases "CHR ''='' \<in> set t")
      case e: True
      then obtain n v where n: "t = n @ CHR ''='' # v" "CHR ''='' \<notin> set n" by (meson split_list_first)
      then show thesis using that(1) [of "Long n" v] that(3) malformed [of v] t True by (cases "n = []") auto
    next
      case False
      then show thesis using that(2) [of "Long t"] t True by auto
    qed
  next
    case False
    show thesis
    proof (cases "CHR ''='' \<in> set (c # t)")
      case e: True
      then obtain n v where n: "c # t = n @ CHR ''='' # v" "CHR ''='' \<notin> set n" by (meson split_list_first)
      then show thesis using that(1) [of "Short n" v] that(3) malformed [of v] t False by (cases n) auto
    next
      case e: False
      then show thesis using that(2) [of "Short (c # t)"] t False by auto
    qed
  qed
qed

lemma put_option_meta: "put_option n v a = Inr b \<Longrightarrow> n = ''meta'' \<Longrightarrow> CHR ''='' \<in> set v"
  by (auto simp: put_option_def is_repeatable_def split_equals_def split: if_splits)

lemma put_option_flag: "put_option n [] a = Inr b \<Longrightarrow> n \<noteq> ''meta''"
  using put_option_meta by fastforce

lemma parsed_is_line: "parse_from ts a = Inr b \<Longrightarrow> \<exists>ps. line_ok ps \<and> line_tokens ps = ts"
proof (induction "length ts" arbitrary: ts a rule: less_induct)
  case less
  have cons: "line_ok (p # ps) \<Longrightarrow> line_tokens (p # ps) = piece_tokens p @ line_tokens ps" for p ps by (simp add: line_tokens_def)
  show ?case
  proof (cases ts)
    case Nil
    then show ?thesis by (intro exI [of _ "[]"]) (simp add: line_tokens_def)
  next
    case (Cons token rest)
    have IH: "\<exists>ps. line_ok ps \<and> line_tokens ps = rest'" if "length rest' \<le> length rest" "parse_from rest' a' = Inr b" for rest' a'
      using less.hyps [OF _ that(2)] that(1) Cons by simp
    show ?thesis
    proof (cases "length token < 2 \<or> hd token \<noteq> CHR ''-''")
      case True
      then obtain ps where "line_ok ps" "line_tokens ps = rest" using IH less.prems by (auto simp: Cons parse_from.simps(2))
      then show ?thesis using True by (intro exI [of _ "PWord token # ps"]) (simp add: Cons line_tokens_def)
    next
      case False
      then show ?thesis
      proof (cases rule: token_spelling)
        case (1 n v)
        have o: "CHR ''='' \<notin> set (bare n)" using option_name_ok [OF 1(2)] by simp
        obtain a' where a': "put_option (option_name n) v a = Inr a'" "parse_from rest a' = Inr b"
          using parse_option [OF 1(1,2), of v "Some v" rest a] split_equals_join [OF o, of v] 1(3) less.prems
          by (auto simp: Cons take_value_def rbind_Inr_iff)
        obtain ps where "line_ok ps" "line_tokens ps = rest" using IH [OF _ a'(2)] by blast
        then show ?thesis using 1 put_option_meta [OF a'(1)]
          by (intro exI [of _ "PInline n v # ps"]) (simp add: Cons line_tokens_def)
      next
        case (2 n)
        have o: "CHR ''='' \<notin> set (bare n)" using option_name_ok [OF 2(2)] by simp
        obtain v rest' a' where v: "take_value None rest = (v, rest')"
          and a': "put_option (option_name n) v a = Inr a'" "parse_from rest' a' = Inr b"
          using parse_option [of token n "[]" v None rest a for v] split_equals_none [OF o] 2 less.prems
          by (auto simp: Cons rbind_Inr_iff split: prod.splits)
        obtain ps where ps: "line_ok ps" "line_tokens ps = rest'" using IH [OF take_value_shrinks [OF v] a'(2)] by blast
        show ?thesis
        proof (cases "rest \<noteq> [] \<and> value_token (hd rest)")
          case True
          then have "rest = v # rest'" "value_token v" using v by (auto simp: take_value_def is_value_token split: list.splits)
          then show ?thesis using 2 ps put_option_meta [OF a'(1)]
            by (intro exI [of _ "PSpaced n v # ps"]) (simp add: Cons line_tokens_def)
        next
          case False
          then have r: "rest' = rest" "v = []" using v by (auto simp: take_value_def is_value_token split: list.splits if_splits)
          then show ?thesis using 2 ps put_option_flag [OF a'(1) [unfolded r]] False
            by (intro exI [of _ "PFlag n # ps"]) (auto simp: Cons line_tokens_def split: list.splits)
        qed
      next
        case 3
        then show ?thesis using less.prems by (simp add: Cons)
      qed
    qed
  qed
qed

section \<open>Properties\<close>

text \<open>C31: The parser accepts exactly the lines made of words, of options in their long or short spelling with a value after an
  equals sign or in the next argument (a negative number is a value, another option is not), and of flags not followed by
  an argument that would be taken for their value; a metadata option has a value with an equals sign. What it reads from such a
  line: the words are the positional arguments in order, an option has the value given last (a flag the empty one), and
  the metadata pairs, split at the first equals sign, are all there in order.\<close>

theorem command_line_round_trip:
  "(line_ok ps \<longrightarrow> (\<exists>a. parse_args (line_tokens ps) = Inr a \<and> ar_positionals a = line_words ps \<and>
      map_of (ar_options a) = line_options ps \<and> fst (arg_repeated ''meta'' a) = Inr (line_pairs ps))) \<and>
   (parse_args argv = Inr a \<longrightarrow> (\<exists>ps. line_ok ps \<and> line_tokens ps = argv))"
proof (intro conjI impI)
  assume "line_ok ps"
  moreover have "holds_line [] no_args" by (simp add: holds_line_def no_args_def line_words_def line_options_def line_pairs_def List.map_filter_def)
  ultimately obtain a where "parse_args (line_tokens ps) = Inr a" "holds_line ps a" using parse_line [of ps "[]"] by (auto simp: parse_args_def)
  then show "\<exists>a. parse_args (line_tokens ps) = Inr a \<and> ar_positionals a = line_words ps \<and>
      map_of (ar_options a) = line_options ps \<and> fst (arg_repeated ''meta'' a) = Inr (line_pairs ps)"
    by (auto simp: holds_line_def arg_repeated_def)
qed (simp add: parse_args_def parsed_is_line)

lemma command_line_round_trip_witness:
  "\<exists>a. parse_args [''search'', ''-k'', ''5'', ''--threshold'', ''-0.5'', ''--meta=a=b=c'', ''--json'', ''--metric'', ''l2'', ''db''] = Inr a \<and>
     ar_positionals a = [''search'', ''db''] \<and> map_of (ar_options a) ''threshold'' = Some ''-0.5'' \<and> map_of (ar_options a) ''json'' = Some [] \<and>
     fst (arg_repeated ''meta'' a) = Inr [(''a'', ''b=c'')]"
proof -
  let ?ps = "[PWord ''search'', PSpaced (Short ''k'') ''5'', PSpaced (Long ''threshold'') ''-0.5'', PInline (Long ''meta'') ''a=b=c'',
     PFlag (Long ''json''), PSpaced (Long ''metric'') ''l2'', PWord ''db'']"
  have ok: "line_ok ?ps" by (simp add: line_tokens_def expand_short_def)
  have t: "line_tokens ?ps = [''search'', ''-k'', ''5'', ''--threshold'', ''-0.5'', ''--meta=a=b=c'', ''--json'', ''--metric'', ''l2'', ''db'']"
    by (simp add: line_tokens_def)
  have m: "line_words ?ps = [''search'', ''db'']" "line_options ?ps ''threshold'' = Some ''-0.5''" "line_options ?ps ''json'' = Some []"
    "line_pairs ?ps = [(''a'', ''b=c'')]"
    by (simp_all add: line_words_def line_options_def line_pairs_def List.map_filter_def expand_short_def)
  obtain a where "parse_args (line_tokens ?ps) = Inr a" "ar_positionals a = line_words ?ps" "map_of (ar_options a) = line_options ?ps"
    "fst (arg_repeated ''meta'' a) = Inr (line_pairs ?ps)"
    using command_line_round_trip ok by blast
  then show ?thesis using m unfolding t by (intro exI [of _ a]) simp
qed

text \<open>Further: A flag takes the word that follows it for its value: a database path after \<^verbatim>\<open>--json\<close> is lost as a positional argument,
  where the usage text puts no order on the two.\<close>

theorem flag_swallows_word:
  assumes "is_value word" and "name \<noteq> []" and "CHR ''='' \<notin> set name" and "name \<noteq> ''meta''"
  shows "parse_args [''--'' @ name, word] = Inr (no_args\<lparr>ar_options := [(name, word)]\<rparr>) \<and>
    (\<forall>a. parse_args [''--'' @ name, word] = Inr a \<longrightarrow> fst (require_positional 0 a) = Inl InvalidArgumentError)"
proof -
  have "split_equals name = None" using assms(3) by (simp add: split_equals_def)
  then have p: "parse_args [''--'' @ name, word] = Inr (no_args\<lparr>ar_options := [(name, word)]\<rparr>)"
    using assms by (simp add: parse_args_def parse_from.simps take_value_def put_option_def is_repeatable_def no_args_def)
  then show ?thesis by (simp add: require_positional_def positional_def no_args_def)
qed

lemma flag_swallows_word_witness:
  "\<exists>a. parse_args [''--json'', ''my.vdb''] = Inr a \<and> ar_positionals a = []"
proof -
  have v: "is_value ''my.vdb''" "(''json'' :: string) \<noteq> []" "CHR ''='' \<notin> set ''json''" "''json'' \<noteq> ''meta''" by (simp_all add: is_value_def)
  from flag_swallows_word [OF v] show ?thesis by (simp add: no_args_def)
qed

text \<open>Further: A numeric option is a decimal number below \<open>2 ^ 64\<close> to its last character, and anything else is refused; an option
  without a value counts as absent.\<close>

theorem number_is_decimal:
  "fst (arg_number name fallback a) =
     (case map_of (ar_options a) name of
        None \<Rightarrow> Inr fallback
      | Some s \<Rightarrow>
          if s = [] then Inr fallback
          else if list_all is_digit s \<and> digits_value s < 2 ^ 64 then Inr (word_of_nat (digits_value s))
          else Inl InvalidArgumentError)"
  by (auto simp: arg_number_def arg_value_def abind_def from_chars_u64_def split: option.split)

text \<open>Further: The options reported as not recognised are those on the line that nothing asked for.\<close>

theorem unused_are_untouched:
  "set (arg_unused a) = (dom (map_of (ar_options a)) \<union> dom (map_of (ar_repeated a))) - set (ar_touched a)"
  by (auto simp: arg_unused_def dom_map_of_conv_image_fst)

end
