(* ===== verification/Vdb_Commands.thy ===== *)
theory Vdb_Commands
  imports Vdb_Output Vdb_Args Vdb_Reopen Vdb_Rng
begin

text \<open>
  The commands (\<^verbatim>\<open>src/cli/commands.cpp\<close>) and the dispatch (\<^verbatim>\<open>src/cli/main.cpp\<close>). A command runs over the parsed line, what it
  printed and the database it opened, and ends with an exit code or an exception; the database is destroyed, which
  flushes it, however the command ends. What the standard library reads and prints, the clock and the streams of the CSV
  files are the environment.
\<close>

section \<open>Around a command\<close>

datatype log_level = LogTrace | LogDebug | LogInfo | LogWarn | LogError | LogOff

definition kLevelNames :: "(string \<times> log_level) list" where
  "kLevelNames =
     [(''trace'', LogTrace), (''debug'', LogDebug), (''info'', LogInfo), (''warn'', LogWarn), (''warning'', LogWarn),
      (''error'', LogError), (''off'', LogOff)]"

definition parse_log_level :: "string \<Rightarrow> log_level option" where
  "parse_log_level name = map_of kLevelNames name"

record global_options =
  go_json :: bool
  go_quiet :: bool

text \<open>
  \<open>ce_elapsed\<close> is the time between the two readings of the clock, in milliseconds; \<open>ce_memory\<close> the bytes in use by vectors
  and index; \<open>ce_stream\<close> whether the stream of a CSV file opens, whether it is good after the last write, and how many
  characters reach the file when it is not; \<open>ce_log_file\<close> whether a log file can be opened; \<open>ce_stod\<close> and \<open>ce_strtod\<close> read a number at the start of a text.
\<close>

record 'db cli_env =
  ce_db :: "'db env"
  ce_text :: text_format
  ce_print :: output_format
  ce_strtod :: "string \<Rightarrow> f64 \<times> nat"
  ce_stod :: "string \<Rightarrow> (f64 \<times> nat) option"
  ce_math :: math_functions
  ce_elapsed :: f64
  ce_memory :: "nat \<times> nat"
  ce_stream :: "string \<Rightarrow> world \<Rightarrow> bool \<times> bool \<times> nat"
  ce_log_file :: "string \<Rightarrow> bool"
  ce_build_info :: string

text \<open>\<open>se_rest\<close> is the open database, or the files for a command without one.\<close>

record 's session =
  se_args :: args
  se_out :: string
  se_rest :: 's

type_synonym ('s, 'a) cmd_act = "('s session, 'a) act"

definition on_args :: "(args, 'a) act \<Rightarrow> ('s, 'a) cmd_act" where
  "on_args = azoom se_args (\<lambda>a s. s\<lparr>se_args := a\<rparr>)"

definition on_rest :: "('s, 'a) act \<Rightarrow> ('s, 'a) cmd_act" where
  "on_rest = azoom se_rest (\<lambda>d s. s\<lparr>se_rest := d\<rparr>)"

definition emit :: "string \<Rightarrow> ('s, unit) cmd_act" where
  "emit out s = (Inr (), s\<lparr>se_out := se_out s @ out\<rparr>)"

text \<open>
  What a command leaves: a database it opened and closed, or the files when no database object came into being. (What
  SQLite and the creation of the directory did before a \<^verbatim>\<open>create\<close> failed is among the answers of \<open>host\<close>, not of the files.)
\<close>

datatype 'db left = Closed "'db database" | Files world

type_synonym 'db ended = "nat result \<times> string \<times> 'db left"
type_synonym 'db command = "'db cli_env \<Rightarrow> global_options \<Rightarrow> args \<Rightarrow> 'db host \<Rightarrow> 'db ended"

definition kExitOk :: nat where "kExitOk = 0"
definition kExitError :: nat where "kExitError = 1"
definition kExitUsage :: nat where "kExitUsage = 2"
definition kExitCheckFailed :: nat where "kExitCheckFailed = 3"

definition reject_unknown_options :: "(args, unit) act" where
  "reject_unknown_options a = (if arg_unused a = [] then (Inr (), a) else (Inl InvalidArgumentError, a))"

definition close_after :: "'db cli_env \<Rightarrow> args \<Rightarrow> 'db database \<Rightarrow> ('db database, nat) cmd_act \<Rightarrow> 'db ended" where
  "close_after env args d body =
     (case body \<lparr>se_args = args, se_out = [], se_rest = d\<rparr> of
        (r, s) \<Rightarrow> (r, se_out s, Closed (db_destroy (ce_db env) (se_rest s))))"

definition open_database :: "'db cli_env \<Rightarrow> args \<Rightarrow> 'db host \<Rightarrow> ('db database, nat) cmd_act \<Rightarrow> 'db ended" where
  "open_database env args host body =
     (case require_positional 0 args of
        (Inl e, _) \<Rightarrow> (Inl e, [], Files (ho_world host))
      | (Inr path, args) \<Rightarrow>
          (case db_open (ce_db env) path host of
             Inl e \<Rightarrow> (Inl e, [], Files (ho_world host))
           | Inr d \<Rightarrow> close_after env args d body))"

section \<open>Files\<close>

text \<open>A file written or read through a stream. Opening one for writing truncates it.\<close>

definition put_file :: "string \<Rightarrow> byte list \<Rightarrow> world \<Rightarrow> world" where
  "put_file path bytes w =
     (case w_dir w path of
        Some i \<Rightarrow> w\<lparr>w_data := (w_data w)(i := bytes), w_data_disk := (w_data_disk w)(i := None)\<rparr>
      | None \<Rightarrow> w\<lparr>w_dir := (w_dir w)(path \<mapsto> w_next w), w_data := (w_data w)(w_next w := bytes),
                 w_data_disk := (w_data_disk w)(w_next w := None), w_next := w_next w + 1\<rparr>)"

text \<open>The error is that of the writer; the file is untouched when it was not opened, or holds what got through.\<close>

definition save_csv :: "'db cli_env \<Rightarrow> string \<Rightarrow> vector_array \<Rightarrow> vector_id list \<Rightarrow> (world, unit) act" where
  "save_csv env path vectors ids w =
     (case ce_stream env path w of (can_open, good, n) \<Rightarrow>
        case write_vector_csv (ce_text env) can_open good vectors ids of
          Inr csv \<Rightarrow> (Inr (), put_file path (ascii csv) w)
        | Inl e \<Rightarrow> (Inl e,
            case write_vector_csv (ce_text env) can_open True vectors ids of
              Inl _ \<Rightarrow> w
            | Inr csv \<Rightarrow> put_file path (ascii (take n csv)) w))"

definition load_csv :: "'db cli_env \<Rightarrow> string \<Rightarrow> bool \<Rightarrow> (world, vector_batch) act" where
  "load_csv env path with_ids w =
     (read_vector_csv (ce_text env)
        (if fst (ce_stream env path w) then map_option (map (\<lambda>b. char_of (unat b))) (visible w path) else None) with_ids, w)"

section \<open>Reading the line\<close>

definition read_query :: "'db cli_env \<Rightarrow> ('db database, vec) cmd_act" where
  "read_query env =
     abind (on_args (arg_value ''query'')) (\<lambda>literal.
     abind (on_args (arg_value ''query-file'')) (\<lambda>file_name.
     abind (aguard (literal \<noteq> None \<and> file_name \<noteq> None) InvalidArgumentError) (\<lambda>_.
     case literal of
       Some s \<Rightarrow> alift (parse_vector_literal (ce_text env) s)
     | None \<Rightarrow> (case file_name of
         Some path \<Rightarrow>
           abind (on_rest (on_files (read_vector_matrix path))) (\<lambda>batch.
           abind (aguard (va_count (vb_vectors batch) = 0) InvalidArgumentError) (\<lambda>_.
           aret (va_view (vb_vectors batch) 0)))
       | None \<Rightarrow> athrow InvalidArgumentError))))"

text \<open>\<^verbatim>\<open>std::stoll\<close> with the test that it consumed the whole text.\<close>

definition stoll_whole :: "string \<Rightarrow> u64 option" where
  "stoll_whole s =
     (let s = skip_spaces s;
          neg = (s \<noteq> [] \<and> hd s = CHR ''-'');
          ds = (if s \<noteq> [] \<and> hd s \<in> {CHR ''-'', CHR ''+''} then drop 1 s else s);
          n = digits_value ds in
      if ds = [] \<or> \<not> list_all is_digit ds then None
      else if neg then (if n \<le> 2 ^ 63 then Some (- word_of_nat n) else None)
      else (if n < 2 ^ 63 then Some (word_of_nat n) else None))"

definition metadata_of_text :: "'db cli_env \<Rightarrow> string \<Rightarrow> metadata_value" where
  "metadata_of_text env s =
     (if length s \<ge> 2 \<and> hd s = quote_char \<and> last s = quote_char then MText (butlast (drop 1 s))
      else case stoll_whole s of
        Some n \<Rightarrow> MInt n
      | None \<Rightarrow> (case ce_stod env s of
          Some (x, consumed) \<Rightarrow> if consumed = length s then MReal x else MText s
        | None \<Rightarrow> MText s))"

definition read_metadata :: "'db cli_env \<Rightarrow> (args, metadata) act" where
  "read_metadata env =
     abind (arg_repeated ''meta'') (\<lambda>pairs.
     aret (foldl (\<lambda>md (k, s). list_put str_less k (metadata_of_text env s) md) [] pairs))"

definition read_query_options :: "'db cli_env \<Rightarrow> (args, query_options) act" where
  "read_query_options env =
     abind (arg_number ''k'' 10) (\<lambda>k.
     abind (arg_number ''ef-search'' 0) (\<lambda>ef.
     abind (arg_has ''exact'') (\<lambda>exact.
     abind (arg_number ''oversample'' 0) (\<lambda>oversample.
     abind (arg_value ''filter'') (\<lambda>expression.
     abind (case expression of None \<Rightarrow> aret [] | Some s \<Rightarrow> alift (filter_parse (ce_strtod env) s)) (\<lambda>f.
     aret \<lparr>qo_k = unat k, qo_ef_search = unat ef, qo_filter = f, qo_exact = exact, qo_filter_oversample = unat oversample,
           qo_include_metadata = True\<rparr>))))))"

text \<open>The id of \<^verbatim>\<open>get\<close> and \<^verbatim>\<open>delete\<close>.\<close>

definition read_id :: "string \<Rightarrow> u64 result" where
  "read_id s = (case stoull s of None \<Rightarrow> Inl InvalidArgumentError | Some i \<Rightarrow> Inr i)"

definition named :: "(string \<Rightarrow> 'a option) \<Rightarrow> 'a \<Rightarrow> string option \<Rightarrow> 'a result" where
  "named parse fallback s =
     (case s of None \<Rightarrow> Inr fallback | Some t \<Rightarrow> (case parse t of None \<Rightarrow> Inl InvalidArgumentError | Some x \<Rightarrow> Inr x))"

section \<open>Database commands\<close>

definition read_create_config :: "(args, database_config) act" where
  "read_create_config =
     abind (arg_require_number ''dimension'') (\<lambda>dimension.
     abind (arg_value ''metric'') (\<lambda>metric_text.
     abind (alift (named parse_metric Cosine metric_text)) (\<lambda>m.
     abind (arg_value ''index'') (\<lambda>index_text.
     abind (alift (named parse_index_type Hnsw index_text)) (\<lambda>t.
     abind (arg_has ''normalize'') (\<lambda>normalize.
     abind (arg_number ''m'' (word_of_nat (hc_m hc_default))) (\<lambda>hm.
     abind (arg_number ''ef-construction'' (word_of_nat (hc_ef_construction hc_default))) (\<lambda>efc.
     abind (arg_number ''ef-search'' (word_of_nat (hc_ef_search hc_default))) (\<lambda>efs.
     abind (arg_number ''seed'' (hc_seed hc_default)) (\<lambda>seed.
     aret \<lparr>dc_dimension = cast_u32 (unat dimension), dc_metric = m, dc_index_type = t,
           dc_hnsw = \<lparr>hc_m = unat hm, hc_ef_construction = unat efc, hc_ef_search = unat efs, hc_seed = seed\<rparr>,
           dc_normalize = normalize\<rparr>))))))))))"

definition show_info :: "'db cli_env \<Rightarrow> bool \<Rightarrow> ('db database, unit) cmd_act" where
  "show_info env json =
     abind (on_rest (db_get_stats (ce_db env))) (\<lambda>stats s. emit (print_info (se_rest s) stats json) s)"

definition command_create :: "'db command" where
  "command_create env global args host =
     (case require_positional 0 args of
        (Inl e, _) \<Rightarrow> (Inl e, [], Files (ho_world host))
      | (Inr path, args) \<Rightarrow>
          (case abind read_create_config (\<lambda>c. abind reject_unknown_options (\<lambda>_. aret c)) args of
             (Inl e, _) \<Rightarrow> (Inl e, [], Files (ho_world host))
           | (Inr c, args) \<Rightarrow>
               (case db_create (ce_db env) path c host of
                  Inl e \<Rightarrow> (Inl e, [], Files (ho_world host))
                | Inr (Inl e, d) \<Rightarrow> (Inl e, [], Closed d)
                | Inr (Inr _, d) \<Rightarrow> close_after env args d
                    (abind (if go_json global then show_info env True
                            else if \<not> go_quiet global
                            then abind (emit (''Created database '' @ [CHR 0x27] @ path @ [CHR 0x27] @ nl)) (\<lambda>_. show_info env False)
                            else aret ()) (\<lambda>_. aret kExitOk)))))"

definition command_info :: "'db command" where
  "command_info env global args host = open_database env args host
     (abind (on_args reject_unknown_options) (\<lambda>_.
      abind (show_info env (go_json global)) (\<lambda>_. aret kExitOk)))"

definition command_stats :: "'db command" where
  "command_stats env global args host = open_database env args host
     (abind (on_args reject_unknown_options) (\<lambda>_.
      abind (on_rest (db_get_stats (ce_db env))) (\<lambda>stats.
      abind (emit (print_stats (ce_print env) (fst (ce_memory env)) (snd (ce_memory env)) stats (go_json global))) (\<lambda>_.
      aret kExitOk))))"

definition command_insert :: "'db command" where
  "command_insert env global args host = open_database env args host
     (abind (on_args (arg_require ''vector'')) (\<lambda>literal.
      abind (alift (parse_vector_literal (ce_text env) literal)) (\<lambda>v.
      abind (on_args (read_metadata env)) (\<lambda>md.
      abind (on_args (arg_has ''id'')) (\<lambda>has_id.
      abind (on_args (arg_number ''id'' 0)) (\<lambda>vid.
      abind (on_args reject_unknown_options) (\<lambda>_.
      abind (on_rest (if has_id then abind (db_insert (ce_db env) vid v md) (\<lambda>_. aret vid)
                      else db_insert_auto (ce_db env) v md)) (\<lambda>assigned.
      abind (on_rest (db_flush (ce_db env))) (\<lambda>_.
      abind (emit (if go_json global then ''{'' @ json_field 0 ''inserted'' ''1'' @ [CHR '','', CHR '' ''] @ json_field 0 ''id'' (show_nat (unat assigned)) @ ''}'' @ nl
                   else if \<not> go_quiet global then ''Inserted vector with id '' @ show_nat (unat assigned) @ ''.'' @ nl
                   else [])) (\<lambda>_.
      aret kExitOk))))))))))"

definition command_get :: "'db command" where
  "command_get env global args host = open_database env args host
     (abind (on_args (require_positional 1)) (\<lambda>id_text.
      abind (on_args (arg_number ''preview'' 8)) (\<lambda>preview.
      abind (on_args reject_unknown_options) (\<lambda>_.
      abind (alift (read_id id_text)) (\<lambda>vid.
      abind (on_rest (db_get (ce_db env) vid)) (\<lambda>hit.
      case hit of
        None \<Rightarrow> athrow NotFoundError
      | Some stored \<Rightarrow>
          abind (emit (print_stored_vector (ce_print env) stored (go_json global) (unat preview))) (\<lambda>_. aret kExitOk)))))))"

definition command_delete :: "'db command" where
  "command_delete env global args host = open_database env args host
     (abind (on_args (require_positional 1)) (\<lambda>id_text.
      abind (on_args reject_unknown_options) (\<lambda>_.
      abind (alift (read_id id_text)) (\<lambda>vid.
      abind (on_rest (db_remove (ce_db env) vid)) (\<lambda>removed.
      abind (on_rest (db_flush (ce_db env))) (\<lambda>_.
      abind (emit (if go_json global then ''{'' @ json_field 0 ''deleted'' (if removed then ''1'' else ''0'') @ [CHR '','', CHR '' ''] @ json_field 0 ''id'' (show_nat (unat vid)) @ ''}'' @ nl
                   else if \<not> go_quiet global then (if removed then ''Deleted vector '' else ''No vector with id '') @ show_nat (unat vid) @ ''.'' @ nl
                   else [])) (\<lambda>_.
      aret (if removed then kExitOk else kExitError))))))))"

definition command_search :: "'db command" where
  "command_search env global args host = open_database env args host
     (abind (read_query env) (\<lambda>query.
      abind (on_args (read_query_options env)) (\<lambda>options.
      abind (on_args (arg_has ''time'')) (\<lambda>timing.
      abind (on_args reject_unknown_options) (\<lambda>_.
      abind (on_rest (db_search (ce_db env) query options)) (\<lambda>results.
      abind (\<lambda>s. emit (print_results (ce_print env) results (dc_metric (db_config (se_rest s))) (go_json global) True) s) (\<lambda>_.
      abind (emit (if timing \<and> \<not> go_json global then nl @ of_fixed (ce_print env) 3 (ce_elapsed env) @ '' ms'' @ nl else [])) (\<lambda>_.
      aret kExitOk))))))))"

definition command_batch_search :: "'db command" where
  "command_batch_search env global args host = open_database env args host
     (abind (on_args (arg_require ''queries'')) (\<lambda>path.
      abind (on_args (read_query_options env)) (\<lambda>options.
      abind (on_args (arg_has ''time'')) (\<lambda>timing.
      abind (on_args reject_unknown_options) (\<lambda>_.
      abind (on_rest (on_files (read_vector_matrix path))) (\<lambda>batch.
      abind (on_rest (db_batch_search (ce_db env) (va_rows (vb_vectors batch)) options)) (\<lambda>results.
      abind (\<lambda>s. emit (print_batch_results (ce_print env) results (dc_metric (db_config (se_rest s))) (go_json global)) s) (\<lambda>_.
      abind (emit (if timing \<and> \<not> go_json global then
                     of_fixed (ce_print env) 3 (ce_elapsed env) @ '' ms for '' @ show_nat (va_count (vb_vectors batch)) @ '' queries ('' @
                     of_fixed (ce_print env) 3 (f64_div (ce_elapsed env) (f64_of_int (int (va_count (vb_vectors batch))))) @ '' ms each)'' @ nl
                   else [])) (\<lambda>_.
      aret kExitOk)))))))))"

section \<open>Import and export\<close>

fun import_rows :: "'db env \<Rightarrow> vector_batch \<Rightarrow> u64 option \<Rightarrow> nat list \<Rightarrow> ('db, unit) db_act" where
  "import_rows env batch start_id [] = aret ()"
| "import_rows env batch start_id (i # is) =
     abind (if vb_ids batch \<noteq> [] \<and> start_id = None then db_insert env (vb_ids batch ! i) (va_view (vb_vectors batch) i) []
            else case start_id of
              Some n \<Rightarrow> db_insert env (n + word_of_nat i) (va_view (vb_vectors batch) i) []
            | None \<Rightarrow> abind (db_insert_auto env (va_view (vb_vectors batch) i) []) (\<lambda>_. aret ())) (\<lambda>_.
     import_rows env batch start_id is)"

text \<open>
  Vectors per second. The cast to an integer is undefined in C++ when the rate is infinite, which a clock that has not
  moved makes it; then the value here stands for whatever is printed. Reserving room before the rows is left out: it
  changes no value, and can only fail for want of memory.
\<close>

definition import_speed :: "nat \<Rightarrow> f64 \<Rightarrow> nat" where
  "import_speed n elapsed = f64_trunc (f64_div (f64_of_int (int n)) (f64_div elapsed (f64_of_int 1000)))"

definition command_import :: "'db command" where
  "command_import env global args host = open_database env args host
     (abind (on_args (arg_require ''input'')) (\<lambda>path.
      abind (on_args (arg_has ''csv'')) (\<lambda>csv.
      abind (on_args (arg_has ''csv-ids'')) (\<lambda>csv_ids.
      abind (on_args (arg_number ''start-id'' 0)) (\<lambda>start_id.
      abind (on_args (arg_has ''start-id'')) (\<lambda>has_start_id.
      abind (on_args reject_unknown_options) (\<lambda>_.
      abind (on_rest (on_files (if csv then load_csv env path csv_ids else read_vector_matrix path))) (\<lambda>batch.
      abind (on_rest (db_read (\<lambda>d. aguard (va_dimension (vb_vectors batch) \<noteq> dc_dimension (db_config d))
               (DimensionMismatchError (dc_dimension (db_config d)) (va_dimension (vb_vectors batch)))))) (\<lambda>_.
      abind (on_rest (import_rows (ce_db env) batch (if has_start_id then Some start_id else None) [0..<va_count (vb_vectors batch)])) (\<lambda>_.
      abind (on_rest (db_flush (ce_db env))) (\<lambda>_.
      abind (\<lambda>s. emit (if go_json global then
                 ''{'' @ json_field 0 ''imported'' (show_nat (va_count (vb_vectors batch))) @ [CHR '','', CHR '' '']
                 @ json_field 0 ''total'' (show_nat (vs_live_count (db_store (se_rest s)))) @ [CHR '','', CHR '' '']
                 @ json_field 0 ''ms'' (of_f64 (ce_print env) (ce_elapsed env)) @ ''}'' @ nl
               else if \<not> go_quiet global then
                 ''Imported '' @ group_digits (va_count (vb_vectors batch)) @ '' vectors in '' @ of_fixed (ce_print env) 1 (ce_elapsed env) @ '' ms (''
                 @ group_digits (import_speed (va_count (vb_vectors batch)) (ce_elapsed env)) @ '' vectors/second).'' @ nl
                 @ ''Database now holds '' @ group_digits (vs_live_count (db_store (se_rest s))) @ '' vectors.'' @ nl
               else []) s) (\<lambda>_.
      aret kExitOk))))))))))))"

fun export_rows :: "'db env \<Rightarrow> u64 list \<Rightarrow> vector_array \<Rightarrow> u64 list \<Rightarrow> ('db, vector_array \<times> u64 list) db_act" where
  "export_rows env [] vectors ids = aret (vectors, ids)"
| "export_rows env (i # is) vectors ids =
     abind (db_get env i) (\<lambda>hit. case hit of
       None \<Rightarrow> export_rows env is vectors ids
     | Some stored \<Rightarrow>
         abind (alift (va_push_back vectors (sv_vector stored))) (\<lambda>(_, vectors). export_rows env is vectors (ids @ [i])))"

definition gather_live :: "'db env \<Rightarrow> ('db, vector_array \<times> u64 list) db_act" where
  "gather_live env = db_read (\<lambda>d.
     abind (alift (va_new (dc_dimension (db_config d)))) (\<lambda>vectors. export_rows env (db_all_ids d) vectors []))"

definition command_export :: "'db command" where
  "command_export env global args host = open_database env args host
     (abind (on_args (arg_require ''output'')) (\<lambda>path.
      abind (on_args (arg_has ''csv'')) (\<lambda>csv.
      abind (on_args reject_unknown_options) (\<lambda>_.
      abind (on_rest (gather_live (ce_db env))) (\<lambda>(vectors, ids).
      abind (on_rest (on_files (if csv then save_csv env path vectors ids else write_vector_matrix path vectors ids))) (\<lambda>_.
      abind (emit (if go_json global then ''{'' @ json_field 0 ''exported'' (show_nat (va_count vectors)) @ ''}'' @ nl
                   else if \<not> go_quiet global then ''Exported '' @ group_digits (va_count vectors) @ '' vectors to '' @ [CHR 0x27] @ path @ [CHR 0x27] @ ''.'' @ nl
                   else [])) (\<lambda>_.
      aret kExitOk)))))))"

definition parse_kind :: "string \<Rightarrow> dataset_kind option" where
  "parse_kind s =
     (if s = ''uniform'' then Some Uniform else if s = ''gaussian'' then Some Gaussian else if s = ''clustered'' then Some Clustered else None)"

definition kClusterStddev :: f32 where
  "kClusterStddev = 0x3E19999A"

definition read_spec :: "(args, dataset_spec) act" where
  "read_spec =
     abind (arg_require_number ''dimension'') (\<lambda>dimension.
     abind (arg_require_number ''count'') (\<lambda>cnt.
     abind (arg_number ''seed'' 42) (\<lambda>seed.
     abind (arg_number ''sample-seed'' seed) (\<lambda>sample_seed.
     abind (arg_number ''clusters'' 0) (\<lambda>clusters.
     abind (arg_value ''kind'') (\<lambda>kind_text.
     abind (alift (named parse_kind Clustered kind_text)) (\<lambda>kind.
     aret \<lparr>dataset_spec.ds_dimension = cast_u32 (unat dimension), ds_count = unat cnt, ds_seed = seed, ds_sample_seed = sample_seed,
           ds_kind = kind, ds_cluster_count = unat clusters, ds_cluster_stddev = kClusterStddev\<rparr>)))))))"

definition command_generate :: "'db command" where
  "command_generate env global args host =
     (case abind (on_args read_spec) (\<lambda>spec.
           abind (on_args (arg_require ''output'')) (\<lambda>path.
           abind (on_args (arg_has ''csv'')) (\<lambda>csv.
           abind (on_args reject_unknown_options) (\<lambda>_.
           abind (alift (generate_dataset (ce_math env) spec)) (\<lambda>vectors.
           abind (on_rest (if csv then save_csv env path vectors [] else write_vector_matrix path vectors [])) (\<lambda>_.
           abind (emit (if go_json global then
                          ''{'' @ json_field 0 ''generated'' (show_nat (va_count vectors)) @ [CHR '','', CHR '' '']
                          @ json_field 0 ''dimension'' (show_nat (dataset_spec.ds_dimension spec)) @ [CHR '','', CHR '' '']
                          @ json_field 0 ''seed'' (show_nat (unat (ds_seed spec))) @ ''}'' @ nl
                        else if \<not> go_quiet global then
                          ''Wrote '' @ group_digits (va_count vectors) @ '' vectors of dimension '' @ show_nat (dataset_spec.ds_dimension spec)
                          @ '' to '' @ [CHR 0x27] @ path @ [CHR 0x27] @ '' (seed '' @ show_nat (unat (ds_seed spec)) @ '').'' @ nl
                        else [])) (\<lambda>_.
           aret kExitOk))))))) \<lparr>se_args = args, se_out = [], se_rest = ho_world host\<rparr> of
        (r, s) \<Rightarrow> (r, se_out s, Files (se_rest s)))"

section \<open>Maintenance commands\<close>

definition command_rebuild_index :: "'db command" where
  "command_rebuild_index env global args host = open_database env args host
     (abind (on_args reject_unknown_options) (\<lambda>_.
      abind (on_rest (db_rebuild_index (ce_db env))) (\<lambda>_.
      abind (\<lambda>s. emit (if go_json global then
                 ''{'' @ json_field 0 ''rebuilt'' ''true'' @ [CHR '','', CHR '' ''] @ json_field 0 ''vectors'' (show_nat (vs_live_count (db_store (se_rest s))))
                 @ [CHR '','', CHR '' ''] @ json_field 0 ''ms'' (of_f64 (ce_print env) (ce_elapsed env)) @ ''}'' @ nl
               else if \<not> go_quiet global then
                 ''Rebuilt the index over '' @ group_digits (vs_live_count (db_store (se_rest s))) @ '' vectors in ''
                 @ of_fixed (ce_print env) 1 (ce_elapsed env) @ '' ms.'' @ nl
               else []) s) (\<lambda>_.
      aret kExitOk))))"

definition command_compact :: "'db command" where
  "command_compact env global args host = open_database env args host
     (abind (on_args reject_unknown_options) (\<lambda>_.
      abind (on_rest (db_compact (ce_db env))) (\<lambda>reclaimed.
      abind (emit (if go_json global then
                 ''{'' @ json_field 0 ''reclaimed'' (show_nat reclaimed) @ [CHR '','', CHR '' '']
                 @ json_field 0 ''ms'' (of_f64 (ce_print env) (ce_elapsed env)) @ ''}'' @ nl
               else if \<not> go_quiet global then
                 (if reclaimed = 0 then ''Nothing to compact.'' @ nl
                  else ''Reclaimed '' @ group_digits reclaimed @ '' deleted slots in '' @ of_fixed (ce_print env) 1 (ce_elapsed env) @ '' ms.'' @ nl)
               else [])) (\<lambda>_.
      aret kExitOk))))"

definition command_check :: "'db command" where
  "command_check env global args host = open_database env args host
     (abind (on_args (arg_has ''deep'')) (\<lambda>deep.
      abind (on_args reject_unknown_options) (\<lambda>_.
      abind (on_rest (db_check (ce_db env) deep)) (\<lambda>issues.
      abind (emit (print_check (ce_print env) issues (go_json global))) (\<lambda>_.
      aret (if error_count issues > 0 then kExitCheckFailed else kExitOk))))))"

section \<open>The entry point\<close>

definition usage_text :: string where
  "usage_text = concat (map (\<lambda>l. l @ nl)
    [''vectordb '' @ [CHR 0xE2, CHR 0x80, CHR 0x94] @ '' a local-first vector database'',
     [],
     ''usage: vectordb <command> [arguments] [options]'',
     [],
     ''Database lifecycle'',
     ''  create <db> --dimension D [--metric M] [--index I] [--normalize]'',
     ''                            [--m M] [--ef-construction N] [--ef-search N] [--seed S]'',
     ''  info <db>                 configuration and contents'',
     ''  stats <db>                detailed counters, memory and file sizes'',
     ''  check <db> [--deep]       validate structure; --deep also verifies checksums'',
     [],
     ''Vectors'',
     ''  insert <db> --vector \"0.1,0.2,...\" [--id N] [--meta key=value ...]'',
     ''  get <db> <id> [--preview N]'',
     ''  delete <db> <id>'',
     ''  import <db> --input FILE [--csv] [--csv-ids] [--start-id N]'',
     ''  export <db> --output FILE [--csv]'',
     [],
     ''Search'',
     ''  search <db> --query \"0.1,0.2,...\" [--k N] [--ef-search N]'',
     ''              [--filter EXPR] [--exact] [--time]'',
     ''  search <db> --query-file FILE [...]'',
     ''  batch-search <db> --queries FILE [--k N] [--time]'',
     [],
     ''Maintenance'',
     ''  rebuild-index <db>        rebuild the ANN index from the stored vectors'',
     ''  compact <db>              reclaim slots left by deleted vectors'',
     [],
     ''Tools'',
     ''  generate --output FILE --dimension D --count N [--kind K] [--seed S] [--csv]'',
     ''  version                   version and build information'',
     ''  help                      this message'',
     [],
     ''Global options'',
     ''  --json                    machine-readable output'',
     ''  --quiet                   suppress progress messages'',
     ''  --verbose                 log at info level (repeat as --log-level debug)'',
     ''  --log-level LEVEL         trace | debug | info | warn | error | off'',
     ''  --log-file PATH           also write logs to a file'',
     [],
     ''Metrics:      l2 (default alias euclidean), cosine, dot'',
     ''Index types:  hnsw (default), brute_force'',
     ''Filters:      \"category == '' @ [CHR 0x5C] @ ''\"finance'' @ [CHR 0x5C] @ ''\" and year >= 2020\"   (== != < <= > >=, and only)'',
     [],
     ''Exit codes:   0 success   1 error   2 usage   3 check found errors'',
     [],
     ''Examples'',
     ''  vectordb create demo.vdb --dimension 4 --metric cosine'',
     ''  vectordb insert demo.vdb --vector \"1,0,0,0\" --meta name=first --meta year=2026'',
     ''  vectordb search demo.vdb --query \"1,0,0,0\" --k 5 --time'',
     ''  vectordb generate --output data.vecs --dimension 128 --count 10000'',
     ''  vectordb import demo128.vdb --input data.vecs''])"

text \<open>
  A log file is opened for appending: it is there from then on, empty if it was not there before, and the lines logged to it
  are not followed. The directories made on the way are not either.
\<close>

definition log_file :: "string \<Rightarrow> world \<Rightarrow> world" where
  "log_file path w = (case w_dir w path of None \<Rightarrow> put_file path [] w | Some _ \<Rightarrow> w)"

definition add_log_file :: "'db cli_env \<Rightarrow> string \<Rightarrow> (world, unit) act" where
  "add_log_file env path w = (if ce_log_file env path then (Inr (), log_file path w) else (Inl IoError, w))"

definition configure :: "'db cli_env \<Rightarrow> (world, global_options \<times> log_level) cmd_act" where
  "configure env =
     abind (on_args (arg_has ''json'')) (\<lambda>json.
     abind (on_args (arg_has ''quiet'')) (\<lambda>quiet.
     abind (on_args (arg_has ''verbose'')) (\<lambda>verbose.
     abind (on_args (arg_value ''log-level'')) (\<lambda>level_text.
     abind (alift (named parse_log_level (if verbose then LogInfo else LogWarn) level_text)) (\<lambda>level.
     abind (on_args (arg_value ''log-file'')) (\<lambda>path.
     abind (case path of None \<Rightarrow> aret () | Some p \<Rightarrow> on_rest (add_log_file env p)) (\<lambda>_.
     aret (\<lparr>go_json = json, go_quiet = quiet\<rparr>, level))))))))"

definition command_table :: "(string \<times> 'db command) list" where
  "command_table =
     [(''create'', command_create), (''info'', command_info), (''stats'', command_stats), (''insert'', command_insert),
      (''get'', command_get), (''delete'', command_delete), (''search'', command_search), (''batch-search'', command_batch_search),
      (''import'', command_import), (''export'', command_export), (''generate'', command_generate),
      (''rebuild-index'', command_rebuild_index), (''compact'', command_compact), (''check'', command_check)]"

definition exit_of_error :: "error \<Rightarrow> nat" where
  "exit_of_error e = (if is_invalid_argument e then kExitUsage else kExitError)"

text \<open>The \<^verbatim>\<open>try\<close> block: the error thrown or the code returned. A command that does not exist is a code.\<close>

definition run_command :: "'db cli_env \<Rightarrow> string \<Rightarrow> string list \<Rightarrow> 'db host \<Rightarrow> 'db ended" where
  "run_command env command rest host =
     (case parse_args rest of
        Inl e \<Rightarrow> (Inl e, [], Files (ho_world host))
      | Inr args \<Rightarrow>
          (case configure env \<lparr>se_args = args, se_out = [], se_rest = ho_world host\<rparr> of
             (Inl e, s) \<Rightarrow> (Inl e, [], Files (se_rest s))
           | (Inr (global, _), s) \<Rightarrow>
               (case map_of command_table command of
                  None \<Rightarrow> (Inr kExitUsage, [], Files (se_rest s))
                | Some handler \<Rightarrow> handler env global (se_args s) (host\<lparr>ho_world := se_rest s\<rparr>))))"

text \<open>What the program prints on the standard output and its exit code, with what the command left.\<close>

definition cli_main :: "'db cli_env \<Rightarrow> string list \<Rightarrow> 'db host \<Rightarrow> nat \<times> string \<times> 'db left" where
  "cli_main env raw host =
     (case raw of
        [] \<Rightarrow> (kExitUsage, usage_text, Files (ho_world host))
      | command # rest \<Rightarrow>
          if command \<in> {''help'', ''--help'', ''-h''} then (kExitOk, usage_text, Files (ho_world host))
          else if command \<in> {''version'', ''--version'', ''-V''} then
            (kExitOk, ce_build_info env @ ''  kernel:     '' @ kn_name (en_kernel (ce_db env)) @ nl, Files (ho_world host))
          else case run_command env command rest host of
            (Inl e, out, left) \<Rightarrow> (exit_of_error e, out, left)
          | (Inr code, out, left) \<Rightarrow> (code, out, left))"

end
