(* ===== verification/Vdb_CommandLine.thy ===== *)
theory Vdb_CommandLine
  imports Vdb_Commands Vdb_Concurrent
begin

text \<open>
  What every command shares: the reading of the line and of the global options, what a mistyped option can do, and what the
  exit codes say.
\<close>

section \<open>Reading the line\<close>









section \<open>Before the options are checked\<close>
















definition program_options :: "string list" where
  "program_options = [''json'', ''quiet'', ''verbose'', ''log-level'', ''log-file'']"


text \<open>The global options. Beside the names asked for, only a log file they name may come into being.\<close>

definition logged :: "args \<Rightarrow> world \<Rightarrow> world \<Rightarrow> bool" where
  "logged a w w' \<longleftrightarrow> w' = w \<or> (\<exists>p. map_of (ar_options a) ''log-file'' = Some p \<and> w' = log_file p w)"

definition option_given :: "args \<Rightarrow> string \<Rightarrow> string option" where
  "option_given a n = (case map_of (ar_options a) n of None \<Rightarrow> None | Some s \<Rightarrow> if s = [] then None else Some s)"

lemma configure_runs:
  "configure env s =
     (let a = fold touch [''json'', ''quiet'', ''verbose'', ''log-level''] (se_args s); b = touch ''log-file'' a;
          global = \<lparr>go_json = map_of (ar_options (se_args s)) ''json'' \<noteq> None, go_quiet = map_of (ar_options (se_args s)) ''quiet'' \<noteq> None\<rparr> in
      case named parse_log_level (if map_of (ar_options (se_args s)) ''verbose'' \<noteq> None then LogInfo else LogWarn) (option_given (se_args s) ''log-level'') of
        Inl e \<Rightarrow> (Inl e, s\<lparr>se_args := a\<rparr>)
      | Inr level \<Rightarrow> (case option_given (se_args s) ''log-file'' of
          None \<Rightarrow> (Inr (global, level), s\<lparr>se_args := b\<rparr>)
        | Some p \<Rightarrow> if ce_log_file env p then (Inr (global, level), s\<lparr>se_args := b, se_rest := log_file p (se_rest s)\<rparr>)
            else (Inl IoError, s\<lparr>se_args := b\<rparr>)))"
  by (simp add: configure_def Let_def abind_def on_args_def on_rest_def azoom_def arg_has_def arg_value_def touch_def option_given_def
      add_log_file_def split: option.split sum.split)

lemma configure_frame:
  assumes "configure env s = (r, t)"
  shows "ar_options (se_args t) = ar_options (se_args s) \<and> ar_repeated (se_args t) = ar_repeated (se_args s) \<and>
    ar_positionals (se_args t) = ar_positionals (se_args s) \<and> set (ar_touched (se_args t)) \<subseteq> set (ar_touched (se_args s)) \<union> set program_options \<and>
    se_out t = se_out s \<and> logged (se_args s) (se_rest s) (se_rest t) \<and>
    (\<forall>global level. r = Inr (global, level) \<longrightarrow>
       global = \<lparr>go_json = map_of (ar_options (se_args s)) ''json'' \<noteq> None, go_quiet = map_of (ar_options (se_args s)) ''quiet'' \<noteq> None\<rparr>)"
proof -
  have g: "option_given (se_args s) n = Some p \<Longrightarrow> map_of (ar_options (se_args s)) n = Some p" for n p
    by (auto simp: option_given_def split: option.splits if_splits)
  show ?thesis using assms g unfolding configure_runs Let_def
    by (auto simp: touch_def logged_def program_options_def split: sum.splits option.splits if_splits)
qed


























section \<open>Properties\<close>


section \<open>Running a command\<close>

lemma session_inv [act_inv]:
  "on_args m s = (Inr x, s') \<longleftrightarrow> (\<exists>a. m (se_args s) = (Inr x, a) \<and> s' = s\<lparr>se_args := a\<rparr>)"
  "on_rest f s = (Inr x, s') \<longleftrightarrow> (\<exists>d. f (se_rest s) = (Inr x, d) \<and> s' = s\<lparr>se_rest := d\<rparr>)"
  "emit out s = (Inr u, s') \<longleftrightarrow> s' = s\<lparr>se_out := se_out s @ out\<rparr>"
  by (auto simp: on_args_def on_rest_def azoom_def emit_def split: prod.splits)

lemma lift_inv [act_inv]:
  "alift q s = (Inr x, s') \<longleftrightarrow> q = Inr x \<and> s' = s" "aret y s = (Inr x, s') \<longleftrightarrow> x = y \<and> s' = s" "athrow e s = (Inr x, s') \<longleftrightarrow> False"
  by auto

lemma arg_inv [act_inv]:
  "arg_has n a = (Inr b, a') \<longleftrightarrow> b = (map_of (ar_options a) n \<noteq> None) \<and> a' = touch n a"
  "arg_value n a = (Inr v, a') \<longleftrightarrow> v = (case map_of (ar_options a) n of None \<Rightarrow> None | Some s \<Rightarrow> if s = [] then None else Some s) \<and> a' = touch n a"
  "require_positional i a = (Inr s, a') \<longleftrightarrow> positional i a = Some s \<and> a' = a"
  "reject_unknown_options a = (Inr u, a') \<longleftrightarrow> arg_unused a = [] \<and> a' = a"
  by (auto simp: arg_has_def arg_value_def require_positional_def reject_unknown_options_def split: option.splits)

lemma touch_fields [simp]:
  "ar_options (touch n a) = ar_options a" "ar_repeated (touch n a) = ar_repeated a" "ar_positionals (touch n a) = ar_positionals a"
  "positional i (touch n a) = positional i a"
  by (simp_all add: touch_def positional_def)

lemma arg_require_inv [act_inv]:
  "arg_require n a = (Inr s, a') \<longleftrightarrow> map_of (ar_options a) n = Some s \<and> s \<noteq> [] \<and> a' = touch n a"
  by (auto simp: arg_require_def act_inv split: option.splits if_splits)

text \<open>The number an option stands for.\<close>

definition number_given :: "args \<Rightarrow> string \<Rightarrow> u64 \<Rightarrow> u64 result" where
  "number_given a n fallback =
     (case map_of (ar_options a) n of
        None \<Rightarrow> Inr fallback
      | Some s \<Rightarrow> if s = [] then Inr fallback else (case from_chars_u64 s of None \<Rightarrow> Inl InvalidArgumentError | Some k \<Rightarrow> Inr k))"

lemma arg_number_inv [act_inv]: "arg_number n fallback a = (Inr v, a') \<longleftrightarrow> number_given a n fallback = Inr v \<and> a' = touch n a"
  by (auto simp: arg_number_def number_given_def act_inv split: option.splits)

lemma number_given_touch [simp]: "number_given (touch k a) n f = number_given a n f"
  by (simp add: number_given_def)

definition metadata_given :: "'db cli_env \<Rightarrow> args \<Rightarrow> metadata" where
  "metadata_given env a =
     foldl (\<lambda>md (k, s). list_put str_less k (metadata_of_text env s) md) []
       (case map_of (ar_repeated a) ''meta'' of None \<Rightarrow> [] | Some l \<Rightarrow> l)"

lemma read_metadata_inv [act_inv]: "read_metadata env a = (Inr md, a') \<longleftrightarrow> md = metadata_given env a \<and> a' = touch ''meta'' a"
  by (auto simp: read_metadata_def arg_repeated_def metadata_given_def act_inv)

lemma metadata_given_touch [simp]: "metadata_given env (touch n a) = metadata_given env a"
  by (simp add: metadata_given_def)

lemma sorted_list_put:
  assumes "sorted_wrt str_less (map fst l)"
  shows "sorted_wrt str_less (map fst (list_put str_less k v l)) \<and> set (map fst (list_put str_less k v l)) = insert k (set (map fst l))"
  using assms
proof (induction l)
  case (Cons p l)
  obtain k' v' where p: "p = (k', v')" by fastforce
  have t: "str_less k k' \<or> str_less k' k" if "k \<noteq> k'"
    using that str_compare_eq [of k k'] str_compare_swap [of k k'] by (auto simp: str_less_def)
  show ?case using Cons t by (auto simp: p intro: str_less_trans)
qed simp

lemma metadata_given_sorted: "md_sorted (metadata_given env a)"
proof -
  have "md_sorted (foldl (\<lambda>md (k, s). list_put str_less k (metadata_of_text env s) md) md l)" if "md_sorted md" for md l
    using that
  proof (induction l arbitrary: md)
    case (Cons p l)
    then show ?case using sorted_list_put [of md "fst p" "metadata_of_text env (snd p)"] by (simp add: md_sorted_def split_beta)
  qed simp
  from this [of "[]"] show ?thesis by (simp add: metadata_given_def md_sorted_def)
qed

lemma exit_of_error_pos [simp]: "exit_of_error e \<noteq> 0"
  by (simp add: exit_of_error_def kExitUsage_def kExitError_def)

text \<open>How the program can end with a command on its line: an exception, an unknown command, or what the handler returned.\<close>

lemma run_cases:
  assumes run: "run_command env name rest (host :: 'db host) = (r, out, l)"
  obtains (threw) e where "r = Inl e"
  | (unknown) "map_of (command_table :: (string \<times> 'db command) list) name = None" "r = Inr 2" "out = []"
  | (ran) a b w handler c where "parse_args rest = Inr a" "ar_options b = ar_options a" "ar_repeated b = ar_repeated a"
      "ar_positionals b = ar_positionals a" "logged a (ho_world host) w" "r = Inr c"
      "map_of (command_table :: (string \<times> 'db command) list) name = Some handler"
      "handler env \<lparr>go_json = map_of (ar_options a) ''json'' \<noteq> None, go_quiet = map_of (ar_options a) ''quiet'' \<noteq> None\<rparr> b (host\<lparr>ho_world := w\<rparr>) =
         (Inr c, out, l)"
proof (cases r)
  case (Inr c)
  obtain a where a: "parse_args rest = Inr a" using run Inr by (cases "parse_args rest") (simp_all add: run_command_def)
  let ?s = "\<lparr>se_args = a, se_out = [], se_rest = ho_world host\<rparr>"
  obtain q t where c: "configure env ?s = (q, t)" by fastforce
  obtain global level where q: "q = Inr (global, level)" using run Inr a c by (cases q) (auto simp: run_command_def)
  note f = configure_frame [OF c, simplified]
  show thesis
  proof (cases "map_of (command_table :: (string \<times> 'db command) list) name")
    case None
    then show thesis using unknown run Inr a c q by (simp add: run_command_def kExitUsage_def)
  next
    case (Some handler)
    have "handler env global (se_args t) (host\<lparr>ho_world := se_rest t\<rparr>) = (Inr c, out, l)"
      using run Inr a c q Some by (simp add: run_command_def)
    then show thesis using ran [OF a _ _ _ _ Inr Some] f q by auto
  qed
qed (use threw in blast)

lemma main_runs:
  assumes "cli_main env (name # rest) host = (code, out, l)" and "map_of command_table name = Some handler" and "code = 0"
  shows "\<exists>a b w. parse_args rest = Inr a \<and> ar_options b = ar_options a \<and> ar_repeated b = ar_repeated a \<and> ar_positionals b = ar_positionals a \<and>
    logged a (ho_world host) w \<and>
    handler env \<lparr>go_json = map_of (ar_options a) ''json'' \<noteq> None, go_quiet = map_of (ar_options a) ''quiet'' \<noteq> None\<rparr> b (host\<lparr>ho_world := w\<rparr>) =
      (Inr 0, out, l)"
proof -
  have cmd: "name \<notin> {''help'', ''--help'', ''-h'', ''version'', ''--version'', ''-V''}"
    using assms(2) by (auto simp: command_table_def)
  obtain r out' l' where r: "run_command env name rest host = (r, out', l')" by (metis prod.collapse)
  have m: "r = Inr 0" "out' = out" "l' = l" using assms(1,3) cmd r by (auto simp: cli_main_def split: sum.splits)
  from r show ?thesis
  proof (cases rule: run_cases)
    case (ran a b w handler' c)
    then show ?thesis using m assms(2) by auto
  qed (use m assms(2) in auto)
qed

lemma open_database_ends:
  assumes "open_database env args host body = (Inr c, out, l)"
  shows "\<exists>path d s. positional 0 args = Some path \<and> db_open (ce_db env) path host = Inr d \<and>
    body \<lparr>se_args = args, se_out = [], se_rest = d\<rparr> = (Inr c, s) \<and> out = se_out s \<and> l = Closed (db_destroy (ce_db env) (se_rest s))"
proof -
  obtain path where p: "positional 0 args = Some path"
    using assms by (cases "positional 0 args") (simp_all add: open_database_def require_positional_def)
  obtain d where d: "db_open (ce_db env) path host = Inr d"
    using assms p by (cases "db_open (ce_db env) path host") (simp_all add: open_database_def require_positional_def)
  obtain q s where s: "body \<lparr>se_args = args, se_out = [], se_rest = d\<rparr> = (q, s)" by fastforce
  show ?thesis using assms p d s by (simp add: open_database_def require_positional_def close_after_def)
qed

section \<open>Exit codes\<close>

text \<open>The codes a body can return.\<close>

definition ends :: "nat set \<Rightarrow> ('s, nat) cmd_act \<Rightarrow> bool" where
  "ends S m \<longleftrightarrow> (\<forall>s c s'. m s = (Inr c, s') \<longrightarrow> c \<in> S)"

lemma ends_abind: "(\<And>x. ends S (k x)) \<Longrightarrow> ends S (abind m k)"
  unfolding ends_def by (auto simp: abind_Inr)

lemma ends_aret: "c \<in> S \<Longrightarrow> ends S (aret c)"
  by (simp add: ends_def)

lemma ends_throw: "ends S (athrow e)"
  by (simp add: ends_def)

lemma ends_option: "ends S f \<Longrightarrow> (\<And>x. ends S (g x)) \<Longrightarrow> ends S (case o' of None \<Rightarrow> f | Some x \<Rightarrow> g x)"
  by (cases o') simp_all

lemma ends_pair: "(\<And>x y. ends S (g x y)) \<Longrightarrow> ends S (case p of (x, y) \<Rightarrow> g x y)"
  by (cases p) simp

definition command_codes :: "nat set \<Rightarrow> 'db command \<Rightarrow> bool" where
  "command_codes S handler \<longleftrightarrow> (\<forall>env global args host c out l. handler env global args host = (Inr c, out, l) \<longrightarrow> c \<in> S)"

lemma codes_body:
  assumes "\<And>env global args host. handler env global args host = open_database env args host (body env global)" and "\<And>env global. ends S (body env global)"
  shows "command_codes S handler"
  unfolding command_codes_def assms(1) using assms(2) by (metis open_database_ends ends_def)

lemmas ends_by = ends_abind ends_option ends_pair ends_throw ends_aret

lemma body_codes:
  "command_codes {0} command_info" "command_codes {0} command_stats" "command_codes {0} command_insert" "command_codes {0} command_get"
  "command_codes {0, 1} command_delete" "command_codes {0} command_search" "command_codes {0} command_batch_search"
  "command_codes {0} command_import" "command_codes {0} command_export" "command_codes {0} command_rebuild_index"
  "command_codes {0} command_compact" "command_codes {0, 3} command_check"
  by (rule codes_body, rule command_info_def command_stats_def command_insert_def command_get_def command_delete_def
      command_search_def command_batch_search_def command_import_def command_export_def command_rebuild_index_def command_compact_def command_check_def,
      (rule ends_by)+; simp add: kExitOk_def kExitError_def kExitCheckFailed_def)+

lemma close_codes: "ends S body \<Longrightarrow> close_after env args d body = (Inr c, out, l) \<Longrightarrow> c \<in> S"
  by (auto simp: close_after_def ends_def split: prod.splits)

lemma create_codes: "command_codes {0} command_create"
  unfolding command_codes_def
proof (intro allI impI)
  fix env global args c out l and host :: "'a host"
  assume run: "command_create env global args host = (Inr c, out, l)"
  have e: "ends {0} (abind (m :: ('a database, unit) cmd_act) (\<lambda>_. aret kExitOk))" for m
    by (intro ends_abind ends_aret) (simp add: kExitOk_def)
  show "c \<in> {0}"
    using run unfolding command_create_def by (auto split: prod.splits sum.splits dest: close_codes [OF e])
qed

lemma generate_codes: "command_codes {0} command_generate"
  unfolding command_codes_def command_generate_def
  by (auto simp: kExitOk_def act_inv split: prod.splits)

lemma handler_codes:
  assumes "map_of command_table name = Some handler"
  shows "command_codes (if name = ''delete'' then {0, 1} else if name = ''check'' then {0, 3} else {0}) handler"
proof -
  have "(name, handler) \<in> set command_table" using assms by (rule map_of_SomeD)
  then show ?thesis unfolding command_table_def
    by (simp only: set_simps insert_iff empty_iff simp_thms prod.inject, elim disjE conjE; simp add: body_codes create_codes generate_codes del: One_nat_def)
qed

text \<open>One step of a body that returned.\<close>

lemma run_steps:
  "abind (on_args m) k \<lparr>se_args = a, se_out = out, se_rest = d\<rparr> = (Inr c, s) \<Longrightarrow>
     (\<And>x a'. m a = (Inr x, a') \<Longrightarrow> k x \<lparr>se_args = a', se_out = out, se_rest = d\<rparr> = (Inr c, s) \<Longrightarrow> P) \<Longrightarrow> P"
  "abind (on_rest f) k2 \<lparr>se_args = a, se_out = out, se_rest = d\<rparr> = (Inr c, s) \<Longrightarrow>
     (\<And>x d'. f d = (Inr x, d') \<Longrightarrow> k2 x \<lparr>se_args = a, se_out = out, se_rest = d'\<rparr> = (Inr c, s) \<Longrightarrow> P) \<Longrightarrow> P"
  "abind (alift q) k3 \<lparr>se_args = a, se_out = out, se_rest = d\<rparr> = (Inr c, s) \<Longrightarrow>
     (\<And>x. q = Inr x \<Longrightarrow> k3 x \<lparr>se_args = a, se_out = out, se_rest = d\<rparr> = (Inr c, s) \<Longrightarrow> P) \<Longrightarrow> P"
  "abind (emit extra) k4 \<lparr>se_args = a, se_out = out, se_rest = d\<rparr> = (Inr c, s) \<Longrightarrow>
     (k4 () \<lparr>se_args = a, se_out = out @ extra, se_rest = d\<rparr> = (Inr c, s) \<Longrightarrow> P) \<Longrightarrow> P"
  by (auto simp: abind_Inr session_inv lift_inv)

text \<open>What a delete and a check that returned have done.\<close>

definition ran_delete :: "'db env \<Rightarrow> args \<Rightarrow> 'db host \<Rightarrow> nat \<Rightarrow> 'db left \<Rightarrow> bool" where
  "ran_delete env a host code l \<longleftrightarrow> (\<exists>path s vid d removed d1 d2. positional 0 a = Some path \<and> positional 1 a = Some s \<and> read_id s = Inr vid \<and>
     db_open env path host = Inr d \<and> db_remove env vid d = (Inr removed, d1) \<and> db_flush env d1 = (Inr (), d2) \<and>
     l = Closed (db_destroy env d2) \<and> code = (if removed then 0 else 1))"

definition ran_check :: "'db env \<Rightarrow> args \<Rightarrow> 'db host \<Rightarrow> nat \<Rightarrow> 'db left \<Rightarrow> bool" where
  "ran_check env a host code l \<longleftrightarrow> (\<exists>path d issues d'. positional 0 a = Some path \<and> db_open env path host = Inr d \<and>
     db_check env (map_of (ar_options a) ''deep'' \<noteq> None) d = (Inr issues, d') \<and> l = Closed (db_destroy env d') \<and>
     code = (if 0 < error_count issues then 3 else 0))"

lemma delete_ran:
  assumes "command_delete env global a host = (Inr c, out, l)"
  shows "ran_delete (ce_db env) a host c l"
proof -
  from open_database_ends [OF assms [unfolded command_delete_def]]
  obtain path d s where s: "positional 0 a = Some path" "db_open (ce_db env) path host = Inr d" "l = Closed (db_destroy (ce_db env) (se_rest s))"
    and body: "abind (on_args (require_positional 1)) (\<lambda>id_text.
      abind (on_args reject_unknown_options) (\<lambda>_.
      abind (alift (read_id id_text)) (\<lambda>vid.
      abind (on_rest (db_remove (ce_db env) vid)) (\<lambda>removed.
      abind (on_rest (db_flush (ce_db env))) (\<lambda>_.
      abind (emit (if go_json global then ''{'' @ json_field 0 ''deleted'' (if removed then ''1'' else ''0'') @ [CHR '','', CHR '' ''] @ json_field 0 ''id'' (show_nat (unat vid)) @ ''}'' @ nl
                   else if \<not> go_quiet global then (if removed then ''Deleted vector '' else ''No vector with id '') @ show_nat (unat vid) @ ''.'' @ nl
                   else [])) (\<lambda>_.
      aret (if removed then kExitOk else kExitError))))))) \<lparr>se_args = a, se_out = [], se_rest = d\<rparr> = (Inr c, s)" by blast
  from body show ?thesis
    by (elim run_steps) (use s in \<open>auto simp: ran_delete_def arg_inv lift_inv kExitOk_def kExitError_def\<close>)
qed

lemma check_ran:
  assumes "command_check env global a host = (Inr c, out, l)"
  shows "ran_check (ce_db env) a host c l"
proof -
  from open_database_ends [OF assms [unfolded command_check_def]]
  obtain path d s where s: "positional 0 a = Some path" "db_open (ce_db env) path host = Inr d" "l = Closed (db_destroy (ce_db env) (se_rest s))"
    and body: "abind (on_args (arg_has ''deep'')) (\<lambda>deep.
      abind (on_args reject_unknown_options) (\<lambda>_.
      abind (on_rest (db_check (ce_db env) deep)) (\<lambda>issues.
      abind (emit (print_check (ce_print env) issues (go_json global))) (\<lambda>_.
      aret (if error_count issues > 0 then kExitCheckFailed else kExitOk))))) \<lparr>se_args = a, se_out = [], se_rest = d\<rparr> = (Inr c, s)" by blast
  from body show ?thesis
    by (elim run_steps) (use s in \<open>auto simp: ran_check_def arg_inv lift_inv kExitOk_def kExitCheckFailed_def\<close>)
qed

lemma line_arguments:
  "ar_options b = ar_options a \<Longrightarrow> ar_positionals b = ar_positionals a \<Longrightarrow>
    ran_delete env b host c l = ran_delete env a host c l \<and> ran_check env b host c l = ran_check env a host c l"
  by (simp add: ran_delete_def ran_check_def positional_def)

text \<open>C23: What every exit code means. Without arguments it is 2, for help and version 0. For anything else, an exception (from the
  line, the global options or the command) gives 2 when it is an invalid argument and 1 otherwise; a command that does not
  exist gives 2; \<^verbatim>\<open>delete\<close> gives 0 when it removed the id and 1 when there was none; \<^verbatim>\<open>check\<close> gives 3 when it found errors and 0
  when not; every other command that returns gives 0.\<close>

theorem exit_codes_keep_promise:
  assumes "cli_main env raw (host :: 'db host) = (code, out, l)"
  shows "(raw = [] \<longrightarrow> code = 2) \<and>
    (\<forall>name rest. raw = name # rest \<longrightarrow>
      (if name \<in> {''help'', ''--help'', ''-h'', ''version'', ''--version'', ''-V''} then code = 0
       else \<exists>r. run_command env name rest host = (r, out, l) \<and>
         (case r of
            Inl e \<Rightarrow> code = (if is_invalid_argument e then 2 else 1)
          | Inr c \<Rightarrow> code = c \<and>
             (if map_of (command_table :: (string \<times> 'db command) list) name = None then c = 2 \<and> out = []
              else \<exists>a w. parse_args rest = Inr a \<and> logged a (ho_world host) w \<and>
                (if name = ''delete'' then ran_delete (ce_db env) a (host\<lparr>ho_world := w\<rparr>) c l
                 else if name = ''check'' then ran_check (ce_db env) a (host\<lparr>ho_world := w\<rparr>) c l
                 else c = 0)))))"
proof (cases raw)
  case Nil
  then show ?thesis using assms by (auto simp: cli_main_def kExitUsage_def)
next
  case (Cons name rest)
  show ?thesis
  proof (cases "name \<in> {''help'', ''--help'', ''-h'', ''version'', ''--version'', ''-V''}")
    case True
    then show ?thesis using assms Cons by (auto simp: cli_main_def kExitOk_def)
  next
    case False
    obtain r out' l' where r: "run_command env name rest host = (r, out', l')" by (metis prod.collapse)
    have m: "code = (case r of Inl e \<Rightarrow> if is_invalid_argument e then 2 else 1 | Inr c \<Rightarrow> c)" "out' = out" "l' = l"
      using assms Cons False r by (auto simp: cli_main_def exit_of_error_def kExitUsage_def kExitError_def split: sum.splits)
    from r show ?thesis
    proof (cases rule: run_cases)
      case (ran a b w handler c)
      let ?h = "host\<lparr>ho_world := w\<rparr>"
      have "c = 0" if "name \<noteq> ''delete''" "name \<noteq> ''check''"
        using handler_codes [OF ran(7), unfolded command_codes_def, rule_format, OF ran(8)] that by simp
      moreover have "ran_delete (ce_db env) a ?h c l" if "name = ''delete''"
      proof -
        have h: "handler = command_delete" using ran(7) that by (simp add: command_table_def)
        show ?thesis using delete_ran [OF ran(8) [unfolded h]] line_arguments [OF ran(2,4)] m(3) by blast
      qed
      moreover have "ran_check (ce_db env) a ?h c l" if "name = ''check''"
      proof -
        have h: "handler = command_check" using ran(7) that by (simp add: command_table_def)
        show ?thesis using check_ran [OF ran(8) [unfolded h]] line_arguments [OF ran(2,4)] m(3) by blast
      qed
      ultimately have "\<exists>a w. parse_args rest = Inr a \<and> logged a (ho_world host) w \<and>
         (if name = ''delete'' then ran_delete (ce_db env) a (host\<lparr>ho_world := w\<rparr>) c l
          else if name = ''check'' then ran_check (ce_db env) a (host\<lparr>ho_world := w\<rparr>) c l else c = 0)"
        using ran(1,5) by (intro exI [of _ a] exI [of _ w]) (simp only: simp_thms split: if_splits, blast)
      then show ?thesis using ran(6,7) m r Cons False by simp
    qed (use m r Cons False in auto)
  qed
qed

lemma exit_codes_keep_promise_witness:
  "\<forall>(env :: nat cli_env) host. fst (cli_main env [''serve'', ''x''] host) = 2 \<and>
     fst (cli_main env [''delete'', ''d'', ''1''] (host\<lparr>ho_is_directory := False\<rparr>)) = 1 \<and> fst (cli_main env [] host) = 2"
proof (intro allI conjI)
  fix env :: "nat cli_env" and host :: "nat host"
  have p: "parse_args [''x''] = Inr (no_args\<lparr>ar_positionals := [''x'']\<rparr>)" "parse_args [''d'', ''1''] = Inr (no_args\<lparr>ar_positionals := [''d'', ''1'']\<rparr>)"
    by (simp_all add: parse_args_def parse_from.simps no_args_def)
  have "run_command env ''serve'' [''x''] host = (Inr 2, [], Files (ho_world host))"
    by (simp add: run_command_def p configure_runs option_given_def named_def no_args_def command_table_def kExitUsage_def)
  moreover obtain code out l where c: "cli_main env [''serve'', ''x''] host = (code, out, l)" by (metis prod.collapse)
  ultimately show "fst (cli_main env [''serve'', ''x''] host) = 2" using exit_codes_keep_promise [OF c] by auto
  let ?h = "host\<lparr>ho_is_directory := False\<rparr>"
  have "\<exists>l. run_command env ''delete'' [''d'', ''1''] ?h = (Inl NotFoundError, [], l)"
    by (simp add: run_command_def p configure_runs option_given_def named_def no_args_def command_table_def command_delete_def open_database_def
        require_positional_def positional_def db_open_def guard_throw_def touch_def)
  moreover obtain code out l where c: "cli_main env [''delete'', ''d'', ''1''] ?h = (code, out, l)" by (metis prod.collapse)
  ultimately show "fst (cli_main env [''delete'', ''d'', ''1''] ?h) = 1" using exit_codes_keep_promise [OF c] by auto
  obtain code out l where "cli_main env [] host = (code, out, l)" by (metis prod.collapse)
  from exit_codes_keep_promise [OF this] this show "fst (cli_main env [] host) = 2" by simp
qed


end
