(* ===== verification/Vdb_CommandProps.thy ===== *)
theory Vdb_CommandProps
  imports Vdb_CommandLine
begin

text \<open>
  What the commands guarantee: that an inserted vector is there for the next process, that an export holds every live vector
  and an import of it brings them back.
\<close>

section \<open>Inserting\<close>

text \<open>The id an insert takes: the given number, zero when \<^verbatim>\<open>--id\<close> has no value, or else the next automatic one.\<close>

definition insert_id :: "args \<Rightarrow> u64 \<Rightarrow> u64 result" where
  "insert_id a next_id = (if map_of (ar_options a) ''id'' = None then Inr next_id else number_given a ''id'' 0)"

lemma insert_body:
  assumes "command_insert env global a host = (Inr c, out, l)"
  shows "\<exists>path d s v vid d1 d2. positional 0 a = Some path \<and> db_open (ce_db env) path host = Inr d \<and>
    map_of (ar_options a) ''vector'' = Some s \<and> parse_vector_literal (ce_text env) s = Inr v \<and>
    insert_id a (db_next_auto_id d) = Inr vid \<and> db_insert (ce_db env) vid v (metadata_given env a) d = (Inr (), d1) \<and>
    db_flush (ce_db env) d1 = (Inr (), d2) \<and> l = Closed (db_destroy (ce_db env) d2) \<and>
    (\<not> go_json global \<and> \<not> go_quiet global \<longrightarrow> out = ''Inserted vector with id '' @ show_nat (unat vid) @ ''.'' @ nl)"
proof -
  from open_database_ends [OF assms [unfolded command_insert_def]]
  obtain path d s where s: "positional 0 a = Some path" "db_open (ce_db env) path host = Inr d" "out = se_out s"
    "l = Closed (db_destroy (ce_db env) (se_rest s))"
    and body: "abind (on_args (arg_require ''vector'')) (\<lambda>literal.
      abind (alift (parse_vector_literal (ce_text env) literal)) (\<lambda>v.
      abind (on_args (read_metadata env)) (\<lambda>md.
      abind (on_args (arg_has ''id'')) (\<lambda>has_id.
      abind (on_args (arg_number ''id'' 0)) (\<lambda>vid.
      abind (on_args reject_unknown_options) (\<lambda>_.
      abind (on_rest (if has_id then abind (db_insert (ce_db env) vid v md) (\<lambda>_. aret vid)
                      else db_insert_auto (ce_db env) v md)) (\<lambda>assigned.
      abind (on_rest (db_flush (ce_db env))) (\<lambda>_.
      abind (emit (if go_json global then ''{'' @ json_field 0 ''inserted'' ''1'' @ [CHR '','', CHR '' ''] @ json_field 0 ''id'' (show_nat (unat assigned)) @ ''}'' @ nl
                   else if \<not> go_quiet global then ''Inserted vector with id '' @ show_nat (unat assigned) @ ''.'' @ nl
                   else [])) (\<lambda>_.
      aret kExitOk))))))))) \<lparr>se_args = a, se_out = [], se_rest = d\<rparr> = (Inr c, s)" by blast
  have auto_id: "db_insert_auto (ce_db env) v md d = (Inr i, d') \<longleftrightarrow> i = db_next_auto_id d \<and> db_insert (ce_db env) i v md d = (Inr (), d')" for v md i d'
    by (auto simp: db_insert_auto_def db_read_def act_inv)
  obtain lit v vid assigned d1 d2 where b: "map_of (ar_options a) ''vector'' = Some lit" "parse_vector_literal (ce_text env) lit = Inr v"
    "number_given a ''id'' 0 = Inr vid"
    "(if map_of (ar_options a) ''id'' \<noteq> None then abind (db_insert (ce_db env) vid v (metadata_given env a)) (\<lambda>_. aret vid)
      else db_insert_auto (ce_db env) v (metadata_given env a)) d = (Inr assigned, d1)"
    "db_flush (ce_db env) d1 = (Inr (), d2)" "se_rest s = d2"
    "se_out s = (if go_json global then ''{'' @ json_field 0 ''inserted'' ''1'' @ [CHR '','', CHR '' ''] @ json_field 0 ''id'' (show_nat (unat assigned)) @ ''}'' @ nl
                   else if \<not> go_quiet global then ''Inserted vector with id '' @ show_nat (unat assigned) @ ''.'' @ nl
                   else [])"
    using body
  proof (elim run_steps)
    fix lit a1 v md a2 has a3 vid a4 u a5 assigned d1 u2 d2
    assume steps: "arg_require ''vector'' a = (Inr lit, a1)" "parse_vector_literal (ce_text env) lit = Inr v" "read_metadata env a1 = (Inr md, a2)"
      "arg_has ''id'' a2 = (Inr has, a3)" "arg_number ''id'' 0 a3 = (Inr vid, a4)"
      "(if has then abind (db_insert (ce_db env) vid v md) (\<lambda>_. aret vid) else db_insert_auto (ce_db env) v md) d = (Inr assigned, d1)"
      "db_flush (ce_db env) d1 = (Inr u2, d2)"
      and fin: "aret kExitOk \<lparr>se_args = a5, se_out = [] @ (if go_json global then ''{'' @ json_field 0 ''inserted'' ''1'' @ [CHR '','', CHR '' ''] @ json_field 0 ''id'' (show_nat (unat assigned)) @ ''}'' @ nl
                   else if \<not> go_quiet global then ''Inserted vector with id '' @ show_nat (unat assigned) @ ''.'' @ nl
                   else []), se_rest = d2\<rparr> = (Inr c, s)"
    have a: "map_of (ar_options a) ''vector'' = Some lit" "md = metadata_given env a" "has = (map_of (ar_options a) ''id'' \<noteq> None)"
      "number_given a ''id'' 0 = Inr vid"
      using steps by (auto simp: arg_inv arg_require_inv arg_number_inv read_metadata_inv)
    have r: "(if map_of (ar_options a) ''id'' \<noteq> None then abind (db_insert (ce_db env) vid v (metadata_given env a)) (\<lambda>_. aret vid)
      else db_insert_auto (ce_db env) v (metadata_given env a)) d = (Inr assigned, d1)" using steps(6) unfolding a(2,3) .
    have f: "db_flush (ce_db env) d1 = (Inr (), d2)" using steps(7) by simp
    note e = conjunct2 [OF fin [unfolded lift_inv]]
    show thesis by (rule that [OF a(1) steps(2) a(4) r f]) (simp_all only: e session.select_convs append_Nil)
  qed
  have "insert_id a (db_next_auto_id d) = Inr assigned \<and> db_insert (ce_db env) assigned v (metadata_given env a) d = (Inr (), d1)"
    using b(3,4) auto_id by (auto simp: insert_id_def act_inv split: if_splits)
  then show ?thesis using s b by auto
qed

text \<open>One insert by the next process, flushed, for the process after it.\<close>

lemma insert_in_next_session:
  assumes laws: "sqlite_laws (en_sqlite env) content" "law_open (en_sqlite env) (en_schema env) content"
    and sess: "db_session content env g d" "\<not> db_dirty d" and fits: "config_fits (db_config d)"
    and space: "room_for (db_config d) (Suc (vs_slot_count (db_store d)))" and lb: "left_behind content d host" "world_ok (ho_world host)"
    and md: "md_sorted md" and run: "db_open env (db_directory d) host = Inr e0" "db_insert env vid v md e0 = (Inr (), d1)"
      "db_flush env d1 = (Inr (), d2)"
  shows "db_next_auto_id e0 = db_next_auto_id d \<and> vs_abs (db_store d) vid = None \<and> db_destroy env d2 = d2 \<and> db_directory d2 = db_directory d \<and>
    (\<forall>host'. left_behind content d2 host' \<longrightarrow> db_open env (db_directory d) host' \<in> {Inl MetadataError, Inl IoError} \<or>
      (\<exists>e. db_open env (db_directory d) host' = Inr e \<and> db_config e = db_config d \<and>
        vs_abs (db_store e) = (vs_abs (db_store d))(vid \<mapsto> stored_row (dc_normalize (db_config d)) v) \<and>
        db_holds content (if md = [] then g else g(vid := md)) e))"
proof -
  have room: "room_for (db_config d) (vs_slot_count (db_store d))" by (rule room_mono [OF space]) simp
  note n = next_session [OF laws sess fits room lb run(1)]
  have r0: "db_room e0" using space n unfolding db_room_def by simp
  have inv: "db_inv e0" "db_holds content g e0" using n by (simp_all add: db_session_def)
  note ins = insert_refines [OF laws(1) inv(1) r0 inv(2) md run(2)]
  let ?V = "(vs_abs (db_store d))(vid \<mapsto> stored_row (dc_normalize (db_config d)) v)" and ?g = "if md = [] then g else g(vid := md)"
  have ap: "apply_write (dc_normalize (db_config e0)) (WInsert vid v md) (vs_abs (db_store e0), g) = (?V, ?g)" using n by simp
  have w: "db_session content env ?g d1 \<and> vs_abs (db_store d1) = ?V \<and> db_config d1 = db_config e0 \<and> db_directory d1 = db_directory e0 \<and>
      db_world d1 = db_world e0 \<and> vs_slot_count (db_store d1) \<le> Suc (vs_slot_count (db_store e0))"
    by (rule session_write [OF laws(1) conjunct1 [OF n] r0 _ _ ap]) (use md run(2) in simp_all)
  have fits1: "config_fits (db_config d1)" and room1: "room_for (db_config d1) (vs_slot_count (db_store d1))"
    using w n fits room_mono [OF space, of "vs_slot_count (db_store d1)"] by simp_all
  note f = session_flush [OF laws(1) conjunct1 [OF w] fits1 room1 run(3)]
  have d2: "db_destroy env d2 = d2" using f by (simp add: db_destroy_def db_flush_def db_read_def)
  have fits2: "config_fits (db_config d2)" and room2: "room_for (db_config d2) (vs_slot_count (db_store d2))" using f fits1 room1 by simp_all
  have same: "db_directory d2 = db_directory d" "db_config d2 = db_config d" "vs_abs (db_store d2) = ?V" using f w n by simp_all
  have "db_open env (db_directory d) host' \<in> {Inl MetadataError, Inl IoError} \<or>
      (\<exists>e. db_open env (db_directory d) host' = Inr e \<and> db_config e = db_config d \<and> vs_abs (db_store e) = ?V \<and> db_holds content ?g e)"
    if "left_behind content d2 host'" for host'
    using session_reopens [OF laws conjunct1 [OF f] _ fits2 room2 that] f same by (auto simp: opened_def)
  moreover have "vs_abs (db_store d) vid = None" using ins n by simp
  ultimately show ?thesis using n d2 same(1) by blast
qed

text \<open>An empty file under a name that was free spoils no session: as an index file it is refused and counts as none.\<close>

lemma log_file_visible:
  assumes "world_ok w"
  shows "visible (log_file p w) = (if visible w p = None then (visible w)(p \<mapsto> []) else visible w)" and "world_ok (log_file p w)"
proof -
  have fresh: "w_dir w q = Some i \<Longrightarrow> i < w_next w" for q i using assms by (auto simp: world_ok_def)
  have new: "w_dir w q \<noteq> Some (w_next w)" for q using fresh [of q "w_next w"] by auto
  show "visible (log_file p w) = (if visible w p = None then (visible w)(p \<mapsto> []) else visible w)"
    using new by (cases "w_dir w p") (auto simp: log_file_def put_file_def visible_def fun_eq_iff option.map_comp comp_def intro!: option.map_cong)
  show "world_ok (log_file p w)"
  proof (cases "w_dir w p")
    case None
    show ?thesis using None assms fresh new unfolding world_ok_def
      by (auto simp: log_file_def put_file_def less_Suc_eq split: if_splits)
  qed (use assms in \<open>simp add: log_file_def\<close>)
qed

lemma empty_index_ok: "index_file_ok env dir c s W \<Longrightarrow> index_file_ok env dir c s (W(p \<mapsto> []))"
  by (auto simp: index_file_ok_def read_hnsw_file_def parse_hnsw_file_header_def kHnswFileHeaderSize_def)

lemma session_logged:
  assumes s: "db_session content env g d" and lb: "left_behind content d host" "world_ok (ho_world host)" and l: "logged a (ho_world host) w"
  obtains e where "db_session content env g e" "e = d\<lparr>db_world := db_world e\<rparr>" "left_behind content e (host\<lparr>ho_world := w\<rparr>)" "world_ok w"
proof (cases "w = ho_world host")
  case True
  then show thesis using that [of d] s lb by simp
next
  case False
  then obtain p where p: "w = log_file p (ho_world host)" using l by (auto simp: logged_def)
  let ?e = "d\<lparr>db_world := log_file p (db_world d)\<rparr>"
  have ok: "world_ok (db_world d)" using s by (simp add: db_session_def)
  have h: "visible (ho_world host) = visible (db_world d)" using lb(1) by (simp add: left_behind_def)
  note v = log_file_visible [OF ok, of p] and u = log_file_visible [OF lb(2), of p]
  have "db_dirty d \<or> files_current env ?e (db_rows content ?e)"
  proof (cases "db_dirty d")
    case False
    then have f: "files_current env d (db_rows content d)" using s by (simp add: db_session_def)
    then show ?thesis using v(1) empty_index_ok [of env "db_directory d" "db_config d" "db_store d" "visible (db_world d)" p] unfolding files_current_def by (auto simp: db_rows_def)
  qed simp
  then have "db_session content env g ?e" using s v(2) by (simp add: db_session_def db_inv_def db_holds_def)
  moreover have "left_behind content ?e (host\<lparr>ho_world := w\<rparr>)"
    using lb(1) v(1) u(1) h by (auto simp: left_behind_def p)
  ultimately show thesis using that [of ?e] u(2) p by simp
qed

text \<open>C4: A vector that \<^verbatim>\<open>insert\<close> says it inserted is there for the next process. When the program ends with exit code 0 on a
  database that was closed before, it used a new id (which it printed, unless \<^verbatim>\<open>--json\<close> or \<^verbatim>\<open>--quiet\<close> was given: their
  output is not stated), and whoever opens the database afterwards finds under that id the vector read from the line and
  the metadata read from it, and everything else as it was, or is thrown a \<^verbatim>\<open>MetadataError\<close> or an \<^verbatim>\<open>IoError\<close>. A graph
  has room for one slot more at any levels drawn (\<open>room_for\<close>).\<close>

theorem insert_command_persists:
  assumes "sqlite_laws (en_sqlite (ce_db env)) content" and "law_open (en_sqlite (ce_db env)) (en_schema (ce_db env)) content"
    and "db_session content (ce_db env) g d" and "\<not> db_dirty d" and "config_fits (db_config d)"
    and "room_for (db_config d) (Suc (vs_slot_count (db_store d)))" and "left_behind content d host" and "world_ok (ho_world host)"
    and "parse_args rest = Inr a" and "positional 0 a = Some (db_directory d)"
    and "cli_main env (''insert'' # rest) host = (0, out, l)"
  shows "\<exists>s v vid d'. map_of (ar_options a) ''vector'' = Some s \<and> parse_vector_literal (ce_text env) s = Inr v \<and>
    insert_id a (db_next_auto_id d) = Inr vid \<and> vs_abs (db_store d) vid = None \<and>
    (map_of (ar_options a) ''json'' = None \<and> map_of (ar_options a) ''quiet'' = None \<longrightarrow>
       out = ''Inserted vector with id '' @ show_nat (unat vid) @ ''.'' @ nl) \<and>
    l = Closed d' \<and> db_directory d' = db_directory d \<and>
    (\<forall>host'. left_behind content d' host' \<longrightarrow> db_open (ce_db env) (db_directory d) host' \<in> {Inl MetadataError, Inl IoError} \<or>
      (\<exists>e. db_open (ce_db env) (db_directory d) host' = Inr e \<and> db_config e = db_config d \<and>
        vs_abs (db_store e) = (vs_abs (db_store d))(vid \<mapsto> stored_row (dc_normalize (db_config d)) v) \<and>
        db_holds content (if metadata_given env a = [] then g else g(vid := metadata_given env a)) e))"
proof -
  let ?env = "ce_db env" and ?md = "metadata_given env a"
  have h: "map_of command_table ''insert'' = Some command_insert" by (simp add: command_table_def)
  obtain b w where b: "ar_options b = ar_options a" "ar_repeated b = ar_repeated a" "ar_positionals b = ar_positionals a"
    "command_insert env \<lparr>go_json = map_of (ar_options a) ''json'' \<noteq> None, go_quiet = map_of (ar_options a) ''quiet'' \<noteq> None\<rparr> b (host\<lparr>ho_world := w\<rparr>) =
       (Inr 0, out, l)" and w: "logged a (ho_world host) w"
    using main_runs [OF assms(11) h refl] assms(9) by auto
  obtain dl where sl: "db_session content ?env g dl" "left_behind content dl (host\<lparr>ho_world := w\<rparr>)" "world_ok w" and e: "dl = d\<lparr>db_world := db_world dl\<rparr>"
    by (rule session_logged [OF assms(3,7,8) w])
  have dl: "db_config dl = db_config d" "db_store dl = db_store d" "db_directory dl = db_directory d" "db_next_auto_id dl = db_next_auto_id d"
    "db_dirty dl = db_dirty d" by (subst e, simp)+
  have same: "positional 0 b = positional 0 a" "insert_id b k = insert_id a k" "metadata_given env b = ?md" for k
    by (simp_all add: positional_def insert_id_def number_given_def metadata_given_def b(1-3))
  obtain path e0 s v vid d1 d2 where j: "positional 0 b = Some path" "db_open ?env path (host\<lparr>ho_world := w\<rparr>) = Inr e0" "map_of (ar_options b) ''vector'' = Some s"
    "parse_vector_literal (ce_text env) s = Inr v" "insert_id b (db_next_auto_id e0) = Inr vid"
    "db_insert ?env vid v (metadata_given env b) e0 = (Inr (), d1)" "db_flush ?env d1 = (Inr (), d2)" "l = Closed (db_destroy ?env d2)"
    "map_of (ar_options a) ''json'' = None \<and> map_of (ar_options a) ''quiet'' = None \<longrightarrow> out = ''Inserted vector with id '' @ show_nat (unat vid) @ ''.'' @ nl"
    using insert_body [OF b(4)] by (elim exE conjE) simp
  then have i: "db_open ?env (db_directory d) (host\<lparr>ho_world := w\<rparr>) = Inr e0" "map_of (ar_options a) ''vector'' = Some s"
    "parse_vector_literal (ce_text env) s = Inr v" "insert_id a (db_next_auto_id e0) = Inr vid"
    "db_insert ?env vid v ?md e0 = (Inr (), d1)" "db_flush ?env d1 = (Inr (), d2)" "l = Closed (db_destroy ?env d2)"
    "map_of (ar_options a) ''json'' = None \<and> map_of (ar_options a) ''quiet'' = None \<longrightarrow> out = ''Inserted vector with id '' @ show_nat (unat vid) @ ''.'' @ nl"
    using assms(10) b(1) same by simp_all
  note k = insert_in_next_session [OF assms(1,2) sl(1) _ _ _ sl(2) _ metadata_given_sorted, unfolded dl, OF assms(4-6) _ i(1,5,6)]
  show "\<exists>s v vid d'. map_of (ar_options a) ''vector'' = Some s \<and> parse_vector_literal (ce_text env) s = Inr v \<and>
    insert_id a (db_next_auto_id d) = Inr vid \<and> vs_abs (db_store d) vid = None \<and>
    (map_of (ar_options a) ''json'' = None \<and> map_of (ar_options a) ''quiet'' = None \<longrightarrow>
       out = ''Inserted vector with id '' @ show_nat (unat vid) @ ''.'' @ nl) \<and>
    l = Closed d' \<and> db_directory d' = db_directory d \<and>
    (\<forall>host'. left_behind content d' host' \<longrightarrow> db_open (ce_db env) (db_directory d) host' \<in> {Inl MetadataError, Inl IoError} \<or>
      (\<exists>e. db_open (ce_db env) (db_directory d) host' = Inr e \<and> db_config e = db_config d \<and>
        vs_abs (db_store e) = (vs_abs (db_store d))(vid \<mapsto> stored_row (dc_normalize (db_config d)) v) \<and>
        db_holds content (if metadata_given env a = [] then g else g(vid := metadata_given env a)) e))"
    using i k sl(3) by (intro exI [of _ s] exI [of _ v] exI [of _ vid] exI [of _ d2]) simp
qed

section \<open>Opening in a run in which nothing fails\<close>

text \<open>A step of opening that meets no failure of the tables or of the files, and leaves none to come.\<close>

definition flows :: "sql_content \<Rightarrow> (string \<Rightarrow> byte list option) \<Rightarrow> table_db mstore \<Rightarrow> (table_db, 'a) open_act \<Rightarrow> bool" where
  "flows C W M f \<longleftrightarrow> (\<forall>db w r mw. td_content db = C \<longrightarrow> visible w = W \<longrightarrow> td_outcomes db = [] \<longrightarrow> quiet w \<longrightarrow>
     f (M\<lparr>ms_db := db\<rparr>, w) = (r, mw) \<longrightarrow>
     r \<noteq> Inl MetadataError \<and> r \<noteq> Inl IoError \<and> td_outcomes (ms_db (fst mw)) = [] \<and> quiet (snd mw))"

lemma flowsI:
  assumes "\<And>db w. td_content db = C \<Longrightarrow> visible w = W \<Longrightarrow> td_outcomes db = [] \<Longrightarrow> quiet w \<Longrightarrow>
     fst (f (M\<lparr>ms_db := db\<rparr>, w)) \<noteq> Inl MetadataError \<and> fst (f (M\<lparr>ms_db := db\<rparr>, w)) \<noteq> Inl IoError \<and>
     td_outcomes (ms_db (fst (snd (f (M\<lparr>ms_db := db\<rparr>, w))))) = [] \<and> quiet (snd (snd (f (M\<lparr>ms_db := db\<rparr>, w))))"
  shows "flows C W M f"
  using assms unfolding flows_def by (metis fst_conv snd_conv)

lemma flows_bind:
  assumes o: "opens td_content C W M f Q" and f: "flows C W M f" and g: "\<And>x. Q x \<Longrightarrow> flows C W M (g x)"
  shows "flows C W M (abind f g)"
  unfolding flows_def
proof (intro allI impI)
  fix db w r mw
  assume m: "td_content db = C" "visible w = W" and k: "td_outcomes db = []" "quiet w" and run: "abind f g (M\<lparr>ms_db := db\<rparr>, w) = (r, mw)"
  obtain r1 s1 where f1: "f (M\<lparr>ms_db := db\<rparr>, w) = (r1, s1)" by (cases "f (M\<lparr>ms_db := db\<rparr>, w)")
  have c: "r1 \<noteq> Inl MetadataError" "r1 \<noteq> Inl IoError" "td_outcomes (ms_db (fst s1)) = []" "quiet (snd s1)"
    using f m k f1 unfolding flows_def by blast+
  from o m f1 show "r \<noteq> Inl MetadataError \<and> r \<noteq> Inl IoError \<and> td_outcomes (ms_db (fst mw)) = [] \<and> quiet (snd mw)"
  proof (cases rule: opensD)
    case 1
    then show ?thesis using c by blast
  next
    case (2 x db1 w1)
    have "g x (M\<lparr>ms_db := db1\<rparr>, w1) = (r, mw)" using run f1 2 by (simp add: abind_def)
    moreover have "td_outcomes db1 = []" "quiet w1" using c(3,4) 2(3) by simp_all
    ultimately show ?thesis using g [OF 2(2)] 2(4,5) unfolding flows_def by blast
  qed
qed

lemma flows_steps: "flows C W M (alift (Inr x))" "flows C W M (aret x)" "q \<noteq> Inl MetadataError \<Longrightarrow> q \<noteq> Inl IoError \<Longrightarrow> flows C W M (alift q)"
  by (auto intro!: flowsI)

lemma small_sqlite: "en_sqlite small_env = table_sqlite" "en_schema small_env = ''''"
  by (simp_all add: small_env_def)

lemma flows_config: "ms_conf M \<Longrightarrow> flows C W M (open_config small_env k)"
proof (rule flowsI)
  fix db :: table_db and w assume M: "ms_conf M" and k: "td_outcomes db = []" "quiet w"
  have c: "ms_conf (M\<lparr>ms_db := db\<rparr>)" using M by (simp add: ms_conf_def)
  obtain rows where q: "sq_query table_sqlite sql_get_config [SqlText k] (ms_db (M\<lparr>ms_db := db\<rparr>)) = ((rows, True), db)"
    using k by (simp add: table_sqlite_def td_query_def td_next_def)
  note run = get_config_run [OF c q]
  have "\<exists>v. ms_get_config table_sqlite k (M\<lparr>ms_db := db\<rparr>) = (Inr v, M\<lparr>ms_db := db\<rparr>)"
    using run by (cases rows) auto
  then show "fst (open_config small_env k (M\<lparr>ms_db := db\<rparr>, w)) \<noteq> Inl MetadataError \<and> fst (open_config small_env k (M\<lparr>ms_db := db\<rparr>, w)) \<noteq> Inl IoError \<and>
     td_outcomes (ms_db (fst (snd (open_config small_env k (M\<lparr>ms_db := db\<rparr>, w))))) = [] \<and> quiet (snd (snd (open_config small_env k (M\<lparr>ms_db := db\<rparr>, w))))"
    using k by (auto simp: open_config_def azoom_def small_sqlite)
qed

lemma flows_u64:
  assumes "ms_conf M" "n < 2 ^ 64" "sc_config C k = Some (show_nat n)"
  shows "flows C W M (open_u64 small_env k)"
  unfolding open_u64_def
  by (rule flows_bind [OF opens_config [OF small_laws assms(1)] flows_config [OF assms(1)]]) (simp add: assms(3) parse_shown [OF assms(2)] flows_steps)

lemma flows_read_config:
  assumes M: "ms_conf M" and st: "config_stored C c" and fits: "config_fits c"
  shows "flows C W M (read_config small_env)"
proof -
  note s = st [unfolded config_stored_rows] and cfg = flows_bind [OF opens_config [OF small_laws M, of C W] flows_config [OF M]]
  have b: "dc_dimension c < 2 ^ 64" "hc_m (dc_hnsw c) < 2 ^ 64" "hc_ef_construction (dc_hnsw c) < 2 ^ 64"
    "hc_ef_search (dc_hnsw c) < 2 ^ 64" "unat (hc_seed (dc_hnsw c)) < 2 ^ 64" "dc_validate c = Inr ()" "dc_dimension c < 2 ^ 32"
    using fits unsigned_less [of "hc_seed (dc_hnsw c)"] by (auto simp: config_fits_def dc_validate_def result_simps kMaxDimension_def)
  note num = flows_bind [OF opens_u64 [OF small_laws M] flows_u64 [OF M]]
  have e: "\<lparr>dc_dimension = cast_u32 (unat (word_of_nat (dc_dimension c) :: u64)), dc_metric = dc_metric c, dc_index_type = dc_index_type c,
      dc_hnsw = \<lparr>hc_m = unat (word_of_nat (hc_m (dc_hnsw c)) :: u64), hc_ef_construction = unat (word_of_nat (hc_ef_construction (dc_hnsw c)) :: u64),
        hc_ef_search = unat (word_of_nat (hc_ef_search (dc_hnsw c)) :: u64), hc_seed = word_of_nat (unat (hc_seed (dc_hnsw c)))\<rparr>,
      dc_normalize = (case sc_config C kKeyNormalize of None \<Rightarrow> False | Some t \<Rightarrow> t = ''1'')\<rparr> = c"
    using b s by (cases c; cases "dc_hnsw c") (simp add: unat_of_nat cast_u32_def)
  have last: "flows C W M (abind (alift (dc_validate c)) (\<lambda>_. aret c))"
    unfolding b(6) by (rule flows_bind [OF opens_lift(1) [where Q = "\<lambda>_. True"] flows_steps(1) flows_steps(2)]) simp
  show ?thesis
    unfolding read_config_def
    by (rule num [OF b(1) _ b(1)], simp add: s, simp add: s, simp, rule cfg, simp add: s, rule cfg, simp add: s, rule cfg, simp,
        rule num [OF b(2) _ b(2)], simp add: s, simp add: s, simp, rule num [OF b(3) _ b(3)], simp add: s, simp add: s, simp,
        rule num [OF b(4) _ b(4)], simp add: s, simp add: s, simp,
        rule num [OF b(5) _ b(5)], simp add: s, simp add: s, simp only: Let_def e, rule last)
qed

lemma quiet_map_file:
  assumes q: "quiet w" and v: "visible w path = Some bs"
  obtains w' where "map_file path w = (Inr bs, w')" "quiet w'"
proof -
  obtain i where i: "w_dir w path = Some i" "w_data w i = bs" using v by (auto simp: visible_def split: option.splits)
  obtain fd w1 where o: "sys_open path w = (Done fd, w1)" "w_fds w1 fd = Some (i, 0)" "w_data w1 i = bs" "quiet w1"
    using i q by (auto simp: sys_open_def quiet_call [OF q] sys_open_fd_def)
  have "map_file path w = (Inr bs, close_guard fd w1)"
    using o by (simp add: map_file_def abind_step or_io_error_def afinally_def quiet_call)
  moreover have "quiet (close_guard fd w1)" using o(4) by (simp add: close_guard_def sys_close_def quiet_call)
  ultimately show ?thesis by (rule that)
qed

lemma flows_store:
  assumes vis: "W (vector_file_path dir) = Some bytes" and rd: "read_vector_file bytes = Inr s"
  shows "flows C W M (open_store dir c)"
proof (rule flowsI)
  fix db :: table_db and w assume m: "visible w = W" and k: "td_outcomes db = []" "quiet w"
  obtain w' where "map_file (vector_file_path dir) w = (Inr bytes, w')" "quiet w'" using quiet_map_file [OF k(2)] vis m by blast
  then have "open_store dir c (M\<lparr>ms_db := db\<rparr>, w) = (Inr s, (M\<lparr>ms_db := db\<rparr>, w'))"
    using vis m rd by (simp add: open_store_def exists_visible open_files_def azoom_def abind_step)
  then show "fst (open_store dir c (M\<lparr>ms_db := db\<rparr>, w)) \<noteq> Inl MetadataError \<and> fst (open_store dir c (M\<lparr>ms_db := db\<rparr>, w)) \<noteq> Inl IoError \<and>
     td_outcomes (ms_db (fst (snd (open_store dir c (M\<lparr>ms_db := db\<rparr>, w))))) = [] \<and> quiet (snd (snd (open_store dir c (M\<lparr>ms_db := db\<rparr>, w))))"
    using k \<open>quiet w'\<close> by simp
qed

lemma flows_count: "flows C W M (azoom fst (\<lambda>m (_, w). (m, w)) (ms_vector_count (en_sqlite small_env)))"
proof (rule flowsI)
  fix db :: table_db and w assume k: "td_outcomes db = []" "quiet w"
  have st: "st_new sql_count_distinct = \<lparr>st_sql = sql_count_distinct, st_params = [], st_run = None\<rparr>"
    by (simp add: st_new_def sql_count_distinct_def)
  obtain n where q: "sq_query table_sqlite sql_count_distinct [] db = (([[SqlInt n]], True), db)"
    using k by (simp add: table_sqlite_def td_query_def td_next_def)
  have "ms_vector_count table_sqlite (M\<lparr>ms_db := db\<rparr>) = (Inr (unat n), M\<lparr>ms_db := db\<rparr>)"
    using q by (simp add: ms_vector_count_def count_query_def on_db_def local_statement_def statement_prepare_def st statement_defs Let_def
        column_int64_def) (simp add: table_sqlite_def)
  then show "fst (azoom fst (\<lambda>m (_, w). (m, w)) (ms_vector_count (en_sqlite small_env)) (M\<lparr>ms_db := db\<rparr>, w)) \<noteq> Inl MetadataError \<and>
     fst (azoom fst (\<lambda>m (_, w). (m, w)) (ms_vector_count (en_sqlite small_env)) (M\<lparr>ms_db := db\<rparr>, w)) \<noteq> Inl IoError \<and>
     td_outcomes (ms_db (fst (snd (azoom fst (\<lambda>m (_, w). (m, w)) (ms_vector_count (en_sqlite small_env)) (M\<lparr>ms_db := db\<rparr>, w))))) = [] \<and>
     quiet (snd (snd (azoom fst (\<lambda>m (_, w). (m, w)) (ms_vector_count (en_sqlite small_env)) (M\<lparr>ms_db := db\<rparr>, w))))"
    using k by (simp add: azoom_def small_sqlite)
qed

text \<open>What opening ends with is where the database stays.\<close>

definition hands_over :: "('db, 'db database) open_act \<Rightarrow> bool" where
  "hands_over f \<longleftrightarrow> (\<forall>mw d mw'. f mw = (Inr d, mw') \<longrightarrow> mw' = (db_metadata d, db_world d))"

lemma hands_bind: "(\<And>x. hands_over (g x)) \<Longrightarrow> hands_over (abind f g)"
  unfolding hands_over_def by (fastforce simp: act_inv)

lemma open_hands_over: "hands_over (abind (read_config env) (\<lambda>c.
          abind (open_store dir c) (\<lambda>s.
          abind (aguard (vs_dimension s \<noteq> dc_dimension c) CorruptionError) (\<lambda>_.
          abind (open_config env kKeyNextId) (\<lambda>next_text.
          abind (alift (parse_u64 (Some (case next_text of None \<Rightarrow> ''0'' | Some t \<Rightarrow> t)))) (\<lambda>next_id.
          abind (azoom fst (\<lambda>m (_, w). (m, w)) (ms_vector_count (en_sqlite env))) (\<lambda>vectors.
          abind (load_index env dir c s) (\<lambda>loaded.
          abind (alift (case loaded of
                   Some ix \<Rightarrow> Inr (HnswIndex ix, ho_scratch host)
                 | None \<Rightarrow> built_index env c s (ho_scratch host))) (\<lambda>(ix, scratch) (m, w).
          (Inr \<lparr>db_directory = dir, db_config = c, db_store = s, db_metadata = m, db_index = ix, db_next_auto_id = next_id,
                db_dirty = (loaded = None \<and> dc_index_type c = Hnsw), db_has_metadata = (vectors > 0),
                db_scratch = scratch, db_world = w\<rparr>, (m, w)))))))))))"
  apply (rule hands_bind)+
  apply (simp add: hands_over_def split_beta)
  done

lemma calm_open:
  assumes h: "ho_is_directory host" "visible (ho_world host) (metadata_file_path dir) \<noteq> None" "ho_sqlite host = Some db" "vst_inv (ho_scratch host)"
    and disk: "on_disk small_env dir c s g n (td_content db) (visible (ho_world host))" and fits: "config_fits c"
    and s: "vs_inv s" "vs_dimension s = dc_dimension c" "vs_normalize s = dc_normalize c" "room_for c (vs_slot_count s)"
    and calm: "td_outcomes db = []" "quiet (ho_world host)" "world_ok (ho_world host)" and t: "dc_index_type c = BruteForce"
  obtains e where "db_open small_env dir host = Inr e" "calm e" "opened td_content small_env dir c s g n (visible (ho_world host)) e"
proof -
  have lo: "law_open table_sqlite '''' td_content" by (rule td_law_open)
  have exec: "connection_execute table_sqlite kPragmas db = (Inr (), db)" "connection_execute table_sqlite [] db = (Inr (), db)"
    using calm(1) by (simp_all add: connection_execute_def table_sqlite_def td_exec_def td_next_def kPragmas_def)
  have prep: "statement_prepare table_sqlite sql db = (Inr (st_new sql), db)" for sql db
    by (simp add: statement_prepare_def table_sqlite_def)
  obtain db0 where v0: "sq_query table_sqlite sql_schema_version [SqlText (show_nat kSchemaVersion)] db = (([], True), db0)" "td_outcomes db0 = []"
    using calm(1) by (auto simp: table_sqlite_def td_query_def td_next_def)
  have v: "local_statement table_sqlite sql_schema_version (abind (bind_text 1 (show_nat kSchemaVersion)) (\<lambda>_. stmt_run table_sqlite)) db = (Inr (), db0)"
    using v0(1) by (simp add: local_statement_def prep config_statements(3) statement_defs Let_def)
  have m: "ms_open (en_sqlite small_env) (en_schema small_env) (Some db) = Inr (fresh_mstore db0)"
    using v by (simp add: ms_open_def connection_open_def small_env_def abind_step exec prep fresh_mstore_def del: statement_params)
  obtain cfg where c0: "td_content db0 = (td_content db)\<lparr>sc_config := cfg\<rparr>" "\<forall>k. k \<noteq> ''schema_version'' \<longrightarrow> cfg k = sc_config (td_content db) k"
    using lo v0(1) unfolding law_open_def by blast
  let ?W = "visible (ho_world host)" and ?M = "fresh_mstore db0" and ?C = "td_content db0"
  have here: "on_disk small_env dir c s g n ?C ?W" by (rule on_disk_version [OF disk c0])
  then obtain bytes where vis: "?W (vector_file_path dir) = Some bytes" "read_vector_file bytes = Inr s"
    and st: "config_stored ?C c" and nx: "sc_config ?C kKeyNextId = Some (show_nat (unat n))" by (auto simp: on_disk_def)
  have M: "ms_conf ?M" "?M = ?M\<lparr>ms_db := db0\<rparr>" by (simp_all add: ms_conf_def fresh_mstore_def)
  have p: "parse_u64 (Some (case Some (show_nat (unat n)) of None \<Rightarrow> ''0'' | Some t \<Rightarrow> t)) = Inr n"
    using parse_shown [of "unat n"] unsigned_less [of n] by simp
  obtain ix v' where b: "built_index small_env c s (ho_scratch host) = Inr (ix, v')"
    using built_index_ok [OF s(1) _ h(4) s(4), of small_env] fits by (auto simp: config_fits_def)
  have l: "load_index small_env dir c s = aret None" using t by (auto simp: load_index_def fun_eq_iff)
  let ?chain = "abind (read_config small_env) (\<lambda>c.
          abind (open_store dir c) (\<lambda>s.
          abind (aguard (vs_dimension s \<noteq> dc_dimension c) CorruptionError) (\<lambda>_.
          abind (open_config small_env kKeyNextId) (\<lambda>next_text.
          abind (alift (parse_u64 (Some (case next_text of None \<Rightarrow> ''0'' | Some t \<Rightarrow> t)))) (\<lambda>next_id.
          abind (azoom fst (\<lambda>m (_, w). (m, w)) (ms_vector_count (en_sqlite small_env))) (\<lambda>vectors.
          abind (load_index small_env dir c s) (\<lambda>loaded.
          abind (alift (case loaded of
                   Some ix \<Rightarrow> Inr (HnswIndex ix, ho_scratch host)
                 | None \<Rightarrow> built_index small_env c s (ho_scratch host))) (\<lambda>(ix, scratch) (m, w).
          (Inr \<lparr>db_directory = dir, db_config = c, db_store = s, db_metadata = m, db_index = ix, db_next_auto_id = next_id,
                db_dirty = (loaded = None \<and> dc_index_type c = Hnsw), db_has_metadata = (vectors > 0),
                db_scratch = scratch, db_world = w\<rparr>, (m, w))))))))))"
  have fin: "flows ?C ?W ?M (abind (alift (case loaded of Some ix \<Rightarrow> Inr (HnswIndex ix, ho_scratch host) | None \<Rightarrow> built_index small_env c s (ho_scratch host)))
      (\<lambda>(ix, scratch) (m, w). (Inr \<lparr>db_directory = dir, db_config = c, db_store = s, db_metadata = m, db_index = ix, db_next_auto_id = n,
                db_dirty = (loaded = None \<and> dc_index_type c = Hnsw), db_has_metadata = (vectors > 0), db_scratch = scratch, db_world = w\<rparr>, (m, w))))"
    if "loaded = None" for vectors :: nat and loaded :: "hnsw_index option"
    by (rule flowsI) (simp add: b abind_step that)
  have flow: "flows ?C ?W ?M ?chain"
    apply (rule flows_bind [OF opens_read_config [OF small_laws M(1) st fits] flows_read_config [OF M(1) st fits]], hypsubst)
    apply (rule flows_bind [OF opens_store [where W = ?W, OF vis] flows_store [where W = ?W, OF vis]], hypsubst)
    apply (rule flows_bind [where Q = "\<lambda>_. True"], simp add: s(2) aguard_def opens_lift, simp add: s(2) aguard_def flows_steps)
    apply (rule flows_bind [OF opens_config [OF small_laws M(1)] flows_config [OF M(1)]], hypsubst)
    apply (unfold nx p l)
    apply (rule flows_bind [where Q = "\<lambda>v. v = n"], simp add: opens_lift, rule flows_steps, hypsubst)
    apply (rule flows_bind [OF opens_count [OF small_laws] flows_count])
    apply (rule flows_bind [where Q = "\<lambda>v. v = None"], rule opens_lift(2), rule refl, rule flows_steps(2))
    apply (rule fin, assumption)
    done
  obtain r mw where run: "?chain (?M\<lparr>ms_db := db0\<rparr>, ho_world host) = (r, mw)" by (rule prod.exhaust)
  have k: "r \<noteq> Inl MetadataError" "r \<noteq> Inl IoError" "td_outcomes (ms_db (fst mw)) = []" "quiet (snd mw)"
    using flow run v0(2) calm(2) unfolding flows_def by blast+
  have r: "db_open small_env dir host = r"
    using h m M(2) run by (simp add: db_open_def guard_throw_def exists_visible)
  have "db_open small_env dir host \<in> {Inl MetadataError, Inl IoError} \<or>
    (\<exists>d. db_open small_env dir host = Inr d \<and> opened td_content small_env dir c s g n ?W d)"
    by (rule open_cases [OF small_laws _ h(1-4) disk fits s]) (use lo in \<open>simp add: small_env_def\<close>)
  then obtain e where e: "r = Inr e" "opened td_content small_env dir c s g n ?W e" using k(1,2) r by auto
  have "mw = (db_metadata e, db_world e)" using open_hands_over [of small_env dir host] run e(1) unfolding hands_over_def by blast
  moreover have "world_ok (db_world e)" using open_names r e(1) calm(3) by blast
  ultimately have "calm e" using k(3,4) e(2) by (simp add: calm_def opened_def)
  then show ?thesis using that r e by simp
qed

text \<open>An insert without metadata into a database in a run in which nothing fails.\<close>

lemma calm_insert:
  assumes i: "db_inv d" and r: "db_room d" and k: "calm d" and fresh: "vs_abs (db_store d) vid = None"
    and v: "validate_vector v (vs_dimension (db_store d)) = Inr ()" and n: "vs_slot_count (db_store d) < kMaxVectorCount"
  obtains d' where "db_insert small_env vid v [] d = (Inr (), d')" "calm d'" "db_inv d'"
proof -
  have s: "vs_inv (db_store d)" using i by (simp add: db_inv_def)
  have "vs_id_to_local (db_store d) vid = None" using fresh s by (simp add: vs_abs_def split: option.splits)
  then obtain j t where ins: "vs_insert (db_store d) vid v = Inr (j, t)" using vs_insert_total [OF s _ n v] by (metis surj_pair)
  obtain d1 where d1: "index_add small_env j (refresh_accessor (d\<lparr>db_store := t\<rparr>)) = (Inr (), d1)" "db_inv d1"
    "d1 = d\<lparr>db_store := t, db_index := db_index d1, db_scratch := db_scratch d1\<rparr>" using insert_steps [OF i i r ins] by blast
  let ?d = "(if vid \<ge> db_next_auto_id d1 then d1\<lparr>db_next_auto_id := vid + 1\<rparr> else d1)\<lparr>db_dirty := True\<rparr>"
  have "db_insert small_env vid v [] d = (Inr (), ?d)" using ins d1(1) by (simp add: db_insert_def db_read_def abind_def db_update_def)
  moreover have "db_world d1 = db_world d" "db_metadata d1 = db_metadata d" by (subst d1(3), simp)+
  then have "calm ?d" using k by (simp add: calm_def)
  moreover have "db_inv ?d" using d1(2) by (simp add: db_inv_def)
  ultimately show ?thesis by (rule that)
qed

definition small_cli :: "table_db cli_env" where
  "small_cli = \<lparr>ce_db = small_env, ce_text = bit_format, ce_print = \<lparr>of_f32 = \<lambda>_. [], of_f64 = \<lambda>_. [], of_fixed = \<lambda>_ _. [], of_issue = \<lambda>_. []\<rparr>,
     ce_strtod = \<lambda>_. (0, 0), ce_stod = \<lambda>_. None, ce_math = \<lparr>mf_logf = \<lambda>x. x, mf_cosf = \<lambda>x. x\<rparr>, ce_elapsed = 0, ce_memory = (0, 0),
     ce_stream = \<lambda>_ _. (True, True, 0), ce_log_file = \<lambda>_. True, ce_build_info = []\<rparr>"

lemma insert_command_persists_witness:
  "\<exists>d host out l. vs_abs (db_store d) = Map.empty \<and> left_behind td_content d host \<and>
     cli_main small_cli [''insert'', ''d'', ''--vector=0''] host = (0, out, l) \<and>
     (\<exists>vid d'. l = Closed d' \<and> out = ''Inserted vector with id '' @ show_nat (unat vid) @ ''.'' @ nl \<and>
       (\<forall>host'. left_behind td_content d' host' \<longrightarrow> db_open small_env ''d'' host' \<in> {Inl MetadataError, Inl IoError} \<or>
         (\<exists>e. db_open small_env ''d'' host' = Inr e \<and> vs_abs (db_store e) = [vid \<mapsto> stored_row False [0]])))"
proof -
  have fits: "config_fits small_config" using small_config_fits [of BruteForce] by (simp add: small_config_def)
  obtain d where d: "db_create small_env ''d'' small_config new_host = Inr (Inr (), d)" "calm d"
    by (rule calm_created [of small_config]) simp
  have lo: "law_open (en_sqlite small_env) (en_schema small_env) td_content" using td_law_open by (simp add: small_env_def)
  note c = create_session [OF small_laws lo new_host_ok(1,2,4) fits d(1)]
  let ?h = "new_host\<lparr>ho_sqlite := Some (ms_db (db_metadata d)), ho_world := db_world d\<rparr>"
  have c': "db_session td_content small_env (\<lambda>_. []) d" "\<not> db_dirty d" "db_config d = small_config" "db_directory d = ''d''"
    "vs_abs (db_store d) = Map.empty" "vs_slot_count (db_store d) = 0" using c by simp_all
  have room: "room_for (db_config d) (Suc (vs_slot_count (db_store d)))" by (simp add: c'(3,6) room_for_def small_config_def kMaxVectorCount_def)
  have lb: "left_behind td_content d ?h" using c new_metadata_visible by (simp add: left_behind_def new_host_def)
  have ok: "world_ok (ho_world ?h)" using d(2) by (simp add: calm_def)
  have fits': "config_fits (db_config d)" using fits c'(3) by simp
  have room0: "room_for (db_config d) (vs_slot_count (db_store d))" by (rule room_mono [OF room]) simp
  have inv: "db_inv d" "db_holds td_content (\<lambda>_. []) d" "files_current small_env d (db_rows td_content d)"
    "config_stored (td_content (ms_db (db_metadata d))) (db_config d)" using c'(1,2) by (simp_all add: db_session_def)
  have disk: "on_disk small_env ''d'' (db_config d) (db_store d) (\<lambda>_. []) (db_next_auto_id d) (td_content (ms_db (db_metadata d))) (visible (ho_world ?h))"
    using inv c'(4) by (auto simp: on_disk_def files_current_def db_rows_def db_holds_def ms_rest_def)
  obtain e where e: "db_open small_env ''d'' ?h = Inr e" "calm e"
    by (rule calm_open [OF _ _ _ _ disk fits' _ _ _ room0])
      (use inv(1) lb c'(3,4) d(2) in \<open>auto simp: left_behind_def db_inv_def calm_def small_config_def\<close>)
  note n = next_session [OF small_laws lo c'(1,2) fits' room0 lb ok, unfolded c'(4), OF e(1)]
  have i: "db_inv e" "db_room e" "vs_abs (db_store e) (db_next_auto_id e) = None" "vs_dimension (db_store e) = 1"
    using n c' room by (auto simp: db_session_def db_room_def db_inv_def small_config_def)
  obtain d1 where d1: "db_insert small_env (db_next_auto_id e) [0] [] e = (Inr (), d1)" "calm d1" "db_inv d1"
    by (rule calm_insert [OF i(1,2) e(2) i(3)]) (use n c'(6) i(4) zero_vector_valid in \<open>simp_all add: kMaxVectorCount_def\<close>)
  obtain d2 where d2: "db_flush small_env d1 = (Inr (), d2)" "calm d2" by (rule calm_flush [OF d1(3,2)])
  let ?a = "no_args\<lparr>ar_options := [(''vector'', ''0'')], ar_positionals := [''d'']\<rparr>"
  have a: "parse_args [''d'', ''--vector=0''] = Inr ?a"
    by (simp add: parse_args_def parse_from.simps split_equals_def take_value_def put_option_def is_repeatable_def no_args_def)
  have v: "parse_vector_literal bit_format ''0'' = Inr [0]"
    by (simp add: parse_vector_literal_def is_literal_separator_def literal_flush_def bit_format_def digits_value_def guard_throw_def)
  let ?b = "?a\<lparr>ar_touched := [''json'', ''quiet'', ''verbose'', ''log-level'', ''log-file'']\<rparr>"
  have conf: "configure small_cli \<lparr>se_args = ?a, se_out = [], se_rest = ho_world ?h\<rparr> =
      (Inr (\<lparr>go_json = False, go_quiet = False\<rparr>, LogWarn), \<lparr>se_args = ?b, se_out = [], se_rest = ho_world ?h\<rparr>)"
    by (simp add: configure_runs option_given_def touch_def no_args_def named_def)
  have auto: "db_insert_auto small_env [0] [] e = (Inr (db_next_auto_id e), d1)"
    using d1(1) by (simp add: db_insert_auto_def db_read_def abind_step)
  note body = session.select_convs session.update_convs on_args_def on_rest_def azoom_def abind_def emit_def
  have "command_insert small_cli \<lparr>go_json = False, go_quiet = False\<rparr> ?b ?h =
      (Inr kExitOk, ''Inserted vector with id '' @ show_nat (unat (db_next_auto_id e)) @ ''.'' @ nl, Closed (db_destroy small_env d2))"
    using e(1) v auto d2(1)
    by (simp add: command_insert_def open_database_def require_positional_def positional_def close_after_def body arg_require_def arg_value_def
        arg_has_def arg_number_def arg_repeated_def read_metadata_def touch_def no_args_def reject_unknown_options_def arg_unused_def small_cli_def)
  then obtain out l where run: "cli_main small_cli (''insert'' # [''d'', ''--vector=0'']) ?h = (0, out, l)"
    using conf by (simp add: cli_main_def run_command_def a command_table_def kExitOk_def)
  have sc: "ce_db small_cli = small_env" "ce_text small_cli = bit_format" by (simp_all add: small_cli_def)
  have p: "positional 0 ?a = Some (db_directory d)" by (simp add: positional_def no_args_def c'(4))
  have o: "map_of (ar_options ?a) ''vector'' = Some ''0''" "map_of (ar_options ?a) ''json'' = None" "map_of (ar_options ?a) ''quiet'' = None"
    and m: "metadata_given small_cli ?a = []"
    by (simp_all add: metadata_given_def no_args_def)
  from insert_command_persists [where env = small_cli and content = td_content, unfolded sc, OF small_laws lo c'(1,2) fits' room lb ok a p run]
  obtain vid d' where "l = Closed d'" "out = ''Inserted vector with id '' @ show_nat (unat vid) @ ''.'' @ nl"
    "\<forall>host'. left_behind td_content d' host' \<longrightarrow> db_open small_env ''d'' host' \<in> {Inl MetadataError, Inl IoError} \<or>
      (\<exists>e. db_open small_env ''d'' host' = Inr e \<and> vs_abs (db_store e) = [vid \<mapsto> stored_row False [0]])"
    using o v c'(3-5) by (auto simp: small_config_def) blast
  then show ?thesis using c'(5) lb run by blast
qed

section \<open>Export and import\<close>

text \<open>What an export gathers, read off the store: the rows of the live vectors by ascending id.\<close>

definition live_row :: "'db database \<Rightarrow> u64 \<Rightarrow> vec" where
  "live_row d vid = fst (the (vs_abs (db_store d) vid))"

lemma export_rows_gather:
  assumes laws: "sqlite_laws (en_sqlite env) content" and h: "db_holds content g d" and va: "va_inv vs"
    and run: "export_rows env is vs acc d = (Inr (vs', ids), d')"
  shows "ids = acc @ filter (\<lambda>i. vs_abs (db_store d) i \<noteq> None) is \<and> va_inv vs' \<and> va_dimension vs' = va_dimension vs \<and>
    va_rows vs' = va_rows vs @ map (live_row d) (filter (\<lambda>i. vs_abs (db_store d) i \<noteq> None) is)"
  using h va run
proof (induction "is" arbitrary: vs acc d)
  case Nil
  then show ?case by (simp add: aret_def)
next
  case (Cons i "is")
  obtain hit d1 where get: "db_get env i d = (Inr hit, d1)"
    and rest: "(case hit of None \<Rightarrow> export_rows env is vs acc
     | Some stored \<Rightarrow> abind (alift (va_push_back vs (sv_vector stored))) (\<lambda>(_, vs). export_rows env is vs (acc @ [i]))) d1 = (Inr (vs', ids), d')"
    using Cons.prems(3) by (auto simp: act_inv)
  note r = get_refines [OF laws Cons.prems(1) get]
  then have same: "db_store d1 = db_store d" "live_row d1 = live_row d" by (auto simp: live_row_def fun_eq_iff)
  have h1: "db_holds content g d1" using r by blast
  show ?case
  proof (cases "vs_abs (db_store d) i")
    case None
    then have "hit = None" using conjunct1 [OF r] by (simp only: option.map)
    then have "export_rows env is vs acc d1 = (Inr (vs', ids), d')" using rest by simp
    from Cons.IH [OF h1 Cons.prems(2) this] show ?thesis unfolding same using None by (simp only: filter.simps if_False not_True_eq_False refl simp_thms)
  next
    case (Some row)
    have hit: "hit = Some \<lparr>sv_id = i, sv_vector = live_row d i, sv_metadata = read_md (g i)\<rparr>"
      using r by (simp add: Some live_row_def split_beta)
    obtain j v1 where p: "va_push_back vs (live_row d i) = Inr (j, v1)" and next_row: "export_rows env is v1 (acc @ [i]) d1 = (Inr (vs', ids), d')"
      using rest hit by (auto simp: act_inv)
    note v1 = va_push_back_ok [OF Cons.prems(2) p]
    have "\<exists>y. vs_id_to_local (db_store d) i = Some y" using Some by (auto simp: vs_abs_def)
    with Cons.IH [OF h1 v1(1) next_row] show ?thesis using v1 by (simp add: same)
  qed
qed

lemma gather_live_rows:
  assumes laws: "sqlite_laws (en_sqlite env) content" and inv: "db_inv d" and h: "db_holds content g d"
    and run: "gather_live env d = (Inr (vs, ids), d')"
  shows "va_inv vs \<and> ids = db_all_ids d \<and> va_dimension vs = dc_dimension (db_config d) \<and> va_rows vs = map (live_row d) ids"
proof -
  obtain v0 where v0: "va_new (dc_dimension (db_config d)) = Inr v0" and rows: "export_rows env (db_all_ids d) v0 [] d = (Inr (vs, ids), d')"
    using run by (auto simp: gather_live_def db_read_def act_inv)
  note n = va_new_inv [OF v0]
  have "vs_abs (db_store d) i \<noteq> None" if "i \<in> set (db_all_ids d)" for i
    using that conjunct1 [OF all_ids_live [OF inv]] by (auto simp: db_contains_def vs_contains_def vs_find_def vs_abs_def)
  then have "filter (\<lambda>i. vs_abs (db_store d) i \<noteq> None) (db_all_ids d) = db_all_ids d" by (simp only: filter_id_conv) blast
  then show ?thesis using export_rows_gather [OF laws h _ rows] n by simp
qed

text \<open>The id an imported row gets when the ids are in the file or counted from a given one.\<close>

definition import_id :: "vector_batch \<Rightarrow> u64 option \<Rightarrow> nat \<Rightarrow> u64" where
  "import_id b start i = (case start of None \<Rightarrow> vb_ids b ! i | Some n \<Rightarrow> n + word_of_nat i)"

lemma import_is_writes:
  assumes "vb_ids b \<noteq> [] \<or> start \<noteq> None"
  shows "import_rows env b start is = run_writes env (map (\<lambda>i. WInsert (import_id b start i) (va_view (vb_vectors b) i) []) is)"
  by (induction "is") (use assms in \<open>auto simp: import_id_def split: option.splits\<close>)

lemma fold_inserts:
  "fold (apply_write nrm) (map (\<lambda>i. WInsert (k i) (v i) []) is) (V, g) = (fold (\<lambda>i V. V(k i \<mapsto> stored_row nrm (v i))) is V, g)"
  by (induction "is" arbitrary: V) simp_all

lemma fold_rows:
  assumes "distinct ks" "length ks = n"
  shows "fold (\<lambda>i V. V(ks ! i \<mapsto> f (ks ! i))) [0..<n] Map.empty = (\<lambda>k. if k \<in> set ks then Some (f k) else None)"
proof -
  have "fold (\<lambda>i V. V(ks ! i \<mapsto> f (ks ! i))) [0..<m] Map.empty = (\<lambda>k. if k \<in> set (take m ks) then Some (f k) else None)" if "m \<le> n" for m
    using that by (induction m) (auto simp: assms(2) take_Suc_conv_app_nth fun_eq_iff)
  from this [of n] show ?thesis using assms(2) by simp
qed

text \<open>C11: What one database exports, another imports. The exported file holds every live vector under its id, and importing it into
  an empty database, by whatever process finds the file as it was left, stores the same vectors under the same ids, each
  normalised if that database normalises; metadata is not carried over. The metadata stores are at rest, the file is within the
  reader's limit of 64 GiB, and the second database has room for the rows (\<open>room_for\<close>).\<close>

theorem export_import_round_trip:
  assumes "sqlite_laws (en_sqlite env) content" and "db_inv d" and "db_holds content g d"
    and "gather_live env d = (Inr (vs, ids), d1)"
    and "write_vector_matrix path vs ids w = (Inr (), w1)" and "world_ok w"
    and "32 + 4 * (vs_live_count (db_store d) * dc_dimension (db_config d)) + 8 * vs_live_count (db_store d) \<le> kMaxMatrixBytes"
    and "visible w2 path = visible w1 path" and "read_vector_matrix path w2 = (Inr b, w3)"
    and "db_inv e" and "db_holds content h e" and "vs_abs (db_store e) = Map.empty"
    and "room_for (db_config e) (vs_slot_count (db_store e) + vs_live_count (db_store d))"
    and "import_rows env b None [0..<va_count (vb_vectors b)] e = (Inr (), e1)"
  shows "vs_abs (db_store e1) = (\<lambda>vid. map_option (\<lambda>(v, _). stored_row (dc_normalize (db_config e)) v) (vs_abs (db_store d) vid)) \<and>
    db_holds content h e1"
proof -
  note ex = gather_live_rows [OF assms(1-4)] and live = all_ids_live [OF assms(2)]
  have n: "length ids = vs_live_count (db_store d)" using ex live by simp
  have "va_count vs = length (va_rows vs)" by (simp add: va_rows_def)
  then have cnt: "va_count vs = length ids" using ex by (metis length_map)
  have b: "b = \<lparr>vb_vectors = vs, vb_ids = ids\<rparr>"
    by (rule matrix_read_back [OF assms(6) _ assms(5) _ assms(8,9)]) (use ex cnt n assms(7) in simp_all)
  have ids: "set ids = dom (vs_abs (db_store d))" "distinct ids"
    using ex live by (auto simp: db_contains_def vs_contains_def vs_find_def vs_abs_def strict_sorted_iff)
  let ?nrm = "dc_normalize (db_config e)" and ?ws = "map (\<lambda>i. WInsert (ids ! i) (va_view vs i) []) [0..<length ids]"
  have row: "va_view vs i = live_row d (ids ! i)" if "i < length ids" for i
    using that ex cnt nth_va_rows [of i vs] by simp
  have run: "run_writes env ?ws e = (Inr (), e1)"
    using assms(14) b cnt import_is_writes [of b None env "[0..<length ids]"]
    by (cases "ids = []") (simp_all add: import_id_def)
  have "fold (apply_write ?nrm) ?ws (Map.empty, h) = (fold (\<lambda>i V. V(ids ! i \<mapsto> stored_row ?nrm (live_row d (ids ! i)))) [0..<length ids] Map.empty, h)"
    unfolding fold_inserts by (intro arg_cong2 [where f = Pair] refl fold_cong) (simp_all add: row)
  also have "\<dots> = (\<lambda>k. if k \<in> set ids then Some (stored_row ?nrm (live_row d k)) else None, h)"
    by (simp only: fold_rows [OF ids(2) refl, of "\<lambda>k. stored_row ?nrm (live_row d k)"])
  finally have ap: "fold (apply_write ?nrm) ?ws (vs_abs (db_store e), h) = (\<lambda>k. if k \<in> set ids then Some (stored_row ?nrm (live_row d k)) else None, h)"
    by (simp add: assms(12))
  have o: "vs_abs (db_store e1) = (\<lambda>k. if k \<in> set ids then Some (stored_row ?nrm (live_row d k)) else None) \<and> db_holds content h e1"
    using writes_refine [OF assms(1,10,11) _ _ run ap] assms(13) n by (simp add: md_sorted_def)
  have "(if k \<in> set ids then Some (stored_row ?nrm (live_row d k)) else None) = map_option (\<lambda>(v, _). stored_row ?nrm v) (vs_abs (db_store d) k)" for k
    unfolding ids(1) live_row_def by (cases "vs_abs (db_store d) k") (simp_all add: domIff split_beta del: not_None_eq)
  then show ?thesis using o by simp
qed

lemma export_import_round_trip_witness:
  "\<exists>d1 vs ids w1 b w2 e e1. gather_live small_env (small_database small_store 8 []) = (Inr (vs, ids), d1) \<and>
     write_vector_matrix ''v'' vs ids blank_world = (Inr (), w1) \<and> read_vector_matrix ''v'' w1 = (Inr b, w2) \<and>
     vs_abs (db_store e) = Map.empty \<and> import_rows small_env b None [0..<va_count (vb_vectors b)] e = (Inr (), e1) \<and>
     vs_abs (db_store e1) = [7 \<mapsto> stored_row False [0]]"
proof -
  let ?d = "small_database small_store 8 []" and ?v = "\<lparr>va_dimension = 1, va_count = 1, va_storage = [0 :: f32]\<rparr>"
  have abs: "vs_abs small_store = [7 \<mapsto> ([0], 0)]"
    by (rule ext) (simp add: vs_abs_def small_store_def va_view_def va_offset_of_def)
  have all: "db_all_ids ?d = [7]"
    by (simp add: db_all_ids_def live_ids_def small_database_def small_store_def vs_slot_count_def vs_is_live_def)
  obtain md m where g: "ms_get table_sqlite 7 (small_mstore []) = (Inr md, m)" using small_get by blast
  have f: "vs_find (db_store ?d) 7 = Some 0" "va_view (vs_vectors (db_store ?d)) 0 = [0]" "db_metadata ?d = small_mstore []"
    "dc_dimension (db_config ?d) = 1"
    by (simp_all add: small_database_def small_store_def vs_find_def va_view_def va_offset_of_def small_config_def)
  have "db_get small_env 7 ?d = (Inr (Some \<lparr>sv_id = 7, sv_vector = [0], sv_metadata = md\<rparr>), ?d\<lparr>db_metadata := m\<rparr>)"
    using f(1-3) g by (simp add: db_get_def db_read_def abind_def on_metadata_step small_sqlite)
  then have "\<exists>d1. gather_live small_env ?d = (Inr (?v, [7]), d1)"
    using all f(4) by (simp add: gather_live_def db_read_def abind_step va_new_def va_push_back_def kMaxDimension_def kMaxVectorCount_def cast_u32_def)
  then obtain d1 where d1: "gather_live small_env ?d = (Inr (?v, [7]), d1)" by blast
  have ok: "quiet blank_world" "world_ok blank_world" by (auto simp: blank_world_def quiet_def world_ok_def)
  obtain cs where cs: "matrix_chunks ?v [7] = Inr cs" by (simp add: matrix_chunks_def)
  obtain w1 where "write_file_atomically ''v'' cs blank_world = (Inr (), w1)" "quiet w1" by (rule quiet_replacement [OF ok])
  then have w1: "write_vector_matrix ''v'' ?v [7] blank_world = (Inr (), w1)" "quiet w1" using cs by (simp_all add: write_vector_matrix_def abind_def)
  have v: "va_inv ?v" by (simp add: va_inv_def kMaxDimension_def kMaxVectorCount_def)
  obtain r w2 where r: "read_vector_matrix ''v'' w1 = (r, w2)" by fastforce
  have len: "32 + 4 * (va_count ?v * va_dimension ?v) + 8 * length [7 :: u64] \<le> kMaxMatrixBytes" by (simp add: kMaxMatrixBytes_def)
  have w2: "read_vector_matrix ''v'' w1 = (Inr \<lparr>vb_vectors = ?v, vb_ids = [7]\<rparr>, w2)"
    using matrix_round_trip [OF ok(2) v w1(1) len refl r] w1(2) r by blast
  obtain s where s: "vs_new 1 False = Inr s" by (simp add: vs_new_def va_new_def kMaxDimension_def)
  note n = vs_new_ok [OF s] new_store_empty [OF s]
  let ?e = "small_database s 8 []"
  have e: "db_inv ?e" "vs_abs (db_store ?e) = Map.empty" using n by (simp add: small_database_inv) (use n in \<open>simp add: small_database_def\<close>)
  obtain i t where t: "vs_insert s 7 [0] = Inr (i, t)"
    using vs_insert_total [of s 7 "[0]"] n zero_vector_valid by (auto simp: vs_abs_def fun_eq_iff kMaxVectorCount_def)
  let ?e1 = "(small_database t 8 [])\<lparr>db_dirty := True\<rparr>"
  have run: "import_rows small_env \<lparr>vb_vectors = ?v, vb_ids = [7]\<rparr> None [0..<va_count (vb_vectors \<lparr>vb_vectors = ?v, vb_ids = [7]\<rparr>)] ?e = (Inr (), ?e1)"
    using small_insert [OF t, of 8 "[]"] by (simp add: abind_def va_view_def va_offset_of_def)
  have live: "vs_live_count (db_store ?d) = 1" "dc_dimension (db_config ?d) = 1" "vs_slot_count (db_store ?e) = 0"
    using n by (simp_all add: small_database_def small_store_def small_config_def)
  have "vs_abs (db_store ?e1) = (\<lambda>vid. map_option (\<lambda>(v, _). stored_row (dc_normalize (db_config ?e)) v) (vs_abs (db_store ?d) vid))"
    using export_import_round_trip [OF small_laws small_inv small_holds d1 w1(1) ok(2) _ refl w2 e(1) small_holds e(2) _ run] live
    by (simp add: kMaxMatrixBytes_def room_for_def small_database_def small_config_def kMaxVectorCount_def)
  then have "vs_abs (db_store ?e1) = [7 \<mapsto> stored_row False [0]]"
    by (simp add: fun_eq_iff small_database_def abs small_config_def)
  then show ?thesis using d1 w1(1) w2 e(2) run by blast
qed

section \<open>Creating\<close>

text \<open>Further: \<^verbatim>\<open>create\<close> keeps the low 32 bits of the dimension it is given. Whatever number the line asks for, the configuration that is
  read has that number modulo 2 to the 32 as its dimension, and no error says so.\<close>

theorem create_dimension_wraps:
  assumes "map_of (ar_options a) ''dimension'' = Some s" and "from_chars_u64 s = Some n" and "read_create_config a = (Inr c, a')"
  shows "dc_dimension c = unat n mod 2 ^ 32"
proof -
  obtain x b where x: "arg_require_number ''dimension'' a = (Inr x, b)"
    and c: "dc_dimension c = cast_u32 (unat x)"
    using assms(3) unfolding read_create_config_def by (auto simp: act_inv)
  have "s \<noteq> []" using assms(2) by (auto simp: from_chars_u64_def)
  then have "x = n" using x assms(1,2)
    by (auto simp: arg_require_number_def arg_require_def arg_number_def arg_value_def touch_def act_inv)
  then show ?thesis using c by (simp add: cast_u32_def)
qed

lemma create_dimension_wraps_witness:
  "\<exists>a c a'. map_of (ar_options a) ''dimension'' = Some ''4294967297'' \<and> read_create_config a = (Inr c, a') \<and> dc_dimension c = 1"
proof -
  let ?a = "no_args\<lparr>ar_options := [(''dimension'', ''4294967297'')]\<rparr>"
  have d: "map_of (ar_options ?a) ''dimension'' = Some ''4294967297''" by simp
  have f: "from_chars_u64 ''4294967297'' = Some 4294967297"
    by (simp add: from_chars_u64_def is_digit_def digits_value_def)
  have "\<exists>c a'. read_create_config ?a = (Inr c, a')"
    using f by (simp add: read_create_config_def abind_def arg_require_number_def arg_require_def arg_number_def arg_value_def arg_has_def
        named_def touch_def no_args_def alift_def)
  then obtain c a' where r: "read_create_config ?a = (Inr c, a')" by blast
  have "dc_dimension c = unat (4294967297 :: u64) mod 2 ^ 32" by (rule create_dimension_wraps [OF d f r])
  then show ?thesis using r d by (intro exI [of _ ?a]) simp
qed
end
