(* ===== verification/Spec2Isabelle.thy ===== *)
theory Spec2Isabelle
  imports Vdb_ConcurrentProps Vdb_CommandProps
begin

text \<open>
  A vector database in C++20, verified as it is written: vectors of one dimension with 64-bit ids and metadata are kept
  in slots, searched exactly or through an HNSW graph, written to checksummed files and an SQLite file, shared between
  threads and driven from a command line.

  \<^bold>\<open>How the program is translated.\<close> A class is a record of its members, an enumeration a datatype, a method a function from
  the old object to a result and the new object. An exception is a value of the datatype \<open>error\<close> (\<^verbatim>\<open>Vdb_Prelude\<close>, the
  hierarchy of \<^verbatim>\<open>core/error.hpp\<close> without the message texts); code that may throw returns \<open>error + 'a\<close>, and code that
  changes state and may throw is an action that returns the state it leaves in both cases (\<^verbatim>\<open>Vdb_Action\<close>), so that what was
  done before an exception stays done. \<^verbatim>\<open>VectorId\<close>, file offsets and checksums are words of their width; slots and
  dimensions are natural numbers, with each cast to 32 bits written as \<open>cast_u32\<close>. \<^verbatim>\<open>float\<close> and \<^verbatim>\<open>double\<close> are bit patterns with
  rounded IEEE arithmetic (\<^verbatim>\<open>Vdb_Float\<close>): NaN, infinities, signed zeros and subnormals behave as in the program.

  \<^bold>\<open>The parts, from the bottom.\<close>

  \<^item> Data: \<^verbatim>\<open>Vdb_Types\<close> (\<^verbatim>\<open>core/types\<close>), \<^verbatim>\<open>Vdb_Vector\<close> (\<^verbatim>\<open>core/vector\<close>, \<^verbatim>\<open>core/vector_array\<close>), \<^verbatim>\<open>Vdb_Store\<close>
    (\<^verbatim>\<open>storage/vector_store\<close>, a map from ids to rows over parallel arrays with tombstones), \<^verbatim>\<open>Vdb_Heap\<close> and \<^verbatim>\<open>Vdb_TopK\<close>
    (\<^verbatim>\<open>core/top_k\<close> over the heap algorithms of the C++ library).
  \<^item> Distances: \<^verbatim>\<open>Vdb_Distance\<close> (\<^verbatim>\<open>distance/\<close>): the scalar, NEON and AVX2 kernels lane by lane, the choice of one, rank keys.
  \<^item> Indexes: \<^verbatim>\<open>Vdb_Brute\<close> (\<^verbatim>\<open>index/brute_force\<close>); \<^verbatim>\<open>Vdb_HnswGraph\<close>, \<^verbatim>\<open>Vdb_HnswSearch\<close> and \<^verbatim>\<open>Vdb_HnswBuild\<close>
    (\<^verbatim>\<open>index/hnsw\<close>: link blocks, visited stamps, greedy descent, beam search, neighbour selection, insertion);
    \<^verbatim>\<open>Vdb_Index\<close> is the abstract class as a sum of the two with its contract as the locale \<open>vector_index\<close>.
  \<^item> Files: \<^verbatim>\<open>Vdb_FileIO\<close> and \<^verbatim>\<open>Vdb_FileFrame\<close> (\<^verbatim>\<open>persistence/file_io\<close> over an operating system with failing calls, short
    transfers, signals and crashes), \<^verbatim>\<open>Vdb_ByteIO\<close> (\<^verbatim>\<open>persistence/byte_io\<close>, CRC-32), \<^verbatim>\<open>Vdb_VectorFile\<close>, \<^verbatim>\<open>Vdb_HnswFile\<close>.
  \<^item> Metadata: \<^verbatim>\<open>Vdb_Filter\<close> (values, filters and their parser), \<^verbatim>\<open>Vdb_Sqlite\<close> (\<^verbatim>\<open>storage/sqlite\<close>), \<^verbatim>\<open>Vdb_MetadataStore\<close>, with the
    laws of SQLite in \<^verbatim>\<open>Vdb_MetadataSpec\<close> and the properties in \<^verbatim>\<open>Vdb_Metadata\<close>.
  \<^item> Database: \<^verbatim>\<open>Vdb_Database\<close> and \<^verbatim>\<open>Vdb_DatabaseOpen\<close> (\<^verbatim>\<open>db/database\<close>: a store, an index over its accessor, a metadata store
    and the next automatic id); \<^verbatim>\<open>Vdb_DatabaseSpec\<close> (the invariant of every operation), \<^verbatim>\<open>Vdb_DatabaseStart\<close> (what opening
    intact files gives), \<^verbatim>\<open>Vdb_DatabaseRun\<close> (calls as steps, the states they reach from \<open>db_create\<close> and \<open>db_open\<close>, writes as
    updates of two maps), \<^verbatim>\<open>Vdb_DatabaseProps\<close>, \<^verbatim>\<open>Vdb_Reopen\<close> (flush and open).
  \<^item> Threads: \<^verbatim>\<open>Vdb_ThreadPool\<close> (\<^verbatim>\<open>concurrency/thread_pool\<close>: every critical section a step), \<^verbatim>\<open>Vdb_Concurrent\<close> and
    \<^verbatim>\<open>Vdb_ConcurrentProps\<close> (\<^verbatim>\<open>db/concurrent_database\<close>: calls as programs of atomic pieces under a reader-writer lock).
  \<^item> Command line: \<^verbatim>\<open>Vdb_VectorIO\<close> and \<^verbatim>\<open>Vdb_VectorText\<close> (\<^verbatim>\<open>util/vector_io\<close>), \<^verbatim>\<open>Vdb_Rng\<close> (\<^verbatim>\<open>util/dataset\<close>), \<^verbatim>\<open>Vdb_Args\<close>,
    \<^verbatim>\<open>Vdb_Output\<close> and \<^verbatim>\<open>Vdb_Commands\<close> (\<^verbatim>\<open>cli/\<close>, and the log file of \<^verbatim>\<open>core/logging\<close>, which a run may create), with the
    properties in \<^verbatim>\<open>Vdb_CommandLine\<close> (options, exit codes) and \<^verbatim>\<open>Vdb_CommandProps\<close> (what commands leave behind).

  \<^bold>\<open>What is shown.\<close> For the components: invariants kept by every operation, refinement of an abstract type (rows, a map, a set
  of visited slots, a table), exactness of the brute-force search and of the graph search where it must be exact, soundness of
  the graph search everywhere, round trips of every format, and what damage each reader detects. For the whole: a database
  created, written to, flushed and opened again holds what a map of vectors and a map of metadata hold after the same
  writes; every state that calls can reach from a new database or from one opened over intact files, by returning or by
  throwing, is consistent; replacing a file is atomic under crashes; calls of many threads answer as they would one after the
  other, and neither the pool nor the lock gets stuck; an insert that the command line confirms is there for the next
  process, an unknown option changes nothing but the log file, and every exit code means one thing. Where the code
  does not do what it means to, a theorem says what it does instead.

  \<^bold>\<open>Interfaces.\<close> Contracts between components are locales interpreted on the model: \<open>field_codec\<close>, \<open>kernel_laws\<close>,
  \<open>std_heap\<close>, \<open>row_array\<close>, \<open>id_map\<close>, \<open>visit_marks\<close>, \<open>vector_index\<close>.

  \<^bold>\<open>Bounds and termination.\<close> No definition uses fuel. Loops are recursive functions with a measure: the greedy descent falls
  along the finite order of keys, the beam search marks a new slot or shrinks its frontier, the reading loops consume the
  file or the list of coming outcomes. The code truncates the offsets of the upper links to 32 bits without a test, so what
  adds a node has a bound: \<open>ix_room\<close>, fewer than 2 to the 32 words before the call, where a single insert is concerned, and
  \<open>room_for\<close>, slots few enough at any levels drawn (about a million with M = 16), where a graph is built anew (opening
  without an index file, rebuilding, compaction) or a whole history is followed.

  \<^bold>\<open>Parameters.\<close> Code that is not in the repository is an argument: SQLite (a record of its calls; \<open>sqlite_laws\<close> and \<open>law_open\<close>
  state what its documentation promises of the texts the store runs, and a small table database satisfies them),
  \<^verbatim>\<open>std::log\<close>, \<^verbatim>\<open>logf\<close>, \<^verbatim>\<open>cosf\<close>, reading and printing of floating-point numbers, the clock, the CPU features, and what the
  operating system answers about directories.

  \<^bold>\<open>Not modelled.\<close> Capacities and their figures (\<^verbatim>\<open>reserve\<close>, \<^verbatim>\<open>memory_bytes\<close>, \<^verbatim>\<open>allocated_bytes\<close>), message texts, the log stream and the
  build strings, the Windows branch of the file layer, \<^verbatim>\<open>madvise\<close> hints, and the texts on the error stream. In the
  concurrent histories every call takes the lock once: \<^verbatim>\<open>batch_search\<close>, which waits for the pool while it holds the lock, is
  modelled apart from them, and the callbacks of \<^verbatim>\<open>with_exclusive_access\<close> and \<^verbatim>\<open>with_shared_access\<close> are the caller's code.
  \<^verbatim>\<open>std::sort\<close> and the heap algorithms are total in the model; C++ leaves their behaviour undefined on NaN keys, and that of the
  cast of an infinite import rate.
\<close>

end
